(* ===== verification/Prelude.thy ===== *)
theory Prelude
  imports Main "HOL-Library.Word" "HOL-Library.Monad_Syntax"
begin

text \<open>
  Shared vocabulary of the development: addresses and machine sizes, the monad of
  assertions, byte ranges, and the arithmetic of power-of-two aligned ranges on which the
  allocators rest. Addresses are natural numbers and address 0 is the null pointer.
\<close>

unbundle bit_operations_syntax

section \<open>Names\<close>

type_synonym addr = nat
type_synonym u16 = "16 word"
type_synonym u32 = "32 word"
type_synonym u64 = "64 word"
type_synonym byte = "8 word"

abbreviation (input) NULL :: addr where
  "NULL \<equiv> 0"

abbreviation (input) SIZE_MAX :: nat where
  "SIZE_MAX \<equiv> 2 ^ 64 - 1"

named_theorems dyadic \<open>facts on aligned power-of-two ranges\<close>
named_theorems run_simps \<open>evaluation of the assertion monad\<close>

section \<open>Assertions\<close>

text \<open>
  \<open>assert()\<close> of the C code. A function whose body asserts has an \<open>option\<close> result:
  \<open>None\<close> is the aborted run, \<open>Some r\<close> a run in which every assertion held. A theorem
  that a function returns \<open>Some\<close> is therefore also a theorem that the build with
  assertions disabled computes the same result.
\<close>

definition c_assert :: "bool \<Rightarrow> unit option" where
  "c_assert b = (if b then Some () else None)"

lemma c_assert_bind [simp, run_simps]: "Option.bind (c_assert b) f = (if b then f () else None)"
  by (simp add: c_assert_def)

lemma c_assert_True [simp, run_simps]: "c_assert True = Some ()"
  by (simp add: c_assert_def)

lemma if_None_eq_Some [run_simps]: "((if b then x else None) = Some y) \<longleftrightarrow> b \<and> x = Some y"
  by simp

lemma bind_eq_SomeE:
  assumes "Option.bind x f = Some y"
  obtains z where "x = Some z" and "f z = Some y"
  using assms by (cases x) auto

section \<open>Byte ranges\<close>

definition span :: "addr \<Rightarrow> nat \<Rightarrow> addr set" where
  "span a n = {a ..< a + n}"

lemma in_span [simp]: "x \<in> span a n \<longleftrightarrow> a \<le> x \<and> x < a + n"
  by (auto simp: span_def)

lemma span_0 [simp]: "span a 0 = {}"
  by (auto simp: span_def)

lemma span_subset: "b \<le> a \<Longrightarrow> a + n \<le> b + m \<Longrightarrow> span a n \<subseteq> span b m"
  by auto

lemma span_subset_bounds:
  assumes "span a n \<subseteq> span b m" and "0 < n"
  shows "b \<le> a" and "a + n \<le> b + m"
proof -
  have "a \<in> span b m" by (rule subsetD [OF assms(1)]) (simp add: assms(2))
  moreover have "a + (n - 1) \<in> span b m" by (rule subsetD [OF assms(1)]) (use assms(2) in auto)
  ultimately show "b \<le> a" "a + n \<le> b + m" using assms(2) by auto
qed

lemma span_halves: "span a (2 * n) = span a n \<union> span (a + n) n"
  by auto

lemma span_disjoint_iff:
  assumes "0 < n" and "0 < m"
  shows "span a n \<inter> span b m = {} \<longleftrightarrow> a + n \<le> b \<or> b + m \<le> a"
proof
  assume d: "span a n \<inter> span b m = {}"
  show "a + n \<le> b \<or> b + m \<le> a"
  proof (rule ccontr)
    assume "\<not> (a + n \<le> b \<or> b + m \<le> a)"
    then have "max a b \<in> span a n \<inter> span b m"
      using assms by (auto simp: max_def)
    with d show False by simp
  qed
qed auto

section \<open>Aligned ranges\<close>

lemma dvd_less_add_le [dyadic]:
  fixes a b d :: nat
  assumes "d dvd a" and "d dvd b" and "b < a + d"
  shows "b \<le> a"
proof -
  from assms obtain p q where "a = d * p" "b = d * q"
    by (auto elim!: dvdE)
  with assms(3) have "d * q < d * (p + 1)" by simp
  then have "q < p + 1" using mult_less_cancel1 by blast
  with \<open>a = d * p\<close> \<open>b = d * q\<close> show ?thesis by simp
qed

lemma span_aligned_nested [dyadic]:
  fixes a b :: nat
  assumes a: "2 ^ i dvd a" and b: "2 ^ j dvd b" and ij: "i \<le> j"
    and x: "x \<in> span a (2 ^ i)" "x \<in> span b (2 ^ j)"
  shows "span a (2 ^ i) \<subseteq> span b (2 ^ j)"
proof -
  have d: "(2::nat) ^ i dvd 2 ^ j" using ij by (rule le_imp_power_dvd)
  have b': "2 ^ i dvd b" "2 ^ i dvd b + 2 ^ j"
    using dvd_trans [OF d b] d by (simp_all add: dvd_add)
  have "b \<le> a" using x dvd_less_add_le [OF a b'(1)] by simp
  moreover have "a + 2 ^ i \<le> b + 2 ^ j"
  proof (rule ccontr)
    assume "\<not> ?thesis"
    then have "b + 2 ^ j < a + 2 ^ i" by simp
    then have "b + 2 ^ j \<le> a" by (rule dvd_less_add_le [OF a b'(2)])
    with x show False by simp
  qed
  ultimately show ?thesis by (rule span_subset)
qed

lemma span_same_size_disjoint [dyadic]:
  fixes a b :: nat
  assumes "d dvd a" and "d dvd b" and "a \<noteq> b"
  shows "span a d \<inter> span b d = {}"
proof (rule ccontr)
  assume "\<not> ?thesis"
  then obtain x where "a \<le> x" "x < a + d" "b \<le> x" "x < b + d" by auto
  then have "b \<le> a" "a \<le> b"
    using assms dvd_less_add_le by auto
  with assms(3) show False by simp
qed

text \<open>The bit operation that finds a buddy adds or subtracts the block size.\<close>

lemma xor_power_nat: "a XOR 2 ^ n = (if bit a n then a - 2 ^ n else a + 2 ^ n)" for a :: nat
proof -
  have "a XOR 2 ^ n = flip_bit n a"
    by (simp add: flip_bit_eq_xor push_bit_eq_mult)
  moreover have "flip_bit n a = a + 2 ^ n" if "\<not> bit a n"
    using that by (simp add: flip_bit_eq_if set_bit_eq)
  moreover have "flip_bit n a = a - 2 ^ n" if "bit a n"
  proof -
    have "set_bit n (unset_bit n a) = unset_bit n a + 2 ^ n"
      by (simp add: set_bit_eq bit_unset_bit_iff)
    moreover have "set_bit n (unset_bit n a) = a"
      using that by (intro bit_eqI) (auto simp: bit_simps)
    ultimately show ?thesis using that by (simp add: flip_bit_eq_if)
  qed
  ultimately show ?thesis by simp
qed

lemma aligned_bit_nat: "2 ^ n dvd a \<Longrightarrow> bit a n \<longleftrightarrow> \<not> 2 ^ Suc n dvd a" for a :: nat
  by (auto simp: bit_iff_odd elim!: dvdE)

lemma bit_imp_power_le_nat: "bit a n \<Longrightarrow> 2 ^ n \<le> a" for a :: nat
  by (rule ccontr) (simp add: bit_iff_odd)

lemma diff_power_less_nat: "bit a n \<Longrightarrow> a - 2 ^ n < a" for a :: nat
  using bit_imp_power_le_nat [of a n] by (intro diff_less) (auto intro: less_le_trans [rotated])

lemma xor_power_aligned:
  fixes a :: nat
  assumes "2 ^ n dvd a"
  shows "2 ^ n dvd a XOR 2 ^ n"
  using assms by (simp add: xor_power_nat dvd_diff_nat)

lemma xor_power_neq: "a XOR 2 ^ n \<noteq> a" for a :: nat
  using diff_power_less_nat [of a n] by (auto simp: xor_power_nat)

lemma xor_power_twice: "(a XOR 2 ^ n) XOR 2 ^ n = a" for a :: nat
  by (simp add: xor.assoc)

text \<open>The two halves of an aligned range of twice the size: the lower one and its buddy.\<close>

lemma xor_power_parent:
  fixes a :: nat
  assumes "2 ^ n dvd a"
  defines "p \<equiv> min a (a XOR 2 ^ n)"
  shows "2 ^ Suc n dvd p" and "{a, a XOR 2 ^ n} = {p, p + 2 ^ n}"
proof -
  have *: "2 ^ Suc n dvd a - 2 ^ n" "2 ^ n \<le> a" if "bit a n"
  proof -
    from assms(1) obtain k where k: "a = 2 ^ n * k" by (auto elim: dvdE)
    with that have "odd k" by (simp add: bit_iff_odd)
    then obtain j where "k = 2 * j + 1" by (rule oddE)
    with k show "2 ^ Suc n dvd a - 2 ^ n" by (simp add: algebra_simps)
    show "2 ^ n \<le> a" using that by (rule bit_imp_power_le_nat)
  qed
  have p: "p = (if bit a n then a - 2 ^ n else a)"
    using diff_power_less_nat [of a n] by (auto simp: p_def xor_power_nat min_def)
  show "2 ^ Suc n dvd p"
    using *(1) aligned_bit_nat [OF assms(1)] by (simp add: p)
  show "{a, a XOR 2 ^ n} = {p, p + 2 ^ n}"
    using *(2) by (auto simp: p xor_power_nat)
qed

lemma nat_mod_power: "i = int n \<Longrightarrow> n < 2 ^ k \<Longrightarrow> nat (i mod 2 ^ k) = n"
  by (simp add: nat_mod_distrib nat_power_eq)

section \<open>Bit positions\<close>

text \<open>
  The position of the highest set bit, the value \<open>63 - __builtin_clzl(x)\<close> (and
  \<open>31 - __builtin_clz(x)\<close>) of the C code; the builtins leave 0 undefined.
\<close>

fun ilog2 :: "nat \<Rightarrow> nat" where
  "ilog2 n = (if n \<le> 1 then 0 else Suc (ilog2 (n div 2)))"

declare ilog2.simps [simp del]

lemma ilog2_bounds: "0 < n \<Longrightarrow> 2 ^ ilog2 n \<le> n \<and> n < 2 * 2 ^ ilog2 n"
proof (induction n rule: ilog2.induct)
  case (1 n)
  show ?case
  proof (cases "n \<le> 1")
    case True
    with "1.prems" show ?thesis by (simp add: ilog2.simps [of n])
  next
    case False
    with "1.IH" have "2 ^ ilog2 (n div 2) \<le> n div 2 \<and> n div 2 < 2 * 2 ^ ilog2 (n div 2)"
      by simp
    with False show ?thesis by (simp add: ilog2.simps [of n]) linarith
  qed
qed

lemma ilog2_unique:
  assumes "2 ^ k \<le> n" and "n < 2 * 2 ^ k"
  shows "ilog2 n = k"
proof -
  have n: "0 < n" using assms(1) by (rule less_le_trans [rotated]) simp
  from ilog2_bounds [OF n] have b: "2 ^ ilog2 n \<le> n" "n < 2 ^ Suc (ilog2 n)" by simp_all
  from assms b have "(2::nat) ^ k < 2 ^ Suc (ilog2 n)" "(2::nat) ^ ilog2 n < 2 ^ Suc k"
    by simp_all
  then have "k < Suc (ilog2 n)" "ilog2 n < Suc k"
    by (simp_all only: power_strict_increasing_iff one_less_numeral_iff semiring_norm)
  then show ?thesis by simp
qed

lemma ilog2_power [simp]: "ilog2 (2 ^ k) = k"
  by (rule ilog2_unique) simp_all

section \<open>Counting elements of finite sets with weights\<close>

lemma sum_list_remove1:
  "x \<in> set xs \<Longrightarrow> sum_list (map f (remove1 x xs)) = sum_list (map f xs) - (f x :: int)"
  by (induction xs) auto

lemma set_remove1_distinct: "distinct xs \<Longrightarrow> set (remove1 x xs) = set xs - {x}"
  by (rule set_remove1_eq)

end
