(* ===== verification/Util.thy ===== *)
theory Util
  imports Prelude
begin

text \<open>
  The size arithmetic of \<open>include/small/util.h\<close>: rounding to an alignment, to a power of
  two, and the binary logarithm of a size. \<open>size_t\<close> and \<open>unsigned long\<close> are 64-bit words,
  and each routine is shown to compute the number-theoretic function it stands for
  (\<open>align_up\<close>, \<open>align_down\<close>, the least power of two above, \<open>ilog2\<close>), which the models of the
  allocators use on natural numbers.
\<close>

section \<open>Definitions\<close>

text \<open>\<open>__builtin_clzl\<close>: the number of leading zero bits of a nonzero 64-bit word.\<close>

definition clzl :: "u64 \<Rightarrow> nat" where
  "clzl x = 63 - ilog2 (unat x)"

definition is_pow2 :: "u64 \<Rightarrow> bool" where
  "is_pow2 a \<longleftrightarrow> a AND (a - 1) = 0"

definition small_getpagesize :: "int \<Rightarrow> int" where
  "small_getpagesize page_size = (if page_size < 1 then 4096 else page_size)"

definition small_align :: "u64 \<Rightarrow> u64 \<Rightarrow> u64 option" where
  "small_align sz alignment = do {
     c_assert (is_pow2 alignment);
     c_assert (sz \<le> - 1 - alignment);
     Some ((sz - 1 + alignment) AND NOT (alignment - 1)) }"

definition small_align_down :: "u64 \<Rightarrow> u64 \<Rightarrow> u64 option" where
  "small_align_down value alignment = do {
     c_assert (is_pow2 alignment);
     Some (value AND NOT (alignment - 1)) }"

definition small_round :: "u64 \<Rightarrow> u64 option" where
  "small_round sz =
     (if sz < 2 then Some sz
      else do {
        c_assert (sz \<le> (- 1) div 2 + 1);
        c_assert (sz - 1 \<le> - 1);
        Some (push_bit (64 - clzl (sz - 1)) 1) })"

definition small_lb :: "u64 \<Rightarrow> nat" where
  "small_lb sz = 64 - clzl sz - 1"

text \<open>The functions on natural numbers these routines compute.\<close>

definition align_up :: "nat \<Rightarrow> nat \<Rightarrow> nat" where
  "align_up n a = (n + a - 1) div a * a"

definition align_down :: "nat \<Rightarrow> nat \<Rightarrow> nat" where
  "align_down n a = n div a * a"

definition round_pow2 :: "nat \<Rightarrow> nat" where
  "round_pow2 n = (if n < 2 then n else 2 ^ Suc (ilog2 (n - 1)))"

section \<open>The arithmetic functions\<close>

lemma align_up_dvd [simp]: "a dvd align_up n a"
  by (simp add: align_up_def)

lemma align_up_bounds:
  assumes "0 < a"
  shows "n \<le> align_up n a \<and> align_up n a < n + a"
proof -
  have "(n + a - 1) div a * a + (n + a - 1) mod a = n + a - 1" by simp
  moreover have "(n + a - 1) mod a < a" using assms by simp
  ultimately show ?thesis using assms unfolding align_up_def by linarith
qed

lemma align_up_least:
  assumes "0 < a" and "a dvd m" and "n \<le> m"
  shows "align_up n a \<le> m"
proof (rule dvd_less_add_le [OF assms(2) align_up_dvd])
  show "align_up n a < m + a"
    using align_up_bounds [OF assms(1), of n] assms(3) by linarith
qed

lemma align_up_ge: "0 < a \<Longrightarrow> n \<le> align_up n a"
  using align_up_bounds by blast

lemma align_up_id: "0 < a \<Longrightarrow> a dvd n \<Longrightarrow> align_up n a = n"
  using align_up_least [of a n n] align_up_bounds [of a n] by simp

lemma align_up_1 [simp]: "align_up n 1 = n" "align_up n (Suc 0) = n"
  by (simp_all add: align_up_def)

lemma align_down_bounds: "0 < a \<Longrightarrow> align_down n a \<le> n \<and> n < align_down n a + a"
  by (metis align_down_def add.commute add_less_cancel_left div_mult_mod_eq le_add2 mod_less_divisor
      mult.commute)

lemma round_pow2_bounds:
  assumes "2 \<le> n"
  shows "n \<le> round_pow2 n \<and> round_pow2 n < 2 * n"
proof -
  from assms have "0 < n - 1" by simp
  from ilog2_bounds [OF this] assms show ?thesis by (simp add: round_pow2_def) linarith
qed

section \<open>Words\<close>

lemma nat_and_pred_0:
  fixes n :: nat
  assumes "n AND (n - 1) = 0" and "0 < n"
  shows "n = 2 ^ ilog2 n"
proof (rule ccontr)
  assume ne: "n \<noteq> 2 ^ ilog2 n"
  let ?k = "ilog2 n"
  from ilog2_bounds [OF assms(2)] have b: "2 ^ ?k \<le> n" "n < 2 * 2 ^ ?k" by simp_all
  have "n div 2 ^ ?k = 1" "(n - 1) div 2 ^ ?k = 1"
    using b ne by (auto intro!: div_nat_eqI)
  then have "bit n ?k" "bit (n - 1) ?k" by (simp_all add: bit_iff_odd)
  then have "bit (n AND (n - 1)) ?k" by (simp add: bit_and_iff)
  with assms(1) show False by simp
qed

lemma is_pow2_unat:
  assumes "is_pow2 a" and "a \<noteq> 0"
  obtains k where "k < 64" and "a = 2 ^ k" and "unat a = 2 ^ k"
proof -
  have "unat a AND (unat a - 1) = unat (a AND (a - 1))"
    using assms(2) by (simp add: unsigned_and_eq unat_minus_one)
  also have "\<dots> = 0" using assms(1) by (simp add: is_pow2_def)
  finally have u: "unat a = 2 ^ ilog2 (unat a)"
    using assms(2) by (intro nat_and_pred_0) (auto simp: unat_gt_0)
  have k: "ilog2 (unat a) < 64"
  proof (rule ccontr)
    assume "\<not> ?thesis"
    then have "(2::nat) ^ 64 \<le> 2 ^ ilog2 (unat a)" by (intro power_increasing) simp_all
    moreover have "unat a < 2 ^ 64" using unsigned_less [of a] by simp
    ultimately show False using u by linarith
  qed
  have "a = of_nat (unat a)" by simp
  also have "\<dots> = 2 ^ ilog2 (unat a)" by (subst u) simp
  finally show thesis using k u that by blast
qed

lemma unat_power_u64: "k < 64 \<Longrightarrow> unat (2 ^ k :: u64) = 2 ^ k"
proof -
  assume "k < 64"
  then have "(2::nat) ^ k < 2 ^ 64" by (intro power_strict_increasing) simp_all
  then show ?thesis using unat_of_nat [where 'a = 64, of "2 ^ k"] by (simp del: power_numeral)
qed

lemma is_pow2_power: "k < 64 \<Longrightarrow> is_pow2 (2 ^ k)"
proof -
  assume k: "k < 64"
  have m: "(2 ^ k - 1 :: u64) = mask k" by (simp add: mask_eq_exp_minus_1)
  have "(2 ^ k AND mask k :: u64) = 0"
    by (intro bit_eqI) (auto simp: bit_simps)
  then show ?thesis by (simp add: is_pow2_def m)
qed

lemma unat_and_not_mask:
  assumes "k < 64"
  shows "unat (x AND NOT (2 ^ k - 1) :: u64) = align_down (unat x) (2 ^ k)"
proof -
  have "(2 ^ k - 1 :: u64) = mask k" by (simp add: mask_eq_exp_minus_1)
  then have "unat (x AND NOT (2 ^ k - 1)) = push_bit k (drop_bit k (unat x))"
    by (intro bit_eqI) (auto simp: bit_simps dest: bit_imp_le_length)
  then show ?thesis by (simp add: push_bit_eq_mult drop_bit_eq_div align_down_def)
qed

section \<open>What the word routines compute\<close>

text \<open>
  Rounding up to an alignment: for a power of two the two assertions are the whole
  precondition, and the result is the least multiple of the alignment not below the size.
\<close>

lemma small_align_correct:
  assumes "is_pow2 alignment" and "alignment \<noteq> 0" and "unat sz + unat alignment < 2 ^ 64"
  shows "\<exists>r. small_align sz alignment = Some r \<and> unat r = align_up (unat sz) (unat alignment)"
proof -
  from assms(1,2) obtain k where k: "k < 64" "alignment = 2 ^ k" "unat alignment = 2 ^ k"
    by (rule is_pow2_unat)
  have "sz \<le> - 1 - alignment"
  proof -
    have "unat (- 1 - alignment) = 2 ^ 64 - 1 - unat alignment"
      by (subst unat_sub) (simp_all add: word_order.extremum unsigned_minus_1_eq_mask mask_eq_exp_minus_1)
    then show ?thesis using assms(3) by (simp add: word_le_nat_alt)
  qed
  moreover have "unat (sz - 1 + alignment) = unat sz + unat alignment - 1"
  proof -
    have "unat (sz + alignment) = unat sz + unat alignment"
      using assms(3) by (simp add: unat_plus_if')
    moreover have "sz + alignment \<noteq> 0"
      using calculation assms(2) by (metis add_is_0 unat_eq_zero unat_0)
    ultimately have "unat (sz + alignment - 1) = unat sz + unat alignment - 1"
      by (simp add: unat_minus_one)
    then show ?thesis by (simp add: algebra_simps)
  qed
  ultimately show ?thesis
    using assms(1) k by (simp add: small_align_def unat_and_not_mask align_down_def align_up_def)
qed

lemma small_align_down_correct:
  assumes "is_pow2 alignment" and "alignment \<noteq> 0"
  shows "\<exists>r. small_align_down v alignment = Some r \<and> unat r = align_down (unat v) (unat alignment)"
proof -
  from assms obtain k where "k < 64" "alignment = 2 ^ k" "unat alignment = 2 ^ k"
    by (rule is_pow2_unat)
  with assms(1) show ?thesis by (simp add: small_align_down_def unat_and_not_mask)
qed

lemma ilog2_u64: "x \<noteq> 0 \<Longrightarrow> ilog2 (unat x) < 64" for x :: u64
proof -
  assume "x \<noteq> 0"
  then have "2 ^ ilog2 (unat x) \<le> unat x"
    using ilog2_bounds [of "unat x"] by (simp add: unat_gt_0)
  also have "unat x < 2 ^ 64" using unsigned_less [of x] by simp
  finally show ?thesis by (simp only: power_strict_increasing_iff one_less_numeral_iff semiring_norm)
qed

lemma small_lb_correct: "x \<noteq> 0 \<Longrightarrow> small_lb x = ilog2 (unat x)"
  using ilog2_u64 [of x] by (simp add: small_lb_def clzl_def)

lemma small_round_correct:
  assumes "unat sz \<le> 2 ^ 63"
  shows "\<exists>r. small_round sz = Some r \<and> unat r = round_pow2 (unat sz)"
proof (cases "sz < 2")
  case True
  then show ?thesis by (simp add: small_round_def round_pow2_def word_less_nat_alt)
next
  case False
  then have two: "2 \<le> unat sz" by (simp add: word_less_nat_alt)
  have "unat ((- 1) div 2 + 1 :: u64) = 2 ^ 63" by simp
  then have a: "sz \<le> (- 1) div 2 + 1" using assms by (simp add: word_le_nat_alt)
  have u: "unat (sz - 1) = unat sz - 1" using two by (subst unat_minus_one) auto
  let ?l = "ilog2 (unat sz - 1)"
  have "2 ^ ?l \<le> unat sz - 1" using ilog2_bounds [of "unat sz - 1"] two by simp
  then have "(2::nat) ^ ?l < 2 ^ 63" using assms two by linarith
  then have l: "?l < 63" by (simp only: power_strict_increasing_iff one_less_numeral_iff semiring_norm)
  have "64 - clzl (sz - 1) = Suc ?l" using l by (simp add: clzl_def u)
  moreover have "unat (push_bit (Suc ?l) (1 :: u64)) = 2 ^ Suc ?l"
    using l unat_power_u64 [of "Suc ?l"] by (simp add: push_bit_eq_mult)
  ultimately show ?thesis
    using False a two by (simp add: small_round_def round_pow2_def)
qed

section \<open>Properties\<close>

text \<open>C36: \<open>small_align\<close> returns the least multiple of the alignment that is not below the size, for every
  size and power-of-two alignment whose sum is representable.\<close>

theorem small_align_least:
  assumes "is_pow2 alignment" and "alignment \<noteq> 0" and "unat sz + unat alignment < 2 ^ 64"
  shows "\<exists>r. small_align sz alignment = Some r \<and> unat alignment dvd unat r \<and> unat sz \<le> unat r \<and>
    (\<forall>m. unat alignment dvd m \<and> unat sz \<le> m \<longrightarrow> unat r \<le> m)"
proof -
  have "0 < unat alignment" using assms(2) by (simp add: unat_gt_0)
  then show ?thesis using small_align_correct [OF assms] align_up_least [of "unat alignment"] align_up_ge by auto
qed

theorem small_align_least_witness: "small_align 100 64 = Some 128"
proof -
  have "is_pow2 64" by (simp add: is_pow2_def)
  from small_align_least [OF this, of 100] obtain r where r: "small_align 100 64 = Some r" "64 dvd unat r"
    "100 \<le> unat r" "\<forall>m. 64 dvd m \<and> 100 \<le> m \<longrightarrow> unat r \<le> m" by auto
  from r(2) obtain k where k: "unat r = 64 * k" by (auto elim: dvdE)
  have "unat r \<le> 128" using r(4) by simp
  then have "unat r = 128" using k r(3) by presburger
  then have "unat r = unat (128 :: u64)" by simp
  then show ?thesis using r(1) by (simp add: word_unat_eq_iff)
qed

text \<open>\<open>small_round\<close> returns the least power of two that is not below the size, for every size up to
  the largest power of two of a \<open>size_t\<close>.\<close>

theorem small_round_least:
  assumes "2 \<le> unat sz" and "unat sz \<le> 2 ^ 63"
  shows "\<exists>r k. small_round sz = Some r \<and> unat r = 2 ^ k \<and> unat sz \<le> 2 ^ k \<and> (\<forall>j. unat sz \<le> 2 ^ j \<longrightarrow> k \<le> j)"
proof -
  obtain r where r: "small_round sz = Some r" "unat r = round_pow2 (unat sz)" using small_round_correct [OF assms(2)] by blast
  define k where "k = Suc (ilog2 (unat sz - 1))"
  have k: "round_pow2 (unat sz) = 2 ^ k" using assms(1) by (simp add: round_pow2_def k_def)
  note b = round_pow2_bounds [OF assms(1), unfolded k]
  have "k \<le> j" if "unat sz \<le> 2 ^ j" for j
  proof -
    have "(2::nat) ^ k < 2 ^ Suc j" using b that by simp
    then have "k < Suc j" by (simp only: power_strict_increasing_iff one_less_numeral_iff semiring_norm)
    then show ?thesis by simp
  qed
  then show ?thesis using r k b by auto
qed

theorem small_round_least_witness: "\<exists>r. small_round 100 = Some r \<and> 100 \<le> unat r"
  using small_round_least [of 100] by auto

end
