(* ===== verification/Quota.thy ===== *)
theory Quota
  imports Util
begin

text \<open>
  \<open>include/small/quota.h\<close>: a memory limit shared by threads, packed in one 64-bit word (total
  in the high half, used in the low half, both in units of 1024 bytes) and changed by
  compare-and-exchange loops. Each loop body is a definition (\<open>..._pass\<close>), the operation
  without contention is the loop that exits at its first exchange, and \<open>quota_step\<close> is the
  system of any number of threads whose loads and exchanges interleave.
\<close>

section \<open>The word and its two halves\<close>

record quota =
  qvalue :: u64

definition QUOTA_UNIT_SIZE :: u64 where
  "QUOTA_UNIT_SIZE = 1024"

definition UINT32_MAX :: u64 where
  "UINT32_MAX = 4294967295"

definition QUOTA_MAX :: u64 where
  "QUOTA_MAX = (if unat QUOTA_UNIT_SIZE * unat UINT32_MAX > SIZE_MAX
                then - 1 - QUOTA_UNIT_SIZE + 1 else QUOTA_UNIT_SIZE * UINT32_MAX)"

definition total_in_units :: "u64 \<Rightarrow> u32" where
  "total_in_units v = ucast (drop_bit 32 v)"

definition used_in_units :: "u64 \<Rightarrow> u32" where
  "used_in_units v = ucast (v AND UINT32_MAX)"

definition pack_units :: "u32 \<Rightarrow> u32 \<Rightarrow> u64" where
  "pack_units tot used = push_bit 32 (ucast tot) OR ucast used"

definition size_in_units :: "u64 \<Rightarrow> u32" where
  "size_in_units sz = ucast ((sz + (QUOTA_UNIT_SIZE - 1)) div QUOTA_UNIT_SIZE)"

section \<open>Operations\<close>

definition quota_init :: "u64 \<Rightarrow> quota" where
  "quota_init tot =
     (let new_total = (tot + (QUOTA_UNIT_SIZE - 1)) div QUOTA_UNIT_SIZE
      in \<lparr>qvalue = push_bit 32 new_total\<rparr>)"

definition quota_total :: "quota \<Rightarrow> u64" where
  "quota_total q = drop_bit 32 (qvalue q) * QUOTA_UNIT_SIZE"

definition quota_used :: "quota \<Rightarrow> u64" where
  "quota_used q = (qvalue q AND UINT32_MAX) * QUOTA_UNIT_SIZE"

definition quota_get_total_and_used :: "quota \<Rightarrow> u64 \<times> u64" where
  "quota_get_total_and_used q =
     (let v = qvalue q
      in (drop_bit 32 v * QUOTA_UNIT_SIZE, (v AND UINT32_MAX) * QUOTA_UNIT_SIZE))"

text \<open>
  One pass of each loop, from the loaded value to the exchange. \<open>None\<close> is a failed
  assertion, \<open>Some None\<close> the return of \<open>-1\<close>, \<open>Some (Some v)\<close> the exchange with \<open>v\<close>.
\<close>

definition quota_set_pass :: "u32 \<Rightarrow> u64 \<Rightarrow> u64 option option" where
  "quota_set_pass new_total_in_units v =
     (let used = used_in_units v
      in if new_total_in_units < used then Some None
         else Some (Some (pack_units new_total_in_units used)))"

definition quota_use_pass :: "u32 \<Rightarrow> u64 \<Rightarrow> u64 option option" where
  "quota_use_pass units v =
     (let tot = total_in_units v; used = used_in_units v; new_used = used + units
      in do {
        c_assert (new_used > used);
        if new_used > tot then Some None
        else Some (Some (pack_units tot new_used)) })"

definition quota_release_pass :: "u32 \<Rightarrow> u64 \<Rightarrow> u64 option option" where
  "quota_release_pass units v =
     (let tot = total_in_units v; used = used_in_units v
      in do {
        c_assert (units \<le> used);
        Some (Some (pack_units tot (used - units))) })"

definition quota_result :: "quota \<Rightarrow> u32 \<Rightarrow> u64 option \<Rightarrow> int \<times> quota" where
  "quota_result q units r =
     (case r of None \<Rightarrow> (- 1, q)
      | Some v \<Rightarrow> (sint (ucast units * QUOTA_UNIT_SIZE), q\<lparr>qvalue := v\<rparr>))"

definition quota_set :: "quota \<Rightarrow> u64 \<Rightarrow> (int \<times> quota) option" where
  "quota_set q new_total = do {
     c_assert (new_total \<le> QUOTA_MAX);
     let units = size_in_units new_total;
     r \<leftarrow> quota_set_pass units (qvalue q);
     Some (quota_result q units r) }"

definition quota_use :: "quota \<Rightarrow> u64 \<Rightarrow> (int \<times> quota) option" where
  "quota_use q sz =
     (if sz > QUOTA_MAX then Some (- 1, q)
      else do {
        let units = size_in_units sz;
        c_assert (units \<noteq> 0);
        r \<leftarrow> quota_use_pass units (qvalue q);
        Some (quota_result q units r) })"

definition quota_release :: "quota \<Rightarrow> u64 \<Rightarrow> (int \<times> quota) option" where
  "quota_release q sz = do {
     c_assert (sz < QUOTA_MAX);
     let units = size_in_units sz;
     c_assert (units \<noteq> 0);
     r \<leftarrow> quota_release_pass units (qvalue q);
     Some (quota_result q units r) }"

section \<open>Numbers behind the words\<close>

text \<open>The two halves as numbers, and the rounding of a size to units.\<close>

definition q_total :: "quota \<Rightarrow> nat" where
  "q_total q = unat (total_in_units (qvalue q))"

definition q_used :: "quota \<Rightarrow> nat" where
  "q_used q = unat (used_in_units (qvalue q))"

definition q_units :: "nat \<Rightarrow> nat" where
  "q_units n = (n + 1023) div 1024"

definition quota_ok :: "quota \<Rightarrow> bool" where
  "quota_ok q \<longleftrightarrow> q_used q \<le> q_total q"

lemma bit_UINT32_MAX [simp]: "bit UINT32_MAX n \<longleftrightarrow> n < 32"
proof -
  have "UINT32_MAX = mask 32" by (simp add: UINT32_MAX_def mask_eq_exp_minus_1)
  then have "bit UINT32_MAX n \<longleftrightarrow> bit (mask 32 :: u64) n" by (simp only:)
  also have "\<dots> \<longleftrightarrow> n < 32" by (simp only: bit_mask_iff) auto
  finally show ?thesis .
qed

lemma total_pack [simp]: "total_in_units (pack_units t u) = t"
  unfolding total_in_units_def pack_units_def
  by (intro bit_word_eqI) (auto simp: bit_simps dest: bit_imp_le_length)

lemma used_pack [simp]: "used_in_units (pack_units t u) = u"
  unfolding used_in_units_def pack_units_def
  by (intro bit_word_eqI) (auto simp: bit_simps)

lemma pack_units_eta: "pack_units (total_in_units v) (used_in_units v) = v"
  unfolding total_in_units_def used_in_units_def pack_units_def
  by (intro bit_word_eqI) (auto simp: bit_simps)

lemma QUOTA_MAX_unat: "unat QUOTA_MAX = 1024 * (2 ^ 32 - 1)"
  by (simp add: QUOTA_MAX_def QUOTA_UNIT_SIZE_def UINT32_MAX_def)

lemma unat_u32_less: "unat (w :: u32) < 2 ^ 32"
  using unsigned_less [of w] by simp

lemma size_in_units_unat:
  assumes "sz \<le> QUOTA_MAX"
  shows "unat (size_in_units sz) = q_units (unat sz)"
proof -
  have s: "unat sz \<le> 1024 * (2 ^ 32 - 1)"
    using assms by (simp add: word_le_nat_alt QUOTA_MAX_unat)
  have "unat (sz + 1023) = unat sz + 1023"
    using s by (subst unat_add_lem [THEN iffD1]) simp_all
  moreover have "(unat sz + 1023) div 1024 < 2 ^ 32" using s by simp
  ultimately show ?thesis
    by (simp add: size_in_units_def QUOTA_UNIT_SIZE_def q_units_def unat_div unsigned_ucast_eq
        take_bit_nat_eq_self)
qed

lemma q_units_pos: "0 < n \<Longrightarrow> 0 < q_units n"
  by (simp add: q_units_def)

lemma q_units_bounds: "n \<le> 1024 * q_units n \<and> 1024 * q_units n < n + 1024"
proof -
  have "(n + 1023) div 1024 * 1024 + (n + 1023) mod 1024 = n + 1023" by (rule div_mult_mod_eq)
  moreover have "(n + 1023) mod 1024 < 1024" by simp
  ultimately show ?thesis unfolding q_units_def by linarith
qed

lemma sint_small_u64: "unat w < 2 ^ 63 \<Longrightarrow> sint w = int (unat w)" for w :: u64
proof -
  assume "unat w < 2 ^ 63"
  then have "int (unat w) < int (2 ^ 63)" by (simp only: of_nat_less_iff)
  then have u: "uint w < 2 ^ 63" by simp
  have "sint w = signed_take_bit 63 (uint w)" by (simp only: sint_uint) simp
  also have "\<dots> = uint w"
    by (rule signed_take_bit_int_eq_self [OF _ u]) (rule order_trans [OF _ uint_ge_0], simp)
  finally show ?thesis by (simp only: uint_nat)
qed

lemma unat_ucast_u32: "unat (ucast (u :: u32) :: u64) = unat u"
proof -
  have "unat u < 2 ^ 64" by (rule less_trans [OF unat_u32_less]) simp
  then show ?thesis by (simp add: unsigned_ucast_eq take_bit_nat_eq_self)
qed

lemma units_bytes: "sint (ucast (u :: u32) * QUOTA_UNIT_SIZE) = int (1024 * unat u)"
proof -
  have u: "unat u < 2 ^ 32" by (rule unat_u32_less)
  have c: "unat QUOTA_UNIT_SIZE = 1024" by (simp add: QUOTA_UNIT_SIZE_def)
  have "unat u * 1024 < 2 ^ 64" using u by simp
  then have "unat (ucast u * QUOTA_UNIT_SIZE) = unat u * 1024"
    using unat_mult_lem [of "ucast u" QUOTA_UNIT_SIZE] by (simp add: unat_ucast_u32 c)
  with u show ?thesis by (subst sint_small_u64) simp_all
qed

lemma quota_use_pass_eq:
  assumes "0 < unat n"
  shows "quota_use_pass n v =
    (if unat (used_in_units v) + unat n \<ge> 2 ^ 32 then None
     else if unat (used_in_units v) + unat n > unat (total_in_units v) then Some None
     else Some (Some (pack_units (total_in_units v) (used_in_units v + n))))"
proof -
  let ?u = "used_in_units v"
  have wrap: "?u < ?u + n \<longleftrightarrow> unat ?u + unat n < 2 ^ 32"
    using assms unat_u32_less [of ?u] unat_u32_less [of n]
    by (auto simp: word_less_nat_alt unat_plus_if')
  show ?thesis
  proof (cases "unat ?u + unat n < 2 ^ 32")
    case True
    then have "unat (?u + n) = unat ?u + unat n" by (simp add: unat_plus_if')
    with True wrap show ?thesis
      by (simp add: quota_use_pass_def word_less_nat_alt [of "total_in_units v"])
  next
    case False
    with wrap show ?thesis by (simp add: quota_use_pass_def)
  qed
qed

lemma quota_release_pass_eq:
  "quota_release_pass n v =
    (if unat n > unat (used_in_units v) then None
     else Some (Some (pack_units (total_in_units v) (used_in_units v - n))))"
  by (simp add: quota_release_pass_def word_le_nat_alt)

section \<open>The operations without contention\<close>

text \<open>Every branch of \<open>quota_use\<close>: the refusal of a size no quota can hold, the assertion, the limit, success.\<close>

lemma quota_use_large: "sz > QUOTA_MAX \<Longrightarrow> quota_use q sz = Some (- 1, q)"
  by (simp add: quota_use_def)

lemma quota_use_cases:
  assumes "sz \<le> QUOTA_MAX" and "sz \<noteq> 0"
  shows "quota_use q sz =
    (if q_used q + q_units (unat sz) \<ge> 2 ^ 32 then None
     else if q_used q + q_units (unat sz) > q_total q then Some (- 1, q)
     else Some (int (1024 * q_units (unat sz)),
                q\<lparr>qvalue := pack_units (total_in_units (qvalue q))
                                      (used_in_units (qvalue q) + size_in_units sz)\<rparr>))"
proof -
  let ?n = "size_in_units sz"
  have n: "unat ?n = q_units (unat sz)" using assms(1) by (rule size_in_units_unat)
  have pos: "0 < unat ?n" using assms(2) by (simp add: n q_units_pos unat_gt_0)
  then have "?n \<noteq> 0" by auto
  moreover have "\<not> QUOTA_MAX < sz" using assms(1) by simp
  ultimately show ?thesis
    unfolding quota_use_def Let_def quota_use_pass_eq [OF pos]
    by (simp add: quota_result_def q_used_def q_total_def units_bytes n)
qed

lemma quota_release_cases:
  assumes "sz < QUOTA_MAX" and "sz \<noteq> 0"
  shows "quota_release q sz =
    (if q_units (unat sz) > q_used q then None
     else Some (int (1024 * q_units (unat sz)),
                q\<lparr>qvalue := pack_units (total_in_units (qvalue q))
                                      (used_in_units (qvalue q) - size_in_units sz)\<rparr>))"
proof -
  let ?n = "size_in_units sz"
  have n: "unat ?n = q_units (unat sz)" using assms(1) by (simp add: size_in_units_unat)
  have "?n \<noteq> 0" using assms(2) n q_units_pos [of "unat sz"] by (auto simp: unat_gt_0)
  then show ?thesis
    using assms(1) n unfolding quota_release_def Let_def quota_release_pass_eq
    by (simp add: quota_result_def q_used_def units_bytes)
qed

lemma quota_use_effect:
  assumes "quota_use q sz = Some (r, q')" and "0 \<le> r"
  shows "q_used q' = q_used q + q_units (unat sz)" and "q_total q' = q_total q"
    and "q_used q' \<le> q_total q'" and "r = int (1024 * q_units (unat sz))" and "sz \<noteq> 0" and "sz \<le> QUOTA_MAX"
proof -
  from assms show le: "sz \<le> QUOTA_MAX" by (auto simp: quota_use_def not_le split: if_splits)
  then have nz: "sz \<noteq> 0"
  proof -
    have "size_in_units sz \<noteq> 0" using assms(1) le by (auto simp: quota_use_def Let_def split: if_splits)
    then show ?thesis by (auto simp: size_in_units_def QUOTA_UNIT_SIZE_def)
  qed
  then show "sz \<noteq> 0" .
  note u = assms(1) [unfolded quota_use_cases [OF le nz]]
  from u assms(2) have b: "q_used q + q_units (unat sz) < 2 ^ 32" "q_used q + q_units (unat sz) \<le> q_total q"
    and r: "r = int (1024 * q_units (unat sz))"
    and q': "q' = q\<lparr>qvalue := pack_units (total_in_units (qvalue q))
                          (used_in_units (qvalue q) + size_in_units sz)\<rparr>"
    by (auto split: if_splits)
  show "r = int (1024 * q_units (unat sz))" by (rule r)
  show "q_total q' = q_total q" by (simp add: q' q_total_def)
  show used: "q_used q' = q_used q + q_units (unat sz)"
    using b(1) size_in_units_unat [OF le] by (simp add: q' q_used_def unat_plus_if')
  show "q_used q' \<le> q_total q'" using b used by (simp add: q' q_total_def)
qed

lemma quota_use_try:
  assumes "sz \<noteq> 0" and "sz \<le> QUOTA_MAX \<Longrightarrow> q_used q + q_units (unat sz) < 2 ^ 32"
  obtains (no) "quota_use q sz = Some (- 1, q)"
  | (yes) r q' where "quota_use q sz = Some (r, q')" and "0 \<le> r" and "sz \<le> QUOTA_MAX"
      and "q_used q' = q_used q + q_units (unat sz)" and "q_total q' = q_total q" and "quota_ok q'"
proof (cases "sz \<le> QUOTA_MAX \<and> q_used q + q_units (unat sz) \<le> q_total q")
  case True
  then obtain r q' where u: "quota_use q sz = Some (r, q')" "0 \<le> r"
    using quota_use_cases [of sz q] assms by (auto simp: not_less)
  note e = quota_use_effect [OF u]
  show thesis by (rule yes [OF u e(6,1,2)]) (simp add: quota_ok_def e(3))
next
  case False
  then have "quota_use q sz = Some (- 1, q)"
    using quota_use_cases [of sz q] assms quota_use_large [of sz q] by (cases "sz \<le> QUOTA_MAX") (auto simp: not_le)
  then show thesis by (rule no)
qed

lemma quota_release_effect:
  assumes "sz < QUOTA_MAX" and "sz \<noteq> 0" and "q_units (unat sz) \<le> q_used q"
  obtains q' where "quota_release q sz = Some (int (1024 * q_units (unat sz)), q')"
    and "q_used q' = q_used q - q_units (unat sz)" and "q_total q' = q_total q"
proof -
  let ?q' = "q\<lparr>qvalue := pack_units (total_in_units (qvalue q))
                          (used_in_units (qvalue q) - size_in_units sz)\<rparr>"
  have n: "unat (size_in_units sz) = q_units (unat sz)"
    using assms(1) by (simp add: size_in_units_unat)
  show thesis
  proof (rule that [of ?q'])
    show "quota_release q sz = Some (int (1024 * q_units (unat sz)), ?q')"
      using quota_release_cases [OF assms(1,2)] assms(3) by simp
    show "q_used ?q' = q_used q - q_units (unat sz)"
      using assms(3) n by (simp add: q_used_def unat_sub_if')
    show "q_total ?q' = q_total q" by (simp add: q_total_def)
  qed
qed

section \<open>Threads\<close>

text \<open>
  Any number of threads run the three loops on one shared word. A thread is idle, about to
  load the word, or holds a loaded value and is about to run one pass; the exchange
  succeeds only if the shared word still has the loaded value, and may fail spuriously
  (\<open>compare_exchange_weak\<close>). \<open>held\<close> counts, for each thread, the units it has taken and not yet
  given back; a caller releases only what it holds. A failed assertion is a thread that
  cannot move.
\<close>

datatype quota_req = Use u64 | Release u64 | Set_total u64

datatype quota_thread = Idle | Start quota_req | Loaded quota_req u64

record quota_sys =
  shared :: u64
  thread :: "nat \<Rightarrow> quota_thread"
  held :: "nat \<Rightarrow> nat"

fun quota_guard :: "quota_req \<Rightarrow> bool" where
  "quota_guard (Use sz) \<longleftrightarrow> sz \<le> QUOTA_MAX \<and> size_in_units sz \<noteq> 0"
| "quota_guard (Release sz) \<longleftrightarrow> sz < QUOTA_MAX \<and> size_in_units sz \<noteq> 0"
| "quota_guard (Set_total sz) \<longleftrightarrow> sz \<le> QUOTA_MAX"

fun quota_pass :: "quota_req \<Rightarrow> u64 \<Rightarrow> u64 option option" where
  "quota_pass (Use sz) v = quota_use_pass (size_in_units sz) v"
| "quota_pass (Release sz) v = quota_release_pass (size_in_units sz) v"
| "quota_pass (Set_total sz) v = quota_set_pass (size_in_units sz) v"

fun quota_run :: "quota_req \<Rightarrow> quota \<Rightarrow> (int \<times> quota) option" where
  "quota_run (Use sz) q = quota_use q sz"
| "quota_run (Release sz) q = quota_release q sz"
| "quota_run (Set_total sz) q = quota_set q sz"

fun held_after :: "quota_req \<Rightarrow> nat \<Rightarrow> nat" where
  "held_after (Use sz) h = h + q_units (unat sz)"
| "held_after (Release sz) h = h - q_units (unat sz)"
| "held_after (Set_total sz) h = h"

fun may_call :: "quota_req \<Rightarrow> nat \<Rightarrow> bool" where
  "may_call (Release sz) h \<longleftrightarrow> quota_guard (Release sz) \<and> q_units (unat sz) \<le> h"
| "may_call r h \<longleftrightarrow> quota_guard r"

inductive quota_step :: "nat \<Rightarrow> quota_sys \<Rightarrow> quota_sys \<Rightarrow> bool" for n where
  call: "i < n \<Longrightarrow> thread s i = Idle \<Longrightarrow> may_call r (held s i) \<Longrightarrow>
    quota_step n s (s\<lparr>thread := (thread s)(i := Start r)\<rparr>)"
| load: "i < n \<Longrightarrow> thread s i = Start r \<Longrightarrow>
    quota_step n s (s\<lparr>thread := (thread s)(i := Loaded r (shared s))\<rparr>)"
| fail: "i < n \<Longrightarrow> thread s i = Loaded r v \<Longrightarrow> quota_pass r v = Some None \<Longrightarrow>
    quota_step n s (s\<lparr>thread := (thread s)(i := Idle)\<rparr>)"
| retry: "i < n \<Longrightarrow> thread s i = Loaded r v \<Longrightarrow> quota_pass r v = Some (Some w) \<Longrightarrow>
    quota_step n s (s\<lparr>thread := (thread s)(i := Start r)\<rparr>)"
| exchange: "i < n \<Longrightarrow> thread s i = Loaded r v \<Longrightarrow> quota_pass r v = Some (Some w) \<Longrightarrow> shared s = v \<Longrightarrow>
    quota_step n s (s\<lparr>shared := w, thread := (thread s)(i := Idle),
                      held := (held s)(i := held_after r (held s i))\<rparr>)"

definition quota_sys_init :: "u64 \<Rightarrow> quota_sys" where
  "quota_sys_init tot = \<lparr>shared = qvalue (quota_init tot), thread = (\<lambda>_. Idle), held = (\<lambda>_. 0)\<rparr>"

inductive quota_reach :: "nat \<Rightarrow> u64 \<Rightarrow> quota_sys \<Rightarrow> bool" for n tot where
  start: "quota_reach n tot (quota_sys_init tot)"
| step: "quota_reach n tot s \<Longrightarrow> quota_step n s t \<Longrightarrow> quota_reach n tot t"

fun thread_ok :: "nat \<Rightarrow> quota_thread \<Rightarrow> bool" where
  "thread_ok h Idle = True"
| "thread_ok h (Start r) = may_call r h"
| "thread_ok h (Loaded r v) \<longleftrightarrow> may_call r h \<and>
     (\<forall>sz. r = Release sz \<longrightarrow> q_units (unat sz) \<le> unat (used_in_units v))"

definition quota_inv :: "nat \<Rightarrow> quota_sys \<Rightarrow> bool" where
  "quota_inv n s \<longleftrightarrow>
     unat (used_in_units (shared s)) = sum (held s) {..<n} \<and>
     used_in_units (shared s) \<le> total_in_units (shared s) \<and>
     (\<forall>i<n. thread_ok (held s i) (thread s i))"

lemma may_call_guard: "may_call r h \<Longrightarrow> quota_guard r"
  by (cases r) auto

text \<open>A pass that reaches the exchange is one uncontended run of the operation.\<close>

lemma quota_pass_run:
  assumes "quota_guard r" and "quota_pass r v = Some (Some w)"
  shows "\<exists>res\<ge>0. quota_run r \<lparr>qvalue = v\<rparr> = Some (res, \<lparr>qvalue = w\<rparr>)"
  using assms
  by (cases r) (auto simp: quota_use_def quota_release_def quota_set_def quota_result_def units_bytes)

lemma quota_pass_effect:
  assumes "may_call r h" and "quota_pass r v = Some (Some w)"
    and "used_in_units v \<le> total_in_units v" and "h \<le> unat (used_in_units v)"
  shows "used_in_units w \<le> total_in_units w"
    and "unat (used_in_units w) + h = unat (used_in_units v) + held_after r h"
proof -
  show "used_in_units w \<le> total_in_units w"
    using assms
    by (cases r) (auto simp: quota_use_pass_def quota_release_pass_eq quota_set_pass_def Let_def
        if_None_eq_Some word_le_nat_alt word_less_nat_alt unat_sub_if' split: if_splits)
  show "unat (used_in_units w) + h = unat (used_in_units v) + held_after r h"
  proof (cases r)
    case (Use sz)
    then have sz: "sz \<le> QUOTA_MAX" "size_in_units sz \<noteq> 0" using assms(1) by simp_all
    then have "0 < unat (size_in_units sz)" by (simp add: unat_gt_0)
    with assms(2) Use size_in_units_unat [OF sz(1)] show ?thesis
      by (auto simp: quota_use_pass_eq unat_plus_if' split: if_splits)
  next
    case (Release sz)
    then have "unat (size_in_units sz) = q_units (unat sz)" "q_units (unat sz) \<le> h"
      using assms(1) size_in_units_unat [of sz] by auto
    with assms(2,4) Release show ?thesis
      by (auto simp: quota_release_pass_eq unat_sub_if' split: if_splits)
  next
    case (Set_total sz)
    with assms(2) show ?thesis by (auto simp: quota_set_pass_def Let_def split: if_splits)
  qed
qed

lemma held_le_used: "quota_inv n s \<Longrightarrow> i < n \<Longrightarrow> held s i \<le> unat (used_in_units (shared s))"
  by (auto simp: quota_inv_def intro!: member_le_sum)

lemma sum_fun_upd_nat:
  "i < n \<Longrightarrow> sum (f(i := x)) {..<n} + f i = sum f {..<n} + x" for f :: "nat \<Rightarrow> nat"
proof -
  assume i: "i < n"
  have "sum (f(i := x)) {..<n} = x + sum (f(i := x)) ({..<n} - {i})"
    using i by (subst sum.remove [of "{..<n}" i]) simp_all
  also have "sum (f(i := x)) ({..<n} - {i}) = sum f ({..<n} - {i})"
    by (rule sum.cong) simp_all
  finally show ?thesis using i by (simp add: sum.remove [of "{..<n}" i f])
qed

lemma quota_step_inv: "quota_step n s t \<Longrightarrow> quota_inv n s \<Longrightarrow> quota_inv n t"
proof (induction rule: quota_step.induct)
  case (call i s r)
  then show ?case by (simp add: quota_inv_def)
next
  case (load i s r)
  have h: "held s i \<le> unat (used_in_units (shared s))"
    using load by (intro held_le_used)
  from load have "may_call r (held s i)" by (force simp: quota_inv_def)
  then have "thread_ok (held s i) (Loaded r (shared s))" using h by (cases r) auto
  with load show ?case by (simp add: quota_inv_def)
next
  case (fail i s r v)
  then show ?case by (simp add: quota_inv_def)
next
  case (retry i s r v w)
  then have "thread_ok (held s i) (Loaded r v)" by (force simp: quota_inv_def)
  with retry show ?case by (simp add: quota_inv_def)
next
  case (exchange i s r v w)
  then have "thread_ok (held s i) (Loaded r v)" by (force simp: quota_inv_def)
  then have call: "may_call r (held s i)" by simp
  have "used_in_units v \<le> total_in_units v" "held s i \<le> unat (used_in_units v)"
    using exchange held_le_used [of n s i] by (auto simp: quota_inv_def)
  note eff = quota_pass_effect [OF call exchange(3) this]
  have "unat (used_in_units w) = sum ((held s)(i := held_after r (held s i))) {..<n}"
    using eff(2) sum_fun_upd_nat [OF exchange(1), of "held s" "held_after r (held s i)"] exchange
    by (simp add: quota_inv_def)
  then show ?case using exchange eff(1) by (auto simp: quota_inv_def)
qed

lemma quota_reach_inv: "quota_reach n tot s \<Longrightarrow> quota_inv n s"
proof (induction rule: quota_reach.induct)
  case start
  have "used_in_units (push_bit 32 v) = 0" for v
    unfolding used_in_units_def by (intro bit_word_eqI) (auto simp: bit_simps)
  then show ?case by (simp add: quota_inv_def quota_sys_init_def quota_init_def)
next
  case (step s t)
  then show ?case by (blast intro: quota_step_inv)
qed

section \<open>Properties\<close>

text \<open>Every branch of \<open>quota_use\<close>: a size no quota can hold is refused, a zero size and a sum that
  does not fit 32 bits abort, a use beyond the limit is refused and changes nothing, and any
  other use adds the size, rounded up to units, to the used half and returns it in bytes.\<close>

theorem quota_use_behaviour:
  "quota_use q sz =
    (if sz > QUOTA_MAX then Some (- 1, q)
     else if sz = 0 \<or> q_used q + q_units (unat sz) \<ge> 2 ^ 32 then None
     else if q_used q + q_units (unat sz) > q_total q then Some (- 1, q)
     else Some (int (1024 * q_units (unat sz)),
                q\<lparr>qvalue := pack_units (total_in_units (qvalue q))
                                      (used_in_units (qvalue q) + size_in_units sz)\<rparr>))"
proof (cases "sz > QUOTA_MAX")
  case True
  then show ?thesis by (simp add: quota_use_large)
next
  case False
  have "quota_use q 0 = None" by (simp add: quota_use_def size_in_units_def QUOTA_UNIT_SIZE_def Let_def)
  then show ?thesis using quota_use_cases [of sz q] False by (cases "sz = 0") simp_all
qed

text \<open>What \<open>quota_use\<close> took, \<open>quota_release\<close> of the same size gives back: the same number of bytes
  is reported and the quota is the one before. The largest size is excluded, because
  \<open>quota_release\<close> asserts that the size is below it.\<close>

theorem quota_use_release_roundtrip:
  assumes "quota_use q sz = Some (r, q')" and "0 \<le> r" and "sz \<noteq> QUOTA_MAX"
  shows "quota_release q' sz = Some (r, q)"
proof -
  note e = quota_use_effect [OF assms(1,2)]
  have lt: "sz < QUOTA_MAX" using e(6) assms(3) by simp
  have q': "q' = q\<lparr>qvalue := pack_units (total_in_units (qvalue q)) (used_in_units (qvalue q) + size_in_units sz)\<rparr>"
    using assms(1,2) quota_use_cases [OF e(6,5), of q] by (auto split: if_splits)
  have "\<not> q_units (unat sz) > q_used q'" using e(1) by simp
  then have "quota_release q' sz = Some (r, q'\<lparr>qvalue := pack_units (total_in_units (qvalue q'))
      (used_in_units (qvalue q') - size_in_units sz)\<rparr>)"
    using quota_release_cases [OF lt e(5), of q'] e(4) by simp
  then show ?thesis by (simp add: q' pack_units_eta)
qed

theorem quota_use_release_roundtrip_witness:
  "quota_release \<lparr>qvalue = pack_units 10 7\<rparr> 2000 = Some (2048, \<lparr>qvalue = pack_units 10 5\<rparr>)"
  by (rule quota_use_release_roundtrip)
    (simp_all add: quota_use_def quota_use_pass_def quota_result_def size_in_units_def QUOTA_MAX_def
      QUOTA_UNIT_SIZE_def UINT32_MAX_def)

text \<open>C31: any number of threads run \<open>quota_use\<close>, \<open>quota_release\<close> and \<open>quota_set\<close> at once, each releasing at
  most what it took. In every reachable state the used half is the sum of what the threads
  hold and is within the total half: no lost update, and the limit is never exceeded.\<close>

theorem quota_threads_account:
  assumes "quota_reach n tot s"
  shows "unat (used_in_units (shared s)) = sum (held s) {..<n} \<and>
    used_in_units (shared s) \<le> total_in_units (shared s)"
  using quota_reach_inv [OF assms] by (simp add: quota_inv_def)

lemma quota_example_reach:
  "quota_reach 2 (1024 * 8) \<lparr>shared = pack_units 8 2, thread = (\<lambda>_. Idle), held = (\<lambda>_. 0)(1 := q_units 2000)\<rparr>"
proof -
  let ?r = "Use 2000" and ?i = "1 :: nat"
  have i: "quota_init 8192 = \<lparr>qvalue = pack_units 8 0\<rparr>"
    by (simp add: quota_init_def pack_units_def QUOTA_UNIT_SIZE_def)
  let ?s0 = "\<lparr>shared = pack_units 8 0, thread = (\<lambda>_. Idle), held = (\<lambda>_. 0)\<rparr>"
  have "quota_reach 2 (1024 * 8) ?s0"
    using quota_reach.start [of 2 "1024 * 8"] by (simp add: quota_sys_init_def i)
  moreover have "quota_step 2 ?s0 (?s0\<lparr>thread := (\<lambda>_. Idle)(1 := Start ?r)\<rparr>)"
    using quota_step.call [of 1 2 ?s0 ?r]
    by (simp add: size_in_units_def QUOTA_MAX_def QUOTA_UNIT_SIZE_def UINT32_MAX_def)
  ultimately have "quota_reach 2 (1024 * 8) (?s0\<lparr>thread := (\<lambda>_. Idle)(1 := Start ?r)\<rparr>)"
    by (rule quota_reach.step)
  moreover have "quota_step 2 (?s0\<lparr>thread := (\<lambda>_. Idle)(1 := Start ?r)\<rparr>)
     (?s0\<lparr>thread := (\<lambda>_. Idle)(1 := Loaded ?r (pack_units 8 0))\<rparr>)"
    using quota_step.load [of 1 2 "?s0\<lparr>thread := (\<lambda>_. Idle)(1 := Start ?r)\<rparr>" ?r] by simp
  ultimately have "quota_reach 2 (1024 * 8) (?s0\<lparr>thread := (\<lambda>_. Idle)(1 := Loaded ?r (pack_units 8 0))\<rparr>)"
    by (rule quota_reach.step)
  note loaded = this
  have "quota_pass ?r (pack_units 8 0) = Some (Some (pack_units 8 2))"
    by (simp add: quota_use_pass_def size_in_units_def QUOTA_UNIT_SIZE_def)
  then have "quota_step 2 (?s0\<lparr>thread := (\<lambda>_. Idle)(1 := Loaded ?r (pack_units 8 0))\<rparr>)
     \<lparr>shared = pack_units 8 2, thread = (\<lambda>_. Idle), held = (\<lambda>_. 0)(1 := q_units 2000)\<rparr>"
    using quota_step.exchange [of 1 2 "?s0\<lparr>thread := (\<lambda>_. Idle)(1 := Loaded ?r (pack_units 8 0))\<rparr>" ?r "pack_units 8 0" "pack_units 8 2"]
    by (simp add: fun_upd_idem)
  with loaded show ?thesis by (rule quota_reach.step)
qed

theorem quota_threads_account_witness:
  "unat (used_in_units (pack_units 8 2)) = (\<Sum>i < 2. ((\<lambda>_. 0)(1 := q_units 2000)) (i :: nat))"
  using quota_threads_account [OF quota_example_reach] by simp

text \<open>C32: in every reachable state of the threads a pass that a thread is about to exchange computes the
  uncontended operation on the shared word, and the assertion of \<open>quota_release\<close> never fails.\<close>

theorem quota_threads_linear:
  assumes "quota_reach n tot s" and "i < n" and "thread s i = Loaded r v"
  shows "(\<forall>w. quota_pass r v = Some (Some w) \<longrightarrow> (\<exists>res\<ge>0. quota_run r \<lparr>qvalue = v\<rparr> = Some (res, \<lparr>qvalue = w\<rparr>))) \<and>
    (\<forall>sz. r = Release sz \<longrightarrow> (\<exists>w. quota_pass r v = Some (Some w)))"
proof -
  have t: "thread_ok (held s i) (Loaded r v)"
    using quota_reach_inv [OF assms(1)] assms(2,3) by (metis quota_inv_def)
  then have "may_call r (held s i)" by simp
  then have g: "quota_guard r" by (rule may_call_guard)
  have "\<exists>w. quota_pass r v = Some (Some w)" if r: "r = Release sz" for sz
  proof -
    have "sz \<le> QUOTA_MAX" using g r by (simp add: less_imp_le)
    then show ?thesis using t r size_in_units_unat [of sz] by (auto simp: quota_release_pass_eq)
  qed
  then show ?thesis using quota_pass_run [OF g] by blast
qed

lemma quota_example_loaded:
  "quota_reach 2 (1024 * 8) \<lparr>shared = pack_units 8 2, thread = (\<lambda>_. Idle)(1 := Loaded (Release 2000) (pack_units 8 2)),
     held = (\<lambda>_. 0)(1 := q_units 2000)\<rparr>"
proof -
  let ?s = "\<lparr>shared = pack_units 8 2, thread = (\<lambda>_. Idle), held = (\<lambda>_. 0)(1 := q_units 2000)\<rparr>"
  have "quota_step 2 ?s (?s\<lparr>thread := (\<lambda>_. Idle)(1 := Start (Release 2000))\<rparr>)"
    using quota_step.call [of 1 2 ?s "Release 2000"]
    by (simp add: size_in_units_def QUOTA_MAX_def QUOTA_UNIT_SIZE_def UINT32_MAX_def q_units_def)
  then have "quota_reach 2 (1024 * 8) (?s\<lparr>thread := (\<lambda>_. Idle)(1 := Start (Release 2000))\<rparr>)"
    using quota_example_reach quota_reach.step by blast
  moreover have "quota_step 2 (?s\<lparr>thread := (\<lambda>_. Idle)(1 := Start (Release 2000))\<rparr>)
     (?s\<lparr>thread := (\<lambda>_. Idle)(1 := Loaded (Release 2000) (pack_units 8 2))\<rparr>)"
    using quota_step.load [of 1 2 "?s\<lparr>thread := (\<lambda>_. Idle)(1 := Start (Release 2000))\<rparr>" "Release 2000"] by simp
  ultimately show ?thesis using quota_reach.step by fastforce
qed

theorem quota_threads_linear_witness:
  "\<exists>w. quota_pass (Release 2000) (pack_units 8 2) = Some (Some w)"
  using quota_threads_linear [OF quota_example_loaded, of 1 "Release 2000" "pack_units 8 2"] by simp

text \<open>The used half of a full quota of the largest total cannot grow, but \<open>quota_use\<close> does not refuse
  the request: the 32-bit sum wraps around and the assertion fails.\<close>

theorem quota_use_wraps:
  "quota_use \<lparr>qvalue = pack_units (- 1) (- 1)\<rparr> 1024 = None"
  by (simp add: quota_use_def quota_use_pass_def size_in_units_def QUOTA_MAX_def QUOTA_UNIT_SIZE_def UINT32_MAX_def)

end
