(* ===== verification/Quota_Lessor.thy ===== *)
theory Quota_Lessor
  imports Quota
begin

text \<open>
  \<open>include/small/quota_lessor.h\<close>: a thread-local front of a quota. It takes at least a
  megabyte at a time from the source and leases it by the byte. The source quota, a
  pointer in the C structure, is a field of the record.
\<close>

section \<open>Definitions\<close>

record quota_lessor =
  source :: quota
  ql_used :: u64
  ql_leased :: u64

definition QUOTA_USE_MIN :: u64 where
  "QUOTA_USE_MIN = QUOTA_UNIT_SIZE * 1024"

definition quota_leased :: "quota_lessor \<Rightarrow> u64" where
  "quota_leased l = ql_leased l"

definition quota_available :: "quota_lessor \<Rightarrow> u64" where
  "quota_available l = ql_used l - ql_leased l"

definition quota_lessor_create :: "quota \<Rightarrow> quota_lessor option" where
  "quota_lessor_create q = do {
     let l = \<lparr>source = q, ql_used = 0, ql_leased = 0\<rparr>;
     c_assert (quota_total q \<ge> QUOTA_USE_MIN);
     Some l }"

definition quota_lessor_destroy :: "quota_lessor \<Rightarrow> quota_lessor option" where
  "quota_lessor_destroy l =
     (if ql_used l = 0 then Some l
      else do {
        c_assert (ql_used l mod QUOTA_UNIT_SIZE = 0);
        (_, q) \<leftarrow> quota_release (source l) (ql_used l);
        Some (l\<lparr>source := q, ql_used := 0, ql_leased := 0\<rparr>) })"

lemma quota_use_0: "quota_use q 0 = None"
  by (simp add: quota_use_def size_in_units_def QUOTA_UNIT_SIZE_def Let_def)

text \<open>The loop of \<open>quota_lease\<close>: halve the amount asked for until it is below the need.\<close>

function quota_lease_loop :: "quota_lessor \<Rightarrow> u64 \<Rightarrow> u64 \<Rightarrow> u64 \<Rightarrow> (int \<times> quota_lessor) option" where
  "quota_lease_loop l sz required use =
     (if use \<ge> required then
        (case quota_use (source l) use of
           None \<Rightarrow> None
         | Some (used, q) \<Rightarrow>
             if used \<ge> 0
             then Some (sint sz, l\<lparr>source := q, ql_used := ql_used l + of_int used,
                                   ql_leased := ql_leased l + sz\<rparr>)
             else quota_lease_loop (l\<lparr>source := q\<rparr>) sz required (use div 2))
      else Some (- 1, l))"
  by pat_completeness auto
termination
proof (relation "measure (\<lambda>(l, sz, required, use). unat use)")
  fix l :: quota_lessor and sz required "use" :: u64 and r used q
  assume "quota_use (source l) use = Some r"
  then have "use \<noteq> 0" using quota_use_0 [of "source l"] by auto
  then have "unat (use div 2) < unat use" by (simp add: unat_div unat_gt_0)
  then show "((l\<lparr>source := q\<rparr>, sz, required, use div 2), l, sz, required, use)
      \<in> measure (\<lambda>(l, sz, required, use). unat use)" by simp
qed simp

declare quota_lease_loop.simps [simp del]

definition quota_lease :: "quota_lessor \<Rightarrow> u64 \<Rightarrow> (int \<times> quota_lessor) option" where
  "quota_lease l sz =
     (if ql_leased l + sz \<le> ql_used l
      then Some (sint sz, l\<lparr>ql_leased := ql_leased l + sz\<rparr>)
      else let required = sz + ql_leased l - ql_used l;
               use = (if required > QUOTA_USE_MIN then required else QUOTA_USE_MIN)
           in quota_lease_loop l sz required use)"

definition quota_end_lease :: "quota_lessor \<Rightarrow> u64 \<Rightarrow> (int \<times> quota_lessor) option" where
  "quota_end_lease l sz = do {
     c_assert (ql_leased l \<ge> sz);
     let l1 = l\<lparr>ql_leased := ql_leased l - sz\<rparr>;
     let available = ql_used l1 - ql_leased l1;
     if available \<ge> 2 * QUOTA_USE_MIN then do {
       let release = available - QUOTA_USE_MIN - QUOTA_UNIT_SIZE;
       (released, q) \<leftarrow> quota_release (source l1) release;
       Some (sint sz, l1\<lparr>source := q, ql_used := ql_used l1 - of_int released\<rparr>) }
     else Some (sint sz, l1) }"

section \<open>Invariant\<close>

text \<open>What was leased was taken, and what was taken is counted, in whole units, as used in the source.\<close>

definition lessor_ok :: "quota_lessor \<Rightarrow> bool" where
  "lessor_ok l \<longleftrightarrow> ql_leased l \<le> ql_used l \<and> 1024 dvd unat (ql_used l) \<and>
     unat (ql_used l) \<le> 1024 * q_used (source l) \<and> quota_ok (source l)"

lemma q_used_bound: "q_used q < 2 ^ 32"
  by (simp add: q_used_def unat_u32_less del: power_numeral)

lemma USE_MIN_unat: "unat QUOTA_USE_MIN = 1024 * 1024"
  by (simp add: QUOTA_USE_MIN_def QUOTA_UNIT_SIZE_def)

lemma quota_use_fail_same: "quota_use q sz = Some (r, q') \<Longrightarrow> \<not> 0 \<le> r \<Longrightarrow> q' = q"
  by (auto simp: quota_use_def quota_result_def units_bytes Let_def elim!: bind_eq_SomeE
      split: if_splits option.splits)

lemma quota_use_defined:
  assumes "sz \<noteq> 0" and "q_used q + q_units (unat sz) < 2 ^ 32"
  obtains r q' where "quota_use q sz = Some (r, q')"
proof (cases "sz > QUOTA_MAX")
  case True
  then show ?thesis using that quota_use_large by blast
next
  case False
  then have "sz \<le> QUOTA_MAX" by simp
  then show ?thesis
    using that quota_use_cases [of sz q] assms
    by (cases "q_total q < q_used q + q_units (unat sz)") auto
qed

text \<open>
  A run of the loop on a well-formed lessor ends without a failed assertion. It either
  leases the bytes, and adds to the source what it adds to \<open>used\<close>, or changes nothing and
  has seen the source refuse the first amount.
\<close>

definition lease_done :: "quota_lessor \<Rightarrow> nat \<Rightarrow> quota_lessor \<Rightarrow> bool" where
  "lease_done l n l' \<longleftrightarrow> lessor_ok l' \<and>
     unat (ql_leased l') = unat (ql_leased l) + n \<and>
     unat (ql_used l') + 1024 * q_used (source l) = unat (ql_used l) + 1024 * q_used (source l') \<and>
     q_total (source l') = q_total (source l)"

lemma lease_once:
  assumes ok: "lessor_ok l" and u: "quota_use (source l) use = Some (r, q)" and r: "0 \<le> r"
    and req: "unat (ql_leased l) + unat sz \<le> unat (ql_used l) + unat use"
  shows "lease_done l (unat sz) (l\<lparr>source := q, ql_used := ql_used l + of_int r, ql_leased := ql_leased l + sz\<rparr>)"
proof -
  note e = quota_use_effect [OF u r]
  have r': "r = int (1024 * q_units (unat use))" by (rule e(4))
  have "of_int r = (of_nat (1024 * q_units (unat use)) :: u64)" by (simp add: r')
  moreover have b: "1024 * q_units (unat use) < 2 ^ 42" "unat (ql_used l) < 2 ^ 42"
    using e(1) q_used_bound [of q] q_used_bound [of "source l"] ok by (simp_all add: lessor_ok_def)
  ultimately have ru: "unat (of_int r :: u64) = 1024 * q_units (unat use)"
    by (simp add: unat_of_nat del: of_nat_mult)
  have used: "unat (ql_used l + of_int r) = unat (ql_used l) + 1024 * q_units (unat use)"
    using b ru by (simp add: unat_plus_if')
  have le: "unat (ql_leased l) + unat sz \<le> unat (ql_used l) + 1024 * q_units (unat use)"
    using req q_units_bounds [of "unat use"] by linarith
  then have leased: "unat (ql_leased l + sz) = unat (ql_leased l) + unat sz"
    using b by (simp add: unat_plus_if')
  show ?thesis
    using ok e(1-3) used leased le
    by (simp add: lease_done_def lessor_ok_def quota_ok_def word_le_nat_alt dvd_add)
qed

lemma quota_lease_loop_spec:
  assumes "lessor_ok l" and "required \<noteq> 0"
    and "unat required = unat (ql_leased l) + unat sz - unat (ql_used l)"
    and "q_used (source l) + q_units (unat use) < 2 ^ 32"
  shows "\<exists>r l'. quota_lease_loop l sz required use = Some (r, l') \<and>
    (r = sint sz \<and> lease_done l (unat sz) l' \<or> r = - 1 \<and> l' = l)"
  using assms
proof (induction l sz required "use" rule: quota_lease_loop.induct)
  case (1 l sz required "use")
  show ?case
  proof (cases "use \<ge> required")
    case False
    then show ?thesis by (simp add: quota_lease_loop.simps [of l])
  next
    case True
    with "1.prems"(2) have nz: "use \<noteq> 0" by (auto simp: word_le_nat_alt unat_gt_0 [symmetric])
    obtain r q where u: "quota_use (source l) use = Some (r, q)"
      using quota_use_defined [OF nz "1.prems"(4)] .
    show ?thesis
    proof (cases "0 \<le> r")
      case r: True
      have "unat (ql_leased l) + unat sz \<le> unat (ql_used l) + unat use"
        using True "1.prems"(3) by (simp add: word_le_nat_alt)
      from lease_once [OF "1.prems"(1) u r this] show ?thesis
        using True u r by (simp add: quota_lease_loop.simps [of l])
    next
      case r: False
      then have q: "l\<lparr>source := q\<rparr> = l" using quota_use_fail_same [OF u] by simp
      have "q_units (unat (use div 2)) \<le> q_units (unat use)"
        by (simp add: q_units_def unat_div div_le_mono)
      then have b: "q_used (source l) + q_units (unat (use div 2)) < 2 ^ 32"
        using "1.prems"(4) by linarith
      show ?thesis
        using "1.IH" [OF True u refl r, unfolded q, OF "1.prems"(1-3) b] True u r q
        by (simp add: quota_lease_loop.simps [of l])
    qed
  qed
qed


lemma lessor_used_bound: "lessor_ok l \<Longrightarrow> unat (ql_used l) \<le> unat QUOTA_MAX"
  using q_used_bound [of "source l"] by (simp add: lessor_ok_def QUOTA_MAX_unat)

text \<open>C33: a lease on a well-formed lessor, with the numbers away from the limits of their words, ends without
  a failed assertion: it leases the bytes, taking from the source what it adds to its own
  count, or returns \<open>-1\<close> and changes nothing.\<close>

theorem quota_lease_spec:
  assumes ok: "lessor_ok l" and sz: "unat sz < 2 ^ 63"
    and room: "q_used (source l) + q_units (unat sz) + 1024 < 2 ^ 32"
  shows "\<exists>r l'. quota_lease l sz = Some (r, l') \<and>
    (r = int (unat sz) \<and> lease_done l (unat sz) l' \<or> r = - 1 \<and> l' = l)"
proof (cases "ql_leased l + sz \<le> ql_used l")
  case True
  have b: "unat (ql_used l) < 2 ^ 42" "unat (ql_leased l) \<le> unat (ql_used l)"
    using lessor_used_bound [OF ok] ok by (simp_all add: QUOTA_MAX_unat lessor_ok_def word_le_nat_alt)
  then have "unat (ql_leased l + sz) = unat (ql_leased l) + unat sz"
    using sz by (simp add: unat_plus_if')
  with True ok sz show ?thesis
    by (simp add: quota_lease_def lease_done_def lessor_ok_def sint_small_u64 word_le_nat_alt)
next
  case False
  have b: "unat (ql_used l) < 2 ^ 42" "unat (ql_leased l) \<le> unat (ql_used l)"
    using lessor_used_bound [OF ok] ok by (simp_all add: QUOTA_MAX_unat lessor_ok_def word_le_nat_alt)
  have sum: "unat (sz + ql_leased l) = unat (ql_leased l) + unat sz"
    using b sz by (simp add: unat_plus_if')
  then have gt: "unat (ql_used l) < unat (ql_leased l) + unat sz"
    using False by (simp add: word_le_nat_alt add.commute)
  let ?req = "sz + ql_leased l - ql_used l"
  let ?use = "if ?req > QUOTA_USE_MIN then ?req else QUOTA_USE_MIN"
  have req: "unat ?req = unat (ql_leased l) + unat sz - unat (ql_used l)"
    using sum gt by (simp add: unat_sub_if')
  have "unat ?use \<le> unat sz + 1024 * 1024"
    using req b by (auto simp: USE_MIN_unat)
  then have "q_units (unat ?use) \<le> q_units (unat sz + 1024 * 1024)"
    unfolding q_units_def by (intro div_le_mono) simp
  also have "\<dots> = q_units (unat sz) + 1024"
    unfolding q_units_def by simp
  finally have "q_used (source l) + q_units (unat ?use) < 2 ^ 32" using room by linarith
  moreover have "?req \<noteq> 0" using req gt by (metis unat_0 zero_less_diff less_irrefl)
  ultimately show ?thesis
    using quota_lease_loop_spec [OF ok _ req] False sz
    by (simp add: quota_lease_def Let_def sint_small_u64)
qed

lemma quota_available_unat:
  "lessor_ok l \<Longrightarrow> unat (quota_available l) = unat (ql_used l) - unat (ql_leased l)"
  by (simp add: lessor_ok_def quota_available_def unat_sub)

lemma lessor_release:
  assumes ok: "lessor_ok l" and rel: "rel < QUOTA_MAX" "rel \<noteq> 0"
    and le: "unat (ql_leased l) + 1024 * q_units (unat rel) \<le> unat (ql_used l)"
  obtains q' where "quota_release (source l) rel = Some (int (1024 * q_units (unat rel)), q')"
    and "lessor_ok (l\<lparr>source := q', ql_used := ql_used l - of_nat (1024 * q_units (unat rel))\<rparr>)"
    and "unat (ql_used l - of_nat (1024 * q_units (unat rel))) = unat (ql_used l) - 1024 * q_units (unat rel)"
    and "q_used q' + q_units (unat rel) = q_used (source l)" and "q_total q' = q_total (source l)"
proof -
  let ?n = "q_units (unat rel)"
  have n: "?n \<le> q_used (source l)" using ok le by (auto simp: lessor_ok_def)
  obtain q' where q': "quota_release (source l) rel = Some (int (1024 * ?n), q')"
    and e: "q_used q' = q_used (source l) - ?n" "q_total q' = q_total (source l)"
    using quota_release_effect [OF rel n] .
  have "1024 * ?n < 2 ^ 64" using n q_used_bound [of "source l"] by simp
  then have "unat (of_nat (1024 * ?n) :: u64) = 1024 * ?n" by (simp add: unat_of_nat del: of_nat_mult)
  then have u: "unat (ql_used l - of_nat (1024 * ?n)) = unat (ql_used l) - 1024 * ?n"
    using le by (simp add: unat_sub_if' del: of_nat_mult)
  have "1024 dvd unat (ql_used l) - 1024 * ?n"
    using ok by (simp add: lessor_ok_def dvd_diff_nat)
  then have "lessor_ok (l\<lparr>source := q', ql_used := ql_used l - of_nat (1024 * ?n)\<rparr>)"
    using ok e n u le by (auto simp: lessor_ok_def quota_ok_def word_le_nat_alt simp del: of_nat_mult)
  moreover have "q_used q' + ?n = q_used (source l)" using e(1) n by simp
  ultimately show thesis using q' e(2) u by (intro that [of q'])
qed

text \<open>Ending a lease gives back exactly the bytes, keeps the lessor well-formed and its count equal to
  what it holds of the source, and leaves less than two megabytes unleased.\<close>

theorem quota_end_lease_spec:
  assumes ok: "lessor_ok l" and sz: "sz \<le> ql_leased l"
  shows "\<exists>l'. quota_end_lease l sz = Some (int (unat sz), l') \<and> lessor_ok l' \<and>
    unat (ql_leased l') = unat (ql_leased l) - unat sz \<and>
    unat (ql_used l') + 1024 * q_used (source l) = unat (ql_used l) + 1024 * q_used (source l') \<and>
    q_total (source l') = q_total (source l) \<and>
    quota_available l' < 2 * QUOTA_USE_MIN"
proof -
  define l1 where "l1 = l\<lparr>ql_leased := ql_leased l - sz\<rparr>"
  have b: "unat (ql_used l) \<le> unat QUOTA_MAX" "unat (ql_leased l) \<le> unat (ql_used l)"
    using lessor_used_bound [OF ok] ok by (simp_all add: lessor_ok_def word_le_nat_alt)
  have sz': "unat sz \<le> unat (ql_leased l)" "unat sz < 2 ^ 63"
    using sz b by (simp_all add: word_le_nat_alt QUOTA_MAX_unat)
  have leased: "unat (ql_leased l1) = unat (ql_leased l) - unat sz"
    using sz' by (simp add: l1_def unat_sub_if')
  have ok1: "lessor_ok l1"
    using ok leased b by (simp add: lessor_ok_def l1_def word_le_nat_alt)
  let ?av = "ql_used l1 - ql_leased l1"
  have av: "unat ?av = unat (ql_used l) - unat (ql_leased l1)"
    using leased b by (simp add: l1_def unat_sub_if')
  have two: "unat (2 * QUOTA_USE_MIN) = 2 * (1024 * 1024)"
    by (simp add: QUOTA_USE_MIN_def QUOTA_UNIT_SIZE_def)
  show ?thesis
  proof (cases "?av \<ge> 2 * QUOTA_USE_MIN")
    case False
    then show ?thesis
      using ok1 leased sz sz'
      by (simp add: quota_end_lease_def l1_def [symmetric] sint_small_u64 quota_available_def)
        (simp add: l1_def)
  next
    case True
    let ?rel = "?av - QUOTA_USE_MIN - QUOTA_UNIT_SIZE"
    have ge: "2 * (1024 * 1024) \<le> unat ?av" using True two by (simp add: word_le_nat_alt)
    have rel: "unat ?rel = unat ?av - 1024 * 1024 - 1024"
      using ge by (simp add: unat_sub_if' USE_MIN_unat QUOTA_UNIT_SIZE_def)
    have le: "unat ?av \<le> unat (ql_used l)" using av by simp
    have "?rel < QUOTA_MAX" using rel ge le b by (simp add: word_less_nat_alt)
    moreover have "?rel \<noteq> 0" using rel ge by (auto simp: unat_eq_0 [symmetric] simp del: unat_eq_zero)
    moreover have q: "1024 * q_units (unat ?rel) < unat ?rel + 1024"
      "unat ?rel \<le> 1024 * q_units (unat ?rel)"
      using q_units_bounds [of "unat ?rel"] by blast+
    have "unat (ql_leased l1) + 1024 * q_units (unat ?rel) \<le> unat (ql_used l1)"
      using q rel av ge by (simp add: l1_def)
    ultimately obtain q'
      where q': "quota_release (source l1) ?rel = Some (int (1024 * q_units (unat ?rel)), q')"
        and ok': "lessor_ok (l1\<lparr>source := q', ql_used := ql_used l1 - of_nat (1024 * q_units (unat ?rel))\<rparr>)"
        and u: "unat (ql_used l1 - of_nat (1024 * q_units (unat ?rel))) =
          unat (ql_used l1) - 1024 * q_units (unat ?rel)"
        and e: "q_used q' + q_units (unat ?rel) = q_used (source l1)" "q_total q' = q_total (source l1)"
      by (rule lessor_release [OF ok1])
    let ?l' = "l1\<lparr>source := q', ql_used := ql_used l1 - of_nat (1024 * q_units (unat ?rel))\<rparr>"
    have run: "quota_end_lease l sz = Some (int (unat sz), ?l')"
      using True q' sz sz' by (simp add: quota_end_lease_def l1_def [symmetric] sint_small_u64)
    have used': "unat (ql_used ?l') = unat (ql_used l) - 1024 * q_units (unat ?rel)"
      using u by (simp add: l1_def del: of_nat_mult)
    moreover have "unat (ql_leased ?l') = unat (ql_leased l1)" by simp
    ultimately have "unat (quota_available ?l') < 2 * (1024 * 1024)"
      unfolding quota_available_unat [OF ok'] using q rel ge av by linarith
    then have avail: "quota_available ?l' < 2 * QUOTA_USE_MIN"
      unfolding word_less_nat_alt two .
    have src: "source l1 = source l" "source ?l' = q'" by (simp_all add: l1_def)
    have "1024 * q_units (unat ?rel) \<le> unat (ql_used l)" using q(1) rel ge le by linarith
    with used' e(1) have
      "unat (ql_used ?l') + 1024 * q_used (source l) = unat (ql_used l) + 1024 * q_used (source ?l')"
      unfolding src by linarith
    moreover have "unat (ql_leased ?l') = unat (ql_leased l) - unat sz" using leased by simp
    moreover have "q_total (source ?l') = q_total (source l)" using e(2) unfolding src .
    ultimately show ?thesis using run ok' avail by blast
  qed
qed

text \<open>Destroying a lessor gives everything it took back to the source.\<close>

text \<open>Destroying a lessor returns everything it took to the source.\<close>

theorem quota_lessor_destroy_spec:
  assumes ok: "lessor_ok l" and lt: "ql_used l \<noteq> QUOTA_MAX"
  shows "\<exists>l'. quota_lessor_destroy l = Some l' \<and> ql_used l' = 0 \<and>
    1024 * q_used (source l') + unat (ql_used l) = 1024 * q_used (source l) \<and>
    q_total (source l') = q_total (source l)"
proof (cases "ql_used l = 0")
  case True
  then show ?thesis by (simp add: quota_lessor_destroy_def)
next
  case False
  have "ql_used l \<le> QUOTA_MAX" using lessor_used_bound [OF ok] by (simp add: word_le_nat_alt)
  with lt have less: "ql_used l < QUOTA_MAX" by simp
  have d: "1024 dvd unat (ql_used l)" using ok by (simp add: lessor_ok_def)
  then have n: "1024 * q_units (unat (ql_used l)) = unat (ql_used l)"
    by (auto simp: q_units_def elim!: dvdE)
  then have "q_units (unat (ql_used l)) \<le> q_used (source l)" using ok by (simp add: lessor_ok_def)
  from quota_release_effect [OF less False this] obtain q' where
    q': "quota_release (source l) (ql_used l) = Some (int (1024 * q_units (unat (ql_used l))), q')"
    and e: "q_used q' = q_used (source l) - q_units (unat (ql_used l))" "q_total q' = q_total (source l)" .
  have "ql_used l mod QUOTA_UNIT_SIZE = 0"
    using d by (simp add: QUOTA_UNIT_SIZE_def word_unat_eq_iff unat_mod)
  then show ?thesis
    using False q' e n ok by (auto simp: quota_lessor_destroy_def lessor_ok_def)
qed

section \<open>Properties\<close>

lemma lessor_example_ok:
  "lessor_ok \<lparr>source = \<lparr>qvalue = pack_units 8192 1024\<rparr>, ql_used = 1048576, ql_leased = 1000\<rparr>"
  by (simp add: lessor_ok_def quota_ok_def q_used_def q_total_def)

theorem quota_lease_spec_witness:
  "\<exists>r l'. quota_lease \<lparr>source = \<lparr>qvalue = pack_units 8192 1024\<rparr>, ql_used = 1048576, ql_leased = 1000\<rparr> 2097152 = Some (r, l') \<and>
    (r = 2097152 \<and> lease_done \<lparr>source = \<lparr>qvalue = pack_units 8192 1024\<rparr>, ql_used = 1048576, ql_leased = 1000\<rparr> 2097152 l' \<or> r = - 1)"
  using quota_lease_spec [OF lessor_example_ok, of 2097152] by (auto simp: q_used_def q_units_def)

theorem quota_end_lease_spec_witness:
  "\<exists>l'. quota_end_lease \<lparr>source = \<lparr>qvalue = pack_units 8192 1024\<rparr>, ql_used = 1048576, ql_leased = 1000\<rparr> 300 = Some (300, l') \<and>
    unat (ql_leased l') = 700"
  using quota_end_lease_spec [OF lessor_example_ok, of 300] by auto

theorem quota_lessor_destroy_spec_witness:
  "\<exists>l'. quota_lessor_destroy \<lparr>source = \<lparr>qvalue = pack_units 8192 1024\<rparr>, ql_used = 1048576, ql_leased = 1000\<rparr> = Some l' \<and> q_used (source l') = 0"
  using quota_lessor_destroy_spec [OF lessor_example_ok]
  by (auto simp: q_used_def QUOTA_MAX_def QUOTA_UNIT_SIZE_def UINT32_MAX_def)

end
