(* ===== verification/Lifo.thy ===== *)
theory Lifo
  imports Prelude
begin

text \<open>
  The two intrusive stacks: \<open>include/small/lifo.h\<close> and \<open>include/small/lf_lifo.h\<close>. An element
  stores the link to the element below it in its own first word, so the state is the head
  and a memory of words. In the lock-free stack the low 16 bits of a head pointer are a
  counter that every push advances.
\<close>

section \<open>The interface of a stack\<close>

locale stack_impl =
  fixes init :: 's
    and push :: "'s \<Rightarrow> 'e \<Rightarrow> 's option"
    and pop :: "'s \<Rightarrow> 'e option \<times> 's"
    and rel :: "'s \<Rightarrow> 'e list \<Rightarrow> bool"
    and valid :: "'e \<Rightarrow> bool"
  assumes rel_init: "rel init []"
    and push_ok: "rel s xs \<Longrightarrow> valid x \<Longrightarrow> x \<notin> set xs \<Longrightarrow> \<exists>s'. push s x = Some s' \<and> rel s' (x # xs)"
    and pop_nil: "rel s [] \<Longrightarrow> pop s = (None, s)"
    and pop_cons: "rel s (x # xs) \<Longrightarrow> \<exists>s'. pop s = (Some x, s') \<and> rel s' xs"
begin

primrec push_all :: "'s \<Rightarrow> 'e list \<Rightarrow> 's option" where
  "push_all s [] = Some s"
| "push_all s (y # ys) = (case push s y of None \<Rightarrow> None | Some s' \<Rightarrow> push_all s' ys)"

primrec pop_many :: "nat \<Rightarrow> 's \<Rightarrow> 'e option list \<times> 's" where
  "pop_many 0 s = ([], s)"
| "pop_many (Suc n) s = (let (r, s') = pop s; (rs, s'') = pop_many n s' in (r # rs, s''))"

lemma push_all_rel:
  "rel s xs \<Longrightarrow> distinct (rev ys @ xs) \<Longrightarrow> (\<And>y. y \<in> set ys \<Longrightarrow> valid y) \<Longrightarrow>
   \<exists>s'. push_all s ys = Some s' \<and> rel s' (rev ys @ xs)"
proof (induction ys arbitrary: s xs)
  case Nil
  then show ?case by simp
next
  case (Cons y ys)
  then obtain s' where "push s y = Some s'" "rel s' (y # xs)"
    using push_ok [of s xs y] by auto
  with Cons show ?case by (fastforce dest: Cons.IH)
qed

lemma pop_many_rel:
  "rel s (ys @ xs) \<Longrightarrow> \<exists>s'. pop_many (length ys) s = (map Some ys, s') \<and> rel s' xs"
proof (induction ys arbitrary: s)
  case Nil
  then show ?case by simp
next
  case (Cons y ys)
  then obtain s' where "pop s = (Some y, s')" "rel s' (ys @ xs)"
    using pop_cons [of s y "ys @ xs"] by auto
  with Cons.IH [of s'] show ?case by auto
qed

text \<open>What goes in comes out in reverse order, and leaves the stack below untouched.\<close>

lemma push_pop_reverse:
  assumes "rel s xs" and "distinct (rev ys @ xs)" and "\<And>y. y \<in> set ys \<Longrightarrow> valid y"
  shows "\<exists>s' s''. push_all s ys = Some s' \<and> pop_many (length ys) s' = (map Some (rev ys), s'') \<and> rel s'' xs"
  using push_all_rel [OF assms] pop_many_rel [where ys = "rev ys"] by fastforce

end

section \<open>The plain stack\<close>

record lifo =
  lifo_next :: addr
  lifo_mem :: "addr \<Rightarrow> addr"

definition lifo_init :: "lifo \<Rightarrow> lifo" where
  "lifo_init l = l\<lparr>lifo_next := NULL\<rparr>"

definition lifo_push :: "lifo \<Rightarrow> addr \<Rightarrow> lifo" where
  "lifo_push l elem = l\<lparr>lifo_mem := (lifo_mem l)(elem := lifo_next l), lifo_next := elem\<rparr>"

definition lifo_pop :: "lifo \<Rightarrow> addr \<times> lifo" where
  "lifo_pop l =
     (let elem = lifo_next l
      in (elem, if elem \<noteq> NULL then l\<lparr>lifo_next := lifo_mem l elem\<rparr> else l))"

definition lifo_peek :: "lifo \<Rightarrow> addr" where
  "lifo_peek l = lifo_next l"

definition lifo_is_empty :: "lifo \<Rightarrow> bool" where
  "lifo_is_empty l \<longleftrightarrow> lifo_next l = NULL"

fun chain :: "(addr \<Rightarrow> addr) \<Rightarrow> addr \<Rightarrow> addr list \<Rightarrow> bool" where
  "chain m p [] \<longleftrightarrow> p = NULL"
| "chain m p (x # xs) \<longleftrightarrow> p = x \<and> x \<noteq> NULL \<and> chain m (m x) xs"

definition lifo_rel :: "lifo \<Rightarrow> addr list \<Rightarrow> bool" where
  "lifo_rel l xs \<longleftrightarrow> distinct xs \<and> chain (lifo_mem l) (lifo_next l) xs"

lemma chain_upd [simp]: "a \<notin> set xs \<Longrightarrow> chain (m(a := v)) p xs = chain m p xs"
  by (induction xs arbitrary: p) auto

text \<open>NULL of \<open>lifo_pop\<close> as \<open>None\<close>.\<close>

definition ptr_opt :: "addr \<Rightarrow> addr option" where
  "ptr_opt p = (if p = NULL then None else Some p)"

interpretation lifo: stack_impl
  "lifo_init \<lparr>lifo_next = 0, lifo_mem = (\<lambda>_. 0)\<rparr>" "\<lambda>s x. Some (lifo_push s x)"
  "\<lambda>s. map_prod ptr_opt id (lifo_pop s)" lifo_rel "\<lambda>x. x \<noteq> NULL"
  by unfold_locales
    (auto simp: lifo_rel_def lifo_init_def lifo_push_def lifo_pop_def ptr_opt_def Let_def)

lemma lifo_is_empty_iff: "lifo_rel l xs \<Longrightarrow> lifo_is_empty l \<longleftrightarrow> xs = []"
  by (cases xs) (auto simp: lifo_rel_def lifo_is_empty_def)

lemma lifo_peek_hd: "lifo_rel l (x # xs) \<Longrightarrow> lifo_peek l = x"
  by (simp add: lifo_rel_def lifo_peek_def)

section \<open>The lock-free stack\<close>

text \<open>
  One pass of each loop, the exchange succeeding: the behaviour without contention.
  Addresses are 64-bit words here because the low bits of the head are not part of an
  address.
\<close>

record lf_lifo_state =
  lf_next :: u64
  lf_mem :: "u64 \<Rightarrow> u64"

definition SMALL_LIFO_ALIGNMENT :: u64 where
  "SMALL_LIFO_ALIGNMENT = 0xffff"

definition aba_value :: "u64 \<Rightarrow> u64" where
  "aba_value a = a AND SMALL_LIFO_ALIGNMENT"

definition lf_lifo :: "u64 \<Rightarrow> u64" where
  "lf_lifo a = a AND NOT SMALL_LIFO_ALIGNMENT"

definition lf_lifo_init :: "lf_lifo_state \<Rightarrow> lf_lifo_state" where
  "lf_lifo_init s = s\<lparr>lf_next := 0\<rparr>"

definition lf_lifo_push :: "lf_lifo_state \<Rightarrow> u64 \<Rightarrow> lf_lifo_state option" where
  "lf_lifo_push s elem = do {
     c_assert (lf_lifo elem = elem);
     let tail = lf_next s;
     let newhead = elem + ((aba_value tail + 1) AND SMALL_LIFO_ALIGNMENT);
     Some (s\<lparr>lf_mem := (lf_mem s)(lf_lifo elem := tail), lf_next := newhead\<rparr>) }"

definition lf_lifo_pop :: "lf_lifo_state \<Rightarrow> u64 \<times> lf_lifo_state" where
  "lf_lifo_pop s =
     (let tail = lf_next s; elem = lf_lifo tail
      in if elem = 0 then (0, s)
         else let next = lf_lifo (lf_mem s elem);
                  newhead = (if next \<noteq> 0 then next + aba_value tail else aba_value tail)
              in (elem, s\<lparr>lf_next := newhead\<rparr>))"

definition lf_lifo_is_empty :: "lf_lifo_state \<Rightarrow> bool" where
  "lf_lifo_is_empty s \<longleftrightarrow> lf_next s = 0"

lemma bit_ALIGNMENT [simp]: "bit SMALL_LIFO_ALIGNMENT n \<longleftrightarrow> n < 16"
proof -
  have "SMALL_LIFO_ALIGNMENT = mask 16" by (simp add: SMALL_LIFO_ALIGNMENT_def mask_eq_exp_minus_1)
  then have "bit SMALL_LIFO_ALIGNMENT n \<longleftrightarrow> bit (mask 16 :: u64) n" by (simp only:)
  also have "\<dots> \<longleftrightarrow> n < 16" by (simp only: bit_mask_iff) auto
  finally show ?thesis .
qed

text \<open>An aligned address plus a counter value is their union as bits.\<close>

lemma aligned_plus_low:
  assumes "lf_lifo x = x" and "aba_value c = c"
  shows "lf_lifo (x + c) = x" and "aba_value (x + c) = c"
proof -
  have x: "\<not> bit x n" if "n < 16" for n
    using arg_cong [OF assms(1), of "\<lambda>w. bit w n"] that by (simp add: lf_lifo_def bit_simps)
  have c: "n < 16" if "bit c n" for n
    using arg_cong [OF assms(2), of "\<lambda>w. bit w n"] that by (simp add: aba_value_def bit_simps)
  have "x + c = x OR c"
    by (rule disjunctive_add_eq_or) (use x c in \<open>auto intro!: bit_word_eqI simp: bit_simps\<close>)
  then show "lf_lifo (x + c) = x" "aba_value (x + c) = c"
    using x c by (auto intro!: bit_word_eqI simp: lf_lifo_def aba_value_def bit_simps)
qed

lemma lf_lifo_idem [simp]: "lf_lifo (lf_lifo x) = lf_lifo x"
  by (rule bit_word_eqI) (auto simp: lf_lifo_def bit_simps)

lemma aba_idem [simp]: "aba_value (aba_value x) = aba_value x"
  "aba_value (x AND SMALL_LIFO_ALIGNMENT) = x AND SMALL_LIFO_ALIGNMENT"
  by (rule bit_word_eqI; simp add: aba_value_def bit_simps)+

lemma lf_lifo_aba [simp]: "lf_lifo (aba_value x) = 0"
  by (rule bit_word_eqI) (auto simp: lf_lifo_def aba_value_def bit_simps)

fun lf_chain :: "(u64 \<Rightarrow> u64) \<Rightarrow> u64 \<Rightarrow> u64 list \<Rightarrow> bool" where
  "lf_chain m p [] \<longleftrightarrow> lf_lifo p = 0"
| "lf_chain m p (x # xs) \<longleftrightarrow> lf_lifo p = x \<and> x \<noteq> 0 \<and> lf_chain m (m x) xs"

definition lf_rel :: "lf_lifo_state \<Rightarrow> u64 list \<Rightarrow> bool" where
  "lf_rel s xs \<longleftrightarrow> distinct xs \<and> lf_chain (lf_mem s) (lf_next s) xs"

lemma lf_chain_upd [simp]: "a \<notin> set xs \<Longrightarrow> lf_chain (m(a := v)) p xs = lf_chain m p xs"
  by (induction xs arbitrary: p) auto

lemma lf_chain_cong: "lf_lifo p = lf_lifo q \<Longrightarrow> lf_chain m p xs = lf_chain m q xs"
  by (cases xs) auto

text \<open>The counter: a push adds one modulo \<open>2 ^ 16\<close>, a pop keeps it.\<close>

lemma lf_push_aba:
  assumes "lf_lifo_push s x = Some s'"
  shows "aba_value (lf_next s') = (aba_value (lf_next s) + 1) AND SMALL_LIFO_ALIGNMENT"
    and "lf_lifo (lf_next s') = x"
  using assms aligned_plus_low [of x "(aba_value (lf_next s) + 1) AND SMALL_LIFO_ALIGNMENT"]
  by (auto simp: lf_lifo_push_def Let_def split: if_splits)

lemma lf_pop_aba: "aba_value (lf_next (snd (lf_lifo_pop s))) = aba_value (lf_next s)"
  using aligned_plus_low(2) [of "lf_lifo (lf_mem s (lf_lifo (lf_next s)))" "aba_value (lf_next s)"]
  by (auto simp: lf_lifo_pop_def Let_def)

lemma lf_pop_cons:
  assumes "lf_rel s (x # xs)"
  shows "fst (lf_lifo_pop s) = x" and "lf_rel (snd (lf_lifo_pop s)) xs"
proof -
  from assms have x: "lf_lifo (lf_next s) = x" "x \<noteq> 0" "distinct xs" "x \<notin> set xs"
    and c: "lf_chain (lf_mem s) (lf_mem s x) xs"
    by (simp_all add: lf_rel_def)
  then show "fst (lf_lifo_pop s) = x" by (simp add: lf_lifo_pop_def Let_def)
  let ?s' = "snd (lf_lifo_pop s)"
  have m: "lf_mem ?s' = lf_mem s" by (simp add: lf_lifo_pop_def Let_def)
  have "lf_lifo (lf_next ?s') = lf_lifo (lf_mem s x)"
    using x aligned_plus_low(1) [of "lf_lifo (lf_mem s x)" "aba_value (lf_next s)"]
    by (auto simp: lf_lifo_pop_def Let_def)
  with c have "lf_chain (lf_mem s) (lf_next ?s') xs" using lf_chain_cong by blast
  with x m show "lf_rel ?s' xs" by (simp add: lf_rel_def)
qed

lemma lf_push_rel:
  assumes "lf_rel s xs" and "lf_lifo x = x" and "x \<noteq> 0" and "x \<notin> set xs"
  shows "\<exists>s'. lf_lifo_push s x = Some s' \<and> lf_rel s' (x # xs)"
proof -
  obtain s' where s': "lf_lifo_push s x = Some s'"
    using assms(2) by (simp add: lf_lifo_push_def Let_def)
  then have "lf_mem s' = (lf_mem s)(x := lf_next s)"
    using assms(2) by (auto simp: lf_lifo_push_def Let_def)
  with lf_push_aba(2) [OF s'] assms s' show ?thesis by (simp add: lf_rel_def)
qed

definition word_opt :: "u64 \<Rightarrow> u64 option" where
  "word_opt p = (if p = 0 then None else Some p)"

interpretation lf: stack_impl
  "lf_lifo_init \<lparr>lf_next = 0, lf_mem = (\<lambda>_. 0)\<rparr>" lf_lifo_push
  "\<lambda>s. map_prod word_opt id (lf_lifo_pop s)" lf_rel "\<lambda>x. lf_lifo x = x \<and> x \<noteq> 0"
proof unfold_locales
  show "lf_rel (lf_lifo_init \<lparr>lf_next = 0, lf_mem = \<lambda>_. 0\<rparr>) []"
    by (simp add: lf_rel_def lf_lifo_init_def lf_lifo_def)
next
  fix s xs x
  assume "lf_rel s xs" "lf_lifo x = x \<and> x \<noteq> 0" "x \<notin> set xs"
  then show "\<exists>s'. lf_lifo_push s x = Some s' \<and> lf_rel s' (x # xs)" by (intro lf_push_rel) auto
next
  fix s
  assume "lf_rel s []"
  then show "map_prod word_opt id (lf_lifo_pop s) = (None, s)"
    by (simp add: lf_rel_def lf_lifo_pop_def word_opt_def)
next
  fix s x xs
  assume r: "lf_rel s (x # xs)"
  then have "x \<noteq> 0" by (simp add: lf_rel_def)
  with lf_pop_cons [OF r] show "\<exists>s'. map_prod word_opt id (lf_lifo_pop s) = (Some x, s') \<and> lf_rel s' xs"
    by (cases "lf_lifo_pop s") (auto simp: word_opt_def)
qed

section \<open>Properties\<close>

text \<open>C34: an element pushed on the lock-free stack is the next one popped, the stack below is kept, and the
  head differs from the one before in its counter, which guards a delayed exchange.\<close>

theorem lf_lifo_push_pop:
  assumes "lf_rel s xs" and "lf_lifo x = x" and "x \<noteq> 0" and "x \<notin> set xs"
  shows "\<exists>s'. lf_lifo_push s x = Some s' \<and> lf_rel s' (x # xs) \<and>
    fst (lf_lifo_pop s') = x \<and> lf_rel (snd (lf_lifo_pop s')) xs \<and>
    lf_next (snd (lf_lifo_pop s')) \<noteq> lf_next s"
proof -
  obtain s' where s': "lf_lifo_push s x = Some s'" "lf_rel s' (x # xs)" using lf_push_rel [OF assms] by blast
  have "aba_value (lf_next (snd (lf_lifo_pop s'))) = (aba_value (lf_next s) + 1) AND SMALL_LIFO_ALIGNMENT"
    using lf_push_aba(1) [OF s'(1)] lf_pop_aba [of s'] by simp
  moreover have "(aba_value y + 1) AND SMALL_LIFO_ALIGNMENT \<noteq> aba_value y" for y
  proof -
    have "bit ((aba_value y + 1) AND SMALL_LIFO_ALIGNMENT) 0 \<noteq> bit (aba_value y) 0"
      by (simp add: bit_simps) (simp add: bit_0)
    then show ?thesis by metis
  qed
  ultimately have "lf_next (snd (lf_lifo_pop s')) \<noteq> lf_next s" by metis
  then show ?thesis using s' lf_pop_cons [OF s'(2)] by blast
qed

theorem lf_lifo_push_pop_witness:
  "\<exists>s'. lf_lifo_push \<lparr>lf_next = 0, lf_mem = (\<lambda>_. 0)\<rparr> 0x10000 = Some s' \<and> fst (lf_lifo_pop s') = 0x10000"
proof -
  have "lf_rel \<lparr>lf_next = 0, lf_mem = (\<lambda>_. 0)\<rparr> []" by (simp add: lf_rel_def lf_lifo_def)
  from lf_lifo_push_pop [OF this, of "0x10000"] show ?thesis
    by (auto simp: lf_lifo_def SMALL_LIFO_ALIGNMENT_def)
qed

text \<open>Elements pushed one after another on the lock-free stack come back in reverse order, and then the
  stack has what it had before.\<close>

theorem lf_lifo_batch:
  assumes "lf_rel s xs" and "distinct (rev ys @ xs)" and "\<And>y. y \<in> set ys \<Longrightarrow> lf_lifo y = y \<and> y \<noteq> 0"
  shows "\<exists>s' s''. stack_impl.push_all lf_lifo_push s ys = Some s' \<and>
    stack_impl.pop_many (\<lambda>s. map_prod word_opt id (lf_lifo_pop s)) (length ys) s' = (map Some (rev ys), s'') \<and>
    lf_rel s'' xs"
  using assms by (rule lf.push_pop_reverse)

theorem lf_lifo_batch_witness:
  "\<exists>s' s''. stack_impl.push_all lf_lifo_push \<lparr>lf_next = 0, lf_mem = (\<lambda>_. 0)\<rparr> [0x10000, 0x20000] = Some s' \<and>
    stack_impl.pop_many (\<lambda>s. map_prod word_opt id (lf_lifo_pop s)) (length [0x10000, 0x20000 :: u64]) s' =
      (map Some (rev [0x10000, 0x20000]), s'') \<and> lf_rel s'' []"
proof (rule lf_lifo_batch)
  show "lf_rel \<lparr>lf_next = 0, lf_mem = (\<lambda>_. 0)\<rparr> []" by (simp add: lf_rel_def lf_lifo_def)
qed (auto simp: lf_lifo_def SMALL_LIFO_ALIGNMENT_def)

text \<open>\<open>lf_lifo_is_empty\<close> compares the whole head with zero, so after a push and a pop on an empty stack
  it answers that the stack is not empty, although a pop returns nothing.\<close>

theorem lf_lifo_is_empty_stale:
  "\<exists>s'. lf_lifo_push \<lparr>lf_next = 0, lf_mem = (\<lambda>_. 0)\<rparr> 0x10000 = Some s' \<and>
    \<not> lf_lifo_is_empty (snd (lf_lifo_pop s')) \<and> fst (lf_lifo_pop (snd (lf_lifo_pop s'))) = 0"
  by (simp add: lf_lifo_push_def lf_lifo_pop_def lf_lifo_is_empty_def lf_lifo_def aba_value_def
      SMALL_LIFO_ALIGNMENT_def Let_def)

end
