(* ===== verification/Rlist.thy ===== *)
theory Rlist
  imports Prelude
begin

text \<open>
  \<open>include/small/rlist.h\<close>: circular doubly linked lists whose links live in the linked
  objects. The state is the pair of link fields of every object; \<open>rlist_is h head xs\<close> says
  that the ring of \<open>head\<close> runs through \<open>xs\<close>. Every operation is the sequence of assignments
  of the C function and is shown to act on \<open>xs\<close> as the list operation it names, touching
  only the links of the objects involved.
\<close>

section \<open>Links\<close>

record rlist =
  prv :: "addr \<Rightarrow> addr"
  nxt :: "addr \<Rightarrow> addr"

definition set_prev :: "rlist \<Rightarrow> addr \<Rightarrow> addr \<Rightarrow> rlist" where
  "set_prev h a v = h\<lparr>prv := (prv h)(a := v)\<rparr>"

definition set_next :: "rlist \<Rightarrow> addr \<Rightarrow> addr \<Rightarrow> rlist" where
  "set_next h a v = h\<lparr>nxt := (nxt h)(a := v)\<rparr>"

section \<open>Operations\<close>

definition rlist_create :: "rlist \<Rightarrow> addr \<Rightarrow> rlist" where
  "rlist_create h list = (let h = set_next h list list in set_prev h list list)"

definition rlist_add :: "rlist \<Rightarrow> addr \<Rightarrow> addr \<Rightarrow> rlist" where
  "rlist_add h head item =
     (let h = set_prev h item head;
          h = set_next h item (nxt h head);
          h = set_next h (prv h item) item
      in set_prev h (nxt h item) item)"

definition rlist_add_tail :: "rlist \<Rightarrow> addr \<Rightarrow> addr \<Rightarrow> rlist" where
  "rlist_add_tail h head item =
     (let h = set_next h item head;
          h = set_prev h item (prv h head);
          h = set_next h (prv h item) item
      in set_prev h (nxt h item) item)"

definition rlist_del :: "rlist \<Rightarrow> addr \<Rightarrow> rlist" where
  "rlist_del h item =
     (let h = set_next h (prv h item) (nxt h item);
          h = set_prev h (nxt h item) (prv h item)
      in rlist_create h item)"

definition rlist_shift :: "rlist \<Rightarrow> addr \<Rightarrow> addr \<times> rlist" where
  "rlist_shift h head =
     (let shift = nxt h head;
          h = set_next h head (nxt h shift);
          h = set_prev h (nxt h shift) head;
          h = set_prev h shift shift
      in (shift, set_next h shift shift))"

definition rlist_shift_tail :: "rlist \<Rightarrow> addr \<Rightarrow> addr \<times> rlist" where
  "rlist_shift_tail h head = (let shift = prv h head in (shift, rlist_del h shift))"

definition rlist_first :: "rlist \<Rightarrow> addr \<Rightarrow> addr" where
  "rlist_first h head = nxt h head"

definition rlist_last :: "rlist \<Rightarrow> addr \<Rightarrow> addr" where
  "rlist_last h head = prv h head"

definition rlist_next :: "rlist \<Rightarrow> addr \<Rightarrow> addr" where
  "rlist_next h item = nxt h item"

definition rlist_prev :: "rlist \<Rightarrow> addr \<Rightarrow> addr" where
  "rlist_prev h item = prv h item"

definition rlist_empty :: "rlist \<Rightarrow> addr \<Rightarrow> bool" where
  "rlist_empty h item \<longleftrightarrow> nxt h item = prv h item \<and> nxt h item = item"

definition rlist_move :: "rlist \<Rightarrow> addr \<Rightarrow> addr \<Rightarrow> rlist" where
  "rlist_move h to item = rlist_add (rlist_del h item) to item"

definition rlist_move_tail :: "rlist \<Rightarrow> addr \<Rightarrow> addr \<Rightarrow> rlist" where
  "rlist_move_tail h to item =
     (let h = set_next h (prv h item) (nxt h item);
          h = set_prev h (nxt h item) (prv h item);
          h = set_next h item to;
          h = set_prev h item (prv h to);
          h = set_next h (prv h item) item
      in set_prev h (nxt h item) item)"

definition rlist_swap :: "rlist \<Rightarrow> addr \<Rightarrow> addr \<Rightarrow> rlist" where
  "rlist_swap h rhs lhs =
     (let tmp_prev = prv h rhs; tmp_next = nxt h rhs;
          h = set_next (set_prev h rhs (prv h lhs)) rhs (nxt h lhs);
          h = set_next (set_prev h lhs tmp_prev) lhs tmp_next;
          h = (if nxt h lhs = rhs then set_next h lhs lhs else h);
          h = set_prev h (nxt h lhs) lhs;
          h = set_next h (prv h lhs) lhs;
          h = (if nxt h rhs = lhs then set_next h rhs rhs else h);
          h = set_prev h (nxt h rhs) rhs
      in set_next h (prv h rhs) rhs)"

definition rlist_splice :: "rlist \<Rightarrow> addr \<Rightarrow> addr \<Rightarrow> rlist" where
  "rlist_splice h head1 head2 =
     (if \<not> rlist_empty h head2 then
        let h = set_prev h (nxt h head1) (prv h head2);
            h = set_next h (prv h head2) (nxt h head1);
            h = set_next h head1 (nxt h head2);
            h = set_prev h (nxt h head2) head1
        in rlist_create h head2
      else h)"

definition rlist_splice_tail :: "rlist \<Rightarrow> addr \<Rightarrow> addr \<Rightarrow> rlist" where
  "rlist_splice_tail h head1 head2 =
     (if \<not> rlist_empty h head2 then
        let h = set_next h (prv h head1) (nxt h head2);
            h = set_prev h (nxt h head2) (prv h head1);
            h = set_prev h head1 (prv h head2);
            h = set_next h (prv h head2) head1
        in rlist_create h head2
      else h)"

definition rlist_cut_before :: "rlist \<Rightarrow> addr \<Rightarrow> addr \<Rightarrow> addr \<Rightarrow> rlist" where
  "rlist_cut_before h head1 head2 item =
     (if nxt h head1 = item then rlist_create h head1
      else
        let h = set_next h head1 (nxt h head2);
            h = set_prev h (nxt h head1) head1;
            h = set_prev h head1 (prv h item);
            h = set_next h (prv h head1) head1;
            h = set_next h head2 item
        in set_prev h item head2)"

text \<open>
  \<open>rlist_foreach\<close> and \<open>rlist_foreach_reverse\<close>: the items a walk visits. A walk over a
  broken ring need not end, so it is a partial function.
\<close>

partial_function (option) rlist_walk :: "(addr \<Rightarrow> addr) \<Rightarrow> addr \<Rightarrow> addr \<Rightarrow> addr list option" where
  "rlist_walk succ head item =
     (if item = head then Some []
      else Option.bind (rlist_walk succ head (succ item)) (\<lambda>xs. Some (item # xs)))"

definition rlist_foreach :: "rlist \<Rightarrow> addr \<Rightarrow> addr list option" where
  "rlist_foreach h head = rlist_walk (nxt h) head (rlist_first h head)"

definition rlist_foreach_reverse :: "rlist \<Rightarrow> addr \<Rightarrow> addr list option" where
  "rlist_foreach_reverse h head = rlist_walk (prv h) head (rlist_last h head)"

section \<open>Rings\<close>

fun dseg :: "rlist \<Rightarrow> addr \<Rightarrow> addr list \<Rightarrow> addr \<Rightarrow> bool" where
  "dseg h p [] q \<longleftrightarrow> nxt h p = q \<and> prv h q = p"
| "dseg h p (x # xs) q \<longleftrightarrow> nxt h p = x \<and> prv h x = p \<and> dseg h x xs q"

definition rlist_is :: "rlist \<Rightarrow> addr \<Rightarrow> addr list \<Rightarrow> bool" where
  "rlist_is h head xs \<longleftrightarrow> distinct (head # xs) \<and> dseg h head xs head"

lemma link_simps [simp]:
  "prv (set_prev h a v) = (prv h)(a := v)" "nxt (set_prev h a v) = nxt h"
  "prv (set_next h a v) = prv h" "nxt (set_next h a v) = (nxt h)(a := v)"
  by (simp_all add: set_prev_def set_next_def)

lemma dseg_append: "dseg h p (xs @ y # ys) q \<longleftrightarrow> dseg h p xs y \<and> dseg h y ys q"
  by (induction xs arbitrary: p) auto

lemma dseg_frame:
  assumes "\<And>a. a \<in> insert p (set xs) \<Longrightarrow> nxt h' a = nxt h a"
    and "\<And>a. a \<in> insert q (set xs) \<Longrightarrow> prv h' a = prv h a"
  shows "dseg h' p xs q = dseg h p xs q"
  using assms by (induction xs arbitrary: p) auto

lemma dseg_set_next [simp]: "a \<noteq> p \<Longrightarrow> a \<notin> set xs \<Longrightarrow> dseg (set_next h a v) p xs q = dseg h p xs q"
  by (rule dseg_frame) auto

lemma dseg_set_prev [simp]: "a \<noteq> q \<Longrightarrow> a \<notin> set xs \<Longrightarrow> dseg (set_prev h a v) p xs q = dseg h p xs q"
  by (rule dseg_frame) auto

text \<open>Another ring is not affected by an operation that keeps the links of its members.\<close>

lemma rlist_is_frame:
  assumes "\<And>a. a \<in> insert head (set xs) \<Longrightarrow> nxt h' a = nxt h a \<and> prv h' a = prv h a"
  shows "rlist_is h' head xs = rlist_is h head xs"
  using dseg_frame [of head xs h' h head] assms by (auto simp: rlist_is_def)

lemma dseg_ends: "dseg h p xs q \<Longrightarrow> nxt h p = hd (xs @ [q]) \<and> prv h q = last (p # xs)"
  by (induction xs arbitrary: p) auto

lemma rlist_is_ends: "rlist_is h head xs \<Longrightarrow> nxt h head = hd (xs @ [head]) \<and> prv h head = last (head # xs)"
  unfolding rlist_is_def by (blast dest: dseg_ends)

section \<open>What the operations do to a ring\<close>

lemma dseg_snoc: "dseg h p (xs @ [y]) q \<longleftrightarrow> dseg h p xs y \<and> nxt h y = q \<and> prv h q = y"
  using dseg_append [of h p xs y "[]" q] by simp

lemma rlist_create_is: "rlist_is (rlist_create h head) head []"
  by (simp add: rlist_is_def rlist_create_def Let_def)

lemma rlist_empty_iff: "rlist_is h head xs \<Longrightarrow> rlist_empty h head \<longleftrightarrow> xs = []"
  by (cases xs) (auto simp: rlist_is_def rlist_empty_def)

lemma rlist_add_is:
  assumes "rlist_is h head xs" and "item \<noteq> head" and "item \<notin> set xs"
  shows "rlist_is (rlist_add h head item) head (item # xs)"
  using assms by (cases xs) (auto simp: rlist_is_def rlist_add_def Let_def)

lemma rlist_add_frame:
  assumes "rlist_is h head xs" and "a \<notin> insert item (insert head (set xs))"
  shows "nxt (rlist_add h head item) a = nxt h a" and "prv (rlist_add h head item) a = prv h a"
  using assms rlist_is_ends [OF assms(1)] by (cases xs; auto simp: rlist_add_def Let_def)+

lemma rlist_add_tail_is:
  assumes "rlist_is h head xs" and "item \<noteq> head" and "item \<notin> set xs"
  shows "rlist_is (rlist_add_tail h head item) head (xs @ [item])"
  using assms
  by (cases xs rule: rev_cases) (auto simp: rlist_is_def rlist_add_tail_def Let_def dseg_append)

lemma rlist_del_is:
  assumes "rlist_is h head (xs @ item # ys)"
  shows "rlist_is (rlist_del h item) head (xs @ ys)" and "rlist_is (rlist_del h item) item []"
proof -
  show "rlist_is (rlist_del h item) head (xs @ ys)"
    using assms
    by (cases xs rule: rev_cases; cases ys)
      (auto simp: rlist_is_def rlist_del_def rlist_create_def Let_def dseg_append)
  show "rlist_is (rlist_del h item) item []"
    by (simp add: rlist_is_def rlist_del_def rlist_create_def Let_def)
qed

lemma rlist_shift_is:
  assumes "rlist_is h head (x # xs)"
  shows "fst (rlist_shift h head) = x" and "rlist_is (snd (rlist_shift h head)) head xs"
    and "rlist_is (snd (rlist_shift h head)) x []"
  using assms by (cases xs; auto simp: rlist_is_def rlist_shift_def Let_def)+

lemma rlist_shift_tail_is:
  assumes "rlist_is h head (xs @ [x])"
  shows "fst (rlist_shift_tail h head) = x" and "rlist_is (snd (rlist_shift_tail h head)) head xs"
proof -
  have "prv h head = x" using rlist_is_ends [OF assms] by simp
  then show "fst (rlist_shift_tail h head) = x" "rlist_is (snd (rlist_shift_tail h head)) head xs"
    using rlist_del_is(1) [of h head xs x "[]"] assms by (simp_all add: rlist_shift_tail_def Let_def)
qed

lemma rlist_del_frame:
  assumes "rlist_is h head (xs @ item # ys)" and "a \<notin> insert head (set (xs @ item # ys))"
  shows "nxt (rlist_del h item) a = nxt h a" and "prv (rlist_del h item) a = prv h a"
  using assms
  by (cases xs rule: rev_cases; cases ys;
      auto simp: rlist_is_def rlist_del_def rlist_create_def Let_def dseg_append)+

text \<open>Moving an item between two rings.\<close>

lemma rlist_move_is:
  assumes a: "rlist_is h head (xs @ item # ys)" and b: "rlist_is h to zs"
    and d: "insert to (set zs) \<inter> insert head (set (xs @ item # ys)) = {}"
  shows "rlist_is (rlist_move h to item) head (xs @ ys)" and "rlist_is (rlist_move h to item) to (item # zs)"
proof -
  let ?h = "rlist_del h item"
  have to: "rlist_is ?h to zs"
    using b rlist_is_frame [of to zs ?h h] rlist_del_frame [OF a] d by blast
  have it: "item \<noteq> to" "item \<notin> set zs" using d by auto
  from rlist_add_is [OF to it] show "rlist_is (rlist_move h to item) to (item # zs)"
    by (simp add: rlist_move_def)
  have "a \<notin> insert item (insert to (set zs))" if "a \<in> insert head (set (xs @ ys))" for a
    using that d a by (auto simp: rlist_is_def)
  then show "rlist_is (rlist_move h to item) head (xs @ ys)"
    unfolding rlist_move_def
    using rlist_is_frame [of head "xs @ ys" "rlist_add ?h to item" ?h] rlist_add_frame [OF to]
      rlist_del_is(1) [OF a] by blast
qed

definition rlist_unlink :: "rlist \<Rightarrow> addr \<Rightarrow> rlist" where
  "rlist_unlink h item = (let h = set_next h (prv h item) (nxt h item) in set_prev h (nxt h item) (prv h item))"

lemma rlist_unlink_is:
  assumes "rlist_is h head (xs @ item # ys)"
  shows "rlist_is (rlist_unlink h item) head (xs @ ys)"
  using assms
  by (cases xs rule: rev_cases; cases ys)
    (auto simp: rlist_is_def rlist_unlink_def Let_def dseg_append)

lemma rlist_unlink_frame:
  assumes "rlist_is h head (xs @ item # ys)" and "a \<notin> insert head (set (xs @ ys))"
  shows "nxt (rlist_unlink h item) a = nxt h a" and "prv (rlist_unlink h item) a = prv h a"
  using assms
  by (cases xs rule: rev_cases; cases ys; auto simp: rlist_is_def rlist_unlink_def Let_def dseg_append)+

lemma rlist_add_tail_frame:
  assumes "rlist_is h head xs" and "a \<notin> insert item (insert head (set xs))"
  shows "nxt (rlist_add_tail h head item) a = nxt h a" and "prv (rlist_add_tail h head item) a = prv h a"
  using assms rlist_is_ends [OF assms(1)]
  by (cases xs rule: rev_cases; auto simp: rlist_add_tail_def Let_def)+

lemma rlist_move_tail_eq: "rlist_move_tail h to item = rlist_add_tail (rlist_unlink h item) to item"
  unfolding rlist_move_tail_def rlist_add_tail_def rlist_unlink_def Let_def ..

lemma rlist_move_tail_is:
  assumes a: "rlist_is h head (xs @ item # ys)" and b: "rlist_is h to zs"
    and d: "insert to (set zs) \<inter> insert head (set (xs @ item # ys)) = {}"
  shows "rlist_is (rlist_move_tail h to item) head (xs @ ys)"
    and "rlist_is (rlist_move_tail h to item) to (zs @ [item])"
proof -
  let ?h = "rlist_unlink h item"
  have "a \<notin> insert head (set (xs @ ys))" if "a \<in> insert to (set zs)" for a
    using that d by auto
  then have to: "rlist_is ?h to zs"
    using b rlist_is_frame [of to zs ?h h] rlist_unlink_frame [OF a] by blast
  have it: "item \<noteq> to" "item \<notin> set zs" using d by auto
  from rlist_add_tail_is [OF to it] show "rlist_is (rlist_move_tail h to item) to (zs @ [item])"
    by (simp add: rlist_move_tail_eq)
  have "a \<notin> insert item (insert to (set zs))" if "a \<in> insert head (set (xs @ ys))" for a
    using that d a by (auto simp: rlist_is_def)
  then show "rlist_is (rlist_move_tail h to item) head (xs @ ys)"
    unfolding rlist_move_tail_eq
    using rlist_is_frame [of head "xs @ ys" "rlist_add_tail ?h to item" ?h] rlist_add_tail_frame [OF to]
      rlist_unlink_is [OF a] by blast
qed

text \<open>The links inside a run of items, apart from its ends.\<close>

fun dpath :: "rlist \<Rightarrow> addr list \<Rightarrow> bool" where
  "dpath h (x # y # zs) \<longleftrightarrow> nxt h x = y \<and> prv h y = x \<and> dpath h (y # zs)"
| "dpath h _ = True"

lemma dseg_dpath:
  "xs \<noteq> [] \<Longrightarrow> dseg h p xs q \<longleftrightarrow>
     nxt h p = hd xs \<and> prv h (hd xs) = p \<and> dpath h xs \<and> nxt h (last xs) = q \<and> prv h q = last xs"
  by (induction xs arbitrary: p rule: induct_list012) auto

lemma dpath_append:
  "xs \<noteq> [] \<Longrightarrow> ys \<noteq> [] \<Longrightarrow>
   dpath h (xs @ ys) \<longleftrightarrow> dpath h xs \<and> nxt h (last xs) = hd ys \<and> prv h (hd ys) = last xs \<and> dpath h ys"
  by (induction xs rule: induct_list012) (auto simp: neq_Nil_conv)

lemma dpath_frame:
  assumes "distinct xs"
    and "\<And>a. a \<in> set xs \<Longrightarrow> a \<noteq> last xs \<Longrightarrow> nxt h' a = nxt h a"
    and "\<And>a. a \<in> set xs \<Longrightarrow> a \<noteq> hd xs \<Longrightarrow> prv h' a = prv h a"
  shows "dpath h' xs = dpath h xs"
  using assms
proof (induction xs rule: induct_list012)
  case (3 x y zs)
  have "dpath h' (y # zs) = dpath h (y # zs)"
    using "3.prems" by (intro "3.IH"(2)) auto
  moreover have "x \<noteq> last (x # y # zs)"
    using "3.prems"(1) last_in_set [of "y # zs"] by auto
  then have "nxt h' x = nxt h x" using "3.prems"(2) [of x] by simp
  moreover have "prv h' y = prv h y" using "3.prems"(1) "3.prems"(3) [of y] by simp
  ultimately show ?case by simp
qed simp_all

lemma hd_last_in [simp]: "xs \<noteq> [] \<Longrightarrow> hd xs \<in> set xs" "xs \<noteq> [] \<Longrightarrow> last xs \<in> set xs"
  by simp_all

lemma rlist_is_Nil: "rlist_is h head [] \<longleftrightarrow> nxt h head = head \<and> prv h head = head"
  by (simp add: rlist_is_def)

lemma rlist_is_dpath:
  "xs \<noteq> [] \<Longrightarrow> rlist_is h head xs \<longleftrightarrow> distinct (head # xs) \<and> dpath h xs \<and>
     nxt h head = hd xs \<and> prv h (hd xs) = head \<and> nxt h (last xs) = head \<and> prv h head = last xs"
  by (auto simp: rlist_is_def dseg_dpath)

lemma rlist_splice_is:
  assumes a: "rlist_is h head1 xs" and b: "rlist_is h head2 ys"
    and d: "insert head1 (set xs) \<inter> insert head2 (set ys) = {}"
  shows "rlist_is (rlist_splice h head1 head2) head1 (ys @ xs)"
    and "rlist_is (rlist_splice h head1 head2) head2 []"
proof -
  let ?h = "rlist_splice h head1 head2"
  have "rlist_is ?h head1 (ys @ xs) \<and> rlist_is ?h head2 []"
  proof (cases "ys = []")
    case True
    then show ?thesis using a b rlist_empty_iff [OF b] by (simp add: rlist_splice_def)
  next
    case ys: False
    let ?y = "hd ys" and ?z = "last ys"
    note Y = b [unfolded rlist_is_dpath [OF ys]]
    have in2: "?y \<in> set ys" "?z \<in> set ys" using ys by simp_all
    have e: "\<not> rlist_empty h head2" using ys rlist_empty_iff [OF b] by simp
    have x1: "nxt h head1 = hd (xs @ [head1])" using rlist_is_ends [OF a] by simp
    then have x1': "nxt h head1 \<in> insert head1 (set xs)" by (cases xs) auto
    have D: "a \<notin> insert head2 (set ys)" if "a \<in> insert head1 (set xs)" for a
      using that d by blast
    have sep: "head1 \<noteq> head2" "head1 \<notin> set ys" "nxt h head1 \<noteq> head2" "nxt h head1 \<notin> set ys" "head2 \<notin> set ys"
      "head2 \<notin> set xs"
      using D [of head1] D [OF x1'] D [of head2] Y by simp_all blast
    then have ne: "head2 \<noteq> head1" "head1 \<noteq> ?y" "head1 \<noteq> ?z" "?y \<noteq> head2" "?z \<noteq> head2"
      "head2 \<noteq> ?z" "head2 \<noteq> ?y" "head2 \<noteq> nxt h head1" "nxt h head1 \<noteq> ?y" "nxt h head1 \<noteq> ?z"
      using in2 by metis+
    have h: "nxt ?h = (nxt h)(?z := nxt h head1, head1 := ?y, head2 := head2)"
      "prv ?h = (prv h)(nxt h head1 := ?z, ?y := head1, head2 := head2)"
      using Y ne sep by (simp_all add: rlist_splice_def rlist_create_def Let_def e)
    have py: "dpath ?h ys"
    proof (subst dpath_frame [of ys ?h h])
      show "distinct ys" "dpath h ys" using Y by simp_all
      show "nxt ?h a = nxt h a" if "a \<in> set ys" "a \<noteq> ?z" for a using that sep by (auto simp: h)
      show "prv ?h a = prv h a" if "a \<in> set ys" "a \<noteq> ?y" for a using that sep by (auto simp: h)
    qed
    show ?thesis
    proof (cases "xs = []")
      case True
      then show ?thesis
        using py Y sep ne x1 ys by (simp add: rlist_is_dpath rlist_is_Nil h)
    next
      case xs: False
      note X = a [unfolded rlist_is_dpath [OF xs]]
      have in1: "hd xs \<in> set xs" "last xs \<in> set xs" using xs by simp_all
      have px: "dpath ?h xs"
      proof (subst dpath_frame [of xs ?h h])
        show "distinct xs" "dpath h xs" using X by simp_all
        show "nxt ?h a = nxt h a" if "a \<in> set xs" "a \<noteq> last xs" for a
          using that X in2 D [of a] by (auto simp: h)
        show "prv ?h a = prv h a" if "a \<in> set xs" "a \<noteq> hd xs" for a
          using that X in2 D [of a] by (auto simp: h)
      qed
      have ne1: "head1 \<noteq> hd xs" "head1 \<noteq> last xs" "head2 \<noteq> hd xs" "head2 \<noteq> last xs"
        "hd xs \<noteq> ?y" "hd xs \<noteq> ?z" "last xs \<noteq> ?y" "last xs \<noteq> ?z"
        using X in1 in2 sep D [of "hd xs"] D [of "last xs"] by auto
      have dist: "distinct (xs @ ys)" "distinct (ys @ xs)" using X Y d by auto
      show ?thesis
        using px py X Y sep ne ne1 ne1 [symmetric] dist xs ys
        by (simp add: rlist_is_dpath rlist_is_Nil dpath_append h)
    qed
  qed
  then show "rlist_is ?h head1 (ys @ xs)" "rlist_is ?h head2 []" by simp_all
qed

lemma rlist_splice_tail_is:
  assumes a: "rlist_is h head1 xs" and b: "rlist_is h head2 ys"
    and d: "insert head1 (set xs) \<inter> insert head2 (set ys) = {}"
  shows "rlist_is (rlist_splice_tail h head1 head2) head1 (xs @ ys)"
    and "rlist_is (rlist_splice_tail h head1 head2) head2 []"
proof -
  let ?h = "rlist_splice_tail h head1 head2"
  have "rlist_is ?h head1 (xs @ ys) \<and> rlist_is ?h head2 []"
  proof (cases "ys = []")
    case True
    then show ?thesis using a b rlist_empty_iff [OF b] by (simp add: rlist_splice_tail_def)
  next
    case ys: False
    let ?y = "hd ys" and ?z = "last ys"
    note Y = b [unfolded rlist_is_dpath [OF ys]]
    have in2: "?y \<in> set ys" "?z \<in> set ys" using ys by simp_all
    have e: "\<not> rlist_empty h head2" using ys rlist_empty_iff [OF b] by simp
    have x1: "prv h head1 = last (head1 # xs)" using rlist_is_ends [OF a] by simp
    then have x1': "prv h head1 \<in> insert head1 (set xs)" by (cases xs) auto
    have D: "a \<notin> insert head2 (set ys)" if "a \<in> insert head1 (set xs)" for a
      using that d by blast
    have sep: "head1 \<noteq> head2" "head1 \<notin> set ys" "prv h head1 \<noteq> head2" "prv h head1 \<notin> set ys" "head2 \<notin> set ys"
      "head2 \<notin> set xs"
      using D [of head1] D [OF x1'] D [of head2] Y by simp_all blast
    then have ne: "head2 \<noteq> head1" "head1 \<noteq> ?y" "head1 \<noteq> ?z" "?y \<noteq> head2" "?z \<noteq> head2"
      "head2 \<noteq> ?z" "head2 \<noteq> ?y" "head2 \<noteq> prv h head1" "prv h head1 \<noteq> ?y" "prv h head1 \<noteq> ?z"
      using in2 by metis+
    have h: "nxt ?h = (nxt h)(prv h head1 := ?y, ?z := head1, head2 := head2)"
      "prv ?h = (prv h)(?y := prv h head1, head1 := ?z, head2 := head2)"
      using Y ne sep by (simp_all add: rlist_splice_tail_def rlist_create_def Let_def e)
    have py: "dpath ?h ys"
    proof (subst dpath_frame [of ys ?h h])
      show "distinct ys" "dpath h ys" using Y by simp_all
      show "nxt ?h a = nxt h a" if "a \<in> set ys" "a \<noteq> ?z" for a using that sep by (auto simp: h)
      show "prv ?h a = prv h a" if "a \<in> set ys" "a \<noteq> ?y" for a using that sep by (auto simp: h)
    qed
    show ?thesis
    proof (cases "xs = []")
      case True
      then show ?thesis
        using py Y sep ne x1 ys by (simp add: rlist_is_dpath rlist_is_Nil h)
    next
      case xs: False
      note X = a [unfolded rlist_is_dpath [OF xs]]
      have in1: "hd xs \<in> set xs" "last xs \<in> set xs" using xs by simp_all
      have px: "dpath ?h xs"
      proof (subst dpath_frame [of xs ?h h])
        show "distinct xs" "dpath h xs" using X by simp_all
        show "nxt ?h a = nxt h a" if "a \<in> set xs" "a \<noteq> last xs" for a
          using that X in2 D [of a] by (auto simp: h)
        show "prv ?h a = prv h a" if "a \<in> set xs" "a \<noteq> hd xs" for a
          using that X in2 D [of a] by (auto simp: h)
      qed
      have ne1: "head1 \<noteq> hd xs" "head1 \<noteq> last xs" "head2 \<noteq> hd xs" "head2 \<noteq> last xs"
        "hd xs \<noteq> ?y" "hd xs \<noteq> ?z" "last xs \<noteq> ?y" "last xs \<noteq> ?z"
        using X in1 in2 sep D [of "hd xs"] D [of "last xs"] by auto
      have dist: "distinct (xs @ ys)" "distinct (ys @ xs)" using X Y d by auto
      show ?thesis
        using px py X Y sep ne ne1 ne1 [symmetric] dist xs ys
        by (simp add: rlist_is_dpath rlist_is_Nil dpath_append h)
    qed
  qed
  then show "rlist_is ?h head1 (xs @ ys)" "rlist_is ?h head2 []" by simp_all
qed

text \<open>Cutting: the items before \<open>item\<close> move to \<open>head1\<close>, unless the old successor of \<open>head1\<close> is \<open>item\<close>.\<close>

lemma rlist_cut_before_is:
  assumes a: "rlist_is h head2 (xs @ item # ys)" and d: "head1 \<notin> insert head2 (set (xs @ item # ys))"
    and n: "nxt h head1 \<noteq> item"
  shows "rlist_is (rlist_cut_before h head1 head2 item) head1 xs"
    and "rlist_is (rlist_cut_before h head1 head2 item) head2 (item # ys)"
proof -
  let ?h = "rlist_cut_before h head1 head2 item"
  have ds: "dseg h head2 xs item" "dseg h item ys head2"
    using a by (simp_all add: rlist_is_def dseg_append)
  have sep: "distinct xs" "distinct ys" "item \<notin> set ys" "item \<notin> set xs" "head2 \<notin> set xs" "head2 \<notin> set ys"
    "item \<noteq> head2" "set xs \<inter> set ys = {}" "head1 \<noteq> head2" "head1 \<noteq> item" "head1 \<notin> set xs" "head1 \<notin> set ys"
    using a d by (auto simp: rlist_is_def)
  have "rlist_is ?h head1 xs \<and> rlist_is ?h head2 (item # ys)"
  proof (cases "xs = []")
    case True
    then have "nxt h head2 = item" "prv h item = head2" using ds by simp_all
    then have h: "nxt ?h = (nxt h)(head1 := head1, head2 := item)" "prv ?h = (prv h)(head1 := head1, item := head2)"
      using n sep by (auto simp: rlist_cut_before_def Let_def)
    have "dseg ?h item ys head2 = dseg h item ys head2"
      using sep by (intro dseg_frame) (auto simp: h)
    with ds sep True show ?thesis by (auto simp: rlist_is_def h)
  next
    case False
    let ?x = "hd xs" and ?z = "last xs"
    have X: "nxt h head2 = ?x" "prv h ?x = head2" "dpath h xs" "nxt h ?z = item" "prv h item = ?z"
      using ds(1) by (simp_all add: dseg_dpath [OF False])
    have ne: "?x \<in> set xs" "?z \<in> set xs" using False by simp_all
    with sep have ne': "?x \<noteq> head1" "?z \<noteq> head1" "?x \<noteq> head2" "?z \<noteq> head2" "?x \<noteq> item" "?z \<noteq> item" by metis+
    have h: "nxt ?h = (nxt h)(head1 := ?x, ?z := head1, head2 := item)"
      "prv ?h = (prv h)(?x := head1, head1 := ?z, item := head2)"
      using n sep X ne' ne' [symmetric] by (simp_all add: rlist_cut_before_def Let_def)
    have "dpath ?h xs = dpath h xs"
      using sep by (intro dpath_frame) (auto simp: h)
    moreover have "dseg ?h item ys head2 = dseg h item ys head2"
      using sep ne ne' by (intro dseg_frame) (auto simp: h)
    ultimately show ?thesis
      using ds(2) sep X ne' ne' [symmetric] False by (simp add: rlist_is_dpath [OF False] h) (simp add: rlist_is_def h)
  qed
  then show "rlist_is ?h head1 xs" "rlist_is ?h head2 (item # ys)" by simp_all
qed

text \<open>Swapping two rings exchanges their contents, empty ones included.\<close>

definition ring_first :: "addr \<Rightarrow> addr list \<Rightarrow> addr" where
  "ring_first head xs = (if xs = [] then head else hd xs)"

definition ring_last :: "addr \<Rightarrow> addr list \<Rightarrow> addr" where
  "ring_last head xs = (if xs = [] then head else last xs)"

lemma rlist_is_ring:
  "rlist_is h head xs \<longleftrightarrow> distinct (head # xs) \<and> dpath h xs \<and>
     nxt h head = ring_first head xs \<and> prv h (ring_first head xs) = head \<and>
     nxt h (ring_last head xs) = head \<and> prv h head = ring_last head xs"
  by (cases "xs = []") (auto simp: rlist_is_dpath rlist_is_Nil ring_first_def ring_last_def)

lemma ring_ends_in: "ring_first head xs \<in> insert head (set xs)" "ring_last head xs \<in> insert head (set xs)"
  by (simp_all add: ring_first_def ring_last_def)

lemma ring_head_iff:
  "head \<notin> set xs \<Longrightarrow> ring_first head xs = head \<longleftrightarrow> xs = []" "head \<notin> set xs \<Longrightarrow> ring_last head xs = head \<longleftrightarrow> xs = []"
  using list.set_sel(1) [of xs] last_in_set [of xs] by (auto simp: ring_first_def ring_last_def)

lemma rlist_swap_links:
  assumes "nxt h r = x" "prv h r = z" "nxt h l = y" "prv h l = w" "r \<noteq> l"
    and "x \<noteq> l" "z \<noteq> l" "y \<noteq> r" "w \<noteq> r" and "x \<noteq> y" "x \<noteq> w" "z \<noteq> y" "z \<noteq> w"
    and "x = r \<longleftrightarrow> z = r" "y = l \<longleftrightarrow> w = l"
  defines "x' \<equiv> if x = r then l else x" and "z' \<equiv> if z = r then l else z"
    and "y' \<equiv> if y = l then r else y" and "w' \<equiv> if w = l then r else w"
  shows "nxt (rlist_swap h r l) = (nxt h)(r := y', l := x', z' := l, w' := r)"
    and "prv (rlist_swap h r l) = (prv h)(r := w', l := z', x' := l, y' := r)"
  unfolding x'_def z'_def y'_def w'_def using assms(1-15)
  by (cases "x = r"; cases "y = l"; simp add: rlist_swap_def Let_def)+

lemma rlist_swap_is:
  assumes a: "rlist_is h r xs" and b: "rlist_is h l ys"
    and d: "insert r (set xs) \<inter> insert l (set ys) = {}"
  shows "rlist_is (rlist_swap h r l) r ys" and "rlist_is (rlist_swap h r l) l xs"
proof -
  let ?h = "rlist_swap h r l"
  note A = a [unfolded rlist_is_ring] and B = b [unfolded rlist_is_ring]
  have D: "u \<noteq> v" if "u \<in> insert r (set xs)" "v \<in> insert l (set ys)" for u v
    using that d by blast
  have in1: "ring_first r xs \<in> insert r (set xs)" "ring_last r xs \<in> insert r (set xs)" "r \<in> insert r (set xs)"
    and in2: "ring_first l ys \<in> insert l (set ys)" "ring_last l ys \<in> insert l (set ys)" "l \<in> insert l (set ys)"
    by (rule ring_ends_in insertI1)+
  have E: "ring_first r xs = r \<longleftrightarrow> xs = []" "ring_last r xs = r \<longleftrightarrow> xs = []"
    "ring_first l ys = l \<longleftrightarrow> ys = []" "ring_last l ys = l \<longleftrightarrow> ys = []"
    using A B by (simp_all add: ring_head_iff)
  have fl: "(if ring_first r xs = r then l else ring_first r xs) = ring_first l xs"
    "(if ring_last r xs = r then l else ring_last r xs) = ring_last l xs"
    "(if ring_first l ys = l then r else ring_first l ys) = ring_first r ys"
    "(if ring_last l ys = l then r else ring_last l ys) = ring_last r ys"
    unfolding E by (simp_all add: ring_first_def ring_last_def)
  have eqs: "nxt h r = ring_first r xs" "prv h r = ring_last r xs" "nxt h l = ring_first l ys" "prv h l = ring_last l ys"
    using A B by blast+
  have neqs: "r \<noteq> l" "ring_first r xs \<noteq> l" "ring_last r xs \<noteq> l" "ring_first l ys \<noteq> r" "ring_last l ys \<noteq> r"
    "ring_first r xs \<noteq> ring_first l ys" "ring_first r xs \<noteq> ring_last l ys"
    "ring_last r xs \<noteq> ring_first l ys" "ring_last r xs \<noteq> ring_last l ys"
    by (rule D in1 in2 D [symmetric])+
  have iffs: "ring_first r xs = r \<longleftrightarrow> ring_last r xs = r" "ring_first l ys = l \<longleftrightarrow> ring_last l ys = l"
    unfolding E by (rule refl)+
  have h: "nxt ?h = (nxt h)(r := ring_first r ys, l := ring_first l xs, ring_last l xs := l, ring_last r ys := r)"
    "prv ?h = (prv h)(r := ring_last r ys, l := ring_last l xs, ring_first l xs := l, ring_first r ys := r)"
    using rlist_swap_links [OF eqs neqs iffs] unfolding fl by blast+
  have R: "ring_first r ys \<in> insert r (set ys)" "ring_last r ys \<in> insert r (set ys)"
    "ring_first l xs \<in> insert l (set xs)" "ring_last l xs \<in> insert l (set xs)"
    by (rule ring_ends_in)+
  have N: "ring_first r ys \<noteq> l" "ring_last r ys \<noteq> l" "ring_first l xs \<noteq> r" "ring_last l xs \<noteq> r"
    "ring_first l xs \<noteq> ring_first r ys" "ring_last l xs \<noteq> ring_last r ys" "r \<noteq> l"
    using R A B d by auto
  have rx: "r \<notin> set xs" "l \<notin> set ys" using A B by simp_all
  have offx: "a \<noteq> r \<and> a \<noteq> l \<and> a \<noteq> ring_first r ys \<and> a \<noteq> ring_last r ys" if "a \<in> set xs" for a
  proof -
    have "a \<notin> insert r (set ys)" using that rx D [of a a] by blast
    then show ?thesis using R(1,2) D [of a l] that by blast
  qed
  have offy: "a \<noteq> r \<and> a \<noteq> l \<and> a \<noteq> ring_first l xs \<and> a \<noteq> ring_last l xs" if "a \<in> set ys" for a
  proof -
    have "a \<notin> insert l (set xs)" using that rx D [of a a] by blast
    then show ?thesis using R(3,4) D [of r a] that by blast
  qed
  have "dpath ?h xs = dpath h xs"
  proof (rule dpath_frame)
    show "distinct xs" using A by simp
    show "nxt ?h a = nxt h a" if "a \<in> set xs" "a \<noteq> last xs" for a
      using offx [OF that(1)] that unfolding h by (auto simp: ring_last_def)
    show "prv ?h a = prv h a" if "a \<in> set xs" "a \<noteq> hd xs" for a
      using offx [OF that(1)] that unfolding h by (auto simp: ring_first_def)
  qed
  moreover have "dpath ?h ys = dpath h ys"
  proof (rule dpath_frame)
    show "distinct ys" using B by simp
    show "nxt ?h a = nxt h a" if "a \<in> set ys" "a \<noteq> last ys" for a
      using offy [OF that(1)] that unfolding h by (auto simp: ring_last_def)
    show "prv ?h a = prv h a" if "a \<in> set ys" "a \<noteq> hd ys" for a
      using offy [OF that(1)] that unfolding h by (auto simp: ring_first_def)
  qed
  moreover have nin: "r \<notin> set ys" "l \<notin> set xs" using d by auto
  then have E': "ring_first r ys = r \<longleftrightarrow> ys = []" "ring_last r ys = r \<longleftrightarrow> ys = []"
    "ring_first l xs = l \<longleftrightarrow> xs = []" "ring_last l xs = l \<longleftrightarrow> xs = []"
    by (simp_all add: ring_head_iff)
  have "nxt ?h r = ring_first r ys" "nxt ?h (ring_last r ys) = r"
    "prv ?h r = ring_last r ys" "prv ?h (ring_first r ys) = r"
    using N N [symmetric] E' unfolding h by (cases "ys = []"; simp)+
  moreover have "nxt ?h l = ring_first l xs" "nxt ?h (ring_last l xs) = l"
    "prv ?h l = ring_last l xs" "prv ?h (ring_first l xs) = l"
    using N N [symmetric] E' unfolding h by (cases "xs = []"; simp)+
  ultimately show "rlist_is ?h r ys" "rlist_is ?h l xs"
    using A B nin unfolding rlist_is_ring by simp_all
qed

section \<open>Walks\<close>

lemma rlist_walk_dseg:
  "dseg h p xs head \<Longrightarrow> head \<notin> set xs \<Longrightarrow> rlist_walk (nxt h) head (nxt h p) = Some xs"
  by (induction xs arbitrary: p) (auto simp: rlist_walk.simps)

lemma rlist_walk_dseg_rev:
  "dseg h head xs q \<Longrightarrow> head \<notin> set xs \<Longrightarrow> rlist_walk (prv h) head (prv h q) = Some (rev xs)"
  by (induction xs arbitrary: q rule: rev_induct) (auto simp: rlist_walk.simps dseg_append)

lemma rlist_foreach_is: "rlist_is h head xs \<Longrightarrow> rlist_foreach h head = Some xs"
  by (simp add: rlist_foreach_def rlist_first_def rlist_is_def rlist_walk_dseg)

lemma rlist_foreach_reverse_is: "rlist_is h head xs \<Longrightarrow> rlist_foreach_reverse h head = Some (rev xs)"
  by (simp add: rlist_foreach_reverse_def rlist_last_def rlist_is_def rlist_walk_dseg_rev)

lemma rlist_is_unique: "rlist_is h head xs \<Longrightarrow> rlist_is h head ys \<Longrightarrow> xs = ys"
  using rlist_foreach_is [of h head xs] rlist_foreach_is [of h head ys] by simp

section \<open>Properties\<close>

text \<open>\<open>rlist_swap\<close> exchanges the contents of two disjoint lists, also when one or both are empty.\<close>

theorem rlist_swap_exchanges:
  assumes "rlist_is h r xs" and "rlist_is h l ys" and "insert r (set xs) \<inter> insert l (set ys) = {}"
  shows "rlist_is (rlist_swap h r l) r ys \<and> rlist_is (rlist_swap h r l) l xs"
  using rlist_swap_is [OF assms] by blast

lemma rlist_example:
  defines "h \<equiv> rlist_add (rlist_create (rlist_create \<lparr>prv = id, nxt = id\<rparr> 1) 2) 1 3"
  shows "rlist_is h 1 [3]" and "rlist_is h 2 []"
  by (simp_all add: h_def rlist_is_def rlist_add_def rlist_create_def Let_def)

theorem rlist_swap_exchanges_witness:
  "rlist_is (rlist_swap (rlist_add (rlist_create (rlist_create \<lparr>prv = id, nxt = id\<rparr> 1) 2) 1 3) 1 2) 2 [3]"
  using rlist_swap_exchanges [OF rlist_example] by simp

text \<open>C35: \<open>rlist_splice\<close> puts the items of the second list before those of the first, \<open>rlist_splice_tail\<close>
  behind them, both leave the second list empty.\<close>

theorem rlist_splice_concat:
  assumes "rlist_is h head1 xs" and "rlist_is h head2 ys" and "insert head1 (set xs) \<inter> insert head2 (set ys) = {}"
  shows "rlist_is (rlist_splice h head1 head2) head1 (ys @ xs) \<and> rlist_is (rlist_splice h head1 head2) head2 [] \<and>
    rlist_is (rlist_splice_tail h head1 head2) head1 (xs @ ys) \<and> rlist_is (rlist_splice_tail h head1 head2) head2 []"
  using rlist_splice_is [OF assms] rlist_splice_tail_is [OF assms] by blast

theorem rlist_splice_concat_witness:
  "rlist_is (rlist_splice (rlist_add (rlist_create (rlist_create \<lparr>prv = id, nxt = id\<rparr> 1) 2) 1 3) 2 1) 2 [3]"
  using rlist_splice_concat [OF rlist_example(2,1)] by simp

text \<open>\<open>rlist_cut_before\<close> moves the items in front of the given one to the first list, provided the
  first head does not happen to point at the item already.\<close>

theorem rlist_cut_before_splits:
  assumes "rlist_is h head2 (xs @ item # ys)" and "head1 \<notin> insert head2 (set (xs @ item # ys))" and "nxt h head1 \<noteq> item"
  shows "rlist_is (rlist_cut_before h head1 head2 item) head1 xs \<and>
    rlist_is (rlist_cut_before h head1 head2 item) head2 (item # ys)"
  using rlist_cut_before_is [OF assms] by blast

theorem rlist_cut_before_splits_witness:
  "rlist_is (rlist_cut_before (rlist_add (rlist_create (rlist_create \<lparr>prv = id, nxt = id\<rparr> 1) 2) 1 3) 2 1 3) 1 [3]"
proof -
  let ?h = "rlist_add (rlist_create (rlist_create \<lparr>prv = id, nxt = id\<rparr> 1) 2) 1 3"
  have "rlist_is ?h 1 ([] @ 3 # [])" using rlist_example(1) by simp
  moreover have "nxt ?h 2 \<noteq> 3" using rlist_example(2) by (simp add: rlist_is_def)
  ultimately show ?thesis using rlist_cut_before_splits [of ?h 1 "[]" 3 "[]" 2] by simp
qed

text \<open>C38: when the first head of \<open>rlist_cut_before\<close> still points at the item from an earlier use, the test on
  the wrong head makes the function empty the first list and leave the second one uncut.\<close>

theorem rlist_cut_before_stale:
  assumes "rlist_is h head2 (xs @ item # ys)" and "head1 \<notin> insert head2 (set (xs @ item # ys))" and "nxt h head1 = item"
  shows "rlist_is (rlist_cut_before h head1 head2 item) head1 [] \<and>
    rlist_is (rlist_cut_before h head1 head2 item) head2 (xs @ item # ys)"
proof -
  have r: "rlist_cut_before h head1 head2 item = rlist_create h head1" using assms(3) by (simp add: rlist_cut_before_def)
  have "rlist_is (rlist_create h head1) head2 (xs @ item # ys)"
    using assms(1,2) by (subst rlist_is_frame [where h = h]) (auto simp: rlist_create_def Let_def)
  then show ?thesis using rlist_create_is [of h head1] by (simp add: r)
qed

theorem rlist_cut_before_stale_witness:
  "rlist_is (rlist_cut_before (set_next (rlist_add (rlist_add (rlist_create \<lparr>prv = id, nxt = id\<rparr> 1) 1 4) 1 3) 2 4) 2 1 4) 1 [3, 4]"
proof -
  let ?h = "set_next (rlist_add (rlist_add (rlist_create \<lparr>prv = id, nxt = id\<rparr> 1) 1 4) 1 3) 2 4"
  have "rlist_is ?h 1 ([3] @ 4 # [])"
    by (simp add: rlist_is_def rlist_add_def rlist_create_def Let_def)
  then show ?thesis using rlist_cut_before_stale [of ?h 1 "[3]" 4 "[]" 2] by simp
qed

text \<open>\<open>rlist_foreach\<close> visits the items in order and \<open>rlist_foreach_reverse\<close> in the opposite order, both
  end, and what they visit determines the list.\<close>

theorem rlist_foreach_visits:
  assumes "rlist_is h head xs"
  shows "rlist_foreach h head = Some xs \<and> rlist_foreach_reverse h head = Some (rev xs)"
  using rlist_foreach_is [OF assms] rlist_foreach_reverse_is [OF assms] by blast

theorem rlist_foreach_visits_witness:
  "rlist_foreach (rlist_add (rlist_create (rlist_create \<lparr>prv = id, nxt = id\<rparr> 1) 2) 1 3) 1 = Some [3]"
  using rlist_foreach_visits [OF rlist_example(1)] by simp

end
