(* ===== verification/Os_Memory.thy ===== *)
theory Os_Memory
  imports Util
begin

text \<open>
  What the library asks of the operating system and the C library: \<open>mmap\<close>, \<open>munmap\<close>, \<open>malloc\<close>
  and \<open>free\<close>. The answers of \<open>mmap\<close> and \<open>malloc\<close> are parameters (\<open>mmap_fn\<close>, \<open>malloc_fn\<close>):
  functions of the call's number, of what is mapped at the time and of the arguments, with 0
  for failure. The state records the address ranges that are mapped or allocated.
  \<open>os_ok\<close> is the documented behaviour the library relies on: a new range is not one that
  is already in use, and lies in the lower half of the 64-bit address space, the half that
  belongs to user programs.
\<close>

type_synonym ranges = "(addr \<times> nat) list"

record os =
  mmap_fn :: "nat \<Rightarrow> ranges \<Rightarrow> nat \<Rightarrow> u32 \<Rightarrow> addr"
  malloc_fn :: "nat \<Rightarrow> ranges \<Rightarrow> nat \<Rightarrow> addr"

record sys =
  clock :: nat
  mapped :: ranges
  heap :: ranges

definition covered :: "ranges \<Rightarrow> addr set" where
  "covered M = (\<Union>(a, n) \<in> set M. span a n)"

definition taken :: "ranges \<Rightarrow> addr set" where
  "taken M = covered M \<union> {2 ^ 63 ..}"

definition os_ok :: "os \<Rightarrow> bool" where
  "os_ok os \<longleftrightarrow>
     (\<forall>t R n fl. mmap_fn os t R n fl \<noteq> NULL \<longrightarrow> span (mmap_fn os t R n fl) n \<inter> taken R = {}) \<and>
     (\<forall>t R n. malloc_fn os t R n \<noteq> NULL \<longrightarrow> span (malloc_fn os t R n) n \<inter> taken R = {})"

definition os_mmap :: "os \<Rightarrow> sys \<Rightarrow> nat \<Rightarrow> u32 \<Rightarrow> addr \<times> sys" where
  "os_mmap os s n fl =
     (let p = mmap_fn os (clock s) (mapped s @ heap s) n fl;
          s = s\<lparr>clock := Suc (clock s)\<rparr>
      in (p, if p = NULL then s else s\<lparr>mapped := (p, n) # mapped s\<rparr>))"

text \<open>\<open>munmap\<close> removes a range from whatever it overlaps.\<close>

fun cut :: "addr \<Rightarrow> nat \<Rightarrow> addr \<times> nat \<Rightarrow> ranges" where
  "cut p n (a, m) =
     (if a < p then [(a, min (a + m) p - a)] else []) @
     (if p + n < a + m then [(max a (p + n), a + m - max a (p + n))] else [])"

definition os_munmap :: "sys \<Rightarrow> addr \<Rightarrow> nat \<Rightarrow> sys" where
  "os_munmap s p n = s\<lparr>mapped := concat (map (cut p n) (mapped s))\<rparr>"

definition os_malloc :: "os \<Rightarrow> sys \<Rightarrow> nat \<Rightarrow> addr \<times> sys" where
  "os_malloc os s n =
     (let p = malloc_fn os (clock s) (mapped s @ heap s) n;
          s = s\<lparr>clock := Suc (clock s)\<rparr>
      in (p, if p = NULL then s else s\<lparr>heap := (p, n) # heap s\<rparr>))"

definition os_free :: "sys \<Rightarrow> addr \<Rightarrow> sys" where
  "os_free s p = s\<lparr>heap := filter (\<lambda>(a, n). a \<noteq> p) (heap s)\<rparr>"

section \<open>Ranges\<close>

lemma covered_Nil [simp]: "covered [] = {}"
  by (simp add: covered_def)

lemma covered_Cons [simp]: "covered ((a, n) # M) = span a n \<union> covered M"
  by (simp add: covered_def)

lemma covered_append [simp]: "covered (M @ N) = covered M \<union> covered N"
  by (simp add: covered_def)

lemma taken_simps [simp]: "taken [] = {2 ^ 63 ..}" "taken ((a, n) # M) = span a n \<union> taken M" "taken (M @ N) = covered M \<union> taken N"
  by (auto simp: taken_def)

lemma covered_taken: "covered M \<subseteq> taken M"
  by (simp add: taken_def)

lemma taken_filter: "taken (filter P M) \<subseteq> taken M"
  by (auto simp: taken_def covered_def)

text \<open>A range that is free lies below the upper half.\<close>

lemma span_low: "span p n \<inter> taken M = {} \<Longrightarrow> 0 < n \<Longrightarrow> p + n \<le> 2 ^ 63"
proof (rule ccontr)
  assume d: "span p n \<inter> taken M = {}" and n: "0 < n" and h: "\<not> p + n \<le> 2 ^ 63"
  have "p + (n - 1) \<in> span p n" using n by simp
  moreover have "2 ^ 63 \<le> p + (n - 1)" using n h by linarith
  then have "p + (n - 1) \<in> taken M" by (simp add: taken_def)
  ultimately show False using d by blast
qed

lemma in_covered: "(a, n) \<in> set M \<Longrightarrow> span a n \<subseteq> covered M"
  by (auto simp: covered_def)

lemma covered_cut: "covered (cut p n (a, m)) = span a m - span p n"
  by (auto split: if_splits)

lemma covered_munmap [simp]: "covered (mapped (os_munmap s p n)) = covered (mapped s) - span p n"
proof -
  have "covered (concat (map (cut p n) M)) = covered M - span p n" for M
  proof (induction M)
    case (Cons x M)
    then show ?case using covered_cut [of p n "fst x" "snd x"] by (cases x) (simp del: cut.simps, blast)
  qed simp
  then show ?thesis by (simp add: os_munmap_def)
qed

lemma munmap_frame [simp]: "heap (os_munmap s p n) = heap s" "clock (os_munmap s p n) = clock s"
  by (simp_all add: os_munmap_def)

lemma os_mmap_cases:
  assumes "os_ok os" and "os_mmap os s n fl = (p, s')"
  shows "p = NULL \<and> mapped s' = mapped s \<and> heap s' = heap s \<or>
    p \<noteq> NULL \<and> mapped s' = (p, n) # mapped s \<and> heap s' = heap s \<and>
      span p n \<inter> (covered (mapped s) \<union> taken (heap s)) = {}"
proof -
  have p: "p = mmap_fn os (clock s) (mapped s @ heap s) n fl"
    using assms(2) by (simp add: os_mmap_def Let_def split: if_splits)
  have "p \<noteq> NULL \<Longrightarrow> span p n \<inter> taken (mapped s @ heap s) = {}"
    using assms(1) unfolding p os_ok_def by blast
  then show ?thesis using assms(2) by (auto simp: os_mmap_def Let_def split: if_splits)
qed

lemma os_malloc_cases:
  assumes "os_ok os" and "os_malloc os s n = (p, s')"
  shows "p = NULL \<and> mapped s' = mapped s \<and> heap s' = heap s \<or>
    p \<noteq> NULL \<and> heap s' = (p, n) # heap s \<and> mapped s' = mapped s \<and>
      span p n \<inter> (covered (mapped s) \<union> taken (heap s)) = {}"
proof -
  have p: "p = malloc_fn os (clock s) (mapped s @ heap s) n"
    using assms(2) by (simp add: os_malloc_def Let_def split: if_splits)
  have "p \<noteq> NULL \<Longrightarrow> span p n \<inter> taken (mapped s @ heap s) = {}"
    using assms(1) unfolding p os_ok_def by blast
  then show ?thesis using assms(2) by (auto simp: os_malloc_def Let_def split: if_splits)
qed

text \<open>
  An instance of the parameters: the new range starts above everything in use, at a
  multiple of 64 kilobytes. It shows that \<open>os_ok\<close> can hold and serves the examples.
\<close>

fun ranges_end :: "ranges \<Rightarrow> addr" where
  "ranges_end [] = 65536"
| "ranges_end ((a, n) # M) = max (a + n) (ranges_end M)"

definition bump :: "ranges \<Rightarrow> nat \<Rightarrow> addr" where
  "bump R n = (let p = align_up (ranges_end R) 65536 in if p + n \<le> 2 ^ 63 then p else NULL)"

definition bump_os :: os where
  "bump_os = \<lparr>mmap_fn = (\<lambda>t R n fl. bump R n), malloc_fn = (\<lambda>t R n. bump R n)\<rparr>"

lemma covered_below_end: "x \<in> covered M \<Longrightarrow> x < ranges_end M"
  by (induction M rule: ranges_end.induct) auto

lemma bump_os_ok: "os_ok bump_os"
proof -
  have "span (bump R n) n \<inter> taken R = {}" if "bump R n \<noteq> NULL" for R n
    using that align_up_ge [of 65536 "ranges_end R"] covered_below_end [of _ R]
    by (fastforce simp: bump_def taken_def Let_def split: if_splits)
  then show ?thesis by (simp add: os_ok_def bump_os_def)
qed

end
