(* ===== verification/Slab_Arena.thy ===== *)
theory Slab_Arena
  imports Os_Memory Quota Lifo
begin

text \<open>
  \<open>include/small/slab_arena.h\<close> and \<open>small/slab_arena.c\<close>: a source of equally sized slabs,
  aligned by their size. Slabs that were given back wait in a stack (the lock-free stack of
  \<open>lf_lifo.h\<close>, here its contents, top first); new ones come from a preallocated range and then
  from \<open>mmap\<close>, under the limit of a quota. The quota, a pointer in C, is a field.
\<close>

section \<open>Flags\<close>

definition SLAB_MIN_SIZE :: nat where
  "SLAB_MIN_SIZE = 65535 + 1"

definition SLAB_ARENA_FLAG_MARK :: u32 where
  "SLAB_ARENA_FLAG_MARK = 0x80000000"

definition SLAB_ARENA_FLAG :: "u32 \<Rightarrow> u32" where
  "SLAB_ARENA_FLAG x = x OR SLAB_ARENA_FLAG_MARK"

definition IS_SLAB_ARENA_FLAG :: "u32 \<Rightarrow> u32 \<Rightarrow> bool" where
  "IS_SLAB_ARENA_FLAG f x \<longleftrightarrow> f AND x = x"

definition SLAB_ARENA_PRIVATE :: u32 where
  "SLAB_ARENA_PRIVATE = SLAB_ARENA_FLAG (push_bit 0 1)"

definition SLAB_ARENA_SHARED :: u32 where
  "SLAB_ARENA_SHARED = SLAB_ARENA_FLAG (push_bit 1 1)"

definition SLAB_ARENA_DONTDUMP :: u32 where
  "SLAB_ARENA_DONTDUMP = SLAB_ARENA_FLAG (push_bit 2 1)"

text \<open>The values of the system's flags, those of Linux.\<close>

definition MAP_SHARED :: u32 where "MAP_SHARED = 0x01"
definition MAP_PRIVATE :: u32 where "MAP_PRIVATE = 0x02"
definition MAP_ANONYMOUS :: u32 where "MAP_ANONYMOUS = 0x20"

section \<open>Aligned mappings\<close>

definition mmap_checked :: "os \<Rightarrow> sys \<Rightarrow> nat \<Rightarrow> nat \<Rightarrow> u32 \<Rightarrow> (addr \<times> sys) option" where
  "mmap_checked os s sz align fl = do {
     c_assert (align AND (align - 1) = 0);
     c_assert (sz AND (align - 1) = 0);
     let fl = (if IS_SLAB_ARENA_FLAG fl SLAB_ARENA_PRIVATE then MAP_PRIVATE OR MAP_ANONYMOUS
               else MAP_SHARED OR MAP_ANONYMOUS);
     let (map, s) = os_mmap os s sz fl;
     if map = NULL then Some (NULL, s)
     else if map AND (align - 1) = 0 then Some (map, s)
     else do {
       let s = os_munmap s map sz;
       let (map, s) = os_mmap os s (sz + align) fl;
       if map = NULL then Some (NULL, s)
       else do {
         let offset = map AND (align - 1);
         if offset \<noteq> 0 then do {
           let s = os_munmap s map (align - offset);
           let map = map + (align - offset);
           Some (map, os_munmap s (map + sz) offset) }
         else Some (map, os_munmap s (map + sz) align) } } }"

section \<open>The arena\<close>

record slab_arena =
  ar_cache :: "addr list"
  ar_arena :: addr
  ar_prealloc :: nat
  ar_used :: nat
  ar_quota :: quota
  ar_slab_size :: nat
  ar_flags :: u32

definition slab_arena_flags_init :: "u32 \<Rightarrow> u32 option" where
  "slab_arena_flags_init fl =
     (if fl AND SLAB_ARENA_FLAG_MARK = 0 then do {
        c_assert (fl AND (MAP_PRIVATE OR MAP_SHARED) \<noteq> 0);
        Some (if fl = MAP_PRIVATE then SLAB_ARENA_PRIVATE else SLAB_ARENA_SHARED) }
      else do {
        c_assert (IS_SLAB_ARENA_FLAG fl SLAB_ARENA_PRIVATE \<or> IS_SLAB_ARENA_FLAG fl SLAB_ARENA_SHARED);
        Some fl })"

definition slab_arena_create ::
  "os \<Rightarrow> sys \<Rightarrow> quota \<Rightarrow> nat \<Rightarrow> nat \<Rightarrow> u32 \<Rightarrow> (int \<times> slab_arena \<times> sys) option" where
  "slab_arena_create os s q prealloc slab_size fl = do {
     let size = round_pow2 (max slab_size SLAB_MIN_SIZE) mod 2 ^ 32;
     let prealloc = min prealloc (unat (quota_total q));
     let prealloc = min prealloc (SIZE_MAX - size);
     let prealloc = align_up prealloc size;
     fl \<leftarrow> slab_arena_flags_init fl;
     (base, s) \<leftarrow> (if prealloc \<noteq> 0 then mmap_checked os s prealloc size fl else Some (NULL, s));
     Some (if prealloc \<noteq> 0 \<and> base = NULL then - 1 else 0,
           \<lparr>ar_cache = [], ar_arena = base, ar_prealloc = prealloc, ar_used = 0, ar_quota = q,
            ar_slab_size = size, ar_flags = fl\<rparr>, s) }"

definition slab_map :: "os \<Rightarrow> slab_arena \<Rightarrow> sys \<Rightarrow> (addr \<times> slab_arena \<times> sys) option" where
  "slab_map os ar s =
     (case ar_cache ar of
        ptr # rest \<Rightarrow> Some (ptr, ar\<lparr>ar_cache := rest\<rparr>, s)
      | [] \<Rightarrow> do {
          (r, q) \<leftarrow> quota_use (ar_quota ar) (of_nat (ar_slab_size ar));
          if r < 0 then Some (NULL, ar, s)
          else do {
            let ar = ar\<lparr>ar_quota := q\<rparr>;
            let used = ar_used ar + ar_slab_size ar;
            let ar = ar\<lparr>ar_used := used\<rparr>;
            if used \<le> ar_prealloc ar then Some (ar_arena ar + used - ar_slab_size ar, ar, s)
            else do {
              (ptr, s) \<leftarrow> mmap_checked os s (ar_slab_size ar) (ar_slab_size ar) (ar_flags ar);
              if ptr = NULL then do {
                let ar = ar\<lparr>ar_used := ar_used ar - ar_slab_size ar\<rparr>;
                (_, q) \<leftarrow> quota_release (ar_quota ar) (of_nat (ar_slab_size ar));
                Some (NULL, ar\<lparr>ar_quota := q\<rparr>, s) }
              else Some (ptr, ar, s) } } })"

definition slab_unmap :: "slab_arena \<Rightarrow> addr \<Rightarrow> slab_arena" where
  "slab_unmap ar ptr = (if ptr = NULL then ar else ar\<lparr>ar_cache := ptr # ar_cache ar\<rparr>)"

fun slab_arena_destroy_loop :: "slab_arena \<Rightarrow> sys \<Rightarrow> addr list \<Rightarrow> nat \<Rightarrow> nat \<times> sys" where
  "slab_arena_destroy_loop ar s [] tot = (tot, s)"
| "slab_arena_destroy_loop ar s (ptr # rest) tot =
     (let s = (if ar_arena ar = NULL \<or> ptr < ar_arena ar \<or> ptr \<ge> ar_arena ar + ar_prealloc ar
               then os_munmap s ptr (ar_slab_size ar) else s)
      in slab_arena_destroy_loop ar s rest (tot + ar_slab_size ar))"

definition slab_arena_destroy :: "slab_arena \<Rightarrow> sys \<Rightarrow> (slab_arena \<times> sys) option" where
  "slab_arena_destroy ar s = do {
     let (tot, s) = slab_arena_destroy_loop ar s (ar_cache ar) 0;
     let s = (if ar_arena ar \<noteq> NULL then os_munmap s (ar_arena ar) (ar_prealloc ar) else s);
     c_assert (tot = ar_used ar);
     Some (ar\<lparr>ar_cache := []\<rparr>, s) }"

section \<open>The invariant\<close>

text \<open>
  \<open>arena_inv ar s Out e\<close>: \<open>Out\<close> are the slabs handed out and not returned, \<open>e\<close> the units of the
  quota that are in use for other purposes of the owner (large allocations). Slabs are
  aligned, mapped and distinct, the untouched rest of the preallocated range is mapped and
  overlaps none of them, and \<open>used\<close> and the quota count exactly what exists.
\<close>

definition arena_slabs :: "slab_arena \<Rightarrow> addr set \<Rightarrow> addr set" where
  "arena_slabs ar Out = Out \<union> set (ar_cache ar)"

definition arena_count :: "slab_arena \<Rightarrow> addr set \<Rightarrow> nat" where
  "arena_count ar Out = card Out + length (ar_cache ar)"

definition arena_config :: "slab_arena \<Rightarrow> bool" where
  "arena_config ar \<longleftrightarrow> (\<exists>k. 16 \<le> k \<and> k < 32 \<and> ar_slab_size ar = 2 ^ k) \<and>
     ar_slab_size ar dvd ar_arena ar \<and> ar_slab_size ar dvd ar_prealloc ar \<and>
     (ar_prealloc ar \<noteq> 0 \<longrightarrow> ar_arena ar \<noteq> NULL) \<and>
     q_total (ar_quota ar) + q_units (ar_slab_size ar) < 2 ^ 32"

definition arena_rest :: "slab_arena \<Rightarrow> addr set" where
  "arena_rest ar = span (ar_arena ar + ar_used ar) (ar_prealloc ar - ar_used ar)"

definition slab_placed :: "slab_arena \<Rightarrow> sys \<Rightarrow> addr \<Rightarrow> bool" where
  "slab_placed ar s a \<longleftrightarrow> a \<noteq> NULL \<and> ar_slab_size ar dvd a \<and>
     span a (ar_slab_size ar) \<subseteq> covered (mapped s) \<and> span a (ar_slab_size ar) \<inter> arena_rest ar = {}"

definition arena_inv :: "slab_arena \<Rightarrow> sys \<Rightarrow> addr set \<Rightarrow> nat \<Rightarrow> bool" where
  "arena_inv ar s Out e \<longleftrightarrow> arena_config ar \<and> finite Out \<and>
     distinct (ar_cache ar) \<and> set (ar_cache ar) \<inter> Out = {} \<and>
     (\<forall>a \<in> arena_slabs ar Out. slab_placed ar s a) \<and>
     arena_rest ar \<subseteq> covered (mapped s) \<and>
     ar_used ar = ar_slab_size ar * arena_count ar Out \<and>
     q_units (ar_slab_size ar) * arena_count ar Out + e \<le> q_used (ar_quota ar) \<and>
     quota_ok (ar_quota ar) \<and>
     covered (mapped s) \<inter> taken (heap s) = {}"

lemma nat_and_pow2_mask: "a AND (2 ^ k - 1) = a mod 2 ^ k" for a :: nat
  by (simp add: take_bit_eq_mod [symmetric] take_bit_eq_mask mask_eq_exp_minus_1)

lemma nat_pow2_and: "2 ^ k AND (2 ^ k - 1) = (0 :: nat)"
  by (simp add: nat_and_pow2_mask del: One_nat_def)

text \<open>An aligned mapping: no assertion fails, nothing is left over, the range is new and aligned.\<close>

lemma mmap_checked_spec:
  assumes ok: "os_ok os" and al: "align = 2 ^ k" and sz: "align dvd sz"
    and dj: "covered (mapped s) \<inter> taken (heap s) = {}"
  obtains p s' where "mmap_checked os s sz align fl = Some (p, s')" and "heap s' = heap s"
    and "p = NULL \<Longrightarrow> covered (mapped s') = covered (mapped s)"
    and "p \<noteq> NULL \<Longrightarrow> align dvd p \<and> covered (mapped s') = covered (mapped s) \<union> span p sz \<and>
           span p sz \<inter> (covered (mapped s) \<union> taken (heap s)) = {}"
proof -
  have mask: "a AND (align - 1) = a mod align" for a unfolding al by (rule nat_and_pow2_mask)
  have pos: "0 < align" by (simp add: al)
  define fl' where "fl' = (if IS_SLAB_ARENA_FLAG fl SLAB_ARENA_PRIVATE then MAP_PRIVATE OR MAP_ANONYMOUS
               else MAP_SHARED OR MAP_ANONYMOUS)"
  obtain p1 s1 where m1: "os_mmap os s sz fl' = (p1, s1)" by force
  note c1 = os_mmap_cases [OF ok m1]
  have run: "mmap_checked os s sz align fl =
    (if p1 = NULL then Some (NULL, s1) else if p1 mod align = 0 then Some (p1, s1)
     else do {
       let s = os_munmap s1 p1 sz;
       let (map, s) = os_mmap os s (sz + align) fl';
       if map = NULL then Some (NULL, s)
       else do {
         let offset = map mod align;
         if offset \<noteq> 0 then do {
           let s = os_munmap s map (align - offset);
           let map = map + (align - offset);
           Some (map, os_munmap s (map + sz) offset) }
         else Some (map, os_munmap s (map + sz) align) } })"
    using sz unfolding mmap_checked_def mask fl'_def [symmetric] by (simp add: m1 dvd_eq_mod_eq_0)
  show thesis
  proof (cases "p1 = NULL \<or> p1 mod align = 0")
    case True
    then show thesis using c1 run by (intro that [of p1 s1]) (auto simp: dvd_eq_mod_eq_0)
  next
    case False
    let ?s1 = "os_munmap s1 p1 sz"
    have cov: "covered (mapped ?s1) = covered (mapped s)" "heap ?s1 = heap s"
      using c1 False by auto
    obtain p2 s2 where m2: "os_mmap os ?s1 (sz + align) fl' = (p2, s2)" by force
    note c2 = os_mmap_cases [OF ok m2, unfolded cov]
    show thesis
    proof (cases "p2 = NULL")
      case True
      then show thesis using False c2 run m2 cov by (intro that [of NULL s2]) auto
    next
      case p2: False
      define off where "off = p2 mod align"
      have off: "off < align" "align dvd p2 - off" "off \<le> p2" unfolding off_def using pos
        by (simp_all add: minus_mod_eq_mult_div)
      have c2': "covered (mapped s2) = span p2 (sz + align) \<union> covered (mapped s)"
        using c2 p2 cov(1) by (simp only: covered_Cons) simp
      have d2: "\<not> (p2 \<le> x \<and> x < p2 + (sz + align))" if "x \<in> covered (mapped s) \<union> taken (heap s)" for x
        using c2 p2 that by (auto simp: disjoint_iff)
      let ?p = "if off = 0 then p2 else p2 + (align - off)"
      let ?s = "if off = 0 then os_munmap s2 (p2 + sz) align
                else os_munmap (os_munmap s2 p2 (align - off)) (?p + sz) off"
      have r: "mmap_checked os s sz align fl = Some (?p, ?s)"
        using False p2 run m2 by (simp add: off_def [symmetric] Let_def)
      have "align dvd ?p"
      proof (cases "off = 0")
        case False
        have "p2 + (align - off) = (p2 - off) + align" using off by simp
        then show ?thesis using False off(2) by (simp add: dvd_add)
      qed (simp add: off_def dvd_eq_mod_eq_0)
      moreover have "covered (mapped ?s) = covered (mapped s) \<union> span ?p sz"
      proof (intro set_eqI)
        fix x
        have "x \<in> covered (mapped s) \<Longrightarrow> x < p2 \<or> p2 + sz + align \<le> x" using d2 [of x] by auto
        then show "x \<in> covered (mapped ?s) \<longleftrightarrow> x \<in> covered (mapped s) \<union> span ?p sz"
          using off(1) by (cases "x \<in> covered (mapped s)") (auto simp: c2')
      qed
      moreover have "span ?p sz \<inter> (covered (mapped s) \<union> taken (heap s)) = {}"
      proof -
        have "\<not> (?p \<le> x \<and> x < ?p + sz)" if "x \<in> covered (mapped s) \<union> taken (heap s)" for x
          using d2 [OF that] off(1) by (auto split: if_splits)
        then show ?thesis unfolding disjoint_iff in_span by blast
      qed
      moreover have "heap ?s = heap s" using c2 p2 by simp
      moreover have "?p \<noteq> NULL" using p2 by simp
      ultimately show thesis using r by (intro that [of ?p ?s]) auto
    qed
  qed
qed

section \<open>Taking and returning slabs\<close>

lemma arena_config_size:
  assumes "arena_config ar"
  shows "0 < ar_slab_size ar" and "ar_slab_size ar < 2 ^ 32"
    and "unat (of_nat (ar_slab_size ar) :: u64) = ar_slab_size ar"
    and "of_nat (ar_slab_size ar) < QUOTA_MAX" and "of_nat (ar_slab_size ar) \<noteq> (0 :: u64)"
proof -
  obtain k where k: "k < 32" "ar_slab_size ar = 2 ^ k" using assms by (auto simp: arena_config_def)
  then show p: "0 < ar_slab_size ar" by simp
  show l: "ar_slab_size ar < 2 ^ 32" unfolding k(2) using k(1) by (intro power_strict_increasing) auto
  then have "ar_slab_size ar < 2 ^ 64" by simp
  then show u: "unat (of_nat (ar_slab_size ar) :: u64) = ar_slab_size ar"
    by (simp add: unsigned_of_nat take_bit_nat_eq_self)
  show "of_nat (ar_slab_size ar) < QUOTA_MAX"
    using l by (simp add: word_less_nat_alt u QUOTA_MAX_unat)
  show "of_nat (ar_slab_size ar) \<noteq> (0 :: u64)" using p u by (metis unat_0 less_numeral_extra(3))
qed

lemma arena_config_cache [simp]:
  "arena_config (ar\<lparr>ar_cache := c\<rparr>) = arena_config ar"
  "arena_config (ar\<lparr>ar_used := u\<rparr>) = arena_config ar"
  by (simp_all add: arena_config_def)

lemma arena_rest_cong:
  "arena_rest (ar\<lparr>ar_cache := c\<rparr>) = arena_rest ar" "arena_rest (ar\<lparr>ar_quota := q\<rparr>) = arena_rest ar"
  by (simp_all add: arena_rest_def)

lemma slab_placed_cong:
  "slab_placed (ar\<lparr>ar_cache := c\<rparr>) s a = slab_placed ar s a"
  "slab_placed (ar\<lparr>ar_quota := q\<rparr>) s a = slab_placed ar s a"
  by (simp_all add: slab_placed_def arena_rest_cong)

lemma slab_placed_sys: "covered (mapped s') = covered (mapped s) \<Longrightarrow> slab_placed ar s' a = slab_placed ar s a"
  by (simp add: slab_placed_def)

lemma slab_placed_mono:
  assumes "slab_placed ar s a" and "ar_slab_size ar' = ar_slab_size ar"
    and "arena_rest ar' \<subseteq> arena_rest ar" and "covered (mapped s) \<subseteq> covered (mapped s')"
  shows "slab_placed ar' s' a"
  using assms(1,3,4) unfolding slab_placed_def assms(2) by blast

lemmas arena_simps = arena_rest_cong slab_placed_cong arena_slabs_def arena_count_def

lemma slab_map_spec:
  assumes ok: "os_ok os" and inv: "arena_inv ar s Out e"
  obtains p ar' s' where "slab_map os ar s = Some (p, ar', s')" and "heap s' = heap s"
    and "ar_slab_size ar' = ar_slab_size ar" and "q_total (ar_quota ar') = q_total (ar_quota ar)"
    and "p = NULL \<Longrightarrow> arena_inv ar' s' Out e"
    and "p \<noteq> NULL \<Longrightarrow> p \<notin> Out \<and> arena_inv ar' s' (insert p Out) e"
proof (cases "ar_cache ar")
  case (Cons p rest)
  have "arena_inv (ar\<lparr>ar_cache := rest\<rparr>) s (insert p Out) e" "p \<notin> Out" "p \<noteq> NULL"
    using inv Cons by (auto simp: arena_inv_def arena_simps) (simp add: slab_placed_def)
  then show thesis by (intro that [of p "ar\<lparr>ar_cache := rest\<rparr>" s]) (simp_all add: slab_map_def Cons)
next
  case Nil
  let ?z = "ar_slab_size ar"
  have cfg: "arena_config ar" and q: "quota_ok (ar_quota ar)" using inv by (simp_all add: arena_inv_def)
  note sz = arena_config_size [OF cfg]
  have "q_used (ar_quota ar) + q_units (unat (of_nat ?z :: u64)) < 2 ^ 32"
    using cfg q sz(3) by (auto simp: arena_config_def quota_ok_def)
  then show thesis
  proof (cases rule: quota_use_try [OF sz(5), of "ar_quota ar", case_names hyp no yes])
    case no
    then show thesis using inv by (intro that [of NULL ar s]) (simp_all add: slab_map_def Nil)
  next
    case (yes r q)
    note 2 = yes(1,2) yes(4) [unfolded sz(3)] yes(5,6)
    let ?ar = "ar\<lparr>ar_quota := q, ar_used := ar_used ar + ?z\<rparr>"
    have cnt: "arena_count ar Out = card Out" "ar_used ar = ?z * card Out" "finite Out"
      using inv Nil by (simp_all add: arena_inv_def arena_count_def)
    have cfg': "arena_config ?ar" using cfg 2 by (simp add: arena_config_def)
    have out: "span a ?z \<subseteq> covered (mapped s) \<and> span a ?z \<inter> arena_rest ar = {}" if "a \<in> Out" for a
      using inv that by (simp add: arena_inv_def arena_slabs_def slab_placed_def)
    have sub: "arena_rest ?ar \<subseteq> arena_rest ar" by (auto simp: arena_rest_def)
    have inv': "arena_inv ?ar s' (insert p Out) e"
      if p: "p \<notin> Out" "slab_placed ?ar s' p"
        and s': "covered (mapped s) \<subseteq> covered (mapped s')" "covered (mapped s') \<inter> taken (heap s') = {}"
      for p s'
    proof -
      have old: "\<forall>a \<in> Out. slab_placed ?ar s' a"
        using inv slab_placed_mono [OF _ _ sub s'(1)] by (simp add: arena_inv_def arena_slabs_def)
      have r': "arena_rest ?ar \<subseteq> covered (mapped s')"
        using inv s'(1) sub unfolding arena_inv_def by blast
      have le: "q_units ?z * card Out + e \<le> q_used (ar_quota ar)"
        using inv by (simp add: arena_inv_def cnt)
      have c: "arena_count ?ar (insert p Out) = Suc (card Out)" "arena_slabs ?ar (insert p Out) = insert p Out"
        using cnt(3) p(1) Nil by (simp_all add: arena_count_def arena_slabs_def)
      show ?thesis
        unfolding arena_inv_def c using cfg' old r' p(2) s'(2) 2(3,5) le cnt(2,3) Nil by simp
    qed
    show thesis
    proof (cases "ar_used ar + ?z \<le> ar_prealloc ar")
      case True
      let ?p = "ar_arena ar + ar_used ar"
      have run: "slab_map os ar s = Some (?p, ?ar, s)" using True 2 by (simp add: slab_map_def Nil)
      have p: "?p \<noteq> NULL" "?z dvd ?p"
        using cfg True sz(1) cnt by (auto simp: arena_config_def)
      have sub: "span ?p ?z \<subseteq> arena_rest ar" using True by (auto simp: arena_rest_def)
      have "?p \<in> span ?p ?z" using sz(1) by simp
      then have "?p \<notin> Out" using out [of ?p] sub by blast
      moreover have "span ?p ?z \<inter> arena_rest ?ar = {}" by (auto simp: arena_rest_def)
      then have "slab_placed ?ar s ?p"
        using inv sub p by (simp add: slab_placed_def arena_inv_def) blast
      moreover have "covered (mapped s) \<inter> taken (heap s) = {}" using inv unfolding arena_inv_def by blast
      ultimately have "arena_inv ?ar s (insert ?p Out) e" using inv' by blast
      then show thesis using run p \<open>?p \<notin> Out\<close> 2 by (intro that [of ?p ?ar s]) auto
    next
      case False
      have pre: "ar_prealloc ar \<le> ar_used ar"
        using False cfg cnt dvd_less_add_le [of ?z "ar_used ar" "ar_prealloc ar"]
        by (auto simp: arena_config_def)
      obtain k where k: "?z = 2 ^ k" using cfg by (auto simp: arena_config_def)
      have dj: "covered (mapped s) \<inter> taken (heap s) = {}" using inv by (simp add: arena_inv_def)
      obtain p s' where m: "mmap_checked os s ?z ?z (ar_flags ar) = Some (p, s')" "heap s' = heap s"
        "p = NULL \<Longrightarrow> covered (mapped s') = covered (mapped s)"
        "p \<noteq> NULL \<Longrightarrow> ?z dvd p \<and> covered (mapped s') = covered (mapped s) \<union> span p ?z \<and>
           span p ?z \<inter> (covered (mapped s) \<union> taken (heap s)) = {}"
        using mmap_checked_spec [OF ok k dvd_refl dj] by blast
      show thesis
      proof (cases "p = NULL")
        case True
        have le: "q_units (unat (of_nat ?z :: u64)) \<le> q_used q" using 2 sz(3) by simp
        obtain r' q' where q': "quota_release q (of_nat ?z) = Some (r', q')"
          "q_used q' = q_used (ar_quota ar)" "q_total q' = q_total (ar_quota ar)"
          by (rule quota_release_effect [OF sz(4,5) le]) (use 2 sz(3) in simp)
        let ?ar' = "ar\<lparr>ar_quota := q'\<rparr>"
        have run: "slab_map os ar s = Some (NULL, ?ar', s')"
          using False 2 m True q' by (simp add: slab_map_def Nil)
        have "arena_inv ?ar' s' Out e"
          using inv m(2,3) True q'(2,3) slab_placed_sys [OF m(3) [OF True], of ar] by (simp add: arena_inv_def arena_simps arena_config_def quota_ok_def)
        then show thesis using run m q' by (intro that [of NULL ?ar' s']) auto
      next
        case p: False
        have run: "slab_map os ar s = Some (p, ?ar, s')" using False 2 m p by (simp add: slab_map_def Nil)
        have new: "?z dvd p" "covered (mapped s') = covered (mapped s) \<union> span p ?z"
          "span p ?z \<inter> (covered (mapped s) \<union> taken (heap s)) = {}" using m(4) p by blast+
        have "p \<in> span p ?z" using sz(1) by simp
        then have "p \<notin> Out" using out [of p] new(3) by blast
        moreover have "slab_placed ?ar s' p" using pre p new by (simp add: slab_placed_def arena_rest_def)
        moreover have "covered (mapped s') \<inter> taken (heap s') = {}" using new dj m(2) by auto
        ultimately have "arena_inv ?ar s' (insert p Out) e" using inv' new(2) by blast
        then show thesis using run p \<open>p \<notin> Out\<close> m 2 by (intro that [of p ?ar s']) auto
      qed
    qed
  qed
qed

lemma slab_unmap_inv:
  assumes "arena_inv ar s (insert p Out) e" and "p \<notin> Out"
  shows "arena_inv (slab_unmap ar p) s Out e"
proof -
  have "p \<noteq> NULL" using assms by (simp add: arena_inv_def arena_slabs_def slab_placed_def)
  with assms show ?thesis by (auto simp: arena_inv_def slab_unmap_def arena_simps)
qed

section \<open>Creation and destruction\<close>

definition flags_ok :: "u32 \<Rightarrow> bool" where
  "flags_ok fl \<longleftrightarrow> (if fl AND SLAB_ARENA_FLAG_MARK = 0 then fl AND (MAP_PRIVATE OR MAP_SHARED) \<noteq> 0
     else IS_SLAB_ARENA_FLAG fl SLAB_ARENA_PRIVATE \<or> IS_SLAB_ARENA_FLAG fl SLAB_ARENA_SHARED)"

lemma flags_init_ok: "flags_ok fl \<Longrightarrow> \<exists>fl'. slab_arena_flags_init fl = Some fl'"
  by (auto simp: flags_ok_def slab_arena_flags_init_def split: if_splits)

lemma arena_slab_size_pow2:
  assumes "n \<le> 2 ^ 31"
  obtains k where "16 \<le> k" and "k < 32" and "round_pow2 (max n SLAB_MIN_SIZE) mod 2 ^ 32 = 2 ^ k"
proof -
  define m where "m = max n SLAB_MIN_SIZE"
  have m: "65536 \<le> m" "m \<le> 2 ^ 31" using assms by (auto simp: m_def SLAB_MIN_SIZE_def)
  define k where "k = Suc (ilog2 (m - 1))"
  have r: "round_pow2 m = 2 ^ k" using m(1) by (simp add: round_pow2_def k_def)
  have b: "m \<le> 2 ^ k \<and> 2 ^ k < 2 * m" using round_pow2_bounds [of m] m(1) unfolding r by simp
  have "(2::nat) ^ 15 < 2 ^ k" "(2::nat) ^ k < 2 ^ 33" "(2::nat) ^ k < 2 ^ 32"
    using b m by simp_all
  then have "15 < k" "k < 32"
    by (simp_all only: power_strict_increasing_iff one_less_numeral_iff semiring_norm)
  moreover have "2 ^ k mod (2::nat) ^ 32 = 2 ^ k" using \<open>(2::nat) ^ k < 2 ^ 32\<close> by (rule mod_less)
  ultimately show thesis using r unfolding m_def by (intro that [of k]) (simp_all only:)
qed

lemma slab_arena_create_spec:
  assumes ok: "os_ok os" and dj: "covered (mapped s) \<inter> taken (heap s) = {}" and fl: "flags_ok fl"
    and sz: "slab_size \<le> 2 ^ 31" and q: "quota_ok q" "e \<le> q_used q"
    and room: "q_total q + q_units (round_pow2 (max slab_size SLAB_MIN_SIZE) mod 2 ^ 32) < 2 ^ 32"
  obtains r ar s' where "slab_arena_create os s q prealloc slab_size fl = Some (r, ar, s')"
    and "heap s' = heap s" and "ar_quota ar = q" and "ar_cache ar = []"
    and "ar_slab_size ar = round_pow2 (max slab_size SLAB_MIN_SIZE) mod 2 ^ 32"
    and "r = 0 \<Longrightarrow> arena_inv ar s' {} e" and "r \<noteq> 0 \<Longrightarrow> covered (mapped s') = covered (mapped s)"
proof -
  obtain k where k: "16 \<le> k" "k < 32" "round_pow2 (max slab_size SLAB_MIN_SIZE) mod 2 ^ 32 = 2 ^ k"
    using sz by (rule arena_slab_size_pow2)
  obtain fl' where f: "slab_arena_flags_init fl = Some fl'" using fl flags_init_ok by blast
  define pre where "pre = align_up (min (min prealloc (unat (quota_total q))) (SIZE_MAX - 2 ^ k)) (2 ^ k)"
  have d: "2 ^ k dvd pre" by (simp add: pre_def)
  obtain base s' where m: "(if pre \<noteq> 0 then mmap_checked os s pre (2 ^ k) fl' else Some (NULL, s)) = Some (base, s')"
      "heap s' = heap s" "pre = 0 \<or> base = NULL \<Longrightarrow> covered (mapped s') = covered (mapped s)"
      "pre \<noteq> 0 \<and> base \<noteq> NULL \<Longrightarrow> 2 ^ k dvd base \<and> covered (mapped s') = covered (mapped s) \<union> span base pre \<and>
           span base pre \<inter> (covered (mapped s) \<union> taken (heap s)) = {}" "pre = 0 \<Longrightarrow> base = NULL"
  proof (cases "pre = 0")
    case False
    from mmap_checked_spec [OF ok refl d dj, of fl'] obtain p s' where
      "mmap_checked os s pre (2 ^ k) fl' = Some (p, s')" "heap s' = heap s"
      "p = NULL \<Longrightarrow> covered (mapped s') = covered (mapped s)"
      "p \<noteq> NULL \<Longrightarrow> 2 ^ k dvd p \<and> covered (mapped s') = covered (mapped s) \<union> span p pre \<and>
           span p pre \<inter> (covered (mapped s) \<union> taken (heap s)) = {}" by blast
    with False show thesis by (intro that [of p s']) simp_all
  qed (auto intro: that [of NULL s])
  let ?ar = "\<lparr>ar_cache = [], ar_arena = base, ar_prealloc = pre, ar_used = 0, ar_quota = q,
              ar_slab_size = 2 ^ k, ar_flags = fl'\<rparr>"
  let ?r = "if pre \<noteq> 0 \<and> base = NULL then - 1 else 0"
  have run: "slab_arena_create os s q prealloc slab_size fl = Some (?r, ?ar, s')"
    using m(1) unfolding slab_arena_create_def Let_def k(3) pre_def [symmetric] f by simp
  have cfg: "arena_config ?ar" if "\<not> (pre \<noteq> 0 \<and> base = NULL)"
    using k room m(4,5) d that by (cases "pre = 0") (auto simp: arena_config_def)
  have "arena_inv ?ar s' {} e" if "\<not> (pre \<noteq> 0 \<and> base = NULL)"
    using cfg [OF that] q m that dj
    by (cases "pre = 0") (auto simp: arena_inv_def arena_slabs_def arena_count_def arena_rest_def)
  then show thesis using run m k by (intro that [of ?r ?ar s']) (auto split: if_splits)
qed

lemma destroy_loop_spec:
  "slab_arena_destroy_loop ar s ps tot = (tot', s') \<Longrightarrow>
     tot' = tot + ar_slab_size ar * length ps \<and> heap s' = heap s \<and>
     covered (mapped s') = covered (mapped s) -
       (\<Union>p \<in> {p \<in> set ps. ar_arena ar = NULL \<or> p \<notin> span (ar_arena ar) (ar_prealloc ar)}. span p (ar_slab_size ar))"
proof (induction ps arbitrary: s tot)
  case (Cons p ps)
  let ?s = "if ar_arena ar = NULL \<or> p < ar_arena ar \<or> p \<ge> ar_arena ar + ar_prealloc ar
            then os_munmap s p (ar_slab_size ar) else s"
  have "slab_arena_destroy_loop ar ?s ps (tot + ar_slab_size ar) = (tot', s')"
    using Cons.prems by (simp only: slab_arena_destroy_loop.simps Let_def)
  note IH = Cons.IH [OF this]
  have "{q \<in> set (p # ps). ar_arena ar = NULL \<or> q \<notin> span (ar_arena ar) (ar_prealloc ar)} =
    (if ar_arena ar = NULL \<or> p \<notin> span (ar_arena ar) (ar_prealloc ar) then {p} else {}) \<union>
    {q \<in> set ps. ar_arena ar = NULL \<or> q \<notin> span (ar_arena ar) (ar_prealloc ar)}" by auto
  then show ?case using IH by (auto split: if_splits)
qed simp

text \<open>With every slab returned, destruction passes its assertion and unmaps all the arena had.\<close>

lemma slab_arena_destroy_spec:
  assumes inv: "arena_inv ar s {} e"
  obtains ar' s' where "slab_arena_destroy ar s = Some (ar', s')" and "heap s' = heap s"
    and "covered (mapped s') = covered (mapped s) -
      ((\<Union>p \<in> set (ar_cache ar). span p (ar_slab_size ar)) \<union> span (ar_arena ar) (ar_prealloc ar))"
proof -
  let ?z = "ar_slab_size ar"
  obtain tot s1 where l: "slab_arena_destroy_loop ar s (ar_cache ar) 0 = (tot, s1)" by force
  note sp = destroy_loop_spec [OF l]
  have tot: "tot = ar_used ar" using inv sp by (simp add: arena_inv_def arena_count_def)
  let ?s = "if ar_arena ar \<noteq> NULL then os_munmap s1 (ar_arena ar) (ar_prealloc ar) else s1"
  have run: "slab_arena_destroy ar s = Some (ar\<lparr>ar_cache := []\<rparr>, ?s)"
    using tot by (simp add: slab_arena_destroy_def l)
  have cfg: "arena_config ar" using inv by (simp add: arena_inv_def)
  have null: "ar_arena ar = NULL \<Longrightarrow> ar_prealloc ar = 0" using cfg by (auto simp: arena_config_def)
  have inside: "span p ?z \<subseteq> span (ar_arena ar) (ar_prealloc ar)"
    if "p \<in> set (ar_cache ar)" "p \<in> span (ar_arena ar) (ar_prealloc ar)" for p
  proof -
    have d: "?z dvd p" "?z dvd ar_arena ar + ar_prealloc ar"
      using inv cfg that(1) by (auto simp: arena_inv_def arena_slabs_def slab_placed_def arena_config_def)
    have "p + ?z \<le> ar_arena ar + ar_prealloc ar"
      using dvd_less_add_le [OF d] that(2) by (meson in_span not_le)
    then show ?thesis using that(2) by (intro span_subset) auto
  qed
  have "covered (mapped ?s) = covered (mapped s) -
      ((\<Union>p \<in> set (ar_cache ar). span p ?z) \<union> span (ar_arena ar) (ar_prealloc ar))"
    using sp null inside by (cases "ar_arena ar = NULL") (simp, simp, blast)
  then show thesis using run sp by (intro that [of "ar\<lparr>ar_cache := []\<rparr>" ?s]) auto
qed

end
