(* ===== verification/Buddy.thy ===== *)
theory Buddy
  imports Prelude
begin

text \<open>
  The abstract buddy system behind \<open>slab_cache.c\<close>: blocks \<open>(a, k)\<close> of address \<open>a\<close> and order \<open>k\<close>
  that tile a set of roots, the slabs of the largest order. A block of order \<open>k\<close> has
  \<open>2 ^ (k + lb)\<close> bytes and is aligned by its size. Splitting a block, merging two buddies,
  adding and removing a root keep a tiling; the buddy of a block always starts a block of
  the same or a smaller order, so the code may read a slab header there.
\<close>

type_synonym block = "addr \<times> nat"

definition bsz :: "nat \<Rightarrow> nat \<Rightarrow> nat" where
  "bsz lb k = 2 ^ (k + lb)"

definition tile :: "nat \<Rightarrow> block \<Rightarrow> addr set" where
  "tile lb p = span (fst p) (bsz lb (snd p))"

definition tiling :: "nat \<Rightarrow> nat \<Rightarrow> addr set \<Rightarrow> block set \<Rightarrow> bool" where
  "tiling lb mx R B \<longleftrightarrow> finite R \<and> finite B \<and> (\<forall>r \<in> R. bsz lb mx dvd r) \<and>
     (\<forall>(a, k) \<in> B. k \<le> mx \<and> bsz lb k dvd a) \<and>
     (\<forall>p \<in> B. \<forall>q \<in> B. p \<noteq> q \<longrightarrow> tile lb p \<inter> tile lb q = {}) \<and>
     (\<Union>p \<in> B. tile lb p) = (\<Union>r \<in> R. span r (bsz lb mx))"

lemma bsz_pos [simp]: "0 < bsz lb k"
  by (simp add: bsz_def)

lemma bsz_Suc: "bsz lb (Suc k) = 2 * bsz lb k"
  by (simp add: bsz_def)

lemma bsz_inject [simp]: "bsz lb j = bsz lb k \<longleftrightarrow> j = k"
  by (simp add: bsz_def)

lemma bsz_dvd: "j \<le> k \<Longrightarrow> bsz lb j dvd bsz lb k"
  by (simp add: bsz_def le_imp_power_dvd)

lemma tile_pair [simp]: "tile lb (a, k) = span a (bsz lb k)"
  by (simp add: tile_def)

lemma start_in_tile [simp]: "a \<in> span a (bsz lb k)"
  by simp

lemma tiling_block:
  assumes "tiling lb mx R B" and "(a, k) \<in> B"
  shows "k \<le> mx" and "bsz lb k dvd a"
  using assms unfolding tiling_def by blast+

lemma tiling_disjoint:
  assumes "tiling lb mx R B" and "(a, k) \<in> B" and "(b, j) \<in> B" and "(a, k) \<noteq> (b, j)"
  shows "span a (bsz lb k) \<inter> span b (bsz lb j) = {}"
proof -
  have "\<forall>p \<in> B. \<forall>q \<in> B. p \<noteq> q \<longrightarrow> tile lb p \<inter> tile lb q = {}" using assms(1) by (simp add: tiling_def)
  from this [rule_format, OF assms(2-4)] show ?thesis by simp
qed

lemma tiling_unique:
  assumes "tiling lb mx R B" and "(a, k) \<in> B" and "(b, j) \<in> B"
    and "x \<in> span a (bsz lb k)" and "x \<in> span b (bsz lb j)"
  shows "a = b \<and> k = j"
  using tiling_disjoint [OF assms(1-3)] assms(4,5) by blast

lemma tiling_fun: "tiling lb mx R B \<Longrightarrow> (a, k) \<in> B \<Longrightarrow> (a, j) \<in> B \<Longrightarrow> k = j"
  using tiling_unique start_in_tile by metis

lemma tiling_root:
  assumes t: "tiling lb mx R B" and p: "(a, k) \<in> B"
  obtains r where "r \<in> R" and "span a (bsz lb k) \<subseteq> span r (bsz lb mx)"
proof -
  have "a \<in> (\<Union>p \<in> B. tile lb p)" using p by (intro UN_I [OF p]) simp
  then obtain r where r: "r \<in> R" "a \<in> span r (bsz lb mx)" using t unfolding tiling_def by blast
  have "span a (bsz lb k) \<subseteq> span r (bsz lb mx)" unfolding bsz_def
  proof (rule span_aligned_nested [where x = a])
    show "2 ^ (k + lb) dvd a" "k + lb \<le> mx + lb" using tiling_block [OF t p] by (simp_all add: bsz_def)
    show "2 ^ (mx + lb) dvd r" using t r(1) by (simp add: tiling_def bsz_def)
    show "a \<in> span a (2 ^ (k + lb))" by simp
    show "a \<in> span r (2 ^ (mx + lb))" using r(2) by (simp add: bsz_def)
  qed
  with r(1) show thesis by (rule that)
qed

lemma tiling_cover:
  assumes "tiling lb mx R B" and "r \<in> R" and "x \<in> span r (bsz lb mx)"
  obtains a k where "(a, k) \<in> B" and "x \<in> span a (bsz lb k)"
proof -
  have "x \<in> (\<Union>p \<in> B. tile lb p)" using assms unfolding tiling_def by blast
  then show thesis using that by auto
qed

lemma tiling_at_root:
  assumes t: "tiling lb mx R B" and r: "r \<in> R"
  obtains k where "(r, k) \<in> B"
proof -
  obtain a k where p: "(a, k) \<in> B" "r \<in> span a (bsz lb k)"
    by (rule tiling_cover [OF t r, of r]) simp
  obtain r' where r': "r' \<in> R" "span a (bsz lb k) \<subseteq> span r' (bsz lb mx)" by (rule tiling_root [OF t p(1)])
  have "r' \<le> r \<and> r < r' + bsz lb mx" using subsetD [OF r'(2) p(2)] by simp
  moreover have "r' \<le> a" by (rule span_subset_bounds [OF r'(2)]) simp
  moreover have "r \<le> r'"
  proof (rule dvd_less_add_le)
    show "bsz lb mx dvd r'" "bsz lb mx dvd r" using t r r'(1) by (simp_all add: tiling_def)
  qed (use \<open>r' \<le> r \<and> r < r' + bsz lb mx\<close> in simp)
  ultimately have "a = r" using p(2) by simp
  with p(1) show thesis using that by simp
qed

section \<open>Buddies\<close>

definition buddy :: "nat \<Rightarrow> block \<Rightarrow> addr" where
  "buddy lb p = fst p XOR bsz lb (snd p)"

lemma buddy_pair [simp]: "buddy lb (a, k) = a XOR bsz lb k"
  by (simp add: buddy_def)

lemma buddy_aligned: "bsz lb k dvd a \<Longrightarrow> bsz lb k dvd a XOR bsz lb k"
  unfolding bsz_def by (rule xor_power_aligned)

lemma buddy_parent:
  assumes "bsz lb k dvd a"
  defines "p \<equiv> min a (a XOR bsz lb k)"
  shows "bsz lb (Suc k) dvd p" and "{a, a XOR bsz lb k} = {p, p + bsz lb k}"
  using xor_power_parent [of "k + lb" a] assms unfolding bsz_def by simp_all

lemma buddy_upper: "bsz lb (Suc k) dvd a \<Longrightarrow> a XOR bsz lb k = a + bsz lb k"
proof -
  assume d: "bsz lb (Suc k) dvd a"
  then have "bsz lb k dvd a" using dvd_trans [OF bsz_dvd [of k "Suc k" lb] d] by simp
  then have "\<not> bit a (k + lb)" using d aligned_bit_nat [of "k + lb" a] by (simp add: bsz_def)
  then show ?thesis by (simp add: bsz_def xor_power_nat)
qed

lemma buddy_neq: "a XOR bsz lb k \<noteq> a"
  unfolding bsz_def by (rule xor_power_neq)

text \<open>The buddy's address starts a block of the same or a lower order.\<close>

lemma tiling_buddy:
  assumes t: "tiling lb mx R B" and p: "(a, k) \<in> B" and k: "k < mx"
  obtains j where "(a XOR bsz lb k, j) \<in> B" and "j \<le> k"
proof -
  let ?b = "a XOR bsz lb k"
  define p where "p = min a ?b"
  note al = tiling_block [OF t p]
  note par = buddy_parent [OF al(2), folded p_def]
  have sub: "span a (bsz lb k) \<subseteq> span p (bsz lb (Suc k))" "span ?b (bsz lb k) \<subseteq> span p (bsz lb (Suc k))"
    using par(2) by (auto simp: bsz_Suc doubleton_eq_iff)
  obtain r where r: "r \<in> R" "span a (bsz lb k) \<subseteq> span r (bsz lb mx)" by (rule tiling_root [OF t p])
  have "span p (bsz lb (Suc k)) \<subseteq> span r (bsz lb mx)" unfolding bsz_def
  proof (rule span_aligned_nested [where x = a])
    show "2 ^ (Suc k + lb) dvd p" "Suc k + lb \<le> mx + lb" using par(1) k by (simp_all add: bsz_def)
    show "2 ^ (mx + lb) dvd r" using t r(1) by (simp add: tiling_def bsz_def)
    show "a \<in> span p (2 ^ (Suc k + lb))" using subsetD [OF sub(1), of a] by (simp add: bsz_def)
    show "a \<in> span r (2 ^ (mx + lb))" using subsetD [OF r(2), of a] by (simp add: bsz_def)
  qed
  then have "?b \<in> span r (bsz lb mx)" using subsetD [OF sub(2), of ?b] by auto
  then obtain c j where c: "(c, j) \<in> B" "?b \<in> span c (bsz lb j)" by (rule tiling_cover [OF t r(1)])
  note cal = tiling_block [OF t c(1)]
  show thesis
  proof (cases "j \<le> k")
    case True
    have "span c (bsz lb j) \<subseteq> span ?b (bsz lb k)"
      using span_aligned_nested [of "j + lb" c "k + lb" ?b ?b] cal(2) buddy_aligned [OF al(2)] True c(2)
      by (simp add: bsz_def)
    then have "?b \<le> c" by (rule span_subset_bounds) simp
    then have "c = ?b" using c(2) by auto
    then show thesis using c(1) True that by blast
  next
    case False
    have "span p (bsz lb (Suc k)) \<subseteq> span c (bsz lb j)"
      using span_aligned_nested [of "Suc k + lb" p "j + lb" c ?b] cal(2) par(1) False c(2)
        subsetD [OF sub(2), of ?b] by (simp add: bsz_def)
    then have "a \<in> span c (bsz lb j)" using subsetD [OF sub(1), of a] by auto
    then have "j = k" using tiling_unique [OF t c(1) p, of a] by simp
    then show thesis using False by simp
  qed
qed

text \<open>When no two buddies of one order are blocks, nothing is split.\<close>

lemma tiling_unsplit:
  assumes t: "tiling lb mx R B" and nb: "\<And>a k. (a, k) \<in> B \<Longrightarrow> k < mx \<Longrightarrow> (a XOR bsz lb k, k) \<notin> B" and p: "(b, j) \<in> B"
  shows "j = mx"
proof -
  obtain a k where m: "(a, k) \<in> B" "\<And>q. q \<in> B \<Longrightarrow> k \<le> snd q"
    using ex_has_least_nat [of "\<lambda>q. q \<in> B" "(b, j)" snd] p by auto
  have "\<not> k < mx"
  proof
    assume k: "k < mx"
    obtain i where i: "(a XOR bsz lb k, i) \<in> B" "i \<le> k" by (rule tiling_buddy [OF t m(1) k])
    then have "i = k" using m(2) [OF i(1)] by simp
    then show False using i(1) nb [OF m(1) k] by simp
  qed
  then show ?thesis using m(2) [OF p] tiling_block(1) [OF t p] by simp
qed

section \<open>Splitting and merging\<close>

lemma tiling_split:
  assumes t: "tiling lb mx R B" and p: "(a, Suc k) \<in> B"
  defines "B' \<equiv> B - {(a, Suc k)} \<union> {(a, k), (a + bsz lb k, k)}"
  shows "tiling lb mx R B'" and "(a, k) \<notin> B" and "(a + bsz lb k, k) \<notin> B"
proof -
  note al = tiling_block [OF t p]
  have h: "span a (bsz lb (Suc k)) = span a (bsz lb k) \<union> span (a + bsz lb k) (bsz lb k)"
    unfolding bsz_Suc by (rule span_halves)
  show "(a, k) \<notin> B" using tiling_fun [OF t p, of k] by auto
  show nb: "(a + bsz lb k, k) \<notin> B"
  proof
    assume m: "(a + bsz lb k, k) \<in> B"
    have "a + bsz lb k \<in> span a (bsz lb (Suc k))" unfolding h by simp
    then have "Suc k = k" using tiling_unique [OF t p m, of "a + bsz lb k"] by simp
    then show False by simp
  qed
  have d: "bsz lb k dvd a" "bsz lb k dvd a + bsz lb k"
    using dvd_trans [OF bsz_dvd [of k "Suc k" lb] al(2)] by (simp_all add: dvd_add)
  have old: "q \<in> B - {(a, Suc k)} \<Longrightarrow> tile lb q \<inter> span a (bsz lb (Suc k)) = {}" for q
    using t p unfolding tiling_def by (metis DiffE insertCI tile_pair)
  have halves: "span a (bsz lb k) \<inter> span (a + bsz lb k) (bsz lb k) = {}" by auto
  have dis: "\<forall>p \<in> B'. \<forall>q \<in> B'. p \<noteq> q \<longrightarrow> tile lb p \<inter> tile lb q = {}"
  proof (intro ballI impI)
    fix x y assume xy: "x \<in> B'" "y \<in> B'" "x \<noteq> y"
    have 1: "z \<in> B - {(a, Suc k)} \<Longrightarrow> tile lb z \<inter> tile lb (a, k) = {} \<and> tile lb z \<inter> tile lb (a + bsz lb k, k) = {}" for z
      using old [of z] unfolding h tile_pair by blast
    have 2: "x \<in> B \<Longrightarrow> y \<in> B \<Longrightarrow> tile lb x \<inter> tile lb y = {}" using t xy(3) unfolding tiling_def by blast
    show "tile lb x \<inter> tile lb y = {}"
      using xy 1 [of x] 1 [of y] 2 halves unfolding B'_def by (auto simp del: in_span)
  qed
  have un: "(\<Union>q \<in> B'. tile lb q) = (\<Union>q \<in> B. tile lb q)"
  proof -
    have "(\<Union>q \<in> B. tile lb q) = (\<Union>q \<in> B - {(a, Suc k)}. tile lb q) \<union> span a (bsz lb (Suc k))"
      using p by auto
    then show ?thesis unfolding B'_def h by auto
  qed
  have "\<forall>(b, j) \<in> B'. j \<le> mx \<and> bsz lb j dvd b" using t al(1) d unfolding B'_def tiling_def by auto
  moreover have "finite B'" using t by (simp add: B'_def tiling_def)
  ultimately show "tiling lb mx R B'" using t dis un unfolding tiling_def by simp
qed

lemma tiling_merge:
  assumes t: "tiling lb mx R B" and p: "(a, k) \<in> B" "(a + bsz lb k, k) \<in> B"
    and al: "bsz lb (Suc k) dvd a" and k: "k < mx"
  defines "B' \<equiv> B - {(a, k), (a + bsz lb k, k)} \<union> {(a, Suc k)}"
  shows "tiling lb mx R B'" and "(a, Suc k) \<notin> B"
proof -
  have h: "span a (bsz lb (Suc k)) = span a (bsz lb k) \<union> span (a + bsz lb k) (bsz lb k)"
    unfolding bsz_Suc by (rule span_halves)
  show "(a, Suc k) \<notin> B" using tiling_fun [OF t p(1), of "Suc k"] by auto
  have old: "tile lb q \<inter> span a (bsz lb (Suc k)) = {}" if "q \<in> B - {(a, k), (a + bsz lb k, k)}" for q
  proof -
    have "tile lb q \<inter> tile lb (a, k) = {}" "tile lb q \<inter> tile lb (a + bsz lb k, k) = {}"
      using t p that unfolding tiling_def by blast+
    then show ?thesis unfolding h tile_pair by blast
  qed
  have dis: "\<forall>p \<in> B'. \<forall>q \<in> B'. p \<noteq> q \<longrightarrow> tile lb p \<inter> tile lb q = {}"
  proof (intro ballI impI)
    fix x y assume xy: "x \<in> B'" "y \<in> B'" "x \<noteq> y"
    have 2: "x \<in> B \<Longrightarrow> y \<in> B \<Longrightarrow> tile lb x \<inter> tile lb y = {}" using t xy(3) unfolding tiling_def by blast
    show "tile lb x \<inter> tile lb y = {}"
      using xy old [of x] old [of y] 2 unfolding B'_def by (auto simp del: in_span)
  qed
  have un: "(\<Union>q \<in> B'. tile lb q) = (\<Union>q \<in> B. tile lb q)"
  proof -
    have "(\<Union>q \<in> B. tile lb q) = (\<Union>q \<in> B - {(a, k), (a + bsz lb k, k)}. tile lb q) \<union> span a (bsz lb (Suc k))"
      using p unfolding h by auto
    then show ?thesis unfolding B'_def by auto
  qed
  have "\<forall>(b, j) \<in> B'. j \<le> mx \<and> bsz lb j dvd b" using t al k unfolding B'_def tiling_def by auto
  moreover have "finite B'" using t by (simp add: B'_def tiling_def)
  ultimately show "tiling lb mx R B'" using t dis un unfolding tiling_def by simp
qed

section \<open>Roots\<close>

lemma tiling_empty [simp]: "tiling lb mx {} {}"
  by (simp add: tiling_def)

lemma tiling_add_root:
  assumes t: "tiling lb mx R B" and r: "r \<notin> R" "bsz lb mx dvd r"
  shows "tiling lb mx (insert r R) (insert (r, mx) B)" and "(r, mx) \<notin> B"
proof -
  have dis: "tile lb q \<inter> span r (bsz lb mx) = {}" if "q \<in> B" for q
  proof -
    obtain a k where q: "q = (a, k)" by force
    have "(a, k) \<in> B" using that q by simp
    then obtain r' where r': "r' \<in> R" "span a (bsz lb k) \<subseteq> span r' (bsz lb mx)" by (rule tiling_root [OF t])
    have "span r' (bsz lb mx) \<inter> span r (bsz lb mx) = {}"
      using span_same_size_disjoint [of "bsz lb mx" r' r] t r r'(1) by (auto simp: tiling_def)
    then show ?thesis using r'(2) unfolding q tile_pair by blast
  qed
  show n: "(r, mx) \<notin> B" using dis [of "(r, mx)"] start_in_tile [of r lb mx] by (auto simp del: start_in_tile in_span)
  have "\<forall>p \<in> insert (r, mx) B. \<forall>q \<in> insert (r, mx) B. p \<noteq> q \<longrightarrow> tile lb p \<inter> tile lb q = {}"
    using t dis unfolding tiling_def by (auto simp del: in_span)
  then show "tiling lb mx (insert r R) (insert (r, mx) B)"
    using t r(2) unfolding tiling_def by simp
qed

lemma tiling_del_root:
  assumes t: "tiling lb mx R B" and p: "(r, mx) \<in> B"
  shows "r \<in> R" and "tiling lb mx (R - {r}) (B - {(r, mx)})"
proof -
  obtain r' where r': "r' \<in> R" "span r (bsz lb mx) \<subseteq> span r' (bsz lb mx)" by (rule tiling_root [OF t p])
  have "r = r'"
  proof -
    have "r' \<le> r" "r + bsz lb mx \<le> r' + bsz lb mx" using span_subset_bounds [OF r'(2)] by simp_all
    then show ?thesis by simp
  qed
  with r' show r: "r \<in> R" by simp
  have rd: "span r' (bsz lb mx) \<inter> span r (bsz lb mx) = {}" if "r' \<in> R - {r}" for r'
    using span_same_size_disjoint [of "bsz lb mx" r' r] t r that by (auto simp: tiling_def)
  have od: "tile lb q \<inter> span r (bsz lb mx) = {}" if "q \<in> B - {(r, mx)}" for q
    using t p that unfolding tiling_def by (metis DiffE insertCI tile_pair)
  have "(\<Union>q \<in> B - {(r, mx)}. tile lb q) \<union> span r (bsz lb mx) = (\<Union>r \<in> R - {r}. span r (bsz lb mx)) \<union> span r (bsz lb mx)"
  proof -
    have "(\<Union>q \<in> B. tile lb q) = (\<Union>q \<in> B - {(r, mx)}. tile lb q) \<union> span r (bsz lb mx)" using p by auto
    moreover have "(\<Union>r \<in> R. span r (bsz lb mx)) = (\<Union>r \<in> R - {r}. span r (bsz lb mx)) \<union> span r (bsz lb mx)"
      using r by auto
    ultimately show ?thesis using t unfolding tiling_def by simp
  qed
  then have "(\<Union>q \<in> B - {(r, mx)}. tile lb q) = (\<Union>r \<in> R - {r}. span r (bsz lb mx))"
    using rd od by (simp only: set_eq_iff Un_iff UN_iff Int_iff empty_iff disjoint_iff) blast
  then show "tiling lb mx (R - {r}) (B - {(r, mx)})"
    using t unfolding tiling_def by auto
qed

text \<open>The blocks and the roots have the same number of bytes.\<close>

lemma tiling_bytes:
  assumes t: "tiling lb mx R B"
  shows "(\<Sum>p \<in> B. bsz lb (snd p)) = card R * bsz lb mx"
proof -
  have c: "card (span a n) = n" for a n by (simp add: span_def)
  have "(\<Sum>p \<in> B. bsz lb (snd p)) = (\<Sum>p \<in> B. card (tile lb p))" by (simp add: tile_def c)
  also have "\<dots> = card (\<Union>p \<in> B. tile lb p)"
    using t by (intro card_UN_disjoint [symmetric]) (auto simp: tiling_def tile_def span_def)
  also have "\<dots> = card (\<Union>r \<in> R. span r (bsz lb mx))" using t by (simp add: tiling_def)
  also have "\<dots> = (\<Sum>r \<in> R. card (span r (bsz lb mx)))"
  proof (rule card_UN_disjoint)
    show "finite R" using t by (simp add: tiling_def)
    show "\<forall>r \<in> R. \<forall>q \<in> R. r \<noteq> q \<longrightarrow> span r (bsz lb mx) \<inter> span q (bsz lb mx) = {}"
      using t span_same_size_disjoint [of "bsz lb mx"] by (simp add: tiling_def)
  qed (simp add: span_def)
  finally show ?thesis by (simp add: c)
qed

end
