(* ===== verification/Slab_Cache.thy ===== *)
theory Slab_Cache
  imports Slab_Arena Buddy
begin

text \<open>
  \<open>small/slab_cache.c\<close>, \<open>include/small/slab_cache.h\<close> and \<open>include/small/slab_list.h\<close>: a buddy
  allocator of slabs over the arena. The slab header in front of each slab is the map \<open>hdr\<close>
  from the slab's address; the lists the headers are linked in (\<open>next_in_cache\<close>,
  \<open>next_in_list\<close>) are the \<open>sl_slabs\<close> of the list heads; \<open>mem\<close> holds the bytes behind the
  headers. The cache owns its arena, and the state of the operating system is part of it.
  Counters are integers: the invariant shows that they are sums of slab sizes.
\<close>

section \<open>Data\<close>

record slab =
  sl_size :: nat
  sl_magic :: u32
  sl_order :: nat
  sl_in_use :: nat

record slab_list =
  sl_slabs :: "addr list"
  st_used :: int
  st_total :: int

record slab_cache =
  sc_arena :: slab_arena
  order0_size :: nat
  order0_size_lb :: nat
  order_max :: nat
  allocated :: slab_list
  orders :: "slab_list list"
  hdr :: "addr \<Rightarrow> slab"
  mem :: "addr \<Rightarrow> byte"
  sc_sys :: sys

definition slab_magic :: u32 where
  "slab_magic = 0xeec0ffee"

definition ORDER_MAX :: nat where
  "ORDER_MAX = 16"

definition slab_list_create :: slab_list where
  "slab_list_create = \<lparr>sl_slabs = [], st_used = 0, st_total = 0\<rparr>"

definition slab_list_add :: "slab_list \<Rightarrow> addr \<Rightarrow> nat \<Rightarrow> slab_list" where
  "slab_list_add l a sz = l\<lparr>sl_slabs := a # sl_slabs l, st_total := st_total l + int sz\<rparr>"

definition slab_list_del :: "slab_list \<Rightarrow> addr \<Rightarrow> nat \<Rightarrow> slab_list" where
  "slab_list_del l a sz = l\<lparr>sl_slabs := remove1 a (sl_slabs l), st_total := st_total l - int sz\<rparr>"

text \<open>\<open>sizeof(struct slab)\<close> on a 64-bit machine: two list links, a size, a magic, two bytes and padding.\<close>

definition slab_sizeof :: nat where
  "slab_sizeof = align_up 48 8"

definition slab_capacity :: "slab_cache \<Rightarrow> addr \<Rightarrow> nat" where
  "slab_capacity c s = sl_size (hdr c s) - slab_sizeof"

definition slab_data :: "addr \<Rightarrow> addr" where
  "slab_data s = s + slab_sizeof"

definition slab_from_data :: "addr \<Rightarrow> addr" where
  "slab_from_data d = d - slab_sizeof"

definition slab_from_ptr :: "slab_cache \<Rightarrow> addr \<Rightarrow> int \<Rightarrow> addr option" where
  "slab_from_ptr c ptr slab_mask = do {
     let s = nat (int ptr AND slab_mask);
     c_assert (sl_magic (hdr c s) = slab_magic);
     Some s }"

section \<open>Orders\<close>

definition slab_order :: "slab_cache \<Rightarrow> nat \<Rightarrow> nat" where
  "slab_order c sz =
     (if sz \<le> order0_size c then 0
      else if sz > ar_slab_size (sc_arena c) then order_max c + 1
      else (Suc (ilog2 ((sz - 1) mod 2 ^ 32)) - order0_size_lb c) mod 256)"

definition slab_order_size :: "slab_cache \<Rightarrow> nat \<Rightarrow> nat option" where
  "slab_order_size c order = do {
     c_assert (order \<le> order_max c);
     Some (push_bit (order + order0_size_lb c) 1) }"

definition slab_real_size :: "slab_cache \<Rightarrow> nat \<Rightarrow> nat option" where
  "slab_real_size c sz = do {
     let sz = (sz + slab_sizeof) mod 2 ^ 64;
     let order = slab_order c sz;
     if order = order_max c + 1 then Some sz else slab_order_size c order }"

section \<open>Slab headers\<close>

definition slab_assert :: "slab_cache \<Rightarrow> addr \<Rightarrow> unit option" where
  "slab_assert c s = do {
     c_assert (sl_magic (hdr c s) = slab_magic);
     c_assert (sl_order (hdr c s) \<le> order_max c + 1);
     if sl_order (hdr c s) \<le> order_max c then do {
       sz \<leftarrow> slab_order_size c (sl_order (hdr c s));
       c_assert (sl_size (hdr c s) = sz);
       c_assert (s = align_down s sz) }
     else Some () }"

definition upd_order :: "(slab_list \<Rightarrow> slab_list) \<Rightarrow> nat \<Rightarrow> slab_cache \<Rightarrow> slab_cache" where
  "upd_order f k c = c\<lparr>orders := (orders c)[k := f (orders c ! k)]\<rparr>"

definition upd_hdr :: "(slab \<Rightarrow> slab) \<Rightarrow> addr \<Rightarrow> slab_cache \<Rightarrow> slab_cache" where
  "upd_hdr f s c = c\<lparr>hdr := (hdr c)(s := f (hdr c s))\<rparr>"

definition add_used :: "int \<Rightarrow> slab_list \<Rightarrow> slab_list" where
  "add_used n l = l\<lparr>st_used := st_used l + n\<rparr>"

definition add_total :: "int \<Rightarrow> slab_list \<Rightarrow> slab_list" where
  "add_total n l = l\<lparr>st_total := st_total l + n\<rparr>"

definition slab_set_free :: "slab_cache \<Rightarrow> addr \<Rightarrow> slab_cache option" where
  "slab_set_free c s = do {
     let h = hdr c s;
     c_assert (sl_in_use h = sl_order h + 1);
     let c = c\<lparr>allocated := add_used (- int (sl_size h)) (allocated c)\<rparr>;
     let c = upd_order (add_used (- int (sl_size h))) (sl_order h) c;
     Some (upd_hdr (sl_in_use_update (\<lambda>_. 0)) s c) }"

definition slab_set_used :: "slab_cache \<Rightarrow> addr \<Rightarrow> slab_cache" where
  "slab_set_used c s =
     (let h = hdr c s;
          c = c\<lparr>allocated := add_used (int (sl_size h)) (allocated c)\<rparr>;
          c = upd_order (add_used (int (sl_size h))) (sl_order h) c
      in upd_hdr (sl_in_use_update (\<lambda>_. 1 + sl_order h)) s c)"

definition slab_is_free :: "slab_cache \<Rightarrow> addr \<Rightarrow> bool" where
  "slab_is_free c s \<longleftrightarrow> sl_in_use (hdr c s) = 0"

definition slab_poison :: "slab_cache \<Rightarrow> addr \<Rightarrow> slab_cache" where
  "slab_poison c s =
     c\<lparr>mem := (\<lambda>x. if slab_data s \<le> x \<and> x < slab_data s + slab_capacity c s then 0x50 else mem c x)\<rparr>"

definition slab_create :: "slab_cache \<Rightarrow> addr \<Rightarrow> nat \<Rightarrow> nat \<Rightarrow> slab_cache" where
  "slab_create c s order sz =
     upd_hdr (\<lambda>_. \<lparr>sl_size = sz, sl_magic = slab_magic, sl_order = order, sl_in_use = 0\<rparr>) s c"

definition slab_buddy :: "slab_cache \<Rightarrow> addr \<Rightarrow> addr option" where
  "slab_buddy c s = do {
     c_assert (sl_order (hdr c s) \<le> order_max c);
     if sl_order (hdr c s) = order_max c then Some NULL
     else do {
       sz \<leftarrow> slab_order_size c (sl_order (hdr c s));
       Some (s XOR sz) } }"

definition slab_split :: "slab_cache \<Rightarrow> addr \<Rightarrow> slab_cache option" where
  "slab_split c s = do {
     c_assert (sl_order (hdr c s) > 0);
     let new_order = sl_order (hdr c s) - 1;
     new_size \<leftarrow> slab_order_size c new_order;
     let c = slab_create c s new_order new_size;
     b \<leftarrow> slab_buddy c s;
     let c = slab_create c b new_order new_size;
     Some (upd_order (\<lambda>l. slab_list_add l b (sl_size (hdr c b))) (sl_order (hdr c b)) c) }"

definition slab_merge :: "slab_cache \<Rightarrow> addr \<Rightarrow> addr \<Rightarrow> (slab_cache \<times> addr) option" where
  "slab_merge c s b = do {
     b' \<leftarrow> slab_buddy c s;
     c_assert (b' = b);
     let merged = (if s > b then b else s);
     let c = upd_order (\<lambda>l. slab_list_del l b (sl_size (hdr c b))) (sl_order (hdr c b)) c;
     let c = upd_hdr (\<lambda>h. h\<lparr>sl_order := sl_order h + 1\<rparr>) merged c;
     sz \<leftarrow> slab_order_size c (sl_order (hdr c merged));
     Some (upd_hdr (\<lambda>h. h\<lparr>sl_size := sz\<rparr>) merged c, merged) }"

section \<open>Creating and destroying a cache\<close>

definition slab_cache_create :: "slab_arena \<Rightarrow> nat \<Rightarrow> (addr \<Rightarrow> slab) \<Rightarrow> (addr \<Rightarrow> byte) \<Rightarrow> sys \<Rightarrow> slab_cache option" where
  "slab_cache_create ar min_order0_size h m s = do {
     c_assert (ar_slab_size ar \<ge> min_order0_size);
     let omax = min (ilog2 (ar_slab_size ar div min_order0_size)) (ORDER_MAX - 1);
     let size0 = drop_bit omax (ar_slab_size ar);
     Some \<lparr>sc_arena = ar, order0_size = size0, order0_size_lb = ilog2 size0, order_max = omax,
           allocated = slab_list_create, orders = replicate (ORDER_MAX + 1) slab_list_create,
           hdr = h, mem = m, sc_sys = s\<rparr> }"

fun slab_cache_destroy_loop :: "slab_cache \<Rightarrow> addr list \<Rightarrow> slab_cache option" where
  "slab_cache_destroy_loop c [] = Some c"
| "slab_cache_destroy_loop c (s # rest) =
     (if sl_order (hdr c s) = order_max c + 1 then do {
        (_, q) \<leftarrow> quota_release (ar_quota (sc_arena c)) (of_nat (sl_size (hdr c s)));
        slab_cache_destroy_loop (c\<lparr>sc_arena := (sc_arena c)\<lparr>ar_quota := q\<rparr>, sc_sys := os_free (sc_sys c) s\<rparr>) rest }
      else slab_cache_destroy_loop (c\<lparr>sc_arena := slab_unmap (sc_arena c) s\<rparr>) rest)"

definition slab_cache_destroy :: "slab_cache \<Rightarrow> slab_cache option" where
  "slab_cache_destroy c = slab_cache_destroy_loop c (sl_slabs (allocated c))"

section \<open>Ordered slabs\<close>

text \<open>
  The search for a free slab from order \<open>i\<close> up; \<open>None\<close> inside the result is the failure of
  \<open>slab_map\<close>. Walking past \<open>order_max\<close>, which the assertion of the caller excludes, is an abort.
\<close>

function slab_find :: "os \<Rightarrow> slab_cache \<Rightarrow> nat \<Rightarrow> (nat option \<times> slab_cache) option" where
  "slab_find os c i =
     (if sl_slabs (orders c ! i) \<noteq> [] then Some (Some i, c)
      else if i = order_max c then do {
        (s, ar, sys) \<leftarrow> slab_map os (sc_arena c) (sc_sys c);
        let c = c\<lparr>sc_arena := ar, sc_sys := sys\<rparr>;
        if s = NULL then Some (None, c)
        else do {
          let c = slab_create c s (order_max c) (ar_slab_size (sc_arena c));
          let c = slab_poison c s;
          let c = c\<lparr>allocated := slab_list_add (allocated c) s (sl_size (hdr c s))\<rparr>;
          let c = upd_order (\<lambda>l. slab_list_add l s (sl_size (hdr c s))) i c;
          Some (Some i, c) } }
      else if i > order_max c then None
      else slab_find os c (i + 1))"
  by pat_completeness auto
termination by (relation "measure (\<lambda>(os, c, i). order_max c - i)") auto

declare slab_find.simps [simp del]

lemma slab_split_order:
  assumes "slab_split c s = Some c'"
  shows "sl_order (hdr c' s) < sl_order (hdr c s)"
  using assms by (auto simp: slab_split_def slab_buddy_def slab_create_def slab_order_size_def upd_hdr_def upd_order_def
      Let_def split: if_splits)

function slab_split_loop :: "slab_cache \<Rightarrow> addr \<Rightarrow> nat \<Rightarrow> slab_cache option" where
  "slab_split_loop c s order =
     (case slab_split c s of None \<Rightarrow> None
      | Some c \<Rightarrow> if sl_order (hdr c s) \<noteq> order then slab_split_loop c s order else Some c)"
  by pat_completeness auto
termination
  by (relation "measure (\<lambda>(c, s, order). sl_order (hdr c s))") (auto dest: slab_split_order)

declare slab_split_loop.simps [simp del]

text \<open>Splitting the slab found at order \<open>i\<close> down to the order that was asked for.\<close>

definition slab_fit :: "slab_cache \<Rightarrow> addr \<Rightarrow> nat \<Rightarrow> nat \<Rightarrow> slab_cache option" where
  "slab_fit c s i order =
     (if sl_order (hdr c s) \<noteq> order then do {
        let c = upd_order (add_total (- int (sl_size (hdr c s)))) i c;
        c \<leftarrow> slab_split_loop c s order;
        Some (upd_order (add_total (int (sl_size (hdr c s)))) (sl_order (hdr c s)) c) }
      else Some c)"

definition slab_get_with_order :: "os \<Rightarrow> slab_cache \<Rightarrow> nat \<Rightarrow> (addr \<times> slab_cache) option" where
  "slab_get_with_order os c order = do {
     c_assert (order \<le> order_max c);
     (found, c) \<leftarrow> slab_find os c order;
     case found of None \<Rightarrow> Some (NULL, c)
     | Some i \<Rightarrow> do {
         let s = hd (sl_slabs (orders c ! i));
         let c = upd_order (\<lambda>l. l\<lparr>sl_slabs := tl (sl_slabs l)\<rparr>) i c;
         c \<leftarrow> slab_fit c s i order;
         let c = slab_set_used c s;
         slab_assert c s;
         Some (s, c) } }"

text \<open>The merge loop: \<open>if\<close> with a \<open>do\<close>-\<open>while\<close> on one condition, which is a \<open>while\<close>.\<close>

definition slab_can_merge :: "slab_cache \<Rightarrow> addr \<Rightarrow> addr \<Rightarrow> bool" where
  "slab_can_merge c s b \<longleftrightarrow> b \<noteq> NULL \<and> sl_order (hdr c b) = sl_order (hdr c s) \<and> slab_is_free c b"

lemma slab_merge_order:
  assumes "slab_merge c s b = Some (c', s')" and "slab_can_merge c s b"
  shows "sl_order (hdr c' s') = Suc (sl_order (hdr c s))" and "sl_order (hdr c' s') \<le> order_max c'"
    and "order_max c' = order_max c"
proof -
  have m: "sl_order (hdr c (if s > b then b else s)) = sl_order (hdr c s)"
    using assms(2) by (simp add: slab_can_merge_def)
  then show "sl_order (hdr c' s') = Suc (sl_order (hdr c s))" "sl_order (hdr c' s') \<le> order_max c'"
    "order_max c' = order_max c"
    using assms(1)
    by (auto simp: slab_merge_def upd_hdr_def upd_order_def slab_order_size_def Let_def
        elim!: bind_eq_SomeE split: if_splits)
qed

function slab_merge_loop :: "slab_cache \<Rightarrow> addr \<Rightarrow> addr \<Rightarrow> (slab_cache \<times> addr) option" where
  "slab_merge_loop c s b =
     (if slab_can_merge c s b then
        (case slab_merge c s b of None \<Rightarrow> None
         | Some (c, s) \<Rightarrow> (case slab_buddy c s of None \<Rightarrow> None | Some b \<Rightarrow> slab_merge_loop c s b))
      else Some (c, s))"
  by pat_completeness auto
termination
proof (relation "measure (\<lambda>(c, s, b). Suc (order_max c) - sl_order (hdr c s))")
  fix c s b x c' s' b'
  assume m: "slab_can_merge c s b" "slab_merge c s b = Some x" "(c', s') = x"
  then have "slab_merge c s b = Some (c', s')" by simp
  from slab_merge_order [OF this m(1)]
  show "((c', s', b'), c, s, b) \<in> measure (\<lambda>(c, s, b). Suc (order_max c) - sl_order (hdr c s))" by simp
qed simp

declare slab_merge_loop.simps [simp del]

definition slab_coalesce :: "slab_cache \<Rightarrow> addr \<Rightarrow> addr \<Rightarrow> (slab_cache \<times> addr) option" where
  "slab_coalesce c s b =
     (if slab_can_merge c s b then do {
        let c = upd_order (add_total (- int (sl_size (hdr c s)))) (sl_order (hdr c s)) c;
        (c, s) \<leftarrow> slab_merge_loop c s b;
        Some (upd_order (add_total (int (sl_size (hdr c s)))) (sl_order (hdr c s)) c, s) }
      else Some (c, s))"

text \<open>A second free slab of the largest order goes back to the arena, any other slab into its list.\<close>

definition slab_store :: "slab_cache \<Rightarrow> addr \<Rightarrow> slab_cache option" where
  "slab_store c s =
     (if sl_order (hdr c s) = order_max c \<and> sl_slabs (orders c ! sl_order (hdr c s)) \<noteq> [] then do {
        c_assert (sl_size (hdr c s) = ar_slab_size (sc_arena c));
        let c = c\<lparr>allocated := slab_list_del (allocated c) s (sl_size (hdr c s))\<rparr>;
        let c = upd_order (add_total (- int (sl_size (hdr c s)))) (sl_order (hdr c s)) c;
        Some (c\<lparr>sc_arena := slab_unmap (sc_arena c) s\<rparr>) }
      else Some (upd_order (\<lambda>l. l\<lparr>sl_slabs := s # sl_slabs l\<rparr>) (sl_order (hdr c s)) c))"

definition slab_put_with_order :: "slab_cache \<Rightarrow> addr \<Rightarrow> slab_cache option" where
  "slab_put_with_order c s = do {
     slab_assert c s;
     c_assert (sl_order (hdr c s) \<le> order_max c);
     c \<leftarrow> slab_set_free c s;
     b \<leftarrow> slab_buddy c s;
     (c, s) \<leftarrow> slab_coalesce c s b;
     let c = slab_poison c s;
     slab_store c s }"

section \<open>Large slabs\<close>

definition slab_get_large :: "os \<Rightarrow> slab_cache \<Rightarrow> nat \<Rightarrow> (addr \<times> slab_cache) option" where
  "slab_get_large os c sz = do {
     let sz = (sz + slab_sizeof) mod 2 ^ 64;
     (r, q) \<leftarrow> quota_use (ar_quota (sc_arena c)) (of_nat sz);
     if r < 0 then Some (NULL, c)
     else do {
       let c = c\<lparr>sc_arena := (sc_arena c)\<lparr>ar_quota := q\<rparr>\<rparr>;
       let (s, sys) = os_malloc os (sc_sys c) sz;
       let c = c\<lparr>sc_sys := sys\<rparr>;
       if s = NULL then do {
         (_, q) \<leftarrow> quota_release q (of_nat sz);
         Some (NULL, c\<lparr>sc_arena := (sc_arena c)\<lparr>ar_quota := q\<rparr>\<rparr>) }
       else do {
         let c = slab_create c s (order_max c + 1) sz;
         let c = c\<lparr>allocated := slab_list_add (allocated c) s (sl_size (hdr c s))\<rparr>;
         Some (s, c\<lparr>allocated := add_used (int sz) (allocated c)\<rparr>) } } }"

definition slab_put_large :: "slab_cache \<Rightarrow> addr \<Rightarrow> slab_cache option" where
  "slab_put_large c s = do {
     slab_assert c s;
     c_assert (sl_order (hdr c s) = order_max c + 1);
     let sz = sl_size (hdr c s);
     let c = c\<lparr>allocated := slab_list_del (allocated c) s sz\<rparr>;
     let c = c\<lparr>allocated := add_used (- int sz) (allocated c)\<rparr>;
     (_, q) \<leftarrow> quota_release (ar_quota (sc_arena c)) (of_nat sz);
     let c = c\<lparr>sc_arena := (sc_arena c)\<lparr>ar_quota := q\<rparr>\<rparr>;
     let c = slab_poison c s;
     Some (c\<lparr>sc_sys := os_free (sc_sys c) s\<rparr>) }"

section \<open>The entry points\<close>

definition slab_get :: "os \<Rightarrow> slab_cache \<Rightarrow> nat \<Rightarrow> (addr \<times> slab_cache) option" where
  "slab_get os c sz = do {
     let order = slab_order c ((sz + slab_sizeof) mod 2 ^ 64);
     (s, c) \<leftarrow> (if order = order_max c + 1 then slab_get_large os c sz
                else slab_get_with_order os c order);
     if s = NULL then Some (s, c)
     else do {
       real \<leftarrow> slab_real_size c sz;
       c_assert (sl_size (hdr c s) = real);
       Some (s, c) } }"

definition slab_put :: "slab_cache \<Rightarrow> addr \<Rightarrow> slab_cache option" where
  "slab_put c s =
     (if sl_order (hdr c s) \<le> order_max c then slab_put_with_order c s else slab_put_large c s)"

definition slab_cache_used :: "slab_cache \<Rightarrow> int" where
  "slab_cache_used c = st_used (allocated c)"

section \<open>The self check\<close>

text \<open>
  \<open>slab_cache_check\<close> aborts when a counter disagrees with the lists. The order it passes to
  \<open>slab_order_size\<close> is a slab size cut to eight bits, as in the code.
\<close>

fun check_allocated :: "slab_cache \<Rightarrow> addr list \<Rightarrow> (nat \<times> nat \<times> nat \<times> bool) \<Rightarrow> (nat \<times> nat \<times> nat \<times> bool) option" where
  "check_allocated c [] acc = Some acc"
| "check_allocated c (s # rest) (tot, used, huge, ok) =
     (let ok = (ok \<and> sl_magic (hdr c s) = slab_magic) in
      if sl_order (hdr c s) = order_max c + 1 then
        check_allocated c rest (tot + sl_size (hdr c s), used + sl_size (hdr c s), huge + sl_size (hdr c s), ok)
      else do {
        sz \<leftarrow> slab_order_size c (sl_order (hdr c s));
        top \<leftarrow> slab_order_size c (order_max c);
        check_allocated c rest (tot + top, used, huge, ok \<and> sl_size (hdr c s) = sz) })"

fun check_orders :: "slab_cache \<Rightarrow> nat list \<Rightarrow> (int \<times> int \<times> bool) \<Rightarrow> (int \<times> int \<times> bool) option" where
  "check_orders c [] acc = Some acc"
| "check_orders c (i # rest) (ordered, used, ok) = do {
     isz \<leftarrow> slab_order_size c i;
     let order = isz mod 256;
     sz \<leftarrow> slab_order_size c order;
     let l = orders c ! i;
     check_orders c rest (ordered + st_total l, used + st_used l,
       ok \<and> st_total l mod int sz = 0 \<and> st_used l mod int sz = 0) }"

definition slab_cache_check :: "slab_cache \<Rightarrow> unit option" where
  "slab_cache_check c = do {
     (tot, used, huge, ok) \<leftarrow> check_allocated c (sl_slabs (allocated c)) (0, 0, 0, True);
     let ok = (ok \<and> int tot = st_total (allocated c));
     (ordered, used, ok) \<leftarrow> check_orders c [0..<Suc (order_max c)] (0, int used, ok);
     let ok = (ok \<and> ordered + int huge = int tot \<and> used = st_used (allocated c));
     c_assert ok }"

end
