(* ===== verification/Slab_Cache_Inv.thy ===== *)
theory Slab_Cache_Inv
  imports Slab_Cache
begin

text \<open>
  The invariant of the slab cache and the proof that every operation keeps it. The ghost
  state is the set \<open>R\<close> of slabs taken from the arena, the set \<open>L\<close> of large slabs, the set \<open>U\<close> of
  ordered slabs in use (address and order), and \<open>H\<close>, empty or the one slab an operation has
  taken from the lists and not yet disposed of. The proofs go by layer: the free lists with
  their counters (\<open>lists_inv\<close>), the headers (\<open>hdrs_inv\<close>), the list of all slabs (\<open>alloc_inv\<close>), the
  large slabs (\<open>huge_inv\<close>).
\<close>

section \<open>The free lists\<close>

definition free_blocks :: "nat \<Rightarrow> slab_list list \<Rightarrow> block set" where
  "free_blocks mx ol = {(a, k). k \<le> mx \<and> a \<in> set (sl_slabs (ol ! k))}"

definition cnt :: "block set \<Rightarrow> nat \<Rightarrow> nat" where
  "cnt U k = card {a. (a, k) \<in> U}"

definition lists_inv :: "nat \<Rightarrow> nat \<Rightarrow> slab_list list \<Rightarrow> addr set \<Rightarrow> block set \<Rightarrow> block set \<Rightarrow> bool" where
  "lists_inv lb mx ol R U H \<longleftrightarrow> mx < length ol \<and>
     tiling lb mx R (free_blocks mx ol \<union> U \<union> H) \<and>
     free_blocks mx ol \<inter> (U \<union> H) = {} \<and> U \<inter> H = {} \<and>
     (\<forall>k \<le> mx. distinct (sl_slabs (ol ! k))) \<and>
     (\<forall>k < mx. \<forall>a \<in> set (sl_slabs (ol ! k)). a XOR bsz lb k \<notin> set (sl_slabs (ol ! k))) \<and>
     length (sl_slabs (ol ! mx)) \<le> 1 \<and>
     (\<forall>k \<le> mx. st_total (ol ! k) = int (bsz lb k * (length (sl_slabs (ol ! k)) + cnt U k)) \<and>
        st_used (ol ! k) = int (bsz lb k * cnt U k))"

lemma bsz_neq_0 [simp]: "bsz lb k \<noteq> 0"
  by (simp add: bsz_def)

lemma free_blocks_upd:
  assumes "k \<le> mx" and "mx < length ol"
  shows "free_blocks mx (ol[k := l]) = {p \<in> free_blocks mx ol. snd p \<noteq> k} \<union> (\<lambda>a. (a, k)) ` set (sl_slabs l)"
  using assms by (auto simp: free_blocks_def nth_list_update split: if_splits)

lemma free_blocks_same:
  assumes "k \<le> mx" and "mx < length ol" and "set (sl_slabs l) = set (sl_slabs (ol ! k))"
  shows "free_blocks mx (ol[k := l]) = free_blocks mx ol"
  using assms by (auto simp: free_blocks_def nth_list_update split: if_splits)

lemma free_blocks_insert:
  assumes "k \<le> mx" and "mx < length ol" and "set (sl_slabs l) = insert a (set (sl_slabs (ol ! k)))"
  shows "free_blocks mx (ol[k := l]) = insert (a, k) (free_blocks mx ol)"
  using assms by (auto simp: free_blocks_def nth_list_update split: if_splits)

lemma free_blocks_remove:
  assumes "k \<le> mx" and "mx < length ol" and "set (sl_slabs l) = set (sl_slabs (ol ! k)) - {a}"
  shows "free_blocks mx (ol[k := l]) = free_blocks mx ol - {(a, k)}"
  using assms by (auto simp: free_blocks_def nth_list_update split: if_splits)

lemma cnt_insert:
  assumes "finite U" and "(a, k) \<notin> U"
  shows "cnt (insert (a, k) U) j = cnt U j + (if j = k then 1 else 0)"
proof -
  have f: "finite {b. (b, j) \<in> U}"
    using finite_imageI [OF assms(1), of fst] by (rule rev_finite_subset) force
  have "{b. (b, j) \<in> insert (a, k) U} = (if j = k then insert a {b. (b, j) \<in> U} else {b. (b, j) \<in> U})"
    by auto
  then show ?thesis using f assms(2) by (cases "j = k") (simp_all add: cnt_def)
qed

lemma cnt_remove:
  assumes "finite U" and "(a, k) \<in> U"
  shows "cnt U j = cnt (U - {(a, k)}) j + (if j = k then 1 else 0)"
  using cnt_insert [of "U - {(a, k)}" a k j] assms by (simp add: insert_absorb)

lemma lists_finite: "lists_inv lb mx ol R U H \<Longrightarrow> finite U"
  by (simp add: lists_inv_def tiling_def)

lemma lists_take:
  assumes i: "lists_inv lb mx ol R U {}" and j: "j \<le> mx" and x: "sl_slabs (ol ! j) = x # rest"
  shows "lists_inv lb mx (ol[j := (ol ! j)\<lparr>sl_slabs := rest, st_total := st_total (ol ! j) - int (bsz lb j)\<rparr>]) R U {(x, j)}"
    (is "lists_inv lb mx (ol[j := ?l]) R U {(x, j)}")
proof -
  have len: "mx < length ol" using i by (simp add: lists_inv_def)
  have d: "distinct (x # rest)" using i j x by (auto simp: lists_inv_def)
  have xf: "(x, j) \<in> free_blocks mx ol" using j x by (simp add: free_blocks_def)
  have F: "free_blocks mx (ol[j := ?l]) = free_blocks mx ol - {(x, j)}"
    using d by (intro free_blocks_remove [OF j len]) (auto simp: x)
  have T: "free_blocks mx (ol[j := ?l]) \<union> U \<union> {(x, j)} = free_blocks mx ol \<union> U \<union> {}" using xf F by auto
  have sub: "set (sl_slabs (ol[j := ?l] ! k)) \<subseteq> set (sl_slabs (ol ! k))" if "k \<le> mx" for k
    using that len x by (cases "k = j") auto
  have nb: "a XOR bsz lb k \<notin> set (sl_slabs (ol[j := ?l] ! k))"
    if "k < mx" "a \<in> set (sl_slabs (ol[j := ?l] ! k))" for a k
  proof -
    have "a \<in> set (sl_slabs (ol ! k))" using sub [of k] that by auto
    then have "a XOR bsz lb k \<notin> set (sl_slabs (ol ! k))" using i that(1) by (simp add: lists_inv_def)
    then show ?thesis using sub [of k] that(1) by auto
  qed
  have st: "\<forall>k \<le> mx. st_total (ol[j := ?l] ! k) = int (bsz lb k * (length (sl_slabs (ol[j := ?l] ! k)) + cnt U k)) \<and>
        st_used (ol[j := ?l] ! k) = int (bsz lb k * cnt U k)"
    using i len j x by (auto simp: lists_inv_def nth_list_update algebra_simps)
  have ds: "\<forall>k \<le> mx. distinct (sl_slabs (ol[j := ?l] ! k))" "length (sl_slabs (ol[j := ?l] ! mx)) \<le> 1"
    using i len j d x by (auto simp: lists_inv_def nth_list_update)
  have dj: "free_blocks mx (ol[j := ?l]) \<inter> (U \<union> {(x, j)}) = {}" "U \<inter> {(x, j)} = {}"
    unfolding F using i xf by (auto simp: lists_inv_def)
  have t: "tiling lb mx R (free_blocks mx ol \<union> U \<union> {})" using i by (simp add: lists_inv_def)
  show ?thesis unfolding lists_inv_def T using t len dj ds nb st by simp
qed

lemma lists_split:
  assumes i: "lists_inv lb mx ol R U {(x, Suc k)}"
  shows "lists_inv lb mx (ol[k := slab_list_add (ol ! k) (x XOR bsz lb k) (bsz lb k)]) R U {(x, k)}"
    (is "lists_inv lb mx (ol[k := ?l]) R U {(x, k)}")
proof -
  let ?B = "free_blocks mx ol \<union> U \<union> {(x, Suc k)}"
  have t: "tiling lb mx R ?B" and len: "mx < length ol" using i by (simp_all add: lists_inv_def)
  have xb: "(x, Suc k) \<in> ?B" by simp
  note al = tiling_block [OF t xb]
  have k: "k < mx" "k \<le> mx" using al(1) by simp_all
  have b: "x XOR bsz lb k = x + bsz lb k" using al(2) by (rule buddy_upper)
  note sp = tiling_split [OF t xb]
  let ?b = "(x + bsz lb k, k)"
  have F: "free_blocks mx (ol[k := ?l]) = insert ?b (free_blocks mx ol)"
    by (intro free_blocks_insert [OF k(2) len]) (simp add: slab_list_add_def b)
  have nf: "(x, Suc k) \<notin> free_blocks mx ol \<union> U" using i by (auto simp: lists_inv_def)
  have T: "free_blocks mx (ol[k := ?l]) \<union> U \<union> {(x, k)} = ?B - {(x, Suc k)} \<union> {(x, k), ?b}"
    unfolding F using nf by auto
  have bl: "x + bsz lb k \<notin> set (sl_slabs (ol ! k))" using sp(3) k by (auto simp: free_blocks_def)
  have xl: "x \<notin> set (sl_slabs (ol ! k))" using sp(2) k by (auto simp: free_blocks_def)
  have nb: "a XOR bsz lb j \<notin> set (sl_slabs (ol[k := ?l] ! j))"
    if "j < mx" "a \<in> set (sl_slabs (ol[k := ?l] ! j))" for a j
  proof (cases "j = k")
    case True
    have bx: "(x + bsz lb k) XOR bsz lb k = x" using b [symmetric] by (simp add: bsz_def xor_power_twice)
    have inv: "a XOR bsz lb k \<noteq> x + bsz lb k" if "a \<in> set (sl_slabs (ol ! k))"
    proof
      assume "a XOR bsz lb k = x + bsz lb k"
      then have "a = x" using bx xor_power_twice [of a "k + lb"] by (simp add: bsz_def)
      with xl that show False by simp
    qed
    have "a XOR bsz lb k \<notin> set (sl_slabs (ol ! k))" if "a \<in> set (sl_slabs (ol ! k))"
      using i k that by (simp add: lists_inv_def)
    then show ?thesis using that True inv len k xl bx
      by (auto simp: slab_list_add_def b)
  qed (use i that in \<open>simp add: lists_inv_def\<close>)
  have dj: "free_blocks mx (ol[k := ?l]) \<inter> (U \<union> {(x, k)}) = {}" "U \<inter> {(x, k)} = {}"
    unfolding F using i sp(2,3) by (auto simp: lists_inv_def)
  have st: "\<forall>j \<le> mx. st_total (ol[k := ?l] ! j) = int (bsz lb j * (length (sl_slabs (ol[k := ?l] ! j)) + cnt U j)) \<and>
        st_used (ol[k := ?l] ! j) = int (bsz lb j * cnt U j)"
    using i len k by (auto simp: lists_inv_def nth_list_update slab_list_add_def algebra_simps)
  have ds: "\<forall>j \<le> mx. distinct (sl_slabs (ol[k := ?l] ! j))" "length (sl_slabs (ol[k := ?l] ! mx)) \<le> 1"
    using i len k bl by (auto simp: lists_inv_def nth_list_update slab_list_add_def b)
  show ?thesis
    unfolding lists_inv_def T using sp(1) dj [unfolded F] F len st ds nb by simp
qed

lemma lists_use:
  assumes i: "lists_inv lb mx ol R U {(x, k)}"
  shows "lists_inv lb mx (ol[k := add_used (int (bsz lb k)) (add_total (int (bsz lb k)) (ol ! k))]) R (insert (x, k) U) {}"
    (is "lists_inv lb mx (ol[k := ?l]) R _ {}")
proof -
  let ?B = "free_blocks mx ol \<union> U \<union> {(x, k)}"
  have t: "tiling lb mx R ?B" and len: "mx < length ol" using i by (simp_all add: lists_inv_def)
  have k: "k \<le> mx" using tiling_block(1) [OF t, of x k] by simp
  have F: "free_blocks mx (ol[k := ?l]) = free_blocks mx ol"
    by (intro free_blocks_same [OF k len]) (simp add: add_used_def add_total_def)
  have T: "free_blocks mx (ol[k := ?l]) \<union> insert (x, k) U \<union> {} = ?B" unfolding F by auto
  have n: "(x, k) \<notin> U" using i by (auto simp: lists_inv_def)
  have sl: "sl_slabs (ol[k := ?l] ! j) = sl_slabs (ol ! j)" if "j \<le> mx" for j
    using that len by (cases "j = k") (simp_all add: add_used_def add_total_def)
  have st: "\<forall>j \<le> mx. st_total (ol[k := ?l] ! j) = int (bsz lb j * (length (sl_slabs (ol ! j)) + cnt (insert (x, k) U) j)) \<and>
        st_used (ol[k := ?l] ! j) = int (bsz lb j * cnt (insert (x, k) U) j)"
    using i len k
    by (auto simp: lists_inv_def nth_list_update add_used_def add_total_def cnt_insert [OF lists_finite [OF i] n] algebra_simps)
  show ?thesis
    unfolding lists_inv_def T F using i st sl len by (auto simp: lists_inv_def)
qed

lemma lists_free:
  assumes i: "lists_inv lb mx ol R U {}" and x: "(x, k) \<in> U"
  shows "lists_inv lb mx (ol[k := add_total (- int (bsz lb k)) (add_used (- int (bsz lb k)) (ol ! k))]) R (U - {(x, k)}) {(x, k)}"
    (is "lists_inv lb mx (ol[k := ?l]) R _ _")
proof -
  have t: "tiling lb mx R (free_blocks mx ol \<union> U \<union> {})" and len: "mx < length ol" using i by (simp_all add: lists_inv_def)
  have k: "k \<le> mx" using tiling_block(1) [OF t, of x k] x by simp
  have F: "free_blocks mx (ol[k := ?l]) = free_blocks mx ol"
    by (intro free_blocks_same [OF k len]) (simp add: add_used_def add_total_def)
  have T: "free_blocks mx (ol[k := ?l]) \<union> (U - {(x, k)}) \<union> {(x, k)} = free_blocks mx ol \<union> U \<union> {}" unfolding F using x by auto
  have sl: "sl_slabs (ol[k := ?l] ! j) = sl_slabs (ol ! j)" if "j \<le> mx" for j
    using that len by (cases "j = k") (simp_all add: add_used_def add_total_def)
  have st: "\<forall>j \<le> mx. st_total (ol[k := ?l] ! j) = int (bsz lb j * (length (sl_slabs (ol ! j)) + cnt (U - {(x, k)}) j)) \<and>
        st_used (ol[k := ?l] ! j) = int (bsz lb j * cnt (U - {(x, k)}) j)"
    using i len k cnt_remove [OF lists_finite [OF i] x]
    by (auto simp: lists_inv_def nth_list_update add_used_def add_total_def algebra_simps)
  have dj: "free_blocks mx ol \<inter> (U - {(x, k)} \<union> {(x, k)}) = {}" using i x by (auto simp: lists_inv_def)
  show ?thesis
    unfolding lists_inv_def T using t i st sl len dj F by (simp add: lists_inv_def)
qed

lemma lists_merge:
  assumes i: "lists_inv lb mx ol R U {(x, k)}" and k: "k < mx"
    and b: "b = x XOR bsz lb k" "b \<in> set (sl_slabs (ol ! k))"
  shows "lists_inv lb mx (ol[k := slab_list_del (ol ! k) b (bsz lb k)]) R U {(min x b, Suc k)}"
    (is "lists_inv lb mx (ol[k := ?l]) R U {(?m, _)}")
proof -
  let ?B = "free_blocks mx ol \<union> U \<union> {(x, k)}"
  have t: "tiling lb mx R ?B" and len: "mx < length ol" using i by (simp_all add: lists_inv_def)
  have k': "k \<le> mx" using k by simp
  have al: "bsz lb k dvd x" using tiling_block(2) [OF t, of x k] by simp
  have bf: "(b, k) \<in> free_blocks mx ol" using b(2) k' by (simp add: free_blocks_def)
  have par: "bsz lb (Suc k) dvd ?m" "{x, b} = {?m, ?m + bsz lb k}"
    using buddy_parent [OF al] by (simp_all add: b(1))
  have sub: "(?m, k) \<in> ?B" "(?m + bsz lb k, k) \<in> ?B" "{(?m, k), (?m + bsz lb k, k)} = {(x, k), (b, k)}"
    using par(2) bf by (auto simp: doubleton_eq_iff)
  note mg = tiling_merge [OF t sub(1,2) par(1) k, unfolded sub(3)]
  have d: "distinct (sl_slabs (ol ! k))" using i k' by (simp add: lists_inv_def)
  have F: "free_blocks mx (ol[k := ?l]) = free_blocks mx ol - {(b, k)}"
    using d by (intro free_blocks_remove [OF k' len]) (simp add: slab_list_del_def)
  have nf: "(x, k) \<notin> free_blocks mx ol \<union> U" "(b, k) \<notin> U" using i bf by (auto simp: lists_inv_def)
  have T: "free_blocks mx (ol[k := ?l]) \<union> U \<union> {(?m, Suc k)} = ?B - {(x, k), (b, k)} \<union> {(?m, Suc k)}"
    unfolding F using nf by auto
  have sub: "set (sl_slabs (ol[k := ?l] ! j)) \<subseteq> set (sl_slabs (ol ! j))" if "j \<le> mx" for j
    using that len by (cases "j = k") (simp_all add: slab_list_del_def set_remove1_subset)
  have nb: "a XOR bsz lb j \<notin> set (sl_slabs (ol[k := ?l] ! j))"
    if "j < mx" "a \<in> set (sl_slabs (ol[k := ?l] ! j))" for a j
  proof -
    have "a \<in> set (sl_slabs (ol ! j))" using sub [of j] that by auto
    then have "a XOR bsz lb j \<notin> set (sl_slabs (ol ! j))" using i that(1) by (simp add: lists_inv_def)
    then show ?thesis using sub [of j] that(1) by auto
  qed
  have lr: "int (length (sl_slabs (ol ! k))) = 1 + int (length (remove1 b (sl_slabs (ol ! k))))"
    using b(2) length_pos_if_in_set [OF b(2)] by (simp add: length_remove1 of_nat_diff Suc_leI del: length_greater_0_conv)
  have st: "\<forall>j \<le> mx. st_total (ol[k := ?l] ! j) = int (bsz lb j * (length (sl_slabs (ol[k := ?l] ! j)) + cnt U j)) \<and>
        st_used (ol[k := ?l] ! j) = int (bsz lb j * cnt U j)"
    using i len k lr by (auto simp: lists_inv_def nth_list_update slab_list_del_def algebra_simps)
  have ds: "\<forall>j \<le> mx. distinct (sl_slabs (ol[k := ?l] ! j))" "length (sl_slabs (ol[k := ?l] ! mx)) \<le> 1"
    using i len k d by (auto simp: lists_inv_def nth_list_update slab_list_del_def)
  have dj: "free_blocks mx (ol[k := ?l]) \<inter> (U \<union> {(?m, Suc k)}) = {}" "U \<inter> {(?m, Suc k)} = {}"
    unfolding F using i mg(2) by (auto simp: lists_inv_def)
  show ?thesis unfolding lists_inv_def T using mg(1) len dj ds nb st by simp
qed

lemma lists_put:
  assumes i: "lists_inv lb mx ol R U {(x, k)}" and mx: "k = mx \<Longrightarrow> sl_slabs (ol ! k) = []"
    and b: "k < mx \<Longrightarrow> x XOR bsz lb k \<notin> set (sl_slabs (ol ! k))"
  shows "lists_inv lb mx (ol[k := slab_list_add (ol ! k) x (bsz lb k)]) R U {}"
    (is "lists_inv lb mx (ol[k := ?l]) R U {}")
proof -
  let ?B = "free_blocks mx ol \<union> U \<union> {(x, k)}"
  have t: "tiling lb mx R ?B" and len: "mx < length ol" using i by (simp_all add: lists_inv_def)
  have k: "k \<le> mx" using tiling_block(1) [OF t, of x k] by simp
  have nf: "(x, k) \<notin> free_blocks mx ol" "(x, k) \<notin> U" using i by (auto simp: lists_inv_def)
  have xl: "x \<notin> set (sl_slabs (ol ! k))" using nf(1) k by (simp add: free_blocks_def)
  have F: "free_blocks mx (ol[k := ?l]) = insert (x, k) (free_blocks mx ol)"
    by (intro free_blocks_insert [OF k len]) (simp add: slab_list_add_def)
  have T: "free_blocks mx (ol[k := ?l]) \<union> U \<union> {} = ?B" unfolding F by auto
  have nb: "a XOR bsz lb j \<notin> set (sl_slabs (ol[k := ?l] ! j))"
    if "j < mx" "a \<in> set (sl_slabs (ol[k := ?l] ! j))" for a j
  proof (cases "j = k")
    case True
    have "a XOR bsz lb k \<noteq> x" if "a \<in> set (sl_slabs (ol ! k))"
    proof
      assume "a XOR bsz lb k = x"
      then have "x XOR bsz lb k = a" using xor_power_twice [of a "k + lb"] by (simp add: bsz_def)
      with b that True \<open>j < mx\<close> show False by simp
    qed
    moreover have "a XOR bsz lb k \<notin> set (sl_slabs (ol ! k))" if "a \<in> set (sl_slabs (ol ! k))"
      using i that True \<open>j < mx\<close> by (simp add: lists_inv_def)
    ultimately show ?thesis using that True len b buddy_neq [of a lb k]
      by (auto simp: slab_list_add_def)
  qed (use i that in \<open>simp add: lists_inv_def\<close>)
  have st: "\<forall>j \<le> mx. st_total (ol[k := ?l] ! j) = int (bsz lb j * (length (sl_slabs (ol[k := ?l] ! j)) + cnt U j)) \<and>
        st_used (ol[k := ?l] ! j) = int (bsz lb j * cnt U j)"
    using i len k by (auto simp: lists_inv_def nth_list_update slab_list_add_def algebra_simps)
  have ds: "\<forall>j \<le> mx. distinct (sl_slabs (ol[k := ?l] ! j))" "length (sl_slabs (ol[k := ?l] ! mx)) \<le> 1"
    using i len k xl mx by (auto simp: lists_inv_def nth_list_update slab_list_add_def)
  have dj: "free_blocks mx (ol[k := ?l]) \<inter> (U \<union> {}) = {}" unfolding F using i nf by (auto simp: lists_inv_def)
  show ?thesis unfolding lists_inv_def T using t len dj ds nb st by simp
qed

lemma lists_add_root:
  assumes i: "lists_inv lb mx ol R U {}" and r: "r \<notin> R" "bsz lb mx dvd r" and e: "sl_slabs (ol ! mx) = []"
  shows "lists_inv lb mx (ol[mx := slab_list_add (ol ! mx) r (bsz lb mx)]) (insert r R) U {}"
proof -
  let ?B = "free_blocks mx ol \<union> U \<union> {}"
  have t: "tiling lb mx R ?B" using i by (simp add: lists_inv_def)
  note ad = tiling_add_root [OF t r]
  have "insert (r, mx) ?B = free_blocks mx ol \<union> U \<union> {(r, mx)}" by auto
  with ad i have "lists_inv lb mx ol (insert r R) U {(r, mx)}" by (simp add: lists_inv_def)
  then show ?thesis by (rule lists_put) (simp_all add: e)
qed

lemma lists_del_root:
  assumes i: "lists_inv lb mx ol R U {(r, mx)}"
  shows "lists_inv lb mx ol (R - {r}) U {}" and "r \<in> R"
proof -
  let ?B = "free_blocks mx ol \<union> U \<union> {(r, mx)}"
  have t: "tiling lb mx R ?B" using i by (simp add: lists_inv_def)
  note de = tiling_del_root [OF t, of r]
  show "r \<in> R" using de(1) by simp
  have "?B - {(r, mx)} = free_blocks mx ol \<union> U \<union> {}" using i by (auto simp: lists_inv_def)
  with de i show "lists_inv lb mx ol (R - {r}) U {}" by (simp add: lists_inv_def)
qed

section \<open>The whole cache\<close>

definition slab_hdr :: "nat \<Rightarrow> nat \<Rightarrow> nat \<Rightarrow> slab" where
  "slab_hdr lb k u = \<lparr>sl_size = bsz lb k, sl_magic = slab_magic, sl_order = k, sl_in_use = u\<rparr>"

definition hdrs_inv :: "nat \<Rightarrow> (addr \<Rightarrow> slab) \<Rightarrow> block set \<Rightarrow> block set \<Rightarrow> bool" where
  "hdrs_inv lb h F U \<longleftrightarrow> (\<forall>(a, k) \<in> F. h a = slab_hdr lb k 0) \<and> (\<forall>(a, k) \<in> U. h a = slab_hdr lb k (Suc k))"

definition huge_size :: "(addr \<times> nat) set \<Rightarrow> nat" where
  "huge_size L = (\<Sum>p \<in> L. snd p)"

definition huge_units :: "(addr \<times> nat) set \<Rightarrow> nat" where
  "huge_units L = (\<Sum>p \<in> L. q_units (snd p))"

definition huge_hdr :: "slab_cache \<Rightarrow> nat \<Rightarrow> slab" where
  "huge_hdr c n = \<lparr>sl_size = n, sl_magic = slab_magic, sl_order = order_max c + 1, sl_in_use = 0\<rparr>"

definition huge_inv :: "slab_cache \<Rightarrow> (addr \<times> nat) set \<Rightarrow> bool" where
  "huge_inv c L \<longleftrightarrow> finite L \<and>
     (\<forall>(a, n) \<in> L. a \<noteq> NULL \<and> hdr c a = huge_hdr c n \<and> slab_sizeof \<le> n \<and>
        n < 1024 * (2 ^ 32 - 1) \<and> a + n \<le> 2 ^ 63 \<and> (a, n) \<in> set (heap (sc_sys c))) \<and>
     (\<forall>(a, n) \<in> L. \<forall>(b, m) \<in> L. (a, n) \<noteq> (b, m) \<longrightarrow> span a n \<inter> span b m = {})"

definition alloc_inv :: "slab_cache \<Rightarrow> addr set \<Rightarrow> (addr \<times> nat) set \<Rightarrow> bool" where
  "alloc_inv c R L \<longleftrightarrow> distinct (sl_slabs (allocated c)) \<and>
     set (sl_slabs (allocated c)) = R \<union> fst ` L \<and> R \<inter> fst ` L = {} \<and>
     st_total (allocated c) = int (card R * ar_slab_size (sc_arena c) + huge_size L) \<and>
     st_used (allocated c) = (\<Sum>k \<le> order_max c. st_used (orders c ! k)) + int (huge_size L)"

definition cache_config :: "slab_cache \<Rightarrow> bool" where
  "cache_config c \<longleftrightarrow> order0_size c = 2 ^ order0_size_lb c \<and> 6 \<le> order0_size_lb c \<and> order_max c < ORDER_MAX \<and>
     ar_slab_size (sc_arena c) = bsz (order0_size_lb c) (order_max c)"

definition cinv :: "slab_cache \<Rightarrow> addr set \<Rightarrow> (addr \<times> nat) set \<Rightarrow> block set \<Rightarrow> block set \<Rightarrow> bool" where
  "cinv c R L U H \<longleftrightarrow> cache_config c \<and>
     lists_inv (order0_size_lb c) (order_max c) (orders c) R U H \<and>
     hdrs_inv (order0_size_lb c) (hdr c) (free_blocks (order_max c) (orders c) \<union> H) U \<and>
     alloc_inv c R L \<and> huge_inv c L \<and>
     arena_inv (sc_arena c) (sc_sys c) R (huge_units L)"

lemma slab_hdr_simps [simp]:
  "sl_size (slab_hdr lb k u) = bsz lb k" "sl_magic (slab_hdr lb k u) = slab_magic"
  "sl_order (slab_hdr lb k u) = k" "sl_in_use (slab_hdr lb k u) = u"
  by (simp_all add: slab_hdr_def)

lemma slab_hdr_upd:
  "(slab_hdr lb k u)\<lparr>sl_in_use := v\<rparr> = slab_hdr lb k v"
  "(slab_hdr lb k u)\<lparr>sl_order := Suc k, sl_size := bsz lb (Suc k)\<rparr> = slab_hdr lb (Suc k) u"
  by (simp_all add: slab_hdr_def)

lemma order_size: "k \<le> order_max c \<Longrightarrow> slab_order_size c k = Some (bsz (order0_size_lb c) k)"
  by (simp add: slab_order_size_def bsz_def)

text \<open>No block of the tiling starts where a large slab does.\<close>

lemma cinv_blocks:
  assumes "cinv c R L U H"
  shows "tiling (order0_size_lb c) (order_max c) R (free_blocks (order_max c) (orders c) \<union> U \<union> H)"
    and "(a, k) \<in> free_blocks (order_max c) (orders c) \<union> H \<Longrightarrow> hdr c a = slab_hdr (order0_size_lb c) k 0"
    and "(a, k) \<in> U \<Longrightarrow> hdr c a = slab_hdr (order0_size_lb c) k (Suc k)"
  using assms unfolding cinv_def lists_inv_def hdrs_inv_def by blast+

lemma cinv_block_mapped:
  assumes i: "cinv c R L U H" and p: "(a, k) \<in> free_blocks (order_max c) (orders c) \<union> U \<union> H"
  shows "span a (bsz (order0_size_lb c) k) \<subseteq> covered (mapped (sc_sys c))" and "a \<noteq> NULL"
proof -
  obtain r where r: "r \<in> R" "span a (bsz (order0_size_lb c) k) \<subseteq> span r (bsz (order0_size_lb c) (order_max c))"
    by (rule tiling_root [OF cinv_blocks(1) [OF i] p])
  have "slab_placed (sc_arena c) (sc_sys c) r" "ar_slab_size (sc_arena c) = bsz (order0_size_lb c) (order_max c)"
    using i r(1) by (simp_all add: cinv_def arena_inv_def arena_slabs_def cache_config_def)
  then have pl: "r \<noteq> NULL" "span r (bsz (order0_size_lb c) (order_max c)) \<subseteq> covered (mapped (sc_sys c))"
    by (simp_all add: slab_placed_def)
  then show "span a (bsz (order0_size_lb c) k) \<subseteq> covered (mapped (sc_sys c))" using r(2) by blast
  have "r \<le> a" by (rule span_subset_bounds [OF r(2)]) simp
  then show "a \<noteq> NULL" using pl(1) by simp
qed

lemma cinv_huge:
  assumes i: "cinv c R L U H" and a: "(a, n) \<in> L"
  shows "span a n \<subseteq> covered (heap (sc_sys c))" and "hdr c a = huge_hdr c n" and "0 < n" and "a \<noteq> NULL"
    and "slab_sizeof \<le> n" and "n < 1024 * (2 ^ 32 - 1)" and "a + n \<le> 2 ^ 63"
proof -
  have h: "a \<noteq> NULL \<and> hdr c a = huge_hdr c n \<and> slab_sizeof \<le> n \<and>
        n < 1024 * (2 ^ 32 - 1) \<and> a + n \<le> 2 ^ 63 \<and> (a, n) \<in> set (heap (sc_sys c))"
    using i a unfolding cinv_def huge_inv_def by blast
  then show "hdr c a = huge_hdr c n" "0 < n" "a \<noteq> NULL" "slab_sizeof \<le> n" "n < 1024 * (2 ^ 32 - 1)" "a + n \<le> 2 ^ 63"
    by (simp_all add: slab_sizeof_def align_up_def)
  show "span a n \<subseteq> covered (heap (sc_sys c))" using h by (intro in_covered) blast
qed

lemma cinv_block_huge:
  assumes i: "cinv c R L U H" and p: "(a, k) \<in> free_blocks (order_max c) (orders c) \<union> U \<union> H" and h: "(b, n) \<in> L"
  shows "span a (bsz (order0_size_lb c) k) \<inter> span b n = {}" and "a \<noteq> b"
proof -
  have "covered (mapped (sc_sys c)) \<inter> covered (heap (sc_sys c)) = {}"
    using i covered_taken [of "heap (sc_sys c)"] by (auto simp: cinv_def arena_inv_def)
  then show d: "span a (bsz (order0_size_lb c) k) \<inter> span b n = {}"
    using cinv_block_mapped(1) [OF i p] cinv_huge(1) [OF i h] by blast
  show "a \<noteq> b" using d cinv_huge(3) [OF i h] by (auto simp: span_disjoint_iff)
qed

section \<open>Steps of the operations\<close>

definition same_env :: "slab_cache \<Rightarrow> slab_cache \<Rightarrow> bool" where
  "same_env c c' \<longleftrightarrow> sc_arena c' = sc_arena c \<and> sc_sys c' = sc_sys c \<and> order0_size c' = order0_size c \<and>
     order0_size_lb c' = order0_size_lb c \<and> order_max c' = order_max c \<and>
     sl_slabs (allocated c') = sl_slabs (allocated c) \<and> st_total (allocated c') = st_total (allocated c)"

lemma cinv_step:
  assumes i: "cinv c R L U H" and e: "same_env c c'"
    and l: "lists_inv (order0_size_lb c) (order_max c) (orders c') R U' H'"
    and h: "hdrs_inv (order0_size_lb c) (hdr c') (free_blocks (order_max c) (orders c') \<union> H') U'"
    and hl: "\<forall>a \<in> fst ` L. hdr c' a = hdr c a"
    and u: "st_used (allocated c') = st_used (allocated c) +
      ((\<Sum>k \<le> order_max c. st_used (orders c' ! k)) - (\<Sum>k \<le> order_max c. st_used (orders c ! k)))"
  shows "cinv c' R L U' H'"
proof -
  have f: "sc_arena c' = sc_arena c" "sc_sys c' = sc_sys c" "order0_size c' = order0_size c"
     "order0_size_lb c' = order0_size_lb c" "order_max c' = order_max c"
     "sl_slabs (allocated c') = sl_slabs (allocated c)" "st_total (allocated c') = st_total (allocated c)"
    using e by (simp_all add: same_env_def)
  have "alloc_inv c' R L" using i u by (simp add: cinv_def alloc_inv_def f)
  moreover have "huge_inv c' L"
  proof -
    have "huge_inv c L" using i by (simp add: cinv_def)
    moreover have "hdr c' a = hdr c a" if "(a, n) \<in> L" for a n using hl that by force
    ultimately show ?thesis unfolding huge_inv_def huge_hdr_def f by auto
  qed
  moreover have "cache_config c'" using i by (simp add: cinv_def cache_config_def f)
  moreover have "arena_inv (sc_arena c') (sc_sys c') R (huge_units L)" using i by (simp add: cinv_def f)
  ultimately show ?thesis using l h unfolding cinv_def f by simp
qed

lemma hdrs_change:
  assumes "hdrs_inv lb h F U" and "F' \<subseteq> F \<union> N" and "U' \<subseteq> U \<union> N'"
    and "\<And>a k. (a, k) \<in> F \<Longrightarrow> (a, k) \<in> F' - N \<Longrightarrow> h' a = h a"
    and "\<And>a k. (a, k) \<in> U \<Longrightarrow> (a, k) \<in> U' - N' \<Longrightarrow> h' a = h a"
    and "\<And>a k. (a, k) \<in> N \<Longrightarrow> h' a = slab_hdr lb k 0"
    and "\<And>a k. (a, k) \<in> N' \<Longrightarrow> h' a = slab_hdr lb k (Suc k)"
  shows "hdrs_inv lb h' F' U'"
  unfolding hdrs_inv_def
proof (intro conjI ballI, safe)
  fix a k assume "(a, k) \<in> F'"
  then show "h' a = slab_hdr lb k 0"
    using assms(1,2,4,6) unfolding hdrs_inv_def by (cases "(a, k) \<in> N") force+
next
  fix a k assume "(a, k) \<in> U'"
  then show "h' a = slab_hdr lb k (Suc k)"
    using assms(1,3,5,7) unfolding hdrs_inv_def by (cases "(a, k) \<in> N'") force+
qed

lemma sum_used_upd:
  assumes "k \<le> mx" and "mx < length ol"
  shows "(\<Sum>j \<le> mx. st_used (ol[k := l] ! j)) = (\<Sum>j \<le> mx. st_used (ol ! j)) + (st_used l - st_used (ol ! k))"
proof -
  have "(\<Sum>j \<le> mx. st_used (ol[k := l] ! j)) = (\<Sum>j \<le> mx. st_used (ol ! j) + (if j = k then st_used l - st_used (ol ! k) else 0))"
    using assms by (intro sum.cong) (auto simp: nth_list_update)
  then show ?thesis using assms(1) by (simp add: sum.distrib)
qed

lemma cinv_len: "cinv c R L U H \<Longrightarrow> order_max c < length (orders c)"
  by (simp add: cinv_def lists_inv_def)

lemma cinv_outside:
  assumes i: "cinv c R L U {(x, k)}" and y: "y \<in> span x (bsz (order0_size_lb c) k)"
  shows "(a, j) \<in> free_blocks (order_max c) (orders c) \<union> U \<Longrightarrow> a \<noteq> y" and "a \<in> fst ` L \<Longrightarrow> a \<noteq> y"
proof -
  have t: "tiling (order0_size_lb c) (order_max c) R (free_blocks (order_max c) (orders c) \<union> U \<union> {(x, k)})"
    by (rule cinv_blocks(1) [OF i])
  show "a \<noteq> y" if "(a, j) \<in> free_blocks (order_max c) (orders c) \<union> U"
  proof
    assume "a = y"
    then have "a = x \<and> j = k" using tiling_unique [OF t, of a j x k a] that y by simp
    moreover have "(x, k) \<notin> free_blocks (order_max c) (orders c) \<union> U"
      using i by (auto simp: cinv_def lists_inv_def)
    ultimately show False using that by simp
  qed
  show "a \<noteq> y" if m: "a \<in> fst ` L"
  proof -
    obtain n where n: "(a, n) \<in> L" using m by force
    have "a \<in> span a n" using cinv_huge(3) [OF i n] by simp
    then show ?thesis using cinv_block_huge(1) [OF i, of x k a n] n y by blast
  qed
qed

lemma cinv_split:
  assumes i: "cinv c R L U {(x, Suc k)}"
  obtains c' where "slab_split c x = Some c'" and "cinv c' R L U {(x, k)}" and "mem c' = mem c" and "same_env c c'"
proof -
  let ?lb = "order0_size_lb c" and ?mx = "order_max c"
  have t: "tiling ?lb ?mx R (free_blocks ?mx (orders c) \<union> U \<union> {(x, Suc k)})" by (rule cinv_blocks(1) [OF i])
  have k: "k < ?mx" and al: "bsz ?lb (Suc k) dvd x" using tiling_block [OF t, of x "Suc k"] by simp_all
  have hx: "hdr c x = slab_hdr ?lb (Suc k) 0" using cinv_blocks(2) [OF i] by blast
  define b where "b = x XOR bsz ?lb k"
  have b: "b = x + bsz ?lb k" unfolding b_def using al by (rule buddy_upper)
  have bx: "b \<in> span x (bsz ?lb (Suc k))" "x \<in> span x (bsz ?lb (Suc k))" "b \<noteq> x" by (simp_all add: b bsz_Suc)
  let ?h = "(hdr c)(x := slab_hdr ?lb k 0, b := slab_hdr ?lb k 0)"
  let ?c = "c\<lparr>hdr := ?h, orders := (orders c)[k := slab_list_add (orders c ! k) b (bsz ?lb k)]\<rparr>"
  have run: "slab_split c x = Some ?c"
    using k hx bx(3)
    by (simp add: slab_split_def slab_create_def slab_buddy_def order_size upd_hdr_def upd_order_def slab_hdr_def b_def
        slab_order_size_def bsz_def)
  have li: "lists_inv ?lb ?mx (orders c) R U {(x, Suc k)}" using i by (simp add: cinv_def)
  have hi: "hdrs_inv ?lb (hdr c) (free_blocks ?mx (orders c) \<union> {(x, Suc k)}) U" using i by (simp add: cinv_def)
  have out: "a \<noteq> x \<and> a \<noteq> b" if "(a, j) \<in> free_blocks ?mx (orders c) \<union> U" for a j
    using cinv_outside(1) [OF i bx(1) that] cinv_outside(1) [OF i bx(2) that] by simp
  have F: "free_blocks ?mx (orders ?c) = insert (b, k) (free_blocks ?mx (orders c))"
    using free_blocks_insert [OF less_imp_le [OF k] cinv_len [OF i]] by (simp add: slab_list_add_def)
  have "cinv ?c R L U {(x, k)}"
  proof (rule cinv_step [OF i])
    show "lists_inv ?lb ?mx (orders ?c) R U {(x, k)}" using lists_split [OF li] by (simp add: b_def)
    show "hdrs_inv ?lb (hdr ?c) (free_blocks ?mx (orders ?c) \<union> {(x, k)}) U"
    proof (rule hdrs_change [OF hi, where N = "{(x, k), (b, k)}" and N' = "{}"])
      show "free_blocks ?mx (orders ?c) \<union> {(x, k)} \<subseteq> free_blocks ?mx (orders c) \<union> {(x, Suc k)} \<union> {(x, k), (b, k)}"
        unfolding F by auto
      fix a j
      show "hdr ?c a = hdr c a" if "(a, j) \<in> free_blocks ?mx (orders ?c) \<union> {(x, k)} - {(x, k), (b, k)}"
        using that out [of a j] unfolding F by auto
      show "hdr ?c a = hdr c a" if "(a, j) \<in> U" using that out [of a j] by simp
    qed (use bx(3) in auto)
    show "\<forall>a \<in> fst ` L. hdr ?c a = hdr c a" using cinv_outside(2) [OF i bx(1)] cinv_outside(2) [OF i bx(2)] by auto
    show "st_used (allocated ?c) = st_used (allocated c) +
      ((\<Sum>k \<le> ?mx. st_used (orders ?c ! k)) - (\<Sum>k \<le> ?mx. st_used (orders c ! k)))"
      using sum_used_upd [OF less_imp_le [OF k] cinv_len [OF i]] by (simp add: slab_list_add_def)
  qed (simp add: same_env_def)
  then show thesis using run by (intro that [of ?c]) (simp_all add: same_env_def)
qed

lemma same_env_trans: "same_env c c' \<Longrightarrow> same_env c' c'' \<Longrightarrow> same_env c c''"
  by (simp add: same_env_def)

lemma cinv_split_loop:
  assumes "cinv c R L U {(x, Suc (k + n))}"
  shows "\<exists>c'. slab_split_loop c x k = Some c' \<and> cinv c' R L U {(x, k)} \<and> mem c' = mem c \<and> same_env c c'"
  using assms
proof (induction n arbitrary: c)
  case (0 c)
  then obtain c' where c': "slab_split c x = Some c'" "cinv c' R L U {(x, k)}" "mem c' = mem c" "same_env c c'"
    using cinv_split [of c R L U x k] by (metis add_0_right)
  have "sl_order (hdr c' x) = k" using cinv_blocks(2) [OF c'(2), of x k] by simp
  then show ?case using c' by (simp add: slab_split_loop.simps [of c])
next
  case (Suc n c)
  obtain c' where c': "slab_split c x = Some c'" "cinv c' R L U {(x, k + Suc n)}" "mem c' = mem c" "same_env c c'"
    using cinv_split [OF Suc.prems] by blast
  have o: "sl_order (hdr c' x) = k + Suc n" using cinv_blocks(2) [OF c'(2), of x "k + Suc n"] by simp
  from Suc.IH [of c'] c'(2) obtain c'' where
    "slab_split_loop c' x k = Some c''" "cinv c'' R L U {(x, k)}" "mem c'' = mem c'" "same_env c' c''" by auto
  then show ?case using c' o same_env_trans by (auto simp: slab_split_loop.simps [of c])
qed

end
