(* ===== verification/Slab_Cache_Ops.thy ===== *)
theory Slab_Cache_Ops
  imports Slab_Cache_Inv
begin

text \<open>
  The operations of the slab cache keep the invariant, never fail an assertion, return
  slabs of the promised size and alignment, and leave the bytes of the slabs in use alone.
\<close>

section \<open>Taking a slab from a list, handing it out, taking it back\<close>

lemma upd_order_simps [simp]:
  "hdr (upd_order f k c) = hdr c" "mem (upd_order f k c) = mem c" "order_max (upd_order f k c) = order_max c"
  "order0_size_lb (upd_order f k c) = order0_size_lb c" "order0_size (upd_order f k c) = order0_size c"
  "allocated (upd_order f k c) = allocated c" "sc_arena (upd_order f k c) = sc_arena c"
  "sc_sys (upd_order f k c) = sc_sys c" "orders (upd_order f k c) = (orders c)[k := f (orders c ! k)]"
  by (simp_all add: upd_order_def)

lemma upd_order_twice:
  "k < length (orders c) \<Longrightarrow> upd_order f k (upd_order g k c) = upd_order (\<lambda>l. f (g l)) k c"
  by (simp add: upd_order_def)

lemma upd_order_id: "f (orders c ! k) = orders c ! k \<Longrightarrow> upd_order f k c = c"
  by (simp add: upd_order_def)

lemma add_total_cancel: "add_total (- n) (add_total n l) = l" "add_total n (add_total (- n) l) = l"
  by (simp_all add: add_total_def)

lemma slab_list_add_total: "slab_list_add l a n = (add_total (int n) l)\<lparr>sl_slabs := a # sl_slabs (add_total (int n) l)\<rparr>"
  by (simp add: slab_list_add_def add_total_def)

lemma cinv_take:
  assumes i: "cinv c R L U {}" and j: "j \<le> order_max c" and x: "sl_slabs (orders c ! j) = x # rest"
  shows "cinv (upd_order (add_total (- int (bsz (order0_size_lb c) j))) j
                (upd_order (\<lambda>l. l\<lparr>sl_slabs := tl (sl_slabs l)\<rparr>) j c)) R L U {(x, j)}" (is "cinv ?c R L U _")
proof -
  let ?lb = "order0_size_lb c" and ?mx = "order_max c"
  have len: "j < length (orders c)" using cinv_len [OF i] j by simp
  have ol: "orders ?c = (orders c)[j := (orders c ! j)\<lparr>sl_slabs := rest, st_total := st_total (orders c ! j) - int (bsz ?lb j)\<rparr>]"
    using len by (simp add: x add_total_def)
  have li: "lists_inv ?lb ?mx (orders c) R U {}" and hi: "hdrs_inv ?lb (hdr c) (free_blocks ?mx (orders c) \<union> {}) U"
    using i by (simp_all add: cinv_def)
  have F: "free_blocks ?mx (orders ?c) \<union> {(x, j)} \<subseteq> free_blocks ?mx (orders c) \<union> {} \<union> {}"
    unfolding ol using j len x cinv_len [OF i] by (auto simp: free_blocks_def nth_list_update split: if_splits)
  show ?thesis
  proof (rule cinv_step [OF i])
    show "lists_inv ?lb ?mx (orders ?c) R U {(x, j)}" unfolding ol using lists_take [OF li j x] .
    show "hdrs_inv ?lb (hdr ?c) (free_blocks ?mx (orders ?c) \<union> {(x, j)}) U"
      by (rule hdrs_change [OF hi F, where N' = "{}"]) simp_all
    show "st_used (allocated ?c) = st_used (allocated c) +
      ((\<Sum>k \<le> ?mx. st_used (orders ?c ! k)) - (\<Sum>k \<le> ?mx. st_used (orders c ! k)))"
      unfolding ol using sum_used_upd [OF j cinv_len [OF i]] by simp
  qed (simp_all add: same_env_def)
qed

lemma cinv_hole:
  assumes i: "cinv c R L U {(x, k)}"
  shows "k \<le> order_max c" and "hdr c x = slab_hdr (order0_size_lb c) k 0" and "x \<notin> fst ` L"
    and "(a, j) \<in> free_blocks (order_max c) (orders c) \<union> U \<Longrightarrow> a \<noteq> x"
    and "bsz (order0_size_lb c) k dvd x" and "k < length (orders c)"
proof -
  have t: "tiling (order0_size_lb c) (order_max c) R (free_blocks (order_max c) (orders c) \<union> U \<union> {(x, k)})"
    by (rule cinv_blocks(1) [OF i])
  show "k \<le> order_max c" "bsz (order0_size_lb c) k dvd x" using tiling_block [OF t, of x k] by simp_all
  then show "k < length (orders c)" using cinv_len [OF i] by simp
  show "hdr c x = slab_hdr (order0_size_lb c) k 0" using cinv_blocks(2) [OF i] by blast
  show "x \<notin> fst ` L" using cinv_outside(2) [OF i start_in_tile] by blast
  show "a \<noteq> x" if "(a, j) \<in> free_blocks (order_max c) (orders c) \<union> U"
    using cinv_outside(1) [OF i start_in_tile that] .
qed

lemma cinv_use:
  assumes i: "cinv c R L U {(x, k)}"
  defines "c' \<equiv> slab_set_used (upd_order (add_total (int (bsz (order0_size_lb c) k))) k c) x"
  shows "cinv c' R L (insert (x, k) U) {}" and "mem c' = mem c"
proof -
  let ?lb = "order0_size_lb c" and ?mx = "order_max c"
  note ho = cinv_hole [OF i]
  let ?l = "add_used (int (bsz ?lb k)) (add_total (int (bsz ?lb k)) (orders c ! k))"
  have c': "orders c' = (orders c)[k := ?l]" "hdr c' = (hdr c)(x := slab_hdr ?lb k (Suc k))"
    "allocated c' = add_used (int (bsz ?lb k)) (allocated c)"
    using ho(2,6) by (simp_all add: c'_def slab_set_used_def upd_hdr_def slab_hdr_upd Let_def)
  show "mem c' = mem c" by (simp add: c'_def slab_set_used_def upd_hdr_def Let_def)
  have li: "lists_inv ?lb ?mx (orders c) R U {(x, k)}" and hi: "hdrs_inv ?lb (hdr c) (free_blocks ?mx (orders c) \<union> {(x, k)}) U"
    using i by (simp_all add: cinv_def)
  have F: "free_blocks ?mx (orders c') = free_blocks ?mx (orders c)"
    unfolding c' by (intro free_blocks_same [OF ho(1) cinv_len [OF i]]) (simp add: add_used_def add_total_def)
  show "cinv c' R L (insert (x, k) U) {}"
  proof (rule cinv_step [OF i])
    show "same_env c c'" by (simp add: same_env_def c'_def slab_set_used_def upd_hdr_def add_used_def Let_def)
    show "lists_inv ?lb ?mx (orders c') R (insert (x, k) U) {}" unfolding c' by (rule lists_use [OF li])
    show "hdrs_inv ?lb (hdr c') (free_blocks ?mx (orders c') \<union> {}) (insert (x, k) U)"
      unfolding F using ho(4) by (intro hdrs_change [OF hi, where N = "{}" and N' = "{(x, k)}"]) (auto simp: c'(2))
    show "\<forall>a \<in> fst ` L. hdr c' a = hdr c a" using ho(3) by (auto simp: c')
    show "st_used (allocated c') = st_used (allocated c) +
      ((\<Sum>k \<le> ?mx. st_used (orders c' ! k)) - (\<Sum>k \<le> ?mx. st_used (orders c ! k)))"
      unfolding c' using sum_used_upd [OF ho(1) cinv_len [OF i]] by (simp add: add_used_def add_total_def)
  qed
qed

lemma cinv_used:
  assumes i: "cinv c R L U {}" and x: "(x, k) \<in> U"
  shows "k \<le> order_max c" and "hdr c x = slab_hdr (order0_size_lb c) k (Suc k)" and "x \<notin> fst ` L"
    and "bsz (order0_size_lb c) k dvd x" and "k < length (orders c)"
    and "(a, j) \<in> free_blocks (order_max c) (orders c) \<union> (U - {(x, k)}) \<Longrightarrow> a \<noteq> x"
proof -
  have t: "tiling (order0_size_lb c) (order_max c) R (free_blocks (order_max c) (orders c) \<union> U \<union> {})"
    by (rule cinv_blocks(1) [OF i])
  show "k \<le> order_max c" "bsz (order0_size_lb c) k dvd x" using tiling_block [OF t, of x k] x by simp_all
  then show "k < length (orders c)" using cinv_len [OF i] by simp
  show "hdr c x = slab_hdr (order0_size_lb c) k (Suc k)" using cinv_blocks(3) [OF i x] .
  show "x \<notin> fst ` L" using cinv_block_huge(2) [OF i, of x k] x by force
  show "a \<noteq> x" if "(a, j) \<in> free_blocks (order_max c) (orders c) \<union> (U - {(x, k)})"
  proof
    assume "a = x"
    then have "j = k" using tiling_fun [OF t, of a j k] that x by blast
    then have "(x, k) \<in> free_blocks (order_max c) (orders c)" using that \<open>a = x\<close> by simp
    then show False using i x by (auto simp: cinv_def lists_inv_def)
  qed
qed

lemma cinv_set_free:
  assumes i: "cinv c R L U {}" and x: "(x, k) \<in> U"
  obtains c' where "slab_set_free c x = Some c'" and "mem c' = mem c" and "same_env c c'"
    and "cinv (upd_order (add_total (- int (bsz (order0_size_lb c) k))) k c') R L (U - {(x, k)}) {(x, k)}"
proof -
  let ?lb = "order0_size_lb c" and ?mx = "order_max c"
  note us = cinv_used [OF i x]
  let ?c1 = "upd_hdr (sl_in_use_update (\<lambda>_. 0)) x (upd_order (add_used (- int (bsz ?lb k))) k
               (c\<lparr>allocated := add_used (- int (bsz ?lb k)) (allocated c)\<rparr>))"
  have run: "slab_set_free c x = Some ?c1" using us(2) by (simp add: slab_set_free_def)
  let ?c = "upd_order (add_total (- int (bsz ?lb k))) k ?c1"
  let ?l = "add_total (- int (bsz ?lb k)) (add_used (- int (bsz ?lb k)) (orders c ! k))"
  have c': "orders ?c = (orders c)[k := ?l]" "hdr ?c = (hdr c)(x := slab_hdr ?lb k 0)"
    "allocated ?c = add_used (- int (bsz ?lb k)) (allocated c)"
    using us(2,5) by (simp_all add: upd_hdr_def slab_hdr_upd)
  have li: "lists_inv ?lb ?mx (orders c) R U {}" and hi: "hdrs_inv ?lb (hdr c) (free_blocks ?mx (orders c) \<union> {}) U"
    using i by (simp_all add: cinv_def)
  have F: "free_blocks ?mx (orders ?c) = free_blocks ?mx (orders c)"
    unfolding c' by (intro free_blocks_same [OF us(1) cinv_len [OF i]]) (simp add: add_used_def add_total_def)
  have "cinv ?c R L (U - {(x, k)}) {(x, k)}"
  proof (rule cinv_step [OF i])
    show "same_env c ?c" by (simp add: same_env_def upd_hdr_def add_used_def)
    show "lists_inv ?lb ?mx (orders ?c) R (U - {(x, k)}) {(x, k)}" unfolding c' by (rule lists_free [OF li x])
    show "hdrs_inv ?lb (hdr ?c) (free_blocks ?mx (orders ?c) \<union> {(x, k)}) (U - {(x, k)})"
      unfolding F c'(2)
    proof (rule hdrs_change [OF hi, where N = "{(x, k)}" and N' = "{}"])
      fix a j
      show "((hdr c)(x := slab_hdr ?lb k 0)) a = hdr c a" if "(a, j) \<in> free_blocks ?mx (orders c) \<union> {}"
        using us(6) [of a j] that by simp
      show "((hdr c)(x := slab_hdr ?lb k 0)) a = hdr c a" if "(a, j) \<in> U - {(x, k)} - {}"
        using us(6) [of a j] that by simp
    qed auto
    show "\<forall>a \<in> fst ` L. hdr ?c a = hdr c a" unfolding c'(2) using us(3) by auto
    show "st_used (allocated ?c) = st_used (allocated c) +
      ((\<Sum>k \<le> ?mx. st_used (orders ?c ! k)) - (\<Sum>k \<le> ?mx. st_used (orders c ! k)))"
      unfolding c' using sum_used_upd [OF us(1) cinv_len [OF i]] by (simp add: add_used_def add_total_def)
  qed
  with run show thesis by (intro that [of ?c1]) (simp_all add: upd_hdr_def same_env_def add_used_def)
qed

section \<open>Merging\<close>

lemma cinv_buddy:
  assumes i: "cinv c R L U {(x, k)}" and k: "k < order_max c"
  defines "b \<equiv> x XOR bsz (order0_size_lb c) k"
  shows "slab_buddy c x = Some b" and "slab_can_merge c x b \<longleftrightarrow> b \<in> set (sl_slabs (orders c ! k))"
proof -
  let ?lb = "order0_size_lb c" and ?mx = "order_max c"
  note ho = cinv_hole [OF i]
  show "slab_buddy c x = Some b" using k ho(2) by (simp add: slab_buddy_def order_size b_def)
  obtain j where j: "(b, j) \<in> free_blocks ?mx (orders c) \<union> U \<union> {(x, k)}" "j \<le> k"
    unfolding b_def by (rule tiling_buddy [OF cinv_blocks(1) [OF i] _ k]) auto
  have "b \<noteq> x" unfolding b_def by (rule buddy_neq)
  then have jm: "(b, j) \<in> free_blocks ?mx (orders c) \<union> U" using j(1) by simp
  have b0: "b \<noteq> NULL" using cinv_block_mapped(2) [OF i j(1)] .
  have fb: "(b, k) \<in> free_blocks ?mx (orders c) \<longleftrightarrow> b \<in> set (sl_slabs (orders c ! k))"
    using k by (simp add: free_blocks_def)
  have uniq: "j = k" if "(b, k) \<in> free_blocks ?mx (orders c)"
    using tiling_fun [OF cinv_blocks(1) [OF i], of b j k] j(1) that by blast
  show "slab_can_merge c x b \<longleftrightarrow> b \<in> set (sl_slabs (orders c ! k))"
  proof (cases "(b, j) \<in> U")
    case True
    then have "hdr c b = slab_hdr ?lb j (Suc j)" by (rule cinv_blocks(3) [OF i])
    moreover have "(b, j) \<notin> free_blocks ?mx (orders c)" using i True by (auto simp: cinv_def lists_inv_def)
    ultimately show ?thesis using fb uniq by (auto simp: slab_can_merge_def slab_is_free_def)
  next
    case False
    then have f: "(b, j) \<in> free_blocks ?mx (orders c)" using jm by simp
    then have "hdr c b = slab_hdr ?lb j 0" using cinv_blocks(2) [OF i, of b j] by simp
    then show ?thesis using b0 f fb uniq ho(2) by (auto simp: slab_can_merge_def slab_is_free_def)
  qed
qed

lemma cinv_merge:
  assumes i: "cinv c R L U {(x, k)}" and k: "k < order_max c"
    and b: "b = x XOR bsz (order0_size_lb c) k" "b \<in> set (sl_slabs (orders c ! k))"
  obtains c' where "slab_merge c x b = Some (c', min x b)" and "mem c' = mem c" and "same_env c c'"
    and "cinv c' R L U {(min x b, Suc k)}"
proof -
  let ?lb = "order0_size_lb c" and ?mx = "order_max c" and ?m = "min x b"
  note ho = cinv_hole [OF i]
  have k': "k \<le> ?mx" using k by simp
  have bf: "(b, k) \<in> free_blocks ?mx (orders c)" using b(2) k' by (simp add: free_blocks_def)
  have hb: "hdr c b = slab_hdr ?lb k 0" using cinv_blocks(2) [OF i, of b k] bf by blast
  have hm: "hdr c ?m = slab_hdr ?lb k 0" using hb ho(2) by (simp add: min_def)
  let ?c = "c\<lparr>orders := (orders c)[k := slab_list_del (orders c ! k) b (bsz ?lb k)],
              hdr := (hdr c)(?m := slab_hdr ?lb (Suc k) 0)\<rparr>"
  have run: "slab_merge c x b = Some (?c, ?m)"
    using cinv_buddy(1) [OF i k] k hb ho(2) unfolding b(1) [symmetric]
    by (cases "b < x") (simp_all add: slab_merge_def upd_hdr_def upd_order_def order_size
        slab_order_size_def min_def slab_hdr_def bsz_def)
  have li: "lists_inv ?lb ?mx (orders c) R U {(x, k)}" and hi: "hdrs_inv ?lb (hdr c) (free_blocks ?mx (orders c) \<union> {(x, k)}) U"
    using i by (simp_all add: cinv_def)
  have d: "distinct (sl_slabs (orders c ! k))" using li k' by (simp add: lists_inv_def)
  have F: "free_blocks ?mx (orders ?c) = free_blocks ?mx (orders c) - {(b, k)}"
    using d free_blocks_remove [OF k' cinv_len [OF i], of "slab_list_del (orders c ! k) b (bsz ?lb k)" b]
    by (simp add: slab_list_del_def)
  have t: "tiling ?lb ?mx R (free_blocks ?mx (orders c) \<union> U \<union> {(x, k)})" by (rule cinv_blocks(1) [OF i])
  have nu: "(b, k) \<notin> U" using i bf by (auto simp: cinv_def lists_inv_def)
  have out: "a \<noteq> ?m" if "(a, j) \<in> free_blocks ?mx (orders c) \<union> U" "(a, j) \<noteq> (b, k)" for a j
  proof -
    have "a \<noteq> x" using ho(4) that(1) .
    moreover have "a \<noteq> b" using tiling_fun [OF t, of b j k] that bf by blast
    ultimately show ?thesis by (simp add: min_def)
  qed
  have "cinv ?c R L U {(?m, Suc k)}"
  proof (rule cinv_step [OF i])
    show "lists_inv ?lb ?mx (orders ?c) R U {(?m, Suc k)}" using lists_merge [OF li k b] by simp
    show "hdrs_inv ?lb (hdr ?c) (free_blocks ?mx (orders ?c) \<union> {(?m, Suc k)}) U" unfolding F
    proof (rule hdrs_change [OF hi, where N = "{(?m, Suc k)}" and N' = "{}"])
      fix a j
      show "hdr ?c a = hdr c a" if "(a, j) \<in> free_blocks ?mx (orders c) - {(b, k)} \<union> {(?m, Suc k)} - {(?m, Suc k)}"
        using out [of a j] that by auto
      show "hdr ?c a = hdr c a" if "(a, j) \<in> U"
      proof -
        have "(a, j) \<noteq> (b, k)" using that nu by blast
        then show ?thesis using out [of a j] that by simp
      qed
    qed auto
    show "\<forall>a \<in> fst ` L. hdr ?c a = hdr c a"
      using ho(3) cinv_block_huge(2) [OF i, of b k] bf by (force simp: min_def)
    show "st_used (allocated ?c) = st_used (allocated c) +
      ((\<Sum>k \<le> ?mx. st_used (orders ?c ! k)) - (\<Sum>k \<le> ?mx. st_used (orders c ! k)))"
      using sum_used_upd [OF k' cinv_len [OF i]] by (simp add: slab_list_del_def)
  qed (simp add: same_env_def)
  with run show thesis by (intro that [of ?c]) (simp_all add: same_env_def)
qed

text \<open>The loop ends with a slab whose buddy is not a free slab of its order.\<close>

lemma cinv_merge_loop:
  assumes "cinv c R L U {(x, k)}" and "slab_buddy c x = Some b"
  shows "\<exists>c' x' k'. slab_merge_loop c x b = Some (c', x') \<and> cinv c' R L U {(x', k')} \<and> mem c' = mem c \<and> same_env c c' \<and>
    (k' < order_max c \<longrightarrow> x' XOR bsz (order0_size_lb c) k' \<notin> set (sl_slabs (orders c' ! k')))"
  using assms
proof (induction "order_max c - k" arbitrary: c x k b)
  case 0
  then have k: "k = order_max c" using cinv_hole(1) [OF 0(2)] by simp
  have "b = NULL" using 0(3) cinv_hole(2) [OF 0(2)] k by (simp add: slab_buddy_def)
  then have "slab_merge_loop c x b = Some (c, x)" by (simp add: slab_merge_loop.simps [of c] slab_can_merge_def)
  then show ?case using 0(2) k by (intro exI [of _ c] exI [of _ x] exI [of _ k]) (simp add: same_env_def)
next
  case (Suc n)
  then have k: "k < order_max c" by simp
  note bu = cinv_buddy [OF Suc.prems(1) k]
  have b: "b = x XOR bsz (order0_size_lb c) k" using bu(1) Suc.prems(2) by simp
  show ?case
  proof (cases "b \<in> set (sl_slabs (orders c ! k))")
    case False
    then have "slab_merge_loop c x b = Some (c, x)" using bu(2) b by (simp add: slab_merge_loop.simps [of c])
    then show ?thesis using Suc.prems False b
      by (intro exI [of _ c] exI [of _ x] exI [of _ k]) (simp add: same_env_def)
  next
    case True
    obtain c1 where c1: "slab_merge c x b = Some (c1, min x b)" "mem c1 = mem c" "same_env c c1"
      "cinv c1 R L U {(min x b, Suc k)}" by (rule cinv_merge [OF Suc.prems(1) k b True])
    have e: "order_max c1 = order_max c" "order0_size_lb c1 = order0_size_lb c" using c1(3) by (simp_all add: same_env_def)
    obtain b' where b': "slab_buddy c1 (min x b) = Some b'"
    proof (cases "Suc k = order_max c1")
      case True
      then have "slab_buddy c1 (min x b) = Some NULL" using cinv_hole(2) [OF c1(4)] by (simp add: slab_buddy_def)
      then show thesis by (rule that)
    next
      case False
      then have "Suc k < order_max c1" using k e by simp
      from cinv_buddy(1) [OF c1(4) this] show thesis by (rule that)
    qed
    have n: "n = order_max c1 - Suc k" using Suc.hyps(2) e by simp
    from Suc.hyps(1) [OF n c1(4) b'] obtain c' x' k' where
      r: "slab_merge_loop c1 (min x b) b' = Some (c', x')" "cinv c' R L U {(x', k')}" "mem c' = mem c1" "same_env c1 c'"
      "k' < order_max c \<longrightarrow> x' XOR bsz (order0_size_lb c) k' \<notin> set (sl_slabs (orders c' ! k'))" by (auto simp: e)
    have "slab_merge_loop c x b = Some (c', x')"
      using True bu(2) b c1(1) b' r(1) by (simp add: slab_merge_loop.simps [of c])
    then show ?thesis using r c1 same_env_trans [OF c1(3) r(4)] by auto
  qed
qed

section \<open>Disposing of a slab\<close>

lemma poison_simps [simp]:
  "hdr (slab_poison c s) = hdr c" "orders (slab_poison c s) = orders c" "order_max (slab_poison c s) = order_max c"
  "order0_size_lb (slab_poison c s) = order0_size_lb c" "order0_size (slab_poison c s) = order0_size c"
  "allocated (slab_poison c s) = allocated c" "sc_arena (slab_poison c s) = sc_arena c"
  "sc_sys (slab_poison c s) = sc_sys c"
  by (simp_all add: slab_poison_def)

lemma cinv_poison: "cinv c R L U H \<Longrightarrow> cinv (slab_poison c s) R L U H"
  unfolding cinv_def cache_config_def alloc_inv_def huge_inv_def huge_hdr_def poison_simps .

lemma poison_outside:
  assumes "x \<notin> span s (sl_size (hdr c s))" and "slab_sizeof \<le> sl_size (hdr c s)"
  shows "mem (slab_poison c s) x = mem c x"
  using assms by (auto simp: slab_poison_def slab_data_def slab_capacity_def)

lemma slab_sizeof_48: "slab_sizeof = 48"
  by (simp add: slab_sizeof_def align_up_def)

lemma sizeof_le_bsz: "cache_config c \<Longrightarrow> slab_sizeof \<le> bsz (order0_size_lb c) k"
proof -
  assume "cache_config c"
  then have "6 \<le> k + order0_size_lb c" by (simp add: cache_config_def)
  then have "(2::nat) ^ 6 \<le> bsz (order0_size_lb c) k" unfolding bsz_def by (intro power_increasing) simp_all
  then show ?thesis by (simp add: slab_sizeof_48)
qed

text \<open>The bytes of the slabs in use.\<close>

definition used_bytes :: "slab_cache \<Rightarrow> (addr \<times> nat) set \<Rightarrow> block set \<Rightarrow> addr set" where
  "used_bytes c L U = (\<Union>p \<in> U. tile (order0_size_lb c) p) \<union> (\<Union>(a, n) \<in> L. span a n)"

lemma used_bytesE:
  assumes "y \<in> used_bytes c L U"
  obtains a j where "(a, j) \<in> U" and "y \<in> span a (bsz (order0_size_lb c) j)"
  | a n where "(a, n) \<in> L" and "y \<in> span a n"
  using assms unfolding used_bytes_def by (auto simp del: in_span)

lemma poison_hole:
  assumes i: "cinv c R L U {(x, k)}" and y: "y \<in> used_bytes c L U"
  shows "mem (slab_poison c x) y = mem c y"
proof (rule poison_outside)
  note ho = cinv_hole [OF i]
  have cfg: "cache_config c" using i by (simp add: cinv_def)
  show "slab_sizeof \<le> sl_size (hdr c x)" using sizeof_le_bsz [OF cfg, of k] by (simp add: ho(2))
  have nu: "(x, k) \<notin> U" using i by (auto simp: cinv_def lists_inv_def)
  show "y \<notin> span x (sl_size (hdr c x))"
  proof
    assume y': "y \<in> span x (sl_size (hdr c x))"
    from y show False
    proof (cases rule: used_bytesE)
      case (1 a j)
      then have "(a, j) = (x, k)"
        using tiling_unique [OF cinv_blocks(1) [OF i], of a j x k y] y' by (simp add: ho(2))
      then show False using nu 1(1) by simp
    next
      case (2 a n)
      then show False using cinv_block_huge(1) [OF i, of x k a n] y' by (auto simp: ho(2) simp del: in_span)
    qed
  qed
qed

lemma cinv_put:
  assumes i: "cinv c R L U {(x, k)}" and mx: "k = order_max c \<Longrightarrow> sl_slabs (orders c ! k) = []"
    and b: "k < order_max c \<Longrightarrow> x XOR bsz (order0_size_lb c) k \<notin> set (sl_slabs (orders c ! k))"
  shows "cinv (upd_order (\<lambda>l. slab_list_add l x (bsz (order0_size_lb c) k)) k c) R L U {}" (is "cinv ?c R L U {}")
proof -
  let ?lb = "order0_size_lb c" and ?mx = "order_max c"
  note ho = cinv_hole [OF i]
  have li: "lists_inv ?lb ?mx (orders c) R U {(x, k)}" and hi: "hdrs_inv ?lb (hdr c) (free_blocks ?mx (orders c) \<union> {(x, k)}) U"
    using i by (simp_all add: cinv_def)
  have F: "free_blocks ?mx (orders ?c) = insert (x, k) (free_blocks ?mx (orders c))"
    using free_blocks_insert [OF ho(1) cinv_len [OF i]] by (simp add: slab_list_add_def)
  show ?thesis
  proof (rule cinv_step [OF i])
    show "lists_inv ?lb ?mx (orders ?c) R U {}" using lists_put [OF li mx b] by simp
    show "hdrs_inv ?lb (hdr ?c) (free_blocks ?mx (orders ?c) \<union> {}) U"
      unfolding F by (rule hdrs_change [OF hi, where N = "{}" and N' = "{}"]) auto
    show "st_used (allocated ?c) = st_used (allocated c) +
      ((\<Sum>k \<le> ?mx. st_used (orders ?c ! k)) - (\<Sum>k \<le> ?mx. st_used (orders c ! k)))"
      using sum_used_upd [OF ho(1) cinv_len [OF i]] by (simp add: slab_list_add_def)
  qed (simp_all add: same_env_def)
qed

lemma cinv_give_back:
  assumes i: "cinv c R L U {(r, order_max c)}"
  defines "c' \<equiv> c\<lparr>allocated := slab_list_del (allocated c) r (ar_slab_size (sc_arena c)),
                   sc_arena := slab_unmap (sc_arena c) r\<rparr>"
  shows "cinv c' (R - {r}) L U {}" and "r \<in> R"
proof -
  let ?lb = "order0_size_lb c" and ?mx = "order_max c"
  have li: "lists_inv ?lb ?mx (orders c) R U {(r, ?mx)}" and hi: "hdrs_inv ?lb (hdr c) (free_blocks ?mx (orders c) \<union> {(r, ?mx)}) U"
    and ai: "alloc_inv c R L" and hu: "huge_inv c L" and ar: "arena_inv (sc_arena c) (sc_sys c) R (huge_units L)"
    using i by (simp_all add: cinv_def)
  show r: "r \<in> R" by (rule lists_del_root(2) [OF li])
  have fin: "finite R" using li by (simp add: lists_inv_def tiling_def)
  have card: "card R = Suc (card (R - {r}))" using fin r by (rule card.remove)
  have sz: "ar_slab_size (sc_arena c') = ar_slab_size (sc_arena c)" by (simp add: c'_def slab_unmap_def)
  have "arena_inv (sc_arena c) (sc_sys c) (insert r (R - {r})) (huge_units L)" using ar r by (simp add: insert_absorb)
  then have "arena_inv (sc_arena c') (sc_sys c') (R - {r}) (huge_units L)"
    by (simp add: c'_def slab_unmap_inv)
  moreover have "alloc_inv c' (R - {r}) L"
  proof -
    have d: "distinct (sl_slabs (allocated c))" "set (sl_slabs (allocated c)) = R \<union> fst ` L" "R \<inter> fst ` L = {}"
      using ai by (simp_all add: alloc_inv_def)
    have sl: "sl_slabs (allocated c') = remove1 r (sl_slabs (allocated c))" by (simp add: c'_def slab_list_del_def)
    have "set (remove1 r (sl_slabs (allocated c))) = (R - {r}) \<union> fst ` L" using r d by (auto simp: set_remove1_eq)
    moreover have "st_used (allocated c') = (\<Sum>k \<le> order_max c'. st_used (orders c' ! k)) + int (huge_size L)"
      using ai unfolding alloc_inv_def by (simp add: c'_def slab_list_del_def)
    moreover have "(R - {r}) \<inter> fst ` L = {}" using d(3) by blast
    moreover have "st_total (allocated c') = int (card (R - {r}) * ar_slab_size (sc_arena c') + huge_size L)"
      using ai card unfolding sz by (simp add: c'_def slab_list_del_def alloc_inv_def algebra_simps)
    moreover have "distinct (remove1 r (sl_slabs (allocated c)))" using d(1) by simp
    ultimately show ?thesis unfolding alloc_inv_def sl by blast
  qed
  moreover have "huge_inv c' L" using hu unfolding huge_inv_def huge_hdr_def sz by (simp add: c'_def)
  moreover have "cache_config c'" using i unfolding cinv_def cache_config_def sz by (simp add: c'_def)
  moreover have "hdrs_inv ?lb (hdr c) (free_blocks ?mx (orders c) \<union> {}) U"
    by (rule hdrs_change [OF hi, where N = "{}" and N' = "{}"]) auto
  ultimately show "cinv c' (R - {r}) L U {}" using lists_del_root(1) [OF li] by (simp add: cinv_def c'_def)
qed

section \<open>Getting and putting ordered slabs\<close>

lemma same_env_config:
  assumes "same_env c c'"
  shows "order_max c' = order_max c" and "order0_size_lb c' = order0_size_lb c" and "order0_size c' = order0_size c"
    and "ar_slab_size (sc_arena c') = ar_slab_size (sc_arena c)"
  using assms by (simp_all add: same_env_def)

text \<open>What a caller may rely on when the cache changes: the configuration, and the bytes of slabs in use.\<close>

definition keeps :: "slab_cache \<Rightarrow> slab_cache \<Rightarrow> addr set \<Rightarrow> bool" where
  "keeps c c' X \<longleftrightarrow> order_max c' = order_max c \<and> order0_size_lb c' = order0_size_lb c \<and> order0_size c' = order0_size c \<and>
     ar_slab_size (sc_arena c') = ar_slab_size (sc_arena c) \<and>
     q_total (ar_quota (sc_arena c')) = q_total (ar_quota (sc_arena c)) \<and> (\<forall>x \<in> X. mem c' x = mem c x)"

lemma cinv_new_root:
  assumes i: "cinv c R L U {}" and e: "sl_slabs (orders c ! order_max c) = []"
    and r: "r \<noteq> NULL" "r \<notin> R" and ar: "arena_inv ar sys (insert r R) (huge_units L)"
    and fr: "ar_slab_size ar = ar_slab_size (sc_arena c)" "heap sys = heap (sc_sys c)"
    and q: "q_total (ar_quota ar) = q_total (ar_quota (sc_arena c))"
  defines "c1 \<equiv> slab_poison (slab_create (c\<lparr>sc_arena := ar, sc_sys := sys\<rparr>) r (order_max c) (ar_slab_size ar)) r"
  defines "c2 \<equiv> c1\<lparr>allocated := slab_list_add (allocated c1) r (sl_size (hdr c1 r))\<rparr>"
  defines "c3 \<equiv> upd_order (\<lambda>l. slab_list_add l r (sl_size (hdr c2 r))) (order_max c) c2"
  shows "cinv c3 (insert r R) L U {}" and "keeps c c3 (used_bytes c L U)"
proof -
  let ?lb = "order0_size_lb c" and ?mx = "order_max c"
  have li: "lists_inv ?lb ?mx (orders c) R U {}" and hi: "hdrs_inv ?lb (hdr c) (free_blocks ?mx (orders c) \<union> {}) U"
    and ai: "alloc_inv c R L" and hu: "huge_inv c L" and cfg: "cache_config c"
    using i by (simp_all add: cinv_def)
  have sz: "ar_slab_size ar = bsz ?lb ?mx" using cfg fr(1) by (simp add: cache_config_def)
  have al: "bsz ?lb ?mx dvd r" and pl: "span r (bsz ?lb ?mx) \<subseteq> covered (mapped sys)"
    and cd: "covered (mapped sys) \<inter> taken (heap sys) = {}"
    using ar by (simp_all add: arena_inv_def arena_slabs_def slab_placed_def sz)
  have h1: "hdr c1 = (hdr c)(r := slab_hdr ?lb ?mx 0)"
    by (simp add: c1_def slab_create_def upd_hdr_def slab_hdr_def sz)
  have c3: "orders c3 = (orders c)[?mx := slab_list_add (orders c ! ?mx) r (bsz ?lb ?mx)]" "hdr c3 = (hdr c)(r := slab_hdr ?lb ?mx 0)"
    "allocated c3 = slab_list_add (allocated c) r (bsz ?lb ?mx)" "sc_arena c3 = ar" "sc_sys c3 = sys"
    "order_max c3 = ?mx" "order0_size_lb c3 = ?lb" "order0_size c3 = order0_size c" "mem c3 = mem c1"
    by (simp_all add: c3_def c2_def h1) (simp_all add: c1_def slab_create_def upd_hdr_def)
  have t: "tiling ?lb ?mx R (free_blocks ?mx (orders c) \<union> U \<union> {})" by (rule cinv_blocks(1) [OF i])
  note ad = tiling_add_root [OF t r(2) al]
  have out: "y \<notin> span r (bsz ?lb ?mx)" if "(a, j) \<in> free_blocks ?mx (orders c) \<union> U" "y \<in> span a (bsz ?lb j)" for a j y
  proof
    assume "y \<in> span r (bsz ?lb ?mx)"
    then have "(a, j) = (r, ?mx)" using tiling_unique [OF ad(1), of a j r ?mx y] that by simp
    then show False using ad(2) that(1) by simp
  qed
  have outL: "span a n \<inter> span r (bsz ?lb ?mx) = {}" if "(a, n) \<in> L" for a n
    using cinv_huge(1) [OF i that] covered_taken [of "heap (sc_sys c)"] pl cd unfolding fr(2) by blast
  have rL: "r \<notin> fst ` L"
  proof
    assume "r \<in> fst ` L"
    then obtain n where n: "(r, n) \<in> L" by force
    then show False using outL [OF n] cinv_huge(3) [OF i n] by (auto simp: span_disjoint_iff)
  qed
  have hl: "\<forall>a \<in> fst ` L. hdr c3 a = hdr c a" using rL by (auto simp: c3(2))
  have F: "free_blocks ?mx (orders c3) = insert (r, ?mx) (free_blocks ?mx (orders c))"
    unfolding c3(1) using free_blocks_insert [OF order_refl cinv_len [OF i]] by (simp add: slab_list_add_def)
  have "lists_inv ?lb ?mx (orders c3) (insert r R) U {}" unfolding c3(1) by (rule lists_add_root [OF li r(2) al e])
  moreover have "hdrs_inv ?lb (hdr c3) (free_blocks ?mx (orders c3) \<union> {}) U" unfolding F
  proof (rule hdrs_change [OF hi, where N = "{(r, ?mx)}" and N' = "{}"])
    fix a j
    show "hdr c3 a = hdr c a" if "(a, j) \<in> free_blocks ?mx (orders c) \<union> {}"
      using out [of a j a] that by (auto simp: c3(2))
    show "hdr c3 a = hdr c a" if "(a, j) \<in> U" using out [of a j a] that by (auto simp: c3(2))
  qed (auto simp: c3(2))
  moreover have "alloc_inv c3 (insert r R) L"
  proof -
    have fin: "finite R" using li by (simp add: lists_inv_def tiling_def)
    have "st_used (allocated c3) = (\<Sum>k \<le> order_max c3. st_used (orders c3 ! k)) + int (huge_size L)"
      unfolding c3(1,6) using ai sum_used_upd [OF order_refl cinv_len [OF i]]
      by (simp add: alloc_inv_def c3(3) slab_list_add_def)
    moreover have "st_total (allocated c3) = int (card (insert r R) * ar_slab_size (sc_arena c3) + huge_size L)"
      unfolding c3(4) fr(1) using ai fin r(2) sz fr(1) by (simp add: alloc_inv_def c3(3) slab_list_add_def)
    moreover have "distinct (sl_slabs (allocated c3))" "set (sl_slabs (allocated c3)) = insert r R \<union> fst ` L" "insert r R \<inter> fst ` L = {}"
      using ai r(2) rL by (auto simp: alloc_inv_def c3(3) slab_list_add_def)
    ultimately show ?thesis by (simp add: alloc_inv_def)
  qed
  moreover have "huge_inv c3 L"
  proof -
    have "hdr c3 a = hdr c a" if "(a, n) \<in> L" for a n using hl that by force
    then show ?thesis using hu unfolding huge_inv_def huge_hdr_def c3(4-6) fr by auto
  qed
  moreover have "cache_config c3" using cfg by (simp add: cache_config_def c3 fr)
  moreover have "arena_inv (sc_arena c3) (sc_sys c3) (insert r R) (huge_units L)" unfolding c3 using ar by simp
  ultimately show "cinv c3 (insert r R) L U {}" by (simp add: cinv_def c3(6,7))
  have "mem c3 y = mem c y" if "y \<in> used_bytes c L U" for y
  proof -
    from that have "y \<notin> span r (bsz ?lb ?mx)"
    proof (cases rule: used_bytesE)
      case (1 a j)
      show ?thesis by (rule out [OF _ 1(2)]) (use 1(1) in simp)
    next
      case (2 a n)
      then show ?thesis using outL [of a n] by blast
    qed
    then have "mem c1 y = mem (slab_create (c\<lparr>sc_arena := ar, sc_sys := sys\<rparr>) r ?mx (ar_slab_size ar)) y"
      unfolding c1_def using sizeof_le_bsz [OF cfg, of ?mx]
      by (intro poison_outside) (simp_all add: slab_create_def upd_hdr_def sz)
    then show ?thesis by (simp add: c3 slab_create_def upd_hdr_def)
  qed
  then show "keeps c c3 (used_bytes c L U)" using fr q by (simp add: keeps_def c3)
qed

lemma keeps_refl: "keeps c c X"
  by (simp add: keeps_def)

lemma keeps_trans: "keeps c c' X \<Longrightarrow> keeps c' c'' X \<Longrightarrow> keeps c c'' X"
  by (simp add: keeps_def)

lemma same_env_keeps: "same_env c c' \<Longrightarrow> mem c' = mem c \<Longrightarrow> keeps c c' X"
  by (simp add: keeps_def same_env_def)

lemma slab_find_spec:
  assumes "os_ok os" and "cinv c R L U {}" and "i \<le> order_max c"
  shows "\<exists>r c' R'. slab_find os c i = Some (r, c') \<and> cinv c' R' L U {} \<and> keeps c c' (used_bytes c L U) \<and>
    (\<forall>j. r = Some j \<longrightarrow> i \<le> j \<and> j \<le> order_max c \<and> sl_slabs (orders c' ! j) \<noteq> [])"
  using assms(3)
proof (induction "order_max c - i" arbitrary: i)
  case 0
  then have i: "i = order_max c" by simp
  show ?case
  proof (cases "sl_slabs (orders c ! i) = []")
    case False
    then show ?thesis using assms(2) i
      by (intro exI [of _ "Some i"] exI [of _ c] exI [of _ R]) (simp add: slab_find.simps [of os c] keeps_refl)
  next
    case True
    have ai: "arena_inv (sc_arena c) (sc_sys c) R (huge_units L)" using assms(2) by (simp add: cinv_def)
    obtain p ar sys where m: "slab_map os (sc_arena c) (sc_sys c) = Some (p, ar, sys)" "heap sys = heap (sc_sys c)"
      "ar_slab_size ar = ar_slab_size (sc_arena c)" "q_total (ar_quota ar) = q_total (ar_quota (sc_arena c))"
      "p = NULL \<Longrightarrow> arena_inv ar sys R (huge_units L)"
      "p \<noteq> NULL \<Longrightarrow> p \<notin> R \<and> arena_inv ar sys (insert p R) (huge_units L)"
      using slab_map_spec [OF assms(1) ai] by blast
    show ?thesis
    proof (cases "p = NULL")
      case True
      let ?c = "c\<lparr>sc_arena := ar, sc_sys := sys\<rparr>"
      have run: "slab_find os c i = Some (None, ?c)"
        using i m(1) True \<open>sl_slabs (orders c ! i) = []\<close> by (simp add: slab_find.simps [of os c])
      have "huge_inv ?c L" using assms(2) m(2,3) by (simp add: cinv_def huge_inv_def huge_hdr_def)
      moreover have "alloc_inv ?c R L" using assms(2) m(3) unfolding cinv_def alloc_inv_def by simp
      moreover have "cache_config ?c" using assms(2) m(3) by (simp add: cinv_def cache_config_def)
      ultimately have "cinv ?c R L U {}" using assms(2) m(5) [OF True] by (simp add: cinv_def)
      moreover have "keeps c ?c (used_bytes c L U)" using m(3,4) by (simp add: keeps_def)
      ultimately show ?thesis using run by (intro exI [of _ None] exI [of _ ?c] exI [of _ R]) simp
    next
      case False
      note new = cinv_new_root [OF assms(2) _ False _ _ m(3,2,4)]
      let ?c1 = "slab_poison (slab_create (c\<lparr>sc_arena := ar, sc_sys := sys\<rparr>) p (order_max c) (ar_slab_size ar)) p"
      let ?c2 = "?c1\<lparr>allocated := slab_list_add (allocated ?c1) p (sl_size (hdr ?c1 p))\<rparr>"
      let ?c3 = "upd_order (\<lambda>l. slab_list_add l p (sl_size (hdr ?c2 p))) (order_max c) ?c2"
      have run: "slab_find os c i = Some (Some i, ?c3)"
        using i m(1) False \<open>sl_slabs (orders c ! i) = []\<close>
        by (simp add: slab_find.simps [of os c] Let_def slab_create_def upd_hdr_def)
      have ne: "sl_slabs (orders ?c3 ! i) \<noteq> []"
        using i cinv_len [OF assms(2)] by (simp add: slab_create_def upd_hdr_def slab_list_add_def)
      show ?thesis
        using run ne i new [OF True [unfolded i]] m(6) [OF False]
        by (intro exI [of _ "Some i"] exI [of _ ?c3] exI [of _ "insert p R"]) simp
    qed
  qed
next
  case (Suc n)
  then have i: "i < order_max c" by simp
  show ?case
  proof (cases "sl_slabs (orders c ! i) = []")
    case False
    then show ?thesis using assms(2) i
      by (intro exI [of _ "Some i"] exI [of _ c] exI [of _ R]) (simp add: slab_find.simps [of os c] keeps_refl)
  next
    case True
    have "slab_find os c i = slab_find os c (Suc i)" using True i by (subst slab_find.simps) simp
    moreover have "n = order_max c - Suc i" using Suc.hyps(2) by simp
    moreover obtain r c' R' where f: "slab_find os c (Suc i) = Some (r, c')" "cinv c' R' L U {}" "keeps c c' (used_bytes c L U)"
      "\<forall>j. r = Some j \<longrightarrow> Suc i \<le> j \<and> j \<le> order_max c \<and> sl_slabs (orders c' ! j) \<noteq> []"
      using Suc.hyps(1) [of "Suc i"] i calculation(2) by auto
    ultimately show ?thesis by (intro exI [of _ r] exI [of _ c'] exI [of _ R']) (simp add: Suc_le_eq less_imp_le)
  qed
qed

lemma cinv_assert:
  assumes i: "cinv c R L U {}" and x: "(x, k) \<in> U"
  shows "slab_assert c x = Some ()"
proof -
  note us = cinv_used [OF i x]
  have "x = align_down x (bsz (order0_size_lb c) k)" using us(4) by (simp add: align_down_def)
  then show ?thesis using us(1,2) by (simp add: slab_assert_def order_size)
qed

text \<open>Getting an ordered slab: it returns NULL or a new slab of the order, in both cases with the invariant.\<close>

lemma slab_get_with_order_spec:
  assumes ok: "os_ok os" and i: "cinv c R L U {}" and k: "order \<le> order_max c"
  obtains x c' R' where "slab_get_with_order os c order = Some (x, c')" and "keeps c c' (used_bytes c L U)"
    and "x = NULL \<Longrightarrow> cinv c' R' L U {}"
    and "x \<noteq> NULL \<Longrightarrow> (x, order) \<notin> U \<and> cinv c' R' L (insert (x, order) U) {}"
proof -
  obtain r c1 R' where f: "slab_find os c order = Some (r, c1)" "cinv c1 R' L U {}" "keeps c c1 (used_bytes c L U)"
    "\<And>j. r = Some j \<Longrightarrow> order \<le> j \<and> j \<le> order_max c \<and> sl_slabs (orders c1 ! j) \<noteq> []"
    using slab_find_spec [OF ok i k] by blast
  show thesis
  proof (cases r)
    case None
    then have "slab_get_with_order os c order = Some (NULL, c1)" using k f(1) by (simp add: slab_get_with_order_def)
    then show thesis using f by (intro that [of NULL c1 R']) auto
  next
    case (Some j)
    have e1: "order_max c1 = order_max c" "order0_size_lb c1 = order0_size_lb c" using f(3) by (simp_all add: keeps_def)
    have j: "order \<le> j" "j \<le> order_max c1" using f(4) [OF Some] e1 by auto
    obtain x rest where x: "sl_slabs (orders c1 ! j) = x # rest" using f(4) [OF Some] by (cases "sl_slabs (orders c1 ! j)") auto
    let ?lb = "order0_size_lb c1"
    let ?c2 = "upd_order (\<lambda>l. l\<lparr>sl_slabs := tl (sl_slabs l)\<rparr>) j c1"
    let ?c3 = "upd_order (add_total (- int (bsz ?lb j))) j ?c2"
    note tk = cinv_take [OF f(2) j(2) x]
    have hx: "hdr c1 x = slab_hdr ?lb j 0" using cinv_hole(2) [OF tk] by simp
    have x0: "x \<noteq> NULL" using cinv_block_mapped(2) [OF tk, of x j] by simp
    have jl: "j < length (orders c1)" using cinv_len [OF f(2)] j(2) by simp
    have "\<exists>c4. slab_fit ?c2 x j order = Some (upd_order (add_total (int (bsz ?lb order))) order c4) \<and>
        cinv c4 R' L U {(x, order)} \<and> mem c4 = mem c1 \<and> same_env c1 c4"
    proof (cases "j = order")
      case True
      have "upd_order (add_total (int (bsz ?lb order))) order ?c3 = ?c2"
        unfolding True using jl True by (simp add: upd_order_def add_total_def)
      then show ?thesis using tk True hx by (intro exI [of _ ?c3]) (simp add: same_env_def slab_fit_def)
    next
      case False
      then obtain n where n: "j = Suc (order + n)" using j(1) less_iff_Suc_add [of order j] by auto
      obtain c4 where c4: "slab_split_loop ?c3 x order = Some c4" "cinv c4 R' L U {(x, order)}" "mem c4 = mem ?c3" "same_env ?c3 c4"
        using cinv_split_loop [OF tk [unfolded n], folded n] by auto
      have lb: "order0_size_lb c4 = ?lb" using same_env_config(2) [OF c4(4)] by simp
      have "hdr c4 x = slab_hdr ?lb order 0" using cinv_hole(2) [OF c4(2)] lb by simp
      moreover have "same_env c1 c4" using c4(4) by (simp add: same_env_def)
      ultimately show ?thesis using c4 hx False by (intro exI [of _ c4]) (simp add: slab_fit_def)
    qed
    then obtain c4 where c4: "slab_fit ?c2 x j order = Some (upd_order (add_total (int (bsz ?lb order))) order c4)"
        "cinv c4 R' L U {(x, order)}" "mem c4 = mem c1" "same_env c1 c4" by blast
    let ?c5 = "slab_set_used (upd_order (add_total (int (bsz ?lb order))) order c4) x"
    have lb: "order0_size_lb c4 = ?lb" using same_env_config(2) [OF c4(4)] by simp
    note use = cinv_use [OF c4(2), unfolded lb]
    have as: "slab_assert ?c5 x = Some ()" by (rule cinv_assert [OF use(1), of x order]) simp
    have run: "slab_get_with_order os c order = Some (x, ?c5)"
      using k f(1) Some x c4(1) as by (simp add: slab_get_with_order_def Let_def)
    have nu: "(x, order) \<notin> U" using c4(2) by (auto simp: cinv_def lists_inv_def)
    have "keeps c1 ?c5 (used_bytes c L U)"
      using c4(3,4) use(2)
      by (simp add: keeps_def same_env_def slab_set_used_def Let_def upd_hdr_def)
    then have "keeps c ?c5 (used_bytes c L U)" using f(3) keeps_trans by blast
    then show thesis using run x0 nu use(1) by (intro that [of x ?c5 R']) simp_all
  qed
qed

text \<open>Putting an ordered slab back: no assertion fails, it is no longer in use, and the invariant holds.\<close>

lemma slab_put_with_order_spec:
  assumes i: "cinv c R L U {}" and x: "(x, k) \<in> U"
  obtains c' R' where "slab_put_with_order c x = Some c'" and "cinv c' R' L (U - {(x, k)}) {}"
    and "keeps c c' (used_bytes c L (U - {(x, k)}))"
proof -
  let ?lb = "order0_size_lb c" and ?U = "U - {(x, k)}"
  note us = cinv_used [OF i x]
  have as: "slab_assert c x = Some ()" by (rule cinv_assert [OF i x])
  obtain c1 where c1: "slab_set_free c x = Some c1" "mem c1 = mem c" "same_env c c1"
    "cinv (upd_order (add_total (- int (bsz ?lb k))) k c1) R L ?U {(x, k)}" by (rule cinv_set_free [OF i x])
  let ?h1 = "upd_order (add_total (- int (bsz ?lb k))) k c1"
  note e1 = same_env_config [OF c1(3)]
  have k1: "k < length (orders c1)" using cinv_hole(6) [OF c1(4)] by simp
  have hx1: "hdr c1 x = slab_hdr ?lb k 0" using cinv_hole(2) [OF c1(4)] e1 by simp
  obtain b where b: "slab_buddy ?h1 x = Some b" "slab_buddy c1 x = Some b"
    using us(1) hx1 e1 by (cases "k = order_max c") (simp_all add: slab_buddy_def slab_order_size_def)
  have cm: "slab_can_merge ?h1 x b = slab_can_merge c1 x b" by (simp add: slab_can_merge_def slab_is_free_def)
  obtain c2 x2 k2 where l: "slab_merge_loop ?h1 x b = Some (c2, x2)" "cinv c2 R L ?U {(x2, k2)}" "mem c2 = mem ?h1"
    "same_env ?h1 c2" "k2 < order_max ?h1 \<longrightarrow> x2 XOR bsz (order0_size_lb ?h1) k2 \<notin> set (sl_slabs (orders c2 ! k2))"
    using cinv_merge_loop [OF c1(4) b(1)] by blast
  have "same_env c ?h1" using c1(3) by (simp add: same_env_def)
  then have ml: "slab_merge_loop ?h1 x b = Some (c2, x2)" "cinv c2 R L ?U {(x2, k2)}" "mem c2 = mem c1" "same_env c c2"
    "k2 < order_max c \<longrightarrow> x2 XOR bsz ?lb k2 \<notin> set (sl_slabs (orders c2 ! k2))"
    using l same_env_trans [OF _ l(4)] by (simp_all add: e1)
  note e2 = same_env_config [OF ml(4)] and ho = cinv_hole [OF ml(2)]
  let ?c3 = "upd_order (add_total (int (bsz ?lb k2))) k2 c2"
  have step: "slab_coalesce c1 x b = Some (?c3, x2)"
  proof (cases "slab_can_merge c1 x b")
    case True
    then show ?thesis using ml(1) ho(2) hx1 by (simp add: e2 slab_coalesce_def)
  next
    case False
    then have "c2 = ?h1" "x2 = x" using ml(1) cm by (simp_all add: slab_merge_loop.simps [of ?h1])
    moreover have "k2 = k" using ho(2) hx1 e2 calculation by (simp add: slab_hdr_def)
    moreover have "upd_order (add_total (int (bsz ?lb k))) k ?h1 = c1"
      using k1 by (simp add: upd_order_def add_total_def)
    ultimately show ?thesis using False by (simp add: slab_coalesce_def)
  qed
  let ?c4 = "slab_poison c2 x2"
  have i4: "cinv ?c4 R L ?U {(x2, k2)}" using ml(2) by (rule cinv_poison)
  have p3: "slab_poison ?c3 x2 = upd_order (add_total (int (bsz ?lb k2))) k2 ?c4"
    by (intro slab_cache.equality) (simp_all add: slab_poison_def slab_capacity_def fun_eq_iff)
  have kp: "keeps c ?c4 (used_bytes c L ?U)"
  proof -
    have "used_bytes c L ?U = used_bytes c2 L ?U" by (simp add: used_bytes_def e2)
    then have "mem ?c4 y = mem c y" if "y \<in> used_bytes c L ?U" for y
      using poison_hole [OF ml(2), of y] that ml(3) c1(2) by simp
    then show ?thesis using e2 ml(4) by (simp add: keeps_def same_env_def)
  qed
  have put: "slab_put_with_order c x = slab_store (upd_order (add_total (int (bsz ?lb k2))) k2 ?c4) x2"
    using as us(1,2) c1(1) b(2) step p3 by (simp add: slab_put_with_order_def)
  have h4: "hdr ?c4 x2 = slab_hdr ?lb k2 0" using ho(2) e2 by simp
  have mx: "ar_slab_size (sc_arena c2) = bsz ?lb (order_max c)" using ml(2) e2 by (simp add: cinv_def cache_config_def)
  show thesis
  proof (cases "k2 = order_max c \<and> sl_slabs (orders c2 ! k2) \<noteq> []")
    case True
    let ?c5 = "?c4\<lparr>allocated := slab_list_del (allocated ?c4) x2 (ar_slab_size (sc_arena ?c4)),
                  sc_arena := slab_unmap (sc_arena ?c4) x2\<rparr>"
    have "slab_put_with_order c x = Some ?c5"
    proof -
      have t: "k2 = order_max c2" "sl_slabs (orders c2 ! order_max c2) \<noteq> []" using True e2 by auto
      have "sl_size (hdr c2 x2) = ar_slab_size (sc_arena c2)" using h4 mx t e2 by simp
      then show ?thesis
        unfolding put using t e2 h4 ho(6) by (simp add: slab_store_def upd_order_def add_total_def)
    qed
    moreover have "cinv ?c5 (R - {x2}) L ?U {}" using cinv_give_back(1) [of ?c4 R L ?U x2] i4 True e2 by simp
    moreover have "keeps c ?c5 (used_bytes c L ?U)" using kp by (simp add: keeps_def slab_unmap_def)
    ultimately show thesis by (rule that)
  next
    case False
    let ?c5 = "upd_order (\<lambda>l. slab_list_add l x2 (bsz ?lb k2)) k2 ?c4"
    have "slab_put_with_order c x = Some ?c5"
    proof -
      have "\<not> (k2 = order_max c2 \<and> sl_slabs (orders c2 ! k2) \<noteq> [])" using False e2 by simp
      then have "slab_put_with_order c x = Some (upd_order (\<lambda>l. l\<lparr>sl_slabs := x2 # sl_slabs l\<rparr>) k2
          (upd_order (add_total (int (bsz ?lb k2))) k2 ?c4))"
        unfolding put slab_store_def using h4 ho(6) by (auto simp: add_total_def)
      then show ?thesis using ho(6) by (simp add: upd_order_twice slab_list_add_total)
    qed
    moreover have "cinv ?c5 R L ?U {}" using cinv_put [OF i4] False e2 ml(5) by simp
    moreover have "keeps c ?c5 (used_bytes c L ?U)" using kp by (simp add: keeps_def)
    ultimately show thesis by (rule that)
  qed
qed

end
