(* ===== verification/Slab_Cache_Main.thy ===== *)
theory Slab_Cache_Main
  imports Slab_Cache_Ops
begin

text \<open>
  Large slabs, the entry points \<open>slab_get\<close> and \<open>slab_put\<close>, the self check, creation and
  destruction, and the interface of the cache to the allocators built on it.
\<close>

section \<open>Large slabs\<close>

lemma arena_inv_quota:
  assumes i: "arena_inv ar s Out e" and q: "q_total q = q_total (ar_quota ar)" "quota_ok q"
    and u: "q_used q + e = q_used (ar_quota ar) + e'"
    and m: "mapped s' = mapped s" "covered (mapped s) \<inter> taken (heap s') = {}"
  shows "arena_inv (ar\<lparr>ar_quota := q\<rparr>) s' Out e'"
proof -
  have "q_units (ar_slab_size ar) * arena_count ar Out + e \<le> q_used (ar_quota ar)" using i by (simp add: arena_inv_def)
  then have le: "q_units (ar_slab_size ar) * arena_count ar Out + e' \<le> q_used q" using u by linarith
  have cfg: "arena_config (ar\<lparr>ar_quota := q\<rparr>)" using i q(1) by (simp add: arena_inv_def arena_config_def)
  have pl: "slab_placed (ar\<lparr>ar_quota := q\<rparr>) s' a = slab_placed ar s a" for a
    by (simp add: slab_placed_def arena_rest_cong m(1))
  show ?thesis using i le cfg q(2) m
    by (simp add: arena_inv_def arena_slabs_def arena_count_def pl arena_rest_cong)
qed

lemma unat_of_nat_u64: "n < 2 ^ 64 \<Longrightarrow> unat (of_nat n :: u64) = n"
  by (simp add: unsigned_of_nat take_bit_nat_eq_self)

lemma of_nat_le_QUOTA_MAX: "n < 2 ^ 64 \<Longrightarrow> (of_nat n :: u64) \<le> QUOTA_MAX \<longleftrightarrow> n \<le> 1024 * (2 ^ 32 - 1)"
  by (simp add: word_le_nat_alt unat_of_nat_u64 QUOTA_MAX_unat)

lemma of_nat_less_QUOTA_MAX: "n < 2 ^ 64 \<Longrightarrow> (of_nat n :: u64) < QUOTA_MAX \<longleftrightarrow> n < 1024 * (2 ^ 32 - 1)"
  by (simp add: word_less_nat_alt unat_of_nat_u64 QUOTA_MAX_unat)

text \<open>The quota's 32-bit sum cannot wrap for the size.\<close>

definition quota_room :: "slab_cache \<Rightarrow> nat \<Rightarrow> bool" where
  "quota_room c n \<longleftrightarrow> (n \<le> 1024 * (2 ^ 32 - 1) \<longrightarrow> q_total (ar_quota (sc_arena c)) + q_units n < 2 ^ 32)"

lemma cinv_quota: "cinv c R L U H \<Longrightarrow> quota_ok (ar_quota (sc_arena c)) \<and>
    q_total (ar_quota (sc_arena c)) + q_units (ar_slab_size (sc_arena c)) < 2 ^ 32 \<and>
    covered (mapped (sc_sys c)) \<inter> taken (heap (sc_sys c)) = {} \<and> 65536 \<le> ar_slab_size (sc_arena c)"
proof -
  assume i: "cinv c R L U H"
  then have cfg: "arena_config (sc_arena c)" by (simp add: cinv_def arena_inv_def)
  then obtain k where "16 \<le> k" "ar_slab_size (sc_arena c) = 2 ^ k" by (auto simp: arena_config_def)
  then have "(2::nat) ^ 16 \<le> ar_slab_size (sc_arena c)" by (simp only:) (rule power_increasing, simp_all)
  then show ?thesis using i cfg by (simp add: cinv_def arena_inv_def arena_config_def)
qed

lemma huge_insert:
  assumes "finite L" and "p \<notin> L"
  shows "huge_size (insert p L) = huge_size L + snd p" and "huge_units (insert p L) = huge_units L + q_units (snd p)"
  using assms by (simp_all add: huge_size_def huge_units_def)

lemma huge_remove:
  assumes "finite L" and "p \<in> L"
  shows "huge_size L = huge_size (L - {p}) + snd p" and "huge_units L = huge_units (L - {p}) + q_units (snd p)"
  using assms huge_insert [of "L - {p}" p] by (simp_all add: insert_absorb)

lemma cinv_arena:
  assumes i: "cinv c R L U H" and ar: "arena_inv ar s R (huge_units L)" "ar_slab_size ar = ar_slab_size (sc_arena c)"
    and h: "heap s = heap (sc_sys c)"
  shows "cinv (c\<lparr>sc_arena := ar, sc_sys := s\<rparr>) R L U H" (is "cinv ?c R L U H")
proof -
  have "huge_inv ?c L" using i ar(2) h by (simp add: cinv_def huge_inv_def huge_hdr_def)
  moreover have "alloc_inv ?c R L" using i ar(2) by (simp add: cinv_def alloc_inv_def)
  moreover have "cache_config ?c" using i ar(2) by (simp add: cinv_def cache_config_def)
  ultimately show ?thesis using i ar(1) by (simp add: cinv_def)
qed

lemma cinv_add_huge:
  assumes i: "cinv c R L U {}" and x: "x \<noteq> NULL" "span x n \<inter> (covered (mapped (sc_sys c)) \<union> taken (heap (sc_sys c))) = {}"
    and n: "slab_sizeof \<le> n" "n < 1024 * (2 ^ 32 - 1)"
    and ar: "arena_inv ar s R (huge_units L + q_units n)" "ar_slab_size ar = ar_slab_size (sc_arena c)"
    and s: "heap s = (x, n) # heap (sc_sys c)"
  defines "c' \<equiv> c\<lparr>sc_arena := ar, sc_sys := s, hdr := (hdr c)(x := huge_hdr c n),
                   allocated := add_used (int n) (slab_list_add (allocated c) x n)\<rparr>"
  shows "(x, n) \<notin> L" and "cinv c' R (insert (x, n) L) U {}"
proof -
  let ?lb = "order0_size_lb c" and ?mx = "order_max c"
  have n0: "x \<in> span x n" using n(1) by (simp add: slab_sizeof_48)
  have fin: "finite L" using i by (simp add: cinv_def huge_inv_def)
  have hb: "x \<noteq> a" if "(a, k) \<in> free_blocks ?mx (orders c) \<union> U" for a k
  proof -
    have "a \<in> covered (mapped (sc_sys c))"
      using cinv_block_mapped(1) [OF i, of a k] that start_in_tile [of a ?lb k] by blast
    then show ?thesis using x(2) n0 by blast
  qed
  have hl: "span a m \<inter> span x n = {} \<and> a \<noteq> x" if "(a, m) \<in> L" for a m
  proof -
    have sub: "span a m \<subseteq> taken (heap (sc_sys c))" using cinv_huge(1) [OF i that] covered_taken by blast
    moreover have "a \<in> span a m" using cinv_huge(3) [OF i that] by simp
    ultimately show ?thesis using x(2) n0 by blast
  qed
  then show nl: "(x, n) \<notin> L" by blast
  have rr: "x \<notin> R"
  proof
    assume "x \<in> R"
    then obtain k where "(x, k) \<in> free_blocks ?mx (orders c) \<union> U \<union> {}" by (rule tiling_at_root [OF cinv_blocks(1) [OF i]])
    then show False using hb [of x k] by simp
  qed
  have hu: "huge_inv c' (insert (x, n) L)"
  proof -
    have h: "huge_inv c L" using i by (simp add: cinv_def)
    have "span x n \<inter> taken (heap (sc_sys c)) = {}" using x(2) by blast
    then have low: "x + n \<le> 2 ^ 63" by (rule span_low) (use n(1) in \<open>simp add: slab_sizeof_48\<close>)
    have "hdr c' a = hdr c a" if "(a, m) \<in> L" for a m using hl [OF that] by (simp add: c'_def)
    moreover have "huge_hdr c' m = huge_hdr c m" for m by (simp add: huge_hdr_def c'_def)
    ultimately have "\<forall>(a, m) \<in> insert (x, n) L. a \<noteq> NULL \<and> hdr c' a = huge_hdr c' m \<and> slab_sizeof \<le> m \<and>
        m < 1024 * (2 ^ 32 - 1) \<and> a + m \<le> 2 ^ 63 \<and> (a, m) \<in> set (heap (sc_sys c'))"
      using h x(1) n ar(2) s low unfolding huge_inv_def by (auto simp: c'_def)
    moreover have "\<forall>(a, m) \<in> insert (x, n) L. \<forall>(b, k) \<in> insert (x, n) L. (a, m) \<noteq> (b, k) \<longrightarrow> span a m \<inter> span b k = {}"
    proof -
      have "span a m \<inter> span b k = {}" if ab: "(a, m) \<in> insert (x, n) L" "(b, k) \<in> insert (x, n) L" "(a, m) \<noteq> (b, k)" for a m b k
      proof (cases "(a, m) \<in> L \<and> (b, k) \<in> L")
        case True
        have "\<forall>(a, n) \<in> L. \<forall>(b, m) \<in> L. (a, n) \<noteq> (b, m) \<longrightarrow> span a n \<inter> span b m = {}" using h by (simp add: huge_inv_def)
        then show ?thesis using True ab(3) by fast
      next
        case False
        then consider "(a, m) = (x, n)" "(b, k) \<in> L" | "(b, k) = (x, n)" "(a, m) \<in> L" using ab by blast
        then show ?thesis using hl [of a m] hl [of b k] by cases (simp_all add: Int_commute)
      qed
      then show ?thesis by blast
    qed
    ultimately show ?thesis using fin by (simp add: huge_inv_def)
  qed
  have al: "alloc_inv c' R (insert (x, n) L)"
  proof -
    have a: "alloc_inv c R L" using i by (simp add: cinv_def)
    have "x \<notin> fst ` L" using hl by force
    then show ?thesis using a rr huge_insert(1) [OF fin nl] ar(2)
      by (auto simp: alloc_inv_def c'_def add_used_def slab_list_add_def)
  qed
  have hd: "hdrs_inv ?lb (hdr c') (free_blocks ?mx (orders c) \<union> {}) U"
  proof -
    have h: "hdrs_inv ?lb (hdr c) (free_blocks ?mx (orders c) \<union> {}) U" using i by (simp add: cinv_def)
    show ?thesis using hb
      by (intro hdrs_change [OF h, where N = "{}" and N' = "{}"]) (auto simp: c'_def)
  qed
  have "cache_config c'" using i ar(2) by (simp add: cinv_def cache_config_def c'_def)
  then show "cinv c' R (insert (x, n) L) U {}"
    using i al hu hd ar(1) huge_insert(2) [OF fin nl] by (simp add: cinv_def c'_def)
qed

lemma slab_get_large_spec:
  assumes ok: "os_ok os" and i: "cinv c R L U {}" and n: "n = sz + slab_sizeof" "n < 2 ^ 64"
    and room: "quota_room c n"
  obtains x c' where "slab_get_large os c sz = Some (x, c')" and "keeps c c' (used_bytes c L U)"
    and "x = NULL \<Longrightarrow> cinv c' R L U {}"
    and "x \<noteq> NULL \<Longrightarrow> (x, n) \<notin> L \<and> cinv c' R (insert (x, n) L) U {}"
proof -
  let ?ar = "sc_arena c"
  note cq = cinv_quota [OF i]
  have ai: "arena_inv ?ar (sc_sys c) R (huge_units L)" using i by (simp add: cinv_def)
  have un: "unat (of_nat n :: u64) = n" using n(2) by (rule unat_of_nat_u64)
  have big: "slab_sizeof \<le> n" using n(1) by simp
  then have "0 < n" by (simp add: slab_sizeof_48)
  then have nz: "of_nat n \<noteq> (0 :: u64)" using un by (metis gr_implies_not0 unat_0)
  have rm: "of_nat n \<le> QUOTA_MAX \<Longrightarrow> q_used (ar_quota ?ar) + q_units (unat (of_nat n :: u64)) < 2 ^ 32"
    using room cq unfolding un of_nat_le_QUOTA_MAX [OF n(2)] quota_room_def quota_ok_def by linarith
  have m: "(sz + slab_sizeof) mod 2 ^ 64 = n" using n by simp
  from rm show thesis
  proof (cases rule: quota_use_try [OF nz, of "ar_quota ?ar", case_names hyp no yes])
    case no
    then have "slab_get_large os c sz = Some (NULL, c)"
      unfolding slab_get_large_def m Let_def by simp
    then show thesis using i by (intro that [of NULL c]) (simp_all add: keeps_refl)
  next
    case (yes r q)
    note y = yes [unfolded un]
    obtain x s where mal: "os_malloc os (sc_sys c) n = (x, s)" by force
    note mc = os_malloc_cases [OF ok mal]
    show thesis
    proof (cases "x = NULL")
      case True
      have lt: "of_nat n < QUOTA_MAX"
      proof -
        have "q_units n \<le> q_total (ar_quota ?ar)" using y(4,5,6) by (simp add: quota_ok_def)
        moreover have "0 < q_units (ar_slab_size ?ar)" using cq by (simp add: q_units_pos)
        ultimately have "q_units n < 2 ^ 32 - 1" using cq by linarith
        then show ?thesis using q_units_bounds [of n] by (simp add: of_nat_less_QUOTA_MAX [OF n(2)])
      qed
      obtain r' q' where q': "quota_release q (of_nat n) = Some (r', q')"
          "q_used q' = q_used (ar_quota ?ar)" "q_total q' = q_total (ar_quota ?ar)"
        by (rule quota_release_effect [OF lt nz, of q]) (use y un in simp_all)
      let ?c = "c\<lparr>sc_arena := ?ar\<lparr>ar_quota := q'\<rparr>, sc_sys := s\<rparr>"
      have run: "slab_get_large os c sz = Some (NULL, ?c)"
        unfolding slab_get_large_def m Let_def using y(1,2) mal True q'(1) by simp
      have ms: "mapped s = mapped (sc_sys c)" "heap s = heap (sc_sys c)" using mc True by auto
      have "arena_inv (?ar\<lparr>ar_quota := q'\<rparr>) s R (huge_units L)"
        using cq ms q' by (intro arena_inv_quota [OF ai]) (simp_all add: quota_ok_def)
      then have "cinv ?c R L U {}" using ms(2) by (intro cinv_arena [OF i]) simp_all
      then show thesis using run q' True by (intro that [of NULL ?c]) (simp_all add: keeps_def)
    next
      case False
      have ms: "mapped s = mapped (sc_sys c)" "heap s = (x, n) # heap (sc_sys c)"
        "span x n \<inter> (covered (mapped (sc_sys c)) \<union> taken (heap (sc_sys c))) = {}" using mc False by auto
      have nb: "n < 1024 * (2 ^ 32 - 1)"
      proof -
        have "q_units n \<le> q_total (ar_quota ?ar)" using y(4,5,6) by (simp add: quota_ok_def)
        moreover have "0 < q_units (ar_slab_size ?ar)" using cq by (simp add: q_units_pos)
        ultimately have "q_units n < 2 ^ 32 - 1" using cq by linarith
        then show ?thesis using q_units_bounds [of n] by simp
      qed
      have cov: "covered (mapped (sc_sys c)) \<inter> taken (heap s) = {}" using cq ms by auto
      have ar: "arena_inv (?ar\<lparr>ar_quota := q\<rparr>) s R (huge_units L + q_units n)"
        using y ms(1) cov by (intro arena_inv_quota [OF ai]) simp_all
      let ?c = "c\<lparr>sc_arena := ?ar\<lparr>ar_quota := q\<rparr>, sc_sys := s, hdr := (hdr c)(x := huge_hdr c n),
                   allocated := add_used (int n) (slab_list_add (allocated c) x n)\<rparr>"
      have run: "slab_get_large os c sz = Some (x, ?c)"
        unfolding slab_get_large_def m Let_def using y(1,2) mal False
        by (simp add: slab_create_def upd_hdr_def huge_hdr_def)
      note new = cinv_add_huge [OF i False ms(3) big nb ar _ ms(2)]
      show thesis using run new False y(5) by (intro that [of x ?c]) (simp_all add: keeps_def)
    qed
  qed
qed

lemma slab_put_large_spec:
  assumes i: "cinv c R L U {}" and x: "(x, n) \<in> L"
  obtains c' where "slab_put_large c x = Some c'" and "cinv c' R (L - {(x, n)}) U {}"
    and "keeps c c' (used_bytes c (L - {(x, n)}) U)"
proof -
  let ?ar = "sc_arena c" and ?L = "L - {(x, n)}"
  note h = cinv_huge [OF i x] and cq = cinv_quota [OF i]
  have hi: "huge_inv c L" and ai: "arena_inv ?ar (sc_sys c) R (huge_units L)" and al: "alloc_inv c R L"
    using i by (simp_all add: cinv_def)
  have fin: "finite L" using hi by (simp add: huge_inv_def)
  note rm = huge_remove [OF fin x, unfolded snd_conv]
  have n64: "n < 2 ^ 64" using h(6) by simp
  have un: "unat (of_nat n :: u64) = n" using n64 by (rule unat_of_nat_u64)
  have lt: "of_nat n < QUOTA_MAX" using h(6) of_nat_less_QUOTA_MAX [OF n64] by simp
  have nz: "of_nat n \<noteq> (0 :: u64)" using un h(3) by (metis gr_implies_not0 unat_0)
  have us: "q_units (unat (of_nat n :: u64)) \<le> q_used (ar_quota ?ar)" using ai rm(2) un by (simp add: arena_inv_def)
  obtain r q where q: "quota_release (ar_quota ?ar) (of_nat n) = Some (r, q)"
      "q_used q = q_used (ar_quota ?ar) - q_units n" "q_total q = q_total (ar_quota ?ar)"
    by (rule quota_release_effect [OF lt nz us]) (use un in simp)
  let ?s = "os_free (sc_sys c) x"
  let ?c = "(slab_poison (c\<lparr>allocated := add_used (- int n) (slab_list_del (allocated c) x n),
               sc_arena := ?ar\<lparr>ar_quota := q\<rparr>\<rparr>) x)\<lparr>sc_sys := ?s\<rparr>"
  have as: "slab_assert c x = Some ()" using h(2) by (simp add: slab_assert_def huge_hdr_def)
  have run: "slab_put_large c x = Some ?c"
    using as q(1) h(2) by (simp add: slab_put_large_def huge_hdr_def Let_def)
  have dis: "span a m \<inter> span x n = {} \<and> a \<noteq> x" if am: "(a, m) \<in> ?L" for a m
  proof -
    have "\<forall>(a, n) \<in> L. \<forall>(b, m) \<in> L. (a, n) \<noteq> (b, m) \<longrightarrow> span a n \<inter> span b m = {}" using hi by (simp add: huge_inv_def)
    then have d: "span a m \<inter> span x n = {}" using am x by fast
    moreover have "a \<in> span a m" "x \<in> span x n" using cinv_huge(3) [OF i, of a m] am h(3) by simp_all
    ultimately show ?thesis by blast
  qed
  have hp: "taken (heap ?s) \<subseteq> taken (heap (sc_sys c))" unfolding os_free_def using taken_filter by simp
  have ar: "arena_inv (?ar\<lparr>ar_quota := q\<rparr>) ?s R (huge_units ?L)"
  proof (rule arena_inv_quota [OF ai q(3)])
    show "quota_ok q" using cq q(2,3) unfolding quota_ok_def by linarith
    show "q_used q + huge_units L = q_used (ar_quota ?ar) + huge_units ?L" using q(2) rm(2) us un by simp
    show "mapped ?s = mapped (sc_sys c)" by (simp add: os_free_def)
    show "covered (mapped (sc_sys c)) \<inter> taken (heap ?s) = {}" using hp cq by blast
  qed
  have hu: "huge_inv ?c ?L"
  proof -
    have "\<forall>(a, m) \<in> ?L. a \<noteq> NULL \<and> hdr ?c a = huge_hdr ?c m \<and> slab_sizeof \<le> m \<and>
        m < 1024 * (2 ^ 32 - 1) \<and> a + m \<le> 2 ^ 63 \<and> (a, m) \<in> set (heap (sc_sys ?c))"
    proof -
      have "a \<noteq> NULL \<and> hdr ?c a = huge_hdr ?c m \<and> slab_sizeof \<le> m \<and>
        m < 1024 * (2 ^ 32 - 1) \<and> a + m \<le> 2 ^ 63 \<and> (a, m) \<in> set (heap (sc_sys ?c))" if am: "(a, m) \<in> ?L" for a m
      proof -
        have l: "(a, m) \<in> L" using am by blast
        have "a \<noteq> x" using dis [OF am] by blast
        moreover have "(a, m) \<in> set (heap (sc_sys c))" using hi l unfolding huge_inv_def by blast
        ultimately have "(a, m) \<in> set (heap (sc_sys ?c))" by (simp add: os_free_def)
        then show ?thesis using cinv_huge [OF i l] by (simp add: huge_hdr_def)
      qed
      then show ?thesis by blast
    qed
    moreover have "\<forall>(a, n) \<in> ?L. \<forall>(b, m) \<in> ?L. (a, n) \<noteq> (b, m) \<longrightarrow> span a n \<inter> span b m = {}"
    proof -
      have "\<forall>(a, n) \<in> L. \<forall>(b, m) \<in> L. (a, n) \<noteq> (b, m) \<longrightarrow> span a n \<inter> span b m = {}" using hi by (simp add: huge_inv_def)
      then show ?thesis by fast
    qed
    ultimately show ?thesis using fin by (simp add: huge_inv_def)
  qed
  have al': "alloc_inv ?c R ?L"
  proof -
    have d: "distinct (sl_slabs (allocated c))" "set (sl_slabs (allocated c)) = R \<union> fst ` L" "R \<inter> fst ` L = {}"
      using al by (simp_all add: alloc_inv_def)
    have "fst ` ?L = fst ` L - {x}" using dis by force
    moreover have "x \<in> fst ` L" using x by force
    ultimately have "set (remove1 x (sl_slabs (allocated c))) = R \<union> fst ` ?L" "R \<inter> fst ` ?L = {}"
      using d by (auto simp: set_remove1_eq)
    then show ?thesis using al d(1) rm(1) by (simp add: alloc_inv_def add_used_def slab_list_del_def)
  qed
  have "cache_config ?c" using i by (simp add: cinv_def cache_config_def)
  then have "cinv ?c R ?L U {}" using i al' hu ar by (simp add: cinv_def)
  moreover have "keeps c ?c (used_bytes c ?L U)"
  proof -
    let ?c0 = "c\<lparr>allocated := add_used (- int n) (slab_list_del (allocated c) x n), sc_arena := ?ar\<lparr>ar_quota := q\<rparr>\<rparr>"
    have "mem (slab_poison ?c0 x) y = mem c y" if y: "y \<in> used_bytes c ?L U" for y
    proof -
      have "y \<notin> span x n"
        using y
      proof (cases rule: used_bytesE)
        case (1 a j)
        then show ?thesis using cinv_block_huge(1) [OF i, of a j x n] x by blast
      next
        case (2 a m)
        then show ?thesis using dis [of a m] by blast
      qed
      then have "mem (slab_poison ?c0 x) y = mem ?c0 y"
        using h(2,5) cq by (intro poison_outside) (simp_all add: huge_hdr_def slab_sizeof_48)
      then show ?thesis by simp
    qed
    then show ?thesis using q(3) by (simp add: keeps_def)
  qed
  ultimately show thesis using run by (intro that)
qed

section \<open>Orders\<close>

text \<open>\<open>slab_order\<close> finds the smallest order whose slabs hold the size.\<close>

lemma slab_order_spec:
  assumes cfg: "cache_config c" and ar: "ar_slab_size (sc_arena c) < 2 ^ 32" and sz: "sz \<le> ar_slab_size (sc_arena c)"
  shows "slab_order c sz \<le> order_max c" and "sz \<le> bsz (order0_size_lb c) (slab_order c sz)"
    and "k < slab_order c sz \<Longrightarrow> bsz (order0_size_lb c) k < sz"
proof -
  let ?lb = "order0_size_lb c" and ?mx = "order_max c"
  have c: "order0_size c = 2 ^ ?lb" "ar_slab_size (sc_arena c) = bsz ?lb ?mx" "?mx < 16"
    using cfg by (simp_all add: cache_config_def ORDER_MAX_def)
  have "slab_order c sz \<le> ?mx \<and> sz \<le> bsz ?lb (slab_order c sz) \<and> (\<forall>k < slab_order c sz. bsz ?lb k < sz)"
  proof (cases "sz \<le> 2 ^ ?lb")
    case True
    then have "slab_order c sz = 0" by (simp add: slab_order_def c)
    then show ?thesis using True by (simp add: bsz_def)
  next
    case False
    define m where "m = ilog2 (sz - 1)"
    have pos: "0 < sz - 1" using False by (metis Suc_lessI diff_is_0_eq gr0I not_le one_le_numeral one_le_power le_trans nat_le_linear)
    have b: "2 ^ m \<le> sz - 1" "sz - 1 < 2 ^ Suc m" using ilog2_bounds [OF pos] by (simp_all add: m_def)
    have "(2::nat) ^ ?lb < 2 ^ Suc m" using b(2) False by linarith
    then have lm: "?lb \<le> m" by (simp only: power_strict_increasing_iff one_less_numeral_iff semiring_norm less_Suc_eq_le)
    have "(2::nat) ^ m < 2 ^ (?mx + ?lb)" using b(1) sz pos unfolding c(2) bsz_def by linarith
    then have mm: "m < ?mx + ?lb" by (simp only: power_strict_increasing_iff one_less_numeral_iff semiring_norm)
    have "(sz - 1) mod 2 ^ 32 = sz - 1" using sz ar by (intro mod_less) linarith
    then have o: "slab_order c sz = Suc m - ?lb"
      using False sz mm c(3) by (simp add: slab_order_def c(1) m_def del: One_nat_def)
    have "bsz ?lb (Suc m - ?lb) = 2 ^ Suc m" using lm by (simp add: bsz_def Suc_diff_le)
    moreover have "bsz ?lb k < sz" if "k < Suc m - ?lb" for k
    proof -
      have "bsz ?lb k \<le> 2 ^ m" unfolding bsz_def using that by (intro power_increasing) simp_all
      then show ?thesis using b(1) pos by linarith
    qed
    ultimately show ?thesis using mm b(2) lm unfolding o by auto
  qed
  then show "slab_order c sz \<le> ?mx" "sz \<le> bsz ?lb (slab_order c sz)" "k < slab_order c sz \<Longrightarrow> bsz ?lb k < sz" by blast+
qed

lemma slab_order_large: "cache_config c \<Longrightarrow> ar_slab_size (sc_arena c) < sz \<Longrightarrow> slab_order c sz = order_max c + 1"
proof -
  assume a: "cache_config c" "ar_slab_size (sc_arena c) < sz"
  have "(2::nat) ^ order0_size_lb c \<le> bsz (order0_size_lb c) (order_max c)" by (simp add: bsz_def)
  then show ?thesis using a by (simp add: slab_order_def cache_config_def)
qed

section \<open>The cache as its clients see it\<close>

text \<open>
  A client sees a set \<open>V\<close> of slabs it was given, each an address and a size. \<open>cache_inv c V\<close> hides
  the roots and the kinds of slabs.
\<close>

definition given :: "slab_cache \<Rightarrow> (addr \<times> nat) set \<Rightarrow> block set \<Rightarrow> (addr \<times> nat) set" where
  "given c L U = (\<lambda>(a, k). (a, bsz (order0_size_lb c) k)) ` U \<union> L"

definition cache_inv :: "slab_cache \<Rightarrow> (addr \<times> nat) set \<Rightarrow> bool" where
  "cache_inv c V \<longleftrightarrow> (\<exists>R L U. cinv c R L U {} \<and> V = given c L U)"

lemma cache_invI: "cinv c R L U {} \<Longrightarrow> V = given c L U \<Longrightarrow> cache_inv c V"
  by (auto simp: cache_inv_def)

definition slab_bytes :: "(addr \<times> nat) set \<Rightarrow> addr set" where
  "slab_bytes V = (\<Union>(a, n) \<in> V. span a n)"

lemma used_bytes_given: "used_bytes c L U = slab_bytes (given c L U)"
  by (auto simp: used_bytes_def slab_bytes_def given_def tile_def)

lemma given_cases:
  assumes "(a, n) \<in> given c L U"
  obtains k where "(a, k) \<in> U" and "n = bsz (order0_size_lb c) k" | "(a, n) \<in> L"
  using assms by (auto simp: given_def)

lemma keeps_given: "keeps c c' X \<Longrightarrow> given c' L U = given c L U"
  by (simp add: given_def keeps_def)

lemma given_insert:
  "given c L (insert (x, k) U) = insert (x, bsz (order0_size_lb c) k) (given c L U)"
  "given c (insert p L) U = insert p (given c L U)"
  by (auto simp: given_def)

text \<open>Slabs in use never overlap, have their size in the header, and start at an address that is not NULL.\<close>

lemma cache_inv_slab:
  assumes "cache_inv c V" and "(a, n) \<in> V"
  shows "a \<noteq> NULL" and "sl_size (hdr c a) = n" and "slab_sizeof \<le> n" and "sl_magic (hdr c a) = slab_magic"
    and "sl_order (hdr c a) \<le> order_max c \<Longrightarrow> n dvd a"
proof -
  obtain R L U where i: "cinv c R L U {}" and V: "V = given c L U" using assms(1) by (auto simp: cache_inv_def)
  have cfg: "cache_config c" using i by (simp add: cinv_def)
  note m = assms(2) [unfolded V]
  have "a \<noteq> NULL \<and> sl_size (hdr c a) = n \<and> slab_sizeof \<le> n \<and> sl_magic (hdr c a) = slab_magic \<and>
    (sl_order (hdr c a) \<le> order_max c \<longrightarrow> n dvd a)"
    using m
  proof (cases rule: given_cases)
    case (1 k)
    then show ?thesis
      using cinv_used [OF i 1(1)] cinv_block_mapped(2) [OF i, of a k] sizeof_le_bsz [OF cfg, of k] by simp
  next
    case 2
    then show ?thesis using cinv_huge [OF i 2] cinv_quota [OF i] by (simp add: huge_hdr_def slab_sizeof_48)
  qed
  then show "a \<noteq> NULL" "sl_size (hdr c a) = n" "slab_sizeof \<le> n" "sl_magic (hdr c a) = slab_magic"
    "sl_order (hdr c a) \<le> order_max c \<Longrightarrow> n dvd a" by blast+
qed

lemma cache_inv_disjoint:
  assumes "cache_inv c V" and "(a, n) \<in> V" and "(b, m) \<in> V" and "(a, n) \<noteq> (b, m)"
  shows "span a n \<inter> span b m = {}"
proof -
  obtain R L U where i: "cinv c R L U {}" and V: "V = given c L U" using assms(1) by (auto simp: cache_inv_def)
  note t = cinv_blocks(1) [OF i]
  have hl: "\<forall>(a, n) \<in> L. \<forall>(b, m) \<in> L. (a, n) \<noteq> (b, m) \<longrightarrow> span a n \<inter> span b m = {}"
    using i by (simp add: cinv_def huge_inv_def)
  from assms(2) [unfolded V] show ?thesis
  proof (cases rule: given_cases)
    case (1 k)
    from assms(3) [unfolded V] show ?thesis
    proof (cases rule: given_cases)
      case (1 j)
      then show ?thesis
        using tiling_disjoint [OF t, of a k b j] \<open>(a, k) \<in> U\<close> \<open>n = bsz (order0_size_lb c) k\<close> assms(4) by auto
    next
      case 2
      then show ?thesis using cinv_block_huge(1) [OF i, of a k b m] 1 by simp
    qed
  next
    case 2
    from assms(3) [unfolded V] show ?thesis
    proof (cases rule: given_cases)
      case (1 j)
      then show ?thesis using cinv_block_huge(1) [OF i, of b j a n] 2 by (simp add: Int_commute)
    next
      case l: 2
      show ?thesis using hl 2 l assms(4) by fast
    qed
  qed
qed

lemma cache_inv_fun: "cache_inv c V \<Longrightarrow> (a, n) \<in> V \<Longrightarrow> (a, m) \<in> V \<Longrightarrow> n = m"
  using cache_inv_slab(2) by metis

lemma cache_inv_arena_size:
  assumes "cinv c R L U H"
  shows "ar_slab_size (sc_arena c) < 2 ^ 32" and "cache_config c"
proof -
  have "arena_config (sc_arena c)" using assms by (simp add: cinv_def arena_inv_def)
  then show "ar_slab_size (sc_arena c) < 2 ^ 32" by (rule arena_config_size(2))
  show "cache_config c" using assms by (simp add: cinv_def)
qed

lemma slab_real_size_spec:
  assumes cfg: "cache_config c" and ar: "ar_slab_size (sc_arena c) < 2 ^ 32" and n: "sz + slab_sizeof < 2 ^ 64"
  shows "slab_real_size c sz = Some (if sz + slab_sizeof \<le> ar_slab_size (sc_arena c)
    then bsz (order0_size_lb c) (slab_order c (sz + slab_sizeof)) else sz + slab_sizeof)"
proof (cases "sz + slab_sizeof \<le> ar_slab_size (sc_arena c)")
  case True
  note o = slab_order_spec [OF cfg ar True]
  have "slab_order c (sz + slab_sizeof) \<noteq> order_max c + 1" using o(1) by simp
  then show ?thesis using n True o(1) by (simp add: slab_real_size_def Let_def order_size)
next
  case False
  then show ?thesis using n slab_order_large [OF cfg, of "sz + slab_sizeof"] by (simp add: slab_real_size_def Let_def)
qed

lemma keeps_real_size: "keeps c c' X \<Longrightarrow> slab_real_size c' sz = slab_real_size c sz"
proof -
  assume k: "keeps c c' X"
  have "order_max c' = order_max c" "order0_size_lb c' = order0_size_lb c" "order0_size c' = order0_size c"
    "ar_slab_size (sc_arena c') = ar_slab_size (sc_arena c)" using k by (simp_all add: keeps_def)
  then show ?thesis by (simp only: slab_real_size_def slab_order_def slab_order_size_def)
qed

text \<open>Slabs in use keep their order, which tells ordered slabs from large ones.\<close>

definition same_orders :: "slab_cache \<Rightarrow> slab_cache \<Rightarrow> (addr \<times> nat) set \<Rightarrow> bool" where
  "same_orders c c' V \<longleftrightarrow> (\<forall>(a, n) \<in> V. sl_order (hdr c' a) = sl_order (hdr c a))"

lemma same_ordersI:
  assumes i: "cinv c R L U {}" "cinv c' R' L' U' {}" and k: "keeps c c' X"
    and s: "L0 \<subseteq> L" "L0 \<subseteq> L'" "U0 \<subseteq> U" "U0 \<subseteq> U'"
  shows "same_orders c c' (given c L0 U0)"
proof -
  have "sl_order (hdr c' a) = sl_order (hdr c a)" if "(a, n) \<in> given c L0 U0" for a n
    using that
  proof (cases rule: given_cases)
    case (1 j)
    then have "(a, j) \<in> U" "(a, j) \<in> U'" using s by blast+
    then show ?thesis using cinv_used(2) [OF i(1)] cinv_used(2) [OF i(2)] by (simp add: slab_hdr_def)
  next
    case 2
    then have "(a, n) \<in> L" "(a, n) \<in> L'" using s by blast+
    moreover have "order_max c' = order_max c" using k by (simp add: keeps_def)
    ultimately show ?thesis using cinv_huge(2) [OF i(1)] cinv_huge(2) [OF i(2)] by (simp add: huge_hdr_def)
  qed
  then show ?thesis by (auto simp: same_orders_def)
qed

text \<open>What \<open>slab_get\<close> promises: NULL, or a new slab of the advertised size.\<close>

definition slab_granted :: "slab_cache \<Rightarrow> nat \<Rightarrow> (addr \<times> nat) set \<Rightarrow> addr \<Rightarrow> slab_cache \<Rightarrow> bool" where
  "slab_granted c sz V x c' \<longleftrightarrow>
     (if x = NULL then cache_inv c' V
      else \<exists>n. slab_real_size c sz = Some n \<and> sz + slab_sizeof \<le> n \<and> (x, n) \<notin> V \<and> cache_inv c' (insert (x, n) V) \<and>
        (n \<le> ar_slab_size (sc_arena c) \<longrightarrow> sl_order (hdr c' x) \<le> order_max c))"

lemma slab_get_spec:
  assumes ok: "os_ok os" and i: "cache_inv c V" and n: "sz + slab_sizeof < 2 ^ 64"
    and room: "ar_slab_size (sc_arena c) < sz + slab_sizeof \<Longrightarrow> quota_room c (sz + slab_sizeof)"
  shows "\<exists>x c'. slab_get os c sz = Some (x, c') \<and> keeps c c' (slab_bytes V) \<and> slab_granted c sz V x c' \<and> same_orders c c' V"
proof -
  obtain R L U where ci: "cinv c R L U {}" and V: "V = given c L U" using i by (auto simp: cache_inv_def)
  note ca = cache_inv_arena_size [OF ci]
  let ?n = "sz + slab_sizeof"
  have md: "?n mod 2 ^ 64 = ?n" using n by (rule mod_less)
  note rs = slab_real_size_spec [OF ca(2,1) n]
  show ?thesis
  proof (cases "?n \<le> ar_slab_size (sc_arena c)")
    case True
    let ?k = "slab_order c ?n"
    note o = slab_order_spec [OF ca(2,1) True]
    obtain x c' R' where g: "slab_get_with_order os c ?k = Some (x, c')" "keeps c c' (used_bytes c L U)"
      "x = NULL \<Longrightarrow> cinv c' R' L U {}" "x \<noteq> NULL \<Longrightarrow> (x, ?k) \<notin> U \<and> cinv c' R' L (insert (x, ?k) U) {}"
      using slab_get_with_order_spec [OF ok ci o(1)] by blast
    have lb: "order0_size_lb c' = order0_size_lb c" using g(2) by (simp add: keeps_def)
    have real: "slab_real_size c' sz = Some (bsz (order0_size_lb c) ?k)" "slab_real_size c sz = Some (bsz (order0_size_lb c) ?k)"
      using rs True keeps_real_size [OF g(2), of sz] by simp_all
    have ord: "?k \<noteq> order_max c + 1" using o(1) by simp
    have so: "same_orders c c' V" unfolding V
      using g(3,4) by (cases "x = NULL") (auto intro!: same_ordersI [OF ci _ g(2)])
    show ?thesis
    proof (cases "x = NULL")
      case True
      then have "slab_get os c sz = Some (x, c')" using g(1) md ord by (simp add: slab_get_def Let_def)
      moreover have "cache_inv c' V" unfolding cache_inv_def V
        using g(3) [OF True] keeps_given [OF g(2), of L U] by (intro exI conjI) (assumption, simp)
      ultimately show ?thesis using g(2) True so by (auto simp: slab_granted_def used_bytes_given V)
    next
      case False
      note g4 = g(4) [OF False]
      have sz: "sl_size (hdr c' x) = bsz (order0_size_lb c) ?k" "sl_order (hdr c' x) = ?k"
        using cinv_blocks(3) [of c' R' L "insert (x, ?k) U" "{}" x ?k] g4 lb by (simp_all add: slab_hdr_def)
      have "slab_get os c sz = Some (x, c')" using g(1) md ord False real(1) sz by (simp add: slab_get_def Let_def)
      moreover have new: "(x, bsz (order0_size_lb c) ?k) \<notin> V"
      proof
        assume "(x, bsz (order0_size_lb c) ?k) \<in> V"
        then show False unfolding V
        proof (cases rule: given_cases)
          case (1 j)
          then show False using g4 by simp
        next
          case 2
          then show False using cinv_block_huge(2) [of c' R' L "insert (x, ?k) U" "{}" x ?k x] g4 by blast
        qed
      qed
      moreover have "cache_inv c' (insert (x, bsz (order0_size_lb c) ?k) V)" unfolding cache_inv_def V
        using g4 keeps_given [OF g(2), of L U] given_insert(1) [of c' L x ?k U] lb by (metis (no_types))
      ultimately show ?thesis using g(2) False real(2) o(1,2) so sz(2) by (auto simp: slab_granted_def used_bytes_given V)
    qed
  next
    case False
    then have big: "ar_slab_size (sc_arena c) < ?n" by simp
    obtain x c' where g: "slab_get_large os c sz = Some (x, c')" "keeps c c' (used_bytes c L U)"
      "x = NULL \<Longrightarrow> cinv c' R L U {}" "x \<noteq> NULL \<Longrightarrow> (x, ?n) \<notin> L \<and> cinv c' R (insert (x, ?n) L) U {}"
      using slab_get_large_spec [OF ok ci refl n room [OF big]] by blast
    have ord: "slab_order c ?n = order_max c + 1" using ca(2) big by (rule slab_order_large)
    have so: "same_orders c c' V" unfolding V
      using g(3,4) by (cases "x = NULL") (auto intro!: same_ordersI [OF ci _ g(2)])
    have real: "slab_real_size c' sz = Some ?n" "slab_real_size c sz = Some ?n"
      using rs False keeps_real_size [OF g(2), of sz] by simp_all
    show ?thesis
    proof (cases "x = NULL")
      case True
      then have "slab_get os c sz = Some (x, c')" using g(1) md ord by (simp add: slab_get_def Let_def)
      moreover have "cache_inv c' V" unfolding cache_inv_def V
        using g(3) [OF True] keeps_given [OF g(2), of L U] by (intro exI conjI) (assumption, simp)
      ultimately show ?thesis using g(2) True so by (auto simp: slab_granted_def used_bytes_given V)
    next
      case x: False
      note g4 = g(4) [OF x]
      have sz: "sl_size (hdr c' x) = ?n"
        using cinv_huge(2) [of c' R "insert (x, ?n) L" U "{}" x ?n] g4 by (simp add: huge_hdr_def)
      have "slab_get os c sz = Some (x, c')" using g(1) md ord x real(1) sz by (simp add: slab_get_def Let_def)
      moreover have "(x, ?n) \<notin> V"
      proof
        assume "(x, ?n) \<in> V"
        then show False unfolding V
        proof (cases rule: given_cases)
          case (1 j)
          then show False using cinv_block_huge(2) [of c' R "insert (x, ?n) L" U "{}" x j x ?n] g4 by blast
        next
          case 2
          then show False using g4 by simp
        qed
      qed
      moreover have "cache_inv c' (insert (x, ?n) V)" unfolding cache_inv_def V
        using g4 keeps_given [OF g(2), of L U] given_insert(2) [of c' "(x, ?n)" L U] by (metis (no_types))
      ultimately show ?thesis using g(2) x real(2) so big by (auto simp: slab_granted_def used_bytes_given V)
    qed
  qed
qed

lemma slab_put_spec:
  assumes i: "cache_inv c V" and x: "(x, n) \<in> V"
  shows "\<exists>c'. slab_put c x = Some c' \<and> cache_inv c' (V - {(x, n)}) \<and> keeps c c' (slab_bytes (V - {(x, n)})) \<and>
    same_orders c c' (V - {(x, n)})"
proof -
  obtain R L U where ci: "cinv c R L U {}" and V: "V = given c L U" using i by (auto simp: cache_inv_def)
  from x [unfolded V] show ?thesis
  proof (cases rule: given_cases)
    case (1 k)
    note us = cinv_used [OF ci 1(1)]
    obtain c' R' where p: "slab_put_with_order c x = Some c'" "cinv c' R' L (U - {(x, k)}) {}"
      "keeps c c' (used_bytes c L (U - {(x, k)}))" by (rule slab_put_with_order_spec [OF ci 1(1)])
    have g: "given c L (U - {(x, k)}) = V - {(x, n)}"
    proof -
      have "(x, n) \<notin> L" using us(3) by force
      moreover have "j = k" if "(x, j) \<in> U" "n = bsz (order0_size_lb c) j" for j using that 1(2) by simp
      ultimately show ?thesis unfolding V given_def using 1(2) by force
    qed
    have "same_orders c c' (V - {(x, n)})" unfolding g [symmetric] by (rule same_ordersI [OF ci p(2,3)]) blast+
    moreover have "cache_inv c' (V - {(x, n)})" "keeps c c' (slab_bytes (V - {(x, n)}))"
      using g p(3) keeps_given [OF p(3), of L "U - {(x, k)}"] by (auto simp: used_bytes_given intro: cache_invI [OF p(2)])
    ultimately show ?thesis using p(1) us(1,2) by (simp add: slab_put_def)
  next
    case 2
    obtain c' where p: "slab_put_large c x = Some c'" "cinv c' R (L - {(x, n)}) U {}"
      "keeps c c' (used_bytes c (L - {(x, n)}) U)" by (rule slab_put_large_spec [OF ci 2])
    have g: "given c (L - {(x, n)}) U = V - {(x, n)}"
    proof -
      have "(x, j) \<notin> U" for j using cinv_block_huge(2) [OF ci, of x j x n] 2 by blast
      then show ?thesis unfolding V given_def by auto
    qed
    have "same_orders c c' (V - {(x, n)})" unfolding g [symmetric] by (rule same_ordersI [OF ci p(2,3)]) blast+
    moreover have "cache_inv c' (V - {(x, n)})" "keeps c c' (slab_bytes (V - {(x, n)}))"
      using g p(3) keeps_given [OF p(3), of "L - {(x, n)}" U] by (auto simp: used_bytes_given intro: cache_invI [OF p(2)])
    ultimately show ?thesis using p(1) cinv_huge(2) [OF ci 2] by (simp add: slab_put_def huge_hdr_def)
  qed
qed

end
