(* ===== verification/Slab_Cache_Check.thy ===== *)
theory Slab_Cache_Check
  imports Slab_Cache_Main
begin

text \<open>
  Creation, the self check and destruction of the slab cache: a new cache satisfies the
  invariant, \<open>slab_cache_check\<close> finds nothing wrong in any state that does, and destruction
  returns every slab and the quota of every large slab.
\<close>

section \<open>Creation\<close>

lemma slab_cache_create_spec:
  assumes ar: "arena_inv ar s {} 0" and m: "64 \<le> m" "m \<le> ar_slab_size ar"
  shows "\<exists>c. slab_cache_create ar m h b s = Some c \<and> cache_inv c {} \<and> m \<le> order0_size c \<and>
    sc_arena c = ar \<and> sc_sys c = s \<and> mem c = b"
proof -
  have cfg: "arena_config ar" using ar by (simp add: arena_inv_def)
  obtain k where k: "k < 32" "ar_slab_size ar = 2 ^ k" using cfg by (auto simp: arena_config_def)
  define om where "om = min (ilog2 (ar_slab_size ar div m)) (ORDER_MAX - 1)"
  have d0: "0 < ar_slab_size ar div m" using m by (simp add: div_greater_zero_iff)
  have "(2::nat) ^ om \<le> 2 ^ ilog2 (ar_slab_size ar div m)" by (intro power_increasing) (simp_all add: om_def)
  also have "\<dots> \<le> ar_slab_size ar div m" using ilog2_bounds [OF d0] by blast
  finally have le: "2 ^ om * m \<le> 2 ^ k"
    using k(2) by (metis div_times_less_eq_dividend le_trans mult_le_mono1)
  have "(2::nat) ^ om * 2 ^ 6 \<le> 2 ^ om * m" using m(1) by (intro mult_le_mono2) simp
  then have "(2::nat) ^ om * 2 ^ 6 \<le> 2 ^ k" using le by (rule le_trans)
  then have "(2::nat) ^ (om + 6) \<le> 2 ^ k" by (simp add: power_add)
  then have ok: "om + 6 \<le> k" by (simp only: power_increasing_iff one_less_numeral_iff semiring_norm)
  have s0: "drop_bit om (ar_slab_size ar) = 2 ^ (k - om)"
    using ok by (simp add: k(2) drop_bit_eq_div power_diff)
  let ?c = "\<lparr>sc_arena = ar, order0_size = 2 ^ (k - om), order0_size_lb = k - om, order_max = om,
           allocated = slab_list_create, orders = replicate (ORDER_MAX + 1) slab_list_create,
           hdr = h, mem = b, sc_sys = s\<rparr>"
  have run: "slab_cache_create ar m h b s = Some ?c"
    unfolding slab_cache_create_def Let_def om_def [symmetric] s0 using m(2) by simp
  have om: "om < ORDER_MAX" by (simp add: om_def ORDER_MAX_def)
  have nth: "replicate (ORDER_MAX + 1) slab_list_create ! j = slab_list_create" if "j \<le> om" for j
    using that om by (simp del: replicate.simps replicate_Suc)
  have F: "free_blocks om (replicate (ORDER_MAX + 1) slab_list_create) = {}"
    using nth by (auto simp: free_blocks_def slab_list_create_def simp del: replicate_Suc)
  have "cinv ?c {} {} {} {}"
    unfolding cinv_def
  proof (intro conjI)
    show "cache_config ?c" using ok om k by (simp add: cache_config_def bsz_def)
    show "lists_inv (order0_size_lb ?c) (order_max ?c) (orders ?c) {} {} {}"
      using nth om F by (simp add: lists_inv_def cnt_def slab_list_create_def del: replicate_Suc)
    show "hdrs_inv (order0_size_lb ?c) (hdr ?c) (free_blocks (order_max ?c) (orders ?c) \<union> {}) {}"
      using F by (simp add: hdrs_inv_def)
    show "alloc_inv ?c {} {}" using nth by (simp add: alloc_inv_def slab_list_create_def huge_size_def del: replicate_Suc)
    show "huge_inv ?c {}" by (simp add: huge_inv_def)
    show "arena_inv (sc_arena ?c) (sc_sys ?c) {} (huge_units {})" using ar by (simp add: huge_units_def)
  qed
  then have "cache_inv ?c {}" by (rule cache_invI) (simp add: given_def)
  moreover have "m \<le> 2 ^ (k - om)"
  proof -
    have "2 ^ om * m \<le> 2 ^ om * 2 ^ (k - om)" using le ok by (simp add: power_add [symmetric])
    then show ?thesis by simp
  qed
  ultimately show ?thesis using run by simp
qed

section \<open>Destruction\<close>

lemma destroy_loop:
  assumes "distinct xs" and "set xs = R \<union> fst ` L" and "R \<inter> fst ` L = {}" and "inj_on fst L" and "finite L"
    and "arena_inv (sc_arena c) (sc_sys c) R (huge_units L)"
    and "\<And>a. a \<in> R \<Longrightarrow> sl_order (hdr c a) \<le> order_max c"
    and "\<And>a n. (a, n) \<in> L \<Longrightarrow> sl_order (hdr c a) = order_max c + 1 \<and> sl_size (hdr c a) = n \<and> 0 < n \<and> n < 1024 * (2 ^ 32 - 1)"
  shows "\<exists>c'. slab_cache_destroy_loop c xs = Some c' \<and> arena_inv (sc_arena c') (sc_sys c') {} 0 \<and>
    q_total (ar_quota (sc_arena c')) = q_total (ar_quota (sc_arena c))"
  using assms
proof (induction xs arbitrary: c R L)
  case Nil
  then show ?case by (simp add: huge_units_def)
next
  case (Cons x xs)
  show ?case
  proof (cases "x \<in> R")
    case True
    let ?c = "c\<lparr>sc_arena := slab_unmap (sc_arena c) x\<rparr>"
    have nl: "x \<notin> fst ` L" using True Cons.prems(3) by blast
    have "sl_order (hdr c x) \<noteq> order_max c + 1" using Cons.prems(7) [OF True] by simp
    then have run: "slab_cache_destroy_loop c (x # xs) = slab_cache_destroy_loop ?c xs" by simp
    have "\<exists>c'. slab_cache_destroy_loop ?c xs = Some c' \<and> arena_inv (sc_arena c') (sc_sys c') {} 0 \<and>
      q_total (ar_quota (sc_arena c')) = q_total (ar_quota (sc_arena ?c))"
    proof (rule Cons.IH [where R = "R - {x}" and L = L])
      show "distinct xs" using Cons.prems(1) by simp
      show "set xs = (R - {x}) \<union> fst ` L" using Cons.prems(1,2) nl True by auto
      show "(R - {x}) \<inter> fst ` L = {}" using Cons.prems(3) by blast
      show "arena_inv (sc_arena ?c) (sc_sys ?c) (R - {x}) (huge_units L)"
        using Cons.prems(6) True by (simp add: slab_unmap_inv insert_absorb)
    qed (use Cons.prems in auto)
    moreover have "ar_quota (sc_arena ?c) = ar_quota (sc_arena c)" by (simp add: slab_unmap_def)
    ultimately show ?thesis unfolding run by (simp del: slab_cache_destroy_loop.simps)
  next
    case False
    then obtain n where n: "(x, n) \<in> L" using Cons.prems(2) by auto
    have h: "sl_order (hdr c x) = order_max c + 1" "sl_size (hdr c x) = n" "0 < n" "n < 1024 * (2 ^ 32 - 1)"
      using Cons.prems(8) [OF n] by blast+
    have n64: "n < 2 ^ 64" using h(4) by simp
    have un: "unat (of_nat n :: u64) = n" using n64 by (rule unat_of_nat_u64)
    have lt: "of_nat n < QUOTA_MAX" using h(4) of_nat_less_QUOTA_MAX [OF n64] by simp
    have nz: "of_nat n \<noteq> (0 :: u64)" using un h(3) by (metis gr_implies_not0 unat_0)
    note rm = huge_remove [OF Cons.prems(5) n, unfolded snd_conv]
    let ?ar = "sc_arena c"
    have us: "q_units (unat (of_nat n :: u64)) \<le> q_used (ar_quota ?ar)" using Cons.prems(6) rm(2) un by (simp add: arena_inv_def)
    obtain r q where q: "quota_release (ar_quota ?ar) (of_nat n) = Some (r, q)"
      "q_used q = q_used (ar_quota ?ar) - q_units n" "q_total q = q_total (ar_quota ?ar)"
      by (rule quota_release_effect [OF lt nz us]) (use un in simp)
    let ?c = "c\<lparr>sc_arena := ?ar\<lparr>ar_quota := q\<rparr>, sc_sys := os_free (sc_sys c) x\<rparr>"
    have run: "slab_cache_destroy_loop c (x # xs) = slab_cache_destroy_loop ?c xs" using h(1,2) q(1) by simp
    have im: "fst ` (L - {(x, n)}) = fst ` L - {x}" using Cons.prems(4) n inj_on_image_set_diff [of fst L L "{(x, n)}"] by simp
    have "\<exists>c'. slab_cache_destroy_loop ?c xs = Some c' \<and> arena_inv (sc_arena c') (sc_sys c') {} 0 \<and>
      q_total (ar_quota (sc_arena c')) = q_total (ar_quota (sc_arena ?c))"
    proof (rule Cons.IH [where R = R and L = "L - {(x, n)}"])
      show "distinct xs" using Cons.prems(1) by simp
      show "set xs = R \<union> fst ` (L - {(x, n)})" unfolding im using Cons.prems(1,2) False by auto
      show "R \<inter> fst ` (L - {(x, n)}) = {}" using Cons.prems(3) by blast
      show "inj_on fst (L - {(x, n)})" using Cons.prems(4) by (rule inj_on_diff)
      have "arena_inv (?ar\<lparr>ar_quota := q\<rparr>) (os_free (sc_sys c) x) R (huge_units (L - {(x, n)}))"
      proof (rule arena_inv_quota [OF Cons.prems(6) q(3)])
        show "quota_ok q" using Cons.prems(6) q(2,3) unfolding quota_ok_def arena_inv_def by linarith
        show "q_used q + huge_units L = q_used (ar_quota ?ar) + huge_units (L - {(x, n)})" using q(2) rm(2) us un by simp
        show "mapped (os_free (sc_sys c) x) = mapped (sc_sys c)" by (simp add: os_free_def)
        have "taken (heap (os_free (sc_sys c) x)) \<subseteq> taken (heap (sc_sys c))" unfolding os_free_def using taken_filter by simp
        then show "covered (mapped (sc_sys c)) \<inter> taken (heap (os_free (sc_sys c) x)) = {}"
          using Cons.prems(6) unfolding arena_inv_def by blast
      qed
      then show "arena_inv (sc_arena ?c) (sc_sys ?c) R (huge_units (L - {(x, n)}))" by simp
    qed (use Cons.prems in auto)
    then show ?thesis unfolding run using q(3) by (simp del: slab_cache_destroy_loop.simps)
  qed
qed

lemma cinv_root_hdr:
  assumes i: "cinv c R L U {}" and r: "r \<in> R"
  obtains k u where "k \<le> order_max c" and "hdr c r = slab_hdr (order0_size_lb c) k u"
proof -
  obtain k where k: "(r, k) \<in> free_blocks (order_max c) (orders c) \<union> U \<union> {}"
    by (rule tiling_at_root [OF cinv_blocks(1) [OF i] r])
  have "k \<le> order_max c" using tiling_block(1) [OF cinv_blocks(1) [OF i] k] .
  moreover have "\<exists>u. hdr c r = slab_hdr (order0_size_lb c) k u"
    using k cinv_blocks(2) [OF i, of r k] cinv_blocks(3) [OF i, of r k] by blast
  ultimately show thesis using that by blast
qed

lemma cinv_huge_inj: "cinv c R L U {} \<Longrightarrow> inj_on fst L"
proof (rule inj_onI)
  fix p q assume i: "cinv c R L U {}" and pq: "p \<in> L" "q \<in> L" "fst p = fst q"
  have "hdr c (fst p) = huge_hdr c (snd p)" "hdr c (fst q) = huge_hdr c (snd q)"
    using cinv_huge(2) [OF i] pq(1,2) by (metis prod.collapse)+
  then have "snd p = snd q" using pq(3) by (simp add: huge_hdr_def)
  then show "p = q" using pq(3) by (simp add: prod_eq_iff)
qed

lemma slab_cache_destroy_spec:
  assumes "cache_inv c V"
  shows "\<exists>c'. slab_cache_destroy c = Some c' \<and> arena_inv (sc_arena c') (sc_sys c') {} 0 \<and>
    q_total (ar_quota (sc_arena c')) = q_total (ar_quota (sc_arena c))"
proof -
  obtain R L U where i: "cinv c R L U {}" using assms by (auto simp: cache_inv_def)
  have al: "distinct (sl_slabs (allocated c))" "set (sl_slabs (allocated c)) = R \<union> fst ` L" "R \<inter> fst ` L = {}"
    and fin: "finite L" and ar: "arena_inv (sc_arena c) (sc_sys c) R (huge_units L)"
    using i by (simp_all add: cinv_def alloc_inv_def huge_inv_def)
  have "sl_order (hdr c a) \<le> order_max c" if a: "a \<in> R" for a
    by (rule cinv_root_hdr [OF i a]) simp
  then show ?thesis unfolding slab_cache_destroy_def
    using cinv_huge [OF i] by (intro destroy_loop [OF al cinv_huge_inj [OF i] fin ar]) (simp_all add: huge_hdr_def)
qed

section \<open>The self check\<close>

lemma check_allocated_spec:
  assumes "set xs \<subseteq> R \<union> fst ` L" and "R \<inter> fst ` L = {}" and i: "cinv c R L U {}"
  shows "check_allocated c xs (t, u, g, True) =
    Some (t + (\<Sum>a \<leftarrow> xs. if a \<in> R then ar_slab_size (sc_arena c) else sl_size (hdr c a)),
          u + (\<Sum>a \<leftarrow> xs. if a \<in> R then 0 else sl_size (hdr c a)),
          g + (\<Sum>a \<leftarrow> xs. if a \<in> R then 0 else sl_size (hdr c a)), True)"
  using assms(1)
proof (induction xs arbitrary: t u g)
  case (Cons x xs)
  have sz: "ar_slab_size (sc_arena c) = bsz (order0_size_lb c) (order_max c)" using i by (simp add: cinv_def cache_config_def)
  show ?case
  proof (cases "x \<in> R")
    case True
    obtain k v where k: "k \<le> order_max c" "hdr c x = slab_hdr (order0_size_lb c) k v" by (rule cinv_root_hdr [OF i True])
    then show ?thesis using Cons True by (simp add: order_size sz Let_def algebra_simps)
  next
    case False
    then have "x \<in> fst ` L" using Cons.prems by auto
    then obtain n where n: "(x, n) \<in> L" by auto
    then show ?thesis using Cons False cinv_huge(2) [OF i n] by (simp add: huge_hdr_def Let_def algebra_simps)
  qed
qed simp

lemma check_orders_spec:
  assumes lb: "8 \<le> order0_size_lb c" and le: "\<forall>i \<in> set is. i \<le> order_max c"
    and div: "\<forall>i \<le> order_max c. int (bsz (order0_size_lb c) 0) dvd st_total (orders c ! i) \<and>
      int (bsz (order0_size_lb c) 0) dvd st_used (orders c ! i)"
  shows "check_orders c is (t, u, ok) =
    Some (t + (\<Sum>i \<leftarrow> is. st_total (orders c ! i)), u + (\<Sum>i \<leftarrow> is. st_used (orders c ! i)), ok)"
  using le
proof (induction "is" arbitrary: t u)
  case (Cons i "is")
  have "(256::nat) = 2 ^ 8" by simp
  then have "(256::nat) dvd bsz (order0_size_lb c) i" unfolding bsz_def using lb by (simp only:) (rule le_imp_power_dvd, simp)
  then have "bsz (order0_size_lb c) i mod 256 = 0" by simp
  then show ?case using Cons div by (simp add: order_size Let_def)
qed simp

lemma cinv_totals:
  assumes i: "cinv c R L U {}"
  shows "(\<Sum>k \<le> order_max c. st_total (orders c ! k)) = int (card R * ar_slab_size (sc_arena c))"
proof -
  let ?lb = "order0_size_lb c" and ?mx = "order_max c"
  let ?F = "free_blocks ?mx (orders c)"
  have li: "lists_inv ?lb ?mx (orders c) R U {}" and cfg: "cache_config c" using i by (simp_all add: cinv_def)
  have t: "tiling ?lb ?mx R (?F \<union> U \<union> {})" by (rule cinv_blocks(1) [OF i])
  have fin: "finite (?F \<union> U)" and dj: "?F \<inter> U = {}" using li by (simp_all add: lists_inv_def tiling_def)
  have cF: "card {p \<in> ?F. snd p = k} = length (sl_slabs (orders c ! k))" if k: "k \<le> ?mx" for k
  proof -
    have "{p \<in> ?F. snd p = k} = (\<lambda>a. (a, k)) ` set (sl_slabs (orders c ! k))" using k by (auto simp: free_blocks_def)
    moreover have "inj_on (\<lambda>a. (a, k)) (set (sl_slabs (orders c ! k)))" by (simp add: inj_on_def)
    moreover have "distinct (sl_slabs (orders c ! k))" using li k by (simp add: lists_inv_def)
    ultimately show ?thesis by (simp add: card_image distinct_card)
  qed
  have cU: "card {p \<in> U. snd p = k} = cnt U k" for k
  proof -
    have "{p \<in> U. snd p = k} = (\<lambda>a. (a, k)) ` {a. (a, k) \<in> U}" by force
    then show ?thesis by (simp add: cnt_def card_image inj_on_def)
  qed
  have "(\<Sum>p \<in> ?F \<union> U. bsz ?lb (snd p)) = (\<Sum>k \<le> ?mx. \<Sum>p \<in> {p \<in> ?F \<union> U. snd p = k}. bsz ?lb (snd p))"
    using fin tiling_block(1) [OF t] by (intro sum.group [symmetric]) force+
  also have "\<dots> = (\<Sum>k \<le> ?mx. bsz ?lb k * (length (sl_slabs (orders c ! k)) + cnt U k))"
  proof (rule sum.cong)
    fix k assume "k \<in> {..?mx}"
    moreover have "{p \<in> ?F \<union> U. snd p = k} = {p \<in> ?F. snd p = k} \<union> {p \<in> U. snd p = k}" by auto
    moreover have "card ({p \<in> ?F. snd p = k} \<union> {p \<in> U. snd p = k}) = card {p \<in> ?F. snd p = k} + card {p \<in> U. snd p = k}"
      using fin dj by (intro card_Un_disjoint) auto
    ultimately have "card {p \<in> ?F \<union> U. snd p = k} = length (sl_slabs (orders c ! k)) + cnt U k" using cF cU by simp
    then show "(\<Sum>p \<in> {p \<in> ?F \<union> U. snd p = k}. bsz ?lb (snd p)) = bsz ?lb k * (length (sl_slabs (orders c ! k)) + cnt U k)"
      by simp
  qed simp
  finally have "card R * bsz ?lb ?mx = (\<Sum>k \<le> ?mx. bsz ?lb k * (length (sl_slabs (orders c ! k)) + cnt U k))"
    using tiling_bytes [OF t] by simp
  moreover have "(\<Sum>k \<le> ?mx. st_total (orders c ! k)) = (\<Sum>k \<le> ?mx. int (bsz ?lb k * (length (sl_slabs (orders c ! k)) + cnt U k)))"
    using li by (intro sum.cong) (simp_all add: lists_inv_def)
  ultimately show ?thesis using cfg by (simp only: cache_config_def of_nat_sum)
qed

lemma huge_sum:
  assumes i: "cinv c R L U {}"
  shows "(\<Sum>a \<in> fst ` L. sl_size (hdr c a)) = huge_size L"
proof -
  have "(\<Sum>a \<in> fst ` L. sl_size (hdr c a)) = (\<Sum>p \<in> L. sl_size (hdr c (fst p)))"
    using cinv_huge_inj [OF i] by (rule sum.reindex [unfolded comp_def])
  also have "\<dots> = huge_size L"
    unfolding huge_size_def using cinv_huge(2) [OF i] by (intro sum.cong) (force simp: huge_hdr_def)+
  finally show ?thesis .
qed

lemma slab_cache_check_spec:
  assumes "cache_inv c V" and lb: "8 \<le> order0_size_lb c"
  shows "slab_cache_check c = Some ()"
proof -
  obtain R L U where i: "cinv c R L U {}" using assms(1) by (auto simp: cache_inv_def)
  let ?lb = "order0_size_lb c" and ?mx = "order_max c" and ?xs = "sl_slabs (allocated c)"
  have al: "distinct ?xs" "set ?xs = R \<union> fst ` L" "R \<inter> fst ` L = {}"
    "st_total (allocated c) = int (card R * ar_slab_size (sc_arena c) + huge_size L)"
    "st_used (allocated c) = (\<Sum>k \<le> ?mx. st_used (orders c ! k)) + int (huge_size L)"
    using i by (simp_all add: cinv_def alloc_inv_def)
  have fin: "finite R" "finite L" using i by (simp_all add: cinv_def huge_inv_def arena_inv_def)
  let ?f = "\<lambda>a. if a \<in> R then ar_slab_size (sc_arena c) else sl_size (hdr c a)"
  let ?g = "\<lambda>a. if a \<in> R then 0 else sl_size (hdr c a)"
  have L': "(\<Sum>a \<in> fst ` L. ?f a) = huge_size L" "(\<Sum>a \<in> fst ` L. ?g a) = huge_size L"
    unfolding huge_sum [OF i, symmetric] using al(3) by (intro sum.cong; auto)+
  have "(\<Sum>a \<in> R. ?f a) = card R * ar_slab_size (sc_arena c)" "(\<Sum>a \<in> R. ?g a) = 0" by simp_all
  then have sums: "(\<Sum>a \<leftarrow> ?xs. ?f a) = card R * ar_slab_size (sc_arena c) + huge_size L" "(\<Sum>a \<leftarrow> ?xs. ?g a) = huge_size L"
    using L' fin al(3) unfolding sum.distinct_set_conv_list [OF al(1), symmetric] al(2)
    by (simp_all only: sum.union_disjoint finite_imageI)
  note ca = check_allocated_spec [OF equalityD1 [OF al(2)] al(3) i, of 0 0 0, unfolded sums]
  have li: "lists_inv ?lb ?mx (orders c) R U {}" using i by (simp add: cinv_def)
  have "\<forall>k \<le> ?mx. int (bsz ?lb 0) dvd st_total (orders c ! k) \<and> int (bsz ?lb 0) dvd st_used (orders c ! k)"
  proof (intro allI impI)
    fix k assume k: "k \<le> ?mx"
    have "bsz ?lb 0 dvd bsz ?lb k" by (simp add: bsz_dvd)
    then show "int (bsz ?lb 0) dvd st_total (orders c ! k) \<and> int (bsz ?lb 0) dvd st_used (orders c ! k)"
      using li k by (simp add: lists_inv_def del: of_nat_mult of_nat_add)
  qed
  note co = check_orders_spec [OF lb _ this, of "[0..<Suc ?mx]"]
  have tot: "(\<Sum>i \<leftarrow> [0..<Suc ?mx]. st_total (orders c ! i)) = (\<Sum>k \<le> ?mx. st_total (orders c ! k))"
    "(\<Sum>i \<leftarrow> [0..<Suc ?mx]. st_used (orders c ! i)) = (\<Sum>k \<le> ?mx. st_used (orders c ! k))"
    by (simp_all only: sum.distinct_set_conv_list [symmetric] distinct_upt set_upt atLeast0LessThan lessThan_Suc_atMost)
  have "slab_cache_check c = c_assert (int (card R * ar_slab_size (sc_arena c) + huge_size L) = st_total (allocated c) \<and>
      (\<Sum>k \<le> ?mx. st_total (orders c ! k)) + int (huge_size L) = int (card R * ar_slab_size (sc_arena c) + huge_size L) \<and>
      int (huge_size L) + (\<Sum>k \<le> ?mx. st_used (orders c ! k)) = st_used (allocated c))"
    unfolding slab_cache_check_def ca Let_def by (simp add: co tot del: upt_Suc)
  also have "\<dots> = Some ()" using al(4,5) cinv_totals [OF i] by (simp add: c_assert_def)
  finally show ?thesis .
qed

section \<open>A source of slabs\<close>

text \<open>
  The interface the allocators rely on. \<open>inv c V\<close>: the source \<open>c\<close> is well-formed and has given out
  the slabs \<open>V\<close>; \<open>same c c' V\<close>: the change from \<open>c\<close> to \<open>c'\<close> keeps the bytes of \<open>V\<close> and what
  sizes can be asked for.
\<close>

datatype slab_req = Get_slab nat | Put_nth nat

locale slab_source =
  fixes get :: "'c \<Rightarrow> nat \<Rightarrow> (addr \<times> 'c) option"
    and put :: "'c \<Rightarrow> addr \<Rightarrow> 'c option"
    and size_of :: "'c \<Rightarrow> addr \<Rightarrow> nat"
    and inv :: "'c \<Rightarrow> (addr \<times> nat) set \<Rightarrow> bool"
    and same :: "'c \<Rightarrow> 'c \<Rightarrow> (addr \<times> nat) set \<Rightarrow> bool"
    and size_ok :: "'c \<Rightarrow> nat \<Rightarrow> bool"
  assumes get_law: "inv c V \<Longrightarrow> size_ok c n \<Longrightarrow> \<exists>x c'. get c n = Some (x, c') \<and> same c c' V \<and>
      (if x = NULL then inv c' V else (x, size_of c' x) \<notin> V \<and> n \<le> size_of c' x \<and> inv c' (insert (x, size_of c' x) V))"
    and put_law: "inv c V \<Longrightarrow> (x, n) \<in> V \<Longrightarrow> \<exists>c'. put c x = Some c' \<and> same c c' (V - {(x, n)}) \<and> inv c' (V - {(x, n)})"
    and size_ok_same: "same c c' V \<Longrightarrow> size_ok c' n = size_ok c n"
begin

text \<open>A script of requests: a slab of some size, or the return of the slab at some place of the list of live ones.\<close>

fun run_script :: "'c \<Rightarrow> (addr \<times> nat) list \<Rightarrow> slab_req list \<Rightarrow> ('c \<times> (addr \<times> nat) list) option" where
  "run_script c xs [] = Some (c, xs)"
| "run_script c xs (Get_slab n # rs) =
     (case get c n of None \<Rightarrow> None
      | Some (x, c') \<Rightarrow> run_script c' (if x = NULL then xs else (x, size_of c' x) # xs) rs)"
| "run_script c xs (Put_nth i # rs) =
     (if i < length xs then
        (case put c (fst (xs ! i)) of None \<Rightarrow> None
         | Some c' \<Rightarrow> run_script c' (remove1 (xs ! i) xs) rs)
      else run_script c xs rs)"

lemma run_script_inv:
  assumes "inv c (set xs)" and "distinct xs" and "\<And>n. Get_slab n \<in> set rs \<Longrightarrow> size_ok c n"
  shows "\<exists>c' xs'. run_script c xs rs = Some (c', xs') \<and> inv c' (set xs') \<and> distinct xs'"
  using assms
proof (induction rs arbitrary: c xs)
  case Nil
  then show ?case by simp
next
  case (Cons r rs)
  show ?case
  proof (cases r)
    case (Get_slab n)
    obtain x c' where g: "get c n = Some (x, c')" "same c c' (set xs)"
      "if x = NULL then inv c' (set xs) else (x, size_of c' x) \<notin> set xs \<and> n \<le> size_of c' x \<and> inv c' (insert (x, size_of c' x) (set xs))"
      using get_law [OF Cons.prems(1), of n] Cons.prems(3) [of n] Get_slab by auto
    have "\<exists>c'' xs''. run_script c' (if x = NULL then xs else (x, size_of c' x) # xs) rs = Some (c'', xs'') \<and> inv c'' (set xs'') \<and> distinct xs''"
      using g(3) Cons.prems(2,3) size_ok_same [OF g(2)] by (intro Cons.IH) (auto split: if_splits)
    then show ?thesis using g(1) Get_slab by simp
  next
    case (Put_nth i)
    show ?thesis
    proof (cases "i < length xs")
      case True
      then have m: "(fst (xs ! i), snd (xs ! i)) \<in> set xs" by simp
      obtain c' where p: "put c (fst (xs ! i)) = Some c'" "same c c' (set xs - {xs ! i})" "inv c' (set xs - {xs ! i})"
        using put_law [OF Cons.prems(1) m] by auto
      have "set (remove1 (xs ! i) xs) = set xs - {xs ! i}" using Cons.prems(2) by (rule set_remove1_eq)
      then have "\<exists>c'' xs''. run_script c' (remove1 (xs ! i) xs) rs = Some (c'', xs'') \<and> inv c'' (set xs'') \<and> distinct xs''"
        using p(3) Cons.prems(2,3) size_ok_same [OF p(2)] by (intro Cons.IH) (auto simp: distinct_remove1)
      then show ?thesis using p(1) True Put_nth by simp
    next
      case False
      then show ?thesis using Cons Put_nth by auto
    qed
  qed
qed

text \<open>Each request gives out one slab at most, and the return of the first live slab can be repeated until none is left.\<close>

lemma run_script_append:
  "run_script c xs (rs @ ss) = (case run_script c xs rs of None \<Rightarrow> None | Some (c', xs') \<Rightarrow> run_script c' xs' ss)"
  by (induction c xs rs rule: run_script.induct) (auto split: option.split)

lemma run_script_length: "run_script c xs rs = Some (c', xs') \<Longrightarrow> length xs' \<le> length xs + length rs"
proof (induction c xs rs rule: run_script.induct)
  case (3 c xs i rs)
  have "length (remove1 (xs ! i) xs) \<le> length xs" by (simp add: length_remove1)
  then show ?case using 3 by (force split: if_splits option.splits)
qed (force split: if_splits option.splits)+

lemma run_script_put_all: "run_script c xs (replicate m (Put_nth 0)) = Some (c', xs') \<Longrightarrow> length xs \<le> m \<Longrightarrow> xs' = []"
  by (induction m arbitrary: c xs) (auto simp: length_remove1 nth_mem split: if_splits option.splits)

lemma run_script_returns:
  assumes "inv c {}" and "\<And>n. Get_slab n \<in> set rs \<Longrightarrow> size_ok c n"
  shows "\<exists>c'. run_script c [] (rs @ replicate (length rs) (Put_nth 0)) = Some (c', []) \<and> inv c' {}"
proof -
  obtain c' xs where r: "run_script c [] (rs @ replicate (length rs) (Put_nth 0)) = Some (c', xs)" "inv c' (set xs)"
    using run_script_inv [of c "[]" "rs @ replicate (length rs) (Put_nth 0)"] assms by auto
  then obtain c1 ys where m: "run_script c [] rs = Some (c1, ys)" "run_script c1 ys (replicate (length rs) (Put_nth 0)) = Some (c', xs)"
    by (auto simp: run_script_append split: option.splits)
  have "xs = []" using run_script_put_all [OF m(2)] run_script_length [OF m(1)] by simp
  then show ?thesis using r by simp
qed

end

definition size_request_ok :: "slab_cache \<Rightarrow> nat \<Rightarrow> bool" where
  "size_request_ok c n \<longleftrightarrow> n + slab_sizeof < 2 ^ 64 \<and>
     (ar_slab_size (sc_arena c) < n + slab_sizeof \<longrightarrow> quota_room c (n + slab_sizeof))"

definition cache_inv_os :: "os \<Rightarrow> slab_cache \<Rightarrow> (addr \<times> nat) set \<Rightarrow> bool" where
  "cache_inv_os os c V \<longleftrightarrow> os_ok os \<and> cache_inv c V"

interpretation cache: slab_source "slab_get os" slab_put "\<lambda>c x. sl_size (hdr c x)" "cache_inv_os os"
  "\<lambda>c c' V. keeps c c' (slab_bytes V)" size_request_ok for os
proof unfold_locales
  fix c V n
  assume i: "cache_inv_os os c V" and n: "size_request_ok c n"
  then obtain x c' where g: "slab_get os c n = Some (x, c')" "keeps c c' (slab_bytes V)" "slab_granted c n V x c'"
    using slab_get_spec [of os c V n] by (auto simp: cache_inv_os_def size_request_ok_def)
  have "if x = NULL then cache_inv_os os c' V else (x, sl_size (hdr c' x)) \<notin> V \<and> n \<le> sl_size (hdr c' x) \<and>
      cache_inv_os os c' (insert (x, sl_size (hdr c' x)) V)"
  proof (cases "x = NULL")
    case True
    then show ?thesis using g(3) i by (simp add: slab_granted_def cache_inv_os_def)
  next
    case False
    then obtain m where m: "n + slab_sizeof \<le> m" "(x, m) \<notin> V" "cache_inv c' (insert (x, m) V)"
      using g(3) by (auto simp: slab_granted_def)
    then have "sl_size (hdr c' x) = m" using cache_inv_slab(2) by blast
    then show ?thesis using m i False by (simp add: cache_inv_os_def)
  qed
  then show "\<exists>x c'. slab_get os c n = Some (x, c') \<and> keeps c c' (slab_bytes V) \<and>
      (if x = NULL then cache_inv_os os c' V else (x, sl_size (hdr c' x)) \<notin> V \<and> n \<le> sl_size (hdr c' x) \<and>
       cache_inv_os os c' (insert (x, sl_size (hdr c' x)) V))" using g by blast
next
  fix c V x n
  assume "cache_inv_os os c V" "(x, n) \<in> V"
  then show "\<exists>c'. slab_put c x = Some c' \<and> keeps c c' (slab_bytes (V - {(x, n)})) \<and> cache_inv_os os c' (V - {(x, n)})"
    using slab_put_spec [of c V x n] by (auto simp: cache_inv_os_def)
next
  fix c c' V n
  assume "keeps c c' (slab_bytes V)"
  then show "size_request_ok c' n = size_request_ok c n" by (simp add: keeps_def size_request_ok_def quota_room_def)
qed

end
