(* ===== verification/Slab_Cache_Props.thy ===== *)
theory Slab_Cache_Props
  imports Slab_Cache_Check
begin

text \<open>
  The properties of the arena and of the slab cache, and an example of both on which the
  properties are instantiated: slabs of 64 kilobytes, pages of 4 kilobytes, and a quota of 16
  megabytes.
\<close>

section \<open>An example\<close>

definition example_sys :: sys where
  "example_sys = \<lparr>clock = 0, mapped = [], heap = []\<rparr>"

definition example_quota :: quota where
  "example_quota = \<lparr>qvalue = pack_units 16384 0\<rparr>"

definition example_arena :: slab_arena where
  "example_arena = \<lparr>ar_cache = [], ar_arena = 0, ar_prealloc = 0, ar_used = 0, ar_quota = example_quota,
     ar_slab_size = 65536, ar_flags = SLAB_ARENA_PRIVATE\<rparr>"

lemma example_arena_inv: "arena_inv example_arena example_sys {} 0"
proof -
  have "arena_config example_arena"
    by (auto simp: arena_config_def example_arena_def example_quota_def q_total_def q_units_def intro!: exI [of _ 16])
  then show ?thesis
    by (simp add: arena_inv_def example_arena_def example_sys_def arena_slabs_def arena_count_def arena_rest_def
        quota_ok_def q_used_def q_total_def example_quota_def)
qed

lemma example_quota_use:
  assumes "0 < n" and "n \<le> 1000000"
  obtains r q where "quota_use example_quota (of_nat n) = Some (r, q)" and "0 \<le> r"
proof -
  have n: "n < 2 ^ 64" using assms by simp
  have u: "unat (of_nat n :: u64) = n" using n by (rule unat_of_nat_u64)
  have nz: "of_nat n \<noteq> (0 :: u64)" using u assms(1) by (metis gr_implies_not0 unat_0)
  have le: "of_nat n \<le> QUOTA_MAX" using of_nat_le_QUOTA_MAX [OF n] assms(2) by simp
  have "q_units n \<le> 1000" using assms(2) by (simp add: q_units_def)
  then have "\<not> q_used example_quota + q_units n \<ge> 2 ^ 32" "\<not> q_used example_quota + q_units n > q_total example_quota"
    by (simp_all add: example_quota_def q_used_def q_total_def)
  then show thesis using quota_use_cases [OF le nz, of example_quota] u by (intro that) auto
qed

lemma example_slab_map:
  obtains ar s where "slab_map bump_os example_arena example_sys = Some (65536, ar, s)"
proof -
  have m: "mmap_checked bump_os example_sys 65536 65536 SLAB_ARENA_PRIVATE = Some (65536, \<lparr>clock = 1, mapped = [(65536, 65536)], heap = []\<rparr>)"
  proof -
    have "(65536::nat) AND 65535 = 0" using nat_and_pow2_mask [of 65536 16] by simp
    then show ?thesis by (simp add: mmap_checked_def os_mmap_def bump_os_def bump_def example_sys_def align_up_def Let_def)
  qed
  obtain r q where q: "quota_use example_quota (of_nat 65536) = Some (r, q)" "0 \<le> r" by (rule example_quota_use [of 65536]) simp_all
  show thesis using m q by (intro that) (simp add: slab_map_def example_arena_def)
qed

lemma example_cache:
  obtains c where "slab_cache_create example_arena 4096 (\<lambda>_. undefined) (\<lambda>_. 0) example_sys = Some c"
    and "cache_inv c {}" and "sc_arena c = example_arena" and "8 \<le> order0_size_lb c" and "sc_sys c = example_sys"
proof -
  obtain c where c: "slab_cache_create example_arena 4096 (\<lambda>_. undefined) (\<lambda>_. 0) example_sys = Some c"
    "cache_inv c {}" "4096 \<le> order0_size c" "sc_arena c = example_arena" "sc_sys c = example_sys"
    using slab_cache_create_spec [OF example_arena_inv, of 4096 "\<lambda>_. undefined" "\<lambda>_. 0"] by (auto simp: example_arena_def)
  have "order0_size c = 2 ^ order0_size_lb c" using c(2) by (auto simp: cache_inv_def cinv_def cache_config_def)
  then have "(2::nat) ^ 8 \<le> 2 ^ order0_size_lb c" using c(3) by simp
  then have "8 \<le> order0_size_lb c" by (simp only: power_increasing_iff one_less_numeral_iff semiring_norm)
  with c show thesis using that by blast
qed

section \<open>The arena\<close>

text \<open>\<open>slab_map\<close> keeps the arena's accounts and never fails an assertion. It returns NULL, with nothing
  taken from the quota, or a slab that is not in use, aligned by the slab size, mapped, and
  not overlapping another slab in use, cached, or the untouched preallocated range.\<close>

theorem slab_map_correct:
  assumes "os_ok os" and "arena_inv ar s Out e"
  shows "\<exists>p ar' s'. slab_map os ar s = Some (p, ar', s') \<and>
    (if p = NULL then arena_inv ar' s' Out e
     else p \<notin> Out \<and> arena_inv ar' s' (insert p Out) e \<and> ar_slab_size ar dvd p \<and>
       span p (ar_slab_size ar) \<subseteq> covered (mapped s') \<and> (\<forall>q \<in> Out. span p (ar_slab_size ar) \<inter> span q (ar_slab_size ar) = {}))"
proof -
  obtain p ar' s' where m: "slab_map os ar s = Some (p, ar', s')" "heap s' = heap s"
    "ar_slab_size ar' = ar_slab_size ar" "p = NULL \<Longrightarrow> arena_inv ar' s' Out e"
    "p \<noteq> NULL \<Longrightarrow> p \<notin> Out \<and> arena_inv ar' s' (insert p Out) e"
    using slab_map_spec [OF assms] by blast
  have "ar_slab_size ar dvd p \<and> span p (ar_slab_size ar) \<subseteq> covered (mapped s') \<and>
      (\<forall>q \<in> Out. span p (ar_slab_size ar) \<inter> span q (ar_slab_size ar) = {})" if p: "p \<noteq> NULL"
  proof -
    have pl: "slab_placed ar' s' q" if "q \<in> insert p Out" for q
      using m(5) [OF p] that by (auto simp: arena_inv_def arena_slabs_def)
    have "span p (ar_slab_size ar) \<inter> span q (ar_slab_size ar) = {}" if "q \<in> Out" for q
      using pl [of p] pl [of q] that m(3) m(5) [OF p] by (intro span_same_size_disjoint) (auto simp: slab_placed_def)
    then show ?thesis using pl [of p] m(3) by (simp add: slab_placed_def)
  qed
  then show ?thesis using m by (intro exI [of _ p] exI [of _ ar'] exI [of _ s']) simp
qed

theorem slab_map_correct_witness:
  "\<exists>p ar' s'. slab_map bump_os example_arena example_sys = Some (p, ar', s')"
  using slab_map_correct [OF bump_os_ok example_arena_inv] by blast

text \<open>A slab returned to the arena goes to the cache of the arena and is the next one mapped.\<close>

theorem slab_unmap_map:
  assumes "arena_inv ar s (insert p Out) e" and "p \<notin> Out"
  shows "arena_inv (slab_unmap ar p) s Out e \<and> slab_map os (slab_unmap ar p) s = Some (p, ar, s)"
proof -
  have "p \<noteq> NULL" using assms(1) by (simp add: arena_inv_def arena_slabs_def slab_placed_def)
  then have "slab_map os (slab_unmap ar p) s = Some (p, ar, s)" by (simp add: slab_unmap_def slab_map_def)
  then show ?thesis using slab_unmap_inv [OF assms] by blast
qed

theorem slab_unmap_map_witness:
  "\<exists>ar s p. p \<noteq> NULL \<and> arena_inv (slab_unmap ar p) s {} 0 \<and> slab_map bump_os (slab_unmap ar p) s = Some (p, ar, s)"
proof -
  obtain ar' s' where "slab_map bump_os example_arena example_sys = Some (65536, ar', s')" by (rule example_slab_map)
  moreover obtain p ar s where m: "slab_map bump_os example_arena example_sys = Some (p, ar, s)"
    "p \<noteq> NULL \<Longrightarrow> p \<notin> {} \<and> arena_inv ar s (insert p {}) 0"
    using slab_map_spec [OF bump_os_ok example_arena_inv] by blast
  ultimately have p: "p = 65536" by simp
  then have "arena_inv ar s (insert p {}) 0" using m(2) by simp
  from slab_unmap_map [OF this, of bump_os] p show ?thesis by (intro exI [of _ ar] exI [of _ s] exI [of _ p]) simp
qed

text \<open>An arena created over a quota satisfies the invariant, whatever size was asked for, and reports
  failure exactly when the preallocated range could not be mapped.\<close>

theorem slab_arena_create_correct:
  assumes "os_ok os" and "covered (mapped s) \<inter> taken (heap s) = {}" and "flags_ok fl" and "slab_size \<le> 2 ^ 31"
    and "quota_ok q" and "q_total q + q_units (round_pow2 (max slab_size SLAB_MIN_SIZE) mod 2 ^ 32) < 2 ^ 32"
  shows "\<exists>r ar s'. slab_arena_create os s q prealloc slab_size fl = Some (r, ar, s') \<and> ar_quota ar = q \<and>
    (r = 0 \<longrightarrow> arena_inv ar s' {} 0) \<and> (r \<noteq> 0 \<longrightarrow> covered (mapped s') = covered (mapped s))"
  by (rule slab_arena_create_spec [OF assms(1-5) _ assms(6), of 0 prealloc]) auto

theorem slab_arena_create_correct_witness:
  "\<exists>r ar s'. slab_arena_create bump_os example_sys example_quota 1000000 100000 SLAB_ARENA_PRIVATE = Some (r, ar, s') \<and>
     (r = 0 \<longrightarrow> arena_inv ar s' {} 0)"
proof -
  have "round_pow2 (max 100000 SLAB_MIN_SIZE) = 2 ^ Suc (ilog2 99999)" by (simp add: round_pow2_def SLAB_MIN_SIZE_def)
  also have "ilog2 99999 = 16" by (rule ilog2_unique) simp_all
  finally have r: "round_pow2 (max 100000 SLAB_MIN_SIZE) = 131072" by simp
  have f: "flags_ok SLAB_ARENA_PRIVATE"
    by (simp add: flags_ok_def IS_SLAB_ARENA_FLAG_def SLAB_ARENA_PRIVATE_def SLAB_ARENA_FLAG_def SLAB_ARENA_FLAG_MARK_def)
  have c: "covered (mapped example_sys) \<inter> taken (heap example_sys) = {}" by (simp add: example_sys_def)
  have q: "quota_ok example_quota" "q_total example_quota + q_units (round_pow2 (max 100000 SLAB_MIN_SIZE) mod 2 ^ 32) < 2 ^ 32"
    by (simp_all add: r quota_ok_def example_quota_def q_used_def q_total_def q_units_def)
  have "(100000::nat) \<le> 2 ^ 31" by simp
  from slab_arena_create_correct [OF bump_os_ok c f this q, of 1000000] show ?thesis by blast
qed

text \<open>When every slab was returned, \<open>slab_arena_destroy\<close> passes its assertion and leaves none of the
  arena's memory mapped.\<close>

theorem slab_arena_destroy_correct:
  assumes "arena_inv ar s {} e"
  shows "\<exists>ar' s'. slab_arena_destroy ar s = Some (ar', s') \<and> heap s' = heap s \<and>
    covered (mapped s') = covered (mapped s) -
      ((\<Union>p \<in> set (ar_cache ar). span p (ar_slab_size ar)) \<union> span (ar_arena ar) (ar_prealloc ar))"
  by (rule slab_arena_destroy_spec [OF assms]) (intro exI conjI)

theorem slab_arena_destroy_correct_witness: "\<exists>ar' s'. slab_arena_destroy example_arena example_sys = Some (ar', s')"
  using slab_arena_destroy_correct [OF example_arena_inv] by blast

section \<open>The slab cache\<close>

text \<open>C7: \<open>slab_get\<close> on a well-formed cache passes every assertion and keeps the invariant and the bytes of
  all slabs in use. It returns NULL or a new slab that has the size \<open>slab_real_size\<close> announces,
  enough for the request and the header, is aligned by its size unless it is a large one, and
  overlaps no other slab in use.\<close>

theorem slab_get_correct:
  assumes "os_ok os" and "cache_inv c V" and "size_request_ok c sz"
  shows "\<exists>x c'. slab_get os c sz = Some (x, c') \<and> (\<forall>y \<in> slab_bytes V. mem c' y = mem c y) \<and>
    (if x = NULL then cache_inv c' V
     else \<exists>n. slab_real_size c sz = Some n \<and> sz + slab_sizeof \<le> n \<and> sl_size (hdr c' x) = n \<and>
       cache_inv c' (insert (x, n) V) \<and> (n \<le> ar_slab_size (sc_arena c) \<longrightarrow> n dvd x) \<and>
       span x n \<inter> slab_bytes V = {})"
proof -
  obtain x c' where g: "slab_get os c sz = Some (x, c')" "keeps c c' (slab_bytes V)" "slab_granted c sz V x c'"
    using slab_get_spec [of os c V sz] assms by (auto simp: size_request_ok_def)
  have "if x = NULL then cache_inv c' V
     else \<exists>n. slab_real_size c sz = Some n \<and> sz + slab_sizeof \<le> n \<and> sl_size (hdr c' x) = n \<and>
       cache_inv c' (insert (x, n) V) \<and> (n \<le> ar_slab_size (sc_arena c) \<longrightarrow> n dvd x) \<and> span x n \<inter> slab_bytes V = {}"
  proof (cases "x = NULL")
    case False
    then obtain n where n: "slab_real_size c sz = Some n" "sz + slab_sizeof \<le> n" "(x, n) \<notin> V" "cache_inv c' (insert (x, n) V)"
      "n \<le> ar_slab_size (sc_arena c) \<longrightarrow> sl_order (hdr c' x) \<le> order_max c"
      using g(3) by (auto simp: slab_granted_def)
    have "span x n \<inter> span a m = {}" if "(a, m) \<in> V" for a m
      using cache_inv_disjoint [OF n(4), of x n a m] that n(3) by auto
    then have "span x n \<inter> slab_bytes V = {}" by (auto simp: slab_bytes_def simp del: in_span)
    then show ?thesis using False n cache_inv_slab [OF n(4), of x n] g(2) by (simp add: keeps_def)
  qed (use g(3) in \<open>simp add: slab_granted_def\<close>)
  then show ?thesis using g by (auto simp: keeps_def)
qed

theorem slab_get_correct_witness:
  "\<exists>c x c'. slab_cache_create example_arena 4096 (\<lambda>_. undefined) (\<lambda>_. 0) example_sys = Some c \<and>
     slab_get bump_os c 5000 = Some (x, c')"
proof -
  obtain c where c: "slab_cache_create example_arena 4096 (\<lambda>_. undefined) (\<lambda>_. 0) example_sys = Some c" "cache_inv c {}"
    "sc_arena c = example_arena" by (rule example_cache)
  have "size_request_ok c 5000" using c(3) by (simp add: size_request_ok_def example_arena_def slab_sizeof_48)
  from slab_get_correct [OF bump_os_ok c(2) this] show ?thesis using c(1) by blast
qed

text \<open>C8: \<open>slab_put\<close> of a slab in use passes every assertion, keeps the invariant and the bytes of the other
  slabs in use, and afterwards the slab is no longer in use.\<close>

theorem slab_put_correct:
  assumes "cache_inv c V" and "(x, n) \<in> V"
  shows "\<exists>c'. slab_put c x = Some c' \<and> cache_inv c' (V - {(x, n)}) \<and>
    (\<forall>y \<in> slab_bytes (V - {(x, n)}). mem c' y = mem c y)"
  using slab_put_spec [OF assms] by (auto simp: keeps_def)

text \<open>While there is room, the examples' cache gives out large slabs of 100048 bytes.\<close>

lemma example_large:
  assumes i: "cache_inv c V" and sz: "ar_slab_size (sc_arena c) = 65536" and q: "q_total (ar_quota (sc_arena c)) = 16384" "q_used (ar_quota (sc_arena c)) \<le> 1000"
    and low: "ranges_end (mapped (sc_sys c) @ heap (sc_sys c)) \<le> 1000000"
  defines "x \<equiv> align_up (ranges_end (mapped (sc_sys c) @ heap (sc_sys c))) 65536"
  obtains c' where "slab_get bump_os c 100000 = Some (x, c')" and "x \<noteq> NULL" and "(x, 100048) \<notin> V" and "cache_inv c' (insert (x, 100048) V)"
    and "ar_slab_size (sc_arena c') = 65536" and "q_total (ar_quota (sc_arena c')) = 16384" and "q_used (ar_quota (sc_arena c')) = q_used (ar_quota (sc_arena c)) + 98"
    and "mapped (sc_sys c') = mapped (sc_sys c)" and "heap (sc_sys c') = (x, 100048) # heap (sc_sys c)"
proof -
  obtain R L U where ci: "cinv c R L U {}" using i by (auto simp: cache_inv_def)
  have u: "unat (100048 :: u64) = 100048" using unat_of_nat_u64 [of 100048] by simp
  have le: "(100048 :: u64) \<le> QUOTA_MAX" using of_nat_le_QUOTA_MAX [of 100048] by simp
  obtain r q' where qu: "quota_use (ar_quota (sc_arena c)) 100048 = Some (r, q')" "0 \<le> r"
    using quota_use_cases [OF le, of "ar_quota (sc_arena c)"] q u by (simp add: q_units_def)
  note eff = quota_use_effect [OF qu, unfolded u]
  have so: "slab_order c 100048 = order_max c + 1" using slab_order_large [OF cache_inv_arena_size(2) [OF ci], of 100048] sz by simp
  have ge: "65536 \<le> ranges_end R" for R by (induction R rule: ranges_end.induct) auto
  let ?e = "ranges_end (mapped (sc_sys c) @ heap (sc_sys c))"
  have "?e \<le> x \<and> x < ?e + 65536" unfolding x_def by (rule align_up_bounds) simp
  then have "65536 \<le> x \<and> x < 1065536" using low ge [of "mapped (sc_sys c) @ heap (sc_sys c)"] by linarith
  then have x: "x \<noteq> NULL" "x + 100048 \<le> 2 ^ 63" by auto
  then have m: "os_malloc bump_os (sc_sys c) 100048 = (x, (sc_sys c)\<lparr>clock := Suc (clock (sc_sys c)), heap := (x, 100048) # heap (sc_sys c)\<rparr>)"
    by (simp add: os_malloc_def bump_os_def bump_def x_def Let_def)
  obtain y c' where g: "slab_get bump_os c 100000 = Some (y, c')" "keeps c c' (slab_bytes V)" "slab_granted c 100000 V y c'"
    using slab_get_spec [OF bump_os_ok i, of 100000] q by (auto simp: slab_sizeof_48 quota_room_def q_units_def)
  obtain c1 where l: "slab_get_large bump_os c 100000 = Some (x, c1)" "sc_sys c1 = (sc_sys c)\<lparr>clock := Suc (clock (sc_sys c)), heap := (x, 100048) # heap (sc_sys c)\<rparr>"
    "ar_quota (sc_arena c1) = q'"
    using qu x m by (simp add: slab_get_large_def slab_sizeof_48 slab_create_def upd_hdr_def slab_poison_def Let_def)
  have y: "y = x" "c' = c1" using g(1) l(1) so x by (auto simp: slab_get_def slab_sizeof_48 Let_def c_assert_def split: Option.bind_splits if_splits)
  have "slab_real_size c 100000 = Some 100048"
    using slab_real_size_spec [OF cache_inv_arena_size(2,1), OF ci ci, of 100000] sz by (simp add: slab_sizeof_48)
  then have "(x, 100048) \<notin> V" "cache_inv c' (insert (x, 100048) V)" using g(3) y x by (simp_all add: slab_granted_def)
  then show thesis using that [of c'] g(1,2) y x(1) l(2,3) eff q sz by (simp add: keeps_def q_units_def)
qed

lemma example_start:
  obtains c where "cache_inv c {}" and "ar_slab_size (sc_arena c) = 65536" and "q_total (ar_quota (sc_arena c)) = 16384" and "q_used (ar_quota (sc_arena c)) = 0"
    and "sc_sys c = example_sys"
proof -
  obtain c where c: "cache_inv c {}" "sc_arena c = example_arena" "sc_sys c = example_sys" by (rule example_cache)
  then show thesis by (intro that [of c]) (simp_all add: example_arena_def example_quota_def q_total_def q_used_def)
qed

lemma example_slab:
  obtains c where "cache_inv c {(65536, 100048)}" and "ar_slab_size (sc_arena c) = 65536"
    and "q_total (ar_quota (sc_arena c)) = 16384"
proof -
  obtain c where c: "cache_inv c {}" "ar_slab_size (sc_arena c) = 65536" "q_total (ar_quota (sc_arena c)) = 16384" "q_used (ar_quota (sc_arena c)) = 0"
    "sc_sys c = example_sys" by (rule example_start)
  show thesis by (rule example_large [OF c(1-3)]) (use c(4,5) that in \<open>auto simp: example_sys_def align_up_def\<close>)
qed

lemma example_two_slabs:
  obtains c where "cache_inv c {(65536, 100048), (196608, 100048)}" and "ar_slab_size (sc_arena c) = 65536"
    and "q_total (ar_quota (sc_arena c)) = 16384"
proof -
  obtain c where c: "cache_inv c {}" "ar_slab_size (sc_arena c) = 65536" "q_total (ar_quota (sc_arena c)) = 16384" "q_used (ar_quota (sc_arena c)) = 0"
    "sc_sys c = example_sys" by (rule example_start)
  obtain c1 where c1: "cache_inv c1 {(65536, 100048)}" "ar_slab_size (sc_arena c1) = 65536" "q_total (ar_quota (sc_arena c1)) = 16384" "q_used (ar_quota (sc_arena c1)) = 98"
    "mapped (sc_sys c1) = []" "heap (sc_sys c1) = [(65536, 100048)]"
    by (rule example_large [OF c(1-3)]) (use c(4,5) that in \<open>auto simp: example_sys_def align_up_def\<close>)
  show thesis by (rule example_large [OF c1(1-3)]) (use c1(4-6) that in \<open>auto simp: align_up_def insert_commute\<close>)
qed

theorem slab_put_correct_witness: "\<exists>c x n c'. cache_inv c {(x, n)} \<and> slab_put c x = Some c' \<and> cache_inv c' {}"
proof -
  obtain c where c: "cache_inv c {(65536, 100048)}" by (rule example_slab)
  from slab_put_correct [OF this, of 65536 100048] c show ?thesis by auto
qed

text \<open>C29: any script of requests, sizes asked for and live slabs given back in any order, runs to its end on
  the cache without a failed assertion and with the invariant.\<close>

theorem slab_script_runs:
  assumes "cache_inv_os os c {}" and "\<And>n. Get_slab n \<in> set rs \<Longrightarrow> size_request_ok c n"
  shows "\<exists>c' xs. slab_source.run_script (slab_get os) slab_put (\<lambda>c x. sl_size (hdr c x)) c [] rs = Some (c', xs) \<and>
    cache_inv_os os c' (set xs) \<and> distinct xs"
  using cache.run_script_inv [of os c "[]" rs] assms by simp

theorem slab_script_runs_witness:
  "\<exists>c c' xs. slab_source.run_script (slab_get bump_os) slab_put (\<lambda>c x. sl_size (hdr c x)) c []
     [Get_slab 100, Get_slab 9000, Put_nth 1, Get_slab 60000, Put_nth 0] = Some (c', xs) \<and> cache_inv_os bump_os c' (set xs)"
proof -
  obtain c where c: "cache_inv c {}" "sc_arena c = example_arena" by (rule example_cache)
  have "cache_inv_os bump_os c {}" using c(1) bump_os_ok by (simp add: cache_inv_os_def)
  moreover have "size_request_ok c n" if "Get_slab n \<in> set [Get_slab 100, Get_slab 9000, Put_nth 1, Get_slab 60000, Put_nth 0]" for n
    using that c(2) by (auto simp: size_request_ok_def example_arena_def slab_sizeof_48)
  ultimately show ?thesis by (blast dest: slab_script_runs)
qed

text \<open>A cache with nothing in use has no slab that is split.\<close>

lemma unused_cache_merged:
  assumes "cache_inv c {}"
  shows "\<forall>k < order_max c. sl_slabs (orders c ! k) = []" and "length (sl_slabs (orders c ! order_max c)) \<le> 1"
    and "set (sl_slabs (allocated c)) = set (sl_slabs (orders c ! order_max c))"
proof -
  obtain R where i: "cinv c R {} {} {}" using assms by (auto simp: cache_inv_def given_def)
  let ?lb = "order0_size_lb c" and ?mx = "order_max c" and ?B = "free_blocks (order_max c) (orders c)"
  have li: "lists_inv ?lb ?mx (orders c) R {} {}" and al: "alloc_inv c R {}" using i by (simp_all add: cinv_def)
  then have t: "tiling ?lb ?mx R ?B" and nb: "\<forall>k < ?mx. \<forall>a \<in> set (sl_slabs (orders c ! k)). a XOR bsz ?lb k \<notin> set (sl_slabs (orders c ! k))"
    and one: "length (sl_slabs (orders c ! ?mx)) \<le> 1" by (simp_all add: lists_inv_def)
  have B: "(a, k) \<in> ?B \<longleftrightarrow> k \<le> ?mx \<and> a \<in> set (sl_slabs (orders c ! k))" for a k by (auto simp: free_blocks_def)
  have top: "k = ?mx" if "(a, k) \<in> ?B" for a k by (rule tiling_unsplit [OF t _ that]) (use nb B in auto)
  show "\<forall>k < ?mx. sl_slabs (orders c ! k) = []" using top B by (metis last_in_set less_imp_le less_irrefl)
  show "length (sl_slabs (orders c ! ?mx)) \<le> 1" by (rule one)
  have "r \<in> set (sl_slabs (orders c ! ?mx))" if "r \<in> R" for r
    by (rule tiling_at_root [OF t that]) (use top B in auto)
  moreover have "a \<in> R" if a: "a \<in> set (sl_slabs (orders c ! ?mx))" for a
  proof -
    have m: "(a, ?mx) \<in> ?B" using a B by simp
    obtain r where r: "r \<in> R" "span a (bsz ?lb ?mx) \<subseteq> span r (bsz ?lb ?mx)" by (rule tiling_root [OF t m])
    have "a = r" using span_subset_bounds [OF r(2)] by (metis bsz_pos le_antisym le_add_same_cancel1 add_le_cancel_right)
    then show ?thesis using r(1) by simp
  qed
  moreover have "set (sl_slabs (allocated c)) = R" using al by (simp add: alloc_inv_def)
  ultimately show "set (sl_slabs (allocated c)) = set (sl_slabs (orders c ! ?mx))" by blast
qed

text \<open>C28: Whatever slabs were taken from a cache and in whatever order they were given back, once all are back every
  split slab is merged again: after any script of \<open>slab_get\<close> and \<open>slab_put\<close> calls followed by a return of
  what is left, no free slab below the largest order remains, and all that the cache still holds
  of the arena is at most one slab of the largest order.\<close>

theorem slab_cache_coalesced:
  assumes "cache_inv_os os c {}" and "\<And>n. Get_slab n \<in> set rs \<Longrightarrow> size_request_ok c n"
  shows "\<exists>c'. slab_source.run_script (slab_get os) slab_put (\<lambda>c x. sl_size (hdr c x)) c [] (rs @ replicate (length rs) (Put_nth 0)) = Some (c', []) \<and>
    (\<forall>k < order_max c'. sl_slabs (orders c' ! k) = []) \<and> length (sl_slabs (orders c' ! order_max c')) \<le> 1 \<and>
    set (sl_slabs (allocated c')) = set (sl_slabs (orders c' ! order_max c'))"
proof -
  obtain c' where r: "slab_source.run_script (slab_get os) slab_put (\<lambda>c x. sl_size (hdr c x)) c [] (rs @ replicate (length rs) (Put_nth 0)) = Some (c', [])"
    "cache_inv_os os c' {}" using cache.run_script_returns [OF assms] by blast
  then have "cache_inv c' {}" by (simp add: cache_inv_os_def)
  then show ?thesis using r(1) unused_cache_merged [of c'] by blast
qed

theorem slab_cache_coalesced_witness:
  "\<exists>c c'. slab_source.run_script (slab_get bump_os) slab_put (\<lambda>c x. sl_size (hdr c x)) c []
     [Get_slab 100, Get_slab 9000, Put_nth 1, Get_slab 60000, Put_nth 0, Put_nth 0, Put_nth 0, Put_nth 0] = Some (c', []) \<and>
     card (set (sl_slabs (allocated c'))) \<le> 1"
proof -
  let ?rs = "[Get_slab 100, Get_slab 9000, Put_nth 1, Get_slab 60000]"
  obtain c where c: "cache_inv c {}" "sc_arena c = example_arena" by (rule example_cache)
  have i: "cache_inv_os bump_os c {}" using c(1) bump_os_ok by (simp add: cache_inv_os_def)
  have "size_request_ok c n" if "Get_slab n \<in> set ?rs" for n using that c(2) by (auto simp: size_request_ok_def example_arena_def slab_sizeof_48)
  moreover have rep: "replicate (length ?rs) (Put_nth 0) = [Put_nth 0, Put_nth 0, Put_nth 0, Put_nth 0]" by (simp add: numeral_eq_Suc)
  ultimately obtain c' where c': "slab_source.run_script (slab_get bump_os) slab_put (\<lambda>c x. sl_size (hdr c x)) c []
     (?rs @ [Put_nth 0, Put_nth 0, Put_nth 0, Put_nth 0]) = Some (c', [])" "length (sl_slabs (orders c' ! order_max c')) \<le> 1"
     "set (sl_slabs (allocated c')) = set (sl_slabs (orders c' ! order_max c'))"
    using slab_cache_coalesced [OF i, of ?rs, unfolded rep] by blast
  have "card (set (sl_slabs (allocated c'))) \<le> 1" using c'(2,3) by (metis card_length le_trans)
  then show ?thesis using c'(1) unfolding append.simps by blast
qed

text \<open>The counters of the cache are exact: \<open>used\<close> is the number of bytes of the slabs in use, and the
  total is covered by the quota, which limits it to 4 terabytes.\<close>

theorem slab_cache_accounting:
  assumes "cache_inv c V"
  shows "slab_cache_used c = (\<Sum>p \<in> V. int (snd p)) \<and> slab_cache_used c \<le> st_total (allocated c) \<and>
    st_total (allocated c) \<le> int (1024 * q_used (ar_quota (sc_arena c)))"
proof -
  obtain R L U where i: "cinv c R L U {}" and V: "V = given c L U" using assms by (auto simp: cache_inv_def)
  let ?lb = "order0_size_lb c" and ?mx = "order_max c"
  have li: "lists_inv ?lb ?mx (orders c) R U {}" and al: "alloc_inv c R L" and ar: "arena_inv (sc_arena c) (sc_sys c) R (huge_units L)"
    and finL: "finite L" using i by (simp_all add: cinv_def huge_inv_def)
  have finU: "finite U" using li by (rule lists_finite)
  have uk: "st_used (orders c ! k) = int (bsz ?lb k * cnt U k)" "st_used (orders c ! k) \<le> st_total (orders c ! k)" if "k \<le> ?mx" for k
    using li that by (simp_all add: lists_inv_def)
  have U: "(\<Sum>p \<in> U. int (bsz ?lb (snd p))) = (\<Sum>k \<le> ?mx. st_used (orders c ! k))"
  proof -
    have "(\<Sum>p \<in> U. int (bsz ?lb (snd p))) = (\<Sum>k \<le> ?mx. \<Sum>p \<in> {p \<in> U. snd p = k}. int (bsz ?lb (snd p)))"
      using finU tiling_block(1) [OF cinv_blocks(1) [OF i]] by (intro sum.group [symmetric]) force+
    also have "\<dots> = (\<Sum>k \<le> ?mx. st_used (orders c ! k))"
    proof (rule sum.cong)
      fix k assume k: "k \<in> {..?mx}"
      have "{p \<in> U. snd p = k} = (\<lambda>a. (a, k)) ` {a. (a, k) \<in> U}" by force
      then have "card {p \<in> U. snd p = k} = cnt U k" by (simp add: cnt_def card_image inj_on_def)
      then show "(\<Sum>p \<in> {p \<in> U. snd p = k}. int (bsz ?lb (snd p))) = st_used (orders c ! k)" using uk(1) k by simp
    qed simp
    finally show ?thesis .
  qed
  have "(\<Sum>p \<in> V. int (snd p)) = (\<Sum>p \<in> (\<lambda>(a, k). (a, bsz ?lb k)) ` U. int (snd p)) + (\<Sum>p \<in> L. int (snd p))"
    unfolding V given_def using finU finL cinv_block_huge(2) [OF i] by (intro sum.union_disjoint) auto
  also have "(\<Sum>p \<in> (\<lambda>(a, k). (a, bsz ?lb k)) ` U. int (snd p)) = (\<Sum>p \<in> U. int (bsz ?lb (snd p)))"
    by (subst sum.reindex) (auto simp: inj_on_def split_def)
  finally have used: "slab_cache_used c = (\<Sum>p \<in> V. int (snd p))"
    using al U by (simp add: slab_cache_used_def alloc_inv_def huge_size_def)
  have "(\<Sum>k \<le> ?mx. st_used (orders c ! k)) \<le> (\<Sum>k \<le> ?mx. st_total (orders c ! k))" using uk(2) by (intro sum_mono) simp
  then have le: "slab_cache_used c \<le> st_total (allocated c)"
    using al cinv_totals [OF i] by (simp add: slab_cache_used_def alloc_inv_def)
  have "card R \<le> arena_count (sc_arena c) R" by (simp add: arena_count_def)
  from mult_le_mono [OF this conjunct1 [OF q_units_bounds [of "ar_slab_size (sc_arena c)"]]]
  have "card R * ar_slab_size (sc_arena c) \<le> 1024 * (q_units (ar_slab_size (sc_arena c)) * arena_count (sc_arena c) R)"
    by (simp only: ac_simps)
  moreover have "huge_size L \<le> 1024 * huge_units L"
    unfolding huge_size_def huge_units_def sum_distrib_left using q_units_bounds by (intro sum_mono) blast
  moreover have "q_units (ar_slab_size (sc_arena c)) * arena_count (sc_arena c) R + huge_units L \<le> q_used (ar_quota (sc_arena c))"
    using ar by (simp add: arena_inv_def)
  ultimately have "card R * ar_slab_size (sc_arena c) + huge_size L \<le> 1024 * q_used (ar_quota (sc_arena c))" by linarith
  then have "st_total (allocated c) \<le> int (1024 * q_used (ar_quota (sc_arena c)))"
    using al unfolding alloc_inv_def by (metis of_nat_mono)
  then show ?thesis using used le by blast
qed

theorem slab_cache_accounting_witness: "\<exists>c. cache_inv c {(65536, 100048)} \<and> slab_cache_used c = 100048"
proof -
  obtain c where c: "cache_inv c {(65536, 100048)}" by (rule example_slab)
  from slab_cache_accounting [OF this] c show ?thesis by auto
qed

text \<open>C30: \<open>slab_cache_check\<close> finds nothing to complain about in a well-formed cache whose smallest slab has at
  least 256 bytes.\<close>

theorem slab_cache_check_passes:
  assumes "cache_inv c V" and "8 \<le> order0_size_lb c"
  shows "slab_cache_check c = Some ()"
  using assms by (rule slab_cache_check_spec)

theorem slab_cache_check_passes_witness: "\<exists>c. cache_inv c {} \<and> slab_cache_check c = Some ()"
proof -
  obtain c where c: "cache_inv c {}" "8 \<le> order0_size_lb c" by (rule example_cache)
  from slab_cache_check_passes [OF this] c show ?thesis by blast
qed

text \<open>A cache created on an arena that has no slab out is well-formed, empty, and its smallest slab is
  not smaller than the page size.\<close>

theorem slab_cache_create_correct:
  assumes "arena_inv ar s {} 0" and "64 \<le> m" and "m \<le> ar_slab_size ar"
  shows "\<exists>c. slab_cache_create ar m h b s = Some c \<and> cache_inv c {} \<and> m \<le> order0_size c"
  using slab_cache_create_spec [OF assms] by blast

theorem slab_cache_create_correct_witness:
  "\<exists>c. slab_cache_create example_arena 4096 (\<lambda>_. undefined) (\<lambda>_. 0) example_sys = Some c \<and> cache_inv c {}"
  using slab_cache_create_correct [OF example_arena_inv, of 4096 "\<lambda>_. undefined" "\<lambda>_. 0"] by (auto simp: example_arena_def)

text \<open>Destroying a cache, whatever is still in use, passes every assertion, returns all slabs to the arena
  and gives the quota of the large slabs back.\<close>

theorem slab_cache_destroy_correct:
  assumes "cache_inv c V"
  shows "\<exists>c'. slab_cache_destroy c = Some c' \<and> arena_inv (sc_arena c') (sc_sys c') {} 0"
  using slab_cache_destroy_spec [OF assms] by blast

theorem slab_cache_destroy_correct_witness: "\<exists>c c'. cache_inv c {(65536, 100048)} \<and> slab_cache_destroy c = Some c'"
proof -
  obtain c where c: "cache_inv c {(65536, 100048)}" by (rule example_slab)
  from slab_cache_destroy_correct [OF this] c show ?thesis by blast
qed

text \<open>\<open>slab_order\<close> chooses the smallest order that can hold the size.\<close>

theorem slab_order_least:
  assumes "cache_inv c V" and "sz \<le> ar_slab_size (sc_arena c)"
  shows "slab_order c sz \<le> order_max c \<and> sz \<le> 2 ^ (slab_order c sz + order0_size_lb c) \<and>
    (\<forall>k < slab_order c sz. 2 ^ (k + order0_size_lb c) < sz)"
proof -
  obtain R L U where i: "cinv c R L U {}" using assms(1) by (auto simp: cache_inv_def)
  note ca = cache_inv_arena_size [OF i]
  note o = slab_order_spec [OF ca(2,1) assms(2)]
  show ?thesis using o unfolding bsz_def by blast
qed

theorem slab_order_least_witness: "\<exists>c. cache_inv c {} \<and> (5000::nat) \<le> 2 ^ (slab_order c 5000 + order0_size_lb c)"
proof -
  obtain c where c: "cache_inv c {}" "sc_arena c = example_arena" by (rule example_cache)
  from slab_order_least [OF c(1), of 5000] c show ?thesis by (auto simp: example_arena_def)
qed

end
