(* ===== verification/Slab_Client.thy ===== *)
theory Slab_Client
  imports Slab_Cache_Check
begin

text \<open>
  What the allocators above the slab cache share: the C library's \<open>memset\<close> and \<open>memcpy\<close> on the
  bytes behind the slab headers, and the behaviour of the slab cache as a client sees it that
  owns some of the slabs in use. \<open>memcpy\<close> of overlapping ranges is undefined and an abort here.
\<close>

section \<open>Bytes\<close>

definition memset :: "slab_cache \<Rightarrow> addr \<Rightarrow> byte \<Rightarrow> nat \<Rightarrow> slab_cache" where
  "memset c p v n = c\<lparr>mem := (\<lambda>x. if p \<le> x \<and> x < p + n then v else mem c x)\<rparr>"

definition memcpy :: "slab_cache \<Rightarrow> addr \<Rightarrow> addr \<Rightarrow> nat \<Rightarrow> slab_cache option" where
  "memcpy c d s n = do {
     c_assert (n = 0 \<or> d + n \<le> s \<or> s + n \<le> d);
     Some (c\<lparr>mem := (\<lambda>x. if d \<le> x \<and> x < d + n then mem c (s + (x - d)) else mem c x)\<rparr>) }"

definition read_bytes :: "slab_cache \<Rightarrow> addr \<Rightarrow> nat \<Rightarrow> byte list" where
  "read_bytes c p n = map (mem c) [p ..< p + n]"

definition write_bytes :: "slab_cache \<Rightarrow> addr \<Rightarrow> byte list \<Rightarrow> slab_cache" where
  "write_bytes c p bs = c\<lparr>mem := (\<lambda>x. if p \<le> x \<and> x < p + length bs then bs ! (x - p) else mem c x)\<rparr>"

lemma read_bytes_0 [simp]: "read_bytes c p 0 = []"
  by (simp add: read_bytes_def)

lemma length_read_bytes [simp]: "length (read_bytes c p n) = n"
  by (simp add: read_bytes_def)

lemma nth_read_bytes [simp]: "i < n \<Longrightarrow> read_bytes c p n ! i = mem c (p + i)"
  by (simp add: read_bytes_def)

lemma read_bytes_cong: "(\<And>x. x \<in> span p n \<Longrightarrow> mem c' x = mem c x) \<Longrightarrow> read_bytes c' p n = read_bytes c p n"
  by (simp add: read_bytes_def)

lemma read_bytes_add: "read_bytes c p (m + n) = read_bytes c p m @ read_bytes c (p + m) n"
  by (intro nth_equalityI) (auto simp: nth_append)

lemma take_read_bytes: "take k (read_bytes c p n) = read_bytes c p (min k n)"
  by (intro nth_equalityI) auto

lemma drop_read_bytes: "drop k (read_bytes c p n) = read_bytes c (p + k) (n - k)"
  by (intro nth_equalityI) (auto simp: add.assoc)

lemma read_write_bytes [simp]: "read_bytes (write_bytes c p bs) p (length bs) = bs"
  by (intro nth_equalityI) (simp_all add: write_bytes_def)

lemma memcpy_run:
  assumes "n = 0 \<or> d + n \<le> s \<or> s + n \<le> d"
  obtains m where "memcpy c d s n = Some (c\<lparr>mem := m\<rparr>)" and "read_bytes (c\<lparr>mem := m\<rparr>) d n = read_bytes c s n"
    and "\<And>x. x \<notin> span d n \<Longrightarrow> m x = mem c x"
  using assms by (intro that [of "\<lambda>x. if d \<le> x \<and> x < d + n then mem c (s + (x - d)) else mem c x"])
    (auto simp: memcpy_def read_bytes_def intro!: nth_equalityI)

lemma memset_keeps: "span p n \<inter> X = {} \<Longrightarrow> keeps c (memset c p v n) X"
  by (auto simp: keeps_def memset_def disjoint_iff)

section \<open>Clients only see bytes\<close>

lemma cinv_mem: "cinv (c\<lparr>mem := m\<rparr>) R L U H = cinv c R L U H"
  by (simp add: cinv_def cache_config_def alloc_inv_def huge_inv_def huge_hdr_def)

lemma cache_inv_mem [simp]: "cache_inv (c\<lparr>mem := m\<rparr>) V = cache_inv c V"
  by (simp add: cache_inv_def cinv_mem given_def)

lemma cache_inv_memset [simp]: "cache_inv (memset c p v n) V = cache_inv c V"
  by (simp add: memset_def)

lemma cache_inv_write_bytes [simp]: "cache_inv (write_bytes c p bs) V = cache_inv c V"
  by (simp add: write_bytes_def)

text \<open>The part of the cache that client operations never change.\<close>

definition same_cache :: "slab_cache \<Rightarrow> slab_cache \<Rightarrow> bool" where
  "same_cache c c' \<longleftrightarrow> keeps c c' {}"

lemma same_cache_refl [simp]: "same_cache c c"
  by (simp add: same_cache_def keeps_refl)

lemma same_cache_trans: "same_cache c c' \<Longrightarrow> same_cache c' c'' \<Longrightarrow> same_cache c c''"
  unfolding same_cache_def by (rule keeps_trans)

lemma keeps_same_cache: "keeps c c' X \<Longrightarrow> same_cache c c'"
  by (simp add: same_cache_def keeps_def)

lemma same_cache_mem [simp]: "same_cache c (c\<lparr>mem := m\<rparr>)"
  by (simp add: same_cache_def keeps_def)

lemma same_cache_size_request: "same_cache c c' \<Longrightarrow> size_request_ok c' n = size_request_ok c n"
  by (simp add: same_cache_def keeps_def size_request_ok_def quota_room_def)

text \<open>The bytes of a set of slabs that has one slab more or less.\<close>

lemma slab_bytes_insert [simp]: "slab_bytes (insert (a, n) V) = span a n \<union> slab_bytes V"
  by (simp add: slab_bytes_def)

lemma slab_bytes_mono: "V \<subseteq> W \<Longrightarrow> slab_bytes V \<subseteq> slab_bytes W"
  by (auto simp: slab_bytes_def)

lemma span_slab_bytes: "(a, n) \<in> V \<Longrightarrow> span a n \<subseteq> slab_bytes V"
  by (auto simp: slab_bytes_def)

lemma cache_inv_other_bytes:
  assumes "cache_inv c V" and "(a, n) \<in> V" and "W \<subseteq> V - {(a, n)}"
  shows "span a n \<inter> slab_bytes W = {}"
proof -
  have "span a n \<inter> span b m = {}" if "(b, m) \<in> W" for b m
    using cache_inv_disjoint [OF assms(1,2), of b m] assms(3) that by auto
  then show ?thesis unfolding slab_bytes_def by blast
qed

text \<open>Slabs lie in the lower half of the address space.\<close>

lemma cache_inv_low:
  assumes "cache_inv c V" and "(a, n) \<in> V"
  shows "a + n \<le> 2 ^ 63"
proof -
  obtain R L U where i: "cinv c R L U {}" and V: "V = given c L U" using assms(1) by (auto simp: cache_inv_def)
  have d: "covered (mapped (sc_sys c)) \<inter> taken (heap (sc_sys c)) = {}" using i by (simp add: cinv_def arena_inv_def)
  show ?thesis using assms(2) unfolding V
  proof (cases rule: given_cases)
    case (1 k)
    have "span a n \<subseteq> covered (mapped (sc_sys c))" using cinv_block_mapped(1) [OF i, of a k] 1 by simp
    then have "span a n \<inter> taken (heap (sc_sys c)) = {}" using d by blast
    then show ?thesis by (rule span_low) (simp add: 1(2))
  next
    case 2
    then show ?thesis by (rule cinv_huge(7) [OF i])
  qed
qed

section \<open>Requests of a client\<close>

lemma slab_get_client:
  assumes "os_ok os" and "cache_inv c V" and "size_request_ok c sz"
  obtains (fail) c' where "slab_get os c sz = Some (NULL, c')" and "cache_inv c' V" and "keeps c c' (slab_bytes V)"
  | (ok) x c' n where "slab_get os c sz = Some (x, c')" and "x \<noteq> NULL" and "cache_inv c' (insert (x, n) V)"
      and "(x, n) \<notin> V" and "keeps c c' (slab_bytes V)" and "sl_size (hdr c' x) = n" and "sz + slab_sizeof \<le> n"
      and "slab_real_size c sz = Some n" and "span x n \<inter> slab_bytes V = {}" and "\<forall>(a, m) \<in> V. a \<noteq> x"
proof -
  obtain x c' where g: "slab_get os c sz = Some (x, c')" "keeps c c' (slab_bytes V)" "slab_granted c sz V x c'"
    using slab_get_spec [of os c V sz] assms by (auto simp: size_request_ok_def)
  show thesis
  proof (cases "x = NULL")
    case True
    with g show thesis by (intro fail) (simp_all add: slab_granted_def)
  next
    case False
    obtain n where n: "slab_real_size c sz = Some n" "sz + slab_sizeof \<le> n" "(x, n) \<notin> V" "cache_inv c' (insert (x, n) V)"
      using g(3) False by (auto simp: slab_granted_def)
    have d: "span x n \<inter> slab_bytes V = {}"
      using n(3) by (intro cache_inv_other_bytes [OF n(4)]) auto
    have fresh: "a \<noteq> x" if "(a, m) \<in> V" for a m
      using cache_inv_fun [OF n(4), of x n m] n(3) that by auto
    show thesis
      using g(1) False n(4,3) g(2) cache_inv_slab(2) [OF n(4)] n(2,1) d fresh by (intro ok) blast+
  qed
qed

lemma slab_put_client:
  assumes "cache_inv c V" and "(x, n) \<in> V"
  obtains c' where "slab_put c x = Some c'" and "cache_inv c' (V - {(x, n)})" and "keeps c c' (slab_bytes (V - {(x, n)}))"
  using slab_put_spec [OF assms] by blast

text \<open>Returning a list of slabs, the loop of the functions that free an allocator.\<close>

fun slab_put_all :: "slab_cache \<Rightarrow> addr list \<Rightarrow> slab_cache option" where
  "slab_put_all c [] = Some c"
| "slab_put_all c (s # rest) = do { c \<leftarrow> slab_put c s; slab_put_all c rest }"

lemma slab_put_all_spec:
  assumes "cache_inv c V" and "distinct xs" and "set xs = fst ` W" and "W \<subseteq> V"
  obtains c' where "slab_put_all c xs = Some c'" and "cache_inv c' (V - W)" and "keeps c c' (slab_bytes (V - W))"
  using assms
proof (induction xs arbitrary: c V W thesis)
  case Nil
  then show ?case using keeps_refl by simp
next
  case (Cons x xs)
  have "x \<in> fst ` W" unfolding Cons.prems(4) [symmetric] by simp
  then obtain n where n: "(x, n) \<in> W" by auto
  obtain c1 where c1: "slab_put c x = Some c1" "cache_inv c1 (V - {(x, n)})" "keeps c c1 (slab_bytes (V - {(x, n)}))"
    using slab_put_client [OF Cons.prems(2), of x n] n Cons.prems(5) by blast
  have "m = n" if "(x, m) \<in> W" for m using cache_inv_fun [OF Cons.prems(2), of x m n] that n Cons.prems(5) by blast
  then have "fst ` (W - {(x, n)}) = fst ` W - {x}" by force
  then have "set xs = fst ` (W - {(x, n)})" using Cons.prems(3,4) by auto
  from Cons.IH [OF _ c1(2) _ this] obtain c' where c': "slab_put_all c1 xs = Some c'"
    "cache_inv c' (V - {(x, n)} - (W - {(x, n)}))" "keeps c1 c' (slab_bytes (V - {(x, n)} - (W - {(x, n)})))"
    using Cons.prems(3,5) by auto
  have e: "V - {(x, n)} - (W - {(x, n)}) = V - W" using n by blast
  have "keeps c c1 (slab_bytes (V - W))"
    using c1(3) slab_bytes_mono [of "V - W" "V - {(x, n)}"] n by (auto simp: keeps_def)
  then have "keeps c c' (slab_bytes (V - W))" using c'(3) unfolding e by (rule keeps_trans)
  then show ?case using Cons.prems(1) [of c'] c1(1) c'(1,2) unfolding e by simp
qed

lemma real_size_cases:
  assumes "cache_inv c V" and "slab_real_size c sz = Some n" and "sz + slab_sizeof < 2 ^ 64"
  shows "n < 2 ^ 32 \<or> n = sz + slab_sizeof"
proof -
  obtain R L U where ci: "cinv c R L U {}" using assms(1) by (auto simp: cache_inv_def)
  note ca = cache_inv_arena_size [OF ci]
  show ?thesis
  proof (cases "sz + slab_sizeof \<le> ar_slab_size (sc_arena c)")
    case True
    have "slab_order c (sz + slab_sizeof) \<le> order_max c" by (rule slab_order_spec(1) [OF ca(2,1) True])
    then have "bsz (order0_size_lb c) (slab_order c (sz + slab_sizeof)) \<le> bsz (order0_size_lb c) (order_max c)"
      by (simp add: bsz_def)
    also have "\<dots> = ar_slab_size (sc_arena c)" using ca(2) by (simp add: cache_config_def)
    finally show ?thesis using slab_real_size_spec [OF ca(2,1) assms(3)] True ca(1) assms(2) by simp
  next
    case False
    then show ?thesis using slab_real_size_spec [OF ca(2,1) assms(3)] assms(2) by simp
  qed
qed

lemma real_size_32_bit: "cache_inv c V \<Longrightarrow> slab_real_size c sz = Some n \<Longrightarrow> sz + slab_sizeof < 2 ^ 32 \<Longrightarrow> n < 2 ^ 32"
  using real_size_cases [of c V sz n] by fastforce

section \<open>Slabs of an order\<close>

text \<open>What a client may rely on for the slabs \<open>V\<close> it does not touch: their bytes and their orders stay.\<close>

definition kept :: "slab_cache \<Rightarrow> slab_cache \<Rightarrow> (addr \<times> nat) set \<Rightarrow> bool" where
  "kept c c' V \<longleftrightarrow> keeps c c' (slab_bytes V) \<and> same_orders c c' V"

lemma kept_refl: "kept c c V"
  by (simp add: kept_def keeps_refl same_orders_def)

lemma kept_trans: "kept c c' V \<Longrightarrow> kept c' c'' V \<Longrightarrow> kept c c'' V"
  by (fastforce simp: kept_def same_orders_def intro: keeps_trans)

lemma kept_mono: "kept c c' V \<Longrightarrow> W \<subseteq> V \<Longrightarrow> kept c c' W"
  using slab_bytes_mono [of W V] by (auto simp: kept_def keeps_def same_orders_def)

lemma keptD:
  assumes "kept c c' V"
  shows "keeps c c' (slab_bytes V)" and "same_cache c c'" and "(a, n) \<in> V \<Longrightarrow> sl_order (hdr c' a) = sl_order (hdr c a)"
    and "(a, n) \<in> V \<Longrightarrow> x \<in> span a n \<Longrightarrow> mem c' x = mem c x"
proof -
  show k: "keeps c c' (slab_bytes V)" using assms by (simp add: kept_def)
  then show "same_cache c c'" by (rule keeps_same_cache)
  show "sl_order (hdr c' a) = sl_order (hdr c a)" if "(a, n) \<in> V" using assms that by (auto simp: kept_def same_orders_def)
  show "mem c' x = mem c x" if "(a, n) \<in> V" "x \<in> span a n"
    using k span_slab_bytes [OF that(1)] that(2) unfolding keeps_def by blast
qed

lemma slab_get_with_order_client:
  assumes "os_ok os" and "cache_inv c V" and "order \<le> order_max c"
  obtains (fail) c' where "slab_get_with_order os c order = Some (NULL, c')" and "cache_inv c' V" and "kept c c' V"
  | (ok) x c' n where "slab_get_with_order os c order = Some (x, c')" and "x \<noteq> NULL" and "cache_inv c' (insert (x, n) V)"
      and "(x, n) \<notin> V" and "kept c c' V" and "n = 2 ^ (order + order0_size_lb c)"
      and "span x n \<inter> slab_bytes V = {}" and "\<forall>(a, m) \<in> V. a \<noteq> x" and "n dvd x" and "sl_order (hdr c' x) = order"
proof -
  obtain R L U where ci: "cinv c R L U {}" and V: "V = given c L U" using assms(2) by (auto simp: cache_inv_def)
  obtain x c' R' where g: "slab_get_with_order os c order = Some (x, c')" "keeps c c' (used_bytes c L U)"
    "x = NULL \<Longrightarrow> cinv c' R' L U {}" "x \<noteq> NULL \<Longrightarrow> (x, order) \<notin> U \<and> cinv c' R' L (insert (x, order) U) {}"
    using slab_get_with_order_spec [OF assms(1) ci assms(3)] by blast
  have lb: "order0_size_lb c' = order0_size_lb c" using g(2) by (simp add: keeps_def)
  have gv: "given c' L U = V" using keeps_given [OF g(2), of L U] V by simp
  have so: "same_orders c c' (given c L U)"
    using g(3,4) by (cases "x = NULL") (auto intro!: same_ordersI [OF ci _ g(2)])
  then have k: "kept c c' V" using g(2) by (simp add: V used_bytes_given kept_def)
  show thesis
  proof (cases "x = NULL")
    case True
    then show thesis using fail [of c'] g k gv by (auto intro: cache_invI)
  next
    case False
    let ?n = "bsz (order0_size_lb c) order"
    note g4 = g(4) [OF False]
    have i: "cache_inv c' (insert (x, ?n) V)"
      using conjunct2 [OF g4] by (rule cache_invI) (simp add: given_insert lb gv)
    have new: "(x, ?n) \<notin> V"
    proof
      assume "(x, ?n) \<in> V"
      then show False unfolding V
      proof (cases rule: given_cases)
        case (1 j)
        then show False using g4 by simp
      next
        case 2
        then show False using cinv_block_huge(2) [of c' R' L "insert (x, order) U" "{}" x order x] g4 by blast
      qed
    qed
    have fresh: "a \<noteq> x" if "(a, m) \<in> V" for a m
      using cache_inv_fun [OF i, of x ?n m] new that by auto
    have d: "span x ?n \<inter> slab_bytes V = {}" using new by (intro cache_inv_other_bytes [OF i]) auto
    have o: "sl_order (hdr c' x) = order"
      using cinv_used(2) [OF conjunct2 [OF g4], of x order] by (simp add: slab_hdr_def)
    then have "sl_order (hdr c' x) \<le> order_max c'" using assms(3) g(2) by (simp add: keeps_def)
    then have "?n dvd x" using cache_inv_slab(5) [OF i] by simp
    moreover note o
    ultimately show thesis
      using g(1) False i new k d fresh by (intro ok [of x c' ?n]) (auto simp: bsz_def)
  qed
qed

lemma cache_inv_order:
  assumes "cache_inv c V" and "(x, n) \<in> V" and "sl_order (hdr c x) \<le> order_max c"
  shows "n = 2 ^ (sl_order (hdr c x) + order0_size_lb c)"
proof -
  obtain R L U where i: "cinv c R L U {}" and V: "V = given c L U" using assms(1) by (auto simp: cache_inv_def)
  show ?thesis using assms(2) unfolding V
  proof (cases rule: given_cases)
    case (1 k)
    then show ?thesis using cinv_used [OF i 1(1)] by (simp add: slab_hdr_def bsz_def)
  next
    case 2
    then show ?thesis using cinv_huge(2) [OF i 2] assms(3) by (simp add: huge_hdr_def)
  qed
qed

lemma slab_put_with_order_client:
  assumes "cache_inv c V" and "(x, n) \<in> V" and "sl_order (hdr c x) \<le> order_max c"
  obtains c' where "slab_put_with_order c x = Some c'" and "cache_inv c' (V - {(x, n)})" and "kept c c' (V - {(x, n)})"
  using slab_put_spec [OF assms(1,2)] assms(3) by (auto simp: slab_put_def kept_def)

section \<open>The slabs a client owns\<close>

text \<open>
  A client keeps a list of slabs; \<open>others\<close> are the slabs of other clients. \<open>owns\<close> says that both
  together are the slabs in use, which is what the invariants of the clients have in common.
\<close>

definition slabs_of :: "slab_cache \<Rightarrow> addr list \<Rightarrow> (addr \<times> nat) set" where
  "slabs_of c xs = (\<lambda>s. (s, sl_size (hdr c s))) ` set xs"

definition owns :: "slab_cache \<Rightarrow> (addr \<times> nat) set \<Rightarrow> addr list \<Rightarrow> bool" where
  "owns c others xs \<longleftrightarrow> cache_inv c (others \<union> slabs_of c xs) \<and> others \<inter> slabs_of c xs = {} \<and> distinct xs"

lemma slabs_of_Nil [simp]: "slabs_of c [] = {}"
  by (simp add: slabs_of_def)

lemma slabs_of_Cons [simp]: "slabs_of c (s # xs) = insert (s, sl_size (hdr c s)) (slabs_of c xs)"
  by (simp add: slabs_of_def)

lemma slabs_of_append [simp]: "slabs_of c (xs @ ys) = slabs_of c xs \<union> slabs_of c ys"
  by (auto simp: slabs_of_def)

lemma fst_slabs_of: "fst ` slabs_of c xs = set xs"
  by (force simp: slabs_of_def)

lemma slabs_of_mem [simp]: "slabs_of (c\<lparr>mem := m\<rparr>) xs = slabs_of c xs"
  by (simp add: slabs_of_def)

lemma slabs_of_stable:
  assumes "cache_inv c V" and "slabs_of c0 xs \<subseteq> V"
  shows "slabs_of c xs = slabs_of c0 xs" and "s \<in> set xs \<Longrightarrow> sl_size (hdr c s) = sl_size (hdr c0 s)"
proof -
  have "sl_size (hdr c s) = sl_size (hdr c0 s)" if "s \<in> set xs" for s
  proof -
    have "(s, sl_size (hdr c0 s)) \<in> V" by (rule subsetD [OF assms(2)]) (use that in \<open>simp add: slabs_of_def\<close>)
    then show ?thesis by (rule cache_inv_slab(2) [OF assms(1)])
  qed
  then show "slabs_of c xs = slabs_of c0 xs" "s \<in> set xs \<Longrightarrow> sl_size (hdr c s) = sl_size (hdr c0 s)"
    by (simp_all add: slabs_of_def)
qed

lemma slabs_of_eq_size: "slabs_of c' xs = slabs_of c xs \<Longrightarrow> s \<in> set xs \<Longrightarrow> sl_size (hdr c' s) = sl_size (hdr c s)"
proof -
  assume e: "slabs_of c' xs = slabs_of c xs" and s: "s \<in> set xs"
  have "(s, sl_size (hdr c' s)) \<in> slabs_of c xs" unfolding e [symmetric] using s by (simp add: slabs_of_def)
  then show ?thesis by (auto simp: slabs_of_def)
qed

lemma owns_mem [simp]: "owns (c\<lparr>mem := m\<rparr>) others xs = owns c others xs"
  by (simp add: owns_def)

lemma owns_perm: "set xs = set ys \<Longrightarrow> distinct ys \<Longrightarrow> owns c others xs \<Longrightarrow> owns c others ys"
  by (simp add: owns_def slabs_of_def)

lemma owns_slab:
  assumes "owns c others xs" and "s \<in> set xs"
  shows "s \<noteq> NULL" and "sl_magic (hdr c s) = slab_magic" and "slab_sizeof \<le> sl_size (hdr c s)"
    and "(s, sl_size (hdr c s)) \<in> slabs_of c xs"
    and "(s, sl_size (hdr c s)) \<in> others \<union> slabs_of c xs" and "s + sl_size (hdr c s) \<le> 2 ^ 63"
proof -
  show m: "(s, sl_size (hdr c s)) \<in> slabs_of c xs" using assms(2) by (simp add: slabs_of_def)
  then show i: "(s, sl_size (hdr c s)) \<in> others \<union> slabs_of c xs" by blast
  have c: "cache_inv c (others \<union> slabs_of c xs)" using assms(1) by (simp add: owns_def)
  show "s \<noteq> NULL" "sl_magic (hdr c s) = slab_magic" "slab_sizeof \<le> sl_size (hdr c s)"
    using cache_inv_slab [OF c i] by simp_all
  show "s + sl_size (hdr c s) \<le> 2 ^ 63" by (rule cache_inv_low [OF c i])
qed

lemma owns_disjoint:
  assumes "owns c others xs" and "s \<in> set xs"
  shows "span s (sl_size (hdr c s)) \<inter> slab_bytes others = {}"
    and "t \<in> set xs \<Longrightarrow> s \<noteq> t \<Longrightarrow> span s (sl_size (hdr c s)) \<inter> span t (sl_size (hdr c t)) = {}"
proof -
  have c: "cache_inv c (others \<union> slabs_of c xs)" and d: "others \<inter> slabs_of c xs = {}"
    using assms(1) by (simp_all add: owns_def)
  have "(s, sl_size (hdr c s)) \<notin> others" using d owns_slab(4) [OF assms] by blast
  then show "span s (sl_size (hdr c s)) \<inter> slab_bytes others = {}"
    by (intro cache_inv_other_bytes [OF c owns_slab(5) [OF assms]]) blast
  show "span s (sl_size (hdr c s)) \<inter> span t (sl_size (hdr c t)) = {}" if "t \<in> set xs" "s \<noteq> t"
    using cache_inv_disjoint [OF c owns_slab(5) [OF assms] owns_slab(5) [OF assms(1) that(1)]] that(2) by simp
qed

lemma owns_disjoint_rest:
  assumes "owns c others (x # xs)"
  shows "span x (sl_size (hdr c x)) \<inter> slab_bytes (others \<union> slabs_of c xs) = {}"
proof (rule cache_inv_other_bytes)
  show "cache_inv c (others \<union> slabs_of c (x # xs))" using assms by (simp add: owns_def)
  show "others \<union> slabs_of c xs \<subseteq> others \<union> slabs_of c (x # xs) - {(x, sl_size (hdr c x))}"
    using assms by (auto simp: owns_def slabs_of_def)
qed simp

lemma owns_get:
  assumes os: "os_ok os" and o: "owns c others xs" and sz: "size_request_ok c sz"
  obtains (fail) c' where "slab_get os c sz = Some (NULL, c')" and "owns c' others xs" and "slabs_of c' xs = slabs_of c xs"
      and "keeps c c' (slab_bytes (others \<union> slabs_of c xs))"
  | (ok) x c' where "slab_get os c sz = Some (x, c')" and "owns c' others (x # xs)" and "slabs_of c' xs = slabs_of c xs"
      and "keeps c c' (slab_bytes (others \<union> slabs_of c xs))" and "sz + slab_sizeof \<le> sl_size (hdr c' x)"
      and "slab_real_size c sz = Some (sl_size (hdr c' x))" and "x \<noteq> NULL" and "x \<notin> set xs"
proof -
  have c: "cache_inv c (others \<union> slabs_of c xs)" and d: "others \<inter> slabs_of c xs = {}" "distinct xs"
    using o by (simp_all add: owns_def)
  show thesis
  proof (rule slab_get_client [OF os c sz])
    fix c' assume f: "slab_get os c sz = Some (NULL, c')" "cache_inv c' (others \<union> slabs_of c xs)"
      "keeps c c' (slab_bytes (others \<union> slabs_of c xs))"
    have "slabs_of c' xs = slabs_of c xs" using f(2) by (rule slabs_of_stable) blast
    then show thesis using f d by (intro fail) (simp_all add: owns_def)
  next
    fix x c' n assume f: "slab_get os c sz = Some (x, c')" "x \<noteq> NULL" "cache_inv c' (insert (x, n) (others \<union> slabs_of c xs))"
      "(x, n) \<notin> others \<union> slabs_of c xs" "keeps c c' (slab_bytes (others \<union> slabs_of c xs))" "sl_size (hdr c' x) = n"
      "sz + slab_sizeof \<le> n" "slab_real_size c sz = Some n" "\<forall>(a, m) \<in> others \<union> slabs_of c xs. a \<noteq> x"
    have s: "slabs_of c' xs = slabs_of c xs" using f(3) by (rule slabs_of_stable) blast
    have x: "x \<notin> set xs" using f(9) by (auto simp: slabs_of_def)
    have "owns c' others (x # xs)" using f(3,4,6) d x s by (auto simp: owns_def)
    then show thesis using f(1,2,5) f(7,8) [folded f(6)] s x by (intro ok)
  qed
qed

lemma owns_put:
  assumes o: "owns c others xs" and x: "x \<in> set xs"
  obtains c' where "slab_put c x = Some c'" and "owns c' others (remove1 x xs)" and "slabs_of c' (remove1 x xs) = slabs_of c (remove1 x xs)"
    and "keeps c c' (slab_bytes (others \<union> slabs_of c (remove1 x xs)))"
proof -
  have c: "cache_inv c (others \<union> slabs_of c xs)" and d: "others \<inter> slabs_of c xs = {}" "distinct xs"
    using o by (simp_all add: owns_def)
  let ?p = "(x, sl_size (hdr c x))"
  have "slabs_of c (remove1 x xs) = slabs_of c xs - {?p}" using d(2) by (auto simp: slabs_of_def)
  moreover have "?p \<notin> others" using d(1) owns_slab(4) [OF o x] by blast
  ultimately have e: "others \<union> slabs_of c xs - {?p} = others \<union> slabs_of c (remove1 x xs)" by blast
  obtain c' where p: "slab_put c x = Some c'" "cache_inv c' (others \<union> slabs_of c (remove1 x xs))"
    "keeps c c' (slab_bytes (others \<union> slabs_of c (remove1 x xs)))"
    using slab_put_client [OF c owns_slab(5) [OF o x]] unfolding e by blast
  have "slabs_of c' (remove1 x xs) = slabs_of c (remove1 x xs)" using p(2) by (rule slabs_of_stable) blast
  moreover have "others \<inter> slabs_of c (remove1 x xs) = {}" using d e by (auto simp: slabs_of_def dest: notin_set_remove1)
  ultimately show thesis using p d(2) by (intro that) (simp_all add: owns_def)
qed

lemma owns_put_all:
  assumes o: "owns c others xs"
  obtains c' where "slab_put_all c xs = Some c'" and "cache_inv c' others" and "keeps c c' (slab_bytes others)"
proof -
  have e: "others \<union> slabs_of c xs - slabs_of c xs = others" using o unfolding owns_def by blast
  show thesis
    by (rule slab_put_all_spec [of c "others \<union> slabs_of c xs" xs "slabs_of c xs"])
      (use o that e in \<open>simp_all add: owns_def fst_slabs_of\<close>)
qed

text \<open>The same for slabs of an order.\<close>

lemma owns_get_order:
  assumes os: "os_ok os" and o: "owns c others xs" and k: "order \<le> order_max c"
  obtains (fail) c' where "slab_get_with_order os c order = Some (NULL, c')" and "owns c' others xs" and "slabs_of c' xs = slabs_of c xs"
      and "kept c c' (others \<union> slabs_of c xs)"
  | (ok) x c' where "slab_get_with_order os c order = Some (x, c')" and "owns c' others (x # xs)" and "slabs_of c' xs = slabs_of c xs"
      and "kept c c' (others \<union> slabs_of c xs)" and "sl_size (hdr c' x) = 2 ^ (order + order0_size_lb c)"
      and "x \<noteq> NULL" and "x \<notin> set xs" and "\<forall>(a, n) \<in> others. a \<noteq> x" and "sl_order (hdr c' x) = order"
proof -
  have c: "cache_inv c (others \<union> slabs_of c xs)" and d: "others \<inter> slabs_of c xs = {}" "distinct xs"
    using o by (simp_all add: owns_def)
  show thesis
  proof (rule slab_get_with_order_client [OF os c k])
    fix c' assume f: "slab_get_with_order os c order = Some (NULL, c')" "cache_inv c' (others \<union> slabs_of c xs)"
      "kept c c' (others \<union> slabs_of c xs)"
    have "slabs_of c' xs = slabs_of c xs" using f(2) by (rule slabs_of_stable) blast
    then show thesis using f d by (intro fail) (simp_all add: owns_def)
  next
    fix x c' n assume f: "slab_get_with_order os c order = Some (x, c')" "x \<noteq> NULL" "cache_inv c' (insert (x, n) (others \<union> slabs_of c xs))"
      "(x, n) \<notin> others \<union> slabs_of c xs" "kept c c' (others \<union> slabs_of c xs)" "n = 2 ^ (order + order0_size_lb c)"
      "\<forall>(a, m) \<in> others \<union> slabs_of c xs. a \<noteq> x" "sl_order (hdr c' x) = order"
    have n: "sl_size (hdr c' x) = n" by (rule cache_inv_slab(2) [OF f(3)]) simp
    have s: "slabs_of c' xs = slabs_of c xs" using f(3) by (rule slabs_of_stable) blast
    have x: "x \<notin> set xs" using f(7) by (auto simp: slabs_of_def)
    have "owns c' others (x # xs)" using f(3,4) n d x s by (auto simp: owns_def)
    moreover have "\<forall>(a, n) \<in> others. a \<noteq> x" using f(7) by blast
    ultimately show thesis using f(1,2,5,6,8) n s x by (intro ok) simp_all
  qed
qed

lemma owns_put_order:
  assumes o: "owns c others xs" and x: "x \<in> set xs" and n: "sl_order (hdr c x) \<le> order_max c"
  obtains c' where "slab_put_with_order c x = Some c'" and "owns c' others (remove1 x xs)"
    and "slabs_of c' (remove1 x xs) = slabs_of c (remove1 x xs)" and "kept c c' (others \<union> slabs_of c (remove1 x xs))"
proof -
  let ?V = "others \<union> slabs_of c xs" and ?W = "others \<union> slabs_of c (remove1 x xs)"
  have c: "cache_inv c ?V" and d: "others \<inter> slabs_of c xs = {}" "distinct xs" using o by (simp_all add: owns_def)
  have "?W = ?V - {(x, sl_size (hdr c x))}" using owns_slab(4) [OF o x] d by (auto simp: slabs_of_def)
  then obtain c' where c': "slab_put_with_order c x = Some c'" "kept c c' ?W"
    using slab_put_with_order_client [OF c owns_slab(5) [OF o x] n] by metis
  show thesis by (rule owns_put [OF o x]) (use c' n that [of c'] in \<open>simp add: slab_put_def\<close>)
qed

lemma owns_others:
  assumes "owns c others xs" and "(t, n) \<in> others"
  shows "t \<notin> set xs"
proof
  assume t: "t \<in> set xs"
  have c: "cache_inv c (others \<union> slabs_of c xs)" and d: "others \<inter> slabs_of c xs = {}" using assms(1) by (simp_all add: owns_def)
  have "(t, sl_size (hdr c t)) \<in> slabs_of c xs" by (rule owns_slab(4) [OF assms(1) t])
  moreover from this have "n = sl_size (hdr c t)" using cache_inv_fun [OF c, of t n "sl_size (hdr c t)"] assms(2) by blast
  ultimately show False using d assms(2) by blast
qed

text \<open>Aligning an address.\<close>

lemma small_align_addr:
  assumes "k < 32" and "p + 2 ^ k < 2 ^ 64"
  obtains r where "small_align (of_nat p) (of_nat (2 ^ k)) = Some r" and "unat r = align_up p (2 ^ k)"
proof -
  have a: "unat (2 ^ k :: u64) = 2 ^ k" "is_pow2 (2 ^ k)" using assms(1) by (simp_all add: unat_power_u64 is_pow2_power)
  have nz: "(2 ^ k :: u64) \<noteq> 0" using a(1) by (metis power_not_zero unat_0 zero_neq_numeral)
  have p: "unat (of_nat p :: u64) = p" using assms(2) by (intro unat_of_nat_u64) simp
  show thesis using small_align_correct [OF a(2) nz, of "of_nat p"] a p assms(2) that by auto
qed

end
