(* ===== verification/Region.thy ===== *)
theory Region
  imports Slab_Client Slab_Cache_Props
begin

text \<open>
  \<open>small/region.c\<close> and \<open>include/small/region.h\<close>: a region takes slabs from the cache, gives out
  consecutive pieces of the newest one, and frees from the end. The \<open>used\<close> field of the
  \<open>struct rslab\<close> headers is the map \<open>rs_used\<close>. The two callbacks are code of the user:
  parameters that change the object behind \<open>cb_arg\<close> and see the size and \<open>region_used\<close>, which
  the comment in the header allows them to call.
\<close>

section \<open>Data\<close>

record 'a region =
  rg_slabs :: slab_list
  rs_used :: "addr \<Rightarrow> nat"
  on_alloc_cb :: "(int \<Rightarrow> nat \<Rightarrow> 'a \<Rightarrow> 'a) option"
  on_truncate_cb :: "(int \<Rightarrow> nat \<Rightarrow> 'a \<Rightarrow> 'a) option"
  cb_arg :: 'a
  rg_reserved :: bool

text \<open>\<open>sizeof(struct rslab)\<close>: the slab header, a 32-bit counter and padding.\<close>

definition rslab_sizeof :: nat where
  "rslab_sizeof = align_up 56 8"

definition rslab_data :: "addr \<Rightarrow> addr" where
  "rslab_data s = s + rslab_sizeof"

definition rslab_data_end :: "'a region \<Rightarrow> addr \<Rightarrow> addr" where
  "rslab_data_end rg s = rslab_data s + rs_used rg s"

definition rslab_unused :: "slab_cache \<Rightarrow> 'a region \<Rightarrow> addr \<Rightarrow> nat" where
  "rslab_unused c rg s = nat ((int (sl_size (hdr c s)) - int rslab_sizeof - int (rs_used rg s)) mod 2 ^ 32)"

section \<open>Operations\<close>

definition region_create :: "(addr \<Rightarrow> nat) \<Rightarrow> 'a \<Rightarrow> 'a region" where
  "region_create junk null = \<lparr>rg_slabs = slab_list_create, rs_used = junk, on_alloc_cb = None, on_truncate_cb = None,
     cb_arg = null, rg_reserved = False\<rparr>"

definition region_set_callbacks :: "'a region \<Rightarrow> (int \<Rightarrow> nat \<Rightarrow> 'a \<Rightarrow> 'a) option \<Rightarrow> (int \<Rightarrow> nat \<Rightarrow> 'a \<Rightarrow> 'a) option \<Rightarrow> 'a \<Rightarrow> 'a region" where
  "region_set_callbacks rg f g arg = rg\<lparr>on_alloc_cb := f, on_truncate_cb := g, cb_arg := arg\<rparr>"

definition region_used :: "'a region \<Rightarrow> int" where
  "region_used rg = st_used (rg_slabs rg)"

definition region_total :: "'a region \<Rightarrow> int" where
  "region_total rg = st_total (rg_slabs rg)"

definition region_reserve_slow :: "os \<Rightarrow> slab_cache \<Rightarrow> 'a region \<Rightarrow> nat \<Rightarrow> (addr \<times> slab_cache \<times> 'a region) option" where
  "region_reserve_slow os c rg sz = do {
     let slab_min_size = (sz + rslab_sizeof - slab_sizeof) mod 2 ^ 64;
     (s, c) \<leftarrow> slab_get os c slab_min_size;
     if s = NULL then Some (NULL, c, rg)
     else do {
       let rg = rg\<lparr>rs_used := (rs_used rg)(s := 0)\<rparr>;
       let rg = rg\<lparr>rg_slabs := slab_list_add (rg_slabs rg) s (sl_size (hdr c s))\<rparr>;
       Some (rslab_data s, c, rg) } }"

definition region_reserve :: "os \<Rightarrow> slab_cache \<Rightarrow> 'a region \<Rightarrow> nat \<Rightarrow> (addr \<times> slab_cache \<times> 'a region) option" where
  "region_reserve os c rg sz = do {
     c_assert (\<not> rg_reserved rg);
     let ptr = (case sl_slabs (rg_slabs rg) of [] \<Rightarrow> NULL
                | s # _ \<Rightarrow> if sz \<le> rslab_unused c rg s then rslab_data s + rs_used rg s else NULL);
     (ptr, c, rg) \<leftarrow> (if ptr = NULL then region_reserve_slow os c rg sz else Some (ptr, c, rg));
     Some (ptr, c, if ptr \<noteq> NULL then rg\<lparr>rg_reserved := True\<rparr> else rg) }"

text \<open>The common end of the two allocation functions: callback, counters, and the debug flag.\<close>

definition region_grow :: "'a region \<Rightarrow> addr \<Rightarrow> nat \<Rightarrow> 'a region" where
  "region_grow rg s sz =
     (let rg = (case on_alloc_cb rg of None \<Rightarrow> rg | Some f \<Rightarrow> rg\<lparr>cb_arg := f (region_used rg) sz (cb_arg rg)\<rparr>);
          rg = rg\<lparr>rg_slabs := add_used (int sz) (rg_slabs rg)\<rparr>;
          rg = rg\<lparr>rs_used := (rs_used rg)(s := (rs_used rg s + sz) mod 2 ^ 32)\<rparr>
      in rg\<lparr>rg_reserved := False\<rparr>)"

definition region_alloc :: "os \<Rightarrow> slab_cache \<Rightarrow> 'a region \<Rightarrow> nat \<Rightarrow> (addr \<times> slab_cache \<times> 'a region) option" where
  "region_alloc os c rg sz = do {
     c_assert (sz > 0);
     let rg = rg\<lparr>rg_reserved := False\<rparr>;
     (ptr, c, rg) \<leftarrow> region_reserve os c rg sz;
     if ptr \<noteq> NULL then do {
       let s = hd (sl_slabs (rg_slabs rg));
       c_assert (sz \<le> rslab_unused c rg s);
       Some (ptr, c, region_grow rg s sz) }
     else Some (ptr, c, rg) }"

definition region_aligned_reserve :: "os \<Rightarrow> slab_cache \<Rightarrow> 'a region \<Rightarrow> nat \<Rightarrow> nat \<Rightarrow> (addr \<times> slab_cache \<times> 'a region) option" where
  "region_aligned_reserve os c rg sz alignment = do {
     (ptr, c, rg) \<leftarrow> region_reserve os c rg (nat ((int sz + int alignment - 1) mod 2 ^ 64));
     p \<leftarrow> small_align (of_nat ptr) (of_nat alignment);
     Some (unat p, c, rg) }"

definition region_aligned_alloc :: "os \<Rightarrow> slab_cache \<Rightarrow> 'a region \<Rightarrow> nat \<Rightarrow> nat \<Rightarrow> (addr \<times> slab_cache \<times> 'a region) option" where
  "region_aligned_alloc os c rg sz alignment = do {
     c_assert (sz > 0);
     let rg = rg\<lparr>rg_reserved := False\<rparr>;
     (ptr, c, rg) \<leftarrow> region_aligned_reserve os c rg sz alignment;
     if ptr \<noteq> NULL then do {
       let s = hd (sl_slabs (rg_slabs rg));
       let effective_size = nat ((int ptr - int (rslab_data_end rg s) + int sz) mod 2 ^ 32);
       c_assert (effective_size \<le> rslab_unused c rg s);
       Some (ptr, c, region_grow rg s effective_size) }
     else Some (ptr, c, rg) }"

definition region_reset :: "'a region \<Rightarrow> 'a region" where
  "region_reset rg =
     (let rg = (case sl_slabs (rg_slabs rg) of [] \<Rightarrow> rg
                | s # _ \<Rightarrow> rg\<lparr>rg_slabs := add_used (- int (rs_used rg s)) (rg_slabs rg), rs_used := (rs_used rg)(s := 0)\<rparr>)
      in rg\<lparr>rg_reserved := False\<rparr>)"

definition region_truncated :: "'a region \<Rightarrow> nat \<Rightarrow> 'a region" where
  "region_truncated rg used =
     (case on_truncate_cb rg of None \<Rightarrow> rg | Some f \<Rightarrow> rg\<lparr>cb_arg := f (region_used rg) used (cb_arg rg)\<rparr>)"

definition region_free :: "slab_cache \<Rightarrow> 'a region \<Rightarrow> (slab_cache \<times> 'a region) option" where
  "region_free c rg = do {
     c \<leftarrow> slab_put_all c (sl_slabs (rg_slabs rg));
     let rg = rg\<lparr>rg_slabs := slab_list_create\<rparr>;
     let rg = region_truncated rg 0;
     Some (c, rg\<lparr>rg_reserved := False\<rparr>) }"

definition region_destroy :: "slab_cache \<Rightarrow> 'a region \<Rightarrow> (slab_cache \<times> 'a region) option" where
  "region_destroy c rg = region_free c rg"

definition region_free_after :: "slab_cache \<Rightarrow> 'a region \<Rightarrow> nat \<Rightarrow> (slab_cache \<times> 'a region) option" where
  "region_free_after c rg after = (if region_used rg > int after then region_free c rg else Some (c, rg))"

text \<open>
  The loop of \<open>region_truncate\<close> over the slabs of the region, newest first: each round looks at
  the head of the list and either stops there or removes it.
\<close>

fun region_truncate_loop :: "slab_cache \<Rightarrow> 'a region \<Rightarrow> addr list \<Rightarrow> nat \<Rightarrow> (slab_cache \<times> 'a region \<times> nat) option" where
  "region_truncate_loop c rg [] cut_size = Some (c, rg, cut_size)"
| "region_truncate_loop c rg (s # rest) cut_size =
     (if rs_used rg s > cut_size then
        Some (memset c (rslab_data_end rg s - cut_size) 0x50 cut_size,
              rg\<lparr>rs_used := (rs_used rg)(s := rs_used rg s - cut_size)\<rparr>, 0)
      else do {
        let rg' = rg\<lparr>rg_slabs := slab_list_del (rg_slabs rg) s (sl_size (hdr c s))\<rparr>;
        c \<leftarrow> slab_put c s;
        region_truncate_loop c rg' rest (cut_size - rs_used rg s) })"

definition region_truncate :: "slab_cache \<Rightarrow> 'a region \<Rightarrow> nat \<Rightarrow> (slab_cache \<times> 'a region) option" where
  "region_truncate c rg used = do {
     c_assert (region_used rg \<ge> int used);
     let cut_size = nat (region_used rg - int used);
     (c, rg, cut_size) \<leftarrow> region_truncate_loop c rg (sl_slabs (rg_slabs rg)) cut_size;
     c_assert (cut_size = 0);
     let rg = rg\<lparr>rg_slabs := (rg_slabs rg)\<lparr>st_used := int used\<rparr>, rg_reserved := False\<rparr>;
     Some (c, region_truncated rg used) }"

text \<open>
  The copy loop of \<open>region_join\<close>, from the slab that was the newest towards older ones. Walking
  past the oldest slab would read the list head as a slab and is an abort.
\<close>

fun region_join_loop :: "slab_cache \<Rightarrow> 'a region \<Rightarrow> addr list \<Rightarrow> addr \<Rightarrow> nat \<Rightarrow> slab_cache option" where
  "region_join_loop c rg xs ptr offset =
     (if offset = 0 then Some c
      else case xs of [] \<Rightarrow> None
      | s # rest \<Rightarrow>
          if rs_used rg s \<le> offset then do {
            c \<leftarrow> memcpy c (ptr + offset - rs_used rg s) (rslab_data s) (rs_used rg s);
            region_join_loop c rg rest ptr (offset - rs_used rg s) }
          else memcpy c ptr (rslab_data s + rs_used rg s - offset) offset)"

declare region_join_loop.simps [simp del]

definition region_join :: "os \<Rightarrow> slab_cache \<Rightarrow> 'a region \<Rightarrow> nat \<Rightarrow> (addr \<times> slab_cache \<times> 'a region) option" where
  "region_join os c rg sz = do {
     c_assert (int sz \<le> region_used rg);
     c_assert (\<not> rg_reserved rg);
     c_assert (sz > 0);
     case sl_slabs (rg_slabs rg) of [] \<Rightarrow> None
     | s # rest \<Rightarrow>
         if rs_used rg s \<ge> sz then Some (rslab_data s + rs_used rg s - sz, c, rg)
         else do {
           (ptr, c, rg) \<leftarrow> region_reserve os c rg sz;
           if ptr = NULL then Some (NULL, c, rg)
           else do {
             c \<leftarrow> region_join_loop c rg (s # rest) ptr sz;
             (_, c, rg) \<leftarrow> region_alloc os c rg sz;
             Some (ptr, c, rg) } } }"

definition region_alloc_cb :: "os \<Rightarrow> slab_cache \<Rightarrow> 'a region \<Rightarrow> nat \<Rightarrow> (addr \<times> slab_cache \<times> 'a region) option" where
  "region_alloc_cb os c rg sz = region_alloc os c rg sz"

text \<open>\<open>region_reserve_cb\<close> reads the first slab even when there is none, which is an abort here.\<close>

definition region_reserve_cb :: "os \<Rightarrow> slab_cache \<Rightarrow> 'a region \<Rightarrow> nat \<Rightarrow> (addr \<times> nat \<times> slab_cache \<times> 'a region) option" where
  "region_reserve_cb os c rg sz = do {
     (ptr, c, rg) \<leftarrow> region_reserve os c rg sz;
     case sl_slabs (rg_slabs rg) of [] \<Rightarrow> None
     | s # _ \<Rightarrow> Some (ptr, rslab_unused c rg s, c, rg) }"

text \<open>The macros that allocate an object or an array of a type of the given size and alignment; the array's
  byte count goes through an \<open>int\<close>.\<close>

definition region_alloc_object :: "os \<Rightarrow> slab_cache \<Rightarrow> 'a region \<Rightarrow> nat \<Rightarrow> nat \<Rightarrow> ((addr \<times> slab_cache \<times> 'a region) \<times> nat) option" where
  "region_alloc_object os c rg sizeof_T alignof_T = do {
     r \<leftarrow> region_aligned_alloc os c rg sizeof_T alignof_T;
     Some (r, sizeof_T) }"

definition region_alloc_array :: "os \<Rightarrow> slab_cache \<Rightarrow> 'a region \<Rightarrow> nat \<Rightarrow> nat \<Rightarrow> nat \<Rightarrow> ((addr \<times> slab_cache \<times> 'a region) \<times> nat) option" where
  "region_alloc_array os c rg sizeof_T alignof_T count = do {
     let tmp = nat (sint (of_nat (sizeof_T * count) :: u32) mod 2 ^ 64);
     r \<leftarrow> region_aligned_alloc os c rg tmp alignof_T;
     Some (r, tmp) }"

section \<open>The contents of a region\<close>

abbreviation rg_list :: "'a region \<Rightarrow> addr list" where
  "rg_list rg \<equiv> sl_slabs (rg_slabs rg)"

text \<open>What was allocated and not freed, in the order of allocation.\<close>

definition region_data :: "slab_cache \<Rightarrow> 'a region \<Rightarrow> byte list" where
  "region_data c rg = concat (map (\<lambda>s. read_bytes c (rslab_data s) (rs_used rg s)) (rev (rg_list rg)))"

definition region_bytes :: "'a region \<Rightarrow> addr set" where
  "region_bytes rg = (\<Union>s \<in> set (rg_list rg). span (rslab_data s) (rs_used rg s))"

text \<open>
  The invariant, with \<open>others\<close> the slabs of other clients of the cache: the slabs are the
  region's own, the counters fit the slabs, which are smaller than 4 gigabytes, and the
  totals are their sums.
\<close>

definition region_inv :: "slab_cache \<Rightarrow> (addr \<times> nat) set \<Rightarrow> 'a region \<Rightarrow> bool" where
  "region_inv c others rg \<longleftrightarrow> owns c others (rg_list rg) \<and>
     (\<forall>s \<in> set (rg_list rg). rslab_sizeof + rs_used rg s \<le> sl_size (hdr c s) \<and> sl_size (hdr c s) < 2 ^ 32) \<and>
     st_used (rg_slabs rg) = (\<Sum>s \<leftarrow> rg_list rg. int (rs_used rg s)) \<and>
     st_total (rg_slabs rg) = (\<Sum>s \<leftarrow> rg_list rg. int (sl_size (hdr c s)))"

lemma rslab_sizeof_56: "rslab_sizeof = 56"
  by (simp add: rslab_sizeof_def align_up_def)

lemma region_inv_reserved [simp]: "region_inv c others (rg\<lparr>rg_reserved := b\<rparr>) = region_inv c others rg"
  by (simp add: region_inv_def)

lemma region_data_reserved [simp]: "region_data c (rg\<lparr>rg_reserved := b\<rparr>) = region_data c rg"
  by (simp add: region_data_def)

lemma region_inv_mem [simp]: "region_inv (c\<lparr>mem := m\<rparr>) others rg = region_inv c others rg"
  by (simp add: region_inv_def)

lemma region_data_cong:
  assumes "\<And>x. x \<in> region_bytes rg \<Longrightarrow> mem c' x = mem c x"
  shows "region_data c' rg = region_data c rg"
  unfolding region_data_def
  by (intro arg_cong [of _ _ concat] map_cong refl read_bytes_cong assms) (auto simp: region_bytes_def)

text \<open>The data of a list of slabs, newest first, with the number of bytes used in each.\<close>

definition slabs_data :: "slab_cache \<Rightarrow> (addr \<Rightarrow> nat) \<Rightarrow> addr list \<Rightarrow> byte list" where
  "slabs_data c u xs = concat (map (\<lambda>s. read_bytes c (rslab_data s) (u s)) (rev xs))"

lemma slabs_data_simps [simp]:
  "slabs_data c u [] = []"
  "slabs_data c u (s # xs) = slabs_data c u xs @ read_bytes c (rslab_data s) (u s)"
  by (simp_all add: slabs_data_def)

lemma slabs_data_cong: "(\<And>t. t \<in> set xs \<Longrightarrow> u t = v t) \<Longrightarrow> slabs_data c u xs = slabs_data c v xs"
  by (induction xs) auto

lemma slabs_upd [simp]: "s \<notin> set xs \<Longrightarrow> slabs_data c (u(s := n)) xs = slabs_data c u xs"
  "s \<notin> set xs \<Longrightarrow> (\<Sum>t \<leftarrow> xs. int (if t = s then n else u t)) = (\<Sum>t \<leftarrow> xs. int (u t))"
  by (induction xs) auto

lemma slabs_data_length: "int (length (slabs_data c u xs)) = (\<Sum>t \<leftarrow> xs. int (u t))"
  by (induction xs) simp_all

lemma region_slabs_data: "region_data c rg = slabs_data c (rs_used rg) (rg_list rg)"
  by (simp add: region_data_def slabs_data_def)

lemma region_length:
  assumes "region_inv c others rg"
  shows "int (length (region_data c rg)) = region_used rg"
  using assms slabs_data_length by (simp add: region_slabs_data region_used_def region_inv_def)

lemma region_unused:
  assumes "region_inv c others rg" and "s \<in> set (rg_list rg)"
  shows "rslab_unused c rg s = sl_size (hdr c s) - rslab_sizeof - rs_used rg s"
proof -
  have b: "rslab_sizeof + rs_used rg s \<le> sl_size (hdr c s)" "sl_size (hdr c s) < 2 ^ 32"
    using assms by (auto simp: region_inv_def)
  then have "int (sl_size (hdr c s)) - int rslab_sizeof - int (rs_used rg s) = int (sl_size (hdr c s) - rslab_sizeof - rs_used rg s)"
    by linarith
  moreover have "sl_size (hdr c s) - rslab_sizeof - rs_used rg s < 2 ^ 32" using b by linarith
  ultimately show ?thesis unfolding rslab_unused_def by simp
qed

lemma region_bytes_owned:
  assumes "region_inv c others rg"
  shows "region_bytes rg \<subseteq> slab_bytes (slabs_of c (rg_list rg))"
    and "region_bytes rg \<inter> slab_bytes others = {}"
proof -
  have sub: "span (rslab_data s) (rs_used rg s) \<subseteq> span s (sl_size (hdr c s))" if "s \<in> set (rg_list rg)" for s
    using assms that by (intro span_subset) (auto simp: region_inv_def rslab_data_def)
  then show "region_bytes rg \<subseteq> slab_bytes (slabs_of c (rg_list rg))"
    by (auto simp: region_bytes_def slab_bytes_def slabs_of_def simp del: in_span)
  have "span s (sl_size (hdr c s)) \<inter> slab_bytes others = {}" if "s \<in> set (rg_list rg)" for s
    by (rule owns_disjoint(1)) (use assms that in \<open>simp_all add: region_inv_def\<close>)
  then show "region_bytes rg \<inter> slab_bytes others = {}" using sub unfolding region_bytes_def by blast
qed

text \<open>The unused end of the newest slab is nobody's data.\<close>

lemma region_fresh:
  assumes inv: "region_inv c others rg" and l: "rg_list rg = s # rest"
    and b: "rslab_data_end rg s \<le> p" "p + n \<le> s + sl_size (hdr c s)"
  shows "span p n \<inter> region_bytes rg = {}" and "span p n \<inter> slab_bytes others = {}"
proof -
  have o: "owns c others (rg_list rg)" and bd: "\<forall>s \<in> set (rg_list rg). rslab_sizeof + rs_used rg s \<le> sl_size (hdr c s)"
    using inv by (auto simp: region_inv_def)
  have s: "s \<in> set (rg_list rg)" by (simp add: l)
  have sub: "span p n \<subseteq> span s (sl_size (hdr c s))"
    using b by (intro span_subset) (simp_all add: rslab_data_end_def rslab_data_def)
  then show "span p n \<inter> slab_bytes others = {}" using owns_disjoint(1) [OF o s] by blast
  have "span p n \<inter> span (rslab_data t) (rs_used rg t) = {}" if t: "t \<in> set (rg_list rg)" for t
  proof (cases "t = s")
    case True
    then show ?thesis using b(1) by (auto simp: rslab_data_end_def)
  next
    case False
    have "span (rslab_data t) (rs_used rg t) \<subseteq> span t (sl_size (hdr c t))"
      using bd t by (intro span_subset) (auto simp: rslab_data_def)
    then show ?thesis using owns_disjoint(2) [OF o s t] False sub by blast
  qed
  then show "span p n \<inter> region_bytes rg = {}" unfolding region_bytes_def by blast
qed

section \<open>Reserving\<close>

lemma region_inv_stable:
  assumes "region_inv c others rg" and "owns c' others (rg_list rg)" and e: "slabs_of c' (rg_list rg) = slabs_of c (rg_list rg)"
  shows "region_inv c' others rg"
proof -
  have "sl_size (hdr c' s) = sl_size (hdr c s)" if "s \<in> set (rg_list rg)" for s
    using e that by (rule slabs_of_eq_size)
  then show ?thesis using assms(1,2) by (simp add: region_inv_def cong: map_cong)
qed

lemma region_reserve_cases:
  assumes os: "os_ok os" and inv: "region_inv c others rg" and nr: "\<not> rg_reserved rg"
    and sz: "sz + rslab_sizeof < 2 ^ 32" and rq: "size_request_ok c (sz + 8)"
  obtains (fail) c' where "region_reserve os c rg sz = Some (NULL, c', rg)" and "region_inv c' others rg"
      and "keeps c c' (slab_bytes (others \<union> slabs_of c (rg_list rg)))"
  | (same) s rest where "rg_list rg = s # rest" and "rslab_sizeof + rs_used rg s + sz \<le> sl_size (hdr c s)"
      and "region_reserve os c rg sz = Some (rslab_data_end rg s, c, rg\<lparr>rg_reserved := True\<rparr>)"
  | (new) s c' rg' where "region_reserve os c rg sz = Some (rslab_data s, c', rg')" and "s \<notin> set (rg_list rg)"
      and "rg' = rg\<lparr>rs_used := (rs_used rg)(s := 0), rg_slabs := slab_list_add (rg_slabs rg) s (sl_size (hdr c' s)), rg_reserved := True\<rparr>"
      and "region_inv c' others rg'" and "keeps c c' (slab_bytes (others \<union> slabs_of c (rg_list rg)))"
      and "rslab_sizeof + sz \<le> sl_size (hdr c' s)"
proof -
  have o: "owns c others (rg_list rg)" using inv by (simp add: region_inv_def)
  have ci: "cache_inv c (others \<union> slabs_of c (rg_list rg))" using o by (simp add: owns_def)
  have m: "(sz + rslab_sizeof - slab_sizeof) mod 2 ^ 64 = sz + 8" using sz by (simp add: rslab_sizeof_56 slab_sizeof_48)
  show thesis
  proof (cases "rg_list rg \<noteq> [] \<and> sz \<le> rslab_unused c rg (hd (rg_list rg))")
    case True
    then obtain s rest where l: "rg_list rg = s # rest" by (cases "rg_list rg") auto
    have s: "s \<in> set (rg_list rg)" using l by simp
    have b: "rslab_sizeof + rs_used rg s \<le> sl_size (hdr c s)" using inv s by (auto simp: region_inv_def)
    have "sz \<le> rslab_unused c rg s" using True l by simp
    then have "rslab_sizeof + rs_used rg s + sz \<le> sl_size (hdr c s)" using region_unused [OF inv s] b by simp
    moreover have "rslab_data s \<noteq> NULL" by (simp add: rslab_data_def rslab_sizeof_56)
    ultimately show thesis
      using same [OF l] l nr True by (simp add: region_reserve_def rslab_data_end_def)
  next
    case False
    then have slow: "region_reserve os c rg sz = Option.bind (region_reserve_slow os c rg sz)
        (\<lambda>(ptr, c, rg). Some (ptr, c, if ptr \<noteq> NULL then rg\<lparr>rg_reserved := True\<rparr> else rg))"
      using nr by (auto simp: region_reserve_def split: list.splits)
    show thesis
    proof (rule owns_get [OF os o rq])
      fix c' assume g: "slab_get os c (sz + 8) = Some (NULL, c')" "owns c' others (rg_list rg)"
        "slabs_of c' (rg_list rg) = slabs_of c (rg_list rg)" "keeps c c' (slab_bytes (others \<union> slabs_of c (rg_list rg)))"
      have "region_reserve os c rg sz = Some (NULL, c', rg)" using slow g(1) m by (simp add: region_reserve_slow_def)
      then show thesis using region_inv_stable [OF inv g(2,3)] g(4) by (rule fail)
    next
      fix s c' assume g: "slab_get os c (sz + 8) = Some (s, c')" "owns c' others (s # rg_list rg)"
        "slabs_of c' (rg_list rg) = slabs_of c (rg_list rg)" "keeps c c' (slab_bytes (others \<union> slabs_of c (rg_list rg)))"
        "sz + 8 + slab_sizeof \<le> sl_size (hdr c' s)" "slab_real_size c (sz + 8) = Some (sl_size (hdr c' s))" "s \<noteq> NULL" "s \<notin> set (rg_list rg)"
      define rg' where "rg' = rg\<lparr>rs_used := (rs_used rg)(s := 0), rg_slabs := slab_list_add (rg_slabs rg) s (sl_size (hdr c' s)), rg_reserved := True\<rparr>"
      have run: "region_reserve os c rg sz = Some (rslab_data s, c', rg')"
        using slow g(1,7) m by (simp add: region_reserve_slow_def rslab_data_def rg'_def)
      have lt: "sl_size (hdr c' s) < 2 ^ 32"
        using real_size_32_bit [OF ci g(6)] sz by (simp add: rslab_sizeof_56 slab_sizeof_48)
      have sizes: "sl_size (hdr c' t) = sl_size (hdr c t)" if "t \<in> set (rg_list rg)" for t
        using g(3) that by (rule slabs_of_eq_size)
      have "region_inv c' others rg'"
        unfolding region_inv_def
      proof (intro conjI)
        show "owns c' others (rg_list rg')" using g(2) by (simp add: rg'_def slab_list_add_def)
        show "\<forall>t \<in> set (rg_list rg'). rslab_sizeof + rs_used rg' t \<le> sl_size (hdr c' t) \<and> sl_size (hdr c' t) < 2 ^ 32"
          using inv sizes lt g(5,8) by (auto simp: region_inv_def rg'_def slab_list_add_def rslab_sizeof_56 slab_sizeof_48)
        show "st_used (rg_slabs rg') = (\<Sum>s \<leftarrow> rg_list rg'. int (rs_used rg' s))"
          using inv g(8) by (auto simp: region_inv_def rg'_def slab_list_add_def intro!: arg_cong [of _ _ sum_list])
        show "st_total (rg_slabs rg') = (\<Sum>s \<leftarrow> rg_list rg'. int (sl_size (hdr c' s)))"
          using inv sizes by (simp add: region_inv_def rg'_def slab_list_add_def cong: map_cong)
      qed
      moreover have "rslab_sizeof + sz \<le> sl_size (hdr c' s)" using g(5) by (simp add: rslab_sizeof_56 slab_sizeof_48)
      ultimately show thesis using new [OF run g(8) rg'_def _ g(4)] by blast
    qed
  qed
qed

text \<open>The two ways to succeed have the same outcome: room behind the data of the newest slab.\<close>

lemma region_reserve_spec:
  assumes os: "os_ok os" and inv: "region_inv c others rg" and nr: "\<not> rg_reserved rg"
    and sz: "sz + rslab_sizeof < 2 ^ 32" and rq: "size_request_ok c (sz + 8)"
  obtains (fail) c' where "region_reserve os c rg sz = Some (NULL, c', rg)" and "region_inv c' others rg"
      and "keeps c c' (slab_bytes others \<union> region_bytes rg)"
  | (ok) s rest c' rg' where "region_reserve os c rg sz = Some (rslab_data_end rg' s, c', rg')" and "rg_list rg' = s # rest"
      and "region_inv c' others rg'" and "keeps c c' (slab_bytes others \<union> region_bytes rg)"
      and "rslab_sizeof + rs_used rg' s + sz \<le> sl_size (hdr c' s)"
      and "region_data c' rg' = region_data c rg" and "region_bytes rg' = region_bytes rg"
      and "region_used rg' = region_used rg" and "on_alloc_cb rg' = on_alloc_cb rg" and "cb_arg rg' = cb_arg rg"
      and "\<forall>t \<in> set (rg_list rg). rs_used rg' t = rs_used rg t" and "rg_list rg' = rg_list rg \<or> rg_list rg' = s # rg_list rg"
proof -
  have mono: "keeps c c' (slab_bytes others \<union> region_bytes rg)" if "keeps c c' (slab_bytes (others \<union> slabs_of c (rg_list rg)))" for c'
  proof -
    have "slab_bytes others \<union> region_bytes rg \<subseteq> slab_bytes (others \<union> slabs_of c (rg_list rg))"
      using region_bytes_owned(1) [OF inv] slab_bytes_mono [of others "others \<union> slabs_of c (rg_list rg)"]
        slab_bytes_mono [of "slabs_of c (rg_list rg)" "others \<union> slabs_of c (rg_list rg)"] by blast
    then show ?thesis using that by (auto simp: keeps_def)
  qed
  from os inv nr sz rq show thesis
  proof (cases rule: region_reserve_cases)
    case (fail c')
    then show thesis using that(1) mono by blast
  next
    case (same s rest)
    then show thesis
      using that(2) [of "rg\<lparr>rg_reserved := True\<rparr>" s c rest] inv
      by (simp add: rslab_data_end_def keeps_refl region_bytes_def region_used_def)
  next
    case (new s c' rg')
    have k: "keeps c c' (slab_bytes others \<union> region_bytes rg)" by (rule mono [OF new(5)])
    have l: "rg_list rg' = s # rg_list rg" and u: "rs_used rg' = (rs_used rg)(s := 0)"
      using new(3) by (simp_all add: slab_list_add_def)
    have ut: "rs_used rg' t = rs_used rg t" if "t \<in> set (rg_list rg)" for t using u new(2) that by auto
    have u0: "rs_used rg' s = 0" by (simp add: u)
    have rb: "region_bytes rg' = region_bytes rg" using l u0 ut by (simp add: region_bytes_def)
    have "region_data c' rg' = region_data c' rg"
      unfolding region_slabs_data l using u0 slabs_data_cong [OF ut] by simp
    also have "\<dots> = region_data c rg" using k by (intro region_data_cong) (simp add: keeps_def)
    finally show thesis
      using that(2) [of rg' s c' "rg_list rg"] new(1,4,6) k l u ut rb
      by (simp add: rslab_data_end_def region_used_def new(3) slab_list_add_def)
  qed
qed

section \<open>Allocating\<close>

lemma region_grow_spec:
  assumes inv: "region_inv c others rg" and l: "rg_list rg = s # rest" and n: "rslab_sizeof + rs_used rg s + n \<le> sl_size (hdr c s)"
  shows "region_inv c others (region_grow rg s n)"
    and "region_data c (region_grow rg s n) = region_data c rg @ read_bytes c (rslab_data_end rg s) n"
    and "region_used (region_grow rg s n) = region_used rg + int n"
    and "region_bytes (region_grow rg s n) = region_bytes rg \<union> span (rslab_data_end rg s) n"
    and "\<not> rg_reserved (region_grow rg s n)"
proof -
  let ?g = "region_grow rg s n"
  have d: "s \<notin> set rest" using inv l by (simp add: region_inv_def owns_def)
  have "sl_size (hdr c s) < 2 ^ 32" using inv l by (simp add: region_inv_def)
  then have lt: "rs_used rg s + n < 2 ^ 32" using n by linarith
  have g: "rg_list ?g = rg_list rg" "st_used (rg_slabs ?g) = st_used (rg_slabs rg) + int n"
    "st_total (rg_slabs ?g) = st_total (rg_slabs rg)" "rs_used ?g = (rs_used rg)(s := rs_used rg s + n)" "\<not> rg_reserved ?g"
    using lt by (auto simp: region_grow_def Let_def add_used_def split: option.splits)
  have rest: "rs_used ?g t = rs_used rg t" if "t \<in> set rest" for t using d g(4) that by auto
  show "region_inv c others ?g"
    using inv n rest g(1-3) unfolding region_inv_def by (auto simp: l g(4) d cong: map_cong)
  show "region_data c ?g = region_data c rg @ read_bytes c (rslab_data_end rg s) n"
    by (simp add: region_slabs_data g(1,4) l d read_bytes_add rslab_data_end_def)
  show "region_used ?g = region_used rg + int n" using g(2) by (simp add: region_used_def)
  have "span (rslab_data s) (rs_used rg s + n) = span (rslab_data s) (rs_used rg s) \<union> span (rslab_data_end rg s) n"
    by (auto simp: rslab_data_end_def)
  then show "region_bytes ?g = region_bytes rg \<union> span (rslab_data_end rg s) n"
    unfolding region_bytes_def g(1) l using rest by (simp add: g(4) d ac_simps)
  show "\<not> rg_reserved ?g" by (rule g(5))
qed

text \<open>What an allocation promises.\<close>

definition region_allocated :: "slab_cache \<Rightarrow> (addr \<times> nat) set \<Rightarrow> 'a region \<Rightarrow> addr \<Rightarrow> nat \<Rightarrow> slab_cache \<Rightarrow> 'a region \<Rightarrow> bool" where
  "region_allocated c others rg p n c' rg' \<longleftrightarrow>
     region_inv c' others rg' \<and> (\<forall>x \<in> slab_bytes others \<union> region_bytes rg. mem c' x = mem c x) \<and>
     (if p = NULL then region_data c' rg' = region_data c rg
      else span p n \<inter> (slab_bytes others \<union> region_bytes rg) = {} \<and>
           region_bytes rg \<union> span p n \<subseteq> region_bytes rg' \<and>
           (\<exists>pad. region_data c' rg' = region_data c rg @ pad @ read_bytes c' p n))"

lemma region_alloc_spec:
  assumes os: "os_ok os" and inv: "region_inv c others rg" and pos: "0 < sz"
    and sz: "sz + rslab_sizeof < 2 ^ 32" and rq: "size_request_ok c (sz + 8)"
  obtains (fail) c' where "region_alloc os c rg sz = Some (NULL, c', rg\<lparr>rg_reserved := False\<rparr>)" and "region_inv c' others rg"
      and "keeps c c' (slab_bytes others \<union> region_bytes rg)"
  | (ok) s rest c' rg' where "region_alloc os c rg sz = Some (rslab_data_end rg' s, c', region_grow rg' s sz)"
      and "rg_list rg' = s # rest" and "region_inv c' others rg'" and "keeps c c' (slab_bytes others \<union> region_bytes rg)"
      and "rslab_sizeof + rs_used rg' s + sz \<le> sl_size (hdr c' s)"
      and "region_data c' rg' = region_data c rg" and "region_bytes rg' = region_bytes rg" and "region_used rg' = region_used rg"
proof -
  let ?rg = "rg\<lparr>rg_reserved := False\<rparr>"
  have inv': "region_inv c others ?rg" and nr: "\<not> rg_reserved ?rg" using inv by simp_all
  have sm: "region_bytes ?rg = region_bytes rg" "region_used ?rg = region_used rg" by (simp_all add: region_bytes_def region_used_def)
  from os inv' nr sz rq show thesis
  proof (cases rule: region_reserve_spec)
    case (fail c')
    then show thesis using that(1) [of c'] pos sm by (simp add: region_alloc_def)
  next
    case (ok s rest c' rg')
    have s: "s \<in> set (rg_list rg')" using ok(2) by simp
    have "sz \<le> rslab_unused c' rg' s" using region_unused [OF ok(3) s] ok(5) by simp
    moreover have "rslab_data_end rg' s \<noteq> NULL" by (simp add: rslab_data_end_def rslab_data_def rslab_sizeof_56)
    ultimately have "region_alloc os c rg sz = Some (rslab_data_end rg' s, c', region_grow rg' s sz)"
      using ok(1,2) pos by (simp add: region_alloc_def)
    from that(2) [OF this ok(2,3)] ok(4-8) sm show thesis by simp
  qed
qed

lemma region_alloc_allocated:
  assumes "os_ok os" and "region_inv c others rg" and "0 < sz" and "sz + rslab_sizeof < 2 ^ 32" and "size_request_ok c (sz + 8)"
  shows "\<exists>p c' rg'. region_alloc os c rg sz = Some (p, c', rg') \<and> region_allocated c others rg p sz c' rg' \<and>
    region_used rg' = region_used rg + (if p = NULL then 0 else int sz) \<and>
    (p \<noteq> NULL \<longrightarrow> region_data c' rg' = region_data c rg @ read_bytes c' p sz)"
  using assms
proof (cases rule: region_alloc_spec)
  case (fail c')
  have "region_data c' rg = region_data c rg" using fail(3) by (intro region_data_cong) (simp add: keeps_def)
  then show ?thesis using fail by (simp add: region_allocated_def keeps_def region_used_def)
next
  case (ok s rest c' rg')
  note g = region_grow_spec [OF ok(3,2,5)]
  note f = region_fresh [OF ok(3,2), of "rslab_data_end rg' s" sz]
  have "rslab_data_end rg' s + sz \<le> s + sl_size (hdr c' s)" using ok(5) by (simp add: rslab_data_end_def rslab_data_def)
  then have "span (rslab_data_end rg' s) sz \<inter> (slab_bytes others \<union> region_bytes rg) = {}"
    using f ok(7) unfolding Int_Un_distrib by simp
  moreover have "rslab_data_end rg' s \<noteq> NULL" by (simp add: rslab_data_end_def rslab_data_def rslab_sizeof_56)
  ultimately have "region_allocated c others rg (rslab_data_end rg' s) sz c' (region_grow rg' s sz)"
    using ok(4,6,7) g(1,2,4) by (simp add: region_allocated_def keeps_def)
  then show ?thesis
    using ok(1,6,8) g(2,3) by (simp add: rslab_data_end_def rslab_data_def rslab_sizeof_56)
qed

section \<open>Freeing\<close>

lemma region_free_spec:
  assumes "region_inv c others rg"
  obtains c' rg' where "region_free c rg = Some (c', rg')" and "cache_inv c' others" and "region_inv c' others rg'"
    and "rg_list rg' = []" and "region_used rg' = 0" and "region_total rg' = 0" and "keeps c c' (slab_bytes others)"
proof -
  have "owns c others (rg_list rg)" using assms by (simp add: region_inv_def)
  then obtain c' where c': "slab_put_all c (rg_list rg) = Some c'" "cache_inv c' others" "keeps c c' (slab_bytes others)"
    by (rule owns_put_all)
  define rg' where "rg' = (region_truncated (rg\<lparr>rg_slabs := slab_list_create\<rparr>) 0)\<lparr>rg_reserved := False\<rparr>"
  have s: "rg_slabs rg' = slab_list_create" by (simp add: rg'_def region_truncated_def split: option.splits)
  have "region_free c rg = Some (c', rg')" using c'(1) by (simp add: region_free_def rg'_def)
  moreover have "region_inv c' others rg'" using c'(2) s by (simp add: region_inv_def owns_def slab_list_create_def)
  ultimately show thesis using c' s by (intro that [of c' rg']) (simp_all add: slab_list_create_def region_used_def region_total_def)
qed

text \<open>
  The invariant of the truncation loop: \<open>xs\<close> is what is left of the list. The counter of used
  bytes is only set at the end.
\<close>

lemma region_inv_tail:
  assumes inv: "region_inv c others (rg\<lparr>rg_slabs := (rg_slabs rg)\<lparr>st_used := u\<rparr>\<rparr>)" and l: "rg_list rg = s # rest"
    and c': "owns c' others rest" "slabs_of c' rest = slabs_of c rest"
  shows "region_inv c' others (rg\<lparr>rg_slabs := (slab_list_del (rg_slabs rg) s (sl_size (hdr c s)))\<lparr>st_used := u - int (rs_used rg s)\<rparr>\<rparr>)"
proof -
  have "sl_size (hdr c' t) = sl_size (hdr c t)" if "t \<in> set rest" for t using c'(2) that by (rule slabs_of_eq_size)
  then show ?thesis using inv c'(1) by (simp add: region_inv_def slab_list_del_def l cong: map_cong)
qed

lemma region_truncate_loop_spec:
  assumes "region_inv c others (rg\<lparr>rg_slabs := (rg_slabs rg)\<lparr>st_used := u\<rparr>\<rparr>)" and "int n \<le> u" and "rg_list rg = xs"
  shows "\<exists>c' rg'. region_truncate_loop c rg xs n = Some (c', rg', 0) \<and> keeps c c' (slab_bytes others) \<and>
    region_inv c' others (rg'\<lparr>rg_slabs := (rg_slabs rg')\<lparr>st_used := u - int n\<rparr>\<rparr>) \<and>
    region_data c' rg' = take (nat u - n) (region_data c rg) \<and>
    on_truncate_cb rg' = on_truncate_cb rg \<and> cb_arg rg' = cb_arg rg \<and> rg_reserved rg' = rg_reserved rg"
  using assms
proof (induction xs arbitrary: c rg u n)
  case Nil
  have "u = 0" using Nil.prems(1,3) by (simp add: region_inv_def)
  then show ?case using Nil.prems keeps_refl by (auto simp: region_slabs_data)
next
  case (Cons s rest)
  note inv = Cons.prems(1) and l = Cons.prems(3)
  let ?rg = "rg\<lparr>rg_slabs := (rg_slabs rg)\<lparr>st_used := u\<rparr>\<rparr>"
  have lr: "rg_list ?rg = s # rest" using l by simp
  have o: "owns c others (s # rest)" using inv l by (simp add: region_inv_def)
  then have d: "s \<notin> set rest" by (simp add: owns_def)
  have u: "u = int (rs_used rg s) + (\<Sum>t \<leftarrow> rest. int (rs_used rg t))" using inv l by (simp add: region_inv_def)
  have len: "length (slabs_data c (rs_used rg) rest) = nat (\<Sum>t \<leftarrow> rest. int (rs_used rg t))" for c :: slab_cache
    using slabs_data_length [of c "rs_used rg" rest] by linarith
  have nn: "0 \<le> (\<Sum>t \<leftarrow> rest. int (rs_used rg t))" by (intro sum_list_nonneg) auto
  show ?case
  proof (cases "rs_used rg s > n")
    case True
    let ?c = "memset c (rslab_data_end rg s - n) 0x50 n"
    let ?r = "rg\<lparr>rs_used := (rs_used rg)(s := rs_used rg s - n)\<rparr>"
    have b: "rslab_data_end rg s - n = rslab_data s + (rs_used rg s - n)" using True by (simp add: rslab_data_end_def)
    have "rslab_sizeof + rs_used rg s \<le> sl_size (hdr c s)" using inv l by (simp add: region_inv_def)
    then have sub: "span (rslab_data_end rg s - n) n \<subseteq> span s (sl_size (hdr c s))"
      unfolding b using True by (intro span_subset) (simp_all add: rslab_data_def)
    then have k: "keeps c ?c (slab_bytes others)"
      using owns_disjoint(1) [OF o, of s] by (intro memset_keeps) auto
    have same: "read_bytes ?c (rslab_data t) (rs_used rg t) = read_bytes c (rslab_data t) (rs_used rg t)" if "t \<in> set rest" for t
    proof -
      have "rslab_sizeof + rs_used rg t \<le> sl_size (hdr c t)" using inv l that by (simp add: region_inv_def)
      then have "span (rslab_data t) (rs_used rg t) \<subseteq> span t (sl_size (hdr c t))"
        by (intro span_subset) (simp_all add: rslab_data_def)
      then have "span (rslab_data t) (rs_used rg t) \<inter> span (rslab_data_end rg s - n) n = {}"
        using owns_disjoint(2) [OF o, of s t] sub d that by auto
      then show ?thesis by (intro read_bytes_cong) (auto simp: memset_def disjoint_iff)
    qed
    have "slabs_data ?c (rs_used ?r) rest = slabs_data ?c (rs_used rg) rest" using d by (intro slabs_data_cong) auto
    also have "\<dots> = slabs_data c (rs_used rg) rest"
      using same by (auto simp: slabs_data_def intro!: arg_cong [of _ _ concat])
    finally have data: "slabs_data ?c (rs_used ?r) rest = slabs_data c (rs_used rg) rest" .
    have "read_bytes ?c (rslab_data s) (rs_used rg s - n) = read_bytes c (rslab_data s) (rs_used rg s - n)"
      unfolding b by (intro read_bytes_cong) (auto simp: memset_def)
    then have "region_data ?c ?r = take (nat u - n) (region_data c rg)"
      using data len [of c] u nn True by (simp add: region_slabs_data l take_read_bytes nat_add_distrib)
    moreover have "region_inv ?c others (?r\<lparr>rg_slabs := (rg_slabs ?r)\<lparr>st_used := u - int n\<rparr>\<rparr>)"
      using inv True d by (auto simp: region_inv_def l memset_def of_nat_diff)
    ultimately show ?thesis using True k by auto
  next
    case False
    let ?rg' = "rg\<lparr>rg_slabs := slab_list_del (rg_slabs rg) s (sl_size (hdr c s))\<rparr>"
    obtain c1 where c1: "slab_put c s = Some c1" "owns c1 others (remove1 s (s # rest))"
      "slabs_of c1 (remove1 s (s # rest)) = slabs_of c (remove1 s (s # rest))"
      "keeps c c1 (slab_bytes (others \<union> slabs_of c (remove1 s (s # rest))))"
      using owns_put [OF o, of s] by auto
    have inv1: "region_inv c1 others (?rg'\<lparr>rg_slabs := (rg_slabs ?rg')\<lparr>st_used := u - int (rs_used rg s)\<rparr>\<rparr>)"
      using region_inv_tail [OF inv l, of c1] c1(2,3) by simp
    have n: "int (n - rs_used rg s) \<le> u - int (rs_used rg s)" using False Cons.prems(2) by simp
    have l': "rg_list ?rg' = rest" using l by (simp add: slab_list_del_def)
    from Cons.IH [OF inv1 n l'] obtain c' rg' where r: "region_truncate_loop c1 ?rg' rest (n - rs_used rg s) = Some (c', rg', 0)"
      "keeps c1 c' (slab_bytes others)"
      "region_inv c' others (rg'\<lparr>rg_slabs := (rg_slabs rg')\<lparr>st_used := u - int (rs_used rg s) - int (n - rs_used rg s)\<rparr>\<rparr>)"
      "region_data c' rg' = take (nat (u - int (rs_used rg s)) - (n - rs_used rg s)) (region_data c1 ?rg')"
      "on_truncate_cb rg' = on_truncate_cb rg \<and> cb_arg rg' = cb_arg rg \<and> rg_reserved rg' = rg_reserved rg" by auto
    have k: "keeps c c' (slab_bytes others)"
      using c1(4) slab_bytes_mono [of others "others \<union> slabs_of c (remove1 s (s # rest))"] r(2) by (auto simp: keeps_def)
    have sub: "region_bytes ?rg' \<subseteq> slab_bytes (others \<union> slabs_of c (remove1 s (s # rest)))"
    proof -
      have "region_bytes ?rg' = region_bytes (?rg'\<lparr>rg_slabs := (rg_slabs ?rg')\<lparr>st_used := u - int (rs_used rg s)\<rparr>\<rparr>)"
        by (simp add: region_bytes_def)
      also have "\<dots> \<subseteq> slab_bytes (slabs_of c1 rest)" using region_bytes_owned(1) [OF inv1] l' by simp
      also have "slabs_of c1 rest = slabs_of c rest" using c1(3) by simp
      finally show ?thesis using slab_bytes_mono [of "slabs_of c rest" "others \<union> slabs_of c (remove1 s (s # rest))"] by auto
    qed
    have "region_data c1 ?rg' = region_data c ?rg'"
      using c1(4) sub by (intro region_data_cong) (auto simp: keeps_def)
    moreover have "nat (u - int (rs_used rg s)) - (n - rs_used rg s) = nat u - n" using u nn False by linarith
    ultimately have "region_data c' rg' = take (nat u - n) (region_data c rg)"
      using r(4) u nn False len [of c] by (simp add: region_slabs_data l slab_list_del_def)
    moreover have "u - int (rs_used rg s) - int (n - rs_used rg s) = u - int n" using False by linarith
    ultimately show ?thesis using r(1,3,5) c1(1) False k by simp
  qed
qed

lemma region_truncate_spec:
  assumes inv: "region_inv c others rg" and used: "int used \<le> region_used rg"
  obtains c' rg' where "region_truncate c rg used = Some (c', rg')" and "region_inv c' others rg'"
    and "region_data c' rg' = take used (region_data c rg)" and "region_used rg' = int used" and "keeps c c' (slab_bytes others)"
proof -
  have inv': "region_inv c others (rg\<lparr>rg_slabs := (rg_slabs rg)\<lparr>st_used := region_used rg\<rparr>\<rparr>)" using inv by (simp add: region_used_def)
  have le: "int (nat (region_used rg - int used)) \<le> region_used rg" using used by simp
  from region_truncate_loop_spec [OF inv' le refl] used obtain c' rg' where
    r: "region_truncate_loop c rg (rg_list rg) (nat (region_used rg - int used)) = Some (c', rg', 0)" "keeps c c' (slab_bytes others)"
    "region_inv c' others (rg'\<lparr>rg_slabs := (rg_slabs rg')\<lparr>st_used := int used\<rparr>\<rparr>)"
    "region_data c' rg' = take (nat (region_used rg) - nat (region_used rg - int used)) (region_data c rg)" by auto
  define r1 where "r1 = rg'\<lparr>rg_slabs := (rg_slabs rg')\<lparr>st_used := int used\<rparr>, rg_reserved := False\<rparr>"
  define r2 where "r2 = region_truncated r1 used"
  have s: "rg_slabs r2 = rg_slabs r1" "rs_used r2 = rs_used r1" by (simp_all add: r2_def region_truncated_def split: option.splits)
  have "region_truncate c rg used = Some (c', r2)" using r(1) used by (simp add: region_truncate_def r1_def r2_def)
  moreover have "region_inv c' others r2" using r(3) s by (simp add: region_inv_def r1_def)
  moreover have "region_data c' r2 = take used (region_data c rg)"
  proof -
    have "region_data c' r2 = region_data c' rg'" using s by (simp add: region_data_def r1_def)
    moreover have "nat (region_used rg) - nat (region_used rg - int used) = used" using used by linarith
    ultimately show ?thesis using r(4) by simp
  qed
  ultimately show thesis using r(2) s by (intro that [of c' r2]) (simp_all add: region_used_def r1_def)
qed

section \<open>Joining\<close>

lemma region_join_loop_spec:
  assumes "off \<le> length (slabs_data c (rs_used rg) xs)"
    and "\<And>t. t \<in> set xs \<Longrightarrow> span p off \<inter> span (rslab_data t) (rs_used rg t) = {}"
  shows "\<exists>m. region_join_loop c rg xs p off = Some (c\<lparr>mem := m\<rparr>) \<and> (\<forall>x. x \<notin> span p off \<longrightarrow> m x = mem c x) \<and>
    read_bytes (c\<lparr>mem := m\<rparr>) p off = drop (length (slabs_data c (rs_used rg) xs) - off) (slabs_data c (rs_used rg) xs)"
  using assms
proof (induction xs arbitrary: c off)
  case Nil
  have "c\<lparr>mem := mem c\<rparr> = c" by simp
  then show ?case using Nil by (auto simp: region_join_loop.simps intro!: exI [of _ "mem c"])
next
  case (Cons s rest)
  let ?u = "rs_used rg" and ?d = "\<lambda>c. slabs_data c (rs_used rg)"
  have dj: "span p off \<inter> span (rslab_data t) (?u t) = {}" if "t \<in> set (s # rest)" for t using Cons.prems(2) that .
  show ?case
  proof (cases "off = 0")
    case True
    have "c\<lparr>mem := mem c\<rparr> = c" by simp
    then show ?thesis using True by (auto simp: region_join_loop.simps intro!: exI [of _ "mem c"])
  next
    case off: False
    have apart: "off = 0 \<or> ?u s = 0 \<or> p + off \<le> rslab_data s \<or> rslab_data s + ?u s \<le> p"
      using dj [of s] span_disjoint_iff [of off "?u s" p "rslab_data s"] by (cases "?u s = 0") auto
    show ?thesis
    proof (cases "?u s \<le> off")
      case True
      have "?u s = 0 \<or> p + off - ?u s + ?u s \<le> rslab_data s \<or> rslab_data s + ?u s \<le> p + off - ?u s"
        using apart True off by linarith
      then obtain m1 where m1: "memcpy c (p + off - ?u s) (rslab_data s) (?u s) = Some (c\<lparr>mem := m1\<rparr>)"
        "read_bytes (c\<lparr>mem := m1\<rparr>) (p + off - ?u s) (?u s) = read_bytes c (rslab_data s) (?u s)"
        "\<And>x. x \<notin> span (p + off - ?u s) (?u s) \<Longrightarrow> m1 x = mem c x"
        using memcpy_run [of "?u s" "p + off - ?u s" "rslab_data s" c] by blast
      let ?c = "c\<lparr>mem := m1\<rparr>"
      have "x \<notin> span (p + off - ?u s) (?u s)" if "t \<in> set rest" "x \<in> span (rslab_data t) (?u t)" for t x
        using dj [of t] that True by (auto simp: disjoint_iff)
      then have rest: "?d ?c rest = ?d c rest"
        using m1(3) by (auto simp: slabs_data_def intro!: arg_cong [of _ _ concat] read_bytes_cong simp del: in_span)
      have "off - ?u s \<le> length (?d ?c rest)" using Cons.prems(1) rest by simp
      moreover have "span p (off - ?u s) \<inter> span (rslab_data t) (?u t) = {}" if "t \<in> set rest" for t
        using dj [of t] that by (auto simp: disjoint_iff)
      ultimately obtain m where m: "region_join_loop ?c rg rest p (off - ?u s) = Some (?c\<lparr>mem := m\<rparr>)"
        "\<forall>x. x \<notin> span p (off - ?u s) \<longrightarrow> m x = mem ?c x"
        "read_bytes (?c\<lparr>mem := m\<rparr>) p (off - ?u s) = drop (length (?d ?c rest) - (off - ?u s)) (?d ?c rest)"
        using Cons.IH [of "off - ?u s" ?c] by blast
      have "read_bytes (c\<lparr>mem := m\<rparr>) (p + off - ?u s) (?u s) = read_bytes ?c (p + off - ?u s) (?u s)"
        using m(2) True by (intro read_bytes_cong) auto
      then have "read_bytes (c\<lparr>mem := m\<rparr>) p off = drop (length (?d c rest) - (off - ?u s)) (?d c rest) @ read_bytes c (rslab_data s) (?u s)"
        using read_bytes_add [of "c\<lparr>mem := m\<rparr>" p "off - ?u s" "?u s"] m(3) m1(2) rest True by simp
      moreover have "m x = mem c x" if "x \<notin> span p off" for x using m(2) m1(3) [of x] that True by auto
      moreover have "region_join_loop c rg (s # rest) p off = Some (c\<lparr>mem := m\<rparr>)"
        using m(1) m1(1) off True by (subst region_join_loop.simps) simp
      ultimately show ?thesis using True Cons.prems(1) by (intro exI [of _ m]) simp
    next
      case False
      have "off = 0 \<or> p + off \<le> rslab_data s + ?u s - off \<or> rslab_data s + ?u s - off + off \<le> p"
        using apart False off by linarith
      then obtain m where m: "memcpy c p (rslab_data s + ?u s - off) off = Some (c\<lparr>mem := m\<rparr>)"
        "read_bytes (c\<lparr>mem := m\<rparr>) p off = read_bytes c (rslab_data s + ?u s - off) off"
        "\<And>x. x \<notin> span p off \<Longrightarrow> m x = mem c x"
        using memcpy_run [of off p "rslab_data s + ?u s - off" c] by blast
      have "region_join_loop c rg (s # rest) p off = Some (c\<lparr>mem := m\<rparr>)"
        using m(1) off False by (subst region_join_loop.simps) simp
      then show ?thesis using m False by (intro exI [of _ m]) (simp add: drop_read_bytes)
    qed
  qed
qed

lemma region_alloc_room:
  assumes inv: "region_inv c others rg" and l: "rg_list rg = s # rest" and n: "rslab_sizeof + rs_used rg s + sz \<le> sl_size (hdr c s)" and "0 < sz"
  shows "region_alloc os c rg sz = Some (rslab_data_end rg s, c, region_grow (rg\<lparr>rg_reserved := True\<rparr>) s sz)"
proof -
  have u: "rslab_unused c rg s = sl_size (hdr c s) - rslab_sizeof - rs_used rg s" by (rule region_unused [OF inv]) (simp add: l)
  then have "sz \<le> rslab_unused c rg s" using n by simp
  then show ?thesis
    using assms(4) l by (simp add: region_alloc_def region_reserve_def rslab_data_end_def rslab_data_def rslab_sizeof_56 rslab_unused_def)
qed

lemma region_join_spec:
  assumes os: "os_ok os" and inv: "region_inv c others rg" and nr: "\<not> rg_reserved rg" and pos: "0 < sz"
    and used: "int sz \<le> region_used rg" and sz: "sz + rslab_sizeof < 2 ^ 32" and rq: "size_request_ok c (sz + 8)"
  shows "\<exists>p c' rg'. region_join os c rg sz = Some (p, c', rg') \<and> region_inv c' others rg' \<and>
    (\<forall>x \<in> slab_bytes others \<union> region_bytes rg. mem c' x = mem c x) \<and>
    (if p = NULL then region_data c' rg' = region_data c rg
     else span p sz \<subseteq> region_bytes rg' \<and> read_bytes c' p sz = drop (length (region_data c rg) - sz) (region_data c rg))"
proof -
  have len: "sz \<le> length (region_data c rg)" using region_length [OF inv] used by linarith
  have "rg_list rg \<noteq> []" using len pos by (auto simp: region_slabs_data)
  then obtain s rest where l: "rg_list rg = s # rest" by (cases "rg_list rg") auto
  show ?thesis
  proof (cases "sz \<le> rs_used rg s")
    case True
    have "region_join os c rg sz = Some (rslab_data s + rs_used rg s - sz, c, rg)"
      using used nr pos l True by (simp add: region_join_def)
    moreover have "span (rslab_data s + rs_used rg s - sz) sz \<subseteq> region_bytes rg" using True by (auto simp: region_bytes_def l)
    moreover have "read_bytes c (rslab_data s + rs_used rg s - sz) sz = drop (length (region_data c rg) - sz) (region_data c rg)"
      using True by (simp add: region_slabs_data l drop_read_bytes)
    moreover have "rslab_data s + rs_used rg s - sz \<noteq> NULL" using True by (simp add: rslab_data_def rslab_sizeof_56)
    ultimately show ?thesis using inv by simp
  next
    case False
    from os inv nr sz rq show ?thesis
    proof (cases rule: region_reserve_spec)
      case (fail c')
      have "region_data c' rg = region_data c rg" using fail(3) by (intro region_data_cong) (simp add: keeps_def)
      then show ?thesis using fail used nr pos l False by (simp add: region_join_def keeps_def)
    next
      case (ok s' rest' c1 rg1)
      let ?p = "rslab_data_end rg1 s'"
      have p: "?p \<noteq> NULL" by (simp add: rslab_data_end_def rslab_data_def rslab_sizeof_56)
      have "?p + sz \<le> s' + sl_size (hdr c1 s')" using ok(5) by (simp add: rslab_data_end_def rslab_data_def)
      then have fr: "span ?p sz \<inter> region_bytes rg1 = {}" "span ?p sz \<inter> slab_bytes others = {}"
        using region_fresh [OF ok(3,2), of ?p sz] by simp_all
      have un: "rs_used rg1 t = rs_used rg t" if "t \<in> set (rg_list rg)" for t using ok(11) that by blast
      have data: "slabs_data c1 (rs_used rg1) (rg_list rg) = region_data c rg"
      proof -
        have "slabs_data c1 (rs_used rg1) (rg_list rg) = region_data c1 rg"
          unfolding region_slabs_data by (rule slabs_data_cong) (rule un)
        also have "\<dots> = region_data c rg" using ok(4) by (intro region_data_cong) (simp add: keeps_def)
        finally show ?thesis .
      qed
      have "span ?p sz \<inter> span (rslab_data t) (rs_used rg1 t) = {}" if "t \<in> set (rg_list rg)" for t
        using fr(1) [unfolded ok(7)] un [OF that] that unfolding region_bytes_def by (auto simp: disjoint_iff)
      then obtain m where m: "region_join_loop c1 rg1 (rg_list rg) ?p sz = Some (c1\<lparr>mem := m\<rparr>)"
        "\<forall>x. x \<notin> span ?p sz \<longrightarrow> m x = mem c1 x"
        "read_bytes (c1\<lparr>mem := m\<rparr>) ?p sz = drop (length (region_data c rg) - sz) (region_data c rg)"
        using region_join_loop_spec [of sz c1 rg1 "rg_list rg" ?p] len data by auto
      let ?c = "c1\<lparr>mem := m\<rparr>" and ?r = "rg1\<lparr>rg_reserved := True\<rparr>"
      have al: "region_alloc os ?c rg1 sz = Some (?p, ?c, region_grow ?r s' sz)"
        by (rule region_alloc_room [of _ others _ _ rest']) (use ok(2,3,5) pos in simp_all)
      have run: "region_join os c rg sz = Some (?p, ?c, region_grow ?r s' sz)"
        using used nr pos l False ok(1) p m(1) al by (simp add: region_join_def)
      have inv1: "region_inv ?c others ?r" "rg_list ?r = s' # rest'" "rslab_sizeof + rs_used ?r s' + sz \<le> sl_size (hdr ?c s')"
        using ok(2,3,5) by simp_all
      note g = region_grow_spec [OF this]
      have "mem ?c x = mem c x" if "x \<in> slab_bytes others \<union> region_bytes rg" for x
      proof -
        have "x \<notin> span ?p sz" using fr that unfolding ok(7) by blast
        then show ?thesis using m(2) ok(4) that by (simp add: keeps_def)
      qed
      moreover have "span ?p sz \<subseteq> region_bytes (region_grow ?r s' sz)" using g(4) by (simp add: rslab_data_end_def)
      ultimately show ?thesis using run g(1) m(3) p by simp
    qed
  qed
qed

section \<open>Alignment\<close>

lemma region_grow_pad:
  assumes inv: "region_inv c others rg" and l: "rg_list rg = s # rest" and p: "rslab_data_end rg s \<le> p" "p + n \<le> s + sl_size (hdr c s)"
    and k: "keeps c0 c (slab_bytes others \<union> region_bytes rg0)" and d: "region_data c rg = region_data c0 rg0" "region_bytes rg = region_bytes rg0"
    and nz: "p \<noteq> NULL"
  shows "region_allocated c0 others rg0 p n c (region_grow rg s (p - rslab_data_end rg s + n))"
proof -
  let ?q = "rslab_data_end rg s" and ?g = "region_grow rg s (p - rslab_data_end rg s + n)"
  have "rslab_sizeof + rs_used rg s + (p - ?q + n) \<le> sl_size (hdr c s)"
    using p by (simp add: rslab_data_end_def rslab_data_def)
  note g = region_grow_spec [OF inv l this]
  have "read_bytes c ?q (p - ?q + n) = read_bytes c ?q (p - ?q) @ read_bytes c p n"
    using read_bytes_add [of c ?q "p - ?q" n] p(1) by simp
  then have "\<exists>pad. region_data c ?g = region_data c0 rg0 @ pad @ read_bytes c p n" using g(2) d(1) by auto
  moreover have "span p n \<subseteq> span ?q (p - ?q + n)" using p(1) by auto
  moreover have "span p n \<inter> (slab_bytes others \<union> region_bytes rg0) = {}"
    using region_fresh [OF inv l p] unfolding d(2) Int_Un_distrib by simp
  ultimately show ?thesis
    using g(1,4) k nz unfolding region_allocated_def d(2) by (auto simp: keeps_def simp del: in_span)
qed

lemma region_aligned_alloc_spec:
  assumes os: "os_ok os" and inv: "region_inv c others rg" and pos: "0 < sz" and k: "k < 32"
    and sz: "sz + 2 ^ k - 1 + rslab_sizeof < 2 ^ 32" and rq: "size_request_ok c (sz + 2 ^ k - 1 + 8)"
  shows "\<exists>p c' rg'. region_aligned_alloc os c rg sz (2 ^ k) = Some (p, c', rg') \<and> 2 ^ k dvd p \<and>
    region_allocated c others rg p sz c' rg'"
proof -
  let ?rg = "rg\<lparr>rg_reserved := False\<rparr>" and ?n = "sz + 2 ^ k - 1"
  have inv': "region_inv c others ?rg" and nr: "\<not> rg_reserved ?rg" using inv by simp_all
  have sm: "region_bytes ?rg = region_bytes rg" by (simp add: region_bytes_def)
  have n1: "nat ((int sz + int (2 ^ k) - 1) mod 2 ^ 64) = ?n"
  proof -
    have "int sz + int (2 ^ k) - 1 = int ?n" using pos by (simp add: of_nat_diff)
    then show ?thesis using sz by simp
  qed
  have k2: "(2::nat) ^ k < 2 ^ 32" using k by (intro power_strict_increasing) simp_all
  from os inv' nr sz rq show ?thesis
  proof (cases rule: region_reserve_spec)
    case (fail c')
    obtain r where r: "small_align (of_nat NULL) (of_nat (2 ^ k)) = Some r" "unat r = align_up NULL (2 ^ k)"
      using small_align_addr [OF k, of NULL] k2 by auto
    have "align_up 0 (2 ^ k) = 0" by (rule align_up_id) simp_all
    then have "region_aligned_alloc os c rg sz (2 ^ k) = Some (NULL, c', ?rg)"
      using pos fail(1) n1 r by (simp add: region_aligned_alloc_def region_aligned_reserve_def)
    moreover have "region_data c' rg = region_data c rg" using fail(3) sm by (intro region_data_cong) (simp add: keeps_def)
    ultimately show ?thesis using fail(2,3) sm by (simp add: region_allocated_def keeps_def)
  next
    case (ok s rest c' rg')
    let ?q = "rslab_data_end rg' s" and ?p = "align_up (rslab_data_end rg' s) (2 ^ k)"
    have s: "s \<in> set (rg_list rg')" using ok(2) by simp
    have "owns c' others (rg_list rg')" using ok(3) by (simp add: region_inv_def)
    then have "s + sl_size (hdr c' s) \<le> 2 ^ 63" using s by (rule owns_slab(6))
    then have low: "?q + 2 ^ k < 2 ^ 64" using ok(5) k2 by (simp add: rslab_data_end_def rslab_data_def)
    obtain r where r: "small_align (of_nat ?q) (of_nat (2 ^ k)) = Some r" "unat r = ?p"
      using small_align_addr [OF k low] by blast
    have ab: "?q \<le> ?p" "?p < ?q + 2 ^ k" using align_up_bounds [of "2 ^ k" ?q] by simp_all
    have nz: "?p \<noteq> NULL" using ab(1) by (simp add: rslab_data_end_def rslab_data_def rslab_sizeof_56)
    have fit: "?p + sz \<le> s + sl_size (hdr c' s)" using ok(5) ab(2) pos by (simp add: rslab_data_end_def rslab_data_def)
    have "sl_size (hdr c' s) < 2 ^ 32" using ok(3) s by (auto simp: region_inv_def)
    then have e: "nat ((int ?p - int ?q + int sz) mod 2 ^ 32) = ?p - ?q + sz"
    proof -
      have "int ?p - int ?q + int sz = int (?p - ?q + sz)" using ab(1) by simp
      moreover have "?p - ?q + sz < 2 ^ 32" using sz ab by linarith
      ultimately show ?thesis by (rule nat_mod_power)
    qed
    have "?p - ?q + sz \<le> rslab_unused c' rg' s"
      using region_unused [OF ok(3) s] fit ab(1) by (simp add: rslab_data_end_def rslab_data_def)
    moreover have "region_aligned_reserve os c ?rg sz (2 ^ k) = Some (?p, c', rg')"
      unfolding region_aligned_reserve_def n1 ok(1) using r by simp
    ultimately have "region_aligned_alloc os c rg sz (2 ^ k) = Some (?p, c', region_grow rg' s (?p - ?q + sz))"
      using pos nz e by (simp add: region_aligned_alloc_def ok(2))
    moreover have "region_allocated c others rg ?p sz c' (region_grow rg' s (?p - ?q + sz))"
      using region_grow_pad [OF ok(3,2) ab(1) fit _ _ _ nz, of c rg] ok(4,6,7) sm by simp
    ultimately show ?thesis by simp
  qed
qed

section \<open>Properties\<close>

definition example_region :: "nat \<Rightarrow> unit region" where
  "example_region n = \<lparr>rg_slabs = \<lparr>sl_slabs = [65536], st_used = int n, st_total = 100048\<rparr>, rs_used = (\<lambda>_. n),
     on_alloc_cb = None, on_truncate_cb = None, cb_arg = (), rg_reserved = False\<rparr>"

lemma example_region_inv:
  assumes "n \<le> 90000"
  obtains c where "region_inv c {} (example_region n)" and "\<And>m. m \<le> 100000 \<Longrightarrow> size_request_ok c m"
proof -
  obtain c where c: "cache_inv c {(65536, 100048)}" "ar_slab_size (sc_arena c) = 65536" "q_total (ar_quota (sc_arena c)) = 16384"
    by (rule example_slab)
  have "sl_size (hdr c 65536) = 100048" using cache_inv_slab(2) [OF c(1)] by simp
  then have "region_inv c {} (example_region n)"
    using c(1) assms by (simp add: region_inv_def example_region_def owns_def rslab_sizeof_56)
  moreover have "size_request_ok c m" if "m \<le> 100000" for m
  proof -
    have "q_units (m + slab_sizeof) \<le> 1000" using that by (simp add: q_units_def slab_sizeof_48)
    then show ?thesis using that c(2,3) by (simp add: size_request_ok_def quota_room_def slab_sizeof_48)
  qed
  ultimately show thesis using that by blast
qed

text \<open>A region of two slabs, 1000 bytes in the older and 500 in the newer one.\<close>

definition example_region2 :: "unit region" where
  "example_region2 = \<lparr>rg_slabs = \<lparr>sl_slabs = [196608, 65536], st_used = 1500, st_total = 200096\<rparr>, rs_used = (\<lambda>s. if s = 65536 then 1000 else 500),
     on_alloc_cb = None, on_truncate_cb = None, cb_arg = (), rg_reserved = False\<rparr>"

text \<open>C16: \<open>region_alloc\<close> passes every assertion and keeps the invariant, the slabs of other users of the cache
  and all bytes allocated before. It returns NULL with the contents unchanged, or the address of
  \<open>size\<close> bytes that overlap nothing allocated before and come last in the contents.\<close>

theorem region_alloc_correct:
  assumes "os_ok os" and "region_inv c others rg" and "0 < sz" and "sz + rslab_sizeof < 2 ^ 32" and "size_request_ok c (sz + 8)"
  shows "\<exists>p c' rg'. region_alloc os c rg sz = Some (p, c', rg') \<and> region_allocated c others rg p sz c' rg' \<and>
    region_used rg' = region_used rg + (if p = NULL then 0 else int sz) \<and>
    (p \<noteq> NULL \<longrightarrow> region_data c' rg' = region_data c rg @ read_bytes c' p sz)"
  using assms by (rule region_alloc_allocated)

theorem region_alloc_correct_witness:
  "\<exists>c p c' rg'. region_alloc bump_os c (example_region 10) 50000 = Some (p, c', rg') \<and>
     region_allocated c {} (example_region 10) p 50000 c' rg'"
proof -
  obtain c where c: "region_inv c {} (example_region 10)" "\<And>m. m \<le> 100000 \<Longrightarrow> size_request_ok c m"
    by (rule example_region_inv [of 10]) simp_all
  have "50000 + rslab_sizeof < 2 ^ 32" "size_request_ok c (50000 + 8)" using c(2) by (simp_all add: rslab_sizeof_56)
  from region_alloc_correct [OF bump_os_ok c(1) _ this] show ?thesis by auto
qed

text \<open>\<open>region_aligned_alloc\<close> does the same with an address that is a multiple of the alignment; bytes
  skipped for the alignment count as allocated.\<close>

theorem region_aligned_alloc_correct:
  assumes "os_ok os" and "region_inv c others rg" and "0 < sz" and "k < 32" and "sz + 2 ^ k - 1 + rslab_sizeof < 2 ^ 32"
    and "size_request_ok c (sz + 2 ^ k - 1 + 8)"
  shows "\<exists>p c' rg'. region_aligned_alloc os c rg sz (2 ^ k) = Some (p, c', rg') \<and> 2 ^ k dvd p \<and>
    region_allocated c others rg p sz c' rg'"
  using assms by (rule region_aligned_alloc_spec)

theorem region_aligned_alloc_correct_witness:
  "\<exists>c p c' rg'. region_aligned_alloc bump_os c (example_region 10) 100 (2 ^ 6) = Some (p, c', rg') \<and> 64 dvd p"
proof -
  obtain c where c: "region_inv c {} (example_region 10)" "\<And>m. m \<le> 100000 \<Longrightarrow> size_request_ok c m"
    by (rule example_region_inv [of 10]) simp_all
  have "100 + 2 ^ 6 - 1 + rslab_sizeof < 2 ^ 32" "size_request_ok c (100 + 2 ^ 6 - 1 + 8)"
    using c(2) by (simp_all add: rslab_sizeof_56)
  from region_aligned_alloc_correct [OF bump_os_ok c(1) _ _ this] show ?thesis by auto
qed

text \<open>C17: \<open>region_truncate\<close> to a number of bytes not above what is used passes every assertion, leaves exactly
  that many bytes of the contents, gives the slabs it no longer needs back to the cache, and
  touches nothing of other users.\<close>

theorem region_truncate_correct:
  assumes "region_inv c others rg" and "int used \<le> region_used rg"
  shows "\<exists>c' rg'. region_truncate c rg used = Some (c', rg') \<and> region_inv c' others rg' \<and> region_used rg' = int used \<and>
    region_data c' rg' = take used (region_data c rg) \<and> (\<forall>x \<in> slab_bytes others. mem c' x = mem c x)"
  using region_truncate_spec [OF assms] unfolding keeps_def by blast

theorem region_truncate_correct_witness:
  "\<exists>c c' rg'. region_truncate c (example_region 1000) 10 = Some (c', rg') \<and> region_used rg' = 10"
proof -
  obtain c where c: "region_inv c {} (example_region 1000)" by (rule example_region_inv [of 1000]) simp_all
  have "int 10 \<le> region_used (example_region 1000)" by (simp add: region_used_def example_region_def)
  from region_truncate_correct [OF c this] show ?thesis by auto
qed

fun region_allocs :: "os \<Rightarrow> slab_cache \<Rightarrow> 'a region \<Rightarrow> nat list \<Rightarrow> (slab_cache \<times> 'a region) option" where
  "region_allocs os c rg [] = Some (c, rg)"
| "region_allocs os c rg (n # ns) = do { (_, c, rg) \<leftarrow> region_alloc os c rg n; region_allocs os c rg ns }"

lemma region_allocs_spec:
  assumes "os_ok os" and "region_inv c others rg" and "\<forall>n \<in> set ns. 0 < n \<and> n + rslab_sizeof < 2 ^ 32 \<and> size_request_ok c (n + 8)"
  shows "\<exists>c' rg' bs. region_allocs os c rg ns = Some (c', rg') \<and> region_inv c' others rg' \<and> region_data c' rg' = region_data c rg @ bs"
  using assms(2,3)
proof (induction ns arbitrary: c rg)
  case (Cons n ns)
  have n: "0 < n" "n + rslab_sizeof < 2 ^ 32" "size_request_ok c (n + 8)" using Cons.prems(2) by simp_all
  obtain p c1 rg1 where a: "region_alloc os c rg n = Some (p, c1, rg1)" "region_inv c1 others rg1" "same_cache c c1"
    "\<exists>bs. region_data c1 rg1 = region_data c rg @ bs"
    using assms(1) Cons.prems(1) n
  proof (cases rule: region_alloc_spec)
    case (fail c')
    have "region_data c' rg = region_data c rg" using fail(3) by (intro region_data_cong) (simp add: keeps_def)
    then show ?thesis using that [OF fail(1)] fail(2,3) by (simp add: keeps_same_cache)
  next
    case (ok s rest c' rg')
    note g = region_grow_spec [OF ok(3,2,5)]
    show ?thesis using that [OF ok(1) g(1) keeps_same_cache [OF ok(4)]] g(2) ok(6) by simp
  qed
  have "\<forall>n \<in> set ns. 0 < n \<and> n + rslab_sizeof < 2 ^ 32 \<and> size_request_ok c1 (n + 8)"
    using Cons.prems(2) same_cache_size_request [OF a(3)] by simp
  from Cons.IH [OF a(2) this] a(1,4) show ?case by fastforce
qed simp

text \<open>A savepoint: after any allocations, truncating to the number of bytes used before brings the
  contents back.\<close>

theorem region_savepoint:
  assumes "os_ok os" and "region_inv c others rg" and "\<forall>n \<in> set ns. 0 < n \<and> n + rslab_sizeof < 2 ^ 32 \<and> size_request_ok c (n + 8)"
  shows "\<exists>c1 rg1 c2 rg2. region_allocs os c rg ns = Some (c1, rg1) \<and> region_truncate c1 rg1 (nat (region_used rg)) = Some (c2, rg2) \<and>
    region_inv c2 others rg2 \<and> region_data c2 rg2 = region_data c rg \<and> region_used rg2 = region_used rg"
proof -
  obtain c1 rg1 bs where a: "region_allocs os c rg ns = Some (c1, rg1)" "region_inv c1 others rg1" "region_data c1 rg1 = region_data c rg @ bs"
    using region_allocs_spec [OF assms] by blast
  have l: "region_used rg = int (length (region_data c rg))" "region_used rg1 = int (length (region_data c1 rg1))"
    using region_length [OF assms(2)] region_length [OF a(2)] by simp_all
  then have "int (nat (region_used rg)) \<le> region_used rg1" using a(3) by simp
  from region_truncate_spec [OF a(2) this] obtain c2 rg2 where "region_truncate c1 rg1 (nat (region_used rg)) = Some (c2, rg2)"
    "region_inv c2 others rg2" "region_data c2 rg2 = take (nat (region_used rg)) (region_data c1 rg1)"
    "region_used rg2 = int (nat (region_used rg))" by blast
  then show ?thesis using a(1,3) l by simp
qed

theorem region_savepoint_witness:
  "\<exists>c c1 rg1 c2 rg2. region_allocs bump_os c (example_region 1000) [5000, 70000, 1] = Some (c1, rg1) \<and>
     region_truncate c1 rg1 1000 = Some (c2, rg2) \<and> region_data c2 rg2 = region_data c (example_region 1000)"
proof -
  obtain c where c: "region_inv c {} (example_region 1000)" "\<And>m. m \<le> 100000 \<Longrightarrow> size_request_ok c m"
    by (rule example_region_inv [of 1000]) simp_all
  have u: "nat (region_used (example_region 1000)) = 1000" by (simp add: region_used_def example_region_def)
  have "\<forall>n \<in> set [5000, 70000, 1]. 0 < n \<and> n + rslab_sizeof < 2 ^ 32 \<and> size_request_ok c (n + 8)"
    using c(2) by (simp add: rslab_sizeof_56)
  from region_savepoint [OF bump_os_ok c(1) this, unfolded u] show ?thesis by blast
qed

text \<open>C18: \<open>region_join\<close> passes every assertion, reads no slab beyond the oldest one and copies no overlapping
  ranges. It returns NULL, or the address of a piece of the region that holds the last \<open>size\<close>
  bytes of the contents in order.\<close>

theorem region_join_correct:
  assumes "os_ok os" and "region_inv c others rg" and "\<not> rg_reserved rg" and "0 < sz" and "int sz \<le> region_used rg"
    and "sz + rslab_sizeof < 2 ^ 32" and "size_request_ok c (sz + 8)"
  shows "\<exists>p c' rg'. region_join os c rg sz = Some (p, c', rg') \<and> region_inv c' others rg' \<and>
    (\<forall>x \<in> slab_bytes others \<union> region_bytes rg. mem c' x = mem c x) \<and>
    (if p = NULL then region_data c' rg' = region_data c rg
     else span p sz \<subseteq> region_bytes rg' \<and> read_bytes c' p sz = drop (length (region_data c rg) - sz) (region_data c rg))"
  using assms by (rule region_join_spec)

theorem region_join_correct_witness:
  "\<exists>c p c' rg'. region_join bump_os c (example_region 1000) 600 = Some (p, c', rg') \<and> region_inv c' {} rg'"
proof -
  obtain c where c: "region_inv c {} (example_region 1000)" "\<And>m. m \<le> 100000 \<Longrightarrow> size_request_ok c m"
    by (rule example_region_inv [of 1000]) simp_all
  have "\<not> rg_reserved (example_region 1000)" "int 600 \<le> region_used (example_region 1000)"
    by (simp_all add: region_used_def example_region_def)
  from region_join_correct [OF bump_os_ok c(1) this(1) _ this(2)] c(2) show ?thesis by (auto simp: rslab_sizeof_56)
qed

text \<open>C39: \<open>region_reset\<close> empties only the newest slab: the bytes of the older slabs stay allocated, against the
  comment of the function, which says that the region is empty afterwards.\<close>

theorem region_reset_keeps_older:
  assumes "region_inv c others rg" and "rg_list rg = s # rest"
  shows "region_inv c others (region_reset rg) \<and> region_data c (region_reset rg) = slabs_data c (rs_used rg) rest \<and>
    region_used (region_reset rg) = region_used rg - int (rs_used rg s)"
proof -
  have d: "s \<notin> set rest" using assms by (simp add: region_inv_def owns_def)
  have r: "rg_slabs (region_reset rg) = add_used (- int (rs_used rg s)) (rg_slabs rg)"
    "rs_used (region_reset rg) = (rs_used rg)(s := 0)" using assms(2) by (simp_all add: region_reset_def)
  have "region_inv c others (region_reset rg)"
    using assms d by (auto simp: region_inv_def r add_used_def)
  moreover have "region_data c (region_reset rg) = slabs_data c (rs_used rg) rest"
    using assms(2) d by (simp add: region_slabs_data r add_used_def)
  moreover have "region_used (region_reset rg) = region_used rg - int (rs_used rg s)" by (simp add: region_used_def r add_used_def)
  ultimately show ?thesis by blast
qed

theorem region_reset_keeps_older_witness:
  "\<exists>c. region_inv c {} example_region2 \<and> rg_list example_region2 = [196608, 65536] \<and> region_used example_region2 = 1500 \<and>
     region_used (region_reset example_region2) = 1000 \<and> region_data c (region_reset example_region2) = read_bytes c (rslab_data 65536) 1000"
proof -
  obtain c where c: "cache_inv c {(65536, 100048), (196608, 100048)}" by (rule example_two_slabs)
  have h: "sl_size (hdr c 65536) = 100048" "sl_size (hdr c 196608) = 100048" using cache_inv_slab(2) [OF c] by simp_all
  have i: "region_inv c {} example_region2"
    using c h by (simp add: region_inv_def example_region2_def owns_def rslab_sizeof_56 insert_commute)
  have l: "rg_list example_region2 = 196608 # [65536]" by (simp add: example_region2_def)
  show ?thesis using region_reset_keeps_older [OF i l] i l by (intro exI [of _ c]) (simp add: region_used_def example_region2_def slabs_data_def)
qed

text \<open>Freeing a region gives every slab of it back, so that the cache holds the slabs of the others only.\<close>

theorem region_free_correct:
  assumes "region_inv c others rg"
  shows "\<exists>c' rg'. region_free c rg = Some (c', rg') \<and> cache_inv c' others \<and> region_inv c' others rg' \<and> rg_list rg' = [] \<and>
    region_used rg' = 0 \<and> region_total rg' = 0 \<and> (\<forall>x \<in> slab_bytes others. mem c' x = mem c x)"
  using region_free_spec [OF assms] unfolding keeps_def by blast

theorem region_free_correct_witness: "\<exists>c c' rg'. region_free c (example_region 1000) = Some (c', rg') \<and> cache_inv c' {}"
proof -
  obtain c where c: "region_inv c {} (example_region 1000)" by (rule example_region_inv [of 1000]) simp_all
  from region_free_correct [OF this] show ?thesis by blast
qed

end
