(* ===== verification/Byte_Queue.thy ===== *)
theory Byte_Queue
  imports Prelude
begin

text \<open>
  The contract of the buffers as their users see them. A log takes chunks of bytes at the end,
  and may refuse one when memory runs out; a queue also gives them back from the front.
\<close>

locale byte_log =
  fixes push :: "'s \<Rightarrow> byte list \<Rightarrow> (bool \<times> 's) option"
    and bytes :: "'s \<Rightarrow> byte list"
    and inv :: "'s \<Rightarrow> bool"
    and room :: "'s \<Rightarrow> nat \<Rightarrow> bool"
  assumes push_law: "inv s \<Longrightarrow> room s (length bs) \<Longrightarrow>
    \<exists>ok s'. push s bs = Some (ok, s') \<and> inv s' \<and> bytes s' = bytes s @ (if ok then bs else [])"
begin

lemma push_twice:
  assumes "inv s" and "room s (length as)" and "\<And>ok s'. push s as = Some (ok, s') \<Longrightarrow> room s' (length bs)"
  shows "\<exists>x y s1 s2. push s as = Some (x, s1) \<and> push s1 bs = Some (y, s2) \<and> inv s2 \<and>
    bytes s2 = bytes s @ (if x then as else []) @ (if y then bs else [])"
proof -
  obtain x s1 where p: "push s as = Some (x, s1)" "inv s1" "bytes s1 = bytes s @ (if x then as else [])"
    using push_law [OF assms(1,2)] by blast
  from push_law [OF p(2) assms(3) [OF p(1)]] p show ?thesis by auto
qed

end

locale byte_queue = byte_log push bytes inv room
  for push :: "'s \<Rightarrow> byte list \<Rightarrow> (bool \<times> 's) option" and bytes inv room +
  fixes pop :: "'s \<Rightarrow> nat \<Rightarrow> (byte list \<times> 's) option"
  assumes pop_law: "inv s \<Longrightarrow> n \<le> length (bytes s) \<Longrightarrow>
    \<exists>s'. pop s n = Some (take n (bytes s), s') \<and> inv s' \<and> bytes s' = drop n (bytes s)"
begin

text \<open>First in, first out: what comes out first is what was there, then the new chunk.\<close>

lemma push_pop_fifo:
  assumes "inv s" and "room s (length bs)"
  shows "\<exists>ok s1 s2 s3. push s bs = Some (ok, s1) \<and> pop s1 (length (bytes s)) = Some (bytes s, s2) \<and>
    pop s2 (if ok then length bs else 0) = Some (if ok then bs else [], s3) \<and> inv s3 \<and> bytes s3 = []"
proof -
  obtain ok s1 where p: "push s bs = Some (ok, s1)" "inv s1" "bytes s1 = bytes s @ (if ok then bs else [])"
    using push_law [OF assms] by blast
  obtain s2 where s2: "pop s1 (length (bytes s)) = Some (bytes s, s2)" "inv s2" "bytes s2 = (if ok then bs else [])"
    using pop_law [OF p(2), of "length (bytes s)"] p(3) by (auto split: if_splits)
  obtain s3 where "pop s2 (if ok then length bs else 0) = Some (if ok then bs else [], s3)" "inv s3" "bytes s3 = []"
    using pop_law [OF s2(2), of "if ok then length bs else 0"] s2(3) by (auto split: if_splits)
  with p(1) s2(1) show ?thesis by blast
qed

end

end
