(* ===== verification/Ibuf.thy ===== *)
theory Ibuf
  imports Slab_Client Slab_Cache_Props Byte_Queue
begin

text \<open>
  \<open>small/ibuf.c\<close> and \<open>include/small/ibuf.h\<close>: a contiguous input buffer that grows by doubling.
  Positions are addresses. The address sanitizer's poisoning is not modelled, it has no effect
  on a build without the sanitizer. The loop that doubles the capacity wraps around at 64 bits
  and can run forever: it is a partial function, and a run that does not end is \<open>None\<close>, like
  an aborted one.
\<close>

section \<open>Data and operations\<close>

record ibuf =
  ib_buf :: addr
  ib_rpos :: addr
  ib_wpos :: addr
  ib_end :: addr
  start_capacity :: nat

definition memmove :: "slab_cache \<Rightarrow> addr \<Rightarrow> addr \<Rightarrow> nat \<Rightarrow> slab_cache" where
  "memmove c d s n = c\<lparr>mem := (\<lambda>x. if d \<le> x \<and> x < d + n then mem c (s + (x - d)) else mem c x)\<rparr>"

definition ibuf_create :: "nat \<Rightarrow> ibuf" where
  "ibuf_create cap = \<lparr>ib_buf = NULL, ib_rpos = NULL, ib_wpos = NULL, ib_end = NULL, start_capacity = cap\<rparr>"

definition ibuf_destroy :: "slab_cache \<Rightarrow> ibuf \<Rightarrow> slab_cache option" where
  "ibuf_destroy c ib = (if ib_buf ib \<noteq> NULL then slab_put c (slab_from_data (ib_buf ib)) else Some c)"

definition ibuf_reinit :: "slab_cache \<Rightarrow> ibuf \<Rightarrow> (slab_cache \<times> ibuf) option" where
  "ibuf_reinit c ib = do {
     let cap = start_capacity ib;
     c \<leftarrow> ibuf_destroy c ib;
     Some (c, ibuf_create cap) }"

definition ibuf_used :: "ibuf \<Rightarrow> nat option" where
  "ibuf_used ib = do {
     c_assert (ib_wpos ib \<ge> ib_rpos ib);
     Some (ib_wpos ib - ib_rpos ib) }"

definition ibuf_unused :: "ibuf \<Rightarrow> nat option" where
  "ibuf_unused ib = do {
     c_assert (ib_wpos ib \<le> ib_end ib);
     Some (ib_end ib - ib_wpos ib) }"

definition ibuf_capacity :: "ibuf \<Rightarrow> nat" where
  "ibuf_capacity ib = ib_end ib - ib_buf ib"

definition ibuf_pos :: "ibuf \<Rightarrow> nat option" where
  "ibuf_pos ib = do {
     c_assert (ib_buf ib \<le> ib_rpos ib);
     Some (ib_rpos ib - ib_buf ib) }"

definition ibuf_reset :: "ibuf \<Rightarrow> ibuf" where
  "ibuf_reset ib = ib\<lparr>ib_rpos := ib_buf ib, ib_wpos := ib_buf ib\<rparr>"

text \<open>The loop of \<open>ibuf_reserve_slow\<close> that doubles the capacity; it has no assertion, so that None is a loop that never ends.\<close>

definition ibuf_double :: "nat \<Rightarrow> nat" where
  "ibuf_double new_capacity = new_capacity * 2 mod 2 ^ 64"

partial_function (option) ibuf_grow :: "nat \<Rightarrow> nat \<Rightarrow> nat option" where
  "ibuf_grow new_capacity need =
     (if new_capacity < need then ibuf_grow (ibuf_double new_capacity) need else Some new_capacity)"

text \<open>
  The lines that \<open>ibuf_reserve_slow\<close> and \<open>ibuf_shrink\<close> share: a new slab, a copy of the data, and
  the old slab given back.
\<close>

definition ibuf_relocate :: "os \<Rightarrow> slab_cache \<Rightarrow> ibuf \<Rightarrow> nat \<Rightarrow> nat \<Rightarrow> (addr \<times> slab_cache) option" where
  "ibuf_relocate os c ib used new_capacity = do {
     (s, c) \<leftarrow> slab_get os c new_capacity;
     if s = NULL then Some (NULL, c)
     else do {
       let ptr = slab_data s;
       c \<leftarrow> memcpy c ptr (ib_rpos ib) used;
       c \<leftarrow> (if ib_buf ib \<noteq> NULL then slab_put c (slab_from_data (ib_buf ib)) else Some c);
       Some (s, c) } }"

text \<open>
  The part of \<open>ibuf_reserve_slow\<close> before its loop: the bytes in use and, when a bigger buffer is
  needed, the capacity the loop starts with and the one it has to reach.
\<close>

definition ibuf_reserve_enter :: "ibuf \<Rightarrow> nat \<Rightarrow> (nat \<times> (nat \<times> nat) option) option" where
  "ibuf_reserve_enter ib sz = do {
     c_assert (ib_wpos ib + sz > ib_end ib);
     used \<leftarrow> ibuf_used ib;
     let capacity = ibuf_capacity ib;
     if (sz + used) mod 2 ^ 64 \<le> capacity then Some (used, None)
     else do {
       let new_capacity = capacity * 2 mod 2 ^ 64;
       let new_capacity = (if new_capacity < start_capacity ib then start_capacity ib else new_capacity);
       Some (used, Some (new_capacity, (used + sz) mod 2 ^ 64)) } }"

definition ibuf_reserve_slow :: "os \<Rightarrow> slab_cache \<Rightarrow> ibuf \<Rightarrow> nat \<Rightarrow> (addr \<times> slab_cache \<times> ibuf) option" where
  "ibuf_reserve_slow os c ib sz = do {
     (used, loop) \<leftarrow> ibuf_reserve_enter ib sz;
     (r, c, ib) \<leftarrow> (case loop of
         None \<Rightarrow> Some (True, memmove c (ib_buf ib) (ib_rpos ib) used, ib)
       | Some (new_capacity, need) \<Rightarrow> do {
          new_capacity \<leftarrow> ibuf_grow new_capacity need;
          (s, c) \<leftarrow> ibuf_relocate os c ib used new_capacity;
          if s = NULL then Some (False, c, ib)
          else Some (True, c, ib\<lparr>ib_buf := slab_data s, ib_end := slab_data s + slab_capacity c s\<rparr>) });
     if r then
       (let ib = ib\<lparr>ib_rpos := ib_buf ib, ib_wpos := ib_buf ib + used\<rparr> in Some (ib_wpos ib, c, ib))
     else Some (NULL, c, ib) }"

definition ibuf_reserve :: "os \<Rightarrow> slab_cache \<Rightarrow> ibuf \<Rightarrow> nat \<Rightarrow> (addr \<times> slab_cache \<times> ibuf) option" where
  "ibuf_reserve os c ib sz =
     (if ib_wpos ib + sz \<le> ib_end ib then Some (ib_wpos ib, c, ib) else ibuf_reserve_slow os c ib sz)"

definition ibuf_alloc :: "os \<Rightarrow> slab_cache \<Rightarrow> ibuf \<Rightarrow> nat \<Rightarrow> (addr \<times> slab_cache \<times> ibuf) option" where
  "ibuf_alloc os c ib sz =
     (if ib_wpos ib + sz \<le> ib_end ib then Some (ib_wpos ib, c, ib\<lparr>ib_wpos := ib_wpos ib + sz\<rparr>)
      else do {
        (ptr, c, ib) \<leftarrow> ibuf_reserve_slow os c ib sz;
        if ptr = NULL then Some (NULL, c, ib)
        else Some (ptr, c, ib\<lparr>ib_wpos := ib_wpos ib + sz\<rparr>) })"

definition ibuf_shrink :: "os \<Rightarrow> slab_cache \<Rightarrow> ibuf \<Rightarrow> (slab_cache \<times> ibuf) option" where
  "ibuf_shrink os c ib = do {
     used \<leftarrow> ibuf_used ib;
     if used = 0 then do {
       c \<leftarrow> (if ib_buf ib \<noteq> NULL then slab_put c (slab_from_data (ib_buf ib)) else Some c);
       Some (c, ib\<lparr>ib_buf := NULL, ib_rpos := NULL, ib_wpos := NULL, ib_end := NULL\<rparr>) }
     else do {
       let capacity = ibuf_capacity ib;
       let new_capacity = (if start_capacity ib < used then used else start_capacity ib);
       old_size \<leftarrow> slab_real_size c capacity;
       new_size \<leftarrow> slab_real_size c new_capacity;
       if old_size = new_size then Some (c, ib)
       else do {
         (s, c) \<leftarrow> ibuf_relocate os c ib used new_capacity;
         if s = NULL then Some (c, ib)
         else Some (c, ib\<lparr>ib_buf := slab_data s, ib_rpos := slab_data s, ib_wpos := slab_data s + used,
           ib_end := slab_data s + slab_capacity c s\<rparr>) } } }"

definition ibuf_discard :: "ibuf \<Rightarrow> nat \<Rightarrow> ibuf option" where
  "ibuf_discard ib sz = do {
     used \<leftarrow> ibuf_used ib;
     c_assert (sz \<le> used);
     Some (ib\<lparr>ib_wpos := ib_wpos ib - sz\<rparr>) }"

definition ibuf_truncate :: "ibuf \<Rightarrow> nat \<Rightarrow> ibuf option" where
  "ibuf_truncate ib n = do {
     used \<leftarrow> ibuf_used ib;
     c_assert (n \<le> used);
     ibuf_discard ib (used - n) }"

definition ibuf_consume :: "ibuf \<Rightarrow> nat \<Rightarrow> ibuf option" where
  "ibuf_consume ib sz = do {
     used \<leftarrow> ibuf_used ib;
     c_assert (sz \<le> used);
     Some (ib\<lparr>ib_rpos := ib_rpos ib + sz\<rparr>) }"

definition ibuf_consume_before :: "ibuf \<Rightarrow> addr \<Rightarrow> ibuf option" where
  "ibuf_consume_before ib ptr = do {
     c_assert (ptr \<ge> ib_rpos ib);
     c_assert (ptr \<le> ib_wpos ib);
     ibuf_consume ib (ptr - ib_rpos ib) }"

definition ibuf_reserve_cb :: "os \<Rightarrow> slab_cache \<Rightarrow> ibuf \<Rightarrow> nat \<Rightarrow> (addr \<times> nat \<times> slab_cache \<times> ibuf) option" where
  "ibuf_reserve_cb os c ib sz = do {
     (p, c, ib) \<leftarrow> ibuf_reserve os c ib (if sz \<noteq> 0 then sz else start_capacity ib);
     n \<leftarrow> ibuf_unused ib;
     Some (p, n, c, ib) }"

definition ibuf_alloc_cb :: "os \<Rightarrow> slab_cache \<Rightarrow> ibuf \<Rightarrow> nat \<Rightarrow> (addr \<times> slab_cache \<times> ibuf) option" where
  "ibuf_alloc_cb os c ib sz = ibuf_alloc os c ib sz"

section \<open>The capacity loop\<close>

lemma ibuf_grow_stops:
  assumes "0 < v" and "need \<le> 2 ^ 63"
  obtains w where "ibuf_grow v need = Some w" and "v \<le> w" and "need \<le> w" and "w = v \<or> w < 2 * need"
  using assms
proof (induction "need - v" arbitrary: v thesis rule: less_induct)
  case less
  show ?case
  proof (cases "v < need")
    case True
    then have v: "v * 2 < 2 ^ 64" using less.prems(3) by simp
    have "need - v * 2 < need - v" using True less.prems(2) by linarith
    then obtain w where w: "ibuf_grow (v * 2) need = Some w" "v * 2 \<le> w" "need \<le> w" "w = v * 2 \<or> w < 2 * need"
      using less.hyps [of "v * 2"] less.prems(2,3) by auto
    have "ibuf_grow v need = Some w" using True v w(1) by (subst ibuf_grow.simps) (simp add: ibuf_double_def)
    then show ?thesis using less.prems(1) [of w] w True by auto
  next
    case False
    then have "ibuf_grow v need = Some v" by (simp add: ibuf_grow.simps)
    then show ?thesis using less.prems(1) [of v] False by simp
  qed
qed

text \<open>The value None of the loop means that its condition holds after any number of iterations.\<close>

lemma ibuf_grow_diverges: "ibuf_grow v need = None \<longleftrightarrow> (\<forall>k. (ibuf_double ^^ k) v < need)"
proof
  assume none: "ibuf_grow v need = None"
  have "(ibuf_double ^^ k) v < need" if "ibuf_grow v need = None" for k v
    using that
  proof (induction k arbitrary: v)
    case 0
    then show ?case by (subst (asm) ibuf_grow.simps) (simp split: if_splits)
  next
    case (Suc k)
    have "ibuf_grow (ibuf_double v) need = None" using Suc.prems by (subst (asm) ibuf_grow.simps) (simp split: if_splits)
    from Suc.IH [OF this] show ?case by (simp add: funpow_Suc_right del: funpow.simps)
  qed
  then show "\<forall>k. (ibuf_double ^^ k) v < need" using none by blast
next
  have "ibuf_grow v n = Some w \<Longrightarrow> \<exists>k. n \<le> (ibuf_double ^^ k) v" for v n w
  proof (erule ibuf_grow.raw_induct [rotated, where P = "\<lambda>v n w. \<exists>k. n \<le> (ibuf_double ^^ k) v"])
    fix loop v n w assume IH: "\<And>v n w. loop v n = Some w \<Longrightarrow> \<exists>k. n \<le> (ibuf_double ^^ k) v"
      and r: "(if v < n then loop (ibuf_double v) n else Some v) = Some w"
    show "\<exists>k. n \<le> (ibuf_double ^^ k) v"
    proof (cases "v < n")
      case True
      then obtain k where "n \<le> (ibuf_double ^^ k) (ibuf_double v)" using IH [of "ibuf_double v" n w] r by auto
      then have "n \<le> (ibuf_double ^^ Suc k) v" by (simp add: funpow_Suc_right del: funpow.simps)
      then show ?thesis ..
    qed (intro exI [of _ 0], simp)
  qed
  then show "\<forall>k. (ibuf_double ^^ k) v < need \<Longrightarrow> ibuf_grow v need = None" by (metis not_less option.exhaust)
qed

lemma ibuf_double_0: "(ibuf_double ^^ k) 0 = 0"
  by (induction k) (simp_all add: ibuf_double_def)

section \<open>Contents and invariant\<close>

definition ibuf_data :: "slab_cache \<Rightarrow> ibuf \<Rightarrow> byte list" where
  "ibuf_data c ib = read_bytes c (ib_rpos ib) (ib_wpos ib - ib_rpos ib)"

text \<open>The slabs of a buffer: none before the first use, then the one whose data it is.\<close>

definition ibuf_slabs :: "ibuf \<Rightarrow> addr list" where
  "ibuf_slabs ib = (if ib_buf ib = NULL then [] else [slab_from_data (ib_buf ib)])"

definition ibuf_inv :: "slab_cache \<Rightarrow> (addr \<times> nat) set \<Rightarrow> ibuf \<Rightarrow> bool" where
  "ibuf_inv c others ib \<longleftrightarrow> owns c others (ibuf_slabs ib) \<and> ib_buf ib \<le> ib_rpos ib \<and> ib_rpos ib \<le> ib_wpos ib \<and> ib_wpos ib \<le> ib_end ib \<and>
     (if ib_buf ib = NULL then ib_end ib = NULL
      else slab_sizeof \<le> ib_buf ib \<and> ib_end ib = ib_buf ib + slab_capacity c (slab_from_data (ib_buf ib)))"

lemma ibuf_bytes:
  assumes "ibuf_inv c others ib"
  shows "span (ib_buf ib) (ibuf_capacity ib) \<subseteq> slab_bytes (slabs_of c (ibuf_slabs ib))"
proof (cases "ib_buf ib = NULL")
  case True
  then show ?thesis using assms by (simp add: ibuf_inv_def ibuf_capacity_def)
next
  case False
  let ?s = "slab_from_data (ib_buf ib)"
  have o: "owns c others [?s]" "slab_sizeof \<le> ib_buf ib" "ib_end ib = ib_buf ib + slab_capacity c ?s"
    using assms False by (simp_all add: ibuf_inv_def ibuf_slabs_def)
  have "slab_sizeof \<le> sl_size (hdr c ?s)" using owns_slab(3) [OF o(1)] by simp
  then have "span (ib_buf ib) (ibuf_capacity ib) \<subseteq> span ?s (sl_size (hdr c ?s))"
    using o(2,3) by (intro span_subset) (simp_all add: ibuf_capacity_def slab_from_data_def slab_capacity_def)
  then show ?thesis using False by (simp add: ibuf_slabs_def slab_bytes_def)
qed

lemma ibuf_data_bytes: "ibuf_inv c others ib \<Longrightarrow> span (ib_rpos ib) (ib_wpos ib - ib_rpos ib) \<subseteq> span (ib_buf ib) (ibuf_capacity ib)"
  by (intro span_subset) (auto simp: ibuf_inv_def ibuf_capacity_def)

lemma ibuf_create_inv: "cache_inv c others \<Longrightarrow> ibuf_inv c others (ibuf_create n) \<and> ibuf_data c (ibuf_create n) = []"
  by (simp add: ibuf_inv_def ibuf_create_def ibuf_slabs_def owns_def ibuf_data_def)

lemma ibuf_move:
  assumes os: "os_ok os" and inv: "ibuf_inv c others ib" and rq: "size_request_ok c n" and u: "u = ib_wpos ib - ib_rpos ib" "u \<le> n"
  obtains (fail) c' where "ibuf_relocate os c ib u n = Some (NULL, c')" and "ibuf_inv c' others ib" and "ibuf_data c' ib = ibuf_data c ib"
      and "keeps c c' (slab_bytes others)"
  | (ok) x c3 where "ibuf_relocate os c ib u n = Some (x, c3)" and "x \<noteq> NULL"
      and "keeps c c3 (slab_bytes others)" and "n \<le> slab_capacity c3 x"
      and "\<And>w. u \<le> w \<Longrightarrow> w \<le> slab_capacity c3 x \<Longrightarrow> ibuf_inv c3 others (ib\<lparr>ib_buf := slab_data x, ib_rpos := slab_data x,
        ib_wpos := slab_data x + w, ib_end := slab_data x + slab_capacity c3 x\<rparr>)"
      and "read_bytes c3 (slab_data x) u = ibuf_data c ib"
proof -
  let ?xs = "ibuf_slabs ib"
  have o: "owns c others ?xs" using inv by (simp add: ibuf_inv_def)
  have sub: "slab_bytes others \<subseteq> slab_bytes (others \<union> slabs_of c ?xs)" by (rule slab_bytes_mono) simp
  have dat: "span (ib_rpos ib) u \<subseteq> slab_bytes (slabs_of c ?xs)"
    using ibuf_data_bytes [OF inv] ibuf_bytes [OF inv] u(1) by simp
  have dat2: "slab_bytes (slabs_of c ?xs) \<subseteq> slab_bytes (others \<union> slabs_of c ?xs)" by (rule slab_bytes_mono) simp
  show thesis
  proof (rule owns_get [OF os o rq])
    fix c' assume g: "slab_get os c n = Some (NULL, c')" "owns c' others ?xs" "slabs_of c' ?xs = slabs_of c ?xs"
      "keeps c c' (slab_bytes (others \<union> slabs_of c ?xs))"
    have "ib_buf ib \<noteq> NULL \<Longrightarrow> sl_size (hdr c' (slab_from_data (ib_buf ib))) = sl_size (hdr c (slab_from_data (ib_buf ib)))"
      by (rule slabs_of_eq_size [OF g(3)]) (simp add: ibuf_slabs_def)
    then have "ibuf_inv c' others ib" using inv g(2) by (auto simp: ibuf_inv_def slab_capacity_def)
    moreover have "ibuf_data c' ib = ibuf_data c ib"
      unfolding ibuf_data_def u(1) [symmetric] using g(4) dat dat2 by (intro read_bytes_cong) (auto simp: keeps_def simp del: in_span)
    moreover have "keeps c c' (slab_bytes others)" using g(4) sub by (auto simp: keeps_def)
    moreover have "ibuf_relocate os c ib u n = Some (NULL, c')" using g(1) by (simp add: ibuf_relocate_def)
    ultimately show thesis using fail by blast
  next
    fix x c1 assume g: "slab_get os c n = Some (x, c1)" "owns c1 others (x # ?xs)" "slabs_of c1 ?xs = slabs_of c ?xs"
      "keeps c c1 (slab_bytes (others \<union> slabs_of c ?xs))" "n + slab_sizeof \<le> sl_size (hdr c1 x)" "x \<noteq> NULL" "x \<notin> set ?xs"
    have new: "span x (sl_size (hdr c1 x)) \<inter> slab_bytes (others \<union> slabs_of c ?xs) = {}"
      using owns_disjoint_rest [OF g(2)] unfolding g(3) .
    have in_x: "span (slab_data x) u \<subseteq> span x (sl_size (hdr c1 x))"
      using g(5) u(2) by (intro span_subset) (simp_all add: slab_data_def)
    have "span (slab_data x) u \<inter> span (ib_rpos ib) u = {}" using in_x new dat dat2 by blast
    then have "u = 0 \<or> slab_data x + u \<le> ib_rpos ib \<or> ib_rpos ib + u \<le> slab_data x"
      using span_disjoint_iff [of u u "slab_data x" "ib_rpos ib"] by auto
    then obtain m where m: "memcpy c1 (slab_data x) (ib_rpos ib) u = Some (c1\<lparr>mem := m\<rparr>)"
      "read_bytes (c1\<lparr>mem := m\<rparr>) (slab_data x) u = read_bytes c1 (ib_rpos ib) u"
      "\<And>y. y \<notin> span (slab_data x) u \<Longrightarrow> m y = mem c1 y"
      using memcpy_run [of u "slab_data x" "ib_rpos ib" c1] by blast
    let ?c2 = "c1\<lparr>mem := m\<rparr>"
    have o2: "owns ?c2 others (x # ?xs)" using g(2) by simp
    have k2: "keeps c ?c2 (slab_bytes others)"
    proof -
      have "m y = mem c1 y" if "y \<in> slab_bytes others" for y
      proof (rule m(3))
        show "y \<notin> span (slab_data x) u" using new in_x sub that by blast
      qed
      then show ?thesis using g(4) sub by (auto simp: keeps_def)
    qed
    have rd: "read_bytes ?c2 (slab_data x) u = ibuf_data c ib"
    proof -
      have "read_bytes c1 (ib_rpos ib) u = read_bytes c (ib_rpos ib) u"
        using g(4) dat dat2 by (intro read_bytes_cong) (auto simp: keeps_def simp del: in_span)
      then show ?thesis using m(2) u(1) by (simp add: ibuf_data_def)
    qed
    obtain c3 where c3: "(if ib_buf ib \<noteq> NULL then slab_put ?c2 (slab_from_data (ib_buf ib)) else Some ?c2) = Some c3"
      "owns c3 others [x]" "keeps ?c2 c3 (slab_bytes others \<union> span x (sl_size (hdr c1 x)))" "sl_size (hdr c3 x) = sl_size (hdr c1 x)"
    proof (cases "ib_buf ib = NULL")
      case True
      then show thesis using that [of ?c2] o2 keeps_refl by (simp add: ibuf_slabs_def)
    next
      case False
      let ?t = "slab_from_data (ib_buf ib)"
      have xs: "?xs = [?t]" using False by (simp add: ibuf_slabs_def)
      have t: "?t \<in> set (x # ?xs)" "remove1 ?t (x # ?xs) = [x]" using g(7) xs by auto
      obtain c3 where "slab_put ?c2 ?t = Some c3" "owns c3 others [x]" "slabs_of c3 [x] = slabs_of ?c2 [x]"
        "keeps ?c2 c3 (slab_bytes (others \<union> slabs_of ?c2 [x]))" using owns_put [OF o2 t(1)] unfolding t(2) .
      then show thesis using that [of c3] False by (auto simp: Un_commute)
    qed
    have cap: "slab_capacity c3 x = sl_size (hdr c1 x) - slab_sizeof" using c3(4) by (simp add: slab_capacity_def)
    have "ibuf_inv c3 others (ib\<lparr>ib_buf := slab_data x, ib_rpos := slab_data x, ib_wpos := slab_data x + w, ib_end := slab_data x + slab_capacity c3 x\<rparr>)"
      if "w \<le> slab_capacity c3 x" for w
      using c3(2) that g(6) by (simp add: ibuf_inv_def ibuf_slabs_def slab_data_def slab_from_data_def slab_sizeof_48)
    moreover have "read_bytes c3 (slab_data x) u = ibuf_data c ib"
    proof -
      have "read_bytes c3 (slab_data x) u = read_bytes ?c2 (slab_data x) u"
        using c3(3) in_x by (intro read_bytes_cong) (auto simp: keeps_def simp del: in_span)
      then show ?thesis using rd by simp
    qed
    moreover have "keeps c c3 (slab_bytes others)" using k2 c3(3) by (auto simp: keeps_def)
    moreover have "n \<le> slab_capacity c3 x" using cap g(5) by simp
    moreover have "ibuf_relocate os c ib u n = Some (x, c3)" using g(1,6) m(1) c3(1) by (simp add: ibuf_relocate_def)
    ultimately show thesis using ok [of x c3] g(6) by blast
  qed
qed

section \<open>Operations keep the contents\<close>

text \<open>What a request for \<open>sz\<close> bytes may ask the slab cache for.\<close>

definition ibuf_request_ok :: "slab_cache \<Rightarrow> ibuf \<Rightarrow> nat \<Rightarrow> bool" where
  "ibuf_request_ok c ib sz \<longleftrightarrow> 0 < start_capacity ib \<and> ibuf_capacity ib + sz \<le> 2 ^ 62 \<and>
     (\<forall>n \<le> 2 * (ibuf_capacity ib + sz) + start_capacity ib. size_request_ok c n)"

lemma ibuf_used_run: "ibuf_inv c others ib \<Longrightarrow> ibuf_used ib = Some (ib_wpos ib - ib_rpos ib)"
  by (simp add: ibuf_inv_def ibuf_used_def)

lemma ibuf_compact:
  assumes inv: "ibuf_inv c others ib" and n: "ib_wpos ib - ib_rpos ib + sz \<le> ibuf_capacity ib"
  defines "u \<equiv> ib_wpos ib - ib_rpos ib"
  defines "c' \<equiv> memmove c (ib_buf ib) (ib_rpos ib) u" and "ib' \<equiv> ib\<lparr>ib_rpos := ib_buf ib, ib_wpos := ib_buf ib + u\<rparr>"
  shows "ibuf_inv c' others ib'" and "ibuf_data c' ib' = ibuf_data c ib" and "keeps c c' (slab_bytes others)"
proof -
  let ?xs = "ibuf_slabs ib"
  have o: "owns c others ?xs" and p: "ib_buf ib \<le> ib_rpos ib" "ib_rpos ib \<le> ib_wpos ib" "ib_wpos ib \<le> ib_end ib"
    using inv by (simp_all add: ibuf_inv_def)
  have "slab_capacity c' s = slab_capacity c s" "slabs_of c' xs = slabs_of c xs" for s xs
    by (simp_all add: c'_def memmove_def slab_capacity_def)
  then show "ibuf_inv c' others ib'"
    using inv p by (auto simp: ibuf_inv_def ib'_def u_def ibuf_slabs_def c'_def memmove_def slab_capacity_def)
  show "ibuf_data c' ib' = ibuf_data c ib"
    by (intro nth_equalityI) (simp_all add: ibuf_data_def ib'_def u_def [symmetric] c'_def memmove_def)
  have "span (ib_buf ib) u \<subseteq> slab_bytes (slabs_of c ?xs)"
    using ibuf_bytes [OF inv] span_subset [of "ib_buf ib" "ib_buf ib" u "ibuf_capacity ib"] n by (simp add: u_def)
  moreover have "slab_bytes (slabs_of c ?xs) \<inter> slab_bytes others = {}"
  proof (cases "ib_buf ib = NULL")
    case False
    then have xs: "?xs = [slab_from_data (ib_buf ib)]" by (simp add: ibuf_slabs_def)
    show ?thesis using owns_disjoint(1) [OF o, of "slab_from_data (ib_buf ib)"] by (simp add: xs slab_bytes_def)
  qed (simp add: ibuf_slabs_def slab_bytes_def)
  ultimately have "x \<notin> span (ib_buf ib) u" if "x \<in> slab_bytes others" for x using that by blast
  then show "keeps c c' (slab_bytes others)" by (auto simp: keeps_def c'_def memmove_def)
qed

lemma ibuf_reserve_spec:
  assumes os: "os_ok os" and inv: "ibuf_inv c others ib" and rq: "ibuf_request_ok c ib sz"
  shows "\<exists>p c' ib'. ibuf_reserve os c ib sz = Some (p, c', ib') \<and> ibuf_inv c' others ib' \<and> ibuf_data c' ib' = ibuf_data c ib \<and>
    keeps c c' (slab_bytes others) \<and>
    (p \<noteq> NULL \<longrightarrow> p = ib_wpos ib' \<and> ib_wpos ib' + sz \<le> ib_end ib') \<and> start_capacity ib' = start_capacity ib \<and>
    (ib_wpos ib + sz > ib_end ib \<longrightarrow> ibuf_reserve_slow os c ib sz = Some (p, c', ib'))"
proof (cases "ib_wpos ib + sz \<le> ib_end ib")
  case True
  then show ?thesis using inv by (simp add: ibuf_reserve_def keeps_refl)
next
  case False
  define u where "u = ib_wpos ib - ib_rpos ib"
  have pos: "ib_buf ib \<le> ib_rpos ib" "ib_rpos ib \<le> ib_wpos ib" "ib_wpos ib \<le> ib_end ib" using inv by (simp_all add: ibuf_inv_def)
  then have ucap: "u \<le> ibuf_capacity ib" by (simp add: u_def ibuf_capacity_def)
  have lim: "0 < start_capacity ib" "ibuf_capacity ib + sz \<le> 2 ^ 62" using rq by (simp_all add: ibuf_request_ok_def)
  then have m: "(sz + u) mod 2 ^ 64 = sz + u" "(u + sz) mod 2 ^ 64 = u + sz" "ibuf_capacity ib * 2 mod 2 ^ 64 = ibuf_capacity ib * 2"
    using ucap by simp_all
  have eq: "ibuf_reserve os c ib sz = ibuf_reserve_slow os c ib sz" using False by (simp add: ibuf_reserve_def)
  note us = ibuf_used_run [OF inv, folded u_def]
  show ?thesis
  proof (cases "sz + u \<le> ibuf_capacity ib")
    case True
    let ?c = "memmove c (ib_buf ib) (ib_rpos ib) u" and ?ib = "ib\<lparr>ib_rpos := ib_buf ib, ib_wpos := ib_buf ib + u\<rparr>"
    have run: "ibuf_reserve_slow os c ib sz = Some (ib_buf ib + u, ?c, ?ib)"
      using False True us m(1) by (simp add: ibuf_reserve_slow_def ibuf_reserve_enter_def Let_def)
    note cm = ibuf_compact [OF inv, of sz, folded u_def]
    have "ib_buf ib + u + sz \<le> ib_end ib" using True pos by (simp add: ibuf_capacity_def)
    then show ?thesis using eq run cm True by simp
  next
    case big: False
    define v where "v = (if ibuf_capacity ib * 2 < start_capacity ib then start_capacity ib else ibuf_capacity ib * 2)"
    have v: "0 < v" "u + sz \<le> 2 ^ 63" "v \<le> 2 * ibuf_capacity ib + start_capacity ib" using lim ucap by (auto simp: v_def)
    obtain w where w: "ibuf_grow v (u + sz) = Some w" "v \<le> w" "u + sz \<le> w" "w = v \<or> w < 2 * (u + sz)"
      using ibuf_grow_stops [OF v(1,2)] by blast
    have "w \<le> 2 * (ibuf_capacity ib + sz) + start_capacity ib" using w(4) v(3) ucap by auto
    then have sr: "size_request_ok c w" using rq by (simp add: ibuf_request_ok_def)
    have uw: "u \<le> w" using w(3) by simp
    have nc: "\<not> (sz + u) mod 2 ^ 64 \<le> ibuf_capacity ib" using big m(1) by simp
    have start: "ib_end ib < ib_wpos ib + sz" using False by simp
    from os inv sr u_def uw show ?thesis
    proof (cases rule: ibuf_move)
      case (fail c')
      have "ibuf_reserve_slow os c ib sz = Some (NULL, c', ib)"
        using fail(1) nc start us w(1) m(2,3) by (simp add: ibuf_reserve_slow_def ibuf_reserve_enter_def Let_def v_def [symmetric])
      then show ?thesis using eq fail(2-4) by simp
    next
      case (ok x c3)
      let ?ib = "ib\<lparr>ib_buf := slab_data x, ib_rpos := slab_data x, ib_wpos := slab_data x + u, ib_end := slab_data x + slab_capacity c3 x\<rparr>"
      have run: "ibuf_reserve_slow os c ib sz = Some (slab_data x + u, c3, ?ib)"
        using ok(1,2) nc start us w(1) m(2,3) by (simp add: ibuf_reserve_slow_def ibuf_reserve_enter_def Let_def v_def [symmetric])
      have "u + sz \<le> slab_capacity c3 x" using w(3) ok(4) by simp
      moreover have "ibuf_inv c3 others ?ib" using ok(5) [of u] calculation by simp
      moreover have "ibuf_data c3 ?ib = ibuf_data c ib" using ok(6) by (simp add: ibuf_data_def)
      ultimately show ?thesis using eq run ok(3) by simp
    qed
  qed
qed

lemma ibuf_alloc_spec:
  assumes os: "os_ok os" and inv: "ibuf_inv c others ib" and rq: "ibuf_request_ok c ib sz"
  shows "\<exists>p c' ib'. ibuf_alloc os c ib sz = Some (p, c', ib') \<and> ibuf_inv c' others ib' \<and> keeps c c' (slab_bytes others) \<and>
    ibuf_data c' ib' = ibuf_data c ib @ (if p = NULL then [] else read_bytes c' p sz) \<and>
    (p \<noteq> NULL \<longrightarrow> ib_wpos ib' = p + sz) \<and> start_capacity ib' = start_capacity ib"
proof -
  have step: "ibuf_inv c' others (ib'\<lparr>ib_wpos := ib_wpos ib' + sz\<rparr>) \<and>
      ibuf_data c' (ib'\<lparr>ib_wpos := ib_wpos ib' + sz\<rparr>) = ibuf_data c' ib' @ read_bytes c' (ib_wpos ib') sz"
    if i: "ibuf_inv c' others ib'" and e: "ib_wpos ib' + sz \<le> ib_end ib'" for c' ib'
  proof
    show "ibuf_inv c' others (ib'\<lparr>ib_wpos := ib_wpos ib' + sz\<rparr>)" using i e by (auto simp: ibuf_inv_def ibuf_slabs_def)
    have "ib_rpos ib' \<le> ib_wpos ib'" using i by (simp add: ibuf_inv_def)
    then show "ibuf_data c' (ib'\<lparr>ib_wpos := ib_wpos ib' + sz\<rparr>) = ibuf_data c' ib' @ read_bytes c' (ib_wpos ib') sz"
      using read_bytes_add [of c' "ib_rpos ib'" "ib_wpos ib' - ib_rpos ib'" sz] by (simp add: ibuf_data_def)
  qed
  show ?thesis
  proof (cases "ib_wpos ib + sz \<le> ib_end ib")
    case True
    have "sz = 0" if "ib_wpos ib = NULL"
    proof -
      have "ib_buf ib = NULL" using that inv by (simp add: ibuf_inv_def)
      then show ?thesis using that True inv by (simp add: ibuf_inv_def)
    qed
    then show ?thesis using True step [OF inv True] by (auto simp: ibuf_alloc_def keeps_refl)
  next
    case False
    obtain p c' ib' where r: "ibuf_reserve_slow os c ib sz = Some (p, c', ib')" "ibuf_inv c' others ib'"
      "ibuf_data c' ib' = ibuf_data c ib" "keeps c c' (slab_bytes others)"
      "p \<noteq> NULL \<longrightarrow> p = ib_wpos ib' \<and> ib_wpos ib' + sz \<le> ib_end ib'" "start_capacity ib' = start_capacity ib"
      using ibuf_reserve_spec [OF assms] False by auto
    show ?thesis
    proof (cases "p = NULL")
      case True
      then show ?thesis using r False by (simp add: ibuf_alloc_def)
    next
      case nz: False
      then show ?thesis using r False step [OF r(2)] by (simp add: ibuf_alloc_def)
    qed
  qed
qed

lemma ibuf_consume_spec:
  assumes "ibuf_inv c others ib" and "n \<le> length (ibuf_data c ib)"
  shows "\<exists>ib'. ibuf_consume ib n = Some ib' \<and> ibuf_inv c others ib' \<and> ibuf_data c ib' = drop n (ibuf_data c ib)"
  using assms by (auto simp: ibuf_consume_def ibuf_used_run ibuf_inv_def ibuf_slabs_def ibuf_data_def drop_read_bytes)

lemma ibuf_discard_spec:
  assumes "ibuf_inv c others ib" and "n \<le> length (ibuf_data c ib)"
  shows "\<exists>ib'. ibuf_discard ib n = Some ib' \<and> ibuf_inv c others ib' \<and> ibuf_data c ib' = take (length (ibuf_data c ib) - n) (ibuf_data c ib)"
proof -
  have "min (ib_wpos ib - ib_rpos ib - n) (ib_wpos ib - ib_rpos ib) = ib_wpos ib - n - ib_rpos ib" by simp
  then show ?thesis
    using assms by (auto simp: ibuf_discard_def ibuf_used_run ibuf_inv_def ibuf_slabs_def ibuf_data_def take_read_bytes)
qed

lemma ibuf_shrink_spec:
  assumes os: "os_ok os" and inv: "ibuf_inv c others ib" and rq: "ibuf_request_ok c ib 0"
  shows "\<exists>c' ib'. ibuf_shrink os c ib = Some (c', ib') \<and> ibuf_inv c' others ib' \<and> keeps c c' (slab_bytes others) \<and>
    ibuf_data c' ib' = ibuf_data c ib"
proof -
  define u where "u = ib_wpos ib - ib_rpos ib"
  note us = ibuf_used_run [OF inv, folded u_def]
  have pos: "ib_buf ib \<le> ib_rpos ib" "ib_rpos ib \<le> ib_wpos ib" "ib_wpos ib \<le> ib_end ib" using inv by (simp_all add: ibuf_inv_def)
  then have ucap: "u \<le> ibuf_capacity ib" by (simp add: u_def ibuf_capacity_def)
  have o: "owns c others (ibuf_slabs ib)" using inv by (simp add: ibuf_inv_def)
  show ?thesis
  proof (cases "u = 0")
    case True
    have d: "ibuf_data c ib = []" using True by (simp add: ibuf_data_def u_def)
    have "\<exists>c'. (if ib_buf ib \<noteq> NULL then slab_put c (slab_from_data (ib_buf ib)) else Some c) = Some c' \<and> owns c' others [] \<and> keeps c c' (slab_bytes others)"
    proof (cases "ib_buf ib = NULL")
      case True
      then show ?thesis using o keeps_refl by (simp add: ibuf_slabs_def)
    next
      case False
      have xs: "ibuf_slabs ib = [slab_from_data (ib_buf ib)]" using False by (simp add: ibuf_slabs_def)
      show ?thesis using owns_put [OF o, of "slab_from_data (ib_buf ib)"] False by (auto simp: xs)
    qed
    then obtain c' where c': "(if ib_buf ib \<noteq> NULL then slab_put c (slab_from_data (ib_buf ib)) else Some c) = Some c'"
      "owns c' others []" "keeps c c' (slab_bytes others)" by blast
    have "ibuf_shrink os c ib = Some (c', ib\<lparr>ib_buf := NULL, ib_rpos := NULL, ib_wpos := NULL, ib_end := NULL\<rparr>)"
      unfolding ibuf_shrink_def us using True c'(1) by simp
    then show ?thesis using c'(2,3) d by (simp add: ibuf_inv_def ibuf_slabs_def ibuf_data_def)
  next
    case False
    define n where "n = (if start_capacity ib < u then u else start_capacity ib)"
    have n: "u \<le> n" "n \<le> 2 * (ibuf_capacity ib + 0) + start_capacity ib" using ucap by (simp_all add: n_def)
    have rqn: "size_request_ok c n" "size_request_ok c (ibuf_capacity ib)" using rq n(2) by (simp_all add: ibuf_request_ok_def)
    obtain R L U where ci: "cinv c R L U {}" using o by (auto simp: owns_def cache_inv_def)
    note ca = cache_inv_arena_size [OF ci]
    obtain old new where rs: "slab_real_size c (ibuf_capacity ib) = Some old" "slab_real_size c n = Some new"
      using slab_real_size_spec [OF ca(2,1)] rqn by (simp add: size_request_ok_def)
    show ?thesis
    proof (cases "old = new")
      case True
      have "ibuf_shrink os c ib = Some (c, ib)"
        unfolding ibuf_shrink_def us using False True rs unfolding n_def by (simp add: Let_def)
      then show ?thesis using inv keeps_refl by simp
    next
      case ne: False
      from os inv rqn(1) u_def n(1) show ?thesis
      proof (cases rule: ibuf_move)
        case (fail c')
        have "ibuf_shrink os c ib = Some (c', ib)"
          unfolding ibuf_shrink_def us using False ne rs fail(1) unfolding n_def by (simp add: Let_def)
        then show ?thesis using fail(2-4) by simp
      next
        case (ok x c3)
        let ?ib = "ib\<lparr>ib_buf := slab_data x, ib_rpos := slab_data x, ib_wpos := slab_data x + u, ib_end := slab_data x + slab_capacity c3 x\<rparr>"
        have "ibuf_shrink os c ib = Some (c3, ?ib)"
          unfolding ibuf_shrink_def us using False ne rs ok(1,2) unfolding n_def by (simp add: Let_def)
        moreover have "ibuf_inv c3 others ?ib" using ok(5) [of u] n(1) ok(4) by simp
        ultimately show ?thesis using ok(3,6) by (simp add: ibuf_data_def)
      qed
    qed
  qed
qed

section \<open>A queue of bytes\<close>

text \<open>The two uses of an input buffer the comment in its header shows: fill it, then process and consume.\<close>

definition ibuf_push :: "os \<Rightarrow> slab_cache \<times> ibuf \<Rightarrow> byte list \<Rightarrow> (bool \<times> slab_cache \<times> ibuf) option" where
  "ibuf_push os s bs = do {
     (p, c, ib) \<leftarrow> ibuf_alloc os (fst s) (snd s) (length bs);
     if p = NULL then Some (bs = [], c, ib) else Some (True, write_bytes c p bs, ib) }"

definition ibuf_pop :: "slab_cache \<times> ibuf \<Rightarrow> nat \<Rightarrow> (byte list \<times> slab_cache \<times> ibuf) option" where
  "ibuf_pop s n = do {
     let bs = read_bytes (fst s) (ib_rpos (snd s)) n;
     ib \<leftarrow> ibuf_consume (snd s) n;
     Some (bs, fst s, ib) }"

lemma ibuf_push_spec:
  assumes os: "os_ok os" and inv: "ibuf_inv c others ib" and rq: "ibuf_request_ok c ib (length bs)"
  shows "\<exists>b c' ib'. ibuf_push os (c, ib) bs = Some (b, c', ib') \<and> ibuf_inv c' others ib' \<and> keeps c c' (slab_bytes others) \<and>
    ibuf_data c' ib' = ibuf_data c ib @ (if b then bs else [])"
proof -
  obtain p c' ib' where a: "ibuf_alloc os c ib (length bs) = Some (p, c', ib')" "ibuf_inv c' others ib'" "keeps c c' (slab_bytes others)"
    "ibuf_data c' ib' = ibuf_data c ib @ (if p = NULL then [] else read_bytes c' p (length bs))" "p \<noteq> NULL \<longrightarrow> ib_wpos ib' = p + length bs"
    using ibuf_alloc_spec [OF assms] by blast
  show ?thesis
  proof (cases "p = NULL")
    case True
    then show ?thesis using a by (simp add: ibuf_push_def)
  next
    case False
    let ?c = "write_bytes c' p bs"
    have wp: "ib_wpos ib' = p + length bs" using a(5) False by simp
    have len: "length (ibuf_data c' ib') = length (ibuf_data c ib) + length bs" using a(4) False by simp
    have rp: "ib_rpos ib' \<le> p" "p - ib_rpos ib' = length (ibuf_data c ib)"
      using len wp a(2) by (auto simp: ibuf_data_def ibuf_inv_def)
    have i: "ibuf_inv ?c others ib'" using a(2) by (simp add: ibuf_inv_def write_bytes_def slab_capacity_def)
    have "ibuf_data ?c ib' = read_bytes ?c (ib_rpos ib') (p - ib_rpos ib') @ read_bytes ?c p (length bs)"
      using read_bytes_add [of ?c "ib_rpos ib'" "p - ib_rpos ib'" "length bs"] rp(1) wp by (simp add: ibuf_data_def)
    also have "read_bytes ?c (ib_rpos ib') (p - ib_rpos ib') = read_bytes c' (ib_rpos ib') (p - ib_rpos ib')"
      by (intro read_bytes_cong) (auto simp: write_bytes_def)
    also have "\<dots> = take (length (ibuf_data c ib)) (ibuf_data c' ib')" using rp wp by (simp add: ibuf_data_def take_read_bytes)
    also have "\<dots> = ibuf_data c ib" using a(4) by simp
    finally have d: "ibuf_data ?c ib' = ibuf_data c ib @ bs" by simp
    have sub: "span p (length bs) \<subseteq> slab_bytes (slabs_of c' (ibuf_slabs ib'))"
    proof -
      have "span p (length bs) \<subseteq> span (ib_rpos ib') (ib_wpos ib' - ib_rpos ib')" using rp wp by (intro span_subset) simp_all
      then show ?thesis using ibuf_data_bytes [OF a(2)] ibuf_bytes [OF a(2)] by blast
    qed
    have o: "owns c' others (ibuf_slabs ib')" using a(2) by (simp add: ibuf_inv_def)
    have "slab_bytes (slabs_of c' (ibuf_slabs ib')) \<inter> slab_bytes others = {}"
    proof (cases "ib_buf ib' = NULL")
      case f: False
      then have xs: "ibuf_slabs ib' = [slab_from_data (ib_buf ib')]" by (simp add: ibuf_slabs_def)
      show ?thesis using owns_disjoint(1) [OF o, of "slab_from_data (ib_buf ib')"] by (simp add: xs slab_bytes_def)
    qed (simp add: ibuf_slabs_def slab_bytes_def)
    then have "y \<notin> span p (length bs)" if "y \<in> slab_bytes others" for y using sub that by blast
    then have "keeps c ?c (slab_bytes others)" using a(3) by (auto simp: keeps_def write_bytes_def)
    then show ?thesis using a(1) False i d by (auto simp: ibuf_push_def)
  qed
qed

interpretation ibq: byte_queue "ibuf_push os" "\<lambda>(c, ib). ibuf_data c ib" "\<lambda>(c, ib). os_ok os \<and> ibuf_inv c others ib"
  "\<lambda>(c, ib). ibuf_request_ok c ib" ibuf_pop for os others
proof unfold_locales
  fix s :: "slab_cache \<times> ibuf" and bs :: "byte list"
  assume "case s of (c, ib) \<Rightarrow> os_ok os \<and> ibuf_inv c others ib" "(case s of (c, ib) \<Rightarrow> ibuf_request_ok c ib) (length bs)"
  then show "\<exists>ok s'. ibuf_push os s bs = Some (ok, s') \<and> (case s' of (c, ib) \<Rightarrow> os_ok os \<and> ibuf_inv c others ib) \<and>
      (case s' of (c, ib) \<Rightarrow> ibuf_data c ib) = (case s of (c, ib) \<Rightarrow> ibuf_data c ib) @ (if ok then bs else [])"
    using ibuf_push_spec [of os "fst s" others "snd s" bs] by (cases s) fastforce
next
  fix s :: "slab_cache \<times> ibuf" and n
  assume a: "case s of (c, ib) \<Rightarrow> os_ok os \<and> ibuf_inv c others ib" "n \<le> length (case s of (c, ib) \<Rightarrow> ibuf_data c ib)"
  obtain c ib where s: "s = (c, ib)" by force
  obtain ib' where i: "ibuf_consume ib n = Some ib'" "ibuf_inv c others ib'" "ibuf_data c ib' = drop n (ibuf_data c ib)"
    using ibuf_consume_spec [of c others ib n] a s by auto
  have "read_bytes c (ib_rpos ib) n = take n (ibuf_data c ib)" using a(2) s by (simp add: ibuf_data_def take_read_bytes)
  then show "\<exists>s'. ibuf_pop s n = Some (take n (case s of (c, ib) \<Rightarrow> ibuf_data c ib), s') \<and>
      (case s' of (c, ib) \<Rightarrow> os_ok os \<and> ibuf_inv c others ib) \<and>
      (case s' of (c, ib) \<Rightarrow> ibuf_data c ib) = drop n (case s of (c, ib) \<Rightarrow> ibuf_data c ib)"
    using i a(1) s by (simp add: ibuf_pop_def)
qed

section \<open>Properties\<close>

definition example_ibuf :: ibuf where
  "example_ibuf = \<lparr>ib_buf = 65584, ib_rpos = 65600, ib_wpos = 66000, ib_end = 165584, start_capacity = 16320\<rparr>"

lemma example_ibuf_inv:
  obtains c where "ibuf_inv c {} example_ibuf" and "ibuf_request_ok c example_ibuf 1000" and "ibuf_request_ok c example_ibuf 0"
proof -
  obtain c where c: "cache_inv c {(65536, 100048)}" "ar_slab_size (sc_arena c) = 65536" "q_total (ar_quota (sc_arena c)) = 16384"
    by (rule example_slab)
  have "sl_size (hdr c 65536) = 100048" using cache_inv_slab(2) [OF c(1)] by simp
  then have "ibuf_inv c {} example_ibuf"
    using c(1) by (simp add: ibuf_inv_def example_ibuf_def owns_def ibuf_slabs_def slab_capacity_def slab_from_data_def slab_sizeof_48)
  moreover have "ibuf_request_ok c example_ibuf n" if "n \<le> 1000" for n
  proof -
    have "size_request_ok c m" if "m \<le> 300000" for m
    proof -
      have "q_units (m + slab_sizeof) \<le> 1000" using that by (simp add: q_units_def slab_sizeof_48)
      then show ?thesis using that c(2,3) by (simp add: size_request_ok_def quota_room_def slab_sizeof_48)
    qed
    then show ?thesis using that by (simp add: ibuf_request_ok_def example_ibuf_def ibuf_capacity_def)
  qed
  ultimately show thesis using that by simp
qed

text \<open>C19: the input buffer is a queue of bytes. Filling it by \<open>ibuf_alloc\<close>, whether that moves the data inside the
  buffer, into a larger slab, or not at all, and reading and consuming from the front returns
  first the bytes that were there and then the new ones, and no assertion fails.\<close>

theorem ibuf_fifo:
  assumes "os_ok os" and "ibuf_inv c others ib" and "ibuf_request_ok c ib (length bs)"
  shows "\<exists>ok s1 s2 s3. ibuf_push os (c, ib) bs = Some (ok, s1) \<and> ibuf_pop s1 (length (ibuf_data c ib)) = Some (ibuf_data c ib, s2) \<and>
    ibuf_pop s2 (if ok then length bs else 0) = Some (if ok then bs else [], s3) \<and> ibuf_data (fst s3) (snd s3) = []"
  using ibq.push_pop_fifo [of os others "(c, ib)" bs] assms unfolding split_beta fst_conv snd_conv by blast

theorem ibuf_fifo_witness:
  "\<exists>c ok s1 s2. ibuf_push bump_os (c, example_ibuf) (replicate 1000 7) = Some (ok, s1) \<and>
     ibuf_pop s1 (length (ibuf_data c example_ibuf)) = Some (ibuf_data c example_ibuf, s2)"
proof -
  obtain c where c: "ibuf_inv c {} example_ibuf" "ibuf_request_ok c example_ibuf 1000" by (rule example_ibuf_inv)
  then have "ibuf_request_ok c example_ibuf (length (replicate 1000 (7::byte)))" by simp
  from ibuf_fifo [OF bump_os_ok c(1) this] show ?thesis by blast
qed

text \<open>\<open>ibuf_reserve\<close> keeps the contents and the memory of the other users of the cache, and returns NULL or
  the write position with at least \<open>size\<close> bytes of room behind it.\<close>

theorem ibuf_reserve_correct:
  assumes "os_ok os" and "ibuf_inv c others ib" and "ibuf_request_ok c ib sz"
  shows "\<exists>p c' ib'. ibuf_reserve os c ib sz = Some (p, c', ib') \<and> ibuf_inv c' others ib' \<and> ibuf_data c' ib' = ibuf_data c ib \<and>
    (\<forall>x \<in> slab_bytes others. mem c' x = mem c x) \<and> (p \<noteq> NULL \<longrightarrow> p = ib_wpos ib' \<and> ib_wpos ib' + sz \<le> ib_end ib')"
  using ibuf_reserve_spec [OF assms] unfolding keeps_def by blast

theorem ibuf_reserve_correct_witness:
  "\<exists>c p c' ib'. ibuf_reserve bump_os c example_ibuf 1000 = Some (p, c', ib') \<and> ibuf_data c' ib' = ibuf_data c example_ibuf"
proof -
  obtain c where c: "ibuf_inv c {} example_ibuf" "ibuf_request_ok c example_ibuf 1000" by (rule example_ibuf_inv)
  from ibuf_reserve_correct [OF bump_os_ok this] show ?thesis by blast
qed

text \<open>\<open>ibuf_shrink\<close> keeps the contents, also when no smaller slab can be had.\<close>

theorem ibuf_shrink_correct:
  assumes "os_ok os" and "ibuf_inv c others ib" and "ibuf_request_ok c ib 0"
  shows "\<exists>c' ib'. ibuf_shrink os c ib = Some (c', ib') \<and> ibuf_inv c' others ib' \<and> ibuf_data c' ib' = ibuf_data c ib \<and>
    (\<forall>x \<in> slab_bytes others. mem c' x = mem c x)"
  using ibuf_shrink_spec [OF assms] unfolding keeps_def by blast

theorem ibuf_shrink_correct_witness:
  "\<exists>c c' ib'. ibuf_shrink bump_os c example_ibuf = Some (c', ib') \<and> ibuf_data c' ib' = ibuf_data c example_ibuf"
proof -
  obtain c where c: "ibuf_inv c {} example_ibuf" "ibuf_request_ok c example_ibuf 0" by (rule example_ibuf_inv)
  from ibuf_shrink_correct [OF bump_os_ok this] show ?thesis by blast
qed

text \<open>C40: The loop that doubles the capacity does not end for a buffer created with a start capacity of 0. The first
  reservation of such a buffer passes the assertions and gets to the loop, with the capacity \<open>v\<close>, and after
  any number \<open>k\<close> of iterations the capacity is still below the one needed, so that the loop goes on.\<close>

theorem ibuf_start_capacity_0:
  assumes "0 < sz" and "sz < 2 ^ 64"
  shows "\<exists>v need. \<not> ib_wpos (ibuf_create 0) + sz \<le> ib_end (ibuf_create 0) \<and> ibuf_reserve_enter (ibuf_create 0) sz = Some (0, Some (v, need)) \<and>
    (\<forall>k. (ibuf_double ^^ k) v < need) \<and> ibuf_grow v need = None \<and> ibuf_reserve os c (ibuf_create 0) sz = None"
proof -
  have e: "\<not> ib_wpos (ibuf_create 0) + sz \<le> ib_end (ibuf_create 0)" "ibuf_reserve_enter (ibuf_create 0) sz = Some (0, Some (0, sz))"
    using assms by (simp_all add: ibuf_reserve_enter_def ibuf_create_def ibuf_used_def ibuf_capacity_def Let_def)
  have k: "\<forall>k. (ibuf_double ^^ k) 0 < sz" using assms(1) by (simp add: ibuf_double_0)
  then have n: "ibuf_grow 0 sz = None" by (simp add: ibuf_grow_diverges)
  then have "ibuf_reserve os c (ibuf_create 0) sz = None" using e by (simp add: ibuf_reserve_def ibuf_reserve_slow_def)
  then show ?thesis using e k n by blast
qed

theorem ibuf_start_capacity_0_witness:
  "\<exists>v need. ibuf_reserve_enter (ibuf_create 0) 1 = Some (0, Some (v, need)) \<and> (\<forall>k. (ibuf_double ^^ k) v < need)"
  using ibuf_start_capacity_0 [of 1 bump_os undefined] by auto

end
