(* ===== verification/Obuf.thy ===== *)
theory Obuf
  imports Ibuf
begin

text \<open>
  \<open>small/obuf.c\<close> and \<open>include/small/obuf.h\<close>: an output buffer of up to 31 pieces for \<open>writev\<close>, each a
  slab of its own. The arrays \<open>iov\<close> and \<open>capacity\<close> are functions of the index; the invariant
  keeps every index in use below 32. The data passed to \<open>obuf_dup\<close> lies outside the buffer and
  is a list of bytes.
\<close>

section \<open>Data and operations\<close>

record obuf =
  ob_pos :: nat
  n_iov :: nat
  ob_used :: nat
  ob_start_capacity :: nat
  ob_capacity :: "nat \<Rightarrow> nat"
  iov_base :: "nat \<Rightarrow> addr"
  iov_len :: "nat \<Rightarrow> nat"
  ob_reserved :: bool

record obuf_svp =
  svp_pos :: nat
  svp_iov_len :: nat
  svp_used :: nat

definition SMALL_OBUF_IOV_MAX :: nat where
  "SMALL_OBUF_IOV_MAX = 31"

definition obuf_svp_reset :: obuf_svp where
  "obuf_svp_reset = \<lparr>svp_pos = 0, svp_iov_len = 0, svp_used = 0\<rparr>"

definition obuf_create :: "obuf \<Rightarrow> nat \<Rightarrow> obuf" where
  "obuf_create ob cap = ob\<lparr>n_iov := 0, ob_pos := 0, ob_used := 0, ob_start_capacity := cap,
     iov_base := (iov_base ob)(0 := NULL), iov_len := (iov_len ob)(0 := 0), ob_capacity := (ob_capacity ob)(0 := 0), ob_reserved := False\<rparr>"

definition obuf_size :: "obuf \<Rightarrow> nat" where
  "obuf_size ob = ob_used ob"

definition obuf_iovcnt :: "obuf \<Rightarrow> nat" where
  "obuf_iovcnt ob = (if iov_len ob (ob_pos ob) > 0 then ob_pos ob + 1 else ob_pos ob)"

partial_function (option) obuf_grow :: "nat \<Rightarrow> nat \<Rightarrow> nat \<Rightarrow> nat option" where
  "obuf_grow start capacity sz =
     (if capacity < sz then obuf_grow start (if capacity = 0 then start else capacity * 2 mod 2 ^ 64) sz else Some capacity)"

definition obuf_alloc_pos :: "os \<Rightarrow> slab_cache \<Rightarrow> obuf \<Rightarrow> nat \<Rightarrow> (addr \<times> slab_cache \<times> obuf) option" where
  "obuf_alloc_pos os c ob sz = do {
     let pos = ob_pos ob;
     c_assert (ob_capacity ob pos = 0 \<and> iov_len ob pos = 0);
     c_assert (pos < SMALL_OBUF_IOV_MAX);
     c_assert (n_iov ob = pos);
     let ob = ob\<lparr>iov_base := (iov_base ob)(pos + 1 := iov_base ob pos), iov_len := (iov_len ob)(pos + 1 := iov_len ob pos)\<rparr>;
     let ob = ob\<lparr>ob_capacity := (ob_capacity ob)(pos + 1 := ob_capacity ob pos)\<rparr>;
     capacity \<leftarrow> obuf_grow (ob_start_capacity ob) (push_bit pos (ob_start_capacity ob) mod 2 ^ 64) sz;
     (s, c) \<leftarrow> slab_get os c capacity;
     if s = NULL then Some (NULL, c, ob)
     else do {
       let ob = ob\<lparr>iov_base := (iov_base ob)(pos := slab_data s), ob_capacity := (ob_capacity ob)(pos := slab_capacity c s)\<rparr>;
       Some (slab_data s, c, ob\<lparr>n_iov := n_iov ob + 1\<rparr>) } }"

definition obuf_reset :: "obuf \<Rightarrow> obuf" where
  "obuf_reset ob = ob\<lparr>iov_len := (\<lambda>i. if i < obuf_iovcnt ob then 0 else iov_len ob i), ob_pos := 0, ob_used := 0, ob_reserved := False\<rparr>"

definition obuf_destroy :: "slab_cache \<Rightarrow> obuf \<Rightarrow> slab_cache option" where
  "obuf_destroy c ob = slab_put_all c (map (\<lambda>i. slab_from_data (iov_base ob i)) [0 ..< n_iov ob])"

text \<open>
  The loop of \<open>obuf_dup\<close>: \<open>data\<close> is what is still to be copied. The flag of the result says
  whether the loop was left for the final copy, or by a \<open>return\<close> in it.
\<close>

function obuf_dup_loop :: "os \<Rightarrow> slab_cache \<Rightarrow> obuf \<Rightarrow> byte list \<Rightarrow> (bool \<times> byte list \<times> slab_cache \<times> obuf) option" where
  "obuf_dup_loop os c ob data =
     (let pos = ob_pos ob; capacity = ob_capacity ob pos; len = iov_len ob pos; to_copy = length data in
      if (len + to_copy) mod 2 ^ 64 > capacity then
        if len < capacity then
          (let fill = capacity - len;
               c' = write_bytes c (iov_base ob pos + len) (take fill data);
               ob' = ob\<lparr>iov_len := (iov_len ob)(pos := len + fill), ob_used := ob_used ob + fill\<rparr>
           in if \<not> fill < to_copy then None
              else if pos + 1 \<ge> SMALL_OBUF_IOV_MAX then Some (False, drop fill data, c', ob')
              else obuf_dup_loop os c' (ob'\<lparr>ob_pos := pos + 1\<rparr>) (drop fill data))
        else if capacity = 0 then
          (case obuf_alloc_pos os c ob to_copy of None \<Rightarrow> None
           | Some (p, c', ob') \<Rightarrow> Some (p \<noteq> NULL, data, c', ob'))
        else if capacity \<noteq> len then None
        else if pos + 1 \<ge> SMALL_OBUF_IOV_MAX then Some (False, data, c, ob)
        else obuf_dup_loop os c (ob\<lparr>ob_pos := pos + 1\<rparr>) data
      else Some (True, data, c, ob))"
  by pat_completeness auto
termination
  by (relation "measure (\<lambda>(os, c, ob, data). SMALL_OBUF_IOV_MAX - ob_pos ob)") (auto simp: Let_def)

declare obuf_dup_loop.simps [simp del]

definition obuf_dup :: "os \<Rightarrow> slab_cache \<Rightarrow> obuf \<Rightarrow> byte list \<Rightarrow> (nat \<times> slab_cache \<times> obuf) option" where
  "obuf_dup os c ob data = do {
     (fits, rest, c, ob) \<leftarrow> obuf_dup_loop os c ob data;
     if \<not> fits then Some (length data - length rest, c, ob)
     else do {
       let pos = ob_pos ob;
       let c = write_bytes c (iov_base ob pos + iov_len ob pos) rest;
       let ob = ob\<lparr>iov_len := (iov_len ob)(pos := iov_len ob pos + length rest), ob_used := ob_used ob + length rest\<rparr>;
       c_assert (iov_len ob pos \<le> ob_capacity ob pos);
       Some (length data, c, ob) } }"

definition obuf_reserve_slow :: "os \<Rightarrow> slab_cache \<Rightarrow> obuf \<Rightarrow> nat \<Rightarrow> (addr \<times> slab_cache \<times> obuf) option" where
  "obuf_reserve_slow os c ob sz =
     (if iov_len ob (ob_pos ob) > 0 \<and> ob_pos ob + 1 \<ge> SMALL_OBUF_IOV_MAX then Some (NULL, c, ob)
      else do {
        let ob = (if iov_len ob (ob_pos ob) > 0 then ob\<lparr>ob_pos := ob_pos ob + 1\<rparr> else ob);
        let pos = ob_pos ob;
        let capacity = ob_capacity ob pos;
        c_assert (iov_len ob pos = 0);
        (r, c, ob) \<leftarrow>
          (if sz > capacity then
             if capacity > 0 then do {
               capacity \<leftarrow> ibuf_grow capacity sz;
               (s, c) \<leftarrow> slab_get os c capacity;
               if s = NULL then Some (False, c, ob)
               else do {
                 c \<leftarrow> slab_put c (slab_from_data (iov_base ob pos));
                 Some (True, c, ob\<lparr>iov_base := (iov_base ob)(pos := slab_data s), ob_capacity := (ob_capacity ob)(pos := slab_capacity c s)\<rparr>) } }
             else do {
               (p, c, ob) \<leftarrow> obuf_alloc_pos os c ob sz;
               Some (p \<noteq> NULL, c, ob) }
           else Some (True, c, ob));
        if \<not> r then Some (NULL, c, ob)
        else do {
          c_assert ((iov_len ob (ob_pos ob) + sz) mod 2 ^ 64 \<le> ob_capacity ob (ob_pos ob));
          Some (iov_base ob (ob_pos ob) + iov_len ob (ob_pos ob), c, ob) } })"

definition obuf_reserve :: "os \<Rightarrow> slab_cache \<Rightarrow> obuf \<Rightarrow> nat \<Rightarrow> (addr \<times> slab_cache \<times> obuf) option" where
  "obuf_reserve os c ob sz = do {
     c_assert (\<not> ob_reserved ob);
     (ptr, c, ob) \<leftarrow>
       (if (iov_len ob (ob_pos ob) + sz) mod 2 ^ 64 > ob_capacity ob (ob_pos ob) then obuf_reserve_slow os c ob sz
        else Some (iov_base ob (ob_pos ob) + iov_len ob (ob_pos ob), c, ob));
     Some (ptr, c, if ptr \<noteq> NULL then ob\<lparr>ob_reserved := True\<rparr> else ob) }"

definition obuf_alloc :: "os \<Rightarrow> slab_cache \<Rightarrow> obuf \<Rightarrow> nat \<Rightarrow> (addr \<times> slab_cache \<times> obuf) option" where
  "obuf_alloc os c ob sz = do {
     (r, ptr, c, ob) \<leftarrow>
       (if (iov_len ob (ob_pos ob) + sz) mod 2 ^ 64 \<le> ob_capacity ob (ob_pos ob)
        then Some (True, iov_base ob (ob_pos ob) + iov_len ob (ob_pos ob), c, ob)
        else do {
          (ptr, c, ob) \<leftarrow> obuf_reserve_slow os c ob sz;
          if ptr = NULL then Some (False, NULL, c, ob)
          else do {
            c_assert (iov_len ob (ob_pos ob) \<le> ob_capacity ob (ob_pos ob));
            Some (True, ptr, c, ob) } });
     if \<not> r then Some (NULL, c, ob)
     else Some (ptr, c, ob\<lparr>ob_reserved := False, iov_len := (iov_len ob)(ob_pos ob := iov_len ob (ob_pos ob) + sz),
            ob_used := ob_used ob + sz\<rparr>) }"

definition obuf_create_svp :: "obuf \<Rightarrow> obuf_svp" where
  "obuf_create_svp ob = \<lparr>svp_pos = ob_pos ob, svp_iov_len = iov_len ob (ob_pos ob), svp_used = ob_used ob\<rparr>"

definition obuf_rollback_to_svp :: "obuf \<Rightarrow> obuf_svp \<Rightarrow> obuf option" where
  "obuf_rollback_to_svp ob svp = do {
     c_assert (svp_pos svp \<le> ob_pos ob);
     let iovcnt = obuf_iovcnt ob;
     let ob = ob\<lparr>ob_pos := svp_pos svp\<rparr>;
     let ob = ob\<lparr>iov_len := (iov_len ob)(ob_pos ob := svp_iov_len svp), ob_used := svp_used svp\<rparr>;
     let ob = ob\<lparr>iov_len := (\<lambda>i. if ob_pos ob + 1 \<le> i \<and> i < iovcnt then 0 else iov_len ob i)\<rparr>;
     Some (ob\<lparr>ob_reserved := False\<rparr>) }"

definition obuf_svp_to_ptr :: "obuf \<Rightarrow> obuf_svp \<Rightarrow> addr" where
  "obuf_svp_to_ptr ob svp = iov_base ob (svp_pos svp) + svp_iov_len svp"

definition obuf_reserve_cb :: "os \<Rightarrow> slab_cache \<Rightarrow> obuf \<Rightarrow> nat \<Rightarrow> (addr \<times> nat \<times> slab_cache \<times> obuf) option" where
  "obuf_reserve_cb os c ob sz = do {
     (ptr, c, ob) \<leftarrow> obuf_reserve os c ob sz;
     Some (ptr, ob_capacity ob (ob_pos ob) - iov_len ob (ob_pos ob), c, ob) }"

definition obuf_alloc_cb :: "os \<Rightarrow> slab_cache \<Rightarrow> obuf \<Rightarrow> nat \<Rightarrow> (addr \<times> slab_cache \<times> obuf) option" where
  "obuf_alloc_cb os c ob sz = obuf_alloc os c ob sz"

section \<open>Contents and invariant\<close>

lemma keeps_mono: "keeps c c' X \<Longrightarrow> Y \<subseteq> X \<Longrightarrow> keeps c c' Y"
  by (auto simp: keeps_def)

definition obuf_piece :: "slab_cache \<Rightarrow> obuf \<Rightarrow> nat \<Rightarrow> byte list" where
  "obuf_piece c ob i = read_bytes c (iov_base ob i) (iov_len ob i)"

definition obuf_data :: "slab_cache \<Rightarrow> obuf \<Rightarrow> byte list" where
  "obuf_data c ob = concat (map (obuf_piece c ob) [0 ..< Suc (ob_pos ob)])"

definition obuf_slabs :: "obuf \<Rightarrow> addr list" where
  "obuf_slabs ob = map (\<lambda>i. slab_from_data (iov_base ob i)) [0 ..< n_iov ob]"

definition obuf_inv :: "slab_cache \<Rightarrow> (addr \<times> nat) set \<Rightarrow> obuf \<Rightarrow> bool" where
  "obuf_inv c others ob \<longleftrightarrow> owns c others (obuf_slabs ob) \<and> n_iov ob \<le> SMALL_OBUF_IOV_MAX \<and>
     ob_pos ob \<le> n_iov ob \<and> ob_pos ob < SMALL_OBUF_IOV_MAX \<and>
     (\<forall>i < n_iov ob. 0 < ob_capacity ob i \<and> ob_capacity ob i < 2 ^ 63 \<and> slab_sizeof \<le> iov_base ob i \<and>
        slab_capacity c (slab_from_data (iov_base ob i)) = ob_capacity ob i \<and> iov_len ob i \<le> ob_capacity ob i) \<and>
     ob_capacity ob (n_iov ob) = 0 \<and> iov_len ob (n_iov ob) = 0 \<and> iov_base ob (n_iov ob) = NULL \<and>
     (\<forall>i < n_iov ob. ob_pos ob < i \<longrightarrow> iov_len ob i = 0) \<and> (\<forall>i < ob_pos ob. 0 < iov_len ob i) \<and>
     ob_used ob = (\<Sum>i < ob_pos ob. iov_len ob i) + iov_len ob (ob_pos ob)"

definition obuf_request_ok :: "slab_cache \<Rightarrow> obuf \<Rightarrow> nat \<Rightarrow> bool" where
  "obuf_request_ok c ob sz \<longleftrightarrow> 0 < ob_start_capacity ob \<and> ob_start_capacity ob * 2 ^ n_iov ob + 2 * sz \<le> 2 ^ 62 \<and>
     (\<forall>n \<le> ob_start_capacity ob * 2 ^ n_iov ob + 2 * sz. size_request_ok c n)"

lemma sum_below_upd [simp]: "(\<Sum>i < p. if i = p then v else f i) = (\<Sum>i < p. f i)" for f :: "nat \<Rightarrow> nat"
  by (intro sum.cong) auto

lemma obuf_piece_pos [simp]: "obuf_piece c (ob\<lparr>ob_pos := k\<rparr>) = obuf_piece c ob"
  by (simp add: fun_eq_iff obuf_piece_def)

lemma obuf_data_upd:
  assumes "\<And>i. i < ob_pos ob \<Longrightarrow> obuf_piece c' ob' i = obuf_piece c ob i" and "ob_pos ob' = ob_pos ob"
    and "obuf_piece c' ob' (ob_pos ob) = obuf_piece c ob (ob_pos ob) @ bs"
  shows "obuf_data c' ob' = obuf_data c ob @ bs"
proof -
  have "map (obuf_piece c' ob') [0 ..< ob_pos ob] = map (obuf_piece c ob) [0 ..< ob_pos ob]" using assms(1) by simp
  then have "concat (map (obuf_piece c' ob') [0 ..< ob_pos ob]) = concat (map (obuf_piece c ob) [0 ..< ob_pos ob])" by (rule arg_cong)
  then show ?thesis using assms(2,3) by (simp add: obuf_data_def)
qed

lemma obuf_used_length: "obuf_inv c others ob \<Longrightarrow> length (obuf_data c ob) = ob_used ob"
proof -
  have "length (concat (map (obuf_piece c ob) [0 ..< n])) = (\<Sum>i < n. iov_len ob i)" for n
    by (induction n) (simp_all add: obuf_piece_def)
  then show "obuf_inv c others ob \<Longrightarrow> length (obuf_data c ob) = ob_used ob"
    by (simp add: obuf_inv_def obuf_data_def obuf_piece_def)
qed

lemma obuf_slab:
  assumes "obuf_inv c others ob" and "i < n_iov ob"
  defines "s \<equiv> slab_from_data (iov_base ob i)"
  shows "s \<in> set (obuf_slabs ob)" and "span (iov_base ob i) (ob_capacity ob i) \<subseteq> span s (sl_size (hdr c s))"
proof -
  show m: "s \<in> set (obuf_slabs ob)" using assms(2) by (simp add: obuf_slabs_def s_def)
  have b: "slab_sizeof \<le> iov_base ob i" "slab_capacity c s = ob_capacity ob i" using assms by (auto simp: obuf_inv_def)
  have "owns c others (obuf_slabs ob)" using assms(1) by (simp add: obuf_inv_def)
  then have "slab_sizeof \<le> sl_size (hdr c s)" using m by (rule owns_slab(3))
  then show "span (iov_base ob i) (ob_capacity ob i) \<subseteq> span s (sl_size (hdr c s))"
    using b by (intro span_subset) (simp_all add: s_def slab_from_data_def slab_capacity_def)
qed

lemma obuf_pieces_disjoint:
  assumes "obuf_inv c others ob" and "i < n_iov ob"
  shows "span (iov_base ob i) (ob_capacity ob i) \<inter> slab_bytes others = {}"
    and "j < n_iov ob \<Longrightarrow> i \<noteq> j \<Longrightarrow> span (iov_base ob i) (ob_capacity ob i) \<inter> span (iov_base ob j) (ob_capacity ob j) = {}"
proof -
  have o: "owns c others (obuf_slabs ob)" using assms(1) by (simp add: obuf_inv_def)
  note s = obuf_slab [OF assms]
  show "span (iov_base ob i) (ob_capacity ob i) \<inter> slab_bytes others = {}" using owns_disjoint(1) [OF o s(1)] s(2) by blast
  show "span (iov_base ob i) (ob_capacity ob i) \<inter> span (iov_base ob j) (ob_capacity ob j) = {}" if j: "j < n_iov ob" "i \<noteq> j"
  proof -
    note t = obuf_slab [OF assms(1) j(1)]
    have "distinct (obuf_slabs ob)" using o by (simp add: owns_def)
    then have "inj_on (\<lambda>i. slab_from_data (iov_base ob i)) {0 ..< n_iov ob}" by (simp add: obuf_slabs_def distinct_map)
    from inj_onD [OF this, of i j] have "slab_from_data (iov_base ob i) \<noteq> slab_from_data (iov_base ob j)" using assms(2) j by force
    then show ?thesis using owns_disjoint(2) [OF o s(1) t(1)] s(2) t(2) by blast
  qed
qed

section \<open>The steps of the operations\<close>

lemma obuf_grow_stops:
  assumes "0 < v" and "need \<le> 2 ^ 63"
  obtains w where "obuf_grow start v need = Some w" and "v \<le> w" and "need \<le> w" and "w = v \<or> w < 2 * need"
  using assms
proof (induction "need - v" arbitrary: v thesis rule: less_induct)
  case less
  show ?case
  proof (cases "v < need")
    case True
    then have v: "v * 2 < 2 ^ 64" using less.prems(3) by simp
    have "need - v * 2 < need - v" using True less.prems(2) by linarith
    then obtain w where w: "obuf_grow start (v * 2) need = Some w" "v * 2 \<le> w" "need \<le> w" "w = v * 2 \<or> w < 2 * need"
      using less.hyps [of "v * 2"] less.prems(2,3) by auto
    have "obuf_grow start v need = Some w" using True v w(1) less.prems(2) by (subst obuf_grow.simps) simp
    then show ?thesis using less.prems(1) [of w] w True by auto
  next
    case False
    then have "obuf_grow start v need = Some v" by (simp add: obuf_grow.simps)
    then show ?thesis using less.prems(1) [of v] False by simp
  qed
qed

text \<open>Writing into the current piece.\<close>

lemma obuf_append:
  assumes inv: "obuf_inv c others ob" and fit: "iov_len ob (ob_pos ob) + length bs \<le> ob_capacity ob (ob_pos ob)"
  defines "c' \<equiv> write_bytes c (iov_base ob (ob_pos ob) + iov_len ob (ob_pos ob)) bs"
    and "ob' \<equiv> ob\<lparr>iov_len := (iov_len ob)(ob_pos ob := iov_len ob (ob_pos ob) + length bs), ob_used := ob_used ob + length bs\<rparr>"
  shows "obuf_inv c' others ob'" and "obuf_data c' ob' = obuf_data c ob @ bs" and "keeps c c' (slab_bytes others)"
proof -
  let ?p = "ob_pos ob" and ?w = "iov_base ob (ob_pos ob) + iov_len ob (ob_pos ob)"
  have ow: "owns c' others (obuf_slabs ob') = owns c others (obuf_slabs ob)" "\<And>s. slab_capacity c' s = slab_capacity c s"
    by (simp_all add: c'_def write_bytes_def obuf_slabs_def ob'_def slab_capacity_def)
  have z: "bs = []" if "\<not> ?p < n_iov ob" using inv fit that by (auto simp: obuf_inv_def)
  show "obuf_inv c' others ob'"
    unfolding obuf_inv_def ow using inv fit z by (auto simp: obuf_inv_def ob'_def)
  have keep: "x \<notin> span ?w (length bs)" if "i \<noteq> ?p" "i < n_iov ob" "x \<in> span (iov_base ob i) (ob_capacity ob i)" for i x
  proof (cases "?p < n_iov ob")
    case True
    have "span ?w (length bs) \<subseteq> span (iov_base ob ?p) (ob_capacity ob ?p)" using fit by (intro span_subset) simp_all
    then show ?thesis using obuf_pieces_disjoint(2) [OF inv True, of i] that by blast
  qed (simp add: z)
  have old: "obuf_piece c' ob' i = obuf_piece c ob i" if "i < ?p" for i
  proof -
    have "iov_len ob i \<le> ob_capacity ob i" "i < n_iov ob" using inv that by (auto simp: obuf_inv_def)
    then have "mem c' x = mem c x" if "x \<in> span (iov_base ob i) (iov_len ob i)" for x
      using keep [of i x] \<open>i < ?p\<close> that by (auto simp: c'_def write_bytes_def)
    then show ?thesis using that by (auto simp: obuf_piece_def ob'_def intro!: read_bytes_cong simp del: in_span)
  qed
  have "obuf_piece c' ob' ?p = obuf_piece c ob ?p @ bs"
  proof -
    have "read_bytes c' (iov_base ob ?p) (iov_len ob ?p) = read_bytes c (iov_base ob ?p) (iov_len ob ?p)"
      by (intro read_bytes_cong) (auto simp: c'_def write_bytes_def)
    moreover have "read_bytes c' ?w (length bs) = bs" by (simp add: c'_def)
    ultimately show ?thesis by (simp add: obuf_piece_def ob'_def read_bytes_add)
  qed
  then show "obuf_data c' ob' = obuf_data c ob @ bs"
    using obuf_data_upd [of ob c' ob' c bs, OF old] by (simp add: ob'_def)
  have "x \<notin> span ?w (length bs)" if "x \<in> slab_bytes others" for x
  proof (cases "?p < n_iov ob")
    case True
    have "span ?w (length bs) \<subseteq> span (iov_base ob ?p) (ob_capacity ob ?p)" using fit by (intro span_subset) simp_all
    then show ?thesis using obuf_pieces_disjoint(1) [OF inv True] that by blast
  qed (simp add: z)
  then show "keeps c c' (slab_bytes others)" by (auto simp: keeps_def c'_def write_bytes_def)
qed

text \<open>Moving on to the next piece.\<close>

lemma obuf_next:
  assumes inv: "obuf_inv c others ob" and len: "0 < iov_len ob (ob_pos ob)" and room: "ob_pos ob + 1 < SMALL_OBUF_IOV_MAX"
  defines "ob' \<equiv> ob\<lparr>ob_pos := ob_pos ob + 1\<rparr>"
  shows "obuf_inv c others ob'" and "obuf_data c ob' = obuf_data c ob" and "iov_len ob' (ob_pos ob') = 0"
proof -
  have p: "ob_pos ob < n_iov ob" using inv len by (cases "ob_pos ob = n_iov ob") (auto simp: obuf_inv_def)
  have z: "iov_len ob (Suc (ob_pos ob)) = 0" using inv p by (cases "Suc (ob_pos ob) = n_iov ob") (auto simp: obuf_inv_def)
  show "iov_len ob' (ob_pos ob') = 0" using z by (simp add: ob'_def)
  have sl: "obuf_slabs ob' = obuf_slabs ob" by (simp add: obuf_slabs_def ob'_def)
  show "obuf_inv c others ob'" unfolding obuf_inv_def sl using inv p len room z
    by (auto simp: obuf_inv_def ob'_def less_Suc_eq)
  show "obuf_data c ob' = obuf_data c ob" using z by (simp add: obuf_data_def ob'_def obuf_piece_def)
qed

text \<open>Allocating the next piece.\<close>

lemma obuf_alloc_pos_spec:
  assumes os: "os_ok os" and inv: "obuf_inv c others ob" and rq: "obuf_request_ok c ob sz" and cap: "ob_capacity ob (ob_pos ob) = 0"
  obtains (fail) c' ob' where "obuf_alloc_pos os c ob sz = Some (NULL, c', ob')" and "obuf_inv c' others ob'"
      and "obuf_data c' ob' = obuf_data c ob" and "keeps c c' (slab_bytes others)" and "ob_reserved ob' = ob_reserved ob" 
  | (ok) p c' ob' where "obuf_alloc_pos os c ob sz = Some (p, c', ob')" and "p \<noteq> NULL" and "obuf_inv c' others ob'"
      and "obuf_data c' ob' = obuf_data c ob" and "keeps c c' (slab_bytes others)"
      and "iov_base ob' (ob_pos ob') = p" and "iov_len ob' (ob_pos ob') = 0" and "sz \<le> ob_capacity ob' (ob_pos ob')"
      and "ob_pos ob' = ob_pos ob"
proof -
  let ?p = "ob_pos ob" and ?st = "ob_start_capacity ob"
  have bnd: "?p < SMALL_OBUF_IOV_MAX" "?p \<le> n_iov ob" using inv by (simp_all add: obuf_inv_def)
  have n: "n_iov ob = ?p" using inv cap bnd(2) by (cases "?p < n_iov ob") (auto simp: obuf_inv_def)
  have z: "iov_len ob ?p = 0" "iov_base ob ?p = NULL" using inv n by (auto simp: obuf_inv_def)
  define v where "v = ?st * 2 ^ ?p"
  have lim: "0 < v" "v + 2 * sz \<le> 2 ^ 62" using rq n by (simp_all add: obuf_request_ok_def v_def)
  have pb: "push_bit ?p ?st mod 2 ^ 64 = v" using lim(2) by (simp add: push_bit_eq_mult v_def mult.commute)
  obtain w where w: "obuf_grow ?st v sz = Some w" "v \<le> w" "sz \<le> w" "w = v \<or> w < 2 * sz"
    using obuf_grow_stops [OF lim(1), of sz] lim(2) by auto
  have wb: "w \<le> v + 2 * sz" using w(4) by auto
  then have sr: "size_request_ok c w" using rq n by (simp add: obuf_request_ok_def v_def)
  have o: "owns c others (obuf_slabs ob)" using inv by (simp add: obuf_inv_def)
  define ob1 where "ob1 = ob\<lparr>iov_base := (iov_base ob)(?p + 1 := NULL), iov_len := (iov_len ob)(?p + 1 := 0), ob_capacity := (ob_capacity ob)(?p + 1 := 0)\<rparr>"
  have sl1: "obuf_slabs ob1 = obuf_slabs ob" using n by (auto simp: obuf_slabs_def ob1_def)
  have pc: "obuf_piece c' ob' i = obuf_piece c ob i"
    if "keeps c c' (slab_bytes (others \<union> slabs_of c (obuf_slabs ob)))" "i < ?p" "iov_base ob' i = iov_base ob i" "iov_len ob' i = iov_len ob i" for c' ob' i
  proof -
    have i: "i < n_iov ob" "iov_len ob i \<le> ob_capacity ob i" using inv that(2) n by (auto simp: obuf_inv_def)
    note s = obuf_slab [OF inv i(1)]
    have "span (iov_base ob i) (iov_len ob i) \<subseteq> slab_bytes (others \<union> slabs_of c (obuf_slabs ob))"
    proof -
      have "span (iov_base ob i) (iov_len ob i) \<subseteq> span (iov_base ob i) (ob_capacity ob i)" using i(2) by (intro span_subset) simp_all
      then show ?thesis using s(2) span_slab_bytes [OF owns_slab(5) [OF o s(1)]] by blast
    qed
    then show ?thesis using that(1,3,4) by (auto simp: obuf_piece_def keeps_def intro!: read_bytes_cong simp del: in_span)
  qed
  have sub: "slab_bytes others \<subseteq> slab_bytes (others \<union> slabs_of c (obuf_slabs ob))" by (rule slab_bytes_mono) simp
  show thesis
  proof (rule owns_get [OF os o sr])
    fix c' assume g: "slab_get os c w = Some (NULL, c')" "owns c' others (obuf_slabs ob)"
      "slabs_of c' (obuf_slabs ob) = slabs_of c (obuf_slabs ob)" "keeps c c' (slab_bytes (others \<union> slabs_of c (obuf_slabs ob)))"
    have sz: "slab_capacity c' (slab_from_data (iov_base ob i)) = slab_capacity c (slab_from_data (iov_base ob i))" if "i < n_iov ob" for i
      using slabs_of_eq_size [OF g(3) obuf_slab(1) [OF inv that]] by (simp add: slab_capacity_def)
    have "obuf_inv c' others ob1"
      unfolding obuf_inv_def sl1 using inv g(2) n sz by (auto simp: obuf_inv_def ob1_def)
    moreover have "obuf_data c' ob1 = obuf_data c ob"
      using obuf_data_upd [of ob c' ob1 c "[]"] pc [OF g(4)] z by (simp add: ob1_def obuf_piece_def)
    moreover have "keeps c c' (slab_bytes others)" using g(4) sub by (auto simp: keeps_def)
    moreover have "obuf_alloc_pos os c ob sz = Some (NULL, c', ob1)"
      using cap z n bnd(1) pb w(1) g(1) by (simp add: obuf_alloc_pos_def ob1_def Let_def)
    ultimately show thesis using fail by (simp add: ob1_def)
  next
    fix x c' assume g: "slab_get os c w = Some (x, c')" "owns c' others (x # obuf_slabs ob)"
      "slabs_of c' (obuf_slabs ob) = slabs_of c (obuf_slabs ob)" "keeps c c' (slab_bytes (others \<union> slabs_of c (obuf_slabs ob)))"
      "w + slab_sizeof \<le> sl_size (hdr c' x)" "slab_real_size c w = Some (sl_size (hdr c' x))" "x \<noteq> NULL" "x \<notin> set (obuf_slabs ob)"
    define ob2 where "ob2 = ob1\<lparr>iov_base := (iov_base ob1)(?p := slab_data x), ob_capacity := (ob_capacity ob1)(?p := slab_capacity c' x), n_iov := n_iov ob1 + 1\<rparr>"
    have sz: "slab_capacity c' (slab_from_data (iov_base ob i)) = slab_capacity c (slab_from_data (iov_base ob i))" if "i < n_iov ob" for i
      using slabs_of_eq_size [OF g(3) obuf_slab(1) [OF inv that]] by (simp add: slab_capacity_def)
    have sl2: "obuf_slabs ob2 = obuf_slabs ob @ [x]"
      using n by (auto simp: obuf_slabs_def ob2_def ob1_def slab_from_data_def slab_data_def)
    have ow: "owns c' others (obuf_slabs ob @ [x])"
      by (rule owns_perm [OF _ _ g(2)]) (use g(2) in \<open>auto simp: owns_def\<close>)
    have wlt: "w + slab_sizeof < 2 ^ 63" using wb lim(2) by (simp add: slab_sizeof_48)
    have "sl_size (hdr c' x) < 2 ^ 63"
    proof -
      have "cache_inv c (others \<union> slabs_of c (obuf_slabs ob))" using o by (simp add: owns_def)
      from real_size_cases [OF this g(6)] wlt show ?thesis by auto
    qed
    then have capx: "w \<le> slab_capacity c' x" "slab_capacity c' x < 2 ^ 63" using g(5) by (simp_all add: slab_capacity_def)
    have w0: "0 < w" using lim(1) w(2) by simp
    have "obuf_inv c' others ob2"
      unfolding obuf_inv_def sl2 using inv ow n sz capx w0 bnd z
      by (auto simp: obuf_inv_def ob2_def ob1_def less_Suc_eq slab_data_def slab_from_data_def)
    moreover have "obuf_data c' ob2 = obuf_data c ob"
      using obuf_data_upd [of ob c' ob2 c "[]"] pc [OF g(4)] z by (simp add: ob1_def ob2_def obuf_piece_def)
    moreover have "keeps c c' (slab_bytes others)" using g(4) sub by (auto simp: keeps_def)
    moreover have "obuf_alloc_pos os c ob sz = Some (slab_data x, c', ob2)"
      using cap z n bnd(1) pb w(1) g(1,7) by (simp add: obuf_alloc_pos_def ob2_def ob1_def Let_def)
    moreover have "sz \<le> ob_capacity ob2 ?p" using capx(1) w(3) by (simp add: ob2_def)
    ultimately show thesis
      using ok [of "slab_data x" c' ob2] z by (simp add: ob2_def ob1_def slab_data_def slab_sizeof_48)
  qed
qed

section \<open>Copying data in\<close>

lemma obuf_request_mono:
  assumes "obuf_request_ok c ob n" and "m \<le> n" and "same_cache c c'" and "n_iov ob' = n_iov ob" and "ob_start_capacity ob' = ob_start_capacity ob"
  shows "obuf_request_ok c' ob' m"
  unfolding obuf_request_ok_def
proof (intro conjI allI impI)
  show "0 < ob_start_capacity ob'" "ob_start_capacity ob' * 2 ^ n_iov ob' + 2 * m \<le> 2 ^ 62"
    using assms by (simp_all add: obuf_request_ok_def)
  fix k assume "k \<le> ob_start_capacity ob' * 2 ^ n_iov ob' + 2 * m"
  then have "k \<le> ob_start_capacity ob * 2 ^ n_iov ob + 2 * n" using assms(2,4,5) by simp
  then have "size_request_ok c k" using assms(1) unfolding obuf_request_ok_def by blast
  then show "size_request_ok c' k" using same_cache_size_request [OF assms(3)] by simp
qed

text \<open>
  The loop ends, fills the pieces in order, and leaves with enough room for the rest, or
  because memory or the 31 pieces ran out.
\<close>

lemma obuf_dup_loop_spec:
  assumes "os_ok os" and "obuf_inv c others ob" and "obuf_request_ok c ob (length data)"
  shows "\<exists>fits rest c' ob' done. obuf_dup_loop os c ob data = Some (fits, rest, c', ob') \<and> data = done @ rest \<and>
    obuf_inv c' others ob' \<and> obuf_data c' ob' = obuf_data c ob @ done \<and> keeps c c' (slab_bytes others) \<and>
    (fits \<longrightarrow> iov_len ob' (ob_pos ob') + length rest \<le> ob_capacity ob' (ob_pos ob'))"
  using assms(2,3)
proof (induction "SMALL_OBUF_IOV_MAX - ob_pos ob" arbitrary: c ob data rule: less_induct)
  case less
  note inv = less.prems(1) and rq = less.prems(2)
  let ?p = "ob_pos ob" and ?cap = "ob_capacity ob (ob_pos ob)" and ?len = "iov_len ob (ob_pos ob)"
  have le: "?len \<le> ?cap" using inv by (cases "?p = n_iov ob") (auto simp: obuf_inv_def)
  have lt: "?cap < 2 ^ 63" using inv by (cases "?p = n_iov ob") (auto simp: obuf_inv_def)
  have dl: "length data \<le> 2 ^ 62" using rq by (simp add: obuf_request_ok_def)
  have m: "(?len + length data) mod 2 ^ 64 = ?len + length data" using le lt dl by simp
  have pm: "?p < SMALL_OBUF_IOV_MAX" using inv by (simp add: obuf_inv_def)
  note unf = obuf_dup_loop.simps [of os c ob data, unfolded Let_def m]
  show ?case
  proof (cases "?len + length data > ?cap")
    case False
    then show ?thesis using inv unf keeps_refl by auto
  next
    case big: True
    show ?thesis
    proof (cases "?len < ?cap")
      case True
      let ?f = "?cap - ?len"
      define c1 where "c1 = write_bytes c (iov_base ob ?p + ?len) (take ?f data)"
      define ob1 where "ob1 = ob\<lparr>iov_len := (iov_len ob)(?p := ?len + ?f), ob_used := ob_used ob + ?f\<rparr>"
      have f: "?f < length data" "length (take ?f data) = ?f" using big True by simp_all
      have "?len + length (take ?f data) \<le> ?cap" using f(2) True by simp
      from obuf_append [OF inv this] have ap: "obuf_inv c1 others ob1" "obuf_data c1 ob1 = obuf_data c ob @ take ?f data" "keeps c c1 (slab_bytes others)"
        unfolding c1_def ob1_def f(2) by simp_all
      show ?thesis
      proof (cases "?p + 1 \<ge> SMALL_OBUF_IOV_MAX")
        case stop: True
        have "obuf_dup_loop os c ob data = Some (False, drop ?f data, c1, ob1)"
          using unf big True f(1) stop by (simp add: c1_def ob1_def)
        then show ?thesis using ap by (intro exI [of _ False] exI [of _ "drop ?f data"] exI [of _ c1] exI [of _ ob1] exI [of _ "take ?f data"]) simp
      next
        case go: False
        define ob2 where "ob2 = ob1\<lparr>ob_pos := ob_pos ob1 + 1\<rparr>"
        have "0 < iov_len ob1 (ob_pos ob1)" "ob_pos ob1 + 1 < SMALL_OBUF_IOV_MAX" using True go by (simp_all add: ob1_def)
        note nx = obuf_next [OF ap(1) this, folded ob2_def]
        have run: "obuf_dup_loop os c ob data = obuf_dup_loop os c1 ob2 (drop ?f data)"
          using unf big True f(1) go by (simp add: c1_def ob1_def ob2_def)
        have "SMALL_OBUF_IOV_MAX - ob_pos ob2 < SMALL_OBUF_IOV_MAX - ?p" using pm by (simp add: ob2_def ob1_def)
        moreover have "obuf_request_ok c1 ob2 (length (drop ?f data))"
          by (rule obuf_request_mono [OF rq _ keeps_same_cache [OF ap(3)]]) (simp_all add: ob2_def ob1_def)
        ultimately obtain fits rest c' ob' dn where r: "obuf_dup_loop os c1 ob2 (drop ?f data) = Some (fits, rest, c', ob')"
          "drop ?f data = dn @ rest" "obuf_inv c' others ob'" "obuf_data c' ob' = obuf_data c1 ob2 @ dn" "keeps c1 c' (slab_bytes others)"
          "fits \<longrightarrow> iov_len ob' (ob_pos ob') + length rest \<le> ob_capacity ob' (ob_pos ob')"
          using less.hyps [OF _ nx(1)] by blast
        have "data = take ?f data @ dn @ rest" using r(2) append_take_drop_id [of ?f data] by simp
        moreover have "obuf_data c' ob' = obuf_data c ob @ take ?f data @ dn" using r(4) nx(2) ap(2) by simp
        moreover have "keeps c c' (slab_bytes others)" using ap(3) r(5) by (rule keeps_trans)
        ultimately show ?thesis using run r(1,3,6)
          by (intro exI [of _ fits] exI [of _ rest] exI [of _ c'] exI [of _ ob'] exI [of _ "take ?f data @ dn"]) simp
      qed
    next
      case full: False
      show ?thesis
      proof (cases "?cap = 0")
        case True
        have z: "?len = 0" using le True by simp
        from assms(1) inv rq True show ?thesis
        proof (cases rule: obuf_alloc_pos_spec)
          case (fail c' ob')
          then show ?thesis using unf big True z by (intro exI [of _ False] exI [of _ data]) simp
        next
          case (ok p c' ob')
          then show ?thesis using unf big True z by (intro exI [of _ True] exI [of _ data]) simp
        qed
      next
        case False
        have eq: "?cap = ?len" using full le by simp
        show ?thesis
        proof (cases "?p + 1 \<ge> SMALL_OBUF_IOV_MAX")
          case True
          then show ?thesis using unf big full False eq inv keeps_refl by auto
        next
          case go: False
          define ob2 where "ob2 = ob\<lparr>ob_pos := ?p + 1\<rparr>"
          have "0 < ?len" "?p + 1 < SMALL_OBUF_IOV_MAX" using False eq go by simp_all
          note nx = obuf_next [OF inv this, folded ob2_def]
          have run: "obuf_dup_loop os c ob data = obuf_dup_loop os c ob2 data"
            using unf big full False eq go by (simp add: ob2_def)
          have "SMALL_OBUF_IOV_MAX - ob_pos ob2 < SMALL_OBUF_IOV_MAX - ?p" using pm by (simp add: ob2_def)
          moreover have "obuf_request_ok c ob2 (length data)"
            by (rule obuf_request_mono [OF rq _ same_cache_refl]) (simp_all add: ob2_def)
          ultimately show ?thesis using less.hyps [OF _ nx(1)] unfolding run nx(2) by blast
        qed
      qed
    qed
  qed
qed

lemma obuf_dup_spec:
  assumes "os_ok os" and "obuf_inv c others ob" and "obuf_request_ok c ob (length data)"
  shows "\<exists>n c' ob'. obuf_dup os c ob data = Some (n, c', ob') \<and> n \<le> length data \<and> obuf_inv c' others ob' \<and>
    obuf_data c' ob' = obuf_data c ob @ take n data \<and> keeps c c' (slab_bytes others)"
proof -
  obtain fits rest c1 ob1 dn where l: "obuf_dup_loop os c ob data = Some (fits, rest, c1, ob1)" "data = dn @ rest"
    "obuf_inv c1 others ob1" "obuf_data c1 ob1 = obuf_data c ob @ dn" "keeps c c1 (slab_bytes others)"
    "fits \<longrightarrow> iov_len ob1 (ob_pos ob1) + length rest \<le> ob_capacity ob1 (ob_pos ob1)"
    using obuf_dup_loop_spec [OF assms] by blast
  show ?thesis
  proof (cases fits)
    case False
    then show ?thesis using l by (auto simp: obuf_dup_def)
  next
    case True
    note ap = obuf_append [OF l(3) l(6) [THEN mp, OF True]]
    have "obuf_dup os c ob data = Some (length data, write_bytes c1 (iov_base ob1 (ob_pos ob1) + iov_len ob1 (ob_pos ob1)) rest,
        ob1\<lparr>iov_len := (iov_len ob1)(ob_pos ob1 := iov_len ob1 (ob_pos ob1) + length rest), ob_used := ob_used ob1 + length rest\<rparr>)"
      using l(1,6) True by (simp add: obuf_dup_def Let_def)
    then show ?thesis using ap(1,2) keeps_trans [OF l(5) ap(3)] l(2,4) by simp
  qed
qed

section \<open>Reserving\<close>

text \<open>Replacing the slab of the current, empty piece by a larger one.\<close>

lemma obuf_replace:
  assumes os: "os_ok os" and inv: "obuf_inv c others ob" and rq: "size_request_ok c w" and w: "w + slab_sizeof < 2 ^ 63" "0 < w"
    and p: "ob_pos ob < n_iov ob" "iov_len ob (ob_pos ob) = 0"
  obtains (fail) c' where "slab_get os c w = Some (NULL, c')" and "obuf_inv c' others ob" and "obuf_data c' ob = obuf_data c ob"
      and "keeps c c' (slab_bytes others)"
  | (ok) x c1 c2 where "slab_get os c w = Some (x, c1)" and "x \<noteq> NULL" and "slab_put c1 (slab_from_data (iov_base ob (ob_pos ob))) = Some c2"
      and "w \<le> slab_capacity c2 x" and "keeps c c2 (slab_bytes others)"
      and "obuf_inv c2 others (ob\<lparr>iov_base := (iov_base ob)(ob_pos ob := slab_data x), ob_capacity := (ob_capacity ob)(ob_pos ob := slab_capacity c2 x)\<rparr>)"
      and "obuf_data c2 (ob\<lparr>iov_base := (iov_base ob)(ob_pos ob := slab_data x), ob_capacity := (ob_capacity ob)(ob_pos ob := slab_capacity c2 x)\<rparr>) = obuf_data c ob"
proof -
  let ?p = "ob_pos ob" and ?xs = "obuf_slabs ob" and ?s = "\<lambda>i. slab_from_data (iov_base ob i)"
  have o: "owns c others ?xs" using inv by (simp add: obuf_inv_def)
  have sub: "slab_bytes others \<subseteq> slab_bytes (others \<union> slabs_of c ?xs)" by (rule slab_bytes_mono) simp
  have in_slab: "span (iov_base ob i) (iov_len ob i) \<subseteq> span (?s i) (sl_size (hdr c (?s i)))" if "i < n_iov ob" for i
  proof -
    have "iov_len ob i \<le> ob_capacity ob i" using inv that by (auto simp: obuf_inv_def)
    then have "span (iov_base ob i) (iov_len ob i) \<subseteq> span (iov_base ob i) (ob_capacity ob i)" by (intro span_subset) simp_all
    then show ?thesis using obuf_slab(2) [OF inv that] by blast
  qed
  have bytes: "span (iov_base ob i) (iov_len ob i) \<subseteq> slab_bytes (others \<union> slabs_of c ?xs)" if "i < n_iov ob" for i
    using in_slab [OF that] span_slab_bytes [OF owns_slab(5) [OF o obuf_slab(1) [OF inv that]]] by blast
  show thesis
  proof (rule owns_get [OF os o rq])
    fix c' assume g: "slab_get os c w = Some (NULL, c')" "owns c' others ?xs" "slabs_of c' ?xs = slabs_of c ?xs"
      "keeps c c' (slab_bytes (others \<union> slabs_of c ?xs))"
    have "slab_capacity c' (?s i) = slab_capacity c (?s i)" if "i < n_iov ob" for i
      using slabs_of_eq_size [OF g(3) obuf_slab(1) [OF inv that]] by (simp add: slab_capacity_def)
    then have "obuf_inv c' others ob" using inv g(2) by (simp add: obuf_inv_def)
    moreover have "obuf_piece c' ob i = obuf_piece c ob i" if "i < n_iov ob" for i
      using bytes [OF that] g(4) by (auto simp: obuf_piece_def keeps_def intro!: read_bytes_cong simp del: in_span)
    then have "obuf_data c' ob = obuf_data c ob" using obuf_data_upd [of ob c' ob c "[]"] p(1) by simp
    moreover have "keeps c c' (slab_bytes others)" using g(4) sub by (auto simp: keeps_def)
    ultimately show thesis using fail g(1) by blast
  next
    fix x c1 assume g: "slab_get os c w = Some (x, c1)" "owns c1 others (x # ?xs)" "slabs_of c1 ?xs = slabs_of c ?xs"
      "keeps c c1 (slab_bytes (others \<union> slabs_of c ?xs))" "w + slab_sizeof \<le> sl_size (hdr c1 x)"
      "slab_real_size c w = Some (sl_size (hdr c1 x))" "x \<noteq> NULL" "x \<notin> set ?xs"
    let ?t = "?s ?p" and ?ys = "remove1 (?s ?p) (x # ?xs)"
    have t: "?t \<in> set ?xs" by (rule obuf_slab(1) [OF inv p(1)])
    obtain c2 where c2: "slab_put c1 ?t = Some c2" "owns c2 others ?ys" "slabs_of c2 ?ys = slabs_of c1 ?ys"
      "keeps c1 c2 (slab_bytes (others \<union> slabs_of c1 ?ys))" using owns_put [OF g(2), of ?t] t by auto
    have dx: "distinct (x # ?xs)" using g(2) by (simp add: owns_def)
    have ys: "set ?ys = set (x # ?xs) - {?t}" using dx by (rule set_remove1_eq)
    have inj: "?s i \<noteq> ?t" if "i < n_iov ob" "i \<noteq> ?p" for i
    proof
      assume "?s i = ?t"
      moreover have "inj_on ?s {0 ..< n_iov ob}" using dx by (simp add: obuf_slabs_def distinct_map)
      ultimately show False using that p(1) by (auto dest: inj_onD)
    qed
    define ob2 where "ob2 = ob\<lparr>iov_base := (iov_base ob)(?p := slab_data x), ob_capacity := (ob_capacity ob)(?p := slab_capacity c2 x)\<rparr>"
    have sl2: "obuf_slabs ob2 = ?xs[?p := x]"
      using p(1) by (intro nth_equalityI) (auto simp: obuf_slabs_def ob2_def nth_list_update slab_from_data_def slab_data_def)
    have xp: "?xs ! ?p = ?t" "?p < length ?xs" using p(1) by (simp_all add: obuf_slabs_def)
    have d2: "distinct (?xs[?p := x])" using dx by (intro distinct_list_update) auto
    have "set (?xs[?p := x]) = set ?ys"
      using set_update_distinct [OF _ xp(2), of x] dx xp(1) g(8) t ys by auto
    then have ow: "owns c2 others (?xs[?p := x])" using owns_perm [OF _ d2 c2(2)] by simp
    have size1: "sl_size (hdr c1 y) = sl_size (hdr c y)" if "y \<in> set ?xs" for y using g(3) that by (rule slabs_of_eq_size)
    have size2: "sl_size (hdr c2 y) = sl_size (hdr c1 y)" if "y \<in> set ?ys" for y using c2(3) that by (rule slabs_of_eq_size)
    have capi: "slab_capacity c2 (?s i) = slab_capacity c (?s i)" if "i < n_iov ob" "i \<noteq> ?p" for i
      using size1 [OF obuf_slab(1) [OF inv that(1)]] size2 [of "?s i"] obuf_slab(1) [OF inv that(1)] inj [OF that] ys
      by (simp add: slab_capacity_def)
    have "x \<in> set ?ys" using ys g(8) t by auto
    then have xs2: "sl_size (hdr c2 x) = sl_size (hdr c1 x)" by (rule size2)
    have "cache_inv c (others \<union> slabs_of c ?xs)" using o by (simp add: owns_def)
    from real_size_cases [OF this g(6)] w(1) have "sl_size (hdr c1 x) < 2 ^ 63" by auto
    then have capx: "w \<le> slab_capacity c2 x" "slab_capacity c2 x < 2 ^ 63" using g(5) xs2 by (simp_all add: slab_capacity_def)
    have "obuf_inv c2 others ob2"
      unfolding obuf_inv_def sl2 using inv ow capi capx w(2) p
      by (auto simp: obuf_inv_def ob2_def slab_data_def slab_from_data_def)
    moreover have "obuf_data c2 ob2 = obuf_data c ob"
    proof -
      have "obuf_piece c2 ob2 i = obuf_piece c ob i" if "i < ?p" for i
      proof -
        have i: "i < n_iov ob" "i \<noteq> ?p" using that p(1) by simp_all
        have "?s i \<in> set ?ys" using ys inj [OF i] obuf_slab(1) [OF inv i(1)] by simp
        then have "(?s i, sl_size (hdr c1 (?s i))) \<in> others \<union> slabs_of c1 ?ys" by (simp add: slabs_of_def)
        from span_slab_bytes [OF this] have "span (iov_base ob i) (iov_len ob i) \<subseteq> slab_bytes (others \<union> slabs_of c1 ?ys)"
          using in_slab [OF i(1)] size1 [OF obuf_slab(1) [OF inv i(1)]] by simp
        then have "mem c2 y = mem c y" if "y \<in> span (iov_base ob i) (iov_len ob i)" for y
          using c2(4) g(4) bytes [OF i(1)] that unfolding keeps_def by (metis subsetD)
        then show ?thesis using i(2) by (auto simp: obuf_piece_def ob2_def intro!: read_bytes_cong simp del: in_span)
      qed
      then show ?thesis using obuf_data_upd [of ob c2 ob2 c "[]"] p(2) by (simp add: ob2_def obuf_piece_def)
    qed
    moreover have "keeps c c2 (slab_bytes others)"
    proof -
      have "slab_bytes others \<subseteq> slab_bytes (others \<union> slabs_of c1 ?ys)" by (rule slab_bytes_mono) simp
      from keeps_trans [OF keeps_mono [OF g(4) sub] keeps_mono [OF c2(4) this]] show ?thesis .
    qed
    ultimately show thesis using ok [OF g(1,7) c2(1) capx(1)] unfolding ob2_def by blast
  qed
qed

lemma obuf_reserve_slow_spec:
  assumes os: "os_ok os" and inv: "obuf_inv c others ob" and rq: "obuf_request_ok c ob sz"
    and big: "ob_capacity ob (ob_pos ob) < iov_len ob (ob_pos ob) + sz"
  shows "\<exists>p c' ob'. obuf_reserve_slow os c ob sz = Some (p, c', ob') \<and> obuf_inv c' others ob' \<and> obuf_data c' ob' = obuf_data c ob \<and>
    keeps c c' (slab_bytes others) \<and>
    (p \<noteq> NULL \<longrightarrow> p = iov_base ob' (ob_pos ob') + iov_len ob' (ob_pos ob') \<and> iov_len ob' (ob_pos ob') + sz \<le> ob_capacity ob' (ob_pos ob'))"
proof (cases "iov_len ob (ob_pos ob) > 0 \<and> ob_pos ob + 1 \<ge> SMALL_OBUF_IOV_MAX")
  case True
  then show ?thesis using inv by (simp add: obuf_reserve_slow_def keeps_refl)
next
  case False
  define ob1 where "ob1 = (if iov_len ob (ob_pos ob) > 0 then ob\<lparr>ob_pos := ob_pos ob + 1\<rparr> else ob)"
  have i1: "obuf_inv c others ob1" "obuf_data c ob1 = obuf_data c ob" "iov_len ob1 (ob_pos ob1) = 0"
    using obuf_next [OF inv] inv False by (auto simp: ob1_def)
  have same: "n_iov ob1 = n_iov ob" "ob_start_capacity ob1 = ob_start_capacity ob" by (simp_all add: ob1_def)
  have rq1: "obuf_request_ok c ob1 sz" by (rule obuf_request_mono [OF rq _ same_cache_refl same]) simp
  let ?p = "ob_pos ob1" and ?cap = "ob_capacity ob1 (ob_pos ob1)"
  have sl: "sz \<le> 2 ^ 62" using rq by (simp add: obuf_request_ok_def)
  note unf = obuf_reserve_slow_def [of os c ob sz, folded ob1_def, unfolded if_not_P [OF False] Let_def]
  show ?thesis
  proof (cases "sz > ?cap")
    case small: False
    have "obuf_reserve_slow os c ob sz = Some (iov_base ob1 ?p + iov_len ob1 ?p, c, ob1)"
      using unf small i1(3) sl by simp
    then show ?thesis using i1 small keeps_refl by simp
  next
    case sz: True
    show ?thesis
    proof (cases "?cap > 0")
      case True
      have pn: "?p < n_iov ob1" using i1(1) True by (cases "?p = n_iov ob1") (auto simp: obuf_inv_def)
      obtain w where w: "ibuf_grow ?cap sz = Some w" "?cap \<le> w" "sz \<le> w" "w = ?cap \<or> w < 2 * sz"
        using ibuf_grow_stops [OF True, of sz] sl by auto
      have wb: "w < 2 * sz" using w(4) sz by auto
      then have r: "size_request_ok c w" "w + slab_sizeof < 2 ^ 63" "0 < w"
        using rq1 sl w(3) sz by (auto simp: obuf_request_ok_def slab_sizeof_48)
      from os i1(1) r pn i1(3) show ?thesis
      proof (cases rule: obuf_replace)
        case (fail c')
        have "obuf_reserve_slow os c ob sz = Some (NULL, c', ob1)" using unf sz True i1(3) w(1) fail(1) by simp
        then show ?thesis using fail i1(2) by simp
      next
        case (ok x c1 c2)
        let ?ob = "ob1\<lparr>iov_base := (iov_base ob1)(?p := slab_data x), ob_capacity := (ob_capacity ob1)(?p := slab_capacity c2 x)\<rparr>"
        have "obuf_reserve_slow os c ob sz = Some (slab_data x, c2, ?ob)"
          using unf sz True i1(3) w(1,3) ok(1-4) sl by simp
        then show ?thesis using ok(4-7) i1(2,3) w(3) by simp
      qed
    next
      case no: False
      then have z: "?cap = 0" by simp
      from os i1(1) rq1 z show ?thesis
      proof (cases rule: obuf_alloc_pos_spec)
        case (fail c' ob')
        have "obuf_reserve_slow os c ob sz = Some (NULL, c', ob')" using unf sz z i1(3) fail(1) by simp
        then show ?thesis using fail i1(2) by simp
      next
        case (ok p c' ob')
        have "obuf_reserve_slow os c ob sz = Some (p, c', ob')" using unf sz z i1(3) ok(1,2,6-8) sl by simp
        then show ?thesis using ok i1(2) by simp
      qed
    qed
  qed
qed

lemma obuf_reserved [simp]:
  "obuf_inv c others (ob\<lparr>ob_reserved := b\<rparr>) = obuf_inv c others ob" "obuf_data c (ob\<lparr>ob_reserved := b\<rparr>) = obuf_data c ob"
proof -
  have "obuf_slabs (ob\<lparr>ob_reserved := b\<rparr>) = obuf_slabs ob" by (simp add: obuf_slabs_def)
  then show "obuf_inv c others (ob\<lparr>ob_reserved := b\<rparr>) = obuf_inv c others ob" by (simp add: obuf_inv_def)
  have "obuf_piece c (ob\<lparr>ob_reserved := b\<rparr>) = obuf_piece c ob" by (simp add: fun_eq_iff obuf_piece_def)
  then show "obuf_data c (ob\<lparr>ob_reserved := b\<rparr>) = obuf_data c ob" by (simp add: obuf_data_def)
qed

lemma obuf_pos_bounds:
  assumes "obuf_inv c others ob"
  shows "iov_len ob (ob_pos ob) \<le> ob_capacity ob (ob_pos ob)" and "ob_capacity ob (ob_pos ob) < 2 ^ 63"
    and "iov_base ob (ob_pos ob) = NULL \<Longrightarrow> ob_capacity ob (ob_pos ob) = 0"
proof -
  have l: "ob_pos ob \<le> n_iov ob" "ob_capacity ob (n_iov ob) = 0" "iov_len ob (n_iov ob) = 0"
    and f: "\<forall>i < n_iov ob. ob_capacity ob i < 2 ^ 63 \<and> slab_sizeof \<le> iov_base ob i \<and> iov_len ob i \<le> ob_capacity ob i"
    using assms by (auto simp: obuf_inv_def)
  show "iov_len ob (ob_pos ob) \<le> ob_capacity ob (ob_pos ob)" "ob_capacity ob (ob_pos ob) < 2 ^ 63"
    using l f by (cases "ob_pos ob = n_iov ob"; simp)+
  show "iov_base ob (ob_pos ob) = NULL \<Longrightarrow> ob_capacity ob (ob_pos ob) = 0"
    using l f [rule_format, of "ob_pos ob"] by (cases "ob_pos ob = n_iov ob") (simp_all add: slab_sizeof_48)
qed

text \<open>Memory is allocated and then filled by the caller.\<close>

lemma obuf_alloc_spec:
  assumes os: "os_ok os" and inv: "obuf_inv c others ob" and rq: "obuf_request_ok c ob (length bs)"
  shows "\<exists>p c' ob'. obuf_alloc os c ob (length bs) = Some (p, c', ob') \<and>
    (let w = (if p = NULL then [] else bs); c2 = write_bytes c' p w
     in obuf_inv c2 others ob' \<and> keeps c c2 (slab_bytes others) \<and> obuf_data c2 ob' = obuf_data c ob @ w)"
proof -
  let ?sz = "length bs"
  note b = obuf_pos_bounds [OF inv]
  have sl: "?sz \<le> 2 ^ 62" using rq by (simp add: obuf_request_ok_def)
  have m: "(iov_len ob (ob_pos ob) + ?sz) mod 2 ^ 64 = iov_len ob (ob_pos ob) + ?sz" using b(1,2) sl by simp
  note unf = obuf_alloc_def [of os c ob ?sz, unfolded m]
  have "(\<lambda>x. if p \<le> x \<and> x < p then [] ! (x - p) else mem c2 x) = mem c2" for p and c2 :: slab_cache by (auto simp: fun_eq_iff)
  then have nil: "write_bytes c2 p [] = c2" for c2 p by (simp add: write_bytes_def)
  show ?thesis
  proof (cases "iov_len ob (ob_pos ob) + ?sz \<le> ob_capacity ob (ob_pos ob)")
    case True
    note ex = obuf_append [OF inv True]
    let ?w = "iov_base ob (ob_pos ob) + iov_len ob (ob_pos ob)"
    have z: "(if ?w = NULL then [] else bs) = bs" using b(3) True by auto
    have "obuf_alloc os c ob ?sz = Some (?w, c, (ob\<lparr>iov_len := (iov_len ob)(ob_pos ob := iov_len ob (ob_pos ob) + ?sz), ob_used := ob_used ob + ?sz\<rparr>)\<lparr>ob_reserved := False\<rparr>)"
      using unf True by simp
    then show ?thesis using ex by (intro exI [of _ ?w] exI [of _ c] exI conjI) (assumption, unfold z Let_def, simp)
  next
    case False
    obtain p c' ob' where r: "obuf_reserve_slow os c ob ?sz = Some (p, c', ob')" "obuf_inv c' others ob'" "obuf_data c' ob' = obuf_data c ob"
      "keeps c c' (slab_bytes others)"
      "p \<noteq> NULL \<longrightarrow> p = iov_base ob' (ob_pos ob') + iov_len ob' (ob_pos ob') \<and> iov_len ob' (ob_pos ob') + ?sz \<le> ob_capacity ob' (ob_pos ob')"
      using obuf_reserve_slow_spec [OF assms] False by auto
    show ?thesis
    proof (cases "p = NULL")
      case True
      then show ?thesis using unf False r by (simp add: nil)
    next
      case nz: False
      then have fit: "iov_len ob' (ob_pos ob') + ?sz \<le> ob_capacity ob' (ob_pos ob')" "p = iov_base ob' (ob_pos ob') + iov_len ob' (ob_pos ob')"
        using r(5) by simp_all
      note ex = obuf_append [OF r(2) fit(1), folded fit(2)]
      have "obuf_alloc os c ob ?sz = Some (p, c', (ob'\<lparr>iov_len := (iov_len ob')(ob_pos ob' := iov_len ob' (ob_pos ob') + ?sz), ob_used := ob_used ob' + ?sz\<rparr>)\<lparr>ob_reserved := False\<rparr>)"
        using unf False r(1) nz fit(1) by simp
      then show ?thesis using ex(1,2) keeps_trans [OF r(4) ex(3)] r(3) nz by simp
    qed
  qed
qed

section \<open>Savepoints\<close>

text \<open>
  \<open>extends ob0 ob\<close>: the buffer \<open>ob\<close> came from \<open>ob0\<close> by adding data. It is what a savepoint needs:
  the pieces before the saved position are as they were, and the saved one has not lost bytes.
\<close>

definition obuf_extends :: "obuf \<Rightarrow> obuf \<Rightarrow> bool" where
  "obuf_extends ob0 ob \<longleftrightarrow> ob_pos ob0 \<le> ob_pos ob \<and> n_iov ob0 \<le> n_iov ob \<and>
     (\<forall>i < ob_pos ob0. iov_len ob i = iov_len ob0 i) \<and> iov_len ob0 (ob_pos ob0) \<le> iov_len ob (ob_pos ob0)"

lemma obuf_rollback_spec:
  assumes inv0: "obuf_inv c0 others ob0" and inv: "obuf_inv c others ob" and ex: "obuf_extends ob0 ob"
    and data: "obuf_data c ob = obuf_data c0 ob0 @ bs"
  shows "\<exists>ob'. obuf_rollback_to_svp ob (obuf_create_svp ob0) = Some ob' \<and> obuf_inv c others ob' \<and> obuf_data c ob' = obuf_data c0 ob0"
proof -
  let ?p = "ob_pos ob0"
  have e: "?p \<le> ob_pos ob" "n_iov ob0 \<le> n_iov ob" "\<And>i. i < ?p \<Longrightarrow> iov_len ob i = iov_len ob0 i" "iov_len ob0 ?p \<le> iov_len ob ?p"
    using ex by (auto simp: obuf_extends_def)
  define ob' where "ob' = ob\<lparr>ob_pos := ?p, iov_len := (\<lambda>i. if ?p + 1 \<le> i \<and> i < obuf_iovcnt ob then 0 else if i = ?p then iov_len ob0 ?p else iov_len ob i),
    ob_used := ob_used ob0, ob_reserved := False\<rparr>"
  have run: "obuf_rollback_to_svp ob (obuf_create_svp ob0) = Some ob'"
    using e(1) by (simp add: obuf_rollback_to_svp_def obuf_create_svp_def ob'_def Let_def fun_eq_iff obuf_iovcnt_def)
  have pn: "?p \<le> n_iov ob" "?p < SMALL_OBUF_IOV_MAX" using inv0 e(2) by (simp_all add: obuf_inv_def)
  have z: "iov_len ob i = 0" if "i < n_iov ob" "\<not> i < obuf_iovcnt ob" "?p < i" for i
    using inv that by (cases "i = ob_pos ob") (auto simp: obuf_inv_def obuf_iovcnt_def split: if_splits)
  have lens: "iov_len ob' i = (if i < ?p then iov_len ob0 i else if i = ?p then iov_len ob0 ?p else if i < n_iov ob then 0 else iov_len ob' i)" for i
    using e(3) z by (auto simp: ob'_def)
  have cap: "iov_len ob i \<le> ob_capacity ob i" if "i < n_iov ob" for i using inv that by (auto simp: obuf_inv_def)
  have last: "iov_len ob' (n_iov ob) = 0"
    using inv inv0 e pn by (cases "?p = n_iov ob") (auto simp: obuf_inv_def ob'_def)
  have used: "ob_used ob0 = (\<Sum>i < ?p. iov_len ob' i) + iov_len ob' ?p"
    using inv0 e(3) by (auto simp: obuf_inv_def ob'_def intro!: sum.cong)
  have sl: "obuf_slabs ob' = obuf_slabs ob" by (simp add: obuf_slabs_def ob'_def)
  have le: "iov_len ob' i \<le> ob_capacity ob i" if "i < n_iov ob" for i
    using cap [OF that] e(3,4) that by (cases "i = ?p") (auto simp: ob'_def)
  have i': "obuf_inv c others ob'"
    unfolding obuf_inv_def sl
  proof (intro conjI)
    show "\<forall>i < n_iov ob'. 0 < ob_capacity ob' i \<and> ob_capacity ob' i < 2 ^ 63 \<and> slab_sizeof \<le> iov_base ob' i \<and>
        slab_capacity c (slab_from_data (iov_base ob' i)) = ob_capacity ob' i \<and> iov_len ob' i \<le> ob_capacity ob' i"
      using inv le by (auto simp: obuf_inv_def ob'_def)
    show "iov_len ob' (n_iov ob') = 0" using last by (simp add: ob'_def)
    show "\<forall>i < n_iov ob'. ob_pos ob' < i \<longrightarrow> iov_len ob' i = 0" using lens by (simp add: ob'_def)
    show "\<forall>i < ob_pos ob'. 0 < iov_len ob' i" using inv0 lens by (simp add: ob'_def obuf_inv_def)
    show "ob_used ob' = (\<Sum>i < ob_pos ob'. iov_len ob' i) + iov_len ob' (ob_pos ob')" using used by (simp add: ob'_def)
  qed (use inv pn in \<open>simp_all add: obuf_inv_def ob'_def\<close>)
  have "obuf_data c ob' = take (ob_used ob0) (obuf_data c ob)"
  proof -
    have pre: "obuf_piece c ob' i = obuf_piece c ob i" if "i < ?p" for i using that e(3) by (simp add: obuf_piece_def ob'_def)
    then have "map (obuf_piece c ob') [0 ..< ?p] = map (obuf_piece c ob) [0 ..< ?p]" by simp
    then have "concat (map (obuf_piece c ob') [0 ..< ?p]) = concat (map (obuf_piece c ob) [0 ..< ?p])" by (rule arg_cong)
    moreover have "ob_pos ob' = ?p" by (simp add: ob'_def)
    ultimately have d': "obuf_data c ob' = concat (map (obuf_piece c ob) [0 ..< ?p]) @ obuf_piece c ob' ?p" by (simp add: obuf_data_def)
    have "[0 ..< Suc (ob_pos ob)] = [0 ..< ?p] @ ?p # [Suc ?p ..< Suc (ob_pos ob)]"
      using e(1) upt_add_eq_append [of 0 ?p "Suc (ob_pos ob) - ?p"] upt_conv_Cons [of ?p "Suc (ob_pos ob)"] by (simp del: upt_Suc)
    then obtain tail where d: "obuf_data c ob = concat (map (obuf_piece c ob) [0 ..< ?p]) @ obuf_piece c ob ?p @ tail"
      by (simp add: obuf_data_def del: upt_Suc)
    have "obuf_piece c ob ?p = obuf_piece c ob' ?p @ drop (iov_len ob0 ?p) (obuf_piece c ob ?p)"
      using e(4) read_bytes_add [of c "iov_base ob ?p" "iov_len ob0 ?p" "iov_len ob ?p - iov_len ob0 ?p"]
      by (simp add: obuf_piece_def ob'_def drop_read_bytes)
    then have "obuf_data c ob = obuf_data c ob' @ drop (iov_len ob0 ?p) (obuf_piece c ob ?p) @ tail" using d d' by simp
    moreover have "length (obuf_data c ob') = ob_used ob0" using obuf_used_length [OF i'] by (simp add: ob'_def)
    ultimately show ?thesis by simp
  qed
  moreover have "length (obuf_data c0 ob0) = ob_used ob0" by (rule obuf_used_length [OF inv0])
  ultimately show ?thesis using run i' data by simp
qed

lemma obuf_extends_refl: "obuf_extends ob ob"
  by (simp add: obuf_extends_def)

lemma obuf_extends_trans:
  assumes "obuf_extends ob0 ob1" and "obuf_extends ob1 ob2"
  shows "obuf_extends ob0 ob2"
  using assms by (cases "ob_pos ob0 = ob_pos ob1") (auto simp: obuf_extends_def)

lemma obuf_alloc_pos_extends: "obuf_alloc_pos os c ob sz = Some (p, c', ob') \<Longrightarrow> obuf_extends ob ob'"
  by (auto simp: obuf_alloc_pos_def obuf_extends_def Let_def elim!: bind_eq_SomeE split: if_splits)

lemma obuf_dup_loop_extends: "obuf_dup_loop os c ob data = Some (b, rest, c', ob') \<Longrightarrow> obuf_extends ob ob'"
proof (induction os c ob data rule: obuf_dup_loop.induct)
  case (1 os c ob data)
  let ?p = "ob_pos ob"
  have fill: "iov_len ob ?p \<le> n \<Longrightarrow> obuf_extends ob (ob\<lparr>iov_len := (iov_len ob)(?p := n), ob_used := u\<rparr>)"
    "obuf_extends ob (ob\<lparr>iov_len := (iov_len ob)(?p := iov_len ob ?p + n), ob_used := u, ob_pos := ?p + 1\<rparr>)"
    "obuf_extends ob (ob\<lparr>ob_pos := ?p + 1\<rparr>)" for n u by (simp_all add: obuf_extends_def)
  note IH = "1.IH" [OF refl refl refl refl]
  show ?case
  proof (cases "(iov_len ob ?p + length data) mod 2 ^ 64 > ob_capacity ob ?p")
    case False
    then show ?thesis using "1.prems" obuf_extends_refl by (subst (asm) obuf_dup_loop.simps) (simp add: Let_def)
  next
    case big: True
    show ?thesis
    proof (cases "iov_len ob ?p < ob_capacity ob ?p")
      case True
      show ?thesis using "1.prems" big True
        by (subst (asm) obuf_dup_loop.simps)
          (auto simp: Let_def split: if_splits intro: fill(1) intro!: obuf_extends_trans [OF fill(2) IH(1)])
    next
      case full: False
      then show ?thesis using "1.prems" big
        by (subst (asm) obuf_dup_loop.simps)
          (auto simp: Let_def obuf_extends_refl split: if_splits option.splits dest: obuf_alloc_pos_extends
            intro: obuf_extends_trans [OF fill(3) IH(2)])
    qed
  qed
qed

lemma obuf_dup_extends: "obuf_dup os c ob data = Some (n, c', ob') \<Longrightarrow> obuf_extends ob ob'"
proof -
  assume d: "obuf_dup os c ob data = Some (n, c', ob')"
  then obtain b rest c1 ob1 where l: "obuf_dup_loop os c ob data = Some (b, rest, c1, ob1)"
    by (auto simp: obuf_dup_def elim!: bind_eq_SomeE)
  have "obuf_extends ob1 ob'" using d l by (auto simp: obuf_dup_def obuf_extends_def Let_def split: if_splits)
  then show ?thesis using obuf_dup_loop_extends [OF l] obuf_extends_trans by blast
qed

lemma obuf_reserve_slow_extends: "obuf_reserve_slow os c ob sz = Some (p, c', ob') \<Longrightarrow> obuf_extends ob ob'"
proof -
  assume r: "obuf_reserve_slow os c ob sz = Some (p, c', ob')"
  define ob1 where "ob1 = (if iov_len ob (ob_pos ob) > 0 then ob\<lparr>ob_pos := ob_pos ob + 1\<rparr> else ob)"
  have "obuf_extends ob ob1" by (simp add: ob1_def obuf_extends_def)
  moreover have "obuf_extends ob1 ob'" if "\<not> (iov_len ob (ob_pos ob) > 0 \<and> ob_pos ob + 1 \<ge> SMALL_OBUF_IOV_MAX)"
    using r that unfolding obuf_reserve_slow_def if_not_P [OF that] Let_def ob1_def [symmetric]
    by (auto simp: obuf_extends_refl elim!: bind_eq_SomeE split: if_splits dest: obuf_alloc_pos_extends) (auto simp: obuf_extends_def)
  moreover have "ob' = ob" if "iov_len ob (ob_pos ob) > 0 \<and> ob_pos ob + 1 \<ge> SMALL_OBUF_IOV_MAX"
    using r that by (simp add: obuf_reserve_slow_def)
  ultimately show ?thesis using obuf_extends_refl obuf_extends_trans by blast
qed

lemma obuf_alloc_extends: "obuf_alloc os c ob sz = Some (p, c', ob') \<Longrightarrow> obuf_extends ob ob'"
proof -
  have more: "obuf_extends ob (ob1\<lparr>ob_reserved := False, iov_len := (iov_len ob1)(ob_pos ob1 := iov_len ob1 (ob_pos ob1) + sz), ob_used := u\<rparr>)"
    if "obuf_extends ob ob1" for ob1 u using that by (auto simp: obuf_extends_def)
  assume "obuf_alloc os c ob sz = Some (p, c', ob')"
  then show ?thesis
    by (auto simp: obuf_alloc_def elim!: bind_eq_SomeE split: if_splits intro!: more obuf_extends_refl dest: obuf_reserve_slow_extends)
qed

text \<open>
  Adding data to a buffer in any number of steps, by copying or by allocating memory and filling
  it; \<open>new\<close> are the bytes that got in. A step may be cut short, or fail, when memory runs out.
\<close>

inductive obuf_adds :: "os \<Rightarrow> slab_cache \<Rightarrow> obuf \<Rightarrow> byte list \<Rightarrow> slab_cache \<Rightarrow> obuf \<Rightarrow> bool"
  for os :: os and c0 :: slab_cache and ob0 :: obuf where
  none: "obuf_adds os c0 ob0 [] c0 ob0"
| dup: "obuf_adds os c0 ob0 new c ob \<Longrightarrow> obuf_request_ok c ob (length data) \<Longrightarrow> obuf_dup os c ob data = Some (n, c', ob') \<Longrightarrow>
    obuf_adds os c0 ob0 (new @ take n data) c' ob'"
| fill: "obuf_adds os c0 ob0 new c ob \<Longrightarrow> obuf_request_ok c ob (length data) \<Longrightarrow> obuf_alloc os c ob (length data) = Some (p, c', ob') \<Longrightarrow>
    w = (if p = NULL then [] else data) \<Longrightarrow> obuf_adds os c0 ob0 (new @ w) (write_bytes c' p w) ob'"

lemma obuf_adds_spec:
  "obuf_adds os c0 ob0 new c ob \<Longrightarrow> os_ok os \<Longrightarrow> obuf_inv c0 others ob0 \<Longrightarrow>
    obuf_inv c others ob \<and> obuf_extends ob0 ob \<and> obuf_data c ob = obuf_data c0 ob0 @ new"
proof (induction rule: obuf_adds.induct)
  case none
  then show ?case using obuf_extends_refl by simp
next
  case (dup new c ob data n c' ob')
  then have IH: "obuf_inv c others ob" "obuf_extends ob0 ob" "obuf_data c ob = obuf_data c0 ob0 @ new" by blast+
  from obuf_dup_spec [OF dup.prems(1) IH(1) dup.hyps(2)] dup.hyps(3) IH(3)
  have "obuf_inv c' others ob'" "obuf_data c' ob' = obuf_data c0 ob0 @ new @ take n data" by auto
  then show ?case using obuf_extends_trans [OF IH(2) obuf_dup_extends [OF dup.hyps(3)]] by simp
next
  case (fill new c ob data p c' ob' w)
  then have IH: "obuf_inv c others ob" "obuf_extends ob0 ob" "obuf_data c ob = obuf_data c0 ob0 @ new" by blast+
  from obuf_alloc_spec [OF fill.prems(1) IH(1) fill.hyps(2)] fill.hyps(3) IH(3)
  have "obuf_inv (write_bytes c' p w) others ob'" "obuf_data (write_bytes c' p w) ob' = obuf_data c0 ob0 @ new @ w"
    unfolding fill.hyps(4) Let_def by auto
  then show ?case using obuf_extends_trans [OF IH(2) obuf_alloc_extends [OF fill.hyps(3)]] by simp
qed

text \<open>The way output is added with a savepoint: all of a chunk, or none of it.\<close>

definition obuf_push :: "os \<Rightarrow> slab_cache \<times> obuf \<Rightarrow> byte list \<Rightarrow> (bool \<times> slab_cache \<times> obuf) option" where
  "obuf_push os s data = do {
     let svp = obuf_create_svp (snd s);
     (n, c, ob) \<leftarrow> obuf_dup os (fst s) (snd s) data;
     if n = length data then Some (True, c, ob)
     else do {
       ob \<leftarrow> obuf_rollback_to_svp ob svp;
       Some (False, c, ob) } }"

lemma obuf_push_spec:
  assumes "os_ok os" and "obuf_inv c others ob" and "obuf_request_ok c ob (length data)"
  shows "\<exists>b c' ob'. obuf_push os (c, ob) data = Some (b, c', ob') \<and> obuf_inv c' others ob' \<and>
    obuf_data c' ob' = obuf_data c ob @ (if b then data else [])"
proof -
  obtain n c1 ob1 where d: "obuf_dup os c ob data = Some (n, c1, ob1)" "obuf_inv c1 others ob1" "obuf_data c1 ob1 = obuf_data c ob @ take n data"
    using obuf_dup_spec [OF assms] by blast
  from obuf_rollback_spec [OF assms(2) d(2) obuf_dup_extends [OF d(1)] d(3)] obtain ob2 where
    "obuf_rollback_to_svp ob1 (obuf_create_svp ob) = Some ob2" "obuf_inv c1 others ob2" "obuf_data c1 ob2 = obuf_data c ob" by blast
  then show ?thesis using d by (cases "n = length data") (auto simp: obuf_push_def)
qed

interpretation obl: byte_log "obuf_push os" "\<lambda>(c, ob). obuf_data c ob" "\<lambda>(c, ob). os_ok os \<and> obuf_inv c others ob"
  "\<lambda>(c, ob). obuf_request_ok c ob" for os others
proof unfold_locales
  fix s :: "slab_cache \<times> obuf" and bs :: "byte list"
  assume "case s of (c, ob) \<Rightarrow> os_ok os \<and> obuf_inv c others ob" "(case s of (c, ob) \<Rightarrow> obuf_request_ok c ob) (length bs)"
  then show "\<exists>ok s'. obuf_push os s bs = Some (ok, s') \<and> (case s' of (c, ob) \<Rightarrow> os_ok os \<and> obuf_inv c others ob) \<and>
      (case s' of (c, ob) \<Rightarrow> obuf_data c ob) = (case s of (c, ob) \<Rightarrow> obuf_data c ob) @ (if ok then bs else [])"
    using obuf_push_spec [of os "fst s" others "snd s" bs] by (cases s) fastforce
qed

lemma obuf_destroy_spec:
  assumes "obuf_inv c others ob"
  obtains c' where "obuf_destroy c ob = Some c'" and "cache_inv c' others" and "keeps c c' (slab_bytes others)"
proof -
  have "owns c others (obuf_slabs ob)" using assms by (simp add: obuf_inv_def)
  then show thesis by (rule owns_put_all) (use that in \<open>simp add: obuf_destroy_def obuf_slabs_def\<close>)
qed

section \<open>Properties\<close>

definition example_obuf :: obuf where
  "example_obuf = \<lparr>ob_pos = 0, n_iov = 1, ob_used = 99000, ob_start_capacity = 100000, ob_capacity = (\<lambda>i. if i = 0 then 100000 else 0),
     iov_base = (\<lambda>i. if i = 0 then 65584 else 0), iov_len = (\<lambda>i. if i = 0 then 99000 else 0), ob_reserved = False\<rparr>"

lemma example_obuf_inv:
  obtains c where "obuf_inv c {} example_obuf" and "obuf_request_ok c example_obuf 5000"
proof -
  obtain c where c: "cache_inv c {(65536, 100048)}" "ar_slab_size (sc_arena c) = 65536" "q_total (ar_quota (sc_arena c)) = 16384"
    by (rule example_slab)
  have "sl_size (hdr c 65536) = 100048" using cache_inv_slab(2) [OF c(1)] by simp
  then have "obuf_inv c {} example_obuf"
    using c(1) by (simp add: obuf_inv_def example_obuf_def owns_def obuf_slabs_def slab_capacity_def slab_from_data_def slab_sizeof_48
        SMALL_OBUF_IOV_MAX_def)
  moreover have "size_request_ok c m" if "m \<le> 300000" for m
  proof -
    have "q_units (m + slab_sizeof) \<le> 1000" using that by (simp add: q_units_def slab_sizeof_48)
    then show ?thesis using that c(2,3) by (simp add: size_request_ok_def quota_room_def slab_sizeof_48)
  qed
  then have "obuf_request_ok c example_obuf 5000" by (simp add: obuf_request_ok_def example_obuf_def)
  ultimately show thesis using that by simp
qed



text \<open>C21: A savepoint can be rolled back to. Take \<open>obuf_create_svp\<close>, then add data in any number of steps by \<open>obuf_dup\<close>
  and by \<open>obuf_alloc\<close> with a fill, over any number of pieces: the buffer then holds the old contents and the new
  bytes, and \<open>obuf_rollback_to_svp\<close> passes its assertion, keeps the invariant and leaves exactly the contents
  and the size at the savepoint.\<close>

theorem obuf_savepoint:
  assumes "os_ok os" and "obuf_inv c others ob" and "obuf_adds os c ob new c' ob'"
  shows "obuf_data c' ob' = obuf_data c ob @ new \<and> (\<exists>ob2. obuf_rollback_to_svp ob' (obuf_create_svp ob) = Some ob2 \<and> obuf_inv c' others ob2 \<and>
    obuf_data c' ob2 = obuf_data c ob \<and> obuf_size ob2 = obuf_size ob)"
proof -
  have a: "obuf_inv c' others ob'" "obuf_extends ob ob'" "obuf_data c' ob' = obuf_data c ob @ new"
    using obuf_adds_spec [OF assms(3,1,2)] by blast+
  obtain ob2 where r: "obuf_rollback_to_svp ob' (obuf_create_svp ob) = Some ob2" "obuf_inv c' others ob2" "obuf_data c' ob2 = obuf_data c ob"
    using obuf_rollback_spec [OF assms(2) a] by blast
  have "obuf_size ob2 = obuf_size ob" using obuf_used_length [OF r(2)] obuf_used_length [OF assms(2)] r(3) by (simp add: obuf_size_def)
  then show ?thesis using r a(3) by blast
qed

theorem obuf_savepoint_witness:
  "\<exists>c n c1 ob1 c2 ob2 ob3. obuf_dup bump_os c example_obuf [1, 2, 3] = Some (3, c1, ob1) \<and> obuf_dup bump_os c1 ob1 (replicate 4000 7) = Some (n, c2, ob2) \<and>
     obuf_data c2 ob2 = obuf_data c example_obuf @ [1, 2, 3] @ take n (replicate 4000 7) \<and>
     obuf_rollback_to_svp ob2 (obuf_create_svp example_obuf) = Some ob3 \<and> obuf_data c2 ob3 = obuf_data c example_obuf \<and> obuf_size ob3 = 99000"
proof -
  obtain c where c: "obuf_inv c {} example_obuf" "obuf_request_ok c example_obuf 5000" by (rule example_obuf_inv)
  define ob1 where "ob1 = example_obuf\<lparr>iov_len := (iov_len example_obuf)(0 := 99003), ob_used := 99003\<rparr>"
  define c1 where "c1 = write_bytes c 164584 [1, 2, 3]"
  have d1: "obuf_dup bump_os c example_obuf [1, 2, 3] = Some (3, c1, ob1)"
    by (simp add: obuf_dup_def obuf_dup_loop.simps example_obuf_def Let_def fun_eq_iff ob1_def c1_def)
  have r1: "obuf_request_ok c example_obuf (length [1, 2, 3 :: byte])" by (rule obuf_request_mono [OF c(2) _ same_cache_refl]) simp_all
  have r2: "obuf_request_ok c1 ob1 (length (replicate 4000 (7 :: byte)))"
    by (rule obuf_request_mono [OF c(2)]) (simp_all add: c1_def ob1_def write_bytes_def)
  note a1 = obuf_adds.dup [OF obuf_adds.none r1 d1]
  obtain n c2 ob2 where d2: "obuf_dup bump_os c1 ob1 (replicate 4000 7) = Some (n, c2, ob2)"
    using obuf_dup_spec [OF bump_os_ok _ r2, of "{}"] obuf_adds_spec [OF a1 bump_os_ok c(1)] by blast
  from obuf_savepoint [OF bump_os_ok c(1) obuf_adds.dup [OF a1 r2 d2]] obtain ob3 where
    "obuf_data c2 ob2 = obuf_data c example_obuf @ [1, 2, 3] @ take n (replicate 4000 7)"
    "obuf_rollback_to_svp ob2 (obuf_create_svp example_obuf) = Some ob3" "obuf_data c2 ob3 = obuf_data c example_obuf" "obuf_size ob3 = obuf_size example_obuf" by auto
  moreover have "obuf_size example_obuf = 99000" by (simp add: obuf_size_def example_obuf_def)
  ultimately show ?thesis using d1 d2 by metis
qed

text \<open>With a savepoint output is added all or nothing: two chunks added in turn are each in the contents completely or not at all.\<close>

lemma obuf_push_chunks:
  assumes "os_ok os" and "obuf_inv c others ob" and "obuf_request_ok c ob (length as)"
    and "\<And>b c' ob'. obuf_push os (c, ob) as = Some (b, c', ob') \<Longrightarrow> obuf_request_ok c' ob' (length bs)"
  shows "\<exists>x y s1 c2 ob2. obuf_push os (c, ob) as = Some (x, s1) \<and> obuf_push os s1 bs = Some (y, c2, ob2) \<and>
    obuf_inv c2 others ob2 \<and> obuf_data c2 ob2 = obuf_data c ob @ (if x then as else []) @ (if y then bs else [])"
  using obl.push_twice [of os others "(c, ob)" as bs] assms unfolding split_beta fst_conv snd_conv by (metis prod.collapse)

text \<open>Destroying an output buffer gives all its slabs back to the cache.\<close>

theorem obuf_destroy_correct:
  assumes "obuf_inv c others ob"
  shows "\<exists>c'. obuf_destroy c ob = Some c' \<and> cache_inv c' others \<and> (\<forall>x \<in> slab_bytes others. mem c' x = mem c x)"
  using obuf_destroy_spec [OF assms] unfolding keeps_def by blast

theorem obuf_destroy_correct_witness: "\<exists>c c'. obuf_destroy c example_obuf = Some c' \<and> cache_inv c' {}"
proof -
  obtain c where c: "obuf_inv c {} example_obuf" by (rule example_obuf_inv)
  from obuf_destroy_correct [OF this] show ?thesis by blast
qed

end
