(* ===== verification/Mempool.thy ===== *)
theory Mempool
  imports Slab_Client
begin

text \<open>
  \<open>small/mempool.c\<close> and \<open>include/small/mempool.h\<close>: a pool of objects of one size in slabs of one
  order. The fields that \<open>struct mslab\<close> adds to the slab header are the map \<open>m\<close> that the
  operations pass on beside the cache \<open>c\<close>; several pools share both. The list of freed objects of a slab is kept in the objects themselves, as in the code: each holds the
  address of the next one in its first eight bytes. The tree of hot slabs is the sorted list
  of its nodes; what the pool needs of \<open>rb.h\<close> is insertion, removal and the next node.
\<close>

section \<open>Pointers in memory\<close>

definition le_bytes :: "nat \<Rightarrow> byte list" where
  "le_bytes v = map (\<lambda>i. of_nat (v div 256 ^ i)) [0 ..< 8]"

definition store_ptr :: "slab_cache \<Rightarrow> addr \<Rightarrow> addr \<Rightarrow> slab_cache" where
  "store_ptr c p v = write_bytes c p (le_bytes v)"

definition load_ptr :: "slab_cache \<Rightarrow> addr \<Rightarrow> addr" where
  "load_ptr c p = (\<Sum>i < 8. unat (mem c (p + i)) * 256 ^ i)"

section \<open>Data\<close>

record mslab =
  ms_free_list :: addr
  ms_free_offset :: nat
  ms_nfree :: nat
  ms_in_hot_slabs :: bool
  ms_mempool :: addr

type_synonym mslabs = "addr \<Rightarrow> mslab"

record mempool =
  mp_slabs :: slab_list
  hot_slabs :: "addr list"
  first_hot_slab :: addr
  cold_slabs :: "addr list"
  mp_spare :: addr
  objsize :: nat
  mp_order :: nat
  objcount :: nat
  mp_offset :: nat
  slab_ptr_mask :: int
  mp_self :: addr

record mempool_stats =
  mst_objsize :: nat
  mst_objcount :: int
  mst_slabsize :: nat
  mst_slabcount :: int
  mst_used :: int
  mst_total :: int

definition MAX_COLD_FRACTION_LB :: nat where
  "MAX_COLD_FRACTION_LB = 3"

text \<open>\<open>sizeof(struct mslab)\<close> with the compact tree node: 112 bytes.\<close>

definition mslab_sizeof :: nat where
  "mslab_sizeof = align_up 112 8"

definition mempool_objsize_max :: "nat \<Rightarrow> nat" where
  "mempool_objsize_max slab_size = nat (((int slab_size - int mslab_sizeof) mod 2 ^ 32) div 16 AND NOT 7)"

definition mslab_cmp :: "addr \<Rightarrow> addr \<Rightarrow> int" where
  "mslab_cmp lhs rhs = (if lhs > rhs then 1 else if lhs < rhs then - 1 else 0)"

definition mslab_tree_insert :: "addr list \<Rightarrow> addr \<Rightarrow> addr list" where
  "mslab_tree_insert t s = insort s t"

definition mslab_tree_remove :: "addr list \<Rightarrow> addr \<Rightarrow> addr list" where
  "mslab_tree_remove t s = remove1 s t"

definition mslab_tree_next :: "addr list \<Rightarrow> addr \<Rightarrow> addr" where
  "mslab_tree_next t s = (case filter (\<lambda>x. mslab_cmp x s = 1) t of [] \<Rightarrow> NULL | x # _ \<Rightarrow> x)"

definition upd_ms :: "addr \<Rightarrow> (mslab \<Rightarrow> mslab) \<Rightarrow> mslabs \<Rightarrow> mslabs" where
  "upd_ms s f m = m(s := f (m s))"

section \<open>Operations\<close>

definition mslab_create :: "addr \<Rightarrow> mempool \<Rightarrow> mslabs \<Rightarrow> mslabs" where
  "mslab_create s mp m = upd_ms s (\<lambda>_. \<lparr>ms_free_list = NULL, ms_free_offset = mp_offset mp, ms_nfree = objcount mp,
     ms_in_hot_slabs = False, ms_mempool = mp_self mp\<rparr>) m"

text \<open>Taking a slab out of the tree, with the cached leftmost node kept up to date.\<close>

definition mslab_cool :: "addr \<Rightarrow> mslabs \<times> mempool \<Rightarrow> mslabs \<times> mempool" where
  "mslab_cool s = (\<lambda>(m, mp).
     (let mp = (if s = first_hot_slab mp then mp\<lparr>first_hot_slab := mslab_tree_next (hot_slabs mp) s\<rparr> else mp);
          mp = mp\<lparr>hot_slabs := mslab_tree_remove (hot_slabs mp) s\<rparr>
      in (upd_ms s (ms_in_hot_slabs_update (\<lambda>_. False)) m, mp)))"

text \<open>Taking an object of a slab: from the list of freed objects, or from the untouched area.\<close>

definition mslab_take :: "slab_cache \<Rightarrow> mempool \<Rightarrow> addr \<Rightarrow> mslab \<Rightarrow> addr \<times> mslab" where
  "mslab_take c mp s h =
     (let (result, h) =
        (if ms_free_list h \<noteq> NULL then (ms_free_list h, h\<lparr>ms_free_list := load_ptr c (ms_free_list h)\<rparr>)
         else (s + ms_free_offset h, h\<lparr>ms_free_offset := (ms_free_offset h + objsize mp) mod 2 ^ 32\<rparr>))
      in (result, h\<lparr>ms_nfree := ms_nfree h - 1\<rparr>))"

definition mslab_alloc :: "slab_cache \<Rightarrow> mslabs \<Rightarrow> mempool \<Rightarrow> addr \<Rightarrow> (addr \<times> mslabs \<times> mempool) option" where
  "mslab_alloc c m mp s = do {
     c_assert (ms_nfree (m s) \<noteq> 0);
     let (result, h) = mslab_take c mp s (m s);
     let m = upd_ms s (\<lambda>_. h) m;
     let (m, mp) = (if ms_nfree (m s) = 0 then mslab_cool s (m, mp) else (m, mp));
     Some (result, m, mp) }"

definition mempool_free_spare_slab :: "slab_cache \<Rightarrow> mempool \<Rightarrow> (slab_cache \<times> mempool) option" where
  "mempool_free_spare_slab c mp = do {
     c_assert (mp_spare mp \<noteq> NULL);
     let mp' = mp\<lparr>mp_slabs := slab_list_del (mp_slabs mp) (mp_spare mp) (sl_size (hdr c (mp_spare mp)))\<rparr>;
     c \<leftarrow> slab_put_with_order c (mp_spare mp);
     Some (c, mp'\<lparr>mp_spare := NULL\<rparr>) }"

text \<open>A slab without objects becomes the spare one when it has the lower address; one slab is given back.\<close>

definition mslab_release :: "slab_cache \<Rightarrow> mempool \<Rightarrow> addr \<Rightarrow> (slab_cache \<times> mempool) option" where
  "mslab_release c mp s =
     (if mp_spare mp > s then do {
        (c, mp) \<leftarrow> mempool_free_spare_slab c mp;
        Some (c, mp\<lparr>mp_spare := s\<rparr>) }
      else if mp_spare mp \<noteq> NULL then do {
        let mp = mp\<lparr>mp_slabs := slab_list_del (mp_slabs mp) s (sl_size (hdr c s))\<rparr>;
        c \<leftarrow> slab_put_with_order c s;
        Some (c, mp) }
      else Some (c, mp\<lparr>mp_spare := s\<rparr>))"

text \<open>Putting a slab into the tree of the slabs with enough free objects.\<close>

definition mslab_heat :: "addr \<Rightarrow> mslabs \<times> mempool \<Rightarrow> mslabs \<times> mempool" where
  "mslab_heat s = (\<lambda>(m, mp).
     (let mp = mp\<lparr>cold_slabs := remove1 s (cold_slabs mp)\<rparr>;
          mp = mp\<lparr>hot_slabs := mslab_tree_insert (hot_slabs mp) s\<rparr>;
          m = upd_ms s (ms_in_hot_slabs_update (\<lambda>_. True)) m
      in (m, if first_hot_slab mp = NULL \<or> mslab_cmp (first_hot_slab mp) s = 1 then mp\<lparr>first_hot_slab := s\<rparr> else mp)))"

definition mslab_free :: "slab_cache \<Rightarrow> mslabs \<Rightarrow> mempool \<Rightarrow> addr \<Rightarrow> addr \<Rightarrow> (slab_cache \<times> mslabs \<times> mempool) option" where
  "mslab_free c m mp s ptr = do {
     let c = store_ptr c ptr (ms_free_list (m s));
     let m = upd_ms s (\<lambda>h. h\<lparr>ms_free_list := ptr, ms_nfree := ms_nfree h + 1\<rparr>) m;
     if \<not> ms_in_hot_slabs (m s) \<and> ms_nfree (m s) \<ge> drop_bit MAX_COLD_FRACTION_LB (objcount mp) then do {
       let (m, mp) = mslab_heat s (m, mp);
       Some (c, m, mp) }
     else if ms_nfree (m s) = 1 then Some (c, m, mp\<lparr>cold_slabs := s # cold_slabs mp\<rparr>)
     else if ms_nfree (m s) = objcount mp then do {
       let (m, mp) = mslab_cool s (m, mp);
       (c, mp) \<leftarrow> mslab_release c mp s;
       Some (c, m, mp) }
     else Some (c, m, mp) }"

definition mempool_create_with_order :: "addr \<Rightarrow> slab_cache \<Rightarrow> nat \<Rightarrow> nat \<Rightarrow> mempool option" where
  "mempool_create_with_order self c osz order = do {
     c_assert (order \<le> order_max c);
     slab_size \<leftarrow> slab_order_size c order;
     c_assert (osz \<noteq> 0);
     let cnt = nat ((int slab_size - int mslab_sizeof) mod 2 ^ 32) div osz;
     c_assert (cnt \<noteq> 0);
     Some \<lparr>mp_slabs = slab_list_create, hot_slabs = [], first_hot_slab = NULL, cold_slabs = [], mp_spare = NULL,
       objsize = osz, mp_order = order, objcount = cnt, mp_offset = nat ((int slab_size - int (cnt * osz)) mod 2 ^ 32),
       slab_ptr_mask = NOT (int slab_size - 1), mp_self = self\<rparr> }"

text \<open>
  The slab size \<open>mempool_create\<close> asks for is \<open>overhead / 0.01\<close> in double precision: the quotient
  is within a relative distance of \<open>2.1e-17\<close> of \<open>overhead * 100\<close>, closer than half the distance of
  neighbouring doubles, so for the 32-bit values here it is rounded to that integer.
\<close>

definition mempool_create :: "addr \<Rightarrow> slab_cache \<Rightarrow> nat \<Rightarrow> mempool option" where
  "mempool_create self c osz = do {
     let overhead = (if osz > 112 then osz else 112);
     let slab_size = overhead * 100;
     let slab_size = (if slab_size > ar_slab_size (sc_arena c) then ar_slab_size (sc_arena c) else slab_size);
     let order = slab_order c slab_size;
     c_assert (order \<le> order_max c);
     mempool_create_with_order self c osz order }"

fun slab_put_all_with_order :: "slab_cache \<Rightarrow> addr list \<Rightarrow> slab_cache option" where
  "slab_put_all_with_order c [] = Some c"
| "slab_put_all_with_order c (s # rest) = do { c \<leftarrow> slab_put_with_order c s; slab_put_all_with_order c rest }"

definition mempool_destroy :: "slab_cache \<Rightarrow> mempool \<Rightarrow> slab_cache option" where
  "mempool_destroy c mp = slab_put_all_with_order c (sl_slabs (mp_slabs mp))"

text \<open>The part of \<open>mempool_alloc\<close> that finds a slab when no slab is hot.\<close>

definition mempool_refill :: "os \<Rightarrow> slab_cache \<Rightarrow> mslabs \<Rightarrow> mempool \<Rightarrow> (addr \<times> slab_cache \<times> mslabs \<times> mempool) option" where
  "mempool_refill os c m mp =
     (if mp_spare mp \<noteq> NULL then Some (mp_spare mp, c, m, mp\<lparr>mp_spare := NULL\<rparr>)
      else do {
        (s, c) \<leftarrow> slab_get_with_order os c (mp_order mp);
        if s \<noteq> NULL then
          Some (s, c, mslab_create s mp m, mp\<lparr>mp_slabs := slab_list_add (mp_slabs mp) s (sl_size (hdr c s))\<rparr>)
        else (case cold_slabs mp of s # rest \<Rightarrow> Some (s, c, m, mp\<lparr>cold_slabs := rest\<rparr>) | [] \<Rightarrow> Some (NULL, c, m, mp)) })"

text \<open>The slab the next object comes from: the hot slab of the lowest address, or one that becomes hot now.\<close>

definition mempool_ready :: "os \<Rightarrow> slab_cache \<Rightarrow> mslabs \<Rightarrow> mempool \<Rightarrow> (addr \<times> slab_cache \<times> mslabs \<times> mempool) option" where
  "mempool_ready os c m mp =
     (if first_hot_slab mp \<noteq> NULL then Some (first_hot_slab mp, c, m, mp)
      else do {
        (s, c, m, mp) \<leftarrow> mempool_refill os c m mp;
        if s = NULL then Some (NULL, c, m, mp)
        else do {
          c_assert (\<not> ms_in_hot_slabs (m s));
          let mp = mp\<lparr>hot_slabs := mslab_tree_insert (hot_slabs mp) s\<rparr>;
          let m = upd_ms s (ms_in_hot_slabs_update (\<lambda>_. True)) m;
          Some (s, c, m, mp\<lparr>first_hot_slab := s\<rparr>) } })"

definition mempool_alloc :: "os \<Rightarrow> slab_cache \<Rightarrow> mslabs \<Rightarrow> mempool \<Rightarrow> (addr \<times> slab_cache \<times> mslabs \<times> mempool) option" where
  "mempool_alloc os c m mp = do {
     (s, c, m, mp) \<leftarrow> mempool_ready os c m mp;
     if s = NULL then Some (NULL, c, m, mp)
     else do {
       let mp = mp\<lparr>mp_slabs := add_used (int (objsize mp)) (mp_slabs mp)\<rparr>;
       (ptr, m, mp) \<leftarrow> mslab_alloc c m mp s;
       c_assert (ptr \<noteq> NULL);
       Some (ptr, c, m, mp) } }"

definition mempool_free_slab :: "slab_cache \<Rightarrow> mslabs \<Rightarrow> mempool \<Rightarrow> addr \<Rightarrow> addr \<Rightarrow> (slab_cache \<times> mslabs \<times> mempool) option" where
  "mempool_free_slab c m mp s ptr = do {
     c_assert (ptr \<noteq> NULL);
     let c = memset c ptr 0x23 (objsize mp);
     c_assert (sl_order (hdr c s) = mp_order mp);
     let mp = mp\<lparr>mp_slabs := add_used (- int (objsize mp)) (mp_slabs mp)\<rparr>;
     mslab_free c m mp s ptr }"

definition mempool_free :: "slab_cache \<Rightarrow> mslabs \<Rightarrow> mempool \<Rightarrow> addr \<Rightarrow> (slab_cache \<times> mslabs \<times> mempool) option" where
  "mempool_free c m mp ptr = do {
     c_assert (ptr \<noteq> NULL);
     s \<leftarrow> slab_from_ptr c ptr (slab_ptr_mask mp);
     mempool_free_slab c m mp s ptr }"

definition mempool_used :: "mempool \<Rightarrow> int" where
  "mempool_used mp = st_used (mp_slabs mp)"

definition mempool_total :: "mempool \<Rightarrow> int" where
  "mempool_total mp = st_total (mp_slabs mp)"

definition mempool_count :: "mempool \<Rightarrow> int" where
  "mempool_count mp = st_used (mp_slabs mp) div int (objsize mp)"

definition mempool_stats :: "slab_cache \<Rightarrow> mempool \<Rightarrow> mempool_stats option" where
  "mempool_stats c mp = do {
     slabsize \<leftarrow> slab_order_size c (mp_order mp);
     let slabcount = (st_total (mp_slabs mp) div int slabsize) mod 2 ^ 32;
     Some \<lparr>mst_objsize = objsize mp, mst_objcount = mempool_count mp mod 2 ^ 32, mst_slabsize = slabsize,
       mst_slabcount = slabcount, mst_used = st_used (mp_slabs mp),
       mst_total = st_total (mp_slabs mp) - (int mslab_sizeof * slabcount) mod 2 ^ 32\<rparr> }"

section \<open>Facts on pointers and free lists\<close>

lemma digits_256: "(\<Sum>i < n. (v div 256 ^ i mod 256) * 256 ^ i) = v mod 256 ^ n" for v :: nat
proof (induction n)
  case (Suc n)
  have "v mod 256 ^ Suc n = v mod (256 ^ n * 256)" by (simp only: power_Suc2)
  also have "\<dots> = 256 ^ n * (v div 256 ^ n mod 256) + v mod 256 ^ n" by (rule mod_mult2_eq)
  finally show ?case using Suc by (simp only: sum.lessThan_Suc mult.commute add.commute)
qed simp

lemma load_store_ptr: "v < 2 ^ 64 \<Longrightarrow> load_ptr (store_ptr c p v) p = v"
proof -
  assume v: "v < 2 ^ 64"
  have "unat (mem (store_ptr c p v) (p + i)) = v div 256 ^ i mod 256" if "i < 8" for i
    using that by (simp add: store_ptr_def write_bytes_def le_bytes_def unsigned_of_nat take_bit_eq_mod)
  then have "load_ptr (store_ptr c p v) p = (\<Sum>i < 8. (v div 256 ^ i mod 256) * 256 ^ i)" by (simp add: load_ptr_def)
  also have "\<dots> = v" using v by (simp add: digits_256)
  finally show ?thesis .
qed

lemma load_ptr_cong: "(\<And>x. x \<in> span p 8 \<Longrightarrow> mem c' x = mem c x) \<Longrightarrow> load_ptr c' p = load_ptr c p"
  by (simp add: load_ptr_def)

lemma store_ptr_frame:
  "x \<notin> span p 8 \<Longrightarrow> mem (store_ptr c p v) x = mem c x" "hdr (store_ptr c p v) = hdr c"
  "cache_inv (store_ptr c p v) V = cache_inv c V" "owns (store_ptr c p v) others xs = owns c others xs" "same_cache c (store_ptr c p v)"
  by (auto simp: store_ptr_def write_bytes_def le_bytes_def)

text \<open>A chain of free objects: each holds the address of the next, the last one NULL.\<close>

fun obj_chain :: "slab_cache \<Rightarrow> addr \<Rightarrow> addr list \<Rightarrow> bool" where
  "obj_chain c p [] \<longleftrightarrow> p = NULL"
| "obj_chain c p (a # F) \<longleftrightarrow> p = a \<and> a \<noteq> NULL \<and> obj_chain c (load_ptr c a) F"

fun free_objs :: "slab_cache \<Rightarrow> nat \<Rightarrow> addr \<Rightarrow> addr list" where
  "free_objs c 0 p = []"
| "free_objs c (Suc n) p = (if p = NULL then [] else p # free_objs c n (load_ptr c p))"

lemma obj_chain_free_objs: "obj_chain c p F \<Longrightarrow> length F \<le> n \<Longrightarrow> free_objs c n p = F"
proof (induction F arbitrary: n p)
  case Nil
  then show ?case by (cases n) simp_all
next
  case (Cons a F)
  then show ?case by (cases n) simp_all
qed

lemma obj_chain_cong:
  assumes "\<And>a x. a \<in> set F \<Longrightarrow> x \<in> span a 8 \<Longrightarrow> mem c' x = mem c x"
  shows "obj_chain c' p F = obj_chain c p F"
  using assms
proof (induction F arbitrary: p)
  case (Cons a F)
  have "load_ptr c' a = load_ptr c a" by (rule load_ptr_cong) (rule Cons.prems, simp_all)
  moreover have "obj_chain c' (load_ptr c a) F = obj_chain c (load_ptr c a) F" by (rule Cons.IH) (rule Cons.prems, simp_all)
  ultimately show ?case by simp
qed simp

section \<open>The invariant of a slab\<close>

definition obj_at :: "mempool \<Rightarrow> addr \<Rightarrow> nat \<Rightarrow> addr" where
  "obj_at mp s i = s + mp_offset mp + i * objsize mp"

text \<open>The number of objects of the slab that were ever handed out.\<close>

definition touched :: "mempool \<Rightarrow> mslab \<Rightarrow> nat" where
  "touched mp h = (ms_free_offset h - mp_offset mp) div objsize mp"

definition slab_free_objs :: "slab_cache \<Rightarrow> mslab \<Rightarrow> addr list" where
  "slab_free_objs c h = free_objs c (ms_nfree h) (ms_free_list h)"

definition slab_live :: "slab_cache \<Rightarrow> mempool \<Rightarrow> addr \<Rightarrow> mslab \<Rightarrow> addr set" where
  "slab_live c mp s h = obj_at mp s ` {..< touched mp h} - set (slab_free_objs c h)"

definition mslab_inv :: "slab_cache \<Rightarrow> mempool \<Rightarrow> addr \<Rightarrow> mslab \<Rightarrow> bool" where
  "mslab_inv c mp s h \<longleftrightarrow>
     ms_free_offset h = mp_offset mp + touched mp h * objsize mp \<and> touched mp h \<le> objcount mp \<and>
     obj_chain c (ms_free_list h) (slab_free_objs c h) \<and> distinct (slab_free_objs c h) \<and>
     set (slab_free_objs c h) \<subseteq> obj_at mp s ` {..< touched mp h} \<and>
     ms_nfree h = length (slab_free_objs c h) + (objcount mp - touched mp h) \<and> ms_mempool h = mp_self mp"

abbreviation pool_slab_size :: "slab_cache \<Rightarrow> mempool \<Rightarrow> nat" where
  "pool_slab_size c mp \<equiv> 2 ^ (mp_order mp + order0_size_lb c)"

definition mempool_config :: "slab_cache \<Rightarrow> mempool \<Rightarrow> bool" where
  "mempool_config c mp \<longleftrightarrow> mp_order mp \<le> order_max c \<and> 8 \<le> objsize mp \<and> 0 < objcount mp \<and> mslab_sizeof \<le> mp_offset mp \<and>
     mp_offset mp + objcount mp * objsize mp = pool_slab_size c mp \<and>
     slab_ptr_mask mp = NOT (2 ^ (mp_order mp + order0_size_lb c) - 1) \<and>
     pool_slab_size c mp \<le> ar_slab_size (sc_arena c) \<and> ar_slab_size (sc_arena c) < 2 ^ 32"

text \<open>The parts of the pool that the objects of its slabs depend on.\<close>

definition same_shape :: "mempool \<Rightarrow> mempool \<Rightarrow> bool" where
  "same_shape mp mp' \<longleftrightarrow> mp_offset mp' = mp_offset mp \<and> objsize mp' = objsize mp \<and> objcount mp' = objcount mp \<and>
     mp_order mp' = mp_order mp \<and> slab_ptr_mask mp' = slab_ptr_mask mp \<and> mp_self mp' = mp_self mp"

lemma same_shape:
  assumes "same_shape mp mp'"
  shows "obj_at mp' = obj_at mp" and "touched mp' = touched mp" and "slab_live c mp' s h = slab_live c mp s h"
    and "mslab_inv c mp' s h = mslab_inv c mp s h" and "mempool_config c mp' = mempool_config c mp"
    and "pool_slab_size c mp' = pool_slab_size c mp" and "objcount mp' = objcount mp" and "objsize mp' = objsize mp"
    and "mp_order mp' = mp_order mp" and "mp_self mp' = mp_self mp" and "slab_ptr_mask mp' = slab_ptr_mask mp"
  using assms by (simp_all add: same_shape_def obj_at_def touched_def slab_live_def mslab_inv_def mempool_config_def fun_eq_iff)

lemma same_shape_trans [trans]: "same_shape a b \<Longrightarrow> same_shape b c \<Longrightarrow> same_shape a c"
  by (simp add: same_shape_def)

lemma same_shape_updates [simp]:
  "same_shape mp mp" "same_shape mp (mp\<lparr>hot_slabs := a\<rparr>)" "same_shape mp (mp\<lparr>first_hot_slab := f\<rparr>)" "same_shape mp (mp\<lparr>cold_slabs := b\<rparr>)"
  "same_shape mp (mp\<lparr>mp_spare := d\<rparr>)" "same_shape mp (mp\<lparr>mp_slabs := e\<rparr>)"
  by (simp_all add: same_shape_def)

lemma obj_at_inj: "0 < objsize mp \<Longrightarrow> inj (obj_at mp s)"
  by (auto simp: obj_at_def inj_on_def)

lemma obj_at_disjoint: "i \<noteq> j \<Longrightarrow> span (obj_at mp s i) (objsize mp) \<inter> span (obj_at mp s j) (objsize mp) = {}"
proof -
  have *: "span (obj_at mp s i) (objsize mp) \<inter> span (obj_at mp s j) (objsize mp) = {}" if "i < j" for i j
  proof -
    have "Suc i * objsize mp \<le> j * objsize mp" using that by (intro mult_le_mono1) simp
    then have "obj_at mp s i + objsize mp \<le> obj_at mp s j" by (simp add: obj_at_def)
    then show ?thesis by auto
  qed
  assume "i \<noteq> j"
  then show ?thesis using * [of i j] * [of j i] by (cases "i < j") auto
qed

lemma obj_at_bounds:
  assumes "mempool_config c mp" and "i < objcount mp"
  shows "span (obj_at mp s i) (objsize mp) \<subseteq> span s (pool_slab_size c mp)"
    and "s < obj_at mp s i" and "span (obj_at mp s i) 8 \<subseteq> span (obj_at mp s i) (objsize mp)"
proof -
  have cfg: "8 \<le> objsize mp" "mslab_sizeof \<le> mp_offset mp" "mp_offset mp + objcount mp * objsize mp = pool_slab_size c mp"
    using assms(1) by (simp_all add: mempool_config_def)
  have "Suc i * objsize mp \<le> objcount mp * objsize mp" using assms(2) by (intro mult_le_mono1) simp
  then show "span (obj_at mp s i) (objsize mp) \<subseteq> span s (pool_slab_size c mp)"
    using cfg(3) by (intro span_subset) (simp_all add: obj_at_def)
  show "s < obj_at mp s i" using cfg(2) by (simp add: obj_at_def mslab_sizeof_def align_up_def)
  show "span (obj_at mp s i) 8 \<subseteq> span (obj_at mp s i) (objsize mp)" using cfg(1) by (intro span_subset) simp_all
qed

text \<open>A live object lies in its slab behind the slab's header.\<close>

lemma slab_live_at:
  assumes "mempool_config c mp" and "mslab_inv c mp s h" and "p \<in> slab_live c mp s h"
  obtains i where "p = obj_at mp s i" and "i < touched mp h" and "i < objcount mp" and "span p (objsize mp) \<subseteq> span s (pool_slab_size c mp)"
    and "s < p"
proof -
  obtain i where i: "p = obj_at mp s i" "i < touched mp h" using assms(3) by (auto simp: slab_live_def)
  have "i < objcount mp" using i(2) assms(2) by (simp add: mslab_inv_def)
  then show thesis using obj_at_bounds [OF assms(1), of i s] i by (intro that [of i]) simp_all
qed

lemma slab_live_disjoint:
  assumes "p \<in> slab_live c mp s h" and "q \<in> slab_live c mp s h" and "p \<noteq> q"
  shows "span p (objsize mp) \<inter> span q (objsize mp) = {}"
proof -
  obtain i j where "p = obj_at mp s i" "q = obj_at mp s j" using assms(1,2) by (auto simp: slab_live_def)
  then show ?thesis using assms(3) obj_at_disjoint [of i j mp s] by fastforce
qed

lemma slab_frame:
  assumes inv: "mslab_inv c mp s h" and cfg: "mempool_config c mp"
    and m: "\<And>x. x \<in> span s (pool_slab_size c mp) \<Longrightarrow> mem c' x = mem c x"
  shows "mslab_inv c' mp s h" and "slab_live c' mp s h = slab_live c mp s h"
proof -
  let ?F = "slab_free_objs c h"
  have F: "set ?F \<subseteq> obj_at mp s ` {..< touched mp h}" "touched mp h \<le> objcount mp" "obj_chain c (ms_free_list h) ?F"
    "ms_nfree h = length ?F + (objcount mp - touched mp h)" using inv by (simp_all add: mslab_inv_def)
  have ch: "obj_chain c' (ms_free_list h) ?F = obj_chain c (ms_free_list h) ?F"
  proof (rule obj_chain_cong)
    fix a x assume a: "a \<in> set ?F" and x: "x \<in> span a 8"
    obtain i where i: "a = obj_at mp s i" "i < objcount mp" using F(1,2) a by auto
    show "mem c' x = mem c x" using obj_at_bounds(1,3) [OF cfg i(2), of s] x unfolding i(1) by (intro m) blast
  qed
  then have F': "slab_free_objs c' h = ?F" unfolding slab_free_objs_def [of c'] using F(3,4) by (intro obj_chain_free_objs) simp_all
  show "mslab_inv c' mp s h" unfolding mslab_inv_def F' using inv ch by (simp add: mslab_inv_def)
  show "slab_live c' mp s h = slab_live c mp s h" by (simp add: slab_live_def F')
qed

lemma slab_live_card:
  assumes "mslab_inv c mp s h" and "0 < objsize mp"
  shows "card (slab_live c mp s h) = objcount mp - ms_nfree h" and "ms_nfree h \<le> objcount mp" and "finite (slab_live c mp s h)"
proof -
  let ?F = "slab_free_objs c h" and ?T = "obj_at mp s ` {..< touched mp h}"
  have F: "distinct ?F" "set ?F \<subseteq> ?T" "touched mp h \<le> objcount mp" "ms_nfree h = length ?F + (objcount mp - touched mp h)"
    using assms(1) by (simp_all add: mslab_inv_def)
  have cT: "card ?T = touched mp h" using obj_at_inj [OF assms(2)] by (simp add: card_image inj_on_def)
  have cF: "card (set ?F) = length ?F" using F(1) by (rule distinct_card)
  have le: "length ?F \<le> touched mp h" using card_mono [OF _ F(2)] cT cF by simp
  show "card (slab_live c mp s h) = objcount mp - ms_nfree h"
    unfolding slab_live_def using card_Diff_subset [OF _ F(2)] cT cF F(3,4) le by simp
  show "ms_nfree h \<le> objcount mp" using F(3,4) le by simp
  show "finite (slab_live c mp s h)" by (simp add: slab_live_def)
qed

lemma slab_live_nfree: "mslab_inv c mp s h \<Longrightarrow> 0 < objsize mp \<Longrightarrow> p \<in> slab_live c mp s h \<Longrightarrow> ms_nfree h < objcount mp"
  using slab_live_card [of c mp s h] card_gt_0_iff [of "slab_live c mp s h"] by fastforce

text \<open>The flag and the list links do not matter for the objects.\<close>

lemma mslab_inv_in_hot [simp]:
  "mslab_inv c mp s (h\<lparr>ms_in_hot_slabs := b\<rparr>) = mslab_inv c mp s h" "slab_live c mp s (h\<lparr>ms_in_hot_slabs := b\<rparr>) = slab_live c mp s h"
  by (simp_all add: mslab_inv_def slab_live_def slab_free_objs_def touched_def)

lemma mslab_fresh:
  assumes "0 < objsize mp"
  shows "mslab_inv c mp s (mslab_create s mp m s)" and "slab_live c mp s (mslab_create s mp m s) = {}"
    and "ms_nfree (mslab_create s mp m s) = objcount mp" and "\<not> ms_in_hot_slabs (mslab_create s mp m s)"
proof -
  have t: "touched mp (mslab_create s mp m s) = 0" by (simp add: mslab_create_def upd_ms_def touched_def)
  have f: "slab_free_objs c (mslab_create s mp m s) = []"
    by (cases "objcount mp") (simp_all add: slab_free_objs_def mslab_create_def upd_ms_def)
  show "mslab_inv c mp s (mslab_create s mp m s)" unfolding mslab_inv_def f t by (simp add: mslab_create_def upd_ms_def)
  show "slab_live c mp s (mslab_create s mp m s) = {}" unfolding slab_live_def t by simp
  show "ms_nfree (mslab_create s mp m s) = objcount mp" "\<not> ms_in_hot_slabs (mslab_create s mp m s)"
    by (simp_all add: mslab_create_def upd_ms_def)
qed

section \<open>Taking and returning an object of a slab\<close>

lemma mslab_take_spec:
  assumes cfg: "mempool_config c mp" and inv: "mslab_inv c mp s h" and n: "0 < ms_nfree h"
  obtains i h' where "mslab_take c mp s h = (obj_at mp s i, h')" and "i < objcount mp" and "obj_at mp s i \<notin> slab_live c mp s h"
    and "mslab_inv c mp s h'" and "slab_live c mp s h' = insert (obj_at mp s i) (slab_live c mp s h)"
    and "ms_nfree h' = ms_nfree h - 1" and "ms_in_hot_slabs h' = ms_in_hot_slabs h"
proof -
  let ?F = "slab_free_objs c h" and ?T = "obj_at mp s ` {..< touched mp h}"
  have F: "ms_free_offset h = mp_offset mp + touched mp h * objsize mp" "touched mp h \<le> objcount mp" "obj_chain c (ms_free_list h) ?F"
    "distinct ?F" "set ?F \<subseteq> ?T" "ms_nfree h = length ?F + (objcount mp - touched mp h)" "ms_mempool h = mp_self mp"
    using inv by (simp_all add: mslab_inv_def)
  have sz: "8 \<le> objsize mp" "mp_offset mp + objcount mp * objsize mp < 2 ^ 32" using cfg by (simp_all add: mempool_config_def)
  show thesis
  proof (cases ?F)
    case (Cons a F')
    obtain i where i: "a = obj_at mp s i" "i < touched mp h" using F(5) Cons by auto
    define h' where "h' = h\<lparr>ms_free_list := load_ptr c a, ms_nfree := ms_nfree h - 1\<rparr>"
    have ch: "ms_free_list h = a" "a \<noteq> NULL" "obj_chain c (load_ptr c a) F'" using F(3) Cons by simp_all
    have f: "slab_free_objs c h' = F'" unfolding slab_free_objs_def h'_def
      by (rule obj_chain_free_objs) (use ch F(6) Cons in simp_all)
    have t: "touched mp h' = touched mp h" by (simp add: h'_def touched_def)
    have "mslab_take c mp s h = (obj_at mp s i, h')" using ch by (simp add: mslab_take_def h'_def i(1))
    moreover have "mslab_inv c mp s h'" unfolding mslab_inv_def f t using F Cons ch by (simp add: h'_def)
    moreover have "slab_live c mp s h' = insert (obj_at mp s i) (slab_live c mp s h)"
      unfolding slab_live_def f t i(1) [symmetric] Cons using F(4,5) Cons by auto
    moreover have "obj_at mp s i \<notin> slab_live c mp s h" unfolding slab_live_def Cons i(1) by simp
    ultimately show thesis using i(2) F(2) by (intro that [of i h']) (simp_all add: h'_def)
  next
    case Nil
    have fl: "ms_free_list h = NULL" using F(3) Nil by simp
    have lt: "touched mp h < objcount mp" using F(6) n Nil by simp
    then have "Suc (touched mp h) * objsize mp \<le> objcount mp * objsize mp" by (intro mult_le_mono1) simp
    then have b: "mp_offset mp + Suc (touched mp h) * objsize mp < 2 ^ 32" using sz(2) by linarith
    define h' where "h' = h\<lparr>ms_free_offset := mp_offset mp + Suc (touched mp h) * objsize mp, ms_nfree := ms_nfree h - 1\<rparr>"
    have o: "(ms_free_offset h + objsize mp) mod 2 ^ 32 = mp_offset mp + Suc (touched mp h) * objsize mp"
      using b by (simp add: F(1))
    have "mslab_take c mp s h = (s + ms_free_offset h, h')" using fl o by (simp add: mslab_take_def h'_def)
    moreover have "s + ms_free_offset h = obj_at mp s (touched mp h)" by (simp add: obj_at_def F(1))
    moreover have f: "slab_free_objs c h' = []" using fl by (cases "ms_nfree h - 1") (simp_all add: slab_free_objs_def h'_def)
    moreover have t: "touched mp h' = Suc (touched mp h)" using sz(1) unfolding touched_def [of mp h'] by (simp add: h'_def)
    moreover have "mslab_inv c mp s h'" unfolding mslab_inv_def f t using fl F(6,7) lt Nil by (simp add: h'_def)
    moreover have "slab_live c mp s h' = insert (obj_at mp s (touched mp h)) (slab_live c mp s h)"
      unfolding slab_live_def f t Nil by (simp add: lessThan_Suc)
    moreover have "obj_at mp s (touched mp h) \<notin> slab_live c mp s h"
      unfolding slab_live_def using sz(1) by (auto simp: obj_at_def)
    ultimately show thesis using lt by (intro that [of "touched mp h" h']) (simp_all add: h'_def)
  qed
qed

lemma mslab_return_spec:
  assumes cfg: "mempool_config c mp" and inv: "mslab_inv c mp s h" and p: "p \<in> slab_live c mp s h"
    and m: "\<And>x. x \<notin> span p (objsize mp) \<Longrightarrow> mem c' x = mem c x" and l: "load_ptr c' p = ms_free_list h"
  defines "h' \<equiv> h\<lparr>ms_free_list := p, ms_nfree := ms_nfree h + 1\<rparr>"
  shows "mslab_inv c' mp s h'" and "slab_live c' mp s h' = slab_live c mp s h - {p}"
proof -
  let ?F = "slab_free_objs c h" and ?T = "obj_at mp s ` {..< touched mp h}"
  have F: "ms_free_offset h = mp_offset mp + touched mp h * objsize mp" "touched mp h \<le> objcount mp" "obj_chain c (ms_free_list h) ?F"
    "distinct ?F" "set ?F \<subseteq> ?T" "ms_nfree h = length ?F + (objcount mp - touched mp h)" "ms_mempool h = mp_self mp"
    using inv by (simp_all add: mslab_inv_def)
  obtain i where i: "p = obj_at mp s i" "i < touched mp h" "s < p" using slab_live_at [OF cfg inv p] by metis
  have new: "p \<notin> set ?F" using p by (simp add: slab_live_def)
  have "obj_chain c' (ms_free_list h) ?F = obj_chain c (ms_free_list h) ?F"
  proof (rule obj_chain_cong)
    fix a x assume a: "a \<in> set ?F" and x: "x \<in> span a 8"
    obtain j where j: "a = obj_at mp s j" "j < objcount mp" using F(2,5) a by auto
    have "j \<noteq> i" using new a i(1) j(1) by blast
    then have "span a (objsize mp) \<inter> span p (objsize mp) = {}" unfolding i(1) j(1) by (rule obj_at_disjoint)
    moreover have "x \<in> span a (objsize mp)" using obj_at_bounds(3) [OF cfg j(2), of s] x unfolding j(1) by (rule subsetD)
    ultimately show "mem c' x = mem c x" by (intro m) blast
  qed
  then have ch: "obj_chain c' p (p # ?F)" using F(3) i(3) l by simp
  have f: "slab_free_objs c' h' = p # ?F" unfolding slab_free_objs_def [of c'] h'_def using ch F(6) by (intro obj_chain_free_objs) simp_all
  have t: "touched mp h' = touched mp h" by (simp add: h'_def touched_def)
  show "mslab_inv c' mp s h'" unfolding mslab_inv_def f t using F ch new i by (simp add: h'_def)
  show "slab_live c' mp s h' = slab_live c mp s h - {p}" unfolding slab_live_def f t by auto
qed

section \<open>The lists of slabs\<close>

definition first_of :: "addr list \<Rightarrow> addr" where
  "first_of xs = (case xs of [] \<Rightarrow> NULL | x # _ \<Rightarrow> x)"

abbreviation pool_slabs :: "mempool \<Rightarrow> addr list" where
  "pool_slabs mp \<equiv> sl_slabs (mp_slabs mp)"

text \<open>
  A slab with free objects is hot, cold or the spare one, and a full slab is none of them. A cold
  slab has fewer free objects than an eighth of its objects. The spare slab has no live
  objects; a hot slab has some, except one with room for a single object. The slabs of \<open>E\<close> are
  on their way from one place to another.
\<close>

definition slab_place :: "mslabs \<Rightarrow> mempool \<Rightarrow> addr \<Rightarrow> bool" where
  "slab_place m mp s \<longleftrightarrow>
     (ms_in_hot_slabs (m s) \<longleftrightarrow> s \<in> set (hot_slabs mp)) \<and>
     (s \<in> set (hot_slabs mp) \<longrightarrow> s \<notin> set (cold_slabs mp) \<and> s \<noteq> mp_spare mp \<and> 0 < ms_nfree (m s) \<and>
        (1 < objcount mp \<longrightarrow> ms_nfree (m s) < objcount mp)) \<and>
     (s \<in> set (cold_slabs mp) \<longrightarrow> s \<noteq> mp_spare mp \<and> 0 < ms_nfree (m s) \<and> ms_nfree (m s) < objcount mp div 8) \<and>
     (s = mp_spare mp \<longrightarrow> ms_nfree (m s) = objcount mp) \<and>
     (0 < ms_nfree (m s) \<longrightarrow> s \<in> set (hot_slabs mp) \<or> s \<in> set (cold_slabs mp) \<or> s = mp_spare mp)"

definition pool_lists :: "addr set \<Rightarrow> mslabs \<Rightarrow> mempool \<Rightarrow> bool" where
  "pool_lists E m mp \<longleftrightarrow>
     sorted (hot_slabs mp) \<and> distinct (hot_slabs mp) \<and> distinct (cold_slabs mp) \<and>
     set (hot_slabs mp) \<subseteq> set (pool_slabs mp) \<and> set (cold_slabs mp) \<subseteq> set (pool_slabs mp) \<and>
     first_hot_slab mp = first_of (hot_slabs mp) \<and> NULL \<notin> set (pool_slabs mp) \<and>
     (mp_spare mp \<noteq> NULL \<longrightarrow> mp_spare mp \<in> set (pool_slabs mp)) \<and>
     (\<forall>s \<in> set (pool_slabs mp) - E. slab_place m mp s)"

lemma first_of_insort: "sorted xs \<Longrightarrow> NULL \<notin> set xs \<Longrightarrow>
    first_of (insort s xs) = (if first_of xs = NULL \<or> mslab_cmp (first_of xs) s = 1 then s else first_of xs)"
  by (cases xs) (auto simp: first_of_def mslab_cmp_def)

lemma first_of_remove1:
  assumes "sorted xs" and "distinct xs" and "NULL \<notin> set xs" and "s \<in> set xs"
  shows "first_of (remove1 s xs) = (if s = first_of xs then mslab_tree_next xs s else first_of xs)"
proof (cases xs)
  case (Cons x ys)
  then have "filter (\<lambda>y. mslab_cmp y x = 1) xs = ys"
    using assms(1,2) by (auto simp: mslab_cmp_def filter_id_conv le_less)
  then show ?thesis using Cons assms(4) by (auto simp: first_of_def mslab_tree_next_def)
qed (use assms(4) in simp)

lemma mslab_heat_eq:
  assumes "pool_lists E m' mp"
  shows "mslab_heat s (m, mp) = (m(s := (m s)\<lparr>ms_in_hot_slabs := True\<rparr>),
    mp\<lparr>hot_slabs := insort s (hot_slabs mp), first_hot_slab := first_of (insort s (hot_slabs mp)), cold_slabs := remove1 s (cold_slabs mp)\<rparr>)"
proof -
  have p: "sorted (hot_slabs mp)" "NULL \<notin> set (hot_slabs mp)" "first_hot_slab mp = first_of (hot_slabs mp)"
    using assms unfolding pool_lists_def by blast+
  have "mp\<lparr>cold_slabs := a, hot_slabs := b\<rparr> = mp\<lparr>hot_slabs := b, first_hot_slab := first_hot_slab mp, cold_slabs := a\<rparr>" for a b by simp
  with first_of_insort [OF p(1,2), of s] show ?thesis
    by (simp add: mslab_heat_def upd_ms_def mslab_tree_insert_def p(3))
qed

lemma mslab_cool_eq:
  assumes "pool_lists E m' mp" and "s \<in> set (hot_slabs mp)"
  shows "mslab_cool s (m, mp) = (m(s := (m s)\<lparr>ms_in_hot_slabs := False\<rparr>),
    mp\<lparr>hot_slabs := remove1 s (hot_slabs mp), first_hot_slab := first_of (remove1 s (hot_slabs mp))\<rparr>)"
proof -
  have p: "sorted (hot_slabs mp)" "distinct (hot_slabs mp)" "NULL \<notin> set (hot_slabs mp)" "first_hot_slab mp = first_of (hot_slabs mp)"
    using assms(1) unfolding pool_lists_def by blast+
  show ?thesis
    using first_of_remove1 [OF p(1-3) assms(2)] by (simp add: mslab_cool_def upd_ms_def mslab_tree_remove_def p(4) Let_def)
qed


text \<open>A slab stays in its place when nothing about it changes.\<close>

lemma slab_place_other:
  assumes "slab_place m mp t" and "m' t = m t" and "objcount mp' = objcount mp"
    and "t \<in> set (hot_slabs mp') \<longleftrightarrow> t \<in> set (hot_slabs mp)" and "t \<in> set (cold_slabs mp') \<longleftrightarrow> t \<in> set (cold_slabs mp)"
    and "t = mp_spare mp' \<longleftrightarrow> t = mp_spare mp"
  shows "slab_place m' mp' t"
  unfolding slab_place_def assms(2-6) using assms(1) unfolding slab_place_def .

lemma pool_listsD:
  assumes "pool_lists E m mp"
  shows "sorted (hot_slabs mp)" and "distinct (hot_slabs mp)" and "distinct (cold_slabs mp)"
    and "set (hot_slabs mp) \<subseteq> set (pool_slabs mp)" and "set (cold_slabs mp) \<subseteq> set (pool_slabs mp)"
    and "first_hot_slab mp = first_of (hot_slabs mp)" and "NULL \<notin> set (pool_slabs mp)"
    and "mp_spare mp \<noteq> NULL \<Longrightarrow> mp_spare mp \<in> set (pool_slabs mp)" and "s \<in> set (pool_slabs mp) \<Longrightarrow> s \<notin> E \<Longrightarrow> slab_place m mp s"
    and "NULL \<notin> set (hot_slabs mp)"
  using assms unfolding pool_lists_def by blast+

lemma pool_lists_exempt: "pool_lists {} m mp \<Longrightarrow> pool_lists E m mp"
  by (simp add: pool_lists_def)

text \<open>A step that moves one slab \<open>s\<close> keeps the lists well formed when \<open>s\<close> ends up in a proper place.\<close>

lemma pool_lists_move:
  assumes p: "pool_lists {s} m mp" and e: "pool_slabs mp' = pool_slabs mp" "objcount mp' = objcount mp" "\<And>t. t \<noteq> s \<Longrightarrow> m' t = m t"
    and h: "sorted (hot_slabs mp')" "distinct (hot_slabs mp')" "set (hot_slabs mp') - {s} = set (hot_slabs mp) - {s}"
      "first_hot_slab mp' = first_of (hot_slabs mp')"
    and c: "distinct (cold_slabs mp')" "set (cold_slabs mp') - {s} = set (cold_slabs mp) - {s}"
    and sp: "mp_spare mp' = mp_spare mp \<or> s = mp_spare mp \<and> mp_spare mp' = NULL"
    and s: "s \<in> set (pool_slabs mp)" and pl: "s \<notin> E \<Longrightarrow> slab_place m' mp' s"
  shows "pool_lists E m' mp'"
proof -
  note P = pool_listsD [OF p]
  have "slab_place m' mp' t" if t: "t \<in> set (pool_slabs mp)" "t \<notin> E" for t
  proof (cases "t = s")
    case True
    then show ?thesis using pl t by blast
  next
    case False
    have "t \<noteq> NULL" using P(7) t(1) by metis
    then have "t = mp_spare mp' \<longleftrightarrow> t = mp_spare mp" using False sp by metis
    moreover have "t \<in> set (hot_slabs mp') \<longleftrightarrow> t \<in> set (hot_slabs mp)" using h(3) False by blast
    moreover have "t \<in> set (cold_slabs mp') \<longleftrightarrow> t \<in> set (cold_slabs mp)" using c(2) False by blast
    ultimately show ?thesis using False e(2,3) t by (intro slab_place_other [OF P(9) [OF t(1)]]) simp_all
  qed
  moreover have "set (hot_slabs mp') \<subseteq> set (pool_slabs mp)" using h(3) P(4) s by blast
  moreover have "set (cold_slabs mp') \<subseteq> set (pool_slabs mp)" using c(2) P(5) s by blast
  moreover have "mp_spare mp' \<in> set (pool_slabs mp)" if "mp_spare mp' \<noteq> NULL" using sp P(8) that by metis
  ultimately show ?thesis using P(7) e(1) h(1,2,4) c(1) by (simp add: pool_lists_def)
qed

lemma pool_lists_take:
  assumes p: "pool_lists {s} m mp" and s: "s \<in> set (hot_slabs mp)" "s \<notin> set (cold_slabs mp)" "s \<noteq> mp_spare mp" "ms_in_hot_slabs (m s)"
    and h: "ms_nfree h' = ms_nfree (m s) - 1" "ms_in_hot_slabs h'" "ms_nfree (m s) \<le> objcount mp" "0 < ms_nfree (m s)"
  shows "ms_nfree h' \<noteq> 0 \<Longrightarrow> pool_lists {} (m(s := h')) mp"
    and "ms_nfree h' = 0 \<Longrightarrow> pool_lists {} (m(s := h'\<lparr>ms_in_hot_slabs := False\<rparr>))
      (mp\<lparr>hot_slabs := remove1 s (hot_slabs mp), first_hot_slab := first_of (remove1 s (hot_slabs mp))\<rparr>)"
proof -
  note P = pool_listsD [OF p]
  have sx: "s \<in> set (pool_slabs mp)" using P(4) s by blast
  show "pool_lists {} (m(s := h')) mp" if n: "ms_nfree h' \<noteq> 0"
    by (rule pool_lists_move [OF p]) (use P sx s h n in \<open>auto simp: slab_place_def\<close>)
  have r: "set (remove1 s (hot_slabs mp)) = set (hot_slabs mp) - {s}" by (rule set_remove1_eq [OF P(2)])
  show "pool_lists {} (m(s := h'\<lparr>ms_in_hot_slabs := False\<rparr>))
      (mp\<lparr>hot_slabs := remove1 s (hot_slabs mp), first_hot_slab := first_of (remove1 s (hot_slabs mp))\<rparr>)"
    if n: "ms_nfree h' = 0"
    by (rule pool_lists_move [OF p]) (use P sx s h n r in \<open>simp_all add: slab_place_def sorted_remove1 distinct_remove1\<close>)
qed

text \<open>Returning an object: the slab becomes hot, becomes cold, stays where it is, or is empty now.\<close>

lemma pool_lists_heat:
  assumes p: "pool_lists {} m mp" and s: "s \<in> set (pool_slabs mp)" "s \<noteq> mp_spare mp" "s \<notin> set (hot_slabs mp)"
    and n: "0 < ms_nfree h'" "1 < objcount mp \<Longrightarrow> ms_nfree h' < objcount mp"
  shows "pool_lists {} (m(s := h'\<lparr>ms_in_hot_slabs := True\<rparr>)) (mp\<lparr>hot_slabs := insort s (hot_slabs mp),
    first_hot_slab := first_of (insort s (hot_slabs mp)), cold_slabs := remove1 s (cold_slabs mp)\<rparr>)"
proof -
  note P = pool_listsD [OF p]
  have r: "set (remove1 s (cold_slabs mp)) = set (cold_slabs mp) - {s}" by (rule set_remove1_eq [OF P(3)])
  show ?thesis
    by (rule pool_lists_move [OF pool_lists_exempt [OF p, of "{s}"]])
      (use P s n r in \<open>simp_all add: slab_place_def sorted_insort distinct_insort set_insort_key distinct_remove1\<close>)
qed

lemma pool_lists_chill:
  assumes p: "pool_lists {} m mp" and s: "s \<in> set (pool_slabs mp)" "ms_nfree (m s) = 0"
    and h: "ms_nfree h' = 1" "ms_in_hot_slabs h' = ms_in_hot_slabs (m s)" "1 < objcount mp div 8"
  shows "pool_lists {} (m(s := h')) (mp\<lparr>cold_slabs := s # cold_slabs mp\<rparr>)"
proof -
  note P = pool_listsD [OF p]
  have "s \<notin> set (hot_slabs mp)" "s \<notin> set (cold_slabs mp)" "s \<noteq> mp_spare mp" "\<not> ms_in_hot_slabs (m s)"
    using P(9) [OF s(1)] s(2) h(3) unfolding slab_place_def by auto
  then show ?thesis by (intro pool_lists_move [OF pool_lists_exempt [OF p, of "{s}"]]) (use P s h in \<open>simp_all add: slab_place_def\<close>)
qed

lemma pool_lists_stay:
  assumes p: "pool_lists {} m mp" and s: "s \<in> set (pool_slabs mp)" "s \<noteq> mp_spare mp"
    and h: "0 < ms_nfree (m s)" "ms_nfree h' = Suc (ms_nfree (m s))" "ms_in_hot_slabs h' = ms_in_hot_slabs (m s)"
      "ms_nfree h' < objcount mp" "\<not> ms_in_hot_slabs (m s) \<Longrightarrow> ms_nfree h' < objcount mp div 8"
  shows "pool_lists {} (m(s := h')) mp"
proof -
  note P = pool_listsD [OF p]
  have "slab_place (m(s := h')) mp s" using P(9) [OF s(1)] s h unfolding slab_place_def by auto
  then show ?thesis by (intro pool_lists_move [OF pool_lists_exempt [OF p, of "{s}"]]) (use P s in simp_all)
qed

lemma pool_lists_empty:
  assumes p: "pool_lists {} m mp" and s: "s \<in> set (hot_slabs mp)" and h: "ms_nfree h' = objcount mp"
    and l: "sl_slabs l = ys" "set ys = set (pool_slabs mp) - X"
    and sp: "spare = s \<and> X = {mp_spare mp} \<or> spare = mp_spare mp \<and> X = {s}"
  shows "pool_lists {} (m(s := h'\<lparr>ms_in_hot_slabs := False\<rparr>)) (mp\<lparr>hot_slabs := remove1 s (hot_slabs mp),
    first_hot_slab := first_of (remove1 s (hot_slabs mp)), mp_slabs := l, mp_spare := spare\<rparr>)" (is "pool_lists {} ?m ?mp")
proof -
  note P = pool_listsD [OF p]
  have r: "set (remove1 s (hot_slabs mp)) = set (hot_slabs mp) - {s}" by (rule set_remove1_eq [OF P(2)])
  have sx: "s \<in> set (pool_slabs mp)" using P(4) s by blast
  have at: "s \<notin> set (cold_slabs mp)" "s \<noteq> mp_spare mp" using P(9) [OF sx] s unfolding slab_place_def by auto
  have spare: "mp_spare mp \<notin> set (hot_slabs mp)" "mp_spare mp \<notin> set (cold_slabs mp)"
    using P(4,5) P(9) [of "mp_spare mp"] unfolding slab_place_def by blast+
  have "slab_place ?m ?mp t" if t: "t \<in> set ys" for t
  proof (cases "t = s")
    case True
    then show ?thesis using at r l(2) t sp h by (auto simp: slab_place_def)
  next
    case False
    then show ?thesis using t l(2) sp r by (intro slab_place_other [OF P(9)]) auto
  qed
  moreover have "set (hot_slabs mp) - {s} \<subseteq> set ys" "set (cold_slabs mp) \<subseteq> set ys" "spare \<noteq> NULL \<Longrightarrow> spare \<in> set ys" "NULL \<notin> set ys"
    using P(4,5,7,8) at spare sx l(2) sp by auto
  ultimately show ?thesis using P(1-3) r l(1) by (simp add: pool_lists_def sorted_remove1 distinct_remove1)
qed

lemma pool_lists_unspare:
  assumes p: "pool_lists {} m mp" and l: "sl_slabs l = ys" "set ys = set (pool_slabs mp) - {mp_spare mp}"
  shows "pool_lists {} m (mp\<lparr>mp_slabs := l, mp_spare := NULL\<rparr>)"
proof -
  note P = pool_listsD [OF p]
  have spare: "mp_spare mp \<notin> set (hot_slabs mp)" "mp_spare mp \<notin> set (cold_slabs mp)"
    using P(4,5) P(9) [of "mp_spare mp"] unfolding slab_place_def by blast+
  have "slab_place m (mp\<lparr>mp_slabs := l, mp_spare := NULL\<rparr>) t" if t: "t \<in> set ys" for t
  proof -
    have "t \<in> set (pool_slabs mp)" "t \<noteq> mp_spare mp" using t unfolding l(2) by blast+
    moreover from this have "t \<noteq> NULL" using P(7) by metis
    ultimately show ?thesis by (intro slab_place_other [OF P(9)]) simp_all
  qed
  moreover have "set (hot_slabs mp) \<subseteq> set ys" "set (cold_slabs mp) \<subseteq> set ys" "NULL \<notin> set ys" using P(4,5,7) spare l(2) by blast+
  ultimately show ?thesis using P(1-3,6) l(1) by (simp add: pool_lists_def)
qed

lemma pool_lists_hot:
  assumes p: "pool_lists {s} m mp" and h: "hot_slabs mp = []" and s: "s \<in> set (pool_slabs mp)"
  shows "pool_lists {s} (m(s := h')) (mp\<lparr>hot_slabs := [s], first_hot_slab := s\<rparr>)"
  by (rule pool_lists_move [OF p]) (use pool_listsD [OF p] h s in \<open>simp_all add: first_of_def\<close>)

lemma pool_lists_shift:
  assumes p: "pool_lists {} m mp" and c: "cold_slabs mp = s # rest"
  shows "pool_lists {s} m (mp\<lparr>cold_slabs := rest\<rparr>)"
  by (rule pool_lists_move [OF pool_lists_exempt [OF p, of "{s}"]]) (use pool_listsD [OF p] c in auto)

lemma pool_lists_use_spare:
  assumes p: "pool_lists {} m mp" and s: "mp_spare mp \<noteq> NULL"
  shows "pool_lists {mp_spare mp} m (mp\<lparr>mp_spare := NULL\<rparr>)"
  by (rule pool_lists_move [OF pool_lists_exempt [OF p, of "{mp_spare mp}"]]) (use pool_listsD [OF p] s in simp_all)

lemma pool_lists_add:
  assumes p: "pool_lists {} m mp" and s: "s \<noteq> NULL" "s \<notin> set (pool_slabs mp)" and l: "sl_slabs l = s # pool_slabs mp"
    and m: "\<And>t. t \<noteq> s \<Longrightarrow> m' t = m t"
  shows "pool_lists {s} m' (mp\<lparr>mp_slabs := l\<rparr>)"
proof -
  note P = pool_listsD [OF p]
  have "slab_place m' (mp\<lparr>mp_slabs := l\<rparr>) t" if t: "t \<in> set (pool_slabs mp)" for t
  proof -
    have "t \<noteq> s" using t s(2) by metis
    then show ?thesis using t m by (intro slab_place_other [OF P(9)]) simp_all
  qed
  then show ?thesis using P(1-8) l s(1) unfolding pool_lists_def by auto
qed

end
