(* ===== verification/Object_Heap.thy ===== *)
theory Object_Heap
  imports Slab_Client
begin

text \<open>
  The contract of an allocator of objects as its users see it: a request either fails or
  returns an address that is not in use; objects in use do not overlap, and allocating or
  releasing an object leaves the bytes of the others alone. From these laws it follows once and
  for all that a program that allocates, fills and releases objects in any order reads back
  what it wrote. The pool of objects of one size and the allocator of small objects both
  satisfy the contract.
\<close>

datatype 'r heap_op = Allocate 'r "byte list" | Rewrite nat "byte list" | Release nat

locale object_heap =
  fixes inv :: "'s \<Rightarrow> (addr \<times> 'r) set \<Rightarrow> bool"
    and request :: "'s \<Rightarrow> 'r \<Rightarrow> bool"
    and len :: "'r \<Rightarrow> nat"
    and alloc :: "'s \<Rightarrow> 'r \<Rightarrow> (addr \<times> 's) option"
    and release :: "'s \<Rightarrow> addr \<Rightarrow> 'r \<Rightarrow> 's option"
    and peek :: "'s \<Rightarrow> addr \<Rightarrow> byte"
    and poke :: "'s \<Rightarrow> addr \<Rightarrow> byte list \<Rightarrow> 's"
  assumes alloc_ok: "inv s X \<Longrightarrow> request s r \<Longrightarrow> \<exists>p s'. alloc s r = Some (p, s') \<and> request s' = request s \<and>
      (\<forall>(q, k) \<in> X. \<forall>x \<in> span q (len k). peek s' x = peek s x) \<and>
      (if p = NULL then inv s' X else p \<notin> fst ` X \<and> inv s' (insert (p, r) X))"
    and release_ok: "inv s X \<Longrightarrow> (p, r) \<in> X \<Longrightarrow> \<exists>s'. release s p r = Some s' \<and> request s' = request s \<and> inv s' (X - {(p, r)}) \<and>
      (\<forall>(q, k) \<in> X - {(p, r)}. \<forall>x \<in> span q (len k). peek s' x = peek s x)"
    and apart: "inv s X \<Longrightarrow> (p, r) \<in> X \<Longrightarrow> (q, k) \<in> X \<Longrightarrow> p \<noteq> q \<Longrightarrow> span p (len r) \<inter> span q (len k) = {}"
    and single: "inv s X \<Longrightarrow> (p, r) \<in> X \<Longrightarrow> (p, k) \<in> X \<Longrightarrow> r = k"
    and poke_ok: "inv s X \<Longrightarrow> (p, r) \<in> X \<Longrightarrow> length bs \<le> len r \<Longrightarrow> inv (poke s p bs) X \<and> request (poke s p bs) = request s"
    and peek_poke: "peek (poke s p bs) x = (if x \<in> span p (length bs) then bs ! (x - p) else peek s x)"
begin

text \<open>A program keeps the objects it owns in a list, with what it has written into each of them.\<close>

fun run :: "'s \<Rightarrow> (addr \<times> 'r \<times> byte list) list \<Rightarrow> 'r heap_op list \<Rightarrow> ('s \<times> (addr \<times> 'r \<times> byte list) list) option" where
  "run s objs [] = Some (s, objs)"
| "run s objs (Allocate r bs # ops) = do {
     (p, s) \<leftarrow> alloc s r;
     if p = NULL then run s objs ops
     else (let bs = take (len r) bs in run (poke s p bs) (objs @ [(p, r, bs)]) ops) }"
| "run s objs (Rewrite i bs # ops) =
     (if i < length objs then
        (case objs ! i of (p, r, _) \<Rightarrow> let bs = take (len r) bs in run (poke s p bs) (objs[i := (p, r, bs)]) ops)
      else run s objs ops)"
| "run s objs (Release i # ops) =
     (if i < length objs then do {
        s \<leftarrow> release s (fst (objs ! i)) (fst (snd (objs ! i)));
        run s (take i objs @ drop (Suc i) objs) ops }
      else run s objs ops)"

definition owned :: "(addr \<times> 'r \<times> byte list) list \<Rightarrow> (addr \<times> 'r) set" where
  "owned objs = (\<lambda>(p, r, _). (p, r)) ` set objs"

definition faithful :: "'s \<Rightarrow> (addr \<times> 'r \<times> byte list) list \<Rightarrow> bool" where
  "faithful s objs \<longleftrightarrow> inv s (owned objs) \<and> distinct (map fst objs) \<and>
     (\<forall>(p, r, bs) \<in> set objs. length bs \<le> len r \<and> map (peek s) [p ..< p + length bs] = bs)"

lemma fst_owned: "fst ` owned objs = fst ` set objs"
  by (force simp: owned_def)

lemma faithful_keep:
  assumes "(p, r, bs) \<in> set objs" and "length bs \<le> len r" and "map (peek s) [p ..< p + length bs] = bs"
    and "\<And>x. x \<in> span p (len r) \<Longrightarrow> peek s' x = peek s x"
  shows "map (peek s') [p ..< p + length bs] = bs"
proof -
  have "map (peek s') [p ..< p + length bs] = map (peek s) [p ..< p + length bs]" by (rule map_cong) (use assms(2,4) in auto)
  then show ?thesis using assms(3) by simp
qed

lemma faithful_alloc:
  assumes f: "faithful s objs" and r: "request s r"
  obtains (fail) s' where "alloc s r = Some (NULL, s')" and "faithful s' objs" and "request s' = request s"
  | (ok) p s' where "alloc s r = Some (p, s')" and "p \<noteq> NULL" and "faithful s' (objs @ [(p, r, [])])" and "request s' = request s"
proof -
  have i: "inv s (owned objs)" and d: "distinct (map fst objs)"
    and b: "\<And>p r bs. (p, r, bs) \<in> set objs \<Longrightarrow> length bs \<le> len r \<and> map (peek s) [p ..< p + length bs] = bs"
    using f by (auto simp: faithful_def)
  obtain p s' where a: "alloc s r = Some (p, s')" "request s' = request s" "\<forall>(q, k) \<in> owned objs. \<forall>x \<in> span q (len k). peek s' x = peek s x"
    "if p = NULL then inv s' (owned objs) else p \<notin> fst ` owned objs \<and> inv s' (insert (p, r) (owned objs))"
    using alloc_ok [OF i r] by blast
  have b': "length bs \<le> len k \<and> map (peek s') [q ..< q + length bs] = bs" if q: "(q, k, bs) \<in> set objs" for q k bs
  proof -
    have "(q, k) \<in> owned objs" using q by (force simp: owned_def)
    then have "peek s' x = peek s x" if "x \<in> span q (len k)" for x using a(3) that by blast
    then show ?thesis using b [OF q] faithful_keep [OF q] by blast
  qed
  show thesis
  proof (cases "p = NULL")
    case True
    have "faithful s' objs" unfolding faithful_def using a(4) True d b' by auto
    then show thesis using a(1,2) True by (intro fail [of s']) simp_all
  next
    case False
    have "owned (objs @ [(p, r, [])]) = insert (p, r) (owned objs)" by (simp add: owned_def)
    moreover have "p \<notin> set (map fst objs)" using a(4) False by (simp add: fst_owned)
    ultimately have "faithful s' (objs @ [(p, r, [])])" unfolding faithful_def using a(4) False d b' by auto
    then show thesis using a(1,2) False by (intro ok)
  qed
qed

lemma faithful_poke:
  assumes f: "faithful s objs" and i: "i < length objs" and o: "objs ! i = (p, r, old)" and n: "length bs \<le> len r"
  shows "faithful (poke s p bs) (objs[i := (p, r, bs)])" and "request (poke s p bs) = request s"
proof -
  have v: "inv s (owned objs)" and d: "distinct (map fst objs)"
    and b: "\<And>p r bs. (p, r, bs) \<in> set objs \<Longrightarrow> length bs \<le> len r \<and> map (peek s) [p ..< p + length bs] = bs"
    using f by (auto simp: faithful_def)
  have own: "owned (objs[i := (p, r, bs)]) = owned objs"
  proof -
    have "map (\<lambda>(p, r, _). (p, r)) (objs[i := (p, r, bs)]) = map (\<lambda>(p, r, _). (p, r)) objs"
      using i o by (intro nth_equalityI) (auto simp: nth_list_update)
    then show ?thesis unfolding owned_def by (metis list.set_map)
  qed
  have fs: "map fst (objs[i := (p, r, bs)]) = map fst objs" using i o by (intro nth_equalityI) (auto simp: nth_list_update)
  have pr: "(p, r) \<in> owned objs" using nth_mem [OF i] o by (force simp: owned_def)
  note pk = poke_ok [OF v pr n]
  have "length cs \<le> len k \<and> map (peek (poke s p bs)) [q ..< q + length cs] = cs" if new: "(q, k, cs) \<in> set (objs[i := (p, r, bs)])" for q k cs
  proof -
    obtain j where j: "j < length objs" "(objs[i := (p, r, bs)]) ! j = (q, k, cs)" using new unfolding in_set_conv_nth by auto
    show ?thesis
    proof (cases "j = i")
      case True
      then have e: "q = p" "k = r" "cs = bs" using j i by simp_all
      show ?thesis unfolding e using n by (auto simp: peek_poke intro!: nth_equalityI)
    next
      case False
      have m: "(q, k, cs) \<in> set objs" using j False nth_mem [OF j(1)] by simp
      have "q \<noteq> p" using nth_eq_iff_index_eq [OF d, of j i] j False i o by auto
      moreover have "(q, k) \<in> owned objs" using m by (force simp: owned_def)
      ultimately have "span q (len k) \<inter> span p (len r) = {}" using apart [OF v _ pr] by blast
      moreover have "span p (length bs) \<subseteq> span p (len r)" using n by auto
      ultimately have "peek (poke s p bs) x = peek s x" if "x \<in> span q (len k)" for x using that by (subst peek_poke) (auto simp del: in_span)
      then show ?thesis using b [OF m] faithful_keep [OF m] by blast
    qed
  qed
  then show "faithful (poke s p bs) (objs[i := (p, r, bs)])" unfolding faithful_def own fs using d pk by auto
  show "request (poke s p bs) = request s" using pk by blast
qed

lemma faithful_release:
  assumes f: "faithful s objs" and i: "i < length objs"
  obtains s' where "release s (fst (objs ! i)) (fst (snd (objs ! i))) = Some s'" and "faithful s' (take i objs @ drop (Suc i) objs)"
    and "request s' = request s"
proof -
  obtain p r bs where o: "objs ! i = (p, r, bs)" by (cases "objs ! i") auto
  let ?rest = "take i objs @ drop (Suc i) objs"
  have v: "inv s (owned objs)" and d: "distinct (map fst objs)"
    and b: "\<And>p r bs. (p, r, bs) \<in> set objs \<Longrightarrow> length bs \<le> len r \<and> map (peek s) [p ..< p + length bs] = bs"
    using f by (auto simp: faithful_def)
  have e: "objs = take i objs @ (p, r, bs) # drop (Suc i) objs" using id_take_nth_drop [OF i] o by simp
  have "distinct (map fst (take i objs @ (p, r, bs) # drop (Suc i) objs))" using d e by (rule back_subst [where P = "\<lambda>xs. distinct (map fst xs)"])
  then have d': "distinct (map fst ?rest)" "p \<notin> fst ` set ?rest" by auto
  have own: "owned objs = insert (p, r) (owned ?rest)" by (subst e) (auto simp: owned_def)
  have "p \<notin> fst ` owned ?rest" using d'(2) unfolding fst_owned .
  then have "(p, r) \<notin> owned ?rest" by force
  then have own': "owned objs - {(p, r)} = owned ?rest" unfolding own by blast
  obtain s' where s': "release s p r = Some s'" "request s' = request s" "inv s' (owned ?rest)"
    "\<forall>(q, k) \<in> owned ?rest. \<forall>x \<in> span q (len k). peek s' x = peek s x"
    using release_ok [OF v, of p r] own unfolding own' by blast
  have sub: "set ?rest \<subseteq> set objs" using set_take_subset [of i objs] set_drop_subset [of "Suc i" objs] by auto
  have "length cs \<le> len k \<and> map (peek s') [q ..< q + length cs] = cs" if "(q, k, cs) \<in> set ?rest" for q k cs
  proof -
    have m: "(q, k, cs) \<in> set objs" using that sub by blast
    have "(q, k) \<in> owned ?rest" using that by (force simp: owned_def)
    then have "peek s' x = peek s x" if "x \<in> span q (len k)" for x using s'(4) that by blast
    then show ?thesis using b [OF m] faithful_keep [OF m] by blast
  qed
  then have "faithful s' ?rest" unfolding faithful_def using s'(3) d'(1) by blast
  then show thesis using s'(1,2) o by (intro that [of s']) simp_all
qed

lemma run_faithful:
  assumes "faithful s objs" and "\<And>r bs. Allocate r bs \<in> set ops \<Longrightarrow> request s r"
  shows "\<exists>s' objs'. run s objs ops = Some (s', objs') \<and> faithful s' objs'"
  using assms
proof (induction ops arbitrary: s objs)
  case (Cons op ops)
  have req: "\<And>r bs. Allocate r bs \<in> set ops \<Longrightarrow> request s r" using Cons.prems(2) by (meson list.set_intros(2))
  show ?case
  proof (cases op)
    case (Allocate r bs)
    have r: "request s r" using Cons.prems(2) [of r bs] Allocate by simp
    show ?thesis
    proof (rule faithful_alloc [OF Cons.prems(1) r])
      fix s' assume a: "alloc s r = Some (NULL, s')" "faithful s' objs" "request s' = request s"
      then show ?thesis using Cons.IH [OF a(2)] req Allocate by simp
    next
      fix p s' assume a: "alloc s r = Some (p, s')" "p \<noteq> NULL" "faithful s' (objs @ [(p, r, [])])" "request s' = request s"
      let ?bs = "take (len r) bs"
      have "faithful (poke s' p ?bs) ((objs @ [(p, r, [])])[length objs := (p, r, ?bs)])" "request (poke s' p ?bs) = request s'"
        by (rule faithful_poke [OF a(3), of "length objs" p r "[]"]; simp)+
      then show ?thesis using Cons.IH [of "poke s' p ?bs" "objs @ [(p, r, ?bs)]"] req a(1,2,4) Allocate by (simp add: Let_def)
    qed
  next
    case (Rewrite i bs)
    show ?thesis
    proof (cases "i < length objs")
      case True
      obtain p r old where o: "objs ! i = (p, r, old)" by (cases "objs ! i") auto
      note F = faithful_poke [OF Cons.prems(1) True o, of "take (len r) bs"]
      show ?thesis using Cons.IH [OF F(1)] F(2) req True o Rewrite by (simp add: Let_def)
    next
      case False
      then show ?thesis using Cons.IH [OF Cons.prems(1)] req Rewrite by simp
    qed
  next
    case (Release i)
    show ?thesis
    proof (cases "i < length objs")
      case True
      obtain s' where s': "release s (fst (objs ! i)) (fst (snd (objs ! i))) = Some s'" "faithful s' (take i objs @ drop (Suc i) objs)"
        "request s' = request s" using faithful_release [OF Cons.prems(1) True] by blast
      show ?thesis using Cons.IH [OF s'(2)] s'(1,3) req True Release by simp
    next
      case False
      then show ?thesis using Cons.IH [OF Cons.prems(1)] req Release by simp
    qed
  qed
qed simp

end

end
