(* ===== verification/Mempool_Ops.thy ===== *)
theory Mempool_Ops
  imports Mempool Object_Heap Slab_Cache_Props
begin

text \<open>
  The invariant of a pool of objects, what every operation does to it, and the pool as an
  implementation of the contract of an allocator of objects.
\<close>

section \<open>The invariant of a pool\<close>

definition live_objs :: "slab_cache \<Rightarrow> mslabs \<Rightarrow> mempool \<Rightarrow> addr set" where
  "live_objs c m mp = (\<Union>s \<in> set (pool_slabs mp). slab_live c mp s (m s))"

definition pool_ok :: "addr set \<Rightarrow> slab_cache \<Rightarrow> mslabs \<Rightarrow> (addr \<times> nat) set \<Rightarrow> mempool \<Rightarrow> bool" where
  "pool_ok E c m others mp \<longleftrightarrow> mempool_config c mp \<and> owns c others (pool_slabs mp) \<and> pool_lists E m mp \<and>
     (\<forall>s \<in> set (pool_slabs mp). sl_size (hdr c s) = pool_slab_size c mp \<and> sl_order (hdr c s) = mp_order mp \<and> mslab_inv c mp s (m s)) \<and>
     st_total (mp_slabs mp) = int (pool_slab_size c mp) * int (length (pool_slabs mp))"

definition mempool_inv :: "slab_cache \<Rightarrow> mslabs \<Rightarrow> (addr \<times> nat) set \<Rightarrow> mempool \<Rightarrow> bool" where
  "mempool_inv c m others mp \<longleftrightarrow> pool_ok {} c m others mp \<and> st_used (mp_slabs mp) = int (objsize mp) * int (card (live_objs c m mp))"

lemma pool_okD:
  assumes "pool_ok E c m others mp"
  shows "mempool_config c mp" and "owns c others (pool_slabs mp)" and "pool_lists E m mp"
    and "s \<in> set (pool_slabs mp) \<Longrightarrow> sl_size (hdr c s) = pool_slab_size c mp"
    and "s \<in> set (pool_slabs mp) \<Longrightarrow> mslab_inv c mp s (m s)"
    and "st_total (mp_slabs mp) = int (pool_slab_size c mp) * int (length (pool_slabs mp))" and "0 < objsize mp"
    and "s \<in> set (pool_slabs mp) \<Longrightarrow> sl_order (hdr c s) = mp_order mp"
  using assms by (simp_all add: pool_ok_def mempool_config_def)

lemma same_cache_pool:
  assumes "same_cache c c'"
  shows "mempool_config c' mp = mempool_config c mp" and "pool_slab_size c' mp = pool_slab_size c mp"
  using assms by (simp_all add: same_cache_def keeps_def mempool_config_def)

text \<open>A change of the cache that keeps the pool's slabs keeps their objects.\<close>

lemma pool_slabs_frame:
  assumes ok: "pool_ok E c m others mp" and k: "kept c c' (others \<union> slabs_of c (pool_slabs mp))"
    and s: "s \<in> set (pool_slabs mp)"
  shows "mslab_inv c' mp s (m s)" and "slab_live c' mp s (m s) = slab_live c mp s (m s)"
proof -
  note P = pool_okD [OF ok]
  have "(s, pool_slab_size c mp) \<in> slabs_of c (pool_slabs mp)" using s P(4) by (force simp: slabs_of_def)
  then have "span s (pool_slab_size c mp) \<subseteq> slab_bytes (others \<union> slabs_of c (pool_slabs mp))" by (intro span_slab_bytes) blast
  then have m: "mem c' x = mem c x" if "x \<in> span s (pool_slab_size c mp)" for x using k that unfolding kept_def keeps_def by blast
  show "mslab_inv c' mp s (m s)" "slab_live c' mp s (m s) = slab_live c mp s (m s)"
    using slab_frame [OF P(5) [OF s] P(1) m] by blast+
qed

lemma pool_ok_frame:
  assumes ok: "pool_ok E c m others mp" and o: "owns c' others (pool_slabs mp)" "slabs_of c' (pool_slabs mp) = slabs_of c (pool_slabs mp)"
    and k: "kept c c' (others \<union> slabs_of c (pool_slabs mp))"
  shows "pool_ok E c' m others mp" and "live_objs c' m mp = live_objs c m mp"
proof -
  note P = pool_okD [OF ok]
  note sc = same_cache_pool [OF keptD(2) [OF k]]
  have "sl_size (hdr c' s) = sl_size (hdr c s) \<and> sl_order (hdr c' s) = sl_order (hdr c s)" if "s \<in> set (pool_slabs mp)" for s
    using slabs_of_eq_size [OF o(2) that] keptD(3) [OF k owns_slab(5) [OF P(2) that]] by simp
  then show "pool_ok E c' m others mp"
    using P pool_slabs_frame(1) [OF ok k] o(1) unfolding pool_ok_def sc by simp
  show "live_objs c' m mp = live_objs c m mp" unfolding live_objs_def using pool_slabs_frame(2) [OF ok k] by simp
qed

section \<open>Allocation\<close>

lemma pool_ok_hot:
  assumes ok: "pool_ok {s} c m others mp" and h: "hot_slabs mp = []" and s: "s \<in> set (pool_slabs mp)"
  defines "m' \<equiv> m(s := (m s)\<lparr>ms_in_hot_slabs := True\<rparr>)"
  shows "pool_ok {s} c m' others (mp\<lparr>hot_slabs := [s], first_hot_slab := s\<rparr>)" (is "pool_ok _ _ _ _ ?mp")
    and "live_objs c m' (mp\<lparr>hot_slabs := [s], first_hot_slab := s\<rparr>) = live_objs c m mp"
proof -
  note P = pool_okD [OF ok]
  have sh: "same_shape mp ?mp" by (simp add: same_shape_def)
  have "pool_lists {s} m' ?mp" unfolding m'_def by (rule pool_lists_hot [OF P(3) h s])
  then show "pool_ok {s} c m' others ?mp"
    unfolding pool_ok_def same_shape [OF sh] using P by (simp add: m'_def)
  show "live_objs c m' ?mp = live_objs c m mp" unfolding live_objs_def same_shape [OF sh] by (auto simp: m'_def split: if_splits)
qed

lemma full_pool:
  assumes "pool_lists {} m mp" and "hot_slabs mp = []" and "cold_slabs mp = []" and "mp_spare mp = NULL" and "s \<in> set (pool_slabs mp)"
  shows "ms_nfree (m s) = 0"
proof -
  have "s \<noteq> NULL" using pool_listsD(7) [OF assms(1)] assms(5) by metis
  then show ?thesis using pool_listsD(9) [OF assms(1,5)] assms(2-4) by (simp add: slab_place_def)
qed

lemma pool_ok_add:
  assumes ok: "pool_ok {} c m others mp" and c': "owns c' others (s # pool_slabs mp)" "slabs_of c' (pool_slabs mp) = slabs_of c (pool_slabs mp)"
      "kept c c' (others \<union> slabs_of c (pool_slabs mp))" "sl_size (hdr c' s) = pool_slab_size c mp"
      "s \<noteq> NULL" "s \<notin> set (pool_slabs mp)" "sl_order (hdr c' s) = mp_order mp"
  defines "mp' \<equiv> mp\<lparr>mp_slabs := slab_list_add (mp_slabs mp) s (sl_size (hdr c' s))\<rparr>"
  shows "pool_ok {s} c' (mslab_create s mp m) others mp'" and "live_objs c' (mslab_create s mp m) mp' = live_objs c m mp"
proof -
  note P = pool_okD [OF ok]
  have sh: "same_shape mp mp'" by (simp add: mp'_def)
  have xs: "pool_slabs mp' = s # pool_slabs mp" by (simp add: mp'_def slab_list_add_def)
  note sc = same_cache_pool [OF keptD(2) [OF c'(3)]]
  have m: "mslab_create s mp m t = m t" if "t \<noteq> s" for t using that by (simp add: mslab_create_def upd_ms_def)
  have ne: "t \<noteq> s" if "t \<in> set (pool_slabs mp)" for t using that c'(6) by metis
  have pl: "pool_lists {s} (mslab_create s mp m) mp'" unfolding mp'_def
    by (rule pool_lists_add [OF P(3) c'(5,6) _ m]) (simp_all add: slab_list_add_def)
  have sz: "sl_size (hdr c' t) = pool_slab_size c mp" if "t \<in> set (pool_slabs mp)" for t
    using slabs_of_eq_size [OF c'(2) that] P(4) [OF that] by simp
  have ord: "sl_order (hdr c' t) = mp_order mp" if "t \<in> set (pool_slabs mp)" for t
    using keptD(3) [OF c'(3) owns_slab(5) [OF P(2) that]] P(8) [OF that] by simp
  have inv: "mslab_inv c' mp t (mslab_create s mp m t)" if "t \<in> insert s (set (pool_slabs mp))" for t
    using that pool_slabs_frame(1) [OF ok c'(3), of t] m [OF ne, of t] mslab_fresh(1) [OF P(7)] by auto
  show "pool_ok {s} c' (mslab_create s mp m) others mp'"
    unfolding pool_ok_def same_shape [OF sh] sc xs using P(1,6) pl sz ord inv c'(1,4,7)
    by (simp add: mp'_def slab_list_add_def algebra_simps)
  show "live_objs c' (mslab_create s mp m) mp' = live_objs c m mp"
    unfolding live_objs_def same_shape [OF sh] xs using pool_slabs_frame(2) [OF ok c'(3)] m [OF ne] mslab_fresh(2) [OF P(7)] by simp
qed

definition slab_ready :: "addr \<Rightarrow> mslabs \<Rightarrow> mempool \<Rightarrow> bool" where
  "slab_ready s m mp \<longleftrightarrow> s \<in> set (hot_slabs mp) \<and> s \<notin> set (cold_slabs mp) \<and> s \<noteq> mp_spare mp \<and> ms_in_hot_slabs (m s) \<and> 0 < ms_nfree (m s)"

lemma mempool_ready_hot:
  assumes r: "mempool_refill os c m mp = Some (s, c', m', mp')" and f: "first_hot_slab mp = NULL" and s: "s \<noteq> NULL"
    and ok: "pool_ok {s} c' m' others mp'" and h: "hot_slabs mp' = []" "\<not> ms_in_hot_slabs (m' s)" "0 < ms_nfree (m' s)"
      "s \<notin> set (cold_slabs mp')" "s \<noteq> mp_spare mp'" "s \<in> set (pool_slabs mp')"
  defines "m2 \<equiv> m'(s := (m' s)\<lparr>ms_in_hot_slabs := True\<rparr>)" and "mp2 \<equiv> mp'\<lparr>hot_slabs := [s], first_hot_slab := s\<rparr>"
  shows "mempool_ready os c m mp = Some (s, c', m2, mp2)" and "slab_ready s m2 mp2" and "pool_ok {s} c' m2 others mp2"
    and "live_objs c' m2 mp2 = live_objs c' m' mp'"
proof -
  show "mempool_ready os c m mp = Some (s, c', m2, mp2)"
    using r f s h(1,2) by (simp add: mempool_ready_def mslab_tree_insert_def upd_ms_def m2_def mp2_def)
  show "slab_ready s m2 mp2" using h by (simp add: slab_ready_def m2_def mp2_def)
  show "pool_ok {s} c' m2 others mp2" "live_objs c' m2 mp2 = live_objs c' m' mp'"
    unfolding m2_def mp2_def by (rule pool_ok_hot [OF ok h(1,6)])+
qed

lemma pool_ok_relist:
  assumes "pool_ok E c m others mp" and "pool_lists E' m mp'" and "same_shape mp mp'" and "mp_slabs mp' = mp_slabs mp"
  shows "pool_ok E' c m others mp'" and "live_objs c m mp' = live_objs c m mp"
  using assms(1,2) unfolding pool_ok_def live_objs_def same_shape [OF assms(3)] assms(4) by simp_all

lemma mempool_ready_spec:
  assumes os: "os_ok os" and ok: "pool_ok {} c m others mp"
  obtains (none) c' where "mempool_ready os c m mp = Some (NULL, c', m, mp)" and "pool_ok {} c' m others mp"
      and "kept c c' (others \<union> slabs_of c (pool_slabs mp))" and "live_objs c' m mp = live_objs c m mp"
      and "\<forall>s \<in> set (pool_slabs mp). ms_nfree (m s) = 0"
  | (some) s c' m' mp' where "mempool_ready os c m mp = Some (s, c', m', mp')" and "s \<noteq> NULL" and "pool_ok {s} c' m' others mp'"
      and "slab_ready s m' mp'" and "kept c c' (others \<union> slabs_of c (pool_slabs mp))"
      and "live_objs c' m' mp' = live_objs c m mp" and "same_shape mp mp'" and "st_used (mp_slabs mp') = st_used (mp_slabs mp)"
      and "\<forall>(t, n) \<in> others. m' t = m t"
proof -
  note P = pool_okD [OF ok] and L = pool_listsD [OF pool_okD(3) [OF ok]]
  have own: "\<forall>(t, n) \<in> others. (m(s := h)) t = m t" if "s \<in> set (pool_slabs mp)" for s h
    using owns_others [OF P(2)] that by fastforce
  show thesis
  proof (cases "first_hot_slab mp = NULL")
    case False
    obtain s rest where h: "hot_slabs mp = s # rest" using False L(6) by (cases "hot_slabs mp") (simp_all add: first_of_def)
    have s: "first_hot_slab mp = s" "s \<in> set (pool_slabs mp)" using L(4,6) h by (simp_all add: first_of_def)
    have "slab_ready s m mp" using L(9) [OF s(2)] h unfolding slab_place_def slab_ready_def by auto
    moreover have "pool_ok {s} c m others mp" by (rule pool_ok_relist [OF ok pool_lists_exempt [OF P(3)]]) simp_all
    ultimately show thesis using False s kept_refl by (intro some [of s c m mp]) (simp_all add: mempool_ready_def)
  next
    case f: True
    then have h: "hot_slabs mp = []" using L(6,10) by (cases "hot_slabs mp") (auto simp: first_of_def)
    show thesis
    proof (cases "mp_spare mp = NULL")
      case False
      let ?s = "mp_spare mp" and ?mp = "mp\<lparr>mp_spare := NULL\<rparr>"
      have s: "?s \<in> set (pool_slabs mp)" by (rule L(8) [OF False])
      have o: "pool_ok {?s} c m others ?mp" "live_objs c m ?mp = live_objs c m mp"
        by (rule pool_ok_relist [OF ok pool_lists_use_spare [OF P(3) False]]; simp)+
      have pl: "\<not> ms_in_hot_slabs (m ?s)" "0 < ms_nfree (m ?s)" "?s \<notin> set (cold_slabs mp)"
        using L(9) [OF s] P(1) unfolding slab_place_def mempool_config_def by (auto simp: h)
      have r: "mempool_refill os c m mp = Some (?s, c, m, ?mp)" using False by (simp add: mempool_refill_def)
      note R = mempool_ready_hot [OF r f False o(1)]
      show thesis
        by (rule some [OF R(1) False R(3,2)]) (use h pl s False o(2) R(4) own [OF s] kept_refl in \<open>simp_all add: same_shape_def\<close>)
    next
      case sp: True
      have order: "mp_order mp \<le> order_max c" using P(1) by (simp add: mempool_config_def)
      show thesis
      proof (rule owns_get_order [OF os P(2) order])
        fix c' assume g: "slab_get_with_order os c (mp_order mp) = Some (NULL, c')" "owns c' others (pool_slabs mp)"
          "slabs_of c' (pool_slabs mp) = slabs_of c (pool_slabs mp)" "kept c c' (others \<union> slabs_of c (pool_slabs mp))"
        note F = pool_ok_frame [OF ok g(2,3,4)]
        show thesis
        proof (cases "cold_slabs mp")
          case Nil
          have "mempool_ready os c m mp = Some (NULL, c', m, mp)" using f sp g(1) Nil by (simp add: mempool_ready_def mempool_refill_def)
          then show thesis using F g(4) full_pool [OF P(3) h Nil sp] by (intro none [of c']) simp_all
        next
          case (Cons s rest)
          let ?mp = "mp\<lparr>cold_slabs := rest\<rparr>"
          have sx: "s \<in> set (pool_slabs mp)" using L(5) Cons by simp
          then have s: "s \<in> set (pool_slabs mp)" "s \<noteq> NULL" using L(7) by metis+
          have o: "pool_ok {s} c' m others ?mp" "live_objs c' m ?mp = live_objs c' m mp"
            by (rule pool_ok_relist [OF F(1) pool_lists_shift [OF P(3) Cons]]; simp)+
          have pl: "\<not> ms_in_hot_slabs (m s)" "0 < ms_nfree (m s)" "s \<notin> set rest" "s \<noteq> mp_spare mp"
            using L(3) L(9) [OF s(1)] Cons unfolding slab_place_def by (auto simp: h)
          have r: "mempool_refill os c m mp = Some (s, c', m, ?mp)" using sp g(1) Cons by (simp add: mempool_refill_def)
          note R = mempool_ready_hot [OF r f s(2) o(1)]
          show thesis
            by (rule some [OF R(1) s(2) R(3,2) g(4)]) (use h pl s o(2) R(4) F(2) own [OF s(1)] in \<open>simp_all add: same_shape_def\<close>)
        qed
      next
        fix s c' assume g: "slab_get_with_order os c (mp_order mp) = Some (s, c')" "owns c' others (s # pool_slabs mp)"
          "slabs_of c' (pool_slabs mp) = slabs_of c (pool_slabs mp)" "kept c c' (others \<union> slabs_of c (pool_slabs mp))"
          "sl_size (hdr c' s) = pool_slab_size c mp" "s \<noteq> NULL" "s \<notin> set (pool_slabs mp)" "\<forall>(a, n) \<in> others. a \<noteq> s"
          "sl_order (hdr c' s) = mp_order mp"
        let ?mp = "mp\<lparr>mp_slabs := slab_list_add (mp_slabs mp) s (sl_size (hdr c' s))\<rparr>" and ?m = "mslab_create s mp m"
        note A = pool_ok_add [OF ok g(2-7,9)]
        have r: "mempool_refill os c m mp = Some (s, c', ?m, ?mp)" using sp g(1,6) by (simp add: mempool_refill_def)
        have m: "?m t = m t" if "t \<noteq> s" for t using that by (simp add: mslab_create_def upd_ms_def)
        have pl: "s \<notin> set (cold_slabs mp)" "0 < objcount mp" using L(5) g(7) P(1) by (auto simp: mempool_config_def)
        note R = mempool_ready_hot [OF r f g(6) A(1)]
        show thesis
          by (rule some [OF R(1) g(6) R(3,2) g(4)])
            (use h pl g(6,8) A(2) R(4) m mslab_fresh(3,4) [OF P(7), of s m] sp in \<open>auto simp: same_shape_def slab_list_add_def\<close>)
      qed
    qed
  qed
qed

lemma live_objs_upd:
  assumes "s \<in> set (pool_slabs mp)" and "\<And>t. t \<in> set (pool_slabs mp) \<Longrightarrow> t \<noteq> s \<Longrightarrow> slab_live c' mp t (m' t) = slab_live c mp t (m t)"
  shows "slab_live c' mp s (m' s) = insert p (slab_live c mp s (m s)) \<Longrightarrow> live_objs c' m' mp = insert p (live_objs c m mp)"
    and "slab_live c' mp s (m' s) = slab_live c mp s (m s) - {p} \<Longrightarrow> (\<And>t. t \<in> set (pool_slabs mp) \<Longrightarrow> t \<noteq> s \<Longrightarrow> p \<notin> slab_live c mp t (m t)) \<Longrightarrow>
      live_objs c' m' mp = live_objs c m mp - {p}"
proof -
  have e: "live_objs c m mp = slab_live c mp s (m s) \<union> (\<Union>t \<in> set (pool_slabs mp) - {s}. slab_live c mp t (m t))" for c m
    using assms(1) by (auto simp: live_objs_def)
  have u: "(\<Union>t \<in> set (pool_slabs mp) - {s}. slab_live c' mp t (m' t)) = (\<Union>t \<in> set (pool_slabs mp) - {s}. slab_live c mp t (m t))"
    using assms(2) by auto
  show "live_objs c' m' mp = insert p (live_objs c m mp)" if "slab_live c' mp s (m' s) = insert p (slab_live c mp s (m s))"
    unfolding e [of c'] u that e [of c] by blast
  show "live_objs c' m' mp = live_objs c m mp - {p}" if "slab_live c' mp s (m' s) = slab_live c mp s (m s) - {p}"
      "\<And>t. t \<in> set (pool_slabs mp) \<Longrightarrow> t \<noteq> s \<Longrightarrow> p \<notin> slab_live c mp t (m t)"
    unfolding e [of c'] u that(1) e [of c] using that(2) by blast
qed

text \<open>Objects of different slabs are disjoint, as the slabs are.\<close>

lemma live_obj_slab:
  assumes ok: "pool_ok E c m others mp" and "s \<in> set (pool_slabs mp)" "p \<in> slab_live c mp s (m s)"
  shows "span p (objsize mp) \<subseteq> span s (sl_size (hdr c s))" and "p \<in> span s (sl_size (hdr c s))" and "s < p"
proof -
  note P = pool_okD [OF ok]
  show sub: "span p (objsize mp) \<subseteq> span s (sl_size (hdr c s))" and "s < p"
    using slab_live_at [OF P(1) P(5) [OF assms(2)] assms(3)] P(4) [OF assms(2)] by metis+
  show "p \<in> span s (sl_size (hdr c s))" by (rule subsetD [OF sub]) (simp add: P(7))
qed

lemma obj_not_live_elsewhere:
  assumes ok: "pool_ok E c m others mp" and s: "s \<in> set (pool_slabs mp)" and p: "p \<in> span s (sl_size (hdr c s))"
    and t: "t \<in> set (pool_slabs mp)" "t \<noteq> s"
  shows "p \<notin> slab_live c mp t (m t)"
proof
  assume "p \<in> slab_live c mp t (m t)"
  then have "p \<in> span t (sl_size (hdr c t))" by (rule live_obj_slab(2) [OF ok t(1)])
  then show False using owns_disjoint(2) [OF pool_okD(2) [OF ok] s t(1)] t(2) p by blast
qed

lemma mslab_alloc_spec:
  assumes ok: "pool_ok {s} c m others mp" and r: "slab_ready s m mp"
  obtains p m' mp' where "mslab_alloc c m mp s = Some (p, m', mp')" and "pool_ok {} c m' others mp'" and "p \<notin> live_objs c m mp"
    and "live_objs c m' mp' = insert p (live_objs c m mp)" and "same_shape mp mp'" and "mp_slabs mp' = mp_slabs mp" and "p \<noteq> NULL"
    and "\<And>t. t \<noteq> s \<Longrightarrow> m' t = m t"
proof -
  note P = pool_okD [OF ok]
  have hot: "s \<in> set (hot_slabs mp)" "s \<notin> set (cold_slabs mp)" "s \<noteq> mp_spare mp" "ms_in_hot_slabs (m s)" "0 < ms_nfree (m s)"
    using r by (simp_all add: slab_ready_def)
  have s: "s \<in> set (pool_slabs mp)" using pool_listsD(4) [OF P(3)] hot(1) by blast
  obtain i h where t: "mslab_take c mp s (m s) = (obj_at mp s i, h)" "i < objcount mp" "obj_at mp s i \<notin> slab_live c mp s (m s)"
    "mslab_inv c mp s h" "slab_live c mp s h = insert (obj_at mp s i) (slab_live c mp s (m s))"
    "ms_nfree h = ms_nfree (m s) - 1" "ms_in_hot_slabs h = ms_in_hot_slabs (m s)"
    using mslab_take_spec [OF P(1) P(5) [OF s] hot(5)] by blast
  let ?p = "obj_at mp s i"
  have "?p \<in> span s (sl_size (hdr c s))"
    unfolding P(4) [OF s] by (rule subsetD [OF obj_at_bounds(1) [OF P(1) t(2)]]) (simp add: P(7))
  then have new: "?p \<notin> live_objs c m mp" using obj_not_live_elsewhere [OF ok s] t(3) by (auto simp: live_objs_def)
  define m' where "m' = (if ms_nfree h = 0 then m(s := h\<lparr>ms_in_hot_slabs := False\<rparr>) else m(s := h))"
  define mp' where "mp' = (if ms_nfree h = 0 then mp\<lparr>hot_slabs := remove1 s (hot_slabs mp), first_hot_slab := first_of (remove1 s (hot_slabs mp))\<rparr> else mp)"
  have h': "ms_in_hot_slabs h" using t(7) hot(4) by simp
  have run: "mslab_alloc c m mp s = Some (?p, m', mp')"
    using t(1) hot(5) by (simp add: mslab_alloc_def upd_ms_def m'_def mp'_def mslab_cool_eq [OF P(3) hot(1)])
  have pl: "pool_lists {} m' mp'"
    unfolding m'_def mp'_def using pool_lists_take [OF P(3) hot(1-4) t(6) h' slab_live_card(2) [OF P(5) [OF s] P(7)] hot(5)] by simp
  have sh: "same_shape mp mp'" "mp_slabs mp' = mp_slabs mp" by (simp_all add: mp'_def same_shape_def)
  have inv: "mslab_inv c mp u (m' u)" if "u \<in> set (pool_slabs mp)" for u
    using P(5) [OF that] t(4) by (simp add: m'_def)
  have "slab_live c mp s (m' s) = insert ?p (slab_live c mp s (m s))" using t(5) by (simp add: m'_def)
  then have live: "live_objs c m' mp = insert ?p (live_objs c m mp)"
    by (rule live_objs_upd(1) [OF s, rotated]) (simp add: m'_def)
  have ok': "pool_ok {} c m' others mp'"
    using P pl inv unfolding pool_ok_def same_shape [OF sh(1)] sh(2) by simp
  have "live_objs c m' mp' = insert ?p (live_objs c m mp)" using live unfolding live_objs_def same_shape [OF sh(1)] sh(2) .
  then show thesis using run ok' new sh obj_at_bounds(2) [OF P(1) t(2), of s] by (intro that [of ?p m' mp']) (simp_all add: m'_def)
qed

text \<open>The counter of used bytes is independent of the rest.\<close>

lemma pool_counted:
  "pool_ok E c m others (mp\<lparr>mp_slabs := add_used n (mp_slabs mp)\<rparr>) = pool_ok E c m others mp"
  "live_objs c m (mp\<lparr>mp_slabs := add_used n (mp_slabs mp)\<rparr>) = live_objs c m mp"
proof -
  let ?mp = "mp\<lparr>mp_slabs := add_used n (mp_slabs mp)\<rparr>"
  have sh: "same_shape mp ?mp" by simp
  have xs: "pool_slabs ?mp = pool_slabs mp" "st_total (mp_slabs ?mp) = st_total (mp_slabs mp)" by (simp_all add: add_used_def)
  have "slab_place m ?mp = slab_place m mp" by (simp add: slab_place_def fun_eq_iff)
  then have "pool_lists E m ?mp = pool_lists E m mp" unfolding pool_lists_def xs by simp
  then show "pool_ok E c m others ?mp = pool_ok E c m others mp" unfolding pool_ok_def same_shape [OF sh] xs by simp
  show "live_objs c m ?mp = live_objs c m mp" unfolding live_objs_def same_shape [OF sh] xs ..
qed

text \<open>An object is live when it has been handed out and not been freed since.\<close>

lemma mempool_alloc_spec:
  assumes os: "os_ok os" and inv: "mempool_inv c m others mp"
  obtains p c' m' mp' where "mempool_alloc os c m mp = Some (p, c', m', mp')" and "mempool_inv c' m' others mp'"
    and "kept c c' (others \<union> slabs_of c (pool_slabs mp))" and "same_shape mp mp'" and "\<forall>(t, n) \<in> others. m' t = m t"
    and "p = NULL \<Longrightarrow> live_objs c' m' mp' = live_objs c m mp \<and> (\<forall>s \<in> set (pool_slabs mp). ms_nfree (m s) = 0) \<and> mp' = mp"
    and "p \<noteq> NULL \<Longrightarrow> p \<notin> live_objs c m mp \<and> live_objs c' m' mp' = insert p (live_objs c m mp)"
proof -
  have ok: "pool_ok {} c m others mp" and u: "st_used (mp_slabs mp) = int (objsize mp) * int (card (live_objs c m mp))"
    using inv by (simp_all add: mempool_inv_def)
  show thesis
  proof (rule mempool_ready_spec [OF os ok])
    fix c' assume r: "mempool_ready os c m mp = Some (NULL, c', m, mp)" "pool_ok {} c' m others mp"
      "kept c c' (others \<union> slabs_of c (pool_slabs mp))" "live_objs c' m mp = live_objs c m mp"
      "\<forall>s \<in> set (pool_slabs mp). ms_nfree (m s) = 0"
    show thesis by (rule that [of NULL c' m mp]) (use r u in \<open>simp_all add: mempool_alloc_def mempool_inv_def\<close>)
  next
    fix s c1 m1 mp1 assume r: "mempool_ready os c m mp = Some (s, c1, m1, mp1)" "s \<noteq> NULL" "pool_ok {s} c1 m1 others mp1"
      "slab_ready s m1 mp1" "kept c c1 (others \<union> slabs_of c (pool_slabs mp))" "live_objs c1 m1 mp1 = live_objs c m mp"
      "same_shape mp mp1" "st_used (mp_slabs mp1) = st_used (mp_slabs mp)" "\<forall>(t, n) \<in> others. m1 t = m t"
    let ?mp = "mp1\<lparr>mp_slabs := add_used (int (objsize mp1)) (mp_slabs mp1)\<rparr>"
    have ok1: "pool_ok {s} c1 m1 others ?mp" and l1: "live_objs c1 m1 ?mp = live_objs c m mp" and rd: "slab_ready s m1 ?mp"
      using r(3,4,6) by (simp_all add: pool_counted slab_ready_def)
    obtain p m' mp' where a: "mslab_alloc c1 m1 ?mp s = Some (p, m', mp')" "pool_ok {} c1 m' others mp'" "p \<notin> live_objs c1 m1 ?mp"
      "live_objs c1 m' mp' = insert p (live_objs c1 m1 ?mp)" "same_shape ?mp mp'" "mp_slabs mp' = mp_slabs ?mp" "p \<noteq> NULL"
      "\<And>t. t \<noteq> s \<Longrightarrow> m' t = m1 t"
      using mslab_alloc_spec [OF ok1 rd] by blast
    have sh': "same_shape mp mp'" by (rule same_shape_trans [OF same_shape_trans [OF r(7) same_shape_updates(6)] a(5)])
    have run: "mempool_alloc os c m mp = Some (p, c1, m', mp')" using r(1,2) a(1,7) by (simp add: mempool_alloc_def)
    have fin: "finite (live_objs c1 m1 ?mp)" unfolding live_objs_def using slab_live_card(3) pool_okD(5,7) [OF ok1] by blast
    have "st_used (mp_slabs mp') = int (objsize mp') * int (card (live_objs c1 m' mp'))"
      using a(3,4) fin u r(8) same_shape(8) [OF sh'] same_shape(8) [OF r(7)] l1 unfolding a(6) by (simp add: add_used_def algebra_simps)
    moreover have s: "s \<in> set (pool_slabs mp1)" using pool_listsD(4) [OF pool_okD(3) [OF r(3)]] r(4) by (auto simp: slab_ready_def)
    have "m' t = m t" if "(t, n) \<in> others" for t n
    proof -
      have "t \<noteq> s" using owns_others [OF pool_okD(2) [OF r(3)] that] s by metis
      then show ?thesis using a(8) r(9) that by auto
    qed
    ultimately show thesis
      by (intro that [of p c1 m' mp', OF run _ r(5) sh']) (use a l1 in \<open>auto simp: mempool_inv_def\<close>)
  qed
qed

section \<open>Freeing\<close>

text \<open>The part of the invariant that does not mention the lists.\<close>

definition slabs_ok :: "slab_cache \<Rightarrow> mslabs \<Rightarrow> (addr \<times> nat) set \<Rightarrow> mempool \<Rightarrow> bool" where
  "slabs_ok c m others mp \<longleftrightarrow> mempool_config c mp \<and> owns c others (pool_slabs mp) \<and>
     (\<forall>s \<in> set (pool_slabs mp). sl_size (hdr c s) = pool_slab_size c mp \<and> sl_order (hdr c s) = mp_order mp \<and> mslab_inv c mp s (m s)) \<and>
     st_total (mp_slabs mp) = int (pool_slab_size c mp) * int (length (pool_slabs mp))"

lemma pool_ok_slabs: "pool_ok E c m others mp \<longleftrightarrow> slabs_ok c m others mp \<and> pool_lists E m mp"
  by (auto simp: pool_ok_def slabs_ok_def)

lemma slabs_ok_flag:
  assumes "slabs_ok c (m(s := h)) others mp" and "same_shape mp mp'" and "mp_slabs mp' = mp_slabs mp"
  shows "slabs_ok c (m(s := h\<lparr>ms_in_hot_slabs := b\<rparr>)) others mp'" (is "slabs_ok c ?m others mp'")
    and "live_objs c (m(s := h\<lparr>ms_in_hot_slabs := b\<rparr>)) mp' = live_objs c (m(s := h)) mp"
proof -
  have "mslab_inv c mp t (?m t) = mslab_inv c mp t ((m(s := h)) t)" "slab_live c mp t (?m t) = slab_live c mp t ((m(s := h)) t)" for t
    by simp_all
  then show "slabs_ok c ?m others mp'" "live_objs c ?m mp' = live_objs c (m(s := h)) mp"
    using assms(1) unfolding slabs_ok_def live_objs_def same_shape [OF assms(2)] assms(3) by simp_all
qed

lemma slabs_ok_same:
  assumes "slabs_ok c m others mp" and "same_shape mp mp'" and "mp_slabs mp' = mp_slabs mp"
  shows "slabs_ok c m others mp'" and "live_objs c m mp' = live_objs c m mp"
  using assms(1) unfolding slabs_ok_def live_objs_def same_shape [OF assms(2)] assms(3) by simp_all

lemma slabs_ok_drop:
  assumes ok: "slabs_ok c m others mp" and x: "x \<in> set (pool_slabs mp)" and e: "slab_live c mp x (m x) = {}"
  defines "mp' \<equiv> mp\<lparr>mp_slabs := slab_list_del (mp_slabs mp) x (sl_size (hdr c x))\<rparr>"
  obtains c' where "slab_put_with_order c x = Some c'" and "slabs_ok c' m others mp'" and "live_objs c' m mp' = live_objs c m mp"
    and "kept c c' (others \<union> slabs_of c (remove1 x (pool_slabs mp)))"
proof -
  have P: "mempool_config c mp" "owns c others (pool_slabs mp)" "st_total (mp_slabs mp) = int (pool_slab_size c mp) * int (length (pool_slabs mp))"
    and Q: "\<And>s. s \<in> set (pool_slabs mp) \<Longrightarrow> sl_size (hdr c s) = pool_slab_size c mp \<and> sl_order (hdr c s) = mp_order mp \<and> mslab_inv c mp s (m s)"
    using ok by (simp_all add: slabs_ok_def)
  let ?ys = "remove1 x (pool_slabs mp)"
  have d: "distinct (pool_slabs mp)" using P(2) by (simp add: owns_def)
  have ys: "set ?ys = set (pool_slabs mp) - {x}" by (rule set_remove1_eq [OF d])
  have "sl_order (hdr c x) \<le> order_max c" using Q [OF x] P(1) by (simp add: mempool_config_def)
  then obtain c' where c': "slab_put_with_order c x = Some c'" "owns c' others ?ys" "slabs_of c' ?ys = slabs_of c ?ys"
    "kept c c' (others \<union> slabs_of c ?ys)" using owns_put_order [OF P(2) x] by blast
  note sc = same_cache_pool [OF keptD(2) [OF c'(4)]]
  have sh: "same_shape mp mp'" and xs: "pool_slabs mp' = ?ys" by (simp_all add: mp'_def slab_list_del_def)
  have fr: "mslab_inv c' mp t (m t) \<and> slab_live c' mp t (m t) = slab_live c mp t (m t)" if t: "t \<in> set ?ys" for t
  proof -
    have q: "sl_size (hdr c t) = pool_slab_size c mp" "mslab_inv c mp t (m t)" using Q [of t] t ys by blast+
    have "(t, pool_slab_size c mp) \<in> slabs_of c ?ys" using t q(1) by (force simp: slabs_of_def)
    then have "span t (pool_slab_size c mp) \<subseteq> slab_bytes (others \<union> slabs_of c ?ys)" by (intro span_slab_bytes) blast
    then have "mem c' y = mem c y" if "y \<in> span t (pool_slab_size c mp)" for y using c'(4) that unfolding kept_def keeps_def by blast
    from slab_frame [OF q(2) P(1) this] show ?thesis by blast
  qed
  have sz: "sl_size (hdr c' t) = pool_slab_size c mp \<and> sl_order (hdr c' t) = mp_order mp" if t: "t \<in> set ?ys" for t
  proof -
    have q: "sl_size (hdr c t) = pool_slab_size c mp" "sl_order (hdr c t) = mp_order mp" using Q [of t] t ys by blast+
    have "(t, sl_size (hdr c t)) \<in> others \<union> slabs_of c ?ys" using t by (simp add: slabs_of_def)
    then show ?thesis using slabs_of_eq_size [OF c'(3) t] keptD(3) [OF c'(4)] q by simp
  qed
  have len: "int (length ?ys) = int (length (pool_slabs mp)) - 1" using length_pos_if_in_set [OF x] x by (simp add: length_remove1 of_nat_diff Suc_le_eq)
  have "st_total (mp_slabs mp') = int (pool_slab_size c mp) * int (length ?ys)"
    unfolding len using P(3) Q [OF x] by (simp add: mp'_def slab_list_del_def algebra_simps)
  then have "slabs_ok c' m others mp'"
    unfolding slabs_ok_def same_shape [OF sh] sc xs using P(1) c'(2) fr sz by simp
  moreover have "live_objs c' m mp' = live_objs c m mp"
    unfolding live_objs_def same_shape [OF sh] xs using fr e ys by auto
  ultimately show thesis using c'(1,4) by (intro that [of c'])
qed

text \<open>Writing into a freed object and linking it into the list of its slab.\<close>

lemma slabs_ok_return:
  assumes ok: "slabs_ok c m others mp" and s: "s \<in> set (pool_slabs mp)" and p: "p \<in> slab_live c mp s (m s)"
    and m: "\<And>x. x \<notin> span p (objsize mp) \<Longrightarrow> g x = mem c x" and l: "load_ptr (c\<lparr>mem := g\<rparr>) p = ms_free_list (m s)"
  defines "m' \<equiv> m(s := (m s)\<lparr>ms_free_list := p, ms_nfree := ms_nfree (m s) + 1\<rparr>)"
  shows "slabs_ok (c\<lparr>mem := g\<rparr>) m' others mp" and "live_objs (c\<lparr>mem := g\<rparr>) m' mp = live_objs c m mp - {p}"
proof -
  let ?c = "c\<lparr>mem := g\<rparr>"
  have P: "mempool_config c mp" "owns c others (pool_slabs mp)"
    and Q: "\<And>s. s \<in> set (pool_slabs mp) \<Longrightarrow> sl_size (hdr c s) = pool_slab_size c mp \<and> sl_order (hdr c s) = mp_order mp \<and> mslab_inv c mp s (m s)"
    using ok by (simp_all add: slabs_ok_def)
  have sub: "span p (objsize mp) \<subseteq> span s (pool_slab_size c mp)" using slab_live_at [OF P(1) _ p] Q [OF s] by metis
  have "0 < objsize mp" using P(1) by (simp add: mempool_config_def)
  then have ps: "p \<in> span s (pool_slab_size c mp)" by (intro subsetD [OF sub]) simp
  have other: "span t (pool_slab_size c mp) \<inter> span s (pool_slab_size c mp) = {}" if "t \<in> set (pool_slabs mp)" "t \<noteq> s" for t
    using owns_disjoint(2) [OF P(2) that(1) s that(2)] Q [OF s] Q [OF that(1)] by simp
  have fr: "mslab_inv ?c mp t (m t) \<and> slab_live ?c mp t (m t) = slab_live c mp t (m t)" if t: "t \<in> set (pool_slabs mp)" "t \<noteq> s" for t
  proof -
    have "mem ?c y = mem c y" if "y \<in> span t (pool_slab_size c mp)" for y
    proof -
      have "y \<notin> span p (objsize mp)" using other [OF t] sub that by blast
      then show ?thesis using m by simp
    qed
    from slab_frame [OF _ P(1) this] Q [OF t(1)] show ?thesis by blast
  qed
  have "mslab_inv ?c mp s (m' s) \<and> slab_live ?c mp s (m' s) = slab_live c mp s (m s) - {p}"
    using mslab_return_spec [OF P(1) _ p, of ?c] Q [OF s] m l by (simp add: m'_def)
  then have s2: "mslab_inv ?c mp s (m' s)" "slab_live ?c mp s (m' s) = slab_live c mp s (m s) - {p}" by blast+
  have inv: "mslab_inv ?c mp t (m' t)" if "t \<in> set (pool_slabs mp)" for t using that s2(1) fr [of t] by (cases "t = s") (simp_all add: m'_def)
  show "slabs_ok ?c m' others mp" using ok inv by (simp add: slabs_ok_def mempool_config_def)
  have "p \<notin> slab_live c mp t (m t)" if "t \<in> set (pool_slabs mp)" "t \<noteq> s" for t
  proof
    assume "p \<in> slab_live c mp t (m t)"
    then have "span p (objsize mp) \<subseteq> span t (pool_slab_size c mp)" using slab_live_at [OF P(1)] Q [OF that(1)] by metis
    then have "p \<in> span t (pool_slab_size c mp)" by (rule subsetD) (simp add: \<open>0 < objsize mp\<close>)
    then show False using other [OF that] ps by blast
  qed
  then show "live_objs ?c m' mp = live_objs c m mp - {p}"
    using live_objs_upd(2) [OF s, of ?c m' c m, OF _ s2(2)] fr by (simp add: m'_def)
qed

lemma mslab_release_spec:
  assumes ok: "slabs_ok c m2 others mp2" and s: "s \<in> set (pool_slabs mp2)" "s \<noteq> mp_spare mp2"
    and live: "slab_live c mp2 s (m2 s) = {}" "mp_spare mp2 \<noteq> NULL \<Longrightarrow> slab_live c mp2 (mp_spare mp2) (m2 (mp_spare mp2)) = {}"
      "mp_spare mp2 \<noteq> NULL \<Longrightarrow> mp_spare mp2 \<in> set (pool_slabs mp2)"
    and pl: "\<And>l ys spare X. sl_slabs l = ys \<Longrightarrow> set ys = set (pool_slabs mp2) - X \<Longrightarrow>
      spare = s \<and> X = {mp_spare mp2} \<or> spare = mp_spare mp2 \<and> X = {s} \<Longrightarrow> pool_lists {} m2 (mp2\<lparr>mp_slabs := l, mp_spare := spare\<rparr>)"
    and null: "NULL \<notin> set (pool_slabs mp2)"
  obtains c' mp' where "mslab_release c mp2 s = Some (c', mp')" and "pool_ok {} c' m2 others mp'" and "live_objs c' m2 mp' = live_objs c m2 mp2"
    and "same_shape mp2 mp'" and "st_used (mp_slabs mp') = st_used (mp_slabs mp2)" and "set (pool_slabs mp') \<subseteq> set (pool_slabs mp2)"
    and "kept c c' (others \<union> slabs_of c (pool_slabs mp'))"
proof -
  have d: "distinct (pool_slabs mp2)" using ok by (simp add: slabs_ok_def owns_def)
  have rm: "set (remove1 x (pool_slabs mp2)) = set (pool_slabs mp2) - {x}" for x by (rule set_remove1_eq [OF d])
  consider (lower) "mp_spare mp2 > s" | (higher) "\<not> mp_spare mp2 > s" "mp_spare mp2 \<noteq> NULL" | (none) "mp_spare mp2 = NULL" by blast
  then show thesis
  proof cases
    case lower
    then have sp: "mp_spare mp2 \<noteq> NULL" by simp
    let ?l = "slab_list_del (mp_slabs mp2) (mp_spare mp2) (sl_size (hdr c (mp_spare mp2)))"
    have xs: "sl_slabs ?l = remove1 (mp_spare mp2) (pool_slabs mp2)" by (simp add: slab_list_del_def)
    obtain c' where c': "slab_put_with_order c (mp_spare mp2) = Some c'" "slabs_ok c' m2 others (mp2\<lparr>mp_slabs := ?l\<rparr>)"
      "live_objs c' m2 (mp2\<lparr>mp_slabs := ?l\<rparr>) = live_objs c m2 mp2"
      "kept c c' (others \<union> slabs_of c (remove1 (mp_spare mp2) (pool_slabs mp2)))"
      using slabs_ok_drop [OF ok live(3) [OF sp] live(2) [OF sp]] by blast
    let ?mp = "mp2\<lparr>mp_slabs := ?l, mp_spare := s\<rparr>"
    note S = slabs_ok_same [OF c'(2), of ?mp]
    have "pool_lists {} m2 ?mp" by (rule pl [OF xs rm]) simp
    moreover have "mslab_release c mp2 s = Some (c', ?mp)" using lower c'(1) by (simp add: mslab_release_def mempool_free_spare_slab_def)
    moreover have "slabs_ok c' m2 others ?mp" "live_objs c' m2 ?mp = live_objs c m2 mp2"
      using S c'(3) by (simp_all add: same_shape_def)
    ultimately show thesis using c'(4) xs rm
      by (intro that [of c' ?mp]) (simp_all add: pool_ok_slabs same_shape_def slab_list_del_def)
  next
    case higher
    let ?l = "slab_list_del (mp_slabs mp2) s (sl_size (hdr c s))" and ?mp = "mp2\<lparr>mp_slabs := slab_list_del (mp_slabs mp2) s (sl_size (hdr c s))\<rparr>"
    have xs: "sl_slabs ?l = remove1 s (pool_slabs mp2)" by (simp add: slab_list_del_def)
    obtain c' where c': "slab_put_with_order c s = Some c'" "slabs_ok c' m2 others ?mp" "live_objs c' m2 ?mp = live_objs c m2 mp2"
      "kept c c' (others \<union> slabs_of c (remove1 s (pool_slabs mp2)))"
      using slabs_ok_drop [OF ok s(1) live(1)] by blast
    have "pool_lists {} m2 (mp2\<lparr>mp_slabs := ?l, mp_spare := mp_spare mp2\<rparr>)" by (rule pl [OF xs rm]) simp
    then have "pool_lists {} m2 ?mp" by simp
    moreover have "mslab_release c mp2 s = Some (c', ?mp)" using higher c'(1) by (simp add: mslab_release_def)
    ultimately show thesis using c' xs rm
      by (intro that [of c' ?mp]) (simp_all add: pool_ok_slabs same_shape_def slab_list_del_def)
  next
    case none
    let ?mp = "mp2\<lparr>mp_spare := s\<rparr>"
    note S = slabs_ok_same [OF ok, of ?mp]
    have "set (pool_slabs mp2) = set (pool_slabs mp2) - {mp_spare mp2}" using null none by simp
    from pl [OF refl this, of s] have "pool_lists {} m2 ?mp" by simp
    moreover have "mslab_release c mp2 s = Some (c, ?mp)" using none by (simp add: mslab_release_def)
    moreover have "slabs_ok c m2 others ?mp" "live_objs c m2 ?mp = live_objs c m2 mp2"
      using S by (simp_all add: same_shape_def)
    ultimately show thesis using kept_refl
      by (intro that [of c ?mp]) (simp_all add: pool_ok_slabs same_shape_def)
  qed
qed

lemma mslab_free_spec:
  assumes ok: "pool_ok {} c m others mp" and s: "s \<in> set (pool_slabs mp)" and p: "p \<in> slab_live c mp s (m s)"
    and g: "\<And>x. x \<notin> span p (objsize mp) \<Longrightarrow> g x = mem c x"
  obtains c' m' mp' where "mslab_free (c\<lparr>mem := g\<rparr>) m mp s p = Some (c', m', mp')" and "pool_ok {} c' m' others mp'"
    and "live_objs c' m' mp' = live_objs c m mp - {p}" and "same_shape mp mp'" and "st_used (mp_slabs mp') = st_used (mp_slabs mp)"
    and "set (pool_slabs mp') \<subseteq> set (pool_slabs mp)" and "\<And>t. t \<noteq> s \<Longrightarrow> m' t = m t"
    and "kept (store_ptr (c\<lparr>mem := g\<rparr>) p (ms_free_list (m s))) c' (others \<union> slabs_of c (pool_slabs mp'))"
proof -
  note P = pool_okD [OF ok] and L = pool_listsD [OF pool_okD(3) [OF ok]]
  have sl: "slabs_ok c m others mp" using ok by (simp add: pool_ok_slabs)
  have at: "slab_place m mp s" by (rule L(9) [OF s]) simp
  have oc: "0 < objcount mp" "8 \<le> objsize mp" using P(1) by (simp_all add: mempool_config_def)
  have nf: "ms_nfree (m s) < objcount mp" by (rule slab_live_nfree [OF P(5) [OF s] P(7) p])
  then have sp: "s \<noteq> mp_spare mp" using at oc unfolding slab_place_def by auto
  have fl: "ms_free_list (m s) < 2 ^ 64"
  proof (cases "slab_free_objs c (m s)")
    case Nil
    then show ?thesis using P(5) [OF s] by (simp add: mslab_inv_def)
  next
    case (Cons a F)
    have inv: "obj_chain c (ms_free_list (m s)) (a # F)" "set (a # F) \<subseteq> obj_at mp s ` {..< touched mp (m s)}" "touched mp (m s) \<le> objcount mp"
      using P(5) [OF s] Cons by (simp_all add: mslab_inv_def)
    obtain i where i: "a = obj_at mp s i" "i < objcount mp" using inv(2,3) by auto
    have "a \<in> span s (sl_size (hdr c s))"
      unfolding P(4) [OF s] i(1) by (rule subsetD [OF obj_at_bounds(1) [OF P(1) i(2)]]) (simp add: P(7))
    then show ?thesis using owns_slab(6) [OF P(2) s] inv(1) by simp
  qed
  let ?c = "store_ptr (c\<lparr>mem := g\<rparr>) p (ms_free_list (m s))"
  define h where "h = (m s)\<lparr>ms_free_list := p, ms_nfree := ms_nfree (m s) + 1\<rparr>"
  define g' where "g' = mem ?c"
  have c: "?c = c\<lparr>mem := g'\<rparr>" by (simp add: g'_def store_ptr_def write_bytes_def)
  have g': "g' x = mem c x" if "x \<notin> span p (objsize mp)" for x
  proof -
    have "x \<notin> span p 8" using that oc(2) by auto
    then show ?thesis using g [OF that] by (simp add: g'_def store_ptr_frame(1) del: in_span)
  qed
  have ld: "load_ptr (c\<lparr>mem := g'\<rparr>) p = ms_free_list (m s)" unfolding c [symmetric] by (rule load_store_ptr [OF fl])
  note R = slabs_ok_return [OF sl s p g' ld, folded h_def c]
  have own: "slabs_of ?c xs = slabs_of c xs" for xs by (simp add: c)
  have hh: "ms_nfree h = Suc (ms_nfree (m s))" "ms_in_hot_slabs h = ms_in_hot_slabs (m s)" by (simp_all add: h_def)
  have hot_iff: "ms_in_hot_slabs (m s) \<longleftrightarrow> s \<in> set (hot_slabs mp)" using at by (simp add: slab_place_def)
  have upd: "upd_ms s (\<lambda>h. h\<lparr>ms_free_list := p, ms_nfree := ms_nfree h + 1\<rparr>) m = m(s := h)" by (simp add: upd_ms_def h_def)
  have cold8: "drop_bit MAX_COLD_FRACTION_LB (objcount mp) = objcount mp div 8" by (simp add: MAX_COLD_FRACTION_LB_def drop_bit_eq_div)
  note run = mslab_free_def [of "c\<lparr>mem := g\<rparr>" m mp s p, unfolded upd cold8 Let_def]
  consider (hot) "\<not> ms_in_hot_slabs (m s)" "ms_nfree h \<ge> objcount mp div 8"
    | (cold) "\<not> (\<not> ms_in_hot_slabs (m s) \<and> ms_nfree h \<ge> objcount mp div 8)" "ms_nfree h = 1"
    | (empty) "\<not> (\<not> ms_in_hot_slabs (m s) \<and> ms_nfree h \<ge> objcount mp div 8)" "ms_nfree h \<noteq> 1" "ms_nfree h = objcount mp"
    | (stay) "\<not> (\<not> ms_in_hot_slabs (m s) \<and> ms_nfree h \<ge> objcount mp div 8)" "ms_nfree h \<noteq> 1" "ms_nfree h \<noteq> objcount mp" by blast
  then show thesis
  proof cases
    case hot
    let ?m = "m(s := h\<lparr>ms_in_hot_slabs := True\<rparr>)" and ?mp = "mp\<lparr>hot_slabs := insort s (hot_slabs mp),
      first_hot_slab := first_of (insort s (hot_slabs mp)), cold_slabs := remove1 s (cold_slabs mp)\<rparr>"
    have lt: "1 < objcount mp \<Longrightarrow> ms_nfree h < objcount mp"
      using at hot(1) hot_iff sp nf hh(1) unfolding slab_place_def by (cases "ms_nfree (m s) = 0") auto
    have pl: "pool_lists {} ?m ?mp" by (rule pool_lists_heat [OF P(3) s sp]) (use hot hot_iff hh lt in simp_all)
    have S: "slabs_ok ?c ?m others ?mp" "live_objs ?c ?m ?mp = live_objs c m mp - {p}"
      using slabs_ok_flag [OF R(1), of ?mp] R(2) by (simp_all add: same_shape_def)
    have "mslab_free (c\<lparr>mem := g\<rparr>) m mp s p = Some (?c, ?m, ?mp)" using hot hh by (simp add: run mslab_heat_eq [OF P(3)])
    then show thesis using pl S kept_refl by (intro that [of ?c ?m ?mp]) (simp_all add: pool_ok_slabs same_shape_def)
  next
    case cold
    let ?m = "m(s := h)" and ?mp = "mp\<lparr>cold_slabs := s # cold_slabs mp\<rparr>"
    have n0: "ms_nfree (m s) = 0" using cold(2) hh(1) by simp
    then have "\<not> ms_in_hot_slabs (m s)" using at unfolding slab_place_def by auto
    then have pl: "pool_lists {} ?m ?mp" using cold hh n0 by (intro pool_lists_chill [OF P(3) s]) simp_all
    have S: "slabs_ok ?c ?m others ?mp" "live_objs ?c ?m ?mp = live_objs c m mp - {p}" using slabs_ok_same [OF R(1), of ?mp] R(2) by simp_all
    have "mslab_free (c\<lparr>mem := g\<rparr>) m mp s p = Some (?c, ?m, ?mp)" using cold hh by (auto simp: run)
    then show thesis using pl S kept_refl by (intro that [of ?c ?m ?mp]) (simp_all add: pool_ok_slabs same_shape_def)
  next
    case stay
    let ?m = "m(s := h)"
    have pl: "pool_lists {} ?m mp" using stay hh nf by (intro pool_lists_stay [OF P(3) s sp]) simp_all
    have "mslab_free (c\<lparr>mem := g\<rparr>) m mp s p = Some (?c, ?m, mp)" using stay hh by (auto simp: run)
    then show thesis using pl R kept_refl by (intro that [of ?c ?m mp]) (simp_all add: pool_ok_slabs)
  next
    case empty
    have hot: "s \<in> set (hot_slabs mp)" using empty(1,3) oc(1) hot_iff by auto
    let ?m = "m(s := h\<lparr>ms_in_hot_slabs := False\<rparr>)" and ?mp = "mp\<lparr>hot_slabs := remove1 s (hot_slabs mp),
      first_hot_slab := first_of (remove1 s (hot_slabs mp))\<rparr>"
    have S: "slabs_ok ?c ?m others ?mp" "live_objs ?c ?m ?mp = live_objs c m mp - {p}"
      using slabs_ok_flag [OF R(1), of ?mp] R(2) by (simp_all add: same_shape_def)
    have none: "slab_live ?c ?mp t (?m t) = {}" if "t \<in> set (pool_slabs mp)" "ms_nfree (?m t) = objcount mp" for t
    proof -
      have "mslab_inv ?c ?mp t (?m t)" using S(1) that(1) by (simp add: slabs_ok_def)
      from slab_live_card(1,3) [OF this] that(2) P(7) show ?thesis by simp
    qed
    have spare: "ms_nfree (?m (mp_spare mp)) = objcount mp" if "mp_spare mp \<noteq> NULL"
      using L(9) [OF L(8) [OF that]] sp unfolding slab_place_def by auto
    have pl: "pool_lists {} ?m (?mp\<lparr>mp_slabs := l, mp_spare := spare\<rparr>)"
      if "sl_slabs l = ys" "set ys = set (pool_slabs ?mp) - X" "spare = s \<and> X = {mp_spare ?mp} \<or> spare = mp_spare ?mp \<and> X = {s}" for l ys spare X
      using pool_lists_empty [OF P(3) hot empty(3) that(1), of X spare] that(2,3) by simp
    obtain c' mp' where r: "mslab_release ?c ?mp s = Some (c', mp')" "pool_ok {} c' ?m others mp'" "live_objs c' ?m mp' = live_objs ?c ?m ?mp"
      "same_shape ?mp mp'" "st_used (mp_slabs mp') = st_used (mp_slabs ?mp)" "set (pool_slabs mp') \<subseteq> set (pool_slabs ?mp)"
      "kept ?c c' (others \<union> slabs_of ?c (pool_slabs mp'))"
      by (rule mslab_release_spec [OF S(1) _ _ none none _ pl, of s]) (use s sp spare L(7,8) empty(3) in simp_all)
    have "mslab_free (c\<lparr>mem := g\<rparr>) m mp s p = Some (c', ?m, mp')"
      using empty hh hot_iff hot r(1) by (simp add: run mslab_cool_eq [OF P(3) hot])
    then show thesis using r S(2) own by (intro that [of c' ?m mp']) (simp_all add: same_shape_def)
  qed
qed

lemma and_not_low_bits: "int p AND NOT (2 ^ k - 1) = int (2 ^ k * (p div 2 ^ k))"
proof -
  have "int p AND NOT (2 ^ k - 1) = push_bit k (drop_bit k (int p))"
    unfolding mask_eq_exp_minus_1 [symmetric] by (rule bit_eqI) (auto simp: bit_simps)
  also have "\<dots> = int (2 ^ k * (p div 2 ^ k))" by (simp add: push_bit_eq_mult drop_bit_eq_div zdiv_int mult.commute)
  finally show ?thesis .
qed

lemma mempool_slab_of:
  assumes ok: "pool_ok E c m others mp" and p: "p \<in> live_objs c m mp"
  obtains s where "s \<in> set (pool_slabs mp)" and "p \<in> slab_live c mp s (m s)" and "slab_from_ptr c p (slab_ptr_mask mp) = Some s"
    and "s < p" and "sl_order (hdr c s) = mp_order mp"
proof -
  note P = pool_okD [OF ok]
  obtain s where s: "s \<in> set (pool_slabs mp)" "p \<in> slab_live c mp s (m s)" using p by (auto simp: live_objs_def)
  have b: "p \<in> span s (pool_slab_size c mp)" "s < p" using live_obj_slab(2,3) [OF ok s] P(4) [OF s(1)] by simp_all
  have c: "cache_inv c (others \<union> slabs_of c (pool_slabs mp))" using P(2) by (simp add: owns_def)
  have ord: "sl_order (hdr c s) = mp_order mp" by (rule P(8) [OF s(1)])
  then have "sl_order (hdr c s) \<le> order_max c" using P(1) by (simp add: mempool_config_def)
  then have "pool_slab_size c mp dvd s" using cache_inv_slab(5) [OF c owns_slab(5) [OF P(2) s(1)]] P(4) [OF s(1)] by simp
  then obtain k where k: "s = pool_slab_size c mp * k" by (auto elim: dvdE)
  have "p div pool_slab_size c mp = k" using b(1) by (intro div_nat_eqI) (simp_all add: k algebra_simps)
  then have "int p AND slab_ptr_mask mp = int s" using P(1) by (simp add: mempool_config_def and_not_low_bits k)
  then have "slab_from_ptr c p (slab_ptr_mask mp) = Some s" using owns_slab(2) [OF P(2) s(1)] by (simp add: slab_from_ptr_def)
  then show thesis using s b(2) ord by (intro that)
qed

lemma mempool_free_slab_spec:
  assumes inv: "mempool_inv c m others mp" and s: "s \<in> set (pool_slabs mp)" and p: "p \<in> slab_live c mp s (m s)"
  obtains c' m' mp' where "mempool_free_slab c m mp s p = Some (c', m', mp')" and "mempool_inv c' m' others mp'"
    and "live_objs c' m' mp' = live_objs c m mp - {p}" and "same_shape mp mp'" and "kept c c' others"
    and "\<And>q x. q \<in> live_objs c m mp \<Longrightarrow> q \<noteq> p \<Longrightarrow> x \<in> span q (objsize mp) \<Longrightarrow> mem c' x = mem c x"
    and "\<forall>(t, n) \<in> others. m' t = m t" and "set (pool_slabs mp') \<subseteq> set (pool_slabs mp)"
proof -
  let ?mp = "mp\<lparr>mp_slabs := add_used (- int (objsize mp)) (mp_slabs mp)\<rparr>"
  have ok: "pool_ok {} c m others mp" and u: "st_used (mp_slabs mp) = int (objsize mp) * int (card (live_objs c m mp))"
    using inv by (simp_all add: mempool_inv_def)
  note P = pool_okD [OF ok]
  define g where "g = mem (memset c p 0x23 (objsize mp))"
  have mset: "memset c p 0x23 (objsize mp) = c\<lparr>mem := g\<rparr>" by (simp add: g_def memset_def)
  have g: "g x = mem c x" if "x \<notin> span p (objsize mp)" for x using that by (auto simp: g_def memset_def)
  have sh: "same_shape mp ?mp" by simp
  have ok1: "pool_ok {} c m others ?mp" using ok by (simp add: pool_counted)
  have xs: "pool_slabs ?mp = pool_slabs mp" by (simp add: add_used_def)
  obtain c' m' mp' where f: "mslab_free (c\<lparr>mem := g\<rparr>) m ?mp s p = Some (c', m', mp')" "pool_ok {} c' m' others mp'"
    "live_objs c' m' mp' = live_objs c m ?mp - {p}" "same_shape ?mp mp'" "st_used (mp_slabs mp') = st_used (mp_slabs ?mp)"
    "set (pool_slabs mp') \<subseteq> set (pool_slabs ?mp)" "\<And>t. t \<noteq> s \<Longrightarrow> m' t = m t"
    "kept (store_ptr (c\<lparr>mem := g\<rparr>) p (ms_free_list (m s))) c' (others \<union> slabs_of c (pool_slabs mp'))"
    using mslab_free_spec [OF ok1, of s p g] s p g unfolding xs same_shape [OF sh] by (auto simp del: in_span)
  have pl: "p \<in> live_objs c m mp" using s p by (auto simp: live_objs_def)
  have order: "s < p" "sl_order (hdr c s) = mp_order mp"
    by (rule live_obj_slab(3) [OF ok s p], rule P(8) [OF s])
  have run: "mempool_free_slab c m mp s p = Some (c', m', mp')"
    using f(1) order unfolding mempool_free_slab_def mset by simp
  have sh': "same_shape mp mp'" by (rule same_shape_trans [OF sh f(4)])
  have live: "live_objs c' m' mp' = live_objs c m mp - {p}" using f(3) by (simp add: pool_counted)
  have fin: "finite (live_objs c m mp)" unfolding live_objs_def using slab_live_card(3) P(5,7) by blast
  have "int (card (live_objs c m mp - {p})) = int (card (live_objs c m mp)) - 1" using pl fin card_gt_0_iff [of "live_objs c m mp"]
    by (subst card_Diff_singleton) (auto simp: of_nat_diff Suc_le_eq)
  then have "int (objsize mp) * int (card (live_objs c m mp - {p})) = st_used (mp_slabs mp) - int (objsize mp)"
    unfolding u by (simp add: right_diff_distrib)
  then have inv': "mempool_inv c' m' others mp'"
    using f(2,5) same_shape(8) [OF sh'] by (simp add: mempool_inv_def live add_used_def)
  have mem1: "mem (store_ptr (c\<lparr>mem := g\<rparr>) p (ms_free_list (m s))) x = mem c x" if "x \<notin> span p (objsize mp)" for x
  proof -
    have "x \<notin> span p 8" using that P(1) by (auto simp: mempool_config_def)
    then show ?thesis using g [OF that] by (simp add: store_ptr_frame(1) del: in_span)
  qed
  have sc: "same_cache c (store_ptr (c\<lparr>mem := g\<rparr>) p (ms_free_list (m s)))" by (simp add: store_ptr_def write_bytes_def)
  have sp: "span p (objsize mp) \<subseteq> span s (sl_size (hdr c s))" by (rule live_obj_slab(1) [OF ok s p])
  have "mem (store_ptr (c\<lparr>mem := g\<rparr>) p (ms_free_list (m s))) x = mem c x" if "x \<in> slab_bytes others" for x
    using owns_disjoint(1) [OF P(2) s] sp that by (intro mem1) blast
  then have "kept c (store_ptr (c\<lparr>mem := g\<rparr>) p (ms_free_list (m s))) others" using sc by (simp add: same_cache_def keeps_def kept_def same_orders_def store_ptr_frame)
  moreover have "kept (store_ptr (c\<lparr>mem := g\<rparr>) p (ms_free_list (m s))) c' others"
    by (rule kept_mono [OF f(8)]) blast
  ultimately have k: "kept c c' others" by (rule kept_trans)
  have bytes: "mem c' x = mem c x" if q: "q \<in> live_objs c m mp" "q \<noteq> p" "x \<in> span q (objsize mp)" for q x
  proof -
    have "q \<in> live_objs c' m' mp'" using q live by simp
    then obtain t where t: "t \<in> set (pool_slabs mp')" "q \<in> slab_live c' mp' t (m' t)" by (auto simp: live_objs_def)
    have tx: "t \<in> set (pool_slabs mp)" using t(1) f(6) unfolding xs by blast
    have "x \<in> span t (sl_size (hdr c' t))"
      using live_obj_slab(1) [OF f(2) t] q(3) same_shape(8) [OF sh'] by auto
    moreover have "sl_size (hdr c' t) = sl_size (hdr c t)"
      using pool_okD(4) [OF f(2) t(1)] P(4) [OF tx] same_shape(6) [OF sh', of c'] same_cache_pool(2) [OF keptD(2) [OF k]] by simp
    ultimately have "x \<in> span t (sl_size (hdr c t))" by simp
    moreover have "(t, sl_size (hdr c t)) \<in> slabs_of c (pool_slabs mp')" using t(1) by (simp add: slabs_of_def)
    ultimately have "x \<in> slab_bytes (others \<union> slabs_of c (pool_slabs mp'))" using span_slab_bytes [of t "sl_size (hdr c t)"] by blast
    then have "mem c' x = mem (store_ptr (c\<lparr>mem := g\<rparr>) p (ms_free_list (m s))) x" using f(8) by (simp add: kept_def keeps_def)
    also have "\<dots> = mem c x"
    proof (rule mem1)
      obtain t' where t': "t' \<in> set (pool_slabs mp)" "q \<in> slab_live c mp t' (m t')" using q(1) by (auto simp: live_objs_def)
      show "x \<notin> span p (objsize mp)"
      proof (cases "t' = s")
        case True
        then show ?thesis using slab_live_disjoint [OF t'(2) [unfolded True] p q(2)] q(3) by blast
      next
        case False
        then show ?thesis using owns_disjoint(2) [OF P(2) t'(1) s] live_obj_slab(1) [OF ok t'] sp q(3) by blast
      qed
    qed
    finally show ?thesis .
  qed
  have own: "\<forall>(t, n) \<in> others. m' t = m t" using owns_others [OF P(2)] s f(7) by fastforce
  show thesis using run inv' live sh' k bytes own f(6) [unfolded xs] by (rule that)
qed

lemma mempool_free_spec:
  assumes inv: "mempool_inv c m others mp" and p: "p \<in> live_objs c m mp"
  obtains c' m' mp' where "mempool_free c m mp p = Some (c', m', mp')" and "mempool_inv c' m' others mp'"
    and "live_objs c' m' mp' = live_objs c m mp - {p}" and "same_shape mp mp'" and "kept c c' others"
    and "\<And>q x. q \<in> live_objs c m mp \<Longrightarrow> q \<noteq> p \<Longrightarrow> x \<in> span q (objsize mp) \<Longrightarrow> mem c' x = mem c x"
    and "\<forall>(t, n) \<in> others. m' t = m t"
proof -
  have ok: "pool_ok {} c m others mp" using inv by (simp add: mempool_inv_def)
  obtain s where s: "s \<in> set (pool_slabs mp)" "p \<in> slab_live c mp s (m s)" "slab_from_ptr c p (slab_ptr_mask mp) = Some s" "s < p"
    using mempool_slab_of [OF ok p] by blast
  then have e: "mempool_free c m mp p = mempool_free_slab c m mp s p" by (simp add: mempool_free_def)
  show thesis by (rule mempool_free_slab_spec [OF inv s(1,2), folded e]) (rule that)
qed

section \<open>Creation and destruction\<close>

lemma mempool_create_with_order_spec:
  assumes c: "cache_inv c others" and k: "order \<le> order_max c" and osz: "8 \<le> osz"
    and fit: "osz + mslab_sizeof \<le> 2 ^ (order + order0_size_lb c)"
  obtains mp where "mempool_create_with_order self c osz order = Some mp" and "mempool_inv c m others mp" and "live_objs c m mp = {}"
    and "objsize mp = osz" and "mp_order mp = order" and "mp_self mp = self" and "pool_slabs mp = []"
    and "objcount mp = (2 ^ (order + order0_size_lb c) - mslab_sizeof) div osz"
proof -
  obtain R L U where ci: "cinv c R L U {}" using c by (auto simp: cache_inv_def)
  note ca = cache_inv_arena_size [OF ci]
  let ?n = "2 ^ (order + order0_size_lb c) :: nat"
  let ?cnt = "(?n - mslab_sizeof) div osz"
  have n: "?n \<le> ar_slab_size (sc_arena c)"
  proof -
    have "ar_slab_size (sc_arena c) = bsz (order0_size_lb c) (order_max c)" using ca(2) by (simp add: cache_config_def)
    then show ?thesis using k by (simp add: bsz_def)
  qed
  have lt: "ar_slab_size (sc_arena c) < 2 ^ 32" using ca(1) by simp
  have cnt: "nat ((int ?n - int mslab_sizeof) mod 2 ^ 32) div osz = ?cnt"
    using fit n lt by (subst nat_mod_power [of _ "?n - mslab_sizeof"]) (simp_all add: of_nat_diff)
  have pos: "0 < ?cnt" using fit osz by (simp add: div_greater_zero_iff)
  have le: "?cnt * osz \<le> ?n - mslab_sizeof" by (rule div_times_less_eq_dividend)
  have off: "nat ((int ?n - int (?cnt * osz)) mod 2 ^ 32) = ?n - ?cnt * osz"
  proof (rule nat_mod_power)
    show "int ?n - int (?cnt * osz) = int (?n - ?cnt * osz)" using le by (intro of_nat_diff [symmetric]) linarith
    show "?n - ?cnt * osz < 2 ^ 32" using n lt by linarith
  qed
  define mp where "mp = \<lparr>mp_slabs = slab_list_create, hot_slabs = [], first_hot_slab = NULL, cold_slabs = [], mp_spare = NULL,
       objsize = osz, mp_order = order, objcount = ?cnt, mp_offset = ?n - ?cnt * osz,
       slab_ptr_mask = NOT (int ?n - 1), mp_self = self\<rparr>"
  have so: "slab_order_size c order = Some ?n" using k by (simp add: slab_order_size_def push_bit_eq_mult)
  have run: "mempool_create_with_order self c osz order = Some mp"
    unfolding mempool_create_with_order_def so c_assert_bind Option.bind.simps Let_def cnt off mp_def using k osz pos by simp
  have "mslab_sizeof \<le> ?n - ?cnt * osz" "?n - ?cnt * osz + ?cnt * osz = ?n" using le fit by linarith+
  then have "mempool_config c mp" using k osz pos n lt by (simp add: mempool_config_def mp_def)
  moreover have "owns c others (pool_slabs mp)" using c by (simp add: owns_def mp_def slab_list_create_def)
  moreover have "pool_lists {} m mp" by (simp add: pool_lists_def mp_def slab_list_create_def first_of_def)
  ultimately have inv: "mempool_inv c m others mp" "live_objs c m mp = {}"
    by (simp_all add: mempool_inv_def pool_ok_def live_objs_def mp_def slab_list_create_def)
  show thesis by (rule that [OF run inv]) (simp_all add: mp_def slab_list_create_def)
qed

lemma slab_put_all_with_order_spec:
  assumes "owns c others xs" and "\<And>s. s \<in> set xs \<Longrightarrow> sl_order (hdr c s) \<le> order_max c"
  obtains c' where "slab_put_all_with_order c xs = Some c'" and "cache_inv c' others" and "kept c c' others"
  using assms
proof (induction xs arbitrary: c thesis)
  case Nil
  then show ?case using kept_refl by (simp add: owns_def)
next
  case (Cons s xs)
  obtain c1 where c1: "slab_put_with_order c s = Some c1" "owns c1 others (remove1 s (s # xs))"
    "slabs_of c1 (remove1 s (s # xs)) = slabs_of c (remove1 s (s # xs))" "kept c c1 (others \<union> slabs_of c (remove1 s (s # xs)))"
    using owns_put_order [OF Cons.prems(2), of s] Cons.prems(3) by auto
  have e: "order_max c1 = order_max c" using keptD(1) [OF c1(4)] by (simp add: keeps_def)
  have sz: "sl_order (hdr c1 t) \<le> order_max c1" if "t \<in> set xs" for t
    using keptD(3) [OF c1(4), of t "sl_size (hdr c t)"] Cons.prems(3) [of t] that e by (simp add: slabs_of_def)
  obtain c' where c': "slab_put_all_with_order c1 xs = Some c'" "cache_inv c' others" "kept c1 c' others"
    using Cons.IH [of c1] c1(2) sz by auto
  have "kept c c1 others" by (rule kept_mono [OF c1(4)]) blast
  then show ?case using c1(1) c' Cons.prems(1) [of c'] kept_trans by auto
qed

lemma mempool_destroy_spec:
  assumes "mempool_inv c m others mp"
  obtains c' where "mempool_destroy c mp = Some c'" and "cache_inv c' others" and "kept c c' others"
proof -
  have ok: "pool_ok {} c m others mp" using assms by (simp add: mempool_inv_def)
  note P = pool_okD [OF ok]
  have "sl_order (hdr c s) \<le> order_max c" if "s \<in> set (pool_slabs mp)" for s
    using P(1) P(8) [OF that] by (simp add: mempool_config_def)
  then show thesis using slab_put_all_with_order_spec [OF P(2)] that by (metis mempool_destroy_def)
qed

section \<open>A pool as an allocator of objects\<close>

lemma live_apart:
  assumes ok: "pool_ok E c m others mp" and p: "p \<in> live_objs c m mp" and q: "q \<in> live_objs c m mp" and ne: "p \<noteq> q"
  shows "span p (objsize mp) \<inter> span q (objsize mp) = {}"
proof -
  obtain s where s: "s \<in> set (pool_slabs mp)" "p \<in> slab_live c mp s (m s)" using p by (auto simp: live_objs_def)
  obtain t where t: "t \<in> set (pool_slabs mp)" "q \<in> slab_live c mp t (m t)" using q by (auto simp: live_objs_def)
  show ?thesis
  proof (cases "s = t")
    case True
    then show ?thesis using slab_live_disjoint [OF s(2), of q] t(2) ne by simp
  next
    case False
    then show ?thesis using owns_disjoint(2) [OF pool_okD(2) [OF ok] s(1) t(1)] live_obj_slab(1) [OF ok s] live_obj_slab(1) [OF ok t] by blast
  qed
qed

lemma live_outside:
  assumes ok: "pool_ok E c m others mp" and p: "p \<in> live_objs c m mp"
  shows "span p (objsize mp) \<inter> slab_bytes others = {}" and "span p (objsize mp) \<subseteq> slab_bytes (slabs_of c (pool_slabs mp))"
proof -
  obtain s where s: "s \<in> set (pool_slabs mp)" "p \<in> slab_live c mp s (m s)" using p by (auto simp: live_objs_def)
  show "span p (objsize mp) \<inter> slab_bytes others = {}"
    using owns_disjoint(1) [OF pool_okD(2) [OF ok] s(1)] live_obj_slab(1) [OF ok s] by blast
  show "span p (objsize mp) \<subseteq> slab_bytes (slabs_of c (pool_slabs mp))"
    using live_obj_slab(1) [OF ok s] span_slab_bytes [OF owns_slab(4) [OF pool_okD(2) [OF ok] s(1)]] by blast
qed

lemma live_objs_card:
  assumes ok: "pool_ok E c m others mp"
  shows "card (live_objs c m mp) = (\<Sum>s \<in> set (pool_slabs mp). objcount mp - ms_nfree (m s))"
proof -
  have "card (live_objs c m mp) = (\<Sum>s \<in> set (pool_slabs mp). card (slab_live c mp s (m s)))"
    unfolding live_objs_def
  proof (rule card_UN_disjoint)
    show "\<forall>s \<in> set (pool_slabs mp). finite (slab_live c mp s (m s))" using slab_live_card(3) pool_okD(5,7) [OF ok] by blast
    show "\<forall>s \<in> set (pool_slabs mp). \<forall>t \<in> set (pool_slabs mp). s \<noteq> t \<longrightarrow> slab_live c mp s (m s) \<inter> slab_live c mp t (m t) = {}"
      using obj_not_live_elsewhere [OF ok] live_obj_slab(2) [OF ok] by blast
  qed simp
  then show ?thesis using slab_live_card(1) pool_okD(5,7) [OF ok] by simp
qed

text \<open>The owner of an object may write into it.\<close>

lemma mempool_inv_write:
  assumes inv: "mempool_inv c m others mp" and p: "p \<in> live_objs c m mp" and g: "\<And>x. x \<notin> span p (objsize mp) \<Longrightarrow> g x = mem c x"
  shows "mempool_inv (c\<lparr>mem := g\<rparr>) m others mp" and "live_objs (c\<lparr>mem := g\<rparr>) m mp = live_objs c m mp"
proof -
  let ?c = "c\<lparr>mem := g\<rparr>"
  have ok: "pool_ok {} c m others mp" using inv by (simp add: mempool_inv_def)
  note P = pool_okD [OF ok]
  have fr: "mslab_inv ?c mp t (m t) \<and> slab_live ?c mp t (m t) = slab_live c mp t (m t)" if t: "t \<in> set (pool_slabs mp)" for t
  proof -
    have inv: "mslab_inv c mp t (m t)" by (rule P(5) [OF t])
    have F: "set (slab_free_objs c (m t)) \<subseteq> obj_at mp t ` {..< touched mp (m t)}" "touched mp (m t) \<le> objcount mp"
      "obj_chain c (ms_free_list (m t)) (slab_free_objs c (m t))" "ms_nfree (m t) = length (slab_free_objs c (m t)) + (objcount mp - touched mp (m t))"
      using inv by (simp_all add: mslab_inv_def)
    have "obj_chain ?c (ms_free_list (m t)) (slab_free_objs c (m t)) = obj_chain c (ms_free_list (m t)) (slab_free_objs c (m t))"
    proof (rule obj_chain_cong)
      fix a x assume a: "a \<in> set (slab_free_objs c (m t))" and x: "x \<in> span a 8"
      obtain i where i: "a = obj_at mp t i" "i < objcount mp" using F(1,2) a by auto
      have xa: "x \<in> span a (objsize mp)" using obj_at_bounds(3) [OF P(1) i(2), of t] x unfolding i(1) by blast
      have "x \<notin> span p (objsize mp)"
      proof -
        obtain s where s: "s \<in> set (pool_slabs mp)" "p \<in> slab_live c mp s (m s)" using p by (auto simp: live_objs_def)
        have at: "span a (objsize mp) \<subseteq> span t (sl_size (hdr c t))" unfolding P(4) [OF t] i(1) by (rule obj_at_bounds(1) [OF P(1) i(2)])
        show ?thesis
        proof (cases "s = t")
          case True
          obtain j where "p = obj_at mp t j" "a \<noteq> p" using s(2) a True by (auto simp: slab_live_def)
          then show ?thesis using obj_at_disjoint [of i j mp t] i(1) xa by fastforce
        next
          case False
          then show ?thesis using owns_disjoint(2) [OF P(2) s(1) t] live_obj_slab(1) [OF ok s] at xa by blast
        qed
      qed
      then show "mem ?c x = mem c x" using g by simp
    qed
    then have f: "slab_free_objs ?c (m t) = slab_free_objs c (m t)" unfolding slab_free_objs_def [of ?c] using F(3,4)
      by (intro obj_chain_free_objs) simp_all
    show ?thesis using inv \<open>obj_chain ?c _ _ = _\<close> unfolding mslab_inv_def slab_live_def f by simp
  qed
  then show live: "live_objs ?c m mp = live_objs c m mp" by (simp add: live_objs_def)
  show "mempool_inv ?c m others mp" using inv fr unfolding mempool_inv_def live pool_ok_def by (simp add: mempool_config_def)
qed

type_synonym pool_state = "slab_cache \<times> mslabs \<times> mempool"

definition pool_heap_inv :: "os \<Rightarrow> (addr \<times> nat) set \<Rightarrow> pool_state \<Rightarrow> (addr \<times> nat) set \<Rightarrow> bool" where
  "pool_heap_inv os others = (\<lambda>(c, m, mp) X. os_ok os \<and> mempool_inv c m others mp \<and> fst ` X = live_objs c m mp \<and> inj_on fst X \<and>
     (\<forall>(p, n) \<in> X. n \<le> objsize mp))"

definition pool_alloc :: "os \<Rightarrow> pool_state \<Rightarrow> nat \<Rightarrow> (addr \<times> pool_state) option" where
  "pool_alloc os = (\<lambda>(c, m, mp) n. mempool_alloc os c m mp)"

definition pool_free :: "pool_state \<Rightarrow> addr \<Rightarrow> nat \<Rightarrow> pool_state option" where
  "pool_free = (\<lambda>(c, m, mp) p n. mempool_free c m mp p)"

lemma pool_heap_alloc:
  assumes i: "pool_heap_inv os others (c, m, mp) X" and r: "n \<le> objsize mp"
  obtains p c' m' mp' where "mempool_alloc os c m mp = Some (p, c', m', mp')" and "objsize mp' = objsize mp"
    and "\<And>q k x. (q, k) \<in> X \<Longrightarrow> x \<in> span q k \<Longrightarrow> mem c' x = mem c x"
    and "if p = NULL then pool_heap_inv os others (c', m', mp') X else p \<notin> fst ` X \<and> pool_heap_inv os others (c', m', mp') (insert (p, n) X)"
proof -
  have I: "os_ok os" "mempool_inv c m others mp" "fst ` X = live_objs c m mp" "inj_on fst X" "\<And>p k. (p, k) \<in> X \<Longrightarrow> k \<le> objsize mp"
    using i by (auto simp: pool_heap_inv_def)
  have ok: "pool_ok {} c m others mp" using I(2) by (simp add: mempool_inv_def)
  obtain p c' m' mp' where a: "mempool_alloc os c m mp = Some (p, c', m', mp')" "mempool_inv c' m' others mp'"
    "kept c c' (others \<union> slabs_of c (pool_slabs mp))" "same_shape mp mp'"
    "p = NULL \<Longrightarrow> live_objs c' m' mp' = live_objs c m mp \<and> (\<forall>s \<in> set (pool_slabs mp). ms_nfree (m s) = 0) \<and> mp' = mp"
    "p \<noteq> NULL \<Longrightarrow> p \<notin> live_objs c m mp \<and> live_objs c' m' mp' = insert p (live_objs c m mp)"
    by (rule mempool_alloc_spec [OF I(1,2)]) (rule that)
  have sz: "objsize mp' = objsize mp" by (rule same_shape(8) [OF a(4)])
  have k: "mem c' x = mem c x" if "(q, k) \<in> X" "x \<in> span q k" for q k x
  proof -
    have "q \<in> live_objs c m mp" using that(1) I(3) by force
    then have "span q (objsize mp) \<subseteq> slab_bytes (others \<union> slabs_of c (pool_slabs mp))"
      using live_outside(2) [OF ok] slab_bytes_mono [of "slabs_of c (pool_slabs mp)" "others \<union> slabs_of c (pool_slabs mp)"] by blast
    moreover have "x \<in> span q (objsize mp)" using that(2) I(5) [OF that(1)] by auto
    ultimately show ?thesis using a(3) by (auto simp: kept_def keeps_def)
  qed
  have "if p = NULL then pool_heap_inv os others (c', m', mp') X else p \<notin> fst ` X \<and> pool_heap_inv os others (c', m', mp') (insert (p, n) X)"
  proof (cases "p = NULL")
    case True
    then show ?thesis using I a(2,5) sz by (auto simp: pool_heap_inv_def)
  next
    case False
    then have p: "p \<notin> fst ` X" "live_objs c' m' mp' = insert p (fst ` X)" using a(6) I(3) by simp_all
    then have "inj_on fst (insert (p, n) X)" using I(4) by (auto simp: inj_on_insert)
    then have "pool_heap_inv os others (c', m', mp') (insert (p, n) X)" using I(1,5) a(2) p(2) r sz by (auto simp: pool_heap_inv_def)
    then show ?thesis using False p(1) by simp
  qed
  then show thesis using a(1) sz k by (intro that [of p c' m' mp'])
qed

lemma pool_heap_free:
  assumes i: "pool_heap_inv os others (c, m, mp) X" and x: "(p, n) \<in> X"
  obtains c' m' mp' where "mempool_free c m mp p = Some (c', m', mp')" and "objsize mp' = objsize mp"
    and "pool_heap_inv os others (c', m', mp') (X - {(p, n)})" and "\<And>q k x. (q, k) \<in> X - {(p, n)} \<Longrightarrow> x \<in> span q k \<Longrightarrow> mem c' x = mem c x"
proof -
  have I: "os_ok os" "mempool_inv c m others mp" "fst ` X = live_objs c m mp" "inj_on fst X" "\<And>p k. (p, k) \<in> X \<Longrightarrow> k \<le> objsize mp"
    using i by (auto simp: pool_heap_inv_def)
  have p: "p \<in> live_objs c m mp" using x I(3) by force
  obtain c' m' mp' where f: "mempool_free c m mp p = Some (c', m', mp')" "mempool_inv c' m' others mp'" "live_objs c' m' mp' = live_objs c m mp - {p}"
    "same_shape mp mp'" "\<And>q x. q \<in> live_objs c m mp \<Longrightarrow> q \<noteq> p \<Longrightarrow> x \<in> span q (objsize mp) \<Longrightarrow> mem c' x = mem c x"
    by (rule mempool_free_spec [OF I(2) p]) (rule that)
  have sz: "objsize mp' = objsize mp" by (rule same_shape(8) [OF f(4)])
  have one: "q \<noteq> p" if "(q, k) \<in> X - {(p, n)}" for q k
    using inj_onD [OF I(4), of "(q, k)" "(p, n)"] that x by auto
  have "fst ` (X - {(p, n)}) = live_objs c' m' mp'" using f(3) I(3) one x by (auto simp: image_iff) force+
  moreover have "inj_on fst (X - {(p, n)})" using I(4) by (rule inj_on_diff)
  ultimately have inv: "pool_heap_inv os others (c', m', mp') (X - {(p, n)})" using I(1,5) f(2) sz by (auto simp: pool_heap_inv_def)
  have "mem c' x = mem c x" if "(q, k) \<in> X - {(p, n)}" "x \<in> span q k" for q k x
  proof (rule f(5))
    show "q \<in> live_objs c m mp" using that(1) I(3) by force
    show "q \<noteq> p" by (rule one [OF that(1)])
    show "x \<in> span q (objsize mp)" using that I(5) [of q k] by auto
  qed
  then show thesis using f(1) sz inv by (intro that)
qed

interpretation pool_heap: object_heap "pool_heap_inv os others" "\<lambda>(c, m, mp) n. n \<le> objsize mp" "\<lambda>n. n" "pool_alloc os" pool_free
  "\<lambda>(c, m, mp). mem c" "\<lambda>(c, m, mp) p bs. (write_bytes c p bs, m, mp)" for os others
proof (unfold_locales, goal_cases)
  case (1 s X n)
  obtain c m mp where s: "s = (c, m, mp)" by (cases s) auto
  obtain p c' m' mp' where a: "mempool_alloc os c m mp = Some (p, c', m', mp')" "objsize mp' = objsize mp"
    "\<And>q k x. (q, k) \<in> X \<Longrightarrow> x \<in> span q k \<Longrightarrow> mem c' x = mem c x"
    "if p = NULL then pool_heap_inv os others (c', m', mp') X else p \<notin> fst ` X \<and> pool_heap_inv os others (c', m', mp') (insert (p, n) X)"
    by (rule pool_heap_alloc [of os others c m mp X n]) (use 1 s that in simp_all)
  have "\<forall>(q, k) \<in> X. \<forall>x \<in> span q k. mem c' x = mem c x" using a(3) by blast
  then show ?case unfolding s using a(1,2,4) by (intro exI [of _ p] exI [of _ "(c', m', mp')"]) (simp add: pool_alloc_def)
next
  case (2 s X p n)
  obtain c m mp where s: "s = (c, m, mp)" by (cases s) auto
  obtain c' m' mp' where f: "mempool_free c m mp p = Some (c', m', mp')" "objsize mp' = objsize mp"
    "pool_heap_inv os others (c', m', mp') (X - {(p, n)})" "\<And>q k x. (q, k) \<in> X - {(p, n)} \<Longrightarrow> x \<in> span q k \<Longrightarrow> mem c' x = mem c x"
    using pool_heap_free [of os others c m mp X p n] 2 unfolding s by blast
  have "\<forall>(q, k) \<in> X - {(p, n)}. \<forall>x \<in> span q k. mem c' x = mem c x" using f(4) by blast
  then show ?case unfolding s using f(1-3) by (intro exI [of _ "(c', m', mp')"]) (simp add: pool_free_def)
next
  case (3 s X p r q k)
  obtain c m mp where s: "s = (c, m, mp)" by (cases s) auto
  have I: "pool_ok {} c m others mp" "p \<in> live_objs c m mp" "q \<in> live_objs c m mp" "r \<le> objsize mp" "k \<le> objsize mp"
    using 3 unfolding s by (force simp: pool_heap_inv_def mempool_inv_def)+
  have "span p r \<subseteq> span p (objsize mp)" "span q k \<subseteq> span q (objsize mp)" using I(4,5) by auto
  then show ?case using live_apart [OF I(1-3) 3(4)] by blast
next
  case (4 s X p r k)
  have "inj_on fst X" using 4(1) by (cases s) (simp add: pool_heap_inv_def)
  from inj_onD [OF this, of "(p, r)" "(p, k)"] show ?case using 4(2,3) by simp
next
  case (5 s X p r bs)
  obtain c m mp where s: "s = (c, m, mp)" by (cases s) auto
  have I: "mempool_inv c m others mp" "p \<in> live_objs c m mp" "r \<le> objsize mp" using 5 unfolding s by (force simp: pool_heap_inv_def)+
  define g where "g = mem (write_bytes c p bs)"
  have w: "write_bytes c p bs = c\<lparr>mem := g\<rparr>" by (simp add: g_def write_bytes_def)
  have "g x = mem c x" if "x \<notin> span p (objsize mp)" for x using that 5(3) I(3) by (auto simp: g_def write_bytes_def)
  from mempool_inv_write [OF I(1,2) this] show ?case using 5(1) by (simp add: s w pool_heap_inv_def)
next
  case (6 s p bs x)
  then show ?case by (cases s) (auto simp: write_bytes_def)
qed

section \<open>An example\<close>

lemma example_slab_get:
  assumes c: "slab_cache_create example_arena z (\<lambda>_. undefined) (\<lambda>_. 0) example_sys = Some c"
    "cache_inv c {}" "sc_arena c = example_arena" "sc_sys c = example_sys"
  obtains c' where "order_max c + order0_size_lb c = 16" and "slab_get_with_order bump_os c (order_max c) = Some (65536, c')"
proof -
  have o: "orders c = replicate (ORDER_MAX + 1) slab_list_create" "order_max c \<le> ORDER_MAX"
    using c(1) by (auto simp: slab_cache_create_def Let_def c_assert_def split: if_splits)
  have e: "sl_slabs (orders c ! order_max c) = []" using o by (simp add: slab_list_create_def del: replicate_Suc)
  have len: "order_max c < length (orders c)" using o by simp
  obtain ar s where m: "slab_map bump_os example_arena example_sys = Some (65536, ar, s)" by (rule example_slab_map)
  have f: "\<exists>c1. slab_find bump_os c (order_max c) = Some (Some (order_max c), c1) \<and> hd (sl_slabs (orders c1 ! order_max c)) = 65536"
    using m c(3,4) e len by (subst slab_find.simps) (simp add: upd_order_def slab_list_add_def slab_create_def upd_hdr_def slab_poison_def Let_def)
  obtain R L U where ci: "cinv c R L U {}" using c(2) by (auto simp: cache_inv_def)
  have "ar_slab_size (sc_arena c) = bsz (order0_size_lb c) (order_max c)"
    using cache_inv_arena_size(2) [OF ci] by (simp add: cache_config_def)
  then have "(2::nat) ^ (order_max c + order0_size_lb c) = 2 ^ 16" using c(3) by (simp add: bsz_def example_arena_def add.commute)
  then have lb: "order_max c + order0_size_lb c = 16" by (simp only: power_inject_exp one_less_numeral_iff semiring_norm)
  obtain x c' where g: "slab_get_with_order bump_os c (order_max c) = Some (x, c')"
    using slab_get_with_order_client [OF bump_os_ok c(2) order_refl] by metis
  have "x = 65536" using f g by (auto simp: slab_get_with_order_def Let_def c_assert_def split: Option.bind_splits if_splits)
  then show thesis using that g lb by blast
qed

lemma example_ordered_slab:
  obtains c c' where "cache_inv c {}" and "sc_arena c = example_arena" and "order_max c + order0_size_lb c = 16"
    and "slab_get_with_order bump_os c (order_max c) = Some (65536, c')"
proof -
  obtain c where c: "slab_cache_create example_arena 4096 (\<lambda>_. undefined) (\<lambda>_. 0) example_sys = Some c"
    "cache_inv c {}" "sc_arena c = example_arena" "sc_sys c = example_sys" by (rule example_cache)
  then show thesis using that example_slab_get by metis
qed

lemma example_pool:
  obtains c mp p c' m' mp' where "mempool_create_with_order 1 c 64 (order_max c) = Some mp" and "mempool_inv c m {} mp" and "live_objs c m mp = {}"
    and "objsize mp = 64" and "cache_inv c {}" and "mempool_alloc bump_os c m mp = Some (p, c', m', mp')" and "mempool_inv c' m' {} mp'"
    and "p \<noteq> NULL" and "live_objs c' m' mp' = {p}" and "objsize mp' = 64"
proof -
  obtain c c1 where c: "cache_inv c {}" "order_max c + order0_size_lb c = 16" "slab_get_with_order bump_os c (order_max c) = Some (65536, c1)"
    by (rule example_ordered_slab)
  have ms: "mslab_sizeof = 112" by (simp add: mslab_sizeof_def align_up_def)
  obtain mp where mp: "mempool_create_with_order 1 c 64 (order_max c) = Some mp" "mempool_inv c m {} mp" "live_objs c m mp = {}"
    "objsize mp = 64" "mp_order mp = order_max c" "pool_slabs mp = []"
    by (rule mempool_create_with_order_spec [OF c(1) order_refl, of 64 1 m]) (use c(2) ms that in simp_all)
  have L: "pool_lists {} m mp" using mp(2) by (simp add: mempool_inv_def pool_ok_def)
  have z: "first_hot_slab mp = NULL" "mp_spare mp = NULL"
    using pool_listsD(4,6,8) [OF L] mp(6) by (auto simp: first_of_def)
  obtain p c' m' mp' where a: "mempool_alloc bump_os c m mp = Some (p, c', m', mp')" "mempool_inv c' m' {} mp'"
    "kept c c' ({} \<union> slabs_of c (pool_slabs mp))" "same_shape mp mp'" "\<forall>(t, n) \<in> {} :: (addr \<times> nat) set. m' t = m t"
    "p = NULL \<Longrightarrow> live_objs c' m' mp' = live_objs c m mp \<and> (\<forall>s \<in> set (pool_slabs mp). ms_nfree (m s) = 0) \<and> mp' = mp"
    "p \<noteq> NULL \<Longrightarrow> p \<notin> live_objs c m mp \<and> live_objs c' m' mp' = insert p (live_objs c m mp)"
    by (rule mempool_alloc_spec [OF bump_os_ok mp(2)]) (rule that)
  have "p \<noteq> NULL"
    using a(1) z c(3) mp(5) by (auto simp: mempool_alloc_def mempool_ready_def mempool_refill_def Let_def split: Option.bind_splits if_splits)
  then show thesis using mp(1-4) c(1) a(1,2,7) same_shape(8) [OF a(4)] by (intro that [of c mp p c' m' mp']) simp_all
qed

section \<open>Properties\<close>

text \<open>C9: \<open>mempool_alloc\<close> never fails an assertion and keeps the pool's invariant and every byte in use. It returns
  NULL only when every slab of the pool is full; otherwise it returns an object that was not in
  use, and it overlaps no other object of the pool and no slab of another owner.\<close>

theorem mempool_alloc_correct:
  assumes "os_ok os" and "mempool_inv c m others mp"
  shows "\<exists>p c' m' mp'. mempool_alloc os c m mp = Some (p, c', m', mp') \<and> mempool_inv c' m' others mp' \<and>
    (\<forall>x \<in> slab_bytes (others \<union> slabs_of c (pool_slabs mp)). mem c' x = mem c x) \<and>
    (if p = NULL then live_objs c' m' mp' = live_objs c m mp \<and> card (live_objs c m mp) = objcount mp * length (pool_slabs mp)
     else p \<notin> live_objs c m mp \<and> live_objs c' m' mp' = insert p (live_objs c m mp) \<and>
       span p (objsize mp) \<inter> slab_bytes others = {} \<and> (\<forall>q \<in> live_objs c m mp. span p (objsize mp) \<inter> span q (objsize mp) = {}))"
proof -
  obtain p c' m' mp' where a: "mempool_alloc os c m mp = Some (p, c', m', mp')" "mempool_inv c' m' others mp'"
    "kept c c' (others \<union> slabs_of c (pool_slabs mp))" "same_shape mp mp'" "\<forall>(t, n) \<in> others. m' t = m t"
    "p = NULL \<Longrightarrow> live_objs c' m' mp' = live_objs c m mp \<and> (\<forall>s \<in> set (pool_slabs mp). ms_nfree (m s) = 0) \<and> mp' = mp"
    "p \<noteq> NULL \<Longrightarrow> p \<notin> live_objs c m mp \<and> live_objs c' m' mp' = insert p (live_objs c m mp)"
    by (rule mempool_alloc_spec [OF assms]) (rule that)
  have ok: "pool_ok {} c m others mp" and ok': "pool_ok {} c' m' others mp'" using assms(2) a(2) by (simp_all add: mempool_inv_def)
  have full: "card (live_objs c m mp) = objcount mp * length (pool_slabs mp)" if "\<forall>s \<in> set (pool_slabs mp). ms_nfree (m s) = 0"
    using live_objs_card [OF ok] that pool_okD(2) [OF ok] by (simp add: owns_def distinct_card)
  have "span p (objsize mp) \<inter> slab_bytes others = {} \<and> (\<forall>q \<in> live_objs c m mp. span p (objsize mp) \<inter> span q (objsize mp) = {})"
    if "p \<noteq> NULL"
    using live_outside(1) [OF ok', of p] live_apart [OF ok', of p] a(7) [OF that] same_shape(8) [OF a(4)] by auto
  then show ?thesis using a full by (cases "p = NULL") (auto simp: kept_def keeps_def simp del: in_span)
qed

theorem mempool_alloc_correct_witness:
  "\<exists>c m mp p c' m' mp'. mempool_inv c m {} mp \<and> mempool_alloc bump_os c m mp = Some (p, c', m', mp') \<and> mempool_inv c' m' {} mp'"
proof -
  obtain c mp where "mempool_inv c (\<lambda>_. undefined) {} mp" by (rule example_pool)
  from mempool_alloc_correct [OF bump_os_ok this] this show ?thesis by blast
qed

text \<open>C10: freeing an object of the pool never fails an assertion and keeps the invariant. The object is no longer
  in use, every other object still is and keeps its bytes, and so do the slabs of other owners.\<close>

theorem mempool_free_correct:
  assumes "mempool_inv c m others mp" and "p \<in> live_objs c m mp"
  shows "\<exists>c' m' mp'. mempool_free c m mp p = Some (c', m', mp') \<and> mempool_inv c' m' others mp' \<and>
    live_objs c' m' mp' = live_objs c m mp - {p} \<and> (\<forall>x \<in> slab_bytes others. mem c' x = mem c x) \<and>
    (\<forall>q \<in> live_objs c m mp - {p}. \<forall>x \<in> span q (objsize mp). mem c' x = mem c x)"
proof -
  obtain c' m' mp' where f: "mempool_free c m mp p = Some (c', m', mp')" "mempool_inv c' m' others mp'"
    "live_objs c' m' mp' = live_objs c m mp - {p}" "same_shape mp mp'" "kept c c' others"
    "\<And>q x. q \<in> live_objs c m mp \<Longrightarrow> q \<noteq> p \<Longrightarrow> x \<in> span q (objsize mp) \<Longrightarrow> mem c' x = mem c x" "\<forall>(t, n) \<in> others. m' t = m t"
    by (rule mempool_free_spec [OF assms]) (rule that)
  then show ?thesis by (intro exI [of _ c'] exI [of _ m'] exI [of _ mp']) (auto simp: kept_def keeps_def simp del: in_span)
qed

theorem mempool_free_correct_witness:
  "\<exists>c m mp p c' m' mp'. live_objs c m mp = {p} \<and> mempool_free c m mp p = Some (c', m', mp') \<and> live_objs c' m' mp' = {}"
proof -
  obtain c m mp p where e: "mempool_inv c m {} mp" "live_objs c m mp = {p}" by (rule example_pool [of "\<lambda>_. undefined"])
  then have "p \<in> live_objs c m mp" by simp
  from mempool_free_correct [OF e(1) this] have "\<exists>c' m' mp'. mempool_free c m mp p = Some (c', m', mp') \<and> live_objs c' m' mp' = {}"
    unfolding e(2) by auto
  with e(2) show ?thesis by blast
qed

text \<open>A pool created over a slab cache is empty and well-formed for any object size from eight bytes up to the
  slab size less the header, and it fits as many objects into a slab as there is room for.\<close>

theorem mempool_create_correct:
  assumes "cache_inv c others" and "order \<le> order_max c" and "8 \<le> osz" and "osz + mslab_sizeof \<le> 2 ^ (order + order0_size_lb c)"
  shows "\<exists>mp. mempool_create_with_order self c osz order = Some mp \<and> mempool_inv c m others mp \<and> live_objs c m mp = {} \<and>
    objsize mp = osz \<and> objcount mp = (2 ^ (order + order0_size_lb c) - mslab_sizeof) div osz"
  by (rule mempool_create_with_order_spec [OF assms]) blast

theorem mempool_create_correct_witness:
  "\<exists>c mp. mempool_create_with_order 1 c 64 0 = Some mp \<and> mempool_inv c (\<lambda>_. undefined) {} mp"
proof -
  obtain c where c: "cache_inv c {}" "8 \<le> order0_size_lb c" by (rule example_cache)
  have "(2::nat) ^ 8 \<le> 2 ^ (0 + order0_size_lb c)" using c(2) by (intro power_increasing) simp_all
  then have "64 + mslab_sizeof \<le> 2 ^ (0 + order0_size_lb c)" by (simp add: mslab_sizeof_def align_up_def)
  from mempool_create_correct [OF c(1) le0 _ this, of 1 "\<lambda>_. undefined"] show ?thesis by auto
qed

text \<open>Destroying a pool returns every slab of it to the cache, whatever objects are left in it, and touches no
  slab of another owner.\<close>

theorem mempool_destroy_correct:
  assumes "mempool_inv c m others mp"
  shows "\<exists>c'. mempool_destroy c mp = Some c' \<and> cache_inv c' others \<and> (\<forall>x \<in> slab_bytes others. mem c' x = mem c x)"
  by (rule mempool_destroy_spec [OF assms]) (auto simp: kept_def keeps_def)

theorem mempool_destroy_correct_witness:
  "\<exists>c m mp p c'. live_objs c m mp = {p} \<and> mempool_destroy c mp = Some c' \<and> cache_inv c' {}"
proof -
  obtain c m mp p where e: "mempool_inv c m {} mp" "live_objs c m mp = {p}" by (rule example_pool [of "\<lambda>_. undefined"])
  from mempool_destroy_correct [OF e(1)] e(2) show ?thesis by blast
qed

text \<open>The counters of a pool are exact: the number of objects is the number of objects in use, the bytes used are
  their sizes, and the bytes held are the sizes of the pool's slabs.\<close>

theorem mempool_counts_exact:
  assumes "mempool_inv c m others mp"
  shows "mempool_count mp = int (card (live_objs c m mp)) \<and> mempool_used mp = int (objsize mp * card (live_objs c m mp)) \<and>
    mempool_total mp = (\<Sum>s \<leftarrow> pool_slabs mp. int (sl_size (hdr c s)))"
proof -
  have ok: "pool_ok {} c m others mp" and u: "st_used (mp_slabs mp) = int (objsize mp) * int (card (live_objs c m mp))"
    using assms by (simp_all add: mempool_inv_def)
  have "(\<Sum>s \<leftarrow> pool_slabs mp. int (sl_size (hdr c s))) = (\<Sum>s \<leftarrow> pool_slabs mp. int (pool_slab_size c mp))"
    using pool_okD(4) [OF ok] by (intro arg_cong [of _ _ sum_list] map_cong) simp_all
  also have "\<dots> = st_total (mp_slabs mp)" using pool_okD(6) [OF ok] by (simp add: sum_list_triv mult.commute)
  finally show ?thesis using u pool_okD(7) [OF ok] by (simp add: mempool_count_def mempool_used_def mempool_total_def)
qed

theorem mempool_counts_exact_witness:
  "\<exists>(c :: slab_cache) mp. mempool_count mp = 1 \<and> mempool_used mp = 64 \<and> mempool_total mp = (\<Sum>s \<leftarrow> pool_slabs mp. int (sl_size (hdr c s)))"
proof -
  obtain c m mp p where e: "mempool_inv c m {} mp" "live_objs c m mp = {p}" "objsize mp = 64" by (rule example_pool [of "\<lambda>_. undefined"])
  from mempool_counts_exact [OF e(1)] e(2,3)
  have "mempool_count mp = 1 \<and> mempool_used mp = 64 \<and> mempool_total mp = (\<Sum>s \<leftarrow> pool_slabs mp. int (sl_size (hdr c s)))" by simp
  then show ?thesis by blast
qed

text \<open>C11: a program that allocates objects of a pool, writes into them, overwrites and frees them in any order never
  meets a failed assertion, and finds in each object it still owns exactly the bytes it last
  wrote there; the pool implements the abstract heap of objects.\<close>

theorem mempool_heap:
  assumes "os_ok os" and "mempool_inv c m others mp" and "live_objs c m mp = {}" and "\<forall>n bs. Allocate n bs \<in> set ops \<longrightarrow> n \<le> objsize mp"
  shows "\<exists>c' m' mp' objs. object_heap.run (\<lambda>n. n) (pool_alloc os) pool_free (\<lambda>(c, m, mp) p bs. (write_bytes c p bs, m, mp)) (c, m, mp) [] ops =
      Some ((c', m', mp'), objs) \<and> mempool_inv c' m' others mp' \<and> live_objs c' m' mp' = fst ` set objs \<and> distinct (map fst objs) \<and>
    (\<forall>(p, n, bs) \<in> set objs. read_bytes c' p (length bs) = bs)"
proof -
  have f: "pool_heap.faithful os others (c, m, mp) []"
    unfolding pool_heap.faithful_def pool_heap.owned_def using assms(1-3) by (simp add: pool_heap_inv_def)
  have "\<exists>st objs. pool_heap.run os (c, m, mp) [] ops = Some (st, objs) \<and> pool_heap.faithful os others st objs"
    by (rule pool_heap.run_faithful [OF f]) (use assms(4) in auto)
  then obtain st objs where r: "pool_heap.run os (c, m, mp) [] ops = Some (st, objs)" "pool_heap.faithful os others st objs" by blast
  obtain c' m' mp' where st: "st = (c', m', mp')" by (cases st) auto
  have "mempool_inv c' m' others mp'" "live_objs c' m' mp' = fst ` set objs" "distinct (map fst objs)"
    "\<forall>(p, n, bs) \<in> set objs. read_bytes c' p (length bs) = bs"
    using r(2) pool_heap.fst_owned [of objs] unfolding st pool_heap.faithful_def by (auto simp: pool_heap_inv_def read_bytes_def)
  then show ?thesis using r(1) unfolding st by blast
qed

theorem mempool_heap_witness:
  "\<exists>c m mp st objs. mempool_inv c m {} mp \<and> object_heap.run (\<lambda>n. n) (pool_alloc bump_os) pool_free (\<lambda>(c, m, mp) p bs. (write_bytes c p bs, m, mp))
     (c, m, mp) [] [Allocate 3 [1, 2, 3], Allocate 64 [4], Release 0] = Some (st, objs)"
proof -
  obtain c mp where e: "mempool_inv c (\<lambda>_. undefined) {} mp" "live_objs c (\<lambda>_. undefined) mp = {}" "objsize mp = 64" by (rule example_pool)
  have "\<forall>n bs. Allocate n bs \<in> set [Allocate 3 [1, 2, 3], Allocate 64 [4], Release 0] \<longrightarrow> n \<le> objsize mp" using e(3) by auto
  from mempool_heap [OF bump_os_ok e(1,2) this] e(1) show ?thesis by blast
qed

end
