(* ===== verification/Small_Class.thy ===== *)
theory Small_Class
  imports Complex_Main Prelude
begin

text \<open>
  \<open>small/small_class.c\<close> and \<open>include/small/small_class.h\<close>: the size classes of the small allocator.
  Numbers are the C type \<open>unsigned\<close>, natural numbers with the wrap-around written out. The
  number of effective bits comes out of floating point logarithms; it is a parameter, the
  function \<open>bits_of\<close> of the growth factor, as is the factor \<open>factor_of\<close> that is reported back.
\<close>

section \<open>The code\<close>

record small_class =
  granularity :: nat
  ignore_bits_count :: nat
  effective_bits :: nat
  effective_size :: nat
  effective_mask :: nat
  size_shift :: nat
  size_shift_plus_1 :: nat
  actual_factor :: real

definition small_class_create :: "(real \<Rightarrow> nat) \<Rightarrow> (nat \<Rightarrow> real) \<Rightarrow> nat \<Rightarrow> real \<Rightarrow> nat \<Rightarrow> small_class option" where
  "small_class_create bits_of factor_of gran desired_factor min_alloc = do {
     c_assert (gran > 0);
     c_assert (gran AND (gran - 1) = 0);
     c_assert (desired_factor > 1);
     c_assert (desired_factor \<le> 2);
     c_assert (min_alloc > 0);
     let bits = bits_of desired_factor;
     let shift = nat ((int min_alloc - int gran) mod 2 ^ 32);
     Some \<lparr>granularity = gran, ignore_bits_count = ilog2 gran, effective_bits = bits, effective_size = push_bit bits 1 mod 2 ^ 32,
       effective_mask = nat ((int (push_bit bits 1 mod 2 ^ 32) - 1) mod 2 ^ 32), size_shift = shift,
       size_shift_plus_1 = (shift + 1) mod 2 ^ 32, actual_factor = factor_of bits\<rparr> }"

definition small_class_fls :: "nat \<Rightarrow> nat" where
  "small_class_fls v = ilog2 v"

definition small_class_calc_offset_by_size :: "small_class \<Rightarrow> nat \<Rightarrow> nat" where
  "small_class_calc_offset_by_size sc sz =
     (let checked_size = nat ((int sz - int (size_shift_plus_1 sc)) mod 2 ^ 32);
          sz = (if checked_size > sz then 0 else checked_size);
          sz = drop_bit (ignore_bits_count sc) sz
      in if sz < effective_size sc then sz
         else let log2 = small_class_fls (drop_bit (effective_bits sc) sz);
                  linear_part = drop_bit log2 sz;
                  log2_part = push_bit (effective_bits sc) log2 mod 2 ^ 32
              in (linear_part + log2_part) mod 2 ^ 32)"

definition small_class_calc_size_by_offset :: "small_class \<Rightarrow> nat \<Rightarrow> nat" where
  "small_class_calc_size_by_offset sc cls =
     (let cls = (cls + 1) mod 2 ^ 32;
          linear_part = cls AND effective_mask sc;
          log2 = drop_bit (effective_bits sc) cls;
          (linear_part, log2) = (if log2 \<noteq> 0 then (linear_part OR effective_size sc, log2 - 1) else (linear_part, log2))
      in (size_shift sc + push_bit (ignore_bits_count sc) (push_bit log2 linear_part mod 2 ^ 32) mod 2 ^ 32) mod 2 ^ 32)"

section \<open>The sizes as a sequence\<close>

text \<open>
  The size of class number \<open>n - 1\<close> in units of the granularity: linear up to \<open>2 ^ b\<close>, then \<open>2 ^ b\<close>
  steps per doubling.
\<close>

definition class_units :: "nat \<Rightarrow> nat \<Rightarrow> nat" where
  "class_units b n = (if n < 2 ^ b then n else (2 ^ b + n mod 2 ^ b) * 2 ^ (n div 2 ^ b - 1))"

lemma class_units_Suc: "class_units b n < class_units b (Suc n)"
proof (cases "Suc n < 2 ^ b")
  case True
  then show ?thesis by (simp add: class_units_def)
next
  case False
  let ?E = "2 ^ b :: nat"
  show ?thesis
  proof (cases "Suc n = ?E")
    case True
    then have "n < ?E" by simp
    then show ?thesis using True by (simp add: class_units_def)
  next
    case neq: False
    then have n: "?E \<le> n" using False by simp
    then have d: "1 \<le> n div ?E" using div_le_mono [OF n, of ?E] by simp
    show ?thesis
    proof (cases "Suc n mod ?E = 0")
      case True
      have m: "n mod ?E = ?E - 1" using True by (simp add: mod_Suc split: if_splits)
      have q: "Suc n div ?E = Suc (n div ?E)" using True m by (simp add: div_Suc)
      have "(2 * ?E - 1) * 2 ^ (n div ?E - 1) < 2 * ?E * 2 ^ (n div ?E - 1)" by simp
      also have "\<dots> = ?E * 2 ^ (n div ?E)" using d power_Suc [of "2 :: nat" "n div ?E - 1"] by simp
      finally show ?thesis using n False True m q by (simp add: class_units_def mult_2)
    next
      case nz: False
      have m: "Suc n mod ?E = Suc (n mod ?E)" using nz by (simp add: mod_Suc split: if_splits)
      have q: "Suc n div ?E = n div ?E" using nz by (simp add: div_Suc)
      show ?thesis using n False m q by (simp add: class_units_def)
    qed
  qed
qed

lemma class_units_mono: "strict_mono (class_units b)"
  by (rule strict_mono_Suc_iff [THEN iffD2]) (simp add: class_units_Suc)

lemma class_units_linear: "u < 2 ^ b \<Longrightarrow> class_units b (Suc u) = Suc u"
  by (cases "Suc u = 2 ^ b") (auto simp: class_units_def)

lemma class_units_exp:
  assumes "2 ^ b \<le> x" and "x < 2 * 2 ^ b"
  shows "class_units b (x + l * 2 ^ b) = x * 2 ^ l"
proof -
  obtain y where x: "x = 2 ^ b + y" and y: "y < 2 ^ b" using assms by (intro that [of "x - 2 ^ b"]) simp_all
  have e: "x + l * 2 ^ b = y + (l + 1) * 2 ^ b" by (simp add: x)
  have "(x + l * 2 ^ b) mod 2 ^ b = y" unfolding e using y by (simp only: mod_mult_self1 mod_less)
  moreover have "(x + l * 2 ^ b) div 2 ^ b = l + 1" unfolding e using y by (subst div_mult_self1) simp_all
  ultimately show ?thesis by (simp add: class_units_def x)
qed

lemma class_units_exp_Suc:
  assumes "2 ^ b \<le> x" and "x < 2 * 2 ^ b"
  shows "class_units b (Suc (x + l * 2 ^ b)) = Suc x * 2 ^ l"
proof (cases "Suc x < 2 * 2 ^ b")
  case True
  then show ?thesis using class_units_exp [of b "Suc x" l] assms by simp
next
  case False
  then have x: "Suc x = 2 * 2 ^ b" using assms(2) by simp
  then have e: "Suc (x + l * 2 ^ b) = 2 ^ b + (l + 1) * 2 ^ b" by simp
  show ?thesis unfolding e using class_units_exp [of b "2 ^ b" "l + 1"] x by simp
qed


section \<open>What the routines compute\<close>

text \<open>A class evaluator made with granularity \<open>2 ^ a\<close>, \<open>b\<close> effective bits and smallest size \<open>S + 2 ^ a\<close>.\<close>

definition class_ok :: "small_class \<Rightarrow> nat \<Rightarrow> nat \<Rightarrow> nat \<Rightarrow> bool" where
  "class_ok sc a b S \<longleftrightarrow> ignore_bits_count sc = a \<and> effective_bits sc = b \<and> effective_size sc = 2 ^ b \<and>
     effective_mask sc = 2 ^ b - 1 \<and> size_shift sc = S \<and> size_shift_plus_1 sc = S + 1 \<and> S < 2 ^ 30 \<and> a < 30 \<and> b < 30"

lemma small_class_create_spec:
  assumes "1 < f" and "f \<le> 2" and "bits_of f < 30" and "a < 30" and "2 ^ a \<le> min_alloc" and "min_alloc < 2 ^ 30"
  obtains sc where "small_class_create bits_of factor_of (2 ^ a) f min_alloc = Some sc" and "class_ok sc a (bits_of f) (min_alloc - 2 ^ a)"
    and "granularity sc = 2 ^ a"
proof -
  have p: "(2::nat) ^ a AND (2 ^ a - 1) = 0" using mask_eq_exp_minus_1 [of a, where 'a = nat, symmetric] by (intro bit_eqI) (auto simp: bit_simps)
  have sh: "nat ((int min_alloc - int (2 ^ a)) mod 2 ^ 32) = min_alloc - 2 ^ a"
    using assms(5,6) by (intro nat_mod_power) (simp_all add: of_nat_diff)
  have pw: "(2::nat) ^ bits_of f < 2 ^ 30" using assms(3) by (intro power_strict_increasing) simp_all
  then have es: "push_bit (bits_of f) 1 mod 2 ^ 32 = (2::nat) ^ bits_of f" by (simp add: push_bit_eq_mult)
  have em: "nat ((int (2 ^ bits_of f) - 1) mod 2 ^ 32) = 2 ^ bits_of f - 1"
    using pw by (intro nat_mod_power) (simp_all add: of_nat_diff)
  have ms: "min_alloc \<noteq> 0" using assms(5) by (metis not_le power_eq_0_iff zero_neq_numeral gr_zeroI le_zero_eq)
  let ?sc = "\<lparr>granularity = 2 ^ a, ignore_bits_count = a, effective_bits = bits_of f, effective_size = 2 ^ bits_of f,
       effective_mask = 2 ^ bits_of f - 1, size_shift = min_alloc - 2 ^ a, size_shift_plus_1 = min_alloc - 2 ^ a + 1, actual_factor = factor_of (bits_of f)\<rparr>"
  have "small_class_create bits_of factor_of (2 ^ a) f min_alloc = Some ?sc"
    unfolding small_class_create_def Let_def sh es em using assms ms p by (simp add: small_class_create_def)
  moreover have "class_ok ?sc a (bits_of f) (min_alloc - 2 ^ a)" using assms by (simp add: class_ok_def)
  ultimately show thesis by (intro that [of ?sc]) simp_all
qed

lemma size_by_offset_eq:
  assumes ok: "class_ok sc a b S" and n: "cls < 2 ^ 32 - 1" and fit: "S + class_units b (Suc cls) * 2 ^ a < 2 ^ 32"
  shows "small_class_calc_size_by_offset sc cls = S + class_units b (Suc cls) * 2 ^ a"
proof -
  let ?n = "Suc cls" and ?E = "2 ^ b :: nat"
  have m: "?n AND (?E - 1) = ?n mod ?E" by (simp add: take_bit_eq_mask mask_eq_exp_minus_1 flip: take_bit_eq_mod)
  have or_add: "?n mod ?E OR ?E = ?E + ?n mod ?E"
  proof -
    have "\<not> bit (?n mod ?E) b" by (simp add: bit_iff_odd)
    then have "set_bit b (?n mod ?E) = ?n mod ?E + ?E" by (simp add: set_bit_eq)
    then show ?thesis by (simp add: set_bit_eq_or push_bit_eq_mult)
  qed
  have "class_units b ?n \<le> class_units b ?n * 2 ^ a" by simp
  then have cu: "class_units b ?n < 2 ^ 32" using fit by linarith
  let ?l = "if ?n div ?E \<noteq> 0 then ?n div ?E - 1 else ?n div ?E" and ?x = "if ?n div ?E \<noteq> 0 then ?n mod ?E OR ?E else ?n mod ?E"
  have v: "?x * 2 ^ ?l = class_units b ?n"
    by (cases "?n < ?E") (auto simp: class_units_def or_add div_eq_0_iff)
  have "small_class_calc_size_by_offset sc cls = (S + (((?x * 2 ^ ?l) mod 2 ^ 32) * 2 ^ a) mod 2 ^ 32) mod 2 ^ 32"
    using ok n m by (simp add: small_class_calc_size_by_offset_def class_ok_def Let_def push_bit_eq_mult drop_bit_eq_div)
  also have "\<dots> = S + class_units b ?n * 2 ^ a" unfolding v using cu fit by simp
  finally show ?thesis .
qed

text \<open>The class of a size: in units of the granularity \<open>u\<close> is what lies above the smallest size, rounded down.\<close>

definition size_units :: "nat \<Rightarrow> nat \<Rightarrow> nat \<Rightarrow> nat" where
  "size_units a S sz = (if sz \<le> S then 0 else (sz - (S + 1)) div 2 ^ a)"

lemma size_units_bounds:
  "sz \<le> S + Suc (size_units a S sz) * 2 ^ a" "S < sz \<Longrightarrow> S + size_units a S sz * 2 ^ a < sz" "size_units a S sz \<le> sz"
proof -
  show "sz \<le> S + Suc (size_units a S sz) * 2 ^ a"
    using dividend_less_times_div [of "2 ^ a" "sz - (S + 1)"] by (auto simp: size_units_def algebra_simps)
  show "S + size_units a S sz * 2 ^ a < sz" if "S < sz"
  proof -
    have "S + (sz - (S + 1)) div 2 ^ a * 2 ^ a < sz" using that div_times_less_eq_dividend [of "sz - (S + 1)" "2 ^ a"] by linarith
    then show ?thesis using that by (simp add: size_units_def)
  qed
  show "size_units a S sz \<le> sz"
    using order_trans [OF div_le_dividend diff_le_self, of sz "S + 1" "2 ^ a"] by (simp add: size_units_def)
qed

lemma offset_by_size_eq:
  assumes ok: "class_ok sc a b S" and sz: "sz < 2 ^ 30"
  defines "u \<equiv> size_units a S sz"
  obtains (linear) "u < 2 ^ b" and "small_class_calc_offset_by_size sc sz = u"
  | (exponential) l x where "2 ^ b \<le> x" and "x < 2 * 2 ^ b" and "x = u div 2 ^ l" and "2 ^ b * 2 ^ l \<le> u"
      and "small_class_calc_offset_by_size sc sz = x + l * 2 ^ b"
proof -
  have S: "S < 2 ^ 30" "b < 30" using ok by (simp_all add: class_ok_def)
  let ?chk = "nat ((int sz - int (S + 1)) mod 2 ^ 32)"
  have c: "(if ?chk > sz then 0 else ?chk) = (if sz \<le> S then 0 else sz - (S + 1))"
  proof (cases "sz \<le> S")
    case True
    have "(int sz - int (S + 1)) mod 2 ^ 32 = (int sz - int (S + 1) + 2 ^ 32) mod 2 ^ 32" by (simp only: mod_add_self2)
    also have "\<dots> = int sz - int (S + 1) + 2 ^ 32" using True S(1) by (intro mod_pos_pos_trivial) simp_all
    finally show ?thesis using True S(1) by simp
  next
    case False
    have e: "?chk = sz - (S + 1)" using False sz by (intro nat_mod_power) (simp_all add: of_nat_diff)
    show ?thesis unfolding e using False by simp
  qed
  have u: "drop_bit a (if ?chk > sz then 0 else ?chk) = u" unfolding c by (simp add: u_def size_units_def drop_bit_eq_div)
  have ub: "u < 2 ^ 30" unfolding u_def using sz size_units_bounds(3) [of a S sz] by (rule le_less_trans [rotated])
  have run: "small_class_calc_offset_by_size sc sz =
      (if u < 2 ^ b then u else (u div 2 ^ ilog2 (u div 2 ^ b) + (ilog2 (u div 2 ^ b) * 2 ^ b) mod 2 ^ 32) mod 2 ^ 32)"
  proof -
    have f: "ignore_bits_count sc = a" "effective_bits sc = b" "effective_size sc = 2 ^ b" "size_shift_plus_1 sc = S + 1"
      using ok by (simp_all add: class_ok_def)
    show ?thesis unfolding small_class_calc_offset_by_size_def f Let_def small_class_fls_def push_bit_eq_mult drop_bit_eq_div
        u [unfolded drop_bit_eq_div] by (rule refl)
  qed
  show thesis
  proof (cases "u < 2 ^ b")
    case True
    then show thesis using run by (intro linear) simp_all
  next
    case False
    let ?l = "ilog2 (u div 2 ^ b)"
    have d: "0 < u div 2 ^ b" using False by (simp add: div_greater_zero_iff)
    have l: "2 ^ ?l \<le> u div 2 ^ b" "u div 2 ^ b < 2 * 2 ^ ?l" using ilog2_bounds [OF d] by simp_all
    have lo: "2 ^ b * 2 ^ ?l \<le> u" using mult_le_mono2 [OF l(1), of "2 ^ b"] times_div_less_eq_dividend [of "2 ^ b" u] by linarith
    have hi: "u < 2 * 2 ^ b * 2 ^ ?l"
    proof -
      have "u < 2 ^ b * Suc (u div 2 ^ b)" using dividend_less_times_div [of "2 ^ b" u] by simp
      also have "\<dots> \<le> 2 ^ b * (2 * 2 ^ ?l)" using l(2) by (intro mult_le_mono2) simp
      finally show ?thesis by simp
    qed
    have x: "2 ^ b \<le> u div 2 ^ ?l" "u div 2 ^ ?l < 2 * 2 ^ b"
      using lo hi by (simp_all add: less_eq_div_iff_mult_less_eq div_less_iff_less_mult)
    have "?l * 2 ^ b \<le> 2 ^ ?l * 2 ^ b" by (intro mult_le_mono1 less_imp_le [OF less_exp])
    also have "\<dots> \<le> u" using lo by (simp add: mult.commute)
    finally have "?l * 2 ^ b \<le> u" .
    then have "u div 2 ^ ?l + ?l * 2 ^ b \<le> 2 * u" using div_le_dividend [of u "2 ^ ?l"] by linarith
    then have "u div 2 ^ ?l + ?l * 2 ^ b < 2 ^ 32" using ub by simp
    then have "small_class_calc_offset_by_size sc sz = u div 2 ^ ?l + ?l * 2 ^ b" using run False by simp
    then show thesis using x lo by (intro exponential [OF x refl lo])
  qed
qed


text \<open>
  The class found for a size is the least one that holds it: its own size is large enough, and
  the class before it is too small.
\<close>

lemma offset_by_size_bounds:
  assumes ok: "class_ok sc a b S" and sz: "sz < 2 ^ 30"
  defines "k \<equiv> small_class_calc_offset_by_size sc sz" and "u \<equiv> size_units a S sz"
  shows "u < class_units b (Suc k)" and "class_units b k \<le> u" and "class_units b (Suc k) \<le> max (2 * u) (u + 1)" and "k \<le> 2 * u"
proof -
  have "u < class_units b (Suc k) \<and> class_units b k \<le> u \<and> class_units b (Suc k) \<le> max (2 * u) (u + 1) \<and> k \<le> 2 * u"
  proof (rule offset_by_size_eq [OF ok sz])
    assume l: "size_units a S sz < 2 ^ b" "small_class_calc_offset_by_size sc sz = size_units a S sz"
    then have "k = u" "u < 2 ^ b" by (simp_all add: k_def u_def)
    then show ?thesis using class_units_linear [of u b] by (simp add: class_units_def)
  next
    fix l x assume l: "2 ^ b \<le> x" "x < 2 * 2 ^ b" "x = size_units a S sz div 2 ^ l" "2 ^ b * 2 ^ l \<le> size_units a S sz"
      "small_class_calc_offset_by_size sc sz = x + l * 2 ^ b"
    then have k: "k = x + l * 2 ^ b" "x = u div 2 ^ l" "2 ^ b * 2 ^ l \<le> u" by (simp_all add: k_def u_def)
    have hi: "class_units b (Suc k) = Suc x * 2 ^ l" and lo: "class_units b k = x * 2 ^ l"
      unfolding k(1) by (rule class_units_exp_Suc [OF l(1,2)], rule class_units_exp [OF l(1,2)])
    have 1: "u < Suc x * 2 ^ l" unfolding k(2) using dividend_less_times_div [of "2 ^ l" u] by (simp add: mult.commute)
    have 2: "x * 2 ^ l \<le> u" unfolding k(2) by (rule div_times_less_eq_dividend)
    have "2 ^ l \<le> u" using k(3) by (rule order_trans [rotated]) simp
    then have 3: "Suc x * 2 ^ l \<le> 2 * u" using 2 by simp
    have "l * 2 ^ b \<le> 2 ^ l * 2 ^ b" by (intro mult_le_mono1 less_imp_le [OF less_exp])
    also have "\<dots> \<le> u" using k(3) by (simp add: mult.commute)
    finally have "l * 2 ^ b \<le> u" .
    moreover have "x \<le> u" unfolding k(2) by (rule div_le_dividend)
    ultimately show ?thesis unfolding hi lo using 1 2 3 k(1) by (simp add: max_def)
  qed
  then show "u < class_units b (Suc k)" "class_units b k \<le> u" "class_units b (Suc k) \<le> max (2 * u) (u + 1)" "k \<le> 2 * u" by blast+
qed

lemma size_class_fits:
  assumes ok: "class_ok sc a b S" and sz: "sz < 2 ^ 30" and j: "j \<le> small_class_calc_offset_by_size sc sz"
  shows "small_class_calc_size_by_offset sc j = S + class_units b (Suc j) * 2 ^ a"
proof (rule size_by_offset_eq [OF ok])
  let ?k = "small_class_calc_offset_by_size sc sz" and ?u = "size_units a S sz"
  note B = offset_by_size_bounds [OF ok sz]
  have "j \<le> 2 * sz" using j B(4) size_units_bounds(3) [of a S sz] by linarith
  then show "j < 2 ^ 32 - 1" using sz by simp
  have "class_units b (Suc j) \<le> class_units b (Suc ?k)" using strict_mono_less_eq [OF class_units_mono] j by simp
  also have "\<dots> \<le> 2 * ?u + 1" using B(3) by (simp add: max_def split: if_splits)
  finally have "class_units b (Suc j) * 2 ^ a \<le> (2 * ?u + 1) * 2 ^ a" by (rule mult_le_mono1)
  moreover have "?u * 2 ^ a \<le> sz" using size_units_bounds(2) [of S sz a] by (cases "S < sz") (auto simp: size_units_def)
  moreover have "S < 2 ^ 30" "(2::nat) ^ a < 2 ^ 30" using ok power_strict_increasing [of a 30 "2 :: nat"] by (simp_all add: class_ok_def)
  ultimately show "S + class_units b (Suc j) * 2 ^ a < 2 ^ 32" using sz by (simp add: algebra_simps)
qed

lemma class_least:
  assumes ok: "class_ok sc a b S" and sz: "sz < 2 ^ 30"
  shows "sz \<le> small_class_calc_size_by_offset sc (small_class_calc_offset_by_size sc sz)"
    and "j < small_class_calc_offset_by_size sc sz \<Longrightarrow> small_class_calc_size_by_offset sc j < sz"
proof -
  let ?k = "small_class_calc_offset_by_size sc sz" and ?u = "size_units a S sz"
  note B = offset_by_size_bounds [OF ok sz] and U = size_units_bounds(1) [of sz S a] size_units_bounds(2) [of S sz a]
  have "Suc ?u * 2 ^ a \<le> class_units b (Suc ?k) * 2 ^ a" using B(1) by (intro mult_le_mono1) simp
  then show "sz \<le> small_class_calc_size_by_offset sc ?k" using U(1) size_class_fits [OF ok sz order_refl] by linarith
  show "small_class_calc_size_by_offset sc j < sz" if j: "j < ?k"
  proof -
    have "S < sz" using j B(4) by (cases "S < sz") (simp_all add: size_units_def)
    then have s: "S + ?u * 2 ^ a < sz" by (rule U(2))
    have "class_units b (Suc j) \<le> class_units b ?k" using strict_mono_less_eq [OF class_units_mono] j by simp
    then have "class_units b (Suc j) \<le> ?u" using B(2) by simp
    then have "class_units b (Suc j) * 2 ^ a \<le> ?u * 2 ^ a" by (rule mult_le_mono1)
    then have "S + class_units b (Suc j) * 2 ^ a < sz" using s by linarith
    then show ?thesis using size_class_fits [OF ok sz, of j] j by simp
  qed
qed

text \<open>The next class is at most twice as large, so a class size that is in range has a successor in range.\<close>

lemma class_units_double: "class_units b (Suc n) \<le> 2 * class_units b n + 1"
proof (cases "n < 2 ^ b")
  case True
  then show ?thesis using class_units_linear [OF True] by (simp add: class_units_def)
next
  case False
  let ?E = "2 ^ b :: nat"
  obtain q where q: "n div ?E = Suc q" using False by (metis div_greater_zero_iff gr0_implies_Suc not_less zero_less_numeral zero_less_power)
  then have n: "n = (?E + n mod ?E) + (n div ?E - 1) * ?E"
    using div_mult_mod_eq [of n ?E] by simp
  have x: "?E \<le> ?E + n mod ?E" "?E + n mod ?E < 2 * ?E" by simp_all
  have "class_units b (Suc n) = Suc (?E + n mod ?E) * 2 ^ (n div ?E - 1)" "class_units b n = (?E + n mod ?E) * 2 ^ (n div ?E - 1)"
    using class_units_exp_Suc [OF x, of "n div ?E - 1"] class_units_exp [OF x, of "n div ?E - 1"] n by simp_all
  moreover have "1 * (2::nat) ^ (n div ?E - 1) \<le> (?E + n mod ?E) * 2 ^ (n div ?E - 1)" by (intro mult_le_mono1) (simp add: Suc_leI trans_le_add1)
  ultimately show ?thesis unfolding mult_Suc mult_1 by linarith
qed

lemma next_class_size:
  assumes ok: "class_ok sc a b S" and i: "i < 2 ^ 20" and fit: "small_class_calc_size_by_offset sc i = S + class_units b (Suc i) * 2 ^ a"
    and lt: "small_class_calc_size_by_offset sc i < 2 ^ 30"
  shows "small_class_calc_size_by_offset sc (Suc i) = S + class_units b (Suc (Suc i)) * 2 ^ a"
    and "small_class_calc_size_by_offset sc i < small_class_calc_size_by_offset sc (Suc i)"
proof -
  have a: "(2::nat) ^ a < 2 ^ 30" using ok power_strict_increasing [of a 30 "2 :: nat"] by (simp add: class_ok_def)
  have "class_units b (Suc (Suc i)) * 2 ^ a \<le> (2 * class_units b (Suc i) + 1) * 2 ^ a" by (rule mult_le_mono1 [OF class_units_double])
  also have "\<dots> = 2 * (class_units b (Suc i) * 2 ^ a) + 2 ^ a" by (simp add: algebra_simps)
  finally have "S + class_units b (Suc (Suc i)) * 2 ^ a < 2 * 2 ^ 30 + 2 ^ 30" using lt a unfolding fit by linarith
  then show e: "small_class_calc_size_by_offset sc (Suc i) = S + class_units b (Suc (Suc i)) * 2 ^ a"
    by (intro size_by_offset_eq [OF ok]) (use i in simp_all)
  show "small_class_calc_size_by_offset sc i < small_class_calc_size_by_offset sc (Suc i)"
    unfolding e fit using class_units_Suc [of b "Suc i"] by simp
qed

lemma first_class_size:
  assumes ok: "class_ok sc a b S"
  shows "small_class_calc_size_by_offset sc 0 = S + class_units b (Suc 0) * 2 ^ a" and "small_class_calc_size_by_offset sc 0 = S + 2 ^ a"
proof -
  have a: "(2::nat) ^ a < 2 ^ 30" "S < 2 ^ 30" using ok power_strict_increasing [of a 30 "2 :: nat"] by (simp_all add: class_ok_def)
  have u: "class_units b (Suc 0) = 1" using class_units_linear [of 0 b] by simp
  show "small_class_calc_size_by_offset sc 0 = S + class_units b (Suc 0) * 2 ^ a"
    by (rule size_by_offset_eq [OF ok]) (use a u in simp_all)
  then show "small_class_calc_size_by_offset sc 0 = S + 2 ^ a" using u by simp
qed

section \<open>Properties\<close>

text \<open>C37: the size class computed for a size is the least class that holds it: its size is at least the size asked
  for, every earlier class is smaller, and the size wasted is less than the size itself.\<close>

theorem small_class_least:
  assumes "1 < f" and "f \<le> 2" and "bits_of f < 30" and "a < 30" and "2 ^ a \<le> min_alloc" and "min_alloc < 2 ^ 30"
    and "small_class_create bits_of factor_of (2 ^ a) f min_alloc = Some sc" and "0 < sz" and "sz < 2 ^ 30"
  shows "sz \<le> small_class_calc_size_by_offset sc (small_class_calc_offset_by_size sc sz) \<and>
    (\<forall>j < small_class_calc_offset_by_size sc sz. small_class_calc_size_by_offset sc j < sz) \<and>
    small_class_calc_size_by_offset sc (small_class_calc_offset_by_size sc sz) < 2 * max sz min_alloc"
proof -
  let ?b = "bits_of f" and ?S = "min_alloc - 2 ^ a" and ?k = "small_class_calc_offset_by_size sc sz"
  have ok: "class_ok sc a ?b ?S"
    by (rule small_class_create_spec [of f bits_of a min_alloc factor_of]) (use assms in simp_all)
  let ?u = "size_units a ?S sz"
  note B = offset_by_size_bounds [OF ok assms(9)] and U = size_units_bounds [of sz ?S a] size_units_bounds(2) [of ?S sz a]
  have "?S + class_units ?b (Suc ?k) * 2 ^ a < 2 * max sz min_alloc"
  proof (cases "?S < sz \<and> class_units ?b (Suc ?k) \<le> 2 * ?u")
    case True
    then have "class_units ?b (Suc ?k) * 2 ^ a \<le> 2 * ?u * 2 ^ a" by (intro mult_le_mono1) blast
    moreover have "?S + ?u * 2 ^ a < sz" using U(4) True by blast
    ultimately have "?S + class_units ?b (Suc ?k) * 2 ^ a < 2 * sz" by linarith
    then show ?thesis by (rule less_le_trans) simp
  next
    case False
    then have "class_units ?b (Suc ?k) \<le> Suc ?u" using B(3) by (auto simp: size_units_def max_def split: if_splits)
    then have "class_units ?b (Suc ?k) * 2 ^ a \<le> Suc ?u * 2 ^ a" by (rule mult_le_mono1)
    moreover have "?S + ?u * 2 ^ a < max sz min_alloc"
    proof (cases "?S < sz")
      case True
      then show ?thesis using U(4) by simp
    next
      case False
      have "0 < (2::nat) ^ a" by simp
      then have "?S < min_alloc" using assms(5) by linarith
      then show ?thesis using False by (simp add: size_units_def)
    qed
    ultimately show ?thesis using assms(5) by (simp add: max_def split: if_splits)
  qed
  then have "small_class_calc_size_by_offset sc ?k < 2 * max sz min_alloc"
    using size_class_fits [OF ok assms(9) order_refl] by simp
  then show ?thesis using class_least [OF ok assms(9)] by blast
qed

theorem small_class_least_witness:
  "\<exists>sc. small_class_create (\<lambda>_. 2) (\<lambda>_. 1) 8 (11 / 10) 16 = Some sc \<and> 100 \<le> small_class_calc_size_by_offset sc (small_class_calc_offset_by_size sc 100)"
proof -
  obtain sc where sc: "small_class_create (\<lambda>_. 2) (\<lambda>_. 1) (2 ^ 3) (11 / 10) 16 = Some sc"
    by (rule small_class_create_spec [of "11 / 10" "\<lambda>_. 2" 3 16 "\<lambda>_. 1"]) (use that in simp_all)
  from small_class_least [OF _ _ _ _ _ _ sc, of 100] sc show ?thesis by simp
qed

end
