(* ===== verification/Small_Alloc.thy ===== *)
theory Small_Alloc
  imports Small_Class Mempool_Ops
begin

text \<open>
  \<open>small/small.c\<close> and \<open>include/small/small.h\<close>: the allocator of small objects, an array of pools of
  growing object size. Pools of one slab order form groups of up to 32; a size class may be
  served by the smallest active pool of its group, and becomes active itself when too much
  memory is wasted that way. A pointer to an element of one of the two arrays is its index; a
  pointer that may be NULL is an option. An access outside of an array is an abort.
\<close>

section \<open>Data\<close>

definition SMALL_MEMPOOL_MAX :: nat where
  "SMALL_MEMPOOL_MAX = 1024"

definition POOL_PER_GROUP_MAX :: nat where
  "POOL_PER_GROUP_MAX = 32"

record small_mempool =
  sm_pool :: mempool
  objsize_min :: nat
  sm_group :: "nat option"
  used_pool :: "nat option"
  appropriate_pool_mask :: u32
  waste :: nat

record small_mempool_group =
  sg_first :: nat
  sg_last :: nat
  active_pool_mask :: u32
  waste_max :: nat

record small_alloc =
  small_mempool_cache :: "small_mempool list"
  small_mempool_groups :: "small_mempool_group list"
  alloc_factor :: real
  sm_class :: small_class
  sm_objsize_max :: nat

text \<open>Reading and writing an element of an array.\<close>

definition elem :: "'a list \<Rightarrow> nat \<Rightarrow> 'a option" where
  "elem xs i = (if i < length xs then Some (xs ! i) else None)"

definition set_pool :: "nat \<Rightarrow> (small_mempool \<Rightarrow> small_mempool) \<Rightarrow> small_alloc \<Rightarrow> small_alloc" where
  "set_pool i f a = a\<lparr>small_mempool_cache := (small_mempool_cache a)[i := f (small_mempool_cache a ! i)]\<rparr>"

definition set_group :: "nat \<Rightarrow> (small_mempool_group \<Rightarrow> small_mempool_group) \<Rightarrow> small_alloc \<Rightarrow> small_alloc" where
  "set_group g f a = a\<lparr>small_mempool_groups := (small_mempool_groups a)[g := f (small_mempool_groups a ! g)]\<rparr>"

text \<open>\<open>__builtin_ffs\<close>: one plus the index of the lowest bit that is set, 0 for 0.\<close>

definition ffs32 :: "u32 \<Rightarrow> nat" where
  "ffs32 w = (case find (bit w) [0 ..< 32] of None \<Rightarrow> 0 | Some i \<Rightarrow> Suc i)"

section \<open>Groups of pools\<close>

text \<open>The group of a pool, and the pool's index in it.\<close>

definition pool_group :: "small_alloc \<Rightarrow> nat \<Rightarrow> (nat \<times> small_mempool_group) option" where
  "pool_group a i = do {
     sm \<leftarrow> elem (small_mempool_cache a) i;
     g \<leftarrow> sm_group sm;
     grp \<leftarrow> elem (small_mempool_groups a) g;
     Some (g, grp) }"

fun small_mempool_update_loop :: "small_mempool_group \<Rightarrow> nat list \<Rightarrow> small_alloc \<Rightarrow> small_alloc option" where
  "small_mempool_update_loop grp [] a = Some a"
| "small_mempool_update_loop grp (pool # rest) a = do {
     sm \<leftarrow> elem (small_mempool_cache a) pool;
     let used_idx = int (ffs32 (active_pool_mask grp AND appropriate_pool_mask sm)) - 1;
     c_assert (used_idx \<ge> 0);
     let used = sg_first grp + nat used_idx;
     let a = set_pool pool (used_pool_update (\<lambda>_. Some used)) a;
     c_assert (used \<ge> pool);
     usm \<leftarrow> elem (small_mempool_cache a) used;
     c_assert (objsize (sm_pool sm) \<le> objsize (sm_pool usm));
     small_mempool_update_loop grp rest a }"

definition small_mempool_update_group :: "small_alloc \<Rightarrow> nat \<Rightarrow> small_alloc option" where
  "small_mempool_update_group a i = do {
     (g, grp) \<leftarrow> pool_group a i;
     small_mempool_update_loop grp [sg_first grp ..< sg_last grp + 1] a }"

definition small_mempool_get_group_index :: "small_alloc \<Rightarrow> nat \<Rightarrow> nat option" where
  "small_mempool_get_group_index a i = do { (g, grp) \<leftarrow> pool_group a i; Some (i - sg_first grp) }"

definition small_mempool_activate :: "small_alloc \<Rightarrow> nat \<Rightarrow> small_alloc option" where
  "small_mempool_activate a i = do {
     idx \<leftarrow> small_mempool_get_group_index a i;
     (g, grp) \<leftarrow> pool_group a i;
     c_assert (active_pool_mask grp AND push_bit idx 1 = 0);
     let a = set_group g (\<lambda>grp. grp\<lparr>active_pool_mask := active_pool_mask grp OR push_bit idx 1\<rparr>) a;
     small_mempool_update_group a i }"

definition small_mempool_deactivate :: "small_alloc \<Rightarrow> nat \<Rightarrow> small_alloc option" where
  "small_mempool_deactivate a i = do {
     idx \<leftarrow> small_mempool_get_group_index a i;
     (g, grp) \<leftarrow> pool_group a i;
     c_assert (active_pool_mask grp AND push_bit idx 1 \<noteq> 0);
     let a = set_group g (\<lambda>grp. grp\<lparr>active_pool_mask := active_pool_mask grp AND NOT (push_bit idx 1)\<rparr>) a;
     small_mempool_update_group a i }"

definition small_mempool_can_be_deactivated :: "small_alloc \<Rightarrow> nat \<Rightarrow> bool option" where
  "small_mempool_can_be_deactivated a i = do {
     idx \<leftarrow> small_mempool_get_group_index a i;
     (g, grp) \<leftarrow> pool_group a i;
     sm \<leftarrow> elem (small_mempool_cache a) i;
     Some (active_pool_mask grp AND push_bit idx 1 \<noteq> 0 \<and> mempool_count (sm_pool sm) = 0 \<and>
       waste sm < waste_max grp div 4 \<and> i \<noteq> sg_last grp) }"

fun small_mempool_sweep_loop :: "nat list \<Rightarrow> slab_cache \<Rightarrow> small_alloc \<Rightarrow> (slab_cache \<times> small_alloc) option" where
  "small_mempool_sweep_loop [] c a = Some (c, a)"
| "small_mempool_sweep_loop (i # rest) c a = do {
     ok \<leftarrow> small_mempool_can_be_deactivated a i;
     (c, a) \<leftarrow> (if ok then do {
         a \<leftarrow> small_mempool_deactivate a i;
         sm \<leftarrow> elem (small_mempool_cache a) i;
         if mp_spare (sm_pool sm) \<noteq> NULL then do {
           (c, mp) \<leftarrow> mempool_free_spare_slab c (sm_pool sm);
           Some (c, set_pool i (sm_pool_update (\<lambda>_. mp)) a) }
         else Some (c, a) }
       else Some (c, a));
     small_mempool_sweep_loop rest c a }"

definition small_mempool_group_sweep_sparse :: "slab_cache \<Rightarrow> small_alloc \<Rightarrow> (slab_cache \<times> small_alloc) option" where
  "small_mempool_group_sweep_sparse c a = small_mempool_sweep_loop [0 ..< length (small_mempool_cache a)] c a"

section \<open>Creation\<close>

function group_last_loop :: "nat \<Rightarrow> nat \<Rightarrow> nat \<Rightarrow> nat" where
  "group_last_loop last_pool last_in_group pool_count =
     (if last_in_group < last_pool \<and> pool_count < POOL_PER_GROUP_MAX - 1
      then group_last_loop last_pool (last_in_group + 1) (pool_count + 1) else last_in_group)"
  by pat_completeness auto
termination by (relation "measure (\<lambda>(last_pool, last_in_group, _). last_pool - last_in_group)") auto

declare group_last_loop.simps [simp del]

definition small_mempool_group_last_pool :: "nat \<Rightarrow> nat \<Rightarrow> nat" where
  "small_mempool_group_last_pool first last_pool = group_last_loop last_pool first 0"

text \<open>The bits from the pool's index up.\<close>

fun set_mask_loop :: "nat list \<Rightarrow> u32 \<Rightarrow> u32" where
  "set_mask_loop [] w = w"
| "set_mask_loop (i # rest) w = set_mask_loop rest (w OR push_bit i 1)"

definition small_mempool_set_mask :: "small_alloc \<Rightarrow> nat \<Rightarrow> small_alloc option" where
  "small_mempool_set_mask a i = do {
     sm \<leftarrow> elem (small_mempool_cache a) i;
     c_assert (appropriate_pool_mask sm = 0);
     (g, grp) \<leftarrow> pool_group a i;
     let idx = i - sg_first grp;
     Some (set_pool i (\<lambda>sm. sm\<lparr>appropriate_pool_mask := set_mask_loop [idx ..< POOL_PER_GROUP_MAX] (appropriate_pool_mask sm)\<rparr>) a) }"

fun join_group_loop :: "nat \<Rightarrow> nat list \<Rightarrow> small_alloc \<Rightarrow> small_alloc option" where
  "join_group_loop g [] a = Some a"
| "join_group_loop g (i # rest) a = do {
     _ \<leftarrow> elem (small_mempool_cache a) i;
     let a = set_pool i (sm_group_update (\<lambda>_. Some g)) a;
     a \<leftarrow> small_mempool_set_mask a i;
     join_group_loop g rest a }"

definition small_mempool_create_group :: "slab_cache \<Rightarrow> small_alloc \<Rightarrow> nat \<Rightarrow> nat \<Rightarrow> small_alloc option" where
  "small_mempool_create_group c a first last_pool = do {
     let g = length (small_mempool_groups a);
     c_assert (g < SMALL_MEMPOOL_MAX);
     sm \<leftarrow> elem (small_mempool_cache a) last_pool;
     slab_size \<leftarrow> slab_order_size c (mp_order (sm_pool sm));
     let grp = \<lparr>sg_first = first, sg_last = last_pool, active_pool_mask = 0, waste_max = slab_size div 4\<rparr>;
     let a = a\<lparr>small_mempool_groups := small_mempool_groups a @ [grp]\<rparr>;
     a \<leftarrow> join_group_loop g [first ..< last_pool + 1] a;
     small_mempool_activate a last_pool }"

lemma group_last_loop_ge: "last_in_group \<le> group_last_loop last_pool last_in_group pool_count"
proof (induction last_pool last_in_group pool_count rule: group_last_loop.induct)
  case (1 last_pool last_in_group pool_count)
  then show ?case by (subst group_last_loop.simps) (simp add: Suc_leD)
qed

function small_mempool_create_groups :: "slab_cache \<Rightarrow> small_alloc \<Rightarrow> nat \<Rightarrow> nat \<Rightarrow> small_alloc option" where
  "small_mempool_create_groups c a first_in_group last_pool =
     (if first_in_group \<le> last_pool then do {
        let last_in_group = small_mempool_group_last_pool first_in_group last_pool;
        a \<leftarrow> small_mempool_create_group c a first_in_group last_in_group;
        small_mempool_create_groups c a (last_in_group + 1) last_pool }
      else Some a)"
  by pat_completeness auto
termination
  by (relation "measure (\<lambda>(_, _, first_in_group, last_pool). Suc last_pool - first_in_group)")
    (use group_last_loop_ge in \<open>auto simp: small_mempool_group_last_pool_def Suc_diff_le less_Suc_eq_le intro!: diff_le_mono2\<close>)

declare small_mempool_create_groups.simps [simp del]

definition small_mempool_search :: "small_alloc \<Rightarrow> nat \<Rightarrow> nat option" where
  "small_mempool_search a sz =
     (if sz > sm_objsize_max a then None
      else Some (small_class_calc_offset_by_size (sm_class a) (sz mod 2 ^ 32)))"

text \<open>
  The loop that makes the pools. Its locals are the object size of the last pool made, the slab
  order and the first pool of the run of pools that has no group yet; the slab order is set by
  the first iteration. The first argument counts the elements of the array that are left.
\<close>

fun small_mempool_create_loop :: "nat \<Rightarrow> slab_cache \<Rightarrow> nat \<Rightarrow> nat \<Rightarrow> nat \<Rightarrow> small_alloc \<Rightarrow> (nat \<times> nat \<times> small_alloc) option" where
  "small_mempool_create_loop 0 c osz slab_order_cur cur_order_pool a = Some (osz, cur_order_pool, a)"
| "small_mempool_create_loop (Suc left) c osz slab_order_cur cur_order_pool a =
     (if osz < sm_objsize_max a then do {
        let prevsize = osz;
        let i = length (small_mempool_cache a);
        let osz = small_class_calc_size_by_offset (sm_class a) i;
        let osz = (if osz > sm_objsize_max a then sm_objsize_max a else osz);
        mp \<leftarrow> mempool_create i c osz;
        let a = a\<lparr>small_mempool_cache := small_mempool_cache a @
          [\<lparr>sm_pool = mp, objsize_min = prevsize + 1, sm_group = None, used_pool = None, appropriate_pool_mask = 0, waste = 0\<rparr>]\<rparr>;
        let slab_order_cur = (if i = 0 then mp_order mp else slab_order_cur);
        if mp_order mp \<noteq> slab_order_cur then do {
          prev \<leftarrow> elem (small_mempool_cache a) (i - 1);
          cur \<leftarrow> elem (small_mempool_cache a) cur_order_pool;
          c_assert (slab_ptr_mask (sm_pool cur) = slab_ptr_mask (sm_pool prev));
          a \<leftarrow> small_mempool_create_groups c a cur_order_pool (i - 1);
          small_mempool_create_loop left c osz (mp_order mp) i a }
        else small_mempool_create_loop left c osz slab_order_cur cur_order_pool a }
      else Some (osz, cur_order_pool, a))"

definition small_mempool_create :: "slab_cache \<Rightarrow> small_alloc \<Rightarrow> small_alloc option" where
  "small_mempool_create c a = do {
     (osz, cur_order_pool, a) \<leftarrow>
       small_mempool_create_loop SMALL_MEMPOOL_MAX c 0 0 0 (a\<lparr>small_mempool_cache := [], small_mempool_groups := []\<rparr>);
     let last_pool = length (small_mempool_cache a) - 1;
     last_sm \<leftarrow> elem (small_mempool_cache a) last_pool;
     cur \<leftarrow> elem (small_mempool_cache a) cur_order_pool;
     c_assert (slab_ptr_mask (sm_pool cur) = slab_ptr_mask (sm_pool last_sm));
     a \<leftarrow> small_mempool_create_groups c a cur_order_pool last_pool;
     Some (a\<lparr>sm_objsize_max := osz\<rparr>) }"

text \<open>The sizes are 32-bit; \<open>bits_of\<close> and \<open>factor_of\<close> are those of the size classes.\<close>

definition small_alloc_create :: "(real \<Rightarrow> nat) \<Rightarrow> (nat \<Rightarrow> real) \<Rightarrow> slab_cache \<Rightarrow> nat \<Rightarrow> nat \<Rightarrow> real \<Rightarrow> small_alloc option" where
  "small_alloc_create bits_of factor_of c osz_min gran factor = do {
     omin \<leftarrow> small_align (of_nat osz_min) (of_nat gran);
     slab_size \<leftarrow> slab_order_size c (order_max c);
     omax \<leftarrow> small_align (of_nat (mempool_objsize_max slab_size)) (of_nat gran);
     c_assert (gran AND (gran - 1) = 0);
     c_assert (factor > 1 \<and> factor \<le> 2);
     sc \<leftarrow> small_class_create bits_of factor_of gran factor (unat omin mod 2 ^ 32);
     small_mempool_create c \<lparr>small_mempool_cache = [], small_mempool_groups = [], alloc_factor = factor, sm_class = sc,
       sm_objsize_max = unat omax mod 2 ^ 32\<rparr> }"

section \<open>Allocation\<close>

text \<open>
  The end of \<open>smalloc\<close>: an object from another pool is charged to its class as waste, and the class
  becomes active when the waste is too much.
\<close>

definition small_settle :: "small_alloc \<Rightarrow> nat \<Rightarrow> small_alloc option" where
  "small_settle a k = do {
     sm \<leftarrow> elem (small_mempool_cache a) k;
     if used_pool sm \<noteq> Some k then do {
       u \<leftarrow> used_pool sm;
       usm \<leftarrow> elem (small_mempool_cache a) u;
       let w = (waste sm + nat ((int (objsize (sm_pool usm)) - int (objsize (sm_pool sm))) mod 2 ^ 32)) mod 2 ^ 64;
       let a = set_pool k (waste_update (\<lambda>_. w)) a;
       (g, grp) \<leftarrow> pool_group a k;
       if w \<ge> waste_max grp then small_mempool_activate a k else Some a }
     else Some a }"

definition smalloc :: "os \<Rightarrow> slab_cache \<Rightarrow> mslabs \<Rightarrow> small_alloc \<Rightarrow> nat \<Rightarrow> (addr \<times> slab_cache \<times> mslabs \<times> small_alloc) option" where
  "smalloc os c m a sz = (case small_mempool_search a sz of
     None \<Rightarrow> do {
       (s, c) \<leftarrow> slab_get_large os c sz;
       if s = NULL then Some (NULL, c, m, a) else Some (slab_data s, c, m, a) }
   | Some k \<Rightarrow> do {
       sm \<leftarrow> elem (small_mempool_cache a) k;
       j \<leftarrow> used_pool sm;
       usm \<leftarrow> elem (small_mempool_cache a) j;
       c_assert (sz \<le> objsize (sm_pool usm));
       (ptr, c, m, mp) \<leftarrow> mempool_alloc os c m (sm_pool usm);
       let a = set_pool j (sm_pool_update (\<lambda>_. mp)) a;
       (ptr, c, m, a) \<leftarrow> (if ptr = NULL then do {
           (c, a) \<leftarrow> small_mempool_group_sweep_sparse c a;
           usm \<leftarrow> elem (small_mempool_cache a) j;
           (ptr, c, m, mp) \<leftarrow> mempool_alloc os c m (sm_pool usm);
           Some (ptr, c, m, set_pool j (sm_pool_update (\<lambda>_. mp)) a) }
         else Some (ptr, c, m, a));
       if ptr \<noteq> NULL then do {
         a \<leftarrow> small_settle a k;
         Some (ptr, c, m, a) }
       else Some (ptr, c, m, a) })"

definition smfree :: "slab_cache \<Rightarrow> mslabs \<Rightarrow> small_alloc \<Rightarrow> addr \<Rightarrow> nat \<Rightarrow> (slab_cache \<times> mslabs \<times> small_alloc) option" where
  "smfree c m a ptr sz = (case small_mempool_search a sz of
     None \<Rightarrow> do {
       c \<leftarrow> slab_put_large c (slab_from_data ptr);
       Some (c, m, a) }
   | Some k \<Rightarrow> do {
       sm \<leftarrow> elem (small_mempool_cache a) k;
       s \<leftarrow> slab_from_ptr c ptr (slab_ptr_mask (sm_pool sm));
       let j = ms_mempool (m s);
       usm \<leftarrow> elem (small_mempool_cache a) j;
       let w = nat ((int (objsize (sm_pool usm)) - int (objsize (sm_pool sm))) mod 2 ^ 32);
       c_assert (waste sm \<ge> w);
       let a = set_pool k (waste_update (\<lambda>_. waste sm - w)) a;
       usm \<leftarrow> elem (small_mempool_cache a) j;
       (c, m, mp) \<leftarrow> mempool_free_slab c m (sm_pool usm) s ptr;
       Some (c, m, set_pool j (sm_pool_update (\<lambda>_. mp)) a) })"

section \<open>Iteration, destruction and statistics\<close>

definition mempool_iterator_next :: "small_alloc \<Rightarrow> nat \<Rightarrow> (nat \<times> mempool) option" where
  "mempool_iterator_next a it =
     (if it < length (small_mempool_cache a) then Some (it + 1, sm_pool (small_mempool_cache a ! it)) else None)"

function small_alloc_destroy_loop :: "slab_cache \<Rightarrow> small_alloc \<Rightarrow> nat \<Rightarrow> slab_cache option" where
  "small_alloc_destroy_loop c a it = (case mempool_iterator_next a it of
     None \<Rightarrow> Some c
   | Some (it', mp) \<Rightarrow> do { c \<leftarrow> mempool_destroy c mp; small_alloc_destroy_loop c a it' })"
  by pat_completeness auto
termination
  by (relation "measure (\<lambda>(_, a, it). length (small_mempool_cache a) - it)")
    (auto simp: mempool_iterator_next_def split: if_splits)

declare small_alloc_destroy_loop.simps [simp del]

definition small_alloc_destroy :: "slab_cache \<Rightarrow> small_alloc \<Rightarrow> slab_cache option" where
  "small_alloc_destroy c a = small_alloc_destroy_loop c a 0"

text \<open>The callback sees the statistics of each pool in turn and ends the iteration by returning true.\<close>

function small_stats_loop :: "slab_cache \<Rightarrow> small_alloc \<Rightarrow> (mempool_stats \<Rightarrow> 'x \<Rightarrow> bool \<times> 'x) \<Rightarrow> nat \<Rightarrow> int \<times> int \<times> 'x \<Rightarrow> (int \<times> int \<times> 'x) option" where
  "small_stats_loop c a cb it = (\<lambda>(used, total, ctx). (case mempool_iterator_next a it of
     None \<Rightarrow> Some (used, total, ctx)
   | Some (it', mp) \<Rightarrow> do {
       stats \<leftarrow> mempool_stats c mp;
       let (used, total) = (used + mst_used stats, total + mst_total stats);
       let (stop, ctx) = cb stats ctx;
       if stop then Some (used, total, ctx) else small_stats_loop c a cb it' (used, total, ctx) }))"
  by pat_completeness auto
termination
  by (relation "measure (\<lambda>(_, a, _, it). length (small_mempool_cache a) - it)")
    (auto simp: mempool_iterator_next_def split: if_splits)

declare small_stats_loop.simps [simp del]

definition small_stats :: "slab_cache \<Rightarrow> small_alloc \<Rightarrow> (mempool_stats \<Rightarrow> 'x \<Rightarrow> bool \<times> 'x) \<Rightarrow> 'x \<Rightarrow> (int \<times> int \<times> 'x) option" where
  "small_stats c a cb ctx = small_stats_loop c a cb 0 (0, 0, ctx)"

definition small_alloc_check :: "slab_cache \<Rightarrow> unit option" where
  "small_alloc_check c = slab_cache_check c"

text \<open>\<open>is_large\<close> and \<open>real_size\<close> of an allocation.\<close>

definition small_alloc_info :: "slab_cache \<Rightarrow> mslabs \<Rightarrow> small_alloc \<Rightarrow> addr \<Rightarrow> nat \<Rightarrow> (bool \<times> nat) option" where
  "small_alloc_info c m a ptr sz = do {
     (is_large, real_size) \<leftarrow> (case small_mempool_search a sz of
         None \<Rightarrow> Some (True, sz)
       | Some k \<Rightarrow> do {
           sm \<leftarrow> elem (small_mempool_cache a) k;
           s \<leftarrow> slab_from_ptr c ptr (slab_ptr_mask (sm_pool sm));
           usm \<leftarrow> elem (small_mempool_cache a) (ms_mempool (m s));
           Some (False, objsize (sm_pool usm)) });
     c_assert (real_size \<ge> sz);
     Some (is_large, real_size) }"

end
