(* ===== verification/Small_Groups.thy ===== *)
theory Small_Groups
  imports Small_Alloc
begin

text \<open>
  The groups of pools of the small allocator: which pool serves a size class, and that
  activating and deactivating pools keeps the choice up to date.
\<close>

section \<open>Arrays and masks\<close>

lemma elem_Some [simp]: "i < length xs \<Longrightarrow> elem xs i = Some (xs ! i)"
  by (simp add: elem_def)

lemma set_pool_simps [simp]:
  "length (small_mempool_cache (set_pool i f a)) = length (small_mempool_cache a)"
  "small_mempool_groups (set_pool i f a) = small_mempool_groups a" "sm_class (set_pool i f a) = sm_class a"
  "sm_objsize_max (set_pool i f a) = sm_objsize_max a" "alloc_factor (set_pool i f a) = alloc_factor a"
  by (simp_all add: set_pool_def)

lemma nth_set_pool:
  "k < length (small_mempool_cache a) \<Longrightarrow>
   small_mempool_cache (set_pool i f a) ! k = (if k = i then f (small_mempool_cache a ! k) else small_mempool_cache a ! k)"
  by (simp add: set_pool_def nth_list_update)

lemma set_group_simps [simp]:
  "length (small_mempool_groups (set_group i f a)) = length (small_mempool_groups a)"
  "small_mempool_cache (set_group i f a) = small_mempool_cache a" "sm_class (set_group i f a) = sm_class a"
  "sm_objsize_max (set_group i f a) = sm_objsize_max a" "alloc_factor (set_group i f a) = alloc_factor a"
  by (simp_all add: set_group_def)

lemma nth_set_group:
  "k < length (small_mempool_groups a) \<Longrightarrow>
   small_mempool_groups (set_group i f a) ! k = (if k = i then f (small_mempool_groups a ! k) else small_mempool_groups a ! k)"
  by (simp add: set_group_def nth_list_update)

lemma ffs32_spec:
  assumes "w \<noteq> 0"
  obtains i where "ffs32 w = Suc i" and "i < 32" and "bit w i" and "\<And>j. j < i \<Longrightarrow> \<not> bit w j"
proof -
  obtain b where b: "bit w b" using assms by (auto simp: bit_eq_iff)
  then have "b < 32" using bit_imp_le_length [of w b] by simp
  then have "find (bit w) [0 ..< 32] \<noteq> None" using b by (auto simp: find_None_iff)
  then obtain i where f: "find (bit w) [0 ..< 32] = Some i" by blast
  then obtain k where k: "k < 32" "bit w ([0 ..< 32] ! k)" "i = [0 ..< 32] ! k" "\<And>j. j < k \<Longrightarrow> \<not> bit w ([0 ..< 32] ! j)"
    unfolding find_Some_iff by auto
  have i: "i = k" using k(1,3) by simp
  show thesis
  proof (rule that [of i])
    show "ffs32 w = Suc i" using f by (simp add: ffs32_def)
    show "i < 32" "bit w i" using k i by simp_all
    show "\<not> bit w j" if "j < i" for j using k(4) [of j] that i k(1) by simp
  qed
qed

lemma and_one_bit: "(w AND push_bit n 1 = 0) \<longleftrightarrow> \<not> bit w n" if "n < 32" for w :: u32
proof -
  have b: "bit (w AND push_bit n 1) j \<longleftrightarrow> bit w j \<and> j = n" for j using that by (auto simp: bit_simps)
  show ?thesis
  proof
    assume "w AND push_bit n 1 = 0"
    then show "\<not> bit w n" using b [of n] by (metis bit_0_eq bot_apply bot_bool_def)
  next
    assume "\<not> bit w n"
    then have "\<not> bit (w AND push_bit n 1) j" for j unfolding b by blast
    then show "w AND push_bit n 1 = 0" by (intro bit_eqI) simp
  qed
qed

lemma or_one_bit: "bit (w OR push_bit n 1) j \<longleftrightarrow> bit w j \<or> j = n" if "n < 32" for w :: u32
  using that by (auto simp: bit_simps)

lemma clear_one_bit: "bit (w AND NOT (push_bit n 1)) j \<longleftrightarrow> bit w j \<and> j \<noteq> n" for w :: u32
  using bit_imp_le_length [of w j] by (auto simp: bit_simps)

lemma set_mask_loop_bits:
  "(\<forall>i \<in> set is. i < 32) \<Longrightarrow> bit (set_mask_loop is w) j \<longleftrightarrow> bit w j \<or> j \<in> set is"
proof (induction "is" arbitrary: w)
  case (Cons i rest)
  have "bit (set_mask_loop rest (w OR push_bit i 1)) j \<longleftrightarrow> bit (w OR push_bit i 1) j \<or> j \<in> set rest"
    by (rule Cons.IH) (use Cons.prems in simp)
  also have "bit (w OR push_bit i 1) j \<longleftrightarrow> bit w j \<or> j = i" by (rule or_one_bit) (use Cons.prems in simp)
  finally show ?case unfolding set_mask_loop.simps list.set by blast
qed simp

section \<open>The state of a group\<close>

text \<open>The pool that serves class \<open>i\<close> of a group: the first active one from \<open>i\<close> on.\<close>

definition serves :: "small_mempool_group \<Rightarrow> nat \<Rightarrow> nat \<Rightarrow> bool" where
  "serves grp i j \<longleftrightarrow> i \<le> j \<and> j \<le> sg_last grp \<and> bit (active_pool_mask grp) (j - sg_first grp) \<and>
     (\<forall>k. i \<le> k \<and> k < j \<longrightarrow> \<not> bit (active_pool_mask grp) (k - sg_first grp))"

definition group_pool :: "nat \<Rightarrow> small_mempool_group \<Rightarrow> nat \<Rightarrow> small_mempool \<Rightarrow> bool" where
  "group_pool g grp i sm \<longleftrightarrow> sm_group sm = Some g \<and> (\<forall>b. bit (appropriate_pool_mask sm) b \<longleftrightarrow> i - sg_first grp \<le> b \<and> b < 32)"

definition group_pools :: "small_mempool list \<Rightarrow> nat \<Rightarrow> small_mempool_group \<Rightarrow> bool" where
  "group_pools ps g grp \<longleftrightarrow> (\<forall>i. sg_first grp \<le> i \<and> i \<le> sg_last grp \<longrightarrow> group_pool g grp i (ps ! i) \<and>
     mp_order (sm_pool (ps ! i)) = mp_order (sm_pool (ps ! sg_last grp)) \<and>
     slab_ptr_mask (sm_pool (ps ! i)) = slab_ptr_mask (sm_pool (ps ! sg_last grp)))"

lemma group_pools_mask [simp]: "group_pools ps g (grp\<lparr>active_pool_mask := w\<rparr>) = group_pools ps g grp"
proof -
  have "sg_first (grp\<lparr>active_pool_mask := w\<rparr>) = sg_first grp" "sg_last (grp\<lparr>active_pool_mask := w\<rparr>) = sg_last grp" by simp_all
  then show ?thesis unfolding group_pools_def group_pool_def by (simp only:)
qed

definition group_shape :: "small_mempool list \<Rightarrow> nat \<Rightarrow> small_mempool_group \<Rightarrow> bool" where
  "group_shape ps g grp \<longleftrightarrow> sg_first grp \<le> sg_last grp \<and> sg_last grp < length ps \<and> sg_last grp < sg_first grp + 32 \<and>
     (\<forall>b. bit (active_pool_mask grp) b \<longrightarrow> sg_first grp + b \<le> sg_last grp) \<and>
     group_pools ps g grp"

definition group_ok :: "small_mempool list \<Rightarrow> nat \<Rightarrow> small_mempool_group \<Rightarrow> bool" where
  "group_ok ps g grp \<longleftrightarrow> group_shape ps g grp \<and> bit (active_pool_mask grp) (sg_last grp - sg_first grp) \<and>
     (\<forall>i. sg_first grp \<le> i \<and> i \<le> sg_last grp \<longrightarrow> (\<exists>j. used_pool (ps ! i) = Some j \<and> serves grp i j))"

definition sizes_grow :: "small_mempool list \<Rightarrow> bool" where
  "sizes_grow ps \<longleftrightarrow> (\<forall>i j. i \<le> j \<longrightarrow> j < length ps \<longrightarrow> objsize (sm_pool (ps ! i)) \<le> objsize (sm_pool (ps ! j)))"

text \<open>Pools that agree but for the pool they use.\<close>

definition same_but_used :: "small_mempool list \<Rightarrow> small_mempool list \<Rightarrow> bool" where
  "same_but_used ps ps' \<longleftrightarrow> length ps' = length ps \<and> (\<forall>i < length ps. ps' ! i = (ps ! i)\<lparr>used_pool := used_pool (ps' ! i)\<rparr>)"

lemma same_but_usedD:
  assumes "same_but_used ps ps'" and "i < length ps"
  shows "sm_pool (ps' ! i) = sm_pool (ps ! i)" and "sm_group (ps' ! i) = sm_group (ps ! i)" and "waste (ps' ! i) = waste (ps ! i)"
    and "appropriate_pool_mask (ps' ! i) = appropriate_pool_mask (ps ! i)" and "objsize_min (ps' ! i) = objsize_min (ps ! i)"
proof -
  have e: "ps' ! i = (ps ! i)\<lparr>used_pool := used_pool (ps' ! i)\<rparr>" using assms by (simp add: same_but_used_def)
  show "sm_pool (ps' ! i) = sm_pool (ps ! i)" "sm_group (ps' ! i) = sm_group (ps ! i)" "waste (ps' ! i) = waste (ps ! i)"
    "appropriate_pool_mask (ps' ! i) = appropriate_pool_mask (ps ! i)" "objsize_min (ps' ! i) = objsize_min (ps ! i)"
    by (subst e, simp)+
qed

lemma same_but_used_refl: "same_but_used ps ps"
  by (simp add: same_but_used_def)

lemma same_but_used_trans: "same_but_used ps ps' \<Longrightarrow> same_but_used ps' ps'' \<Longrightarrow> same_but_used ps ps''"
  unfolding same_but_used_def by (metis small_mempool.surjective small_mempool.update_convs(4))

lemma same_but_used_shape:
  assumes "same_but_used ps ps'"
  shows "group_shape ps' g grp = group_shape ps g grp" and "sizes_grow ps' = sizes_grow ps"
proof -
  have l: "length ps' = length ps" using assms by (simp add: same_but_used_def)
  note s = same_but_usedD [OF assms]
  have p: "group_pool g grp i (ps' ! i) = group_pool g grp i (ps ! i)" if "i < length ps" for i
    using s(2,4) [OF that] by (simp add: group_pool_def)
  have "group_pools ps' g grp = group_pools ps g grp" if "sg_last grp < length ps"
    unfolding group_pools_def using s(1) p that by (intro all_cong1 imp_cong refl) simp
  then show "group_shape ps' g grp = group_shape ps g grp" unfolding group_shape_def l by blast
  show "sizes_grow ps' = sizes_grow ps"
    unfolding sizes_grow_def l using s(1) by (intro all_cong1 imp_cong refl) simp
qed

section \<open>Recomputing the serving pools\<close>

lemma serving_index:
  assumes s: "group_shape ps g grp" and last: "bit (active_pool_mask grp) (sg_last grp - sg_first grp)"
    and i: "sg_first grp \<le> i" "i \<le> sg_last grp"
  obtains b where "ffs32 (active_pool_mask grp AND appropriate_pool_mask (ps ! i)) = Suc b" and "serves grp i (sg_first grp + b)"
proof -
  have S: "sg_last grp < sg_first grp + 32" "\<And>b. bit (active_pool_mask grp) b \<Longrightarrow> sg_first grp + b \<le> sg_last grp"
    "\<And>b. bit (appropriate_pool_mask (ps ! i)) b \<longleftrightarrow> i - sg_first grp \<le> b \<and> b < 32"
    using s i by (auto simp: group_shape_def group_pools_def group_pool_def)
  let ?w = "active_pool_mask grp AND appropriate_pool_mask (ps ! i)"
  have w: "bit ?w b \<longleftrightarrow> bit (active_pool_mask grp) b \<and> i - sg_first grp \<le> b" for b
    using S(3) bit_imp_le_length [of "active_pool_mask grp" b] by (auto simp: bit_and_iff)
  have "bit ?w (sg_last grp - sg_first grp)" unfolding w using last i by auto
  then have "?w \<noteq> 0" by auto
  then obtain b where b: "ffs32 ?w = Suc b" "bit ?w b" "\<And>j. j < b \<Longrightarrow> \<not> bit ?w j" by (rule ffs32_spec) (rule that)
  have "serves grp i (sg_first grp + b)"
    unfolding serves_def
  proof (intro conjI allI impI)
    show "i \<le> sg_first grp + b" using b(2) w i(1) by auto
    show "sg_first grp + b \<le> sg_last grp" using b(2) w S(2) by blast
    show "bit (active_pool_mask grp) (sg_first grp + b - sg_first grp)" using b(2) w by simp
    show "\<not> bit (active_pool_mask grp) (k - sg_first grp)" if "i \<le> k \<and> k < sg_first grp + b" for k
      using b(3) [of "k - sg_first grp"] that i(1) unfolding w by (cases "k - sg_first grp < b") (auto simp: diff_le_mono)
  qed
  then show thesis using b(1) by (rule that [rotated])
qed

lemma update_loop_spec:
  assumes "group_shape (small_mempool_cache a) g grp" and "bit (active_pool_mask grp) (sg_last grp - sg_first grp)"
    and "sizes_grow (small_mempool_cache a)" and "\<And>i. i \<in> set is \<Longrightarrow> sg_first grp \<le> i \<and> i \<le> sg_last grp"
  shows "\<exists>ps'. small_mempool_update_loop grp is a = Some (a\<lparr>small_mempool_cache := ps'\<rparr>) \<and> same_but_used (small_mempool_cache a) ps' \<and>
    (\<forall>i \<in> set is. \<exists>j. used_pool (ps' ! i) = Some j \<and> serves grp i j) \<and>
    (\<forall>i. i \<notin> set is \<longrightarrow> ps' ! i = small_mempool_cache a ! i)"
  using assms
proof (induction "is" arbitrary: a)
  case Nil
  show ?case by (intro exI [of _ "small_mempool_cache a"]) (simp add: same_but_used_refl)
next
  case (Cons i rest)
  let ?ps = "small_mempool_cache a"
  have i: "sg_first grp \<le> i" "i \<le> sg_last grp" and l: "sg_last grp < length ?ps"
    using Cons.prems(1) Cons.prems(4) [of i] by (auto simp: group_shape_def)
  obtain b where b: "ffs32 (active_pool_mask grp AND appropriate_pool_mask (?ps ! i)) = Suc b" "serves grp i (sg_first grp + b)"
    by (rule serving_index [OF Cons.prems(1,2) i])
  let ?j = "sg_first grp + b" and ?a = "set_pool i (used_pool_update (\<lambda>_. Some (sg_first grp + b))) a"
  have j: "i \<le> ?j" "?j < length ?ps" using b(2) l by (auto simp: serves_def)
  have sb: "same_but_used ?ps (small_mempool_cache ?a)" by (auto simp: same_but_used_def nth_set_pool)
  have "objsize (sm_pool (?ps ! i)) \<le> objsize (sm_pool (small_mempool_cache ?a ! ?j))"
    using Cons.prems(3) j same_but_usedD(1) [OF sb j(2)] by (simp add: sizes_grow_def)
  then have run: "small_mempool_update_loop grp (i # rest) a = small_mempool_update_loop grp rest ?a"
    using i l j b(1) by simp
  obtain ps' where r: "small_mempool_update_loop grp rest ?a = Some (?a\<lparr>small_mempool_cache := ps'\<rparr>)" "same_but_used (small_mempool_cache ?a) ps'"
    "\<forall>i \<in> set rest. \<exists>j. used_pool (ps' ! i) = Some j \<and> serves grp i j" "\<forall>i. i \<notin> set rest \<longrightarrow> ps' ! i = small_mempool_cache ?a ! i"
    using Cons.IH [of ?a] Cons.prems same_but_used_shape [OF sb] by auto
  have "?a\<lparr>small_mempool_cache := ps'\<rparr> = a\<lparr>small_mempool_cache := ps'\<rparr>" by (simp add: set_pool_def)
  moreover have "same_but_used ?ps ps'" by (rule same_but_used_trans [OF sb r(2)])
  moreover have "\<exists>j. used_pool (ps' ! k) = Some j \<and> serves grp k j" if "k \<in> set (i # rest)" for k
    using that r(3,4) b(2) i l by (cases "k \<in> set rest") (auto simp: nth_set_pool)
  moreover have "ps' ! k = ?ps ! k" if "k \<notin> set (i # rest)" for k
    using that r(4) by (simp add: set_pool_def)
  ultimately show ?case using r(1) run by (intro exI [of _ ps']) (simp add: set_pool_def)
qed

section \<open>All groups\<close>

text \<open>The first \<open>n\<close> pools are divided into groups.\<close>

definition groups_shape :: "nat \<Rightarrow> small_alloc \<Rightarrow> bool" where
  "groups_shape n a \<longleftrightarrow> sizes_grow (small_mempool_cache a) \<and> n \<le> length (small_mempool_cache a) \<and>
     (\<forall>g < length (small_mempool_groups a). group_shape (small_mempool_cache a) g (small_mempool_groups a ! g) \<and>
        sg_last (small_mempool_groups a ! g) < n) \<and>
     (\<forall>i < n. \<exists>g < length (small_mempool_groups a). sg_first (small_mempool_groups a ! g) \<le> i \<and> i \<le> sg_last (small_mempool_groups a ! g))"

definition groups_ok :: "nat \<Rightarrow> small_alloc \<Rightarrow> bool" where
  "groups_ok n a \<longleftrightarrow> groups_shape n a \<and> (\<forall>g < length (small_mempool_groups a). group_ok (small_mempool_cache a) g (small_mempool_groups a ! g))"

lemma groups_shapeD:
  assumes "groups_shape n a"
  shows "sizes_grow (small_mempool_cache a)" and "n \<le> length (small_mempool_cache a)"
    and "g < length (small_mempool_groups a) \<Longrightarrow> group_shape (small_mempool_cache a) g (small_mempool_groups a ! g)"
    and "g < length (small_mempool_groups a) \<Longrightarrow> sg_last (small_mempool_groups a ! g) < n"
  using assms by (auto simp: groups_shape_def)

lemma groups_okD:
  assumes "groups_ok n a"
  shows "groups_shape n a" and "n \<le> length (small_mempool_cache a)"
    and "g < length (small_mempool_groups a) \<Longrightarrow> group_ok (small_mempool_cache a) g (small_mempool_groups a ! g)"
  using assms by (auto simp: groups_ok_def groups_shape_def)

lemma group_of:
  assumes "groups_shape n a" and "i < n"
  obtains g where "g < length (small_mempool_groups a)" and "sg_first (small_mempool_groups a ! g) \<le> i" and "i \<le> sg_last (small_mempool_groups a ! g)"
    and "sm_group (small_mempool_cache a ! i) = Some g" and "pool_group a i = Some (g, small_mempool_groups a ! g)"
proof -
  obtain g where g: "g < length (small_mempool_groups a)" "sg_first (small_mempool_groups a ! g) \<le> i" "i \<le> sg_last (small_mempool_groups a ! g)"
    using assms by (auto simp: groups_shape_def)
  have "group_pool g (small_mempool_groups a ! g) i (small_mempool_cache a ! i)"
    using groups_shapeD(3) [OF assms(1) g(1)] g by (simp add: group_shape_def group_pools_def)
  then have "sm_group (small_mempool_cache a ! i) = Some g" by (simp add: group_pool_def)
  moreover have "i < length (small_mempool_cache a)" using assms by (simp add: groups_shape_def)
  ultimately show thesis using g by (intro that) (simp_all add: pool_group_def)
qed

lemma group_range:
  assumes "groups_shape n a" and "g < length (small_mempool_groups a)"
  shows "sg_first (small_mempool_groups a ! g) \<le> i \<and> i \<le> sg_last (small_mempool_groups a ! g) \<Longrightarrow> sm_group (small_mempool_cache a ! i) = Some g"
    and "sg_first (small_mempool_groups a ! g) \<le> i \<and> i \<le> sg_last (small_mempool_groups a ! g) \<Longrightarrow> i < n"
  using groups_shapeD(3,4) [OF assms] by (auto simp: group_shape_def group_pools_def group_pool_def)

text \<open>Pools of one group have slabs of one size.\<close>

lemma group_mates:
  assumes "groups_shape n a" and "i < n" and "j < n" and "sm_group (small_mempool_cache a ! i) = sm_group (small_mempool_cache a ! j)"
  shows "mp_order (sm_pool (small_mempool_cache a ! i)) = mp_order (sm_pool (small_mempool_cache a ! j))"
    and "slab_ptr_mask (sm_pool (small_mempool_cache a ! i)) = slab_ptr_mask (sm_pool (small_mempool_cache a ! j))"
proof -
  obtain g where g: "g < length (small_mempool_groups a)" "sg_first (small_mempool_groups a ! g) \<le> i" "i \<le> sg_last (small_mempool_groups a ! g)"
    "sm_group (small_mempool_cache a ! i) = Some g" by (rule group_of [OF assms(1,2)])
  obtain h where h: "h < length (small_mempool_groups a)" "sg_first (small_mempool_groups a ! h) \<le> j" "j \<le> sg_last (small_mempool_groups a ! h)"
    "sm_group (small_mempool_cache a ! j) = Some h" by (rule group_of [OF assms(1,3)])
  have "h = g" using g(4) h(4) assms(4) by simp
  have "group_shape (small_mempool_cache a) g (small_mempool_groups a ! g)" using groups_shapeD(3) [OF assms(1) g(1)] .
  then show "mp_order (sm_pool (small_mempool_cache a ! i)) = mp_order (sm_pool (small_mempool_cache a ! j))"
    "slab_ptr_mask (sm_pool (small_mempool_cache a ! i)) = slab_ptr_mask (sm_pool (small_mempool_cache a ! j))"
    using g(2,3) h(2,3) unfolding \<open>h = g\<close> group_shape_def group_pools_def by metis+
qed

text \<open>Setting the mask of active pools and recomputing the pools of the group.\<close>

lemma regroup:
  assumes ok: "groups_shape n a" and i: "i < n" and g: "pool_group a i = Some (g, grp)"
    and other: "\<And>k. k < length (small_mempool_groups a) \<Longrightarrow> k \<noteq> g \<Longrightarrow> group_ok (small_mempool_cache a) k (small_mempool_groups a ! k)"
    and f: "f grp = grp\<lparr>active_pool_mask := w\<rparr>" and w: "\<And>b. bit w b \<Longrightarrow> sg_first grp + b \<le> sg_last grp" "bit w (sg_last grp - sg_first grp)"
  obtains ps' where "small_mempool_update_group (set_group g f a) i = Some ((set_group g f a)\<lparr>small_mempool_cache := ps'\<rparr>)"
    and "same_but_used (small_mempool_cache a) ps'" and "groups_ok n ((set_group g f a)\<lparr>small_mempool_cache := ps'\<rparr>)"
proof -
  let ?ps = "small_mempool_cache a" and ?gs = "small_mempool_groups a" and ?a = "set_group g f a"
  obtain g' where g': "g' < length ?gs" "sg_first (?gs ! g') \<le> i" "i \<le> sg_last (?gs ! g')" "sm_group (?ps ! i) = Some g'"
    "pool_group a i = Some (g', ?gs ! g')" by (rule group_of [OF ok i])
  then have e: "g' = g" "grp = ?gs ! g" using g by simp_all
  note G = g' [unfolded e(1), folded e(2)]
  let ?grp = "grp\<lparr>active_pool_mask := w\<rparr>"
  have gk: "small_mempool_groups ?a ! k = (if k = g then ?grp else ?gs ! k)" if "k < length ?gs" for k
    using that f e(2) by (simp add: nth_set_group)
  have pg: "pool_group ?a i = Some (g, ?grp)" using G(1,4) i groups_shapeD(2) [OF ok] gk [OF G(1)] by (simp add: pool_group_def)
  have shape: "group_shape ?ps g ?grp"
    using groups_shapeD(3) [OF ok G(1)] w(1) unfolding e(2) group_shape_def by simp
  define js where "js = [sg_first grp ..< sg_last grp + 1]"
  have js: "i \<in> set js \<longleftrightarrow> sg_first grp \<le> i \<and> i \<le> sg_last grp" for i by (auto simp: js_def)
  have "\<exists>ps'. small_mempool_update_loop ?grp js ?a = Some (?a\<lparr>small_mempool_cache := ps'\<rparr>) \<and> same_but_used (small_mempool_cache ?a) ps' \<and>
    (\<forall>i \<in> set js. \<exists>j. used_pool (ps' ! i) = Some j \<and> serves ?grp i j) \<and> (\<forall>i. i \<notin> set js \<longrightarrow> ps' ! i = small_mempool_cache ?a ! i)"
    by (rule update_loop_spec [of ?a g]) (use shape w(2) groups_shapeD(1) [OF ok] js in simp_all)
  then obtain ps' where p: "small_mempool_update_loop ?grp js ?a = Some (?a\<lparr>small_mempool_cache := ps'\<rparr>)" "same_but_used ?ps ps'"
    "\<And>i. sg_first grp \<le> i \<and> i \<le> sg_last grp \<Longrightarrow> \<exists>j. used_pool (ps' ! i) = Some j \<and> serves ?grp i j"
    "\<And>i. \<not> (sg_first grp \<le> i \<and> i \<le> sg_last grp) \<Longrightarrow> ps' ! i = ?ps ! i"
    unfolding js Ball_def set_group_simps by blast
  have run: "small_mempool_update_group ?a i = Some (?a\<lparr>small_mempool_cache := ps'\<rparr>)"
    unfolding small_mempool_update_group_def pg using p(1) by (simp add: js_def del: upt_Suc)
  have grp: "group_ok ps' k (small_mempool_groups ?a ! k)" if k: "k < length ?gs" for k
  proof (cases "k = g")
    case True
    have "group_ok ps' g ?grp" unfolding group_ok_def using same_but_used_shape(1) [OF p(2)] shape w(2) p(3) by simp
    then show ?thesis using True gk [OF k] by simp
  next
    case False
    have o: "group_ok ?ps k (?gs ! k)" by (rule other [OF k False])
    have "ps' ! j = ?ps ! j" if j: "sg_first (?gs ! k) \<le> j \<and> j \<le> sg_last (?gs ! k)" for j
    proof -
      have "sm_group (?ps ! j) = Some k" by (rule group_range(1) [OF ok k j])
      then have "\<not> (sg_first grp \<le> j \<and> j \<le> sg_last grp)" using group_range(1) [OF ok G(1), of j] False e(2) by auto
      then show ?thesis by (rule p(4))
    qed
    then show ?thesis using o same_but_used_shape(1) [OF p(2)] gk [OF k] False unfolding group_ok_def by simp
  qed
  have "sg_first (small_mempool_groups ?a ! k) = sg_first (?gs ! k)" "sg_last (small_mempool_groups ?a ! k) = sg_last (?gs ! k)"
    if "k < length ?gs" for k using gk [OF that] e(2) by simp_all
  then have "groups_ok n (?a\<lparr>small_mempool_cache := ps'\<rparr>)"
    using ok grp p(2) same_but_used_shape(2) [OF p(2)] unfolding groups_ok_def groups_shape_def by (simp add: same_but_used_def group_ok_def cong: conj_cong)
  then show thesis using run p(2) by (intro that)
qed

text \<open>What activation and deactivation leave as it was.\<close>

definition same_pools :: "small_alloc \<Rightarrow> small_alloc \<Rightarrow> bool" where
  "same_pools a a' \<longleftrightarrow> same_but_used (small_mempool_cache a) (small_mempool_cache a') \<and> sm_class a' = sm_class a \<and>
     sm_objsize_max a' = sm_objsize_max a \<and> length (small_mempool_groups a') = length (small_mempool_groups a) \<and>
     (\<forall>g < length (small_mempool_groups a). small_mempool_groups a' ! g =
        (small_mempool_groups a ! g)\<lparr>active_pool_mask := active_pool_mask (small_mempool_groups a' ! g)\<rparr>)"

definition is_active :: "small_alloc \<Rightarrow> nat \<Rightarrow> bool" where
  "is_active a i = (case pool_group a i of None \<Rightarrow> False | Some (g, grp) \<Rightarrow> bit (active_pool_mask grp) (i - sg_first grp))"

lemma same_pools_regroup:
  assumes "same_but_used (small_mempool_cache a) ps'" and "f (small_mempool_groups a ! g) = (small_mempool_groups a ! g)\<lparr>active_pool_mask := w\<rparr>"
  shows "same_pools a ((set_group g f a)\<lparr>small_mempool_cache := ps'\<rparr>)"
  using assms by (auto simp: same_pools_def nth_set_group)

lemma is_active_regroup:
  assumes ok: "groups_shape n a" and j: "j < n" and sb: "same_but_used (small_mempool_cache a) ps'"
    and f: "f (small_mempool_groups a ! g) = (small_mempool_groups a ! g)\<lparr>active_pool_mask := w\<rparr>"
  shows "is_active ((set_group g f a)\<lparr>small_mempool_cache := ps'\<rparr>) j \<longleftrightarrow>
    (if sm_group (small_mempool_cache a ! j) = Some g then bit w (j - sg_first (small_mempool_groups a ! g)) else is_active a j)"
proof -
  obtain h where h: "h < length (small_mempool_groups a)" "sm_group (small_mempool_cache a ! j) = Some h"
    "pool_group a j = Some (h, small_mempool_groups a ! h)" by (rule group_of [OF ok j])
  have l: "j < length (small_mempool_cache a)" "length ps' = length (small_mempool_cache a)"
    using j groups_shapeD(2) [OF ok] sb by (simp_all add: same_but_used_def)
  have "pool_group ((set_group g f a)\<lparr>small_mempool_cache := ps'\<rparr>) j = Some (h, small_mempool_groups (set_group g f a) ! h)"
    using l h(1,2) same_but_usedD(2) [OF sb l(1)] by (simp add: pool_group_def)
  then show ?thesis using h f by (simp add: is_active_def nth_set_group)
qed

lemma activate_first:
  assumes ok: "groups_shape n a" and i: "i < n" and na: "\<not> is_active a i" and at: "pool_group a i = Some (g, grp)"
    and other: "\<And>k. k < length (small_mempool_groups a) \<Longrightarrow> k \<noteq> g \<Longrightarrow> group_ok (small_mempool_cache a) k (small_mempool_groups a ! k)"
    and last: "i = sg_last grp \<or> group_ok (small_mempool_cache a) g grp"
  obtains a' where "small_mempool_activate a i = Some a'" and "groups_ok n a'" and "same_pools a a'"
    and "\<And>j. j < n \<Longrightarrow> is_active a' j \<longleftrightarrow> is_active a j \<or> j = i"
proof -
  let ?ps = "small_mempool_cache a" and ?gs = "small_mempool_groups a"
  obtain g' where g': "g' < length ?gs" "sg_first (?gs ! g') \<le> i" "i \<le> sg_last (?gs ! g')" "sm_group (?ps ! i) = Some g'"
    "pool_group a i = Some (g', ?gs ! g')" by (rule group_of [OF ok i])
  have e: "g' = g" "grp = ?gs ! g" using at g'(5) by auto
  note g = g' [unfolded e(1)]
  let ?grp = "?gs ! g" and ?f = "\<lambda>grp. grp\<lparr>active_pool_mask := active_pool_mask grp OR push_bit (i - sg_first (?gs ! g)) 1\<rparr>"
  have G: "sg_last ?grp < sg_first ?grp + 32" "\<And>b. bit (active_pool_mask ?grp) b \<Longrightarrow> sg_first ?grp + b \<le> sg_last ?grp"
    "i = sg_last ?grp \<or> bit (active_pool_mask ?grp) (sg_last ?grp - sg_first ?grp)"
    using groups_shapeD(3) [OF ok g(1)] last unfolding e(2) by (auto simp: group_ok_def group_shape_def)
  have lt: "i - sg_first ?grp < 32" using G(1) g(2,3) by simp
  note bits = or_one_bit [OF lt, of "active_pool_mask ?grp"]
  obtain ps' where p: "small_mempool_update_group (set_group g ?f a) i = Some ((set_group g ?f a)\<lparr>small_mempool_cache := ps'\<rparr>)"
    "same_but_used ?ps ps'" "groups_ok n ((set_group g ?f a)\<lparr>small_mempool_cache := ps'\<rparr>)"
  proof (rule regroup [OF ok i g(5) other, of ?f])
    show "?f ?grp = ?grp\<lparr>active_pool_mask := active_pool_mask ?grp OR push_bit (i - sg_first ?grp) 1\<rparr>" by simp
    show "sg_first ?grp + b \<le> sg_last ?grp" if "bit (active_pool_mask ?grp OR push_bit (i - sg_first ?grp) 1) b" for b
      using that G(2) g(2,3) unfolding bits by auto
    show "bit (active_pool_mask ?grp OR push_bit (i - sg_first ?grp) 1) (sg_last ?grp - sg_first ?grp)" unfolding bits using G(3) by blast
  qed (assumption, assumption, rule that)
  let ?a' = "(set_group g ?f a)\<lparr>small_mempool_cache := ps'\<rparr>"
  have "active_pool_mask ?grp AND push_bit (i - sg_first ?grp) 1 = 0" unfolding and_one_bit [OF lt] using na g(5) by (simp add: is_active_def)
  then have "small_mempool_activate a i = Some ?a'"
    using p(1) g(5) unfolding small_mempool_activate_def small_mempool_get_group_index_def by simp
  moreover have "same_pools a ?a'" by (rule same_pools_regroup [OF p(2)]) simp
  moreover have "is_active ?a' j \<longleftrightarrow> is_active a j \<or> j = i" if j: "j < n" for j
  proof -
    obtain h where h: "h < length ?gs" "sg_first (?gs ! h) \<le> j" "sm_group (?ps ! j) = Some h" "pool_group a j = Some (h, ?gs ! h)"
      by (rule group_of [OF ok j])
    have "is_active ?a' j \<longleftrightarrow> (if h = g then bit (active_pool_mask ?grp OR push_bit (i - sg_first ?grp) 1) (j - sg_first ?grp) else is_active a j)"
      using is_active_regroup [OF ok j p(2), of ?f g] h(3) by simp
    also have "\<dots> \<longleftrightarrow> is_active a j \<or> j = i" unfolding bits using h g(2,4) by (auto simp: is_active_def)
    finally show ?thesis .
  qed
  ultimately show thesis using p(3) by (intro that [of ?a'])
qed

lemma activate_spec:
  assumes ok: "groups_ok n a" and i: "i < n" and na: "\<not> is_active a i"
  obtains a' where "small_mempool_activate a i = Some a'" and "groups_ok n a'" and "same_pools a a'"
    and "\<And>j. j < n \<Longrightarrow> is_active a' j \<longleftrightarrow> is_active a j \<or> j = i"
proof -
  obtain g where g: "g < length (small_mempool_groups a)" "pool_group a i = Some (g, small_mempool_groups a ! g)"
    by (rule group_of [OF groups_okD(1) [OF ok] i])
  show thesis
    by (rule activate_first [OF groups_okD(1) [OF ok] i na g(2)]) (use groups_okD(3) [OF ok] g(1) that in simp_all)
qed

lemma deactivate_spec:
  assumes ok: "groups_ok n a" and i: "i < n" and na: "is_active a i" and l: "pool_group a i = Some (g, grp)" "i \<noteq> sg_last grp"
  obtains a' where "small_mempool_deactivate a i = Some a'" and "groups_ok n a'" and "same_pools a a'"
    and "\<And>j. j < n \<Longrightarrow> is_active a' j \<longleftrightarrow> is_active a j \<and> j \<noteq> i"
proof -
  let ?ps = "small_mempool_cache a" and ?gs = "small_mempool_groups a"
  obtain g' where g': "g' < length ?gs" "sg_first (?gs ! g') \<le> i" "i \<le> sg_last (?gs ! g')" "sm_group (?ps ! i) = Some g'"
    "pool_group a i = Some (g', ?gs ! g')" by (rule group_of [OF groups_okD(1) [OF ok] i])
  have e: "g' = g" "grp = ?gs ! g" using l(1) g'(5) by auto
  note g = g' [unfolded e(1), folded e(2)]
  let ?f = "\<lambda>r. r\<lparr>active_pool_mask := active_pool_mask r AND NOT (push_bit (i - sg_first grp) 1)\<rparr>"
  have G: "sg_last grp < sg_first grp + 32" "\<And>b. bit (active_pool_mask grp) b \<Longrightarrow> sg_first grp + b \<le> sg_last grp"
    "bit (active_pool_mask grp) (sg_last grp - sg_first grp)"
    using groups_okD(3) [OF ok g(1)] unfolding e(2) by (auto simp: group_ok_def group_shape_def)
  have lt: "i - sg_first grp < 32" using G(1) g(2,3) by simp
  note bits = clear_one_bit [of "active_pool_mask grp" "i - sg_first grp"]
  obtain ps' where p: "small_mempool_update_group (set_group g ?f a) i = Some ((set_group g ?f a)\<lparr>small_mempool_cache := ps'\<rparr>)"
    "same_but_used ?ps ps'" "groups_ok n ((set_group g ?f a)\<lparr>small_mempool_cache := ps'\<rparr>)"
  proof (rule regroup [OF groups_okD(1) [OF ok] i g(5) groups_okD(3) [OF ok], of ?f])
    show "?f grp = grp\<lparr>active_pool_mask := active_pool_mask grp AND NOT (push_bit (i - sg_first grp) 1)\<rparr>" by simp
    show "sg_first grp + b \<le> sg_last grp" if "bit (active_pool_mask grp AND NOT (push_bit (i - sg_first grp) 1)) b" for b
      using that G(2) unfolding bits by auto
    show "bit (active_pool_mask grp AND NOT (push_bit (i - sg_first grp) 1)) (sg_last grp - sg_first grp)"
      unfolding bits using G(3) l(2) g(2,3) by auto
  qed (assumption, rule that)
  let ?a' = "(set_group g ?f a)\<lparr>small_mempool_cache := ps'\<rparr>"
  have "active_pool_mask grp AND push_bit (i - sg_first grp) 1 \<noteq> 0" using and_one_bit [OF lt, of "active_pool_mask grp"] na g(5) by (simp add: is_active_def)
  then have "small_mempool_deactivate a i = Some ?a'"
    using p(1) g(5) unfolding small_mempool_deactivate_def small_mempool_get_group_index_def by simp
  moreover have "same_pools a ?a'" by (rule same_pools_regroup [OF p(2)]) simp
  moreover have "is_active ?a' j \<longleftrightarrow> is_active a j \<and> j \<noteq> i" if j: "j < n" for j
  proof -
    obtain h where h: "h < length ?gs" "sg_first (?gs ! h) \<le> j" "sm_group (?ps ! j) = Some h" "pool_group a j = Some (h, ?gs ! h)"
      by (rule group_of [OF groups_okD(1) [OF ok] j])
    have "is_active ?a' j \<longleftrightarrow> (if h = g then bit (active_pool_mask grp AND NOT (push_bit (i - sg_first grp) 1)) (j - sg_first grp) else is_active a j)"
      using is_active_regroup [OF groups_okD(1) [OF ok] j p(2), of ?f g] h(3) e(2) by simp
    also have "\<dots> \<longleftrightarrow> is_active a j \<and> j \<noteq> i" unfolding bits using h g(2,4) e(2) by (auto simp: is_active_def)
    finally show ?thesis .
  qed
  ultimately show thesis using p(3) by (intro that [of ?a'])
qed

section \<open>Making the groups\<close>

definition same_core :: "small_mempool \<Rightarrow> small_mempool \<Rightarrow> bool" where
  "same_core sm sm' \<longleftrightarrow> sm_pool sm' = sm_pool sm \<and> waste sm' = waste sm \<and> objsize_min sm' = objsize_min sm"

lemma set_mask_spec:
  assumes i: "i < length (small_mempool_cache a)" and z: "appropriate_pool_mask (small_mempool_cache a ! i) = 0"
    and g: "sm_group (small_mempool_cache a ! i) = Some g" "g < length (small_mempool_groups a)"
  defines "grp \<equiv> small_mempool_groups a ! g"
  obtains w where "small_mempool_set_mask a i = Some (set_pool i (\<lambda>sm. sm\<lparr>appropriate_pool_mask := w\<rparr>) a)"
    and "\<forall>b. bit w b \<longleftrightarrow> i - sg_first grp \<le> b \<and> b < 32"
proof -
  let ?w = "set_mask_loop [i - sg_first grp ..< POOL_PER_GROUP_MAX] 0"
  have pg: "pool_group a i = Some (g, grp)" using i g by (simp add: pool_group_def grp_def)
  have "bit ?w b \<longleftrightarrow> i - sg_first grp \<le> b \<and> b < 32" for b
    using set_mask_loop_bits [of "[i - sg_first grp ..< POOL_PER_GROUP_MAX]" 0 b] by (auto simp: POOL_PER_GROUP_MAX_def)
  moreover have "small_mempool_set_mask a i = Some (set_pool i (\<lambda>sm. sm\<lparr>appropriate_pool_mask := ?w\<rparr>) a)"
    using i z pg by (simp add: small_mempool_set_mask_def set_pool_def)
  ultimately show thesis by (intro that [of ?w]) simp_all
qed

lemma join_group_loop_spec:
  assumes "g < length (small_mempool_groups a)" and "small_mempool_groups a ! g = grp" and "distinct js"
    and "\<And>i. i \<in> set js \<Longrightarrow> i < length (small_mempool_cache a) \<and> appropriate_pool_mask (small_mempool_cache a ! i) = 0"
  shows "\<exists>ps'. join_group_loop g js a = Some (a\<lparr>small_mempool_cache := ps'\<rparr>) \<and> length ps' = length (small_mempool_cache a) \<and>
    (\<forall>i \<in> set js. group_pool g grp i (ps' ! i) \<and> same_core (small_mempool_cache a ! i) (ps' ! i)) \<and>
    (\<forall>i. i \<notin> set js \<longrightarrow> ps' ! i = small_mempool_cache a ! i)"
  using assms
proof (induction js arbitrary: a)
  case Nil
  show ?case by (intro exI [of _ "small_mempool_cache a"]) simp
next
  case (Cons i js)
  let ?a1 = "set_pool i (sm_group_update (\<lambda>_. Some g)) a"
  have i: "i < length (small_mempool_cache a)" "appropriate_pool_mask (small_mempool_cache a ! i) = 0" using Cons.prems(4) [of i] by simp_all
  obtain w where w: "small_mempool_set_mask ?a1 i = Some (set_pool i (\<lambda>sm. sm\<lparr>appropriate_pool_mask := w\<rparr>) ?a1)"
    "\<forall>b. bit w b \<longleftrightarrow> i - sg_first (small_mempool_groups ?a1 ! g) \<le> b \<and> b < 32"
    by (rule set_mask_spec [of i ?a1 g]) (use i Cons.prems(1) that in \<open>simp_all add: nth_set_pool\<close>)
  let ?a = "set_pool i (\<lambda>sm. sm\<lparr>appropriate_pool_mask := w\<rparr>) ?a1"
  have run: "join_group_loop g (i # js) a = join_group_loop g js ?a" using i w(1) by simp
  have ge: "small_mempool_groups ?a ! g = grp" using Cons.prems(2) by simp
  have "i' < length (small_mempool_cache ?a) \<and> appropriate_pool_mask (small_mempool_cache ?a ! i') = 0" if "i' \<in> set js" for i'
    using that Cons.prems(3) Cons.prems(4) [of i'] by (auto simp: nth_set_pool)
  from Cons.IH [OF _ ge _ this] Cons.prems(1,3) obtain ps' where p: "join_group_loop g js ?a = Some (?a\<lparr>small_mempool_cache := ps'\<rparr>)"
    "length ps' = length (small_mempool_cache ?a)" "\<forall>k \<in> set js. group_pool g grp k (ps' ! k) \<and> same_core (small_mempool_cache ?a ! k) (ps' ! k)"
    "\<forall>k. k \<notin> set js \<longrightarrow> ps' ! k = small_mempool_cache ?a ! k" by auto
  have ai: "small_mempool_cache ?a ! i = (small_mempool_cache a ! i)\<lparr>sm_group := Some g, appropriate_pool_mask := w\<rparr>"
    using i by (simp add: nth_set_pool)
  have ao: "small_mempool_cache ?a ! k = small_mempool_cache a ! k" if "k \<noteq> i" for k using that by (simp add: set_pool_def)
  have "group_pool g grp i (ps' ! i) \<and> same_core (small_mempool_cache a ! i) (ps' ! i)"
    using p(4) Cons.prems(2,3) w(2) ai by (simp add: group_pool_def same_core_def)
  moreover have "group_pool g grp k (ps' ! k) \<and> same_core (small_mempool_cache a ! k) (ps' ! k)" if "k \<in> set js" for k
    using p(3) that ao [of k] Cons.prems(3) by (cases "k = i") auto
  moreover have "ps' ! k = small_mempool_cache a ! k" if "k \<notin> set (i # js)" for k using p(4) that ao [of k] by simp
  ultimately show ?case using run p(1,2) by (intro exI [of _ ps']) (auto simp: set_pool_def)
qed

lemma pools_of_core:
  assumes "length ps' = length ps" and "\<And>i. i < length ps \<Longrightarrow> same_core (ps ! i) (ps' ! i)"
  shows "sizes_grow ps' = sizes_grow ps"
  unfolding sizes_grow_def assms(1) using assms(2) by (intro all_cong1 imp_cong refl) (simp add: same_core_def)

text \<open>One more group, of the pools \<open>n\<close> to \<open>last\<close>, which have slabs of one size.\<close>

definition new_group :: "small_alloc \<Rightarrow> nat \<Rightarrow> nat \<Rightarrow> bool" where
  "new_group a n last_pool \<longleftrightarrow> n \<le> last_pool \<and> last_pool < length (small_mempool_cache a) \<and>
     (\<forall>i. n \<le> i \<and> i \<le> last_pool \<longrightarrow> appropriate_pool_mask (small_mempool_cache a ! i) = 0 \<and>
        mp_order (sm_pool (small_mempool_cache a ! i)) = mp_order (sm_pool (small_mempool_cache a ! last_pool)) \<and>
        slab_ptr_mask (sm_pool (small_mempool_cache a ! i)) = slab_ptr_mask (sm_pool (small_mempool_cache a ! last_pool)))"

text \<open>What making groups does to the allocator: pools and groups so far stay as they are.\<close>

definition groups_added :: "nat \<Rightarrow> nat \<Rightarrow> small_alloc \<Rightarrow> small_alloc \<Rightarrow> bool" where
  "groups_added n n' a a' \<longleftrightarrow> length (small_mempool_cache a') = length (small_mempool_cache a) \<and> sm_class a' = sm_class a \<and>
     sm_objsize_max a' = sm_objsize_max a \<and>
     (\<forall>i < length (small_mempool_cache a). same_core (small_mempool_cache a ! i) (small_mempool_cache a' ! i)) \<and>
     (\<forall>i < length (small_mempool_cache a). n' \<le> i \<longrightarrow>
        appropriate_pool_mask (small_mempool_cache a' ! i) = appropriate_pool_mask (small_mempool_cache a ! i)) \<and>
     length (small_mempool_groups a') \<le> length (small_mempool_groups a) + (n' - n)"

lemma create_group_spec:
  assumes ok: "groups_ok n a" and new: "new_group a n last_pool" and l: "last_pool < n + 32" "length (small_mempool_groups a) < SMALL_MEMPOOL_MAX"
    and so: "slab_order_size c (mp_order (sm_pool (small_mempool_cache a ! last_pool))) = Some sz"
  obtains a' where "small_mempool_create_group c a n last_pool = Some a'" and "groups_ok (Suc last_pool) a'" and "groups_added n (Suc last_pool) a a'"
    and "\<And>g. g < length (small_mempool_groups a) \<Longrightarrow> waste_max (small_mempool_groups a' ! g) = waste_max (small_mempool_groups a ! g)"
    and "length (small_mempool_groups a') = Suc (length (small_mempool_groups a))"
    and "waste_max (small_mempool_groups a' ! length (small_mempool_groups a)) = sz div 4"
proof -
  let ?ps = "small_mempool_cache a" and ?gs = "small_mempool_groups a"
  let ?g = "length ?gs" and ?grp = "\<lparr>sg_first = n, sg_last = last_pool, active_pool_mask = 0, waste_max = sz div 4\<rparr>"
  let ?a1 = "a\<lparr>small_mempool_groups := ?gs @ [?grp]\<rparr>" and ?js = "[n ..< last_pool + 1]"
  have N: "n \<le> last_pool" "last_pool < length ?ps"
    "\<And>i. n \<le> i \<and> i \<le> last_pool \<Longrightarrow> appropriate_pool_mask (?ps ! i) = 0"
    using new by (simp_all add: new_group_def)
  have "\<exists>ps'. join_group_loop ?g ?js ?a1 = Some (?a1\<lparr>small_mempool_cache := ps'\<rparr>) \<and> length ps' = length (small_mempool_cache ?a1) \<and>
    (\<forall>i \<in> set ?js. group_pool ?g ?grp i (ps' ! i) \<and> same_core (small_mempool_cache ?a1 ! i) (ps' ! i)) \<and>
    (\<forall>i. i \<notin> set ?js \<longrightarrow> ps' ! i = small_mempool_cache ?a1 ! i)"
    by (rule join_group_loop_spec) (use N in \<open>simp_all del: upt_Suc\<close>)
  then obtain ps1 where q: "join_group_loop ?g ?js ?a1 = Some (?a1\<lparr>small_mempool_cache := ps1\<rparr>)" "length ps1 = length (small_mempool_cache ?a1)"
    "\<forall>i \<in> set ?js. group_pool ?g ?grp i (ps1 ! i) \<and> same_core (small_mempool_cache ?a1 ! i) (ps1 ! i)"
    "\<forall>i. i \<notin> set ?js \<longrightarrow> ps1 ! i = small_mempool_cache ?a1 ! i" by blast
  have p: "join_group_loop ?g ?js ?a1 = Some (?a1\<lparr>small_mempool_cache := ps1\<rparr>)" "length ps1 = length ?ps"
    "\<And>i. n \<le> i \<and> i \<le> last_pool \<Longrightarrow> group_pool ?g ?grp i (ps1 ! i) \<and> same_core (?ps ! i) (ps1 ! i)"
    "\<And>i. \<not> (n \<le> i \<and> i \<le> last_pool) \<Longrightarrow> ps1 ! i = ?ps ! i"
    using q by (simp_all add: less_Suc_eq_le del: upt_Suc)
  let ?a2 = "?a1\<lparr>small_mempool_cache := ps1\<rparr>"
  have core: "same_core (?ps ! i) (ps1 ! i)" for i using p(3,4) [of i] by (cases "n \<le> i \<and> i \<le> last_pool") (auto simp: same_core_def)
  have pool: "sm_pool (ps1 ! i) = sm_pool (?ps ! i)" for i using core [of i] by (simp add: same_core_def)
  have "group_pools ps1 ?g ?grp"
    unfolding group_pools_def pool
  proof (intro allI impI)
    fix i assume "sg_first ?grp \<le> i \<and> i \<le> sg_last ?grp"
    then have i: "n \<le> i \<and> i \<le> last_pool" by simp
    then have "mp_order (sm_pool (?ps ! i)) = mp_order (sm_pool (?ps ! last_pool))"
      "slab_ptr_mask (sm_pool (?ps ! i)) = slab_ptr_mask (sm_pool (?ps ! last_pool))" using new unfolding new_group_def by blast+
    then show "group_pool ?g ?grp i (ps1 ! i) \<and> mp_order (sm_pool (?ps ! i)) = mp_order (sm_pool (?ps ! sg_last ?grp)) \<and>
      slab_ptr_mask (sm_pool (?ps ! i)) = slab_ptr_mask (sm_pool (?ps ! sg_last ?grp))" using p(3) [OF i] by simp
  qed
  then have shape: "group_shape ps1 ?g ?grp" using N l p(2) by (simp add: group_shape_def)
  have old: "group_ok ps1 k (?gs ! k)" if k: "k < ?g" for k
  proof -
    have o: "group_ok ?ps k (?gs ! k)" by (rule groups_okD(3) [OF ok k])
    have lt: "sg_last (?gs ! k) < n" by (rule groups_shapeD(4) [OF groups_okD(1) [OF ok] k])
    have e: "ps1 ! i = ?ps ! i" if "i \<le> sg_last (?gs ! k)" for i using p(4) [of i] that lt by simp
    have "group_pools ps1 k (?gs ! k) = group_pools ?ps k (?gs ! k)" unfolding group_pools_def using e by simp
    then show ?thesis using o e p(2) unfolding group_ok_def group_shape_def by simp
  qed
  have gs2: "small_mempool_groups ?a2 ! k = (if k < ?g then ?gs ! k else ?grp)" if "k < Suc ?g" for k
    using that by (simp add: nth_append)
  have sh: "groups_shape (Suc last_pool) ?a2"
    unfolding groups_shape_def
  proof (intro conjI allI impI)
    show "sizes_grow (small_mempool_cache ?a2)"
      using pools_of_core [OF p(2) core] groups_shapeD(1) [OF groups_okD(1) [OF ok]] by simp
    show "Suc last_pool \<le> length (small_mempool_cache ?a2)" using N(2) p(2) by simp
    fix g assume g: "g < length (small_mempool_groups ?a2)"
    show "group_shape (small_mempool_cache ?a2) g (small_mempool_groups ?a2 ! g)"
      using g gs2 [of g] old [of g] shape by (cases "g < ?g") (auto simp: group_ok_def less_Suc_eq)
    show "sg_last (small_mempool_groups ?a2 ! g) < Suc last_pool"
      using g gs2 [of g] groups_shapeD(4) [OF groups_okD(1) [OF ok], of g] N(1) by (cases "g < ?g") auto
  next
    fix i assume i: "i < Suc last_pool"
    show "\<exists>g < length (small_mempool_groups ?a2). sg_first (small_mempool_groups ?a2 ! g) \<le> i \<and> i \<le> sg_last (small_mempool_groups ?a2 ! g)"
    proof (cases "i < n")
      case True
      obtain g where "g < ?g" "sg_first (?gs ! g) \<le> i" "i \<le> sg_last (?gs ! g)" by (rule group_of [OF groups_okD(1) [OF ok] True])
      then show ?thesis using gs2 [of g] by (intro exI [of _ g]) simp
    next
      case False
      then show ?thesis using i gs2 [of ?g] by (intro exI [of _ ?g]) simp
    qed
  qed
  have pg: "pool_group ?a2 last_pool = Some (?g, ?grp)"
    using p(3) [of last_pool] p(2) N(1,2) by (simp add: pool_group_def group_pool_def)
  obtain a' where a': "small_mempool_activate ?a2 last_pool = Some a'" "groups_ok (Suc last_pool) a'" "same_pools ?a2 a'"
    by (rule activate_first [OF sh lessI _ pg]) (use old gs2 that pg in \<open>auto simp: is_active_def less_Suc_eq\<close>)
  have run: "small_mempool_create_group c a n last_pool = Some a'"
    unfolding small_mempool_create_group_def using N(2) l(2) so p(1) a'(1) by (simp del: upt_Suc)
  have sb: "same_but_used ps1 (small_mempool_cache a')" "length (small_mempool_groups a') = Suc ?g" "sm_class a' = sm_class a"
    "sm_objsize_max a' = sm_objsize_max a"
    using a'(3) by (simp_all add: same_pools_def)
  have "same_core (?ps ! i) (small_mempool_cache a' ! i)" if "i < length ?ps" for i
    using same_but_usedD [OF sb(1), of i] core [of i] p(2) that by (simp add: same_core_def)
  moreover have "appropriate_pool_mask (small_mempool_cache a' ! i) = appropriate_pool_mask (?ps ! i)" if "i < length ?ps" "Suc last_pool \<le> i" for i
    using same_but_usedD(4) [OF sb(1), of i] p(2) p(4) [of i] that by simp
  ultimately have "groups_added n (Suc last_pool) a a'"
    using sb N(1) p(2) by (simp add: groups_added_def same_but_used_def)
  moreover have wm: "waste_max (small_mempool_groups a' ! k) = waste_max (small_mempool_groups ?a2 ! k)" if "k < Suc ?g" for k
  proof -
    have "small_mempool_groups a' ! k = (small_mempool_groups ?a2 ! k)\<lparr>active_pool_mask := active_pool_mask (small_mempool_groups a' ! k)\<rparr>"
      using a'(3) that by (simp add: same_pools_def)
    then show ?thesis by (metis small_mempool_group.select_convs(4) small_mempool_group.surjective small_mempool_group.update_convs(3))
  qed
  ultimately show thesis using run a'(2) sb(2) wm gs2 by (intro that [of a']) simp_all
qed

lemma group_last_loop_eq:
  "last_in_group \<le> last_pool \<Longrightarrow> pool_count \<le> 31 \<Longrightarrow>
   group_last_loop last_pool last_in_group pool_count = min last_pool (last_in_group + (31 - pool_count))"
proof (induction last_pool last_in_group pool_count rule: group_last_loop.induct)
  case (1 last_pool last_in_group pool_count)
  show ?case
  proof (cases "last_in_group < last_pool \<and> pool_count < POOL_PER_GROUP_MAX - 1")
    case True
    then show ?thesis using "1.IH" by (subst group_last_loop.simps) (auto simp: POOL_PER_GROUP_MAX_def min_def)
  next
    case False
    then show ?thesis using "1.prems" by (subst group_last_loop.simps) (auto simp: POOL_PER_GROUP_MAX_def)
  qed
qed

lemma group_last_pool_bounds:
  assumes "first \<le> last_pool"
  defines "l \<equiv> small_mempool_group_last_pool first last_pool"
  shows "first \<le> l" and "l \<le> last_pool" and "l < first + 32"
  using group_last_loop_eq [of first last_pool 0] assms(1) by (auto simp: l_def small_mempool_group_last_pool_def)

definition waste_limits :: "small_alloc \<Rightarrow> bool" where
  "waste_limits a \<longleftrightarrow> (\<forall>g < length (small_mempool_groups a). 0 < waste_max (small_mempool_groups a ! g) \<and> waste_max (small_mempool_groups a ! g) < 2 ^ 32)"

lemma groups_added_trans:
  assumes "groups_added n k a b" and "groups_added k l b c" and "n \<le> k" and "k \<le> l"
  shows "groups_added n l a c"
proof -
  have "same_core (small_mempool_cache a ! i) (small_mempool_cache c ! i)" if "i < length (small_mempool_cache a)" for i
    using assms(1,2) that by (simp add: groups_added_def same_core_def)
  moreover have "appropriate_pool_mask (small_mempool_cache c ! i) = appropriate_pool_mask (small_mempool_cache a ! i)"
    if "i < length (small_mempool_cache a)" "l \<le> i" for i
    using assms that by (simp add: groups_added_def)
  moreover have "length (small_mempool_groups c) \<le> length (small_mempool_groups a) + (l - n)"
    using assms unfolding groups_added_def by linarith
  ultimately show ?thesis using assms(1,2) by (simp add: groups_added_def)
qed

lemma create_groups_spec:
  assumes "groups_ok n a" and "n \<le> last_pool \<Longrightarrow> new_group a n last_pool" and "length (small_mempool_groups a) \<le> n"
    and "length (small_mempool_cache a) \<le> SMALL_MEMPOOL_MAX" and "n \<le> Suc last_pool" and "waste_limits a"
    and "slab_order_size c (mp_order (sm_pool (small_mempool_cache a ! last_pool))) = Some sz" and "4 \<le> sz" and "sz < 2 ^ 32"
  shows "\<exists>a'. small_mempool_create_groups c a n last_pool = Some a' \<and> groups_ok (Suc last_pool) a' \<and> groups_added n (Suc last_pool) a a' \<and>
    waste_limits a'"
  using assms
proof (induction c a n last_pool rule: small_mempool_create_groups.induct)
  case (1 c a n last_pool)
  note P = "1.prems"
  show ?case
  proof (cases "n \<le> last_pool")
    case False
    then have "n = Suc last_pool" using P(5) by simp
    then show ?thesis using P by (subst small_mempool_create_groups.simps) (simp add: groups_added_def same_core_def)
  next
    case le: True
    let ?l = "small_mempool_group_last_pool n last_pool"
    note L = group_last_pool_bounds [OF le]
    have N: "last_pool < length (small_mempool_cache a)"
      "\<And>i. n \<le> i \<Longrightarrow> i \<le> last_pool \<Longrightarrow> appropriate_pool_mask (small_mempool_cache a ! i) = 0"
      "\<And>i. n \<le> i \<Longrightarrow> i \<le> last_pool \<Longrightarrow> mp_order (sm_pool (small_mempool_cache a ! i)) = mp_order (sm_pool (small_mempool_cache a ! last_pool)) \<and>
        slab_ptr_mask (sm_pool (small_mempool_cache a ! i)) = slab_ptr_mask (sm_pool (small_mempool_cache a ! last_pool))"
      using P(2) [OF le] unfolding new_group_def by blast+
    have new: "new_group a n ?l"
      unfolding new_group_def
    proof (intro conjI allI impI)
      fix i assume "n \<le> i \<and> i \<le> ?l"
      then have i: "n \<le> i" "i \<le> last_pool" using L(2) by simp_all
      show "appropriate_pool_mask (small_mempool_cache a ! i) = 0" by (rule N(2) [OF i])
      show "mp_order (sm_pool (small_mempool_cache a ! i)) = mp_order (sm_pool (small_mempool_cache a ! ?l))"
        "slab_ptr_mask (sm_pool (small_mempool_cache a ! i)) = slab_ptr_mask (sm_pool (small_mempool_cache a ! ?l))"
        using N(3) [OF i] N(3) [OF L(1,2)] by metis+
    qed (use L N(1) in simp_all)
    have so: "slab_order_size c (mp_order (sm_pool (small_mempool_cache a ! ?l))) = Some sz" using N(3) [OF L(1,2)] P(7) by metis
    have "length (small_mempool_groups a) < SMALL_MEMPOOL_MAX" using P(3,4) N(1) le by simp
    then obtain b where b: "small_mempool_create_group c a n ?l = Some b" "groups_ok (Suc ?l) b" "groups_added n (Suc ?l) a b"
      "\<And>g. g < length (small_mempool_groups a) \<Longrightarrow> waste_max (small_mempool_groups b ! g) = waste_max (small_mempool_groups a ! g)"
      "length (small_mempool_groups b) = Suc (length (small_mempool_groups a))"
      "waste_max (small_mempool_groups b ! length (small_mempool_groups a)) = sz div 4"
      using create_group_spec [OF P(1) new L(3) _ so] by blast
    have wl: "waste_limits b"
      unfolding waste_limits_def b(5) using P(6,8,9) b(4,6) by (auto simp: waste_limits_def less_Suc_eq)
    have A: "length (small_mempool_cache b) = length (small_mempool_cache a)"
      "\<And>i. i < length (small_mempool_cache a) \<Longrightarrow> sm_pool (small_mempool_cache b ! i) = sm_pool (small_mempool_cache a ! i)"
      "\<And>i. i < length (small_mempool_cache a) \<Longrightarrow> Suc ?l \<le> i \<Longrightarrow> appropriate_pool_mask (small_mempool_cache b ! i) = appropriate_pool_mask (small_mempool_cache a ! i)"
      using b(3) by (simp_all add: groups_added_def same_core_def)
    have new': "new_group b (Suc ?l) last_pool" if "Suc ?l \<le> last_pool"
      unfolding new_group_def A(1)
    proof (intro conjI allI impI)
      fix i assume "Suc ?l \<le> i \<and> i \<le> last_pool"
      then have i: "n \<le> i" "i \<le> last_pool" "Suc ?l \<le> i" "i < length (small_mempool_cache a)" using L(1) N(1) by simp_all
      show "appropriate_pool_mask (small_mempool_cache b ! i) = 0" using A(3) [OF i(4,3)] N(2) [OF i(1,2)] by simp
      show "mp_order (sm_pool (small_mempool_cache b ! i)) = mp_order (sm_pool (small_mempool_cache b ! last_pool))"
        "slab_ptr_mask (sm_pool (small_mempool_cache b ! i)) = slab_ptr_mask (sm_pool (small_mempool_cache b ! last_pool))"
        unfolding A(2) [OF i(4)] A(2) [OF N(1)] using N(3) [OF i(1,2)] by blast+
    qed (use that N(1) in simp_all)
    have "\<exists>a'. small_mempool_create_groups c b (?l + 1) last_pool = Some a' \<and> groups_ok (Suc last_pool) a' \<and>
      groups_added (?l + 1) (Suc last_pool) b a' \<and> waste_limits a'"
      by (rule "1.IH" [OF le refl b(1)]) (use new' b(2,5) P(3,4,7-9) L wl A(1) A(2) [OF N(1)] in simp_all)
    then obtain a' where a': "small_mempool_create_groups c b (?l + 1) last_pool = Some a'" "groups_ok (Suc last_pool) a'"
      "groups_added (Suc ?l) (Suc last_pool) b a'" "waste_limits a'" by auto
    have "small_mempool_create_groups c a n last_pool = Some a'"
      using le b(1) a'(1) by (subst small_mempool_create_groups.simps) simp
    moreover have "groups_added n (Suc last_pool) a a'" by (rule groups_added_trans [OF b(3) a'(3)]) (use L in simp_all)
    ultimately show ?thesis using a'(2,4) by blast
  qed
qed

end
