(* ===== verification/Small_Inv.thy ===== *)
theory Small_Inv
  imports Small_Groups
begin

text \<open>
  The slabs of the small allocator: several pools and the large objects share one slab cache.
  The invariant of a pool is split into what the pool's own slabs hold and the ownership of
  slabs, which is shared out between the pools.
\<close>

section \<open>Large slabs\<close>

lemma slab_get_large_client:
  assumes os: "os_ok os" and i: "cache_inv c V" and n: "sz + slab_sizeof < 2 ^ 64" and room: "quota_room c (sz + slab_sizeof)"
  obtains (fail) c' where "slab_get_large os c sz = Some (NULL, c')" and "cache_inv c' V" and "kept c c' V"
  | (ok) x c' where "slab_get_large os c sz = Some (x, c')" and "x \<noteq> NULL" and "cache_inv c' (insert (x, sz + slab_sizeof) V)"
      and "(x, sz + slab_sizeof) \<notin> V" and "kept c c' V" and "sl_order (hdr c' x) = order_max c + 1"
proof -
  let ?n = "sz + slab_sizeof"
  obtain R L U where ci: "cinv c R L U {}" and V: "V = given c L U" using i by (auto simp: cache_inv_def)
  obtain x c' where g: "slab_get_large os c sz = Some (x, c')" "keeps c c' (used_bytes c L U)"
    "x = NULL \<Longrightarrow> cinv c' R L U {}" "x \<noteq> NULL \<Longrightarrow> (x, ?n) \<notin> L \<and> cinv c' R (insert (x, ?n) L) U {}"
    using slab_get_large_spec [OF os ci refl n room] by blast
  have "same_orders c c' (given c L U)" using g(3,4) by (cases "x = NULL") (auto intro!: same_ordersI [OF ci _ g(2)])
  then have k: "kept c c' V" using g(2) by (simp add: kept_def V used_bytes_given)
  have gv: "given c' L U = V" using keeps_given [OF g(2), of L U] V by simp
  show thesis
  proof (cases "x = NULL")
    case True
    then show thesis using fail [of c'] g(1) cache_invI [OF g(3) [OF True]] gv k by simp
  next
    case False
    note g4 = g(4) [OF False]
    have i': "cache_inv c' (insert (x, ?n) V)"
      using conjunct2 [OF g4] by (rule cache_invI) (simp add: given_insert(2) [of c' "(x, ?n)" L U] gv)
    have new: "(x, ?n) \<notin> V"
    proof
      assume "(x, ?n) \<in> V"
      then show False unfolding V
      proof (cases rule: given_cases)
        case (1 j)
        then show False using cinv_block_huge(2) [of c' R "insert (x, ?n) L" U "{}" x j x ?n] g4 by blast
      next
        case 2
        then show False using g4 by simp
      qed
    qed
    have "sl_order (hdr c' x) = order_max c' + 1"
      using cinv_huge(2) [OF conjunct2 [OF g4], of x ?n] by (simp add: huge_hdr_def)
    then have "sl_order (hdr c' x) = order_max c + 1" using g(2) by (simp add: keeps_def)
    then show thesis using ok [of x c'] g(1) False i' new k by blast
  qed
qed

lemma slab_put_large_client:
  assumes "cache_inv c V" and "(x, n) \<in> V" and "sl_order (hdr c x) = order_max c + 1"
  obtains c' where "slab_put_large c x = Some c'" and "cache_inv c' (V - {(x, n)})" and "kept c c' (V - {(x, n)})"
  using slab_put_spec [OF assms(1,2)] assms(3) by (auto simp: slab_put_def kept_def)

section \<open>Sharing the slabs\<close>

lemma owns_append:
  "owns c others (xs @ ys) \<longleftrightarrow> owns c (others \<union> slabs_of c ys) xs \<and> others \<inter> slabs_of c ys = {} \<and> distinct ys"
  (is "?l \<longleftrightarrow> ?r")
proof
  assume ?l
  moreover from this have "slabs_of c ys \<inter> slabs_of c xs = {}" by (auto simp: owns_def slabs_of_def)
  ultimately show ?r by (auto simp: owns_def Un_ac)
next
  assume r: ?r
  then have "slabs_of c ys \<inter> slabs_of c xs = {}" unfolding owns_def by blast
  then have "set ys \<inter> set xs = {}" by (force simp: slabs_of_def)
  then show ?l using r by (auto simp: owns_def Un_ac)
qed

lemma owns_stable:
  assumes "cache_inv c' (others \<union> slabs_of c xs)" and "owns c others xs"
  shows "owns c' others xs" and "slabs_of c' xs = slabs_of c xs"
proof -
  show e: "slabs_of c' xs = slabs_of c xs" using assms(1) by (rule slabs_of_stable) blast
  show "owns c' others xs" using assms unfolding owns_def e by simp
qed

lemma owns_cong: "set xs = set ys \<Longrightarrow> distinct xs = distinct ys \<Longrightarrow> owns c others xs = owns c others ys"
  by (simp add: owns_def slabs_of_def)

text \<open>The part of a pool's invariant that concerns its own slabs only.\<close>

definition pool_local :: "slab_cache \<Rightarrow> mslabs \<Rightarrow> mempool \<Rightarrow> bool" where
  "pool_local c m mp \<longleftrightarrow> mempool_config c mp \<and> pool_lists {} m mp \<and>
     (\<forall>s \<in> set (pool_slabs mp). sl_size (hdr c s) = pool_slab_size c mp \<and> sl_order (hdr c s) = mp_order mp \<and> mslab_inv c mp s (m s)) \<and>
     st_total (mp_slabs mp) = int (pool_slab_size c mp) * int (length (pool_slabs mp)) \<and>
     st_used (mp_slabs mp) = int (objsize mp) * int (card (live_objs c m mp))"

lemma mempool_inv_local: "mempool_inv c m others mp \<longleftrightarrow> owns c others (pool_slabs mp) \<and> pool_local c m mp"
  by (auto simp: mempool_inv_def pool_ok_def pool_local_def)

lemma pool_local_frame:
  assumes loc: "pool_local c m mp" and k: "kept c c' (slabs_of c (pool_slabs mp))" and s: "slabs_of c' (pool_slabs mp) = slabs_of c (pool_slabs mp)"
    and m: "\<And>s. s \<in> set (pool_slabs mp) \<Longrightarrow> m' s = m s"
  shows "pool_local c' m' mp" and "live_objs c' m' mp = live_objs c m mp"
proof -
  note sc = same_cache_pool [OF keptD(2) [OF k]]
  have L: "mempool_config c mp" "\<And>s. s \<in> set (pool_slabs mp) \<Longrightarrow> sl_size (hdr c s) = pool_slab_size c mp \<and> sl_order (hdr c s) = mp_order mp \<and> mslab_inv c mp s (m s)"
    using loc by (simp_all add: pool_local_def)
  have fr: "mslab_inv c' mp s (m s) \<and> slab_live c' mp s (m s) = slab_live c mp s (m s)" if "s \<in> set (pool_slabs mp)" for s
  proof -
    have "(s, pool_slab_size c mp) \<in> slabs_of c (pool_slabs mp)" using that L(2) by (force simp: slabs_of_def)
    from keptD(4) [OF k this] slab_frame [OF _ L(1), of s "m s" c'] L(2) [OF that] show ?thesis by blast
  qed
  have ord: "sl_order (hdr c' s) = sl_order (hdr c s)" "sl_size (hdr c' s) = sl_size (hdr c s)" if "s \<in> set (pool_slabs mp)" for s
    using keptD(3) [OF k, of s "sl_size (hdr c s)"] slabs_of_eq_size [OF s that] that by (simp_all add: slabs_of_def)
  have place: "slab_place m' mp s = slab_place m mp s" if "s \<in> set (pool_slabs mp)" for s unfolding slab_place_def m [OF that] ..
  show live: "live_objs c' m' mp = live_objs c m mp" unfolding live_objs_def using fr m by simp
  have "pool_lists {} m' mp" using loc place by (simp add: pool_local_def pool_lists_def)
  then show "pool_local c' m' mp" using loc fr ord m unfolding pool_local_def sc live by simp
qed

text \<open>Returning the spare slab of a pool.\<close>

lemma mempool_free_spare_slab_spec:
  assumes inv: "mempool_inv c m others mp" and sp: "mp_spare mp \<noteq> NULL"
  obtains c' mp' where "mempool_free_spare_slab c mp = Some (c', mp')" and "mempool_inv c' m others mp'" and "live_objs c' m mp' = live_objs c m mp"
    and "same_shape mp mp'" and "kept c c' others" and "set (pool_slabs mp') \<subseteq> set (pool_slabs mp)"
    and "kept c c' (slabs_of c (pool_slabs mp'))" and "mp_spare mp' = NULL"
proof -
  have ok: "pool_ok {} c m others mp" and u: "st_used (mp_slabs mp) = int (objsize mp) * int (card (live_objs c m mp))"
    using inv by (simp_all add: mempool_inv_def)
  note P = pool_okD [OF ok] and L = pool_listsD [OF pool_okD(3) [OF ok]]
  let ?s = "mp_spare mp"
  have s: "?s \<in> set (pool_slabs mp)" by (rule L(8) [OF sp])
  have sl: "slabs_ok c m others mp" using ok by (simp add: pool_ok_slabs)
  have "ms_nfree (m ?s) = objcount mp" using L(9) [OF s] by (simp add: slab_place_def)
  then have e: "slab_live c mp ?s (m ?s) = {}" using slab_live_card(1,3) [OF P(5) [OF s]] P(7) by simp
  let ?l = "slab_list_del (mp_slabs mp) ?s (sl_size (hdr c ?s))"
  obtain c' where c': "slab_put_with_order c ?s = Some c'" "slabs_ok c' m others (mp\<lparr>mp_slabs := ?l\<rparr>)"
    "live_objs c' m (mp\<lparr>mp_slabs := ?l\<rparr>) = live_objs c m mp" "kept c c' (others \<union> slabs_of c (remove1 ?s (pool_slabs mp)))"
    using slabs_ok_drop [OF sl s e] by blast
  let ?mp = "mp\<lparr>mp_slabs := ?l, mp_spare := NULL\<rparr>"
  have xs: "sl_slabs ?l = remove1 ?s (pool_slabs mp)" by (simp add: slab_list_del_def)
  have "distinct (pool_slabs mp)" using P(2) by (simp add: owns_def)
  then have pl: "pool_lists {} m ?mp" by (intro pool_lists_unspare [OF P(3) xs] set_remove1_eq)
  have S: "slabs_ok c' m others ?mp" "live_objs c' m ?mp = live_objs c m mp"
    using slabs_ok_same [OF c'(2), of ?mp] c'(3) by (simp_all add: same_shape_def)
  have "mempool_free_spare_slab c mp = Some (c', ?mp)" using sp c'(1) by (simp add: mempool_free_spare_slab_def)
  moreover have "mempool_inv c' m others ?mp"
    using S pl u by (simp add: mempool_inv_def pool_ok_slabs slab_list_del_def)
  moreover have "kept c c' others" "kept c c' (slabs_of c (pool_slabs ?mp))"
    using kept_mono [OF c'(4)] xs by simp_all
  ultimately show thesis using S(2) xs set_remove1_subset [of ?s "pool_slabs mp"]
    by (intro that [of c' ?mp]) (simp_all add: same_shape_def)
qed

section \<open>All pools\<close>

abbreviation nth_pool :: "small_alloc \<Rightarrow> nat \<Rightarrow> mempool" where
  "nth_pool a i \<equiv> sm_pool (small_mempool_cache a ! i)"

definition slab_lists :: "small_alloc \<Rightarrow> addr list list" where
  "slab_lists a = map (\<lambda>sm. pool_slabs (sm_pool sm)) (small_mempool_cache a)"

text \<open>The slabs of the large objects and of all pools but one.\<close>

definition slabs_but :: "nat \<Rightarrow> addr list \<Rightarrow> small_alloc \<Rightarrow> addr list" where
  "slabs_but j bs a = bs @ concat (take j (slab_lists a)) @ concat (drop (Suc j) (slab_lists a))"

definition pools_ok :: "slab_cache \<Rightarrow> mslabs \<Rightarrow> (addr \<times> nat) set \<Rightarrow> addr list \<Rightarrow> small_alloc \<Rightarrow> bool" where
  "pools_ok c m others bs a \<longleftrightarrow> owns c others (bs @ concat (slab_lists a)) \<and>
     (\<forall>i < length (small_mempool_cache a). pool_local c m (nth_pool a i) \<and> mp_self (nth_pool a i) = i)"

lemma slab_lists_simps [simp]:
  "length (slab_lists a) = length (small_mempool_cache a)"
  "i < length (small_mempool_cache a) \<Longrightarrow> slab_lists a ! i = pool_slabs (nth_pool a i)"
  by (simp_all add: slab_lists_def)

lemma owns_focus:
  assumes "j < length (small_mempool_cache a)"
  shows "owns c others (bs @ concat (slab_lists a)) \<longleftrightarrow>
    owns c (others \<union> slabs_of c (slabs_but j bs a)) (pool_slabs (nth_pool a j)) \<and> others \<inter> slabs_of c (slabs_but j bs a) = {} \<and>
    distinct (slabs_but j bs a)"
proof -
  have "slab_lists a = take j (slab_lists a) @ slab_lists a ! j # drop (Suc j) (slab_lists a)"
    using assms by (intro id_take_nth_drop) simp
  then have e: "concat (slab_lists a) = concat (take j (slab_lists a)) @ pool_slabs (nth_pool a j) @ concat (drop (Suc j) (slab_lists a))"
    using assms by (metis concat.simps(2) concat_append slab_lists_simps(2))
  have "owns c others (bs @ concat (slab_lists a)) \<longleftrightarrow> owns c others (pool_slabs (nth_pool a j) @ slabs_but j bs a)"
    unfolding e slabs_but_def by (rule owns_cong) auto
  then show ?thesis by (simp only: owns_append)
qed

lemma slabs_but_set_pool: "slabs_but j bs (set_pool j (sm_pool_update (\<lambda>_. mp)) a) = slabs_but j bs a"
  by (simp add: slabs_but_def slab_lists_def set_pool_def map_update)

lemma pools_ok_pool:
  assumes "pools_ok c m others bs a" and "j < length (small_mempool_cache a)"
  shows "mempool_inv c m (others \<union> slabs_of c (slabs_but j bs a)) (nth_pool a j)"
  using assms owns_focus [OF assms(2)] by (simp add: pools_ok_def mempool_inv_local)

lemma other_pool_slabs:
  assumes "i < length (small_mempool_cache a)" and "i \<noteq> j" and "s \<in> set (pool_slabs (nth_pool a i))"
  shows "s \<in> set (slabs_but j bs a)"
proof (cases "i < j")
  case True
  then have "slab_lists a ! i \<in> set (take j (slab_lists a))" using assms(1) by (auto simp: in_set_conv_nth intro!: exI [of _ i])
  then show ?thesis using assms(1,3) by (auto simp: slabs_but_def)
next
  case False
  then have "i - Suc j < length (drop (Suc j) (slab_lists a))" "drop (Suc j) (slab_lists a) ! (i - Suc j) = slab_lists a ! i" using assms(1,2) by simp_all
  then have "slab_lists a ! i \<in> set (drop (Suc j) (slab_lists a))" by (metis nth_mem)
  then show ?thesis using assms(1,3) by (auto simp: slabs_but_def)
qed

lemma set_slabs_but:
  assumes "j < length (small_mempool_cache a)" and "s \<in> set (slabs_but j bs a)"
  shows "s \<in> set bs \<or> (\<exists>i < length (small_mempool_cache a). i \<noteq> j \<and> s \<in> set (pool_slabs (nth_pool a i)))"
proof -
  have "s \<in> set bs \<or> (\<exists>xs \<in> set (take j (slab_lists a)) \<union> set (drop (Suc j) (slab_lists a)). s \<in> set xs)"
    using assms(2) by (auto simp: slabs_but_def)
  then show ?thesis
  proof (elim disjE bexE)
    fix xs assume x: "xs \<in> set (take j (slab_lists a)) \<union> set (drop (Suc j) (slab_lists a))" "s \<in> set xs"
    show ?thesis
    proof (cases "xs \<in> set (take j (slab_lists a))")
      case True
      then obtain i where i: "i < j" "xs = slab_lists a ! i" unfolding in_set_conv_nth by auto
      then show ?thesis using x(2) assms(1) by (intro disjI2 exI [of _ i]) simp
    next
      case False
      then have "xs \<in> set (drop (Suc j) (slab_lists a))" using x(1) by blast
      then obtain i where i: "i < length (slab_lists a) - Suc j" "xs = drop (Suc j) (slab_lists a) ! i" unfolding in_set_conv_nth by auto
      then have "Suc j + i < length (slab_lists a)" "xs = slab_lists a ! (Suc j + i)" by simp_all
      then show ?thesis using x(2) by (intro disjI2 exI [of _ "Suc j + i"]) simp
    qed
  qed simp
qed

text \<open>An operation on one pool leaves the others, their objects and the large objects as they are.\<close>

lemma pools_ok_step:
  assumes ok: "pools_ok c m others bs a" and j: "j < length (small_mempool_cache a)"
  defines "R \<equiv> slabs_but j bs a"
  assumes inv: "mempool_inv c' m' (others \<union> slabs_of c R) mp'" and k: "kept c c' (others \<union> slabs_of c R)"
    and m: "\<forall>(t, n) \<in> others \<union> slabs_of c R. m' t = m t" and self: "mp_self mp' = j"
  defines "a' \<equiv> set_pool j (sm_pool_update (\<lambda>_. mp')) a"
  shows "pools_ok c' m' others bs a'" and "\<And>i. i < length (small_mempool_cache a) \<Longrightarrow> i \<noteq> j \<Longrightarrow> live_objs c' m' (nth_pool a i) = live_objs c m (nth_pool a i)"
    and "nth_pool a' j = mp'" and "\<And>i. i < length (small_mempool_cache a) \<Longrightarrow> i \<noteq> j \<Longrightarrow> nth_pool a' i = nth_pool a i"
    and "slabs_of c' bs = slabs_of c bs"
proof -
  have o: "owns c (others \<union> slabs_of c R) (pool_slabs (nth_pool a j))" "others \<inter> slabs_of c R = {}" "distinct R"
    using ok owns_focus [OF j, of c others bs] by (simp_all add: pools_ok_def R_def)
  have o': "owns c' (others \<union> slabs_of c R) (pool_slabs mp')" and l: "pool_local c' m' mp'" using inv by (simp_all add: mempool_inv_local)
  have ci: "cache_inv c' (others \<union> slabs_of c R \<union> slabs_of c' (pool_slabs mp'))" using o' by (simp add: owns_def)
  have sR: "slabs_of c' R = slabs_of c R" by (rule slabs_of_stable(1) [OF ci]) blast
  show pj: "nth_pool a' j = mp'" and pi: "\<And>i. i < length (small_mempool_cache a) \<Longrightarrow> i \<noteq> j \<Longrightarrow> nth_pool a' i = nth_pool a i"
    using j by (simp_all add: a'_def nth_set_pool)
  have len: "length (small_mempool_cache a') = length (small_mempool_cache a)" by (simp add: a'_def)
  have R': "slabs_but j bs a' = R" by (simp add: a'_def R_def slabs_but_set_pool)
  have own: "owns c' others (bs @ concat (slab_lists a'))"
    using owns_focus [of j a' c' others bs] o' o(2,3) j pj unfolding R' sR len by simp
  have fr: "pool_local c' m' (nth_pool a i) \<and> live_objs c' m' (nth_pool a i) = live_objs c m (nth_pool a i)"
    if i: "i < length (small_mempool_cache a)" "i \<noteq> j" for i
  proof -
    have sub: "set (pool_slabs (nth_pool a i)) \<subseteq> set R" using other_pool_slabs [OF i] by (auto simp: R_def)
    then have s: "slabs_of c (pool_slabs (nth_pool a i)) \<subseteq> slabs_of c R" by (auto simp: slabs_of_def)
    have loc: "pool_local c m (nth_pool a i)" using ok i by (simp add: pools_ok_def)
    have "kept c c' (slabs_of c (pool_slabs (nth_pool a i)))" by (rule kept_mono [OF k]) (use s in blast)
    moreover have "slabs_of c' (pool_slabs (nth_pool a i)) = slabs_of c (pool_slabs (nth_pool a i))"
      by (rule slabs_of_stable(1) [OF ci]) (use s in blast)
    moreover have "m' t = m t" if t: "t \<in> set (pool_slabs (nth_pool a i))" for t
    proof -
      have "(t, sl_size (hdr c t)) \<in> slabs_of c R" using sub t by (auto simp: slabs_of_def)
      then show ?thesis using m by blast
    qed
    ultimately show ?thesis using pool_local_frame [OF loc, of c' m'] by blast
  qed
  then show "\<And>i. i < length (small_mempool_cache a) \<Longrightarrow> i \<noteq> j \<Longrightarrow> live_objs c' m' (nth_pool a i) = live_objs c m (nth_pool a i)" by blast
  have "pool_local c' m' (nth_pool a' i) \<and> mp_self (nth_pool a' i) = i" if "i < length (small_mempool_cache a)" for i
    using that fr [of i] pi [of i] pj l self ok by (cases "i = j") (simp_all add: pools_ok_def)
  then show "pools_ok c' m' others bs a'" using own unfolding pools_ok_def len by blast
  show "slabs_of c' bs = slabs_of c bs" by (rule slabs_of_stable(1) [OF ci]) (auto simp: R_def slabs_but_def)
qed

text \<open>A change of the cache outside of the pools.\<close>

lemma pools_ok_outside:
  assumes ok: "pools_ok c m others bs a" and own: "owns c' others (bs' @ concat (slab_lists a))"
    and s: "slabs_of c' (concat (slab_lists a)) = slabs_of c (concat (slab_lists a))" and k: "kept c c' (slabs_of c (concat (slab_lists a)))"
  shows "pools_ok c' m others bs' a" and "i < length (small_mempool_cache a) \<Longrightarrow> live_objs c' m (nth_pool a i) = live_objs c m (nth_pool a i)"
proof -
  have fr: "pool_local c' m (nth_pool a i) \<and> live_objs c' m (nth_pool a i) = live_objs c m (nth_pool a i)" if i: "i < length (small_mempool_cache a)" for i
  proof -
    have "slab_lists a ! i \<in> set (slab_lists a)" by (rule nth_mem) (use i in simp)
    then have sub: "set (pool_slabs (nth_pool a i)) \<subseteq> set (concat (slab_lists a))" using i by auto
    have loc: "pool_local c m (nth_pool a i)" using ok i by (simp add: pools_ok_def)
    have "kept c c' (slabs_of c (pool_slabs (nth_pool a i)))" by (rule kept_mono [OF k]) (use sub in \<open>auto simp: slabs_of_def\<close>)
    moreover have "slabs_of c' (pool_slabs (nth_pool a i)) = slabs_of c (pool_slabs (nth_pool a i))"
      unfolding slabs_of_def by (rule image_cong [OF refl]) (use slabs_of_eq_size [OF s] sub in blast)
    ultimately show ?thesis using pool_local_frame [OF loc] by blast
  qed
  then show "pools_ok c' m others bs' a" using own ok by (simp add: pools_ok_def)
  show "i < length (small_mempool_cache a) \<Longrightarrow> live_objs c' m (nth_pool a i) = live_objs c m (nth_pool a i)" using fr by blast
qed

text \<open>Changes that leave the pools themselves alone.\<close>

lemma pools_ok_cong:
  assumes "length (small_mempool_cache a') = length (small_mempool_cache a)" and "\<And>i. i < length (small_mempool_cache a) \<Longrightarrow> nth_pool a' i = nth_pool a i"
  shows "pools_ok c m others bs a' = pools_ok c m others bs a"
proof -
  have "slab_lists a' = slab_lists a" using assms by (intro nth_equalityI) simp_all
  then show ?thesis using assms by (simp add: pools_ok_def)
qed

end
