(* ===== verification/Small_Ops.thy ===== *)
theory Small_Ops
  imports Small_Inv
begin

text \<open>
  The invariant of the small allocator and what its operations do: sweeping, allocating and
  freeing. The waste a size class is charged with is never less than what its objects in fact
  waste, which is what the assertion of \<open>smfree\<close> needs.
\<close>

section \<open>The invariant\<close>

definition class_of :: "small_alloc \<Rightarrow> nat \<Rightarrow> nat" where
  "class_of a n = small_class_calc_offset_by_size (sm_class a) (n mod 2 ^ 32)"

abbreviation pool_size :: "small_alloc \<Rightarrow> nat \<Rightarrow> nat" where
  "pool_size a i \<equiv> objsize (nth_pool a i)"

abbreviation pool_count :: "small_alloc \<Rightarrow> nat" where
  "pool_count a \<equiv> length (small_mempool_cache a)"

definition group_limit :: "small_alloc \<Rightarrow> nat \<Rightarrow> nat" where
  "group_limit a i = (case pool_group a i of None \<Rightarrow> 0 | Some (g, grp) \<Rightarrow> waste_max grp)"

definition small_config :: "small_alloc \<Rightarrow> bool" where
  "small_config a \<longleftrightarrow> sm_objsize_max a < 2 ^ 32 \<and> groups_ok (pool_count a) a \<and> waste_limits a \<and>
     (\<forall>i < pool_count a. pool_size a i \<le> sm_objsize_max a) \<and>
     (\<forall>n \<le> sm_objsize_max a. class_of a n < pool_count a \<and> n \<le> pool_size a (class_of a n))"

text \<open>
  \<open>X\<close> are the objects in use with the sizes they were asked for, \<open>own\<close> the pools they are in, \<open>bs\<close>
  the slabs of the large ones.
\<close>

definition objects_ok :: "slab_cache \<Rightarrow> mslabs \<Rightarrow> small_alloc \<Rightarrow> (addr \<times> nat) set \<Rightarrow> (addr \<Rightarrow> nat) \<Rightarrow> addr list \<Rightarrow> bool" where
  "objects_ok c m a X own bs \<longleftrightarrow> finite X \<and> inj_on fst X \<and>
     (\<forall>(p, n) \<in> X. n \<le> sm_objsize_max a \<longrightarrow> own p < pool_count a \<and> class_of a n \<le> own p \<and>
        sm_group (small_mempool_cache a ! own p) = sm_group (small_mempool_cache a ! class_of a n) \<and> p \<in> live_objs c m (nth_pool a (own p))) \<and>
     (\<forall>i < pool_count a. \<forall>p \<in> live_objs c m (nth_pool a i). \<exists>n \<le> sm_objsize_max a. (p, n) \<in> X \<and> own p = i) \<and>
     (\<forall>(p, n) \<in> X. sm_objsize_max a < n \<longrightarrow> slab_sizeof \<le> p \<and> slab_from_data p \<in> set bs \<and>
        sl_size (hdr c (slab_from_data p)) = n + slab_sizeof) \<and>
     (\<forall>s \<in> set bs. (\<exists>n > sm_objsize_max a. (slab_data s, n) \<in> X) \<and> sl_order (hdr c s) = order_max c + 1)"

definition small_core :: "slab_cache \<Rightarrow> mslabs \<Rightarrow> (addr \<times> nat) set \<Rightarrow> small_alloc \<Rightarrow> (addr \<times> nat) set \<Rightarrow> (addr \<Rightarrow> nat) \<Rightarrow> addr list \<Rightarrow> bool" where
  "small_core c m others a X own bs \<longleftrightarrow> small_config a \<and> pools_ok c m others bs a \<and> objects_ok c m a X own bs"

definition waste_ok :: "small_alloc \<Rightarrow> bool" where
  "waste_ok a \<longleftrightarrow> (\<forall>i < pool_count a. (is_active a i \<or> waste (small_mempool_cache a ! i) < group_limit a i) \<and>
     waste (small_mempool_cache a ! i) < group_limit a i + sm_objsize_max a)"

text \<open>The memory wasted on the objects of class \<open>i\<close>.\<close>

definition charge :: "small_alloc \<Rightarrow> (addr \<Rightarrow> nat) \<Rightarrow> (addr \<times> nat) set \<Rightarrow> nat \<Rightarrow> nat" where
  "charge a own X i = (\<Sum>(p, n) \<in> {(p, n) \<in> X. n \<le> sm_objsize_max a \<and> class_of a n = i}. pool_size a (own p) - pool_size a i)"

definition small_inv :: "slab_cache \<Rightarrow> mslabs \<Rightarrow> (addr \<times> nat) set \<Rightarrow> small_alloc \<Rightarrow> (addr \<times> nat) set \<Rightarrow> bool" where
  "small_inv c m others a X \<longleftrightarrow> (\<exists>own bs. small_core c m others a X own bs \<and> waste_ok a \<and>
     (\<forall>i < pool_count a. charge a own X i \<le> waste (small_mempool_cache a ! i)))"

section \<open>Changes that keep the structure\<close>

definition same_sizes :: "small_alloc \<Rightarrow> small_alloc \<Rightarrow> bool" where
  "same_sizes a a' \<longleftrightarrow> pool_count a' = pool_count a \<and> sm_class a' = sm_class a \<and> sm_objsize_max a' = sm_objsize_max a \<and>
     (\<forall>i < pool_count a. same_shape (nth_pool a i) (nth_pool a' i) \<and> sm_group (small_mempool_cache a' ! i) = sm_group (small_mempool_cache a ! i))"

lemma same_sizesD:
  assumes "same_sizes a a'"
  shows "pool_count a' = pool_count a" and "class_of a' = class_of a" and "sm_objsize_max a' = sm_objsize_max a"
    and "i < pool_count a \<Longrightarrow> pool_size a' i = pool_size a i" and "i < pool_count a \<Longrightarrow> same_shape (nth_pool a i) (nth_pool a' i)"
    and "i < pool_count a \<Longrightarrow> sm_group (small_mempool_cache a' ! i) = sm_group (small_mempool_cache a ! i)"
  using assms by (auto simp: same_sizes_def class_of_def fun_eq_iff same_shape_def)

lemma same_sizes_refl: "same_sizes a a"
  by (simp add: same_sizes_def)

lemma same_sizes_trans: "same_sizes a b \<Longrightarrow> same_sizes b c \<Longrightarrow> same_sizes a c"
  by (auto simp: same_sizes_def intro: same_shape_trans)

lemma same_sizes_pools: "same_pools a a' \<Longrightarrow> same_sizes a a'"
proof -
  assume s: "same_pools a a'"
  then have sb: "same_but_used (small_mempool_cache a) (small_mempool_cache a')" by (simp add: same_pools_def)
  have "pool_count a' = pool_count a" using sb by (simp add: same_but_used_def)
  then show ?thesis using s same_but_usedD(1,2) [OF sb] by (simp add: same_sizes_def same_pools_def)
qed

lemma same_sizes_pool: "j < pool_count a \<Longrightarrow> same_shape (nth_pool a j) mp' \<Longrightarrow> same_sizes a (set_pool j (sm_pool_update (\<lambda>_. mp')) a)"
  by (auto simp: same_sizes_def nth_set_pool)

lemma same_sizes_waste: "same_sizes a (set_pool j (waste_update (\<lambda>_. w)) a)"
  by (auto simp: same_sizes_def nth_set_pool)

lemma small_config_same:
  assumes "small_config a" and "same_sizes a a'" and "groups_ok (pool_count a) a'" and "waste_limits a'"
  shows "small_config a'"
  using assms(1,3,4) same_sizesD [OF assms(2)] unfolding small_config_def by auto

text \<open>The groups do not depend on the slabs of the pools and on the waste.\<close>

lemma groups_ok_cong:
  assumes l: "pool_count a' = pool_count a" and g: "small_mempool_groups a' = small_mempool_groups a"
    and p: "\<And>i. i < pool_count a \<Longrightarrow> sm_group (small_mempool_cache a' ! i) = sm_group (small_mempool_cache a ! i) \<and>
      appropriate_pool_mask (small_mempool_cache a' ! i) = appropriate_pool_mask (small_mempool_cache a ! i) \<and>
      used_pool (small_mempool_cache a' ! i) = used_pool (small_mempool_cache a ! i) \<and> same_shape (nth_pool a i) (nth_pool a' i)"
  shows "groups_ok n a' = groups_ok n a" and "waste_limits a' = waste_limits a"
    and "i < pool_count a \<Longrightarrow> is_active a' i = is_active a i" and "i < pool_count a \<Longrightarrow> group_limit a' i = group_limit a i"
    and "i < pool_count a \<Longrightarrow> pool_group a' i = pool_group a i"
proof -
  let ?ps = "small_mempool_cache a" and ?ps' = "small_mempool_cache a'"
  have sg: "sizes_grow ?ps' = sizes_grow ?ps"
    unfolding sizes_grow_def l using p by (intro all_cong1 imp_cong refl) (simp add: same_shape_def)
  have gp: "group_pools ?ps' k grp = group_pools ?ps k grp" if "sg_last grp < length ?ps" for k grp
    unfolding group_pools_def group_pool_def using p that by (intro all_cong1 imp_cong refl) (simp add: same_shape_def)
  have gs: "group_shape ?ps' k grp = group_shape ?ps k grp" for k grp
    unfolding group_shape_def l using gp [of grp k] by blast
  have "group_ok ?ps' k grp = group_ok ?ps k grp" for k grp
  proof (cases "group_shape ?ps k grp")
    case True
    then have "sg_last grp < length ?ps" by (simp add: group_shape_def)
    then show ?thesis unfolding group_ok_def gs using p by (intro conj_cong refl all_cong1 imp_cong) simp
  qed (simp add: group_ok_def gs)
  then show "groups_ok n a' = groups_ok n a" unfolding groups_ok_def groups_shape_def sg gs g l by simp
  show "waste_limits a' = waste_limits a" unfolding waste_limits_def g ..
  show pg: "pool_group a' i = pool_group a i" if "i < pool_count a" for i using p [OF that] that l g by (simp add: pool_group_def)
  show "is_active a' i = is_active a i" "group_limit a' i = group_limit a i" if "i < pool_count a"
    using pg [OF that] by (simp_all add: is_active_def group_limit_def)
qed

lemma set_pool_groups:
  assumes "j < pool_count a" and "same_shape (nth_pool a j) mp'"
  defines "a' \<equiv> set_pool j (sm_pool_update (\<lambda>_. mp')) a"
  shows "groups_ok n a' = groups_ok n a" and "waste_limits a' = waste_limits a"
    and "i < pool_count a \<Longrightarrow> is_active a' i = is_active a i" and "i < pool_count a \<Longrightarrow> group_limit a' i = group_limit a i"
    and "i < pool_count a \<Longrightarrow> pool_group a' i = pool_group a i"
  using groups_ok_cong [of a' a] assms by (simp_all add: nth_set_pool)

lemma set_waste_groups:
  fixes j w a
  defines "a' \<equiv> set_pool j (waste_update (\<lambda>_. w)) a"
  shows "groups_ok n a' = groups_ok n a" and "waste_limits a' = waste_limits a"
    and "i < pool_count a \<Longrightarrow> is_active a' i = is_active a i" and "i < pool_count a \<Longrightarrow> group_limit a' i = group_limit a i"
    and "i < pool_count a \<Longrightarrow> pool_group a' i = pool_group a i"
  using groups_ok_cong [of a' a] unfolding a'_def by (simp_all add: nth_set_pool)

lemma same_pools_limits:
  assumes "same_pools a a'"
  shows "waste_limits a' = waste_limits a" and "i < pool_count a \<Longrightarrow> group_limit a' i = group_limit a i"
proof -
  have l: "length (small_mempool_groups a') = length (small_mempool_groups a)" and sb: "same_but_used (small_mempool_cache a) (small_mempool_cache a')"
    using assms by (simp_all add: same_pools_def)
  have w: "waste_max (small_mempool_groups a' ! g) = waste_max (small_mempool_groups a ! g)" if "g < length (small_mempool_groups a)" for g
  proof -
    have "small_mempool_groups a' ! g = (small_mempool_groups a ! g)\<lparr>active_pool_mask := active_pool_mask (small_mempool_groups a' ! g)\<rparr>"
      using assms that by (simp add: same_pools_def)
    then show ?thesis by (metis small_mempool_group.select_convs(4) small_mempool_group.surjective small_mempool_group.update_convs(3))
  qed
  show "waste_limits a' = waste_limits a" unfolding waste_limits_def l using w by simp
  show "group_limit a' i = group_limit a i" if i: "i < pool_count a"
    using same_but_usedD(2) [OF sb i] sb i l w
    by (cases "sm_group (small_mempool_cache a ! i)")
      (auto simp: group_limit_def pool_group_def same_but_used_def elem_def)
qed

text \<open>The core of the invariant only depends on the pools.\<close>

lemma small_core_same:
  assumes core: "small_core c m others a X own bs" and s: "same_sizes a a'" and g: "groups_ok (pool_count a) a'" "waste_limits a'"
    and p: "\<And>i. i < pool_count a \<Longrightarrow> nth_pool a' i = nth_pool a i"
  shows "small_core c m others a' X own bs"
proof -
  note S = same_sizesD [OF s]
  have C: "small_config a" "pools_ok c m others bs a" "objects_ok c m a X own bs" using core by (simp_all add: small_core_def)
  have cl: "class_of a n < pool_count a" if "n \<le> sm_objsize_max a" for n using C(1) that by (simp add: small_config_def)
  have "objects_ok c m a' X own bs"
    using C(3) S(6) cl p unfolding objects_ok_def S(1-3) by (auto split: prod.splits)
  then show ?thesis using small_config_same [OF C(1) s g] pools_ok_cong [OF S(1) p] C(2) by (simp add: small_core_def)
qed

lemma charge_same_subset:
  assumes "objects_ok c m a X own bs" and "same_sizes a a'" and "Y \<subseteq> X" and "i < pool_count a"
  shows "charge a' own Y i = charge a own Y i"
proof -
  note S = same_sizesD [OF assms(2)]
  have "pool_size a' (own p) = pool_size a (own p)" if "(p, n) \<in> Y" "n \<le> sm_objsize_max a" for p n
  proof -
    have "(p, n) \<in> X" using assms(3) that(1) by blast
    then have "own p < pool_count a" using assms(1) that(2) unfolding objects_ok_def by blast
    then show ?thesis by (rule S(4))
  qed
  then show ?thesis unfolding charge_def S(2,3) S(4) [OF assms(4)] by (intro sum.cong refl) auto
qed

lemmas charge_same = charge_same_subset [OF _ _ subset_refl]

section \<open>Objects and slabs\<close>

lemma small_coreD:
  assumes "small_core c m others a X own bs"
  shows "small_config a" and "pools_ok c m others bs a" and "objects_ok c m a X own bs" and "groups_ok (pool_count a) a" and "waste_limits a"
    and "n \<le> sm_objsize_max a \<Longrightarrow> class_of a n < pool_count a" and "n \<le> sm_objsize_max a \<Longrightarrow> n \<le> pool_size a (class_of a n)"
    and "sizes_grow (small_mempool_cache a)"
  using assms by (auto simp: small_core_def small_config_def groups_ok_def groups_shape_def)

lemma pool_size_mono: "small_core c m others a X own bs \<Longrightarrow> i \<le> j \<Longrightarrow> j < pool_count a \<Longrightarrow> pool_size a i \<le> pool_size a j"
  using small_coreD(8) by (auto simp: sizes_grow_def)

lemma small_object:
  assumes "small_core c m others a X own bs" and "(p, n) \<in> X" and "n \<le> sm_objsize_max a"
  shows "own p < pool_count a" and "class_of a n \<le> own p" and "sm_group (small_mempool_cache a ! own p) = sm_group (small_mempool_cache a ! class_of a n)"
    and "p \<in> live_objs c m (nth_pool a (own p))" and "n \<le> pool_size a (own p)"
proof -
  have *: "own p < pool_count a \<and> class_of a n \<le> own p \<and> sm_group (small_mempool_cache a ! own p) = sm_group (small_mempool_cache a ! class_of a n) \<and>
    p \<in> live_objs c m (nth_pool a (own p))"
    using small_coreD(3) [OF assms(1)] assms(2,3) unfolding objects_ok_def by blast
  then show "own p < pool_count a" "class_of a n \<le> own p" "sm_group (small_mempool_cache a ! own p) = sm_group (small_mempool_cache a ! class_of a n)"
    "p \<in> live_objs c m (nth_pool a (own p))" by blast+
  show "n \<le> pool_size a (own p)"
    using * pool_size_mono [OF assms(1), of "class_of a n" "own p"] small_coreD(7) [OF assms(1,3)] by linarith
qed

lemma large_object:
  assumes "small_core c m others a X own bs" and "(p, n) \<in> X" and "sm_objsize_max a < n"
  shows "slab_sizeof \<le> p" and "slab_from_data p \<in> set bs" and "sl_size (hdr c (slab_from_data p)) = n + slab_sizeof"
    and "sl_order (hdr c (slab_from_data p)) = order_max c + 1"
  using small_coreD(3) [OF assms(1)] assms(2,3) by (auto simp: objects_ok_def)

text \<open>Every object is inside of a slab of its own pool, or of a large slab.\<close>

lemma object_slab:
  assumes core: "small_core c m others a X own bs" and p: "(p, n) \<in> X"
  obtains (small) s where "n \<le> sm_objsize_max a" and "s \<in> set (pool_slabs (nth_pool a (own p)))" and "span p n \<subseteq> span s (sl_size (hdr c s))"
      and "p \<in> slab_live c (nth_pool a (own p)) s (m s)"
  | (large) "sm_objsize_max a < n" and "slab_from_data p \<in> set bs" and "span p n \<subseteq> span (slab_from_data p) (sl_size (hdr c (slab_from_data p)))"
proof (cases "n \<le> sm_objsize_max a")
  case True
  note S = small_object [OF core p True]
  have "mempool_inv c m (others \<union> slabs_of c (slabs_but (own p) bs a)) (nth_pool a (own p))" by (rule pools_ok_pool [OF small_coreD(2) [OF core] S(1)])
  then have ok: "pool_ok {} c m (others \<union> slabs_of c (slabs_but (own p) bs a)) (nth_pool a (own p))" by (simp add: mempool_inv_def)
  obtain s where s: "s \<in> set (pool_slabs (nth_pool a (own p)))" "p \<in> slab_live c (nth_pool a (own p)) s (m s)" using S(4) by (auto simp: live_objs_def)
  have "span p n \<subseteq> span p (pool_size a (own p))" using S(5) by (intro span_subset) simp_all
  also have "\<dots> \<subseteq> span s (sl_size (hdr c s))" by (rule live_obj_slab(1) [OF ok s])
  finally show thesis using True s by (intro small)
next
  case False
  then have n: "sm_objsize_max a < n" by simp
  note L = large_object [OF core p n]
  have "span p n \<subseteq> span (slab_from_data p) (sl_size (hdr c (slab_from_data p)))"
    unfolding L(3) using L(1) by (intro span_subset) (simp_all add: slab_from_data_def)
  then show thesis using n L(2) by (intro large)
qed

lemma slab_lists_mem: "i < pool_count a \<Longrightarrow> pool_slabs (nth_pool a i) \<in> set (slab_lists a)"
  by (simp add: slab_lists_def)

lemma object_kept:
  assumes core: "small_core c m others a X own bs" and p: "(p, n) \<in> X" and k: "kept c c' (slabs_of c (bs @ concat (slab_lists a)))" and x: "x \<in> span p n"
  shows "mem c' x = mem c x"
  using core p
proof (cases rule: object_slab)
  case (small s)
  have "own p < pool_count a" by (rule small_object(1) [OF core p small(1)])
  then have "pool_slabs (nth_pool a (own p)) \<in> set (slab_lists a)" by (rule slab_lists_mem)
  then have "s \<in> set (bs @ concat (slab_lists a))" using small(2) by auto
  then have "(s, sl_size (hdr c s)) \<in> slabs_of c (bs @ concat (slab_lists a))" by (simp only: slabs_of_def image_eqI)
  then show ?thesis using keptD(4) [OF k] small(3) x by blast
next
  case large
  then have "slab_from_data p \<in> set (bs @ concat (slab_lists a))" by simp
  then have "(slab_from_data p, sl_size (hdr c (slab_from_data p))) \<in> slabs_of c (bs @ concat (slab_lists a))" by (simp only: slabs_of_def image_eqI)
  then show ?thesis using keptD(4) [OF k] large(3) x by blast
qed

text \<open>Objects outside of pool \<open>j\<close>.\<close>

lemma object_kept_but:
  assumes core: "small_core c m others a X own bs" and p: "(p, n) \<in> X" and k: "kept c c' (slabs_of c (slabs_but j bs a))" and x: "x \<in> span p n"
    and j: "n \<le> sm_objsize_max a \<Longrightarrow> own p \<noteq> j"
  shows "mem c' x = mem c x"
  using core p
proof (cases rule: object_slab)
  case (small s)
  have "own p < pool_count a" by (rule small_object(1) [OF core p small(1)])
  then have "s \<in> set (slabs_but j bs a)" using other_pool_slabs [OF _ j [OF small(1)] small(2)] by blast
  then have "(s, sl_size (hdr c s)) \<in> slabs_of c (slabs_but j bs a)" by (simp only: slabs_of_def image_eqI)
  then show ?thesis using keptD(4) [OF k] small(3) x by blast
next
  case large
  then have "slab_from_data p \<in> set (slabs_but j bs a)" by (simp add: slabs_but_def)
  then have "(slab_from_data p, sl_size (hdr c (slab_from_data p))) \<in> slabs_of c (slabs_but j bs a)" by (simp only: slabs_of_def image_eqI)
  then show ?thesis using keptD(4) [OF k] large(3) x by blast
qed

text \<open>A step of pool \<open>j\<close> that changes its objects.\<close>

lemma small_core_pool:
  assumes core: "small_core c m others a X own bs" and j: "j < pool_count a"
  defines "R \<equiv> slabs_but j bs a"
  assumes inv: "mempool_inv c' m' (others \<union> slabs_of c R) mp'" and k: "kept c c' (others \<union> slabs_of c R)"
    and m: "\<forall>(t, n) \<in> others \<union> slabs_of c R. m' t = m t" and sh: "same_shape (nth_pool a j) mp'"
    and X': "finite X'" "inj_on fst X'"
    and in_j: "\<And>p n. (p, n) \<in> X' \<Longrightarrow> n \<le> sm_objsize_max a \<Longrightarrow> own' p = j \<Longrightarrow> class_of a n \<le> j \<and>
      sm_group (small_mempool_cache a ! j) = sm_group (small_mempool_cache a ! class_of a n) \<and> p \<in> live_objs c' m' mp'"
    and live_j: "\<And>p. p \<in> live_objs c' m' mp' \<Longrightarrow> \<exists>n \<le> sm_objsize_max a. (p, n) \<in> X' \<and> own' p = j"
    and out_j: "\<And>p n. n \<le> sm_objsize_max a \<Longrightarrow> (p, n) \<in> X' \<and> own' p \<noteq> j \<longleftrightarrow> (p, n) \<in> X \<and> own p \<noteq> j"
    and own': "\<And>p n. (p, n) \<in> X \<Longrightarrow> own p \<noteq> j \<Longrightarrow> own' p = own p"
    and big: "\<And>p n. sm_objsize_max a < n \<Longrightarrow> (p, n) \<in> X' \<longleftrightarrow> (p, n) \<in> X"
  defines "a' \<equiv> set_pool j (sm_pool_update (\<lambda>_. mp')) a"
  shows "small_core c' m' others a' X' own' bs" and "same_sizes a a'"
proof -
  show s: "same_sizes a a'" unfolding a'_def by (rule same_sizes_pool [OF j sh])
  note S = same_sizesD [OF s]
  have self: "mp_self mp' = j" using small_coreD(2) [OF core] j same_shape(10) [OF sh] by (simp add: pools_ok_def)
  note P = pools_ok_step [OF small_coreD(2) [OF core] j inv [unfolded R_def] k [unfolded R_def] m [unfolded R_def] self, folded a'_def R_def]
  have cfg: "small_config a'"
    by (rule small_config_same [OF small_coreD(1) [OF core] s])
      (use set_pool_groups(1,2) [OF j sh] small_coreD(4,5) [OF core] in \<open>simp_all add: a'_def\<close>)
  have O: "objects_ok c m a X own bs" by (rule small_coreD(3) [OF core])
  have live: "live_objs c' m' (nth_pool a' i) = live_objs c m (nth_pool a i)" if "i < pool_count a" "i \<noteq> j" for i
    using P(2) [OF that] P(4) [OF that] by simp
  have small: "own' p < pool_count a \<and> class_of a n \<le> own' p \<and> sm_group (small_mempool_cache a ! own' p) = sm_group (small_mempool_cache a ! class_of a n) \<and>
      p \<in> live_objs c' m' (nth_pool a' (own' p))" if p: "(p, n) \<in> X'" "n \<le> sm_objsize_max a" for p n
  proof (cases "own' p = j")
    case True
    then show ?thesis using in_j [OF p True] j P(3) by simp
  next
    case False
    then have x: "(p, n) \<in> X" "own p \<noteq> j" using out_j [OF p(2)] p(1) by blast+
    then show ?thesis using small_object [OF core x(1) p(2)] own' [OF x] live [of "own p"] by simp
  qed
  have all: "\<exists>n \<le> sm_objsize_max a. (p, n) \<in> X' \<and> own' p = i" if i: "i < pool_count a" and p: "p \<in> live_objs c' m' (nth_pool a' i)" for i p
  proof (cases "i = j")
    case True
    then show ?thesis using live_j p P(3) by simp
  next
    case False
    then have "p \<in> live_objs c m (nth_pool a i)" using live [OF i False] p by simp
    then obtain n where n: "n \<le> sm_objsize_max a" "(p, n) \<in> X" "own p = i" using O i unfolding objects_ok_def by blast
    then show ?thesis using out_j [OF n(1)] own' [OF n(2)] False by blast
  qed
  have hd: "sl_size (hdr c' t) = sl_size (hdr c t)" "sl_order (hdr c' t) = sl_order (hdr c t)" if "t \<in> set bs" for t
  proof -
    show "sl_size (hdr c' t) = sl_size (hdr c t)" by (rule slabs_of_eq_size [OF P(5) that])
    have "t \<in> set R" using that by (simp add: R_def slabs_but_def)
    then have "(t, sl_size (hdr c t)) \<in> others \<union> slabs_of c R" by (simp add: slabs_of_def)
    then show "sl_order (hdr c' t) = sl_order (hdr c t)" by (rule keptD(3) [OF k])
  qed
  have om: "order_max c' = order_max c" using keptD(1) [OF k] by (simp add: keeps_def)
  have "objects_ok c' m' a' X' own' bs"
    unfolding objects_ok_def S(1-3)
  proof (intro conjI)
    show "\<forall>(p, n) \<in> X'. n \<le> sm_objsize_max a \<longrightarrow> own' p < pool_count a \<and> class_of a n \<le> own' p \<and>
        sm_group (small_mempool_cache a' ! own' p) = sm_group (small_mempool_cache a' ! class_of a n) \<and> p \<in> live_objs c' m' (nth_pool a' (own' p))"
      using small S(6) small_coreD(6) [OF core] by auto
    show "\<forall>i < pool_count a. \<forall>p \<in> live_objs c' m' (nth_pool a' i). \<exists>n \<le> sm_objsize_max a. (p, n) \<in> X' \<and> own' p = i" using all by blast
    show "\<forall>(p, n) \<in> X'. sm_objsize_max a < n \<longrightarrow> slab_sizeof \<le> p \<and> slab_from_data p \<in> set bs \<and>
        sl_size (hdr c' (slab_from_data p)) = n + slab_sizeof"
      using big large_object [OF core] hd(1) by auto
    show "\<forall>s \<in> set bs. (\<exists>n > sm_objsize_max a. (slab_data s, n) \<in> X') \<and> sl_order (hdr c' s) = order_max c' + 1"
    proof
      fix s assume s: "s \<in> set bs"
      then obtain n where "sm_objsize_max a < n" "(slab_data s, n) \<in> X" "sl_order (hdr c s) = order_max c + 1"
        using O unfolding objects_ok_def by blast
      then show "(\<exists>n > sm_objsize_max a. (slab_data s, n) \<in> X') \<and> sl_order (hdr c' s) = order_max c' + 1"
        using big hd(2) [OF s] om by auto
    qed
  qed (use X' in simp_all)
  then show "small_core c' m' others a' X' own' bs" using cfg P(1) by (simp add: small_core_def)
qed

lemma small_core_pool_same:
  assumes core: "small_core c m others a X own bs" and j: "j < pool_count a"
  defines "R \<equiv> slabs_but j bs a"
  assumes inv: "mempool_inv c' m' (others \<union> slabs_of c R) mp'" and k: "kept c c' (others \<union> slabs_of c R)"
    and m: "\<forall>(t, n) \<in> others \<union> slabs_of c R. m' t = m t" and sh: "same_shape (nth_pool a j) mp'"
    and live: "live_objs c' m' mp' = live_objs c m (nth_pool a j)"
  defines "a' \<equiv> set_pool j (sm_pool_update (\<lambda>_. mp')) a"
  shows "small_core c' m' others a' X own bs" and "same_sizes a a'"
proof -
  have O: "objects_ok c m a X own bs" by (rule small_coreD(3) [OF core])
  have "finite X" "inj_on fst X" using O by (simp_all add: objects_ok_def)
  moreover have "class_of a n \<le> j \<and> sm_group (small_mempool_cache a ! j) = sm_group (small_mempool_cache a ! class_of a n) \<and> p \<in> live_objs c' m' mp'"
    if "(p, n) \<in> X" "n \<le> sm_objsize_max a" "own p = j" for p n
    using small_object [OF core that(1,2)] that(3) live by simp
  moreover have "\<exists>n \<le> sm_objsize_max a. (p, n) \<in> X \<and> own p = j" if "p \<in> live_objs c' m' mp'" for p
    using O j that live unfolding objects_ok_def by blast
  ultimately show "small_core c' m' others a' X own bs" "same_sizes a a'"
    using small_core_pool [OF core j inv [unfolded R_def] k [unfolded R_def] m [unfolded R_def] sh, of X own] unfolding a'_def by blast+
qed

section \<open>Sweeping\<close>

definition swept :: "slab_cache \<Rightarrow> small_alloc \<Rightarrow> slab_cache \<Rightarrow> small_alloc \<Rightarrow> (addr \<times> nat) set \<Rightarrow> bool" where
  "swept c a c' a' X \<longleftrightarrow> same_sizes a a' \<and> same_cache c c' \<and>
     (\<forall>i < pool_count a. waste (small_mempool_cache a' ! i) = waste (small_mempool_cache a ! i) \<and> (is_active a' i \<longrightarrow> is_active a i)) \<and>
     (\<forall>(q, k) \<in> X. \<forall>x \<in> span q k. mem c' x = mem c x)"

lemma swept_refl: "swept c a c a X"
  by (simp add: swept_def same_sizes_refl same_cache_def)

lemma swept_trans: "swept c a c' a' X \<Longrightarrow> swept c' a' c'' a'' X \<Longrightarrow> swept c a c'' a'' X"
proof -
  assume s: "swept c a c' a' X" "swept c' a' c'' a'' X"
  have "pool_count a' = pool_count a" using s(1) by (simp add: swept_def same_sizes_def)
  moreover have "same_sizes a a''" using s same_sizes_trans unfolding swept_def by blast
  moreover have "same_cache c c''" using s keeps_trans by (auto simp: swept_def same_cache_def)
  moreover have "mem c'' x = mem c x" if "(q, k) \<in> X" "x \<in> span q k" for q k x
  proof -
    have "mem c' x = mem c x" "mem c'' x = mem c' x" using s that unfolding swept_def by blast+
    then show ?thesis by simp
  qed
  ultimately show ?thesis using s unfolding swept_def by auto
qed

lemma can_be_deactivated_eq:
  assumes "groups_ok n a" and "i < n"
  obtains g grp where "pool_group a i = Some (g, grp)" and "g < length (small_mempool_groups a)" and "grp = small_mempool_groups a ! g"
    and "small_mempool_can_be_deactivated a i = Some (is_active a i \<and> mempool_count (nth_pool a i) = 0 \<and>
      waste (small_mempool_cache a ! i) < waste_max grp div 4 \<and> i \<noteq> sg_last grp)"
proof -
  obtain g where g: "g < length (small_mempool_groups a)" "sg_first (small_mempool_groups a ! g) \<le> i" "i \<le> sg_last (small_mempool_groups a ! g)"
    "pool_group a i = Some (g, small_mempool_groups a ! g)" by (rule group_of [OF groups_okD(1) [OF assms(1)] assms(2)])
  have "sg_last (small_mempool_groups a ! g) < sg_first (small_mempool_groups a ! g) + 32"
    using groups_shapeD(3) [OF groups_okD(1) [OF assms(1)] g(1)] by (simp add: group_shape_def)
  then have lt: "i - sg_first (small_mempool_groups a ! g) < 32" using g(2,3) by simp
  have "i < length (small_mempool_cache a)" using assms groups_okD(2) by (meson less_le_trans)
  then have "small_mempool_can_be_deactivated a i = Some (is_active a i \<and> mempool_count (nth_pool a i) = 0 \<and>
      waste (small_mempool_cache a ! i) < waste_max (small_mempool_groups a ! g) div 4 \<and> i \<noteq> sg_last (small_mempool_groups a ! g))"
    unfolding small_mempool_can_be_deactivated_def small_mempool_get_group_index_def g(4) using and_one_bit [OF lt, of "active_pool_mask (small_mempool_groups a ! g)"] g(4)
    by (simp add: is_active_def)
  then show thesis using g(1,4) by (intro that [of g]) simp_all
qed

lemma deactivate_sweeps:
  assumes core: "small_core c m others a X own bs" and w: "waste_ok a" and i: "i < pool_count a" and act: "is_active a i"
    and g: "pool_group a i = Some (g, grp)" "i \<noteq> sg_last grp" and low: "waste (small_mempool_cache a ! i) < waste_max grp div 4"
  obtains a' where "small_mempool_deactivate a i = Some a'" and "small_core c m others a' X own bs" and "waste_ok a'" and "swept c a c a' X"
    and "nth_pool a' i = nth_pool a i"
proof -
  obtain a' where a': "small_mempool_deactivate a i = Some a'" "groups_ok (pool_count a) a'" "same_pools a a'"
    "\<And>j. j < pool_count a \<Longrightarrow> is_active a' j \<longleftrightarrow> is_active a j \<and> j \<noteq> i"
    by (rule deactivate_spec [OF small_coreD(4) [OF core] i act g]) (rule that)
  have s: "same_sizes a a'" by (rule same_sizes_pools [OF a'(3)])
  have sb: "same_but_used (small_mempool_cache a) (small_mempool_cache a')" using a'(3) by (simp add: same_pools_def)
  note U = same_but_usedD [OF sb] and L = same_pools_limits [OF a'(3)]
  have c': "small_core c m others a' X own bs"
    by (rule small_core_same [OF core s a'(2)]) (use L(1) small_coreD(5) [OF core] U(1) in simp_all)
  have gl: "group_limit a i = waste_max grp" using g(1) by (simp add: group_limit_def)
  have "waste_ok a'"
    unfolding waste_ok_def same_sizesD(1,3) [OF s]
  proof (intro allI impI)
    fix j assume j: "j < pool_count a"
    have "(is_active a j \<or> waste (small_mempool_cache a ! j) < group_limit a j) \<and> waste (small_mempool_cache a ! j) < group_limit a j + sm_objsize_max a"
      using w j by (simp add: waste_ok_def)
    then show "(is_active a' j \<or> waste (small_mempool_cache a' ! j) < group_limit a' j) \<and> waste (small_mempool_cache a' ! j) < group_limit a' j + sm_objsize_max a"
      using a'(4) [OF j] U(3) [OF j] L(2) [OF j] low gl by (cases "j = i") auto
  qed
  moreover have "swept c a c a' X" using s U(3) a'(4) by (simp add: swept_def same_cache_def)
  ultimately show thesis using a'(1) c' U(1) [OF i] by (intro that [of a'])
qed

lemma spare_sweeps:
  assumes core: "small_core c m others a X own bs" and w: "waste_ok a" and i: "i < pool_count a" and sp: "mp_spare (nth_pool a i) \<noteq> NULL"
  obtains c' mp' where "mempool_free_spare_slab c (nth_pool a i) = Some (c', mp')"
    and "small_core c' m others (set_pool i (sm_pool_update (\<lambda>_. mp')) a) X own bs" and "waste_ok (set_pool i (sm_pool_update (\<lambda>_. mp')) a)"
    and "swept c a c' (set_pool i (sm_pool_update (\<lambda>_. mp')) a) X"
proof -
  let ?R = "slabs_but i bs a"
  have inv: "mempool_inv c m (others \<union> slabs_of c ?R) (nth_pool a i)" by (rule pools_ok_pool [OF small_coreD(2) [OF core] i])
  obtain c' mp' where f: "mempool_free_spare_slab c (nth_pool a i) = Some (c', mp')" "mempool_inv c' m (others \<union> slabs_of c ?R) mp'"
    "live_objs c' m mp' = live_objs c m (nth_pool a i)" "same_shape (nth_pool a i) mp'" "kept c c' (others \<union> slabs_of c ?R)"
    "set (pool_slabs mp') \<subseteq> set (pool_slabs (nth_pool a i))" "kept c c' (slabs_of c (pool_slabs mp'))"
    by (rule mempool_free_spare_slab_spec [OF inv sp]) (rule that)
  let ?a = "set_pool i (sm_pool_update (\<lambda>_. mp')) a"
  have m0: "\<forall>(t, n) \<in> others \<union> slabs_of c ?R. m t = m t" by simp
  note C = small_core_pool_same [OF core i f(2,5) m0 f(4,3)]
  note G = set_pool_groups [OF i f(4)]
  have ws: "waste (small_mempool_cache ?a ! j) = waste (small_mempool_cache a ! j)" if "j < pool_count a" for j using that by (simp add: nth_set_pool)
  have wk: "waste_ok ?a" using w ws G(3,4) unfolding waste_ok_def same_sizesD(1,3) [OF C(2)] by simp
  have "mem c' x = mem c x" if p: "(q, k) \<in> X" "x \<in> span q k" for q k x
  proof (cases "k \<le> sm_objsize_max a \<and> own q = i")
    case False
    have "kept c c' (slabs_of c ?R)" by (rule kept_mono [OF f(5)]) blast
    then show ?thesis using object_kept_but [OF core p(1) _ p(2), of c' i] False by blast
  next
    case True
    have "q \<in> live_objs c' m mp'" using small_object(4) [OF core p(1)] True f(3) by simp
    then have "span q (objsize mp') \<subseteq> slab_bytes (slabs_of c' (pool_slabs mp'))"
      using live_outside(2) [of "{}" c' m _ mp' q] f(2) by (auto simp: mempool_inv_def)
    moreover have "slabs_of c' (pool_slabs mp') = slabs_of c (pool_slabs mp')"
    proof -
      have "pool_local c m (nth_pool a i)" "pool_local c' m mp'" using inv f(2) by (simp_all add: mempool_inv_local)
      then have "sl_size (hdr c' t) = sl_size (hdr c t)" if "t \<in> set (pool_slabs mp')" for t
        using that f(6) same_shape(6) [OF f(4), of c'] same_cache_pool(2) [OF keptD(2) [OF f(5)]] by (auto simp: pool_local_def)
      then show ?thesis by (simp add: slabs_of_def)
    qed
    moreover have "x \<in> span q (objsize mp')"
      using p(2) small_object(5) [OF core p(1)] True same_shape(8) [OF f(4)] by simp
    ultimately have "x \<in> slab_bytes (slabs_of c (pool_slabs mp'))" by (metis subsetD)
    then show ?thesis using keptD(1) [OF f(7)] by (simp add: keeps_def)
  qed
  then have "swept c a c' ?a X" using C(2) ws G(3) keptD(2) [OF f(5)] by (auto simp: swept_def)
  then show thesis using f(1) C(1) wk by (intro that)
qed

lemma sweep_loop_spec:
  assumes "small_core c m others a X own bs" and "waste_ok a" and "\<And>i. i \<in> set is \<Longrightarrow> i < pool_count a"
  shows "\<exists>c' a'. small_mempool_sweep_loop is c a = Some (c', a') \<and> small_core c' m others a' X own bs \<and> waste_ok a' \<and> swept c a c' a' X"
  using assms
proof (induction "is" arbitrary: c a)
  case Nil
  then show ?case using swept_refl by auto
next
  case (Cons i js)
  have i: "i < pool_count a" using Cons.prems(3) by simp
  obtain g grp where g: "pool_group a i = Some (g, grp)" "small_mempool_can_be_deactivated a i = Some (is_active a i \<and> mempool_count (nth_pool a i) = 0 \<and>
      waste (small_mempool_cache a ! i) < waste_max grp div 4 \<and> i \<noteq> sg_last grp)"
    by (rule can_be_deactivated_eq [OF small_coreD(4) [OF Cons.prems(1)] i])
  have step: "\<exists>c1 a1. small_mempool_sweep_loop (i # js) c a = small_mempool_sweep_loop js c1 a1 \<and> small_core c1 m others a1 X own bs \<and> waste_ok a1 \<and>
    swept c a c1 a1 X"
  proof (cases "is_active a i \<and> mempool_count (nth_pool a i) = 0 \<and> waste (small_mempool_cache a ! i) < waste_max grp div 4 \<and> i \<noteq> sg_last grp")
    case False
    then have "small_mempool_can_be_deactivated a i = Some False" using g(2) by simp
    then have "small_mempool_sweep_loop (i # js) c a = small_mempool_sweep_loop js c a" by simp
    then show ?thesis using Cons.prems(1,2) swept_refl by blast
  next
    case True
    then have t: "small_mempool_can_be_deactivated a i = Some True" using g(2) by simp
    obtain a1 where a1: "small_mempool_deactivate a i = Some a1" "small_core c m others a1 X own bs" "waste_ok a1" "swept c a c a1 X"
      "nth_pool a1 i = nth_pool a i"
      by (rule deactivate_sweeps [OF Cons.prems(1,2) i _ g(1)]) (use True that in auto)
    have i1: "i < pool_count a1" using a1(4) i by (simp add: swept_def same_sizes_def)
    show ?thesis
    proof (cases "mp_spare (nth_pool a1 i) = NULL")
      case True
      then have "small_mempool_sweep_loop (i # js) c a = small_mempool_sweep_loop js c a1" using t a1(1) i1 by simp
      then show ?thesis using a1 by blast
    next
      case False
      obtain c2 mp2 where s: "mempool_free_spare_slab c (nth_pool a1 i) = Some (c2, mp2)"
        "small_core c2 m others (set_pool i (sm_pool_update (\<lambda>_. mp2)) a1) X own bs" "waste_ok (set_pool i (sm_pool_update (\<lambda>_. mp2)) a1)"
        "swept c a1 c2 (set_pool i (sm_pool_update (\<lambda>_. mp2)) a1) X" by (rule spare_sweeps [OF a1(2,3) i1 False])
      have "small_mempool_sweep_loop (i # js) c a = small_mempool_sweep_loop js c2 (set_pool i (sm_pool_update (\<lambda>_. mp2)) a1)"
        using t a1(1) i1 False s(1) by simp
      then show ?thesis using s swept_trans [OF a1(4)] by blast
    qed
  qed
  then obtain c1 a1 where s: "small_mempool_sweep_loop (i # js) c a = small_mempool_sweep_loop js c1 a1" "small_core c1 m others a1 X own bs" "waste_ok a1"
    "swept c a c1 a1 X" by blast
  have "k < pool_count a1" if "k \<in> set js" for k using Cons.prems(3) [of k] that s(4) by (simp add: swept_def same_sizes_def)
  from Cons.IH [OF s(2,3) this] show ?case using s(1,4) swept_trans by metis
qed

section \<open>Allocation\<close>

lemma used_pool_serves:
  assumes core: "small_core c m others a X own bs" and k: "k < pool_count a"
  obtains j where "used_pool (small_mempool_cache a ! k) = Some j" and "k \<le> j" and "j < pool_count a" and "is_active a j"
    and "sm_group (small_mempool_cache a ! j) = sm_group (small_mempool_cache a ! k)" and "\<And>i. k \<le> i \<Longrightarrow> i < j \<Longrightarrow> \<not> is_active a i"
proof -
  note G = small_coreD(4) [OF core]
  obtain g where g: "g < length (small_mempool_groups a)" "sg_first (small_mempool_groups a ! g) \<le> k" "k \<le> sg_last (small_mempool_groups a ! g)"
    "sm_group (small_mempool_cache a ! k) = Some g" by (rule group_of [OF groups_okD(1) [OF G] k])
  let ?grp = "small_mempool_groups a ! g"
  obtain j where j: "used_pool (small_mempool_cache a ! k) = Some j" "serves ?grp k j"
    using groups_okD(3) [OF G g(1)] g(2,3) unfolding group_ok_def by blast
  have act: "is_active a i \<longleftrightarrow> bit (active_pool_mask ?grp) (i - sg_first ?grp)" if "k \<le> i" "i \<le> sg_last ?grp" for i
  proof -
    have r: "sg_first ?grp \<le> i \<and> i \<le> sg_last ?grp" using that g(2) by simp
    have "sm_group (small_mempool_cache a ! i) = Some g" "i < pool_count a" using group_range [OF groups_okD(1) [OF G] g(1) r] by simp_all
    then show ?thesis using g(1) by (simp add: is_active_def pool_group_def)
  qed
  have r: "sg_first ?grp \<le> j \<and> j \<le> sg_last ?grp" using j(2) g(2) by (auto simp: serves_def)
  show thesis
  proof (rule that [OF j(1)])
    show "k \<le> j" using j(2) by (simp add: serves_def)
    show "j < pool_count a" "sm_group (small_mempool_cache a ! j) = sm_group (small_mempool_cache a ! k)"
      using group_range [OF groups_okD(1) [OF G] g(1) r] g(4) by simp_all
    show "is_active a j" using act [of j] j(2) by (simp add: serves_def)
    show "\<not> is_active a i" if "k \<le> i" "i < j" for i using act [of i] j(2) that by (auto simp: serves_def)
  qed
qed

text \<open>Fewer active pools mean a larger serving pool.\<close>

lemma used_pool_rises:
  assumes "small_core c m others a X own bs" and "small_core c' m' others a' X' own' bs'" and "k < pool_count a" and "pool_count a' = pool_count a"
    and "\<And>i. i < pool_count a \<Longrightarrow> is_active a' i \<Longrightarrow> is_active a i"
    and "used_pool (small_mempool_cache a ! k) = Some j" and "used_pool (small_mempool_cache a' ! k) = Some u"
  shows "j \<le> u"
proof -
  obtain j' where j': "used_pool (small_mempool_cache a ! k) = Some j'" "\<And>i. k \<le> i \<Longrightarrow> i < j' \<Longrightarrow> \<not> is_active a i"
    by (rule used_pool_serves [OF assms(1,3)]) (rule that)
  obtain u' where u': "used_pool (small_mempool_cache a' ! k) = Some u'" "k \<le> u'" "u' < pool_count a'" "is_active a' u'"
    by (rule used_pool_serves [OF assms(2)]) (use assms(3,4) that in simp_all)
  have "is_active a u" using assms(4,5) u' assms(7) by simp
  then show ?thesis using j' u' assms(6,7) by (metis not_le option.inject)
qed

lemma object_elsewhere:
  assumes core: "small_core c m others a X own bs" and p: "(p, n) \<in> X" and j: "n \<le> sm_objsize_max a \<Longrightarrow> own p \<noteq> j"
  shows "p \<in> slab_bytes (slabs_of c (slabs_but j bs a))"
  using core p
proof (cases rule: object_slab)
  case (small s)
  have o: "own p < pool_count a" by (rule small_object(1) [OF core p small(1)])
  then have s: "s \<in> set (slabs_but j bs a)" using other_pool_slabs [OF _ j [OF small(1)] small(2)] by blast
  have "mempool_inv c m (others \<union> slabs_of c (slabs_but (own p) bs a)) (nth_pool a (own p))" by (rule pools_ok_pool [OF small_coreD(2) [OF core] o])
  then have ok: "pool_ok {} c m (others \<union> slabs_of c (slabs_but (own p) bs a)) (nth_pool a (own p))" by (simp add: mempool_inv_def)
  have "p \<in> span s (sl_size (hdr c s))" by (rule live_obj_slab(2) [OF ok small(2,4)])
  moreover have "(s, sl_size (hdr c s)) \<in> slabs_of c (slabs_but j bs a)" using s by (simp add: slabs_of_def)
  ultimately show ?thesis using span_slab_bytes by blast
next
  case large
  then have "slab_from_data p \<in> set (slabs_but j bs a)" by (simp add: slabs_but_def)
  then have "(slab_from_data p, sl_size (hdr c (slab_from_data p))) \<in> slabs_of c (slabs_but j bs a)" by (simp add: slabs_of_def)
  moreover have "p \<in> span p n" using large(1) by simp
  ultimately show ?thesis using span_slab_bytes large(3) by blast
qed

lemma charge_insert:
  assumes "finite X" and "p \<notin> fst ` X" and "n \<le> sm_objsize_max a"
  shows "charge a (own(p := j)) (insert (p, n) X) i = (if class_of a n = i then pool_size a j - pool_size a i else 0) + charge a own X i"
proof -
  let ?S = "\<lambda>X. {(q, n) \<in> X. n \<le> sm_objsize_max a \<and> class_of a n = i}"
  have fin: "finite (?S X)" by (rule finite_subset [OF _ assms(1)]) auto
  have eq: "(\<Sum>(q, n) \<in> ?S X. pool_size a ((own(p := j)) q) - pool_size a i) = charge a own X i"
    unfolding charge_def by (rule sum.cong [OF refl]) (use assms(2) in force)
  have new: "(p, n) \<notin> ?S X" using assms(2) by force
  show ?thesis
  proof (cases "class_of a n = i")
    case True
    then have "?S (insert (p, n) X) = insert (p, n) (?S X)" using assms(3) by auto
    then show ?thesis using True eq sum.insert [OF fin new, of "\<lambda>(q, n). pool_size a ((own(p := j)) q) - pool_size a i"]
      unfolding charge_def [of a "own(p := j)"] by simp
  next
    case False
    then have "?S (insert (p, n) X) = ?S X" by auto
    then show ?thesis using False eq unfolding charge_def [of a "own(p := j)"] by simp
  qed
qed

lemma all_slabs:
  assumes "j < pool_count a"
  shows "set (bs @ concat (slab_lists a)) \<subseteq> set (slabs_but j bs a) \<union> set (pool_slabs (nth_pool a j))"
proof
  fix s assume "s \<in> set (bs @ concat (slab_lists a))"
  then consider "s \<in> set bs" | xs where "xs \<in> set (slab_lists a)" "s \<in> set xs" by auto
  then show "s \<in> set (slabs_but j bs a) \<union> set (pool_slabs (nth_pool a j))"
  proof cases
    case (2 xs)
    then obtain i where i: "i < pool_count a" "xs = pool_slabs (nth_pool a i)" unfolding in_set_conv_nth by auto
    then show ?thesis using other_pool_slabs [OF i(1), of j s bs] 2(2) by (cases "i = j") simp_all
  qed (simp add: slabs_but_def)
qed

text \<open>The new object of pool \<open>j\<close>.\<close>

lemma small_core_alloc:
  assumes os: "os_ok os" and core: "small_core c m others a X own bs" and n: "n \<le> sm_objsize_max a" and j: "j < pool_count a" "class_of a n \<le> j"
    "sm_group (small_mempool_cache a ! j) = sm_group (small_mempool_cache a ! class_of a n)"
  obtains p c' m' mp' where "mempool_alloc os c m (nth_pool a j) = Some (p, c', m', mp')" and "same_shape (nth_pool a j) mp'"
    and "if p = NULL then small_core c' m' others (set_pool j (sm_pool_update (\<lambda>_. mp')) a) X own bs
      else p \<notin> fst ` X \<and> small_core c' m' others (set_pool j (sm_pool_update (\<lambda>_. mp')) a) (insert (p, n) X) (own(p := j)) bs"
    and "\<And>q k x. (q, k) \<in> X \<Longrightarrow> x \<in> span q k \<Longrightarrow> mem c' x = mem c x" and "same_cache c c'"
proof -
  let ?R = "slabs_but j bs a"
  have O: "objects_ok c m a X own bs" by (rule small_coreD(3) [OF core])
  have inv: "mempool_inv c m (others \<union> slabs_of c ?R) (nth_pool a j)" by (rule pools_ok_pool [OF small_coreD(2) [OF core] j(1)])
  obtain p c' m' mp' where al: "mempool_alloc os c m (nth_pool a j) = Some (p, c', m', mp')" "mempool_inv c' m' (others \<union> slabs_of c ?R) mp'"
    "kept c c' ((others \<union> slabs_of c ?R) \<union> slabs_of c (pool_slabs (nth_pool a j)))" "same_shape (nth_pool a j) mp'"
    "\<forall>(t, n) \<in> others \<union> slabs_of c ?R. m' t = m t"
    "p = NULL \<Longrightarrow> live_objs c' m' mp' = live_objs c m (nth_pool a j) \<and> (\<forall>s \<in> set (pool_slabs (nth_pool a j)). ms_nfree (m s) = 0) \<and> mp' = nth_pool a j"
    "p \<noteq> NULL \<Longrightarrow> p \<notin> live_objs c m (nth_pool a j) \<and> live_objs c' m' mp' = insert p (live_objs c m (nth_pool a j))"
    by (rule mempool_alloc_spec [OF os inv]) (rule that)
  have k: "kept c c' (others \<union> slabs_of c ?R)" by (rule kept_mono [OF al(3)]) blast
  let ?a = "set_pool j (sm_pool_update (\<lambda>_. mp')) a"
  have "slabs_of c (bs @ concat (slab_lists a)) \<subseteq> slabs_of c ?R \<union> slabs_of c (pool_slabs (nth_pool a j))"
    unfolding slabs_of_def image_Un [symmetric] by (rule image_mono [OF all_slabs [OF j(1)]])
  then have "kept c c' (slabs_of c (bs @ concat (slab_lists a)))" by (intro kept_mono [OF al(3)]) blast
  then have bytes: "mem c' x = mem c x" if "(q, k) \<in> X" "x \<in> span q k" for q k x using object_kept [OF core that(1) _ that(2)] by blast
  have "if p = NULL then small_core c' m' others ?a X own bs
      else p \<notin> fst ` X \<and> small_core c' m' others ?a (insert (p, n) X) (own(p := j)) bs"
  proof (cases "p = NULL")
    case True
    then show ?thesis using small_core_pool_same(1) [OF core j(1) al(2) k al(5,4) conjunct1 [OF al(6) [OF True]]] by simp
  next
    case False
    note new = al(7) [OF False]
    have fresh: "p \<notin> fst ` X"
    proof
      assume "p \<in> fst ` X"
      then obtain n' where x: "(p, n') \<in> X" by auto
      show False
      proof (cases "n' \<le> sm_objsize_max a \<and> own p = j")
        case True
        then show False using small_object(4) [OF core x] new by simp
      next
        case False
        then have "p \<in> slab_bytes (slabs_of c ?R)" by (intro object_elsewhere [OF core x]) blast
        then have 1: "p \<in> slab_bytes (others \<union> slabs_of c ?R)" using slab_bytes_mono [of "slabs_of c ?R" "others \<union> slabs_of c ?R"] by blast
        have ok': "pool_ok {} c' m' (others \<union> slabs_of c ?R) mp'" using al(2) by (simp add: mempool_inv_def)
        have "p \<in> live_objs c' m' mp'" using new by simp
        from live_outside(1) [OF ok' this] have "p \<notin> span p (objsize mp')" using 1 by blast
        then show False using pool_okD(7) [OF ok'] by simp
      qed
    qed
    have "small_core c' m' others ?a (insert (p, n) X) (own(p := j)) bs"
    proof (rule small_core_pool(1) [OF core j(1) al(2) k al(5,4)])
      show "finite (insert (p, n) X)" "inj_on fst (insert (p, n) X)" using O fresh by (auto simp: objects_ok_def inj_on_insert)
      show "class_of a n' \<le> j \<and> sm_group (small_mempool_cache a ! j) = sm_group (small_mempool_cache a ! class_of a n') \<and> q \<in> live_objs c' m' mp'"
        if q: "(q, n') \<in> insert (p, n) X" "n' \<le> sm_objsize_max a" "(own(p := j)) q = j" for q n'
      proof (cases "q = p")
        case True
        then have "n' = n" using q(1) fresh by force
        then show ?thesis using True j new by simp
      next
        case False
        then show ?thesis using small_object [OF core, of q n'] q new by auto
      qed
      show "\<exists>n' \<le> sm_objsize_max a. (q, n') \<in> insert (p, n) X \<and> (own(p := j)) q = j" if "q \<in> live_objs c' m' mp'" for q
      proof (cases "q = p")
        case True
        then show ?thesis using n by auto
      next
        case False
        then have "q \<in> live_objs c m (nth_pool a j)" using that new by simp
        then show ?thesis using O j(1) False unfolding objects_ok_def by fastforce
      qed
      show "(q, n') \<in> insert (p, n) X \<and> (own(p := j)) q \<noteq> j \<longleftrightarrow> (q, n') \<in> X \<and> own q \<noteq> j" if "n' \<le> sm_objsize_max a" for q n'
        using fresh by force
      show "(own(p := j)) q = own q" if "(q, n') \<in> X" for q n' using fresh that by force
      show "(q, n') \<in> insert (p, n) X \<longleftrightarrow> (q, n') \<in> X" if "sm_objsize_max a < n'" for q n' using that n by auto
    qed
    then show ?thesis using False fresh by simp
  qed
  then show thesis using al(1,4) bytes keptD(2) [OF k] by (intro that)
qed

lemma small_settle_spec:
  assumes core: "small_core c m others a X own bs" and w: "waste_ok a" and k: "k < pool_count a"
    and ch: "\<And>i. i < pool_count a \<Longrightarrow> i \<noteq> k \<Longrightarrow> charge a own X i \<le> waste (small_mempool_cache a ! i)"
    and u: "used_pool (small_mempool_cache a ! k) = Some u" and d: "charge a own X k \<le> waste (small_mempool_cache a ! k) + (pool_size a u - pool_size a k)"
  obtains a' where "small_settle a k = Some a'" and "small_core c m others a' X own bs" and "waste_ok a'" and "same_sizes a a'"
    and "\<And>i. i < pool_count a \<Longrightarrow> charge a' own X i \<le> waste (small_mempool_cache a' ! i)"
proof (cases "u = k")
  case True
  have "charge a own X i \<le> waste (small_mempool_cache a ! i)" if "i < pool_count a" for i using ch [OF that] d True by (cases "i = k") simp_all
  moreover have "small_settle a k = Some a" using u k True by (simp add: small_settle_def)
  ultimately show thesis using core w same_sizes_refl by (intro that [of a])
next
  case False
  note O = small_coreD(3) [OF core]
  obtain u' where u': "used_pool (small_mempool_cache a ! k) = Some u'" "k \<le> u'" "u' < pool_count a" "is_active a u'"
    "\<And>i. k \<le> i \<Longrightarrow> i < u' \<Longrightarrow> \<not> is_active a i" by (rule used_pool_serves [OF core k]) (rule that)
  have U: "k < u" "u < pool_count a" "\<not> is_active a k" using u' u False by auto
  obtain g where g: "g < length (small_mempool_groups a)" "pool_group a k = Some (g, small_mempool_groups a ! g)"
    by (rule group_of [OF groups_okD(1) [OF small_coreD(4) [OF core]] k])
  have lim: "group_limit a k = waste_max (small_mempool_groups a ! g)" "group_limit a k < 2 ^ 32" "0 < group_limit a k"
    using g small_coreD(5) [OF core] by (simp_all add: group_limit_def waste_limits_def)
  have wk: "waste (small_mempool_cache a ! k) < group_limit a k" using w k U(3) by (auto simp: waste_ok_def)
  have sz: "pool_size a k \<le> pool_size a u" "pool_size a u \<le> sm_objsize_max a" "sm_objsize_max a < 2 ^ 32"
    using pool_size_mono [OF core, of k u] U(1,2) small_coreD(1) [OF core] by (simp_all add: small_config_def)
  let ?w = "waste (small_mempool_cache a ! k) + (pool_size a u - pool_size a k)"
  have "nat ((int (pool_size a u) - int (pool_size a k)) mod 2 ^ 32) = pool_size a u - pool_size a k"
    using sz by (intro nat_mod_power) (simp_all add: of_nat_diff)
  moreover have "?w < 2 ^ 32 + 2 ^ 32" using wk lim(2) sz by linarith
  then have "?w < 2 ^ 64" by simp
  ultimately have wv: "(waste (small_mempool_cache a ! k) + nat ((int (pool_size a u) - int (pool_size a k)) mod 2 ^ 32)) mod 2 ^ 64 = ?w" by simp
  let ?a = "set_pool k (waste_update (\<lambda>_. ?w)) a"
  have s1: "same_sizes a ?a" by (rule same_sizes_waste)
  have G: "groups_ok (pool_count a) ?a" "waste_limits ?a" "\<And>i. i < pool_count a \<Longrightarrow> is_active ?a i = is_active a i"
    "\<And>i. i < pool_count a \<Longrightarrow> group_limit ?a i = group_limit a i" "pool_group ?a k = pool_group a k"
    using set_waste_groups [where j = k and w = ?w and a = a] small_coreD(4,5) [OF core] k by simp_all
  have c1: "small_core c m others ?a X own bs"
    by (rule small_core_same [OF core s1 G(1,2)]) (simp add: nth_set_pool)
  have ws: "waste (small_mempool_cache ?a ! i) = (if i = k then ?w else waste (small_mempool_cache a ! i))" if "i < pool_count a" for i
    using that by (simp add: nth_set_pool)
  have ch1: "charge ?a own X i \<le> waste (small_mempool_cache ?a ! i)" if "i < pool_count a" for i
    using charge_same [OF O s1 that] ws [OF that] ch [OF that] d by simp
  have run: "small_settle a k = (if ?w \<ge> group_limit a k then small_mempool_activate ?a k else Some ?a)"
    using k u False U(2) g(2) lim(1) G(5) wv unfolding small_settle_def by (simp add: Let_def)
  have w1: "waste (small_mempool_cache ?a ! i) < group_limit a i + sm_objsize_max a \<and>
      (i \<noteq> k \<longrightarrow> is_active a i \<or> waste (small_mempool_cache ?a ! i) < group_limit a i)" if i: "i < pool_count a" for i
    using w i ws [OF i] wk sz unfolding waste_ok_def by (cases "i = k") auto
  show thesis
  proof (cases "?w \<ge> group_limit a k")
    case le: True
    obtain a' where a': "small_mempool_activate ?a k = Some a'" "groups_ok (pool_count a) a'" "same_pools ?a a'"
      "\<And>j. j < pool_count a \<Longrightarrow> is_active a' j \<longleftrightarrow> is_active ?a j \<or> j = k"
      by (rule activate_spec [OF G(1) k]) (use G(3) [OF k] U(3) that in simp_all)
    have s2: "same_sizes ?a a'" by (rule same_sizes_pools [OF a'(3)])
    have sb: "same_but_used (small_mempool_cache ?a) (small_mempool_cache a')" using a'(3) by (simp add: same_pools_def)
    have l: "length (small_mempool_cache ?a) = pool_count a" by simp
    note B = same_but_usedD [OF sb, unfolded l] and L = same_pools_limits [OF a'(3), unfolded l]
    have c2: "small_core c m others a' X own bs"
      by (rule small_core_same [OF c1 s2]) (use a'(2) L(1) G(2) B(1) in simp_all)
    have "waste_ok a'"
      unfolding waste_ok_def same_sizesD(1,3) [OF s2] same_sizesD(1,3) [OF s1]
    proof (intro allI impI)
      fix i assume i: "i < pool_count a"
      show "(is_active a' i \<or> waste (small_mempool_cache a' ! i) < group_limit a' i) \<and> waste (small_mempool_cache a' ! i) < group_limit a' i + sm_objsize_max a"
        using w1 [OF i] a'(4) [OF i] G(3,4) [OF i] L(2) [OF i] B(3) [OF i] by (cases "i = k") auto
    qed
    moreover have "charge a' own X i \<le> waste (small_mempool_cache a' ! i)" if "i < pool_count a" for i
      using charge_same [OF small_coreD(3) [OF c1] s2, of i] ch1 [OF that] B(3) [OF that] that by simp
    ultimately show thesis using run le a'(1) c2 same_sizes_trans [OF s1 s2] by (intro that [of a']) simp_all
  next
    case lt: False
    have "waste_ok ?a"
      unfolding waste_ok_def same_sizesD(1,3) [OF s1]
    proof (intro allI impI)
      fix i assume i: "i < pool_count a"
      show "(is_active ?a i \<or> waste (small_mempool_cache ?a ! i) < group_limit ?a i) \<and> waste (small_mempool_cache ?a ! i) < group_limit ?a i + sm_objsize_max a"
        using w1 [OF i] G(3,4) [OF i] lt ws [OF i] by (cases "i = k") auto
    qed
    then show thesis using run lt c1 s1 ch1 by (intro that [of ?a]) simp_all
  qed
qed

lemma same_sizes_sym: "same_sizes a b \<Longrightarrow> same_sizes b a"
  by (auto simp: same_sizes_def same_shape_def)

definition charged :: "small_alloc \<Rightarrow> (addr \<Rightarrow> nat) \<Rightarrow> (addr \<times> nat) set \<Rightarrow> bool" where
  "charged a own X \<longleftrightarrow> waste_ok a \<and> (\<forall>i < pool_count a. charge a own X i \<le> waste (small_mempool_cache a ! i))"

lemma small_inv_charged: "small_inv c m others a X \<longleftrightarrow> (\<exists>own bs. small_core c m others a X own bs \<and> charged a own X)"
  by (simp add: small_inv_def charged_def)

lemma charged_pool:
  assumes "objects_ok c m a X own bs" and "charged a own X" and j: "j < pool_count a" and sh: "same_shape (nth_pool a j) mp'"
  defines "a' \<equiv> set_pool j (sm_pool_update (\<lambda>_. mp')) a"
  shows "charged a' own X" and "waste_ok a'" and "i < pool_count a \<Longrightarrow> waste (small_mempool_cache a' ! i) = waste (small_mempool_cache a ! i)"
    and "i < pool_count a \<Longrightarrow> used_pool (small_mempool_cache a' ! i) = used_pool (small_mempool_cache a ! i)"
proof -
  have s: "same_sizes a a'" unfolding a'_def by (rule same_sizes_pool [OF j sh])
  note G = set_pool_groups(3,4) [OF j sh, folded a'_def]
  show w: "waste (small_mempool_cache a' ! i) = waste (small_mempool_cache a ! i)" if "i < pool_count a" for i
    using that by (simp add: a'_def nth_set_pool)
  show "used_pool (small_mempool_cache a' ! i) = used_pool (small_mempool_cache a ! i)" if "i < pool_count a" for i
    using that by (simp add: a'_def nth_set_pool)
  show wk: "waste_ok a'" using assms(2) G w unfolding charged_def waste_ok_def same_sizesD(1,3) [OF s] by simp
  show "charged a' own X"
    unfolding charged_def same_sizesD(1) [OF s] using assms(2) wk w charge_same [OF assms(1) s] by (simp add: charged_def)
qed

lemma small_take:
  assumes os: "os_ok os" and core: "small_core c m others a X own bs" and ch: "charged a own X" and n: "n \<le> sm_objsize_max a"
  defines "k \<equiv> class_of a n"
  assumes j: "j < pool_count a" "k \<le> j" "sm_group (small_mempool_cache a ! j) = sm_group (small_mempool_cache a ! k)"
    and u: "used_pool (small_mempool_cache a ! k) = Some u" "j \<le> u"
  obtains (none) c' m' mp' where "mempool_alloc os c m (nth_pool a j) = Some (NULL, c', m', mp')" and "same_sizes a (set_pool j (sm_pool_update (\<lambda>_. mp')) a)"
      and "small_core c' m' others (set_pool j (sm_pool_update (\<lambda>_. mp')) a) X own bs" and "charged (set_pool j (sm_pool_update (\<lambda>_. mp')) a) own X"
      and "\<And>q l x. (q, l) \<in> X \<Longrightarrow> x \<in> span q l \<Longrightarrow> mem c' x = mem c x" and "same_cache c c'"
  | (some) p c' m' mp' a' where "mempool_alloc os c m (nth_pool a j) = Some (p, c', m', mp')" and "p \<noteq> NULL" and "p \<notin> fst ` X"
      and "small_settle (set_pool j (sm_pool_update (\<lambda>_. mp')) a) k = Some a'" and "small_inv c' m' others a' (insert (p, n) X)" and "same_sizes a a'"
      and "\<And>q l x. (q, l) \<in> X \<Longrightarrow> x \<in> span q l \<Longrightarrow> mem c' x = mem c x" and "same_cache c c'"
proof -
  note O = small_coreD(3) [OF core]
  obtain p c' m' mp' where al: "mempool_alloc os c m (nth_pool a j) = Some (p, c', m', mp')" "same_shape (nth_pool a j) mp'"
    "if p = NULL then small_core c' m' others (set_pool j (sm_pool_update (\<lambda>_. mp')) a) X own bs
      else p \<notin> fst ` X \<and> small_core c' m' others (set_pool j (sm_pool_update (\<lambda>_. mp')) a) (insert (p, n) X) (own(p := j)) bs"
    "\<And>q k x. (q, k) \<in> X \<Longrightarrow> x \<in> span q k \<Longrightarrow> mem c' x = mem c x" "same_cache c c'"
    by (rule small_core_alloc [OF os core n j(1)]) (use j(2,3) that in \<open>simp_all add: k_def\<close>)
  let ?a = "set_pool j (sm_pool_update (\<lambda>_. mp')) a"
  have s: "same_sizes a ?a" by (rule same_sizes_pool [OF j(1) al(2)])
  note S = same_sizesD [OF s] and C = charged_pool [OF O ch j(1) al(2)]
  show thesis
  proof (cases "p = NULL")
    case True
    show thesis by (rule none [of c' m' mp']) (use al True s C(1) in auto)
  next
    case False
    have fresh: "p \<notin> fst ` X" and core': "small_core c' m' others ?a (insert (p, n) X) (own(p := j)) bs" using al(3) False by simp_all
    have k: "k < pool_count a" unfolding k_def by (rule small_coreD(6) [OF core n])
    have fin: "finite X" using O by (simp add: objects_ok_def)
    have cost: "charge ?a (own(p := j)) (insert (p, n) X) i = (if k = i then pool_size a j - pool_size a i else 0) + charge a own X i"
      if "i < pool_count a" for i
      using charge_same [OF small_coreD(3) [OF core'] same_sizes_sym [OF s], of i] charge_insert [OF fin fresh n, of own j i] that S(1)
      by (simp add: k_def)
    have wi: "charge a own X i \<le> waste (small_mempool_cache ?a ! i)" if "i < pool_count a" for i
      using ch C(3) [OF that] that by (simp add: charged_def)
    have uk: "used_pool (small_mempool_cache ?a ! k) = Some u" using C(4) [OF k] u(1) by simp
    obtain u' where "used_pool (small_mempool_cache a ! k) = Some u'" "u' < pool_count a" by (rule used_pool_serves [OF core k])
    then have "pool_size a j \<le> pool_size a u" "pool_size ?a u = pool_size a u" "pool_size ?a k = pool_size a k"
      using pool_size_mono [OF core u(2)] S(4) u(1) k by simp_all
    then have "charge ?a (own(p := j)) (insert (p, n) X) k \<le> waste (small_mempool_cache ?a ! k) + (pool_size ?a u - pool_size ?a k)"
      using cost [OF k] wi [OF k] by simp
    moreover have "charge ?a (own(p := j)) (insert (p, n) X) i \<le> waste (small_mempool_cache ?a ! i)" if "i < pool_count ?a" "i \<noteq> k" for i
      using cost [of i] wi [of i] that S(1) by simp
    ultimately obtain a' where a': "small_settle ?a k = Some a'" "small_core c' m' others a' (insert (p, n) X) (own(p := j)) bs" "waste_ok a'" "same_sizes ?a a'"
      "\<And>i. i < pool_count ?a \<Longrightarrow> charge a' (own(p := j)) (insert (p, n) X) i \<le> waste (small_mempool_cache a' ! i)"
      using small_settle_spec [OF core' C(2) _ _ uk] k S(1) by metis
    have "small_inv c' m' others a' (insert (p, n) X)"
      unfolding small_inv_def using a'(2,3,5) same_sizesD(1) [OF a'(4)] by auto
    then show thesis using al(1) False fresh a'(1) same_sizes_trans [OF s a'(4)] al(4,5) by (intro some [of p c' m' mp' a'])
  qed
qed

lemma smalloc_small:
  assumes os: "os_ok os" and inv: "small_inv c m others a X" and n: "n \<le> sm_objsize_max a"
  obtains p c' m' a' where "smalloc os c m a n = Some (p, c', m', a')" and "same_sizes a a'" and "same_cache c c'"
    and "\<And>q l x. (q, l) \<in> X \<Longrightarrow> x \<in> span q l \<Longrightarrow> mem c' x = mem c x"
    and "if p = NULL then small_inv c' m' others a' X else p \<notin> fst ` X \<and> small_inv c' m' others a' (insert (p, n) X)"
proof -
  obtain own bs where core: "small_core c m others a X own bs" and ch: "charged a own X" using inv by (auto simp: small_inv_charged)
  let ?k = "class_of a n"
  have k: "?k < pool_count a" "n \<le> pool_size a ?k" by (rule small_coreD(6,7) [OF core n])+
  have search: "small_mempool_search a n = Some ?k" using n by (simp add: small_mempool_search_def class_of_def)
  obtain j where j: "used_pool (small_mempool_cache a ! ?k) = Some j" "?k \<le> j" "j < pool_count a"
    "sm_group (small_mempool_cache a ! j) = sm_group (small_mempool_cache a ! ?k)" by (rule used_pool_serves [OF core k(1)])
  have fits: "n \<le> pool_size a j" using k(2) pool_size_mono [OF core j(2,3)] by linarith
  show thesis
  proof (rule small_take [OF os core ch n j(3,2,4,1) order_refl])
    fix p c' m' mp' a' assume t: "mempool_alloc os c m (nth_pool a j) = Some (p, c', m', mp')" "p \<noteq> NULL" "p \<notin> fst ` X"
      "small_settle (set_pool j (sm_pool_update (\<lambda>_. mp')) a) ?k = Some a'" "small_inv c' m' others a' (insert (p, n) X)" "same_sizes a a'"
      "\<And>q l x. (q, l) \<in> X \<Longrightarrow> x \<in> span q l \<Longrightarrow> mem c' x = mem c x" "same_cache c c'"
    have "smalloc os c m a n = Some (p, c', m', a')"
      using t(1,2,4) k(1) j(1,3) fits unfolding smalloc_def search by simp
    then show thesis using t(2,3,5-8) by (intro that [of p c' m' a']) simp_all
  next
    fix c1 m1 mp1
    let ?a1 = "set_pool j (sm_pool_update (\<lambda>_. mp1)) a"
    assume t: "mempool_alloc os c m (nth_pool a j) = Some (NULL, c1, m1, mp1)" "same_sizes a ?a1" "small_core c1 m1 others ?a1 X own bs" "charged ?a1 own X"
      "\<And>q l x. (q, l) \<in> X \<Longrightarrow> x \<in> span q l \<Longrightarrow> mem c1 x = mem c x" "same_cache c c1"
    have "\<exists>c' a'. small_mempool_sweep_loop [0 ..< pool_count ?a1] c1 ?a1 = Some (c', a') \<and> small_core c' m1 others a' X own bs \<and> waste_ok a' \<and> swept c1 ?a1 c' a' X"
      by (rule sweep_loop_spec [OF t(3)]) (use t(4) in \<open>auto simp: charged_def\<close>)
    then obtain c2 a2 where sw: "small_mempool_group_sweep_sparse c1 ?a1 = Some (c2, a2)" "small_core c2 m1 others a2 X own bs" "waste_ok a2" "swept c1 ?a1 c2 a2 X"
      unfolding small_mempool_group_sweep_sparse_def by blast
    have s2: "same_sizes ?a1 a2" "same_cache c1 c2" using sw(4) by (simp_all add: swept_def)
    note S1 = same_sizesD [OF t(2)] and S2 = same_sizesD [OF s2(1)] and S = same_sizesD [OF same_sizes_trans [OF t(2) s2(1)]]
    have ch2: "charged a2 own X"
      unfolding charged_def using sw(3,4) t(4) charge_same [OF small_coreD(3) [OF t(3)] s2(1)] S2(1) by (simp add: swept_def charged_def)
    obtain u where u: "used_pool (small_mempool_cache a2 ! ?k) = Some u" by (rule used_pool_serves [OF sw(2), of ?k]) (use k(1) S(1) that in simp)
    have u1: "used_pool (small_mempool_cache ?a1 ! ?k) = Some j" using j(1) k(1) by (auto simp: nth_set_pool)
    have "j \<le> u"
      by (rule used_pool_rises [OF t(3) sw(2) _ _ _ u1 u]) (use sw(4) k(1) S1(1) S2(1) in \<open>auto simp: swept_def\<close>)
    have n2: "n \<le> sm_objsize_max a2" "class_of a2 n = ?k" using n S(2,3) by simp_all
    have g2: "sm_group (small_mempool_cache a2 ! j) = sm_group (small_mempool_cache a2 ! ?k)" using S(6) [of j] S(6) [of ?k] j(3,4) k(1) by simp
    have j2: "j < pool_count a2" using j(3) S(1) by simp
    have mem2: "mem c2 x = mem c x" if "(q, l) \<in> X" "x \<in> span q l" for q l x
    proof -
      have "mem c2 x = mem c1 x" using sw(4) that unfolding swept_def by blast
      then show ?thesis using t(5) [OF that] by simp
    qed
    have cc2: "same_cache c c2" using t(6) s2(2) keeps_trans unfolding same_cache_def by blast
    show thesis
    proof (rule small_take [OF os sw(2) ch2 n2(1) j2, unfolded n2(2), OF j(2) g2 u \<open>j \<le> u\<close>])
      fix p c' m' mp' a' assume r: "mempool_alloc os c2 m1 (nth_pool a2 j) = Some (p, c', m', mp')" "p \<noteq> NULL" "p \<notin> fst ` X"
        "small_settle (set_pool j (sm_pool_update (\<lambda>_. mp')) a2) ?k = Some a'" "small_inv c' m' others a' (insert (p, n) X)" "same_sizes a2 a'"
        "\<And>q l x. (q, l) \<in> X \<Longrightarrow> x \<in> span q l \<Longrightarrow> mem c' x = mem c2 x" "same_cache c2 c'"
      have "smalloc os c m a n = Some (p, c', m', a')"
        using t(1) r(1,2,4) k(1) j(1,3) j2 fits sw(1) unfolding smalloc_def search by simp
      moreover have "same_sizes a a'" by (rule same_sizes_trans [OF same_sizes_trans [OF t(2) s2(1)] r(6)])
      moreover have "same_cache c c'" using cc2 r(8) keeps_trans unfolding same_cache_def by blast
      ultimately show thesis using r(2,3,5,7) mem2 by (intro that [of p c' m' a']) simp_all
    next
      fix c' m' mp' let ?a' = "set_pool j (sm_pool_update (\<lambda>_. mp')) a2"
      assume r: "mempool_alloc os c2 m1 (nth_pool a2 j) = Some (NULL, c', m', mp')" "same_sizes a2 ?a'" "small_core c' m' others ?a' X own bs" "charged ?a' own X"
        "\<And>q l x. (q, l) \<in> X \<Longrightarrow> x \<in> span q l \<Longrightarrow> mem c' x = mem c2 x" "same_cache c2 c'"
      have k2: "?k < pool_count a2" using k(1) S(1) by simp
      have "smalloc os c m a n = Some (NULL, c', m', ?a')"
        using t(1) r(1) k(1) j(1,3) j2 k2 fits sw(1) unfolding smalloc_def search by simp
      moreover have "same_sizes a ?a'" by (rule same_sizes_trans [OF same_sizes_trans [OF t(2) s2(1)] r(2)])
      moreover have "same_cache c c'" using cc2 r(6) keeps_trans unfolding same_cache_def by blast
      moreover have "small_inv c' m' others ?a' X" using r(3,4) by (auto simp: small_inv_charged)
      ultimately show thesis using r(5) mem2 by (intro that [of NULL c' m' ?a']) simp_all
    qed
  qed
qed

end
