(* ===== verification/Small_Heap.thy ===== *)
theory Small_Heap
  imports Small_Ops
begin

text \<open>
  Large objects, freeing, writing into objects, and the small allocator as an implementation of
  the contract of an allocator of objects.
\<close>

section \<open>Large objects\<close>

definition small_request :: "slab_cache \<Rightarrow> small_alloc \<Rightarrow> nat \<Rightarrow> bool" where
  "small_request c a n \<longleftrightarrow> (sm_objsize_max a < n \<longrightarrow> n + slab_sizeof < 2 ^ 64 \<and> quota_room c (n + slab_sizeof))"

lemma charge_large: "sm_objsize_max a < n \<Longrightarrow> charge a own (insert (p, n) X) i = charge a own X i"
  "sm_objsize_max a < n \<Longrightarrow> charge a own (X - {(p, n)}) i = charge a own X i"
  unfolding charge_def by (rule sum.cong; force)+

abbreviation all_slab_list :: "addr list \<Rightarrow> small_alloc \<Rightarrow> addr list" where
  "all_slab_list bs a \<equiv> bs @ concat (slab_lists a)"

lemma small_core_owns: "small_core c m others a X own bs \<Longrightarrow> owns c others (all_slab_list bs a)"
  using small_coreD(2) by (auto simp: pools_ok_def)

text \<open>The list of large slabs changes; the pools stay.\<close>

lemma small_core_large:
  assumes core: "small_core c m others a X own bs" and own': "owns c' others (all_slab_list bs' a)"
    and s: "slabs_of c' (concat (slab_lists a)) = slabs_of c (concat (slab_lists a))" and k: "kept c c' (slabs_of c (concat (slab_lists a)))"
    and X': "finite X'" "inj_on fst X'" "\<And>p n. n \<le> sm_objsize_max a \<Longrightarrow> (p, n) \<in> X' \<longleftrightarrow> (p, n) \<in> X"
    and big: "\<And>p n. (p, n) \<in> X' \<Longrightarrow> sm_objsize_max a < n \<Longrightarrow> slab_sizeof \<le> p \<and> slab_from_data p \<in> set bs' \<and> sl_size (hdr c' (slab_from_data p)) = n + slab_sizeof"
    and bs': "\<And>s. s \<in> set bs' \<Longrightarrow> (\<exists>n > sm_objsize_max a. (slab_data s, n) \<in> X') \<and> sl_order (hdr c' s) = order_max c' + 1"
  shows "small_core c' m others a X' own bs'"
proof -
  note P = pools_ok_outside [OF small_coreD(2) [OF core] own' s k]
  have O: "objects_ok c m a X own bs" by (rule small_coreD(3) [OF core])
  have "objects_ok c' m a X' own bs'"
    unfolding objects_ok_def
  proof (intro conjI)
    show "\<forall>(p, n) \<in> X'. n \<le> sm_objsize_max a \<longrightarrow> own p < pool_count a \<and> class_of a n \<le> own p \<and>
        sm_group (small_mempool_cache a ! own p) = sm_group (small_mempool_cache a ! class_of a n) \<and> p \<in> live_objs c' m (nth_pool a (own p))"
      using small_object [OF core] X'(3) P(2) by auto
    show "\<forall>i < pool_count a. \<forall>p \<in> live_objs c' m (nth_pool a i). \<exists>n \<le> sm_objsize_max a. (p, n) \<in> X' \<and> own p = i"
    proof (intro allI impI ballI)
      fix i p assume i: "i < pool_count a" and p: "p \<in> live_objs c' m (nth_pool a i)"
      then have "p \<in> live_objs c m (nth_pool a i)" using P(2) by simp
      then obtain n where "n \<le> sm_objsize_max a" "(p, n) \<in> X" "own p = i" using O i unfolding objects_ok_def by blast
      then show "\<exists>n \<le> sm_objsize_max a. (p, n) \<in> X' \<and> own p = i" using X'(3) by blast
    qed
  qed (use X' big bs' in auto)
  then show ?thesis using small_coreD(1) [OF core] P(1) by (simp add: small_core_def)
qed

lemma slab_sizeof_pos: "0 < slab_sizeof"
  by (simp add: slab_sizeof_48)

lemma smalloc_large:
  assumes os: "os_ok os" and inv: "small_inv c m others a X" and n: "sm_objsize_max a < n" and r: "small_request c a n"
  obtains p c' where "smalloc os c m a n = Some (p, c', m, a)" and "same_cache c c'"
    and "\<And>q l x. (q, l) \<in> X \<Longrightarrow> x \<in> span q l \<Longrightarrow> mem c' x = mem c x"
    and "if p = NULL then small_inv c' m others a X else p \<notin> fst ` X \<and> small_inv c' m others a (insert (p, n) X)"
proof -
  obtain own bs where core: "small_core c m others a X own bs" and ch: "charged a own X" using inv by (auto simp: small_inv_charged)
  let ?zs = "all_slab_list bs a" and ?n = "n + slab_sizeof"
  let ?V = "others \<union> slabs_of c ?zs"
  have own: "owns c others ?zs" by (rule small_core_owns [OF core])
  have ci: "cache_inv c ?V" using own by (simp add: owns_def)
  have O: "objects_ok c m a X own bs" by (rule small_coreD(3) [OF core])
  have req: "?n < 2 ^ 64" "quota_room c ?n" using r n by (simp_all add: small_request_def)
  have search: "small_mempool_search a n = None" using n by (simp add: small_mempool_search_def)
  have sub: "slabs_of c (concat (slab_lists a)) \<subseteq> ?V" by (auto simp: slabs_of_def)
  show thesis
  proof (rule slab_get_large_client [OF os ci req])
    fix c' assume g: "slab_get_large os c n = Some (NULL, c')" "cache_inv c' ?V" "kept c c' ?V"
    note E = owns_stable [OF g(2) own]
    have st: "slabs_of c' (concat (slab_lists a)) = slabs_of c (concat (slab_lists a))" by (rule slabs_of_stable(1) [OF g(2) sub])
    have bsz: "sl_size (hdr c' s) = sl_size (hdr c s)" "sl_order (hdr c' s) = sl_order (hdr c s)" if "s \<in> set bs" for s
      using slabs_of_eq_size [OF E(2), of s] keptD(3) [OF g(3), of s "sl_size (hdr c s)"] that by (simp_all add: slabs_of_def)
    have om: "order_max c' = order_max c" using keptD(1) [OF g(3)] by (simp add: keeps_def)
    have "small_core c' m others a X own bs"
    proof (rule small_core_large [OF core E(1) st kept_mono [OF g(3) sub]])
      show "slab_sizeof \<le> p \<and> slab_from_data p \<in> set bs \<and> sl_size (hdr c' (slab_from_data p)) = n' + slab_sizeof"
        if "(p, n') \<in> X" "sm_objsize_max a < n'" for p n'
        using large_object [OF core that] bsz(1) by simp
      show "(\<exists>n' > sm_objsize_max a. (slab_data s, n') \<in> X) \<and> sl_order (hdr c' s) = order_max c' + 1" if "s \<in> set bs" for s
        using O that bsz(2) [OF that] om by (simp add: objects_ok_def)
    qed (use O in \<open>simp_all add: objects_ok_def\<close>)
    moreover have "mem c' x = mem c x" if "(q, l) \<in> X" "x \<in> span q l" for q l x
      by (rule object_kept [OF core that(1) kept_mono [OF g(3)] that(2)]) blast
    moreover have "smalloc os c m a n = Some (NULL, c', m, a)" using g(1) by (simp add: smalloc_def search)
    ultimately show thesis using ch keptD(2) [OF g(3)] by (intro that [of NULL c']) (auto simp: small_inv_charged)
  next
    fix x c' assume g: "slab_get_large os c n = Some (x, c')" "x \<noteq> NULL" "cache_inv c' (insert (x, ?n) ?V)" "(x, ?n) \<notin> ?V" "kept c c' ?V"
      "sl_order (hdr c' x) = order_max c + 1"
    have V': "?V \<subseteq> insert (x, ?n) ?V" by blast
    have xs: "sl_size (hdr c' x) = ?n" by (rule cache_inv_slab(2) [OF g(3)]) simp
    have E: "slabs_of c' ?zs = slabs_of c ?zs" by (rule slabs_of_stable(1) [OF g(3)]) blast
    have st: "slabs_of c' (concat (slab_lists a)) = slabs_of c (concat (slab_lists a))" by (rule slabs_of_stable(1) [OF g(3)]) (use sub V' in blast)
    have xz: "x \<notin> set ?zs"
    proof
      assume "x \<in> set ?zs"
      then have "(x, sl_size (hdr c x)) \<in> ?V" by (simp add: slabs_of_def)
      moreover from this have "sl_size (hdr c x) = ?n" using cache_inv_fun [OF g(3), of x "sl_size (hdr c x)" ?n] by blast
      ultimately show False using g(4) by simp
    qed
    have own': "owns c' others (all_slab_list (x # bs) a)"
      using own g(3,4) xz E xs unfolding owns_def append_Cons slabs_of_Cons by (auto simp: Un_ac)
    let ?p = "slab_data x"
    have fresh: "?p \<notin> fst ` X"
    proof
      assume "?p \<in> fst ` X"
      then obtain l where l: "(?p, l) \<in> X" by auto
      have px: "?p \<in> span x (sl_size (hdr c' x))" unfolding xs using n by (simp add: slab_data_def)
      show False using core l
      proof (cases rule: object_slab)
        case (small s)
        have o: "own ?p < pool_count a" by (rule small_object(1) [OF core l small(1)])
        have s: "s \<in> set ?zs" using slab_lists_mem [OF o] small(2) by auto
        have "mempool_inv c m (others \<union> slabs_of c (slabs_but (own ?p) bs a)) (nth_pool a (own ?p))" by (rule pools_ok_pool [OF small_coreD(2) [OF core] o])
        then have ok: "pool_ok {} c m (others \<union> slabs_of c (slabs_but (own ?p) bs a)) (nth_pool a (own ?p))" by (simp add: mempool_inv_def)
        have "?p \<in> span s (sl_size (hdr c s))" by (rule live_obj_slab(2) [OF ok small(2,4)])
        then have "?p \<in> span s (sl_size (hdr c' s))" using slabs_of_eq_size [OF E s] by simp
        moreover have "x \<noteq> s" using xz s by blast
        ultimately show False using owns_disjoint(2) [OF own', of x s] s px by auto
      next
        case large
        then show False using xz by (simp add: slab_from_data_def slab_data_def)
      qed
    qed
    have bsz: "sl_size (hdr c' s) = sl_size (hdr c s)" "sl_order (hdr c' s) = sl_order (hdr c s)" if "s \<in> set bs" for s
      using slabs_of_eq_size [OF E, of s] keptD(3) [OF g(5), of s "sl_size (hdr c s)"] that by (simp_all add: slabs_of_def)
    have om: "order_max c' = order_max c" using keptD(1) [OF g(5)] by (simp add: keeps_def)
    have "small_core c' m others a (insert (?p, n) X) own (x # bs)"
    proof (rule small_core_large [OF core own' st kept_mono [OF g(5) sub]])
      show "finite (insert (?p, n) X)" "inj_on fst (insert (?p, n) X)" using O fresh by (auto simp: objects_ok_def inj_on_insert)
      show "(p, n') \<in> insert (?p, n) X \<longleftrightarrow> (p, n') \<in> X" if "n' \<le> sm_objsize_max a" for p n' using that n by auto
      show "slab_sizeof \<le> p \<and> slab_from_data p \<in> set (x # bs) \<and> sl_size (hdr c' (slab_from_data p)) = n' + slab_sizeof"
        if "(p, n') \<in> insert (?p, n) X" "sm_objsize_max a < n'" for p n'
      proof (cases "(p, n') = (?p, n)")
        case True
        then show ?thesis using xs by (simp add: slab_data_def slab_from_data_def)
      next
        case False
        then have "(p, n') \<in> X" using that(1) by blast
        then show ?thesis using large_object [OF core _ that(2)] bsz(1) by simp
      qed
      show "(\<exists>n' > sm_objsize_max a. (slab_data s, n') \<in> insert (?p, n) X) \<and> sl_order (hdr c' s) = order_max c' + 1" if "s \<in> set (x # bs)" for s
      proof (cases "s = x")
        case True
        then show ?thesis using n g(6) om by auto
      next
        case False
        then have "s \<in> set bs" using that by simp
        then show ?thesis using O bsz(2) om unfolding objects_ok_def by auto
      qed
    qed
    moreover have "charged a own (insert (?p, n) X)" using ch charge_large(1) [OF n] by (simp add: charged_def)
    ultimately have inv': "small_inv c' m others a (insert (?p, n) X)" by (auto simp: small_inv_charged)
    moreover have "mem c' y = mem c y" if "(q, l) \<in> X" "y \<in> span q l" for q l y
      by (rule object_kept [OF core that(1) kept_mono [OF g(5)] that(2)]) blast
    moreover have "smalloc os c m a n = Some (?p, c', m, a)" using g(1,2) by (simp add: smalloc_def search)
    moreover have "?p \<noteq> NULL" using g(2) by (simp add: slab_data_def)
    ultimately show thesis using keptD(2) [OF g(5)] fresh by (intro that [of ?p c']) simp_all
  qed
qed

lemma smfree_large:
  assumes inv: "small_inv c m others a X" and p: "(p, n) \<in> X" "sm_objsize_max a < n"
  obtains c' where "smfree c m a p n = Some (c', m, a)" and "same_cache c c'" and "small_inv c' m others a (X - {(p, n)})"
    and "\<And>q l x. (q, l) \<in> X - {(p, n)} \<Longrightarrow> x \<in> span q l \<Longrightarrow> mem c' x = mem c x"
proof -
  obtain own bs where core: "small_core c m others a X own bs" and ch: "charged a own X" using inv by (auto simp: small_inv_charged)
  let ?zs = "all_slab_list bs a" and ?s = "slab_from_data p" and ?n = "n + slab_sizeof"
  let ?V = "others \<union> slabs_of c ?zs"
  have own: "owns c others ?zs" by (rule small_core_owns [OF core])
  have ci: "cache_inv c ?V" using own by (simp add: owns_def)
  have O: "objects_ok c m a X own bs" by (rule small_coreD(3) [OF core])
  note L = large_object [OF core p]
  have search: "small_mempool_search a n = None" using p(2) by (simp add: small_mempool_search_def)
  have zs: "?s \<in> set ?zs" using L(2) by simp
  have d: "distinct ?zs" using own by (simp add: owns_def)
  have sV: "(?s, ?n) \<in> ?V" using owns_slab(5) [OF own zs] L(3) by simp
  let ?bs = "remove1 ?s bs"
  have W: "?V - {(?s, ?n)} = others \<union> slabs_of c (all_slab_list ?bs a)"
  proof -
    have "others \<inter> slabs_of c ?zs = {}" using own by (simp only: owns_def)
    then have "(?s, ?n) \<notin> others" using owns_slab(4) [OF own zs] unfolding L(3) by blast
    moreover have "slabs_of c ?zs - {(?s, ?n)} = slabs_of c (all_slab_list ?bs a)" using d L(2,3) by (auto simp: slabs_of_def)
    ultimately show ?thesis by blast
  qed
  obtain c' where g: "slab_put_large c ?s = Some c'" "cache_inv c' (others \<union> slabs_of c (all_slab_list ?bs a))"
    "kept c c' (others \<union> slabs_of c (all_slab_list ?bs a))"
    using slab_put_large_client [OF ci sV L(4)] unfolding W by blast
  have E: "slabs_of c' (all_slab_list ?bs a) = slabs_of c (all_slab_list ?bs a)" by (rule slabs_of_stable(1) [OF g(2)]) blast
  have sub: "slabs_of c (concat (slab_lists a)) \<subseteq> others \<union> slabs_of c (all_slab_list ?bs a)" by (auto simp: slabs_of_def)
  have st: "slabs_of c' (concat (slab_lists a)) = slabs_of c (concat (slab_lists a))" by (rule slabs_of_stable(1) [OF g(2) sub])
  have own': "owns c' others (all_slab_list ?bs a)"
    using own g(2) E d unfolding owns_def by (auto simp: slabs_of_def dest: notin_set_remove1)
  have bsz: "sl_size (hdr c' s) = sl_size (hdr c s)" "sl_order (hdr c' s) = sl_order (hdr c s)" if "s \<in> set ?bs" for s
    using slabs_of_eq_size [OF E, of s] keptD(3) [OF g(3), of s "sl_size (hdr c s)"] that by (simp_all add: slabs_of_def)
  have om: "order_max c' = order_max c" using keptD(1) [OF g(3)] by (simp add: keeps_def)
  have sbs: "set ?bs = set bs - {?s}" using d by (intro set_remove1_eq) simp
  have inj: "inj_on fst X" using O by (simp add: objects_ok_def)
  have sd: "slab_from_data q \<noteq> ?s" if q: "(q, l) \<in> X - {(p, n)}" "sm_objsize_max a < l" for q l
  proof
    assume "slab_from_data q = ?s"
    moreover have "slab_sizeof \<le> q" using large_object(1) [OF core, of q l] q by simp
    ultimately have "q = p" using L(1) unfolding slab_from_data_def by linarith
    then show False using inj_onD [OF inj, of "(q, l)" "(p, n)"] q p(1) by auto
  qed
  have "small_core c' m others a (X - {(p, n)}) own ?bs"
  proof (rule small_core_large [OF core own' st kept_mono [OF g(3) sub]])
    show "finite (X - {(p, n)})" "inj_on fst (X - {(p, n)})" using O by (auto simp: objects_ok_def inj_on_diff)
    show "(q, l) \<in> X - {(p, n)} \<longleftrightarrow> (q, l) \<in> X" if "l \<le> sm_objsize_max a" for q l using that p(2) by auto
    show "slab_sizeof \<le> q \<and> slab_from_data q \<in> set ?bs \<and> sl_size (hdr c' (slab_from_data q)) = l + slab_sizeof"
      if q: "(q, l) \<in> X - {(p, n)}" "sm_objsize_max a < l" for q l
      using large_object [OF core, of q l] q sd [OF q] sbs bsz(1) by auto
    show "(\<exists>l > sm_objsize_max a. (slab_data s, l) \<in> X - {(p, n)}) \<and> sl_order (hdr c' s) = order_max c' + 1" if s: "s \<in> set ?bs" for s
    proof -
      have sb: "s \<in> set bs" "s \<noteq> ?s" using s sbs by auto
      then obtain l where l: "sm_objsize_max a < l" "(slab_data s, l) \<in> X" "sl_order (hdr c s) = order_max c + 1"
        using O unfolding objects_ok_def by blast
      have "slab_data s \<noteq> p" using sb(2) by (auto simp: slab_data_def slab_from_data_def)
      then show ?thesis using l bsz(2) [OF s] om by auto
    qed
  qed
  moreover have "charged a own (X - {(p, n)})" using ch charge_large(2) [OF p(2)] by (simp add: charged_def)
  ultimately have inv': "small_inv c' m others a (X - {(p, n)})" by (auto simp: small_inv_charged)
  moreover have "mem c' x = mem c x" if q: "(q, l) \<in> X - {(p, n)}" and x: "x \<in> span q l" for q l x
  proof -
    have qX: "(q, l) \<in> X" using q by blast
    have kz: "kept c c' (slabs_of c (all_slab_list ?bs a))" by (rule kept_mono [OF g(3)]) blast
    show ?thesis using core qX
    proof (cases rule: object_slab)
      case (small s)
      have "s \<in> set (all_slab_list ?bs a)" using slab_lists_mem [OF small_object(1) [OF core qX small(1)]] small(2) by auto
      then have "(s, sl_size (hdr c s)) \<in> slabs_of c (all_slab_list ?bs a)" by (simp add: slabs_of_def)
      then show ?thesis using keptD(4) [OF kz] small(3) x by blast
    next
      case large
      then have "slab_from_data q \<in> set (all_slab_list ?bs a)" using sd [OF q] sbs by simp
      then have "(slab_from_data q, sl_size (hdr c (slab_from_data q))) \<in> slabs_of c (all_slab_list ?bs a)" by (simp add: slabs_of_def)
      then show ?thesis using keptD(4) [OF kz] large(3) x by blast
    qed
  qed
  moreover have "smfree c m a p n = Some (c', m, a)" using g(1) by (simp add: smfree_def search)
  ultimately show thesis using keptD(2) [OF g(3)] by (intro that [of c'])
qed

section \<open>Freeing small objects\<close>

lemma charge_remove:
  assumes "finite X" and "(p, n) \<in> X" and "n \<le> sm_objsize_max a"
  shows "charge a own X i = (if class_of a n = i then pool_size a (own p) - pool_size a i else 0) + charge a own (X - {(p, n)}) i"
proof -
  let ?S = "\<lambda>X. {(q, n) \<in> X. n \<le> sm_objsize_max a \<and> class_of a n = i}" and ?f = "\<lambda>(q, n :: nat). pool_size a (own q) - pool_size a i"
  have fin: "finite (?S X)" by (rule finite_subset [OF _ assms(1)]) auto
  show ?thesis
  proof (cases "class_of a n = i")
    case True
    then have "(p, n) \<in> ?S X" "?S (X - {(p, n)}) = ?S X - {(p, n)}" using assms by auto
    then show ?thesis using True sum.remove [OF fin, of "(p, n)" ?f] unfolding charge_def by simp
  next
    case False
    then have "?S (X - {(p, n)}) = ?S X" by auto
    then show ?thesis using False unfolding charge_def by simp
  qed
qed

text \<open>Finding the slab and the pool of a small object by its address and size.\<close>

lemma object_lookup:
  assumes core: "small_core c m others a X own bs" and p: "(p, n) \<in> X" "n \<le> sm_objsize_max a"
  obtains s where "small_mempool_search a n = Some (class_of a n)" and "slab_from_ptr c p (slab_ptr_mask (nth_pool a (class_of a n))) = Some s"
    and "ms_mempool (m s) = own p" and "s \<in> set (pool_slabs (nth_pool a (own p)))" and "p \<in> slab_live c (nth_pool a (own p)) s (m s)"
proof -
  note S = small_object [OF core p] and k = small_coreD(6) [OF core p(2)]
  have search: "small_mempool_search a n = Some (class_of a n)" using p(2) by (simp add: small_mempool_search_def class_of_def)
  have inv: "mempool_inv c m (others \<union> slabs_of c (slabs_but (own p) bs a)) (nth_pool a (own p))" by (rule pools_ok_pool [OF small_coreD(2) [OF core] S(1)])
  then have ok: "pool_ok {} c m (others \<union> slabs_of c (slabs_but (own p) bs a)) (nth_pool a (own p))" by (simp add: mempool_inv_def)
  obtain s where s: "s \<in> set (pool_slabs (nth_pool a (own p)))" "p \<in> slab_live c (nth_pool a (own p)) s (m s)"
    "slab_from_ptr c p (slab_ptr_mask (nth_pool a (own p))) = Some s" by (rule mempool_slab_of [OF ok S(4)])
  have "ms_mempool (m s) = mp_self (nth_pool a (own p))" using pool_okD(5) [OF ok s(1)] by (simp add: mslab_inv_def)
  moreover have "mp_self (nth_pool a (own p)) = own p" using small_coreD(2) [OF core] S(1) by (simp add: pools_ok_def)
  moreover have "slab_ptr_mask (nth_pool a (own p)) = slab_ptr_mask (nth_pool a (class_of a n))"
    by (rule group_mates(2) [OF groups_okD(1) [OF small_coreD(4) [OF core]] S(1) k S(3)])
  ultimately show thesis using search s by (intro that [of s]) simp_all
qed

lemma smfree_small:
  assumes inv: "small_inv c m others a X" and p: "(p, n) \<in> X" "n \<le> sm_objsize_max a"
  obtains c' m' a' where "smfree c m a p n = Some (c', m', a')" and "same_sizes a a'" and "same_cache c c'" and "small_inv c' m' others a' (X - {(p, n)})"
    and "\<And>q l x. (q, l) \<in> X - {(p, n)} \<Longrightarrow> x \<in> span q l \<Longrightarrow> mem c' x = mem c x"
proof -
  obtain own bs where core: "small_core c m others a X own bs" and ch: "charged a own X" using inv by (auto simp: small_inv_charged)
  let ?k = "class_of a n" and ?j = "own p"
  note O = small_coreD(3) [OF core] and S = small_object [OF core p] and k = small_coreD(6) [OF core p(2)]
  have fin: "finite X" "inj_on fst X" using O by (simp_all add: objects_ok_def)
  obtain s where s: "small_mempool_search a n = Some ?k" "slab_from_ptr c p (slab_ptr_mask (nth_pool a ?k)) = Some s" "ms_mempool (m s) = ?j"
    "s \<in> set (pool_slabs (nth_pool a ?j))" "p \<in> slab_live c (nth_pool a ?j) s (m s)" by (rule object_lookup [OF core p])
  have sz: "pool_size a ?k \<le> pool_size a ?j" "pool_size a ?j \<le> sm_objsize_max a" "sm_objsize_max a < 2 ^ 32"
    using pool_size_mono [OF core S(2,1)] small_coreD(1) [OF core] S(1) by (simp_all add: small_config_def)
  let ?d = "pool_size a ?j - pool_size a ?k"
  have dv: "nat ((int (pool_size a ?j) - int (pool_size a ?k)) mod 2 ^ 32) = ?d" using sz by (intro nat_mod_power) (simp_all add: of_nat_diff)
  have cost: "charge a own X i = (if ?k = i then ?d else 0) + charge a own (X - {(p, n)}) i" for i
    using charge_remove [OF fin(1) p, of own i] by simp
  have wi: "charge a own X i \<le> waste (small_mempool_cache a ! i)" if "i < pool_count a" for i using ch that by (simp add: charged_def)
  have wd: "?d \<le> waste (small_mempool_cache a ! ?k)" using cost [of ?k] wi [OF k] by simp
  let ?a1 = "set_pool ?k (waste_update (\<lambda>_. waste (small_mempool_cache a ! ?k) - ?d)) a"
  have s1: "same_sizes a ?a1" by (rule same_sizes_waste)
  note G = set_waste_groups [where j = ?k and w = "waste (small_mempool_cache a ! ?k) - ?d" and a = a]
  have p1: "nth_pool ?a1 i = nth_pool a i" if "i < pool_count a" for i using that by (simp add: nth_set_pool)
  have core1: "small_core c m others ?a1 X own bs"
    by (rule small_core_same [OF core s1]) (use G(1,2) small_coreD(4,5) [OF core] p1 in simp_all)
  have j1: "?j < pool_count ?a1" using S(1) by simp
  let ?R = "slabs_but ?j bs ?a1"
  have mi: "mempool_inv c m (others \<union> slabs_of c ?R) (nth_pool a ?j)"
    using pools_ok_pool [OF small_coreD(2) [OF core1] j1] p1 [OF S(1)] by simp
  obtain c' m' mp' where f: "mempool_free_slab c m (nth_pool a ?j) s p = Some (c', m', mp')" "mempool_inv c' m' (others \<union> slabs_of c ?R) mp'"
    "live_objs c' m' mp' = live_objs c m (nth_pool a ?j) - {p}" "same_shape (nth_pool a ?j) mp'" "kept c c' (others \<union> slabs_of c ?R)"
    "\<And>q x. q \<in> live_objs c m (nth_pool a ?j) \<Longrightarrow> q \<noteq> p \<Longrightarrow> x \<in> span q (pool_size a ?j) \<Longrightarrow> mem c' x = mem c x"
    "\<forall>(t, n) \<in> others \<union> slabs_of c ?R. m' t = m t"
    by (rule mempool_free_slab_spec [OF mi s(4,5)]) (rule that)
  let ?a' = "set_pool ?j (sm_pool_update (\<lambda>_. mp')) ?a1"
  have sh1: "same_shape (nth_pool ?a1 ?j) mp'" using f(4) p1 [OF S(1)] by simp
  have only: "l = n" if "(p, l) \<in> X" for l using inj_onD [OF fin(2), of "(p, l)" "(p, n)"] that p(1) by simp
  have core': "small_core c' m' others ?a' (X - {(p, n)}) own bs"
  proof (rule small_core_pool(1) [OF core1 j1 f(2,5,7) sh1])
    show "finite (X - {(p, n)})" "inj_on fst (X - {(p, n)})" using fin by (auto simp: inj_on_diff)
    show "class_of ?a1 l \<le> ?j \<and> sm_group (small_mempool_cache ?a1 ! ?j) = sm_group (small_mempool_cache ?a1 ! class_of ?a1 l) \<and> q \<in> live_objs c' m' mp'"
      if q: "(q, l) \<in> X - {(p, n)}" "l \<le> sm_objsize_max ?a1" "own q = ?j" for q l
    proof -
      have "q \<noteq> p" using q(1) only by auto
      then show ?thesis using small_object [OF core1, of q l] q p1 [OF S(1)] f(3) by auto
    qed
    show "\<exists>l \<le> sm_objsize_max ?a1. (q, l) \<in> X - {(p, n)} \<and> own q = ?j" if "q \<in> live_objs c' m' mp'" for q
    proof -
      have q: "q \<in> live_objs c m (nth_pool a ?j)" "q \<noteq> p" using that f(3) by auto
      then obtain l where "l \<le> sm_objsize_max a" "(q, l) \<in> X" "own q = ?j" using O S(1) unfolding objects_ok_def by blast
      then show ?thesis using q(2) by auto
    qed
    show "(q, l) \<in> X - {(p, n)} \<and> own q \<noteq> ?j \<longleftrightarrow> (q, l) \<in> X \<and> own q \<noteq> ?j" for q l by auto
    show "(q, l) \<in> X - {(p, n)} \<longleftrightarrow> (q, l) \<in> X" if "sm_objsize_max ?a1 < l" for q l using that p(2) by auto
  qed simp
  have w1: "waste (small_mempool_cache ?a1 ! i) = waste (small_mempool_cache a ! i) - (if i = ?k then ?d else 0)" if "i < pool_count a" for i
    using that by (simp add: nth_set_pool)
  have "waste_ok ?a1"
    using ch G(3,4) w1 unfolding charged_def waste_ok_def same_sizesD(1,3) [OF s1] by (auto simp: less_imp_diff_less)
  moreover have "charge ?a1 own (X - {(p, n)}) i \<le> waste (small_mempool_cache ?a1 ! i)" if i: "i < pool_count a" for i
  proof -
    have "charge ?a1 own (X - {(p, n)}) i = charge a own (X - {(p, n)}) i"
      by (rule charge_same_subset [OF O s1 _ i]) blast
    moreover have "charge a own X i = (if i = ?k then ?d else 0) + charge a own (X - {(p, n)}) i" using cost [of i] by auto
    ultimately show ?thesis using w1 [OF i] wi [OF i] by linarith
  qed
  ultimately have ch1: "charged ?a1 own (X - {(p, n)})" by (simp add: charged_def)
  have s2: "same_sizes ?a1 ?a'" by (rule same_sizes_pool [OF j1 sh1])
  have "charged ?a' own (X - {(p, n)})"
    unfolding charged_def same_sizesD(1) [OF s2]
  proof (intro conjI allI impI)
    note G2 = set_pool_groups(3,4) [OF j1 sh1]
    have w2: "waste (small_mempool_cache ?a' ! i) = waste (small_mempool_cache ?a1 ! i)" if "i < pool_count ?a1" for i using that by (simp add: nth_set_pool)
    show "waste_ok ?a'" using ch1 G2 w2 unfolding charged_def waste_ok_def same_sizesD(1,3) [OF s2] by simp
    show "charge ?a' own (X - {(p, n)}) i \<le> waste (small_mempool_cache ?a' ! i)" if i: "i < pool_count ?a1" for i
      unfolding w2 [OF i] charge_same_subset [OF small_coreD(3) [OF core1] s2 Diff_subset i] using ch1 i unfolding charged_def by blast
  qed
  then have inv': "small_inv c' m' others ?a' (X - {(p, n)})" using core' by (auto simp: small_inv_charged)
  have run: "smfree c m a p n = Some (c', m', ?a')"
    unfolding smfree_def s(1) using k S(1) s(2,3) dv wd f(1) p1 [OF S(1)] by (simp add: Let_def)
  have "mem c' x = mem c x" if q: "(q, l) \<in> X - {(p, n)}" and x: "x \<in> span q l" for q l x
  proof (cases "l \<le> sm_objsize_max a \<and> own q = ?j")
    case True
    have qX: "(q, l) \<in> X" "q \<noteq> p" using q only by auto
    have "x \<in> span q (pool_size a ?j)" using x small_object(5) [OF core qX(1)] True by auto
    then show ?thesis using f(6) small_object(4) [OF core qX(1)] True qX(2) by simp
  next
    case False
    have kR: "kept c c' (slabs_of c ?R)" by (rule kept_mono [OF f(5)]) blast
    show ?thesis by (rule object_kept_but [OF core1 _ kR x]) (use q False in auto)
  qed
  then show thesis using run same_sizes_trans [OF s1 s2] keptD(2) [OF f(5)] inv' by (intro that [of c' m' ?a'])
qed

section \<open>Objects do not overlap\<close>

lemma object_elsewhere_span:
  assumes core: "small_core c m others a X own bs" and p: "(p, n) \<in> X" and j: "n \<le> sm_objsize_max a \<Longrightarrow> own p \<noteq> j"
  shows "span p n \<subseteq> slab_bytes (slabs_of c (slabs_but j bs a))"
  using core p
proof (cases rule: object_slab)
  case (small s)
  have "s \<in> set (slabs_but j bs a)" using other_pool_slabs [OF small_object(1) [OF core p small(1)] j [OF small(1)] small(2)] by blast
  then have "(s, sl_size (hdr c s)) \<in> slabs_of c (slabs_but j bs a)" by (simp add: slabs_of_def)
  then show ?thesis using span_slab_bytes small(3) by blast
next
  case large
  then have "slab_from_data p \<in> set (slabs_but j bs a)" by (simp add: slabs_but_def)
  then have "(slab_from_data p, sl_size (hdr c (slab_from_data p))) \<in> slabs_of c (slabs_but j bs a)" by (simp add: slabs_of_def)
  then show ?thesis using span_slab_bytes large(3) by blast
qed

lemma small_pool_ok:
  assumes "small_core c m others a X own bs" and "j < pool_count a"
  shows "pool_ok {} c m (others \<union> slabs_of c (slabs_but j bs a)) (nth_pool a j)"
  using pools_ok_pool [OF small_coreD(2) [OF assms(1)] assms(2)] by (simp add: mempool_inv_def)

lemma small_apart_1:
  assumes core: "small_core c m others a X own bs" and p: "(p, n) \<in> X" "n \<le> sm_objsize_max a" and q: "(q, k) \<in> X" and ne: "p \<noteq> q"
  shows "span p n \<inter> span q k = {}"
proof -
  note S = small_object [OF core p] and ok = small_pool_ok [OF core small_object(1) [OF core p]]
  have sub: "span p n \<subseteq> span p (pool_size a (own p))" using S(5) by (intro span_subset) simp_all
  show ?thesis
  proof (cases "k \<le> sm_objsize_max a \<and> own q = own p")
    case True
    have "span q k \<subseteq> span q (pool_size a (own p))" using small_object(5) [OF core q] True by (intro span_subset) simp_all
    then show ?thesis using live_apart [OF ok S(4), of q] small_object(4) [OF core q] True ne sub by auto
  next
    case False
    then have "span q k \<subseteq> slab_bytes (slabs_of c (slabs_but (own p) bs a))" by (intro object_elsewhere_span [OF core q]) blast
    moreover have "slab_bytes (slabs_of c (slabs_but (own p) bs a)) \<subseteq> slab_bytes (others \<union> slabs_of c (slabs_but (own p) bs a))"
      by (rule slab_bytes_mono) blast
    ultimately show ?thesis using live_outside(1) [OF ok S(4)] sub by blast
  qed
qed

lemma small_apart:
  assumes core: "small_core c m others a X own bs" and p: "(p, n) \<in> X" and q: "(q, k) \<in> X" and ne: "p \<noteq> q"
  shows "span p n \<inter> span q k = {}"
proof -
  consider "n \<le> sm_objsize_max a" | "k \<le> sm_objsize_max a" | "sm_objsize_max a < n" "sm_objsize_max a < k" by linarith
  then show ?thesis
  proof cases
    case 1
    then show ?thesis by (rule small_apart_1 [OF core p _ q ne])
  next
    case 2
    then show ?thesis using small_apart_1 [OF core q _ p] ne by blast
  next
    case 3
    note P = large_object [OF core p 3(1)] and Q = large_object [OF core q 3(2)]
    have "slab_from_data p \<noteq> slab_from_data q" using P(1) Q(1) ne unfolding slab_from_data_def by linarith
    moreover have "slab_from_data p \<in> set (all_slab_list bs a)" "slab_from_data q \<in> set (all_slab_list bs a)" using P(2) Q(2) by simp_all
    ultimately have d: "span (slab_from_data p) (sl_size (hdr c (slab_from_data p))) \<inter> span (slab_from_data q) (sl_size (hdr c (slab_from_data q))) = {}"
      using owns_disjoint(2) [OF small_core_owns [OF core]] by blast
    have "span p n \<subseteq> span (slab_from_data p) (sl_size (hdr c (slab_from_data p)))"
      unfolding P(3) using P(1) by (intro span_subset) (simp_all add: slab_from_data_def)
    moreover have "span q k \<subseteq> span (slab_from_data q) (sl_size (hdr c (slab_from_data q)))"
      unfolding Q(3) using Q(1) by (intro span_subset) (simp_all add: slab_from_data_def)
    ultimately show ?thesis using d by blast
  qed
qed

text \<open>The owner of an object may write into it.\<close>

lemma small_core_write:
  assumes core: "small_core c m others a X own bs" and p: "(p, n) \<in> X" and g: "\<And>x. x \<notin> span p n \<Longrightarrow> g x = mem c x"
  shows "small_core (c\<lparr>mem := g\<rparr>) m others a X own bs"
proof -
  let ?c = "c\<lparr>mem := g\<rparr>"
  have O: "objects_ok c m a X own bs" by (rule small_coreD(3) [OF core])
  have kV: "kept c ?c V" if "\<And>x. x \<in> slab_bytes V \<Longrightarrow> x \<notin> span p n" for V
    using that g by (simp add: kept_def keeps_def same_orders_def)
  show ?thesis
  proof (cases "n \<le> sm_objsize_max a")
    case small: True
    note S = small_object [OF core p small] and ok = small_pool_ok [OF core small_object(1) [OF core p small]]
    let ?R = "slabs_but (own p) bs a"
    have sub: "span p n \<subseteq> span p (pool_size a (own p))" using S(5) by (intro span_subset) simp_all
    have inv: "mempool_inv c m (others \<union> slabs_of c ?R) (nth_pool a (own p))" by (rule pools_ok_pool [OF small_coreD(2) [OF core] S(1)])
    have "g x = mem c x" if "x \<notin> span p (pool_size a (own p))" for x using g sub that by blast
    note W = mempool_inv_write [OF inv S(4) this]
    have "kept c ?c (others \<union> slabs_of c ?R)" by (rule kV) (use live_outside(1) [OF ok S(4)] sub in blast)
    from small_core_pool_same(1) [OF core S(1) W(1) this _ _ W(2)]
    have "small_core ?c m others (set_pool (own p) (sm_pool_update (\<lambda>_. nth_pool a (own p))) a) X own bs" by simp
    moreover have "set_pool (own p) (sm_pool_update (\<lambda>_. nth_pool a (own p))) a = a" by (simp add: set_pool_def)
    ultimately show ?thesis by simp
  next
    case False
    then have n: "sm_objsize_max a < n" by simp
    note L = large_object [OF core p n]
    have own: "owns ?c others (all_slab_list bs a)" using small_core_owns [OF core] by simp
    have sub: "span p n \<subseteq> span (slab_from_data p) (sl_size (hdr c (slab_from_data p)))"
      unfolding L(3) using L(1) by (intro span_subset) (simp_all add: slab_from_data_def)
    have "x \<notin> span p n" if x: "x \<in> slab_bytes (slabs_of c (concat (slab_lists a)))" for x
    proof -
      obtain s where s: "s \<in> set (concat (slab_lists a))" "x \<in> span s (sl_size (hdr c s))" using x by (auto simp: slab_bytes_def slabs_of_def simp del: in_span)
      have "distinct (all_slab_list bs a)" using small_core_owns [OF core] by (simp add: owns_def)
      then have "s \<noteq> slab_from_data p" using s(1) L(2) by auto
      moreover have "s \<in> set (all_slab_list bs a)" "slab_from_data p \<in> set (all_slab_list bs a)" using s(1) L(2) by simp_all
      ultimately have "span s (sl_size (hdr c s)) \<inter> span (slab_from_data p) (sl_size (hdr c (slab_from_data p))) = {}"
        using owns_disjoint(2) [OF small_core_owns [OF core]] by blast
      then show ?thesis using s(2) sub by blast
    qed
    then have kp: "kept c ?c (slabs_of c (concat (slab_lists a)))" by (rule kV)
    have st: "slabs_of ?c (concat (slab_lists a)) = slabs_of c (concat (slab_lists a))" by simp
    show ?thesis
    proof (rule small_core_large [OF core own st kp])
      show "finite X" "inj_on fst X" using O by (simp_all add: objects_ok_def)
      show "slab_sizeof \<le> q \<and> slab_from_data q \<in> set bs \<and> sl_size (hdr ?c (slab_from_data q)) = l + slab_sizeof"
        if "(q, l) \<in> X" "sm_objsize_max a < l" for q l using large_object [OF core that] by simp
      show "(\<exists>n > sm_objsize_max a. (slab_data s, n) \<in> X) \<and> sl_order (hdr ?c s) = order_max ?c + 1" if "s \<in> set bs" for s
        using O that by (simp add: objects_ok_def)
    qed simp
  qed
qed

section \<open>The contract of an allocator of objects\<close>

type_synonym small_state = "slab_cache \<times> mslabs \<times> small_alloc"

definition small_heap_inv :: "os \<Rightarrow> (addr \<times> nat) set \<Rightarrow> small_state \<Rightarrow> (addr \<times> nat) set \<Rightarrow> bool" where
  "small_heap_inv os others = (\<lambda>(c, m, a) X. os_ok os \<and> small_inv c m others a X)"

lemma small_request_same: "same_sizes a a' \<Longrightarrow> same_cache c c' \<Longrightarrow> small_request c' a' = small_request c a"
  by (simp add: small_request_def fun_eq_iff same_sizes_def same_cache_def keeps_def quota_room_def)

lemma smalloc_spec:
  assumes os: "os_ok os" and inv: "small_inv c m others a X" and r: "small_request c a n"
  obtains p c' m' a' where "smalloc os c m a n = Some (p, c', m', a')" and "same_sizes a a'" and "same_cache c c'"
    and "\<And>q l x. (q, l) \<in> X \<Longrightarrow> x \<in> span q l \<Longrightarrow> mem c' x = mem c x"
    and "if p = NULL then small_inv c' m' others a' X else p \<notin> fst ` X \<and> small_inv c' m' others a' (insert (p, n) X)"
proof (cases "n \<le> sm_objsize_max a")
  case True
  show thesis by (rule smalloc_small [OF os inv True]) (rule that)
next
  case False
  then have n: "sm_objsize_max a < n" by simp
  show thesis by (rule smalloc_large [OF os inv n r]) (rule that [OF _ same_sizes_refl])
qed

lemma smfree_spec:
  assumes inv: "small_inv c m others a X" and p: "(p, n) \<in> X"
  obtains c' m' a' where "smfree c m a p n = Some (c', m', a')" and "same_sizes a a'" and "same_cache c c'" and "small_inv c' m' others a' (X - {(p, n)})"
    and "\<And>q l x. (q, l) \<in> X - {(p, n)} \<Longrightarrow> x \<in> span q l \<Longrightarrow> mem c' x = mem c x"
proof (cases "n \<le> sm_objsize_max a")
  case True
  show thesis by (rule smfree_small [OF inv p True]) (rule that)
next
  case False
  then have n: "sm_objsize_max a < n" by simp
  show thesis by (rule smfree_large [OF inv p n]) (rule that [OF _ same_sizes_refl])
qed

lemma small_inv_write:
  assumes "small_inv c m others a X" and "(p, n) \<in> X" and "length bs \<le> n"
  shows "small_inv (write_bytes c p bs) m others a X"
proof -
  have "write_bytes c p bs = c\<lparr>mem := mem (write_bytes c p bs)\<rparr>" by (simp add: write_bytes_def)
  moreover have "mem (write_bytes c p bs) x = mem c x" if "x \<notin> span p n" for x using that assms(3) by (auto simp: write_bytes_def)
  ultimately show ?thesis using assms(1) small_core_write [OF _ assms(2)] unfolding small_inv_charged by metis
qed

interpretation small_heap: object_heap "small_heap_inv os others" "\<lambda>(c, m, a). small_request c a" "\<lambda>n. n"
  "\<lambda>(c, m, a) n. smalloc os c m a n" "\<lambda>(c, m, a) p n. smfree c m a p n" "\<lambda>(c, m, a). mem c" "\<lambda>(c, m, a) p bs. (write_bytes c p bs, m, a)"
  for os others
proof (unfold_locales, goal_cases)
  case (1 s X n)
  obtain c m a where s: "s = (c, m, a)" by (cases s) auto
  have i: "os_ok os" "small_inv c m others a X" "small_request c a n" using 1 by (simp_all add: s small_heap_inv_def)
  obtain p c' m' a' where r: "smalloc os c m a n = Some (p, c', m', a')" "same_sizes a a'" "same_cache c c'"
    "\<And>q l x. (q, l) \<in> X \<Longrightarrow> x \<in> span q l \<Longrightarrow> mem c' x = mem c x"
    "if p = NULL then small_inv c' m' others a' X else p \<notin> fst ` X \<and> small_inv c' m' others a' (insert (p, n) X)"
    by (rule smalloc_spec [OF i]) (rule that)
  show ?case
    by (rule exI [of _ p], rule exI [of _ "(c', m', a')"])
      (use r i(1) small_request_same [OF r(2,3)] in \<open>auto simp: s small_heap_inv_def simp del: in_span split: if_splits\<close>)
next
  case (2 s X p n)
  obtain c m a where s: "s = (c, m, a)" by (cases s) auto
  have i: "os_ok os" "small_inv c m others a X" using 2 by (simp_all add: s small_heap_inv_def)
  obtain c' m' a' where r: "smfree c m a p n = Some (c', m', a')" "same_sizes a a'" "same_cache c c'" "small_inv c' m' others a' (X - {(p, n)})"
    "\<And>q l x. (q, l) \<in> X - {(p, n)} \<Longrightarrow> x \<in> span q l \<Longrightarrow> mem c' x = mem c x"
    by (rule smfree_spec [OF i(2) 2(2)]) (rule that)
  show ?case
    by (rule exI [of _ "(c', m', a')"])
      (use r i(1) small_request_same [OF r(2,3)] in \<open>auto simp: s small_heap_inv_def simp del: in_span\<close>)
next
  case (3 s X p r q k)
  obtain c m a where s: "s = (c, m, a)" by (cases s) auto
  obtain own bs where "small_core c m others a X own bs" using 3(1) by (auto simp: s small_heap_inv_def small_inv_def)
  then show ?case using 3(2-4) by (rule small_apart)
next
  case (4 s X p r k)
  then have "inj_on fst X" by (auto simp: small_heap_inv_def small_inv_def small_core_def objects_ok_def split: prod.splits)
  then show ?case using 4(2,3) inj_onD [of fst X "(p, r)" "(p, k)"] by simp
next
  case (5 s X p r bs)
  obtain c m a where s: "s = (c, m, a)" by (cases s) auto
  have i: "os_ok os" "small_inv c m others a X" using 5(1) by (simp_all add: s small_heap_inv_def)
  have "small_request (write_bytes c p bs) a = small_request c a" by (simp add: small_request_def quota_room_def write_bytes_def fun_eq_iff)
  then show ?case using i(1) small_inv_write [OF i(2) 5(2,3)] by (simp add: s small_heap_inv_def)
next
  case (6 s p bs x)
  then show ?case by (auto simp: write_bytes_def split: prod.splits)
qed

end
