(* ===== verification/Small_Create.thy ===== *)
theory Small_Create
  imports Small_Heap
begin

text \<open>
  Creating and destroying the small allocator: the pools are made class by class until the
  largest object size is reached, and the groups cover them all.
\<close>

section \<open>One pool\<close>

lemma mempool_create_spec:
  assumes c: "cache_inv c others" and osz: "8 \<le> osz" "osz + mslab_sizeof \<le> ar_slab_size (sc_arena c)"
  obtains mp where "mempool_create self c osz = Some mp" and "pool_local c m mp" and "live_objs c m mp = {}" and "objsize mp = osz"
    and "mp_self mp = self" and "pool_slabs mp = []" and "mp_order mp \<le> order_max c"
    and "slab_ptr_mask mp = NOT (2 ^ (mp_order mp + order0_size_lb c) - 1)"
proof -
  obtain R L U where ci: "cinv c R L U {}" using c by (auto simp: cache_inv_def)
  note ca = cache_inv_arena_size [OF ci]
  let ?o = "if osz > 112 then osz else 112"
  let ?s = "if ?o * 100 > ar_slab_size (sc_arena c) then ar_slab_size (sc_arena c) else ?o * 100"
  have le: "?s \<le> ar_slab_size (sc_arena c)" by simp
  note so = slab_order_spec [OF ca(2,1) le]
  have "osz + mslab_sizeof \<le> ?s" using osz(2) by (simp add: mslab_sizeof_def align_up_def)
  also have "\<dots> \<le> bsz (order0_size_lb c) (slab_order c ?s)" by (rule so(2))
  finally have fit: "osz + mslab_sizeof \<le> 2 ^ (slab_order c ?s + order0_size_lb c)" by (simp add: bsz_def)
  obtain mp where mp: "mempool_create_with_order self c osz (slab_order c ?s) = Some mp" "mempool_inv c m others mp" "live_objs c m mp = {}"
    "objsize mp = osz" "mp_order mp = slab_order c ?s" "mp_self mp = self" "pool_slabs mp = []"
    by (rule mempool_create_with_order_spec [OF c so(1) osz(1) fit]) (rule that)
  have "mempool_create self c osz = Some mp" using mp(1) so(1) by (simp add: mempool_create_def Let_def)
  moreover have "pool_local c m mp" using mp(2) by (simp add: mempool_inv_local)
  moreover from this have "slab_ptr_mask mp = NOT (2 ^ (mp_order mp + order0_size_lb c) - 1)" by (simp add: pool_local_def mempool_config_def)
  ultimately show thesis using mp so(1) by (intro that [of mp]) simp_all
qed

section \<open>All pools\<close>

lemma groups_ok_prefix:
  assumes ok: "groups_ok n a" and l: "length (small_mempool_cache a) \<le> length ps'"
    and e: "\<And>i. i < length (small_mempool_cache a) \<Longrightarrow> ps' ! i = small_mempool_cache a ! i" and s: "sizes_grow ps'"
  shows "groups_ok n (a\<lparr>small_mempool_cache := ps'\<rparr>)"
proof -
  let ?ps = "small_mempool_cache a"
  have g: "group_ok ps' g grp" if "group_ok ?ps g grp" for g grp
  proof -
    have sh: "group_shape ?ps g grp" using that by (simp add: group_ok_def)
    then have lt: "sg_last grp < length ?ps" by (simp add: group_shape_def)
    then have i: "ps' ! i = ?ps ! i" if "i \<le> sg_last grp" for i using e that by simp
    have "group_pools ps' g grp = group_pools ?ps g grp" unfolding group_pools_def using i by simp
    then show ?thesis using that i lt l unfolding group_ok_def group_shape_def by simp
  qed
  then have "groups_shape n (a\<lparr>small_mempool_cache := ps'\<rparr>)"
    using ok s l unfolding groups_ok_def groups_shape_def group_ok_def by auto
  then show ?thesis using g ok by (simp add: groups_ok_def)
qed

text \<open>
  The state of the loop: pools \<open>0\<close> to the last one made are empty and have the sizes of their
  classes, those before \<open>cur\<close> are in groups, the others have slabs of order \<open>ord\<close>.
\<close>

definition pool_made :: "slab_cache \<Rightarrow> mslabs \<Rightarrow> small_alloc \<Rightarrow> nat \<Rightarrow> bool" where
  "pool_made c m a i \<longleftrightarrow> pool_local c m (nth_pool a i) \<and> live_objs c m (nth_pool a i) = {} \<and> mp_self (nth_pool a i) = i \<and>
     pool_slabs (nth_pool a i) = [] \<and> waste (small_mempool_cache a ! i) = 0 \<and> mp_order (nth_pool a i) \<le> order_max c \<and>
     slab_ptr_mask (nth_pool a i) = NOT (2 ^ (mp_order (nth_pool a i) + order0_size_lb c) - 1) \<and>
     pool_size a i = min (small_class_calc_size_by_offset (sm_class a) i) (sm_objsize_max a)"

definition making :: "slab_cache \<Rightarrow> mslabs \<Rightarrow> nat \<Rightarrow> nat \<Rightarrow> nat \<Rightarrow> nat \<Rightarrow> nat \<Rightarrow> nat \<Rightarrow> small_alloc \<Rightarrow> bool" where
  "making c m al b S osz ord cur a \<longleftrightarrow> class_ok (sm_class a) al b S \<and> pool_count a \<le> SMALL_MEMPOOL_MAX \<and>
     (\<forall>i < pool_count a. pool_made c m a i \<and> small_class_calc_size_by_offset (sm_class a) i = S + class_units b (Suc i) * 2 ^ al) \<and>
     groups_ok cur a \<and> length (small_mempool_groups a) \<le> cur \<and> waste_limits a \<and>
     (\<forall>i < pool_count a. cur \<le> i \<longrightarrow> appropriate_pool_mask (small_mempool_cache a ! i) = 0 \<and> mp_order (nth_pool a i) = ord) \<and>
     (if pool_count a = 0 then cur = 0 \<and> osz = 0 else cur < pool_count a \<and> osz = pool_size a (pool_count a - 1))"

lemma pool_made_same:
  assumes "pool_made c m a i" and "same_core (small_mempool_cache a ! i) (small_mempool_cache a' ! i)" and "sm_class a' = sm_class a"
    and "sm_objsize_max a' = sm_objsize_max a"
  shows "pool_made c m a' i"
  using assms by (simp add: pool_made_def same_core_def)

lemma made_new_group:
  assumes mk: "\<And>i. i < pool_count a \<Longrightarrow> pool_made c m a i" and n: "n \<le> last_pool" "last_pool < pool_count a"
    and f: "\<And>i. n \<le> i \<Longrightarrow> i \<le> last_pool \<Longrightarrow> appropriate_pool_mask (small_mempool_cache a ! i) = 0 \<and> mp_order (nth_pool a i) = ord"
  shows "new_group a n last_pool" and "slab_ptr_mask (nth_pool a n) = slab_ptr_mask (nth_pool a last_pool)"
proof -
  have m: "slab_ptr_mask (nth_pool a i) = NOT (2 ^ (ord + order0_size_lb c) - 1)" if "n \<le> i" "i \<le> last_pool" for i
    using mk [of i] f [OF that] that n(2) by (simp add: pool_made_def)
  show "slab_ptr_mask (nth_pool a n) = slab_ptr_mask (nth_pool a last_pool)" using m n(1) by simp
  show "new_group a n last_pool"
    unfolding new_group_def using n f m by simp
qed

text \<open>Closing the run of pools of one slab order.\<close>

lemma making_groups:
  assumes c: "cache_inv c others" and mk: "\<And>i. i < pool_count a \<Longrightarrow> pool_made c m a i" and ok: "groups_ok n a" "length (small_mempool_groups a) \<le> n"
      "waste_limits a" and n: "n \<le> last_pool" "last_pool < pool_count a" "pool_count a \<le> SMALL_MEMPOOL_MAX"
    and f: "\<And>i. n \<le> i \<Longrightarrow> i \<le> last_pool \<Longrightarrow> appropriate_pool_mask (small_mempool_cache a ! i) = 0 \<and> mp_order (nth_pool a i) = ord"
  obtains a' where "small_mempool_create_groups c a n last_pool = Some a'" and "groups_ok (Suc last_pool) a'" and "groups_added n (Suc last_pool) a a'"
    and "waste_limits a'"
proof -
  obtain R L U where ci: "cinv c R L U {}" using c by (auto simp: cache_inv_def)
  note ca = cache_inv_arena_size [OF ci]
  let ?o = "mp_order (nth_pool a last_pool)"
  have o: "?o \<le> order_max c" using mk [OF n(2)] by (simp add: pool_made_def)
  have so: "slab_order_size c ?o = Some (2 ^ (?o + order0_size_lb c))" using o by (simp add: slab_order_size_def push_bit_eq_mult)
  have lb: "6 \<le> order0_size_lb c" "ar_slab_size (sc_arena c) = bsz (order0_size_lb c) (order_max c)" using ca(2) by (simp_all add: cache_config_def)
  have "(2::nat) ^ 2 \<le> 2 ^ (?o + order0_size_lb c)" using lb(1) by (intro power_increasing) simp_all
  then have 4: "4 \<le> (2::nat) ^ (?o + order0_size_lb c)" by simp
  have "2 ^ (?o + order0_size_lb c) \<le> ar_slab_size (sc_arena c)" unfolding lb(2) bsz_def using o by simp
  then have "2 ^ (?o + order0_size_lb c) < (2::nat) ^ 32" using ca(1) by simp
  from create_groups_spec [OF ok(1) made_new_group(1) [OF mk n(1,2) f] ok(2) n(3) _ ok(3) so 4 this] n(1) show thesis using that by auto
qed

text \<open>Appending the next pool.\<close>

definition create_bounds :: "slab_cache \<Rightarrow> nat \<Rightarrow> nat \<Rightarrow> nat \<Rightarrow> bool" where
  "create_bounds c al S omax \<longleftrightarrow> 8 \<le> S + 2 ^ al \<and> 8 \<le> omax \<and> omax < 2 ^ 30 \<and> omax + mslab_sizeof \<le> ar_slab_size (sc_arena c)"

lemma making_size:
  assumes mk: "making c m al b S osz ord cur a" and lt: "osz < sm_objsize_max a" "sm_objsize_max a < 2 ^ 30" and n: "pool_count a < SMALL_MEMPOOL_MAX"
  shows "small_class_calc_size_by_offset (sm_class a) (pool_count a) = S + class_units b (Suc (pool_count a)) * 2 ^ al" (is ?A)
    and "osz < small_class_calc_size_by_offset (sm_class a) (pool_count a) \<or> pool_count a = 0" (is ?B)
proof -
  have ok: "class_ok (sm_class a) al b S" using mk by (simp add: making_def)
  have "?A \<and> ?B"
  proof (cases "pool_count a")
    case 0
    then show ?thesis using first_class_size(1) [OF ok] by simp
  next
    case (Suc i)
    have i: "i < pool_count a" "i < 2 ^ 20" using Suc n by (simp_all add: SMALL_MEMPOOL_MAX_def)
    have f: "small_class_calc_size_by_offset (sm_class a) i = S + class_units b (Suc i) * 2 ^ al" and "pool_made c m a i" "osz = pool_size a i"
      using mk i(1) Suc by (simp_all add: making_def)
    then have "osz = min (small_class_calc_size_by_offset (sm_class a) i) (sm_objsize_max a)" by (simp add: pool_made_def)
    then have e: "small_class_calc_size_by_offset (sm_class a) i = osz" using lt(1) by (simp add: min_def split: if_splits)
    have "small_class_calc_size_by_offset (sm_class a) i < 2 ^ 30" unfolding e using lt by linarith
    from next_class_size [OF ok i(2) f this] show ?thesis unfolding e Suc by simp
  qed
  then show ?A ?B by blast+
qed

lemma making_append:
  assumes mk: "making c m al b S osz ord cur a" and lt: "osz < sm_objsize_max a" "sm_objsize_max a < 2 ^ 30" and n: "pool_count a < SMALL_MEMPOOL_MAX"
    and mp: "pool_local c m mp" "live_objs c m mp = {}" "objsize mp = min (small_class_calc_size_by_offset (sm_class a) (pool_count a)) (sm_objsize_max a)"
      "mp_self mp = pool_count a" "pool_slabs mp = []" "mp_order mp \<le> order_max c" "slab_ptr_mask mp = NOT (2 ^ (mp_order mp + order0_size_lb c) - 1)"
    and sm: "sm_pool sm = mp" "waste sm = 0" "appropriate_pool_mask sm = 0"
  defines "a1 \<equiv> a\<lparr>small_mempool_cache := small_mempool_cache a @ [sm]\<rparr>"
  shows "groups_ok cur a1" and "waste_limits a1" and "nth_pool a1 (pool_count a) = mp"
    and "i \<le> pool_count a \<Longrightarrow> pool_made c m a1 i \<and> small_class_calc_size_by_offset (sm_class a1) i = S + class_units b (Suc i) * 2 ^ al"
    and "i \<le> pool_count a \<Longrightarrow> cur \<le> i \<Longrightarrow> appropriate_pool_mask (small_mempool_cache a1 ! i) = 0 \<and> (i < pool_count a \<longrightarrow> mp_order (nth_pool a1 i) = ord)"
proof -
  let ?ps = "small_mempool_cache a" and ?ps' = "small_mempool_cache a @ [sm]"
  have old: "?ps' ! i = ?ps ! i" if "i < pool_count a" for i using that by (simp add: nth_append)
  have last: "?ps' ! pool_count a = sm" by simp
  note G = making_size [OF mk lt n]
  have gk: "groups_ok cur a" using mk by (simp add: making_def)
  then have sg: "sizes_grow ?ps" by (simp add: groups_ok_def groups_shape_def)
  have le: "pool_size a i \<le> objsize mp" if "i < pool_count a" for i
  proof -
    have "osz = pool_size a (pool_count a - 1)" using mk that by (auto simp: making_def split: if_splits)
    moreover have "pool_size a i \<le> pool_size a (pool_count a - 1)" using sg that by (simp add: sizes_grow_def)
    moreover have "osz \<le> objsize mp" using mp(3) G(2) that lt(1) by auto
    ultimately show ?thesis by simp
  qed
  have "sizes_grow ?ps'" unfolding sizes_grow_def
  proof (intro allI impI)
    fix i j assume ij: "i \<le> j" "j < length ?ps'"
    show "objsize (sm_pool (?ps' ! i)) \<le> objsize (sm_pool (?ps' ! j))"
    proof (cases "j = pool_count a")
      case True
      then show ?thesis using le [of i] ij last old [of i] sm(1) by (cases "i = j") simp_all
    next
      case False
      then show ?thesis using ij sg old [of i] old [of j] by (simp add: sizes_grow_def)
    qed
  qed
  then show "groups_ok cur a1" unfolding a1_def by (intro groups_ok_prefix [OF gk]) (simp_all add: nth_append)
  show "waste_limits a1" using mk by (simp add: making_def waste_limits_def a1_def)
  show "nth_pool a1 (pool_count a) = mp" by (simp add: a1_def sm(1))
  show "pool_made c m a1 i \<and> small_class_calc_size_by_offset (sm_class a1) i = S + class_units b (Suc i) * 2 ^ al" if "i \<le> pool_count a"
  proof (cases "i = pool_count a")
    case True
    then show ?thesis using mp sm G(1) by (simp add: pool_made_def a1_def)
  next
    case False
    then have "i < pool_count a" using that by simp
    then show ?thesis using mk old [of i] by (simp add: making_def pool_made_def a1_def)
  qed
  show "appropriate_pool_mask (small_mempool_cache a1 ! i) = 0 \<and> (i < pool_count a \<longrightarrow> mp_order (nth_pool a1 i) = ord)" if "i \<le> pool_count a" "cur \<le> i"
  proof (cases "i = pool_count a")
    case True
    then show ?thesis using sm by (simp add: a1_def)
  next
    case False
    then have "i < pool_count a" using that by simp
    then show ?thesis using mk old [of i] that(2) by (simp add: making_def a1_def)
  qed
qed

text \<open>One round of the loop.\<close>

lemma create_round:
  assumes c: "cache_inv c others" and mk: "making c m al b S osz ord cur a" and cb: "create_bounds c al S (sm_objsize_max a)"
    and lt: "osz < sm_objsize_max a" and n: "pool_count a < SMALL_MEMPOOL_MAX"
  obtains osz' ord' cur' a' where "small_mempool_create_loop (Suc left) c osz ord cur a = small_mempool_create_loop left c osz' ord' cur' a'"
    and "making c m al b S osz' ord' cur' a'" and "pool_count a' = Suc (pool_count a)" and "sm_objsize_max a' = sm_objsize_max a" and "sm_class a' = sm_class a"
proof -
  let ?i = "pool_count a" and ?omax = "sm_objsize_max a"
  define z where "z = min (small_class_calc_size_by_offset (sm_class a) ?i) ?omax"
  have B: "8 \<le> S + 2 ^ al" "8 \<le> ?omax" "?omax < 2 ^ 30" "?omax + mslab_sizeof \<le> ar_slab_size (sc_arena c)" using cb by (simp_all add: create_bounds_def)
  note G = making_size [OF mk lt B(3) n]
  have "1 * 2 ^ al \<le> class_units b (Suc ?i) * 2 ^ al" using class_units_Suc [of b ?i] by (intro mult_le_mono1) simp
  then have "8 \<le> S + class_units b (Suc ?i) * 2 ^ al" using B(1) by linarith
  then have z: "8 \<le> z" "z + mslab_sizeof \<le> ar_slab_size (sc_arena c)" using B(2,4) unfolding z_def G(1) by simp_all
  obtain mp where mp: "mempool_create ?i c z = Some mp" "pool_local c m mp" "live_objs c m mp = {}" "objsize mp = z" "mp_self mp = ?i" "pool_slabs mp = []"
    "mp_order mp \<le> order_max c" "slab_ptr_mask mp = NOT (2 ^ (mp_order mp + order0_size_lb c) - 1)"
    by (rule mempool_create_spec [OF c z, of ?i m]) (rule that)
  define sm where "sm = \<lparr>sm_pool = mp, objsize_min = osz + 1, sm_group = None, used_pool = None, appropriate_pool_mask = 0, waste = 0\<rparr>"
  define a1 where "a1 = a\<lparr>small_mempool_cache := small_mempool_cache a @ [sm]\<rparr>"
  have sm: "sm_pool sm = mp" "waste sm = 0" "appropriate_pool_mask sm = 0" by (simp_all add: sm_def)
  note A = making_append [OF mk lt B(3) n mp(2,3) mp(4) [unfolded z_def] mp(5-8) sm, folded a1_def]
  have n1: "pool_count a1 = Suc ?i" "sm_objsize_max a1 = ?omax" "sm_class a1 = sm_class a" "small_mempool_groups a1 = small_mempool_groups a"
    by (simp_all add: a1_def)
  have ok: "class_ok (sm_class a) al b S" "length (small_mempool_groups a) \<le> cur" using mk by (simp_all add: making_def)
  have lp: "small_mempool_create_loop (Suc left) c osz ord cur a = (if ?i \<noteq> 0 \<and> mp_order mp \<noteq> ord then do {
          prev \<leftarrow> elem (small_mempool_cache a1) (?i - 1);
          cu \<leftarrow> elem (small_mempool_cache a1) cur;
          c_assert (slab_ptr_mask (sm_pool cu) = slab_ptr_mask (sm_pool prev));
          a \<leftarrow> small_mempool_create_groups c a1 cur (?i - 1);
          small_mempool_create_loop left c z (mp_order mp) ?i a }
        else small_mempool_create_loop left c z (mp_order mp) cur a1)"
  proof -
    have z': "(if small_class_calc_size_by_offset (sm_class a) ?i > ?omax then ?omax else small_class_calc_size_by_offset (sm_class a) ?i) = z"
      by (simp add: z_def min_def)
    have e: "a\<lparr>small_mempool_cache := small_mempool_cache a @
        [\<lparr>sm_pool = mp, objsize_min = osz + 1, sm_group = None, used_pool = None, appropriate_pool_mask = 0, waste = 0\<rparr>]\<rparr> = a1"
      by (simp add: a1_def sm_def)
    have "small_mempool_create_loop (Suc left) c osz ord cur a = (let o' = (if ?i = 0 then mp_order mp else ord) in
        if mp_order mp \<noteq> o' then do {
          prev \<leftarrow> elem (small_mempool_cache a1) (?i - 1);
          cu \<leftarrow> elem (small_mempool_cache a1) cur;
          c_assert (slab_ptr_mask (sm_pool cu) = slab_ptr_mask (sm_pool prev));
          a \<leftarrow> small_mempool_create_groups c a1 cur (?i - 1);
          small_mempool_create_loop left c z (mp_order mp) ?i a }
        else small_mempool_create_loop left c z o' cur a1)"
      by (simp only: small_mempool_create_loop.simps Let_def z' e lt mp(1) if_True Option.bind.simps(2))
    then show ?thesis by (auto simp: Let_def simp del: One_nat_def)
  qed
  show thesis
  proof (cases "?i \<noteq> 0 \<and> mp_order mp \<noteq> ord")
    case False
    have "making c m al b S z (mp_order mp) cur a1"
    proof -
      have "cur \<le> ?i" using mk by (auto simp: making_def split: if_splits)
      moreover have "mp_order (nth_pool a1 i) = mp_order mp" if "i \<le> ?i" "cur \<le> i" for i
        using A(5) [OF that] A(3) False that(1) by (cases "i = ?i") auto
      ultimately show ?thesis unfolding making_def using A ok n n1 mp(4) by (simp add: less_Suc_eq_le)
    qed
    moreover have "small_mempool_create_loop (Suc left) c osz ord cur a = small_mempool_create_loop left c z (mp_order mp) cur a1"
      unfolding lp by (rule if_not_P [OF False])
    ultimately show thesis using n1 by (intro that [of z "mp_order mp" cur a1]) assumption+
  next
    case True
    then have cur: "cur < ?i" using mk by (auto simp: making_def split: if_splits)
    have f: "appropriate_pool_mask (small_mempool_cache a1 ! i) = 0 \<and> mp_order (nth_pool a1 i) = ord" if "cur \<le> i" "i \<le> ?i - 1" for i
      using A(5) [of i] that cur by simp
    have mk1: "pool_made c m a1 i" if "i < pool_count a1" for i using A(4) [of i] that n1(1) by simp
    have le: "cur \<le> ?i - 1" "?i - 1 < pool_count a1" "pool_count a1 \<le> SMALL_MEMPOOL_MAX" using cur n n1(1) by simp_all
    obtain a2 where a2: "small_mempool_create_groups c a1 cur (?i - 1) = Some a2" "groups_ok (Suc (?i - 1)) a2" "groups_added cur (Suc (?i - 1)) a1 a2" "waste_limits a2"
      by (rule making_groups [OF c mk1 A(1) ok(2) [folded n1(4)] A(2) le f])
    have S: "Suc (?i - 1) = ?i" using cur by simp
    have ga: "pool_count a2 = Suc ?i" "sm_class a2 = sm_class a" "sm_objsize_max a2 = ?omax"
      "\<And>i. i \<le> ?i \<Longrightarrow> same_core (small_mempool_cache a1 ! i) (small_mempool_cache a2 ! i)"
      "appropriate_pool_mask (small_mempool_cache a2 ! ?i) = appropriate_pool_mask (small_mempool_cache a1 ! ?i)"
      "length (small_mempool_groups a2) \<le> ?i"
      using a2(3) n1 ok(2) cur unfolding S groups_added_def by (auto simp: less_Suc_eq_le)
    have "slab_ptr_mask (nth_pool a1 cur) = slab_ptr_mask (nth_pool a1 (?i - 1))" by (rule made_new_group(2) [OF mk1 le(1,2) f])
    then have "small_mempool_create_loop (Suc left) c osz ord cur a = small_mempool_create_loop left c z (mp_order mp) ?i a2"
      unfolding lp using True a2(1) cur le(2) n1(1) by (simp add: elem_def)
    moreover have "making c m al b S z (mp_order mp) ?i a2"
    proof -
      have "pool_made c m a2 i" if "i \<le> ?i" for i using pool_made_same [OF mk1 ga(4) [OF that]] that n1 ga by simp
      moreover have "small_class_calc_size_by_offset (sm_class a) i = S + class_units b (Suc i) * 2 ^ al" if "i \<le> ?i" for i using A(4) [OF that] n1(3) by simp
      moreover have "nth_pool a2 ?i = mp" using ga(4) [of ?i] A(3) by (simp add: same_core_def)
      ultimately show ?thesis unfolding making_def using ok(1) n ga a2(2) [unfolded S] a2(4) A(5) [of ?i] mp(4) cur by (simp add: less_Suc_eq_le)
    qed
    ultimately show thesis using ga by (intro that [of z "mp_order mp" ?i a2]) simp_all
  qed
qed

lemma create_loop_spec:
  assumes c: "cache_inv c others"
  shows "making c m al b S osz ord cur a \<Longrightarrow> create_bounds c al S (sm_objsize_max a) \<Longrightarrow> pool_count a + left = SMALL_MEMPOOL_MAX \<Longrightarrow>
    \<exists>osz' ord' cur' a'. small_mempool_create_loop left c osz ord cur a = Some (osz', cur', a') \<and> making c m al b S osz' ord' cur' a' \<and>
      sm_objsize_max a' = sm_objsize_max a \<and> sm_class a' = sm_class a \<and> (osz' = sm_objsize_max a \<or> pool_count a' = SMALL_MEMPOOL_MAX)"
proof (induction left arbitrary: osz ord cur a)
  case 0
  then show ?case by (intro exI [of _ osz] exI [of _ ord] exI [of _ cur] exI [of _ a]) simp
next
  case (Suc left)
  show ?case
  proof (cases "osz < sm_objsize_max a")
    case False
    have "osz \<le> sm_objsize_max a" using Suc.prems(1) by (auto simp: making_def pool_made_def split: if_splits)
    then show ?thesis using False Suc.prems(1) by (intro exI [of _ osz] exI [of _ ord] exI [of _ cur] exI [of _ a]) simp
  next
    case True
    have n: "pool_count a < SMALL_MEMPOOL_MAX" using Suc.prems(3) by simp
    obtain osz' ord' cur' a' where r: "small_mempool_create_loop (Suc left) c osz ord cur a = small_mempool_create_loop left c osz' ord' cur' a'"
      "making c m al b S osz' ord' cur' a'" "pool_count a' = Suc (pool_count a)" "sm_objsize_max a' = sm_objsize_max a" "sm_class a' = sm_class a"
      by (rule create_round [OF c Suc.prems(1,2) True n, of left]) (rule that)
    from Suc.IH [OF r(2)] Suc.prems(2,3) r show ?thesis by auto
  qed
qed

text \<open>The whole of \<open>small_mempool_create\<close>, from a class of sizes that starts at \<open>S + 2 ^ al\<close>.\<close>

lemma class_of_created:
  assumes mk: "making c m al b S osz ord cur a" and om: "sm_objsize_max a < 2 ^ 30" and osz: "osz = sm_objsize_max a \<or> pool_count a = SMALL_MEMPOOL_MAX"
    and pc: "0 < pool_count a" and n: "n \<le> osz"
  shows "small_class_calc_offset_by_size (sm_class a) n < pool_count a" and "n \<le> pool_size a (small_class_calc_offset_by_size (sm_class a) n)"
proof -
  let ?k = "small_class_calc_offset_by_size (sm_class a) n"
  have ok: "class_ok (sm_class a) al b S" using mk by (simp add: making_def)
  let ?l = "pool_count a - 1"
  have l: "pool_made c m a ?l" "osz = pool_size a ?l" using mk pc by (auto simp: making_def split: if_splits)
  then have osz': "osz = min (small_class_calc_size_by_offset (sm_class a) ?l) (sm_objsize_max a)" by (simp add: pool_made_def)
  then have lt: "n < 2 ^ 30" using n om by simp
  have "\<not> ?l < ?k" using class_least(2) [OF ok lt, of ?l] osz' n by auto
  then show k: "?k < pool_count a" using pc by linarith
  have "pool_made c m a ?k" using mk k by (simp add: making_def)
  then have "pool_size a ?k = min (small_class_calc_size_by_offset (sm_class a) ?k) (sm_objsize_max a)" by (simp add: pool_made_def)
  then show "n \<le> pool_size a ?k" using class_least(1) [OF ok lt] osz' n by simp
qed

lemma group_limit_pos:
  assumes "groups_ok (pool_count a) a" and "waste_limits a" and "i < pool_count a"
  shows "0 < group_limit a i"
proof -
  obtain g where g: "g < length (small_mempool_groups a)" "pool_group a i = Some (g, small_mempool_groups a ! g)"
    by (rule group_of [OF groups_okD(1) [OF assms(1)] assms(3)])
  then show ?thesis using assms(2) by (simp add: group_limit_def waste_limits_def)
qed

lemma small_mempool_create_spec:
  assumes c: "cache_inv c others" and ok: "class_ok (sm_class a) al b S" and cb: "create_bounds c al S (sm_objsize_max a)"
  obtains a' where "small_mempool_create c a = Some a'" and "small_inv c m others a' {}" and "sm_class a' = sm_class a" and "sm_objsize_max a' \<le> sm_objsize_max a"
    and "min (S + 2 ^ al) (sm_objsize_max a) \<le> sm_objsize_max a'" and "sm_objsize_max a' = sm_objsize_max a \<or> pool_count a' = SMALL_MEMPOOL_MAX" and "concat (slab_lists a') = []"
proof -
  let ?a0 = "a\<lparr>small_mempool_cache := [], small_mempool_groups := []\<rparr>"
  have "making c m al b S 0 0 0 ?a0" using ok by (simp add: making_def groups_ok_def groups_shape_def sizes_grow_def waste_limits_def)
  from create_loop_spec [OF c this, of SMALL_MEMPOOL_MAX] cb
  obtain osz ord cur a1 where r: "small_mempool_create_loop SMALL_MEMPOOL_MAX c 0 0 0 ?a0 = Some (osz, cur, a1)" and mk: "making c m al b S osz ord cur a1"
    and om: "sm_objsize_max a1 = sm_objsize_max a" "sm_class a1 = sm_class a" and osz: "osz = sm_objsize_max a \<or> pool_count a1 = SMALL_MEMPOOL_MAX" by auto
  have B: "8 \<le> sm_objsize_max a" "sm_objsize_max a < 2 ^ 30" using cb by (simp_all add: create_bounds_def)
  have pc: "0 < pool_count a1" using mk osz B(1) by (auto simp: making_def SMALL_MEMPOOL_MAX_def)
  let ?l = "pool_count a1 - 1"
  have cur: "cur \<le> ?l" "?l < pool_count a1" "pool_count a1 \<le> SMALL_MEMPOOL_MAX" and osz': "osz = pool_size a1 ?l"
    using mk pc by (auto simp: making_def split: if_splits)
  have mk1: "pool_made c m a1 i" if "i < pool_count a1" for i using mk that by (simp add: making_def)
  have f: "appropriate_pool_mask (small_mempool_cache a1 ! i) = 0 \<and> mp_order (nth_pool a1 i) = ord" if "cur \<le> i" "i \<le> ?l" for i
  proof -
    have "i < pool_count a1" using that(2) cur(2) by linarith
    then show ?thesis using mk that(1) by (simp add: making_def)
  qed
  have g: "groups_ok cur a1" "length (small_mempool_groups a1) \<le> cur" "waste_limits a1" using mk by (simp_all add: making_def)
  obtain a2 where a2: "small_mempool_create_groups c a1 cur ?l = Some a2" "groups_ok (Suc ?l) a2" "groups_added cur (Suc ?l) a1 a2" "waste_limits a2"
    by (rule making_groups [OF c mk1 g cur f])
  have S: "Suc ?l = pool_count a1" using pc by simp
  define a' where "a' = a2\<lparr>sm_objsize_max := osz\<rparr>"
  have same: "pool_count a' = pool_count a1" "sm_class a' = sm_class a" "sm_objsize_max a' = osz" "small_mempool_cache a' = small_mempool_cache a2"
    using a2(3) om by (simp_all add: a'_def groups_added_def)
  have core: "nth_pool a' i = nth_pool a1 i \<and> waste (small_mempool_cache a' ! i) = 0" if "i < pool_count a1" for i
    using a2(3) mk1 [OF that] that by (simp add: a'_def groups_added_def same_core_def pool_made_def)
  have "slab_ptr_mask (nth_pool a1 cur) = slab_ptr_mask (nth_pool a1 ?l)" by (rule made_new_group(2) [OF mk1 cur(1,2) f])
  moreover have "cur < pool_count a1" using cur(1,2) by linarith
  ultimately have res: "small_mempool_create c a = Some a'"
    using r a2(1) pc by (simp add: small_mempool_create_def elem_def Let_def a'_def del: small_mempool_create_loop.simps)
  have osz_le: "osz \<le> sm_objsize_max a" "min (S + 2 ^ al) (sm_objsize_max a) \<le> osz"
  proof -
    have e: "osz = min (small_class_calc_size_by_offset (sm_class a) ?l) (sm_objsize_max a)" using mk1 [OF cur(2)] osz' om by (simp add: pool_made_def)
    then show "osz \<le> sm_objsize_max a" by simp
    have "small_class_calc_size_by_offset (sm_class a) ?l = S + class_units b (Suc ?l) * 2 ^ al" using mk cur(2) om by (simp add: making_def)
    moreover have "1 * 2 ^ al \<le> class_units b (Suc ?l) * 2 ^ al" using class_units_Suc [of b ?l] by (intro mult_le_mono1) simp
    ultimately show "min (S + 2 ^ al) (sm_objsize_max a) \<le> osz" using e by linarith
  qed
  then have osz_pos: "0 < osz" using cb by (simp add: create_bounds_def min_def split: if_splits)
  have gok: "groups_ok (pool_count a1) a'" "waste_limits a'"
    using a2(2,4) unfolding S by (simp_all add: a'_def groups_ok_def groups_shape_def waste_limits_def)
  have om1: "sm_objsize_max a1 < 2 ^ 30" "osz = sm_objsize_max a1 \<or> pool_count a1 = SMALL_MEMPOOL_MAX" using om B(2) osz by simp_all
  have sz: "pool_size a' i \<le> osz" if "i < pool_count a1" for i
  proof -
    have "sizes_grow (small_mempool_cache a')" using gok(1) by (simp add: groups_ok_def groups_shape_def)
    then have "pool_size a' i \<le> pool_size a' ?l" using that cur(2) by (simp add: sizes_grow_def same(1))
    then show ?thesis using core [OF cur(2)] osz' by simp
  qed
  have cls: "class_of a' n < pool_count a' \<and> n \<le> pool_size a' (class_of a' n)" if "n \<le> osz" for n
  proof -
    have "class_of a' n = small_class_calc_offset_by_size (sm_class a1) n" using that osz_le(1) B(2) by (simp add: class_of_def same om)
    then show ?thesis using class_of_created [OF mk om1 pc that] core same by simp
  qed
  have config: "small_config a'"
    unfolding small_config_def same(1,3) using gok sz cls [unfolded same(1)] osz_le(1) B(2) by simp
  have nil: "concat (slab_lists a') = []"
    using core mk1 same(1) by (auto simp: slab_lists_def in_set_conv_nth pool_made_def)
  have "owns c others ([] @ concat (slab_lists a'))" unfolding nil using c by (simp add: owns_def)
  then have pools: "pools_ok c m others [] a'"
    using core mk1 same(1) by (simp add: pools_ok_def pool_made_def)
  have "objects_ok c m a' {} (\<lambda>_. 0) []" using core mk1 same(1) by (simp add: objects_ok_def pool_made_def)
  then have "small_core c m others a' {} (\<lambda>_. 0) []" using config pools by (simp add: small_core_def)
  moreover have "waste_ok a'"
  proof -
    have "0 < group_limit a' i" if "i < pool_count a'" for i 
      by (rule group_limit_pos [OF gok(1) [folded same(1)] gok(2) that])
    then show ?thesis using core same(1) osz_pos by (simp add: waste_ok_def same)
  qed
  moreover have "charge a' (\<lambda>_. 0) {} i = 0" for i by (simp add: charge_def)
  ultimately have "small_inv c m others a' {}" unfolding small_inv_def by (intro exI [of _ "\<lambda>_. 0"] exI [of _ "[]"]) simp
  then show thesis using res osz_le osz same nil by (intro that [of a']) simp_all
qed

text \<open>\<open>small_alloc_create\<close>: the smallest size is the alignment of the one asked for, the largest that of a sixteenth of a slab.\<close>

lemma mempool_objsize_max_bounds:
  assumes "65536 \<le> s" and "s < 2 ^ 32"
  shows "4088 \<le> mempool_objsize_max s" and "16 * mempool_objsize_max s \<le> s"
proof -
  let ?x = "(s - 112) div 16"
  have m: "(int s - int mslab_sizeof) mod 2 ^ 32 = int (s - 112)" using assms by (simp add: mslab_sizeof_def align_up_def of_nat_diff)
  have e: "(int s - int mslab_sizeof) mod 2 ^ 32 div 16 = int ?x" unfolding m by simp
  have "int ?x AND NOT 7 = int (?x - ?x mod 8)"
  proof -
    have "(7::int) = mask 3" by (simp add: mask_eq_exp_minus_1)
    moreover have "int ?x AND NOT (mask 3) = push_bit 3 (drop_bit 3 (int ?x))" by (intro bit_eqI) (auto simp: bit_simps)
    ultimately have "int ?x AND NOT 7 = push_bit 3 (drop_bit 3 (int ?x))" by (simp only:)
    also have "\<dots> = int (?x div 8 * 8)" by (simp add: push_bit_eq_mult drop_bit_eq_div zdiv_int)
    finally show ?thesis by (simp add: minus_mod_eq_div_mult)
  qed
  then have o: "mempool_objsize_max s = ?x - ?x mod 8" unfolding mempool_objsize_max_def e by (simp only: nat_int)
  have x: "4088 \<le> ?x" "16 * ?x \<le> s" using assms(1) by simp_all
  have "511 \<le> ?x div 8" using div_le_mono [OF x(1), of 8] by simp
  then show "4088 \<le> mempool_objsize_max s" unfolding o minus_mod_eq_div_mult by linarith
  show "16 * mempool_objsize_max s \<le> s" unfolding o using x(2) by linarith
qed

lemma small_alloc_create_spec:
  assumes c: "cache_inv c others" and f: "1 < f" "f \<le> 2" "bits_of f < 30" and osz: "8 \<le> osz_min" "osz_min + 2 ^ al < 2 ^ 30"
    and al: "4 * 2 ^ al \<le> ar_slab_size (sc_arena c)"
  obtains a where "small_alloc_create bits_of factor_of c osz_min (2 ^ al) f = Some a" and "small_inv c m others a {}"
    and "min (align_up osz_min (2 ^ al)) (align_up (mempool_objsize_max (ar_slab_size (sc_arena c))) (2 ^ al)) \<le> sm_objsize_max a"
    and "sm_objsize_max a \<le> align_up (mempool_objsize_max (ar_slab_size (sc_arena c))) (2 ^ al)" and "concat (slab_lists a) = []"
    and "sm_objsize_max a = align_up (mempool_objsize_max (ar_slab_size (sc_arena c))) (2 ^ al) \<or> pool_count a = SMALL_MEMPOOL_MAX"
proof -
  obtain R L U where ci: "cinv c R L U {}" using c by (auto simp: cache_inv_def)
  note ca = cache_inv_arena_size [OF ci]
  let ?s = "ar_slab_size (sc_arena c)"
  obtain k where k: "16 \<le> k" "k < 32" "?s = 2 ^ k" using ci by (auto simp: cinv_def arena_inv_def arena_config_def)
  have s: "65536 \<le> ?s" "?s \<le> 2 ^ 31" unfolding k(3) using power_increasing [of 16 k "2::nat"] power_increasing [of k 31 "2::nat"] k(1,2) by simp_all
  have so: "slab_order_size c (order_max c) = Some ?s" using ca(2) by (simp add: slab_order_size_def cache_config_def bsz_def push_bit_eq_mult)
  have al30: "al < 30"
  proof -
    have "(2::nat) ^ al < 2 ^ 30" using osz by simp
    then show ?thesis by (rule power_less_imp_less_exp [rotated]) simp
  qed
  have al32: "al < 32" using al30 by simp
  have "osz_min + 2 ^ al < 2 ^ 64" using osz by simp
  then obtain omin where omin: "small_align (of_nat osz_min) (of_nat (2 ^ al)) = Some omin" "unat omin = align_up osz_min (2 ^ al)"
    by (rule small_align_addr [OF al32]) (rule that)
  note M = mempool_objsize_max_bounds [OF s(1) ca(1)]
  have "mempool_objsize_max ?s + 2 ^ al < 2 ^ 64" using M(2) s(2) al by simp
  then obtain omax where omax: "small_align (of_nat (mempool_objsize_max ?s)) (of_nat (2 ^ al)) = Some omax" "unat omax = align_up (mempool_objsize_max ?s) (2 ^ al)"
    by (rule small_align_addr [OF al32]) (rule that)
  have b: "osz_min \<le> align_up osz_min (2 ^ al)" "align_up osz_min (2 ^ al) < osz_min + 2 ^ al"
    "mempool_objsize_max ?s \<le> align_up (mempool_objsize_max ?s) (2 ^ al)" "align_up (mempool_objsize_max ?s) (2 ^ al) < mempool_objsize_max ?s + 2 ^ al"
    using align_up_bounds [of "2 ^ al" osz_min] align_up_bounds [of "2 ^ al" "mempool_objsize_max ?s"] by simp_all
  have gmin: "2 ^ al \<le> align_up osz_min (2 ^ al)" using b(1) osz(1) by (intro dvd_imp_le) simp_all
  have lmin: "align_up osz_min (2 ^ al) < 2 ^ 30" using b(2) osz(2) by linarith
  have "align_up (mempool_objsize_max ?s) (2 ^ al) < 1073741824" using b(4) M(2) s(2) [simplified] al by linarith
  then have lmax: "align_up (mempool_objsize_max ?s) (2 ^ al) < 2 ^ 30" by simp
  obtain sc where sc: "small_class_create bits_of factor_of (2 ^ al) f (align_up osz_min (2 ^ al)) = Some sc"
    "class_ok sc al (bits_of f) (align_up osz_min (2 ^ al) - 2 ^ al)"
    by (rule small_class_create_spec [of f bits_of al "align_up osz_min (2 ^ al)" factor_of, OF f al30 gmin lmin]) (rule that)
  let ?a = "\<lparr>small_mempool_cache = [], small_mempool_groups = [], alloc_factor = f, sm_class = sc, sm_objsize_max = align_up (mempool_objsize_max ?s) (2 ^ al)\<rparr>"
  have "create_bounds c al (align_up osz_min (2 ^ al) - 2 ^ al) (sm_objsize_max ?a)"
    unfolding create_bounds_def using b gmin osz M lmax al by (simp add: mslab_sizeof_def align_up_def [of 112])
  moreover have "class_ok (sm_class ?a) al (bits_of f) (align_up osz_min (2 ^ al) - 2 ^ al)" using sc(2) by simp
  ultimately obtain a' where a': "small_mempool_create c ?a = Some a'" "small_inv c m others a' {}" "min (align_up osz_min (2 ^ al) - 2 ^ al + 2 ^ al) (sm_objsize_max ?a) \<le> sm_objsize_max a'" "sm_objsize_max a' \<le> sm_objsize_max ?a"
    "concat (slab_lists a') = []" "sm_objsize_max a' = sm_objsize_max ?a \<or> pool_count a' = SMALL_MEMPOOL_MAX"
    using small_mempool_create_spec [OF c, of ?a al "bits_of f" "align_up osz_min (2 ^ al) - 2 ^ al" m] by metis
  have pw: "(2::nat) ^ al AND (2 ^ al - 1) = 0" using mask_eq_exp_minus_1 [of al, where 'a = nat, symmetric] by (intro bit_eqI) (auto simp: bit_simps)
  have lm: "unat omin mod 2 ^ 32 = align_up osz_min (2 ^ al)" "unat omax mod 2 ^ 32 = align_up (mempool_objsize_max ?s) (2 ^ al)"
    using lmin lmax unfolding omin(2) omax(2) by simp_all
  have "small_alloc_create bits_of factor_of c osz_min (2 ^ al) f = Some a'"
    unfolding small_alloc_create_def omin(1) so omax(1) Option.bind.simps(2) lm sc(1) pw using f a'(1) by simp
  then show thesis using a' gmin by (intro that [of a']) simp_all
qed

end
