(* ===== verification/Small_Props.thy ===== *)
theory Small_Props
  imports Small_Create
begin

text \<open>
  What the small allocator promises its users: creation, allocation, release, destruction, the
  information on an allocation, and the bound on the memory it wastes.
\<close>

section \<open>Destruction\<close>

definition large_slabs :: "small_alloc \<Rightarrow> (addr \<times> nat) set \<Rightarrow> (addr \<times> nat) set" where
  "large_slabs a X = {(slab_from_data p, n + slab_sizeof) |p n. (p, n) \<in> X \<and> sm_objsize_max a < n}"

lemma large_slabs_of:
  assumes core: "small_core c m others a X own bs"
  shows "slabs_of c bs = large_slabs a X"
proof -
  have "(s, sl_size (hdr c s)) \<in> large_slabs a X" if s: "s \<in> set bs" for s
  proof -
    obtain n where n: "sm_objsize_max a < n" "(slab_data s, n) \<in> X" using small_coreD(3) [OF core] s unfolding objects_ok_def by blast
    then have "sl_size (hdr c (slab_from_data (slab_data s))) = n + slab_sizeof" by (intro large_object(3) [OF core])
    moreover have "slab_from_data (slab_data s) = s" by (simp add: slab_from_data_def slab_data_def)
    ultimately show ?thesis using n unfolding large_slabs_def by (intro CollectI exI [of _ "slab_data s"] exI [of _ n]) simp
  qed
  moreover have "(slab_from_data p, n + slab_sizeof) \<in> slabs_of c bs" if "(p, n) \<in> X" "sm_objsize_max a < n" for p n
    unfolding slabs_of_def using large_object(2,3) [OF core that] by (intro image_eqI [of _ _ "slab_from_data p"]) simp_all
  ultimately show ?thesis unfolding large_slabs_def slabs_of_def by blast
qed

lemma small_destroy_loop_spec:
  assumes "owns c others (bs @ concat (drop it (slab_lists a)))" and "\<And>s. s \<in> set (concat (drop it (slab_lists a))) \<Longrightarrow> sl_order (hdr c s) \<le> order_max c"
  shows "\<exists>c'. small_alloc_destroy_loop c a it = Some c' \<and> cache_inv c' (others \<union> slabs_of c bs) \<and> kept c c' (others \<union> slabs_of c bs)"
  using assms
proof (induction "pool_count a - it" arbitrary: c it)
  case 0
  then show ?case using kept_refl by (simp add: small_alloc_destroy_loop.simps [of c a it] mempool_iterator_next_def owns_def)
next
  case (Suc k)
  then have it: "it < pool_count a" by simp
  let ?xs = "pool_slabs (nth_pool a it)" and ?ys = "bs @ concat (drop (Suc it) (slab_lists a))"
  have d: "drop it (slab_lists a) = ?xs # drop (Suc it) (slab_lists a)" using it by (simp flip: Cons_nth_drop_Suc)
  have "owns c others (?xs @ ?ys)" using Suc.prems(1) unfolding d by (subst owns_cong [where ys = "bs @ concat (?xs # drop (Suc it) (slab_lists a))"]) auto
  then have o: "owns c (others \<union> slabs_of c ?ys) ?xs" "others \<inter> slabs_of c ?ys = {}" "distinct ?ys" by (simp_all only: owns_append)
  have ord: "sl_order (hdr c s) \<le> order_max c" if "s \<in> set ?xs" for s using Suc.prems(2) [of s] that unfolding d by simp
  obtain c' where c': "slab_put_all_with_order c ?xs = Some c'" "cache_inv c' (others \<union> slabs_of c ?ys)" "kept c c' (others \<union> slabs_of c ?ys)"
    by (rule slab_put_all_with_order_spec [OF o(1) ord])
  have s: "slabs_of c' ?ys = slabs_of c ?ys" "slabs_of c' bs = slabs_of c bs" by (rule slabs_of_stable(1) [OF c'(2)]; auto)+
  have own: "owns c' others ?ys" unfolding owns_def s(1) using c'(2) o(2,3) by simp
  have "sl_order (hdr c' t) \<le> order_max c'" if t: "t \<in> set (concat (drop (Suc it) (slab_lists a)))" for t
  proof -
    have "(t, sl_size (hdr c t)) \<in> others \<union> slabs_of c ?ys" using t by (auto simp: slabs_of_def)
    then have "sl_order (hdr c' t) = sl_order (hdr c t)" by (rule keptD(3) [OF c'(3)])
    moreover have "order_max c' = order_max c" using keptD(2) [OF c'(3)] by (simp add: same_cache_def keeps_def)
    ultimately show ?thesis using Suc.prems(2) [of t] t unfolding d by simp
  qed
  then obtain c'' where c'': "small_alloc_destroy_loop c' a (Suc it) = Some c''" "cache_inv c'' (others \<union> slabs_of c bs)" "kept c' c'' (others \<union> slabs_of c bs)"
    using Suc.hyps(1) [OF _ own] Suc.hyps(2) s(2) by force
  have "kept c c' (others \<union> slabs_of c bs)" by (rule kept_mono [OF c'(3)]) auto
  moreover have "small_alloc_destroy_loop c a it = small_alloc_destroy_loop c' a (Suc it)"
    using it c'(1) by (simp add: small_alloc_destroy_loop.simps [of c a it] mempool_iterator_next_def mempool_destroy_def)
  ultimately show ?case using c'' kept_trans by auto
qed

lemma small_alloc_destroy_spec:
  assumes "small_inv c m others a X"
  obtains c' where "small_alloc_destroy c a = Some c'" and "cache_inv c' (others \<union> large_slabs a X)" and "kept c c' (others \<union> large_slabs a X)"
proof -
  obtain own bs where core: "small_core c m others a X own bs" using assms by (auto simp: small_inv_def)
  have own: "owns c others (bs @ concat (drop 0 (slab_lists a)))" using small_core_owns [OF core] by simp
  have "sl_order (hdr c s) \<le> order_max c" if "s \<in> set (concat (drop 0 (slab_lists a)))" for s
  proof -
    have "s \<in> \<Union> (set ` set (slab_lists a))" using that by simp
    then obtain xs where xs: "xs \<in> set (slab_lists a)" "s \<in> set xs" by blast
    then obtain i where "i < length (slab_lists a)" "slab_lists a ! i = xs" by (metis in_set_conv_nth)
    then have i: "i < pool_count a" "s \<in> set (pool_slabs (nth_pool a i))" using xs(2) by auto
    note P = pool_okD [OF small_pool_ok [OF core i(1)]]
    show ?thesis using P(1) P(8) [OF i(2)] by (simp add: mempool_config_def)
  qed
  from small_destroy_loop_spec [OF own this] show thesis using that unfolding small_alloc_destroy_def large_slabs_of [OF core] by blast
qed

section \<open>Properties\<close>

text \<open>A cache of slabs of one size only, where one object is allocated.\<close>

lemma example_small:
  obtains c a p c' m' a' where "small_inv c (\<lambda>_. undefined) {} a {}" and "\<And>n. n \<le> 64 \<Longrightarrow> small_request c a n"
    and "smalloc bump_os c (\<lambda>_. undefined) a 40 = Some (p, c', m', a')" and "p \<noteq> NULL" and "small_inv c' m' {} a' {(p, 40)}"
    and "40 \<le> sm_objsize_max a'" and "cache_inv c {}" and "small_alloc_create (\<lambda>_. 2) (\<lambda>_. 1) c 40 (2 ^ 3) (11 / 10) = Some a"
    and "4 * 2 ^ 3 \<le> ar_slab_size (sc_arena c)"
proof -
  let ?m = "\<lambda>_. undefined :: mslab"
  obtain c where c: "slab_cache_create example_arena 65536 (\<lambda>_. undefined) (\<lambda>_. 0) example_sys = Some c"
    "cache_inv c {}" "sc_arena c = example_arena" "sc_sys c = example_sys"
    using slab_cache_create_spec [OF example_arena_inv, of 65536 "\<lambda>_. undefined" "\<lambda>_. 0"] by (auto simp: example_arena_def)
  have om: "order_max c = 0" using c(1) by (simp add: slab_cache_create_def example_arena_def Let_def ilog2.simps [of "Suc 0"]) auto
  obtain c1 where g: "slab_get_with_order bump_os c 0 = Some (65536, c1)" by (rule example_slab_get [OF c]) (use om that in simp)
  have s: "ar_slab_size (sc_arena c) = 65536" by (simp add: c(3) example_arena_def)
  have om4: "align_up (mempool_objsize_max 65536) 8 = 4088" by (simp add: mempool_objsize_max_def mslab_sizeof_def align_up_def)
  obtain a where a: "small_inv c ?m {} a {}" "40 \<le> sm_objsize_max a" "concat (slab_lists a) = []"
    "small_alloc_create (\<lambda>_. 2) (\<lambda>_. 1) c 40 (2 ^ 3) (11 / 10) = Some a"
    by (rule small_alloc_create_spec [OF c(2), of "11 / 10" "\<lambda>_. 2" 40 3 "\<lambda>_. 1" ?m]) (use that s om4 in \<open>simp_all add: align_up_def [of 40]\<close>)
  have rq: "small_request c a n" if "n \<le> 64" for n
  proof -
    have "q_units (n + slab_sizeof) \<le> 1" using div_le_mono [of "1071 + n" 1135 1024] that by (simp add: q_units_def slab_sizeof_48)
    then show ?thesis using that by (simp add: small_request_def quota_room_def c(3) example_arena_def example_quota_def q_total_def slab_sizeof_48)
  qed
  have r40: "small_request c a 40" by (rule rq) simp
  obtain own bs where core: "small_core c ?m {} a {} own bs" using a(1) by (auto simp: small_inv_def)
  let ?k = "class_of a 40"
  note k = small_coreD(6) [OF core a(2)]
  obtain u where u: "used_pool (small_mempool_cache a ! ?k) = Some u" "u < pool_count a" by (rule used_pool_serves [OF core k]) (rule that)
  note ok = small_pool_ok [OF core u(2)]
  have nil: "pool_slabs (nth_pool a u) = []" using a(3) u(2) by (metis concat_eq_Nil_conv nth_mem slab_lists_simps)
  have z: "first_hot_slab (nth_pool a u) = NULL" "mp_spare (nth_pool a u) = NULL"
    using pool_listsD(4,6,8) [of "{}" ?m "nth_pool a u"] ok nil by (auto simp: pool_ok_def first_of_def)
  have "mp_order (nth_pool a u) = 0" using pool_okD(1) [OF ok] om by (simp add: mempool_config_def)
  then have "p \<noteq> NULL" if "mempool_alloc bump_os c ?m (nth_pool a u) = Some (p, c', m', mp')" for p c' m' mp'
    using that z g by (auto simp: mempool_alloc_def mempool_ready_def mempool_refill_def Let_def split: Option.bind_splits if_splits)
  moreover obtain p c' m' a' where r: "smalloc bump_os c ?m a 40 = Some (p, c', m', a')" "same_sizes a a'"
    "if p = NULL then small_inv c' m' {} a' {} else p \<notin> fst ` {} \<and> small_inv c' m' {} a' (insert (p, 40) {})"
    by (rule smalloc_spec [OF bump_os_ok a(1) r40]) (use that in simp_all)
  ultimately have "p \<noteq> NULL" using a(2) u k
    by (auto simp: smalloc_def small_mempool_search_def class_of_def Let_def split: Option.bind_splits if_splits)
  then show thesis using a r same_sizesD(3) [OF r(2)] rq c(2) s by (intro that [of c a p c' m' a']) simp_all
qed

text \<open>C5: Creating the allocator: with a growth factor above 1 and not above 2, a granularity that is a power of
  two of at most a quarter of a slab and a smallest object of at least a pointer, no assertion
  fails and the result is an allocator with no objects that satisfies the invariant; its
  largest pooled object is the aligned sixteenth of a slab, or less when all pools are made before.\<close>

theorem small_alloc_create_correct:
  assumes "cache_inv c others" and "1 < f" and "f \<le> 2" and "bits_of f < 30" and "8 \<le> osz_min" and "osz_min + 2 ^ al < 2 ^ 30"
    and "4 * 2 ^ al \<le> ar_slab_size (sc_arena c)"
  shows "\<exists>a. small_alloc_create bits_of factor_of c osz_min (2 ^ al) f = Some a \<and> small_inv c m others a {} \<and>
    (sm_objsize_max a = align_up (mempool_objsize_max (ar_slab_size (sc_arena c))) (2 ^ al) \<or>
     sm_objsize_max a \<le> align_up (mempool_objsize_max (ar_slab_size (sc_arena c))) (2 ^ al) \<and> pool_count a = SMALL_MEMPOOL_MAX)"
  by (rule small_alloc_create_spec [of c others f bits_of osz_min al factor_of m, OF assms]) blast

theorem small_alloc_create_correct_witness:
  "\<exists>c a. cache_inv c {} \<and> small_alloc_create (\<lambda>_. 2) (\<lambda>_. 1) c 16 8 (11 / 10) = Some a \<and> small_inv c (\<lambda>_. undefined) {} a {}"
proof -
  obtain c where c: "cache_inv c {}" "sc_arena c = example_arena" by (rule example_cache) (rule that)
  have s: "ar_slab_size (sc_arena c) = 65536" by (simp add: c(2) example_arena_def)
  have "\<exists>a. small_alloc_create (\<lambda>_. 2) (\<lambda>_. 1) c 16 (2 ^ 3) (11 / 10) = Some a \<and> small_inv c (\<lambda>_. undefined) {} a {} \<and>
    (sm_objsize_max a = align_up (mempool_objsize_max (ar_slab_size (sc_arena c))) (2 ^ 3) \<or>
     sm_objsize_max a \<le> align_up (mempool_objsize_max (ar_slab_size (sc_arena c))) (2 ^ 3) \<and> pool_count a = SMALL_MEMPOOL_MAX)"
    by (rule small_alloc_create_correct [OF c(1)]) (use s in simp_all)
  then show ?thesis using c(1) by auto
qed

text \<open>C1: \<open>smalloc\<close> does not stop at an assertion. It returns either NULL, with the objects in use untouched, or
  the address of a new object of the size asked for which overlaps no object in use; in both
  cases the bytes of the objects in use stay as they are and the invariant holds.\<close>

theorem smalloc_correct:
  assumes "os_ok os" and "small_inv c m others a X" and "small_request c a n"
  shows "\<exists>p c' m' a'. smalloc os c m a n = Some (p, c', m', a') \<and> (\<forall>(q, l) \<in> X. \<forall>x \<in> span q l. mem c' x = mem c x) \<and>
    (if p = NULL then small_inv c' m' others a' X
     else small_inv c' m' others a' (insert (p, n) X) \<and> (\<forall>(q, l) \<in> X. q \<noteq> p \<and> span p n \<inter> span q l = {}))"
proof -
  obtain p c' m' a' where r: "smalloc os c m a n = Some (p, c', m', a')" "\<And>q l x. (q, l) \<in> X \<Longrightarrow> x \<in> span q l \<Longrightarrow> mem c' x = mem c x"
    "if p = NULL then small_inv c' m' others a' X else p \<notin> fst ` X \<and> small_inv c' m' others a' (insert (p, n) X)"
    by (rule smalloc_spec [OF assms]) (rule that)
  have "q \<noteq> p \<and> span p n \<inter> span q l = {}" if p: "p \<noteq> NULL" and q: "(q, l) \<in> X" for q l
  proof -
    have inv: "small_inv c' m' others a' (insert (p, n) X)" and ne: "q \<noteq> p" using r(3) p q by (auto simp: image_iff)
    obtain own bs where core: "small_core c' m' others a' (insert (p, n) X) own bs" using inv by (auto simp: small_inv_def)
    show ?thesis using small_apart [OF core, of p n q l] q ne by blast
  qed
  then show ?thesis using r by (intro exI [of _ p] exI [of _ c'] exI [of _ m'] exI [of _ a']) (auto simp del: in_span)
qed

theorem smalloc_correct_witness:
  "\<exists>c m a p c' m' a'. small_inv c m {} a {} \<and> smalloc bump_os c m a 40 = Some (p, c', m', a') \<and> p \<noteq> NULL \<and> small_inv c' m' {} a' {(p, 40)}"
proof -
  obtain c a p c' m' a' where e: "small_inv c (\<lambda>_. undefined) {} a {}" "\<And>n. n \<le> 64 \<Longrightarrow> small_request c a n"
    "smalloc bump_os c (\<lambda>_. undefined) a 40 = Some (p, c', m', a')" "p \<noteq> NULL" by (rule example_small) (rule that)
  have "small_request c a 40" using e(2) by simp
  from smalloc_correct [OF bump_os_ok e(1) this] e(3,4) have "small_inv c' m' {} a' {(p, 40)}" by auto
  then show ?thesis using e(1,3,4) by blast
qed

text \<open>C2: \<open>smfree\<close> of an object in use, with the size it was allocated with, does not stop at an assertion; the
  object is no longer in use and the bytes of all others stay as they are.\<close>

theorem smfree_correct:
  assumes "small_inv c m others a X" and "(p, n) \<in> X"
  shows "\<exists>c' m' a'. smfree c m a p n = Some (c', m', a') \<and> small_inv c' m' others a' (X - {(p, n)}) \<and>
    (\<forall>(q, l) \<in> X - {(p, n)}. \<forall>x \<in> span q l. mem c' x = mem c x)"
proof -
  obtain c' m' a' where "smfree c m a p n = Some (c', m', a')" "small_inv c' m' others a' (X - {(p, n)})"
    "\<And>q l x. (q, l) \<in> X - {(p, n)} \<Longrightarrow> x \<in> span q l \<Longrightarrow> mem c' x = mem c x" by (rule smfree_spec [OF assms]) (rule that)
  then show ?thesis by (intro exI [of _ c'] exI [of _ m'] exI [of _ a']) (auto simp del: in_span)
qed

theorem smfree_correct_witness:
  "\<exists>c m a p c' m' a'. small_inv c m {} a {(p, 40)} \<and> smfree c m a p 40 = Some (c', m', a') \<and> small_inv c' m' {} a' {}"
proof -
  obtain c m a p where e: "small_inv c m {} a {(p, 40)}" by (rule example_small)
  from smfree_correct [OF e, of p 40] have "\<exists>c' m' a'. smfree c m a p 40 = Some (c', m', a') \<and> small_inv c' m' {} a' {}" by auto
  then show ?thesis using e by blast
qed

text \<open>C3: A program that allocates objects of any sizes, small and large, writes into them, overwrites and frees
  them in any order never meets a failed assertion, and finds in each object it still owns exactly
  the bytes it last wrote there; the small allocator implements the abstract heap of objects.\<close>

theorem small_heap_refines:
  assumes "os_ok os" and "small_inv c m others a {}" and "\<forall>n bs. Allocate n bs \<in> set ops \<longrightarrow> small_request c a n"
  shows "\<exists>c' m' a' objs. object_heap.run (\<lambda>n. n) (\<lambda>(c, m, a) n. smalloc os c m a n) (\<lambda>(c, m, a) p n. smfree c m a p n)
      (\<lambda>(c, m, a) p bs. (write_bytes c p bs, m, a)) (c, m, a) [] ops = Some ((c', m', a'), objs) \<and>
    small_inv c' m' others a' ((\<lambda>(p, n, bs). (p, n)) ` set objs) \<and> distinct (map fst objs) \<and>
    (\<forall>(p, n, bs) \<in> set objs. read_bytes c' p (length bs) = bs)"
proof -
  have f: "small_heap.faithful os others (c, m, a) []"
    unfolding small_heap.faithful_def small_heap.owned_def using assms(1,2) by (simp add: small_heap_inv_def)
  have "\<exists>st objs. small_heap.run os (c, m, a) [] ops = Some (st, objs) \<and> small_heap.faithful os others st objs"
    by (rule small_heap.run_faithful [OF f]) (use assms(3) in auto)
  then obtain st objs where r: "small_heap.run os (c, m, a) [] ops = Some (st, objs)" "small_heap.faithful os others st objs" by blast
  obtain c' m' a' where st: "st = (c', m', a')" by (cases st) auto
  have "small_inv c' m' others a' (small_heap.owned objs)" "distinct (map fst objs)" "\<forall>(p, n, bs) \<in> set objs. read_bytes c' p (length bs) = bs"
    using r(2) unfolding st small_heap.faithful_def by (auto simp: small_heap_inv_def read_bytes_def)
  then show ?thesis using r(1) unfolding st small_heap.owned_def by blast
qed

theorem small_heap_refines_witness:
  "\<exists>c m a st objs. small_inv c m {} a {} \<and> object_heap.run (\<lambda>n. n) (\<lambda>(c, m, a) n. smalloc bump_os c m a n) (\<lambda>(c, m, a) p n. smfree c m a p n)
      (\<lambda>(c, m, a) p bs. (write_bytes c p bs, m, a)) (c, m, a) [] [Allocate 40 [1, 2], Allocate 7 [3], Release 0] = Some (st, objs)"
proof -
  obtain c a where e: "small_inv c (\<lambda>_. undefined) {} a {}" "\<And>n. n \<le> 64 \<Longrightarrow> small_request c a n" by (rule example_small) (rule that)
  have "\<forall>n bs. Allocate n bs \<in> set [Allocate 40 [1, 2], Allocate 7 [3], Release 0] \<longrightarrow> small_request c a n" using e(2) by auto
  from small_heap_refines [OF bump_os_ok e(1) this] e(1) show ?thesis by blast
qed

text \<open>
  The states the code reaches: an allocator made by \<open>small_alloc_create\<close>, then any calls of \<open>smalloc\<close>,
  successful or not, and of \<open>smfree\<close> for objects in use. The last argument holds the objects in use
  with the sizes they were asked for.
\<close>

inductive small_reach :: "os \<Rightarrow> (addr \<times> nat) set \<Rightarrow> slab_cache \<Rightarrow> mslabs \<Rightarrow> small_alloc \<Rightarrow> (addr \<times> nat) set \<Rightarrow> bool"
  for os :: os and others :: "(addr \<times> nat) set" where
  create: "cache_inv c others \<Longrightarrow> bits_of f < 30 \<Longrightarrow> 1 < f \<Longrightarrow> f \<le> 2 \<Longrightarrow> 8 \<le> osz_min \<Longrightarrow> osz_min + 2 ^ al < 2 ^ 30 \<Longrightarrow>
    4 * 2 ^ al \<le> ar_slab_size (sc_arena c) \<Longrightarrow> small_alloc_create bits_of factor_of c osz_min (2 ^ al) f = Some a \<Longrightarrow>
    small_reach os others c m a {}"
| alloc: "small_reach os others c m a X \<Longrightarrow> small_request c a n \<Longrightarrow> smalloc os c m a n = Some (p, c', m', a') \<Longrightarrow>
    small_reach os others c' m' a' (if p = NULL then X else insert (p, n) X)"
| free: "small_reach os others c m a X \<Longrightarrow> (p, n) \<in> X \<Longrightarrow> smfree c m a p n = Some (c', m', a') \<Longrightarrow>
    small_reach os others c' m' a' (X - {(p, n)})"

lemma small_reach_inv: "small_reach os others c m a X \<Longrightarrow> os_ok os \<Longrightarrow> small_inv c m others a X"
proof (induction rule: small_reach.induct)
  case (create c bits_of f osz_min al factor_of a m)
  obtain a' where "small_alloc_create bits_of factor_of c osz_min (2 ^ al) f = Some a'" "small_inv c m others a' {}"
    by (rule small_alloc_create_spec [of c others f bits_of osz_min al factor_of m]) (use create in blast)+
  then show ?case using create.hyps by simp
next
  case (alloc c m a X n p c' m' a')
  show ?case by (rule smalloc_spec [OF alloc.prems alloc.IH [OF alloc.prems] alloc.hyps(2)]) (use alloc.hyps(3) in \<open>auto split: if_splits\<close>)
next
  case (free c m a X p n c' m' a')
  show ?case by (rule smfree_spec [OF free.IH [OF free.prems] free.hyps(2)]) (use free.hyps(3) in auto)
qed

text \<open>What \<open>small_alloc_info\<close> finds out about an object is the object size of the pool that serves it.\<close>

lemma small_alloc_info_pool:
  assumes core: "small_core c m others a X own bs" and p: "(p, n) \<in> X" "n \<le> sm_objsize_max a"
  shows "small_alloc_info c m a p n = Some (False, pool_size a (own p))"
proof -
  obtain s where s: "small_mempool_search a n = Some (class_of a n)" "slab_from_ptr c p (slab_ptr_mask (nth_pool a (class_of a n))) = Some s"
    "ms_mempool (m s) = own p" by (rule object_lookup [OF core p])
  show ?thesis using s small_object(1,5) [OF core p] small_coreD(6) [OF core p(2)] by (simp add: small_alloc_info_def elem_def)
qed

text \<open>C4: Memory is wasted within bounds. After any calls of \<open>smalloc\<close> and \<open>smfree\<close> on an allocator made by
  \<open>small_alloc_create\<close>, the real sizes that \<open>small_alloc_info\<close> reports for the objects of a size class exceed the
  object size of the class, none being below it and taken together, by less than \<open>waste_max\<close> of its group plus the largest pooled object.\<close>

theorem small_waste_bounded:
  assumes "os_ok os" and "small_reach os others c m a X"
  shows "\<exists>real_size. (\<forall>(p, n) \<in> X. small_alloc_info c m a p n = Some (sm_objsize_max a < n, real_size p) \<and> n \<le> real_size p \<and>
      (n \<le> sm_objsize_max a \<longrightarrow> pool_size a (class_of a n) \<le> real_size p)) \<and>
    (\<forall>i < pool_count a. (\<Sum>(p, n) \<in> {(p, n) \<in> X. n \<le> sm_objsize_max a \<and> class_of a n = i}. real_size p - pool_size a i) <
       group_limit a i + sm_objsize_max a)"
proof -
  obtain own bs where core: "small_core c m others a X own bs" and w: "waste_ok a"
    and ch: "\<And>i. i < pool_count a \<Longrightarrow> charge a own X i \<le> waste (small_mempool_cache a ! i)"
    using small_reach_inv [OF assms(2,1)] by (auto simp: small_inv_def)
  define real_size where "real_size p = snd (the (small_alloc_info c m a p (SOME n. (p, n) \<in> X)))" for p
  have inj: "inj_on fst X" using small_coreD(3) [OF core] by (simp add: objects_ok_def)
  have size: "(SOME l. (p, l) \<in> X) = n" if p: "(p, n) \<in> X" for p n
  proof (rule some_equality [where P = "\<lambda>l. (p, l) \<in> X"])
    fix l assume "(p, l) \<in> X"
    from inj_onD [OF inj _ this p] show "l = n" by simp
  qed (rule p)
  have info: "small_alloc_info c m a p n = Some (sm_objsize_max a < n, real_size p) \<and> n \<le> real_size p \<and>
      (n \<le> sm_objsize_max a \<longrightarrow> pool_size a (class_of a n) \<le> real_size p)" if p: "(p, n) \<in> X" for p n
  proof (cases "n \<le> sm_objsize_max a")
    case True
    note O = small_object [OF core p True]
    have "pool_size a (class_of a n) \<le> pool_size a (own p)" by (rule pool_size_mono [OF core O(2,1)])
    then show ?thesis using small_alloc_info_pool [OF core p True] O(5) True by (simp add: real_size_def size [OF p])
  next
    case False
    then show ?thesis by (simp add: real_size_def size [OF p] small_alloc_info_def small_mempool_search_def)
  qed
  have "(\<Sum>(p, n) \<in> {(p, n) \<in> X. n \<le> sm_objsize_max a \<and> class_of a n = i}. real_size p - pool_size a i) = charge a own X i" for i
    unfolding charge_def
  proof (rule sum.cong [OF refl], clarify)
    fix p n assume p: "(p, n) \<in> X" "n \<le> sm_objsize_max a"
    then show "real_size p - pool_size a (class_of a n) = pool_size a (own p) - pool_size a (class_of a n)"
      using small_alloc_info_pool [OF core p] info [OF p(1)] by simp
  qed
  moreover have "charge a own X i < group_limit a i + sm_objsize_max a" if "i < pool_count a" for i
    using ch [OF that] w that unfolding waste_ok_def by force
  ultimately show ?thesis using info by (intro exI [of _ real_size]) auto
qed

theorem small_waste_bounded_witness:
  "\<exists>c m a p r. small_reach bump_os {} c m a {(p, 40)} \<and> small_alloc_info c m a p 40 = Some (False, r) \<and> 40 \<le> r \<and>
    class_of a 40 < pool_count a \<and> r - pool_size a (class_of a 40) < group_limit a (class_of a 40) + sm_objsize_max a"
proof -
  obtain c a p c' m' a' where e: "cache_inv c {}" "small_alloc_create (\<lambda>_. 2) (\<lambda>_. 1) c 40 (2 ^ 3) (11 / 10) = Some a"
    "4 * 2 ^ 3 \<le> ar_slab_size (sc_arena c)" "\<And>n. n \<le> 64 \<Longrightarrow> small_request c a n"
    "smalloc bump_os c (\<lambda>_. undefined) a 40 = Some (p, c', m', a')" "p \<noteq> NULL" "40 \<le> sm_objsize_max a'" by (rule example_small) (rule that)
  have "small_reach bump_os {} c (\<lambda>_. undefined) a {}" by (rule small_reach.create [OF e(1) _ _ _ _ _ e(3,2)]) simp_all
  from small_reach.alloc [OF this _ e(5)] e(4,6) have r: "small_reach bump_os {} c' m' a' {(p, 40)}" by simp
  obtain own bs where "small_core c' m' {} a' {(p, 40)} own bs" using small_reach_inv [OF r bump_os_ok] by (auto simp: small_inv_def)
  then have k: "class_of a' 40 < pool_count a'" using e(7) by (intro small_coreD(6))
  let ?A = "{(q, n). (q, n) \<in> {(p, 40)} \<and> n \<le> sm_objsize_max a' \<and> class_of a' n = class_of a' 40}"
  obtain rs where rs: "\<forall>(q, n) \<in> {(p, 40)}. small_alloc_info c' m' a' q n = Some (sm_objsize_max a' < n, rs q) \<and> n \<le> rs q \<and>
      (n \<le> sm_objsize_max a' \<longrightarrow> pool_size a' (class_of a' n) \<le> rs q)"
    "(\<Sum>(q, n) \<in> ?A. rs q - pool_size a' (class_of a' 40)) < group_limit a' (class_of a' 40) + sm_objsize_max a'"
    using small_waste_bounded [OF bump_os_ok r] k by blast
  have A: "?A = {(p, 40)}" using e(7) by auto
  have "rs p - pool_size a' (class_of a' 40) < group_limit a' (class_of a' 40) + sm_objsize_max a'" using rs(2) unfolding A by simp
  moreover have "small_alloc_info c' m' a' p 40 = Some (False, rs p)" "40 \<le> rs p" using rs(1) e(7) by simp_all
  ultimately show ?thesis using r k by blast
qed

text \<open>\<open>small_alloc_info\<close> tells the truth about every object in use: whether it is a large one, and a real size
  that is not below the size asked for and is the object size of its pool.\<close>

theorem small_alloc_info_correct:
  assumes "small_inv c m others a X" and "(p, n) \<in> X"
  shows "\<exists>r. small_alloc_info c m a p n = Some (sm_objsize_max a < n, r) \<and> n \<le> r \<and>
    (if sm_objsize_max a < n then r = n else \<exists>i < pool_count a. p \<in> live_objs c m (nth_pool a i) \<and> r = pool_size a i)"
proof -
  obtain own bs where core: "small_core c m others a X own bs" using assms(1) by (auto simp: small_inv_def)
  show ?thesis
  proof (cases "n \<le> sm_objsize_max a")
    case True
    then show ?thesis using small_alloc_info_pool [OF core assms(2) True] small_object [OF core assms(2) True] by auto
  next
    case False
    then show ?thesis by (simp add: small_alloc_info_def small_mempool_search_def)
  qed
qed

theorem small_alloc_info_correct_witness:
  "\<exists>c m a p r. small_inv c m {} a {(p, 40)} \<and> small_alloc_info c m a p 40 = Some (False, r) \<and> 40 \<le> r"
proof -
  obtain c m a p where e: "small_inv c m {} a {(p, 40)}" "40 \<le> sm_objsize_max a" by (rule example_small)
  from small_alloc_info_correct [OF e(1), of p 40] e(2) have "\<exists>r. small_alloc_info c m a p 40 = Some (False, r) \<and> 40 \<le> r" by auto
  then show ?thesis using e by blast
qed

text \<open>C6: \<open>small_alloc_destroy\<close> returns every slab of every pool to the slab cache. Only the large objects in use
  stay allocated, although the comment of its declaration says that all allocated memory is destroyed; the bytes
  of these and of other owners stay as they are.\<close>

theorem small_alloc_destroy_correct:
  assumes "small_inv c m others a X"
  shows "\<exists>c'. small_alloc_destroy c a = Some c' \<and> cache_inv c' (others \<union> large_slabs a X) \<and>
    (\<forall>x \<in> slab_bytes (others \<union> large_slabs a X). mem c' x = mem c x)"
  by (rule small_alloc_destroy_spec [OF assms]) (auto simp: kept_def keeps_def)

theorem small_alloc_destroy_correct_witness:
  "\<exists>c m a p c'. small_inv c m {} a {(p, 40)} \<and> small_alloc_destroy c a = Some c' \<and> cache_inv c' {}"
proof -
  obtain c m a p where e: "small_inv c m {} a {(p, 40)}" "40 \<le> sm_objsize_max a" by (rule example_small)
  have "large_slabs a {(p, 40)} = {}" using e(2) by (simp add: large_slabs_def)
  then show ?thesis using small_alloc_destroy_correct [OF e(1)] e(1) by auto
qed

end
