(* ===== verification/Lsregion.thy ===== *)
theory Lsregion
  imports Slab_Client Slab_Cache_Props
begin

text \<open>
  \<open>small/lsregion.c\<close> and \<open>include/small/lsregion.h\<close>: the log structured allocator. Slabs come from the
  arena, or from \<open>malloc\<close> for large requests, and form a list from the oldest to the newest;
  memory is taken from the newest slab, every chunk with an id, and freed from the oldest one up to
  a given id. The \<open>struct lslab\<close> headers are the map \<open>ls_hdr\<close>. Ids are integers without the
  limit of 64 bits, which a program reaches after \<open>2 ^ 63\<close> slabs.
\<close>

section \<open>Data\<close>

record lslab =
  lsl_size :: nat
  lsl_used :: nat
  lsl_id :: int
  lsl_max_id :: int

record lsregion =
  ls_slabs :: slab_list
  ls_arena :: slab_arena
  ls_cached :: addr
  ls_slab_id :: int
  ls_hdr :: "addr \<Rightarrow> lslab"
  ls_sys :: sys

record lsregion_svp =
  svp_slab_id :: int
  svp_pos :: nat

definition LSLAB_NOT_USED_ID :: int where
  "LSLAB_NOT_USED_ID = - 1"

definition lsregion_svp_create :: lsregion_svp where
  "lsregion_svp_create = \<lparr>svp_slab_id = LSLAB_NOT_USED_ID, svp_pos = 0\<rparr>"

definition lslab_sizeof :: nat where
  "lslab_sizeof = align_up 48 8"

definition upd_lslab :: "addr \<Rightarrow> (lslab \<Rightarrow> lslab) \<Rightarrow> lsregion \<Rightarrow> lsregion" where
  "upd_lslab s f lr = lr\<lparr>ls_hdr := (ls_hdr lr)(s := f (ls_hdr lr s))\<rparr>"

definition lslab_create :: "addr \<Rightarrow> nat \<Rightarrow> int \<Rightarrow> lsregion \<Rightarrow> lsregion" where
  "lslab_create s sz slab_id =
     upd_lslab s (\<lambda>_. \<lparr>lsl_size = sz, lsl_used = lslab_sizeof, lsl_id = slab_id, lsl_max_id = LSLAB_NOT_USED_ID\<rparr>)"

definition lslab_unused :: "lslab \<Rightarrow> nat option" where
  "lslab_unused h = do {
     c_assert (lsl_size h \<ge> lsl_used h);
     Some (lsl_size h - lsl_used h) }"

definition lslab_use :: "addr \<Rightarrow> nat \<Rightarrow> int \<Rightarrow> lsregion \<Rightarrow> lsregion option" where
  "lslab_use s sz ident lr = do {
     unused \<leftarrow> lslab_unused (ls_hdr lr s);
     c_assert (sz \<le> unused);
     c_assert (lsl_max_id (ls_hdr lr s) \<le> ident);
     Some (upd_lslab s (\<lambda>h. h\<lparr>lsl_used := lsl_used h + sz, lsl_max_id := ident\<rparr>) lr) }"

definition lslab_pos :: "lsregion \<Rightarrow> addr \<Rightarrow> addr" where
  "lslab_pos lr s = s + lsl_used (ls_hdr lr s)"

definition lslab_end :: "lsregion \<Rightarrow> addr \<Rightarrow> addr" where
  "lslab_end lr s = s + lsl_size (ls_hdr lr s)"

definition lsregion_create :: "slab_arena \<Rightarrow> (addr \<Rightarrow> lslab) \<Rightarrow> sys \<Rightarrow> lsregion option" where
  "lsregion_create ar junk s = do {
     c_assert (ar_slab_size ar > lslab_sizeof);
     Some \<lparr>ls_slabs = slab_list_create, ls_arena = ar, ls_cached = NULL, ls_slab_id = 0, ls_hdr = junk, ls_sys = s\<rparr> }"

section \<open>Allocation\<close>

text \<open>The aligned and the unaligned position in the newest slab, if the size fits.\<close>

definition lsregion_fit :: "lsregion \<Rightarrow> nat \<Rightarrow> nat \<Rightarrow> (addr \<times> addr) option option" where
  "lsregion_fit lr sz alignment =
     (if sl_slabs (ls_slabs lr) = [] then Some None
      else do {
        let s = last (sl_slabs (ls_slabs lr));
        let unaligned = lslab_pos lr s;
        pos \<leftarrow> small_align (of_nat unaligned) (of_nat alignment);
        Some (if unat pos + sz \<le> lslab_end lr s then Some (unat pos, unaligned) else None) })"

text \<open>The end of the list of slabs, with the counter of bytes held.\<close>

definition lsregion_add_slab :: "addr \<Rightarrow> nat \<Rightarrow> lsregion \<Rightarrow> lsregion" where
  "lsregion_add_slab s sz lr =
     (let lr = lr\<lparr>ls_slab_id := ls_slab_id lr + 1\<rparr>;
          lr = lslab_create s sz (ls_slab_id lr) lr
      in lr\<lparr>ls_slabs := (ls_slabs lr)\<lparr>sl_slabs := sl_slabs (ls_slabs lr) @ [s]\<rparr>\<rparr>)"

definition lsregion_new_slab :: "os \<Rightarrow> lsregion \<Rightarrow> nat \<Rightarrow> (addr \<times> lsregion) option" where
  "lsregion_new_slab os lr aligned_size =
     (if (aligned_size + lslab_sizeof) mod 2 ^ 64 > ar_slab_size (ls_arena lr) then do {
        let slab_size = (aligned_size + lslab_sizeof) mod 2 ^ 64;
        (r, q) \<leftarrow> quota_use (ar_quota (ls_arena lr)) (of_nat slab_size);
        if r < 0 then Some (NULL, lr)
        else do {
          let (s, sy) = os_malloc os (ls_sys lr) slab_size;
          let lr = lr\<lparr>ls_arena := (ls_arena lr)\<lparr>ar_quota := q\<rparr>, ls_sys := sy\<rparr>;
          if s = NULL then do {
            (_, q) \<leftarrow> quota_release q (of_nat slab_size);
            Some (NULL, lr\<lparr>ls_arena := (ls_arena lr)\<lparr>ar_quota := q\<rparr>\<rparr>) }
          else do {
            let lr = lsregion_add_slab s slab_size lr;
            Some (s, lr\<lparr>ls_slabs := add_total (int slab_size) (ls_slabs lr)\<rparr>) } } }
      else if ls_cached lr \<noteq> NULL then do {
        let s = ls_cached lr;
        let lr = lr\<lparr>ls_cached := NULL\<rparr>;
        Some (s, lsregion_add_slab s (lsl_size (ls_hdr lr s)) lr) }
      else do {
        (s, ar, sy) \<leftarrow> slab_map os (ls_arena lr) (ls_sys lr);
        let slab_size = ar_slab_size (ls_arena lr);
        let lr = lr\<lparr>ls_arena := ar, ls_sys := sy\<rparr>;
        if s = NULL then Some (NULL, lr)
        else do {
          let lr = lsregion_add_slab s slab_size lr;
          Some (s, lr\<lparr>ls_slabs := add_total (int slab_size) (ls_slabs lr)\<rparr>) } })"

text \<open>The results are the aligned position, the unaligned one and the new state.\<close>

definition lsregion_aligned_reserve_slow :: "os \<Rightarrow> lsregion \<Rightarrow> nat \<Rightarrow> nat \<Rightarrow> (addr \<times> addr \<times> lsregion) option" where
  "lsregion_aligned_reserve_slow os lr sz alignment = do {
     fit \<leftarrow> lsregion_fit lr sz alignment;
     case fit of Some (pos, unaligned) \<Rightarrow> Some (pos, unaligned, lr)
     | None \<Rightarrow> do {
         let aligned_size = nat ((int sz + int alignment - 1) mod 2 ^ 64);
         (s, lr) \<leftarrow> lsregion_new_slab os lr aligned_size;
         if s = NULL then Some (NULL, NULL, lr)
         else do {
           let unaligned = lslab_pos lr s;
           pos \<leftarrow> small_align (of_nat unaligned) (of_nat alignment);
           c_assert (unat pos + sz \<le> lslab_end lr s);
           Some (unat pos, unaligned, lr) } } }"

definition lsregion_aligned_reserve :: "os \<Rightarrow> lsregion \<Rightarrow> nat \<Rightarrow> nat \<Rightarrow> (addr \<times> addr \<times> lsregion) option" where
  "lsregion_aligned_reserve os lr sz alignment = do {
     fit \<leftarrow> lsregion_fit lr sz alignment;
     case fit of Some (pos, unaligned) \<Rightarrow> Some (pos, unaligned, lr)
     | None \<Rightarrow> lsregion_aligned_reserve_slow os lr sz alignment }"

definition lsregion_reserve :: "os \<Rightarrow> lsregion \<Rightarrow> nat \<Rightarrow> (addr \<times> lsregion) option" where
  "lsregion_reserve os lr sz = do {
     (res, unaligned, lr) \<leftarrow> lsregion_aligned_reserve os lr sz 1;
     c_assert (res = NULL \<or> res = unaligned);
     Some (res, lr) }"

definition lsregion_alloc :: "os \<Rightarrow> lsregion \<Rightarrow> nat \<Rightarrow> int \<Rightarrow> (addr \<times> lsregion) option" where
  "lsregion_alloc os lr sz ident = do {
     (res, lr) \<leftarrow> lsregion_reserve os lr sz;
     if res = NULL then Some (NULL, lr)
     else do {
       lr \<leftarrow> lslab_use (last (sl_slabs (ls_slabs lr))) sz ident lr;
       Some (res, lr\<lparr>ls_slabs := add_used (int sz) (ls_slabs lr)\<rparr>) } }"

definition lsregion_aligned_alloc :: "os \<Rightarrow> lsregion \<Rightarrow> nat \<Rightarrow> nat \<Rightarrow> int \<Rightarrow> (addr \<times> lsregion) option" where
  "lsregion_aligned_alloc os lr sz alignment ident = do {
     (res, unaligned, lr) \<leftarrow> lsregion_aligned_reserve os lr sz alignment;
     if res = NULL then Some (NULL, lr)
     else do {
       let sz = sz + (res - unaligned);
       lr \<leftarrow> lslab_use (last (sl_slabs (ls_slabs lr))) sz ident lr;
       Some (res, lr\<lparr>ls_slabs := add_used (int sz) (ls_slabs lr)\<rparr>) } }"

section \<open>Release\<close>

fun lsregion_gc_loop :: "int \<Rightarrow> addr list \<Rightarrow> lsregion \<Rightarrow> lsregion option" where
  "lsregion_gc_loop min_id [] lr = Some lr"
| "lsregion_gc_loop min_id (s # rest) lr =
     (if lsl_max_id (ls_hdr lr s) > min_id then Some lr
      else do {
        let sz = lsl_size (ls_hdr lr s);
        let lr = lr\<lparr>ls_slabs := (ls_slabs lr)\<lparr>sl_slabs := remove1 s (sl_slabs (ls_slabs lr))\<rparr>\<rparr>;
        let lr = lr\<lparr>ls_slabs := add_used (- (int (lsl_used (ls_hdr lr s)) - int lslab_sizeof)) (ls_slabs lr)\<rparr>;
        if sz > ar_slab_size (ls_arena lr) then do {
          (_, q) \<leftarrow> quota_release (ar_quota (ls_arena lr)) (of_nat sz);
          let lr = lr\<lparr>ls_arena := (ls_arena lr)\<lparr>ar_quota := q\<rparr>, ls_slabs := add_total (- int sz) (ls_slabs lr)\<rparr>;
          lsregion_gc_loop min_id rest (lr\<lparr>ls_sys := os_free (ls_sys lr) s\<rparr>) }
        else if ls_cached lr \<noteq> NULL then do {
          let lr = lr\<lparr>ls_slabs := add_total (- int sz) (ls_slabs lr)\<rparr>;
          lsregion_gc_loop min_id rest (lr\<lparr>ls_arena := slab_unmap (ls_arena lr) s\<rparr>) }
        else do {
          let lr = lslab_create s sz LSLAB_NOT_USED_ID lr;
          lsregion_gc_loop min_id rest (lr\<lparr>ls_cached := s\<rparr>) } })"

definition lsregion_gc :: "lsregion \<Rightarrow> int \<Rightarrow> lsregion option" where
  "lsregion_gc lr min_id = lsregion_gc_loop min_id (sl_slabs (ls_slabs lr)) lr"

definition lsregion_destroy :: "lsregion \<Rightarrow> lsregion option" where
  "lsregion_destroy lr = do {
     lr \<leftarrow> (if sl_slabs (ls_slabs lr) \<noteq> [] then lsregion_gc lr (2 ^ 63 - 1) else Some lr);
     Some (if ls_cached lr \<noteq> NULL then lr\<lparr>ls_arena := slab_unmap (ls_arena lr) (ls_cached lr)\<rparr> else lr) }"

definition lsregion_used :: "lsregion \<Rightarrow> int" where
  "lsregion_used lr = st_used (ls_slabs lr)"

definition lsregion_total :: "lsregion \<Rightarrow> int" where
  "lsregion_total lr = st_total (ls_slabs lr)"

section \<open>Flushing\<close>

text \<open>The result: the filled part of the vector, the new savepoint and the largest id flushed.\<close>

fun lsregion_iovec_loop :: "lsregion \<Rightarrow> lsregion_svp \<Rightarrow> int \<Rightarrow> addr list \<Rightarrow> (addr \<times> nat) list \<times> lsregion_svp \<times> int \<Rightarrow>
    ((addr \<times> nat) list \<times> lsregion_svp \<times> int) option" where
  "lsregion_iovec_loop lr prev max_iovcnt [] st = Some st"
| "lsregion_iovec_loop lr prev max_iovcnt (s # rest) (iov, svp, max_alloc_id) =
     (let h = ls_hdr lr s; len = lsl_used h - lslab_sizeof in
      if lsl_max_id h = LSLAB_NOT_USED_ID then Some (iov, svp, max_alloc_id)
      else if lsl_id h < svp_slab_id prev \<or> (lsl_id h = svp_slab_id prev \<and> len = svp_pos prev)
      then lsregion_iovec_loop lr prev max_iovcnt rest (iov, svp, max_alloc_id)
      else if int (length iov) \<ge> max_iovcnt then Some (iov, svp, max_alloc_id)
      else do {
        let svp = \<lparr>svp_slab_id = lsl_id h, svp_pos = len\<rparr>;
        v \<leftarrow> (if lsl_id h = svp_slab_id prev then do {
                c_assert (len > svp_pos prev);
                Some (s + lslab_sizeof + svp_pos prev, len - svp_pos prev) }
              else Some (s + lslab_sizeof, len));
        lsregion_iovec_loop lr prev max_iovcnt rest (iov @ [v], svp, lsl_max_id h) })"

definition lsregion_to_iovec :: "lsregion \<Rightarrow> int \<Rightarrow> lsregion_svp \<Rightarrow> ((addr \<times> nat) list \<times> lsregion_svp \<times> int) option" where
  "lsregion_to_iovec lr iovcnt svp = lsregion_iovec_loop lr svp iovcnt (sl_slabs (ls_slabs lr)) ([], svp, LSLAB_NOT_USED_ID)"

end
