(* ===== verification/Lsregion_Props.thy ===== *)
theory Lsregion_Props
  imports Lsregion
begin

text \<open>
  The log structured allocator is a log: allocation appends to it, \<open>lsregion_gc\<close> removes a prefix of
  its slabs, and flushing with a savepoint returns every byte exactly once and in order.
\<close>

section \<open>The invariant\<close>

abbreviation ls_list :: "lsregion \<Rightarrow> addr list" where
  "ls_list lr \<equiv> sl_slabs (ls_slabs lr)"

abbreviation ls_unit :: "lsregion \<Rightarrow> nat" where
  "ls_unit lr \<equiv> ar_slab_size (ls_arena lr)"

abbreviation ls_size :: "lsregion \<Rightarrow> addr \<Rightarrow> nat" where
  "ls_size lr s \<equiv> lsl_size (ls_hdr lr s)"

definition ls_large :: "lsregion \<Rightarrow> addr list" where
  "ls_large lr = filter (\<lambda>s. ls_size lr s > ls_unit lr) (ls_list lr)"

definition ls_mapped :: "lsregion \<Rightarrow> addr set" where
  "ls_mapped lr = {s \<in> set (ls_list lr). ls_size lr s \<le> ls_unit lr} \<union> ({ls_cached lr} - {NULL})"

definition lslab_ok :: "lsregion \<Rightarrow> addr \<Rightarrow> bool" where
  "lslab_ok lr s \<longleftrightarrow> s \<noteq> NULL \<and> ls_unit lr \<le> ls_size lr s \<and> lslab_sizeof \<le> lsl_used (ls_hdr lr s) \<and> lsl_used (ls_hdr lr s) \<le> ls_size lr s \<and>
     s + ls_size lr s \<le> 2 ^ 63 \<and> - 1 \<le> lsl_max_id (ls_hdr lr s) \<and> lsl_max_id (ls_hdr lr s) < 2 ^ 63 \<and>
     (lsl_max_id (ls_hdr lr s) = LSLAB_NOT_USED_ID \<longrightarrow> lsl_used (ls_hdr lr s) = lslab_sizeof) \<and>
     0 < lsl_id (ls_hdr lr s) \<and> lsl_id (ls_hdr lr s) \<le> ls_slab_id lr \<and>
     (ls_size lr s > ls_unit lr \<longrightarrow> ls_size lr s < 1024 * (2 ^ 32 - 1) \<and> (s, ls_size lr s) \<in> set (heap (ls_sys lr)))"

text \<open>\<open>Out\<close> and \<open>e\<close> are the slabs and the units of the quota that the other users of the arena have.\<close>

definition lsregion_inv :: "lsregion \<Rightarrow> addr set \<Rightarrow> nat \<Rightarrow> bool" where
  "lsregion_inv lr Out e \<longleftrightarrow> distinct (ls_list lr) \<and> ls_cached lr \<notin> set (ls_list lr) \<and>
     arena_inv (ls_arena lr) (ls_sys lr) (Out \<union> ls_mapped lr) (e + (\<Sum>s \<leftarrow> ls_large lr. q_units (ls_size lr s))) \<and> Out \<inter> ls_mapped lr = {} \<and>
     (\<forall>s \<in> set (ls_list lr). lslab_ok lr s) \<and> (ls_cached lr \<noteq> NULL \<longrightarrow> ls_size lr (ls_cached lr) = ls_unit lr) \<and>
     (\<forall>s \<in> set (ls_large lr). \<forall>t \<in> set (ls_large lr). s \<noteq> t \<longrightarrow> span s (ls_size lr s) \<inter> span t (ls_size lr t) = {}) \<and>
     sorted_wrt (<) (map (\<lambda>s. lsl_id (ls_hdr lr s)) (ls_list lr)) \<and> 0 \<le> ls_slab_id lr \<and>
     st_used (ls_slabs lr) = (\<Sum>s \<leftarrow> ls_list lr. int (lsl_used (ls_hdr lr s) - lslab_sizeof)) \<and>
     st_total (ls_slabs lr) = (\<Sum>s \<leftarrow> ls_list lr. int (ls_size lr s)) + (if ls_cached lr = NULL then 0 else int (ls_unit lr))"

lemma lsregion_invD:
  assumes "lsregion_inv lr Out e"
  shows "distinct (ls_list lr)" and "ls_cached lr \<notin> set (ls_list lr)"
    and "arena_inv (ls_arena lr) (ls_sys lr) (Out \<union> ls_mapped lr) (e + (\<Sum>s \<leftarrow> ls_large lr. q_units (ls_size lr s)))" and "Out \<inter> ls_mapped lr = {}"
    and "s \<in> set (ls_list lr) \<Longrightarrow> lslab_ok lr s" and "ls_cached lr \<noteq> NULL \<Longrightarrow> ls_size lr (ls_cached lr) = ls_unit lr"
  using assms unfolding lsregion_inv_def by blast+

lemma lslab_sizeof_48: "lslab_sizeof = 48"
  by (simp add: lslab_sizeof_def align_up_def)

lemma ls_arena:
  assumes "lsregion_inv lr Out e"
  shows "arena_config (ls_arena lr)" and "quota_ok (ar_quota (ls_arena lr))" and "65536 \<le> ls_unit lr"
    and "covered (mapped (ls_sys lr)) \<inter> taken (heap (ls_sys lr)) = {}"
proof -
  note A = lsregion_invD(3) [OF assms]
  show cfg: "arena_config (ls_arena lr)" using A by (simp add: arena_inv_def)
  show "quota_ok (ar_quota (ls_arena lr))" "covered (mapped (ls_sys lr)) \<inter> taken (heap (ls_sys lr)) = {}" using A by (simp_all add: arena_inv_def)
  obtain k where "16 \<le> k" "ls_unit lr = 2 ^ k" using cfg by (auto simp: arena_config_def)
  then have "(2::nat) ^ 16 \<le> ls_unit lr" by (simp only:) (rule power_increasing, simp_all)
  then show "65536 \<le> ls_unit lr" by simp
qed

lemma ls_mapped_placed:
  assumes inv: "lsregion_inv lr Out e" and s: "s \<in> Out \<union> ls_mapped lr"
  shows "ls_unit lr dvd s" and "span s (ls_unit lr) \<subseteq> covered (mapped (ls_sys lr))" and "s \<noteq> NULL" and "s + ls_unit lr \<le> 2 ^ 63"
proof -
  have p: "slab_placed (ls_arena lr) (ls_sys lr) s" using lsregion_invD(3) [OF inv] s by (auto simp: arena_inv_def arena_slabs_def)
  then show "ls_unit lr dvd s" "span s (ls_unit lr) \<subseteq> covered (mapped (ls_sys lr))" "s \<noteq> NULL" by (simp_all add: slab_placed_def)
  then show "s + ls_unit lr \<le> 2 ^ 63" using ls_arena(3,4) [OF inv] by (intro span_low [of _ _ "heap (ls_sys lr)"]) auto
qed

lemma ls_large_heap:
  assumes inv: "lsregion_inv lr Out e" and s: "s \<in> set (ls_list lr)" "\<not> ls_size lr s \<le> ls_unit lr"
  shows "s \<in> set (ls_large lr)" and "span s (ls_size lr s) \<subseteq> taken (heap (ls_sys lr))"
proof -
  have "(s, ls_size lr s) \<in> set (heap (ls_sys lr))" using lsregion_invD(5) [OF inv s(1)] s(2) by (simp add: lslab_ok_def)
  then show "span s (ls_size lr s) \<subseteq> taken (heap (ls_sys lr))" using in_covered covered_taken by (metis order_trans)
  show "s \<in> set (ls_large lr)" using s by (simp add: ls_large_def)
qed

lemma ls_slab_taken:
  assumes inv: "lsregion_inv lr Out e" and s: "s \<in> set (ls_list lr) \<or> s \<in> Out \<union> ls_mapped lr"
  shows "s \<in> covered (mapped (ls_sys lr)) \<union> taken (heap (ls_sys lr))"
proof (cases "s \<in> Out \<union> ls_mapped lr")
  case True
  have "s \<in> span s (ls_unit lr)" using ls_arena(3) [OF inv] by simp
  then show ?thesis using ls_mapped_placed(2) [OF inv True] by blast
next
  case False
  then have l: "s \<in> set (ls_list lr)" "\<not> ls_size lr s \<le> ls_unit lr" using s by (auto simp: ls_mapped_def)
  have "s \<in> span s (ls_size lr s)" using l(2) by simp
  then show ?thesis using ls_large_heap(2) [OF inv l] by blast
qed

text \<open>Slabs overlap neither each other nor the slabs of other users.\<close>

lemma ls_slabs_disjoint:
  assumes inv: "lsregion_inv lr Out e" and s: "s \<in> set (ls_list lr)" and t: "t \<in> set (ls_list lr)" "s \<noteq> t"
  shows "span s (ls_size lr s) \<inter> span t (ls_size lr t) = {}"
proof -
  have small: "ls_unit lr dvd x \<and> span x (ls_size lr x) \<subseteq> covered (mapped (ls_sys lr)) \<and> ls_size lr x = ls_unit lr"
    if "x \<in> set (ls_list lr)" "ls_size lr x \<le> ls_unit lr" for x
  proof -
    have e: "ls_size lr x = ls_unit lr" using lsregion_invD(5) [OF inv that(1)] that(2) by (simp add: lslab_ok_def)
    have "x \<in> Out \<union> ls_mapped lr" using that by (simp add: ls_mapped_def)
    then show ?thesis using e ls_mapped_placed(1,2) [OF inv] by simp
  qed
  note large = ls_large_heap [OF inv]
  note D = ls_arena(4) [OF inv]
  consider "ls_size lr s \<le> ls_unit lr" "ls_size lr t \<le> ls_unit lr" | "ls_size lr s \<le> ls_unit lr" "\<not> ls_size lr t \<le> ls_unit lr"
    | "\<not> ls_size lr s \<le> ls_unit lr" "ls_size lr t \<le> ls_unit lr" | "\<not> ls_size lr s \<le> ls_unit lr" "\<not> ls_size lr t \<le> ls_unit lr" by blast
  then show ?thesis
  proof cases
    case 1
    then show ?thesis using small [OF s 1(1)] small [OF t(1) 1(2)] span_same_size_disjoint [of "ls_unit lr" s t] t(2) by simp
  next
    case 2
    then show ?thesis using small [OF s 2(1)] large [OF t(1) 2(2)] D by blast
  next
    case 3
    then show ?thesis using small [OF t(1) 3(2)] large [OF s 3(1)] D by blast
  next
    case 4
    then show ?thesis using large [OF s 4(1)] large [OF t(1) 4(2)] t(2) inv unfolding lsregion_inv_def by blast
  qed
qed

section \<open>A new slab\<close>

definition fresh_lslab :: "nat \<Rightarrow> int \<Rightarrow> lslab" where
  "fresh_lslab z i = \<lparr>lsl_size = z, lsl_used = lslab_sizeof, lsl_id = i, lsl_max_id = LSLAB_NOT_USED_ID\<rparr>"

lemma fresh_lslab_simps [simp]:
  "lsl_size (fresh_lslab z i) = z" "lsl_used (fresh_lslab z i) = lslab_sizeof" "lsl_id (fresh_lslab z i) = i" "lsl_max_id (fresh_lslab z i) = LSLAB_NOT_USED_ID"
  by (simp_all add: fresh_lslab_def)

definition lsregion_grown :: "addr \<Rightarrow> nat \<Rightarrow> lsregion \<Rightarrow> lsregion \<Rightarrow> bool" where
  "lsregion_grown s z lr lr' \<longleftrightarrow> s \<notin> set (ls_list lr) \<and> ls_list lr' = ls_list lr @ [s] \<and> ls_hdr lr' = (ls_hdr lr)(s := fresh_lslab z (ls_slab_id lr + 1)) \<and>
     ls_slab_id lr' = ls_slab_id lr + 1 \<and> ls_unit lr' = ls_unit lr \<and> st_used (ls_slabs lr') = st_used (ls_slabs lr)"

lemma ls_mapped_grown:
  assumes "lsregion_grown s z lr lr'" and "ls_cached lr' = ls_cached lr \<or> ls_cached lr' = NULL"
  shows "ls_mapped lr' = (if z \<le> ls_unit lr then {s} else {}) \<union> {t \<in> set (ls_list lr). ls_size lr t \<le> ls_unit lr} \<union> ({ls_cached lr'} - {NULL})"
    and "ls_large lr' = ls_large lr @ (if z \<le> ls_unit lr then [] else [s])"
    and "(\<Sum>t \<leftarrow> ls_large lr'. q_units (ls_size lr' t)) = (\<Sum>t \<leftarrow> ls_large lr. q_units (ls_size lr t)) + (if z \<le> ls_unit lr then 0 else q_units z)"
proof -
  have g: "s \<notin> set (ls_list lr)" "ls_list lr' = ls_list lr @ [s]" "ls_hdr lr' = (ls_hdr lr)(s := fresh_lslab z (ls_slab_id lr + 1))" "ls_unit lr' = ls_unit lr"
    using assms(1) by (simp_all add: lsregion_grown_def)
  have sz: "ls_size lr' t = ls_size lr t" if "t \<in> set (ls_list lr)" for t using g(1,3) that by auto
  show "ls_mapped lr' = (if z \<le> ls_unit lr then {s} else {}) \<union> {t \<in> set (ls_list lr). ls_size lr t \<le> ls_unit lr} \<union> ({ls_cached lr'} - {NULL})"
    unfolding ls_mapped_def g(2,4) using sz g(1) by (auto simp: g(3))
  have "filter (\<lambda>t. ls_size lr' t > ls_unit lr) (ls_list lr) = ls_large lr" unfolding ls_large_def using sz by (intro filter_cong) simp_all
  then show l: "ls_large lr' = ls_large lr @ (if z \<le> ls_unit lr then [] else [s])"
    unfolding ls_large_def [of lr'] g(2,4) by (simp add: g(3))
  have "(\<Sum>t \<leftarrow> ls_large lr. q_units (ls_size lr' t)) = (\<Sum>t \<leftarrow> ls_large lr. q_units (ls_size lr t))"
    using sz by (intro arg_cong [of _ _ sum_list] map_cong) (auto simp: ls_large_def)
  then show "(\<Sum>t \<leftarrow> ls_large lr'. q_units (ls_size lr' t)) = (\<Sum>t \<leftarrow> ls_large lr. q_units (ls_size lr t)) + (if z \<le> ls_unit lr then 0 else q_units z)"
    unfolding l by (simp add: g(3))
qed

lemma lsregion_grown_inv:
  assumes inv: "lsregion_inv lr Out e" and g: "lsregion_grown s z lr lr'" and s: "s \<noteq> NULL" "s + z \<le> 2 ^ 63" "ls_unit lr \<le> z"
    and large: "ls_unit lr < z \<Longrightarrow> z < 1024 * (2 ^ 32 - 1) \<and> (s, z) \<in> set (heap (ls_sys lr')) \<and> (\<forall>t \<in> set (ls_large lr). span s z \<inter> span t (ls_size lr t) = {})"
    and heap: "set (heap (ls_sys lr)) \<subseteq> set (heap (ls_sys lr'))"
    and ca: "ls_cached lr' = ls_cached lr \<or> ls_cached lr' = NULL" "ls_cached lr' \<noteq> s"
    and ar: "arena_inv (ls_arena lr') (ls_sys lr') (Out \<union> ls_mapped lr') (e + (\<Sum>t \<leftarrow> ls_large lr'. q_units (ls_size lr' t)))"
    and out: "z \<le> ls_unit lr \<Longrightarrow> s \<notin> Out"
    and st: "st_total (ls_slabs lr') + (if ls_cached lr = NULL then 0 else int (ls_unit lr)) =
      st_total (ls_slabs lr) + int z + (if ls_cached lr' = NULL then 0 else int (ls_unit lr))"
  shows "lsregion_inv lr' Out e"
proof -
  note D = lsregion_invD [OF inv] and M = ls_mapped_grown [OF g ca(1)]
  have gg: "s \<notin> set (ls_list lr)" "ls_list lr' = ls_list lr @ [s]" "ls_hdr lr' = (ls_hdr lr)(s := fresh_lslab z (ls_slab_id lr + 1))" "ls_unit lr' = ls_unit lr"
    "ls_slab_id lr' = ls_slab_id lr + 1" "st_used (ls_slabs lr') = st_used (ls_slabs lr)" using g by (simp_all add: lsregion_grown_def)
  have old: "ls_hdr lr' t = ls_hdr lr t" if "t \<in> set (ls_list lr)" for t using gg(1,3) that by auto
  have new: "ls_hdr lr' s = fresh_lslab z (ls_slab_id lr + 1)" by (simp add: gg(3))
  have I: "0 \<le> ls_slab_id lr" "sorted_wrt (<) (map (\<lambda>s. lsl_id (ls_hdr lr s)) (ls_list lr))"
      "st_used (ls_slabs lr) = (\<Sum>s \<leftarrow> ls_list lr. int (lsl_used (ls_hdr lr s) - lslab_sizeof))"
      "st_total (ls_slabs lr) = (\<Sum>s \<leftarrow> ls_list lr. int (ls_size lr s)) + (if ls_cached lr = NULL then 0 else int (ls_unit lr))"
      "\<forall>s \<in> set (ls_large lr). \<forall>t \<in> set (ls_large lr). s \<noteq> t \<longrightarrow> span s (ls_size lr s) \<inter> span t (ls_size lr t) = {}"
    using inv by (simp_all add: lsregion_inv_def)
  have li: "t \<in> set (ls_list lr)" if "t \<in> set (ls_large lr)" for t using that by (simp add: ls_large_def)
  have u48: "lslab_sizeof \<le> z" using ls_arena(3) [OF inv] s(3) by (simp add: lslab_sizeof_48)
  have ok: "lslab_ok lr' t" if "t \<in> set (ls_list lr)" for t
    using D(5) [OF that] heap unfolding lslab_ok_def old [OF that] gg(4,5) by auto
  have ok': "lslab_ok lr' s" unfolding lslab_ok_def new gg(4,5) using s large u48 I(1) by (auto simp: LSLAB_NOT_USED_ID_def)
  have mp: "map (\<lambda>t. f (ls_hdr lr' t)) (ls_list lr) = map (\<lambda>t. f (ls_hdr lr t)) (ls_list lr)" for f :: "lslab \<Rightarrow> int" using old by (intro map_cong) simp_all
  have "ls_cached lr' \<noteq> NULL \<longrightarrow> ls_size lr' (ls_cached lr') = ls_unit lr'" using D(6) ca gg(3,4) by auto
  moreover have "ls_cached lr' \<notin> set (ls_list lr')"
  proof -
    have "NULL \<notin> set (ls_list lr)" using D(5) by (auto simp: lslab_ok_def)
    then show ?thesis using D(2) ca unfolding gg(2) by auto
  qed
  moreover have "Out \<inter> ls_mapped lr' = {}" unfolding M(1) using D(4) out ca(1) unfolding ls_mapped_def by (auto split: if_splits)
  moreover have "\<forall>x \<in> set (ls_large lr'). \<forall>y \<in> set (ls_large lr'). x \<noteq> y \<longrightarrow> span x (ls_size lr' x) \<inter> span y (ls_size lr' y) = {}"
  proof (cases "z \<le> ls_unit lr")
    case True
    then show ?thesis using I(5) li old unfolding M(2) by (auto simp del: in_span)
  next
    case False
    then have d: "span s z \<inter> span t (ls_size lr t) = {}" if "t \<in> set (ls_large lr)" for t using large that by (simp add: not_le)
    then have "span t (ls_size lr t) \<inter> span s z = {}" if "t \<in> set (ls_large lr)" for t using that by blast
    with d show ?thesis using False I(5) li old new unfolding M(2) by (auto simp del: in_span)
  qed
  moreover have "sorted_wrt (<) (map (\<lambda>s. lsl_id (ls_hdr lr' s)) (ls_list lr'))"
    using I(2) D(5) unfolding gg(2) by (auto simp: sorted_wrt_append mp new lslab_ok_def)
  moreover have "st_used (ls_slabs lr') = (\<Sum>s \<leftarrow> ls_list lr'. int (lsl_used (ls_hdr lr' s) - lslab_sizeof))"
    using I(3) unfolding gg(2,6) by (simp add: mp [of "\<lambda>h. int (lsl_used h - lslab_sizeof)"] new)
  moreover have "st_total (ls_slabs lr') = (\<Sum>s \<leftarrow> ls_list lr'. int (ls_size lr' s)) + (if ls_cached lr' = NULL then 0 else int (ls_unit lr'))"
    using I(4) st unfolding gg(2,4) by (simp add: mp [of "\<lambda>h. int (lsl_size h)"] new)
  ultimately show ?thesis unfolding lsregion_inv_def using D(1) gg(1) ok ok' ar I(1) by (simp add: gg(2,5))
qed

text \<open>What the user of the arena may ask for: the sum of the quota's counters cannot wrap.\<close>

definition lsregion_request_ok :: "lsregion \<Rightarrow> nat \<Rightarrow> bool" where
  "lsregion_request_ok lr n \<longleftrightarrow> n + lslab_sizeof < 2 ^ 63 \<and> q_total (ar_quota (ls_arena lr)) + q_units (n + lslab_sizeof) < 2 ^ 32"

text \<open>The same log, with another arena or system state.\<close>

definition same_log :: "lsregion \<Rightarrow> lsregion \<Rightarrow> bool" where
  "same_log lr lr' \<longleftrightarrow> ls_list lr' = ls_list lr \<and> ls_hdr lr' = ls_hdr lr \<and> ls_unit lr' = ls_unit lr \<and> ls_cached lr' = ls_cached lr \<and>
     ls_slab_id lr' = ls_slab_id lr \<and> ls_slabs lr' = ls_slabs lr"

lemma same_log_inv:
  assumes "lsregion_inv lr Out e" and "same_log lr lr'" and "heap (ls_sys lr') = heap (ls_sys lr)"
    and "arena_inv (ls_arena lr') (ls_sys lr') (Out \<union> ls_mapped lr) (e + (\<Sum>s \<leftarrow> ls_large lr. q_units (ls_size lr s)))"
  shows "lsregion_inv lr' Out e"
proof -
  have s: "ls_hdr lr' = ls_hdr lr" "ls_unit lr' = ls_unit lr" "ls_cached lr' = ls_cached lr" "ls_slab_id lr' = ls_slab_id lr" "ls_slabs lr' = ls_slabs lr"
    using assms(2) by (simp_all add: same_log_def)
  have m: "ls_mapped lr' = ls_mapped lr" "ls_large lr' = ls_large lr" by (simp_all add: ls_mapped_def ls_large_def s)
  have "lslab_ok lr' t = lslab_ok lr t" for t by (simp add: lslab_ok_def s assms(3))
  then show ?thesis using assms(1,4) by (simp add: lsregion_inv_def s m)
qed

lemma malloc_slab_spec:
  assumes os: "os_ok os" and inv: "lsregion_inv lr Out e" and r: "lsregion_request_ok lr n" and big: "ls_unit lr < n + lslab_sizeof"
  obtains (fail) lr' where "lsregion_new_slab os lr n = Some (NULL, lr')" and "lsregion_inv lr' Out e" and "same_log lr lr'"
      and "q_total (ar_quota (ls_arena lr')) = q_total (ar_quota (ls_arena lr))"
  | (ok) s lr' where "lsregion_new_slab os lr n = Some (s, lr')" and "s \<noteq> NULL" and "lsregion_inv lr' Out e" and "lsregion_grown s (n + lslab_sizeof) lr lr'"
      and "q_total (ar_quota (ls_arena lr')) = q_total (ar_quota (ls_arena lr))"
proof -
  let ?z = "n + lslab_sizeof" and ?ar = "ls_arena lr" and ?e = "e + (\<Sum>s \<leftarrow> ls_large lr. q_units (ls_size lr s))"
  note A = ls_arena [OF inv] and D = lsregion_invD [OF inv]
  have z: "?z < 2 ^ 64" "0 < ?z" using r by (simp_all add: lsregion_request_ok_def lslab_sizeof_48)
  have un: "unat (of_nat ?z :: u64) = ?z" using z(1) by (rule unat_of_nat_u64)
  have nz: "of_nat ?z \<noteq> (0 :: u64)" using un z(2) by (metis gr_implies_not0 unat_0)
  show thesis
  proof (cases rule: quota_use_try [OF nz, of "ar_quota ?ar", case_names hyp no yes])
    case hyp
    then show ?case using r A(2) unfolding un lsregion_request_ok_def quota_ok_def by linarith
  next
    case no
    then have "lsregion_new_slab os lr n = Some (NULL, lr)" using big z(1) by (simp add: lsregion_new_slab_def Let_def)
    then show thesis using inv by (intro fail [of lr]) (simp_all add: same_log_def)
  next
    case (yes r' q)
    note y = yes [unfolded un]
    have zb: "?z < 1024 * (2 ^ 32 - 1)"
    proof -
      have "0 < q_units (ls_unit lr)" using A(3) by (simp add: q_units_pos)
      moreover have "q_total (ar_quota ?ar) + q_units (ls_unit lr) < 2 ^ 32" using A(1) by (simp add: arena_config_def)
      moreover have "q_units ?z \<le> q_total (ar_quota ?ar)" using y(4,5,6) by (simp add: quota_ok_def)
      ultimately have "q_units ?z < 2 ^ 32 - 1" by linarith
      then show ?thesis using q_units_bounds [of ?z] by simp
    qed
    obtain s sy where mal: "os_malloc os (ls_sys lr) ?z = (s, sy)" by force
    note mc = os_malloc_cases [OF os mal]
    show thesis
    proof (cases "s = NULL")
      case True
      have lt: "of_nat ?z < QUOTA_MAX" using zb by (simp add: of_nat_less_QUOTA_MAX [OF z(1)] del: of_nat_add)
      obtain r'' q' where q': "quota_release q (of_nat ?z) = Some (r'', q')" "q_used q' = q_used (ar_quota ?ar)" "q_total q' = q_total (ar_quota ?ar)"
        by (rule quota_release_effect [OF lt nz, of q]) (use y un in \<open>simp_all del: of_nat_add\<close>)
      let ?lr = "lr\<lparr>ls_arena := ?ar\<lparr>ar_quota := q'\<rparr>, ls_sys := sy\<rparr>"
      have run: "lsregion_new_slab os lr n = Some (NULL, ?lr)"
        using big y(1,2) mal True q'(1) unfolding lsregion_new_slab_def mod_less [OF z(1)] by (simp add: Let_def del: of_nat_add)
      have ms: "mapped sy = mapped (ls_sys lr)" "heap sy = heap (ls_sys lr)" using mc True by auto
      have "arena_inv (?ar\<lparr>ar_quota := q'\<rparr>) sy (Out \<union> ls_mapped lr) ?e"
        using A(2,4) ms q' by (intro arena_inv_quota [OF D(3)]) (simp_all add: quota_ok_def)
      then have "lsregion_inv ?lr Out e" using ms by (intro same_log_inv [OF inv]) (simp_all add: same_log_def)
      then show thesis using run q' by (intro fail [of ?lr]) (simp_all add: same_log_def)
    next
      case False
      have ms: "mapped sy = mapped (ls_sys lr)" "heap sy = (s, ?z) # heap (ls_sys lr)"
        "span s ?z \<inter> (covered (mapped (ls_sys lr)) \<union> taken (heap (ls_sys lr))) = {}" using mc False by auto
      define lr1 where "lr1 = lsregion_add_slab s ?z (lr\<lparr>ls_arena := ?ar\<lparr>ar_quota := q\<rparr>, ls_sys := sy\<rparr>)"
      define lr' where "lr' = lr1\<lparr>ls_slabs := add_total (int ?z) (ls_slabs lr1)\<rparr>"
      have run: "lsregion_new_slab os lr n = Some (s, lr')"
        using big y(1,2) mal False unfolding lsregion_new_slab_def mod_less [OF z(1)] by (simp add: Let_def lr'_def lr1_def del: of_nat_add)
      have "s \<in> span s ?z" using z(2) by simp
      then have new: "s \<notin> set (ls_list lr)" "s \<notin> Out \<union> ls_mapped lr" using ls_slab_taken [OF inv, of s] ms(3) by blast+
      have g: "lsregion_grown s ?z lr lr'" using new(1)
        by (simp add: lsregion_grown_def lr'_def lr1_def lsregion_add_slab_def lslab_create_def upd_lslab_def fresh_lslab_def add_total_def Let_def)
      have F: "ls_arena lr' = ?ar\<lparr>ar_quota := q\<rparr>" "ls_sys lr' = sy" "ls_cached lr' = ls_cached lr" "st_total (ls_slabs lr') = st_total (ls_slabs lr) + int ?z"
        by (simp_all add: lr'_def lr1_def lsregion_add_slab_def lslab_create_def upd_lslab_def add_total_def Let_def)
      have M: "ls_mapped lr' = ls_mapped lr" "(\<Sum>t \<leftarrow> ls_large lr'. q_units (ls_size lr' t)) = (\<Sum>t \<leftarrow> ls_large lr. q_units (ls_size lr t)) + q_units ?z"
        using ls_mapped_grown [OF g] big F(3) by (simp_all add: ls_mapped_def)
      have "lsregion_inv lr' Out e"
      proof (rule lsregion_grown_inv [OF inv g False])
        show "s + ?z \<le> 2 ^ 63" by (rule span_low [OF _ z(2)]) (use ms(3) in blast)
        show "arena_inv (ls_arena lr') (ls_sys lr') (Out \<union> ls_mapped lr') (e + (\<Sum>t \<leftarrow> ls_large lr'. q_units (ls_size lr' t)))"
          unfolding M F(1,2) using y ms A(4) by (intro arena_inv_quota [OF D(3)]) auto
        show "?z < 1024 * (2 ^ 32 - 1) \<and> (s, ?z) \<in> set (heap (ls_sys lr')) \<and> (\<forall>t \<in> set (ls_large lr). span s ?z \<inter> span t (ls_size lr t) = {})"
        proof (intro conjI ballI zb)
          show "(s, ?z) \<in> set (heap (ls_sys lr'))" unfolding F(2) ms(2) by simp
          fix t assume t: "t \<in> set (ls_large lr)"
          then have "span t (ls_size lr t) \<subseteq> taken (heap (ls_sys lr))" by (intro ls_large_heap(2) [OF inv]) (simp_all add: ls_large_def)
          then show "span s ?z \<inter> span t (ls_size lr t) = {}" using ms(3) by blast
        qed
        show "ls_cached lr' \<noteq> s" using new(2) False F(3) by (auto simp: ls_mapped_def)
      qed (use big F ms in auto)
      then show thesis using run g F False y(5) by (intro ok [of s lr']) simp_all
    qed
  qed
qed

lemmas grown_simps = lsregion_add_slab_def lslab_create_def upd_lslab_def fresh_lslab_def add_total_def Let_def

lemma cached_slab_spec:
  assumes inv: "lsregion_inv lr Out e" and r: "lsregion_request_ok lr n" and small: "n + lslab_sizeof \<le> ls_unit lr" and ca: "ls_cached lr \<noteq> NULL"
  obtains lr' where "lsregion_new_slab os lr n = Some (ls_cached lr, lr')" and "lsregion_inv lr' Out e" and "lsregion_grown (ls_cached lr) (ls_unit lr) lr lr'"
    and "q_total (ar_quota (ls_arena lr')) = q_total (ar_quota (ls_arena lr))"
proof -
  note D = lsregion_invD [OF inv]
  define lr' where "lr' = lsregion_add_slab (ls_cached lr) (ls_unit lr) (lr\<lparr>ls_cached := NULL\<rparr>)"
  have run: "lsregion_new_slab os lr n = Some (ls_cached lr, lr')"
    using small ca D(6) [OF ca] r by (simp add: lsregion_new_slab_def lsregion_request_ok_def lr'_def Let_def)
  have g: "lsregion_grown (ls_cached lr) (ls_unit lr) lr lr'" using D(2) by (simp add: lsregion_grown_def lr'_def grown_simps)
  have F: "ls_arena lr' = ls_arena lr" "ls_sys lr' = ls_sys lr" "ls_cached lr' = NULL" "st_total (ls_slabs lr') = st_total (ls_slabs lr)"
    by (simp_all add: lr'_def grown_simps)
  have M: "ls_mapped lr' = ls_mapped lr" "(\<Sum>t \<leftarrow> ls_large lr'. q_units (ls_size lr' t)) = (\<Sum>t \<leftarrow> ls_large lr. q_units (ls_size lr t))"
    using ls_mapped_grown [OF g] F(3) ca by (auto simp: ls_mapped_def)
  have mp: "ls_cached lr \<in> Out \<union> ls_mapped lr" using ca by (simp add: ls_mapped_def)
  have "lsregion_inv lr' Out e"
  proof (rule lsregion_grown_inv [OF inv g ca])
    show "arena_inv (ls_arena lr') (ls_sys lr') (Out \<union> ls_mapped lr') (e + (\<Sum>t \<leftarrow> ls_large lr'. q_units (ls_size lr' t)))"
      unfolding M F(1,2) by (rule D(3))
    show "ls_cached lr \<notin> Out" using D(4) ca by (auto simp: ls_mapped_def)
  qed (use ls_mapped_placed(4) [OF inv mp] F ca in auto)
  then show thesis using run g F by (intro that [of lr']) simp_all
qed

lemma mapped_slab_spec:
  assumes os: "os_ok os" and inv: "lsregion_inv lr Out e" and r: "lsregion_request_ok lr n" and small: "n + lslab_sizeof \<le> ls_unit lr" and ca: "ls_cached lr = NULL"
  obtains (fail) lr' where "lsregion_new_slab os lr n = Some (NULL, lr')" and "lsregion_inv lr' Out e" and "same_log lr lr'"
      and "q_total (ar_quota (ls_arena lr')) = q_total (ar_quota (ls_arena lr))"
  | (ok) s lr' where "lsregion_new_slab os lr n = Some (s, lr')" and "s \<noteq> NULL" and "lsregion_inv lr' Out e" and "lsregion_grown s (ls_unit lr) lr lr'"
      and "q_total (ar_quota (ls_arena lr')) = q_total (ar_quota (ls_arena lr))"
proof -
  note D = lsregion_invD [OF inv]
  let ?e = "e + (\<Sum>s \<leftarrow> ls_large lr. q_units (ls_size lr s))"
  obtain s ar sy where m: "slab_map os (ls_arena lr) (ls_sys lr) = Some (s, ar, sy)" "heap sy = heap (ls_sys lr)" "ar_slab_size ar = ls_unit lr"
    "q_total (ar_quota ar) = q_total (ar_quota (ls_arena lr))" "s = NULL \<Longrightarrow> arena_inv ar sy (Out \<union> ls_mapped lr) ?e"
    "s \<noteq> NULL \<Longrightarrow> s \<notin> Out \<union> ls_mapped lr \<and> arena_inv ar sy (insert s (Out \<union> ls_mapped lr)) ?e"
    by (rule slab_map_spec [OF os D(3)]) (rule that)
  show thesis
  proof (cases "s = NULL")
    case True
    let ?lr = "lr\<lparr>ls_arena := ar, ls_sys := sy\<rparr>"
    have "lsregion_new_slab os lr n = Some (NULL, ?lr)" using small ca m(1) True r by (simp add: lsregion_new_slab_def lsregion_request_ok_def)
    moreover have "lsregion_inv ?lr Out e" using m True by (intro same_log_inv [OF inv]) (simp_all add: same_log_def)
    ultimately show thesis using m by (intro fail [of ?lr]) (simp_all add: same_log_def)
  next
    case False
    have new: "s \<notin> Out" "s \<notin> ls_mapped lr" and A: "arena_inv ar sy (insert s (Out \<union> ls_mapped lr)) ?e" using m(6) False by blast+
    define lr1 where "lr1 = lsregion_add_slab s (ls_unit lr) (lr\<lparr>ls_arena := ar, ls_sys := sy\<rparr>)"
    define lr' where "lr' = lr1\<lparr>ls_slabs := add_total (int (ls_unit lr)) (ls_slabs lr1)\<rparr>"
    have run: "lsregion_new_slab os lr n = Some (s, lr')"
      using small ca m(1,3) False r by (simp add: lsregion_new_slab_def lsregion_request_ok_def lr'_def lr1_def Let_def)
    have pl: "slab_placed ar sy s" "covered (mapped sy) \<inter> taken (heap sy) = {}" using A by (simp_all add: arena_inv_def arena_slabs_def)
    have in_s: "s \<in> span s (ls_unit lr)" using ls_arena(3) [OF inv] by simp
    have "s \<notin> set (ls_list lr)"
    proof
      assume l: "s \<in> set (ls_list lr)"
      then have "\<not> ls_size lr s \<le> ls_unit lr" using new(2) by (auto simp: ls_mapped_def)
      then have "span s (ls_size lr s) \<subseteq> taken (heap sy)" "s \<in> span s (ls_size lr s)" using ls_large_heap(2) [OF inv l] m(2) by simp_all
      moreover have "s \<in> covered (mapped sy)" using pl(1) in_s m(3) by (auto simp: slab_placed_def simp del: in_span)
      ultimately show False using pl(2) by blast
    qed
    then have g: "lsregion_grown s (ls_unit lr) lr lr'" using m(3) by (simp add: lsregion_grown_def lr'_def lr1_def grown_simps)
    have F: "ls_arena lr' = ar" "ls_sys lr' = sy" "ls_cached lr' = NULL" "st_total (ls_slabs lr') = st_total (ls_slabs lr) + int (ls_unit lr)"
      using ca by (simp_all add: lr'_def lr1_def grown_simps)
    have M: "ls_mapped lr' = insert s (ls_mapped lr)" "(\<Sum>t \<leftarrow> ls_large lr'. q_units (ls_size lr' t)) = (\<Sum>t \<leftarrow> ls_large lr. q_units (ls_size lr t))"
      using ls_mapped_grown [OF g] F(3) ca by (auto simp: ls_mapped_def)
    have "lsregion_inv lr' Out e"
    proof (rule lsregion_grown_inv [OF inv g False])
      show "arena_inv (ls_arena lr') (ls_sys lr') (Out \<union> ls_mapped lr') (e + (\<Sum>t \<leftarrow> ls_large lr'. q_units (ls_size lr' t)))"
        unfolding M F(1,2) using A by simp
      have "span s (ls_unit lr) \<inter> taken (heap sy) = {}" using pl m(3) by (auto simp: slab_placed_def simp del: in_span)
      then show "s + ls_unit lr \<le> 2 ^ 63" using ls_arena(3) [OF inv] by (intro span_low) simp_all
    qed (use new F ca m False in auto)
    then show thesis using run g F False m by (intro ok [of s lr']) simp_all
  qed
qed

lemma new_slab_spec:
  assumes os: "os_ok os" and inv: "lsregion_inv lr Out e" and r: "lsregion_request_ok lr n"
  obtains (fail) lr' where "lsregion_new_slab os lr n = Some (NULL, lr')" and "lsregion_inv lr' Out e" and "same_log lr lr'"
      and "q_total (ar_quota (ls_arena lr')) = q_total (ar_quota (ls_arena lr))"
  | (ok) s z lr' where "lsregion_new_slab os lr n = Some (s, lr')" and "s \<noteq> NULL" and "lsregion_inv lr' Out e" and "lsregion_grown s z lr lr'"
      and "n + lslab_sizeof \<le> z" and "q_total (ar_quota (ls_arena lr')) = q_total (ar_quota (ls_arena lr))"
proof (cases "n + lslab_sizeof \<le> ls_unit lr")
  case False
  then have "ls_unit lr < n + lslab_sizeof" by simp
  then show thesis by (rule malloc_slab_spec [OF os inv r]) (use fail ok in blast)+
next
  case True
  show thesis
  proof (cases "ls_cached lr = NULL")
    case False
    show thesis by (rule cached_slab_spec [OF inv r True False, of os]) (use ok False True in blast)
  next
    case ca: True
    show thesis by (rule mapped_slab_spec [OF os inv r True ca]) (use fail ok True in blast)+
  qed
qed

section \<open>The log\<close>

definition lslab_bytes :: "lsregion \<Rightarrow> addr \<Rightarrow> addr list" where
  "lslab_bytes lr s = [s + lslab_sizeof ..< s + lsl_used (ls_hdr lr s)]"

definition lsregion_log :: "lsregion \<Rightarrow> addr list" where
  "lsregion_log lr = concat (map (lslab_bytes lr) (ls_list lr))"

text \<open>The part of the log that is behind a savepoint.\<close>

definition lslab_after :: "lsregion \<Rightarrow> lsregion_svp \<Rightarrow> addr \<Rightarrow> addr list" where
  "lslab_after lr svp s = (if lsl_id (ls_hdr lr s) < svp_slab_id svp then [] else if lsl_id (ls_hdr lr s) = svp_slab_id svp then drop (svp_pos svp) (lslab_bytes lr s)
     else lslab_bytes lr s)"

definition lsregion_after :: "lsregion \<Rightarrow> lsregion_svp \<Rightarrow> addr list" where
  "lsregion_after lr svp = concat (map (lslab_after lr svp) (ls_list lr))"

definition svp_ok :: "lsregion \<Rightarrow> lsregion_svp \<Rightarrow> bool" where
  "svp_ok lr svp \<longleftrightarrow> svp_slab_id svp \<le> ls_slab_id lr \<and> (ls_list lr \<noteq> [] \<longrightarrow> svp_slab_id svp \<le> lsl_id (ls_hdr lr (last (ls_list lr)))) \<and>
     (\<forall>s \<in> set (ls_list lr). lsl_id (ls_hdr lr s) = svp_slab_id svp \<longrightarrow> svp_pos svp \<le> lsl_used (ls_hdr lr s) - lslab_sizeof)"

lemma svp_create_ok:
  assumes "lsregion_inv lr Out e"
  shows "svp_ok lr lsregion_svp_create" and "lsregion_after lr lsregion_svp_create = lsregion_log lr"
proof -
  have i: "0 < lsl_id (ls_hdr lr s)" if "s \<in> set (ls_list lr)" for s using lsregion_invD(5) [OF assms that] by (simp add: lslab_ok_def)
  moreover have "0 \<le> ls_slab_id lr" using assms by (simp add: lsregion_inv_def)
  ultimately show "svp_ok lr lsregion_svp_create" using i [OF last_in_set]
    by (fastforce simp: svp_ok_def lsregion_svp_create_def LSLAB_NOT_USED_ID_def)
  have "lslab_after lr lsregion_svp_create s = lslab_bytes lr s" if "s \<in> set (ls_list lr)" for s
    using i [OF that] by (simp add: lslab_after_def lsregion_svp_create_def LSLAB_NOT_USED_ID_def)
  then have "map (lslab_after lr lsregion_svp_create) (ls_list lr) = map (lslab_bytes lr) (ls_list lr)" by (intro map_cong) simp_all
  then show "lsregion_after lr lsregion_svp_create = lsregion_log lr" by (simp only: lsregion_after_def lsregion_log_def)
qed

lemma after_same:
  assumes "same_log lr lr'"
  shows "lsregion_after lr' svp = lsregion_after lr svp" and "svp_ok lr' svp = svp_ok lr svp"
proof -
  have s: "ls_list lr' = ls_list lr" "ls_hdr lr' = ls_hdr lr" "ls_slab_id lr' = ls_slab_id lr" using assms by (simp_all add: same_log_def)
  have "lslab_after lr' svp = lslab_after lr svp" by (intro ext) (simp add: lslab_after_def lslab_bytes_def s)
  then show "lsregion_after lr' svp = lsregion_after lr svp" by (simp add: lsregion_after_def s)
  show "svp_ok lr' svp = svp_ok lr svp" by (simp add: svp_ok_def s)
qed

lemma after_grown:
  assumes g: "lsregion_grown s z lr lr'" and o: "svp_ok lr svp"
  shows "lsregion_after lr' svp = lsregion_after lr svp" and "svp_ok lr' svp"
proof -
  have g: "s \<notin> set (ls_list lr)" "ls_list lr' = ls_list lr @ [s]" "ls_hdr lr' = (ls_hdr lr)(s := fresh_lslab z (ls_slab_id lr + 1))" "ls_slab_id lr' = ls_slab_id lr + 1"
    using g by (simp_all add: lsregion_grown_def)
  have m: "map (lslab_after lr' svp) (ls_list lr) = map (lslab_after lr svp) (ls_list lr)"
    using g(1) by (intro map_cong) (auto simp: lslab_after_def lslab_bytes_def g(3))
  have "lslab_after lr' svp s = []" by (simp add: lslab_after_def lslab_bytes_def g(3))
  then show "lsregion_after lr' svp = lsregion_after lr svp" unfolding lsregion_after_def g(2) map_append m by simp
  show "svp_ok lr' svp" using o g(1) unfolding svp_ok_def g(2,4) by (auto simp: g(3))
qed

text \<open>Where the next chunk can be: in the newest slab, behind what is used.\<close>

definition ls_room :: "lsregion \<Rightarrow> nat \<Rightarrow> nat \<Rightarrow> addr \<Rightarrow> addr \<Rightarrow> bool" where
  "ls_room lr sz al p u \<longleftrightarrow> ls_list lr \<noteq> [] \<and> u = lslab_pos lr (last (ls_list lr)) \<and> p = align_up u al \<and> p + sz \<le> lslab_end lr (last (ls_list lr)) \<and> p \<noteq> NULL"

lemma lsregion_fit_spec:
  assumes inv: "lsregion_inv lr Out e" and k: "k < 32"
  obtains "lsregion_fit lr sz (2 ^ k) = Some None" | p u where "lsregion_fit lr sz (2 ^ k) = Some (Some (p, u))" and "ls_room lr sz (2 ^ k) p u"
proof (cases "ls_list lr = []")
  case True
  then show thesis using that(1) by (simp add: lsregion_fit_def)
next
  case False
  let ?s = "last (ls_list lr)" and ?u = "lslab_pos lr (last (ls_list lr))"
  have ok: "lslab_ok lr ?s" using lsregion_invD(5) [OF inv] False by simp
  have kb: "(2::nat) ^ k < 2 ^ 32" using k by (intro power_strict_increasing) simp_all
  have "?u \<le> 2 ^ 63" "0 < ?u" using ok by (simp_all add: lslab_ok_def lslab_pos_def)
  then have "?u + 2 ^ k < 2 ^ 64" using kb by simp
  then obtain r where r: "small_align (of_nat ?u) (of_nat (2 ^ k)) = Some r" "unat r = align_up ?u (2 ^ k)" by (rule small_align_addr [OF k])
  have "0 < align_up ?u (2 ^ k)" using align_up_ge [of "2 ^ k" ?u] \<open>0 < ?u\<close> by simp
  then show thesis using that r False by (cases "align_up ?u (2 ^ k) + sz \<le> lslab_end lr ?s") (simp_all add: lsregion_fit_def ls_room_def Let_def)
qed

lemma aligned_reserve_spec:
  assumes os: "os_ok os" and inv: "lsregion_inv lr Out e" and k: "k < 32" and r: "lsregion_request_ok lr (sz + 2 ^ k - 1)"
  obtains (fail) lr' where "lsregion_aligned_reserve os lr sz (2 ^ k) = Some (NULL, NULL, lr')" and "lsregion_inv lr' Out e" and "same_log lr lr'"
  | (ok) p u lr' where "lsregion_aligned_reserve os lr sz (2 ^ k) = Some (p, u, lr')" and "lsregion_inv lr' Out e" and "ls_room lr' sz (2 ^ k) p u"
      and "lr' = lr \<or> (\<exists>s z. lsregion_grown s z lr lr')"
proof (rule lsregion_fit_spec [OF inv k, of sz])
  fix p u assume f: "lsregion_fit lr sz (2 ^ k) = Some (Some (p, u))" "ls_room lr sz (2 ^ k) p u"
  have "lsregion_aligned_reserve os lr sz (2 ^ k) = Some (p, u, lr)" unfolding lsregion_aligned_reserve_def f(1) by simp
  then show thesis using inv f(2) by (intro ok [of p u lr]) simp_all
next
  assume f: "lsregion_fit lr sz (2 ^ k) = Some None"
  let ?n = "sz + 2 ^ k - 1"
  have lt: "?n < 2 ^ 64" using r by (simp add: lsregion_request_ok_def)
  have "(1::nat) \<le> 2 ^ k" by simp
  then have "int sz + int (2 ^ k) - 1 = int ?n" by linarith
  then have n: "nat ((int sz + int (2 ^ k) - 1) mod 2 ^ 64) = ?n" using lt by (intro nat_mod_power) simp_all
  have run: "lsregion_aligned_reserve os lr sz (2 ^ k) = do {
         (s, lr) \<leftarrow> lsregion_new_slab os lr ?n;
         if s = NULL then Some (NULL, NULL, lr)
         else do {
           pos \<leftarrow> small_align (of_nat (lslab_pos lr s)) (of_nat (2 ^ k));
           c_assert (unat pos + sz \<le> lslab_end lr s);
           Some (unat pos, lslab_pos lr s, lr) } }"
    unfolding lsregion_aligned_reserve_def lsregion_aligned_reserve_slow_def f Option.bind.simps option.simps Let_def n ..
  show thesis
  proof (rule new_slab_spec [OF os inv r])
    fix lr' assume "lsregion_new_slab os lr ?n = Some (NULL, lr')" "lsregion_inv lr' Out e" "same_log lr lr'"
    then show thesis using run by (intro fail [of lr']) simp_all
  next
    fix s z lr' assume s: "lsregion_new_slab os lr ?n = Some (s, lr')" "s \<noteq> NULL" "lsregion_inv lr' Out e" "lsregion_grown s z lr lr'" "?n + lslab_sizeof \<le> z"
    have g: "ls_list lr' = ls_list lr @ [s]" "ls_hdr lr' s = fresh_lslab z (ls_slab_id lr + 1)" using s(4) by (simp_all add: lsregion_grown_def)
    have "lslab_ok lr' s" using lsregion_invD(5) [OF s(3)] g(1) by simp
    then have sz: "s + z \<le> 2 ^ 63" using g(2) by (simp add: lslab_ok_def)
    have kb: "(2::nat) ^ k < 2 ^ 32" using k by (intro power_strict_increasing) simp_all
    let ?u = "s + lslab_sizeof"
    have "?u + 2 ^ k < 2 ^ 64" using sz s(5) kb by simp
    then obtain x where x: "small_align (of_nat ?u) (of_nat (2 ^ k)) = Some x" "unat x = align_up ?u (2 ^ k)" by (rule small_align_addr [OF k])
    have b: "?u \<le> align_up ?u (2 ^ k)" "align_up ?u (2 ^ k) < ?u + 2 ^ k" using align_up_bounds [of "2 ^ k" ?u] by simp_all
    have fit: "align_up ?u (2 ^ k) + sz \<le> s + z" using b(2) s(5) by linarith
    have pe: "lslab_pos lr' s = ?u" "lslab_end lr' s = s + z" by (simp_all add: lslab_pos_def lslab_end_def g(2))
    have "lsregion_aligned_reserve os lr sz (2 ^ k) = Some (align_up ?u (2 ^ k), ?u, lr')"
      unfolding run s(1) using s(2) x fit by (simp add: pe del: of_nat_add of_nat_power)
    moreover have "ls_room lr' sz (2 ^ k) (align_up ?u (2 ^ k)) ?u" using fit b(1) s(2) by (simp add: ls_room_def g(1) pe)
    ultimately show thesis using s(3,4) ok by blast
  qed
qed

text \<open>Taking a chunk from the newest slab.\<close>

lemma lslab_use_spec:
  assumes inv: "lsregion_inv lr Out e" and l: "ls_list lr \<noteq> []" and n: "lslab_pos lr (last (ls_list lr)) + n \<le> lslab_end lr (last (ls_list lr))"
    and i: "0 \<le> i" "i < 2 ^ 63" "lsl_max_id (ls_hdr lr (last (ls_list lr))) \<le> i"
  obtains lr' where "lslab_use (last (ls_list lr)) n i lr = Some lr'" and "lsregion_inv (lr'\<lparr>ls_slabs := add_used (int n) (ls_slabs lr')\<rparr>) Out e"
    and "\<And>svp. svp_ok lr svp \<Longrightarrow> svp_ok (lr'\<lparr>ls_slabs := add_used (int n) (ls_slabs lr')\<rparr>) svp \<and>
      lsregion_after (lr'\<lparr>ls_slabs := add_used (int n) (ls_slabs lr')\<rparr>) svp =
        lsregion_after lr svp @ [lslab_pos lr (last (ls_list lr)) ..< lslab_pos lr (last (ls_list lr)) + n]"
    and "lr' = upd_lslab (last (ls_list lr)) (\<lambda>h. h\<lparr>lsl_used := lsl_used h + n, lsl_max_id := i\<rparr>) lr"
proof -
  let ?s = "last (ls_list lr)"
  note D = lsregion_invD [OF inv]
  have ok: "lslab_ok lr ?s" using D(5) l by simp
  obtain xs where xs: "ls_list lr = xs @ [?s]" using l by (metis append_butlast_last_id)
  have sx: "?s \<notin> set xs" using D(1) xs by (metis distinct_append disjoint_insert(1) empty_set list.simps(15))
  define lr1 where "lr1 = upd_lslab ?s (\<lambda>h. h\<lparr>lsl_used := lsl_used h + n, lsl_max_id := i\<rparr>) lr"
  define lr' where "lr' = lr1\<lparr>ls_slabs := add_used (int n) (ls_slabs lr1)\<rparr>"
  have fit: "lsl_used (ls_hdr lr ?s) + n \<le> ls_size lr ?s" using n by (simp add: lslab_pos_def lslab_end_def)
  have run: "lslab_use ?s n i lr = Some lr1" using ok fit i by (simp add: lslab_use_def lslab_unused_def lr1_def lslab_ok_def)
  have F: "ls_list lr' = ls_list lr" "ls_arena lr' = ls_arena lr" "ls_cached lr' = ls_cached lr" "ls_slab_id lr' = ls_slab_id lr" "ls_sys lr' = ls_sys lr"
    "st_used (ls_slabs lr') = st_used (ls_slabs lr) + int n" "st_total (ls_slabs lr') = st_total (ls_slabs lr)"
    by (simp_all add: lr'_def lr1_def upd_lslab_def add_used_def)
  have H: "ls_hdr lr' ?s = (ls_hdr lr ?s)\<lparr>lsl_used := lsl_used (ls_hdr lr ?s) + n, lsl_max_id := i\<rparr>" "\<And>t. t \<noteq> ?s \<Longrightarrow> ls_hdr lr' t = ls_hdr lr t"
    by (simp_all add: lr'_def lr1_def upd_lslab_def)
  have hx: "ls_hdr lr' t = ls_hdr lr t" if "t \<in> set xs" for t by (rule H(2)) (use that sx in blast)
  have sz: "ls_size lr' t = ls_size lr t" "lsl_id (ls_hdr lr' t) = lsl_id (ls_hdr lr t)" for t by (cases "t = ?s"; simp add: H)+
  have M: "ls_mapped lr' = ls_mapped lr" "ls_large lr' = ls_large lr" by (simp_all add: ls_mapped_def ls_large_def F sz)
  have "lslab_ok lr' t" if "t \<in> set (ls_list lr)" for t
    using D(5) [OF that] fit i by (cases "t = ?s") (auto simp: lslab_ok_def F H LSLAB_NOT_USED_ID_def)
  moreover have "st_used (ls_slabs lr') = (\<Sum>s \<leftarrow> ls_list lr'. int (lsl_used (ls_hdr lr' s) - lslab_sizeof))"
  proof -
    have "(\<Sum>t \<leftarrow> xs. int (lsl_used (ls_hdr lr' t) - lslab_sizeof)) = (\<Sum>t \<leftarrow> xs. int (lsl_used (ls_hdr lr t) - lslab_sizeof))"
      by (intro arg_cong [of _ _ sum_list] map_cong refl) (simp add: hx)
    moreover have "st_used (ls_slabs lr) = (\<Sum>s \<leftarrow> ls_list lr. int (lsl_used (ls_hdr lr s) - lslab_sizeof))" using inv by (simp add: lsregion_inv_def)
    ultimately show ?thesis unfolding F(1,6) using ok by (subst (asm) xs, subst xs) (simp add: H(1) lslab_ok_def of_nat_diff)
  qed
  ultimately have "lsregion_inv lr' Out e" using inv unfolding lsregion_inv_def by (simp add: F M sz)
  moreover have "svp_ok lr' svp \<and> lsregion_after lr' svp = lsregion_after lr svp @ [lslab_pos lr ?s ..< lslab_pos lr ?s + n]" if o: "svp_ok lr svp" for svp
  proof
    show "svp_ok lr' svp" using o l H(1) unfolding svp_ok_def F(1,4) sz by (metis (no_types, lifting) H(2) diff_le_mono le_add1 lslab.select_convs(2) lslab.surjective lslab.update_convs(2,4) order_trans)
    have m: "map (lslab_after lr' svp) xs = map (lslab_after lr svp) xs" by (intro map_cong refl) (simp add: lslab_after_def lslab_bytes_def hx)
    have "lslab_bytes lr' ?s = [?s + lslab_sizeof ..< lslab_pos lr ?s + n]" by (simp add: lslab_bytes_def H(1) lslab_pos_def add.assoc)
    also have "\<dots> = [?s + lslab_sizeof ..< lslab_pos lr ?s] @ [lslab_pos lr ?s ..< lslab_pos lr ?s + n]"
      by (rule upt_add_eq_append) (use ok in \<open>simp add: lslab_ok_def lslab_pos_def\<close>)
    finally have "lslab_bytes lr' ?s = lslab_bytes lr ?s @ [lslab_pos lr ?s ..< lslab_pos lr ?s + n]" by (simp add: lslab_bytes_def lslab_pos_def)
    moreover have "svp_slab_id svp \<le> lsl_id (ls_hdr lr ?s)" "lsl_id (ls_hdr lr ?s) = svp_slab_id svp \<Longrightarrow> svp_pos svp \<le> length (lslab_bytes lr ?s)"
      using o l by (auto simp: svp_ok_def lslab_bytes_def)
    ultimately have "lslab_after lr' svp ?s = lslab_after lr svp ?s @ [lslab_pos lr ?s ..< lslab_pos lr ?s + n]" by (simp add: lslab_after_def sz)
    then show "lsregion_after lr' svp = lsregion_after lr svp @ [lslab_pos lr ?s ..< lslab_pos lr ?s + n]"
      unfolding lsregion_after_def F(1) by (subst (1 2) xs) (simp add: m)
  qed
  ultimately show thesis using that [of lr1] run unfolding lr'_def lr1_def by blast
qed

definition newest_id :: "lsregion \<Rightarrow> int" where
  "newest_id lr = (if ls_list lr = [] then - 1 else lsl_max_id (ls_hdr lr (last (ls_list lr))))"

lemma aligned_alloc_spec:
  assumes os: "os_ok os" and inv: "lsregion_inv lr Out e" and k: "k < 32" and r: "lsregion_request_ok lr (sz + 2 ^ k - 1)"
    and i: "0 \<le> i" "i < 2 ^ 63" "newest_id lr \<le> i"
  obtains (fail) lr' where "lsregion_aligned_alloc os lr sz (2 ^ k) i = Some (NULL, lr')" and "lsregion_inv lr' Out e" and "same_log lr lr'"
  | (ok) p pad lr' where "lsregion_aligned_alloc os lr sz (2 ^ k) i = Some (p, lr')" and "p \<noteq> NULL" and "lsregion_inv lr' Out e" and "2 ^ k dvd p"
      and "pad < 2 ^ k" and "pad \<le> p"
      and "\<And>svp. svp_ok lr svp \<Longrightarrow> svp_ok lr' svp \<and> lsregion_after lr' svp = lsregion_after lr svp @ [p - pad ..< p + sz]" and "newest_id lr' = i"
proof (rule aligned_reserve_spec [OF os inv k r])
  fix lr' assume "lsregion_aligned_reserve os lr sz (2 ^ k) = Some (NULL, NULL, lr')" "lsregion_inv lr' Out e" "same_log lr lr'"
  then show thesis by (intro fail [of lr']) (simp_all add: lsregion_aligned_alloc_def)
next
  fix p u lr1 assume a: "lsregion_aligned_reserve os lr sz (2 ^ k) = Some (p, u, lr1)" "lsregion_inv lr1 Out e" "ls_room lr1 sz (2 ^ k) p u"
    "lr1 = lr \<or> (\<exists>s z. lsregion_grown s z lr lr1)"
  let ?s = "last (ls_list lr1)" and ?n = "sz + (p - u)"
  have R: "ls_list lr1 \<noteq> []" "u = lslab_pos lr1 ?s" "p = align_up u (2 ^ k)" "p + sz \<le> lslab_end lr1 ?s" "p \<noteq> NULL" using a(3) unfolding ls_room_def by blast+
  have b: "u \<le> p" "p < u + 2 ^ k" using align_up_bounds [of "2 ^ k" u] unfolding R(3) [symmetric] by simp_all
  have log: "svp_ok lr1 svp \<and> lsregion_after lr1 svp = lsregion_after lr svp" if "svp_ok lr svp" for svp using a(4) after_grown [OF _ that] that by blast
  have "lsl_max_id (ls_hdr lr1 ?s) \<le> i"
    using a(4) i R(1) by (auto simp: newest_id_def lsregion_grown_def LSLAB_NOT_USED_ID_def)
  moreover have "lslab_pos lr1 ?s + ?n \<le> lslab_end lr1 ?s" using R(2,4) b(1) by simp
  ultimately obtain lr2 where u: "lslab_use ?s ?n i lr1 = Some lr2" "lsregion_inv (lr2\<lparr>ls_slabs := add_used (int ?n) (ls_slabs lr2)\<rparr>) Out e"
    "\<And>svp. svp_ok lr1 svp \<Longrightarrow> svp_ok (lr2\<lparr>ls_slabs := add_used (int ?n) (ls_slabs lr2)\<rparr>) svp \<and>
       lsregion_after (lr2\<lparr>ls_slabs := add_used (int ?n) (ls_slabs lr2)\<rparr>) svp = lsregion_after lr1 svp @ [lslab_pos lr1 ?s ..< lslab_pos lr1 ?s + ?n]"
    "lr2 = upd_lslab ?s (\<lambda>h. h\<lparr>lsl_used := lsl_used h + ?n, lsl_max_id := i\<rparr>) lr1"
    using lslab_use_spec [OF a(2) R(1) _ i(1,2)] by blast
  let ?lr = "lr2\<lparr>ls_slabs := add_used (int ?n) (ls_slabs lr2)\<rparr>"
  have run: "lsregion_aligned_alloc os lr sz (2 ^ k) i = Some (p, ?lr)" using a(1) R(5) u(1) by (simp add: lsregion_aligned_alloc_def)
  have "[lslab_pos lr1 ?s ..< lslab_pos lr1 ?s + ?n] = [p - (p - u) ..< p + sz]" unfolding R(2) [symmetric] using b(1) by (simp add: add.commute)
  then have "svp_ok ?lr svp \<and> lsregion_after ?lr svp = lsregion_after lr svp @ [p - (p - u) ..< p + sz]" if "svp_ok lr svp" for svp
    using u(3) [of svp] log [OF that] by simp
  moreover have "newest_id ?lr = i" using R(1) by (simp add: newest_id_def u(4) upd_lslab_def add_used_def)
  moreover have "2 ^ k dvd p" by (simp add: R(3))
  ultimately show thesis using run R(5) u(2) b by (intro ok [of p ?lr "p - u"]) simp_all
qed

text \<open>\<open>lsregion_alloc\<close> is the allocation with alignment 1.\<close>

lemma align_up_one: "align_up n (2 ^ 0) = n"
  by simp

lemma alloc_is_aligned:
  assumes os: "os_ok os" and inv: "lsregion_inv lr Out e" and r: "lsregion_request_ok lr sz"
  shows "lsregion_alloc os lr sz i = lsregion_aligned_alloc os lr sz 1 i"
proof -
  have r': "lsregion_request_ok lr (sz + 2 ^ 0 - 1)" using r by simp
  show ?thesis
  proof (rule aligned_reserve_spec [OF os inv _ r'])
    fix lr' assume "lsregion_aligned_reserve os lr sz (2 ^ 0) = Some (NULL, NULL, lr')"
    then show ?thesis by (simp add: lsregion_alloc_def lsregion_reserve_def lsregion_aligned_alloc_def)
  next
    fix p u lr' assume "lsregion_aligned_reserve os lr sz (2 ^ 0) = Some (p, u, lr')" "ls_room lr' sz (2 ^ 0) p u"
    then show ?thesis by (simp add: lsregion_alloc_def lsregion_reserve_def lsregion_aligned_alloc_def ls_room_def)
  qed simp
qed

section \<open>Releasing the oldest slabs\<close>

text \<open>The oldest slab leaves the list.\<close>

definition lsregion_shrunk :: "addr \<Rightarrow> addr list \<Rightarrow> lsregion \<Rightarrow> lsregion \<Rightarrow> bool" where
  "lsregion_shrunk s rest lr lr' \<longleftrightarrow> ls_list lr = s # rest \<and> ls_list lr' = rest \<and> (\<forall>t \<in> set rest. ls_hdr lr' t = ls_hdr lr t) \<and>
     ls_slab_id lr' = ls_slab_id lr \<and> ls_unit lr' = ls_unit lr \<and>
     st_used (ls_slabs lr') = st_used (ls_slabs lr) - (int (lsl_used (ls_hdr lr s)) - int lslab_sizeof) \<and>
     (\<forall>t \<in> set rest. \<forall>z. (t, z) \<in> set (heap (ls_sys lr)) \<longrightarrow> (t, z) \<in> set (heap (ls_sys lr')))"

lemma ls_mapped_shrunk:
  assumes "lsregion_shrunk s rest lr lr'"
  shows "ls_mapped lr' = {t \<in> set rest. ls_size lr t \<le> ls_unit lr} \<union> ({ls_cached lr'} - {NULL})"
    and "ls_large lr' = filter (\<lambda>s. ls_size lr s > ls_unit lr) rest"
    and "(\<Sum>t \<leftarrow> ls_large lr. q_units (ls_size lr t)) = (\<Sum>t \<leftarrow> ls_large lr'. q_units (ls_size lr' t)) + (if ls_size lr s \<le> ls_unit lr then 0 else q_units (ls_size lr s))"
proof -
  have g: "ls_list lr = s # rest" "ls_list lr' = rest" "\<And>t. t \<in> set rest \<Longrightarrow> ls_hdr lr' t = ls_hdr lr t" "ls_unit lr' = ls_unit lr"
    using assms by (simp_all add: lsregion_shrunk_def)
  show "ls_mapped lr' = {t \<in> set rest. ls_size lr t \<le> ls_unit lr} \<union> ({ls_cached lr'} - {NULL})" using g(3) by (auto simp: ls_mapped_def g(2,4))
  show l: "ls_large lr' = filter (\<lambda>s. ls_size lr s > ls_unit lr) rest" unfolding ls_large_def g(2,4) using g(3) by (intro filter_cong) simp_all
  have "(\<Sum>t \<leftarrow> ls_large lr'. q_units (ls_size lr' t)) = (\<Sum>t \<leftarrow> ls_large lr'. q_units (ls_size lr t))"
    by (intro arg_cong [of _ _ sum_list] map_cong refl) (use g(3) in \<open>simp add: l\<close>)
  then show "(\<Sum>t \<leftarrow> ls_large lr. q_units (ls_size lr t)) =
      (\<Sum>t \<leftarrow> ls_large lr'. q_units (ls_size lr' t)) + (if ls_size lr s \<le> ls_unit lr then 0 else q_units (ls_size lr s))"
    unfolding l by (simp add: ls_large_def g(1))
qed

lemma lsregion_shrunk_inv:
  assumes inv: "lsregion_inv lr Out e" and g: "lsregion_shrunk s rest lr lr'"
    and ca: "ls_cached lr' = ls_cached lr \<or> ls_cached lr' = s \<and> ls_cached lr = NULL \<and> ls_size lr' s = ls_unit lr \<and> ls_size lr s = ls_unit lr"
    and hc: "ls_cached lr' = ls_cached lr \<Longrightarrow> ls_hdr lr' (ls_cached lr) = ls_hdr lr (ls_cached lr)"
    and ar: "arena_inv (ls_arena lr') (ls_sys lr') (Out \<union> ls_mapped lr') (e + (\<Sum>t \<leftarrow> ls_large lr'. q_units (ls_size lr' t)))"
    and st: "st_total (ls_slabs lr') + int (ls_size lr s) = st_total (ls_slabs lr) + (if ls_cached lr' = ls_cached lr then 0 else int (ls_unit lr))"
  shows "lsregion_inv lr' Out e"
proof -
  note D = lsregion_invD [OF inv] and M = ls_mapped_shrunk [OF g]
  have gg: "ls_list lr = s # rest" "ls_list lr' = rest" "\<And>t. t \<in> set rest \<Longrightarrow> ls_hdr lr' t = ls_hdr lr t" "ls_unit lr' = ls_unit lr"
    "ls_slab_id lr' = ls_slab_id lr" "st_used (ls_slabs lr') = st_used (ls_slabs lr) - (int (lsl_used (ls_hdr lr s)) - int lslab_sizeof)"
    "\<And>t z. t \<in> set rest \<Longrightarrow> (t, z) \<in> set (heap (ls_sys lr)) \<Longrightarrow> (t, z) \<in> set (heap (ls_sys lr'))" using g by (simp_all add: lsregion_shrunk_def)
  have I: "0 \<le> ls_slab_id lr" "sorted_wrt (<) (map (\<lambda>s. lsl_id (ls_hdr lr s)) (ls_list lr))"
      "st_used (ls_slabs lr) = (\<Sum>s \<leftarrow> ls_list lr. int (lsl_used (ls_hdr lr s) - lslab_sizeof))"
      "st_total (ls_slabs lr) = (\<Sum>s \<leftarrow> ls_list lr. int (ls_size lr s)) + (if ls_cached lr = NULL then 0 else int (ls_unit lr))"
      "\<forall>s \<in> set (ls_large lr). \<forall>t \<in> set (ls_large lr). s \<noteq> t \<longrightarrow> span s (ls_size lr s) \<inter> span t (ls_size lr t) = {}"
    using inv by (simp_all add: lsregion_inv_def)
  have s: "s \<notin> set rest" "lslab_ok lr s" using D(1,5) gg(1) by simp_all
  have ok: "lslab_ok lr' t" if "t \<in> set rest" for t
    using D(5) [of t] that gg(7) [OF that] unfolding lslab_ok_def gg(3) [OF that] gg(4,5) by (auto simp: gg(1))
  have mp: "map (\<lambda>t. f (ls_hdr lr' t)) rest = map (\<lambda>t. f (ls_hdr lr t)) rest" for f :: "lslab \<Rightarrow> int" using gg(3) by (intro map_cong) simp_all
  have "ls_cached lr' \<noteq> NULL \<longrightarrow> ls_size lr' (ls_cached lr') = ls_unit lr'" using D(6) ca hc gg(4) by auto
  moreover have "ls_cached lr' \<notin> set (ls_list lr')" using D(2) ca s(1) unfolding gg(1,2) by auto
  moreover have "Out \<inter> ls_mapped lr' = {}"
  proof -
    have "{ls_cached lr'} - {NULL} \<subseteq> ls_mapped lr" using ca by (auto simp: ls_mapped_def gg(1))
    then have "ls_mapped lr' \<subseteq> ls_mapped lr" unfolding M(1) by (simp add: ls_mapped_def gg(1)) blast
    then show ?thesis using D(4) by blast
  qed
  moreover have "\<forall>x \<in> set (ls_large lr'). \<forall>y \<in> set (ls_large lr'). x \<noteq> y \<longrightarrow> span x (ls_size lr' x) \<inter> span y (ls_size lr' y) = {}"
  proof -
    have "x \<in> set (ls_large lr) \<and> ls_hdr lr' x = ls_hdr lr x" if "x \<in> set (ls_large lr')" for x
      using that gg(3) [of x] unfolding M(2) by (simp add: ls_large_def [of lr] gg(1))
    then show ?thesis using I(5) by (simp del: in_span)
  qed
  moreover have "sorted_wrt (<) (map (\<lambda>s. lsl_id (ls_hdr lr' s)) (ls_list lr'))" using I(2) unfolding gg(1,2) by (simp add: mp)
  moreover have "st_used (ls_slabs lr') = (\<Sum>s \<leftarrow> ls_list lr'. int (lsl_used (ls_hdr lr' s) - lslab_sizeof))"
    using I(3) s(2) unfolding gg(1,2,6) mp [of "\<lambda>h. int (lsl_used h - lslab_sizeof)"] by (simp add: lslab_ok_def of_nat_diff)
  moreover have "st_total (ls_slabs lr') = (\<Sum>s \<leftarrow> ls_list lr'. int (ls_size lr' s)) + (if ls_cached lr' = NULL then 0 else int (ls_unit lr'))"
    using I(4) st ca s(2) unfolding gg(1,2,4) mp [of "\<lambda>h. int (lsl_size h)"] by (auto simp: lslab_ok_def)
  ultimately show ?thesis unfolding lsregion_inv_def using D(1) gg(1,5) ok ar I(1) by (simp add: gg(2))
qed

text \<open>The state after the oldest slab left the list, before its memory is dealt with.\<close>

definition ls_unlinked :: "addr \<Rightarrow> lsregion \<Rightarrow> lsregion" where
  "ls_unlinked s lr = lr\<lparr>ls_slabs := add_used (- (int (lsl_used (ls_hdr lr s)) - int lslab_sizeof)) ((ls_slabs lr)\<lparr>sl_slabs := remove1 s (ls_list lr)\<rparr>)\<rparr>"

lemma ls_unlinked_simps [simp]:
  "ls_arena (ls_unlinked s lr) = ls_arena lr" "ls_sys (ls_unlinked s lr) = ls_sys lr" "ls_cached (ls_unlinked s lr) = ls_cached lr"
  "ls_hdr (ls_unlinked s lr) = ls_hdr lr" "ls_slab_id (ls_unlinked s lr) = ls_slab_id lr" "ls_list (ls_unlinked s lr) = remove1 s (ls_list lr)"
  "st_total (ls_slabs (ls_unlinked s lr)) = st_total (ls_slabs lr)"
  "st_used (ls_slabs (ls_unlinked s lr)) = st_used (ls_slabs lr) - (int (lsl_used (ls_hdr lr s)) - int lslab_sizeof)"
  by (simp_all add: ls_unlinked_def add_used_def)

lemma gc_loop_step:
  assumes "ls_list lr = s # rest" and "lsl_max_id (ls_hdr lr s) \<le> m"
  shows "lsregion_gc_loop m (s # rest) lr =
    (if ls_size lr s > ls_unit lr then do {
       (_, q) \<leftarrow> quota_release (ar_quota (ls_arena lr)) (of_nat (ls_size lr s));
       lsregion_gc_loop m rest ((ls_unlinked s lr)\<lparr>ls_arena := (ls_arena lr)\<lparr>ar_quota := q\<rparr>,
         ls_slabs := add_total (- int (ls_size lr s)) (ls_slabs (ls_unlinked s lr)), ls_sys := os_free (ls_sys lr) s\<rparr>) }
     else if ls_cached lr \<noteq> NULL then
       lsregion_gc_loop m rest ((ls_unlinked s lr)\<lparr>ls_slabs := add_total (- int (ls_size lr s)) (ls_slabs (ls_unlinked s lr)), ls_arena := slab_unmap (ls_arena lr) s\<rparr>)
     else lsregion_gc_loop m rest ((lslab_create s (ls_size lr s) LSLAB_NOT_USED_ID (ls_unlinked s lr))\<lparr>ls_cached := s\<rparr>))"
  using assms by (auto simp: Let_def ls_unlinked_def add_total_def)

lemma ls_mapped_Cons:
  "ls_list lr = s # rest \<Longrightarrow>
    ls_mapped lr = (if ls_size lr s \<le> ls_unit lr then {s} else {}) \<union> {t \<in> set rest. ls_size lr t \<le> ls_unit lr} \<union> ({ls_cached lr} - {NULL})"
  by (auto simp: ls_mapped_def)

text \<open>Each way to release the oldest slab keeps the invariant.\<close>

lemma gc_release:
  assumes inv: "lsregion_inv lr Out e" and l: "ls_list lr = s # rest" and m: "lsl_max_id (ls_hdr lr s) \<le> m"
  obtains lr' where "lsregion_gc_loop m (s # rest) lr = lsregion_gc_loop m rest lr'" and "lsregion_inv lr' Out e" and "lsregion_shrunk s rest lr lr'"
proof -
  note D = lsregion_invD [OF inv] and A = ls_arena [OF inv]
  have s: "s \<notin> set rest" "lslab_ok lr s" using D(1,5) l by simp_all
  have sc: "s \<noteq> ls_cached lr" using D(2) l by auto
  consider (large) "ls_size lr s > ls_unit lr" | (unmap) "\<not> ls_size lr s > ls_unit lr" "ls_cached lr \<noteq> NULL" | (keep) "\<not> ls_size lr s > ls_unit lr" "ls_cached lr = NULL"
    by blast
  then show thesis
  proof cases
    case large
    let ?z = "ls_size lr s"
    have z: "?z < 1024 * (2 ^ 32 - 1)" using s(2) large by (simp add: lslab_ok_def)
    then have z64: "?z < 2 ^ 64" by simp
    have un: "unat (of_nat ?z :: u64) = ?z" using z64 by (rule unat_of_nat_u64)
    have lt: "of_nat ?z < QUOTA_MAX" using z of_nat_less_QUOTA_MAX [OF z64] by simp
    have nz: "of_nat ?z \<noteq> (0 :: u64)" using un large by (metis gr_implies_not0 unat_0)
    have ll: "ls_large lr = s # filter (\<lambda>t. ls_size lr t > ls_unit lr) rest" using large by (simp add: ls_large_def l)
    have us: "q_units (unat (of_nat ?z :: u64)) \<le> q_used (ar_quota (ls_arena lr))" using D(3) unfolding un ll by (simp add: arena_inv_def)
    obtain r q where q: "quota_release (ar_quota (ls_arena lr)) (of_nat ?z) = Some (r, q)"
        "q_used q = q_used (ar_quota (ls_arena lr)) - q_units ?z" "q_total q = q_total (ar_quota (ls_arena lr))"
      by (rule quota_release_effect [OF lt nz us]) (use un in simp)
    define lr' where "lr' = (ls_unlinked s lr)\<lparr>ls_arena := (ls_arena lr)\<lparr>ar_quota := q\<rparr>,
         ls_slabs := add_total (- int ?z) (ls_slabs (ls_unlinked s lr)), ls_sys := os_free (ls_sys lr) s\<rparr>"
    have run: "lsregion_gc_loop m (s # rest) lr = lsregion_gc_loop m rest lr'" unfolding gc_loop_step [OF l m] using large q(1) by (simp add: lr'_def)
    have g: "lsregion_shrunk s rest lr lr'" using s(1) by (auto simp: lsregion_shrunk_def lr'_def l add_total_def os_free_def)
    have F: "ls_cached lr' = ls_cached lr" "ls_hdr lr' = ls_hdr lr" "ls_arena lr' = (ls_arena lr)\<lparr>ar_quota := q\<rparr>" "ls_sys lr' = os_free (ls_sys lr) s"
      "st_total (ls_slabs lr') = st_total (ls_slabs lr) - int ?z" by (simp_all add: lr'_def add_total_def)
    have M: "ls_mapped lr' = ls_mapped lr" unfolding ls_mapped_shrunk(1) [OF g] ls_mapped_Cons [OF l] using large F(1) by simp
    have un': "(\<Sum>t \<leftarrow> ls_large lr. q_units (ls_size lr t)) = (\<Sum>t \<leftarrow> ls_large lr'. q_units (ls_size lr' t)) + q_units ?z"
      using ls_mapped_shrunk(3) [OF g] large by simp
    have "lsregion_inv lr' Out e"
    proof (rule lsregion_shrunk_inv [OF inv g])
      show "arena_inv (ls_arena lr') (ls_sys lr') (Out \<union> ls_mapped lr') (e + (\<Sum>t \<leftarrow> ls_large lr'. q_units (ls_size lr' t)))"
        unfolding M F(3,4)
      proof (rule arena_inv_quota [OF D(3)])
        show "quota_ok q" using A(2) q by (simp add: quota_ok_def)
        show "covered (mapped (ls_sys lr)) \<inter> taken (heap (os_free (ls_sys lr) s)) = {}"
          using A(4) taken_filter [of "\<lambda>(a, n). a \<noteq> s" "heap (ls_sys lr)"] by (auto simp: os_free_def)
      qed (use q us un un' in \<open>simp_all add: os_free_def\<close>)
    qed (simp_all add: F)
    then show thesis using run g by (intro that [of lr'])
  next
    case unmap
    have e: "ls_size lr s = ls_unit lr" using s(2) unmap(1) by (simp add: lslab_ok_def)
    define lr' where "lr' = (ls_unlinked s lr)\<lparr>ls_slabs := add_total (- int (ls_size lr s)) (ls_slabs (ls_unlinked s lr)), ls_arena := slab_unmap (ls_arena lr) s\<rparr>"
    have run: "lsregion_gc_loop m (s # rest) lr = lsregion_gc_loop m rest lr'" unfolding gc_loop_step [OF l m] using unmap by (simp add: lr'_def)
    have u: "ar_slab_size (slab_unmap (ls_arena lr) s) = ls_unit lr" by (simp add: slab_unmap_def)
    have g: "lsregion_shrunk s rest lr lr'" by (simp add: lsregion_shrunk_def lr'_def l add_total_def u)
    have F: "ls_cached lr' = ls_cached lr" "ls_hdr lr' = ls_hdr lr" "ls_arena lr' = slab_unmap (ls_arena lr) s" "ls_sys lr' = ls_sys lr"
      "st_total (ls_slabs lr') = st_total (ls_slabs lr) - int (ls_size lr s)" by (simp_all add: lr'_def add_total_def)
    have M: "ls_mapped lr = insert s (ls_mapped lr')" "s \<notin> ls_mapped lr'"
      unfolding ls_mapped_shrunk(1) [OF g] ls_mapped_Cons [OF l] using e s(1) sc F(1) by simp_all
    have un': "(\<Sum>t \<leftarrow> ls_large lr. q_units (ls_size lr t)) = (\<Sum>t \<leftarrow> ls_large lr'. q_units (ls_size lr' t))"
      using ls_mapped_shrunk(3) [OF g] e by simp
    have so: "s \<notin> Out \<union> ls_mapped lr'" using D(4) M by blast
    have "lsregion_inv lr' Out e"
    proof (rule lsregion_shrunk_inv [OF inv g])
      show "arena_inv (ls_arena lr') (ls_sys lr') (Out \<union> ls_mapped lr') (e + (\<Sum>t \<leftarrow> ls_large lr'. q_units (ls_size lr' t)))"
        unfolding F(3,4) using D(3) unfolding M(1) un' by (intro slab_unmap_inv [OF _ so]) simp
    qed (simp_all add: F)
    then show thesis using run g by (intro that [of lr'])
  next
    case keep
    have e: "ls_size lr s = ls_unit lr" using s(2) keep(1) by (simp add: lslab_ok_def)
    define lr' where "lr' = (lslab_create s (ls_size lr s) LSLAB_NOT_USED_ID (ls_unlinked s lr))\<lparr>ls_cached := s\<rparr>"
    have run: "lsregion_gc_loop m (s # rest) lr = lsregion_gc_loop m rest lr'" unfolding gc_loop_step [OF l m] using keep by (simp add: lr'_def)
    have g: "lsregion_shrunk s rest lr lr'" using s(1) by (auto simp: lsregion_shrunk_def lr'_def l lslab_create_def upd_lslab_def)
    have F: "ls_cached lr' = s" "ls_size lr' s = ls_unit lr" "ls_arena lr' = ls_arena lr" "ls_sys lr' = ls_sys lr"
      "st_total (ls_slabs lr') = st_total (ls_slabs lr)" by (simp_all add: lr'_def lslab_create_def upd_lslab_def e)
    have sn: "s \<noteq> NULL" using s(2) by (simp add: lslab_ok_def)
    have M: "ls_mapped lr' = ls_mapped lr" unfolding ls_mapped_shrunk(1) [OF g] ls_mapped_Cons [OF l] using e keep(2) sn F(1) by auto
    have un': "(\<Sum>t \<leftarrow> ls_large lr. q_units (ls_size lr t)) = (\<Sum>t \<leftarrow> ls_large lr'. q_units (ls_size lr' t))"
      using ls_mapped_shrunk(3) [OF g] e by simp
    have "lsregion_inv lr' Out e"
    proof (rule lsregion_shrunk_inv [OF inv g])
      show "arena_inv (ls_arena lr') (ls_sys lr') (Out \<union> ls_mapped lr') (e + (\<Sum>t \<leftarrow> ls_large lr'. q_units (ls_size lr' t)))"
        unfolding F(3,4) M using D(3) unfolding un' .
    qed (use F e keep(2) sn in simp_all)
    then show thesis using run g by (intro that [of lr'])
  qed
qed

lemma gc_loop_spec:
  "lsregion_inv lr Out e \<Longrightarrow> ls_list lr = xs \<Longrightarrow> \<exists>lr'. lsregion_gc_loop m xs lr = Some lr' \<and> lsregion_inv lr' Out e \<and>
     ls_list lr' = dropWhile (\<lambda>s. lsl_max_id (ls_hdr lr s) \<le> m) xs \<and> (\<forall>s \<in> set (ls_list lr'). ls_hdr lr' s = ls_hdr lr s) \<and> ls_slab_id lr' = ls_slab_id lr"
proof (induction xs arbitrary: lr)
  case Nil
  then show ?case by simp
next
  case (Cons s rest)
  show ?case
  proof (cases "lsl_max_id (ls_hdr lr s) \<le> m")
    case False
    then show ?thesis using Cons.prems by simp
  next
    case True
    obtain lr1 where r: "lsregion_gc_loop m (s # rest) lr = lsregion_gc_loop m rest lr1" "lsregion_inv lr1 Out e" "lsregion_shrunk s rest lr lr1"
      by (rule gc_release [OF Cons.prems True])
    have g: "ls_list lr1 = rest" "\<And>t. t \<in> set rest \<Longrightarrow> ls_hdr lr1 t = ls_hdr lr t" "ls_slab_id lr1 = ls_slab_id lr" using r(3) by (simp_all add: lsregion_shrunk_def)
    have dw: "dropWhile (\<lambda>s. lsl_max_id (ls_hdr lr1 s) \<le> m) rest = dropWhile (\<lambda>s. lsl_max_id (ls_hdr lr s) \<le> m) rest"
      using g(2) by (intro dropWhile_cong) simp_all
    obtain lr' where o: "lsregion_gc_loop m rest lr1 = Some lr'" "lsregion_inv lr' Out e" "ls_list lr' = dropWhile (\<lambda>s. lsl_max_id (ls_hdr lr s) \<le> m) rest"
      "\<forall>s \<in> set (ls_list lr'). ls_hdr lr' s = ls_hdr lr1 s" "ls_slab_id lr' = ls_slab_id lr1" using Cons.IH [OF r(2) g(1)] unfolding dw by blast
    have "\<forall>s \<in> set (ls_list lr'). ls_hdr lr' s = ls_hdr lr s" using o(3,4) g(2) set_dropWhileD by metis
    then show ?thesis unfolding r(1) using o True g(3) by simp
  qed
qed

section \<open>Flushing\<close>

definition iov_bytes :: "(addr \<times> nat) list \<Rightarrow> addr list" where
  "iov_bytes iov = concat (map (\<lambda>(b, n). [b ..< b + n]) iov)"

lemma iov_bytes_simps [simp]: "iov_bytes [] = []" "iov_bytes (iov @ [(b, n)]) = iov_bytes iov @ [b ..< b + n]"
  by (simp_all add: iov_bytes_def)

text \<open>The vector made for one slab holds what is behind the savepoint; the new savepoint is behind the slab.\<close>

lemma lslab_after_cases:
  assumes "svp_slab_id prev \<le> lsl_id (ls_hdr lr s)"
  shows "lslab_after lr prev s = (if lsl_id (ls_hdr lr s) = svp_slab_id prev
    then [s + lslab_sizeof + svp_pos prev ..< s + lslab_sizeof + svp_pos prev + (lsl_used (ls_hdr lr s) - lslab_sizeof - svp_pos prev)]
    else [s + lslab_sizeof ..< s + lslab_sizeof + (lsl_used (ls_hdr lr s) - lslab_sizeof)])"
  using assms by (cases "lslab_sizeof \<le> lsl_used (ls_hdr lr s)"; cases "svp_pos prev \<le> lsl_used (ls_hdr lr s) - lslab_sizeof")
    (auto simp: lslab_after_def lslab_bytes_def drop_upt)

definition svp_at :: "lsregion \<Rightarrow> addr \<Rightarrow> lsregion_svp" where
  "svp_at lr s = \<lparr>svp_slab_id = lsl_id (ls_hdr lr s), svp_pos = lsl_used (ls_hdr lr s) - lslab_sizeof\<rparr>"

text \<open>The result of flushing the slabs \<open>xs\<close> after \<open>ys\<close>, from the savepoint \<open>prev\<close> into a vector that has \<open>iov\<close> already.\<close>

definition flushed :: "lsregion \<Rightarrow> lsregion_svp \<Rightarrow> int \<Rightarrow> addr list \<Rightarrow> addr list \<Rightarrow> (addr \<times> nat) list \<Rightarrow> ((addr \<times> nat) list \<times> lsregion_svp \<times> int) option \<Rightarrow> bool" where
  "flushed lr prev vcnt ys xs iov r \<longleftrightarrow> (\<exists>iov' svp' i'. r = Some (iov', svp', i') \<and>
    iov_bytes iov' @ concat (map (lslab_after lr svp') (ys @ xs)) = iov_bytes iov @ concat (map (lslab_after lr prev) xs) \<and>
    int (length iov') \<le> max (int (length iov)) vcnt \<and> svp' \<in> insert prev (svp_at lr ` set (ys @ xs)) \<and>
    ((\<forall>s \<in> set xs. lsl_max_id (ls_hdr lr s) \<noteq> LSLAB_NOT_USED_ID) \<longrightarrow> int (length iov + length xs) \<le> vcnt \<longrightarrow>
       concat (map (lslab_after lr svp') (ys @ xs)) = []))"

lemma flushed_step:
  assumes "flushed lr prev vcnt (ys @ [s]) rest iov1 r" and "iov_bytes iov1 = iov_bytes iov @ lslab_after lr prev s" and "length iov1 \<le> Suc (length iov)"
    and "iov1 = iov \<or> int (length iov) < vcnt"
  shows "flushed lr prev vcnt ys (s # rest) iov r"
proof -
  obtain iov' svp' i' where f: "r = Some (iov', svp', i')"
    "iov_bytes iov' @ concat (map (lslab_after lr svp') ((ys @ [s]) @ rest)) = iov_bytes iov1 @ concat (map (lslab_after lr prev) rest)"
    "int (length iov') \<le> max (int (length iov1)) vcnt" "svp' \<in> insert prev (svp_at lr ` set ((ys @ [s]) @ rest))"
    "(\<forall>s \<in> set rest. lsl_max_id (ls_hdr lr s) \<noteq> LSLAB_NOT_USED_ID) \<longrightarrow> int (length iov1 + length rest) \<le> vcnt \<longrightarrow>
       concat (map (lslab_after lr svp') ((ys @ [s]) @ rest)) = []" using assms(1) unfolding flushed_def by blast
  have e: "(ys @ [s]) @ rest = ys @ s # rest" by simp
  have b: "iov_bytes iov' @ concat (map (lslab_after lr svp') (ys @ s # rest)) = iov_bytes iov @ concat (map (lslab_after lr prev) (s # rest))"
    using f(2) assms(2) unfolding e by simp
  have l: "int (length iov') \<le> max (int (length iov)) vcnt" using f(3) assms(3,4) by auto
  have d: "concat (map (lslab_after lr svp') (ys @ s # rest)) = []"
    if "\<forall>s \<in> set (s # rest). lsl_max_id (ls_hdr lr s) \<noteq> LSLAB_NOT_USED_ID" "int (length iov + length (s # rest)) \<le> vcnt"
    using f(5) that assms(3) unfolding e by simp
  show ?thesis unfolding flushed_def by (intro exI [of _ iov'] exI [of _ svp'] exI [of _ i'] conjI f(1) b l f(4) [unfolded e] impI d)
qed

lemma iovec_loop_spec:
  assumes "sorted_wrt (<) (map (\<lambda>s. lsl_id (ls_hdr lr s)) (ys @ xs))"
    and "\<And>s. s \<in> set xs \<Longrightarrow> lsl_id (ls_hdr lr s) = svp_slab_id prev \<Longrightarrow> svp_pos prev \<le> lsl_used (ls_hdr lr s) - lslab_sizeof"
    and "\<And>y. y \<in> set ys \<Longrightarrow> lslab_after lr svp y = []" and "\<And>t. t \<in> set xs \<Longrightarrow> lslab_after lr svp t = lslab_after lr prev t"
    and "svp \<in> insert prev (svp_at lr ` set ys)"
  shows "flushed lr prev vcnt ys xs iov (lsregion_iovec_loop lr prev vcnt xs (iov, svp, i))"
  using assms
proof (induction xs arbitrary: ys iov svp i)
  case Nil
  then show ?case by (auto simp: flushed_def)
next
  case (Cons s rest)
  let ?h = "ls_hdr lr s"
  let ?len = "lsl_used ?h - lslab_sizeof"
  have ys: "concat (map (lslab_after lr svp) ys) = []" using Cons.prems(3) by simp
  have mp: "map (lslab_after lr svp) (s # rest) = map (lslab_after lr prev) (s # rest)" using Cons.prems(4) by (intro map_cong) simp_all
  have stop: "flushed lr prev vcnt ys (s # rest) iov (Some (iov, svp, i))"
    if h: "lsl_max_id ?h = LSLAB_NOT_USED_ID \<or> int (length iov) \<ge> vcnt"
  proof -
    have b: "concat (map (lslab_after lr svp) (ys @ s # rest)) = concat (map (lslab_after lr prev) (s # rest))"
      unfolding map_append concat_append ys mp by simp
    show ?thesis unfolding flushed_def
    proof (intro exI [of _ iov] exI [of _ svp] exI [of _ i] conjI impI)
      show "svp \<in> insert prev (svp_at lr ` set (ys @ s # rest))" using Cons.prems(5) by auto
    qed (use b h in auto)
  qed
  have sv: "svp \<in> insert prev (svp_at lr ` set (ys @ [s]))" using Cons.prems(5) by auto
  consider (unused) "lsl_max_id ?h = LSLAB_NOT_USED_ID"
    | (seen) "lsl_max_id ?h \<noteq> LSLAB_NOT_USED_ID" "lsl_id ?h < svp_slab_id prev \<or> (lsl_id ?h = svp_slab_id prev \<and> ?len = svp_pos prev)"
    | (full) "lsl_max_id ?h \<noteq> LSLAB_NOT_USED_ID" "\<not> (lsl_id ?h < svp_slab_id prev \<or> (lsl_id ?h = svp_slab_id prev \<and> ?len = svp_pos prev))" "int (length iov) \<ge> vcnt"
    | (emit) "lsl_max_id ?h \<noteq> LSLAB_NOT_USED_ID" "\<not> (lsl_id ?h < svp_slab_id prev \<or> (lsl_id ?h = svp_slab_id prev \<and> ?len = svp_pos prev))" "\<not> int (length iov) \<ge> vcnt"
    by blast
  then show ?case
  proof cases
    case unused
    then show ?thesis using stop by (simp add: Let_def)
  next
    case full
    then show ?thesis using stop by (auto simp: Let_def)
  next
    case seen
    then have nil: "lslab_after lr prev s = []" by (auto simp: lslab_after_def lslab_bytes_def)
    have run: "lsregion_iovec_loop lr prev vcnt (s # rest) (iov, svp, i) = lsregion_iovec_loop lr prev vcnt rest (iov, svp, i)" using seen by (simp add: Let_def)
    have "lslab_after lr svp y = []" if "y \<in> set (ys @ [s])" for y using that Cons.prems(3,4) nil by auto
    then have "flushed lr prev vcnt (ys @ [s]) rest iov (lsregion_iovec_loop lr prev vcnt rest (iov, svp, i))"
      using Cons.prems(1,2,4) sv by (intro Cons.IH) simp_all
    then show ?thesis unfolding run by (rule flushed_step) (simp_all add: nil)
  next
    case emit
    have ge: "svp_slab_id prev \<le> lsl_id ?h" using emit(2) by linarith
    have pos: "lsl_id ?h = svp_slab_id prev \<Longrightarrow> svp_pos prev < ?len" using emit(2) Cons.prems(2) [of s] by force
    let ?v = "if lsl_id ?h = svp_slab_id prev then (s + lslab_sizeof + svp_pos prev, ?len - svp_pos prev) else (s + lslab_sizeof, ?len)"
    have run: "lsregion_iovec_loop lr prev vcnt (s # rest) (iov, svp, i) = lsregion_iovec_loop lr prev vcnt rest (iov @ [?v], svp_at lr s, lsl_max_id ?h)"
      using emit pos by (auto simp: Let_def svp_at_def)
    have v: "iov_bytes (iov @ [?v]) = iov_bytes iov @ lslab_after lr prev s" unfolding lslab_after_cases [OF ge] by simp
    have srt: "\<And>y. y \<in> set ys \<Longrightarrow> lsl_id (ls_hdr lr y) < lsl_id ?h" "\<And>t. t \<in> set rest \<Longrightarrow> lsl_id ?h < lsl_id (ls_hdr lr t)"
      using Cons.prems(1) by (auto simp: sorted_wrt_append)
    have a: "lslab_after lr (svp_at lr s) y = []" if "y \<in> set (ys @ [s])" for y using that srt(1) [of y] by (cases "y = s") (simp_all add: lslab_after_def lslab_bytes_def svp_at_def)
    have b: "lslab_after lr (svp_at lr s) t = lslab_after lr prev t" if "t \<in> set rest" for t using srt(2) [OF that] ge by (simp add: lslab_after_def svp_at_def)
    have "flushed lr prev vcnt (ys @ [s]) rest (iov @ [?v]) (lsregion_iovec_loop lr prev vcnt rest (iov @ [?v], svp_at lr s, lsl_max_id ?h))"
      by (rule Cons.IH) (use Cons.prems(1,2) a b in auto)
    then show ?thesis unfolding run by (rule flushed_step [OF _ v]) (use emit(3) in auto)
  qed
qed

lemma to_iovec_spec:
  assumes inv: "lsregion_inv lr Out e" and o: "svp_ok lr svp"
  obtains iov svp' i where "lsregion_to_iovec lr vcnt svp = Some (iov, svp', i)" and "iov_bytes iov @ lsregion_after lr svp' = lsregion_after lr svp"
    and "int (length iov) \<le> max 0 vcnt" and "svp_ok lr svp'"
    and "(\<forall>s \<in> set (ls_list lr). lsl_max_id (ls_hdr lr s) \<noteq> LSLAB_NOT_USED_ID) \<Longrightarrow> int (length (ls_list lr)) \<le> vcnt \<Longrightarrow> lsregion_after lr svp' = []"
proof -
  have srt: "sorted_wrt (<) (map (\<lambda>s. lsl_id (ls_hdr lr s)) (ls_list lr))" using inv by (simp add: lsregion_inv_def)
  have "flushed lr svp vcnt [] (ls_list lr) [] (lsregion_iovec_loop lr svp vcnt (ls_list lr) ([], svp, LSLAB_NOT_USED_ID))"
    by (rule iovec_loop_spec) (use srt o in \<open>auto simp: svp_ok_def\<close>)
  then obtain iov svp' i where f: "lsregion_to_iovec lr vcnt svp = Some (iov, svp', i)" "iov_bytes iov @ lsregion_after lr svp' = lsregion_after lr svp"
    "int (length iov) \<le> max 0 vcnt" "svp' = svp \<or> svp' \<in> svp_at lr ` set (ls_list lr)"
    "(\<forall>s \<in> set (ls_list lr). lsl_max_id (ls_hdr lr s) \<noteq> LSLAB_NOT_USED_ID) \<longrightarrow> int (length (ls_list lr)) \<le> vcnt \<longrightarrow> lsregion_after lr svp' = []"
    unfolding flushed_def lsregion_to_iovec_def lsregion_after_def by auto
  have "svp_ok lr svp'"
  proof (cases "svp' = svp")
    case False
    then obtain s where s: "s \<in> set (ls_list lr)" "svp' = svp_at lr s" using f(4) by blast
    obtain ys zs where l: "ls_list lr = ys @ s # zs" using s(1) by (meson split_list)
    have "lsl_id (ls_hdr lr s) \<le> lsl_id (ls_hdr lr (last (ls_list lr)))"
      using srt unfolding l by (cases zs rule: rev_cases) (auto simp: sorted_wrt_append less_imp_le)
    moreover have "lsl_id (ls_hdr lr t) \<noteq> lsl_id (ls_hdr lr s)" if "t \<in> set (ls_list lr)" "t \<noteq> s" for t
      using srt that unfolding l by (auto simp: sorted_wrt_append)
    moreover have "lsl_id (ls_hdr lr s) \<le> ls_slab_id lr" using lsregion_invD(5) [OF inv s(1)] by (simp add: lslab_ok_def)
    ultimately show ?thesis unfolding svp_ok_def s(2) svp_at_def by (auto) 
  qed (use o in simp)
  then show thesis using f by (intro that [of iov svp' i]) simp_all
qed

text \<open>Every byte of the log is at its own address.\<close>

lemma lsregion_log_distinct:
  assumes inv: "lsregion_inv lr Out e"
  shows "distinct (lsregion_log lr)"
proof -
  have sub: "set (lslab_bytes lr s) \<subseteq> span s (ls_size lr s)" if "s \<in> set (ls_list lr)" for s
    using lsregion_invD(5) [OF inv that] by (auto simp: lslab_ok_def lslab_bytes_def)
  have "distinct (concat (map (lslab_bytes lr) xs))" if "set xs \<subseteq> set (ls_list lr)" "distinct xs" for xs
    using that
  proof (induction xs)
    case (Cons s xs)
    have "set (lslab_bytes lr s) \<inter> set (lslab_bytes lr t) = {}" if "t \<in> set xs" for t
      using ls_slabs_disjoint [OF inv, of s t] sub [of s] sub [of t] Cons.prems that by auto
    then have "set (lslab_bytes lr s) \<inter> (\<Union>t \<in> set xs. set (lslab_bytes lr t)) = {}" by blast
    then show ?case using Cons by (simp add: lslab_bytes_def)
  qed simp
  then show ?thesis unfolding lsregion_log_def using lsregion_invD(1) [OF inv] by blast
qed

lemma lsregion_create_inv:
  assumes "arena_inv ar s Out e"
  obtains lr where "lsregion_create ar junk s = Some lr" and "lsregion_inv lr Out e" and "ls_list lr = []" and "ls_arena lr = ar"
proof -
  let ?lr = "\<lparr>ls_slabs = slab_list_create, ls_arena = ar, ls_cached = NULL, ls_slab_id = 0, ls_hdr = junk, ls_sys = s\<rparr>"
  have cfg: "arena_config ar" using assms by (simp add: arena_inv_def)
  then obtain k where "16 \<le> k" "ar_slab_size ar = 2 ^ k" by (auto simp: arena_config_def)
  then have "(2::nat) ^ 16 \<le> ar_slab_size ar" by (simp only:) (rule power_increasing, simp_all)
  then have "lsregion_create ar junk s = Some ?lr" by (simp add: lsregion_create_def lslab_sizeof_48)
  moreover have "lsregion_inv ?lr Out e" using assms by (simp add: lsregion_inv_def ls_mapped_def ls_large_def slab_list_create_def)
  ultimately show thesis by (rule that) (simp_all add: slab_list_create_def)
qed

section \<open>Properties\<close>

text \<open>C22: Allocation from the log structured allocator appends to the log. No assertion fails; the result is NULL, with the log
  as it was, or an address of the asked alignment, and the log grows by the new chunk and at most
  the padding before it; no two bytes of the log share an address, and what is behind any
  savepoint grows by the same bytes.\<close>

theorem lsregion_alloc_appends:
  assumes "os_ok os" and "lsregion_inv lr Out e" and "k < 32" and "lsregion_request_ok lr (sz + 2 ^ k - 1)"
    and "0 \<le> i" and "i < 2 ^ 63" and "newest_id lr \<le> i"
  shows "\<exists>p lr'. lsregion_aligned_alloc os lr sz (2 ^ k) i = Some (p, lr') \<and> lsregion_inv lr' Out e \<and>
    (if p = NULL then lsregion_log lr' = lsregion_log lr
     else 2 ^ k dvd p \<and> newest_id lr' = i \<and> distinct (lsregion_log lr') \<and>
       (\<exists>pad < 2 ^ k. lsregion_log lr' = lsregion_log lr @ [p - pad ..< p + sz] \<and>
          (\<forall>svp. svp_ok lr svp \<longrightarrow> svp_ok lr' svp \<and> lsregion_after lr' svp = lsregion_after lr svp @ [p - pad ..< p + sz])))"
proof (rule aligned_alloc_spec [OF assms])
  fix lr' assume a: "lsregion_aligned_alloc os lr sz (2 ^ k) i = Some (NULL, lr')" "lsregion_inv lr' Out e" "same_log lr lr'"
  have "lsregion_log lr' = lsregion_log lr"
    using after_same(1) [OF a(3)] svp_create_ok(2) [OF assms(2)] svp_create_ok(2) [OF a(2)] by metis
  then show ?thesis using a by auto
next
  fix p pad lr' assume a: "lsregion_aligned_alloc os lr sz (2 ^ k) i = Some (p, lr')" "p \<noteq> NULL" "lsregion_inv lr' Out e" "2 ^ k dvd p" "pad < 2 ^ k" "pad \<le> p"
    "\<And>svp. svp_ok lr svp \<Longrightarrow> svp_ok lr' svp \<and> lsregion_after lr' svp = lsregion_after lr svp @ [p - pad ..< p + sz]" "newest_id lr' = i"
  have "lsregion_log lr' = lsregion_log lr @ [p - pad ..< p + sz]"
    using a(7) [OF svp_create_ok(1) [OF assms(2)]] svp_create_ok(2) [OF assms(2)] svp_create_ok(2) [OF a(3)] by simp
  then show ?thesis using a lsregion_log_distinct [OF a(3)] by auto
qed

lemma example_lsregion:
  obtains lr lr' where "lsregion_inv lr {} 0" and "ls_list lr = []" and "lsregion_request_ok lr (100 + 2 ^ 3 - 1)"
    and "lsregion_aligned_alloc bump_os lr 100 (2 ^ 3) 7 = Some (65584, lr')" and "lsregion_inv lr' {} 0" and "ls_list lr' = [65536]" and "lsregion_log lr' = [65584 ..< 65684]"
    and "lsl_max_id (ls_hdr lr' 65536) = 7"
proof -
  obtain lr where c: "lsregion_inv lr {} 0" "ls_list lr = []" "ls_arena lr = example_arena" "lsregion_create example_arena (\<lambda>_. undefined) example_sys = Some lr"
    by (rule lsregion_create_inv [OF example_arena_inv, of "\<lambda>_. undefined"]) (rule that)
  have r: "lsregion_request_ok lr (100 + 2 ^ 3 - 1)"
    by (simp add: lsregion_request_ok_def c(3) example_arena_def example_quota_def q_total_def q_units_def lslab_sizeof_48)
  obtain ar sy where m: "slab_map bump_os example_arena example_sys = Some (65536, ar, sy)" by (rule example_slab_map)
  have lr: "lr = \<lparr>ls_slabs = slab_list_create, ls_arena = example_arena, ls_cached = NULL, ls_slab_id = 0, ls_hdr = \<lambda>_. undefined, ls_sys = example_sys\<rparr>"
    using c(4) by (simp add: lsregion_create_def c_assert_def split: if_splits)
  have u: "ar_slab_size example_arena = 65536" by (simp add: example_arena_def)
  obtain x where x: "small_align (of_nat 65584) (of_nat (2 ^ 3)) = Some x" "unat x = align_up 65584 (2 ^ 3)" by (rule small_align_addr [of 3 65584]) simp_all
  have x': "unat x = 65584" using x(2) by (simp add: align_up_def)
  have run: "\<exists>lr'. lsregion_aligned_alloc bump_os lr 100 (2 ^ 3) 7 = Some (65584, lr') \<and> ls_list lr' = [65536] \<and> lsl_max_id (ls_hdr lr' 65536) = 7 \<and>
      lsl_used (ls_hdr lr' 65536) = 148"
    using m x(1) x' u by (simp add: lr lsregion_aligned_alloc_def lsregion_aligned_reserve_def lsregion_aligned_reserve_slow_def lsregion_fit_def lsregion_new_slab_def
        lslab_use_def lslab_unused_def lslab_pos_def lslab_end_def grown_simps lslab_sizeof_48 slab_list_create_def add_used_def LSLAB_NOT_USED_ID_def)
  then obtain lr' where l: "lsregion_aligned_alloc bump_os lr 100 (2 ^ 3) 7 = Some (65584, lr')" "ls_list lr' = [65536]" "lsl_max_id (ls_hdr lr' 65536) = 7"
    "lsl_used (ls_hdr lr' 65536) = 148" by blast
  have ni: "newest_id lr \<le> 7" by (simp add: newest_id_def c(2))
  show thesis
  proof (rule aligned_alloc_spec [OF bump_os_ok c(1) _ r _ _ ni])
    fix p pad lr1 assume a: "lsregion_aligned_alloc bump_os lr 100 (2 ^ 3) 7 = Some (p, lr1)" "lsregion_inv lr1 {} 0" "p \<noteq> NULL"
    have e: "p = 65584" "lr1 = lr'" using a(1) l(1) by simp_all
    have "lsregion_log lr' = [65584 ..< 65684]" by (simp add: lsregion_log_def l(2,4) lslab_bytes_def lslab_sizeof_48)
    then show thesis using c r l a(2) e by (intro that [of lr lr']) simp_all
  qed (use l(1) in simp_all)
qed

theorem lsregion_alloc_appends_witness:
  "\<exists>lr lr'. lsregion_inv lr {} 0 \<and> lsregion_aligned_alloc bump_os lr 100 8 7 = Some (65584, lr') \<and> lsregion_inv lr' {} 0 \<and> newest_id lr' = 7"
proof -
  obtain lr lr' where e: "lsregion_inv lr {} 0" "ls_list lr = []" "lsregion_request_ok lr (100 + 2 ^ 3 - 1)"
    "lsregion_aligned_alloc bump_os lr 100 (2 ^ 3) 7 = Some (65584, lr')" by (rule example_lsregion) (rule that)
  have "newest_id lr \<le> 7" using e(2) by (simp add: newest_id_def)
  from lsregion_alloc_appends [OF bump_os_ok e(1) _ e(3) _ _ this] e(4) have "lsregion_inv lr' {} 0 \<and> newest_id lr' = 7" by simp
  then show ?thesis using e(1,4) by auto
qed

text \<open>C23: \<open>lsregion_gc\<close> passes the assertions of the quota and removes the oldest slabs up to the first one with an id above the
  bound, and nothing else: the rest of the log stays, headers included, and the removed memory
  is back in the cache, the arena or the system with the counters and the quota in step.\<close>

theorem lsregion_gc_correct:
  assumes "lsregion_inv lr Out e"
  shows "\<exists>lr'. lsregion_gc lr min_id = Some lr' \<and> lsregion_inv lr' Out e \<and>
    ls_list lr' = dropWhile (\<lambda>s. lsl_max_id (ls_hdr lr s) \<le> min_id) (ls_list lr) \<and> (\<forall>s \<in> set (ls_list lr'). ls_hdr lr' s = ls_hdr lr s) \<and>
    (\<exists>freed. lsregion_log lr = freed @ lsregion_log lr')"
proof -
  let ?P = "\<lambda>s. lsl_max_id (ls_hdr lr s) \<le> min_id"
  obtain lr' where g: "lsregion_gc lr min_id = Some lr'" "lsregion_inv lr' Out e" "ls_list lr' = dropWhile ?P (ls_list lr)" "\<forall>s \<in> set (ls_list lr'). ls_hdr lr' s = ls_hdr lr s"
    using gc_loop_spec [OF assms refl, of min_id] unfolding lsregion_gc_def by blast
  have "map (lslab_bytes lr') (ls_list lr') = map (lslab_bytes lr) (ls_list lr')" using g(4) by (intro map_cong) (simp_all add: lslab_bytes_def)
  then have l: "lsregion_log lr' = concat (map (lslab_bytes lr) (dropWhile ?P (ls_list lr)))" unfolding lsregion_log_def g(3) by (simp only:)
  have "lsregion_log lr = concat (map (lslab_bytes lr) (takeWhile ?P (ls_list lr) @ dropWhile ?P (ls_list lr)))" by (simp only: lsregion_log_def takeWhile_dropWhile_id)
  then have "lsregion_log lr = concat (map (lslab_bytes lr) (takeWhile ?P (ls_list lr))) @ lsregion_log lr'" unfolding l by (simp only: map_append concat_append)
  then show ?thesis using g by blast
qed

theorem lsregion_gc_correct_witness:
  "\<exists>lr lr'. lsregion_inv lr {} 0 \<and> ls_list lr = [65536] \<and> lsregion_gc lr 7 = Some lr' \<and> lsregion_inv lr' {} 0 \<and> ls_list lr' = []"
proof -
  obtain lr where e: "lsregion_inv lr {} 0" "ls_list lr = [65536]" "lsl_max_id (ls_hdr lr 65536) = 7" by (rule example_lsregion)
  from lsregion_gc_correct [OF e(1), of 7] e have "\<exists>lr'. lsregion_gc lr 7 = Some lr' \<and> lsregion_inv lr' {} 0 \<and> ls_list lr' = []" by auto
  then show ?thesis using e by blast
qed

text \<open>C24: \<open>lsregion_to_iovec\<close> flushes the log without loss and without repetition: the bytes of the vectors and those
  behind the new savepoint are, in this order, those that were behind the old one; with enough
  vectors and no unused slab everything is flushed.\<close>

theorem lsregion_flush:
  assumes "lsregion_inv lr Out e" and "svp_ok lr svp"
  shows "\<exists>iov svp' i. lsregion_to_iovec lr vcnt svp = Some (iov, svp', i) \<and> iov_bytes iov @ lsregion_after lr svp' = lsregion_after lr svp \<and>
    int (length iov) \<le> max 0 vcnt \<and> svp_ok lr svp' \<and>
    ((\<forall>s \<in> set (ls_list lr). lsl_max_id (ls_hdr lr s) \<noteq> LSLAB_NOT_USED_ID) \<and> int (length (ls_list lr)) \<le> vcnt \<longrightarrow> lsregion_after lr svp' = [])"
  by (rule to_iovec_spec [OF assms, of vcnt]) blast

theorem lsregion_flush_witness:
  "\<exists>lr iov svp' i. lsregion_inv lr {} 0 \<and> lsregion_to_iovec lr 10 lsregion_svp_create = Some (iov, svp', i) \<and> iov_bytes iov = [65584 ..< 65684]"
proof -
  obtain lr where e: "lsregion_inv lr {} 0" "ls_list lr = [65536]" "lsl_max_id (ls_hdr lr 65536) = 7" "lsregion_log lr = [65584 ..< 65684]" by (rule example_lsregion)
  from lsregion_flush [OF e(1) svp_create_ok(1) [OF e(1)], of 10] e(2,3) svp_create_ok(2) [OF e(1)]
  have "\<exists>iov svp' i. lsregion_to_iovec lr 10 lsregion_svp_create = Some (iov, svp', i) \<and> iov_bytes iov = lsregion_log lr" by (auto simp: LSLAB_NOT_USED_ID_def)
  then show ?thesis using e by auto
qed

text \<open>The loop of \<open>lsregion_to_iovec\<close> stops at the first slab that no chunk was taken from, as if it were at the end of
  the list. A reservation that is followed by a larger one leaves such a slab in the middle, and
  what is in the slabs after it is not flushed.\<close>

theorem lsregion_flush_stops:
  assumes "ls_list lr = ys @ s # zs" and "lsl_max_id (ls_hdr lr s) = LSLAB_NOT_USED_ID"
  shows "lsregion_to_iovec lr vcnt svp = lsregion_to_iovec (lr\<lparr>ls_slabs := (ls_slabs lr)\<lparr>sl_slabs := ys\<rparr>\<rparr>) vcnt svp"
proof -
  have "lsregion_iovec_loop lr svp vcnt (ys @ s # zs) st = lsregion_iovec_loop lr1 svp vcnt ys st" if "ls_hdr lr1 = ls_hdr lr" for lr1 st
    using that
  proof (induction ys arbitrary: st)
    case Nil
    then show ?case using assms(2) by (cases st) (simp add: Let_def)
  next
    case (Cons y ys)
    then show ?case by (cases st) (simp add: Let_def)
  qed
  from this [of "lr\<lparr>ls_slabs := (ls_slabs lr)\<lparr>sl_slabs := ys\<rparr>\<rparr>"] show ?thesis unfolding lsregion_to_iovec_def assms(1) by simp
qed

theorem lsregion_flush_stops_witness:
  "\<exists>lr. lsregion_to_iovec lr 10 lsregion_svp_create = Some ([], lsregion_svp_create, - 1) \<and> lsregion_log lr = [200048 ..< 200148]"
proof -
  define lr where "lr = \<lparr>ls_slabs = \<lparr>sl_slabs = [65536, 200000], st_used = 100, st_total = 165536\<rparr>, ls_arena = example_arena, ls_cached = NULL, ls_slab_id = 2,
    ls_hdr = (\<lambda>_. fresh_lslab 65536 1)(200000 := \<lparr>lsl_size = 100000, lsl_used = 148, lsl_id = 2, lsl_max_id = 7\<rparr>), ls_sys = example_sys\<rparr>"
  have "lsregion_to_iovec lr 10 lsregion_svp_create = lsregion_to_iovec (lr\<lparr>ls_slabs := (ls_slabs lr)\<lparr>sl_slabs := []\<rparr>\<rparr>) 10 lsregion_svp_create"
    by (rule lsregion_flush_stops [of _ _ 65536 "[200000]"]) (simp_all add: lr_def)
  also have "\<dots> = Some ([], lsregion_svp_create, - 1)" by (simp add: lsregion_to_iovec_def LSLAB_NOT_USED_ID_def)
  finally show ?thesis by (intro exI [of _ lr] conjI) (simp_all add: lsregion_log_def lslab_bytes_def lr_def lslab_sizeof_48)
qed

text \<open>\<open>lsregion_destroy\<close> gives everything back: to the other users of the arena it is as if the allocator had never been there.\<close>

theorem lsregion_destroy_correct:
  assumes "lsregion_inv lr Out e"
  shows "\<exists>lr'. lsregion_destroy lr = Some lr' \<and> arena_inv (ls_arena lr') (ls_sys lr') Out e"
proof -
  have m: "lsl_max_id (ls_hdr lr s) \<le> 2 ^ 63 - 1" if "s \<in> set (ls_list lr)" for s using lsregion_invD(5) [OF assms that] by (simp add: lslab_ok_def)
  obtain lr1 where g: "(if ls_list lr \<noteq> [] then lsregion_gc lr (2 ^ 63 - 1) else Some lr) = Some lr1" "lsregion_inv lr1 Out e" "ls_list lr1 = []"
  proof (cases "ls_list lr = []")
    case True
    then show thesis using that assms by simp
  next
    case False
    have "dropWhile (\<lambda>s. lsl_max_id (ls_hdr lr s) \<le> 2 ^ 63 - 1) (ls_list lr) = []" using m by (simp add: dropWhile_eq_Nil_conv)
    then show thesis using that False gc_loop_spec [OF assms refl, of "2 ^ 63 - 1"] unfolding lsregion_gc_def by (auto simp del: dropWhile_eq_Nil_conv)
  qed
  note A = lsregion_invD(3,4) [OF g(2)]
  have A': "arena_inv (ls_arena lr1) (ls_sys lr1) (Out \<union> ls_mapped lr1) e" using A(1) g(3) by (simp add: ls_large_def)
  have mp: "ls_mapped lr1 = {ls_cached lr1} - {NULL}" using g(3) by (simp add: ls_mapped_def)
  show ?thesis
  proof (cases "ls_cached lr1 = NULL")
    case True
    then show ?thesis using A' g(1) mp by (auto simp: lsregion_destroy_def)
  next
    case False
    have "arena_inv (slab_unmap (ls_arena lr1) (ls_cached lr1)) (ls_sys lr1) Out e"
      using A' A(2) False unfolding mp by (intro slab_unmap_inv) (auto simp: insert_commute)
    then show ?thesis using False g(1) by (auto simp: lsregion_destroy_def)
  qed
qed

theorem lsregion_destroy_correct_witness:
  "\<exists>lr lr'. ls_list lr = [65536] \<and> lsregion_destroy lr = Some lr' \<and> arena_inv (ls_arena lr') (ls_sys lr') {} 0"
proof -
  obtain lr where e: "lsregion_inv lr {} 0" "ls_list lr = [65536]" by (rule example_lsregion)
  from lsregion_destroy_correct [OF e(1)] e(2) show ?thesis by blast
qed

end
