(* ===== verification/Matras.thy ===== *)
theory Matras
  imports Util
begin

text \<open>
  \<open>small/matras.c\<close> and \<open>include/small/matras.h\<close>: an array of blocks of one size whose elements are found through
  two levels of tables, with read views that share tables and blocks with the array until they
  are touched. Blocks and tables live in extents that an external allocator provides.

  The memory of the extents is one store with two readings: \<open>xh_ptr e i\<close> is the pointer in slot \<open>i\<close> of the
  extent at \<open>e\<close>, and \<open>xh_byte\<close> gives the bytes of the blocks by address; \<open>memcpy\<close> copies both. An access to
  a slot outside an extent, or to an extent that was given back, is undefined in C and aborts
  in the model, and so does giving an extent back twice. The struct \<open>matras_view\<close> objects, the head
  included, live in a store of views that is indexed by address, since they link each other.
\<close>

section \<open>The extents\<close>

record ext_heap =
  xh_size :: nat
  xh_ptr :: "addr \<Rightarrow> nat \<Rightarrow> addr"
  xh_byte :: "addr \<Rightarrow> byte"
  xh_live :: "addr set"
  xh_time :: nat

text \<open>
  The callbacks of the external allocator. What \<open>alloc_func\<close> returns may depend on the time of the call
  and on the extents in use; it is the parameter \<open>af\<close> below. \<open>free_func\<close> takes an extent back that is in use.
\<close>

type_synonym alloc_func = "nat \<Rightarrow> addr set \<Rightarrow> addr"

definition call_alloc_func :: "alloc_func \<Rightarrow> ext_heap \<Rightarrow> addr \<times> ext_heap" where
  "call_alloc_func af h =
     (let e = af (xh_time h) (xh_live h); h = h\<lparr>xh_time := Suc (xh_time h)\<rparr>
      in (e, if e = NULL then h else h\<lparr>xh_live := insert e (xh_live h)\<rparr>))"

definition call_free_func :: "addr \<Rightarrow> ext_heap \<Rightarrow> ext_heap option" where
  "call_free_func e h = do {
     c_assert (e \<in> xh_live h);
     Some (h\<lparr>xh_live := xh_live h - {e}\<rparr>) }"

definition ext_load :: "ext_heap \<Rightarrow> addr \<Rightarrow> nat \<Rightarrow> addr option" where
  "ext_load h e i = do {
     c_assert (e \<in> xh_live h \<and> 8 * i + 8 \<le> xh_size h);
     Some (xh_ptr h e i) }"

definition ext_store :: "addr \<Rightarrow> nat \<Rightarrow> addr \<Rightarrow> ext_heap \<Rightarrow> ext_heap option" where
  "ext_store e i p h = do {
     c_assert (e \<in> xh_live h \<and> 8 * i + 8 \<le> xh_size h);
     Some (h\<lparr>xh_ptr := (xh_ptr h)(e := (xh_ptr h e)(i := p))\<rparr>) }"

definition ext_memcpy :: "addr \<Rightarrow> addr \<Rightarrow> nat \<Rightarrow> ext_heap \<Rightarrow> ext_heap option" where
  "ext_memcpy new old n h = do {
     c_assert (new \<in> xh_live h \<and> old \<in> xh_live h \<and> n \<le> xh_size h);
     Some (h\<lparr>xh_ptr := (xh_ptr h)(new := (\<lambda>i. if 8 * i + 8 \<le> n then xh_ptr h old i else xh_ptr h new i)),
       xh_byte := (\<lambda>a. if new \<le> a \<and> a < new + n then xh_byte h (old + (a - new)) else xh_byte h a)\<rparr>) }"

section \<open>The allocator of extents\<close>

record matras_allocator =
  ma_extent_size :: nat
  reserved_extents :: addr
  num_reserved_extents :: int

definition matras_allocator_create :: "nat \<Rightarrow> matras_allocator" where
  "matras_allocator_create extent_size = \<lparr>ma_extent_size = extent_size, reserved_extents = NULL, num_reserved_extents = 0\<rparr>"

text \<open>Taking the first extent off the reserved list; the link is in the first slot of the extent.\<close>

definition take_reserved :: "matras_allocator \<Rightarrow> ext_heap \<Rightarrow> (addr \<times> matras_allocator) option" where
  "take_reserved al h = do {
     let ext = reserved_extents al;
     p \<leftarrow> ext_load h ext 0;
     Some (ext, al\<lparr>reserved_extents := p, num_reserved_extents := num_reserved_extents al - 1\<rparr>) }"

partial_function (option) matras_allocator_destroy :: "matras_allocator \<Rightarrow> ext_heap \<Rightarrow> (matras_allocator \<times> ext_heap) option" where
  "matras_allocator_destroy al h =
     (if num_reserved_extents al > 0 then do {
        (ext, al) \<leftarrow> take_reserved al h;
        h \<leftarrow> call_free_func ext h;
        matras_allocator_destroy al h }
      else Some (al, h))"

definition matras_allocator_alloc :: "alloc_func \<Rightarrow> matras_allocator \<Rightarrow> ext_heap \<Rightarrow> (addr \<times> matras_allocator \<times> ext_heap) option" where
  "matras_allocator_alloc af al h =
     (if num_reserved_extents al > 0 then do {
        (ext, al) \<leftarrow> take_reserved al h;
        Some (ext, al, h) }
      else let (ext, h) = call_alloc_func af h in Some (ext, al, h))"

definition matras_allocator_free :: "addr \<Rightarrow> ext_heap \<Rightarrow> ext_heap option" where
  "matras_allocator_free ext h = call_free_func ext h"

partial_function (option) matras_reserve_loop :: "alloc_func \<Rightarrow> int \<Rightarrow> matras_allocator \<Rightarrow> ext_heap \<Rightarrow> (int \<times> matras_allocator \<times> ext_heap) option" where
  "matras_reserve_loop af n al h =
     (if num_reserved_extents al < n then
        (let (ext, h) = call_alloc_func af h in
         if ext = NULL then Some (- 1, al, h)
         else do {
           h \<leftarrow> ext_store ext 0 (reserved_extents al) h;
           matras_reserve_loop af n (al\<lparr>reserved_extents := ext, num_reserved_extents := num_reserved_extents al + 1\<rparr>) h })
      else Some (0, al, h))"

definition matras_allocator_reserve :: "alloc_func \<Rightarrow> int \<Rightarrow> matras_allocator \<Rightarrow> ext_heap \<Rightarrow> (int \<times> matras_allocator \<times> ext_heap) option" where
  "matras_allocator_reserve af n al h = do {
     c_assert (n \<ge> 0);
     matras_reserve_loop af n al h }"

section \<open>Views, statistics and the array\<close>

record matras_view =
  mv_root :: addr
  mv_block_count :: nat
  mv_prev :: addr
  mv_next :: addr

record matras_stats =
  stat_extent_count :: nat
  stat_read_view_extent_count :: nat

text \<open>
  \<open>mt_self\<close> is the address of the struct and of its first member, the head view; \<open>mt_views\<close> holds all views.
  \<open>mt_heap\<close> is the memory the array and its allocator work on. Block ids and the other fields of type
  \<open>matras_id_t\<close> are natural numbers, reduced modulo \<open>2 ^ 32\<close> where they are computed.
\<close>

record matras =
  mt_self :: addr
  mt_views :: "addr \<Rightarrow> matras_view"
  mt_block_size :: nat
  mt_extent_size :: nat
  mt_extent_count :: nat
  mt_capacity :: nat
  shift1 :: nat
  shift2 :: nat
  mask1 :: nat
  mask2 :: nat
  mt_allocator :: matras_allocator
  mt_stats :: matras_stats
  mt_heap :: ext_heap

abbreviation mt_head :: "matras \<Rightarrow> matras_view" where
  "mt_head m \<equiv> mt_views m (mt_self m)"

definition upd_view :: "addr \<Rightarrow> (matras_view \<Rightarrow> matras_view) \<Rightarrow> matras \<Rightarrow> matras" where
  "upd_view v f m = m\<lparr>mt_views := (mt_views m)(v := f (mt_views m v))\<rparr>"

abbreviation upd_head :: "(matras_view \<Rightarrow> matras_view) \<Rightarrow> matras \<Rightarrow> matras" where
  "upd_head f m \<equiv> upd_view (mt_self m) f m"

definition matras_stats_create :: matras_stats where
  "matras_stats_create = \<lparr>stat_extent_count = 0, stat_read_view_extent_count = 0\<rparr>"

text \<open>\<open>__builtin_clz\<close> of a nonzero 32-bit number.\<close>

definition clz32 :: "nat \<Rightarrow> nat" where
  "clz32 v = 31 - ilog2 v"

definition matras_log2 :: "nat \<Rightarrow> nat option" where
  "matras_log2 val = do {
     c_assert (val > 0);
     Some (32 - clz32 val - 1) }"

text \<open>Shifting a 32-bit number by 32 or more is undefined and aborts.\<close>

definition shift_mask :: "nat \<Rightarrow> nat option" where
  "shift_mask s = do {
     c_assert (s < 32);
     Some (2 ^ s - 1) }"

text \<open>The statistics are those the array counts in: the caller's, or the dummy ones when it passed none.\<close>

definition matras_create :: "matras \<Rightarrow> nat \<Rightarrow> matras_allocator \<Rightarrow> matras_stats \<Rightarrow> matras option" where
  "matras_create m block_size allocator stats = do {
     let extent_size = ma_extent_size allocator;
     c_assert (extent_size AND ((extent_size + (2 ^ 64 - 1)) mod 2 ^ 64) = 0);
     c_assert (block_size AND ((block_size + (2 ^ 32 - 1)) mod 2 ^ 32) = 0);
     c_assert (block_size \<le> extent_size);
     c_assert (extent_size > 8);
     let m = upd_head (\<lambda>v. v\<lparr>mv_block_count := 0, mv_prev := NULL, mv_next := NULL\<rparr>) m;
     let m = m\<lparr>mt_block_size := block_size, mt_extent_size := extent_size mod 2 ^ 32, mt_extent_count := 0,
       mt_allocator := allocator, mt_stats := stats\<rparr>;
     log1 \<leftarrow> matras_log2 (extent_size mod 2 ^ 32);
     log2 \<leftarrow> matras_log2 block_size;
     log3 \<leftarrow> matras_log2 8;
     let log2_capacity = nat ((int log1 * 3 - int log2 - int log3 * 2) mod 2 ^ 32);
     let log2_capacity = (if log2_capacity > 32 then 32 else log2_capacity);
     let s1 = nat ((int log1 * 2 - int log2 - int log3) mod 2 ^ 32);
     let s2 = nat ((int log1 - int log2) mod 2 ^ 32);
     m1 \<leftarrow> shift_mask s1;
     m2 \<leftarrow> shift_mask s2;
     Some (m\<lparr>mt_capacity := 2 ^ log2_capacity, shift1 := s1, shift2 := s2, mask1 := m1, mask2 := m2\<rparr>) }"

section \<open>Extents of an array\<close>

definition add_extent_count :: "int \<Rightarrow> matras \<Rightarrow> matras" where
  "add_extent_count d m = m\<lparr>mt_extent_count := nat ((int (mt_extent_count m) + d) mod 2 ^ 32),
     mt_stats := (mt_stats m)\<lparr>stat_extent_count := nat ((int (stat_extent_count (mt_stats m)) + d) mod 2 ^ 32)\<rparr>\<rparr>"

definition add_read_view_extent_count :: "int \<Rightarrow> matras \<Rightarrow> matras" where
  "add_read_view_extent_count d m = m\<lparr>mt_stats := (mt_stats m)\<lparr>stat_read_view_extent_count :=
     nat ((int (stat_read_view_extent_count (mt_stats m)) + d) mod 2 ^ 32)\<rparr>\<rparr>"

definition matras_alloc_extent :: "alloc_func \<Rightarrow> matras \<Rightarrow> (addr \<times> matras) option" where
  "matras_alloc_extent af m = do {
     (ext, al, h) \<leftarrow> matras_allocator_alloc af (mt_allocator m) (mt_heap m);
     let m = m\<lparr>mt_allocator := al, mt_heap := h\<rparr>;
     Some (ext, if ext \<noteq> NULL then add_extent_count 1 m else m) }"

definition matras_free_extent :: "matras \<Rightarrow> addr \<Rightarrow> matras option" where
  "matras_free_extent m ext = do {
     h \<leftarrow> matras_allocator_free ext (mt_heap m);
     Some (add_extent_count (- 1) (m\<lparr>mt_heap := h\<rparr>)) }"

definition matras_copy_read_view_extent :: "alloc_func \<Rightarrow> matras \<Rightarrow> addr \<Rightarrow> (addr \<times> matras) option" where
  "matras_copy_read_view_extent af m ext = do {
     (new_ext, m) \<leftarrow> matras_alloc_extent af m;
     if new_ext \<noteq> NULL then do {
       h \<leftarrow> ext_memcpy new_ext ext (mt_extent_size m) (mt_heap m);
       Some (new_ext, add_read_view_extent_count 1 (m\<lparr>mt_heap := h\<rparr>)) }
     else Some (new_ext, m) }"

definition matras_free_read_view_extent :: "matras \<Rightarrow> addr \<Rightarrow> matras option" where
  "matras_free_read_view_extent m ext = do {
     m \<leftarrow> matras_free_extent m ext;
     Some (add_read_view_extent_count (- 1) m) }"

definition load_slot :: "matras \<Rightarrow> addr \<Rightarrow> nat \<Rightarrow> addr option" where
  "load_slot m e i = ext_load (mt_heap m) e i"

definition store_slot :: "addr \<Rightarrow> nat \<Rightarrow> addr \<Rightarrow> matras \<Rightarrow> matras option" where
  "store_slot e i p m = do {
     h \<leftarrow> ext_store e i p (mt_heap m);
     Some (m\<lparr>mt_heap := h\<rparr>) }"

section \<open>From ids to addresses\<close>

text \<open>The three parts of an id.\<close>

definition id_n1 :: "matras \<Rightarrow> nat \<Rightarrow> nat" where
  "id_n1 m i = drop_bit (shift1 m) i"

definition id_n2 :: "matras \<Rightarrow> nat \<Rightarrow> nat" where
  "id_n2 m i = drop_bit (shift2 m) (i AND mask1 m)"

definition id_n3 :: "matras \<Rightarrow> nat \<Rightarrow> nat" where
  "id_n3 m i = i AND mask2 m"

definition matras_view_get_no_check :: "matras \<Rightarrow> addr \<Rightarrow> nat \<Rightarrow> addr option" where
  "matras_view_get_no_check m v i = do {
     c_assert (i < mv_block_count (mt_views m v));
     extent2 \<leftarrow> load_slot m (mv_root (mt_views m v)) (id_n1 m i);
     extent3 \<leftarrow> load_slot m extent2 (id_n2 m i);
     Some (extent3 + id_n3 m i * mt_block_size m mod 2 ^ 32) }"

definition matras_view_get :: "matras \<Rightarrow> addr \<Rightarrow> nat \<Rightarrow> addr option" where
  "matras_view_get m v i = matras_view_get_no_check m (if mv_next (mt_views m v) \<noteq> NULL then v else mt_self m) i"

definition matras_get :: "matras \<Rightarrow> nat \<Rightarrow> addr option" where
  "matras_get m i = matras_view_get_no_check m (mt_self m) i"

definition matras_head_read_view :: "addr \<Rightarrow> matras \<Rightarrow> matras" where
  "matras_head_read_view v m = upd_view v (\<lambda>w. w\<lparr>mv_next := NULL\<rparr>) m"

definition matras_is_read_view_created :: "matras \<Rightarrow> addr \<Rightarrow> int" where
  "matras_is_read_view_created m v = (if mv_next (mt_views m v) \<noteq> NULL then 1 else 0)"

definition matras_extent_count :: "matras \<Rightarrow> nat" where
  "matras_extent_count m = mt_extent_count m"

section \<open>Touching\<close>

definition matras_needs_touch :: "matras \<Rightarrow> nat \<Rightarrow> bool option" where
  "matras_needs_touch m i = do {
     c_assert (i < mv_block_count (mt_head m));
     let prev = mv_prev (mt_head m);
     Some (if prev = NULL then False
       else if mv_block_count (mt_views m prev) \<noteq> 0 then
         (let extent_id = drop_bit (shift2 m) i;
              next_last_id = (mv_block_count (mt_views m prev) - 1) mod 2 ^ 32;
              next_last_extent_id = drop_bit (shift2 m) next_last_id
          in \<not> extent_id > next_last_extent_id)
       else False) }"

text \<open>
  One level of \<open>matras_touch_no_check\<close>: when the extent is the one of the previous view, it is replaced by a
  copy, and \<open>set_ext\<close> stores the pointer to the copy. The result has no extent when there is no memory.
\<close>

definition touch_level :: "alloc_func \<Rightarrow> addr \<Rightarrow> addr \<Rightarrow> (addr \<Rightarrow> matras \<Rightarrow> matras option) \<Rightarrow> matras \<Rightarrow> (addr option \<times> matras) option" where
  "touch_level af ext extp set_ext m =
     (if ext = extp then do {
        (new_extent, m) \<leftarrow> matras_copy_read_view_extent af m ext;
        if new_extent = NULL then Some (None, m)
        else do { m \<leftarrow> set_ext new_extent m; Some (Some new_extent, m) } }
      else Some (Some ext, m))"

definition matras_touch_no_check :: "alloc_func \<Rightarrow> matras \<Rightarrow> nat \<Rightarrow> (addr \<times> matras) option" where
  "matras_touch_no_check af m i = do {
     b \<leftarrow> matras_needs_touch m i;
     c_assert b;
     let n1 = id_n1 m i;
     let n2 = id_n2 m i;
     let n3 = id_n3 m i;
     let extent1p = mv_root (mt_views m (mv_prev (mt_head m)));
     (r, m) \<leftarrow> touch_level af (mv_root (mt_head m)) extent1p (\<lambda>e m. Some (upd_head (\<lambda>v. v\<lparr>mv_root := e\<rparr>) m)) m;
     case r of None \<Rightarrow> Some (NULL, m) | Some extent1 \<Rightarrow> do {
       extent2 \<leftarrow> load_slot m extent1 n1;
       extent2p \<leftarrow> load_slot m extent1p n1;
       (r, m) \<leftarrow> touch_level af extent2 extent2p (store_slot extent1 n1) m;
       case r of None \<Rightarrow> Some (NULL, m) | Some extent2 \<Rightarrow> do {
         extent3 \<leftarrow> load_slot m extent2 n2;
         extent3p \<leftarrow> load_slot m extent2p n2;
         (r, m) \<leftarrow> touch_level af extent3 extent3p (store_slot extent2 n2) m;
         case r of None \<Rightarrow> Some (NULL, m)
         | Some extent3 \<Rightarrow> Some (extent3 + n3 * mt_block_size m mod 2 ^ 32, m) } } }"

definition matras_touch :: "alloc_func \<Rightarrow> matras \<Rightarrow> nat \<Rightarrow> (addr \<times> matras) option" where
  "matras_touch af m i = do {
     c_assert (i < mv_block_count (mt_head m));
     b \<leftarrow> matras_needs_touch m i;
     if \<not> b then do { p \<leftarrow> matras_get m i; Some (p, m) }
     else matras_touch_no_check af m i }"

definition matras_touch_reserve :: "alloc_func \<Rightarrow> matras \<Rightarrow> int \<Rightarrow> (int \<times> matras) option" where
  "matras_touch_reserve af m n = do {
     c_assert (n \<ge> 0);
     let prev = mv_prev (mt_head m);
     if n = 0 then Some (0, m)
     else if prev = NULL then Some (0, m)
     else if mv_block_count (mt_views m prev) = 0 then Some (0, m)
     else do {
       let root_is_to_be_copied = (mv_root (mt_head m) = mv_root (mt_views m prev));
       let max_extents_required = n * 2 + (if root_is_to_be_copied then 1 else 0);
       c_assert (max_extents_required < 2 ^ 31);
       (r, al, h) \<leftarrow> matras_allocator_reserve af max_extents_required (mt_allocator m) (mt_heap m);
       Some (r, m\<lparr>mt_allocator := al, mt_heap := h\<rparr>) } }"

section \<open>Allocation and deallocation of blocks\<close>

definition matras_alloc_internal :: "alloc_func \<Rightarrow> matras \<Rightarrow> (addr \<times> matras) option" where
  "matras_alloc_internal af m = do {
     let i = mv_block_count (mt_head m) mod 2 ^ 32;
     let extent1_available = i;
     let n1 = drop_bit (shift1 m) i;
     let i = i AND mask1 m;
     let extent2_available = i;
     let n2 = drop_bit (shift2 m) i;
     let i = i AND mask2 m;
     let extent3_available = i;
     let n3 = i;
     (extent1, m) \<leftarrow> (if extent1_available \<noteq> 0 then Some (mv_root (mt_head m), m)
       else do {
         (e, m) \<leftarrow> matras_alloc_extent af m;
         Some (e, if e = NULL then m else upd_head (\<lambda>v. v\<lparr>mv_root := e\<rparr>) m) });
     if extent1_available = 0 \<and> extent1 = NULL then Some (NULL, m) else do {
       (extent2, m) \<leftarrow> (if extent2_available \<noteq> 0 then do { e \<leftarrow> load_slot m extent1 n1; Some (e, m) }
         else matras_alloc_extent af m);
       if extent2_available = 0 \<and> extent2 = NULL then do {
         m \<leftarrow> (if extent1_available = 0 then matras_free_extent m extent1 else Some m);
         Some (NULL, m) }
       else do {
         m \<leftarrow> (if extent2_available = 0 then store_slot extent1 n1 extent2 m else Some m);
         (extent3, m) \<leftarrow> (if extent3_available \<noteq> 0 then do { e \<leftarrow> load_slot m extent2 n2; Some (e, m) }
           else matras_alloc_extent af m);
         if extent3_available = 0 \<and> extent3 = NULL then do {
           m \<leftarrow> (if extent1_available = 0 then matras_free_extent m extent1 else Some m);
           m \<leftarrow> (if extent2_available = 0 then matras_free_extent m extent2 else Some m);
           Some (NULL, m) }
         else do {
           m \<leftarrow> (if extent3_available = 0 then store_slot extent2 n2 extent3 m else Some m);
           Some (extent3 + n3 * mt_block_size m mod 2 ^ 32, m) } } } }"

text \<open>The address, the id that is stored through the pointer argument when the call succeeds, and the array.\<close>

definition matras_alloc :: "alloc_func \<Rightarrow> matras \<Rightarrow> (addr \<times> nat \<times> matras) option" where
  "matras_alloc af m = do {
     let n = mv_block_count (mt_head m);
     c_assert (n \<le> mt_capacity m);
     if n = mt_capacity m then Some (NULL, 0, m)
     else do {
       (res, m) \<leftarrow> matras_alloc_internal af m;
       if res \<noteq> NULL then Some (res, n mod 2 ^ 32, upd_head (\<lambda>v. v\<lparr>mv_block_count := mv_block_count v + 1\<rparr>) m)
       else Some (NULL, 0, m) } }"

definition matras_alloc_range :: "alloc_func \<Rightarrow> matras \<Rightarrow> nat \<Rightarrow> (addr \<times> nat \<times> matras) option" where
  "matras_alloc_range af m range_count = do {
     let n = mv_block_count (mt_head m);
     c_assert (n \<le> mt_capacity m);
     c_assert (range_count \<noteq> 0 \<and> n mod range_count = 0);
     c_assert (mt_extent_size m div mt_block_size m mod range_count = 0);
     if n + range_count > mt_capacity m then Some (NULL, 0, m)
     else do {
       (res, m) \<leftarrow> matras_alloc_internal af m;
       if res \<noteq> NULL then Some (res, n mod 2 ^ 32, upd_head (\<lambda>v. v\<lparr>mv_block_count := mv_block_count v + range_count\<rparr>) m)
       else Some (NULL, 0, m) } }"

definition matras_dealloc :: "alloc_func \<Rightarrow> matras \<Rightarrow> matras option" where
  "matras_dealloc af m = do {
     c_assert (mv_block_count (mt_head m) \<noteq> 0);
     let i = (mv_block_count (mt_head m) - 1) mod 2 ^ 32;
     (_, m) \<leftarrow> matras_touch af m i;
     let m = upd_head (\<lambda>v. v\<lparr>mv_block_count := i\<rparr>) m;
     let extent1_free = (i = 0);
     let n1 = drop_bit (shift1 m) i;
     let i = i AND mask1 m;
     let extent2_free = (i = 0);
     let n2 = drop_bit (shift2 m) i;
     let i = i AND mask2 m;
     let extent3_free = (i = 0);
     if extent1_free \<or> extent2_free \<or> extent3_free then do {
       let extent1 = mv_root (mt_head m);
       extent2 \<leftarrow> load_slot m extent1 n1;
       extent3 \<leftarrow> load_slot m extent2 n2;
       m \<leftarrow> (if extent3_free then matras_free_extent m extent3 else Some m);
       m \<leftarrow> (if extent2_free then matras_free_extent m extent2 else Some m);
       (if extent1_free then matras_free_extent m extent1 else Some m) }
     else Some m }"

definition matras_dealloc_range :: "alloc_func \<Rightarrow> matras \<Rightarrow> nat \<Rightarrow> matras option" where
  "matras_dealloc_range af m range_count = do {
     c_assert (range_count \<noteq> 0 \<and> mv_block_count (mt_head m) mod range_count = 0);
     c_assert (mt_extent_size m div mt_block_size m mod range_count = 0);
     let m = upd_head (\<lambda>v. v\<lparr>mv_block_count := nat ((int (mv_block_count v) - (int range_count - 1)) mod 2 ^ 64)\<rparr>) m;
     matras_dealloc af m }"

section \<open>Read views\<close>

definition matras_create_read_view :: "matras \<Rightarrow> addr \<Rightarrow> matras" where
  "matras_create_read_view m v =
     (let m = upd_view v (\<lambda>_. mt_head m) m;
          m = upd_view v (\<lambda>w. w\<lparr>mv_next := mt_self m\<rparr>) m;
          m = upd_head (\<lambda>h. h\<lparr>mv_prev := v\<rparr>) m;
          prev = mv_prev (mt_views m v)
      in if prev \<noteq> NULL then upd_view prev (\<lambda>w. w\<lparr>mv_next := v\<rparr>) m else m)"

text \<open>Whether a view holds the given extent in the slot of its table \<open>e\<close> that starts at block \<open>j\<close>.\<close>

definition slot_shared :: "matras \<Rightarrow> addr \<Rightarrow> nat \<Rightarrow> addr \<Rightarrow> nat \<Rightarrow> addr \<Rightarrow> bool option" where
  "slot_shared m w j e i ext =
     (if mv_block_count (mt_views m w) > j then do { x \<leftarrow> load_slot m e i; Some (ext = x) } else Some False)"

text \<open>The inner loop of \<open>matras_destroy_read_view\<close>, over the slots of one table of the second level.\<close>

partial_function (option) view_free_inner ::
    "addr \<Rightarrow> addr \<Rightarrow> addr \<Rightarrow> nat \<Rightarrow> addr \<Rightarrow> addr \<Rightarrow> addr \<Rightarrow> nat \<Rightarrow> nat \<Rightarrow> matras \<Rightarrow> matras option" where
  "view_free_inner v nv pv j1 extent2 extent2n extent2p i2 j2 m =
     (if \<not> (i2 < mt_extent_size m div 8 \<and> (j1 + j2) mod 2 ^ 32 < mv_block_count (mt_views m v)) then Some m
      else do {
        let j = (j1 + j2) mod 2 ^ 32;
        let i2' = Suc i2 mod 2 ^ 32;
        let j2' = (j2 + (mask2 m + 1) mod 2 ^ 32) mod 2 ^ 32;
        extent3 \<leftarrow> load_slot m extent2 i2;
        b \<leftarrow> slot_shared m nv j extent2n i2 extent3;
        if b then view_free_inner v nv pv j1 extent2 extent2n extent2p i2' j2' m
        else do {
          b \<leftarrow> (if pv \<noteq> NULL then slot_shared m pv j extent2p i2 extent3 else Some False);
          if b then view_free_inner v nv pv j1 extent2 extent2n extent2p i2' j2' m
          else do {
            m \<leftarrow> matras_free_read_view_extent m extent3;
            view_free_inner v nv pv j1 extent2 extent2n extent2p i2' j2' m } } })"

text \<open>The table of the second level that a neighbouring view has in the slot, NULL when it has none there.\<close>

definition neighbour_table :: "matras \<Rightarrow> addr \<Rightarrow> nat \<Rightarrow> nat \<Rightarrow> addr option" where
  "neighbour_table m w j i =
     (if mv_block_count (mt_views m w) > j then load_slot m (mv_root (mt_views m w)) i else Some NULL)"

partial_function (option) view_free_outer :: "addr \<Rightarrow> addr \<Rightarrow> addr \<Rightarrow> nat \<Rightarrow> nat \<Rightarrow> matras \<Rightarrow> matras option" where
  "view_free_outer v nv pv i1 j1 m =
     (if \<not> j1 < mv_block_count (mt_views m v) then Some m
      else do {
        let i1' = Suc i1 mod 2 ^ 32;
        let j1' = (j1 + (mask1 m + 1) mod 2 ^ 32) mod 2 ^ 32;
        extent2 \<leftarrow> load_slot m (mv_root (mt_views m v)) i1;
        b \<leftarrow> slot_shared m nv j1 (mv_root (mt_views m nv)) i1 extent2;
        if b then view_free_outer v nv pv i1' j1' m
        else do {
          extent2n \<leftarrow> neighbour_table m nv j1 i1;
          b \<leftarrow> (if pv \<noteq> NULL then slot_shared m pv j1 (mv_root (mt_views m pv)) i1 extent2 else Some False);
          if b then view_free_outer v nv pv i1' j1' m
          else do {
            extent2p \<leftarrow> (if pv \<noteq> NULL then neighbour_table m pv j1 i1 else Some NULL);
            m \<leftarrow> view_free_inner v nv pv j1 extent2 extent2n extent2p 0 0 m;
            m \<leftarrow> matras_free_read_view_extent m extent2;
            view_free_outer v nv pv i1' j1' m } } })"

definition matras_destroy_read_view :: "matras \<Rightarrow> addr \<Rightarrow> matras option" where
  "matras_destroy_read_view m v = do {
     c_assert (v \<noteq> mt_self m);
     let next_view = mv_next (mt_views m v);
     let prev_view = mv_prev (mt_views m v);
     if next_view = NULL then Some m
     else do {
       let m = upd_view next_view (\<lambda>w. w\<lparr>mv_prev := prev_view\<rparr>) m;
       let m = (if prev_view \<noteq> NULL then upd_view prev_view (\<lambda>w. w\<lparr>mv_next := next_view\<rparr>) m else m);
       let m = upd_view v (\<lambda>w. w\<lparr>mv_next := NULL\<rparr>) m;
       if mv_block_count (mt_views m v) = 0 then Some m
       else if mv_root (mt_views m v) = mv_root (mt_views m next_view) \<and> mv_block_count (mt_views m next_view) \<noteq> 0 then Some m
       else if prev_view \<noteq> NULL \<and> mv_root (mt_views m v) = mv_root (mt_views m prev_view) \<and> mv_block_count (mt_views m prev_view) \<noteq> 0 then Some m
       else do {
         m \<leftarrow> view_free_outer v next_view prev_view 0 0 m;
         matras_free_read_view_extent m (mv_root (mt_views m v)) } } }"

section \<open>Destruction\<close>

partial_function (option) destroy_views :: "matras \<Rightarrow> matras option" where
  "destroy_views m =
     (if mv_prev (mt_head m) \<noteq> NULL then do {
        m \<leftarrow> matras_destroy_read_view m (mv_prev (mt_head m));
        destroy_views m }
      else Some m)"

partial_function (option) destroy_inner :: "nat \<Rightarrow> addr \<Rightarrow> nat \<Rightarrow> nat \<Rightarrow> matras \<Rightarrow> matras option" where
  "destroy_inner j1 extent2 i2 j2 m =
     (if i2 < mt_extent_size m div 8 \<and> (j1 + j2) mod 2 ^ 32 < mv_block_count (mt_head m) then do {
        extent3 \<leftarrow> load_slot m extent2 i2;
        m \<leftarrow> matras_free_extent m extent3;
        destroy_inner j1 extent2 (Suc i2 mod 2 ^ 32) ((j2 + (mask2 m + 1) mod 2 ^ 32) mod 2 ^ 32) m }
      else Some m)"

partial_function (option) destroy_outer :: "nat \<Rightarrow> nat \<Rightarrow> matras \<Rightarrow> matras option" where
  "destroy_outer i1 j1 m =
     (if j1 < mv_block_count (mt_head m) then do {
        extent2 \<leftarrow> load_slot m (mv_root (mt_head m)) i1;
        m \<leftarrow> destroy_inner j1 extent2 0 0 m;
        m \<leftarrow> matras_free_extent m extent2;
        destroy_outer (Suc i1 mod 2 ^ 32) ((j1 + (mask1 m + 1) mod 2 ^ 32) mod 2 ^ 32) m }
      else Some m)"

definition matras_destroy :: "matras \<Rightarrow> matras option" where
  "matras_destroy m = do {
     m \<leftarrow> destroy_views m;
     if mv_block_count (mt_head m) = 0 then Some m
     else do {
       m \<leftarrow> destroy_outer 0 0 m;
       m \<leftarrow> matras_free_extent m (mv_root (mt_head m));
       c_assert (mt_extent_count m = 0);
       Some m } }"

definition matras_reset :: "matras \<Rightarrow> matras option" where
  "matras_reset m = do {
     m \<leftarrow> matras_destroy m;
     Some (upd_head (\<lambda>v. v\<lparr>mv_block_count := 0\<rparr>) m) }"

declare matras_allocator_destroy.simps [code] matras_reserve_loop.simps [code] view_free_inner.simps [code] view_free_outer.simps [code]
  destroy_views.simps [code] destroy_inner.simps [code] destroy_outer.simps [code]

end
