(* ===== verification/Matras_Inv.thy ===== *)
theory Matras_Inv
  imports Matras
begin

text \<open>
  The invariant of the array with read views. A view is seen as its \<^emph>\<open>layout\<close>, the partial map from the
  positions of extents in the tree (the root, the tables of the second level, the extents of
  blocks) to the extents there. The layouts of the head and of the read views, newest first, share
  extents in a disciplined way (\<open>cow\<close>): an extent has one position, what two views share all views
  between them share, and a shared table of the newer view has all the entries of the older one.
\<close>

section \<open>Geometry\<close>

definition step1 :: "matras \<Rightarrow> nat" where
  "step1 m = 2 ^ shift1 m"

definition step2 :: "matras \<Rightarrow> nat" where
  "step2 m = 2 ^ shift2 m"

definition slots :: "matras \<Rightarrow> nat" where
  "slots m = mt_extent_size m div 8"

definition geom_ok :: "matras \<Rightarrow> bool" where
  "geom_ok m \<longleftrightarrow> (\<exists>a b. 3 < a \<and> a < 32 \<and> b \<le> a \<and> mt_extent_size m = 2 ^ a \<and> mt_block_size m = 2 ^ b \<and>
     shift1 m = 2 * a - b - 3 \<and> shift2 m = a - b \<and> shift1 m < 32 \<and> mask1 m = 2 ^ shift1 m - 1 \<and> mask2 m = 2 ^ shift2 m - 1 \<and>
     mt_capacity m = 2 ^ min 32 (3 * a - b - 6) \<and> xh_size (mt_heap m) = 2 ^ a)"

lemma geom_cases:
  assumes "geom_ok m"
  obtains c s b where "0 < c" "c + 3 < 32" "slots m = 2 ^ c" "shift2 m = s" "shift1 m = c + s" "c + s < 32" "step2 m = 2 ^ s" "step1 m = 2 ^ (c + s)"
    "mt_block_size m = 2 ^ b" "mt_extent_size m = 2 ^ (c + 3)" "c + 3 = s + b" "mask1 m = 2 ^ (c + s) - 1" "mask2 m = 2 ^ s - 1"
    "mt_capacity m = 2 ^ min 32 (2 * c + s)" "xh_size (mt_heap m) = 2 ^ (c + 3)"
proof -
  from assms obtain a b where g: "3 < a" "a < 32" "b \<le> a" "mt_extent_size m = 2 ^ a" "mt_block_size m = 2 ^ b"
    "shift1 m = 2 * a - b - 3" "shift2 m = a - b" "shift1 m < 32" "mask1 m = 2 ^ shift1 m - 1" "mask2 m = 2 ^ shift2 m - 1"
    "mt_capacity m = 2 ^ min 32 (3 * a - b - 6)" "xh_size (mt_heap m) = 2 ^ a" by (auto simp: geom_ok_def)
  obtain c where c: "a = c + 3" using g(1) by (metis add.commute less_imp_add_positive)
  have sl: "slots m = 2 ^ c" unfolding slots_def g(4) c by (simp add: power_add)
  obtain s where s: "c + 3 = s + b" using g(3) c by (metis add.commute le_iff_add)
  have e: "2 * a - b - 3 = c + s" "a - b = s" "3 * a - b - 6 = 2 * c + s" using c s by linarith+
  have c1: "0 < c" and c2: "c + 3 < 32" using g(1,2) c by linarith+
  have s1: "shift1 m = c + s" and s2: "shift2 m = s" using g(6,7) e by simp_all
  have cs: "c + s < 32" using g(8) s1 by simp
  show thesis
    by (rule that [OF c1 c2 sl s2 s1 cs _ _ g(5) g(4) [unfolded c] s g(9) [unfolded s1] g(10) [unfolded s2] g(11) [unfolded e] g(12) [unfolded c]])
      (simp_all add: step1_def step2_def s1 s2)
qed


lemma geom_simps:
  assumes "geom_ok m"
  shows geom_step1: "step1 m = slots m * step2 m" and geom_slots_pos: "0 < slots m" and geom_step2_pos: "0 < step2 m"
    and geom_step1_less: "step1 m < 2 ^ 32" and geom_step2_less: "step2 m < 2 ^ 32" and geom_slots_less: "slots m < 2 ^ 32"
    and geom_mask1: "(mask1 m + 1) mod 2 ^ 32 = step1 m" and geom_mask2: "(mask2 m + 1) mod 2 ^ 32 = step2 m"
    and geom_capacity: "mt_capacity m \<le> slots m * step1 m" "mt_capacity m \<le> 2 ^ 32"
    and geom_extent: "step2 m * mt_block_size m = mt_extent_size m" "mt_extent_size m < 2 ^ 32" "0 < mt_block_size m"
    and geom_size: "xh_size (mt_heap m) = mt_extent_size m" "8 * i + 8 \<le> xh_size (mt_heap m) \<longleftrightarrow> i < slots m" "mt_extent_size m = 8 * slots m"
    and geom_n1: "id_n1 m i = i div step1 m" and geom_n2: "id_n2 m i = i div step2 m mod slots m" and geom_n3: "id_n3 m i = i mod step2 m"
    and geom_step2_dvd: "step2 m dvd 2 ^ 32" "step1 m dvd 2 ^ 32"
proof -
  from assms show "step1 m = slots m * step2 m" by (rule geom_cases) (simp add: power_add)
  from assms show "0 < slots m" by (rule geom_cases) simp
  from assms show "0 < step2 m" by (rule geom_cases) simp
  have lt: "(2::nat) ^ k < 2 ^ 32" if "k < 32" for k using that by (rule power_strict_increasing) simp
  from assms show s1: "step1 m < 2 ^ 32" by (rule geom_cases) (simp only: lt)
  from assms show s2: "step2 m < 2 ^ 32" by (rule geom_cases) (use lt in auto)
  from assms show "slots m < 2 ^ 32" by (rule geom_cases) (use lt in auto)
  have "mask1 m + 1 = step1 m" using assms by (rule geom_cases) simp
  then show "(mask1 m + 1) mod 2 ^ 32 = step1 m" using s1 by simp
  have "mask2 m + 1 = step2 m" using assms by (rule geom_cases) simp
  then show "(mask2 m + 1) mod 2 ^ 32 = step2 m" using s2 by simp
  have pw: "(2::nat) ^ min 32 k \<le> 2 ^ k" "(2::nat) ^ min 32 k \<le> 2 ^ 32" for k by (rule power_increasing; simp)+
  from assms show "mt_capacity m \<le> slots m * step1 m"
  proof (rule geom_cases)
    fix c s assume c: "slots m = 2 ^ c" "step1 m = 2 ^ (c + s)" "mt_capacity m = 2 ^ min 32 (2 * c + s)"
    have "slots m * step1 m = 2 ^ (2 * c + s)" unfolding c by (simp flip: power_add)
    then show ?thesis unfolding c(3) using pw(1) by simp
  qed
  from assms show "mt_capacity m \<le> 2 ^ 32" by (rule geom_cases) (simp only: pw(2))
  from assms show "step2 m * mt_block_size m = mt_extent_size m" by (rule geom_cases) (simp flip: power_add)
  from assms show "mt_extent_size m < 2 ^ 32" by (rule geom_cases) (simp only: lt)
  from assms show "0 < mt_block_size m" by (rule geom_cases) simp
  from assms show x: "xh_size (mt_heap m) = mt_extent_size m" by (rule geom_cases) simp
  from assms show y: "mt_extent_size m = 8 * slots m" 
  proof (rule geom_cases)
    fix c assume "mt_extent_size m = 2 ^ (c + 3)" "slots m = 2 ^ c" then show ?thesis by (simp add: power_add)
  qed
  show "8 * i + 8 \<le> xh_size (mt_heap m) \<longleftrightarrow> i < slots m" unfolding x y by auto
  have and_mask: "n AND (2 ^ k - 1) = n mod 2 ^ k" for n k :: nat by (metis mask_eq_exp_minus_1 take_bit_eq_mask take_bit_eq_mod)
  from assms show "id_n1 m i = i div step1 m" by (rule geom_cases) (simp add: id_n1_def drop_bit_eq_div)
  from assms show "id_n3 m i = i mod step2 m" by (rule geom_cases) (simp only: id_n3_def and_mask)
  from assms show "id_n2 m i = i div step2 m mod slots m"
  proof (rule geom_cases)
    fix c s assume c: "slots m = 2 ^ c" "shift2 m = s" "step2 m = 2 ^ s" "mask1 m = 2 ^ (c + s) - 1"
    have "i mod 2 ^ (c + s) div 2 ^ s = i div 2 ^ s mod 2 ^ c"
      by (metis add.commute drop_bit_eq_div drop_bit_take_bit take_bit_eq_mod add_diff_cancel_right')
    then show ?thesis unfolding id_n2_def c and_mask drop_bit_eq_div .
  qed
  have dv: "(2::nat) ^ k dvd 2 ^ 32" if "k < 32" for k using that by (intro le_imp_power_dvd) simp
  from assms show "step2 m dvd 2 ^ 32"
  proof (rule geom_cases)
    fix c s assume "c + s < 32" "step2 m = 2 ^ s" then show ?thesis using dv [of s] by simp
  qed
  from assms show "step1 m dvd 2 ^ 32" by (rule geom_cases) (simp only: dv)
qed

section \<open>Positions and layouts\<close>

datatype slot_pos = Top | Mid nat | Low nat

text \<open>The first block of a position.\<close>

fun pos_start :: "matras \<Rightarrow> slot_pos \<Rightarrow> nat" where
  "pos_start m Top = 0"
| "pos_start m (Mid i) = i * step1 m"
| "pos_start m (Low k) = k * step2 m"

fun ext_at :: "matras \<Rightarrow> addr \<Rightarrow> slot_pos \<Rightarrow> addr" where
  "ext_at m r Top = r"
| "ext_at m r (Mid i) = xh_ptr (mt_heap m) r i"
| "ext_at m r (Low k) = xh_ptr (mt_heap m) (xh_ptr (mt_heap m) r (k div slots m)) (k mod slots m)"

type_synonym layout = "slot_pos \<Rightarrow> addr option"

definition layout_of :: "matras \<Rightarrow> addr \<Rightarrow> nat \<Rightarrow> layout" where
  "layout_of m r n p = (if pos_start m p < n then Some (ext_at m r p) else None)"

abbreviation lay :: "matras \<Rightarrow> addr \<Rightarrow> layout" where
  "lay m v \<equiv> layout_of m (mv_root (mt_views m v)) (mv_block_count (mt_views m v))"

text \<open>Two layouts share an extent at a position; a position lies below another.\<close>

definition same_at :: "layout \<Rightarrow> layout \<Rightarrow> slot_pos \<Rightarrow> bool" where
  "same_at f g p \<longleftrightarrow> (\<exists>e. f p = Some e \<and> g p = Some e)"

fun below :: "nat \<Rightarrow> slot_pos \<Rightarrow> slot_pos \<Rightarrow> bool" where
  "below K Top q = True"
| "below K (Mid i) q = (q = Mid i \<or> (\<exists>k. q = Low k \<and> k div K = i))"
| "below K (Low k) q = (q = Low k)"

definition own_pos :: "layout \<Rightarrow> layout \<Rightarrow> bool" where
  "own_pos f g \<longleftrightarrow> (\<forall>p q e. f p = Some e \<longrightarrow> g q = Some e \<longrightarrow> p = q)"

definition grown :: "nat \<Rightarrow> layout \<Rightarrow> layout \<Rightarrow> bool" where
  "grown K f g \<longleftrightarrow> (\<forall>p q. same_at f g p \<longrightarrow> below K p q \<longrightarrow> g q \<noteq> None \<longrightarrow> f q \<noteq> None)"

text \<open>What a layout shares with an older one it shares with all layouts in between.\<close>

fun contiguous :: "layout \<Rightarrow> layout list \<Rightarrow> bool" where
  "contiguous f [] = True"
| "contiguous f (g # gs) = ((\<forall>h \<in> set gs. \<forall>p. same_at f h p \<longrightarrow> same_at f g p) \<and> contiguous f gs)"

fun cow :: "nat \<Rightarrow> layout list \<Rightarrow> bool" where
  "cow K [] = True"
| "cow K (f # gs) = (own_pos f f \<and> (\<forall>g \<in> set gs. own_pos f g \<and> grown K f g) \<and> contiguous f gs \<and> cow K gs)"

subsection \<open>Operations on lists of layouts\<close>

lemma same_at_sym: "same_at f g p \<Longrightarrow> same_at g f p"
  by (auto simp: same_at_def)

text \<open>The head replaces extents by fresh ones, or gets new ones.\<close>

lemma cow_head:
  assumes "cow K (f # gs)" and "own_pos f' f'" and "dom f \<subseteq> dom f'"
    and "\<And>p e. f' p = Some e \<Longrightarrow> f p = Some e \<or> (\<forall>g \<in> set gs. e \<notin> ran g)"
  shows "cow K (f' # gs)"
proof -
  have old: "same_at f g p" if "same_at f' g p" "g \<in> set gs" for g p
    using that assms(4) [of p] by (auto simp: same_at_def ran_def)
  have new: "same_at f' g p" if "same_at f g p" "same_at f' h p" "h \<in> set gs" for g h p
    using that old [of h p] by (auto simp: same_at_def)
  have "own_pos f' g" if "g \<in> set gs" for g
    unfolding own_pos_def
  proof (intro allI impI)
    fix p q e assume "f' p = Some e" "g q = Some e"
    then have "f p = Some e" using assms(4) [of p e] that by (auto simp: ran_def)
    then show "p = q" using \<open>g q = Some e\<close> assms(1) that by (auto simp: own_pos_def)
  qed
  moreover have "grown K f' g" if "g \<in> set gs" for g
    using assms(1,3) that old unfolding grown_def by (fastforce simp: grown_def)
  moreover have "contiguous f' xs" if "set xs \<subseteq> set gs" "contiguous f xs" for xs
    using that
  proof (induction xs)
    case (Cons g xs)
    have "same_at f' g p" if s: "h \<in> set xs" "same_at f' h p" for h p
    proof -
      have "same_at f h p" using old s Cons.prems(1) by auto
      then have "same_at f g p" using s(1) Cons.prems(2) by simp
      then show ?thesis using new s Cons.prems(1) by auto
    qed
    then show ?case using Cons by auto
  qed simp
  ultimately show ?thesis using assms(1,2) by auto
qed

text \<open>The head gives up extents that it shares with nobody.\<close>

lemma cow_head_shrink:
  assumes "cow K (f # gs)" and "\<And>p. f' p = f p \<or> (f' p = None \<and> (\<forall>g \<in> set gs. \<not> same_at f g p))"
    and "\<And>g p q. g \<in> set gs \<Longrightarrow> same_at f g p \<Longrightarrow> below K p q \<Longrightarrow> f q \<noteq> None \<Longrightarrow> g q \<noteq> None \<Longrightarrow> same_at f g q"
  shows "cow K (f' # gs)"
proof -
  have old: "same_at f' g p \<longleftrightarrow> same_at f g p" if "g \<in> set gs" for g p
    using that assms(2) [of p] by (cases "f' p = f p") (simp_all add: same_at_def)
  have le: "f p = Some e" if "f' p = Some e" for p e using that assms(2) [of p] by auto
  have "own_pos f' f'" using assms(1) le unfolding cow.simps own_pos_def by blast
  moreover have "own_pos f' g" if "g \<in> set gs" for g using assms(1) le that unfolding cow.simps own_pos_def by blast
  moreover have "grown K f' g" if g: "g \<in> set gs" for g
    unfolding grown_def
  proof (intro allI impI)
    fix p q assume a: "same_at f' g p" "below K p q" "g q \<noteq> None"
    then have s: "same_at f g p" using old [OF g] by simp
    then have "f q \<noteq> None" using a assms(1) g unfolding cow.simps grown_def by blast
    then have "same_at f g q" using assms(3) [OF g s a(2)] a(3) by simp
    then show "f' q \<noteq> None" using old [OF g, of q] by (auto simp: same_at_def)
  qed
  moreover have "contiguous f' xs" if "set xs \<subseteq> set gs" "contiguous f xs" for xs
    using that by (induction xs) (simp_all add: old subset_iff)
  ultimately show ?thesis using assms(1) by auto
qed

lemma cow_dup: "cow K (f # gs) \<Longrightarrow> cow K (f # f # gs)"
  by (auto simp: grown_def same_at_def)

lemma contiguous_remove: "contiguous f (gs @ g # hs) \<Longrightarrow> contiguous f (gs @ hs)"
  by (induction gs) auto

lemma cow_remove: "cow K (fs @ g # gs) \<Longrightarrow> cow K (fs @ gs)"
  by (induction fs) (auto dest: contiguous_remove)

lemma cow_ConsD: "cow K (f # gs) \<Longrightarrow> cow K gs" by simp

lemma cow_append: "cow K (fs @ gs) \<Longrightarrow> cow K gs"
  by (induction fs) simp_all

lemma cow_own: "cow K fs \<Longrightarrow> f \<in> set fs \<Longrightarrow> g \<in> set fs \<Longrightarrow> own_pos f g"
proof (induction fs)
  case (Cons a fs)
  have sym: "own_pos x y" if "own_pos y x" for x y using that unfolding own_pos_def by metis
  show ?case using Cons sym by auto
qed simp

lemma contiguous_mid: "contiguous f (gs @ g # hs) \<Longrightarrow> h \<in> set hs \<Longrightarrow> same_at f h p \<Longrightarrow> same_at f g p"
  by (induction gs) auto

text \<open>What the head shares at all, it shares with the newest view.\<close>

lemma cow_newest: "cow K (f # g # gs) \<Longrightarrow> h \<in> set (g # gs) \<Longrightarrow> same_at f h p \<Longrightarrow> same_at f g p"
  using contiguous_mid [of f "[]" g gs h p] by auto

text \<open>What a view shares at all, it shares with one of its neighbours.\<close>

lemma cow_neighbours:
  assumes "cow K (fs @ n # v # gs)" and "h \<in> set (fs @ n # gs)" and "same_at v h p"
  shows "same_at v n p \<or> (\<exists>g gs'. gs = g # gs' \<and> same_at v g p)"
proof (cases "h \<in> set gs")
  case True
  then obtain g gs' where "gs = g # gs'" by (cases gs) auto
  moreover have "cow K (v # gs)" using cow_append [of K "fs @ [n]" "v # gs"] assms(1) by simp
  ultimately show ?thesis using cow_newest [of K v g gs' h p] True assms(3) by auto
next
  case False
  have "same_at v n p" if "cow K (xs @ n # v # gs)" "h \<in> set (xs @ [n])" for xs
    using that
  proof (induction xs)
    case Nil
    then show ?case using assms(3) by simp
  next
    case (Cons a xs)
    show ?case
    proof (cases "h = a")
      case True
      then have "same_at a v p" using assms(3) by (auto simp: same_at_def)
      moreover have "contiguous a (xs @ n # (v # gs))" using Cons.prems(1) by simp
      ultimately have "same_at a n p" by (rule contiguous_mid [rotated 2]) simp
      then show ?thesis using \<open>same_at a v p\<close> by (auto simp: same_at_def)
    next
      case False
      then show ?thesis using Cons by simp
    qed
  qed
  then show ?thesis using assms(1,2) False by auto
qed

section \<open>Layouts and the heap\<close>

text \<open>The fields that no operation but creation changes.\<close>

definition geom :: "matras \<Rightarrow> addr \<times> nat \<times> nat \<times> nat \<times> nat \<times> nat \<times> nat \<times> nat \<times> nat" where
  "geom m = (mt_self m, mt_block_size m, mt_extent_size m, mt_capacity m, shift1 m, shift2 m, mask1 m, mask2 m, xh_size (mt_heap m))"

lemma geomD:
  assumes "geom m' = geom m"
  shows "mt_self m' = mt_self m" "mt_block_size m' = mt_block_size m" "mt_extent_size m' = mt_extent_size m" "mt_capacity m' = mt_capacity m"
    "step1 m' = step1 m" "step2 m' = step2 m" "slots m' = slots m" "mask1 m' = mask1 m" "mask2 m' = mask2 m"
    "geom_ok m' \<longleftrightarrow> geom_ok m" "id_n1 m' = id_n1 m" "id_n2 m' = id_n2 m" "id_n3 m' = id_n3 m" "pos_start m' p = pos_start m p"
    "shift1 m' = shift1 m" "shift2 m' = shift2 m" "xh_size (mt_heap m') = xh_size (mt_heap m)"
  using assms by (simp_all add: geom_def step1_def step2_def slots_def geom_ok_def fun_eq_iff id_n1_def id_n2_def id_n3_def, cases p, simp_all add: step1_def step2_def)

definition core :: "matras \<Rightarrow> _" where
  "core m = (geom m, mt_views m, xh_ptr (mt_heap m), xh_byte (mt_heap m))"

lemma coreD: "core m' = core m \<Longrightarrow> geom m' = geom m" "core m' = core m \<Longrightarrow> mt_views m' = mt_views m"
  "core m' = core m \<Longrightarrow> xh_ptr (mt_heap m') = xh_ptr (mt_heap m)" "core m' = core m \<Longrightarrow> xh_byte (mt_heap m') = xh_byte (mt_heap m)"
  by (simp_all add: core_def)

text \<open>Positions that a view of at most the capacity has are within the tables.\<close>

lemma pos_in_tables:
  assumes "geom_ok m" and "n \<le> mt_capacity m"
  shows "i * step1 m < n \<Longrightarrow> i < slots m" and "k * step2 m < n \<Longrightarrow> k div slots m < slots m" and "k * step2 m < n \<Longrightarrow> k div slots m * step1 m < n"
proof -
  note g = geom_simps [OF assms(1)]
  have c: "n \<le> slots m * step1 m" using assms(2) g(9) by simp
  { assume "i * step1 m < n"
    then have "i * step1 m < slots m * step1 m" using c by (rule less_le_trans)
    then show "i < slots m" using mult_less_cancel2 by blast }
  { assume k: "k * step2 m < n"
    have "k div slots m * slots m \<le> k" by simp
    then have "k div slots m * slots m * step2 m \<le> k * step2 m" by (rule mult_le_mono1)
    then have le: "k div slots m * step1 m \<le> k * step2 m" unfolding g(1) by (simp only: mult.assoc)
    then show l: "k div slots m * step1 m < n" using k by simp
    then have "k div slots m * step1 m < slots m * step1 m" using c by (rule less_le_trans)
    then show "k div slots m < slots m" using mult_less_cancel2 by blast }
qed

lemma layout_frame:
  assumes "geom_ok m" and "geom m' = geom m" and "n \<le> mt_capacity m"
    and "\<And>e i. e \<in> ran (layout_of m r n) \<Longrightarrow> i < slots m \<Longrightarrow> xh_ptr (mt_heap m') e i = xh_ptr (mt_heap m) e i"
  shows "layout_of m' r n = layout_of m r n"
proof
  fix p
  note p = pos_in_tables [OF assms(1,3)]
  have root: "r \<in> ran (layout_of m r n)" if "0 < n" using that by (intro ranI [of _ Top]) (simp add: layout_of_def)
  have mid: "xh_ptr (mt_heap m) r i \<in> ran (layout_of m r n)" if "i * step1 m < n" for i
    using that by (intro ranI [of _ "Mid i"]) (simp add: layout_of_def)
  have m1: "xh_ptr (mt_heap m') r i = xh_ptr (mt_heap m) r i" if "i * step1 m < n" for i
    using that p(1) root by (intro assms(4)) auto
  show "layout_of m' r n p = layout_of m r n p"
  proof (cases p)
    case (Low k)
    have "xh_ptr (mt_heap m') (xh_ptr (mt_heap m) r (k div slots m)) (k mod slots m) = xh_ptr (mt_heap m) (xh_ptr (mt_heap m) r (k div slots m)) (k mod slots m)"
      if "k * step2 m < n" using that p(3) mid geom_slots_pos [OF assms(1)] by (intro assms(4)) auto
    then show ?thesis using Low m1 p(3) by (simp add: layout_of_def geomD [OF assms(2)])
  qed (simp_all add: layout_of_def geomD [OF assms(2)] m1)
qed

text \<open>A shared table has the same entries in both views.\<close>

lemma layout_same_below:
  assumes "same_at (layout_of m r n) (layout_of m r' n') p" and "below (slots m) p q"
    and "layout_of m r n q \<noteq> None" and "layout_of m r' n' q \<noteq> None"
  shows "same_at (layout_of m r n) (layout_of m r' n') q"
proof -
  have l: "layout_of m r n q = Some (ext_at m r q)" "layout_of m r' n' q = Some (ext_at m r' q)" using assms(3,4) by (auto simp: layout_of_def split: if_splits)
  have e: "ext_at m r p = ext_at m r' p" using assms(1) by (auto simp: same_at_def layout_of_def split: if_splits)
  have "ext_at m r q = ext_at m r' q" using e assms(2) by (cases p; cases q) auto
  then show ?thesis using l by (simp add: same_at_def)
qed

section \<open>The invariant\<close>

fun reserved_chain :: "ext_heap \<Rightarrow> addr \<Rightarrow> addr list \<Rightarrow> bool" where
  "reserved_chain h p [] = True"
| "reserved_chain h p (e # es) = (p = e \<and> reserved_chain h (xh_ptr h e 0) es)"

text \<open>
  \<open>O\<close> are the extents of the array, \<open>R\<close> the reserved ones of its allocator, and \<open>Out\<close> those that other users
  of the same allocator hold.
\<close>

definition heap_ok :: "matras \<Rightarrow> addr set \<Rightarrow> addr list \<Rightarrow> addr set \<Rightarrow> bool" where
  "heap_ok m Own R Out \<longleftrightarrow>
     xh_live (mt_heap m) = Own \<union> set R \<union> Out \<and> Own \<inter> set R = {} \<and> Own \<inter> Out = {} \<and> set R \<inter> Out = {} \<and> finite Own \<and> distinct R \<and>
     NULL \<notin> xh_live (mt_heap m) \<and>
     (\<forall>e \<in> xh_live (mt_heap m). \<forall>e' \<in> xh_live (mt_heap m). e \<noteq> e' \<longrightarrow> span e (mt_extent_size m) \<inter> span e' (mt_extent_size m) = {}) \<and>
     reserved_chain (mt_heap m) (reserved_extents (mt_allocator m)) R \<and> num_reserved_extents (mt_allocator m) = int (length R) \<and>
     mt_extent_count m = card Own mod 2 ^ 32"

text \<open>The contract of \<open>alloc_func\<close>: NULL, or an extent that overlaps none in use.\<close>

definition alloc_ok :: "alloc_func \<Rightarrow> nat \<Rightarrow> bool" where
  "alloc_ok af n \<longleftrightarrow> (\<forall>t L. af t L \<noteq> NULL \<longrightarrow> (\<forall>e \<in> L. span (af t L) n \<inter> span e n = {}))"

fun views_linked :: "matras \<Rightarrow> addr \<Rightarrow> addr list \<Rightarrow> bool" where
  "views_linked m v [] = (mv_prev (mt_views m v) = NULL)"
| "views_linked m v (w # ws) = (mv_prev (mt_views m v) = w \<and> mv_next (mt_views m w) = v \<and> views_linked m w ws)"

definition matras_inv :: "matras \<Rightarrow> addr list \<Rightarrow> addr set \<Rightarrow> addr list \<Rightarrow> addr set \<Rightarrow> bool" where
  "matras_inv m vs Own R Out \<longleftrightarrow>
     geom_ok m \<and> heap_ok m Own R Out \<and> distinct (mt_self m # vs) \<and> NULL \<notin> set (mt_self m # vs) \<and> mv_next (mt_head m) = NULL \<and>
     views_linked m (mt_self m) vs \<and> (\<forall>v \<in> set (mt_self m # vs). mv_block_count (mt_views m v) \<le> mt_capacity m) \<and>
     cow (slots m) (map (lay m) (mt_self m # vs)) \<and> (\<forall>v \<in> set (mt_self m # vs). ran (lay m v) \<subseteq> Own)"

lemma matras_invD:
  assumes "matras_inv m vs Own R Out"
  shows "geom_ok m" "heap_ok m Own R Out" "distinct (mt_self m # vs)" "NULL \<notin> set (mt_self m # vs)" "mv_next (mt_head m) = NULL"
    "views_linked m (mt_self m) vs" "v \<in> set (mt_self m # vs) \<Longrightarrow> mv_block_count (mt_views m v) \<le> mt_capacity m"
    "cow (slots m) (map (lay m) (mt_self m # vs))" "v \<in> set (mt_self m # vs) \<Longrightarrow> ran (lay m v) \<subseteq> Own"
  using assms by (auto simp: matras_inv_def)

lemma heap_okD:
  assumes "heap_ok m Own R Out"
  shows "xh_live (mt_heap m) = Own \<union> set R \<union> Out" "Own \<inter> set R = {}" "Own \<inter> Out = {}" "set R \<inter> Out = {}" "finite Own" "distinct R"
    "NULL \<notin> xh_live (mt_heap m)" "e \<in> xh_live (mt_heap m) \<Longrightarrow> e' \<in> xh_live (mt_heap m) \<Longrightarrow> e \<noteq> e' \<Longrightarrow> span e (mt_extent_size m) \<inter> span e' (mt_extent_size m) = {}"
    "reserved_chain (mt_heap m) (reserved_extents (mt_allocator m)) R" "num_reserved_extents (mt_allocator m) = int (length R)"
    "mt_extent_count m = card Own mod 2 ^ 32"
  using assms unfolding heap_ok_def by blast+

subsection \<open>Taking and giving back extents\<close>

lemma reserved_chain_cong: "(\<And>e. e \<in> set R \<Longrightarrow> xh_ptr h' e 0 = xh_ptr h e 0) \<Longrightarrow> reserved_chain h' p R = reserved_chain h p R"
  by (induction R arbitrary: p) simp_all

lemma count_inc: "nat ((int (card A mod 2 ^ 32) + 1) mod 2 ^ 32) = Suc (card A) mod 2 ^ 32"
proof -
  have "(int (card A mod 2 ^ 32) + 1) mod 2 ^ 32 = int (Suc (card A) mod 2 ^ 32)" by (simp add: zmod_int mod_simps ac_simps)
  then show ?thesis by simp
qed

lemma count_dec: "0 < c \<Longrightarrow> nat ((int (c mod 2 ^ 32) + - 1) mod 2 ^ 32) = (c - 1) mod 2 ^ 32"
proof -
  assume "0 < c"
  then obtain d where d: "c = Suc d" by (cases c) auto
  have "(int (c mod 2 ^ 32) + - 1) mod 2 ^ 32 = (int c + - 1) mod 2 ^ 32" by (simp add: zmod_int mod_simps)
  also have "\<dots> = int ((c - 1) mod 2 ^ 32)" by (simp add: d zmod_int)
  finally show ?thesis by simp
qed

lemma core_add_count [simp]: "core (add_extent_count d m) = core m" "core (add_read_view_extent_count d m) = core m"
  by (simp_all add: core_def geom_def add_extent_count_def add_read_view_extent_count_def)

lemma add_count_simps [simp]:
  "mt_heap (add_extent_count d m) = mt_heap m" "mt_allocator (add_extent_count d m) = mt_allocator m" "mt_views (add_extent_count d m) = mt_views m"
  "mt_extent_size (add_extent_count d m) = mt_extent_size m" "mt_self (add_extent_count d m) = mt_self m"
  "mt_extent_count (add_extent_count d m) = nat ((int (mt_extent_count m) + d) mod 2 ^ 32)"
  "mt_heap (add_read_view_extent_count d m) = mt_heap m" "mt_views (add_read_view_extent_count d m) = mt_views m" "mt_self (add_read_view_extent_count d m) = mt_self m"
  "mt_extent_size (add_read_view_extent_count d m) = mt_extent_size m"
  by (simp_all add: add_extent_count_def add_read_view_extent_count_def)

lemma heap_ok_read_view_count [simp]: "heap_ok (add_read_view_extent_count d m) Own R Out \<longleftrightarrow> heap_ok m Own R Out"
  unfolding heap_ok_def by (simp add: add_read_view_extent_count_def)

lemma free_extent_spec:
  assumes "heap_ok m Own R Out" and "e \<in> Own"
  obtains m' where "matras_free_extent m e = Some m'" "core m' = core m" "heap_ok m' (Own - {e}) R Out"
proof
  let ?h = "mt_heap m\<lparr>xh_live := xh_live (mt_heap m) - {e}\<rparr>"
  let ?m = "add_extent_count (- 1) (m\<lparr>mt_heap := ?h\<rparr>)"
  note h = heap_okD [OF assms(1)]
  have live: "e \<in> xh_live (mt_heap m)" using h(1) assms(2) by auto
  then show "matras_free_extent m e = Some ?m" by (simp add: matras_free_extent_def matras_allocator_free_def call_free_func_def)
  show "core ?m = core m" unfolding core_add_count by (simp add: core_def geom_def)
  have "0 < card Own" using assms(2) h(5) card_gt_0_iff by blast
  moreover have "mt_extent_count (m\<lparr>mt_heap := ?h\<rparr>) = mt_extent_count m" by simp
  ultimately have "mt_extent_count ?m = card (Own - {e}) mod 2 ^ 32"
    using count_dec [of "card Own"] h(11) by (simp only: add_count_simps card_Diff_singleton [OF assms(2)])
  moreover have "reserved_chain ?h p R = reserved_chain (mt_heap m) p R" for p by (rule reserved_chain_cong) simp
  ultimately show "heap_ok ?m (Own - {e}) R Out" using assms(1,2) unfolding heap_ok_def add_count_simps by auto
qed

lemma free_read_view_extent_spec:
  assumes "heap_ok m Own R Out" and "e \<in> Own"
  obtains m' where "matras_free_read_view_extent m e = Some m'" "core m' = core m" "heap_ok m' (Own - {e}) R Out"
proof (rule free_extent_spec [OF assms])
  fix m' assume m: "matras_free_extent m e = Some m'" "core m' = core m" "heap_ok m' (Own - {e}) R Out"
  then show thesis using m by (intro that [of "add_read_view_extent_count (- 1) m'"]) (simp_all add: matras_free_read_view_extent_def)
qed

lemma alloc_extent_spec:
  assumes "geom_ok m" and "heap_ok m Own R Out" and "alloc_ok af (mt_extent_size m)"
  obtains (no_memory) m' where "matras_alloc_extent af m = Some (NULL, m')" "R = []" "core m' = core m" "heap_ok m' Own R Out"
  | (taken) e m' R' where "matras_alloc_extent af m = Some (e, m')" "e \<noteq> NULL" "e \<notin> Own" "core m' = core m" "heap_ok m' (insert e Own) R' Out"
    "R = [] \<and> R' = [] \<or> R = e # R'"
proof (cases R)
  case Nil
  let ?e = "af (xh_time (mt_heap m)) (xh_live (mt_heap m))"
  let ?h = "mt_heap m\<lparr>xh_time := Suc (xh_time (mt_heap m))\<rparr>"
  note h = heap_okD [OF assms(2)]
  have n: "\<not> num_reserved_extents (mt_allocator m) > 0" using h(10) Nil by simp
  show ?thesis
  proof (cases "?e = NULL")
    case True
    show ?thesis
    proof (rule no_memory [of "m\<lparr>mt_heap := ?h\<rparr>"])
      show "matras_alloc_extent af m = Some (NULL, m\<lparr>mt_heap := ?h\<rparr>)"
        using n True by (simp add: matras_alloc_extent_def matras_allocator_alloc_def call_alloc_func_def Let_def)
      show "core (m\<lparr>mt_heap := ?h\<rparr>) = core m" by (simp add: core_def geom_def)
      show "heap_ok (m\<lparr>mt_heap := ?h\<rparr>) Own R Out" using assms(2) Nil unfolding heap_ok_def by auto
    qed (use Nil in simp_all)
  next
    case False
    let ?g = "?h\<lparr>xh_live := insert ?e (xh_live (mt_heap m))\<rparr>"
    let ?m = "add_extent_count 1 (m\<lparr>mt_heap := ?g\<rparr>)"
    have sp: "span ?e (mt_extent_size m) \<inter> span e (mt_extent_size m) = {}" if "e \<in> xh_live (mt_heap m)" for e
      using assms(3) False that by (simp add: alloc_ok_def)
    have "?e \<in> span ?e (mt_extent_size m)" using geom_size(3) [OF assms(1)] geom_slots_pos [OF assms(1)] by simp
    then have new: "?e \<notin> xh_live (mt_heap m)" using sp by blast
    have "mt_extent_count (m\<lparr>mt_heap := ?g\<rparr>) = card Own mod 2 ^ 32" using h(11) by simp
    moreover have "card (insert ?e Own) = Suc (card Own)" using new h(1,5) by simp
    ultimately have c: "mt_extent_count ?m = card (insert ?e Own) mod 2 ^ 32" using count_inc [of Own] by (simp only: add_count_simps)
    show ?thesis
    proof (rule taken [of ?e ?m "[]"])
      show "matras_alloc_extent af m = Some (?e, ?m)"
        using n False by (simp add: matras_alloc_extent_def matras_allocator_alloc_def call_alloc_func_def Let_def)
      show "?e \<notin> Own" using new h(1) by auto
      show "core ?m = core m" unfolding core_add_count by (simp add: core_def geom_def)
      show "heap_ok ?m (insert ?e Own) [] Out" unfolding heap_ok_def c unfolding add_count_simps using h new sp False Nil by (auto simp: Int_commute)
    qed (use Nil False in simp_all)
  qed
next
  case (Cons e R')
  note h = heap_okD [OF assms(2)]
  let ?a = "mt_allocator m\<lparr>reserved_extents := xh_ptr (mt_heap m) e 0, num_reserved_extents := num_reserved_extents (mt_allocator m) - 1\<rparr>"
  let ?m = "add_extent_count 1 (m\<lparr>mt_allocator := ?a\<rparr>)"
  have e: "reserved_extents (mt_allocator m) = e" "e \<in> xh_live (mt_heap m)" "e \<notin> Own" "e \<notin> Out" "e \<notin> set R'" using h(1,2,4,6,9) Cons by auto
  have "8 * 0 + 8 \<le> xh_size (mt_heap m)" using geom_size(2) [OF assms(1)] geom_slots_pos [OF assms(1)] by blast
  then have "matras_alloc_extent af m = Some (e, add_extent_count 1 (m\<lparr>mt_allocator := ?a, mt_heap := mt_heap m\<rparr>))"
    using h(10) Cons e h(7) by (auto simp: matras_alloc_extent_def matras_allocator_alloc_def take_reserved_def ext_load_def Let_def)
  then have run: "matras_alloc_extent af m = Some (e, ?m)" by simp
  have "mt_extent_count (m\<lparr>mt_allocator := ?a\<rparr>) = card Own mod 2 ^ 32" using h(11) by simp
  moreover have "card (insert e Own) = Suc (card Own)" using e h(5) by simp
  ultimately have c: "mt_extent_count ?m = card (insert e Own) mod 2 ^ 32" using count_inc [of Own] by (simp only: add_count_simps)
  show ?thesis
  proof (rule taken [of e ?m R'])
    show "e \<noteq> NULL" using e(2) h(7) by metis
    show "core ?m = core m" unfolding core_add_count by (simp add: core_def geom_def)
    show "heap_ok ?m (insert e Own) R' Out" unfolding heap_ok_def c unfolding add_count_simps using h Cons e by auto
  qed (use run e Cons in simp_all)
qed

end
