(* ===== verification/Matras_Touch.thy ===== *)
theory Matras_Touch
  imports Matras_Inv
begin

text \<open>
  Touching a block: each of the three extents on the way to it that the head shares with the newest
  view is replaced by a copy. The layouts of the views stay as they are, the contents of all views
  stay, and afterwards the head shares none of the three extents.
\<close>

section \<open>Contents\<close>

definition ext_bytes :: "matras \<Rightarrow> addr \<Rightarrow> byte list" where
  "ext_bytes m e = map (\<lambda>j. xh_byte (mt_heap m) (e + j)) [0 ..< mt_extent_size m]"

definition view_bytes :: "matras \<Rightarrow> addr \<Rightarrow> nat \<Rightarrow> byte list option" where
  "view_bytes m w k = map_option (ext_bytes m) (lay m w (Low k))"

text \<open>Nothing a view shows has changed.\<close>

definition keeps_view :: "matras \<Rightarrow> matras \<Rightarrow> addr \<Rightarrow> bool" where
  "keeps_view m m' w \<longleftrightarrow> mv_block_count (mt_views m' w) = mv_block_count (mt_views m w) \<and> view_bytes m' w = view_bytes m w"

lemma keeps_view_trans: "keeps_view m m' w \<Longrightarrow> keeps_view m' m'' w \<Longrightarrow> keeps_view m m'' w"
  by (simp add: keeps_view_def)

lemma keeps_view_refl [simp]: "keeps_view m m w"
  by (simp add: keeps_view_def)

section \<open>States with the same array\<close>

lemma layout_core: "core m' = core m \<Longrightarrow> layout_of m' r n = layout_of m r n"
proof
  fix p assume c: "core m' = core m"
  note g = coreD(1) [OF c]
  show "layout_of m' r n p = layout_of m r n p" by (cases p) (simp_all add: layout_of_def geomD [OF g] coreD(3) [OF c])
qed

lemma lay_core: "core m' = core m \<Longrightarrow> lay m' w = lay m w"
  using layout_core [of m' m] coreD(2) [of m' m] by simp

lemma views_linked_cong: "mt_views m' = mt_views m \<Longrightarrow> views_linked m' v ws = views_linked m v ws"
  by (induction ws arbitrary: v) simp_all

lemma inv_core:
  assumes "matras_inv m vs Own R Out" and "core m' = core m" and "heap_ok m' Own' R' Out" and "Own \<subseteq> Own'"
  shows "matras_inv m' vs Own' R' Out"
proof -
  note g = geomD [OF coreD(1) [OF assms(2)]]
  note I = matras_invD [OF assms(1)] and v = coreD(2) [OF assms(2)]
  note l = layout_core [OF assms(2)]
  have "ran (lay m w) \<subseteq> Own'" if "w \<in> set (mt_self m # vs)" for w using I(9) [OF that] assms(4) by blast
  then show ?thesis unfolding matras_inv_def g l v views_linked_cong [OF v] using I assms(3) by blast
qed

lemma keeps_core: "core m' = core m \<Longrightarrow> keeps_view m m' w"
proof -
  assume c: "core m' = core m"
  have "ext_bytes m' = ext_bytes m" by (simp add: fun_eq_iff ext_bytes_def coreD(4) [OF c] geomD(3) [OF coreD(1) [OF c]])
  then show ?thesis unfolding keeps_view_def
    by (intro conjI ext) (simp_all add: view_bytes_def coreD(2) [OF c] layout_core [OF c])
qed

section \<open>Copying an extent\<close>

lemma copy_spec:
  assumes "geom_ok m" and "heap_ok m Own R Out" and "alloc_ok af (mt_extent_size m)" and "old \<in> Own"
  obtains (no_memory) m' where "matras_copy_read_view_extent af m old = Some (NULL, m')" "R = []" "core m' = core m" "heap_ok m' Own R Out"
  | (copied) e m' R' where "matras_copy_read_view_extent af m old = Some (e, m')" "e \<noteq> NULL" "e \<notin> Own" "geom m' = geom m" "mt_views m' = mt_views m"
    "heap_ok m' (insert e Own) R' Out" "R = [] \<and> R' = [] \<or> R = e # R'" "\<And>x i. x \<noteq> e \<Longrightarrow> xh_ptr (mt_heap m') x i = xh_ptr (mt_heap m) x i"
    "\<And>i. i < slots m \<Longrightarrow> xh_ptr (mt_heap m') e i = xh_ptr (mt_heap m) old i"
    "\<And>a. a \<notin> span e (mt_extent_size m) \<Longrightarrow> xh_byte (mt_heap m') a = xh_byte (mt_heap m) a" "ext_bytes m' e = ext_bytes m old"
proof (rule alloc_extent_spec [OF assms(1-3)])
  fix m' assume "matras_alloc_extent af m = Some (NULL, m')" "R = []" "core m' = core m" "heap_ok m' Own R Out"
  then show thesis by (intro no_memory [of m']) (simp_all add: matras_copy_read_view_extent_def)
next
  fix e m1 R'
  assume a: "matras_alloc_extent af m = Some (e, m1)" "e \<noteq> NULL" "e \<notin> Own" "core m1 = core m" "heap_ok m1 (insert e Own) R' Out" "R = [] \<and> R' = [] \<or> R = e # R'"
  note g = geomD [OF coreD(1) [OF a(4)]]
  let ?N = "mt_extent_size m"
  let ?h = "mt_heap m1\<lparr>xh_ptr := (xh_ptr (mt_heap m1))(e := (\<lambda>i. if 8 * i + 8 \<le> ?N then xh_ptr (mt_heap m1) old i else xh_ptr (mt_heap m1) e i)),
       xh_byte := (\<lambda>x. if e \<le> x \<and> x < e + ?N then xh_byte (mt_heap m1) (old + (x - e)) else xh_byte (mt_heap m1) x)\<rparr>"
  let ?m = "add_read_view_extent_count 1 (m1\<lparr>mt_heap := ?h\<rparr>)"
  have live: "e \<in> xh_live (mt_heap m1)" "old \<in> xh_live (mt_heap m1)" using heap_okD(1) [OF a(5)] assms(4) by auto
  have sz: "xh_size (mt_heap m1) = ?N" using geom_size(1) [OF assms(1)] g(17) by simp
  have run: "matras_copy_read_view_extent af m old = Some (e, ?m)"
    using a(1,2) live sz g(3) by (simp add: matras_copy_read_view_extent_def ext_memcpy_def)
  have gm: "geom ?m = geom m1" by (simp add: geom_def add_read_view_extent_count_def)
  have "reserved_chain ?h p R' = reserved_chain (mt_heap m1) p R'" for p
    by (rule reserved_chain_cong) (use heap_okD(2) [OF a(5)] in auto)
  then have "heap_ok (m1\<lparr>mt_heap := ?h\<rparr>) (insert e Own) R' Out" using a(5) unfolding heap_ok_def by auto
  then have hk: "heap_ok ?m (insert e Own) R' Out" by simp
  show thesis
  proof (rule copied [OF run a(2,3) _ _ hk a(6)])
    show "geom ?m = geom m" using gm coreD(1) [OF a(4)] by simp
    show "mt_views ?m = mt_views m" using coreD(2) [OF a(4)] by simp
    show "xh_ptr (mt_heap ?m) x i = xh_ptr (mt_heap m) x i" if "x \<noteq> e" for x i using that coreD(3) [OF a(4)] by simp
    show "xh_ptr (mt_heap ?m) e i = xh_ptr (mt_heap m) old i" if "i < slots m" for i
      using that coreD(3) [OF a(4)] geom_size(3) [OF assms(1)] by simp
    show "xh_byte (mt_heap ?m) x = xh_byte (mt_heap m) x" if "x \<notin> span e ?N" for x using that coreD(4) [OF a(4)] by auto
    show "ext_bytes ?m e = ext_bytes m old" using coreD(4) [OF a(4)] g(3) by (simp add: ext_bytes_def)
  qed
qed

section \<open>Linking a copy\<close>

text \<open>How the pointer to an extent at a position of the head is stored.\<close>

fun link_at :: "matras \<Rightarrow> slot_pos \<Rightarrow> addr \<Rightarrow> matras \<Rightarrow> matras option" where
  "link_at m0 Top e m = Some (upd_head (\<lambda>v. v\<lparr>mv_root := e\<rparr>) m)"
| "link_at m0 (Mid i) e m = store_slot (mv_root (mt_head m0)) i e m"
| "link_at m0 (Low k) e m = store_slot (xh_ptr (mt_heap m0) (mv_root (mt_head m0)) (k div slots m0)) (k mod slots m0) e m"

text \<open>The layout of a tree after a copy \<open>e\<close> of the extent at a position replaced it there.\<close>

lemma layout_put_top:
  assumes "geom_ok m" and "geom m' = geom m" and "n \<le> mt_capacity m" and "e \<notin> ran (layout_of m r n)" and "0 < n"
    and "\<And>x i. x \<noteq> e \<Longrightarrow> xh_ptr (mt_heap m') x i = xh_ptr (mt_heap m) x i"
    and "\<And>i. i < slots m \<Longrightarrow> xh_ptr (mt_heap m') e i = xh_ptr (mt_heap m) r i"
  shows "layout_of m' e n = (layout_of m r n)(Top \<mapsto> e)"
proof
  fix p
  note p = pos_in_tables [OF assms(1,3)] and g = geomD [OF assms(2)]
  have mid: "xh_ptr (mt_heap m) r i \<noteq> e" if "i * step1 m < n" for i
  proof -
    have "layout_of m r n (Mid i) = Some (xh_ptr (mt_heap m) r i)" using that by (simp add: layout_of_def)
    then show ?thesis using assms(4) by (auto simp: ran_def)
  qed
  show "layout_of m' e n p = ((layout_of m r n)(Top \<mapsto> e)) p"
    using assms(5) by (cases p) (simp_all add: layout_of_def g assms(7) p assms(6) mid)
qed

lemma layout_put_mid:
  assumes "geom_ok m" and "geom m' = geom m" and "n \<le> mt_capacity m" and "own_pos (layout_of m r n) (layout_of m r n)"
    and "e \<notin> ran (layout_of m r n)" and "i * step1 m < n"
    and "\<And>x j. x \<noteq> e \<Longrightarrow> x \<noteq> r \<Longrightarrow> xh_ptr (mt_heap m') x j = xh_ptr (mt_heap m) x j"
    and "\<And>j. xh_ptr (mt_heap m') r j = (if j = i then e else xh_ptr (mt_heap m) r j)"
    and "\<And>j. j < slots m \<Longrightarrow> xh_ptr (mt_heap m') e j = xh_ptr (mt_heap m) (xh_ptr (mt_heap m) r i) j"
  shows "layout_of m' r n = (layout_of m r n)(Mid i \<mapsto> e)"
proof
  fix p
  note p = pos_in_tables [OF assms(1,3)] and g = geomD [OF assms(2)]
  have l: "layout_of m r n (Mid j) = Some (xh_ptr (mt_heap m) r j)" if "j * step1 m < n" for j using that by (simp add: layout_of_def)
  have n: "0 < n" using assms(6) by simp
  then have t: "layout_of m r n Top = Some r" by (simp add: layout_of_def)
  have mid: "xh_ptr (mt_heap m) r j \<noteq> e" "xh_ptr (mt_heap m) r j \<noteq> r" if "j * step1 m < n" for j
  proof -
    show "xh_ptr (mt_heap m) r j \<noteq> e" using l [OF that] assms(5) by (auto simp: ran_def)
    show "xh_ptr (mt_heap m) r j \<noteq> r" using l [OF that] t assms(4) unfolding own_pos_def by (metis slot_pos.distinct(1))
  qed
  show "layout_of m' r n p = ((layout_of m r n)(Mid i \<mapsto> e)) p"
    using assms(6) n geom_slots_pos [OF assms(1)] by (cases p) (simp_all add: layout_of_def g assms(8,9) p assms(7) mid)
qed

lemma layout_put_low:
  assumes "geom_ok m" and "geom m' = geom m" and "n \<le> mt_capacity m" and "own_pos (layout_of m r n) (layout_of m r n)"
    and "e \<notin> ran (layout_of m r n)" and "k * step2 m < n"
  defines "e2 \<equiv> xh_ptr (mt_heap m) r (k div slots m)"
  assumes "\<And>x j. x \<noteq> e \<Longrightarrow> x \<noteq> e2 \<Longrightarrow> xh_ptr (mt_heap m') x j = xh_ptr (mt_heap m) x j"
    and "\<And>j. xh_ptr (mt_heap m') e2 j = (if j = k mod slots m then e else xh_ptr (mt_heap m) e2 j)"
  shows "layout_of m' r n = (layout_of m r n)(Low k \<mapsto> e)"
proof
  fix p
  note p = pos_in_tables [OF assms(1,3)] and g = geomD [OF assms(2)]
  have l: "layout_of m r n (Mid j) = Some (xh_ptr (mt_heap m) r j)" if "j * step1 m < n" for j using that by (simp add: layout_of_def)
  have n: "0 < n" using assms(6) by simp
  then have t: "layout_of m r n Top = Some r" by (simp add: layout_of_def)
  have le2: "layout_of m r n (Mid (k div slots m)) = Some e2" using l [OF p(3) [OF assms(6)]] by (simp add: e2_def)
  have re: "r \<noteq> e" "r \<noteq> e2"
  proof -
    show "r \<noteq> e" using t assms(5) by (auto simp: ran_def)
    show "r \<noteq> e2" using t le2 assms(4) unfolding own_pos_def by (metis slot_pos.distinct(1))
  qed
  have mid: "xh_ptr (mt_heap m) r j \<noteq> e" "xh_ptr (mt_heap m) r j = e2 \<longleftrightarrow> j = k div slots m" if "j * step1 m < n" for j
  proof -
    show "xh_ptr (mt_heap m) r j \<noteq> e" using l [OF that] assms(5) by (auto simp: ran_def)
    show "xh_ptr (mt_heap m) r j = e2 \<longleftrightarrow> j = k div slots m" using l [OF that] le2 assms(4) unfolding own_pos_def by (metis e2_def slot_pos.inject(1))
  qed
  show "layout_of m' r n p = ((layout_of m r n)(Low k \<mapsto> e)) p"
  proof (cases p)
    case (Low k')
    show ?thesis
    proof (cases "k' div slots m = k div slots m")
      case True
      have "k' mod slots m = k mod slots m \<longleftrightarrow> k' = k" using True by (metis div_mult_mod_eq)
      then show ?thesis using Low True assms(6) re by (simp add: layout_of_def g assms(8,9) flip: e2_def)
    next
      case False
      have "xh_ptr (mt_heap m') (xh_ptr (mt_heap m) r (k' div slots m)) j = xh_ptr (mt_heap m) (xh_ptr (mt_heap m) r (k' div slots m)) j" if "k' * step2 m < n" for j
        using mid [OF p(3) [OF that]] False by (intro assms(8)) simp_all
      then show ?thesis using Low False re by (auto simp: layout_of_def g assms(8))
    qed
  qed (use n re in \<open>simp_all add: layout_of_def g assms(8)\<close>)
qed

definition unshared :: "matras \<Rightarrow> addr list \<Rightarrow> slot_pos \<Rightarrow> bool" where
  "unshared m vs p \<longleftrightarrow> (\<forall>w \<in> set vs. \<not> same_at (lay m (mt_self m)) (lay m w) p)"

lemma inv_own_pos: "matras_inv m vs Own R Out \<Longrightarrow> v \<in> set (mt_self m # vs) \<Longrightarrow> w \<in> set (mt_self m # vs) \<Longrightarrow> own_pos (lay m v) (lay m w)"
proof -
  assume a: "matras_inv m vs Own R Out" "v \<in> set (mt_self m # vs)" "w \<in> set (mt_self m # vs)"
  show ?thesis by (rule cow_own [OF matras_invD(8) [OF a(1)]]) (unfold list.set_map, (rule imageI, fact a)+)
qed

lemma unshared_notin:
  assumes "matras_inv m vs Own R Out" and "unshared m vs p" and "lay m (mt_self m) p = Some x" and "w \<in> set vs"
  shows "x \<notin> ran (lay m w)"
proof
  assume "x \<in> ran (lay m w)"
  then obtain q where q: "lay m w q = Some x" by (auto simp: ran_def)
  have "own_pos (lay m (mt_self m)) (lay m w)" using inv_own_pos [OF assms(1)] assms(4) by simp
  then have "p = q" using q assms(3) unfolding own_pos_def by blast
  then show False using assms(2-4) q by (auto simp: unshared_def same_at_def)
qed

text \<open>The newest view decides whether the head shares an extent.\<close>

lemma unshared_newest:
  assumes "matras_inv m (v # vs) Own R Out" and "\<not> same_at (lay m (mt_self m)) (lay m v) p"
  shows "unshared m (v # vs) p"
  unfolding unshared_def
proof (intro ballI notI)
  fix w assume w: "w \<in> set (v # vs)" "same_at (lay m (mt_self m)) (lay m w) p"
  have "cow (slots m) (lay m (mt_self m) # lay m v # map (lay m) vs)" using matras_invD(8) [OF assms(1)] by simp
  then have "same_at (lay m (mt_self m)) (lay m v) p" by (rule cow_newest [of _ _ _ _ "lay m w"]) (use w in auto)
  with assms(2) show False by simp
qed

definition touched_at :: "matras \<Rightarrow> matras \<Rightarrow> addr list \<Rightarrow> addr set \<Rightarrow> slot_pos \<Rightarrow> addr \<Rightarrow> bool" where
  "touched_at m m' vs Out p e \<longleftrightarrow> geom m' = geom m \<and> lay m' (mt_self m) = (lay m (mt_self m))(p \<mapsto> e) \<and>
     (\<forall>w \<in> set vs. lay m' w = lay m w \<and> mt_views m' w = mt_views m w) \<and> unshared m' vs p \<and>
     (\<forall>w \<in> set (mt_self m # vs). keeps_view m m' w) \<and> (\<forall>x \<in> Out. ext_bytes m' x = ext_bytes m x) \<and>
     (\<exists>r. mt_views m' (mt_self m) = (mt_head m)\<lparr>mv_root := r\<rparr>)"

lemma heap_ok_rows:
  assumes "heap_ok m Own R Out" and "\<And>x. x \<in> set R \<Longrightarrow> T x 0 = xh_ptr (mt_heap m) x 0"
  shows "heap_ok (m\<lparr>mt_heap := (mt_heap m)\<lparr>xh_ptr := T\<rparr>\<rparr>) Own R Out"
proof -
  have "reserved_chain ((mt_heap m)\<lparr>xh_ptr := T\<rparr>) p R = reserved_chain (mt_heap m) p R" for p by (rule reserved_chain_cong) (simp add: assms(2))
  then show ?thesis using assms(1) unfolding heap_ok_def by auto
qed

lemma heap_ok_upd_view [simp]: "heap_ok (upd_view v f m) Own R Out \<longleftrightarrow> heap_ok m Own R Out"
  by (simp add: heap_ok_def upd_view_def)

lemma upd_view_simps [simp]:
  "geom (upd_view v f m) = geom m" "mt_heap (upd_view v f m) = mt_heap m" "mt_self (upd_view v f m) = mt_self m"
  "mt_views (upd_view v f m) = (mt_views m)(v := f (mt_views m v))" "layout_of (upd_view v f m) = layout_of m"
  "ext_bytes (upd_view v f m) = ext_bytes m" "mt_allocator (upd_view v f m) = mt_allocator m"
proof -
  show g: "geom (upd_view v f m) = geom m" by (simp add: geom_def upd_view_def)
  show h: "mt_heap (upd_view v f m) = mt_heap m" "mt_self (upd_view v f m) = mt_self m"
    "mt_views (upd_view v f m) = (mt_views m)(v := f (mt_views m v))" "mt_allocator (upd_view v f m) = mt_allocator m" by (simp_all add: upd_view_def)
  have "layout_of (upd_view v f m) r n p = layout_of m r n p" for r n p by (cases p) (simp_all add: layout_of_def geomD [OF g] h)
  then show "layout_of (upd_view v f m) = layout_of m" by (simp add: fun_eq_iff)
  show "ext_bytes (upd_view v f m) = ext_bytes m" by (simp add: fun_eq_iff ext_bytes_def geomD [OF g] h)
qed

text \<open>The extents of the array keep their bytes when only a fresh extent is written.\<close>

lemma ext_bytes_keep:
  assumes "heap_ok m' Own' R Out" and "geom m' = geom m" and "x \<in> Own' \<union> Out" and "e \<in> Own'" and "x \<noteq> e"
    and "\<And>a. a \<notin> span e (mt_extent_size m) \<Longrightarrow> xh_byte (mt_heap m') a = xh_byte (mt_heap m) a"
  shows "ext_bytes m' x = ext_bytes m x"
proof -
  note g = geomD [OF assms(2)]
  have d: "span x (mt_extent_size m) \<inter> span e (mt_extent_size m) = {}" using heap_okD(8) [OF assms(1), of x e] heap_okD(1) [OF assms(1)] assms(3-5) g(3) by auto
  have "xh_byte (mt_heap m') (x + j) = xh_byte (mt_heap m) (x + j)" if "j < mt_extent_size m" for j
  proof (rule assms(6))
    have "x + j \<in> span x (mt_extent_size m)" using that by simp
    with d show "x + j \<notin> span e (mt_extent_size m)" by blast
  qed
  then show ?thesis by (simp add: ext_bytes_def g)
qed

text \<open>The effect of the copy and of the link together.\<close>

lemma link_copy:
  assumes I: "matras_inv m vs Own R Out" and x: "lay m (mt_self m) p = Some x" and up: "\<And>q. below (slots m) q p \<Longrightarrow> q \<noteq> p \<Longrightarrow> unshared m vs q"
    and c: "e \<notin> Own" "geom m1 = geom m" "mt_views m1 = mt_views m" "heap_ok m1 (insert e Own) R' Out" "e \<noteq> NULL"
    "\<And>z i. z \<noteq> e \<Longrightarrow> xh_ptr (mt_heap m1) z i = xh_ptr (mt_heap m) z i" "\<And>i. i < slots m \<Longrightarrow> xh_ptr (mt_heap m1) e i = xh_ptr (mt_heap m) x i"
    and Rsub: "set R' \<subseteq> set R"
  obtains m2 where "link_at m p e m1 = Some m2" "geom m2 = geom m" "heap_ok m2 (insert e Own) R' Out" "lay m2 (mt_self m) = (lay m (mt_self m))(p \<mapsto> e)"
    "xh_byte (mt_heap m2) = xh_byte (mt_heap m1)" "\<And>w. w \<in> set vs \<Longrightarrow> lay m2 w = lay m w" "\<And>w. w \<noteq> mt_self m \<Longrightarrow> mt_views m2 w = mt_views m w"
    "\<exists>r. mt_views m2 (mt_self m) = (mt_head m)\<lparr>mv_root := r\<rparr>"
proof -
  note result = that and g = geomD [OF c(2)] and J = matras_invD [OF I]
  let ?n = "mv_block_count (mt_head m)" and ?r = "mv_root (mt_head m)"
  have self: "mt_self m \<notin> set vs" using J(3) by simp
  have cap: "?n \<le> mt_capacity m" using J(7) by simp
  have op: "own_pos (lay m (mt_self m)) (lay m (mt_self m))" by (rule inv_own_pos [OF I]) simp_all
  have fr: "e \<notin> ran (lay m w)" if "w \<in> set (mt_self m # vs)" for w using J(9) [OF that] c(1) by blast
  have n0: "0 < ?n" using x by (auto simp: layout_of_def split: if_splits)
  have live: "Own \<subseteq> xh_live (mt_heap m1)" using heap_okD(1) [OF c(4)] by auto
  have size: "8 * i + 8 \<le> xh_size (mt_heap m1) \<longleftrightarrow> i < slots m" for i using geom_size(2) [of m1 i] J(1) g(7,10) by simp
  have top: "lay m (mt_self m) Top = Some ?r" using n0 by (simp add: layout_of_def)
  have rO: "?r \<in> Own" using J(9) [of "mt_self m"] top by (auto simp: ran_def)
  have rR: "z \<notin> set R'" if "z \<in> Own" for z using heap_okD(2) [OF c(4)] that by auto
  have store: thesis
    if t: "lay m (mt_self m) q = Some t" "below (slots m) q p" "q \<noteq> p" and i: "i < slots m" and lk: "link_at m p e m1 = store_slot t i e m1"
      and lo: "\<And>m2. geom m2 = geom m \<Longrightarrow> (\<And>z j. z \<noteq> e \<Longrightarrow> z \<noteq> t \<Longrightarrow> xh_ptr (mt_heap m2) z j = xh_ptr (mt_heap m) z j) \<Longrightarrow>
        (\<And>j. xh_ptr (mt_heap m2) t j = (if j = i then e else xh_ptr (mt_heap m) t j)) \<Longrightarrow>
        (\<And>j. j < slots m \<Longrightarrow> xh_ptr (mt_heap m2) e j = xh_ptr (mt_heap m) x j) \<Longrightarrow> layout_of m2 ?r ?n = (layout_of m ?r ?n)(p \<mapsto> e)" for q t i
  proof -
    have tO: "t \<in> Own" using J(9) [of "mt_self m"] t(1) by (auto simp: ran_def)
    then have te: "t \<noteq> e" using c(1) by auto
    let ?h = "(mt_heap m1)\<lparr>xh_ptr := (xh_ptr (mt_heap m1))(t := (xh_ptr (mt_heap m1) t)(i := e))\<rparr>"
    let ?m = "m1\<lparr>mt_heap := ?h\<rparr>"
    have gm: "geom ?m = geom m" using c(2) by (simp add: geom_def)
    have T: "xh_ptr (mt_heap ?m) z j = xh_ptr (mt_heap m) z j" if "z \<noteq> e" "z \<noteq> t" for z j using that c(6) by simp
    show thesis
    proof (rule result [of ?m])
      show "link_at m p e m1 = Some ?m" using lk tO live i size by (auto simp: store_slot_def ext_store_def)
      show "geom ?m = geom m" by (rule gm)
      show "heap_ok ?m (insert e Own) R' Out" by (rule heap_ok_rows [OF c(4)]) (use rR [OF tO] in auto)
      have "layout_of ?m ?r ?n = (layout_of m ?r ?n)(p \<mapsto> e)" by (rule lo [OF gm T]) (use te c(6,7) in auto)
      then show "lay ?m (mt_self m) = (lay m (mt_self m))(p \<mapsto> e)" using c(3) by simp
      show "lay ?m w = lay m w" if w: "w \<in> set vs" for w
      proof -
        have "t \<notin> ran (lay m w)" by (rule unshared_notin [OF I up [OF t(2,3)] t(1) w])
        moreover have "e \<notin> ran (lay m w)" using fr w by simp
        moreover have "mv_block_count (mt_views m w) \<le> mt_capacity m" using J(7) w by simp
        ultimately have "layout_of ?m (mv_root (mt_views m w)) (mv_block_count (mt_views m w)) = lay m w"
          by (intro layout_frame [OF J(1) gm] T) auto
        then show ?thesis using c(3) by simp
      qed
      show "\<exists>r. mt_views ?m (mt_self m) = (mt_head m)\<lparr>mv_root := r\<rparr>" using c(3) by (intro exI [of _ ?r]) simp
    qed (use c(3) in simp_all)
  qed
  show thesis
  proof (cases p)
    case Top
    let ?m = "upd_head (\<lambda>v. v\<lparr>mv_root := e\<rparr>) m1"
    have xr: "x = ?r" using x top Top by simp
    show thesis
    proof (rule result [of ?m])
      show "link_at m p e m1 = Some ?m" using Top by simp
      have "layout_of m1 e ?n = (layout_of m ?r ?n)(Top \<mapsto> e)"
        by (rule layout_put_top [OF J(1) c(2) cap fr n0 c(6)]) (use c(7) xr in auto)
      then show "lay ?m (mt_self m) = (lay m (mt_self m))(p \<mapsto> e)" using Top g(1) c(3) by simp
      show "lay ?m w = lay m w" if w: "w \<in> set vs" for w
      proof -
        have "layout_of m1 (mv_root (mt_views m w)) (mv_block_count (mt_views m w)) = lay m w"
          using fr [of w] J(7) [of w] w by (intro layout_frame [OF J(1) c(2)] c(6)) auto
        then show ?thesis using c(3) g(1) self w by auto
      qed
    qed (use c g in auto)
  next
    case (Mid i)
    have i: "i * step1 m < ?n" "x = xh_ptr (mt_heap m) ?r i" using x Mid by (auto simp: layout_of_def split: if_splits)
    show thesis
    proof (rule store [of Top ?r i])
      fix m2 assume a: "geom m2 = geom m" "\<And>z j. z \<noteq> e \<Longrightarrow> z \<noteq> ?r \<Longrightarrow> xh_ptr (mt_heap m2) z j = xh_ptr (mt_heap m) z j"
        "\<And>j. xh_ptr (mt_heap m2) ?r j = (if j = i then e else xh_ptr (mt_heap m) ?r j)" "\<And>j. j < slots m \<Longrightarrow> xh_ptr (mt_heap m2) e j = xh_ptr (mt_heap m) x j"
      show "layout_of m2 ?r ?n = (layout_of m ?r ?n)(p \<mapsto> e)" unfolding Mid
        by (rule layout_put_mid [OF J(1) a(1) cap op _ i(1)]) (use fr a i(2) in auto)
    qed (use top Mid pos_in_tables(1) [OF J(1) cap i(1)] in auto)
  next
    case (Low k)
    have k: "k * step2 m < ?n" using x Low by (auto simp: layout_of_def split: if_splits)
    let ?i = "k div slots m"
    have i: "?i * step1 m < ?n" by (rule pos_in_tables(3) [OF J(1) cap k])
    then have mid: "lay m (mt_self m) (Mid ?i) = Some (xh_ptr (mt_heap m) ?r ?i)" by (simp add: layout_of_def)
    show thesis
    proof (rule store [of "Mid ?i" "xh_ptr (mt_heap m) ?r ?i" "k mod slots m"])
      fix m2 assume a: "geom m2 = geom m" "\<And>z j. z \<noteq> e \<Longrightarrow> z \<noteq> xh_ptr (mt_heap m) ?r ?i \<Longrightarrow> xh_ptr (mt_heap m2) z j = xh_ptr (mt_heap m) z j"
        "\<And>j. xh_ptr (mt_heap m2) (xh_ptr (mt_heap m) ?r ?i) j = (if j = k mod slots m then e else xh_ptr (mt_heap m) (xh_ptr (mt_heap m) ?r ?i) j)"
      show "layout_of m2 ?r ?n = (layout_of m ?r ?n)(p \<mapsto> e)" unfolding Low
        by (rule layout_put_low [OF J(1) a(1) cap op _ k]) (use fr a in auto)
    qed (use mid Low geom_slots_pos [OF J(1)] in auto)
  qed
qed

lemma views_linked_frame: "(\<And>w. w \<in> set ws \<Longrightarrow> mt_views m' w = mt_views m w) \<Longrightarrow> mv_prev (mt_views m' v) = mv_prev (mt_views m v) \<Longrightarrow> views_linked m' v ws = views_linked m v ws"
  by (induction ws arbitrary: v) simp_all

text \<open>The invariant after the head put an extent of its own at a position.\<close>

lemma inv_put:
  assumes I: "matras_inv m vs Own R Out" and "geom m' = geom m" and "heap_ok m' (insert e Own) R' Out" and "e \<notin> Own"
    and "lay m' (mt_self m) = (lay m (mt_self m))(p \<mapsto> e)" and "\<And>w. w \<in> set vs \<Longrightarrow> lay m' w = lay m w"
    and "\<And>w. w \<noteq> mt_self m \<Longrightarrow> mt_views m' w = mt_views m w" and "\<exists>r. mt_views m' (mt_self m) = (mt_head m)\<lparr>mv_root := r\<rparr>"
  shows "matras_inv m' vs (insert e Own) R' Out"
proof -
  note J = matras_invD [OF I] and g = geomD [OF assms(2)]
  let ?f = "lay m (mt_self m)"
  have self: "mt_self m \<notin> set vs" using J(3) by simp
  obtain r where r: "mt_views m' (mt_self m) = (mt_head m)\<lparr>mv_root := r\<rparr>" using assms(8) by blast
  have v: "mt_views m' w = mt_views m w" if "w \<in> set vs" for w using assms(7) self that by metis
  have fr: "e \<notin> ran (lay m w)" if "w \<in> set (mt_self m # vs)" for w using J(9) [OF that] assms(4) by blast
  have op: "own_pos ?f ?f" by (rule inv_own_pos [OF I]) simp_all
  have "own_pos (?f(p \<mapsto> e)) (?f(p \<mapsto> e))" using op fr [of "mt_self m"] unfolding own_pos_def by (auto simp: ran_def split: if_splits)
  moreover have "cow (slots m) (?f # map (lay m) vs)" using J(8) by simp
  ultimately have "cow (slots m) ((?f(p \<mapsto> e)) # map (lay m) vs)"
    using fr by (elim cow_head) (auto split: if_splits)
  moreover have mp: "map (lay m') vs = map (lay m) vs" by (rule map_cong) (simp_all add: assms(6))
  ultimately have cow: "cow (slots m) (map (lay m') (mt_self m # vs))" by (simp only: list.map assms(5))
  have "ran (lay m' w) \<subseteq> insert e Own" if "w \<in> set (mt_self m # vs)" for w
  proof (cases "w = mt_self m")
    case True
    have "ran (?f(p \<mapsto> e)) \<subseteq> insert e (ran ?f)" by (auto simp: ran_def)
    then show ?thesis using True assms(5) J(9) [OF that] by auto
  next
    case False
    then show ?thesis using assms(6) J(9) [OF that] that by auto
  qed
  moreover have "views_linked m' (mt_self m) vs" using J(6) r by (subst views_linked_frame [OF v]) simp_all
  ultimately show ?thesis unfolding matras_inv_def g using J(1,3-5,7) assms(3) cow r v by auto
qed

lemma touch_level_spec:
  assumes I: "matras_inv m (v # vs) Own R Out" and af: "alloc_ok af (mt_extent_size m)" and x: "lay m (mt_self m) p = Some x" and y: "lay m v p = Some y"
    and up: "\<And>q. below (slots m) q p \<Longrightarrow> q \<noteq> p \<Longrightarrow> unshared m (v # vs) q"
  obtains (no_memory) m' where "touch_level af x y (link_at m p) m = Some (None, m')" "R = []" "x = y" "core m' = core m" "matras_inv m' (v # vs) Own R Out"
  | (touched) e m' R' where "touch_level af x y (link_at m p) m = Some (Some e, m')" "matras_inv m' (v # vs) (insert e Own) R' Out" "touched_at m m' (v # vs) Out p e"
    "length R \<le> length R' + (if x = y then 1 else 0)" "R = [] \<longrightarrow> R' = []" "x \<noteq> y \<longrightarrow> m' = m"
proof (cases "x = y")
  case False
  have "\<not> same_at (lay m (mt_self m)) (lay m v) p" using x y False by (auto simp: same_at_def)
  then have u: "unshared m (v # vs) p" by (rule unshared_newest [OF I])
  have "x \<in> Own" using matras_invD(9) [OF I, of "mt_self m"] x by (auto simp: ran_def)
  then show thesis using False u x I by (intro touched [of x m R]) (auto simp: touch_level_def touched_at_def insert_absorb fun_upd_idem_iff intro: exI [of _ "mv_root (mt_head m)"])
next
  case True
  note J = matras_invD [OF I]
  have xO: "x \<in> Own" using J(9) [of "mt_self m"] x by (auto simp: ran_def)
  show thesis
  proof (rule copy_spec [OF J(1,2) af xO])
    fix m' assume a: "matras_copy_read_view_extent af m x = Some (NULL, m')" "R = []" "core m' = core m" "heap_ok m' Own R Out"
    then show thesis using True inv_core [OF I a(3,4)] by (intro no_memory [of m']) (simp_all add: touch_level_def)
  next
    fix e m1 R' assume c: "matras_copy_read_view_extent af m x = Some (e, m1)" "e \<noteq> NULL" "e \<notin> Own" "geom m1 = geom m" "mt_views m1 = mt_views m"
      "heap_ok m1 (insert e Own) R' Out" "R = [] \<and> R' = [] \<or> R = e # R'" "\<And>z i. z \<noteq> e \<Longrightarrow> xh_ptr (mt_heap m1) z i = xh_ptr (mt_heap m) z i"
      "\<And>i. i < slots m \<Longrightarrow> xh_ptr (mt_heap m1) e i = xh_ptr (mt_heap m) x i"
      "\<And>a. a \<notin> span e (mt_extent_size m) \<Longrightarrow> xh_byte (mt_heap m1) a = xh_byte (mt_heap m) a" "ext_bytes m1 e = ext_bytes m x"
    have Rsub: "set R' \<subseteq> set R" using c(7) by auto
    obtain m2 where l: "link_at m p e m1 = Some m2" "geom m2 = geom m" "heap_ok m2 (insert e Own) R' Out" "lay m2 (mt_self m) = (lay m (mt_self m))(p \<mapsto> e)"
      "xh_byte (mt_heap m2) = xh_byte (mt_heap m1)" "\<And>w. w \<in> set (v # vs) \<Longrightarrow> lay m2 w = lay m w" "\<And>w. w \<noteq> mt_self m \<Longrightarrow> mt_views m2 w = mt_views m w"
      "\<exists>r. mt_views m2 (mt_self m) = (mt_head m)\<lparr>mv_root := r\<rparr>"
      by (rule link_copy [OF I x up c(3-6,2,8,9) Rsub]) blast+
    note g = geomD [OF l(2)]
    have kb: "ext_bytes m2 z = ext_bytes m z" if "z \<in> Own \<union> Out" for z
      using that c(3,10) l(5) heap_okD(3) [OF c(6)] by (intro ext_bytes_keep [OF l(3,2), of _ e]) auto
    have eb: "ext_bytes m2 e = ext_bytes m x" using c(11) l(5) g(3) geomD(3) [OF c(4)] by (simp add: ext_bytes_def)
    have keep: "keeps_view m m2 w" if w: "w \<in> set (mt_self m # v # vs)" for w
      unfolding keeps_view_def
    proof (intro conjI ext)
      show "mv_block_count (mt_views m2 w) = mv_block_count (mt_views m w)" using l(7,8) by (cases "w = mt_self m") auto
      fix k
      show "view_bytes m2 w k = view_bytes m w k"
      proof (cases "lay m w (Low k)")
        case None
        then show ?thesis using w l(4,6) x by (cases "w = mt_self m") (auto simp: view_bytes_def)
      next
        case (Some z)
        then have "ext_bytes m2 z = ext_bytes m z" using J(9) [OF w] by (intro kb) (auto simp: ran_def)
        then show ?thesis using Some w l(4,6) x eb by (cases "w = mt_self m") (auto simp: view_bytes_def)
      qed
    qed
    have inv: "matras_inv m2 (v # vs) (insert e Own) R' Out" by (rule inv_put [OF I l(2,3) c(3) l(4,6,7,8)])
    have "\<not> same_at (lay m2 (mt_self m2)) (lay m2 w) p" if "w \<in> set (v # vs)" for w
      using l(4) l(6) [OF that] J(9) [of w] c(3) that g(1) by (auto simp: same_at_def ran_def)
    moreover have "mt_views m2 w = mt_views m w" if "w \<in> set (v # vs)" for w using J(3) that by (intro l(7)) auto
    ultimately have "touched_at m m2 (v # vs) Out p e"
      using l(2,4,6,8) keep kb unfolding touched_at_def unshared_def g(1) by auto
    then show thesis using c(1,2,7) True l(1) inv
      by (intro touched [of e m2 R']) (auto simp: touch_level_def)
  qed
qed

section \<open>Touching a block\<close>

text \<open>
  What touching changes: extents of the head only. Replaced extents stay with the views, the copies
  belong to the head.
\<close>

definition touch_rel :: "matras \<Rightarrow> matras \<Rightarrow> addr list \<Rightarrow> addr set \<Rightarrow> addr set \<Rightarrow> addr set \<Rightarrow> bool" where
  "touch_rel m m' vs Own Own' Out \<longleftrightarrow> geom m' = geom m \<and> (\<forall>w \<in> set vs. lay m' w = lay m w \<and> mt_views m' w = mt_views m w) \<and>
     dom (lay m' (mt_self m)) = dom (lay m (mt_self m)) \<and> (\<forall>w \<in> set (mt_self m # vs). keeps_view m m' w) \<and> (\<forall>x \<in> Out. ext_bytes m' x = ext_bytes m x) \<and>
     (\<exists>r. mt_views m' (mt_self m) = (mt_head m)\<lparr>mv_root := r\<rparr>) \<and> Own \<subseteq> Own' \<and> Own' \<subseteq> Own \<union> ran (lay m' (mt_self m)) \<and>
     ran (lay m (mt_self m)) \<subseteq> ran (lay m' (mt_self m)) \<union> (\<Union>w \<in> set vs. ran (lay m w)) \<and>
     (\<forall>w \<in> set vs. \<forall>p. same_at (lay m' (mt_self m)) (lay m' w) p \<longrightarrow> same_at (lay m (mt_self m)) (lay m w) p)"

lemma touch_rel_core:
  assumes "core m' = core m"
  shows "touch_rel m m' vs Own Own Out"
proof -
  note g = coreD(1) [OF assms] and v = coreD(2) [OF assms]
  have "ext_bytes m' x = ext_bytes m x" for x by (simp add: ext_bytes_def coreD(4) [OF assms] geomD(3) [OF g])
  then show ?thesis unfolding touch_rel_def layout_core [OF assms] v using keeps_core [OF assms] g
    by (auto intro: exI [of _ "mv_root (mt_head m)"])
qed

lemma touch_rel_at:
  assumes "touched_at m m' (v # vs) Out p e" and "lay m (mt_self m) p = Some x" and "lay m v p = Some y" and "x \<noteq> y \<longrightarrow> m' = m" and "ran (lay m (mt_self m)) \<subseteq> Own"
  shows "touch_rel m m' (v # vs) Own (insert e Own) Out"
proof -
  let ?f = "lay m (mt_self m)"
  have l: "lay m' (mt_self m) = ?f(p \<mapsto> e)" using assms(1) by (simp add: touched_at_def)
  have "e \<in> ran (?f(p \<mapsto> e))" by (rule ranI [of _ p]) simp
  moreover have "ran ?f \<subseteq> ran (?f(p \<mapsto> e)) \<union> ran (lay m v)"
  proof
    fix z assume "z \<in> ran ?f"
    then obtain q where q: "?f q = Some z" by (auto simp: ran_def)
    show "z \<in> ran (?f(p \<mapsto> e)) \<union> ran (lay m v)"
    proof (cases "q = p \<and> x = y")
      case True
      then show ?thesis using q assms(2,3) by (auto simp: ran_def)
    next
      case False
      have "(?f(p \<mapsto> e)) q = Some z"
      proof (cases "q = p")
        case True
        then have "m' = m" using False assms(4) by simp
        then show ?thesis using q l by simp
      qed (use q in simp)
      then show ?thesis by (auto intro: ranI)
    qed
  qed
  moreover have "dom (?f(p \<mapsto> e)) = dom ?f" using assms(2) by auto
  moreover have "same_at ?f (lay m w) q" if w: "w \<in> set (v # vs)" and s: "same_at (?f(p \<mapsto> e)) (lay m' w) q" for w q
  proof -
    have t: "lay m' w = lay m w" "mt_self m' = mt_self m" using assms(1) w geomD(1) [of m' m] unfolding touched_at_def by blast+
    have "\<not> same_at (?f(p \<mapsto> e)) (lay m' w) p" using assms(1) w unfolding touched_at_def unshared_def t(2) l by blast
    then have "q \<noteq> p" using s by blast
    then show ?thesis using s unfolding t(1) by (simp add: same_at_def)
  qed
  moreover have "geom m' = geom m" "\<forall>w \<in> set (v # vs). lay m' w = lay m w \<and> mt_views m' w = mt_views m w" "\<forall>w \<in> set (mt_self m # v # vs). keeps_view m m' w"
    "\<forall>x \<in> Out. ext_bytes m' x = ext_bytes m x" "\<exists>r. mt_views m' (mt_self m) = (mt_head m)\<lparr>mv_root := r\<rparr>" using assms(1) unfolding touched_at_def by blast+
  ultimately show ?thesis unfolding touch_rel_def l list.set by blast
qed

lemma touch_relD:
  assumes "touch_rel m m' vs Own Own' Out"
  shows "geom m' = geom m" "w \<in> set vs \<Longrightarrow> lay m' w = lay m w" "w \<in> set vs \<Longrightarrow> mt_views m' w = mt_views m w"
    "dom (lay m' (mt_self m)) = dom (lay m (mt_self m))" "w \<in> set (mt_self m # vs) \<Longrightarrow> keeps_view m m' w" "x \<in> Out \<Longrightarrow> ext_bytes m' x = ext_bytes m x"
    "\<exists>r. mt_views m' (mt_self m) = (mt_head m)\<lparr>mv_root := r\<rparr>" "Own \<subseteq> Own'" "Own' \<subseteq> Own \<union> ran (lay m' (mt_self m))"
    "ran (lay m (mt_self m)) \<subseteq> ran (lay m' (mt_self m)) \<union> (\<Union>w \<in> set vs. ran (lay m w))"
    "w \<in> set vs \<Longrightarrow> same_at (lay m' (mt_self m)) (lay m' w) p \<Longrightarrow> same_at (lay m (mt_self m)) (lay m w) p"
  using assms unfolding touch_rel_def by blast+

lemma touch_rel_trans:
  assumes "touch_rel m m1 vs Own Own1 Out" and "touch_rel m1 m2 vs Own1 Own2 Out" and "\<And>w. w \<in> set vs \<Longrightarrow> ran (lay m w) \<subseteq> Own"
  shows "touch_rel m m2 vs Own Own2 Out"
proof -
  note A = touch_relD [OF assms(1)] and B = touch_relD [OF assms(2)]
  have s: "mt_self m1 = mt_self m" by (rule geomD(1) [OF A(1)])
  have u: "(\<Union>w \<in> set vs. ran (lay m1 w)) = (\<Union>w \<in> set vs. ran (lay m w))" by (rule SUP_cong) (simp_all add: A(2))
  obtain r r2 where r: "mt_views m1 (mt_self m) = (mt_head m)\<lparr>mv_root := r\<rparr>" "mt_views m2 (mt_self m) = (mt_head m1)\<lparr>mv_root := r2\<rparr>"
    using A(7) B(7) unfolding s by blast
  have rs: "ran (lay m1 (mt_self m)) \<subseteq> ran (lay m2 (mt_self m)) \<union> (\<Union>w \<in> set vs. ran (lay m w))" using B(10) unfolding s u .
  have vsO: "(\<Union>w \<in> set vs. ran (lay m w)) \<subseteq> Own" using assms(3) by blast
  show ?thesis
    unfolding touch_rel_def
  proof (intro conjI ballI allI impI)
    show "same_at (lay m (mt_self m)) (lay m w) p" if "w \<in> set vs" "same_at (lay m2 (mt_self m)) (lay m2 w) p" for w p
      using that A(11) B(11) unfolding s by blast
    show "geom m2 = geom m" using A(1) B(1) by simp
    show "dom (lay m2 (mt_self m)) = dom (lay m (mt_self m))" using A(4) B(4) unfolding s by simp
    show "\<exists>r. mt_views m2 (mt_self m) = (mt_head m)\<lparr>mv_root := r\<rparr>" using r s by (intro exI [of _ r2]) simp
    show "Own \<subseteq> Own2" using A(8) B(8) by (rule subset_trans)
    show "Own2 \<subseteq> Own \<union> ran (lay m2 (mt_self m))" using A(9) B(9) rs vsO unfolding s by blast
    show "ran (lay m (mt_self m)) \<subseteq> ran (lay m2 (mt_self m)) \<union> (\<Union>w \<in> set vs. ran (lay m w))" using A(10) rs by blast
    show "keeps_view m m2 w" if "w \<in> set (mt_self m # vs)" for w
      by (rule keeps_view_trans [OF A(5) [OF that]]) (rule B(5), use that s in simp)
    show "ext_bytes m2 x = ext_bytes m x" if "x \<in> Out" for x using A(6) [OF that] B(6) [OF that] by simp
    show "lay m2 w = lay m w" "mt_views m2 w = mt_views m w" if "w \<in> set vs" for w using A(2,3) [OF that] B(2,3) [OF that] by simp_all
  qed
qed

lemma inv_live: "matras_inv m vs Own R Out \<Longrightarrow> w \<in> set (mt_self m # vs) \<Longrightarrow> lay m w p = Some x \<Longrightarrow> x \<in> Own \<and> x \<in> xh_live (mt_heap m) \<and> x \<noteq> NULL"
proof -
  assume a: "matras_inv m vs Own R Out" "w \<in> set (mt_self m # vs)" "lay m w p = Some x"
  have "x \<in> Own" using matras_invD(9) [OF a(1,2)] a(3) by (auto simp: ran_def)
  moreover note heap_okD(1,7) [OF matras_invD(2) [OF a(1)]]
  ultimately show ?thesis by (metis Un_iff)
qed

lemma load_mid:
  assumes I: "matras_inv m vs Own R Out" and w: "w \<in> set (mt_self m # vs)" and x: "lay m w (Mid i) = Some x"
  shows "load_slot m (mv_root (mt_views m w)) i = Some x" and "lay m w Top = Some (mv_root (mt_views m w))"
proof -
  have n: "i * step1 m < mv_block_count (mt_views m w)" "x = xh_ptr (mt_heap m) (mv_root (mt_views m w)) i" using x by (auto simp: layout_of_def split: if_splits)
  show t: "lay m w Top = Some (mv_root (mt_views m w))" using n(1) by (simp add: layout_of_def)
  have "i < slots m" by (rule pos_in_tables(1) [OF matras_invD(1) [OF I] matras_invD(7) [OF I w] n(1)])
  then show "load_slot m (mv_root (mt_views m w)) i = Some x"
    using inv_live [OF I w t] n(2) geom_size(2) [OF matras_invD(1) [OF I], of i] by (simp add: load_slot_def ext_load_def)
qed

lemma load_low:
  assumes I: "matras_inv m vs Own R Out" and w: "w \<in> set (mt_self m # vs)" and x: "lay m w (Low k) = Some x" and e2: "lay m w (Mid (k div slots m)) = Some e2"
  shows "load_slot m e2 (k mod slots m) = Some x"
proof -
  have "x = xh_ptr (mt_heap m) e2 (k mod slots m)" using x e2 by (auto simp: layout_of_def split: if_splits)
  moreover have "k mod slots m < slots m" using geom_slots_pos [OF matras_invD(1) [OF I]] by simp
  ultimately show ?thesis using inv_live [OF I w e2] geom_size(2) [OF matras_invD(1) [OF I]] by (simp add: load_slot_def ext_load_def)
qed

lemma lay_low_mid:
  assumes I: "matras_inv m vs Own R Out" and w: "w \<in> set (mt_self m # vs)" and x: "lay m w (Low k) = Some x"
  obtains e2 where "lay m w (Mid (k div slots m)) = Some e2"
proof
  have "k * step2 m < mv_block_count (mt_views m w)" using x by (auto simp: layout_of_def split: if_splits)
  then have "k div slots m * step1 m < mv_block_count (mt_views m w)" by (rule pos_in_tables(3) [OF matras_invD(1) [OF I] matras_invD(7) [OF I w]])
  then show "lay m w (Mid (k div slots m)) = Some (xh_ptr (mt_heap m) (mv_root (mt_views m w)) (k div slots m))" by (simp add: layout_of_def)
qed

text \<open>The parts of an id are the positions on the way to its block.\<close>

lemma id_parts:
  assumes "geom_ok m"
  shows "id_n1 m i = i div step2 m div slots m" and "id_n2 m i = i div step2 m mod slots m" and "id_n3 m i = i mod step2 m"
    and "id_n3 m i * mt_block_size m mod 2 ^ 32 = i mod step2 m * mt_block_size m" and "i mod step2 m * mt_block_size m + mt_block_size m \<le> mt_extent_size m"
proof -
  note g = geom_simps [OF assms]
  show "id_n1 m i = i div step2 m div slots m" unfolding g(17) g(1) by (metis div_mult2_eq mult.commute)
  show "id_n2 m i = i div step2 m mod slots m" "id_n3 m i = i mod step2 m" using g by auto
  have "Suc (i mod step2 m) * mt_block_size m \<le> step2 m * mt_block_size m" using g(3) by (intro mult_le_mono1) (simp add: Suc_leI)
  then show le: "i mod step2 m * mt_block_size m + mt_block_size m \<le> mt_extent_size m" unfolding g(11) by simp
  have "i mod step2 m * mt_block_size m < 2 ^ 32" using le g(12,13) by linarith
  then show "id_n3 m i * mt_block_size m mod 2 ^ 32 = i mod step2 m * mt_block_size m" using g(19) by simp
qed

definition root_shared :: "matras \<Rightarrow> addr \<Rightarrow> nat" where
  "root_shared m v = (if mv_root (mt_head m) = mv_root (mt_views m v) then 1 else 0)"

definition path_unshared :: "matras \<Rightarrow> addr list \<Rightarrow> nat \<Rightarrow> bool" where
  "path_unshared m vs k \<longleftrightarrow> unshared m vs Top \<and> unshared m vs (Mid (k div slots m)) \<and> unshared m vs (Low k)"

text \<open>Whether a position is shared stays when the head changes at another one.\<close>

lemma unshared_put:
  assumes "touched_at m m' vs Out p e" and "q \<noteq> p" and "unshared m vs q"
  shows "unshared m' vs q"
proof -
  have "mt_self m' = mt_self m" using assms(1) geomD(1) unfolding touched_at_def by blast
  then show ?thesis using assms unfolding unshared_def touched_at_def by (auto simp: same_at_def)
qed

text \<open>The last two levels of \<open>matras_touch_no_check\<close>.\<close>

definition touch_tail :: "alloc_func \<Rightarrow> matras \<Rightarrow> addr \<Rightarrow> nat \<Rightarrow> nat \<Rightarrow> (addr \<times> matras) option" where
  "touch_tail af m v k n3 = do {
       extent2 \<leftarrow> load_slot m (mv_root (mt_head m)) (k div slots m);
       extent2p \<leftarrow> load_slot m (mv_root (mt_views m v)) (k div slots m);
       (r, m') \<leftarrow> touch_level af extent2 extent2p (store_slot (mv_root (mt_head m)) (k div slots m)) m;
       case r of None \<Rightarrow> Some (NULL, m') | Some extent2 \<Rightarrow> do {
         extent3 \<leftarrow> load_slot m' extent2 (k mod slots m);
         extent3p \<leftarrow> load_slot m' extent2p (k mod slots m);
         (r, m') \<leftarrow> touch_level af extent3 extent3p (store_slot extent2 (k mod slots m)) m';
         case r of None \<Rightarrow> Some (NULL, m')
         | Some extent3 \<Rightarrow> Some (extent3 + n3 * mt_block_size m' mod 2 ^ 32, m') } }"

lemma touch_mid_low:
  assumes I: "matras_inv m (v # vs) Own R Out" and af: "alloc_ok af (mt_extent_size m)" and x: "lay m (mt_self m) (Low k) = Some x" and y: "lay m v (Low k) = Some y"
    and top: "unshared m (v # vs) Top"
  obtains (no_memory) m' Own' where "touch_tail af m v k n3 = Some (NULL, m')" "matras_inv m' (v # vs) Own' [] Out" "touch_rel m m' (v # vs) Own Own' Out" "length R < 2"
  | (touched) e m' Own' R' where "touch_tail af m v k n3 = Some (e + n3 * mt_block_size m mod 2 ^ 32, m')" "matras_inv m' (v # vs) Own' R' Out" "touch_rel m m' (v # vs) Own Own' Out"
    "lay m' (mt_self m) (Low k) = Some e" "path_unshared m' (v # vs) k" "length R \<le> length R' + 2" "R = [] \<longrightarrow> R' = []"
proof -
  let ?i = "k div slots m"
  have self: "mt_self m \<in> set (mt_self m # v # vs)" "v \<in> set (mt_self m # v # vs)" by simp_all
  obtain x2 where x2: "lay m (mt_self m) (Mid ?i) = Some x2" by (rule lay_low_mid [OF I self(1) x])
  obtain y2 where y2: "lay m v (Mid ?i) = Some y2" by (rule lay_low_mid [OF I self(2) y])
  note ld = load_mid(1) [OF I self(1) x2] load_mid(1) [OF I self(2) y2]
  have lk: "store_slot (mv_root (mt_head m)) ?i = link_at m (Mid ?i)" by (rule ext)+ simp
  have up: "unshared m (v # vs) q" if "below (slots m) q (Mid ?i)" "q \<noteq> Mid ?i" for q using that top by (cases q) auto
  have sub: "ran (lay m w) \<subseteq> Own" if "w \<in> set (mt_self m # v # vs)" for w by (rule matras_invD(9) [OF I that])
  show thesis
  proof (rule touch_level_spec [OF I af x2 y2 up])
    fix m' assume a: "touch_level af x2 y2 (link_at m (Mid ?i)) m = Some (None, m')" "R = []" "core m' = core m" "matras_inv m' (v # vs) Own R Out"
    then show thesis using touch_rel_core [OF a(3)] ld by (intro no_memory [of m' Own]) (simp_all add: touch_tail_def lk)
  next
    fix e2 m1 R1
    assume a: "touch_level af x2 y2 (link_at m (Mid ?i)) m = Some (Some e2, m1)" "matras_inv m1 (v # vs) (insert e2 Own) R1 Out" "touched_at m m1 (v # vs) Out (Mid ?i) e2"
      "length R \<le> length R1 + (if x2 = y2 then 1 else 0)" "R = [] \<longrightarrow> R1 = []" "x2 \<noteq> y2 \<longrightarrow> m1 = m"
    have rel: "touch_rel m m1 (v # vs) Own (insert e2 Own) Out" by (rule touch_rel_at [OF a(3) x2 y2 a(6) sub]) simp
    note T = touch_relD [OF rel] and g = geomD [OF touch_relD(1) [OF rel]]
    have l1: "lay m1 (mt_self m) = (lay m (mt_self m))(Mid ?i \<mapsto> e2)" using a(3) by (simp add: touched_at_def)
    have x1: "lay m1 (mt_self m1) (Low k) = Some x" "lay m1 (mt_self m1) (Mid (k div slots m1)) = Some e2" using l1 x g(1,7) by simp_all
    have y1: "lay m1 v (Low k) = Some y" "lay m1 v (Mid (k div slots m1)) = Some y2" using T(2) [of v] y y2 g(7) by simp_all
    have s1: "mt_self m1 \<in> set (mt_self m1 # v # vs)" "v \<in> set (mt_self m1 # v # vs)" by simp_all
    note ld1 = load_low [OF a(2) s1(1) x1] load_low [OF a(2) s1(2) y1]
    have u1: "unshared m1 (v # vs) Top" by (rule unshared_put [OF a(3) _ top]) simp
    have u2: "unshared m1 (v # vs) (Mid ?i)" using a(3) by (simp add: touched_at_def)
    have e2: "e2 = xh_ptr (mt_heap m1) (mv_root (mt_head m1)) (k div slots m1)" using x1(2) by (auto simp: layout_of_def split: if_splits)
    then have lk1: "store_slot e2 (k mod slots m) = link_at m1 (Low k)" by (intro ext) (simp add: g(7))
    have up1: "unshared m1 (v # vs) q" if "below (slots m1) q (Low k)" "q \<noteq> Low k" for q using that u1 u2 g(7) by (cases q) auto
    have af1: "alloc_ok af (mt_extent_size m1)" using af g(3) by simp
    have sub1: "ran (lay m1 w) \<subseteq> insert e2 Own" if "w \<in> set (mt_self m1 # v # vs)" for w by (rule matras_invD(9) [OF a(2) that])
    show thesis
    proof (rule touch_level_spec [OF a(2) af1 x1(1) y1(1) up1])
      fix m' assume b: "touch_level af x y (link_at m1 (Low k)) m1 = Some (None, m')" "R1 = []" "core m' = core m1" "matras_inv m' (v # vs) (insert e2 Own) R1 Out"
      have "touch_rel m m' (v # vs) Own (insert e2 Own) Out" by (rule touch_rel_trans [OF rel touch_rel_core [OF b(3)] sub]) simp
      then show thesis using b a(1,4) ld ld1 g(7) lk1 by (intro no_memory [of m' "insert e2 Own"]) (auto simp: touch_tail_def lk split: if_splits)
    next
      fix e m' R' assume b: "touch_level af x y (link_at m1 (Low k)) m1 = Some (Some e, m')" "matras_inv m' (v # vs) (insert e (insert e2 Own)) R' Out"
        "touched_at m1 m' (v # vs) Out (Low k) e" "length R1 \<le> length R' + (if x = y then 1 else 0)" "R1 = [] \<longrightarrow> R' = []" "x \<noteq> y \<longrightarrow> m' = m1"
      have "touch_rel m1 m' (v # vs) (insert e2 Own) (insert e (insert e2 Own)) Out" by (rule touch_rel_at [OF b(3) x1(1) y1(1) b(6) sub1]) simp
      then have r: "touch_rel m m' (v # vs) Own (insert e (insert e2 Own)) Out" by (rule touch_rel_trans [OF rel _ sub]) simp
      have gs: "slots m' = slots m" "mt_block_size m' = mt_block_size m" by (rule geomD [OF touch_relD(1) [OF r]])+
      have "unshared m' (v # vs) Top" "unshared m' (v # vs) (Mid ?i)" by (rule unshared_put [OF b(3) _ u1], simp, rule unshared_put [OF b(3) _ u2], simp)
      moreover have "unshared m' (v # vs) (Low k)" using b(3) by (simp add: touched_at_def)
      ultimately have "path_unshared m' (v # vs) k" by (simp add: path_unshared_def gs)
      moreover have "lay m' (mt_self m) (Low k) = Some e" using b(3) g(1) by (simp add: touched_at_def)
      ultimately show thesis using b a(1,4,5) r ld ld1 g(7) lk1 gs by (intro touched [of e m' "insert e (insert e2 Own)" R']) (auto simp: touch_tail_def lk split: if_splits)
    qed
  qed
qed

lemma needs_touch_eq:
  assumes I: "matras_inv m vs Own R Out" and i: "i < mv_block_count (mt_head m)"
  shows "matras_needs_touch m i = Some (case vs of [] \<Rightarrow> False | v # _ \<Rightarrow> i div step2 m * step2 m < mv_block_count (mt_views m v))"
proof (cases vs)
  case Nil
  then show ?thesis using matras_invD(6) [OF I] i by (simp add: matras_needs_touch_def)
next
  case (Cons v ws)
  let ?n = "mv_block_count (mt_views m v)"
  have p: "mv_prev (mt_head m) = v" "v \<noteq> NULL" using matras_invD(4,6) [OF I] Cons by auto
  have n: "?n \<le> 2 ^ 32" using matras_invD(7) [OF I, of v] geom_capacity(2) [OF matras_invD(1) [OF I]] Cons by simp
  have s: "0 < step2 m" by (rule geom_step2_pos [OF matras_invD(1) [OF I]])
  have d: "drop_bit (shift2 m) j = j div step2 m" for j by (simp add: drop_bit_eq_div step2_def)
  have "\<not> (?n - 1) div step2 m < i div step2 m \<longleftrightarrow> i div step2 m * step2 m < ?n" if "?n \<noteq> 0"
    using that s by (auto simp: not_less less_eq_div_iff_mult_less_eq)
  moreover have "(?n - 1) mod 2 ^ 32 = ?n - 1" if "?n \<noteq> 0" using that n by simp
  ultimately show ?thesis using p i Cons by (simp add: matras_needs_touch_def d)
qed

lemma touch_no_check_spec:
  assumes I: "matras_inv m (v # vs) Own R Out" and af: "alloc_ok af (mt_extent_size m)" and i: "i < mv_block_count (mt_head m)" "i div step2 m * step2 m < mv_block_count (mt_views m v)"
  obtains (no_memory) m' Own' where "matras_touch_no_check af m i = Some (NULL, m')" "matras_inv m' (v # vs) Own' [] Out" "touch_rel m m' (v # vs) Own Own' Out"
    "length R < 2 + root_shared m v"
  | (touched) e m' Own' R' where "matras_touch_no_check af m i = Some (e + i mod step2 m * mt_block_size m, m')" "matras_inv m' (v # vs) Own' R' Out" "touch_rel m m' (v # vs) Own Own' Out"
    "lay m' (mt_self m) (Low (i div step2 m)) = Some e" "path_unshared m' (v # vs) (i div step2 m)" "length R \<le> length R' + 2 + root_shared m v" "R = [] \<longrightarrow> R' = []"
proof -
  let ?k = "i div step2 m"
  note J = matras_invD [OF I] and p = id_parts [OF matras_invD(1) [OF I]]
  have "?k * step2 m \<le> i" by simp
  then have k: "?k * step2 m < mv_block_count (mt_head m)" using i(1) by (rule le_less_trans)
  have n: "0 < mv_block_count (mt_head m)" "0 < mv_block_count (mt_views m v)" using i by simp_all
  have x: "lay m (mt_self m) Top = Some (mv_root (mt_head m))" and y: "lay m v Top = Some (mv_root (mt_views m v))" using n by (simp_all add: layout_of_def)
  have prev: "mv_prev (mt_head m) = v" using J(6) by simp
  have nt: "matras_needs_touch m i = Some True" using needs_touch_eq [OF I i(1)] i(2) by simp
  have lk: "(\<lambda>e m. Some (upd_head (\<lambda>v. v\<lparr>mv_root := e\<rparr>) m)) = link_at m Top" by (rule ext)+ simp
  have up: "unshared m (v # vs) q" if "below (slots m) q Top" "q \<noteq> Top" for q using that by (cases q) auto
  have sub: "ran (lay m w) \<subseteq> Own" if "w \<in> set (mt_self m # v # vs)" for w by (rule J(9) [OF that])
  show thesis
  proof (rule touch_level_spec [OF I af x y up])
    fix m' assume a: "touch_level af (mv_root (mt_head m)) (mv_root (mt_views m v)) (link_at m Top) m = Some (None, m')" "R = []" "mv_root (mt_head m) = mv_root (mt_views m v)" "core m' = core m"
      "matras_inv m' (v # vs) Own R Out"
    then show thesis using touch_rel_core [OF a(4)] nt prev by (intro no_memory [of m' Own]) (simp_all add: matras_touch_no_check_def Let_def lk)
  next
    fix e1 m1 R1
    assume a: "touch_level af (mv_root (mt_head m)) (mv_root (mt_views m v)) (link_at m Top) m = Some (Some e1, m1)" "matras_inv m1 (v # vs) (insert e1 Own) R1 Out" "touched_at m m1 (v # vs) Out Top e1"
      "length R \<le> length R1 + (if mv_root (mt_head m) = mv_root (mt_views m v) then 1 else 0)" "R = [] \<longrightarrow> R1 = []" "mv_root (mt_head m) \<noteq> mv_root (mt_views m v) \<longrightarrow> m1 = m"
    have rel: "touch_rel m m1 (v # vs) Own (insert e1 Own) Out" by (rule touch_rel_at [OF a(3) x y a(6) sub]) simp
    note T = touch_relD [OF rel] and g = geomD [OF touch_relD(1) [OF rel]]
    have v1: "mt_views m1 v = mt_views m v" using T(3) [of v] by simp
    have l1: "lay m1 (mt_self m) = (lay m (mt_self m))(Top \<mapsto> e1)" using a(3) by (simp add: touched_at_def)
    then have "lay m1 (mt_self m) Top = Some e1" by simp
    then have e1: "e1 = mv_root (mt_head m1)" using g(1) by (auto simp: layout_of_def split: if_splits)
    obtain x3 where x3: "lay m1 (mt_self m1) (Low ?k) = Some x3" using l1 k g(1) by (simp add: layout_of_def)
    have y3: "lay m1 v (Low ?k) = Some (ext_at m (mv_root (mt_views m v)) (Low ?k))" using T(2) [of v] i(2) by (simp add: layout_of_def)
    have u1: "unshared m1 (v # vs) Top" using a(3) by (simp add: touched_at_def)
    have af1: "alloc_ok af (mt_extent_size m1)" using af g(3) by simp
    have run: "matras_touch_no_check af m i = touch_tail af m1 v ?k (id_n3 m i)"
      using a(1) nt prev v1 e1 unfolding matras_touch_no_check_def touch_tail_def g(7) p(1,2) lk Let_def by simp
    have sub1: "\<And>w. w \<in> set (v # vs) \<Longrightarrow> ran (lay m w) \<subseteq> Own" using sub by simp
    show thesis
    proof (rule touch_mid_low [OF a(2) af1 x3 y3 u1, of "id_n3 m i", folded run])
      fix m' Own' assume b: "matras_touch_no_check af m i = Some (NULL, m')" "matras_inv m' (v # vs) Own' [] Out" "touch_rel m1 m' (v # vs) (insert e1 Own) Own' Out" "length R1 < 2"
      show thesis by (rule no_memory [OF b(1,2) touch_rel_trans [OF rel b(3) sub1]]) (use a(4) b(4) in \<open>simp_all add: root_shared_def split: if_splits\<close>)
    next
      fix e m' Own' R' assume b: "matras_touch_no_check af m i = Some (e + id_n3 m i * mt_block_size m1 mod 2 ^ 32, m')" "matras_inv m' (v # vs) Own' R' Out" "touch_rel m1 m' (v # vs) (insert e1 Own) Own' Out"
        "lay m' (mt_self m1) (Low ?k) = Some e" "path_unshared m' (v # vs) ?k" "length R1 \<le> length R' + 2" "R1 = [] \<longrightarrow> R' = []"
      have r: "touch_rel m m' (v # vs) Own Own' Out" by (rule touch_rel_trans [OF rel b(3) sub1])
      have "id_n3 m i * mt_block_size m1 mod 2 ^ 32 = i mod step2 m * mt_block_size m" using p(4) g(2) by simp
      then show thesis using a(4,5) b r g(1) by (intro touched [of e m' Own' R']) (simp_all add: root_shared_def split: if_splits)
    qed
  qed
qed

lemma view_get_no_check_spec:
  assumes I: "matras_inv m vs Own R Out" and w: "w \<in> set (mt_self m # vs)" and i: "i < mv_block_count (mt_views m w)"
  obtains e where "lay m w (Low (i div step2 m)) = Some e" "matras_view_get_no_check m w i = Some (e + i mod step2 m * mt_block_size m)"
proof -
  let ?k = "i div step2 m"
  note p = id_parts [OF matras_invD(1) [OF I]]
  have "?k * step2 m \<le> i" by simp
  then have "?k * step2 m < mv_block_count (mt_views m w)" using i by (rule le_less_trans)
  then obtain e where e: "lay m w (Low ?k) = Some e" by (simp add: layout_of_def)
  obtain e2 where e2: "lay m w (Mid (?k div slots m)) = Some e2" by (rule lay_low_mid [OF I w e])
  show thesis
    by (rule that [OF e]) (unfold matras_view_get_no_check_def p(1,2,4) load_mid(1) [OF I w e2], use i load_low [OF I w e e2] in simp)
qed

definition root_cost :: "matras \<Rightarrow> addr list \<Rightarrow> nat" where
  "root_cost m vs = (case vs of [] \<Rightarrow> 0 | v # _ \<Rightarrow> root_shared m v)"

lemma unshared_no_pos: "lay m (mt_self m) p = None \<or> (case vs of [] \<Rightarrow> True | v # _ \<Rightarrow> lay m v p = None) \<Longrightarrow> matras_inv m vs Own R Out \<Longrightarrow> unshared m vs p"
proof (cases vs)
  case (Cons v ws)
  assume "lay m (mt_self m) p = None \<or> (case vs of [] \<Rightarrow> True | v # _ \<Rightarrow> lay m v p = None)" "matras_inv m vs Own R Out"
  then show ?thesis using unshared_newest [of m v ws Own R Out p] Cons by (auto simp: same_at_def)
qed (simp add: unshared_def)

lemma touch_spec:
  assumes I: "matras_inv m vs Own R Out" and af: "alloc_ok af (mt_extent_size m)" and i: "i < mv_block_count (mt_head m)"
  obtains (no_memory) m' Own' where "matras_touch af m i = Some (NULL, m')" "matras_inv m' vs Own' [] Out" "touch_rel m m' vs Own Own' Out"
    "length R < 2 + root_cost m vs"
  | (touched) e m' Own' R' where "matras_touch af m i = Some (e + i mod step2 m * mt_block_size m, m')" "matras_inv m' vs Own' R' Out" "touch_rel m m' vs Own Own' Out"
    "lay m' (mt_self m) (Low (i div step2 m)) = Some e" "e \<noteq> NULL"
    "\<And>q. below (slots m) q (Low (i div step2 m)) \<Longrightarrow> pos_start m q = i div step2 m * step2 m \<Longrightarrow> unshared m' vs q"
    "length R + root_cost m' vs \<le> length R' + 2 + root_cost m vs"
proof -
  let ?k = "i div step2 m"
  have n0: "0 < mv_block_count (mt_head m)" using i by simp
  show thesis
  proof (cases "\<exists>v ws. vs = v # ws \<and> ?k * step2 m < mv_block_count (mt_views m v)")
    case True
    then obtain v ws where v: "vs = v # ws" "?k * step2 m < mv_block_count (mt_views m v)" by blast
    have I': "matras_inv m (v # ws) Own R Out" using I v(1) by simp
    have run: "matras_touch af m i = matras_touch_no_check af m i" using needs_touch_eq [OF I i] i v by (simp add: matras_touch_def)
    show thesis
    proof (rule touch_no_check_spec [OF I' af i v(2)])
      fix m' Own' assume a: "matras_touch_no_check af m i = Some (NULL, m')" "matras_inv m' (v # ws) Own' [] Out" "touch_rel m m' (v # ws) Own Own' Out" "length R < 2 + root_shared m v"
      then show thesis using v(1) run by (intro no_memory [of m' Own']) (simp_all add: root_cost_def)
    next
      fix e m' Own' R' assume a: "matras_touch_no_check af m i = Some (e + i mod step2 m * mt_block_size m, m')" "matras_inv m' (v # ws) Own' R' Out" "touch_rel m m' (v # ws) Own Own' Out"
        "lay m' (mt_self m) (Low ?k) = Some e" "path_unshared m' (v # ws) ?k" "length R \<le> length R' + 2 + root_shared m v" "R = [] \<longrightarrow> R' = []"
      note T = touch_relD [OF a(3)] and g = geomD [OF touch_relD(1) [OF a(3)]]
      have c: "mv_block_count (mt_head m') = mv_block_count (mt_head m)" "mv_block_count (mt_views m' v) = mv_block_count (mt_views m v)"
        using T(5) [of "mt_self m"] T(5) [of v] g(1) by (simp_all add: keeps_view_def)
      have "\<not> same_at (lay m' (mt_self m')) (lay m' v) Top" using a(5) by (simp add: path_unshared_def unshared_def)
      then have "root_shared m' v = 0" using n0 v(2) c by (auto simp: root_shared_def same_at_def layout_of_def)
      moreover have "unshared m' (v # ws) q" if "below (slots m) q (Low ?k)" for q using that a(5) g(7) by (cases q) (auto simp: path_unshared_def)
      moreover have "e \<noteq> NULL" using inv_live [OF a(2), of "mt_self m'" "Low ?k" e] a(4) g(1) by simp
      ultimately show thesis using v(1) run a by (intro touched [of e m' Own' R']) (simp_all add: root_cost_def)
    qed
  next
    case False
    then have nt: "matras_needs_touch m i = Some False" using needs_touch_eq [OF I i] by (cases vs) auto
    obtain e where e: "lay m (mt_self m) (Low ?k) = Some e" "matras_view_get_no_check m (mt_self m) i = Some (e + i mod step2 m * mt_block_size m)"
      by (rule view_get_no_check_spec [OF I _ i]) simp
    have "e \<noteq> NULL" using inv_live [OF I _ e(1)] by simp
    moreover have "unshared m vs q" if q: "pos_start m q = ?k * step2 m" for q
      by (rule unshared_no_pos [OF _ I]) (use False q in \<open>auto simp: layout_of_def split: list.splits\<close>)
    ultimately show thesis using nt e i I touch_rel_core [of m m vs Own Out] by (intro touched [of e m Own R]) (simp_all add: matras_touch_def matras_get_def)
  qed
qed

end
