(* ===== verification/Matras_Blocks.thy ===== *)
theory Matras_Blocks
  imports Matras_Touch
begin

text \<open>
  Allocating and deallocating blocks. New extents are linked into tables that the head may share
  with read views, in slots that no view uses yet; a deallocated block is touched first, so
  that the extents that go are those of the head alone.
\<close>

section \<open>Storing into unused slots\<close>

fun child :: "nat \<Rightarrow> slot_pos \<Rightarrow> nat \<Rightarrow> slot_pos" where
  "child K Top i = Mid i"
| "child K (Mid j) i = Low (j * K + i)"
| "child K (Low k) i = Top"

text \<open>A slot in which the head has nothing is not read by any view.\<close>

lemma layout_slot_frame:
  assumes I: "matras_inv m vs Own R Out" and P: "lay m (mt_self m) P = Some t" "P = Top \<or> (\<exists>j. P = Mid j)" and i: "i < slots m"
    and Q: "lay m (mt_self m) (child (slots m) P i) = None" and gm: "geom m' = geom m"
    and T: "\<And>x j. (x, j) \<noteq> (t, i) \<Longrightarrow> xh_ptr (mt_heap m') x j = xh_ptr (mt_heap m) x j" and w: "w \<in> set (mt_self m # vs)"
  shows "layout_of m' (mv_root (mt_views m w)) (mv_block_count (mt_views m w)) = lay m w"
proof
  fix p
  note J = matras_invD [OF I] and g = geomD [OF gm]
  let ?r = "mv_root (mt_views m w)" and ?n = "mv_block_count (mt_views m w)"
  note tb = pos_in_tables [OF J(1) J(7) [OF w]]
  have op: "own_pos (lay m (mt_self m)) (lay m w)" by (rule inv_own_pos [OF I _ w]) simp
  have grown: "lay m (mt_self m) q \<noteq> None" if "same_at (lay m (mt_self m)) (lay m w) P" "below (slots m) P q" "lay m w q \<noteq> None" for q
  proof (cases "w = mt_self m")
    case False
    then have "grown (slots m) (lay m (mt_self m)) (lay m w)" using J(8) w by auto
    then show ?thesis using that unfolding grown_def by blast
  qed (use that in simp)
  have sh: "P = p \<and> same_at (lay m (mt_self m)) (lay m w) P" if "lay m w p = Some t" for p
    using op P(1) that unfolding own_pos_def same_at_def by blast
  have top: "lay m w Top = Some ?r" if "0 < ?n" using that by (simp add: layout_of_def)
  have mid: "lay m w (Mid j) = Some (xh_ptr (mt_heap m) ?r j)" if "j * step1 m < ?n" for j using that by (simp add: layout_of_def)
  have ne1: "(?r, j) \<noteq> (t, i)" if "j * step1 m < ?n" for j
  proof
    assume e: "(?r, j) = (t, i)"
    then have "P = Top \<and> same_at (lay m (mt_self m)) (lay m w) P" using sh top that by auto
    then have "lay m (mt_self m) (Mid j) \<noteq> None" using grown [of "Mid j"] mid [OF that] by auto
    then show False using Q e \<open>P = Top \<and> _\<close> by simp
  qed
  have ne2: "(xh_ptr (mt_heap m) ?r (k div slots m), k mod slots m) \<noteq> (t, i)" if k: "k * step2 m < ?n" for k
  proof
    assume e: "(xh_ptr (mt_heap m) ?r (k div slots m), k mod slots m) = (t, i)"
    then have s: "P = Mid (k div slots m)" "same_at (lay m (mt_self m)) (lay m w) P" using sh [of "Mid (k div slots m)"] mid [OF tb(3) [OF k]] by auto
    have "lay m w (Low k) \<noteq> None" using k by (simp add: layout_of_def)
    then have "lay m (mt_self m) (Low k) \<noteq> None" using grown [OF s(2)] s(1) by simp
    moreover have "child (slots m) P i = Low k" using s(1) e by auto
    ultimately show False using Q by simp
  qed
  have r1: "xh_ptr (mt_heap m') ?r j = xh_ptr (mt_heap m) ?r j" if "j * step1 m < ?n" for j using T ne1 [OF that] by blast
  have r2: "xh_ptr (mt_heap m') (xh_ptr (mt_heap m) ?r (k div slots m)) (k mod slots m) = xh_ptr (mt_heap m) (xh_ptr (mt_heap m) ?r (k div slots m)) (k mod slots m)"
    if "k * step2 m < ?n" for k using T ne2 [OF that] by blast
  show "layout_of m' ?r ?n p = lay m w p"
    using r1 r2 tb(3) by (cases p) (simp_all add: layout_of_def g)
qed

text \<open>States that differ in slots that nobody reads.\<close>

definition grow_rel :: "matras \<Rightarrow> matras \<Rightarrow> addr list \<Rightarrow> bool" where
  "grow_rel m m' vs \<longleftrightarrow> geom m' = geom m \<and> xh_byte (mt_heap m') = xh_byte (mt_heap m) \<and> (\<forall>w. w \<noteq> mt_self m \<longrightarrow> mt_views m' w = mt_views m w) \<and>
     (\<exists>r. mt_views m' (mt_self m) = (mt_head m)\<lparr>mv_root := r\<rparr>) \<and> (\<forall>w \<in> set (mt_self m # vs). lay m' w = lay m w)"

lemma grow_relD:
  assumes "grow_rel m m' vs"
  shows "geom m' = geom m" "xh_byte (mt_heap m') = xh_byte (mt_heap m)" "w \<noteq> mt_self m \<Longrightarrow> mt_views m' w = mt_views m w"
    "\<exists>r. mt_views m' (mt_self m) = (mt_head m)\<lparr>mv_root := r\<rparr>" "w \<in> set (mt_self m # vs) \<Longrightarrow> lay m' w = lay m w"
  using assms unfolding grow_rel_def by blast+

lemma grow_rel_core: "core m' = core m \<Longrightarrow> grow_rel m m' vs"
proof -
  assume c: "core m' = core m"
  show ?thesis unfolding grow_rel_def layout_core [OF c] coreD(2) [OF c] using coreD(1,4) [OF c] by (auto intro: exI [of _ "mv_root (mt_head m)"])
qed

lemma grow_rel_trans:
  assumes "grow_rel m m1 vs" and "grow_rel m1 m2 vs"
  shows "grow_rel m m2 vs"
proof -
  note A = grow_relD [OF assms(1)] and B = grow_relD [OF assms(2)]
  have s: "mt_self m1 = mt_self m" by (rule geomD(1) [OF A(1)])
  obtain r r2 where "mt_views m1 (mt_self m) = (mt_head m)\<lparr>mv_root := r\<rparr>" "mt_views m2 (mt_self m) = (mt_views m1 (mt_self m))\<lparr>mv_root := r2\<rparr>"
    using A(4) B(4) unfolding s by blast
  then have "mt_views m2 (mt_self m) = (mt_head m)\<lparr>mv_root := r2\<rparr>" by simp
  then show ?thesis unfolding grow_rel_def using A(1,2,3,5) B(1,2,3,5) unfolding s by auto
qed

lemma grow_rel_inv:
  assumes I: "matras_inv m vs Own R Out" and "grow_rel m m' vs" and "heap_ok m' Own' R' Out" and sub: "\<And>w. w \<in> set (mt_self m # vs) \<Longrightarrow> ran (lay m w) \<subseteq> Own'"
  shows "matras_inv m' vs Own' R' Out"
proof -
  note J = matras_invD [OF I] and G = grow_relD [OF assms(2)] and g = geomD [OF grow_relD(1) [OF assms(2)]]
  obtain r where r: "mt_views m' (mt_self m) = (mt_head m)\<lparr>mv_root := r\<rparr>" using G(4) by blast
  have v: "mt_views m' w = mt_views m w" if "w \<in> set vs" for w using J(3) that by (intro G(3)) auto
  have mp: "map (lay m') (mt_self m # vs) = map (lay m) (mt_self m # vs)" by (rule map_cong [OF refl G(5)])
  have cow: "cow (slots m) (map (lay m') (mt_self m # vs))" unfolding mp by (rule J(8))
  have rs: "ran (lay m' w) \<subseteq> Own'" if "w \<in> set (mt_self m # vs)" for w unfolding G(5) [OF that] by (rule sub [OF that])
  have "views_linked m' (mt_self m) vs" using J(6) r by (subst views_linked_frame [OF v]) simp_all
  moreover have "mv_block_count (mt_views m' w) \<le> mt_capacity m" if "w \<in> set (mt_self m # vs)" for w using J(7) [OF that] r v that by auto
  ultimately show ?thesis unfolding matras_inv_def g using J(1,3-5) assms(3) cow rs r by auto
qed

lemma store_run:
  assumes "geom_ok m" and "heap_ok m Own R Out" and "t \<in> Own" and "i < slots m"
  obtains m' where "store_slot t i e m = Some m'" "geom m' = geom m" "mt_views m' = mt_views m" "xh_byte (mt_heap m') = xh_byte (mt_heap m)" "heap_ok m' Own R Out"
    "\<And>x j. (x, j) \<noteq> (t, i) \<Longrightarrow> xh_ptr (mt_heap m') x j = xh_ptr (mt_heap m) x j" "xh_ptr (mt_heap m') t i = e"
proof -
  let ?h = "(mt_heap m)\<lparr>xh_ptr := (xh_ptr (mt_heap m))(t := (xh_ptr (mt_heap m) t)(i := e))\<rparr>"
  have "t \<in> xh_live (mt_heap m)" "t \<notin> set R" using heap_okD(1,2) [OF assms(2)] assms(3) by auto
  moreover from this have "heap_ok (m\<lparr>mt_heap := ?h\<rparr>) Own R Out" by (intro heap_ok_rows [OF assms(2)]) auto
  ultimately show thesis using assms(4) geom_size(2) [OF assms(1), of i]
    by (intro that [of "m\<lparr>mt_heap := ?h\<rparr>"]) (auto simp: store_slot_def ext_store_def geom_def)
qed

lemma store_new_spec:
  assumes I: "matras_inv m vs Own R Out" and P: "lay m (mt_self m) P = Some t" "P = Top \<or> (\<exists>j. P = Mid j)" and i: "i < slots m"
    and Q: "lay m (mt_self m) (child (slots m) P i) = None"
  obtains m' where "store_slot t i e m = Some m'" "grow_rel m m' vs" "matras_inv m' vs Own R Out" "mt_views m' = mt_views m"
    "\<And>x j. (x, j) \<noteq> (t, i) \<Longrightarrow> xh_ptr (mt_heap m') x j = xh_ptr (mt_heap m) x j" "xh_ptr (mt_heap m') t i = e"
proof -
  note J = matras_invD [OF I]
  have tO: "t \<in> Own" using inv_live [OF I _ P(1)] by simp
  obtain m' where s: "store_slot t i e m = Some m'" "geom m' = geom m" "mt_views m' = mt_views m" "xh_byte (mt_heap m') = xh_byte (mt_heap m)" "heap_ok m' Own R Out"
    "\<And>x j. (x, j) \<noteq> (t, i) \<Longrightarrow> xh_ptr (mt_heap m') x j = xh_ptr (mt_heap m) x j" "xh_ptr (mt_heap m') t i = e"
    by (rule store_run [OF J(1,2) tO i]) blast
  have "lay m' w = lay m w" if "w \<in> set (mt_self m # vs)" for w using layout_slot_frame [OF I P i Q s(2,6) that] s(3) by simp
  then have "grow_rel m m' vs" unfolding grow_rel_def s(3) using s(2,4) by (auto intro: exI [of _ "mv_root (mt_head m)"])
  then show thesis using s grow_rel_inv [OF I _ s(5) J(9)] by (intro that [of m']) auto
qed

text \<open>A new extent that is in no layout yet.\<close>

lemma store_fresh_spec:
  assumes I: "matras_inv m vs Own R Out" and t: "t \<in> Own" "\<And>w. w \<in> set (mt_self m # vs) \<Longrightarrow> t \<notin> ran (lay m w)" and i: "i < slots m"
  obtains m' where "store_slot t i e m = Some m'" "grow_rel m m' vs" "matras_inv m' vs Own R Out" "mt_views m' = mt_views m"
    "\<And>x j. (x, j) \<noteq> (t, i) \<Longrightarrow> xh_ptr (mt_heap m') x j = xh_ptr (mt_heap m) x j" "xh_ptr (mt_heap m') t i = e"
proof -
  note J = matras_invD [OF I]
  obtain m' where s: "store_slot t i e m = Some m'" "geom m' = geom m" "mt_views m' = mt_views m" "xh_byte (mt_heap m') = xh_byte (mt_heap m)" "heap_ok m' Own R Out"
    "\<And>x j. (x, j) \<noteq> (t, i) \<Longrightarrow> xh_ptr (mt_heap m') x j = xh_ptr (mt_heap m) x j" "xh_ptr (mt_heap m') t i = e"
    by (rule store_run [OF J(1,2) t(1) i]) blast
  have "lay m' w = lay m w" if w: "w \<in> set (mt_self m # vs)" for w
  proof -
    have "layout_of m' (mv_root (mt_views m w)) (mv_block_count (mt_views m w)) = lay m w"
      by (rule layout_frame [OF J(1) s(2) J(7) [OF w]]) (rule s(6), use t(2) [OF w] in auto)
    then show ?thesis using s(3) by simp
  qed
  then have "grow_rel m m' vs" unfolding grow_rel_def s(3) using s(2,4) by (auto intro: exI [of _ "mv_root (mt_head m)"])
  then show thesis using s grow_rel_inv [OF I _ s(5) J(9)] by (intro that [of m']) auto
qed

lemma inv_alloc_extent:
  assumes I: "matras_inv m vs Own R Out" and af: "alloc_ok af (mt_extent_size m)"
  obtains (no_memory) m' where "matras_alloc_extent af m = Some (NULL, m')" "R = []" "core m' = core m" "matras_inv m' vs Own R Out"
  | (taken) e m' R' where "matras_alloc_extent af m = Some (e, m')" "e \<noteq> NULL" "e \<notin> Own" "core m' = core m" "matras_inv m' vs (insert e Own) R' Out"
    "R = [] \<longrightarrow> R' = []"
  using alloc_extent_spec [OF matras_invD(1,2) [OF I] af] inv_core [OF I] by (metis insertI2 subsetI list.distinct(1) subset_refl)

lemma inv_free_extent:
  assumes I: "matras_inv m vs Own R Out" and e: "e \<in> Own" "\<And>w. w \<in> set (mt_self m # vs) \<Longrightarrow> e \<notin> ran (lay m w)"
  obtains m' where "matras_free_extent m e = Some m'" "core m' = core m" "matras_inv m' vs (Own - {e}) R Out"
proof (rule free_extent_spec [OF matras_invD(2) [OF I] e(1)])
  fix m' assume a: "matras_free_extent m e = Some m'" "core m' = core m" "heap_ok m' (Own - {e}) R Out"
  have "matras_inv m' vs (Own - {e}) R Out"
    by (rule grow_rel_inv [OF I grow_rel_core [OF a(2)] a(3)]) (use matras_invD(9) [OF I] e(2) in blast)
  then show thesis using a that by blast
qed

section \<open>Allocation\<close>

definition fresh_ext :: "matras \<Rightarrow> addr list \<Rightarrow> addr \<Rightarrow> bool" where
  "fresh_ext m vs e \<longleftrightarrow> (\<forall>w \<in> set (mt_self m # vs). e \<notin> ran (lay m w))"

lemma fresh_extD: "fresh_ext m vs e \<Longrightarrow> w \<in> set (mt_self m # vs) \<Longrightarrow> e \<notin> ran (lay m w)"
  unfolding fresh_ext_def by blast

lemma fresh_grow: "grow_rel m m' vs \<Longrightarrow> fresh_ext m' vs e \<longleftrightarrow> fresh_ext m vs e"
  unfolding fresh_ext_def using geomD(1) [OF grow_relD(1)] grow_relD(5) by (metis (no_types, lifting))

lemma fresh_new: "matras_inv m vs Own R Out \<Longrightarrow> e \<notin> Own \<Longrightarrow> fresh_ext m vs e"
  unfolding fresh_ext_def using matras_invD(9) by blast

text \<open>Where a pointer to a new extent may be stored: in an unused slot of a table of the head or in a new table.\<close>

definition free_slot :: "matras \<Rightarrow> addr list \<Rightarrow> addr set \<Rightarrow> addr \<Rightarrow> nat \<Rightarrow> bool" where
  "free_slot m vs Own t i \<longleftrightarrow> i < slots m \<and> (t \<in> Own \<and> fresh_ext m vs t \<or>
     (\<exists>P. lay m (mt_self m) P = Some t \<and> (P = Top \<or> (\<exists>j. P = Mid j)) \<and> lay m (mt_self m) (child (slots m) P i) = None))"

lemma store_free_spec:
  assumes I: "matras_inv m vs Own R Out" and "free_slot m vs Own t i"
  obtains m' where "store_slot t i e m = Some m'" "grow_rel m m' vs" "matras_inv m' vs Own R Out" "mt_views m' = mt_views m"
    "\<And>x j. (x, j) \<noteq> (t, i) \<Longrightarrow> xh_ptr (mt_heap m') x j = xh_ptr (mt_heap m) x j" "xh_ptr (mt_heap m') t i = e"
proof -
  have i: "i < slots m" using assms(2) by (simp add: free_slot_def)
  from assms(2) consider "t \<in> Own" "fresh_ext m vs t"
    | P where "lay m (mt_self m) P = Some t" "P = Top \<or> (\<exists>j. P = Mid j)" "lay m (mt_self m) (child (slots m) P i) = None"
    unfolding free_slot_def by blast
  then show thesis
  proof cases
    case 1
    show thesis by (rule store_fresh_spec [OF I 1(1) fresh_extD [OF 1(2)] i, of e]) (use that in blast)+
  next
    case 2
    show thesis by (rule store_new_spec [OF I 2(1,2) i 2(3), of e]) (use that in blast)+
  qed
qed

lemma free_slot_grow: "grow_rel m m' vs \<Longrightarrow> Own \<subseteq> Own' \<Longrightarrow> free_slot m vs Own t i \<Longrightarrow> free_slot m' vs Own' t i"
proof -
  assume a: "grow_rel m m' vs" "Own \<subseteq> Own'" "free_slot m vs Own t i"
  note g = geomD [OF grow_relD(1) [OF a(1)]]
  have "lay m' (mt_self m) = lay m (mt_self m)" using grow_relD(5) [OF a(1)] by simp
  then show ?thesis using a(2,3) unfolding free_slot_def fresh_grow [OF a(1)] g by (metis subsetD)
qed

text \<open>The steps of \<open>matras_alloc_internal\<close> for a block that starts a new extent; \<open>f1\<close> and \<open>f2\<close> tell whether the tables are new.\<close>

definition alloc_low :: "alloc_func \<Rightarrow> matras \<Rightarrow> bool \<Rightarrow> bool \<Rightarrow> addr \<Rightarrow> addr \<Rightarrow> nat \<Rightarrow> nat \<Rightarrow> (addr \<times> matras) option" where
  "alloc_low af m f1 f2 e1 e2 n2 n3 = do {
     (extent3, m) \<leftarrow> matras_alloc_extent af m;
     if extent3 = NULL then do {
       m \<leftarrow> (if f1 then matras_free_extent m e1 else Some m);
       m \<leftarrow> (if f2 then matras_free_extent m e2 else Some m);
       Some (NULL, m) }
     else do {
       m \<leftarrow> store_slot e2 n2 extent3 m;
       Some (extent3 + n3 * mt_block_size m mod 2 ^ 32, m) } }"

definition drop_new :: "bool \<Rightarrow> addr \<Rightarrow> addr set \<Rightarrow> addr set" where
  "drop_new f e S = (if f then S - {e} else S)"

lemma free_new_spec:
  assumes I: "matras_inv m vs Own R Out" and "f \<Longrightarrow> e \<in> Own \<and> fresh_ext m vs e"
  obtains m' where "(if f then matras_free_extent m e else Some m) = Some m'" "core m' = core m" "matras_inv m' vs (drop_new f e Own) R Out"
proof (cases f)
  case True
  show thesis by (rule inv_free_extent [OF I, of e]) (use assms(2) True that fresh_extD in \<open>auto simp: drop_new_def\<close>)
qed (use that [of m] I in \<open>simp_all add: drop_new_def\<close>)

lemma alloc_low_spec:
  assumes I: "matras_inv m vs Own R Out" and af: "alloc_ok af (mt_extent_size m)"
    and f: "f1 \<Longrightarrow> e1 \<in> Own \<and> fresh_ext m vs e1" "f2 \<Longrightarrow> e2 \<in> Own \<and> fresh_ext m vs e2" "f1 \<Longrightarrow> f2 \<and> e1 \<noteq> e2" and fs: "free_slot m vs Own e2 n2"
  obtains (no_memory) m' R' where "alloc_low af m f1 f2 e1 e2 n2 n3 = Some (NULL, m')" "grow_rel m m' vs" "matras_inv m' vs (drop_new f2 e2 (drop_new f1 e1 Own)) R' Out"
  | (taken) e3 m' R' where "alloc_low af m f1 f2 e1 e2 n2 n3 = Some (e3 + n3 * mt_block_size m mod 2 ^ 32, m')" "grow_rel m m' vs" "matras_inv m' vs (insert e3 Own) R' Out"
    "e3 \<noteq> NULL" "e3 \<notin> Own" "mt_views m' = mt_views m" "\<And>x j. (x, j) \<noteq> (e2, n2) \<Longrightarrow> xh_ptr (mt_heap m') x j = xh_ptr (mt_heap m) x j" "xh_ptr (mt_heap m') e2 n2 = e3"
proof (rule inv_alloc_extent [OF I af])
  fix m1 assume a: "matras_alloc_extent af m = Some (NULL, m1)" "R = []" "core m1 = core m" "matras_inv m1 vs Own R Out"
  note g1 = grow_rel_core [OF a(3), of vs]
  obtain m2 where b: "(if f1 then matras_free_extent m1 e1 else Some m1) = Some m2" "core m2 = core m1" "matras_inv m2 vs (drop_new f1 e1 Own) R Out"
    by (rule free_new_spec [OF a(4), of f1 e1]) (use f(1) fresh_grow [OF g1] in auto)
  note g2 = grow_rel_trans [OF g1 grow_rel_core [OF b(2)]]
  obtain m3 where c: "(if f2 then matras_free_extent m2 e2 else Some m2) = Some m3" "core m3 = core m2" "matras_inv m3 vs (drop_new f2 e2 (drop_new f1 e1 Own)) R Out"
    by (rule free_new_spec [OF b(3), of f2 e2]) (use f(2,3) fresh_grow [OF g2] in \<open>auto simp: drop_new_def\<close>)
  have "alloc_low af m f1 f2 e1 e2 n2 n3 = Some (NULL, m3)" using a(1) b(1) c(1) by (simp add: alloc_low_def)
  then show thesis using c(3) grow_rel_trans [OF g2 grow_rel_core [OF c(2)]] by (intro no_memory)
next
  fix e3 m1 R1 assume a: "matras_alloc_extent af m = Some (e3, m1)" "e3 \<noteq> NULL" "e3 \<notin> Own" "core m1 = core m" "matras_inv m1 vs (insert e3 Own) R1 Out"
  note g1 = grow_rel_core [OF a(4), of vs]
  have "free_slot m1 vs (insert e3 Own) e2 n2" by (rule free_slot_grow [OF g1 _ fs]) auto
  then show thesis
  proof (rule store_free_spec [OF a(5), of e2 n2 e3])
    fix m2 assume b: "store_slot e2 n2 e3 m1 = Some m2" "grow_rel m1 m2 vs" "matras_inv m2 vs (insert e3 Own) R1 Out" "mt_views m2 = mt_views m1"
      "\<And>x j. (x, j) \<noteq> (e2, n2) \<Longrightarrow> xh_ptr (mt_heap m2) x j = xh_ptr (mt_heap m1) x j" "xh_ptr (mt_heap m2) e2 n2 = e3"
    have "mt_block_size m2 = mt_block_size m" using geomD(2) [OF grow_relD(1) [OF b(2)]] geomD(2) [OF coreD(1) [OF a(4)]] by simp
    then have "alloc_low af m f1 f2 e1 e2 n2 n3 = Some (e3 + n3 * mt_block_size m mod 2 ^ 32, m2)" using a(1,2) b(1) by (simp add: alloc_low_def)
    then show thesis
    proof (rule taken)
      show "grow_rel m m2 vs" by (rule grow_rel_trans [OF g1 b(2)])
    qed (use a b coreD(2,3) [OF a(4)] in auto)
  qed
qed

definition alloc_mid :: "alloc_func \<Rightarrow> matras \<Rightarrow> bool \<Rightarrow> addr \<Rightarrow> nat \<Rightarrow> nat \<Rightarrow> nat \<Rightarrow> (addr \<times> matras) option" where
  "alloc_mid af m f1 e1 n1 n2 n3 = do {
     (extent2, m) \<leftarrow> matras_alloc_extent af m;
     if extent2 = NULL then do {
       m \<leftarrow> (if f1 then matras_free_extent m e1 else Some m);
       Some (NULL, m) }
     else do {
       m \<leftarrow> store_slot e1 n1 extent2 m;
       alloc_low af m f1 True e1 extent2 n2 n3 } }"

lemma alloc_mid_spec:
  assumes I: "matras_inv m vs Own R Out" and af: "alloc_ok af (mt_extent_size m)" and f: "f1 \<Longrightarrow> e1 \<in> Own \<and> fresh_ext m vs e1" and fs: "free_slot m vs Own e1 n1" and n2: "n2 < slots m"
    and e1: "e1 \<in> Own"
  obtains (no_memory) m' R' where "alloc_mid af m f1 e1 n1 n2 n3 = Some (NULL, m')" "grow_rel m m' vs" "matras_inv m' vs (drop_new f1 e1 Own) R' Out"
  | (taken) e2 e3 m' R' where "alloc_mid af m f1 e1 n1 n2 n3 = Some (e3 + n3 * mt_block_size m mod 2 ^ 32, m')" "grow_rel m m' vs" "matras_inv m' vs (insert e3 (insert e2 Own)) R' Out"
    "e3 \<noteq> NULL" "e2 \<notin> Own" "e3 \<notin> insert e2 Own" "mt_views m' = mt_views m" "xh_ptr (mt_heap m') e1 n1 = e2" "xh_ptr (mt_heap m') e2 n2 = e3"
proof (rule inv_alloc_extent [OF I af])
  fix m1 assume a: "matras_alloc_extent af m = Some (NULL, m1)" "R = []" "core m1 = core m" "matras_inv m1 vs Own R Out"
  note g1 = grow_rel_core [OF a(3), of vs]
  obtain m2 where b: "(if f1 then matras_free_extent m1 e1 else Some m1) = Some m2" "core m2 = core m1" "matras_inv m2 vs (drop_new f1 e1 Own) R Out"
    by (rule free_new_spec [OF a(4), of f1 e1]) (use f fresh_grow [OF g1] in auto)
  have "alloc_mid af m f1 e1 n1 n2 n3 = Some (NULL, m2)" using a(1) b(1) by (simp add: alloc_mid_def)
  then show thesis using b(3) grow_rel_trans [OF g1 grow_rel_core [OF b(2)]] by (intro no_memory)
next
  fix e2 m1 R1 assume a: "matras_alloc_extent af m = Some (e2, m1)" "e2 \<noteq> NULL" "e2 \<notin> Own" "core m1 = core m" "matras_inv m1 vs (insert e2 Own) R1 Out"
  note g1 = grow_rel_core [OF a(4), of vs]
  have "free_slot m1 vs (insert e2 Own) e1 n1" by (rule free_slot_grow [OF g1 _ fs]) auto
  then obtain m2 where b: "store_slot e1 n1 e2 m1 = Some m2" "grow_rel m1 m2 vs" "matras_inv m2 vs (insert e2 Own) R1 Out" "mt_views m2 = mt_views m1"
      "xh_ptr (mt_heap m2) e1 n1 = e2" by (rule store_free_spec [OF a(5)])
  note g2 = grow_rel_trans [OF g1 b(2)]
  note g = geomD [OF grow_relD(1) [OF g2]]
  have ne: "e1 \<noteq> e2" using e1 a(3) by auto
  have fr: "fresh_ext m2 vs e2" using fresh_new [OF I a(3)] fresh_grow [OF g2] by simp
  have fs2: "free_slot m2 vs (insert e2 Own) e2 n2" using n2 fr g(7) by (simp add: free_slot_def)
  have af2: "alloc_ok af (mt_extent_size m2)" using af g(3) by simp
  have v2: "mt_views m2 = mt_views m" using b(4) coreD(2) [OF a(4)] by simp
  have run: "alloc_mid af m f1 e1 n1 n2 n3 = alloc_low af m2 f1 True e1 e2 n2 n3" using a(1,2) b(1) by (simp add: alloc_mid_def)
  show thesis
  proof (rule alloc_low_spec [OF b(3) af2 _ _ _ fs2, of f1 e1 True n3])
    fix m' R' assume c: "alloc_low af m2 f1 True e1 e2 n2 n3 = Some (NULL, m')" "grow_rel m2 m' vs" "matras_inv m' vs (drop_new True e2 (drop_new f1 e1 (insert e2 Own))) R' Out"
    moreover have "drop_new True e2 (drop_new f1 e1 (insert e2 Own)) = drop_new f1 e1 Own" using a(3) ne by (auto simp: drop_new_def)
    ultimately show thesis using run grow_rel_trans [OF g2 c(2)] by (intro no_memory) simp_all
  next
    fix e3 m' R' assume c: "alloc_low af m2 f1 True e1 e2 n2 n3 = Some (e3 + n3 * mt_block_size m2 mod 2 ^ 32, m')" "grow_rel m2 m' vs" "matras_inv m' vs (insert e3 (insert e2 Own)) R' Out"
      "e3 \<noteq> NULL" "e3 \<notin> insert e2 Own" "mt_views m' = mt_views m2" "\<And>x j. (x, j) \<noteq> (e2, n2) \<Longrightarrow> xh_ptr (mt_heap m') x j = xh_ptr (mt_heap m2) x j" "xh_ptr (mt_heap m') e2 n2 = e3"
    show thesis by (rule taken [OF _ grow_rel_trans [OF g2 c(2)] c(3,4) a(3) c(5)]) (use c run g(2) v2 b(5) ne in auto)
  qed (use f fr fresh_grow [OF g2] ne in auto)
qed

text \<open>The block count grows; the positions that begin at the old count get the extents that are linked there.\<close>

lemma inv_grow:
  assumes I: "matras_inv m vs Own R Out" and n: "n = mv_block_count (mt_head m)" "n + c \<le> mt_capacity m"
    and new: "\<And>q. n \<le> pos_start m q \<Longrightarrow> pos_start m q < n + c \<Longrightarrow> ext_at m (mv_root (mt_head m)) q \<in> Own \<and> fresh_ext m vs (ext_at m (mv_root (mt_head m)) q)"
    and inj: "\<And>q q'. n \<le> pos_start m q \<Longrightarrow> pos_start m q < n + c \<Longrightarrow> n \<le> pos_start m q' \<Longrightarrow> pos_start m q' < n + c \<Longrightarrow>
      ext_at m (mv_root (mt_head m)) q = ext_at m (mv_root (mt_head m)) q' \<Longrightarrow> q = q'"
  shows "matras_inv (upd_head (\<lambda>v. v\<lparr>mv_block_count := n + c\<rparr>) m) vs Own R Out"
    and "lay (upd_head (\<lambda>v. v\<lparr>mv_block_count := n + c\<rparr>) m) (mt_self m) q =
      (if pos_start m q < n then lay m (mt_self m) q else if pos_start m q < n + c then Some (ext_at m (mv_root (mt_head m)) q) else None)"
proof -
  let ?M = "upd_head (\<lambda>v. v\<lparr>mv_block_count := n + c\<rparr>) m"
  note J = matras_invD [OF I] and g = geomD [OF upd_view_simps(1) [of "mt_self m" "\<lambda>v. v\<lparr>mv_block_count := n + c\<rparr>" m]]
  let ?r = "mv_root (mt_head m)"
  let ?f = "layout_of m ?r n" and ?f' = "layout_of m ?r (n + c)"
  have self: "mt_self m \<notin> set vs" using J(3) by simp
  have lm: "lay ?M (mt_self m) = ?f'" by simp
  show "lay ?M (mt_self m) q = (if pos_start m q < n then lay m (mt_self m) q else if pos_start m q < n + c then Some (ext_at m ?r q) else None)"
    unfolding lm n(1) [symmetric] by (simp add: layout_of_def)
  have lw: "lay ?M w = lay m w" if "w \<in> set vs" for w using self that by auto
  have op: "own_pos ?f ?f" using inv_own_pos [OF I, of "mt_self m" "mt_self m"] n(1) by simp
  have f': "?f' q = Some x \<longleftrightarrow> ?f q = Some x \<or> (n \<le> pos_start m q \<and> pos_start m q < n + c \<and> x = ext_at m ?r q)" for q x by (auto simp: layout_of_def)
  have fr: "e \<notin> ran ?f" "\<And>w. w \<in> set vs \<Longrightarrow> e \<notin> ran (lay m w)" if "fresh_ext m vs e" for e using that n(1) by (auto simp: fresh_ext_def)
  have nf: "ext_at m ?r q \<notin> ran ?f" if "n \<le> pos_start m q" "pos_start m q < n + c" for q using fr(1) new [OF that] by blast
  have op': "own_pos ?f' ?f'"
    unfolding own_pos_def
  proof (intro allI impI)
    fix p q e assume a: "?f' p = Some e" "?f' q = Some e"
    have mix: False if "?f x = Some e" "n \<le> pos_start m y" "pos_start m y < n + c" "e = ext_at m ?r y" for x y
      using nf [OF that(2,3)] that(1,4) by (auto simp: ran_def)
    show "p = q"
    proof (cases "?f p = Some e")
      case True
      then have "?f q = Some e" using a(2) mix [OF True, of q] unfolding f' by blast
      then show ?thesis using op True unfolding own_pos_def by blast
    next
      case False
      then have "n \<le> pos_start m p \<and> pos_start m p < n + c \<and> e = ext_at m ?r p" using a(1) unfolding f' by blast
      moreover from this have "n \<le> pos_start m q \<and> pos_start m q < n + c \<and> e = ext_at m ?r q" using a(2) mix [of q p] unfolding f' by blast
      ultimately show ?thesis using inj by simp
    qed
  qed
  have cw: "cow (slots m) (?f # map (lay m) vs)" using J(8) n(1) by simp
  have dm: "dom ?f \<subseteq> dom ?f'" by (auto simp: f')
  have "?f p = Some e \<or> (\<forall>g \<in> set (map (lay m) vs). e \<notin> ran g)" if "?f' p = Some e" for p e
    using that new [of p] fr(2) unfolding f' by auto
  then have "cow (slots m) (?f' # map (lay m) vs)" by (rule cow_head [OF cw op' dm])
  moreover have "map (lay ?M) vs = map (lay m) vs" by (rule map_cong [OF refl lw])
  ultimately have cow: "cow (slots m) (map (lay ?M) (mt_self m # vs))" unfolding list.map lm by (simp only:)
  have "ran ?f' \<subseteq> Own"
  proof
    fix x assume "x \<in> ran ?f'"
    then obtain q where "?f' q = Some x" by (auto simp: ran_def)
    then show "x \<in> Own" using new [of q] J(9) [of "mt_self m"] n(1) unfolding f' by (auto simp: ran_def)
  qed
  then have "ran (lay ?M w) \<subseteq> Own" if "w \<in> set (mt_self m # vs)" for w using that lm lw J(9) by (metis set_ConsD)
  moreover have "views_linked ?M (mt_self m) vs" using J(6) self by (subst views_linked_frame [of vs ?M m]) auto
  ultimately show "matras_inv ?M vs Own R Out"
    unfolding matras_inv_def g using J(1-5,7) cow n by (auto simp del: cow.simps list.map)
qed

lemma alloc_internal_cases:
  fixes m :: matras
  assumes "geom_ok m" and n: "n = mv_block_count (mt_head m)" "n < 2 ^ 32"
  shows "matras_alloc_internal af m =
    (if n mod step2 m \<noteq> 0 then do {
       e2 \<leftarrow> load_slot m (mv_root (mt_head m)) (id_n1 m n);
       e3 \<leftarrow> load_slot m e2 (id_n2 m n);
       Some (e3 + id_n3 m n * mt_block_size m mod 2 ^ 32, m) }
     else if n mod step1 m \<noteq> 0 then do {
       e2 \<leftarrow> load_slot m (mv_root (mt_head m)) (id_n1 m n);
       alloc_low af m False False (mv_root (mt_head m)) e2 (id_n2 m n) (id_n3 m n) }
     else if n \<noteq> 0 then alloc_mid af m False (mv_root (mt_head m)) (id_n1 m n) (id_n2 m n) (id_n3 m n)
     else do {
       (e1, m1) \<leftarrow> matras_alloc_extent af m;
       if e1 = NULL then Some (NULL, m1)
       else alloc_mid af (upd_head (\<lambda>v. v\<lparr>mv_root := e1\<rparr>) m1) True e1 (id_n1 m n) (id_n2 m n) (id_n3 m n) })"
proof -
  have am: "x AND (2 ^ s - 1) = x mod 2 ^ s" for x s :: nat by (metis mask_eq_exp_minus_1 take_bit_eq_mask take_bit_eq_mod)
  have m1: "n AND mask1 m = n mod step1 m" "x AND mask2 m = x mod step2 m" for x
    using assms(1) by (rule geom_cases, simp only: am)+
  have d: "step2 m dvd step1 m" unfolding geom_step1 [OF assms(1)] by simp
  have mm: "n mod step1 m mod step2 m = n mod step2 m" by (rule mod_mod_cancel [OF d])
  have a: "n mod step1 m \<noteq> 0" if "n mod step2 m \<noteq> 0" using that mm by (metis mod_0)
  have b: "n \<noteq> 0" if "n mod step1 m \<noteq> 0" using that by (metis mod_0)
  have id3: "id_n3 m n = n mod step2 m" by (simp add: id_n3_def m1)
  have id1: "id_n1 m n = drop_bit (shift1 m) n" "id_n2 m n = drop_bit (shift2 m) (n mod step1 m)" by (simp_all add: id_n1_def id_n2_def m1)
  have nn: "mv_block_count (mt_head m) mod 2 ^ 32 = n" using n by simp
  show ?thesis
    unfolding matras_alloc_internal_def nn Let_def m1 mm id3 id1 alloc_mid_def alloc_low_def
    using a b by (cases "n mod step2 m = 0"; cases "n mod step1 m = 0"; cases "n = 0") (simp_all add: Let_def split_def cong: if_cong)
qed

definition alloc_request :: "matras \<Rightarrow> nat \<Rightarrow> nat \<Rightarrow> bool" where
  "alloc_request m n c \<longleftrightarrow> n = mv_block_count (mt_head m) \<and> 0 < c \<and> n + c \<le> mt_capacity m \<and> (\<forall>x. n < x \<longrightarrow> x < n + c \<longrightarrow> \<not> step2 m dvd x)"

lemma alloc_finish:
  assumes I: "matras_inv m vs Own R Out" and req: "alloc_request m n c"
    and G: "grow_rel m m' vs" and I': "matras_inv m' vs (Own \<union> N) R' Out" and N: "N \<inter> Own = {}"
    and img: "ext_at m' (mv_root (mt_head m')) ` {q. pos_start m q = n} = N" and inj: "inj_on (ext_at m' (mv_root (mt_head m'))) {q. pos_start m q = n}"
  defines "M \<equiv> upd_head (\<lambda>v. v\<lparr>mv_block_count := n + c\<rparr>) m'"
  shows "matras_inv M vs (Own \<union> N) R' Out" "geom M = geom m" "xh_byte (mt_heap M) = xh_byte (mt_heap m)"
    "\<And>q. lay M (mt_self m) q = (if pos_start m q < n then lay m (mt_self m) q else if pos_start m q = n then Some (ext_at m' (mv_root (mt_head m')) q) else None)"
    "\<And>w. w \<in> set vs \<Longrightarrow> lay M w = lay m w" "\<And>w. w \<noteq> mt_self m \<Longrightarrow> mt_views M w = mt_views m w" "N \<subseteq> ran (lay M (mt_self m))"
proof -
  note A = grow_relD [OF G] and g = geomD [OF grow_relD(1) [OF G]] and J = matras_invD [OF I]
  have n: "n = mv_block_count (mt_head m)" "0 < c" "n + c \<le> mt_capacity m" and gap: "\<And>x. n < x \<Longrightarrow> x < n + c \<Longrightarrow> \<not> step2 m dvd x"
    using req by (simp_all add: alloc_request_def)
  have new: "ext_at m' (mv_root (mt_head m')) q \<in> N" if "pos_start m q = n" for q using img that by blast
  have hc: "mv_block_count (mt_head m') = n" using A(4) n(1) g(1) by auto
  have d: "step2 m dvd pos_start m q" for q using geom_step1 [OF J(1)] by (cases q) auto
  have st: "pos_start m q = n" if "n \<le> pos_start m q" "pos_start m q < n + c" for q using gap [of "pos_start m q"] d that by (metis le_neq_implies_less)
  have fr: "fresh_ext m' vs x" if "x \<in> N" for x using fresh_grow [OF G] fresh_new [OF I] N that by blast
  have P: "matras_inv M vs (Own \<union> N) R' Out"
    "lay M (mt_self m') q = (if pos_start m' q < n then lay m' (mt_self m') q else if pos_start m' q < n + c then Some (ext_at m' (mv_root (mt_head m')) q) else None)" for q
    unfolding M_def using hc n(3) g(4) st fr new inj [unfolded inj_on_def] by (intro inv_grow [OF I', of n c]; simp add: g)+
  show "matras_inv M vs (Own \<union> N) R' Out" by (rule P(1))
  show "geom M = geom m" "xh_byte (mt_heap M) = xh_byte (mt_heap m)" using A(1,2) by (simp_all add: M_def)
  show lay: "lay M (mt_self m) q = (if pos_start m q < n then lay m (mt_self m) q else if pos_start m q = n then Some (ext_at m' (mv_root (mt_head m')) q) else None)" for q
  proof (cases "pos_start m q < n")
    case True
    then show ?thesis using P(2) [of q] A(5) [of "mt_self m"] unfolding g by simp
  next
    case False
    then have "pos_start m q < n + c \<longleftrightarrow> pos_start m q = n" using st [of q] n(2) by auto
    then show ?thesis using P(2) [of q] False unfolding g by simp
  qed
  have self: "mt_self m \<notin> set vs" using J(3) by simp
  show "lay M w = lay m w" if "w \<in> set vs" for w using A(5) [of w] self that g(1) unfolding M_def by auto
  show "mt_views M w = mt_views m w" if "w \<noteq> mt_self m" for w using A(3) [OF that] that g(1) by (simp add: M_def)
  show "N \<subseteq> ran (lay M (mt_self m))"
  proof
    fix x assume "x \<in> N"
    then obtain q where "pos_start m q = n" "ext_at m' (mv_root (mt_head m')) q = x" using img by blast
    then show "x \<in> ran (lay M (mt_self m))" by (intro ranI [of _ q]) (simp only: lay, simp)
  qed
qed

text \<open>What an allocation of blocks makes of the state, the block count included.\<close>

definition alloc_rel :: "matras \<Rightarrow> matras \<Rightarrow> addr list \<Rightarrow> addr set \<Rightarrow> addr set \<Rightarrow> nat \<Rightarrow> nat \<Rightarrow> addr \<Rightarrow> bool" where
  "alloc_rel m M vs Own Own' n c e \<longleftrightarrow> geom M = geom m \<and> xh_byte (mt_heap M) = xh_byte (mt_heap m) \<and>
     mv_block_count (mt_views M (mt_self m)) = n + c \<and> lay M (mt_self m) (Low (n div step2 m)) = Some e \<and>
     (\<forall>q. pos_start m q < n \<longrightarrow> lay M (mt_self m) q = lay m (mt_self m) q) \<and> (\<forall>w \<in> set vs. lay M w = lay m w) \<and>
     (\<forall>w. w \<noteq> mt_self m \<longrightarrow> mt_views M w = mt_views m w) \<and> Own \<subseteq> Own' \<and> Own' - Own \<subseteq> ran (lay M (mt_self m)) \<and>
     (\<forall>q x. lay M (mt_self m) q = Some x \<longrightarrow> pos_start m q < n \<or> x \<notin> Own)"

text \<open>The two outcomes of \<open>matras_alloc_internal\<close>; the caller then sets the block count.\<close>

definition alloc_outcome :: "alloc_func \<Rightarrow> matras \<Rightarrow> addr list \<Rightarrow> addr set \<Rightarrow> addr set \<Rightarrow> nat \<Rightarrow> nat \<Rightarrow> bool" where
  "alloc_outcome af m vs Own Out n c \<longleftrightarrow>
     (\<exists>m' R'. matras_alloc_internal af m = Some (NULL, m') \<and> grow_rel m m' vs \<and> matras_inv m' vs Own R' Out) \<or>
     (\<exists>e m' Own' R'. matras_alloc_internal af m = Some (e + n mod step2 m * mt_block_size m, m') \<and> e \<noteq> NULL \<and> mv_block_count (mt_head m') = n \<and>
        matras_inv (upd_head (\<lambda>v. v\<lparr>mv_block_count := n + c\<rparr>) m') vs Own' R' Out \<and> alloc_rel m (upd_head (\<lambda>v. v\<lparr>mv_block_count := n + c\<rparr>) m') vs Own Own' n c e)"

lemma outcome_no_memory:
  "matras_alloc_internal af m = Some (NULL, m') \<Longrightarrow> grow_rel m m' vs \<Longrightarrow> matras_inv m' vs Own R' Out \<Longrightarrow> alloc_outcome af m vs Own Out n c"
  unfolding alloc_outcome_def by blast

lemma outcome_taken:
  assumes I: "matras_inv m vs Own R Out" and req: "alloc_request m n c"
    and G: "grow_rel m m' vs" and I': "matras_inv m' vs (Own \<union> N) R' Out" and N: "N \<inter> Own = {}"
    and res: "matras_alloc_internal af m = Some (e + id_n3 m n * mt_block_size m mod 2 ^ 32, m')" "e \<noteq> NULL"
    and e: "pos_start m (Low (n div step2 m)) = n \<Longrightarrow> ext_at m' (mv_root (mt_head m')) (Low (n div step2 m)) = e"
      "pos_start m (Low (n div step2 m)) < n \<Longrightarrow> lay m (mt_self m) (Low (n div step2 m)) = Some e"
    and img: "ext_at m' (mv_root (mt_head m')) ` {q. pos_start m q = n} = N" and inj: "inj_on (ext_at m' (mv_root (mt_head m'))) {q. pos_start m q = n}"
  shows "alloc_outcome af m vs Own Out n c"
proof -
  let ?M = "upd_head (\<lambda>v. v\<lparr>mv_block_count := n + c\<rparr>) m'"
  have n: "n = mv_block_count (mt_head m)" using req by (simp add: alloc_request_def)
  note F = alloc_finish [OF I req G I' N img inj]
  have "lay ?M (mt_self m) (Low (n div step2 m)) = (if pos_start m (Low (n div step2 m)) < n then lay m (mt_self m) (Low (n div step2 m))
      else if pos_start m (Low (n div step2 m)) = n then Some (ext_at m' (mv_root (mt_head m')) (Low (n div step2 m))) else None)" by (rule F(4))
  also have "pos_start m (Low (n div step2 m)) \<le> n" by simp
  then have "(if pos_start m (Low (n div step2 m)) < n then lay m (mt_self m) (Low (n div step2 m))
      else if pos_start m (Low (n div step2 m)) = n then Some (ext_at m' (mv_root (mt_head m')) (Low (n div step2 m))) else None) = Some e"
    using e by (cases "pos_start m (Low (n div step2 m)) = n") (simp_all del: pos_start.simps ext_at.simps)
  finally have l: "lay ?M (mt_self m) (Low (n div step2 m)) = Some e" .
  have s: "mt_self m' = mt_self m" by (rule geomD(1) [OF grow_relD(1) [OF G]])
  have c: "mv_block_count (mt_head m') = n" using grow_relD(4) [OF G] n s by auto
  have cM: "mv_block_count (mt_views ?M (mt_self m)) = n + c" using s by simp
  have ar: "alloc_rel m ?M vs Own (Own \<union> N) n c e"
    unfolding alloc_rel_def
  proof (intro conjI allI impI ballI)
    show "pos_start m q < n \<or> x \<notin> Own" if x: "lay ?M (mt_self m) q = Some x" for q x
    proof (cases "pos_start m q < n")
      case False
      then have "pos_start m q = n" "ext_at m' (mv_root (mt_head m')) q = x" using F(4) [of q] x by (auto split: if_splits)
      then show ?thesis using img N by blast
    qed simp
    show "Own \<union> N - Own \<subseteq> ran (lay ?M (mt_self m))" using F(7) by blast
    show "lay ?M (mt_self m) q = lay m (mt_self m) q" if "pos_start m q < n" for q by (rule F(4) [THEN trans]) (rule if_P [OF that])
    show "geom ?M = geom m" by (rule F(2))
    show "xh_byte (mt_heap ?M) = xh_byte (mt_heap m)" by (rule F(3))
    show "lay ?M w = lay m w" if "w \<in> set vs" for w by (rule F(5) [OF that])
    show "mt_views ?M w = mt_views m w" if "w \<noteq> mt_self m" for w by (rule F(6) [OF that])
    show "lay ?M (mt_self m) (Low (n div step2 m)) = Some e" by (rule l)
  qed (use cM in simp_all)
  show ?thesis unfolding alloc_outcome_def
    by (intro disjI2 exI conjI) (rule res(1) [unfolded id_parts(4) [OF matras_invD(1) [OF I], of n]], rule res(2), rule c, rule F(1), rule ar)
qed

text \<open>The positions that begin at a block.\<close>

lemma pos_start_eq:
  assumes "geom_ok m"
  shows "pos_start m (Low k) = n \<longleftrightarrow> n mod step2 m = 0 \<and> k = n div step2 m"
    and "pos_start m (Mid i) = n \<longleftrightarrow> n mod step1 m = 0 \<and> i = n div step2 m div slots m"
    and "pos_start m Top = n \<longleftrightarrow> n = 0"
    and "step2 m dvd pos_start m q" and "n mod step1 m = 0 \<Longrightarrow> n mod step2 m = 0"
    and "n div step2 m div slots m * step1 m \<le> n"
proof -
  note gs = geom_simps [OF assms]
  show "pos_start m (Low k) = n \<longleftrightarrow> n mod step2 m = 0 \<and> k = n div step2 m" using gs(3) by auto
  have s: "0 < step1 m" using gs(1-3) by simp
  have i: "n div step2 m div slots m = n div step1 m" unfolding gs(1) by (metis div_mult2_eq mult.commute)
  show "pos_start m (Mid i) = n \<longleftrightarrow> n mod step1 m = 0 \<and> i = n div step2 m div slots m" unfolding i using s by auto
  show "pos_start m Top = n \<longleftrightarrow> n = 0" by auto
  show "step2 m dvd pos_start m q" using gs(1) by (cases q) auto
  show "n mod step2 m = 0" if "n mod step1 m = 0" using that gs(1) by (metis dvd_triv_right dvd_trans mod_0_imp_dvd dvd_imp_mod_0)
  show "n div step2 m div slots m * step1 m \<le> n" unfolding i by simp
qed

lemma alloc_request_table:
  assumes "geom_ok m" and "alloc_request m n c"
  shows "n div step2 m div slots m < slots m" and "n < 2 ^ 32" and "pos_start m q = n \<Longrightarrow> lay m (mt_self m) q = None"
proof -
  have n: "n < mt_capacity m" "n = mv_block_count (mt_head m)" using assms(2) by (auto simp: alloc_request_def)
  have "n div step2 m * step2 m \<le> n" by simp
  then have "n div step2 m * step2 m < mt_capacity m" using n(1) by linarith
  then show "n div step2 m div slots m < slots m" by (rule pos_in_tables(2) [OF assms(1) order_refl])
  show "n < 2 ^ 32" using n(1) geom_capacity(2) [OF assms(1)] by linarith
  show "lay m (mt_self m) q = None" if "pos_start m q = n" using that n(2) by (simp add: layout_of_def)
qed

lemma alloc_in_extent:
  assumes I: "matras_inv m vs Own R Out" and req: "alloc_request m n c" and n2: "n mod step2 m \<noteq> 0"
  shows "alloc_outcome af m vs Own Out n c"
proof -
  note J = matras_invD [OF I] and p = id_parts [OF matras_invD(1) [OF I], of n] and q = pos_start_eq [OF matras_invD(1) [OF I]]
  let ?k = "n div step2 m"
  have n: "n = mv_block_count (mt_head m)" using req by (simp add: alloc_request_def)
  have self: "mt_self m \<in> set (mt_self m # vs)" by simp
  have ne: "pos_start m x \<noteq> n" for x using n2 q(4) [of x] by auto
  moreover have "pos_start m (Low ?k) \<le> n" by simp
  ultimately have lt: "pos_start m (Low ?k) < n" by (metis le_neq_implies_less)
  then obtain e where e: "lay m (mt_self m) (Low ?k) = Some e" using n by (simp add: layout_of_def)
  obtain e2 where e2: "lay m (mt_self m) (Mid (?k div slots m)) = Some e2" by (rule lay_low_mid [OF I self e])
  have "matras_alloc_internal af m = Some (e + id_n3 m n * mt_block_size m mod 2 ^ 32, m)"
    unfolding alloc_internal_cases [OF J(1) n alloc_request_table(2) [OF J(1) req]] p(1,2) using n2 load_mid(1) [OF I self e2] load_low [OF I self e e2] by simp
  moreover have "grow_rel m m vs" by (rule grow_rel_core) simp
  ultimately show ?thesis using I e lt ne inv_live [OF I self e]
    by (intro outcome_taken [OF I req, of m "{}" R af e]) (simp_all del: pos_start.simps)
qed

lemma alloc_new_low:
  assumes I: "matras_inv m vs Own R Out" and af: "alloc_ok af (mt_extent_size m)" and req: "alloc_request m n c" and n2: "n mod step2 m = 0" "n mod step1 m \<noteq> 0"
  shows "alloc_outcome af m vs Own Out n c"
proof -
  note J = matras_invD [OF I] and p = id_parts [OF matras_invD(1) [OF I], of n] and q = pos_start_eq [OF matras_invD(1) [OF I]]
    and tb = alloc_request_table [OF matras_invD(1) [OF I] req]
  let ?k = "n div step2 m" and ?r = "mv_root (mt_head m)"
  let ?i = "?k div slots m" and ?j = "?k mod slots m"
  have n: "n = mv_block_count (mt_head m)" using req by (simp add: alloc_request_def)
  have self: "mt_self m \<in> set (mt_self m # vs)" by simp
  have pos: "pos_start m x = n \<longleftrightarrow> x = Low ?k" for x using q(1-3) n2 by (cases x; cases "n = 0") (auto simp del: pos_start.simps)
  have "?i * step1 m \<noteq> n" using pos [of "Mid ?i"] by simp
  then have "?i * step1 m < n" using q(6) [of n] by (metis le_neq_implies_less)
  then obtain e2 where e2: "lay m (mt_self m) (Mid ?i) = Some e2" using n by (simp add: layout_of_def)
  have ck: "child (slots m) (Mid ?i) ?j = Low ?k" by simp
  have km: "?j < slots m" using geom_slots_pos [OF J(1)] by simp
  have "lay m (mt_self m) (Low ?k) = None" by (rule tb(3)) (simp only: pos)
  then have fs: "free_slot m vs Own e2 ?j" unfolding free_slot_def using e2 km ck by metis
  have run: "matras_alloc_internal af m = alloc_low af m False False ?r e2 ?j (id_n3 m n)"
    unfolding alloc_internal_cases [OF J(1) n tb(2)] p(1,2) using n2 load_mid(1) [OF I self e2] by simp
  show ?thesis
  proof (rule alloc_low_spec [OF I af _ _ _ fs, of False ?r False "id_n3 m n"])
    fix m' R' assume a: "alloc_low af m False False ?r e2 ?j (id_n3 m n) = Some (NULL, m')" "grow_rel m m' vs" "matras_inv m' vs (drop_new False e2 (drop_new False ?r Own)) R' Out"
    then show ?thesis using run by (intro outcome_no_memory [of af m m' vs Own R']) (simp_all add: drop_new_def)
  next
    fix e3 m' R' assume a: "alloc_low af m False False ?r e2 ?j (id_n3 m n) = Some (e3 + id_n3 m n * mt_block_size m mod 2 ^ 32, m')" "grow_rel m m' vs"
      "matras_inv m' vs (insert e3 Own) R' Out" "e3 \<noteq> NULL" "e3 \<notin> Own" "mt_views m' = mt_views m" "xh_ptr (mt_heap m') e2 ?j = e3"
    note g = geomD [OF grow_relD(1) [OF a(2)]]
    have "lay m' (mt_self m) (Mid ?i) = Some e2" using grow_relD(5) [OF a(2) self] e2 by simp
    then have "xh_ptr (mt_heap m') (mv_root (mt_head m')) ?i = e2" using a(6) g(1) by (auto simp: layout_of_def split: if_splits)
    then have ex: "ext_at m' (mv_root (mt_head m')) (Low ?k) = e3" using a(7) g(7) by simp
    have kn: "pos_start m (Low ?k) = n" by (simp only: pos)
    show ?thesis by (rule outcome_taken [OF I req a(2), of "{e3}" R' af e3]) (use a run ex pos kn in \<open>simp_all del: pos_start.simps ext_at.simps\<close>)
  qed auto
qed

lemma alloc_new_mid:
  assumes I: "matras_inv m vs Own R Out" and af: "alloc_ok af (mt_extent_size m)" and req: "alloc_request m n c" and n1: "n mod step1 m = 0" "n \<noteq> 0"
  shows "alloc_outcome af m vs Own Out n c"
proof -
  note J = matras_invD [OF I] and p = id_parts [OF matras_invD(1) [OF I], of n] and q = pos_start_eq [OF matras_invD(1) [OF I]]
    and tb = alloc_request_table [OF matras_invD(1) [OF I] req]
  let ?k = "n div step2 m" and ?r = "mv_root (mt_head m)"
  let ?i = "?k div slots m" and ?j = "?k mod slots m"
  have n: "n = mv_block_count (mt_head m)" using req by (simp add: alloc_request_def)
  have n2: "n mod step2 m = 0" by (rule q(5) [OF n1(1)])
  have self: "mt_self m \<in> set (mt_self m # vs)" by simp
  have pos: "pos_start m x = n \<longleftrightarrow> x = Low ?k \<or> x = Mid ?i" for x using q(1-3) n1 n2 by (cases x) (auto simp del: pos_start.simps)
  have t: "lay m (mt_self m) Top = Some ?r" using n1 n by (simp add: layout_of_def)
  have "lay m (mt_self m) (child (slots m) Top ?i) = None" by (rule tb(3)) (simp only: child.simps pos, simp)
  then have fs: "free_slot m vs Own ?r ?i" unfolding free_slot_def using t tb(1) by blast
  have km: "?j < slots m" using geom_slots_pos [OF J(1)] by simp
  have rO: "?r \<in> Own" using inv_live [OF I self t] by simp
  have run: "matras_alloc_internal af m = alloc_mid af m False ?r ?i ?j (id_n3 m n)"
    unfolding alloc_internal_cases [OF J(1) n tb(2)] p(1,2) using n1 n2 by simp
  show ?thesis
  proof (rule alloc_mid_spec [OF I af _ fs km rO, of False "id_n3 m n"])
    fix m' R' assume a: "alloc_mid af m False ?r ?i ?j (id_n3 m n) = Some (NULL, m')" "grow_rel m m' vs" "matras_inv m' vs (drop_new False ?r Own) R' Out"
    then show ?thesis using run by (intro outcome_no_memory [of af m m' vs Own R']) (simp_all add: drop_new_def)
  next
    fix e2 e3 m' R' assume a: "alloc_mid af m False ?r ?i ?j (id_n3 m n) = Some (e3 + id_n3 m n * mt_block_size m mod 2 ^ 32, m')" "grow_rel m m' vs"
      "matras_inv m' vs (insert e3 (insert e2 Own)) R' Out" "e3 \<noteq> NULL" "e2 \<notin> Own" "e3 \<notin> insert e2 Own" "mt_views m' = mt_views m"
      "xh_ptr (mt_heap m') ?r ?i = e2" "xh_ptr (mt_heap m') e2 ?j = e3"
    note g = geomD [OF grow_relD(1) [OF a(2)]]
    have ex: "ext_at m' (mv_root (mt_head m')) (Mid ?i) = e2" "ext_at m' (mv_root (mt_head m')) (Low ?k) = e3" using a(7,8,9) g(1,7) by simp_all
    have eq: "Own \<union> {e2, e3} = insert e3 (insert e2 Own)" by auto
    have kn: "pos_start m (Low ?k) = n" by (simp only: pos, simp)
    show ?thesis
    proof (rule outcome_taken [OF I req a(2), of "{e2, e3}" R' af e3])
      show "matras_inv m' vs (Own \<union> {e2, e3}) R' Out" unfolding eq by (rule a(3))
      have ps: "{q. pos_start m q = n} = {Low ?k, Mid ?i}" using pos by auto
      show "ext_at m' (mv_root (mt_head m')) ` {q. pos_start m q = n} = {e2, e3}" unfolding ps using ex by (auto simp del: ext_at.simps)
      show "inj_on (ext_at m' (mv_root (mt_head m'))) {q. pos_start m q = n}" unfolding ps using ex a(6) by (auto simp del: ext_at.simps)
    qed (use a run ex kn in \<open>simp_all del: pos_start.simps ext_at.simps\<close>)
  qed simp
qed

lemma alloc_new_top:
  assumes I: "matras_inv m vs Own R Out" and af: "alloc_ok af (mt_extent_size m)" and req: "alloc_request m 0 c"
  shows "alloc_outcome af m vs Own Out 0 c"
proof (rule inv_alloc_extent [OF I af])
  note J = matras_invD [OF I] and p = id_parts [OF matras_invD(1) [OF I], of 0] and q = pos_start_eq [OF matras_invD(1) [OF I]]
    and tb = alloc_request_table [OF matras_invD(1) [OF I] req]
  have z: "0 = mv_block_count (mt_head m)" using req by (simp add: alloc_request_def)
  have n3: "id_n3 m 0 = 0" unfolding p(3) by simp
  have sl: "0 < slots m" using geom_slots_pos [OF J(1)] .
  have run: "matras_alloc_internal af m = do { (e1, m1) \<leftarrow> matras_alloc_extent af m; if e1 = NULL then Some (NULL, m1)
       else alloc_mid af (upd_head (\<lambda>v. v\<lparr>mv_root := e1\<rparr>) m1) True e1 0 0 0 }"
    unfolding alloc_internal_cases [OF J(1) z tb(2)] p(1,2) n3 div_0 mod_0 by simp
  { fix m1 assume a: "matras_alloc_extent af m = Some (NULL, m1)" "R = []" "core m1 = core m" "matras_inv m1 vs Own R Out"
    then show ?thesis using run grow_rel_core [OF a(3)] by (intro outcome_no_memory [of af m m1 vs Own R]) simp_all }
  fix e1 m1 R1 assume a: "matras_alloc_extent af m = Some (e1, m1)" "e1 \<noteq> NULL" "e1 \<notin> Own" "core m1 = core m" "matras_inv m1 vs (insert e1 Own) R1 Out"
  let ?m = "upd_head (\<lambda>v. v\<lparr>mv_root := e1\<rparr>) m1"
  note g1 = geomD [OF coreD(1) [OF a(4)]]
  have "lay ?m w = lay m w" if "w \<in> set (mt_self m # vs)" for w
    using lay_core [OF a(4), of w] coreD(2) [OF a(4)] g1(1) z by (cases "w = mt_self m") (auto simp: layout_of_def fun_eq_iff)
  then have G: "grow_rel m ?m vs" unfolding grow_rel_def using coreD(1,2,4) [OF a(4)] g1(1) by auto
  have Im: "matras_inv ?m vs (insert e1 Own) R1 Out" by (rule grow_rel_inv [OF I G]) (use matras_invD(2) [OF a(5)] J(9) in auto)
  have fr: "fresh_ext ?m vs e1" using fresh_grow [OF G] fresh_new [OF I a(3)] by simp
  note g = geomD [OF grow_relD(1) [OF G]]
  have fs: "free_slot ?m vs (insert e1 Own) e1 0" using fr sl g(7) by (simp add: free_slot_def)
  have afm: "alloc_ok af (mt_extent_size ?m)" using af g(3) by simp
  have km: "0 < slots ?m" using sl g(7) by simp
  have run2: "matras_alloc_internal af m = alloc_mid af ?m True e1 0 0 0" unfolding run using a(1,2) by simp
  show ?thesis
  proof (rule alloc_mid_spec [OF Im afm _ fs km, of True 0])
    fix m' R' assume b: "alloc_mid af ?m True e1 0 0 0 = Some (NULL, m')" "grow_rel ?m m' vs" "matras_inv m' vs (drop_new True e1 (insert e1 Own)) R' Out"
    moreover have "drop_new True e1 (insert e1 Own) = Own" using a(3) by (simp add: drop_new_def)
    ultimately show ?thesis using run2 grow_rel_trans [OF G b(2)] by (intro outcome_no_memory [of af m m' vs Own R']) simp_all
  next
    fix e2 e3 m' R' assume b: "alloc_mid af ?m True e1 0 0 0 = Some (e3 + 0 * mt_block_size ?m mod 2 ^ 32, m')" "grow_rel ?m m' vs"
      "matras_inv m' vs (insert e3 (insert e2 (insert e1 Own))) R' Out" "e3 \<noteq> NULL" "e2 \<notin> insert e1 Own" "e3 \<notin> insert e2 (insert e1 Own)" "mt_views m' = mt_views ?m"
      "xh_ptr (mt_heap m') e1 0 = e2" "xh_ptr (mt_heap m') e2 0 = e3"
    note G' = grow_rel_trans [OF G b(2)]
    note g' = geomD [OF grow_relD(1) [OF G']]
    have "mv_root (mt_head m') = e1" using b(7) g'(1) g1(1) by simp
    then have ex: "ext_at m' (mv_root (mt_head m')) Top = e1" "ext_at m' (mv_root (mt_head m')) (Mid 0) = e2" "ext_at m' (mv_root (mt_head m')) (Low 0) = e3"
      using b(8,9) g'(7) by simp_all
    have pos: "pos_start m x = 0 \<longleftrightarrow> x = Low 0 \<or> x = Mid 0 \<or> x = Top" for x using q(1) [of _ 0] q(2) [of _ 0] by (cases x) (simp_all del: pos_start.simps(2,3))
    have eq: "Own \<union> {e1, e2, e3} = insert e3 (insert e2 (insert e1 Own))" by auto
    show ?thesis
    proof (rule outcome_taken [OF I req G', of "{e1, e2, e3}" R' af e3])
      show "matras_inv m' vs (Own \<union> {e1, e2, e3}) R' Out" unfolding eq by (rule b(3))
      have ps: "{q. pos_start m q = 0} = {Low 0, Mid 0, Top}" using pos by auto
      show "ext_at m' (mv_root (mt_head m')) ` {q. pos_start m q = 0} = {e1, e2, e3}" unfolding ps using ex by (auto simp del: ext_at.simps)
      show "inj_on (ext_at m' (mv_root (mt_head m'))) {q. pos_start m q = 0}" unfolding ps using ex b(5,6) by (auto simp del: ext_at.simps)
    qed (use a b run2 ex n3 in \<open>simp_all del: ext_at.simps\<close>)
  qed (use fr in auto)
qed

lemma alloc_internal_spec:
  assumes "matras_inv m vs Own R Out" and "alloc_ok af (mt_extent_size m)" and "alloc_request m n c"
  shows "alloc_outcome af m vs Own Out n c"
  using alloc_in_extent [OF assms(1,3)] alloc_new_low [OF assms] alloc_new_mid [OF assms] alloc_new_top [OF assms(1,2)] assms(3)
  by (cases "n mod step2 m = 0"; cases "n mod step1 m = 0"; cases "n = 0") auto

section \<open>The allocating operations\<close>

text \<open>No extent of the array is lost: each is in the layout of the head or of a view.\<close>

definition exact :: "matras \<Rightarrow> addr list \<Rightarrow> addr set \<Rightarrow> bool" where
  "exact m vs Own \<longleftrightarrow> Own \<subseteq> (\<Union>w \<in> set (mt_self m # vs). ran (lay m w))"

lemma exactE:
  assumes "exact m vs Own" and "x \<in> Own"
  obtains w p where "w \<in> set (mt_self m # vs)" "lay m w p = Some x"
proof -
  have "x \<in> (\<Union>w \<in> set (mt_self m # vs). ran (lay m w))" using assms unfolding exact_def by blast
  then obtain w where "w \<in> set (mt_self m # vs)" "x \<in> ran (lay m w)" by blast
  then show thesis using that by (auto simp: ran_def)
qed

lemma exact_cong:
  assumes "exact m vs Own" and "mt_self m' = mt_self m" and "\<And>w. w \<in> set (mt_self m # vs) \<Longrightarrow> lay m' w = lay m w" and "Own' \<subseteq> Own"
  shows "exact m' vs Own'"
proof -
  have "(\<Union>w \<in> set (mt_self m # vs). ran (lay m' w)) = (\<Union>w \<in> set (mt_self m # vs). ran (lay m w))" by (rule SUP_cong) (simp_all only: assms(3))
  then show ?thesis using assms(1,2,4) unfolding exact_def by auto
qed

lemma exact_touch:
  assumes "exact m vs Own" and "touch_rel m m' vs Own Own' Out"
  shows "exact m' vs Own'"
proof -
  note T = touch_relD [OF assms(2)]
  have u: "(\<Union>w \<in> set vs. ran (lay m' w)) = (\<Union>w \<in> set vs. ran (lay m w))" by (rule SUP_cong) (simp_all add: T(2))
  note s = geomD(1) [OF T(1)]
  show ?thesis using assms(1) T(9,10) unfolding exact_def s list.set image_insert Union_insert u by blast
qed

lemma exact_alloc:
  assumes "exact m vs Own" and "alloc_rel m m' vs Own Own' n c e" and "\<And>q. lay m (mt_self m) q \<noteq> None \<Longrightarrow> pos_start m q < n"
  shows "exact m' vs Own'"
proof -
  have a: "geom m' = geom m" "\<And>q. pos_start m q < n \<Longrightarrow> lay m' (mt_self m) q = lay m (mt_self m) q" "\<And>w. w \<in> set vs \<Longrightarrow> lay m' w = lay m w"
    "Own' - Own \<subseteq> ran (lay m' (mt_self m))" using assms(2) unfolding alloc_rel_def by blast+
  have u: "(\<Union>w \<in> set vs. ran (lay m' w)) = (\<Union>w \<in> set vs. ran (lay m w))" by (intro SUP_cong) (simp_all only: a(3))
  note s = geomD(1) [OF a(1)]
  have "ran (lay m (mt_self m)) \<subseteq> ran (lay m' (mt_self m))"
  proof
    fix x assume "x \<in> ran (lay m (mt_self m))"
    then obtain q where q: "lay m (mt_self m) q = Some x" by (auto simp: ran_def)
    then have "lay m' (mt_self m) q = lay m (mt_self m) q" by (intro a(2) assms(3)) simp
    then show "x \<in> ran (lay m' (mt_self m))" using q by (auto simp: ran_def)
  qed
  then show ?thesis using assms(1) a(4) unfolding exact_def s list.set image_insert Union_insert u by blast
qed

lemma lay_start: "lay m w q \<noteq> None \<Longrightarrow> pos_start m q < mv_block_count (mt_views m w)"
  by (auto simp: layout_of_def split: if_splits)

definition alloc_result :: "(addr \<times> nat \<times> matras) option \<Rightarrow> matras \<Rightarrow> addr list \<Rightarrow> addr set \<Rightarrow> addr set \<Rightarrow> nat \<Rightarrow> bool" where
  "alloc_result r m vs Own Out c \<longleftrightarrow>
     (\<exists>m' R'. r = Some (NULL, 0, m') \<and> grow_rel m m' vs \<and> matras_inv m' vs Own R' Out) \<or>
     (\<exists>e m' Own' R'. r = Some (e + mv_block_count (mt_head m) mod step2 m * mt_block_size m, mv_block_count (mt_head m), m') \<and> e \<noteq> NULL \<and>
        matras_inv m' vs Own' R' Out \<and> alloc_rel m m' vs Own Own' (mv_block_count (mt_head m)) c e)"

lemma alloc_result_full: "matras_inv m vs Own R Out \<Longrightarrow> alloc_result (Some (NULL, 0, m)) m vs Own Out c"
  unfolding alloc_result_def using grow_rel_core [of m m vs] by blast

lemma alloc_result_run:
  assumes I: "matras_inv m vs Own R Out" and af: "alloc_ok af (mt_extent_size m)" and req: "alloc_request m n c"
  shows "alloc_result (do { (res, m) \<leftarrow> matras_alloc_internal af m;
    if res \<noteq> NULL then Some (res, n mod 2 ^ 32, upd_head (\<lambda>v. v\<lparr>mv_block_count := mv_block_count v + c\<rparr>) m) else Some (NULL, 0, m) }) m vs Own Out c"
proof -
  have n: "n = mv_block_count (mt_head m)" using req by (simp add: alloc_request_def)
  have n32: "n mod 2 ^ 32 = n" using alloc_request_table(2) [OF matras_invD(1) [OF I] req] by simp
  from alloc_internal_spec [OF assms] consider
      m' R' where "matras_alloc_internal af m = Some (NULL, m')" "grow_rel m m' vs" "matras_inv m' vs Own R' Out"
    | e m' Own' R' where "matras_alloc_internal af m = Some (e + n mod step2 m * mt_block_size m, m')" "e \<noteq> NULL" "mv_block_count (mt_head m') = n"
        "matras_inv (upd_head (\<lambda>v. v\<lparr>mv_block_count := n + c\<rparr>) m') vs Own' R' Out" "alloc_rel m (upd_head (\<lambda>v. v\<lparr>mv_block_count := n + c\<rparr>) m') vs Own Own' n c e"
    unfolding alloc_outcome_def by blast
  then show ?thesis
  proof cases
    case 1
    then show ?thesis by (auto simp: alloc_result_def)
  next
    case 2
    have "upd_head (\<lambda>v. v\<lparr>mv_block_count := mv_block_count v + c\<rparr>) m' = upd_head (\<lambda>v. v\<lparr>mv_block_count := n + c\<rparr>) m'" using 2(3) by (simp add: upd_view_def)
    then show ?thesis unfolding alloc_result_def 2(1) n32 using 2(2,4,5) n by auto
  qed
qed

lemma alloc_spec:
  assumes I: "matras_inv m vs Own R Out" and af: "alloc_ok af (mt_extent_size m)"
  shows "alloc_result (matras_alloc af m) m vs Own Out 1"
proof (cases "mv_block_count (mt_head m) = mt_capacity m")
  case True
  then show ?thesis using alloc_result_full [OF I] by (simp add: matras_alloc_def)
next
  case False
  then have lt: "mv_block_count (mt_head m) < mt_capacity m" using matras_invD(7) [OF I, of "mt_self m"] by simp
  then have "alloc_request m (mv_block_count (mt_head m)) 1" by (simp add: alloc_request_def)
  from alloc_result_run [OF I af this] show ?thesis using lt by (simp add: matras_alloc_def)
qed

text \<open>The number of blocks in an extent, and ranges that divide it.\<close>

lemma blocks_in_extent: "geom_ok m \<Longrightarrow> mt_extent_size m div mt_block_size m = step2 m"
  using geom_extent [of m] by (metis div_mult_self_is_m)

lemma range_gap:
  assumes "c dvd n" and "c dvd (s :: nat)" and "n < x" and "x < n + c"
  shows "\<not> s dvd x"
proof
  assume "s dvd x"
  then have "c dvd x - n" using assms(1,2) by (meson dvd_diff_nat dvd_trans)
  then have "c \<le> x - n" using assms(3) by (intro dvd_imp_le) simp_all
  then show False using assms(3,4) by linarith
qed

lemma alloc_range_spec:
  assumes I: "matras_inv m vs Own R Out" and af: "alloc_ok af (mt_extent_size m)" and c: "0 < c" "c dvd mv_block_count (mt_head m)" "c dvd step2 m"
  shows "alloc_result (matras_alloc_range af m c) m vs Own Out c"
proof -
  let ?n = "mv_block_count (mt_head m)"
  have n: "?n \<le> mt_capacity m" using matras_invD(7) [OF I, of "mt_self m"] by simp
  have a: "?n mod c = 0" "mt_extent_size m div mt_block_size m mod c = 0" using c blocks_in_extent [OF matras_invD(1) [OF I]] by auto
  show ?thesis
  proof (cases "?n + c > mt_capacity m")
    case True
    then show ?thesis using alloc_result_full [OF I] n a c(1) by (simp add: matras_alloc_range_def)
  next
    case False
    then have "alloc_request m ?n c" using c range_gap [OF c(2,3)] by (auto simp: alloc_request_def)
    from alloc_result_run [OF I af this] show ?thesis using False n a c(1) by (simp add: matras_alloc_range_def)
  qed
qed

section \<open>Deallocation\<close>

lemma inv_shrink:
  assumes I: "matras_inv m vs Own R Out" and i: "i \<le> mv_block_count (mt_head m)"
    and un: "\<And>q. i \<le> pos_start m q \<Longrightarrow> pos_start m q < mv_block_count (mt_head m) \<Longrightarrow> unshared m vs q"
  defines "M \<equiv> upd_head (\<lambda>v. v\<lparr>mv_block_count := i\<rparr>) m"
  shows "matras_inv M vs Own R Out" and "lay M (mt_self m) q = (if pos_start m q < i then lay m (mt_self m) q else None)" and "w \<in> set vs \<Longrightarrow> lay M w = lay m w"
proof -
  note J = matras_invD [OF I] and g = geomD [OF upd_view_simps(1) [of "mt_self m" "\<lambda>v. v\<lparr>mv_block_count := i\<rparr>" m], folded M_def]
  let ?r = "mv_root (mt_head m)" and ?n = "mv_block_count (mt_head m)"
  have self: "mt_self m \<notin> set vs" using J(3) by simp
  have lm: "lay M (mt_self m) = layout_of m ?r i" by (simp add: M_def)
  show l: "lay M (mt_self m) q = (if pos_start m q < i then lay m (mt_self m) q else None)" for q unfolding lm using i by (simp add: layout_of_def)
  show lw: "lay M w = lay m w" if "w \<in> set vs" for w using self that by (auto simp: M_def)
  have mp: "map (lay M) vs = map (lay m) vs" by (rule map_cong [OF refl lw])
  have "cow (slots m) (lay M (mt_self m) # map (lay m) vs)"
  proof (rule cow_head_shrink)
    show "cow (slots m) (lay m (mt_self m) # map (lay m) vs)" using J(8) by simp
    show "lay M (mt_self m) p = lay m (mt_self m) p \<or> (lay M (mt_self m) p = None \<and> (\<forall>g \<in> set (map (lay m) vs). \<not> same_at (lay m (mt_self m)) g p))" for p
    proof (cases "i \<le> pos_start m p \<and> pos_start m p < ?n")
      case True
      then show ?thesis using l [of p] un [of p] by (auto simp: unshared_def)
    next
      case False
      then show ?thesis using l [of p] by (auto simp: layout_of_def)
    qed
    show "same_at (lay m (mt_self m)) g x" if "g \<in> set (map (lay m) vs)" "same_at (lay m (mt_self m)) g p" "below (slots m) p x" "lay m (mt_self m) x \<noteq> None" "g x \<noteq> None" for g p x
      using that layout_same_below by auto
  qed
  then have cow: "cow (slots m) (map (lay M) (mt_self m # vs))" unfolding list.map mp by simp
  have "ran (lay M (mt_self m)) \<subseteq> ran (lay m (mt_self m))" using l by (auto simp: ran_def split: if_splits)
  then have rs: "ran (lay M w) \<subseteq> Own" if "w \<in> set (mt_self m # vs)" for w using that lw J(9) by (metis set_ConsD subset_trans list.set_intros)
  have "views_linked M (mt_self m) vs" using J(6) self by (subst views_linked_frame [of vs M m]) (auto simp: M_def)
  moreover have "i \<le> mt_capacity m" using i J(7) [of "mt_self m"] by simp
  ultimately show "matras_inv M vs Own R Out"
    unfolding matras_inv_def g using J(1-5,7) cow rs by (auto simp: M_def simp del: cow.simps list.map)
qed

text \<open>What deallocation leaves: the views as they were, the head with its last blocks gone.\<close>

definition dealloc_rel :: "matras \<Rightarrow> matras \<Rightarrow> addr list \<Rightarrow> addr set \<Rightarrow> nat \<Rightarrow> bool" where
  "dealloc_rel m m' vs Out i \<longleftrightarrow> geom m' = geom m \<and> (\<forall>w \<in> set vs. keeps_view m m' w \<and> mt_views m' w = mt_views m w) \<and> (\<forall>x \<in> Out. ext_bytes m' x = ext_bytes m x) \<and>
     mv_block_count (mt_head m') = i \<and> (\<forall>k. k * step2 m < i \<longrightarrow> view_bytes m' (mt_self m) k = view_bytes m (mt_self m) k) \<and>
     (\<forall>w \<in> set vs. \<forall>k. same_at (lay m' (mt_self m)) (lay m' w) (Low k) \<longrightarrow> k * step2 m + step2 m \<le> i)"

text \<open>Freeing the extents that began at the block that went.\<close>

definition dealloc_free :: "matras \<Rightarrow> bool \<Rightarrow> bool \<Rightarrow> bool \<Rightarrow> addr \<Rightarrow> addr \<Rightarrow> addr \<Rightarrow> matras option" where
  "dealloc_free m f1 f2 f3 e1 e2 e3 = do {
     m \<leftarrow> (if f3 then matras_free_extent m e3 else Some m);
     m \<leftarrow> (if f2 then matras_free_extent m e2 else Some m);
     (if f1 then matras_free_extent m e1 else Some m) }"

lemma dealloc_free_spec:
  assumes I: "matras_inv m vs Own R Out" and e: "f1 \<Longrightarrow> e1 \<in> Own \<and> fresh_ext m vs e1" "f2 \<Longrightarrow> e2 \<in> Own \<and> fresh_ext m vs e2" "f3 \<Longrightarrow> e3 \<in> Own \<and> fresh_ext m vs e3"
    and d: "e1 \<noteq> e2" "e1 \<noteq> e3" "e2 \<noteq> e3"
  obtains m' where "dealloc_free m f1 f2 f3 e1 e2 e3 = Some m'" "core m' = core m" "matras_inv m' vs (drop_new f1 e1 (drop_new f2 e2 (drop_new f3 e3 Own))) R Out"
proof -
  obtain m3 where a: "(if f3 then matras_free_extent m e3 else Some m) = Some m3" "core m3 = core m" "matras_inv m3 vs (drop_new f3 e3 Own) R Out"
    by (rule free_new_spec [OF I, of f3 e3]) (use e(3) in auto)
  obtain m2 where b: "(if f2 then matras_free_extent m3 e2 else Some m3) = Some m2" "core m2 = core m3" "matras_inv m2 vs (drop_new f2 e2 (drop_new f3 e3 Own)) R Out"
    by (rule free_new_spec [OF a(3), of f2 e2]) (use e(2) d fresh_grow [OF grow_rel_core [OF a(2)]] in \<open>auto simp: drop_new_def\<close>)
  have c2: "core m2 = core m" using a(2) b(2) by simp
  obtain m1 where c: "(if f1 then matras_free_extent m2 e1 else Some m2) = Some m1" "core m1 = core m2" "matras_inv m1 vs (drop_new f1 e1 (drop_new f2 e2 (drop_new f3 e3 Own))) R Out"
    by (rule free_new_spec [OF b(3), of f1 e1]) (use e(1) d fresh_grow [OF grow_rel_core [OF c2]] in \<open>auto simp: drop_new_def\<close>)
  show thesis by (rule that [of m1]) (use a b c c2 in \<open>simp_all add: dealloc_free_def\<close>)
qed

lemma dealloc_run:
  assumes "geom_ok m" and n: "0 < mv_block_count (mt_head m)" "mv_block_count (mt_head m) \<le> 2 ^ 32" and t: "matras_touch af m (mv_block_count (mt_head m) - 1) = Some (p, m1)" and g: "geom m1 = geom m"
  defines "i \<equiv> mv_block_count (mt_head m) - 1"
  defines "M \<equiv> upd_head (\<lambda>v. v\<lparr>mv_block_count := i\<rparr>) m1"
  shows "matras_dealloc af m = (if i mod step2 m = 0 then do {
      e2 \<leftarrow> load_slot M (mv_root (mt_head M)) (i div step2 m div slots m);
      e3 \<leftarrow> load_slot M e2 (i div step2 m mod slots m);
      dealloc_free M (i = 0) (i mod step1 m = 0) True (mv_root (mt_head M)) e2 e3 } else Some M)"
proof -
  have am: "x AND (2 ^ s - 1) = x mod 2 ^ s" for x s :: nat by (metis mask_eq_exp_minus_1 take_bit_eq_mask take_bit_eq_mod)
  have gM: "geom M = geom m" using g by (simp add: M_def)
  note gd = geomD [OF gM]
  have mk: "i AND mask1 m = i mod step1 m" "x AND mask2 m = x mod step2 m" for x using assms(1) by (rule geom_cases, simp only: am)+
  have mm: "i mod step1 m mod step2 m = i mod step2 m" by (rule mod_mod_cancel) (simp add: geom_step1 [OF assms(1)])
  have i32: "i mod 2 ^ 32 = i" using n by (simp add: i_def)
  have id12: "drop_bit (shift1 m) i = i div step2 m div slots m" "drop_bit (shift2 m) (i mod step1 m) = i div step2 m mod slots m"
    using id_parts(1,2) [OF assms(1), of i] mk(1) by (simp_all add: id_n1_def id_n2_def)
  have f: "i mod step2 m = 0" if "i mod step1 m = 0 \<or> i = 0" using that pos_start_eq(5) [OF assms(1), of i] by auto
  have n0: "mv_block_count (mt_head m) \<noteq> 0" using n(1) by simp
  have t': "matras_touch af m i = Some (p, m1)" using t by (simp add: i_def)
  have run: "matras_dealloc af m = (if i = 0 \<or> i mod step1 m = 0 \<or> i mod step2 m = 0 then do {
      e2 \<leftarrow> load_slot M (mv_root (mt_head M)) (i div step2 m div slots m);
      e3 \<leftarrow> load_slot M e2 (i div step2 m mod slots m);
      dealloc_free M (i = 0) (i mod step1 m = 0) (i mod step2 m = 0) (mv_root (mt_head M)) e2 e3 } else Some M)"
    unfolding matras_dealloc_def i_def [symmetric] i32 dealloc_free_def
    by (simp only: t' c_assert_bind n0 not_False_eq_True if_True Option.bind.simps prod.case Let_def M_def [symmetric] gd mk mm id12)
  show ?thesis
  proof (cases "i mod step2 m = 0")
    case False
    then show ?thesis using run f by (metis (no_types, lifting))
  qed (simp add: run)
qed

lemma keeps_same: "ext_bytes m' = ext_bytes m \<Longrightarrow> lay m' w = lay m w \<Longrightarrow> mt_views m' w = mt_views m w \<Longrightarrow> keeps_view m m' w"
  unfolding keeps_view_def by (intro conjI ext) (simp_all add: view_bytes_def)

lemma ext_bytes_same: "geom m' = geom m \<Longrightarrow> xh_byte (mt_heap m') = xh_byte (mt_heap m) \<Longrightarrow> ext_bytes m' = ext_bytes m"
  using geomD(3) [of m' m] by (simp add: fun_eq_iff ext_bytes_def)

lemma dealloc_rel_core:
  assumes "dealloc_rel m M vs Out i" and "core m' = core M"
  shows "dealloc_rel m m' vs Out i"
proof -
  note g = coreD(1) [OF assms(2)] and v = coreD(2) [OF assms(2)]
  have e: "ext_bytes m' = ext_bytes M" by (rule ext_bytes_same [OF g coreD(4) [OF assms(2)]])
  note l = lay_core [OF assms(2)]
  have vb: "view_bytes m' w k = view_bytes M w k" for w k unfolding view_bytes_def l e ..
  have k: "keeps_view m m' w" if "keeps_view m M w" for w by (rule keeps_view_trans [OF that keeps_core [OF assms(2)]])
  show ?thesis using assms(1) k unfolding dealloc_rel_def vb e g layout_core [OF assms(2)] v geomD(1) [OF g] by blast
qed

text \<open>Setting the block count of the head to the last block, once it is touched.\<close>

lemma dealloc_shrink:
  assumes I: "matras_inv m vs Own R Out" and n: "mv_block_count (mt_head m) = Suc i" and I1: "matras_inv m1 vs Own1 R1 Out" and T: "touch_rel m m1 vs Own Own1 Out"
    and un: "\<And>q. below (slots m) q (Low (i div step2 m)) \<Longrightarrow> pos_start m q = i div step2 m * step2 m \<Longrightarrow> unshared m1 vs q"
  defines "M \<equiv> upd_head (\<lambda>v. v\<lparr>mv_block_count := i\<rparr>) m1"
  shows "matras_inv M vs Own1 R1 Out" and "\<And>q. lay M (mt_self m) q = (if pos_start m q < i then lay m1 (mt_self m) q else None)" and "\<And>w. w \<in> set vs \<Longrightarrow> lay M w = lay m1 w"
    and "\<And>q. pos_start m q = i \<Longrightarrow> unshared m1 vs q" and "mv_block_count (mt_head m1) = Suc i" and "\<And>q x. pos_start m q = i \<Longrightarrow> lay m1 (mt_self m) q = Some x \<Longrightarrow> x \<in> Own1 \<and> fresh_ext M vs x"
proof -
  note R = touch_relD [OF T] and g = geomD [OF touch_relD(1) [OF T]] and J = matras_invD [OF I] and q = pos_start_eq [OF matras_invD(1) [OF I]]
  show c: "mv_block_count (mt_head m1) = Suc i" using R(5) [of "mt_self m"] n g(1) by (simp add: keeps_view_def)
  show u: "unshared m1 vs p" if "pos_start m p = i" for p
  proof (rule un)
    have z: "i mod step2 m = 0" using q(4) [of p] that by (simp add: dvd_imp_mod_0)
    then show "pos_start m p = i div step2 m * step2 m" using that by auto
    show "below (slots m) p (Low (i div step2 m))" using that q(1-3) by (cases p) (auto simp del: pos_start.simps)
  qed
  have s: "pos_start m1 p = i" if "i \<le> pos_start m1 p" "pos_start m1 p < mv_block_count (mt_head m1)" for p using that c by simp
  have un': "unshared m1 vs p" if "i \<le> pos_start m1 p" "pos_start m1 p < mv_block_count (mt_head m1)" for p by (rule u) (use s [OF that] g in simp)
  have le: "i \<le> mv_block_count (mt_head m1)" using c by simp
  note S = inv_shrink [OF I1 le un']
  show "matras_inv M vs Own1 R1 Out" unfolding M_def by (rule S(1))
  show l: "lay M (mt_self m) p = (if pos_start m p < i then lay m1 (mt_self m) p else None)" for p using S(2) [of p] unfolding M_def g .
  show lw: "lay M w = lay m1 w" if "w \<in> set vs" for w unfolding M_def by (rule S(3) [OF _ _ that])
  show "x \<in> Own1 \<and> fresh_ext M vs x" if p: "pos_start m p = i" "lay m1 (mt_self m) p = Some x" for p x
  proof
    have p': "lay m1 (mt_self m1) p = Some x" using p(2) g(1) by simp
    show "x \<in> Own1" using inv_live [OF I1 _ p'] by simp
    have op: "own_pos (lay m1 (mt_self m1)) (lay m1 (mt_self m1))" by (rule inv_own_pos [OF I1]) simp_all
    have "x \<notin> ran (lay M (mt_self m))"
    proof
      assume "x \<in> ran (lay M (mt_self m))"
      then obtain r where r: "lay M (mt_self m) r = Some x" by (auto simp: ran_def)
      then have "lay m1 (mt_self m) r = Some x" "pos_start m r < i" using l [of r] by (auto split: if_splits)
      moreover from this have "r = p" using op p(2) g(1) unfolding own_pos_def by metis
      ultimately show False using p(1) by simp
    qed
    moreover have "x \<notin> ran (lay M w)" if "w \<in> set vs" for w unfolding lw [OF that] by (rule unshared_notin [OF I1 u [OF p(1)] p' that])
    ultimately show "fresh_ext M vs x" using g(1) by (simp add: fresh_ext_def M_def)
  qed
qed

end
