(* ===== verification/Matras_Views.thy ===== *)
theory Matras_Views
  imports Matras_Blocks
begin

text \<open>
  Deallocation, and the creation and destruction of read views. A new view shares everything with the head;
  a view that goes frees the extents that neither neighbour shares.
\<close>

section \<open>Deallocation\<close>

lemma dealloc_spec:
  assumes I: "matras_inv m vs Own R Out" and af: "alloc_ok af (mt_extent_size m)" and n: "mv_block_count (mt_head m) = Suc i"
    and ok: "\<And>m'. matras_touch af m i \<noteq> Some (NULL, m')"
  obtains m' Own' R' where "matras_dealloc af m = Some m'" "matras_inv m' vs Own' R' Out" "dealloc_rel m m' vs Out i" "exact m vs Own \<longrightarrow> exact m' vs Own'"
proof -
  have lt: "i < mv_block_count (mt_head m)" using n by simp
  show thesis
  proof (rule touch_spec [OF I af lt])
    fix m' Own' assume "matras_touch af m i = Some (NULL, m')"
    then show thesis using ok by blast
  next
    fix e m1 Own1 R1
    assume t: "matras_touch af m i = Some (e + i mod step2 m * mt_block_size m, m1)" "matras_inv m1 vs Own1 R1 Out" "touch_rel m m1 vs Own Own1 Out"
      "lay m1 (mt_self m) (Low (i div step2 m)) = Some e" "e \<noteq> NULL"
      "\<And>q. below (slots m) q (Low (i div step2 m)) \<Longrightarrow> pos_start m q = i div step2 m * step2 m \<Longrightarrow> unshared m1 vs q"
    note J = matras_invD [OF I] and T = touch_relD [OF t(3)] and g = geomD [OF touch_relD(1) [OF t(3)]] and q = pos_start_eq [OF matras_invD(1) [OF I]]
    let ?M = "upd_head (\<lambda>v. v\<lparr>mv_block_count := i\<rparr>) m1" and ?k = "i div step2 m"
    note S = dealloc_shrink [OF I n t(2,3,6)]
    have IM: "matras_inv ?M vs Own1 R1 Out" by (rule S(1))
    have lM: "lay ?M (mt_self m) q = (if pos_start m q < i then lay m1 (mt_self m) q else None)" for q by (rule S(2))
    have lw: "lay ?M w = lay m1 w" if "w \<in> set vs" for w by (rule S(3)) (assumption | rule that)+
    have fr: "x \<in> Own1 \<and> fresh_ext ?M vs x" if "pos_start m q = i" "lay m1 (mt_self m) q = Some x" for q x by (rule S(6)) (assumption | rule that)+
    have c1: "mv_block_count (mt_head m1) = Suc i" by (rule S(5))
    have gM: "geom ?M = geom m" using T(1) by simp
    have self: "mt_self m1 \<in> set (mt_self m1 # vs)" by simp
    have n32: "mv_block_count (mt_head m) \<le> 2 ^ 32" using J(7) [of "mt_self m"] geom_capacity(2) [OF J(1)] by simp
    obtain e2 where e2: "lay m1 (mt_self m1) (Mid (?k div slots m1)) = Some e2" by (rule lay_low_mid [OF t(2) self]) (use t(4) g(1) in simp)
    have e3: "lay m1 (mt_self m1) (Low ?k) = Some e" using t(4) g(1) by simp
    let ?r = "mv_root (mt_head m1)"
    have e1: "lay m1 (mt_self m1) Top = Some ?r" using c1 by (simp add: layout_of_def)
    have op: "own_pos (lay m1 (mt_self m1)) (lay m1 (mt_self m1))" by (rule inv_own_pos [OF t(2)]) simp_all
    have d: "?r \<noteq> e2" "?r \<noteq> e" "e2 \<noteq> e" using op e1 e2 e3 unfolding own_pos_def by (metis slot_pos.distinct)+
    have run: "matras_dealloc af m = (if i mod step2 m = 0 then dealloc_free ?M (i = 0) (i mod step1 m = 0) True ?r e2 e else Some ?M)"
      using dealloc_run [OF J(1) _ n32, of af _ m1] n t(1) T(1) load_mid(1) [OF t(2) self e2] load_low [OF t(2) self e3 e2] g(7)
      by (simp add: load_slot_def)
    have bM: "ext_bytes ?M = ext_bytes m1" by simp
    have vM: "mt_views ?M w = mt_views m1 w" "lay ?M w = lay m1 w" if "w \<in> set vs" for w using J(3) g(1) that lw by auto
    have relM: "dealloc_rel m ?M vs Out i"
      unfolding dealloc_rel_def
    proof (intro conjI ballI allI impI)
      show "keeps_view m ?M w" if "w \<in> set vs" for w
        by (rule keeps_view_trans [OF T(5) keeps_same [OF bM vM(2,1)]]) (use that in simp_all)
      show "view_bytes ?M (mt_self m) k = view_bytes m (mt_self m) k" if "k * step2 m < i" for k
      proof -
        have "view_bytes ?M (mt_self m) k = view_bytes m1 (mt_self m) k" unfolding view_bytes_def lM bM using that by simp
        then show ?thesis using T(5) [of "mt_self m"] by (simp add: keeps_view_def)
      qed
      show "k * step2 m + step2 m \<le> i" if w: "w \<in> set vs" and s: "same_at (lay ?M (mt_self m)) (lay ?M w) (Low k)" for w k
      proof -
        have k: "k * step2 m < i" "same_at (lay m1 (mt_self m)) (lay m1 w) (Low k)" using s lM [of "Low k"] lw [OF w] by (auto simp: same_at_def split: if_splits)
        moreover have "unshared m1 vs (Low ?k)" by (rule t(6)) simp_all
        ultimately have "k \<noteq> ?k" using w g(1) by (auto simp: unshared_def)
        moreover have "k \<le> ?k" using k(1) geom_step2_pos [OF J(1)] by (simp add: less_eq_div_iff_mult_less_eq)
        ultimately have "Suc k * step2 m \<le> ?k * step2 m" by (intro mult_le_mono1) simp
        then show ?thesis using div_times_less_eq_dividend [of i "step2 m"] by (simp del: div_times_less_eq_dividend)
      qed
    qed (use gM T(3,6) vM bM g(1) in auto)
    have lost: "x \<in> (\<Union>w \<in> set (mt_self m # vs). ran (lay ?M w)) \<or> (\<exists>q. pos_start m q = i \<and> lay m1 (mt_self m) q = Some x)" if ex: "exact m vs Own" and xO: "x \<in> Own1" for x
    proof -
      have "exact m1 vs Own1" by (rule exact_touch [OF ex t(3)])
      then obtain w p where "w \<in> set (mt_self m1 # vs)" "lay m1 w p = Some x" by (rule exactE [OF _ xO])
      then have w: "w \<in> set (mt_self m # vs)" "lay m1 w p = Some x" unfolding g(1) .
      show ?thesis
      proof (cases "w = mt_self m")
        case True
        have "pos_start m p < Suc i" using lay_start [of m1 w p] w(2) c1 True g(1) by (simp add: geomD(14) [OF T(1)])
        then show ?thesis using w lM [of p] True by (cases "pos_start m p = i") (auto simp: ran_def)
      next
        case False
        then have wv: "w \<in> set vs" using w(1) by simp
        have "lay ?M w p = Some x" unfolding lw [OF wv] by (rule w(2))
        then have "x \<in> ran (lay ?M w)" by (rule ranI)
        then show ?thesis using w(1) by blast
      qed
    qed
    show thesis
    proof (cases "i mod step2 m = 0")
      case False
      have "pos_start m q \<noteq> i" for q using False q(4) [of q] by auto
      then have "exact ?M vs Own1" if "exact m vs Own" using lost [OF that] unfolding exact_def geomD(1) [OF gM] by blast
      then show thesis using False run IM relM by (intro that [of ?M Own1 R1]) simp_all
    next
      case True
      have f1: "i = 0 \<Longrightarrow> ?r \<in> Own1 \<and> fresh_ext ?M vs ?r" by (rule fr [of Top]) (use e1 g(1) in simp_all)
      have f2: "i mod step1 m = 0 \<Longrightarrow> e2 \<in> Own1 \<and> fresh_ext ?M vs e2" by (rule fr [of "Mid (?k div slots m)"]) (use e2 g(1,7) q(2) in \<open>simp_all del: pos_start.simps\<close>)
      have f3: "True \<Longrightarrow> e \<in> Own1 \<and> fresh_ext ?M vs e" by (rule fr [of "Low ?k"]) (use e3 g(1) q(1) True in \<open>simp_all del: pos_start.simps\<close>)
      let ?O = "drop_new (i = 0) ?r (drop_new (i mod step1 m = 0) e2 (drop_new True e Own1))"
      obtain m' where m': "dealloc_free ?M (i = 0) (i mod step1 m = 0) True ?r e2 e = Some m'" "core m' = core ?M" "matras_inv m' vs ?O R1 Out"
        by (rule dealloc_free_spec [OF IM f1 f2 f3 d])
      have "exact m' vs ?O" if ex: "exact m vs Own"
        unfolding exact_def layout_core [OF m'(2)] coreD(2) [OF m'(2)] geomD(1) [OF coreD(1) [OF m'(2)]]
      proof
        fix x assume x: "x \<in> ?O"
        have False if p: "pos_start m p = i" "lay m1 (mt_self m) p = Some x" for p
        proof -
          have "p = Low ?k \<or> (p = Mid (?k div slots m) \<and> i mod step1 m = 0) \<or> (p = Top \<and> i = 0)" using p(1) q(1-3) by (cases p) (auto simp del: pos_start.simps)
          then show False using p(2) e1 e2 e3 g(1,7) x by (auto simp: drop_new_def split: if_splits)
        qed
        moreover have "x \<in> Own1" using x by (auto simp: drop_new_def split: if_splits)
        ultimately show "x \<in> (\<Union>w \<in> set (mt_self ?M # vs). ran (lay ?M w))" unfolding geomD(1) [OF gM] using lost [OF ex, of x] by blast
      qed
      then show thesis using True run m' dealloc_rel_core [OF relM m'(2)] by (intro that [of m' ?O R1]) simp_all
    qed
  qed
qed

text \<open>A range that divides the blocks of an extent lies in one extent; only its first block is touched.\<close>

lemma range_cut:
  assumes I: "matras_inv m vs Own R Out" and c: "0 < c" "c dvd mv_block_count (mt_head m)" "c dvd step2 m" and n: "mv_block_count (mt_head m) \<noteq> 0"
  defines "i \<equiv> mv_block_count (mt_head m) - c"
  shows "Suc i \<le> mv_block_count (mt_head m)" and "i + c = mv_block_count (mt_head m)" and "\<not> (Suc i \<le> pos_start m q \<and> pos_start m q < mv_block_count (mt_head m))"
    and "matras_inv (upd_head (\<lambda>v. v\<lparr>mv_block_count := Suc i\<rparr>) m) vs Own R Out"
proof -
  let ?n = "mv_block_count (mt_head m)"
  note J = matras_invD [OF I]
  have cn: "c \<le> ?n" using c(2) n by (intro dvd_imp_le) simp_all
  have ci: "c dvd i" unfolding i_def using c(2) by simp
  show le: "Suc i \<le> ?n" "i + c = ?n" using cn c(1) by (simp_all add: i_def)
  show no: "\<not> (Suc i \<le> pos_start m q \<and> pos_start m q < ?n)" for q
    using range_gap [OF ci c(3), of "pos_start m q"] pos_start_eq(4) [OF J(1), of q] le by auto
  show "matras_inv (upd_head (\<lambda>v. v\<lparr>mv_block_count := Suc i\<rparr>) m) vs Own R Out" by (rule inv_shrink(1) [OF I le(1)]) (use no in blast)
qed

lemma dealloc_range_spec:
  assumes I: "matras_inv m vs Own R Out" and af: "alloc_ok af (mt_extent_size m)" and c: "0 < c" "c dvd mv_block_count (mt_head m)" "c dvd step2 m" and n: "mv_block_count (mt_head m) \<noteq> 0"
  defines "i \<equiv> mv_block_count (mt_head m) - c"
  defines "m0 \<equiv> upd_head (\<lambda>v. v\<lparr>mv_block_count := Suc i\<rparr>) m"
  assumes ok: "\<And>m'. matras_touch af m0 i \<noteq> Some (NULL, m')"
  obtains m' Own' R' where "matras_dealloc_range af m c = Some m'" "matras_inv m' vs Own' R' Out" "dealloc_rel m m' vs Out i" "exact m vs Own \<longrightarrow> exact m' vs Own'"
proof -
  let ?n = "mv_block_count (mt_head m)"
  note J = matras_invD [OF I]
  have n32: "?n \<le> 2 ^ 32" using J(7) [of "mt_self m"] geom_capacity(2) [OF J(1)] by simp
  note cut = range_cut [OF I c n, folded i_def]
  note le = cut(1,2) and no = cut(3) and I0 = cut(4) [folded m0_def]
  have l0: "lay m0 (mt_self m) = lay m (mt_self m)"
  proof
    fix q
    have "lay m0 (mt_self m) q = (if pos_start m q < Suc i then lay m (mt_self m) q else None)" unfolding m0_def by (rule inv_shrink(2) [OF I le(1)]) (use no in blast)
    then show "lay m0 (mt_self m) q = lay m (mt_self m) q" using no [of q] by (auto simp: layout_of_def)
  qed
  have g0: "geom m0 = geom m" "mt_self m0 = mt_self m" "mt_views m0 w = mt_views m w" if "w \<noteq> mt_self m" for w using that by (simp_all add: m0_def)
  have lw: "lay m0 w = lay m w" if "w \<in> set (mt_self m # vs)" for w
  proof (cases "w = mt_self m")
    case False
    then show ?thesis by (simp add: m0_def)
  qed (simp add: l0)
  have b0: "ext_bytes m0 = ext_bytes m" by (simp add: m0_def)
  have vb: "view_bytes m0 w k = view_bytes m w k" if "w \<in> set (mt_self m # vs)" for w k unfolding view_bytes_def lw [OF that] b0 ..
  have geo: "geom m0 = geom m" "mt_self m0 = mt_self m" by (simp_all add: m0_def)
  have af0: "alloc_ok af (mt_extent_size m0)" using af geomD(3) [OF geo(1)] by simp
  have n0: "mv_block_count (mt_head m0) = Suc i" by (simp add: m0_def)
  have "int ?n - (int c - 1) = int (Suc i)" using le(2) by linarith
  then have cnt: "nat ((int ?n - (int c - 1)) mod 2 ^ 64) = Suc i" using le n32 by (intro nat_mod_power) simp_all
  have a: "?n mod c = 0" "mt_extent_size m div mt_block_size m mod c = 0" using c blocks_in_extent [OF J(1)] by auto
  have m0: "upd_head (\<lambda>v. v\<lparr>mv_block_count := nat ((int (mv_block_count v) - (int c - 1)) mod 2 ^ 64)\<rparr>) m = m0" unfolding m0_def upd_view_def cnt ..
  have run: "matras_dealloc_range af m c = matras_dealloc af m0" unfolding matras_dealloc_range_def m0 using a c(1) by simp
  have e0: "exact m vs Own \<Longrightarrow> exact m0 vs Own" by (rule exact_cong [OF _ geo(2) lw]) auto
  show thesis
  proof (rule dealloc_spec [OF I0 af0 n0 ok])
    fix m' Own' R' assume d: "matras_dealloc af m0 = Some m'" "matras_inv m' vs Own' R' Out" "dealloc_rel m0 m' vs Out i" "exact m0 vs Own \<longrightarrow> exact m' vs Own'"
    have vs0: "mt_views m0 w = mt_views m w" if "w \<in> set vs" for w using J(3) that by (auto simp: m0_def)
    have "dealloc_rel m m' vs Out i"
      unfolding dealloc_rel_def
    proof (intro conjI ballI allI impI)
      show "keeps_view m m' w" if w: "w \<in> set vs" for w
        by (rule keeps_view_trans [of m m0]) (use d(3) w vs0 [OF w] vb [of w] in \<open>auto simp: dealloc_rel_def keeps_view_def\<close>)
      show "view_bytes m' (mt_self m) k = view_bytes m (mt_self m) k" if "k * step2 m < i" for k
        using d(3) that vb [of "mt_self m" k] geo geomD(6) [OF geo(1)] by (simp add: dealloc_rel_def)
      show "k * step2 m + step2 m \<le> i" if "w \<in> set vs" "same_at (lay m' (mt_self m)) (lay m' w) (Low k)" for w k
        using d(3) that geo geomD(6) [OF geo(1)] unfolding dealloc_rel_def by metis
    qed (use d(3) geo vs0 b0 in \<open>auto simp: dealloc_rel_def\<close>)
    then show thesis using that [of m' Own' R'] run d e0 by simp
  qed
qed

section \<open>Creating a view\<close>

lemma layout_same:
  assumes "geom m' = geom m" and "xh_ptr (mt_heap m') = xh_ptr (mt_heap m)"
  shows "layout_of m' = layout_of m"
proof -
  have "layout_of m' r n p = layout_of m r n p" for r n p by (cases p) (simp_all add: layout_of_def geomD [OF assms(1)] assms(2))
  then show ?thesis by (simp add: fun_eq_iff)
qed

lemma create_view_views:
  assumes "v \<noteq> mt_self m" and "mv_prev (mt_head m) \<noteq> mt_self m" and "mv_prev (mt_head m) \<noteq> v"
  shows "mt_views (matras_create_read_view m v) w =
    (if w = v then (mt_head m)\<lparr>mv_next := mt_self m\<rparr> else if w = mt_self m then (mt_head m)\<lparr>mv_prev := v\<rparr>
     else if w = mv_prev (mt_head m) \<and> w \<noteq> NULL then (mt_views m w)\<lparr>mv_next := v\<rparr> else mt_views m w)"
    and "geom (matras_create_read_view m v) = geom m" and "mt_heap (matras_create_read_view m v) = mt_heap m" and "mt_self (matras_create_read_view m v) = mt_self m"
    and "heap_ok (matras_create_read_view m v) Own R Out = heap_ok m Own R Out"
  using assms by (auto simp: matras_create_read_view_def Let_def)

lemma create_view_spec:
  assumes I: "matras_inv m vs Own R Out" and v: "v \<notin> set (mt_self m # vs)" "v \<noteq> NULL"
  shows "matras_inv (matras_create_read_view m v) (v # vs) Own R Out"
    and "lay (matras_create_read_view m v) v = lay m (mt_self m)" and "\<And>w. w \<in> set (mt_self m # vs) \<Longrightarrow> lay (matras_create_read_view m v) w = lay m w"
    and "\<And>w. w \<in> set (mt_self m # vs) \<Longrightarrow> keeps_view m (matras_create_read_view m v) w" and "view_bytes (matras_create_read_view m v) v = view_bytes m (mt_self m)"
    and "exact m vs Own \<Longrightarrow> exact (matras_create_read_view m v) (v # vs) Own"
    and "\<And>w. w \<in> set vs \<Longrightarrow> mv_block_count (mt_views (matras_create_read_view m v) w) = mv_block_count (mt_views m w)"
proof -
  let ?M = "matras_create_read_view m v"
  note J = matras_invD [OF I]
  have pv: "mv_prev (mt_head m) \<noteq> mt_self m" "mv_prev (mt_head m) \<noteq> v" using J(3,4,6) v by (cases vs; auto)+
  have vs': "v \<noteq> mt_self m" using v by simp
  note C = create_view_views [OF vs' pv] and g = geomD [OF create_view_views(2) [OF vs' pv]]
  have lo: "layout_of ?M = layout_of m" by (rule layout_same) (simp_all add: C(2,3))
  have eb: "ext_bytes ?M = ext_bytes m" by (rule ext_bytes_same) (simp_all add: C(2,3))
  have rc: "mv_root (mt_views ?M w) = mv_root (mt_views m w)" "mv_block_count (mt_views ?M w) = mv_block_count (mt_views m w)" if "w \<in> set (mt_self m # vs)" for w
    using v that by (auto simp: C(1))
  show lw: "lay ?M w = lay m w" if "w \<in> set (mt_self m # vs)" for w unfolding lo rc [OF that] ..
  show lv: "lay ?M v = lay m (mt_self m)" by (simp add: lo C(1))
  show "keeps_view m ?M w" if "w \<in> set (mt_self m # vs)" for w
    unfolding keeps_view_def by (intro conjI ext) (simp_all only: view_bytes_def lo rc [OF that] eb)
  show "view_bytes ?M v = view_bytes m (mt_self m)" by (rule ext) (simp only: view_bytes_def lv eb)
  show "mv_block_count (mt_views ?M w) = mv_block_count (mt_views m w)" if "w \<in> set vs" for w using rc(2) that by simp
  show "exact ?M (v # vs) Own" if e: "exact m vs Own"
    unfolding exact_def g(1)
  proof
    fix x assume "x \<in> Own"
    then obtain w p where w: "w \<in> set (mt_self m # vs)" "lay m w p = Some x" by (rule exactE [OF e])
    then have "lay ?M w p = Some x" using lw [OF w(1)] by simp
    then have "x \<in> ran (lay ?M w)" by (rule ranI)
    moreover have "w \<in> set (mt_self m # v # vs)" using w(1) by auto
    ultimately show "x \<in> (\<Union>w \<in> set (mt_self m # v # vs). ran (lay ?M w))" by blast
  qed
  have "cow (slots m) (lay m (mt_self m) # map (lay m) vs)" using J(8) by simp
  then have "cow (slots m) (lay m (mt_self m) # lay m (mt_self m) # map (lay m) vs)" by (rule cow_dup)
  moreover have ls: "lay ?M (mt_self m) = lay m (mt_self m)" by (rule lw) simp
  moreover have "map (lay ?M) vs = map (lay m) vs" by (rule map_cong [OF refl lw]) simp
  ultimately have cow: "cow (slots m) (map (lay ?M) (mt_self m # v # vs))" unfolding list.map lv ls by (simp only:)
  have rs: "ran (lay ?M w) \<subseteq> Own" if "w \<in> set (mt_self m # v # vs)" for w
    using that lw lv J(9) by (metis list.set_intros(1) set_ConsD list.set_intros(2))
  have cap: "mv_block_count (mt_views ?M w) \<le> mt_capacity m" if "w \<in> set (mt_self m # v # vs)" for w
    using that rc(2) J(7) [of w] J(7) [of "mt_self m"] by (cases "w = v") (auto simp: C(1))
  have "views_linked ?M (mt_self m) (v # vs)"
  proof (cases vs)
    case Nil
    then show ?thesis using J(6) v by (simp add: C(1))
  next
    case (Cons p ws)
    have p: "mv_prev (mt_head m) = p" "p \<noteq> NULL" "p \<noteq> v" "p \<noteq> mt_self m" "views_linked m p ws" using J(3,4,6) v Cons by auto
    have "mt_views ?M w = mt_views m w" if "w \<in> set ws" for w using J(3) Cons that v p by (auto simp: C(1))
    then have "views_linked ?M p ws = views_linked m p ws" by (rule views_linked_frame) (use p in \<open>simp_all add: C(1)\<close>)
    then show ?thesis using Cons p v by (simp add: C(1))
  qed
  moreover have "mv_next (mt_views ?M (mt_self m)) = NULL" using J(5) v by (simp add: C(1))
  ultimately show "matras_inv ?M (v # vs) Own R Out"
    unfolding matras_inv_def g C(5) using J(1-4) cow rs cap v by auto
qed

end
