(* ===== verification/Matras_Destroy.thy ===== *)
theory Matras_Destroy
  imports Matras_Views
begin

text \<open>
  Destroying a read view: the loops free the extents of the view that no neighbour shares. This is safe
  in every case; whether it also frees all that is no longer needed depends on the order in which
  views are destroyed.
\<close>

section \<open>The view between its neighbours\<close>

definition neighbours :: "addr \<Rightarrow> addr \<Rightarrow> addr set" where
  "neighbours nv pv = insert nv (if pv = NULL then {} else {pv})"

definition shared_pos :: "matras \<Rightarrow> addr \<Rightarrow> addr \<Rightarrow> addr \<Rightarrow> slot_pos \<Rightarrow> bool" where
  "shared_pos m v nv pv p \<longleftrightarrow> (\<exists>w \<in> neighbours nv pv. same_at (lay m v) (lay m w) p)"

text \<open>What the loops rely on; the step must not wrap around at the end of the outer loop.\<close>

definition own_ctx :: "matras \<Rightarrow> addr \<Rightarrow> addr set \<Rightarrow> bool" where
  "own_ctx m v Own \<longleftrightarrow> geom_ok m \<and> mv_block_count (mt_views m v) + step1 m \<le> 2 ^ 32 \<and>
     mv_block_count (mt_views m v) \<le> mt_capacity m \<and> ran (lay m v) \<subseteq> Own \<and> own_pos (lay m v) (lay m v)"

definition view_ctx :: "matras \<Rightarrow> addr \<Rightarrow> addr \<Rightarrow> addr \<Rightarrow> addr set \<Rightarrow> bool" where
  "view_ctx m v nv pv Own \<longleftrightarrow> own_ctx m v Own \<and>
     (\<forall>w \<in> neighbours nv pv. mv_block_count (mt_views m w) \<le> mt_capacity m \<and> ran (lay m w) \<subseteq> Own \<and> own_pos (lay m v) (lay m w))"

lemma view_own: "view_ctx m v nv pv Own \<Longrightarrow> own_ctx m v Own"
  by (simp add: view_ctx_def)

definition ext_of :: "matras \<Rightarrow> addr \<Rightarrow> slot_pos \<Rightarrow> addr" where
  "ext_of m v p = ext_at m (mv_root (mt_views m v)) p"

lemma lay_ext_of: "lay m v p = (if pos_start m p < mv_block_count (mt_views m v) then Some (ext_of m v p) else None)"
  by (simp add: layout_of_def ext_of_def)

definition has_pos :: "matras \<Rightarrow> addr \<Rightarrow> slot_pos \<Rightarrow> bool" where
  "has_pos m v p \<longleftrightarrow> pos_start m p < mv_block_count (mt_views m v)"

text \<open>The positions whose extents go, below the root.\<close>

fun drop_pos :: "matras \<Rightarrow> addr \<Rightarrow> addr \<Rightarrow> addr \<Rightarrow> slot_pos \<Rightarrow> bool" where
  "drop_pos m v nv pv Top = False"
| "drop_pos m v nv pv (Mid i) = (has_pos m v (Mid i) \<and> \<not> shared_pos m v nv pv (Mid i))"
| "drop_pos m v nv pv (Low k) = (has_pos m v (Low k) \<and> \<not> shared_pos m v nv pv (Mid (k div slots m)) \<and> \<not> shared_pos m v nv pv (Low k))"

lemma drop_has: "drop_pos m v nv pv p \<Longrightarrow> has_pos m v p \<and> \<not> shared_pos m v nv pv p"
  by (cases p) auto

lemma drop_below: "drop_pos m v nv pv p \<Longrightarrow> p \<noteq> Top \<and> has_pos m v p"
  by (cases p) auto

text \<open>A state in which the extents of some of these positions are gone.\<close>

definition freed_state :: "matras \<Rightarrow> addr \<Rightarrow> addr set \<Rightarrow> addr list \<Rightarrow> addr set \<Rightarrow> slot_pos set \<Rightarrow> matras \<Rightarrow> bool" where
  "freed_state m v Own R Out A m' \<longleftrightarrow> core m' = core m \<and> heap_ok m' (Own - ext_of m v ` A) R Out"

lemma ctx_inj:
  assumes "own_ctx m v Own" and "has_pos m v p" and "has_pos m v q" and "ext_of m v p = ext_of m v q"
  shows "p = q"
proof -
  have "own_pos (lay m v) (lay m v)" using assms(1) by (simp add: view_ctx_def own_ctx_def)
  then show ?thesis using assms(2-4) unfolding own_pos_def by (metis lay_ext_of has_pos_def)
qed

text \<open>Extents of the view that are still there, and all extents of the neighbours, can be accessed.\<close>

lemma ctx_live_own:
  assumes "own_ctx m v Own" and "freed_state m v Own R Out A m'" and "\<And>q. q \<in> A \<Longrightarrow> has_pos m v q" and "has_pos m v p" and "p \<notin> A"
  shows "ext_of m v p \<in> Own - ext_of m v ` A" and "ext_of m v p \<in> xh_live (mt_heap m')"
proof -
  have "ext_of m v p \<in> ran (lay m v)" using assms(4) by (intro ranI [of _ p]) (simp add: lay_ext_of has_pos_def)
  moreover have "ran (lay m v) \<subseteq> Own" using assms(1) by (simp add: view_ctx_def own_ctx_def)
  moreover have "ext_of m v p \<notin> ext_of m v ` A" using ctx_inj [OF assms(1,4) assms(3)] assms(5) by blast
  ultimately show o: "ext_of m v p \<in> Own - ext_of m v ` A" by blast
  have "xh_live (mt_heap m') = Own - ext_of m v ` A \<union> set R \<union> Out" using assms(2) heap_okD(1) unfolding freed_state_def by blast
  then show "ext_of m v p \<in> xh_live (mt_heap m')" using o by blast
qed

lemma ctx_live_neighbour:
  assumes "view_ctx m v nv pv Own" and "freed_state m v Own R Out A m'" and "\<And>q. q \<in> A \<Longrightarrow> drop_pos m v nv pv q" and "w \<in> neighbours nv pv" and "has_pos m w p"
  shows "ext_of m w p \<in> xh_live (mt_heap m')"
proof -
  have l: "lay m w p = Some (ext_of m w p)" using assms(5) by (simp add: lay_ext_of has_pos_def)
  have c: "ran (lay m w) \<subseteq> Own" "own_pos (lay m v) (lay m w)" using assms(1,4) by (auto simp: view_ctx_def own_ctx_def)
  have "ext_of m w p \<notin> ext_of m v ` A"
  proof
    assume "ext_of m w p \<in> ext_of m v ` A"
    then obtain q where q: "q \<in> A" "ext_of m w p = ext_of m v q" by blast
    have d: "has_pos m v q" "\<not> shared_pos m v nv pv q" using drop_has [OF assms(3) [OF q(1)]] by auto
    have lq: "lay m v q = Some (ext_of m w p)" using d(1) q(2) by (simp add: lay_ext_of has_pos_def)
    then have "q = p" using c(2) l unfolding own_pos_def by blast
    then show False using d(2) lq l assms(4) by (auto simp: shared_pos_def same_at_def)
  qed
  moreover have "ext_of m w p \<in> Own" using c(1) ranI [of "lay m w" p, OF l] by blast
  moreover have "xh_live (mt_heap m') = Own - ext_of m v ` A \<union> set R \<union> Out" using assms(2) heap_okD(1) unfolding freed_state_def by blast
  ultimately show ?thesis by blast
qed

section \<open>The tests of the loops\<close>

lemma load_freed:
  assumes "geom_ok m" and "core m' = core m" and "e \<in> xh_live (mt_heap m')" and "i < slots m"
  shows "load_slot m' e i = Some (xh_ptr (mt_heap m) e i)"
proof -
  have "xh_size (mt_heap m') = xh_size (mt_heap m)" by (rule geomD(17) [OF coreD(1) [OF assms(2)]])
  then show ?thesis using assms(3,4) geom_size(2) [OF assms(1), of i] coreD(3) [OF assms(2)] by (simp add: load_slot_def ext_load_def)
qed

lemma has_above:
  assumes "geom_ok m" and "mv_block_count (mt_views m w) \<le> mt_capacity m"
  shows "has_pos m w (Low k) \<Longrightarrow> has_pos m w (Mid (k div slots m))" and "has_pos m w (Mid i) \<Longrightarrow> has_pos m w Top" and "has_pos m w (Mid i) \<Longrightarrow> i < slots m"
  using pos_in_tables [OF assms] by (auto simp: has_pos_def)

lemma same_at_ext:
  "has_pos m v p \<Longrightarrow> same_at (lay m v) (lay m w) p \<longleftrightarrow> has_pos m w p \<and> ext_of m v p = ext_of m w p"
  by (auto simp: same_at_def lay_ext_of has_pos_def)

lemma slot_mid:
  assumes C: "view_ctx m v nv pv Own" and F: "freed_state m v Own R Out A m'" and A: "\<And>q. q \<in> A \<Longrightarrow> drop_pos m v nv pv q"
    and w: "w \<in> neighbours nv pv" and i: "has_pos m v (Mid i)"
  shows "slot_shared m' w (i * step1 m) (mv_root (mt_views m' w)) i (ext_of m v (Mid i)) = Some (same_at (lay m v) (lay m w) (Mid i))"
    and "neighbour_table m' w (i * step1 m) i = Some (if has_pos m w (Mid i) then ext_of m w (Mid i) else NULL)"
proof -
  have c: "core m' = core m" using F by (simp add: freed_state_def)
  have g: "geom_ok m" and cap: "mv_block_count (mt_views m w) \<le> mt_capacity m" using C w by (auto simp: view_ctx_def own_ctx_def)
  note v' = coreD(2) [OF c]
  have load: "load_slot m' (mv_root (mt_views m w)) i = Some (ext_of m w (Mid i))" if h: "has_pos m w (Mid i)"
  proof -
    have "ext_of m w Top \<in> xh_live (mt_heap m')" by (rule ctx_live_neighbour [OF C F A w]) (use has_above(2) [OF g cap h] in simp_all)
    then show ?thesis using load_freed [OF g c _ has_above(3) [OF g cap h], of "ext_of m w Top"] by (simp add: ext_of_def)
  qed
  have h: "has_pos m w (Mid i) \<longleftrightarrow> i * step1 m < mv_block_count (mt_views m w)" by (simp add: has_pos_def)
  show "slot_shared m' w (i * step1 m) (mv_root (mt_views m' w)) i (ext_of m v (Mid i)) = Some (same_at (lay m v) (lay m w) (Mid i))"
    unfolding slot_shared_def v' same_at_ext [OF i] using load h by auto
  show "neighbour_table m' w (i * step1 m) i = Some (if has_pos m w (Mid i) then ext_of m w (Mid i) else NULL)"
    unfolding neighbour_table_def v' using load h by auto
qed

lemma slot_low:
  assumes C: "view_ctx m v nv pv Own" and F: "freed_state m v Own R Out A m'" and A: "\<And>q. q \<in> A \<Longrightarrow> drop_pos m v nv pv q"
    and w: "w \<in> neighbours nv pv" and k: "has_pos m v (Low k)"
  shows "slot_shared m' w (k * step2 m) (if has_pos m w (Mid (k div slots m)) then ext_of m w (Mid (k div slots m)) else NULL) (k mod slots m) (ext_of m v (Low k))
    = Some (same_at (lay m v) (lay m w) (Low k))"
proof -
  have c: "core m' = core m" using F by (simp add: freed_state_def)
  have g: "geom_ok m" and cap: "mv_block_count (mt_views m w) \<le> mt_capacity m" using C w by (auto simp: view_ctx_def own_ctx_def)
  have "load_slot m' (ext_of m w (Mid (k div slots m))) (k mod slots m) = Some (ext_of m w (Low k))" if h: "has_pos m w (Low k)"
  proof -
    have "ext_of m w (Mid (k div slots m)) \<in> xh_live (mt_heap m')" by (rule ctx_live_neighbour [OF C F A w]) (use has_above(1) [OF g cap h] in simp_all)
    then show ?thesis using load_freed [OF g c, of _ "k mod slots m"] geom_slots_pos [OF g] by (simp add: ext_of_def)
  qed
  moreover have "has_pos m w (Low k) \<longleftrightarrow> k * step2 m < mv_block_count (mt_views m w)" by (simp add: has_pos_def)
  ultimately show ?thesis
    unfolding slot_shared_def coreD(2) [OF c] same_at_ext [OF k] using has_above(1) [OF g cap, of k] by auto
qed

lemma free_pos:
  assumes C: "own_ctx m v Own" and F: "freed_state m v Own R Out A m'" and A: "\<And>q. q \<in> A \<Longrightarrow> has_pos m v q" and p: "has_pos m v p" "p \<notin> A"
  obtains m'' where "matras_free_read_view_extent m' (ext_of m v p) = Some m''" "freed_state m v Own R Out (insert p A) m''"
proof -
  have h: "heap_ok m' (Own - ext_of m v ` A) R Out" and c: "core m' = core m" using F by (simp_all add: freed_state_def)
  show thesis
  proof (rule free_read_view_extent_spec [OF h ctx_live_own(1) [OF C F A p]])
    fix m'' assume a: "matras_free_read_view_extent m' (ext_of m v p) = Some m''" "core m'' = core m'" "heap_ok m'' (Own - ext_of m v ` A - {ext_of m v p}) R Out"
    have "Own - ext_of m v ` A - {ext_of m v p} = Own - ext_of m v ` insert p A" by auto
    then show thesis using a c by (intro that [of m'']) (simp_all add: freed_state_def)
  qed
qed

section \<open>The inner loop\<close>

definition low_from :: "matras \<Rightarrow> (slot_pos \<Rightarrow> bool) \<Rightarrow> nat \<Rightarrow> nat \<Rightarrow> slot_pos set" where
  "low_from m P i i2 = {Low k | k. k div slots m = i \<and> i2 \<le> k mod slots m \<and> P (Low k)}"

lemma low_from_end: "geom_ok m \<Longrightarrow> slots m \<le> i2 \<Longrightarrow> low_from m P i i2 = {}"
  using geom_slots_pos [of m] by (auto simp: low_from_def) (metis leD le_less_trans mod_less_divisor order.trans)

lemma low_from_step:
  assumes "geom_ok m" and "i2 < slots m"
  shows "low_from m P i i2 = (if P (Low (i * slots m + i2)) then {Low (i * slots m + i2)} else {}) \<union> low_from m P i (Suc i2)"
proof -
  have "k div slots m = i \<and> i2 \<le> k mod slots m \<longleftrightarrow> k = i * slots m + i2 \<or> (k div slots m = i \<and> Suc i2 \<le> k mod slots m)" for k
  proof
    assume a: "k div slots m = i \<and> i2 \<le> k mod slots m"
    have "k = i * slots m + k mod slots m" using a by (metis div_mult_mod_eq)
    then show "k = i * slots m + i2 \<or> (k div slots m = i \<and> Suc i2 \<le> k mod slots m)" using a by (cases "k mod slots m = i2") auto
  qed (use assms(2) in auto)
  then have "{Low k |k. k div slots m = i \<and> i2 \<le> k mod slots m \<and> P (Low k)}
    = {Low k |k. (k = i * slots m + i2 \<or> (k div slots m = i \<and> Suc i2 \<le> k mod slots m)) \<and> P (Low k)}" by (simp only: conj_assoc [symmetric])
  then show ?thesis unfolding low_from_def by auto
qed

text \<open>The blocks behind the last one of the view are not there.\<close>

lemma low_from_done:
  assumes "geom_ok m" and "\<not> has_pos m v (Low (i * slots m + i2))" and "\<And>p. P p \<Longrightarrow> has_pos m v p"
  shows "low_from m P i i2 = {}"
proof -
  have "\<not> P (Low k)" if k: "k div slots m = i" "i2 \<le> k mod slots m" for k
  proof
    assume "P (Low k)"
    then have "k * step2 m < mv_block_count (mt_views m v)" using assms(3) [of "Low k"] by (simp add: has_pos_def)
    moreover have "i * slots m + i2 \<le> k" using k by (metis add_left_mono div_mult_mod_eq)
    then have "(i * slots m + i2) * step2 m \<le> k * step2 m" by (rule mult_le_mono1)
    ultimately have "(i * slots m + i2) * step2 m < mv_block_count (mt_views m v)" by (rule le_less_trans [rotated])
    then show False using assms(2) by (simp add: has_pos_def)
  qed
  then show ?thesis unfolding low_from_def by blast
qed

lemma inner_step:
  assumes C: "own_ctx m v Own" and i: "has_pos m v (Mid i)" and g': "geom m' = geom m" "mt_views m' = mt_views m" and i2: "i2 \<le> slots m"
  shows "(i2 < mt_extent_size m' div 8 \<and> (i * step1 m + i2 * step2 m) mod 2 ^ 32 < mv_block_count (mt_views m' v)) \<longleftrightarrow> i2 < slots m \<and> has_pos m v (Low (i * slots m + i2))"
    and "i2 < slots m \<Longrightarrow> (i * step1 m + i2 * step2 m) mod 2 ^ 32 = (i * slots m + i2) * step2 m"
    and "i2 < slots m \<Longrightarrow> Suc i2 mod 2 ^ 32 = Suc i2" and "i2 < slots m \<Longrightarrow> (i2 * step2 m + (mask2 m' + 1) mod 2 ^ 32) mod 2 ^ 32 = Suc i2 * step2 m"
proof -
  have g: "geom_ok m" and n: "mv_block_count (mt_views m v) + step1 m \<le> 2 ^ 32" using C by (auto simp: view_ctx_def own_ctx_def)
  note gs = geom_simps [OF g] and gd = geomD [OF g'(1)]
  show k: "(i * step1 m + i2 * step2 m) mod 2 ^ 32 = (i * slots m + i2) * step2 m" if "i2 < slots m"
  proof -
    have "i2 * step2 m < slots m * step2 m" using that gs(3) by simp
    then have "i2 * step2 m < step1 m" unfolding gs(1) .
    moreover have "i * step1 m < mv_block_count (mt_views m v)" using i by (simp add: has_pos_def)
    ultimately have "i * step1 m + i2 * step2 m < 2 ^ 32" using n by linarith
    then show ?thesis unfolding gs(1) by (simp add: algebra_simps)
  qed
  show "Suc i2 mod 2 ^ 32 = Suc i2" if "i2 < slots m" using that gs(6) by simp
  show "(i2 * step2 m + (mask2 m' + 1) mod 2 ^ 32) mod 2 ^ 32 = Suc i2 * step2 m" if "i2 < slots m"
  proof -
    have "Suc i2 * step2 m \<le> slots m * step2 m" using that by (intro mult_le_mono1) simp
    then have "Suc i2 * step2 m < 2 ^ 32" using gs(4) unfolding gs(1) by linarith
    then show ?thesis unfolding gd gs(8) by (simp add: add.commute)
  qed
  show "(i2 < mt_extent_size m' div 8 \<and> (i * step1 m + i2 * step2 m) mod 2 ^ 32 < mv_block_count (mt_views m' v)) \<longleftrightarrow> i2 < slots m \<and> has_pos m v (Low (i * slots m + i2))"
    using k gs(16) gd(3) g'(2) by (auto simp: has_pos_def)
qed

lemma inner_spec:
  assumes C: "view_ctx m v nv pv Own" and i: "has_pos m v (Mid i)" "\<not> shared_pos m v nv pv (Mid i)"
    and F: "freed_state m v Own R Out A m'" and A: "\<And>q. q \<in> A \<Longrightarrow> drop_pos m v nv pv q" and nA: "Mid i \<notin> A" "\<And>k. Low k \<in> A \<Longrightarrow> k div slots m = i \<Longrightarrow> k mod slots m < i2" and i2: "i2 \<le> slots m"
  defines "tab \<equiv> \<lambda>w. if has_pos m w (Mid i) then ext_of m w (Mid i) else NULL"
  shows "\<exists>m''. view_free_inner v nv pv (i * step1 m) (ext_of m v (Mid i)) (tab nv) (if pv = NULL then NULL else tab pv) i2 (i2 * step2 m) m' = Some m'' \<and>
    freed_state m v Own R Out (A \<union> low_from m (drop_pos m v nv pv) i i2) m''"
  using F A nA i2
proof (induction "slots m - i2" arbitrary: i2 A m')
  case 0
  have g: "geom_ok m" using C by (simp add: view_ctx_def own_ctx_def)
  have e: "i2 = slots m" using 0 by simp
  have c: "geom m' = geom m" "mt_views m' = mt_views m" using 0(2) coreD unfolding freed_state_def by blast+
  have "\<not> (i2 < mt_extent_size m' div 8 \<and> (i * step1 m + i2 * step2 m) mod 2 ^ 32 < mv_block_count (mt_views m' v))"
    unfolding inner_step(1) [OF view_own [OF C] i(1) c 0(6)] using e by simp
  then show ?case using 0(2) low_from_end [OF g] e by (subst view_free_inner.simps) (auto simp only: if_True not_False_eq_True Un_empty_right simp_thms)
next
  case (Suc d)
  have g: "geom_ok m" using C by (simp add: view_ctx_def own_ctx_def)
  have lt: "i2 < slots m" using Suc(2) by simp
  have cr: "core m' = core m" using Suc(3) by (simp add: freed_state_def)
  note c = coreD(1) [OF cr] coreD(2) [OF cr]
  note st = inner_step [OF view_own [OF C] i(1) c Suc(7)]
  let ?k = "i * slots m + i2"
  show ?case
  proof (cases "has_pos m v (Low ?k)")
    case False
    then have "\<not> (i2 < mt_extent_size m' div 8 \<and> (i * step1 m + i2 * step2 m) mod 2 ^ 32 < mv_block_count (mt_views m' v))" unfolding st(1) by simp
    then show ?thesis using Suc(3) low_from_done [OF g False, of "drop_pos m v nv pv"] drop_has by (subst view_free_inner.simps) (auto simp only: if_True not_False_eq_True Un_empty_right simp_thms)
  next
    case True
    let ?p = "Low ?k" and ?e = "ext_of m v (Low ?k)"
    have kd: "?k div slots m = i" "?k mod slots m = i2" using lt by simp_all
    have nk: "?p \<notin> A" using Suc(6) [of ?k] kd by auto
    have l2: "ext_of m v (Mid i) \<in> xh_live (mt_heap m')" by (rule ctx_live_own(2) [OF view_own [OF C] Suc(3) conjunct1 [OF drop_has [OF Suc(4)]] i(1) Suc(5)])
    have ld: "load_slot m' (ext_of m v (Mid i)) i2 = Some ?e" using load_freed [OF g cr l2 lt] kd by (simp add: ext_of_def)
    have sh: "slot_shared m' w (?k * step2 m) (tab w) i2 ?e = Some (same_at (lay m v) (lay m w) ?p)" if "w \<in> neighbours nv pv" for w
      using slot_low [OF C Suc(3) Suc(4) that True] unfolding kd tab_def by simp
    have "i2 < mt_extent_size m' div 8 \<and> (i * step1 m + i2 * step2 m) mod 2 ^ 32 < mv_block_count (mt_views m' v)" unfolding st(1) using lt True by simp
    then have guard: "(\<not> (i2 < mt_extent_size m' div 8 \<and> ?k * step2 m < mv_block_count (mt_views m' v))) = False" unfolding st(2) [OF lt] by simp
    have d: "d = slots m - Suc i2" using Suc(2) by simp
    have drop: "drop_pos m v nv pv ?p \<longleftrightarrow> \<not> shared_pos m v nv pv ?p" using True i(2) kd by simp
    let ?pt = "if pv = NULL then NULL else tab pv"
    let ?rec = "view_free_inner v nv pv (i * step1 m) (ext_of m v (Mid i)) (tab nv) ?pt (Suc i2) (Suc i2 * step2 m)"
    have unf: "view_free_inner v nv pv (i * step1 m) (ext_of m v (Mid i)) (tab nv) ?pt i2 (i2 * step2 m) m' =
        (if shared_pos m v nv pv ?p then ?rec m' else do { m'' \<leftarrow> matras_free_read_view_extent m' ?e; ?rec m'' })"
      using sh [of nv] sh [of pv]
      unfolding view_free_inner.simps [of v nv pv _ _ _ _ i2] st(2) [OF lt] guard st(3) [OF lt] st(4) [OF lt] Let_def ld if_False Option.bind.bind_lunit
      by (auto simp: neighbours_def shared_pos_def simp del: add_mult_distrib mult_Suc)
    show ?thesis
    proof (cases "shared_pos m v nv pv ?p")
      case sp: True
      then have "low_from m (drop_pos m v nv pv) i i2 = low_from m (drop_pos m v nv pv) i (Suc i2)" using low_from_step [OF g lt] drop by simp
      moreover have "\<exists>m''. ?rec m' = Some m'' \<and> freed_state m v Own R Out (A \<union> low_from m (drop_pos m v nv pv) i (Suc i2)) m''"
        using Suc(6) lt by (intro Suc(1) [OF d Suc(3) Suc(4) Suc(5)]) (auto simp: less_Suc_eq)
      ultimately show ?thesis unfolding unf using sp by simp
    next
      case sp: False
      obtain m1 where m1: "matras_free_read_view_extent m' ?e = Some m1" "freed_state m v Own R Out (insert ?p A) m1"
        by (rule free_pos [OF view_own [OF C] Suc(3) conjunct1 [OF drop_has [OF Suc(4)]] True nk])
      have eq: "A \<union> low_from m (drop_pos m v nv pv) i i2 = insert ?p A \<union> low_from m (drop_pos m v nv pv) i (Suc i2)" using low_from_step [OF g lt] drop sp by auto
      have "\<exists>m''. ?rec m1 = Some m'' \<and> freed_state m v Own R Out (insert ?p A \<union> low_from m (drop_pos m v nv pv) i (Suc i2)) m''"
      proof (rule Suc(1) [OF d m1(2)])
        show "drop_pos m v nv pv q" if "q \<in> insert ?p A" for q using Suc(4) [of q] that sp drop by blast
        show "k mod slots m < Suc i2" if "Low k \<in> insert ?p A" "k div slots m = i" for k using Suc(6) [of k] that kd(2) by (cases "k = ?k") auto
      qed (use Suc(5) lt in auto)
      then show ?thesis unfolding unf eq using sp m1(1) by simp
    qed
  qed
qed

section \<open>The outer loop\<close>

fun row :: "matras \<Rightarrow> slot_pos \<Rightarrow> nat" where
  "row m Top = 0"
| "row m (Mid i) = i"
| "row m (Low k) = k div slots m"

definition rows_from :: "matras \<Rightarrow> (slot_pos \<Rightarrow> bool) \<Rightarrow> nat \<Rightarrow> slot_pos set" where
  "rows_from m P i = {p. P p \<and> i \<le> row m p}"

lemma rows_from_done:
  assumes "own_ctx m v Own" and "\<not> has_pos m v (Mid i)" and "\<And>p. P p \<Longrightarrow> p \<noteq> Top \<and> has_pos m v p"
  shows "rows_from m P i = {}"
proof -
  have g: "geom_ok m" and cap: "mv_block_count (mt_views m v) \<le> mt_capacity m" using assms(1) by (auto simp: view_ctx_def own_ctx_def)
  have no: "\<not> has_pos m v (Mid j)" if "i \<le> j" for j
    using assms(2) le_less_trans [OF mult_le_mono1 [OF that, of "step1 m"]] unfolding has_pos_def pos_start.simps by blast
  have "\<not> P p" if "i \<le> row m p" for p
    using no [OF that] has_above(1) [OF g cap] assms(3) by (cases p) auto
  then show ?thesis by (auto simp: rows_from_def)
qed

lemma rows_from_step:
  assumes "has_pos m v (Mid i)"
  shows "rows_from m (drop_pos m v nv pv) i = (if shared_pos m v nv pv (Mid i) then {} else insert (Mid i) (low_from m (drop_pos m v nv pv) i 0)) \<union> rows_from m (drop_pos m v nv pv) (Suc i)"
    (is "_ = ?A \<union> _")
proof (rule set_eqI)
  fix p
  have "i \<le> row m p \<longleftrightarrow> row m p = i \<or> Suc i \<le> row m p" by auto
  moreover have "drop_pos m v nv pv p \<and> row m p = i \<longleftrightarrow> p \<in> ?A" using assms by (cases p) (auto simp: low_from_def)
  ultimately show "p \<in> rows_from m (drop_pos m v nv pv) i \<longleftrightarrow> p \<in> ?A \<union> rows_from m (drop_pos m v nv pv) (Suc i)" unfolding rows_from_def by blast
qed

lemma outer_step:
  assumes C: "own_ctx m v Own" and i: "has_pos m v (Mid i)" and g': "geom m' = geom m"
  shows "Suc i mod 2 ^ 32 = Suc i" and "(i * step1 m + (mask1 m' + 1) mod 2 ^ 32) mod 2 ^ 32 = Suc i * step1 m" and "Suc i \<le> slots m"
proof -
  have g: "geom_ok m" and n: "mv_block_count (mt_views m v) + step1 m \<le> 2 ^ 32" and cap: "mv_block_count (mt_views m v) \<le> mt_capacity m" using C by (auto simp: view_ctx_def own_ctx_def)
  note gs = geom_simps [OF g] and gd = geomD [OF g']
  show l: "Suc i \<le> slots m" using has_above(3) [OF g cap i] by simp
  then show "Suc i mod 2 ^ 32 = Suc i" using gs(6) by simp
  have "Suc i * step1 m < 2 ^ 32" using i n unfolding has_pos_def pos_start.simps by simp
  then show "(i * step1 m + (mask1 m' + 1) mod 2 ^ 32) mod 2 ^ 32 = Suc i * step1 m" unfolding gd gs(7) by (simp add: add.commute)
qed

lemma row_spec:
  assumes C: "view_ctx m v nv pv Own" and i: "has_pos m v (Mid i)"
    and F: "freed_state m v Own R Out A m'" and A: "\<And>q. q \<in> A \<Longrightarrow> drop_pos m v nv pv q \<and> row m q < i"
  obtains m'' where "view_free_outer v nv pv i (i * step1 m) m' = view_free_outer v nv pv (Suc i) (Suc i * step1 m) m''"
    "freed_state m v Own R Out (A \<union> (if shared_pos m v nv pv (Mid i) then {} else insert (Mid i) (low_from m (drop_pos m v nv pv) i 0))) m''"
proof -
  have g: "geom_ok m" and cap: "mv_block_count (mt_views m v) \<le> mt_capacity m" using C by (auto simp: view_ctx_def own_ctx_def)
  have cr: "core m' = core m" using F by (simp add: freed_state_def)
  note c = coreD(1) [OF cr] coreD(2) [OF cr] and A' = conjunct1 [OF A]
  note st = outer_step [OF view_own [OF C] i c(1)]
  let ?e = "ext_of m v (Mid i)" and ?tab = "\<lambda>w. if has_pos m w (Mid i) then ext_of m w (Mid i) else NULL"
  have nA: "Top \<notin> A" "Mid i \<notin> A" "\<And>k. Low k \<in> A \<Longrightarrow> k div slots m < i" using A by force+
  have "ext_of m v Top \<in> xh_live (mt_heap m')" by (rule ctx_live_own(2) [OF view_own [OF C] F conjunct1 [OF drop_has [OF A']] has_above(2) [OF g cap i] nA(1)])
  then have ld: "load_slot m' (mv_root (mt_views m' v)) i = Some ?e"
    using load_freed [OF g cr _ has_above(3) [OF g cap i], of "ext_of m v Top"] c(2) by (simp add: ext_of_def)
  have sm: "slot_shared m' w (i * step1 m) (mv_root (mt_views m' w)) i ?e = Some (same_at (lay m v) (lay m w) (Mid i))"
    "neighbour_table m' w (i * step1 m) i = Some (?tab w)" if "w \<in> neighbours nv pv" for w
    by (rule slot_mid [OF C F _ that i], erule A')+
  have guard: "(\<not> i * step1 m < mv_block_count (mt_views m' v)) = False" using i c(2) by (simp add: has_pos_def)
  have n: "nv \<in> neighbours nv pv" "pv \<noteq> NULL \<Longrightarrow> pv \<in> neighbours nv pv" by (simp_all add: neighbours_def)
  have unf: "view_free_outer v nv pv i (i * step1 m) m' =
      (if shared_pos m v nv pv (Mid i) then view_free_outer v nv pv (Suc i) (Suc i * step1 m) m'
       else do {
         m'' \<leftarrow> view_free_inner v nv pv (i * step1 m) ?e (?tab nv) (if pv = NULL then NULL else ?tab pv) 0 (0 * step2 m) m';
         m'' \<leftarrow> matras_free_read_view_extent m'' ?e;
         view_free_outer v nv pv (Suc i) ((i * step1 m + (mask1 m' + 1) mod 2 ^ 32) mod 2 ^ 32) m'' })"
    unfolding view_free_outer.simps [of v nv pv i] guard st(1,2) Let_def ld if_False Option.bind.bind_lunit sm [OF n(1)]
    using sm [OF n(2)] by (cases "pv = NULL") (auto simp: neighbours_def shared_pos_def simp del: mult_Suc)
  show thesis
  proof (cases "shared_pos m v nv pv (Mid i)")
    case True
    then show thesis using unf F by (intro that [of m']) simp_all
  next
    case False
    obtain m1 where m1: "view_free_inner v nv pv (i * step1 m) ?e (?tab nv) (if pv = NULL then NULL else ?tab pv) 0 (0 * step2 m) m' = Some m1"
        "freed_state m v Own R Out (A \<union> low_from m (drop_pos m v nv pv) i 0) m1"
      using inner_spec [OF C i False F A' nA(2), of 0] nA(3) by fastforce
    have "Mid i \<notin> A \<union> low_from m (drop_pos m v nv pv) i 0" using nA(2) by (auto simp: low_from_def)
    moreover have "has_pos m v q" if "q \<in> A \<union> low_from m (drop_pos m v nv pv) i 0" for q using that drop_has [of m v nv pv q] A' unfolding low_from_def by blast
    ultimately obtain m2 where m2: "matras_free_read_view_extent m1 ?e = Some m2" "freed_state m v Own R Out (insert (Mid i) (A \<union> low_from m (drop_pos m v nv pv) i 0)) m2"
      using free_pos [OF view_own [OF C] m1(2) _ i] by metis
    show thesis
    proof (rule that [of m2])
      show "view_free_outer v nv pv i (i * step1 m) m' = view_free_outer v nv pv (Suc i) (Suc i * step1 m) m2" using False m1(1) m2(1) st(2) unfolding unf by simp
      show "freed_state m v Own R Out (A \<union> (if shared_pos m v nv pv (Mid i) then {} else insert (Mid i) (low_from m (drop_pos m v nv pv) i 0))) m2" using m2(2) False by simp
    qed
  qed
qed

lemma outer_spec:
  assumes C: "view_ctx m v nv pv Own" and F: "freed_state m v Own R Out A m'" and A: "\<And>q. q \<in> A \<Longrightarrow> drop_pos m v nv pv q \<and> row m q < i" and i: "i \<le> slots m"
  shows "\<exists>m''. view_free_outer v nv pv i (i * step1 m) m' = Some m'' \<and> freed_state m v Own R Out (A \<union> rows_from m (drop_pos m v nv pv) i) m''"
  using F A i
proof (induction "slots m - i" arbitrary: i A m')
  have g: "geom_ok m" and cap: "mv_block_count (mt_views m v) \<le> mt_capacity m" using C by (auto simp: view_ctx_def own_ctx_def)
  have stop: "\<exists>m''. view_free_outer v nv pv i (i * step1 m) m' = Some m'' \<and> freed_state m v Own R Out (A \<union> rows_from m (drop_pos m v nv pv) i) m''"
    if F: "freed_state m v Own R Out A m'" and n: "\<not> has_pos m v (Mid i)" for i A m'
  proof -
    have "mt_views m' = mt_views m" using F coreD(2) unfolding freed_state_def by blast
    then show ?thesis using F n rows_from_done [OF view_own [OF C] n, of "drop_pos m v nv pv"] drop_below by (subst view_free_outer.simps) (simp add: has_pos_def)
  qed
  {
    case (0 i A m')
    then show ?case using has_above(3) [OF g cap, of i] stop [OF 0(2)] by fastforce
  next
    case (Suc d i A m')
    show ?case
    proof (cases "has_pos m v (Mid i)")
      case True
      let ?B = "if shared_pos m v nv pv (Mid i) then {} else insert (Mid i) (low_from m (drop_pos m v nv pv) i 0)"
      obtain m1 where m1: "view_free_outer v nv pv i (i * step1 m) m' = view_free_outer v nv pv (Suc i) (Suc i * step1 m) m1" "freed_state m v Own R Out (A \<union> ?B) m1"
        by (rule row_spec [OF C True Suc(3) Suc(4)])
      have B: "drop_pos m v nv pv q \<and> row m q < Suc i" if "q \<in> A \<union> ?B" for q
        using that Suc(4) [of q] True by (auto simp: low_from_def split: if_splits)
      have "Suc i \<le> slots m" "d = slots m - Suc i" using Suc(2,5) by simp_all
      then show ?thesis using Suc(1) [OF _ m1(2) B] unfolding m1(1) rows_from_step [OF True] by (simp only: Un_assoc)
    qed (rule stop [OF Suc(3)])
  }
qed

section \<open>Unlinking the view\<close>

definition unlink_view :: "addr \<Rightarrow> addr \<Rightarrow> addr \<Rightarrow> matras \<Rightarrow> matras" where
  "unlink_view v nv pv m =
     upd_view v (\<lambda>w. w\<lparr>mv_next := NULL\<rparr>) ((if pv \<noteq> NULL then upd_view pv (\<lambda>w. w\<lparr>mv_next := nv\<rparr>) else id) (upd_view nv (\<lambda>w. w\<lparr>mv_prev := pv\<rparr>) m))"

definition older :: "addr list \<Rightarrow> addr" where
  "older bs = (case bs of [] \<Rightarrow> NULL | b # _ \<Rightarrow> b)"

lemma older_simps [simp]: "older [] = NULL" "older (b # bs) = b"
  by (simp_all add: older_def)

lemma unlink_simps [simp]:
  "geom (unlink_view v nv pv m) = geom m" "mt_heap (unlink_view v nv pv m) = mt_heap m" "mt_self (unlink_view v nv pv m) = mt_self m"
  "heap_ok (unlink_view v nv pv m) Own R Out = heap_ok m Own R Out"
  "mv_root (mt_views (unlink_view v nv pv m) w) = mv_root (mt_views m w)" "mv_block_count (mt_views (unlink_view v nv pv m) w) = mv_block_count (mt_views m w)"
  by (simp_all add: unlink_view_def)

lemma unlink_links:
  assumes "nv \<noteq> v" and "pv \<noteq> v" and "pv \<noteq> nv"
  shows "mv_prev (mt_views (unlink_view v nv pv m) w) = (if w = nv then pv else mv_prev (mt_views m w))"
    and "mv_next (mt_views (unlink_view v nv pv m) w) = (if w = v then NULL else if w = pv \<and> pv \<noteq> NULL then nv else mv_next (mt_views m w))"
  using assms by (simp_all add: unlink_view_def upd_view_def)

lemma linked_at:
  "views_linked m s (as @ v # bs) \<Longrightarrow> mv_next (mt_views m v) = last (s # as) \<and> mv_prev (mt_views m v) = older bs"
  by (induction as arbitrary: s) (cases bs; auto)+

lemma unlink_linked:
  assumes "views_linked m s (as @ v # bs)" and "distinct (s # as @ v # bs)" and "NULL \<notin> set bs" and "nv = last (s # as)"
  shows "views_linked (unlink_view v nv (older bs) m) s (as @ bs)"
  using assms
proof (induction as arbitrary: s)
  case Nil
  show ?case
  proof (cases bs)
    case (Cons b bs')
    have d: "nv \<noteq> v" "b \<noteq> v" "b \<noteq> nv" "b \<noteq> NULL" using Nil Cons by auto
    have "views_linked (unlink_view v nv b m) b bs' = views_linked m b bs'"
      by (rule views_linked_frame) (use Nil Cons d in \<open>auto simp: unlink_view_def upd_view_def\<close>)
    moreover have "mv_prev (mt_views (unlink_view v nv b m) nv) = b" "mv_next (mt_views (unlink_view v nv b m) b) = nv" using d by (simp_all add: unlink_links)
    ultimately show ?thesis using Nil Cons by simp
  qed (use Nil in \<open>auto simp: unlink_view_def\<close>)
next
  case (Cons a as)
  have nv: "nv \<in> set (a # as)" using Cons.prems(4) last_in_set [of "a # as"] by simp
  have pv: "older bs = NULL \<or> older bs \<in> set bs" by (cases bs) simp_all
  have "views_linked (unlink_view v nv (older bs) m) a (as @ bs)" using Cons by simp
  moreover have "mv_prev (mt_views (unlink_view v nv (older bs) m) s) = a" and "mv_next (mt_views (unlink_view v nv (older bs) m) a) = s"
    using Cons.prems nv pv by (auto simp: unlink_view_def)
  ultimately show ?case by simp
qed

section \<open>Freeing what the neighbours do not share\<close>

lemma unlink_lay [simp]: "layout_of (unlink_view v nv pv m) = layout_of m"
  by (rule layout_same) simp_all

lemma unlink_pos: "has_pos (unlink_view v nv pv m) w p = has_pos m w p" "ext_of (unlink_view v nv pv m) w p = ext_of m w p"
  "shared_pos (unlink_view v nv pv m) v nv pv p = shared_pos m v nv pv p"
proof -
  have g: "geom (unlink_view v nv pv m) = geom m" by simp
  show "has_pos (unlink_view v nv pv m) w p = has_pos m w p" by (simp add: has_pos_def geomD(14) [OF g])
  show "ext_of (unlink_view v nv pv m) w p = ext_of m w p" by (cases p) (simp_all add: ext_of_def geomD(7) [OF g])
  show "shared_pos (unlink_view v nv pv m) v nv pv p = shared_pos m v nv pv p" by (simp add: shared_pos_def)
qed

lemma unshared_private:
  assumes I: "matras_inv m (as @ v # bs) Own R Out" and p: "has_pos m v p" "\<not> shared_pos m v (last (mt_self m # as)) (older bs) p"
    and w: "w \<in> set (mt_self m # as @ bs)"
  shows "ext_of m v p \<notin> ran (lay m w)"
proof
  note J = matras_invD [OF I]
  assume "ext_of m v p \<in> ran (lay m w)"
  then obtain q where q: "lay m w q = Some (ext_of m v p)" by (auto simp: ran_def)
  have lv: "lay m v p = Some (ext_of m v p)" using p(1) by (simp add: lay_ext_of has_pos_def)
  have in_l: "lay m x \<in> set (map (lay m) (mt_self m # as @ v # bs))" if "x \<in> set (mt_self m # as @ v # bs)" for x unfolding set_map using that by (rule imageI)
  have "own_pos (lay m v) (lay m w)" by (rule cow_own [OF J(8) in_l in_l]) (use w in auto)
  then have "p = q" using lv q unfolding own_pos_def by blast
  then have same: "same_at (lay m v) (lay m w) p" using lv q by (simp add: same_at_def)
  let ?n = "last (mt_self m # as)" and ?fs = "map (lay m) (butlast (mt_self m # as))"
  have sp: "mt_self m # as = butlast (mt_self m # as) @ [?n]" by simp
  have "mt_self m # as @ v # bs = (mt_self m # as) @ v # bs" by simp
  also have "\<dots> = (butlast (mt_self m # as) @ [?n]) @ v # bs" by (subst sp) (rule refl)
  finally have sp1: "mt_self m # as @ v # bs = (butlast (mt_self m # as) @ [?n]) @ v # bs" .
  have sp2: "map (lay m) (mt_self m # as @ v # bs) = ?fs @ lay m ?n # lay m v # map (lay m) bs"
    unfolding sp1 by (simp only: map_append list.map append_assoc append.simps)
  have "w \<in> set (butlast (mt_self m # as) @ [?n]) \<union> set bs" unfolding append_butlast_last_id [OF list.distinct(2)] using w by auto
  then have "lay m w \<in> set (?fs @ lay m ?n # map (lay m) bs)" by auto
  then have "same_at (lay m v) (lay m ?n) p \<or> (\<exists>g gs'. map (lay m) bs = g # gs' \<and> same_at (lay m v) g p)"
    by (rule cow_neighbours [OF J(8) [unfolded sp2] _ same])
  then have "shared_pos m v ?n (older bs) p"
  proof
    assume "\<exists>g gs'. map (lay m) bs = g # gs' \<and> same_at (lay m v) g p"
    then obtain b bs' where "bs = b # bs'" "same_at (lay m v) (lay m b) p" by auto
    moreover have "b \<noteq> NULL" using J(4) calculation(1) by auto
    ultimately show ?thesis by (auto simp: shared_pos_def neighbours_def)
  qed (auto simp: shared_pos_def neighbours_def)
  then show False using p(2) by blast
qed

lemma freed_inv:
  assumes I: "matras_inv m (as @ v # bs) Own R Out" and nv: "nv = last (mt_self m # as)" and pv: "pv = older bs"
    and A: "\<And>p. p \<in> A \<Longrightarrow> has_pos m v p \<and> \<not> shared_pos m v nv pv p"
    and c: "core m' = core (unlink_view v nv pv m)" and h: "heap_ok m' (Own - ext_of m v ` A) R Out"
  shows "matras_inv m' (as @ bs) (Own - ext_of m v ` A) R Out" and "\<And>w. lay m' w = lay m w" and "\<And>w. keeps_view m m' w" and "\<And>x. ext_bytes m' x = ext_bytes m x"
    and "\<And>w. mv_block_count (mt_views m' w) = mv_block_count (mt_views m w)" and "geom m' = geom m"
proof -
  let ?u = "unlink_view v nv pv m"
  note J = matras_invD [OF I]
  have g: "geom m' = geom m" using coreD(1) [OF c] by simp
  show "geom m' = geom m" by (rule g)
  have v': "mt_views m' = mt_views ?u" by (rule coreD(2) [OF c])
  show lw: "lay m' w = lay m w" for w using lay_core [OF c, of w] by simp
  show n: "mv_block_count (mt_views m' w) = mv_block_count (mt_views m w)" for w using v' by simp
  have eb: "ext_bytes m' = ext_bytes m" using ext_bytes_same [OF g] coreD(4) [OF c] by simp
  then show "ext_bytes m' x = ext_bytes m x" for x by simp
  show "keeps_view m m' w" for w unfolding keeps_view_def by (intro conjI ext n) (simp only: view_bytes_def lw eb)
  have sub: "set (mt_self m # as @ bs) \<subseteq> set (mt_self m # as @ v # bs)" by auto
  have nN: "NULL \<notin> set bs" using J(4) by simp
  have "views_linked ?u (mt_self m) (as @ bs)" unfolding pv by (rule unlink_linked [OF J(6) J(3) nN nv])
  then have lk: "views_linked m' (mt_self m) (as @ bs)" unfolding views_linked_cong [OF v'] .
  have "mt_self m \<noteq> pv" using J(3,4) unfolding pv by (cases bs) auto
  then have nx: "mv_next (mt_views m' (mt_self m)) = NULL" using J(3,5) unfolding v' by (auto simp: unlink_view_def)
  have r: "ran (lay m w) \<subseteq> Own - ext_of m v ` A" if w: "w \<in> set (mt_self m # as @ bs)" for w
  proof -
    have "ext_of m v p \<notin> ran (lay m w)" if "p \<in> A" for p using unshared_private [OF I _ _ w] A [OF that] unfolding nv pv by blast
    then show ?thesis using J(9) [of w] w sub by blast
  qed
  have "cow (slots m) (map (lay m) (mt_self m # as) @ lay m v # map (lay m) bs)" using J(8) by (simp only: map_append list.map append.simps)
  then have "cow (slots m) (map (lay m) (mt_self m # as) @ map (lay m) bs)" by (rule cow_remove)
  then have cw: "cow (slots m) (map (lay m) (mt_self m # as @ bs))" by (simp only: map_append list.map append.simps)
  have d: "distinct (mt_self m # as @ bs)" "NULL \<notin> set (mt_self m # as @ bs)" using J(3,4) by auto
  have cap: "\<forall>w \<in> set (mt_self m # as @ bs). mv_block_count (mt_views m w) \<le> mt_capacity m" using J(7) sub by blast
  have "geom_ok m'" using J(1) geomD(10) [OF g] by simp
  then show "matras_inv m' (as @ bs) (Own - ext_of m v ` A) R Out"
    unfolding matras_inv_def geomD(1,4,7) [OF g] lw unfolding n using h d lk nx cap cw r by blast
qed

lemma neighbour_cases:
  assumes I: "matras_inv m (as @ v # bs) Own R Out" and w: "w \<in> neighbours (last (mt_self m # as)) (older bs)"
  shows "w \<in> set (mt_self m # as @ bs)" and "w \<noteq> v"
proof -
  have "last (mt_self m # as) \<in> set (mt_self m # as)" by (rule last_in_set) simp
  moreover have "older bs \<in> set bs" if "older bs \<noteq> NULL" using that by (cases bs) simp_all
  ultimately show i: "w \<in> set (mt_self m # as @ bs)" using w by (auto simp: neighbours_def split: if_splits)
  show "w \<noteq> v" using i matras_invD(3) [OF I] by auto
qed

text \<open>
  A table that the view shares with the newer neighbour is shared with all below it. The same holds of the
  older one when that has as many blocks; otherwise the loops skip extents that nobody else has.
\<close>

definition fits_older :: "matras \<Rightarrow> addr \<Rightarrow> addr list \<Rightarrow> bool" where
  "fits_older m v bs \<longleftrightarrow> bs = [] \<or> mv_block_count (mt_views m v) \<le> mv_block_count (mt_views m (hd bs))"

lemma shared_below:
  assumes I: "matras_inv m (as @ v # bs) Own R Out" and fits: "fits_older m v bs" and q: "has_pos m v q" "below (slots m) p q"
    and s: "shared_pos m v (last (mt_self m # as)) (older bs) p"
  shows "shared_pos m v (last (mt_self m # as)) (older bs) q"
proof -
  note J = matras_invD [OF I]
  let ?n = "last (mt_self m # as)"
  obtain w where w: "w \<in> neighbours ?n (older bs)" "same_at (lay m v) (lay m w) p" using s by (auto simp: shared_pos_def)
  have lv: "lay m v q \<noteq> None" using q(1) by (simp add: lay_ext_of has_pos_def)
  have "lay m w q \<noteq> None"
  proof (cases "w = ?n")
    case True
    have sp: "mt_self m # as = butlast (mt_self m # as) @ [?n]" by simp
    have "mt_self m # as @ v # bs = (mt_self m # as) @ v # bs" by simp
    also have "\<dots> = (butlast (mt_self m # as) @ [?n]) @ v # bs" by (subst sp) (rule refl)
    finally have sp1: "mt_self m # as @ v # bs = butlast (mt_self m # as) @ ?n # v # bs" by simp
    have "cow (slots m) (map (lay m) (butlast (mt_self m # as)) @ lay m ?n # lay m v # map (lay m) bs)"
      using J(8) unfolding sp1 by (simp only: map_append list.map)
    then have "grown (slots m) (lay m ?n) (lay m v)" by (auto dest: cow_append)
    then show ?thesis using same_at_sym [OF w(2)] lv q(2) True unfolding grown_def by blast
  next
    case False
    then obtain b bs' where b: "bs = b # bs'" "w = b" using w(1) by (cases bs) (auto simp: neighbours_def split: if_splits)
    then show ?thesis using fits q(1) by (auto simp: fits_older_def layout_of_def has_pos_def)
  qed
  then have "same_at (lay m v) (lay m w) q" by (intro layout_same_below [OF w(2) q(2) lv])
  then show ?thesis using w(1) unfolding shared_pos_def by blast
qed

lemma exact_freed:
  assumes I: "matras_inv m (as @ v # bs) Own R Out" and e: "exact m (as @ v # bs) Own" and s: "mt_self m' = mt_self m" and l: "\<And>w. lay m' w = lay m w"
    and A: "\<And>p. has_pos m v p \<Longrightarrow> \<not> shared_pos m v (last (mt_self m # as)) (older bs) p \<Longrightarrow> p \<in> A"
  shows "exact m' (as @ bs) (Own - ext_of m v ` A)"
  unfolding exact_def s
proof
  fix x assume x: "x \<in> Own - ext_of m v ` A"
  have "x \<in> Own" using x by simp
  then obtain w p where w: "w \<in> set (mt_self m # as @ v # bs)" "lay m w p = Some x" by (rule exactE [OF e])
  have "\<exists>w' \<in> set (mt_self m # as @ bs). x \<in> ran (lay m w')"
  proof (cases "w = v")
    case True
    then have h: "has_pos m v p" "x = ext_of m v p" using w(2) by (auto simp: lay_ext_of has_pos_def split: if_splits)
    then have "p \<notin> A" using x by blast
    then have "shared_pos m v (last (mt_self m # as)) (older bs) p" using A h(1) by blast
    then obtain w' where w': "w' \<in> neighbours (last (mt_self m # as)) (older bs)" "same_at (lay m v) (lay m w') p" by (auto simp: shared_pos_def)
    then have "lay m w' p = Some x" using w(2) True by (auto simp: same_at_def)
    then show ?thesis using neighbour_cases(1) [OF I w'(1)] by (blast intro: ranI)
  next
    case False
    then show ?thesis using w ranI [of "lay m w" p x] by auto
  qed
  then show "x \<in> (\<Union>w \<in> set (mt_self m # as @ bs). ran (lay m' w))" unfolding l by blast
qed

lemma view_ctxI:
  assumes I: "matras_inv m (as @ v # bs) Own R Out" and n: "mv_block_count (mt_views m v) + step1 m \<le> 2 ^ 32"
  shows "view_ctx (unlink_view v nv pv m) v (last (mt_self m # as)) (older bs) Own"
proof -
  note J = matras_invD [OF I]
  have g: "geom (unlink_view v nv pv m) = geom m" by simp
  have "mv_block_count (mt_views m w) \<le> mt_capacity m \<and> ran (lay m w) \<subseteq> Own \<and> own_pos (lay m v) (lay m w)"
    if "w \<in> insert v (neighbours (last (mt_self m # as)) (older bs))" for w
  proof -
    have w: "w \<in> set (mt_self m # as @ v # bs)" using neighbour_cases(1) [OF I, of w] that by auto
    have in_l: "lay m x \<in> set (map (lay m) (mt_self m # as @ v # bs))" if "x \<in> set (mt_self m # as @ v # bs)" for x unfolding set_map using that by (rule imageI)
    have "own_pos (lay m v) (lay m w)" by (rule cow_own [OF J(8) in_l in_l [OF w]]) simp
    then show ?thesis using J(7,9) [OF w] by blast
  qed
  then show ?thesis unfolding view_ctx_def own_ctx_def geomD [OF g] unlink_simps unlink_lay using J(1) n by blast
qed

section \<open>The whole operation\<close>

lemma destroy_run:
  assumes I: "matras_inv m (as @ v # bs) Own R Out" and n: "mv_block_count (mt_views m v) + step1 m \<le> 2 ^ 32"
  defines "nv \<equiv> last (mt_self m # as)" and "pv \<equiv> older bs"
  defines "u \<equiv> unlink_view v nv pv m"
  shows "matras_destroy_read_view m v =
    (if \<not> has_pos m v Top \<or> shared_pos m v nv pv Top then Some u
     else do { m' \<leftarrow> view_free_outer v nv pv 0 0 u; matras_free_read_view_extent m' (mv_root (mt_views m' v)) })"
proof -
  note J = matras_invD [OF I]
  have v: "v \<noteq> mt_self m" "v \<noteq> NULL" using J(3,4) by auto
  have lk: "mv_next (mt_views m v) = nv" "mv_prev (mt_views m v) = pv" using linked_at [OF J(6)] by (simp_all add: nv_def pv_def)
  have "nv \<in> neighbours nv pv" by (simp add: neighbours_def)
  then have "nv \<in> set (mt_self m # as @ bs)" using neighbour_cases(1) [OF I, of nv] unfolding nv_def pv_def by blast
  moreover have "NULL \<notin> set (mt_self m # as @ bs)" using J(4) by auto
  ultimately have nn: "nv \<noteq> NULL" by metis
  have u: "(let m = upd_view nv (\<lambda>w. w\<lparr>mv_prev := pv\<rparr>) m; m = (if pv \<noteq> NULL then upd_view pv (\<lambda>w. w\<lparr>mv_next := nv\<rparr>) m else m) in upd_view v (\<lambda>w. w\<lparr>mv_next := NULL\<rparr>) m) = u"
    by (simp add: u_def unlink_view_def)
  have r: "mv_root (mt_views u w) = mv_root (mt_views m w)" "mv_block_count (mt_views u w) = mv_block_count (mt_views m w)" for w by (simp_all add: u_def)
  have "shared_pos m v nv pv Top \<longleftrightarrow> mv_root (mt_views u v) = mv_root (mt_views u nv) \<and> mv_block_count (mt_views u nv) \<noteq> 0 \<or>
      pv \<noteq> NULL \<and> mv_root (mt_views u v) = mv_root (mt_views u pv) \<and> mv_block_count (mt_views u pv) \<noteq> 0" if "has_pos m v Top"
    unfolding shared_pos_def same_at_ext [OF that] by (auto simp: neighbours_def ext_of_def has_pos_def r)
  moreover have "has_pos m v Top \<longleftrightarrow> mv_block_count (mt_views u v) \<noteq> 0" by (simp add: has_pos_def r)
  moreover have "matras_destroy_read_view m v =
      (if mv_block_count (mt_views u v) = 0 then Some u
       else if mv_root (mt_views u v) = mv_root (mt_views u nv) \<and> mv_block_count (mt_views u nv) \<noteq> 0 then Some u
       else if pv \<noteq> NULL \<and> mv_root (mt_views u v) = mv_root (mt_views u pv) \<and> mv_block_count (mt_views u pv) \<noteq> 0 then Some u
       else do { m' \<leftarrow> view_free_outer v nv pv 0 0 u; matras_free_read_view_extent m' (mv_root (mt_views m' v)) })"
    unfolding matras_destroy_read_view_def lk Let_def u [unfolded Let_def] using v(1) nn by (simp only: c_assert_bind not_False_eq_True if_True if_False)
  ultimately show ?thesis by (simp only:) argo
qed

lemma destroy_view_spec:
  assumes I: "matras_inv m (as @ v # bs) Own R Out" and n: "mv_block_count (mt_views m v) + step1 m \<le> 2 ^ 32"
  obtains m' Own' where "matras_destroy_read_view m v = Some m'" "matras_inv m' (as @ bs) Own' R Out" "Own' \<subseteq> Own" "geom m' = geom m"
    "\<And>w. keeps_view m m' w" "\<And>w. lay m' w = lay m w" "\<And>x. ext_bytes m' x = ext_bytes m x" "exact m (as @ v # bs) Own \<and> fits_older m v bs \<longrightarrow> exact m' (as @ bs) Own'"
    "Own - ran (lay m v) \<subseteq> Own'"
proof -
  note conclude = that
  define nv where "nv = last (mt_self m # as)"
  define pv where "pv = older bs"
  define u where "u = unlink_view v nv pv m"
  note run = destroy_run [OF I n, folded nv_def pv_def, folded u_def]
  have C: "view_ctx u v nv pv Own" unfolding u_def nv_def pv_def by (rule view_ctxI [OF I n])
  have up: "has_pos u w p = has_pos m w p" "ext_of u w p = ext_of m w p" "shared_pos u v nv pv p = shared_pos m v nv pv p" for w p
    unfolding u_def by (rule unlink_pos)+
  have su: "slots u = slots m" by (rule geomD(7)) (simp add: u_def)
  have F0: "freed_state u v Own R Out {} u" using matras_invD(2) [OF I] by (simp add: freed_state_def u_def)
  have finish: thesis if r: "matras_destroy_read_view m v = Some m'" and F: "freed_state u v Own R Out A m'" and A: "\<And>p. p \<in> A \<Longrightarrow> has_pos m v p \<and> \<not> shared_pos m v nv pv p"
    and ex: "\<And>p. fits_older m v bs \<Longrightarrow> has_pos m v p \<Longrightarrow> \<not> shared_pos m v nv pv p \<Longrightarrow> p \<in> A" for m' A
  proof -
    have "ext_of u v = ext_of m v" using up(2) by blast
    then have c: "core m' = core (unlink_view v nv pv m)" "heap_ok m' (Own - ext_of m v ` A) R Out" using F by (simp_all add: freed_state_def u_def)
    note f = freed_inv [OF I nv_def pv_def A c]
    have "exact m' (as @ bs) (Own - ext_of m v ` A)" if "exact m (as @ v # bs) Own" "fits_older m v bs"
      by (rule exact_freed [OF I that(1) geomD(1)]) (use f(2,6) ex [OF that(2)] in \<open>auto simp: nv_def pv_def\<close>)
    moreover have "ext_of m v p \<in> ran (lay m v)" if "p \<in> A" for p
      using A [OF that] by (intro ranI [of _ p]) (simp add: lay_ext_of has_pos_def)
    ultimately show thesis using r f by (intro conclude [of m' "Own - ext_of m v ` A"]) auto
  qed
  have "below (slots m) Top p" for p by simp
  note top = shared_below [OF I _ _ this, folded nv_def pv_def]
  show thesis
  proof (cases "\<not> has_pos m v Top \<or> shared_pos m v nv pv Top")
    case True
    have "has_pos m v p \<Longrightarrow> has_pos m v Top" for p by (auto simp: has_pos_def)
    then show thesis using run True top by (intro finish [OF _ F0]) auto
  next
    case False
    obtain m1 where m1: "view_free_outer v nv pv 0 (0 * step1 u) u = Some m1" "freed_state u v Own R Out ({} \<union> rows_from u (drop_pos u v nv pv) 0) m1"
      using outer_spec [OF C F0, of 0] by auto
    have A: "drop_pos u v nv pv q" if "q \<in> rows_from u (drop_pos u v nv pv) 0" for q using that by (simp add: rows_from_def)
    have t: "has_pos u v Top" "Top \<notin> rows_from u (drop_pos u v nv pv) 0" using False up by (simp_all add: rows_from_def)
    have F1: "freed_state u v Own R Out (rows_from u (drop_pos u v nv pv) 0) m1" using m1(2) by simp
    obtain m2 where m2: "matras_free_read_view_extent m1 (ext_of u v Top) = Some m2" "freed_state u v Own R Out (insert Top (rows_from u (drop_pos u v nv pv) 0)) m2"
      by (rule free_pos [OF view_own [OF C] F1 conjunct1 [OF drop_has [OF A]] t])
    have "mt_views m1 = mt_views u" using F1 coreD(2) unfolding freed_state_def by blast
    then have r: "matras_destroy_read_view m v = Some m2" using run False m1(1) m2(1) by (simp add: ext_of_def)
    show thesis
    proof (rule finish [OF r m2(2)])
      show "has_pos m v p \<and> \<not> shared_pos m v nv pv p" if "p \<in> insert Top (rows_from u (drop_pos u v nv pv) 0)" for p
        using that False drop_has [OF A] up by auto
      show "p \<in> insert Top (rows_from u (drop_pos u v nv pv) 0)" if f: "fits_older m v bs" and p: "has_pos m v p" "\<not> shared_pos m v nv pv p" for p
      proof (cases p)
        case (Low k)
        have "\<not> shared_pos m v nv pv (Mid (k div slots m))" using shared_below [OF I f p(1), of "Mid (k div slots m)", folded nv_def pv_def] p(2) Low by auto
        then show ?thesis using p Low up su by (simp add: rows_from_def)
      qed (use p up in \<open>simp_all add: rows_from_def\<close>)
    qed
  qed
qed

end
