(* ===== verification/Matras_Teardown.thy ===== *)
theory Matras_Teardown
  imports Matras_Destroy
begin

text \<open>
  The end of an array: its views are destroyed, newest first, then the extents of the head are given
  back. The operations of the allocator on its reserved extents follow.
\<close>

section \<open>All views\<close>

definition counts_of :: "matras \<Rightarrow> addr list \<Rightarrow> nat list" where
  "counts_of m vs = map (\<lambda>v. mv_block_count (mt_views m v)) vs"

lemma destroy_views_spec:
  assumes "matras_inv m vs Own R Out" and "\<And>v. v \<in> set vs \<Longrightarrow> mv_block_count (mt_views m v) + step1 m \<le> 2 ^ 32"
  shows "\<exists>m' Own'. destroy_views m = Some m' \<and> matras_inv m' [] Own' R Out \<and> Own' \<subseteq> Own \<and> geom m' = geom m \<and> (\<forall>w. keeps_view m m' w) \<and>
    (\<forall>w. lay m' w = lay m w) \<and> (\<forall>x. ext_bytes m' x = ext_bytes m x) \<and> (exact m vs Own \<and> sorted (counts_of m vs) \<longrightarrow> exact m' [] Own') \<and>
    Own - (\<Union>w \<in> set vs. ran (lay m w)) \<subseteq> Own'"
  using assms
proof (induction vs arbitrary: m Own)
  case Nil
  then have "mv_prev (mt_head m) = NULL" using matras_invD(6) [OF Nil(1)] by simp
  then show ?case using Nil by (subst destroy_views.simps) auto
next
  case (Cons v vs)
  have p: "mv_prev (mt_head m) = v" "v \<noteq> NULL" using matras_invD(4,6) [OF Cons(2)] by auto
  have I: "matras_inv m ([] @ v # vs) Own R Out" using Cons(2) by simp
  have n: "mv_block_count (mt_views m v) + step1 m \<le> 2 ^ 32" using Cons(3) [of v] by simp
  obtain m1 Own1 where d: "matras_destroy_read_view m v = Some m1" "matras_inv m1 ([] @ vs) Own1 R Out" "Own1 \<subseteq> Own" "geom m1 = geom m"
    "\<And>w. keeps_view m m1 w" "\<And>w. lay m1 w = lay m w" "\<And>x. ext_bytes m1 x = ext_bytes m x" "exact m ([] @ v # vs) Own \<and> fits_older m v vs \<longrightarrow> exact m1 ([] @ vs) Own1"
    "Own - ran (lay m v) \<subseteq> Own1"
    by (rule destroy_view_spec [OF I n]) blast
  have cnt: "mv_block_count (mt_views m1 w) = mv_block_count (mt_views m w)" for w using d(5) [of w] by (simp add: keeps_view_def)
  have I1: "matras_inv m1 vs Own1 R Out" using d(2) by simp
  have "\<exists>m' Own'. destroy_views m1 = Some m' \<and> matras_inv m' [] Own' R Out \<and> Own' \<subseteq> Own1 \<and> geom m' = geom m1 \<and> (\<forall>w. keeps_view m1 m' w) \<and>
    (\<forall>w. lay m' w = lay m1 w) \<and> (\<forall>x. ext_bytes m' x = ext_bytes m1 x) \<and> (exact m1 vs Own1 \<and> sorted (counts_of m1 vs) \<longrightarrow> exact m' [] Own') \<and>
    Own1 - (\<Union>w \<in> set vs. ran (lay m1 w)) \<subseteq> Own'"
    by (rule Cons(1) [OF I1]) (use Cons(3) cnt geomD(5) [OF d(4)] in auto)
  then obtain m' Own' where r: "destroy_views m1 = Some m'" "matras_inv m' [] Own' R Out" "Own' \<subseteq> Own1" "geom m' = geom m1" "\<And>w. keeps_view m1 m' w"
    "\<And>x. ext_bytes m' x = ext_bytes m1 x" "exact m1 vs Own1 \<and> sorted (counts_of m1 vs) \<longrightarrow> exact m' [] Own'"
    "\<And>w. lay m' w = lay m1 w" "Own1 - (\<Union>w \<in> set vs. ran (lay m1 w)) \<subseteq> Own'" by blast
  have "destroy_views m = Some m'" using p d(1) r(1) by (subst destroy_views.simps) simp
  moreover have "exact m' [] Own'" if e: "exact m (v # vs) Own" "sorted (counts_of m (v # vs))"
  proof -
    have "fits_older m v vs" using e(2) by (cases vs) (simp_all add: fits_older_def counts_of_def)
    then have "exact m1 vs Own1" using d(8) e(1) by simp
    moreover have "sorted (counts_of m1 vs)" using e(2) by (simp add: counts_of_def cnt)
    ultimately show ?thesis using r(7) by blast
  qed
  moreover have "keeps_view m m' w" for w by (rule keeps_view_trans [OF d(5) r(5)])
  moreover have "Own - (\<Union>w \<in> set (v # vs). ran (lay m w)) \<subseteq> Own'" using d(9) r(9) unfolding d(6) by auto
  moreover have "Own' \<subseteq> Own" "geom m' = geom m" using r(3,4) d(3,4) by auto
  moreover have "lay m' w = lay m w" "ext_bytes m' x = ext_bytes m x" for w x using r(6,8) d(6,7) by simp_all
  ultimately show ?case using r(2) by blast
qed

section \<open>The extents of the head\<close>

definition has_below :: "matras \<Rightarrow> addr \<Rightarrow> slot_pos \<Rightarrow> bool" where
  "has_below m v p \<longleftrightarrow> p \<noteq> Top \<and> has_pos m v p"

lemma free_extent_pos:
  assumes C: "own_ctx m v Own" and F: "freed_state m v Own R Out A m'" and A: "\<And>q. q \<in> A \<Longrightarrow> has_pos m v q" and p: "has_pos m v p" "p \<notin> A"
  obtains m'' where "matras_free_extent m' (ext_of m v p) = Some m''" "freed_state m v Own R Out (insert p A) m''"
proof -
  have h: "heap_ok m' (Own - ext_of m v ` A) R Out" and c: "core m' = core m" using F by (simp_all add: freed_state_def)
  show thesis
  proof (rule free_extent_spec [OF h ctx_live_own(1) [OF C F A p]])
    fix m'' assume a: "matras_free_extent m' (ext_of m v p) = Some m''" "core m'' = core m'" "heap_ok m'' (Own - ext_of m v ` A - {ext_of m v p}) R Out"
    have "Own - ext_of m v ` A - {ext_of m v p} = Own - ext_of m v ` insert p A" by auto
    then show thesis using a c by (intro that [of m'']) (simp_all add: freed_state_def)
  qed
qed

lemma destroy_inner_spec:
  assumes C: "own_ctx m (mt_self m) Own" and i: "has_pos m (mt_self m) (Mid i)" and F: "freed_state m (mt_self m) Own R Out A m'"
    and A: "\<And>q. q \<in> A \<Longrightarrow> has_pos m (mt_self m) q" and nA: "Mid i \<notin> A" "\<And>k. Low k \<in> A \<Longrightarrow> k div slots m = i \<Longrightarrow> k mod slots m < i2" and i2: "i2 \<le> slots m"
  shows "\<exists>m''. destroy_inner (i * step1 m) (ext_of m (mt_self m) (Mid i)) i2 (i2 * step2 m) m' = Some m'' \<and>
    freed_state m (mt_self m) Own R Out (A \<union> low_from m (has_below m (mt_self m)) i i2) m''"
  using F A nA i2
proof (induction "slots m - i2" arbitrary: i2 A m')
  case 0
  have g: "geom_ok m" using C by (simp add: own_ctx_def)
  have e: "i2 = slots m" using 0 by simp
  have cr: "core m' = core m" using 0(2) by (simp add: freed_state_def)
  note c = coreD(1) [OF cr] coreD(2) [OF cr]
  have "\<not> (i2 < mt_extent_size m' div 8 \<and> (i * step1 m + i2 * step2 m) mod 2 ^ 32 < mv_block_count (mt_views m' (mt_self m)))"
    unfolding inner_step(1) [OF C i c 0(6)] using e by simp
  then show ?case using 0(2) low_from_end [OF g] e geomD(1) [OF c(1)] by (subst destroy_inner.simps) (auto simp only: if_False Un_empty_right simp_thms)
next
  case (Suc d)
  have g: "geom_ok m" using C by (simp add: own_ctx_def)
  have lt: "i2 < slots m" using Suc(2) by simp
  have cr: "core m' = core m" using Suc(3) by (simp add: freed_state_def)
  note c = coreD(1) [OF cr] coreD(2) [OF cr]
  note st = inner_step [OF C i c Suc(7)] and self = geomD(1) [OF c(1)]
  let ?s = "mt_self m"
  let ?k = "i * slots m + i2"
  show ?case
  proof (cases "has_pos m ?s (Low ?k)")
    case False
    then have "\<not> (i2 < mt_extent_size m' div 8 \<and> (i * step1 m + i2 * step2 m) mod 2 ^ 32 < mv_block_count (mt_views m' ?s))" unfolding st(1) by simp
    then show ?thesis using Suc(3) low_from_done [OF g False, of "has_below m ?s"] self has_below_def
      by (subst destroy_inner.simps) (auto simp only: if_False Un_empty_right simp_thms)
  next
    case True
    let ?p = "Low ?k" and ?e = "ext_of m ?s (Low ?k)"
    have kd: "?k div slots m = i" "?k mod slots m = i2" using lt by simp_all
    have nk: "?p \<notin> A" using Suc(6) [of ?k] kd by auto
    have l2: "ext_of m ?s (Mid i) \<in> xh_live (mt_heap m')" by (rule ctx_live_own(2) [OF C Suc(3) Suc(4) i Suc(5)])
    have ld: "load_slot m' (ext_of m ?s (Mid i)) i2 = Some ?e" using load_freed [OF g cr l2 lt] kd by (simp add: ext_of_def)
    have "i2 < mt_extent_size m' div 8 \<and> (i * step1 m + i2 * step2 m) mod 2 ^ 32 < mv_block_count (mt_views m' ?s)" unfolding st(1) using lt True by simp
    then have guard: "(i2 < mt_extent_size m' div 8 \<and> (i * step1 m + i2 * step2 m) mod 2 ^ 32 < mv_block_count (mt_head m')) = True" unfolding self by simp
    have d: "d = slots m - Suc i2" using Suc(2) by simp
    obtain m1 where m1: "matras_free_extent m' ?e = Some m1" "freed_state m ?s Own R Out (insert ?p A) m1"
      by (rule free_extent_pos [OF C Suc(3) Suc(4) True nk])
    have "geom m1 = geom m" using m1(2) coreD(1) unfolding freed_state_def by blast
    then have mask: "mask2 m1 = mask2 m'" using geomD(9) c(1) by metis
    have run: "destroy_inner (i * step1 m) (ext_of m ?s (Mid i)) i2 (i2 * step2 m) m' = destroy_inner (i * step1 m) (ext_of m ?s (Mid i)) (Suc i2) (Suc i2 * step2 m) m1"
      unfolding destroy_inner.simps [of _ _ i2] guard ld using m1(1) by (simp only: if_True Option.bind.bind_lunit mask st(3) [OF lt] st(4) [OF lt])
    have eq: "A \<union> low_from m (has_below m ?s) i i2 = insert ?p A \<union> low_from m (has_below m ?s) i (Suc i2)"
      using low_from_step [OF g lt, of "has_below m ?s" i] True by (auto simp: has_below_def)
    have "\<exists>m''. destroy_inner (i * step1 m) (ext_of m ?s (Mid i)) (Suc i2) (Suc i2 * step2 m) m1 = Some m'' \<and>
        freed_state m ?s Own R Out (insert ?p A \<union> low_from m (has_below m ?s) i (Suc i2)) m''"
    proof (rule Suc(1) [OF d m1(2)])
      show "has_pos m ?s q" if "q \<in> insert ?p A" for q using Suc(4) [of q] that True by blast
      show "k mod slots m < Suc i2" if "Low k \<in> insert ?p A" "k div slots m = i" for k using Suc(6) [of k] that kd(2) by (cases "k = ?k") auto
    qed (use Suc(5) lt in auto)
    then show ?thesis unfolding run eq .
  qed
qed

lemma below_step:
  assumes "has_pos m v (Mid i)"
  shows "rows_from m (has_below m v) i = insert (Mid i) (low_from m (has_below m v) i 0) \<union> rows_from m (has_below m v) (Suc i)"
    (is "_ = ?A \<union> _")
proof (rule set_eqI)
  fix p
  have "i \<le> row m p \<longleftrightarrow> row m p = i \<or> Suc i \<le> row m p" by auto
  moreover have "has_below m v p \<and> row m p = i \<longleftrightarrow> p \<in> ?A" using assms by (cases p) (auto simp: low_from_def has_below_def)
  ultimately show "p \<in> rows_from m (has_below m v) i \<longleftrightarrow> p \<in> ?A \<union> rows_from m (has_below m v) (Suc i)" unfolding rows_from_def by blast
qed

lemma destroy_row_spec:
  assumes C: "own_ctx m (mt_self m) Own" and i: "has_pos m (mt_self m) (Mid i)" and F: "freed_state m (mt_self m) Own R Out A m'"
    and A: "\<And>q. q \<in> A \<Longrightarrow> has_below m (mt_self m) q \<and> row m q < i"
  obtains m'' where "destroy_outer i (i * step1 m) m' = destroy_outer (Suc i) (Suc i * step1 m) m''"
    "freed_state m (mt_self m) Own R Out (A \<union> insert (Mid i) (low_from m (has_below m (mt_self m)) i 0)) m''"
proof -
  let ?s = "mt_self m" and ?e = "ext_of m (mt_self m) (Mid i)"
  have g: "geom_ok m" and cap: "mv_block_count (mt_views m ?s) \<le> mt_capacity m" using C by (auto simp: own_ctx_def)
  have cr: "core m' = core m" using F by (simp add: freed_state_def)
  note c = coreD(1) [OF cr] coreD(2) [OF cr] and self = geomD(1) [OF coreD(1) [OF cr]]
  have A': "has_pos m ?s q" if "q \<in> A" for q using A [OF that] by (simp add: has_below_def)
  have nA: "Top \<notin> A" "Mid i \<notin> A" "\<And>k. Low k \<in> A \<Longrightarrow> k div slots m < i" using A by (force simp: has_below_def)+
  have "ext_of m ?s Top \<in> xh_live (mt_heap m')" by (rule ctx_live_own(2) [OF C F A' has_above(2) [OF g cap i] nA(1)])
  then have ld: "load_slot m' (mv_root (mt_head m')) i = Some ?e"
    using load_freed [OF g cr _ has_above(3) [OF g cap i], of "ext_of m ?s Top"] c(2) self by (simp add: ext_of_def)
  have guard: "(i * step1 m < mv_block_count (mt_head m')) = True" using i c(2) self by (simp add: has_pos_def)
  have "\<exists>m''. destroy_inner (i * step1 m) ?e 0 (0 * step2 m) m' = Some m'' \<and> freed_state m ?s Own R Out (A \<union> low_from m (has_below m ?s) i 0) m''"
    by (rule destroy_inner_spec [OF C i F A' nA(2)]) (use nA(3) in fastforce)+
  then obtain m1 where m1: "destroy_inner (i * step1 m) ?e 0 0 m' = Some m1" "freed_state m ?s Own R Out (A \<union> low_from m (has_below m ?s) i 0) m1" by auto
  have B: "Mid i \<notin> A \<union> low_from m (has_below m ?s) i 0" "\<And>q. q \<in> A \<union> low_from m (has_below m ?s) i 0 \<Longrightarrow> has_pos m ?s q"
    using nA(2) A' by (auto simp: low_from_def has_below_def)
  obtain m2 where m2: "matras_free_extent m1 ?e = Some m2" "freed_state m ?s Own R Out (insert (Mid i) (A \<union> low_from m (has_below m ?s) i 0)) m2"
    by (rule free_extent_pos [OF C m1(2) B(2) i B(1)])
  have "geom m2 = geom m" using m2(2) coreD(1) unfolding freed_state_def by blast
  note st = outer_step [OF C i this]
  have "destroy_outer i (i * step1 m) m' = destroy_outer (Suc i) (Suc i * step1 m) m2"
    unfolding destroy_outer.simps [of i] guard ld by (simp only: if_True Option.bind.bind_lunit m1(1) m2(1) st(1,2))
  then show thesis using m2(2) by (intro that) simp_all
qed

lemma destroy_outer_spec:
  assumes C: "own_ctx m (mt_self m) Own" and F: "freed_state m (mt_self m) Own R Out A m'" and A: "\<And>q. q \<in> A \<Longrightarrow> has_below m (mt_self m) q \<and> row m q < i" and i: "i \<le> slots m"
  shows "\<exists>m''. destroy_outer i (i * step1 m) m' = Some m'' \<and> freed_state m (mt_self m) Own R Out (A \<union> rows_from m (has_below m (mt_self m)) i) m''"
  using F A i
proof (induction "slots m - i" arbitrary: i A m')
  let ?s = "mt_self m"
  have g: "geom_ok m" and cap: "mv_block_count (mt_views m ?s) \<le> mt_capacity m" using C by (auto simp: own_ctx_def)
  have stop: "\<exists>m''. destroy_outer i (i * step1 m) m' = Some m'' \<and> freed_state m ?s Own R Out (A \<union> rows_from m (has_below m ?s) i) m''"
    if F: "freed_state m ?s Own R Out A m'" and n: "\<not> has_pos m ?s (Mid i)" for i A m'
  proof -
    have cr: "core m' = core m" using F by (simp add: freed_state_def)
    have "rows_from m (has_below m ?s) i = {}" by (rule rows_from_done [OF C n]) (simp add: has_below_def)
    then show ?thesis using F n coreD(2) [OF cr] geomD(1) [OF coreD(1) [OF cr]] by (subst destroy_outer.simps) (simp add: has_pos_def)
  qed
  {
    case (0 i A m')
    then show ?case using has_above(3) [OF g cap, of i] stop [OF 0(2)] by fastforce
  next
    case (Suc d i A m')
    show ?case
    proof (cases "has_pos m ?s (Mid i)")
      case True
      let ?B = "insert (Mid i) (low_from m (has_below m ?s) i 0)"
      obtain m1 where m1: "destroy_outer i (i * step1 m) m' = destroy_outer (Suc i) (Suc i * step1 m) m1" "freed_state m ?s Own R Out (A \<union> ?B) m1"
        by (rule destroy_row_spec [OF C True Suc(3) Suc(4)])
      have B: "has_below m ?s q \<and> row m q < Suc i" if "q \<in> A \<union> ?B" for q
        using that Suc(4) [of q] True by (auto simp: low_from_def has_below_def)
      have "Suc i \<le> slots m" "d = slots m - Suc i" using Suc(2,5) by simp_all
      then show ?thesis using Suc(1) [OF _ m1(2) B] unfolding m1(1) below_step [OF True] by (simp only: Un_assoc)
    qed (rule stop [OF Suc(3)])
  }
qed

lemma inv_own_ctx:
  assumes I: "matras_inv m vs Own R Out" and n: "mv_block_count (mt_head m) + step1 m \<le> 2 ^ 32"
  shows "own_ctx m (mt_self m) Own"
  using matras_invD(1) [OF I] matras_invD(7,9) [OF I, of "mt_self m"] inv_own_pos [OF I, of "mt_self m" "mt_self m"] n by (simp add: own_ctx_def)

lemma destroy_head_spec:
  assumes I: "matras_inv m [] Own R Out" and n: "mv_block_count (mt_head m) + step1 m \<le> 2 ^ 32" "0 < mv_block_count (mt_head m)"
  obtains m1 m' where "destroy_outer 0 0 m = Some m1" "matras_free_extent m1 (mv_root (mt_head m1)) = Some m'" "core m' = core m" "heap_ok m' (Own - ran (lay m (mt_self m))) R Out"
proof -
  let ?s = "mt_self m"
  note C = inv_own_ctx [OF I n(1)]
  have F0: "freed_state m ?s Own R Out {} m" using matras_invD(2) [OF I] by (simp add: freed_state_def)
  have "\<exists>m''. destroy_outer 0 (0 * step1 m) m = Some m'' \<and> freed_state m ?s Own R Out ({} \<union> rows_from m (has_below m ?s) 0) m''"
    by (rule destroy_outer_spec [OF C F0]) auto
  then obtain m1 where m1: "destroy_outer 0 0 m = Some m1" "freed_state m ?s Own R Out (rows_from m (has_below m ?s) 0) m1" by auto
  have t: "has_pos m ?s Top" "Top \<notin> rows_from m (has_below m ?s) 0" using n(2) by (simp_all add: has_pos_def rows_from_def has_below_def)
  have A: "has_pos m ?s q" if "q \<in> rows_from m (has_below m ?s) 0" for q using that by (simp add: rows_from_def has_below_def)
  obtain m2 where m2: "matras_free_extent m1 (ext_of m ?s Top) = Some m2" "freed_state m ?s Own R Out (insert Top (rows_from m (has_below m ?s) 0)) m2"
    by (rule free_extent_pos [OF C m1(2) A t])
  have gone: "ext_of m ?s ` insert Top (rows_from m (has_below m ?s) 0) = ran (lay m ?s)"
  proof -
    have "insert Top (rows_from m (has_below m ?s) 0) = {p. has_pos m ?s p}" using t(1) by (auto simp: rows_from_def has_below_def)
    then show ?thesis by (auto simp: ran_def lay_ext_of has_pos_def)
  qed
  have h: "core m2 = core m" "heap_ok m2 (Own - ran (lay m ?s)) R Out" using m2(2) unfolding freed_state_def gone by blast+
  have cr: "core m1 = core m" using m1(2) by (simp add: freed_state_def)
  have "mv_root (mt_head m1) = ext_of m ?s Top" using coreD(2) [OF cr] geomD(1) [OF coreD(1) [OF cr]] by (simp add: ext_of_def)
  then show thesis using m1(1) m2(1) h by (intro that [of m1 m2]) (simp_all only:)
qed

lemma inv_empty:
  assumes "matras_inv m [] Own R Out" and "geom m' = geom m" and "heap_ok m' {} R Out" and "mv_block_count (mt_head m') = 0" and "mv_prev (mt_head m') = NULL" and "mv_next (mt_head m') = NULL"
  shows "matras_inv m' [] {} R Out" and "exact m' [] {}"
proof -
  note J = matras_invD [OF assms(1)] and g = geomD [OF assms(2)]
  have l: "lay m' (mt_self m') p = None" for p using assms(4) by (simp add: layout_of_def)
  show "matras_inv m' [] {} R Out" unfolding matras_inv_def using J(1,3,4) assms(3-6) g l by (auto simp: own_pos_def ran_def)
  show "exact m' [] {}" by (simp add: exact_def)
qed

text \<open>
  Destruction gives every extent of the array back, and the assertion on the count of extents holds, when
  no view has more blocks than an older one.
\<close>

lemma destroy_all_spec:
  assumes I: "matras_inv m vs Own R Out" and e: "exact m vs Own" "sorted (counts_of m vs)" and n: "\<And>w. w \<in> set (mt_self m # vs) \<Longrightarrow> mv_block_count (mt_views m w) + step1 m \<le> 2 ^ 32"
  obtains m' m1 Own1 where "matras_destroy m = Some m'" "geom m' = geom m" "heap_ok m' {} R Out" "\<And>x. ext_bytes m' x = ext_bytes m x"
    "matras_inv m1 [] Own1 R Out" "geom m1 = geom m" "mt_views m' = mt_views m1"
proof -
  obtain m1 Own1 where d: "destroy_views m = Some m1" "matras_inv m1 [] Own1 R Out" "geom m1 = geom m" "\<And>w. keeps_view m m1 w" "\<And>x. ext_bytes m1 x = ext_bytes m x" "exact m1 [] Own1"
    using destroy_views_spec [OF I] n e by fastforce
  have s: "mt_self m1 = mt_self m" by (rule geomD(1) [OF d(3)])
  show thesis
  proof (cases "mv_block_count (mt_head m1) = 0")
    case True
    have "Own1 = {}" using d(6) True by (auto simp: exact_def layout_of_def ran_def)
    then show thesis using d True matras_invD(2) [OF d(2)] by (intro that [of m1 m1 Own1]) (simp_all add: matras_destroy_def)
  next
    case False
    have "mv_block_count (mt_head m1) + step1 m1 \<le> 2 ^ 32" using n [of "mt_self m"] d(4) [of "mt_self m"] s geomD(5) [OF d(3)] by (simp add: keeps_view_def)
    moreover have "Own1 - ran (lay m1 (mt_self m1)) = {}" using d(6) by (auto simp: exact_def)
    ultimately obtain m2 m' where m2: "destroy_outer 0 0 m1 = Some m2" "matras_free_extent m2 (mv_root (mt_head m2)) = Some m'" "core m' = core m1" "heap_ok m' {} R Out"
      using destroy_head_spec [OF d(2)] False by (metis neq0_conv)
    have "mt_extent_count m' = 0" using heap_okD(11) [OF m2(4)] by simp
    then have "matras_destroy m = Some m'" using d(1) m2(1,2) False by (simp add: matras_destroy_def)
    moreover have "geom m' = geom m" using coreD(1) [OF m2(3)] d(3) by simp
    moreover have "ext_bytes m' x = ext_bytes m x" for x using ext_bytes_same [OF coreD(1) [OF m2(3)] coreD(4) [OF m2(3)]] d(5) by simp
    ultimately show thesis using m2(3,4) d(2,3) coreD(2) [OF m2(3)] by (intro that [of m' m1 Own1]) simp_all
  qed
qed

text \<open>
  With an extent that neither the array nor a view has, destruction frees all others and then stops at the
  assertion on the count of extents, and at nothing else. The count has 32 bits.
\<close>

lemma destroy_lost_spec:
  assumes I: "matras_inv m vs Own R Out" and x: "x \<in> Own" "\<And>w. w \<in> set (mt_self m # vs) \<Longrightarrow> x \<notin> ran (lay m w)"
    and n: "\<And>w. w \<in> set (mt_self m # vs) \<Longrightarrow> mv_block_count (mt_views m w) + step1 m \<le> 2 ^ 32" "0 < mv_block_count (mt_head m)"
    and few: "card Own < 2 ^ 32"
  obtains m1 m2 m3 where "destroy_views m = Some m1" "destroy_outer 0 0 m1 = Some m2" "matras_free_extent m2 (mv_root (mt_head m2)) = Some m3"
    "0 < mt_extent_count m3" "x \<in> xh_live (mt_heap m3)" "0 < mv_block_count (mt_head m1)" "matras_destroy m = None"
proof -
  have nv: "mv_block_count (mt_views m v) + step1 m \<le> 2 ^ 32" if "v \<in> set vs" for v using n(1) [of v] that by simp
  obtain m1 Own1 where d: "destroy_views m = Some m1" "matras_inv m1 [] Own1 R Out" "geom m1 = geom m" "\<And>w. keeps_view m m1 w" "\<And>w. lay m1 w = lay m w"
    "Own - (\<Union>w \<in> set vs. ran (lay m w)) \<subseteq> Own1" "Own1 \<subseteq> Own" using destroy_views_spec [OF I nv] by blast
  have s: "mt_self m1 = mt_self m" by (rule geomD(1) [OF d(3)])
  have c: "mv_block_count (mt_head m1) + step1 m1 \<le> 2 ^ 32" "0 < mv_block_count (mt_head m1)"
    using n(1) [of "mt_self m"] n(2) d(4) [of "mt_self m"] s geomD(5) [OF d(3)] by (simp_all add: keeps_view_def)
  obtain m2 m3 where m2: "destroy_outer 0 0 m1 = Some m2" "matras_free_extent m2 (mv_root (mt_head m2)) = Some m3" "heap_ok m3 (Own1 - ran (lay m1 (mt_self m1))) R Out"
    using destroy_head_spec [OF d(2) c] by blast
  have "x \<in> Own1" using d(6) x by auto
  then have xO: "x \<in> Own1 - ran (lay m1 (mt_self m1))" using x(2) [of "mt_self m"] d(5) s by simp
  have "finite Own" by (rule heap_okD(5) [OF matras_invD(2) [OF I]])
  then have "card (Own1 - ran (lay m1 (mt_self m1))) \<le> card Own" using d(7) by (intro card_mono) auto
  moreover have "0 < card (Own1 - ran (lay m1 (mt_self m1)))" using xO heap_okD(5) [OF m2(3)] by (auto simp: card_gt_0_iff)
  ultimately have e: "0 < mt_extent_count m3" using heap_okD(11) [OF m2(3)] few by simp
  have l: "x \<in> xh_live (mt_heap m3)" using heap_okD(1) [OF m2(3)] xO by blast
  have "matras_destroy m = None" using d(1) m2(1,2) c(2) e by (simp add: matras_destroy_def)
  then show thesis using d(1) m2(1,2) c(2) e l by (intro that [of m1 m2 m3])
qed

lemma reset_spec:
  assumes I: "matras_inv m vs Own R Out" and e: "exact m vs Own" "sorted (counts_of m vs)" and n: "\<And>w. w \<in> set (mt_self m # vs) \<Longrightarrow> mv_block_count (mt_views m w) + step1 m \<le> 2 ^ 32"
  obtains m' where "matras_reset m = Some m'" "matras_inv m' [] {} R Out" "exact m' [] {}" "mv_block_count (mt_head m') = 0" "geom m' = geom m"
proof (rule destroy_all_spec [OF assms])
  fix m1 m2 Own2 assume d: "matras_destroy m = Some m1" "geom m1 = geom m" "heap_ok m1 {} R Out" "matras_inv m2 [] Own2 R Out" "geom m2 = geom m" "mt_views m1 = mt_views m2"
  let ?m = "upd_head (\<lambda>v. v\<lparr>mv_block_count := 0\<rparr>) m1"
  have s: "mt_self m1 = mt_self m2" using geomD(1) [OF d(2)] geomD(1) [OF d(5)] by simp
  have h: "mv_prev (mt_head m2) = NULL" "mv_next (mt_head m2) = NULL" using matras_invD(5,6) [OF d(4)] by simp_all
  have f: "geom ?m = geom m2" "heap_ok ?m {} R Out" "mv_block_count (mt_head ?m) = 0" "mv_prev (mt_head ?m) = NULL" "mv_next (mt_head ?m) = NULL"
    using d s h by simp_all
  have "matras_reset m = Some ?m" using d(1) by (simp add: matras_reset_def)
  then show thesis using inv_empty [OF d(4) f] f(1,3) d(5) by (intro that [of ?m]) simp_all
qed auto

end
