(* ===== verification/Matras_Reserve.thy ===== *)
theory Matras_Reserve
  imports Matras_Teardown
begin

text \<open>
  The reserved extents: \<open>matras_allocator_reserve\<close> and \<open>matras_allocator_destroy\<close>, that touching as many blocks
  as were reserved for cannot fail, and that \<open>matras_create\<close> gives an empty array.
\<close>

section \<open>Reserving extents\<close>

text \<open>Only reserved extents changed, and the array does not look at these.\<close>

definition reserve_rel :: "matras \<Rightarrow> matras \<Rightarrow> addr list \<Rightarrow> addr list \<Rightarrow> addr set \<Rightarrow> bool" where
  "reserve_rel m m' R R' L \<longleftrightarrow> geom m' = geom m \<and> mt_views m' = mt_views m \<and> xh_byte (mt_heap m') = xh_byte (mt_heap m) \<and>
     (\<forall>e \<in> L. xh_ptr (mt_heap m') e = xh_ptr (mt_heap m) e) \<and> (\<exists>X. R' = X @ R)"

lemma reserve_rel_trans:
  "reserve_rel m m1 R R1 L \<Longrightarrow> reserve_rel m1 m2 R1 R2 L1 \<Longrightarrow> L \<subseteq> L1 \<Longrightarrow> reserve_rel m m2 R R2 L"
  unfolding reserve_rel_def by auto

lemma heap_ok_time: "heap_ok (m\<lparr>mt_heap := mt_heap m\<lparr>xh_time := t\<rparr>\<rparr>) Own R Out = heap_ok m Own R Out"
proof -
  have "reserved_chain (mt_heap m\<lparr>xh_time := t\<rparr>) p R = reserved_chain (mt_heap m) p R" for p by (rule reserved_chain_cong) simp
  then show ?thesis unfolding heap_ok_def by simp
qed

lemma reserve_one:
  assumes g: "geom_ok m" and h: "heap_ok m Own R Out" and af: "alloc_ok af (mt_extent_size m)"
  obtains (no_memory) "call_alloc_func af (mt_heap m) = (NULL, mt_heap m\<lparr>xh_time := Suc (xh_time (mt_heap m))\<rparr>)"
  | (got) e h1 h2 al where "call_alloc_func af (mt_heap m) = (e, h1)" "e \<noteq> NULL" "ext_store e 0 (reserved_extents (mt_allocator m)) h1 = Some h2"
    "al = (mt_allocator m)\<lparr>reserved_extents := e, num_reserved_extents := num_reserved_extents (mt_allocator m) + 1\<rparr>"
    "heap_ok (m\<lparr>mt_allocator := al, mt_heap := h2\<rparr>) Own (e # R) Out" "reserve_rel m (m\<lparr>mt_allocator := al, mt_heap := h2\<rparr>) R (e # R) (xh_live (mt_heap m))"
proof -
  note H = heap_okD [OF h]
  let ?e = "af (xh_time (mt_heap m)) (xh_live (mt_heap m))" and ?r = "reserved_extents (mt_allocator m)"
  show thesis
  proof (cases "?e = NULL")
    case True
    then show thesis by (intro no_memory) (simp add: call_alloc_func_def Let_def)
  next
    case False
    let ?h1 = "mt_heap m\<lparr>xh_time := Suc (xh_time (mt_heap m)), xh_live := insert ?e (xh_live (mt_heap m))\<rparr>"
    let ?h2 = "?h1\<lparr>xh_ptr := (xh_ptr (mt_heap m))(?e := (xh_ptr (mt_heap m) ?e)(0 := ?r))\<rparr>"
    let ?al = "(mt_allocator m)\<lparr>reserved_extents := ?e, num_reserved_extents := num_reserved_extents (mt_allocator m) + 1\<rparr>"
    have sp: "span ?e (mt_extent_size m) \<inter> span e (mt_extent_size m) = {}" if "e \<in> xh_live (mt_heap m)" for e
      using af False that by (simp add: alloc_ok_def)
    have "?e \<in> span ?e (mt_extent_size m)" using geom_size(3) [OF g] geom_slots_pos [OF g] by simp
    then have new: "?e \<notin> xh_live (mt_heap m)" using sp by blast
    have "8 * 0 + 8 \<le> xh_size (mt_heap m)" using geom_size(2) [OF g] geom_slots_pos [OF g] by blast
    then have st: "ext_store ?e 0 ?r ?h1 = Some ?h2" by (simp add: ext_store_def)
    have "reserved_chain ?h2 ?r R = reserved_chain (mt_heap m) ?r R" by (rule reserved_chain_cong) (use new H(1) in auto)
    then have "heap_ok (m\<lparr>mt_allocator := ?al, mt_heap := ?h2\<rparr>) Own (?e # R) Out"
      unfolding heap_ok_def using H new sp False by (auto simp: Int_commute)
    moreover have "reserve_rel m (m\<lparr>mt_allocator := ?al, mt_heap := ?h2\<rparr>) R (?e # R) (xh_live (mt_heap m))"
      using new by (auto simp: reserve_rel_def geom_def)
    moreover have "call_alloc_func af (mt_heap m) = (?e, ?h1)" using False by (simp add: call_alloc_func_def Let_def)
    ultimately show thesis using False st by (intro got) simp_all
  qed
qed

lemma reserve_loop_spec:
  assumes "geom_ok m" and "heap_ok m Own R Out" and "alloc_ok af (mt_extent_size m)"
  shows "\<exists>r al h R'. matras_reserve_loop af n (mt_allocator m) (mt_heap m) = Some (r, al, h) \<and> heap_ok (m\<lparr>mt_allocator := al, mt_heap := h\<rparr>) Own R' Out \<and>
    reserve_rel m (m\<lparr>mt_allocator := al, mt_heap := h\<rparr>) R R' (xh_live (mt_heap m)) \<and> (r = 0 \<and> n \<le> int (length R') \<or> r = - 1 \<and> int (length R') < n)"
  using assms
proof (induction "nat (n - int (length R))" arbitrary: m R)
  case 0
  then have "\<not> num_reserved_extents (mt_allocator m) < n" using heap_okD(10) [OF 0(3)] by simp
  then show ?case using 0 heap_okD(10) [OF 0(3)] by (subst matras_reserve_loop.simps) (auto simp: reserve_rel_def)
next
  case (Suc d)
  note nr = heap_okD(10) [OF Suc(4)]
  have lt: "num_reserved_extents (mt_allocator m) < n" using nr Suc(2) by linarith
  show ?case
  proof (rule reserve_one [OF Suc(3-5)])
    assume c: "call_alloc_func af (mt_heap m) = (NULL, mt_heap m\<lparr>xh_time := Suc (xh_time (mt_heap m))\<rparr>)"
    have "m\<lparr>mt_allocator := mt_allocator m, mt_heap := mt_heap m\<lparr>xh_time := t\<rparr>\<rparr> = m\<lparr>mt_heap := mt_heap m\<lparr>xh_time := t\<rparr>\<rparr>" for t by simp
    then show ?thesis using c lt nr Suc(4) heap_ok_time by (subst matras_reserve_loop.simps) (auto simp: reserve_rel_def geom_def)
  next
    fix e h1 h2 al
    assume a: "call_alloc_func af (mt_heap m) = (e, h1)" "e \<noteq> NULL" "ext_store e 0 (reserved_extents (mt_allocator m)) h1 = Some h2"
      "al = (mt_allocator m)\<lparr>reserved_extents := e, num_reserved_extents := num_reserved_extents (mt_allocator m) + 1\<rparr>"
      "heap_ok (m\<lparr>mt_allocator := al, mt_heap := h2\<rparr>) Own (e # R) Out" "reserve_rel m (m\<lparr>mt_allocator := al, mt_heap := h2\<rparr>) R (e # R) (xh_live (mt_heap m))"
    let ?m = "m\<lparr>mt_allocator := al, mt_heap := h2\<rparr>"
    have ge: "geom ?m = geom m" using a(6) unfolding reserve_rel_def by blast
    have run: "matras_reserve_loop af n (mt_allocator m) (mt_heap m) = matras_reserve_loop af n (mt_allocator ?m) (mt_heap ?m)"
      using lt a(1-4) by (subst matras_reserve_loop.simps) simp
    have "\<exists>r al h R'. matras_reserve_loop af n (mt_allocator ?m) (mt_heap ?m) = Some (r, al, h) \<and> heap_ok (?m\<lparr>mt_allocator := al, mt_heap := h\<rparr>) Own R' Out \<and>
        reserve_rel ?m (?m\<lparr>mt_allocator := al, mt_heap := h\<rparr>) (e # R) R' (xh_live (mt_heap ?m)) \<and> (r = 0 \<and> n \<le> int (length R') \<or> r = - 1 \<and> int (length R') < n)"
      by (rule Suc(1) [OF _ _ a(5)]) (use Suc(2,3,5) geomD(3,10) [OF ge] in auto)
    then obtain r al' h' R' where r: "matras_reserve_loop af n (mt_allocator ?m) (mt_heap ?m) = Some (r, al', h')" "heap_ok (?m\<lparr>mt_allocator := al', mt_heap := h'\<rparr>) Own R' Out"
      "reserve_rel ?m (?m\<lparr>mt_allocator := al', mt_heap := h'\<rparr>) (e # R) R' (xh_live (mt_heap ?m))" "r = 0 \<and> n \<le> int (length R') \<or> r = - 1 \<and> int (length R') < n" by blast
    have "xh_live (mt_heap m) \<subseteq> xh_live (mt_heap ?m)" using heap_okD(1) [OF a(5)] heap_okD(1) [OF Suc(4)] by auto
    then have "reserve_rel m (?m\<lparr>mt_allocator := al', mt_heap := h'\<rparr>) R R' (xh_live (mt_heap m))" by (rule reserve_rel_trans [OF a(6) r(3)])
    moreover have "?m\<lparr>mt_allocator := al', mt_heap := h'\<rparr> = m\<lparr>mt_allocator := al', mt_heap := h'\<rparr>" by simp
    ultimately show ?thesis using run r by (metis (no_types))
  qed
qed

lemma reserve_inv:
  assumes I: "matras_inv m vs Own R Out" and h: "heap_ok m' Own R' Out" and r: "reserve_rel m m' R R' (xh_live (mt_heap m))"
  shows "matras_inv m' vs Own R' Out" and "\<And>w. w \<in> set (mt_self m # vs) \<Longrightarrow> lay m' w = lay m w" and "\<And>w. w \<in> set (mt_self m # vs) \<Longrightarrow> keeps_view m m' w"
    and "ext_bytes m' = ext_bytes m" and "exact m vs Own \<Longrightarrow> exact m' vs Own"
proof -
  note J = matras_invD [OF I]
  have g: "geom m' = geom m" and v: "mt_views m' = mt_views m" and b: "xh_byte (mt_heap m') = xh_byte (mt_heap m)"
    and p: "\<And>e. e \<in> xh_live (mt_heap m) \<Longrightarrow> xh_ptr (mt_heap m') e = xh_ptr (mt_heap m) e" using r unfolding reserve_rel_def by blast+
  show eb: "ext_bytes m' = ext_bytes m" by (rule ext_bytes_same [OF g b])
  show l: "lay m' w = lay m w" if w: "w \<in> set (mt_self m # vs)" for w
    unfolding v
  proof (rule layout_frame [OF J(1) g J(7) [OF w]])
    fix e i assume "e \<in> ran (lay m w)"
    then have "e \<in> xh_live (mt_heap m)" using J(9) [OF w] heap_okD(1) [OF J(2)] by blast
    then show "xh_ptr (mt_heap m') e i = xh_ptr (mt_heap m) e i" by (simp add: p)
  qed
  show "keeps_view m m' w" if w: "w \<in> set (mt_self m # vs)" for w by (rule keeps_same [OF eb l [OF w]]) (simp add: v)
  show "exact m' vs Own" if "exact m vs Own" by (rule exact_cong [OF that geomD(1) [OF g] l]) auto
  have "map (lay m') (mt_self m # vs) = map (lay m) (mt_self m # vs)" by (rule map_cong [OF refl l])
  then have c: "cow (slots m) (map (lay m') (mt_self m # vs))" using J(8) by (simp only:)
  have ra: "\<forall>w \<in> set (mt_self m # vs). ran (lay m' w) \<subseteq> Own" using J(9) l by metis
  have vl: "views_linked m' (mt_self m) vs" using J(6) views_linked_cong [OF v] by simp
  have "geom_ok m'" using J(1) geomD(10) [OF g] by simp
  then show "matras_inv m' vs Own R' Out" unfolding matras_inv_def geomD(1,4,7) [OF g] using h J(3-5,7) v vl c ra by auto
qed

lemma allocator_destroy_spec:
  assumes "geom_ok m" and "heap_ok m Own R Out"
  shows "\<exists>al h. matras_allocator_destroy (mt_allocator m) (mt_heap m) = Some (al, h) \<and> heap_ok (m\<lparr>mt_allocator := al, mt_heap := h\<rparr>) Own [] Out \<and>
    xh_live h = Own \<union> Out \<and> num_reserved_extents al = 0 \<and> core (m\<lparr>mt_allocator := al, mt_heap := h\<rparr>) = core m"
  using assms
proof (induction R arbitrary: m)
  case Nil
  then show ?case using heap_okD(1,10) [OF Nil(2)] by (subst matras_allocator_destroy.simps) auto
next
  case (Cons e R)
  note H = heap_okD [OF Cons(3)]
  let ?al = "(mt_allocator m)\<lparr>reserved_extents := xh_ptr (mt_heap m) e 0, num_reserved_extents := num_reserved_extents (mt_allocator m) - 1\<rparr>"
  let ?h = "(mt_heap m)\<lparr>xh_live := xh_live (mt_heap m) - {e}\<rparr>"
  let ?m = "m\<lparr>mt_allocator := ?al, mt_heap := ?h\<rparr>"
  have e: "reserved_extents (mt_allocator m) = e" "e \<in> xh_live (mt_heap m)" "e \<notin> Own" "e \<notin> Out" "e \<notin> set R" using H(1,2,4,6,9) by auto
  have sz: "8 * 0 + 8 \<le> xh_size (mt_heap m)" using geom_size(2) [OF Cons(2)] geom_slots_pos [OF Cons(2)] by blast
  have run: "matras_allocator_destroy (mt_allocator m) (mt_heap m) = matras_allocator_destroy (mt_allocator ?m) (mt_heap ?m)"
    using e sz H(10) by (subst matras_allocator_destroy.simps) (simp add: take_reserved_def ext_load_def call_free_func_def)
  have "reserved_chain ?h p R = reserved_chain (mt_heap m) p R" for p by (rule reserved_chain_cong) simp
  then have ok: "heap_ok ?m Own R Out" unfolding heap_ok_def using H e by auto
  have c: "core ?m = core m" by (simp add: core_def geom_def)
  have "geom_ok ?m" using Cons(2) geomD(10) [OF coreD(1) [OF c]] by simp
  then obtain al h where r: "matras_allocator_destroy (mt_allocator ?m) (mt_heap ?m) = Some (al, h)" "heap_ok (?m\<lparr>mt_allocator := al, mt_heap := h\<rparr>) Own [] Out"
    "xh_live h = Own \<union> Out" "num_reserved_extents al = 0" "core (?m\<lparr>mt_allocator := al, mt_heap := h\<rparr>) = core ?m" using Cons(1) [OF _ ok] by blast
  have "?m\<lparr>mt_allocator := al, mt_heap := h\<rparr> = m\<lparr>mt_allocator := al, mt_heap := h\<rparr>" by simp
  then show ?case using run r c by (metis (no_types))
qed

section \<open>Touching what was reserved for\<close>

fun touch_all :: "alloc_func \<Rightarrow> nat list \<Rightarrow> matras \<Rightarrow> (addr list \<times> matras) option" where
  "touch_all af [] m = Some ([], m)"
| "touch_all af (i # is) m = do { (a, m) \<leftarrow> matras_touch af m i; (as, m) \<leftarrow> touch_all af is m; Some (a # as, m) }"

text \<open>Enough extents are reserved for touching \<open>n\<close> blocks.\<close>

definition reserved_for :: "nat \<Rightarrow> matras \<Rightarrow> addr list \<Rightarrow> addr list \<Rightarrow> bool" where
  "reserved_for n m vs R \<longleftrightarrow> n = 0 \<or> vs = [] \<or> mv_block_count (mt_views m (hd vs)) = 0 \<or> 2 * n + root_cost m vs \<le> length R"

lemma touch_nothing:
  assumes I: "matras_inv m vs Own R Out" and i: "i < mv_block_count (mt_head m)" and no: "vs = [] \<or> mv_block_count (mt_views m (hd vs)) = 0"
  obtains e where "matras_touch af m i = Some (e, m)" "e \<noteq> NULL"
proof -
  have nt: "matras_needs_touch m i = Some False" using needs_touch_eq [OF I i] no by (cases vs) auto
  obtain e where e: "lay m (mt_self m) (Low (i div step2 m)) = Some e" "matras_view_get_no_check m (mt_self m) i = Some (e + i mod step2 m * mt_block_size m)"
    by (rule view_get_no_check_spec [OF I _ i]) simp
  have "e \<noteq> NULL" using inv_live [OF I _ e(1)] by simp
  then show thesis using nt e i by (intro that [of "e + i mod step2 m * mt_block_size m"]) (simp_all add: matras_touch_def matras_get_def)
qed

lemma touch_all_spec:
  assumes "matras_inv m vs Own R Out" and "alloc_ok af (mt_extent_size m)" and "\<And>i. i \<in> set is \<Longrightarrow> i < mv_block_count (mt_head m)" and "length is \<le> n" and "reserved_for n m vs R"
  shows "\<exists>as m' Own' R'. touch_all af is m = Some (as, m') \<and> NULL \<notin> set as \<and> length as = length is \<and> matras_inv m' vs Own' R' Out \<and> touch_rel m m' vs Own Own' Out"
  using assms
proof (induction "is" arbitrary: m Own R n)
  case Nil
  then show ?case using touch_rel_core [of m m] by auto
next
  case (Cons i "is")
  obtain n' where n: "n = Suc n'" using Cons(5) by (cases n) auto
  have i: "i < mv_block_count (mt_head m)" using Cons(4) [of i] by simp
  have step: "\<exists>a m1 Own1 R1. matras_touch af m i = Some (a, m1) \<and> a \<noteq> NULL \<and> matras_inv m1 vs Own1 R1 Out \<and> touch_rel m m1 vs Own Own1 Out \<and> reserved_for n' m1 vs R1"
  proof (cases "vs = [] \<or> mv_block_count (mt_views m (hd vs)) = 0")
    case True
    then obtain e where "matras_touch af m i = Some (e, m)" "e \<noteq> NULL" by (rule touch_nothing [OF Cons(2) i])
    then show ?thesis using Cons(2) touch_rel_core [of m m vs Own Out] True by (auto simp: reserved_for_def)
  next
    case False
    then have R: "2 * n + root_cost m vs \<le> length R" using Cons(6) n by (auto simp: reserved_for_def)
    show ?thesis
    proof (rule touch_spec [OF Cons(2,3) i])
      fix e m1 Own1 R1 assume t: "matras_touch af m i = Some (e + i mod step2 m * mt_block_size m, m1)" "matras_inv m1 vs Own1 R1 Out" "touch_rel m m1 vs Own Own1 Out"
        "e \<noteq> NULL" "length R + root_cost m1 vs \<le> length R1 + 2 + root_cost m vs"
      then have "reserved_for n' m1 vs R1" using R n by (simp add: reserved_for_def)
      then show ?thesis using t by (intro exI [of _ "e + i mod step2 m * mt_block_size m"]) auto
    qed (use R n in auto)
  qed
  then obtain a m1 Own1 R1 where s: "matras_touch af m i = Some (a, m1)" "a \<noteq> NULL" "matras_inv m1 vs Own1 R1 Out" "touch_rel m m1 vs Own Own1 Out" "reserved_for n' m1 vs R1" by blast
  note T = touch_relD [OF s(4)]
  have cnt: "mv_block_count (mt_head m1) = mv_block_count (mt_head m)" using T(5) [of "mt_self m"] geomD(1) [OF T(1)] by (simp add: keeps_view_def)
  have "\<exists>as m' Own' R'. touch_all af is m1 = Some (as, m') \<and> NULL \<notin> set as \<and> length as = length is \<and> matras_inv m' vs Own' R' Out \<and> touch_rel m1 m' vs Own1 Own' Out"
    by (rule Cons(1) [OF s(3) _ _ _ s(5)]) (use Cons(3-5) n cnt geomD(3) [OF T(1)] in auto)
  then obtain as m' Own' R' where r: "touch_all af is m1 = Some (as, m')" "NULL \<notin> set as" "length as = length is" "matras_inv m' vs Own' R' Out" "touch_rel m1 m' vs Own1 Own' Out" by blast
  have "touch_rel m m' vs Own Own' Out" by (rule touch_rel_trans [OF s(4) r(5)]) (use matras_invD(9) [OF Cons(2)] in auto)
  then show ?case using s(1,2) r by auto
qed

lemma touch_reserve_spec:
  assumes I: "matras_inv m vs Own R Out" and af: "alloc_ok af (mt_extent_size m)" and n: "int n * 2 + 1 < 2 ^ 31"
  shows "\<exists>r m' R'. matras_touch_reserve af m (int n) = Some (r, m') \<and> (r = 0 \<or> r = - 1) \<and> matras_inv m' vs Own R' Out \<and> geom m' = geom m \<and> mt_views m' = mt_views m \<and>
    ext_bytes m' = ext_bytes m \<and> (\<forall>w \<in> set (mt_self m # vs). lay m' w = lay m w \<and> keeps_view m m' w) \<and> (exact m vs Own \<longrightarrow> exact m' vs Own) \<and> (r = 0 \<longrightarrow> reserved_for n m' vs R')"
proof -
  note J = matras_invD [OF I]
  define prev where "prev = mv_prev (mt_head m)"
  have pv: "prev = older vs" using J(6) unfolding prev_def by (cases vs) simp_all
  have nn: "older vs = NULL \<longleftrightarrow> vs = []" using J(4) by (cases vs) auto
  show ?thesis
  proof (cases "n = 0 \<or> vs = [] \<or> mv_block_count (mt_views m (hd vs)) = 0")
    case True
    moreover have "hd vs = older vs" if "vs \<noteq> []" using that by (cases vs) simp_all
    ultimately have "matras_touch_reserve af m (int n) = Some (0, m)" using pv nn unfolding matras_touch_reserve_def prev_def [symmetric] by (auto simp: Let_def)
    moreover have "reserved_for n m vs R" using True by (auto simp: reserved_for_def)
    ultimately show ?thesis using I by auto
  next
    case False
    then obtain v ws where v: "vs = v # ws" by (cases vs) auto
    let ?k = "int n * 2 + (if mv_root (mt_head m) = mv_root (mt_views m v) then 1 else 0)"
    have k: "?k = int (2 * n + root_cost m vs)" by (simp add: v root_cost_def root_shared_def)
    obtain r al h R' where L: "matras_reserve_loop af ?k (mt_allocator m) (mt_heap m) = Some (r, al, h)" "heap_ok (m\<lparr>mt_allocator := al, mt_heap := h\<rparr>) Own R' Out"
      "reserve_rel m (m\<lparr>mt_allocator := al, mt_heap := h\<rparr>) R R' (xh_live (mt_heap m))" "r = 0 \<and> ?k \<le> int (length R') \<or> r = - 1 \<and> int (length R') < ?k"
      using reserve_loop_spec [OF J(1,2) af, of ?k] by blast
    let ?m = "m\<lparr>mt_allocator := al, mt_heap := h\<rparr>"
    have run: "matras_touch_reserve af m (int n) = Some (r, ?m)"
      using False v pv nn n L(1) unfolding matras_touch_reserve_def prev_def [symmetric] by (auto simp: matras_allocator_reserve_def Let_def)
    note V = reserve_inv [OF I L(2,3)]
    have ge: "geom ?m = geom m" "mt_views ?m = mt_views m" using L(3) unfolding reserve_rel_def by blast+
    have "root_cost ?m vs = root_cost m vs" by (simp add: root_cost_def root_shared_def v)
    then have "r = 0 \<longrightarrow> reserved_for n ?m vs R'" using L(4) unfolding k by (auto simp: reserved_for_def)
    then show ?thesis using run V ge L(4) by (intro exI [of _ r] exI [of _ ?m] exI [of _ R']) auto
  qed
qed

section \<open>Creation\<close>

lemma ilog2_exp: "ilog2 (2 ^ k) = k"
  by (rule ilog2_unique) simp_all

lemma log2_exp: "k < 32 \<Longrightarrow> matras_log2 (2 ^ k) = Some k"
  by (simp add: matras_log2_def clz32_def ilog2_exp)

lemma exp_and:
  assumes "k < w"
  shows "(2 ^ k :: nat) AND ((2 ^ k + (2 ^ w - 1)) mod 2 ^ w) = 0"
proof -
  have "(2 ^ k :: nat) < 2 ^ w" using assms by simp
  moreover have eq: "(2 ^ k + (2 ^ w - 1) :: nat) = (2 ^ k - 1) + 2 ^ w" by simp
  ultimately have "(2 ^ k + (2 ^ w - 1)) mod 2 ^ w = (2 ^ k - 1 :: nat)" unfolding eq by (simp only: mod_add_self2) (simp add: less_imp_diff_less)
  moreover have "(2 ^ k :: nat) AND (2 ^ k - 1) = 2 ^ k mod 2 ^ k" by (metis mask_eq_exp_minus_1 take_bit_eq_mask take_bit_eq_mod)
  ultimately show ?thesis by simp
qed

lemma create_spec:
  assumes sz: "ma_extent_size al = 2 ^ a" "block_size = 2 ^ b" "3 < a" "a < 32" "b \<le> a" "2 * a - b - 3 < 32" and self: "mt_self m \<noteq> NULL"
    and h: "xh_size (mt_heap m) = 2 ^ a" "heap_ok (m\<lparr>mt_allocator := al, mt_extent_size := 2 ^ a, mt_extent_count := 0\<rparr>) {} R Out"
  obtains m' where "matras_create m block_size al st = Some m'" "matras_inv m' [] {} R Out" "exact m' [] {}" "mv_block_count (mt_head m') = 0"
    "mt_block_size m' = block_size" "mt_extent_size m' = ma_extent_size al" "mt_self m' = mt_self m" "mt_capacity m' = 2 ^ min 32 (3 * a - b - 6)" "mt_heap m' = mt_heap m"
proof -
  let ?v = "(mt_head m)\<lparr>mv_block_count := 0, mv_prev := NULL, mv_next := NULL\<rparr>"
  let ?m = "(upd_head (\<lambda>v. v\<lparr>mv_block_count := 0, mv_prev := NULL, mv_next := NULL\<rparr>) m)\<lparr>mt_block_size := block_size, mt_extent_size := 2 ^ a, mt_extent_count := 0, mt_allocator := al, mt_stats := st,
    mt_capacity := 2 ^ min 32 (3 * a - b - 6), shift1 := 2 * a - b - 3, shift2 := a - b, mask1 := 2 ^ (2 * a - b - 3) - 1, mask2 := 2 ^ (a - b) - 1\<rparr>"
  have lt: "(2 ^ k :: nat) < 2 ^ 32" if "k < 32" for k using that by (rule power_strict_increasing) simp
  have e: "(2::nat) ^ a mod 2 ^ 32 = 2 ^ a" using lt [OF sz(4)] by (rule mod_less)
  have big: "(8::nat) < 2 ^ a" using power_strict_increasing [OF sz(3), of "2::nat"] by simp
  have le: "(2::nat) ^ b \<le> 2 ^ a" using sz(5) by (rule power_increasing) simp
  have nums: "nat ((int a * 3 - int b - int 3 * 2) mod 2 ^ 32) = 3 * a - b - 6" "nat ((int a * 2 - int b - int 3) mod 2 ^ 32) = 2 * a - b - 3" "nat ((int a - int b) mod 2 ^ 32) = a - b"
    using sz(3-5) by (simp_all add: nat_eq_iff)
  have l3: "matras_log2 8 = Some 3" using log2_exp [of 3] by simp
  have lb: "b < 32" and ab: "a - b < 32" "a < 64" using sz by simp_all
  have cap: "(2::nat) ^ (if 3 * a - b - 6 > 32 then 32 else 3 * a - b - 6) = 2 ^ min 32 (3 * a - b - 6)" by (simp add: min_def)
  have run: "matras_create m block_size al st = Some ?m"
    unfolding matras_create_def sz(1,2) Let_def e exp_and [OF ab(2)] exp_and [OF lb] log2_exp [OF sz(4)] log2_exp [OF lb] l3 Option.bind.bind_lunit nums cap shift_mask_def
    using big le sz(6) ab(1) by (simp add: sz(2))
  have f: "mt_self ?m = mt_self m" "mt_views ?m (mt_self m) = ?v" by (simp_all add: upd_view_def)
  have "reserved_chain (mt_heap ?m) p R = reserved_chain (mt_heap m) p R" for p by (simp add: upd_view_def)
  then have hk: "heap_ok ?m {} R Out" using h(2) unfolding heap_ok_def by (auto simp: upd_view_def)
  have "geom_ok ?m" unfolding geom_ok_def using sz h(1) by (intro exI [of _ a] exI [of _ b]) (simp add: upd_view_def)
  then have "matras_inv ?m [] {} R Out" unfolding matras_inv_def using hk self f by (auto simp: layout_of_def own_pos_def ran_def)
  then show thesis using run f sz by (intro that [of ?m]) (simp_all add: exact_def upd_view_def)
qed

end
