(* ===== verification/Matras_Versions.thy ===== *)
theory Matras_Versions
  imports Matras_Reserve
begin

text \<open>
  What the clients of an array see: the array and each of its read views are sequences of blocks. The
  operations are related to these sequences, and so are the writes of the clients through the
  addresses that \<open>matras_alloc\<close> and \<open>matras_touch\<close> return.
\<close>

section \<open>Blocks\<close>

definition block :: "matras \<Rightarrow> addr \<Rightarrow> nat \<Rightarrow> byte list option" where
  "block m w i = do {
     a \<leftarrow> matras_view_get m w i;
     Some (map (\<lambda>j. xh_byte (mt_heap m) (a + j)) [0 ..< mt_block_size m]) }"

definition array_of :: "matras \<Rightarrow> addr \<Rightarrow> byte list list" where
  "array_of m w = map (\<lambda>i. the (block m w i)) [0 ..< mv_block_count (mt_views m w)]"

text \<open>A client writes bytes at an address.\<close>

definition poke :: "addr \<Rightarrow> byte list \<Rightarrow> matras \<Rightarrow> matras" where
  "poke a bs m = m\<lparr>mt_heap := (mt_heap m)\<lparr>xh_byte := (\<lambda>x. if a \<le> x \<and> x < a + length bs then bs ! (x - a) else xh_byte (mt_heap m) x)\<rparr>\<rparr>"

lemma linked_next: "views_linked m s vs \<Longrightarrow> NULL \<notin> set (s # vs) \<Longrightarrow> w \<in> set vs \<Longrightarrow> mv_next (mt_views m w) \<noteq> NULL"
  by (induction vs arbitrary: s) auto

lemma view_get_spec:
  assumes I: "matras_inv m vs Own R Out" and w: "w \<in> set (mt_self m # vs)" and i: "i < mv_block_count (mt_views m w)"
  obtains e where "lay m w (Low (i div step2 m)) = Some e" "matras_view_get m w i = Some (e + i mod step2 m * mt_block_size m)"
proof -
  have "(if mv_next (mt_views m w) \<noteq> NULL then w else mt_self m) = w"
    using w linked_next [OF matras_invD(6,4) [OF I], of w] matras_invD(5) [OF I] by auto
  then have eq: "matras_view_get m w i = matras_view_get_no_check m w i" by (simp only: matras_view_get_def)
  show thesis
  proof (rule view_get_no_check_spec [OF I w i])
    fix e assume "lay m w (Low (i div step2 m)) = Some e" "matras_view_get_no_check m w i = Some (e + i mod step2 m * mt_block_size m)"
    then show thesis by (rule that [unfolded eq])
  qed
qed

lemma block_eq:
  assumes I: "matras_inv m vs Own R Out" and w: "w \<in> set (mt_self m # vs)" and i: "i < mv_block_count (mt_views m w)" and e: "lay m w (Low (i div step2 m)) = Some e"
  shows "block m w i = Some (map (\<lambda>j. xh_byte (mt_heap m) (e + i mod step2 m * mt_block_size m + j)) [0 ..< mt_block_size m])"
proof (rule view_get_spec [OF I w i])
  fix e' assume "lay m w (Low (i div step2 m)) = Some e'" "matras_view_get m w i = Some (e' + i mod step2 m * mt_block_size m)"
  then show ?thesis using e by (simp add: block_def)
qed

lemma block_fits:
  assumes "geom_ok m"
  shows "i mod step2 m * mt_block_size m + mt_block_size m \<le> mt_extent_size m"
proof -
  have "Suc (i mod step2 m) * mt_block_size m \<le> step2 m * mt_block_size m" using geom_step2_pos [OF assms] by (intro mult_le_mono1) (simp add: Suc_le_eq)
  then show ?thesis using geom_extent(1) [OF assms] by simp
qed

lemma block_slice:
  assumes I: "matras_inv m vs Own R Out" and w: "w \<in> set (mt_self m # vs)" and i: "i < mv_block_count (mt_views m w)"
  shows "block m w i = map_option (\<lambda>xs. take (mt_block_size m) (drop (i mod step2 m * mt_block_size m) xs)) (view_bytes m w (i div step2 m))"
proof (rule view_get_spec [OF I w i])
  fix e assume e: "lay m w (Low (i div step2 m)) = Some e"
  have "take (mt_block_size m) (drop (i mod step2 m * mt_block_size m) (ext_bytes m e)) = map (\<lambda>j. xh_byte (mt_heap m) (e + i mod step2 m * mt_block_size m + j)) [0 ..< mt_block_size m]"
    using block_fits [OF matras_invD(1) [OF I], of i] by (intro nth_equalityI) (simp_all add: ext_bytes_def add.assoc)
  then show ?thesis using block_eq [OF I w i e] e by (simp add: view_bytes_def)
qed

lemma length_array [simp]: "length (array_of m w) = mv_block_count (mt_views m w)"
  by (simp add: array_of_def)

lemma array_nth: "i < mv_block_count (mt_views m w) \<Longrightarrow> array_of m w ! i = the (block m w i)"
  by (simp add: array_of_def)

lemma array_take:
  assumes I: "matras_inv m vs Own R Out" and I': "matras_inv m' vs' Own' R' Out'" and g: "geom m' = geom m" and w: "w \<in> set (mt_self m # vs)" "w \<in> set (mt_self m # vs')"
    and n: "n \<le> mv_block_count (mt_views m w)" "n \<le> mv_block_count (mt_views m' w)" and v: "\<And>k. k * step2 m < n \<Longrightarrow> view_bytes m' w k = view_bytes m w k"
  shows "take n (array_of m' w) = take n (array_of m w)"
proof (rule nth_equalityI)
  fix i assume "i < length (take n (array_of m' w))"
  then have i: "i < n" "i < mv_block_count (mt_views m w)" "i < mv_block_count (mt_views m' w)" using n by auto
  have w': "w \<in> set (mt_self m' # vs')" using w(2) geomD(1) [OF g] by simp
  have "i div step2 m * step2 m < n" using div_times_less_eq_dividend [of i "step2 m"] i(1) by (rule le_less_trans)
  then have "block m' w i = block m w i" unfolding block_slice [OF I w(1) i(2)] block_slice [OF I' w' i(3)] geomD(2,6) [OF g] using v by simp
  then show "take n (array_of m' w) ! i = take n (array_of m w) ! i" using i by (simp add: array_nth)
qed (use n in simp)

lemma array_keeps:
  assumes I: "matras_inv m vs Own R Out" and I': "matras_inv m' vs' Own' R' Out'" and g: "geom m' = geom m" and w: "w \<in> set (mt_self m # vs)" "w \<in> set (mt_self m # vs')"
    and k: "keeps_view m m' w"
  shows "array_of m' w = array_of m w"
proof -
  have n: "mv_block_count (mt_views m' w) = mv_block_count (mt_views m w)" and v: "view_bytes m' w = view_bytes m w" using k by (simp_all add: keeps_view_def)
  have "take (mv_block_count (mt_views m w)) (array_of m' w) = take (mv_block_count (mt_views m w)) (array_of m w)"
    by (rule array_take [OF I I' g w]) (simp_all add: n v)
  then show ?thesis by (simp add: n)
qed

section \<open>Writes\<close>

lemma poke_simps [simp]: "geom (poke a bs m) = geom m" "mt_views (poke a bs m) = mt_views m" "xh_ptr (mt_heap (poke a bs m)) = xh_ptr (mt_heap m)"
  "mt_self (poke a bs m) = mt_self m" "xh_live (mt_heap (poke a bs m)) = xh_live (mt_heap m)" "mt_extent_size (poke a bs m) = mt_extent_size m"
  "mt_block_size (poke a bs m) = mt_block_size m" "mt_capacity (poke a bs m) = mt_capacity m"
  by (simp_all add: poke_def geom_def)

lemma poke_lay [simp]: "layout_of (poke a bs m) = layout_of m"
  by (rule layout_same) simp_all

lemma poke_heap_ok [simp]: "heap_ok (poke a bs m) Own R Out = heap_ok m Own R Out"
proof -
  have "reserved_chain (mt_heap (poke a bs m)) p R = reserved_chain (mt_heap m) p R" for p by (rule reserved_chain_cong) simp
  then show ?thesis unfolding heap_ok_def by (simp add: poke_def)
qed

lemma poke_inv: "matras_inv m vs Own R Out \<Longrightarrow> matras_inv (poke a bs m) vs Own R Out"
proof -
  have g: "geom (poke a bs m) = geom m" by simp
  have v: "mt_views (poke a bs m) = mt_views m" by simp
  show "matras_inv m vs Own R Out \<Longrightarrow> matras_inv (poke a bs m) vs Own R Out"
    unfolding matras_inv_def poke_heap_ok poke_lay geomD(1,4,7,10) [OF g] views_linked_cong [OF v] v .
qed

lemma mod_neq: "(i::nat) div s = j div s \<Longrightarrow> i \<noteq> j \<Longrightarrow> i mod s \<noteq> j mod s"
  by (metis div_mult_mod_eq)

text \<open>A write to a block of the head is seen there, and in no view that does not have this block in the same extent.\<close>

lemma poke_block:
  assumes I: "matras_inv m vs Own R Out" and i: "i < mv_block_count (mt_head m)" "lay m (mt_self m) (Low (i div step2 m)) = Some e" and bs: "length bs = mt_block_size m"
    and w: "w \<in> set (mt_self m # vs)" and j: "j < mv_block_count (mt_views m w)"
    and un: "w = mt_self m \<or> i \<noteq> j \<or> lay m w (Low (i div step2 m)) \<noteq> Some e"
  shows "block (poke (e + i mod step2 m * mt_block_size m) bs m) w j = (if w = mt_self m \<and> j = i then Some bs else block m w j)"
proof (rule view_get_spec [OF I w j])
  fix e' assume e': "lay m w (Low (j div step2 m)) = Some e'"
  note J = matras_invD [OF I]
  let ?a = "e + i mod step2 m * mt_block_size m" and ?b = "e' + j mod step2 m * mt_block_size m"
  let ?m = "poke ?a bs m"
  have g: "geom ?m = geom m" by simp
  have fits: "c mod step2 m * mt_block_size m + mt_block_size m \<le> mt_extent_size m" for c by (rule block_fits [OF J(1)])
  have s: "mt_self m \<in> set (mt_self m # vs)" by simp
  have live: "e \<in> xh_live (mt_heap m)" "e' \<in> xh_live (mt_heap m)" using inv_live [OF I s i(2)] inv_live [OF I w e'] by simp_all
  have bl: "block ?m w j = Some (map (\<lambda>x. xh_byte (mt_heap ?m) (?b + x)) [0 ..< mt_block_size m])"
    using block_eq [OF poke_inv [OF I], of w ?a bs j e'] w j e' geomD(6) [OF g] by simp
  show ?thesis
  proof (cases "w = mt_self m \<and> j = i")
    case True
    then have "e' = e" using e' i(2) by simp
    then have "map (\<lambda>x. xh_byte (mt_heap ?m) (?b + x)) [0 ..< mt_block_size m] = bs" using True bs by (intro nth_equalityI) (simp_all add: poke_def)
    then show ?thesis using bl True by simp
  next
    case False
    have "xh_byte (mt_heap ?m) (?b + x) = xh_byte (mt_heap m) (?b + x)" if x: "x < mt_block_size m" for x
    proof (rule ccontr)
      assume "xh_byte (mt_heap ?m) (?b + x) \<noteq> xh_byte (mt_heap m) (?b + x)"
      then have r: "?a \<le> ?b + x" "?b + x < ?a + mt_block_size m" using bs by (auto simp: poke_def split: if_splits)
      have "?b + x \<in> span e (mt_extent_size m)" "?b + x \<in> span e' (mt_extent_size m)" using r x fits [of i] fits [of j] by auto
      then have ee: "e = e'" using heap_okD(8) [OF J(2) live] by blast
      have "own_pos (lay m (mt_self m)) (lay m w)" by (rule inv_own_pos [OF I s w])
      then have "Low (i div step2 m) = Low (j div step2 m)" using i(2) e' ee unfolding own_pos_def by blast
      then have d: "i div step2 m = j div step2 m" by simp
      then have "i \<noteq> j" using un False e' ee by auto
      then have ne: "i mod step2 m \<noteq> j mod step2 m" by (rule mod_neq [OF d])
      consider "Suc (i mod step2 m) \<le> j mod step2 m" | "Suc (j mod step2 m) \<le> i mod step2 m" using ne by linarith
      then show False
      proof cases
        case 1
        then have "Suc (i mod step2 m) * mt_block_size m \<le> j mod step2 m * mt_block_size m" by (rule mult_le_mono1)
        then show False using r(2) ee by simp
      next
        case 2
        then have "Suc (j mod step2 m) * mt_block_size m \<le> i mod step2 m * mt_block_size m" by (rule mult_le_mono1)
        then show False using r(1) x ee by simp
      qed
    qed
    then have "map (\<lambda>x. xh_byte (mt_heap ?m) (?b + x)) [0 ..< mt_block_size m] = map (\<lambda>x. xh_byte (mt_heap m) (?b + x)) [0 ..< mt_block_size m]" by simp
    then show ?thesis using False unfolding bl block_eq [OF I w j e'] by (simp only: if_False)
  qed
qed

lemma poke_arrays:
  assumes I: "matras_inv m vs Own R Out" and i: "i < mv_block_count (mt_head m)" "lay m (mt_self m) (Low (i div step2 m)) = Some e" and bs: "length bs = mt_block_size m"
    and un: "\<And>w. w \<in> set vs \<Longrightarrow> i < mv_block_count (mt_views m w) \<Longrightarrow> lay m w (Low (i div step2 m)) \<noteq> Some e"
  shows "array_of (poke (e + i mod step2 m * mt_block_size m) bs m) (mt_self m) = (array_of m (mt_self m))[i := bs]"
    and "\<And>w. w \<in> set vs \<Longrightarrow> array_of (poke (e + i mod step2 m * mt_block_size m) bs m) w = array_of m w"
proof -
  let ?m = "poke (e + i mod step2 m * mt_block_size m) bs m"
  have s: "mt_self m \<in> set (mt_self m # vs)" by simp
  show "array_of ?m (mt_self m) = (array_of m (mt_self m))[i := bs]"
  proof (rule nth_equalityI)
    fix j assume "j < length (array_of ?m (mt_self m))"
    then have j: "j < mv_block_count (mt_views m (mt_self m))" by simp
    have "block ?m (mt_self m) j = (if j = i then Some bs else block m (mt_self m) j)" using poke_block [OF I i bs s j] by simp
    then show "array_of ?m (mt_self m) ! j = (array_of m (mt_self m))[i := bs] ! j" using j by (simp add: array_nth nth_list_update)
  qed simp
  show "array_of ?m w = array_of m w" if w: "w \<in> set vs" for w
  proof (rule nth_equalityI)
    have ne: "w \<noteq> mt_self m" using matras_invD(3) [OF I] w by auto
    have wi: "w \<in> set (mt_self m # vs)" using w by simp
    fix j assume "j < length (array_of ?m w)"
    then have j: "j < mv_block_count (mt_views m w)" by simp
    have "i \<noteq> j \<or> lay m w (Low (i div step2 m)) \<noteq> Some e" using un [OF w] j by blast
    then have "block ?m w j = block m w j" using poke_block [OF I i bs wi j] ne by simp
    then show "array_of ?m w ! j = array_of m w ! j" using j by (simp add: array_nth)
  qed simp
qed

text \<open>
  The blocks of the views in an extent that the head shares lie before the end of the head: so a block that
  is allocated in such an extent is in no view.
\<close>

definition own_end :: "matras \<Rightarrow> addr list \<Rightarrow> bool" where
  "own_end m vs \<longleftrightarrow> (\<forall>w \<in> set vs. \<forall>k. same_at (lay m (mt_self m)) (lay m w) (Low k) \<longrightarrow>
     k * step2 m + step2 m \<le> mv_block_count (mt_head m) \<or> mv_block_count (mt_views m w) \<le> mv_block_count (mt_head m))"

lemma own_endI:
  assumes "own_end m vs" and "geom m' = geom m" and "mv_block_count (mt_head m) \<le> mv_block_count (mt_head m')"
    and "\<And>w. w \<in> set vs' \<Longrightarrow> w \<in> set vs \<and> mv_block_count (mt_views m' w) = mv_block_count (mt_views m w)"
    and "\<And>w k. w \<in> set vs' \<Longrightarrow> same_at (lay m' (mt_self m')) (lay m' w) (Low k) \<Longrightarrow> same_at (lay m (mt_self m)) (lay m w) (Low k)"
  shows "own_end m' vs'"
  using assms(1,3-5) unfolding own_end_def geomD(6) [OF assms(2)] by fastforce

text \<open>
  What every command keeps. With the flag set, the array has lost no extent either: each extent it took
  belongs to the array or to one of its views.
\<close>

definition good :: "bool \<Rightarrow> matras \<Rightarrow> addr list \<Rightarrow> addr set \<Rightarrow> bool" where
  "good x m vs Out \<longleftrightarrow> (\<exists>Own R. matras_inv m vs Own R Out \<and> (x \<longrightarrow> exact m vs Own)) \<and> own_end m vs"

lemma goodI: "matras_inv m vs Own R Out \<Longrightarrow> own_end m vs \<Longrightarrow> (x \<Longrightarrow> exact m vs Own) \<Longrightarrow> good x m vs Out"
  by (auto simp: good_def)

lemma goodE:
  assumes "good x m vs Out"
  obtains Own R where "matras_inv m vs Own R Out" "own_end m vs" "x \<Longrightarrow> exact m vs Own"
  using assms by (auto simp: good_def)

lemma exact_poke: "exact m vs Own \<Longrightarrow> exact (poke a bs m) vs Own"
  by (simp add: exact_def)

lemma exact_grow: "exact m vs Own \<Longrightarrow> grow_rel m m' vs \<Longrightarrow> exact m' vs Own"
  by (erule exact_cong) (auto intro!: geomD(1) dest: grow_relD)

text \<open>The abstract state: the blocks of the array, and of its views, newest first.\<close>

type_synonym versions = "byte list list \<times> (addr \<times> byte list list) list"

definition versions :: "matras \<Rightarrow> addr list \<Rightarrow> versions" where
  "versions m vs = (array_of m (mt_self m), map (\<lambda>v. (v, array_of m v)) vs)"

lemma versions_eq:
  "array_of m' (mt_self m') = h \<Longrightarrow> (\<And>v. v \<in> set vs \<Longrightarrow> array_of m' v = array_of m v) \<Longrightarrow> versions m' vs = (h, snd (versions m vs))"
  by (simp add: versions_def)

section \<open>The operations on versions\<close>

lemma touch_not_null:
  assumes "matras_inv m vs Own R Out" and "alloc_ok af (mt_extent_size m)" and "i < mv_block_count (mt_head m)" and "reserved_for 1 m vs R"
  shows "matras_touch af m i \<noteq> Some (NULL, m')"
proof -
  have "\<exists>as m' Own' R'. touch_all af [i] m = Some (as, m') \<and> NULL \<notin> set as \<and> length as = length [i] \<and> matras_inv m' vs Own' R' Out \<and> touch_rel m m' vs Own Own' Out"
    by (rule touch_all_spec [OF assms(1,2) _ _ assms(4)]) (use assms(3) in auto)
  then show ?thesis by auto
qed

lemma touch_versions:
  assumes I: "matras_inv m vs Own R Out" and I': "matras_inv m' vs Own' R' Out" and T: "touch_rel m m' vs Own Own' Out" and e: "own_end m vs"
  shows "versions m' vs = versions m vs" and "own_end m' vs"
proof -
  note T' = touch_relD [OF T]
  have s: "mt_self m' = mt_self m" by (rule geomD(1) [OF T'(1)])
  have "array_of m' w = array_of m w" if "w \<in> set (mt_self m # vs)" for w by (rule array_keeps [OF I I' T'(1) that that T'(5) [OF that]])
  then show "versions m' vs = versions m vs" by (simp add: versions_def s)
  show "own_end m' vs"
  proof (rule own_endI [OF e T'(1)])
    show "mv_block_count (mt_head m) \<le> mv_block_count (mt_head m')" using T'(5) [of "mt_self m"] by (simp add: keeps_view_def s)
    show "w \<in> set vs \<and> mv_block_count (mt_views m' w) = mv_block_count (mt_views m w)" if "w \<in> set vs" for w using T'(3) that by simp
  qed (use T'(11) s in auto)
qed

lemma own_end_poke [simp]: "own_end (poke a bs m) vs = own_end m vs"
proof -
  have g: "geom (poke a bs m) = geom m" by simp
  show ?thesis unfolding own_end_def geomD(6) [OF g] by simp
qed

lemma write_sim:
  assumes G: "good x m vs Out" and af: "alloc_ok af (mt_extent_size m)" and i: "i < mv_block_count (mt_head m)" and bs: "length bs = mt_block_size m"
  obtains (no_memory) m' where "matras_touch af m i = Some (NULL, m')" "good x m' vs Out" "geom m' = geom m" "versions m' vs = versions m vs"
  | (written) a m' where "matras_touch af m i = Some (a, m')" "a \<noteq> NULL" "good x (poke a bs m') vs Out" "geom m' = geom m"
    "versions (poke a bs m') vs = ((fst (versions m vs))[i := bs], snd (versions m vs))"
proof -
  obtain Own R where I: "matras_inv m vs Own R Out" and oe: "own_end m vs" and ex: "x \<Longrightarrow> exact m vs Own" by (rule goodE [OF G]) (rule that)
  show thesis
  proof (rule touch_spec [OF I af i])
    fix m' Own' assume t: "matras_touch af m i = Some (NULL, m')" "matras_inv m' vs Own' [] Out" "touch_rel m m' vs Own Own' Out"
    have "good x m' vs Out" using t(2) touch_versions(2) [OF I t(2,3) oe] exact_touch [OF ex t(3)] by (rule goodI)
    then show thesis using t(1) touch_versions(1) [OF I t(2,3) oe] touch_relD(1) [OF t(3)] by (intro no_memory [of m'])
  next
    fix e m' Own' R'
    assume t: "matras_touch af m i = Some (e + i mod step2 m * mt_block_size m, m')" "matras_inv m' vs Own' R' Out" "touch_rel m m' vs Own Own' Out"
      "lay m' (mt_self m) (Low (i div step2 m)) = Some e" "e \<noteq> NULL"
      "\<And>q. below (slots m) q (Low (i div step2 m)) \<Longrightarrow> pos_start m q = i div step2 m * step2 m \<Longrightarrow> unshared m' vs q"
    note T = touch_relD [OF t(3)] and V = touch_versions [OF I t(2,3) oe]
    note g = geomD [OF T(1)]
    let ?a = "e + i mod step2 m * mt_block_size m"
    have i': "i < mv_block_count (mt_head m')" using T(5) [of "mt_self m"] i g(1) by (simp add: keeps_view_def)
    have e: "lay m' (mt_self m') (Low (i div step2 m')) = Some e" "length bs = mt_block_size m'" using t(4) g bs by simp_all
    have "unshared m' vs (Low (i div step2 m))" by (rule t(6)) simp_all
    then have un: "lay m' w (Low (i div step2 m')) \<noteq> Some e" if "w \<in> set vs" for w using that e(1) g(6) by (auto simp: unshared_def same_at_def)
    note P = poke_arrays [OF t(2) i' e un, unfolded g(2,6)]
    have "versions (poke ?a bs m') vs = ((array_of m' (mt_self m'))[i := bs], snd (versions m' vs))" using P by (intro versions_eq) simp_all
    then have ver: "versions (poke ?a bs m') vs = ((fst (versions m vs))[i := bs], snd (versions m vs))" using V(1) by (simp add: versions_def)
    have "good x (poke ?a bs m') vs Out" by (rule goodI [OF poke_inv [OF t(2)]]) (use V(2) exact_poke [OF exact_touch [OF ex t(3)]] in simp_all)
    then show thesis using t(1,5) T(1) ver by (intro written [of ?a m']) simp_all
  qed
qed

lemma alloc_relD:
  assumes "alloc_rel m M vs Own Own' n c e"
  shows "geom M = geom m" "xh_byte (mt_heap M) = xh_byte (mt_heap m)" "mv_block_count (mt_views M (mt_self m)) = n + c" "lay M (mt_self m) (Low (n div step2 m)) = Some e"
    "pos_start m q < n \<Longrightarrow> lay M (mt_self m) q = lay m (mt_self m) q" "w \<in> set vs \<Longrightarrow> lay M w = lay m w" "w \<noteq> mt_self m \<Longrightarrow> mt_views M w = mt_views m w"
    "lay M (mt_self m) q = Some x \<Longrightarrow> pos_start m q < n \<or> x \<notin> Own"
  using assms unfolding alloc_rel_def by blast+

text \<open>The outcome of an allocation of \<open>c\<close> blocks, whose contents are not set.\<close>

lemma alloc_versions:
  assumes I: "matras_inv m vs Own R Out" and oe: "own_end m vs" and I': "matras_inv m' vs Own' R' Out" and A: "alloc_rel m m' vs Own Own' (mv_block_count (mt_head m)) c e"
  shows "\<exists>xs. length xs = c \<and> versions m' vs = (fst (versions m vs) @ xs, snd (versions m vs))" and "own_end m' vs"
    and "\<And>w. w \<in> set vs \<Longrightarrow> mv_block_count (mt_head m) < mv_block_count (mt_views m' w) \<Longrightarrow> lay m' w (Low (mv_block_count (mt_head m) div step2 m)) \<noteq> Some e"
proof -
  let ?n = "mv_block_count (mt_head m)" and ?s = "mt_self m"
  note D = alloc_relD [OF A] and J = matras_invD [OF I]
  note g = geomD [OF D(1)]
  have eb: "ext_bytes m' = ext_bytes m" by (rule ext_bytes_same [OF D(1,2)])
  have ne: "w \<noteq> ?s" if "w \<in> set vs" for w using J(3) that by auto
  have arr: "array_of m' w = array_of m w" if w: "w \<in> set vs" for w
    by (rule array_keeps [OF I I' D(1) _ _ keeps_same [OF eb D(6) [OF w] D(7) [OF ne [OF w]]]]) (use w in simp_all)
  have "take ?n (array_of m' ?s) = take ?n (array_of m ?s)"
    by (rule array_take [OF I I' D(1)]) (use D(3,5) eb in \<open>simp_all add: view_bytes_def\<close>)
  then have "array_of m' ?s = array_of m ?s @ drop ?n (array_of m' ?s)" by (metis append_take_drop_id length_array order_refl take_all)
  then have "versions m' vs = (array_of m ?s @ drop ?n (array_of m' ?s), snd (versions m vs))" using arr g(1) by (intro versions_eq) simp_all
  moreover have "length (drop ?n (array_of m' ?s)) = c" using D(3) by simp
  ultimately show "\<exists>xs. length xs = c \<and> versions m' vs = (fst (versions m vs) @ xs, snd (versions m vs))" by (auto simp: versions_def)
  have same: "same_at (lay m ?s) (lay m w) q" if w: "w \<in> set vs" and s: "same_at (lay m' ?s) (lay m' w) q" for w q
  proof -
    obtain x where x: "lay m' ?s q = Some x" "lay m w q = Some x" using s D(6) [OF w] by (auto simp: same_at_def)
    have "x \<in> Own" using J(9) [of w] w x(2) by (auto intro: ranI)
    then have "lay m ?s q = Some x" using D(5,8) [of q] x(1) by auto
    then show ?thesis using x(2) by (simp add: same_at_def)
  qed
  show "own_end m' vs"
  proof (rule own_endI [OF oe D(1)])
    show "same_at (lay m ?s) (lay m w) (Low k)" if "w \<in> set vs" "same_at (lay m' (mt_self m')) (lay m' w) (Low k)" for w k using same that g(1) by simp
  qed (use D(3,7) ne g(1) in simp_all)
  show "lay m' w (Low (?n div step2 m)) \<noteq> Some e" if w: "w \<in> set vs" and n: "?n < mv_block_count (mt_views m' w)" for w
  proof
    assume "lay m' w (Low (?n div step2 m)) = Some e"
    then have "same_at (lay m ?s) (lay m w) (Low (?n div step2 m))" using D(4) by (intro same [OF w]) (simp add: same_at_def)
    then have "?n div step2 m * step2 m + step2 m \<le> ?n \<or> mv_block_count (mt_views m w) \<le> ?n" using oe w unfolding own_end_def by blast
    moreover have "?n < ?n div step2 m * step2 m + step2 m" using geom_step2_pos [OF J(1)] by (metis add.commute dividend_less_div_times)
    ultimately show False using n D(7) [OF ne [OF w]] by simp
  qed
qed

lemma grow_versions:
  assumes I: "matras_inv m vs Own R Out" and oe: "own_end m vs" and I': "matras_inv m' vs Own' R' Out" and A: "grow_rel m m' vs"
  shows "versions m' vs = versions m vs" and "own_end m' vs"
proof -
  note D = grow_relD [OF A]
  have s: "mt_self m' = mt_self m" by (rule geomD(1) [OF D(1)])
  have eb: "ext_bytes m' = ext_bytes m" by (rule ext_bytes_same [OF D(1,2)])
  have n: "mv_block_count (mt_views m' w) = mv_block_count (mt_views m w)" for w using D(3) [of w] D(4) by (cases "w = mt_self m") auto
  have k: "keeps_view m m' w" if "w \<in> set (mt_self m # vs)" for w
    unfolding keeps_view_def by (intro conjI ext n) (simp only: view_bytes_def D(5) [OF that] eb)
  have "array_of m' w = array_of m w" if "w \<in> set (mt_self m # vs)" for w by (rule array_keeps [OF I I' D(1) that that k [OF that]])
  then show "versions m' vs = versions m vs" by (simp add: versions_def s)
  show "own_end m' vs"
  proof (rule own_endI [OF oe D(1)])
    show "same_at (lay m (mt_self m)) (lay m w) (Low k)" if "w \<in> set vs" "same_at (lay m' (mt_self m')) (lay m' w) (Low k)" for w k
      using that D(5) [of "mt_self m"] D(5) [of w] s by simp
  qed (use n s in simp_all)
qed

lemma append_sim:
  assumes G: "good x m vs Out" and af: "alloc_ok af (mt_extent_size m)" and bs: "length bs = mt_block_size m"
  obtains (no_memory) m' where "matras_alloc af m = Some (NULL, 0, m')" "good x m' vs Out" "geom m' = geom m" "versions m' vs = versions m vs"
  | (appended) a m' where "matras_alloc af m = Some (a, mv_block_count (mt_head m), m')" "a \<noteq> NULL" "good x (poke a bs m') vs Out" "geom m' = geom m"
    "versions (poke a bs m') vs = (fst (versions m vs) @ [bs], snd (versions m vs))"
proof -
  obtain Own R where I: "matras_inv m vs Own R Out" and oe: "own_end m vs" and ex: "x \<Longrightarrow> exact m vs Own" by (rule goodE [OF G]) (rule that)
  let ?n = "mv_block_count (mt_head m)"
  from alloc_spec [OF I af] consider (no) m' R' where "matras_alloc af m = Some (NULL, 0, m')" "grow_rel m m' vs" "matras_inv m' vs Own R' Out"
    | (yes) e m' Own' R' where "matras_alloc af m = Some (e + ?n mod step2 m * mt_block_size m, ?n, m')" "e \<noteq> NULL" "matras_inv m' vs Own' R' Out" "alloc_rel m m' vs Own Own' ?n 1 e"
    unfolding alloc_result_def by blast
  then show thesis
  proof cases
    case no
    have "good x m' vs Out" using no(3) grow_versions(2) [OF I oe no(3,2)] exact_grow [OF ex no(2)] by (rule goodI)
    then show thesis using no(1) grow_versions(1) [OF I oe no(3,2)] grow_relD(1) [OF no(2)] by (intro no_memory [of m'])
  next
    case yes
    note D = alloc_relD [OF yes(4)] and V = alloc_versions [OF I oe yes(3,4)]
    note g = geomD [OF D(1)]
    let ?a = "e + ?n mod step2 m * mt_block_size m"
    obtain y where y: "versions m' vs = (fst (versions m vs) @ [y], snd (versions m vs))" using V(1) by (auto simp: length_Suc_conv)
    have n': "?n < mv_block_count (mt_head m')" "lay m' (mt_self m') (Low (?n div step2 m')) = Some e" "length bs = mt_block_size m'" using D(3,4) g bs by simp_all
    note P = poke_arrays [OF yes(3) n' V(3) [folded g(6)], unfolded g(2,6)]
    have "versions (poke ?a bs m') vs = ((array_of m' (mt_self m'))[?n := bs], snd (versions m' vs))" using P by (intro versions_eq) simp_all
    moreover have "(array_of m' (mt_self m'))[?n := bs] = fst (versions m vs) @ [bs]" using y by (simp add: versions_def list_update_append)
    ultimately have "versions (poke ?a bs m') vs = (fst (versions m vs) @ [bs], snd (versions m vs))" using y by simp
    moreover have "good x (poke ?a bs m') vs Out"
      by (rule goodI [OF poke_inv [OF yes(3)]]) (use V(2) exact_poke [OF exact_alloc [OF ex yes(4) lay_start]] in simp_all)
    ultimately show thesis using yes(1,2) D(1) by (intro appended [of ?a m']) simp_all
  qed
qed

lemma append_range_sim:
  assumes G: "good x m vs Out" and af: "alloc_ok af (mt_extent_size m)" and c: "0 < c" "c dvd mv_block_count (mt_head m)" "c dvd mt_extent_size m div mt_block_size m"
  obtains (no_memory) m' where "matras_alloc_range af m c = Some (NULL, 0, m')" "good x m' vs Out" "geom m' = geom m" "versions m' vs = versions m vs"
  | (appended) a m' xs where "matras_alloc_range af m c = Some (a, mv_block_count (mt_head m), m')" "a \<noteq> NULL" "good x m' vs Out" "geom m' = geom m"
    "length xs = c" "versions m' vs = (fst (versions m vs) @ xs, snd (versions m vs))"
proof -
  obtain Own R where I: "matras_inv m vs Own R Out" and oe: "own_end m vs" and ex: "x \<Longrightarrow> exact m vs Own" by (rule goodE [OF G]) (rule that)
  let ?n = "mv_block_count (mt_head m)"
  have c3: "c dvd step2 m" using c(3) blocks_in_extent [OF matras_invD(1) [OF I]] by simp
  from alloc_range_spec [OF I af c(1,2) c3] consider (no) m' R' where "matras_alloc_range af m c = Some (NULL, 0, m')" "grow_rel m m' vs" "matras_inv m' vs Own R' Out"
    | (yes) e m' Own' R' where "matras_alloc_range af m c = Some (e + ?n mod step2 m * mt_block_size m, ?n, m')" "e \<noteq> NULL" "matras_inv m' vs Own' R' Out" "alloc_rel m m' vs Own Own' ?n c e"
    unfolding alloc_result_def by blast
  then show thesis
  proof cases
    case no
    have "good x m' vs Out" using no(3) grow_versions(2) [OF I oe no(3,2)] exact_grow [OF ex no(2)] by (rule goodI)
    then show thesis using no(1) grow_versions(1) [OF I oe no(3,2)] grow_relD(1) [OF no(2)] by (intro no_memory [of m'])
  next
    case yes
    note V = alloc_versions [OF I oe yes(3,4)]
    obtain xs where y: "length xs = c" "versions m' vs = (fst (versions m vs) @ xs, snd (versions m vs))" using V(1) by blast
    have "good x m' vs Out" using yes(3) V(2) exact_alloc [OF ex yes(4) lay_start] by (rule goodI)
    then show thesis using y yes(1,2) alloc_relD(1) [OF yes(4)] by (intro appended [of "e + ?n mod step2 m * mt_block_size m" m' xs]) simp_all
  qed
qed

lemma dealloc_versions:
  assumes I: "matras_inv m vs Own R Out" and I': "matras_inv m' vs Own' R' Out" and D: "dealloc_rel m m' vs Out i" and i: "i \<le> mv_block_count (mt_head m)"
  shows "versions m' vs = (take i (fst (versions m vs)), snd (versions m vs))" and "own_end m' vs" and "geom m' = geom m"
proof -
  have d: "geom m' = geom m" "\<And>w. w \<in> set vs \<Longrightarrow> keeps_view m m' w" "mv_block_count (mt_head m') = i"
    "\<And>k. k * step2 m < i \<Longrightarrow> view_bytes m' (mt_self m) k = view_bytes m (mt_self m) k"
    "\<And>w k. w \<in> set vs \<Longrightarrow> same_at (lay m' (mt_self m)) (lay m' w) (Low k) \<Longrightarrow> k * step2 m + step2 m \<le> i" using D unfolding dealloc_rel_def by blast+
  have s: "mt_self m' = mt_self m" by (rule geomD(1) [OF d(1)])
  have "array_of m' w = array_of m w" if w: "w \<in> set vs" for w by (rule array_keeps [OF I I' d(1) _ _ d(2) [OF w]]) (use w in simp_all)
  moreover have "take i (array_of m' (mt_self m)) = take i (array_of m (mt_self m))" by (rule array_take [OF I I' d(1)]) (use d(3,4) i s in simp_all)
  ultimately show "versions m' vs = (take i (fst (versions m vs)), snd (versions m vs))" using d(3) s by (simp add: versions_def)
  show "own_end m' vs" unfolding own_end_def geomD(6) [OF d(1)] using d(3,5) s by metis
  show "geom m' = geom m" by (rule d(1))
qed

lemma reserve_sim:
  assumes G: "good x m vs Out" and af: "alloc_ok af (mt_extent_size m)"
  obtains r m' Own R where "matras_touch_reserve af m 1 = Some (r, m')" "matras_inv m' vs Own R Out" "own_end m' vs" "x \<Longrightarrow> exact m' vs Own" "geom m' = geom m" "versions m' vs = versions m vs" "r = 0 \<longrightarrow> reserved_for 1 m' vs R"
proof -
  obtain Own R where I: "matras_inv m vs Own R Out" and oe: "own_end m vs" and ex: "x \<Longrightarrow> exact m vs Own" by (rule goodE [OF G]) (rule that)
  have two: "(1::int) * 2 + 1 < 2 ^ 31" by simp
  obtain r m' R' where t: "matras_touch_reserve af m 1 = Some (r, m')" "matras_inv m' vs Own R' Out" "geom m' = geom m" "mt_views m' = mt_views m"
    "\<And>w. w \<in> set (mt_self m # vs) \<Longrightarrow> lay m' w = lay m w \<and> keeps_view m m' w" "exact m vs Own \<longrightarrow> exact m' vs Own" "r = 0 \<longrightarrow> reserved_for 1 m' vs R'"
    using touch_reserve_spec [OF I af, of 1, unfolded of_nat_1, OF two] by blast
  have s: "mt_self m' = mt_self m" by (rule geomD(1) [OF t(3)])
  have "array_of m' w = array_of m w" if "w \<in> set (mt_self m # vs)" for w by (rule array_keeps [OF I t(2,3) that that]) (use t(5) [OF that] in simp)
  then have "versions m' vs = versions m vs" by (simp add: versions_def s)
  moreover have "own_end m' vs"
  proof (rule own_endI [OF oe t(3)])
    show "same_at (lay m (mt_self m)) (lay m w) (Low k)" if "w \<in> set vs" "same_at (lay m' (mt_self m')) (lay m' w) (Low k)" for w k
      using that t(5) [of "mt_self m"] t(5) [of w] s by simp
  qed (use t(4) s in simp_all)
  ultimately show thesis using t ex by (intro that [of r m' Own R']) simp_all
qed

lemma pop_sim:
  assumes I: "matras_inv m vs Own R Out" and ex: "x \<Longrightarrow> exact m vs Own" and af: "alloc_ok af (mt_extent_size m)" and n: "mv_block_count (mt_head m) \<noteq> 0" and r: "reserved_for 1 m vs R"
  obtains m' where "matras_dealloc af m = Some m'" "good x m' vs Out" "geom m' = geom m" "versions m' vs = (butlast (fst (versions m vs)), snd (versions m vs))"
proof -
  obtain i where i: "mv_block_count (mt_head m) = Suc i" using n by (cases "mv_block_count (mt_head m)") auto
  have ok: "matras_touch af m i \<noteq> Some (NULL, m')" for m' by (rule touch_not_null [OF I af _ r]) (simp add: i)
  obtain m' Own' R' where d: "matras_dealloc af m = Some m'" "matras_inv m' vs Own' R' Out" "dealloc_rel m m' vs Out i" "exact m vs Own \<longrightarrow> exact m' vs Own'"
    by (rule dealloc_spec [OF I af i ok]) blast
  have le: "i \<le> mv_block_count (mt_head m)" using i by simp
  note V = dealloc_versions [OF I d(2,3) le]
  have "take i (fst (versions m vs)) = butlast (fst (versions m vs))" by (simp add: versions_def butlast_conv_take i)
  moreover have "good x m' vs Out" using d(2) V(2) by (rule goodI) (use d(4) ex in blast)
  ultimately show thesis using d(1) V by (intro that [of m']) simp_all
qed

lemma pop_range_sim:
  assumes I: "matras_inv m vs Own R Out" and ex: "x \<Longrightarrow> exact m vs Own" and af: "alloc_ok af (mt_extent_size m)" and c: "0 < c" "c dvd mv_block_count (mt_head m)" "c dvd mt_extent_size m div mt_block_size m"
    and n: "mv_block_count (mt_head m) \<noteq> 0" and r: "reserved_for 1 m vs R"
  obtains m' where "matras_dealloc_range af m c = Some m'" "good x m' vs Out" "geom m' = geom m"
    "versions m' vs = (take (mv_block_count (mt_head m) - c) (fst (versions m vs)), snd (versions m vs))"
proof -
  let ?i = "mv_block_count (mt_head m) - c"
  let ?m = "upd_head (\<lambda>v. v\<lparr>mv_block_count := Suc ?i\<rparr>) m"
  have c3: "c dvd step2 m" using c(3) blocks_in_extent [OF matras_invD(1) [OF I]] by simp
  have I0: "matras_inv ?m vs Own R Out" by (rule range_cut(4) [OF I c(1,2) c3 n])
  have "reserved_for 1 ?m vs R"
  proof (cases vs)
    case (Cons v ws)
    have "v \<noteq> mt_self m" using matras_invD(3) [OF I] Cons by auto
    then show ?thesis using r Cons by (simp add: reserved_for_def root_cost_def root_shared_def)
  qed (simp add: reserved_for_def)
  then have ok: "matras_touch af ?m ?i \<noteq> Some (NULL, m')" for m' by (intro touch_not_null [OF I0]) (use af in \<open>simp_all add: upd_view_def\<close>)
  obtain m' Own' R' where d: "matras_dealloc_range af m c = Some m'" "matras_inv m' vs Own' R' Out" "dealloc_rel m m' vs Out ?i" "exact m vs Own \<longrightarrow> exact m' vs Own'"
    by (rule dealloc_range_spec [OF I af c(1,2) c3 n ok]) blast
  have le: "?i \<le> mv_block_count (mt_head m)" by simp
  note V = dealloc_versions [OF I d(2,3) le]
  have "good x m' vs Out" using d(2) V(2) by (rule goodI) (use d(4) ex in blast)
  then show thesis using d(1) V by (intro that [of m']) simp_all
qed

end
