(* ===== verification/Matras_Demo.thy ===== *)
theory Matras_Demo
  imports Matras_Versions
begin

text \<open>
  A small array, followed step by step: extents of 16 bytes with one block or two slots each, and an
  allocator of extents that hands out the next 16 bytes at each call.
\<close>

section \<open>States and their parts\<close>

definition bump :: "nat \<Rightarrow> alloc_func" where
  "bump n t L = (let e = n * (t + 1) in if \<forall>x \<in> L. x + n \<le> e \<or> e + n \<le> x then e else NULL)"

lemma bump_ok: "alloc_ok (bump n) n"
proof -
  have "span (bump n t L) n \<inter> span e n = {}" if "bump n t L \<noteq> NULL" "e \<in> L" for t L e
  proof -
    have "e + n \<le> bump n t L \<or> bump n t L + n \<le> e" using that by (auto simp: bump_def Let_def split: if_splits)
    then show ?thesis by auto
  qed
  then show ?thesis by (simp add: alloc_ok_def)
qed

definition view :: "addr \<Rightarrow> nat \<Rightarrow> addr \<Rightarrow> addr \<Rightarrow> matras_view" where
  "view r n p q = \<lparr>mv_root = r, mv_block_count = n, mv_prev = p, mv_next = q\<rparr>"

definition demo :: "(addr \<Rightarrow> matras_view) \<Rightarrow> nat \<Rightarrow> nat \<Rightarrow> addr \<Rightarrow> int \<Rightarrow> (addr \<Rightarrow> nat \<Rightarrow> addr) \<Rightarrow> addr set \<Rightarrow> nat \<Rightarrow> matras" where
  "demo V n rv r k P L t =
     \<lparr>mt_self = 1, mt_views = V, mt_block_size = 16, mt_extent_size = 16, mt_extent_count = n, mt_capacity = 4, shift1 = 1, shift2 = 0, mask1 = 1, mask2 = 0,
      mt_allocator = \<lparr>ma_extent_size = 16, reserved_extents = r, num_reserved_extents = k\<rparr>, mt_stats = \<lparr>stat_extent_count = n, stat_read_view_extent_count = rv\<rparr>,
      mt_heap = \<lparr>xh_size = 16, xh_ptr = P, xh_byte = (\<lambda>_. 0), xh_live = L, xh_time = t\<rparr>\<rparr>"

lemma demo_fields:
  "mt_self (demo V n rv r k P L t) = 1" "mt_views (demo V n rv r k P L t) = V" "mt_block_size (demo V n rv r k P L t) = 16" "mt_extent_size (demo V n rv r k P L t) = 16"
  "mt_extent_count (demo V n rv r k P L t) = n" "mt_capacity (demo V n rv r k P L t) = 4" "shift1 (demo V n rv r k P L t) = 1" "shift2 (demo V n rv r k P L t) = 0"
  "mask1 (demo V n rv r k P L t) = 1" "mask2 (demo V n rv r k P L t) = 0" "step1 (demo V n rv r k P L t) = 2"
  by (simp_all add: demo_def step1_def)

lemma view_fields:
  "mv_root (view r n p q) = r" "mv_block_count (view r n p q) = n" "mv_prev (view r n p q) = p" "mv_next (view r n p q) = q"
  "mv_root_update f (view r n p q) = view (f r) n p q" "mv_block_count_update g (view r n p q) = view r (g n) p q"
  "mv_prev_update h (view r n p q) = view r n (h p) q" "mv_next_update h (view r n p q) = view r n p (h q)"
  by (simp_all add: view_def)

lemma demo_cong: "(\<And>w. V w = V' w) \<Longrightarrow> (\<And>e i. P e i = P' e i) \<Longrightarrow> demo V n rv r k P L t = demo V' n rv r k P' L t"
  by (simp add: demo_def fun_eq_iff)

lemma demo_upd: "upd_view w f (demo V n rv r k P L t) = demo (V(w := f (V w))) n rv r k P L t"
  by (simp add: demo_def upd_view_def)

lemma demo_load: "load_slot (demo V n rv r k P L t) e i = (if e \<in> L \<and> i < 2 then Some (P e i) else None)"
  by (auto simp: demo_def load_slot_def ext_load_def c_assert_def)

lemma demo_store: "store_slot e i p (demo V n rv r k P L t) = (if e \<in> L \<and> i < 2 then Some (demo V n rv r k (P(e := (P e)(i := p))) L t) else None)"
  by (auto simp: demo_def store_slot_def ext_store_def c_assert_def)

lemma demo_alloc:
  "matras_alloc_extent (bump 16) (demo V n rv 0 0 P L t) = (let e = bump 16 t L in
     if e = 0 then Some (0, demo V n rv 0 0 P L (t + 1)) else Some (e, demo V (nat ((int n + 1) mod 2 ^ 32)) rv 0 0 P (insert e L) (t + 1)))"
  by (auto simp: demo_def matras_alloc_extent_def matras_allocator_alloc_def call_alloc_func_def add_extent_count_def Let_def)

lemma demo_copy:
  assumes "x \<in> L" and "bump 16 t L \<noteq> 0"
  shows "matras_copy_read_view_extent (bump 16) (demo V n rv 0 0 P L t) x = (let e = bump 16 t L in
    Some (e, demo V (nat ((int n + 1) mod 2 ^ 32)) (nat ((int rv + 1) mod 2 ^ 32)) 0 0 (P(e := (\<lambda>i. if i < 2 then P x i else P e i))) (insert e L) (t + 1)))"
  using assms by (auto simp: demo_def matras_copy_read_view_extent_def matras_alloc_extent_def matras_allocator_alloc_def call_alloc_func_def add_extent_count_def
    add_read_view_extent_count_def ext_memcpy_def Let_def fun_eq_iff)

lemma demo_free: "matras_free_extent (demo V n rv r k P L t) e = (if e \<in> L then Some (demo V (nat ((int n - 1) mod 2 ^ 32)) rv r k P (L - {e}) t) else None)"
  by (auto simp: demo_def matras_free_extent_def matras_allocator_free_def call_free_func_def add_extent_count_def Let_def c_assert_def)

lemma demo_free_view:
  "matras_free_read_view_extent (demo V n rv r k P L t) e = (if e \<in> L then Some (demo V (nat ((int n - 1) mod 2 ^ 32)) (nat ((int rv - 1) mod 2 ^ 32)) r k P (L - {e}) t) else None)"
  unfolding matras_free_read_view_extent_def demo_free by (auto simp: demo_def add_read_view_extent_count_def)

lemmas demo_simps = demo_fields view_fields demo_upd demo_load demo_store demo_alloc demo_free demo_free_view bump_def Let_def

section \<open>A run\<close>

definition demo0 :: matras where
  "demo0 = demo (\<lambda>_. view 0 0 0 0) 0 0 0 0 (\<lambda>_ _. 0) {} 0"

lemma demo_create: "matras_create demo0 16 (matras_allocator_create 16) matras_stats_create = Some demo0"
proof -
  have "matras_log2 16 = Some 4" "matras_log2 8 = Some 3" using log2_exp [of 4] log2_exp [of 3] by simp_all
  then show ?thesis by (simp add: matras_create_def demo0_def demo_def view_def matras_allocator_create_def shift_mask_def upd_view_def matras_stats_create_def fun_eq_iff)
qed

definition demo1 :: matras where
  "demo1 = demo ((\<lambda>_. view 0 0 0 0)(1 := view 16 1 0 0)) 3 0 0 0 ((\<lambda>_ _. 0)(16 := (\<lambda>_. 0)(0 := 32), 32 := (\<lambda>_. 0)(0 := 48))) {48, 32, 16} 3"

definition demo2 :: matras where
  "demo2 = demo ((\<lambda>_. view 0 0 0 0)(1 := view 16 1 2 0, 2 := view 16 1 0 1)) 3 0 0 0 ((\<lambda>_ _. 0)(16 := (\<lambda>_. 0)(0 := 32), 32 := (\<lambda>_. 0)(0 := 48))) {48, 32, 16} 3"

definition demo3 :: matras where
  "demo3 = demo ((\<lambda>_. view 0 0 0 0)(1 := view 16 2 3 0, 2 := view 16 1 0 3, 3 := view 16 2 2 1)) 4 0 0 0
     ((\<lambda>_ _. 0)(16 := (\<lambda>_. 0)(0 := 32), 32 := (\<lambda>_. 0)(0 := 48, 1 := 64))) {64, 48, 32, 16} 4"

definition demo4 :: matras where
  "demo4 = demo ((\<lambda>_. view 0 0 0 0)(1 := view 80 2 3 0, 2 := view 16 1 0 3, 3 := view 16 2 2 1)) 7 3 0 0
     ((\<lambda>_ _. 0)(16 := (\<lambda>_. 0)(0 := 32), 32 := (\<lambda>_. 0)(0 := 48, 1 := 64), 80 := (\<lambda>_. 0)(0 := 96), 96 := (\<lambda>_. 0)(0 := 48, 1 := 112))) {112, 96, 80, 64, 48, 32, 16} 7"

definition demo5 :: matras where
  "demo5 = demo ((\<lambda>_. view 0 0 0 0)(1 := view 80 2 2 0, 2 := view 16 1 0 1, 3 := view 16 2 2 0)) 7 3 0 0
     ((\<lambda>_ _. 0)(16 := (\<lambda>_. 0)(0 := 32), 32 := (\<lambda>_. 0)(0 := 48, 1 := 64), 80 := (\<lambda>_. 0)(0 := 96), 96 := (\<lambda>_. 0)(0 := 48, 1 := 112))) {112, 96, 80, 64, 48, 32, 16} 7"

lemma run1: "matras_alloc (bump 16) demo0 = Some (48, 0, demo1)"
  by (simp add: demo0_def demo1_def matras_alloc_def matras_alloc_internal_def demo_simps numeral_3_eq_3)

lemma run2: "matras_create_read_view demo1 2 = demo2"
  by (simp add: demo1_def demo2_def matras_create_read_view_def demo_simps fun_upd_twist)

lemma run3: "do { (a, i, m) \<leftarrow> matras_alloc (bump 16) demo2; Some (matras_create_read_view m 3) } = Some demo3"
  by (simp add: demo2_def demo3_def matras_alloc_def matras_alloc_internal_def matras_create_read_view_def demo_simps fun_upd_twist numeral_2_eq_2)

lemma run4: "matras_touch (bump 16) demo3 1 = Some (112, demo4)"
  by (simp add: demo3_def demo4_def matras_touch_def matras_needs_touch_def matras_touch_no_check_def touch_level_def demo_copy demo_simps id_n1_def id_n2_def id_n3_def)
    (intro demo_cong ext; auto)

lemma run5: "matras_destroy_read_view demo4 3 = Some demo5"
  by (simp add: demo4_def demo5_def matras_destroy_read_view_def demo_simps fun_upd_twist)

definition demo2_reserved :: matras where
  "demo2_reserved = demo ((\<lambda>_. view 0 0 0 0)(1 := view 16 1 2 0, 2 := view 16 1 0 1)) 3 0 96 3
     ((\<lambda>_ _. 0)(16 := (\<lambda>_. 0)(0 := 32), 32 := (\<lambda>_. 0)(0 := 48), 64 := (\<lambda>_. 0)(0 := 0), 80 := (\<lambda>_. 0)(0 := 64), 96 := (\<lambda>_. 0)(0 := 80))) {96, 80, 64, 48, 32, 16} 6"

lemma run_reserve: "matras_touch_reserve (bump 16) demo2 1 = Some (0, demo2_reserved)"
  by (simp add: demo2_def demo2_reserved_def demo_def view_fields matras_touch_reserve_def matras_allocator_reserve_def matras_reserve_loop.simps call_alloc_func_def ext_store_def bump_def Let_def)

section \<open>The states satisfy the invariant\<close>

lemma demo0_inv: "matras_inv demo0 [] {} [] {}" "exact demo0 [] {}" "mv_block_count (mt_head demo0) = 0"
proof -
  have h: "heap_ok (demo0\<lparr>mt_allocator := matras_allocator_create 16, mt_extent_size := 2 ^ 4, mt_extent_count := 0\<rparr>) {} [] {}"
    by (simp add: heap_ok_def demo0_def demo_def matras_allocator_create_def)
  have p: "ma_extent_size (matras_allocator_create 16) = 2 ^ 4" "(16::nat) = 2 ^ 4" "(3::nat) < 4" "(4::nat) < 32" "(4::nat) \<le> 4" "2 * 4 - 4 - 3 < (32::nat)" "mt_self demo0 \<noteq> NULL" "xh_size (mt_heap demo0) = 2 ^ 4"
    by (simp_all add: matras_allocator_create_def demo0_def demo_def)
  obtain m' where "matras_create demo0 16 (matras_allocator_create 16) matras_stats_create = Some m'" "matras_inv m' [] {} [] {}" "exact m' [] {}" "mv_block_count (mt_head m') = 0"
    by (rule create_spec [OF p h, of matras_stats_create]) blast
  then show "matras_inv demo0 [] {} [] {}" "exact demo0 [] {}" "mv_block_count (mt_head demo0) = 0" by (simp_all add: demo_create)
qed

lemma demo2_inv: "\<exists>Own R. matras_inv demo2 [2] Own R {} \<and> exact demo2 [2] Own"
proof -
  have af: "alloc_ok (bump 16) (mt_extent_size demo0)" using bump_ok by (simp add: demo0_def demo_fields)
  have "alloc_result (Some (48, 0, demo1)) demo0 [] {} {} 1" using alloc_spec [OF demo0_inv(1) af] by (simp add: run1)
  then obtain e Own R where a: "matras_inv demo1 [] Own R {}" "alloc_rel demo0 demo1 [] {} Own 0 1 e" using demo0_inv(3) by (auto simp: alloc_result_def)
  have "exact demo1 [] Own" by (rule exact_alloc [OF demo0_inv(2) a(2)]) (use demo0_inv(3) in \<open>simp add: layout_of_def\<close>)
  then show ?thesis using create_view_spec(1,6) [OF a(1), of 2] unfolding run2 by (auto simp: demo1_def demo_fields)
qed

lemma demo3_inv: "\<exists>Own R. matras_inv demo3 [3, 2] Own R {}"
proof -
  obtain Own R where I: "matras_inv demo2 [2] Own R {}" using demo2_inv by blast
  have af: "alloc_ok (bump 16) (mt_extent_size demo2)" using bump_ok by (simp add: demo2_def demo_fields)
  obtain a i m where r: "matras_alloc (bump 16) demo2 = Some (a, i, m)" "matras_create_read_view m 3 = demo3"
    using run3 by (cases "matras_alloc (bump 16) demo2") auto
  have "(\<exists>Own R. matras_inv m [2] Own R {}) \<and> geom m = geom demo2"
    using alloc_spec [OF I af] unfolding r(1) alloc_result_def by (auto dest: grow_relD(1) alloc_relD(1))
  then obtain Own' R' where m: "matras_inv m [2] Own' R' {}" "geom m = geom demo2" by blast
  have "mt_self m = 1" using geomD(1) [OF m(2)] by (simp add: demo2_def demo_fields)
  then show ?thesis using create_view_spec(1) [OF m(1), of 3] unfolding r(2) by auto
qed

lemma demo4_inv: "\<exists>Own R. matras_inv demo4 [3, 2] Own R {}"
proof -
  obtain Own R where I: "matras_inv demo3 [3, 2] Own R {}" using demo3_inv by blast
  have af: "alloc_ok (bump 16) (mt_extent_size demo3)" and n: "1 < mv_block_count (mt_head demo3)" using bump_ok by (simp_all add: demo3_def demo_fields view_fields)
  show ?thesis by (rule touch_spec [OF I af n]) (use run4 in auto)
qed

text \<open>In the last state the views 2 and 3 have the same root, view 3 has one block more, and the array has its own copy of that block.\<close>

lemma demo4_lay: "lay demo4 3 (Low 1) = Some 64" "lay demo4 2 (Low 1) = None" "lay demo4 1 (Low 1) = Some 112"
  by (simp_all add: layout_of_def demo4_def demo_def view_def step1_def step2_def slots_def)

lemma demo4_counts: "mt_self demo4 = 1" "mv_block_count (mt_views demo4 1) = 2" "mv_block_count (mt_views demo4 2) = 1" "mv_block_count (mt_views demo4 3) = 2"
  "mv_root (mt_views demo4 3) = mv_root (mt_views demo4 2)" "step1 demo4 = 2" "xh_live (mt_heap demo4) = {112, 96, 80, 64, 48, 32, 16}"
  by (simp_all add: demo4_def demo_fields view_fields) (simp add: demo_def)

lemma demo_counts: "mt_self demo2 = 1" "mv_block_count (mt_views demo2 1) = 1" "mv_block_count (mt_views demo2 2) = 1" "step1 demo2 = 2" "mt_extent_size demo2 = 16"
  by (simp_all add: demo2_def demo_fields view_fields)

end
