(* ===== verification/Matras_Props.thy ===== *)
theory Matras_Props
  imports Matras_Demo
begin

text \<open>
  The contract of the array as a versioned sequence of blocks: a locale states it for any implementation,
  and the interpretation shows that the operations of \<open>matras.c\<close> meet it. Then the properties.
\<close>

section \<open>The contract\<close>

text \<open>
  What clients do with an array. \<open>Append\<close> and \<open>Write\<close> stand for \<open>matras_alloc\<close> and \<open>matras_touch\<close> with a write to the
  block through the returned address; the removals reserve extents first, as they have no way
  to report a failure.
\<close>

datatype cmd = Append "byte list" | Append_Range nat | Pop | Pop_Range nat | Write nat "byte list" | Snapshot addr | Release addr

fun views_after :: "cmd \<Rightarrow> addr list \<Rightarrow> addr list" where
  "views_after (Snapshot v) vs = v # vs"
| "views_after (Release v) vs = remove1 v vs"
| "views_after _ vs = vs"

text \<open>The effect on the versions; the flag tells whether the command succeeded.\<close>

fun spec_step :: "cmd \<Rightarrow> bool \<Rightarrow> versions \<Rightarrow> versions \<Rightarrow> bool" where
  "spec_step (Append bs) ok (h, V) st' = (st' = (if ok then h @ [bs] else h, V))"
| "spec_step (Append_Range c) ok (h, V) st' = (\<exists>xs. length xs = (if ok then c else 0) \<and> st' = (h @ xs, V))"
| "spec_step Pop ok (h, V) st' = (st' = (if ok then butlast h else h, V))"
| "spec_step (Pop_Range c) ok (h, V) st' = (st' = (if ok then take (length h - c) h else h, V))"
| "spec_step (Write i bs) ok (h, V) st' = (st' = (if ok then h[i := bs] else h, V))"
| "spec_step (Snapshot v) ok (h, V) st' = (ok \<and> st' = (h, (v, h) # V))"
| "spec_step (Release v) ok (h, V) st' = (ok \<and> st' = (h, filter (\<lambda>x. fst x \<noteq> v) V))"

inductive reach :: "(cmd \<Rightarrow> 'm \<Rightarrow> (bool \<times> 'm) option) \<Rightarrow> (cmd \<Rightarrow> 'm \<Rightarrow> versions \<Rightarrow> bool) \<Rightarrow> ('m \<Rightarrow> addr list \<Rightarrow> versions) \<Rightarrow> 'm \<Rightarrow> 'm \<Rightarrow> addr list \<Rightarrow> bool"
  for exec valid abs m0 where
  start: "reach exec valid abs m0 m0 []"
| step: "reach exec valid abs m0 m vs \<Longrightarrow> valid c m (abs m vs) \<Longrightarrow> exec c m = Some (ok, m') \<Longrightarrow> reach exec valid abs m0 m' (views_after c vs)"

locale versioned_array =
  fixes inv :: "'m \<Rightarrow> addr list \<Rightarrow> bool" and abs :: "'m \<Rightarrow> addr list \<Rightarrow> versions" and exec :: "cmd \<Rightarrow> 'm \<Rightarrow> (bool \<times> 'm) option" and valid :: "cmd \<Rightarrow> 'm \<Rightarrow> versions \<Rightarrow> bool"
  assumes simulates: "inv m vs \<Longrightarrow> valid c m (abs m vs) \<Longrightarrow>
    \<exists>ok m'. exec c m = Some (ok, m') \<and> inv m' (views_after c vs) \<and> spec_step c ok (abs m vs) (abs m' (views_after c vs))"
begin

lemma reach_inv: "reach exec valid abs m0 m vs \<Longrightarrow> inv m0 [] \<Longrightarrow> inv m vs"
proof (induction rule: reach.induct)
  case (step m vs c ok m')
  then show ?case using simulates [of m vs c] by auto
qed

text \<open>No command that the contract allows aborts, and each has the effect that the contract says.\<close>

lemma reach_step:
  assumes "inv m0 []" and "reach exec valid abs m0 m vs" and "valid c m (abs m vs)"
  shows "\<exists>ok m'. exec c m = Some (ok, m') \<and> reach exec valid abs m0 m' (views_after c vs) \<and> spec_step c ok (abs m vs) (abs m' (views_after c vs))"
  using simulates [OF reach_inv [OF assms(2,1)] assms(3)] reach.step [OF assms(2,3)] by blast

end

section \<open>The operations of the array meet it\<close>

definition array_exec :: "alloc_func \<Rightarrow> cmd \<Rightarrow> matras \<Rightarrow> (bool \<times> matras) option" where
  "array_exec af c m = (case c of
     Append bs \<Rightarrow> do { (a, _, m) \<leftarrow> matras_alloc af m; Some (a \<noteq> NULL, if a = NULL then m else poke a bs m) }
   | Append_Range n \<Rightarrow> do { (a, _, m) \<leftarrow> matras_alloc_range af m n; Some (a \<noteq> NULL, m) }
   | Pop \<Rightarrow> do { (r, m) \<leftarrow> matras_touch_reserve af m 1; if r = 0 then do { m \<leftarrow> matras_dealloc af m; Some (True, m) } else Some (False, m) }
   | Pop_Range n \<Rightarrow> do { (r, m) \<leftarrow> matras_touch_reserve af m 1; if r = 0 then do { m \<leftarrow> matras_dealloc_range af m n; Some (True, m) } else Some (False, m) }
   | Write i bs \<Rightarrow> do { (a, m) \<leftarrow> matras_touch af m i; Some (a \<noteq> NULL, if a = NULL then m else poke a bs m) }
   | Snapshot v \<Rightarrow> Some (True, matras_create_read_view m v)
   | Release v \<Rightarrow> do { m \<leftarrow> matras_destroy_read_view m v; Some (True, m) })"

text \<open>
  The requirements on the commands. The loops of \<open>matras_destroy_read_view\<close> count blocks in 32 bits, so the end of
  the view has to be at least one table away from the end of that range.
\<close>

definition array_valid :: "cmd \<Rightarrow> matras \<Rightarrow> versions \<Rightarrow> bool" where
  "array_valid c m st = (case c of
     Append bs \<Rightarrow> length bs = mt_block_size m
   | Append_Range n \<Rightarrow> 0 < n \<and> n dvd length (fst st) \<and> n dvd mt_extent_size m div mt_block_size m
   | Pop \<Rightarrow> fst st \<noteq> []
   | Pop_Range n \<Rightarrow> fst st \<noteq> [] \<and> 0 < n \<and> n dvd length (fst st) \<and> n dvd mt_extent_size m div mt_block_size m
   | Write i bs \<Rightarrow> i < length (fst st) \<and> length bs = mt_block_size m
   | Snapshot v \<Rightarrow> v \<noteq> NULL \<and> v \<noteq> mt_self m \<and> v \<notin> fst ` set (snd st)
   | Release v \<Rightarrow> (\<exists>bs. (v, bs) \<in> set (snd st) \<and> length bs + 2 ^ shift1 m \<le> 2 ^ 32))"

text \<open>
  Commands that do not lose extents: a view is released only when it has at most as many blocks as the next
  older one.
\<close>

fun tidy_release :: "addr \<Rightarrow> (addr \<times> byte list list) list \<Rightarrow> bool" where
  "tidy_release v ((w, xs) # (b, ys) # V) = (if w = v then length xs \<le> length ys else tidy_release v ((b, ys) # V))"
| "tidy_release v _ = True"

definition tidy :: "cmd \<Rightarrow> versions \<Rightarrow> bool" where
  "tidy c st = (case c of Release v \<Rightarrow> tidy_release v (snd st) | _ \<Rightarrow> True)"

definition tidy_valid :: "cmd \<Rightarrow> matras \<Rightarrow> versions \<Rightarrow> bool" where
  "tidy_valid c m st \<longleftrightarrow> array_valid c m st \<and> tidy c st"

lemma tidy_release_fits:
  assumes "tidy_release v (map (\<lambda>w. (w, array_of m w)) (as @ v # bs))" and "v \<notin> set as"
  shows "fits_older m v bs"
  using assms
proof (induction as)
  case Nil
  then show ?case by (cases bs) (simp_all add: fits_older_def)
next
  case (Cons a as)
  then show ?case by (cases as) auto
qed

lemma versions_parts: "length (fst (versions m vs)) = mv_block_count (mt_head m)" "fst ` set (snd (versions m vs)) = set vs"
  "fst (versions m vs) = [] \<longleftrightarrow> mv_block_count (mt_head m) = 0"
  by (simp_all add: versions_def image_image flip: length_0_conv)

lemma snapshot_sim:
  assumes G: "good x m vs Out" and v: "v \<noteq> NULL" "v \<noteq> mt_self m" "v \<notin> set vs"
  shows "good x (matras_create_read_view m v) (v # vs) Out" and "geom (matras_create_read_view m v) = geom m"
    and "versions (matras_create_read_view m v) (v # vs) = (fst (versions m vs), (v, fst (versions m vs)) # snd (versions m vs))"
proof -
  let ?m = "matras_create_read_view m v"
  obtain Own R where I: "matras_inv m vs Own R Out" and oe: "own_end m vs" and ex: "x \<Longrightarrow> exact m vs Own" by (rule goodE [OF G]) (rule that)
  have nv: "v \<notin> set (mt_self m # vs)" using v by simp
  note C = create_view_spec [OF I nv v(1)]
  have pv: "mv_prev (mt_head m) \<noteq> mt_self m" "mv_prev (mt_head m) \<noteq> v" using matras_invD(3,4,6) [OF I] v by (cases vs; auto)+
  show g: "geom ?m = geom m" by (rule create_view_views(2) [OF v(2) pv])
  have s: "mt_self ?m = mt_self m" by (rule geomD(1) [OF g])
  have old: "array_of ?m w = array_of m w" if "w \<in> set (mt_self m # vs)" for w by (rule array_keeps [OF I C(1) g that _ C(4) [OF that]]) (use that in auto)
  have n: "mv_block_count (mt_views ?m v) = mv_block_count (mt_head m)" by (simp add: create_view_views(1) [OF v(2) pv])
  have "array_of ?m v = array_of ?m (mt_self m)"
  proof (rule nth_equalityI)
    have h: "mv_block_count (mt_views ?m (mt_self m)) = mv_block_count (mt_head m)" using C(4) [of "mt_self m"] by (simp add: keeps_view_def)
    then show "length (array_of ?m v) = length (array_of ?m (mt_self m))" using n by simp
    fix i assume "i < length (array_of ?m v)"
    then have i: "i < mv_block_count (mt_views ?m v)" "i < mv_block_count (mt_views ?m (mt_self m))" using n h by simp_all
    have "view_bytes ?m v = view_bytes ?m (mt_self m)" using C(4) [of "mt_self m"] C(5) by (simp add: keeps_view_def)
    then have "block ?m v i = block ?m (mt_self m) i" using block_slice [OF C(1), of v i] block_slice [OF C(1), of "mt_self m" i] i s by simp
    then show "array_of ?m v ! i = array_of ?m (mt_self m) ! i" using i by (simp add: array_nth)
  qed
  then show "versions ?m (v # vs) = (fst (versions m vs), (v, fst (versions m vs)) # snd (versions m vs))" using old s by (simp add: versions_def)
  have c: "mv_block_count (mt_views ?m w) = mv_block_count (mt_views m w)" if "w \<in> set (mt_self m # vs)" for w using C(4) [OF that] by (simp add: keeps_view_def)
  have "own_end ?m (v # vs)"
    unfolding own_end_def s geomD(6) [OF g]
  proof (intro ballI allI impI)
    fix w k assume w: "w \<in> set (v # vs)" "same_at (lay ?m (mt_self m)) (lay ?m w) (Low k)"
    show "k * step2 m + step2 m \<le> mv_block_count (mt_views ?m (mt_self m)) \<or> mv_block_count (mt_views ?m w) \<le> mv_block_count (mt_views ?m (mt_self m))"
    proof (cases "w = v")
      case False
      then have "same_at (lay m (mt_self m)) (lay m w) (Low k)" using w C(3) [of w] C(3) [of "mt_self m"] by simp
      then show ?thesis using oe w(1) False c [of w] c [of "mt_self m"] unfolding own_end_def by auto
    qed (use n c [of "mt_self m"] in simp)
  qed
  then show "good x ?m (v # vs) Out" using C(1) C(6) [OF ex] by (intro goodI)
qed

lemma release_sim:
  assumes G: "good x m vs Out" and v: "v \<in> set vs" "mv_block_count (mt_views m v) + step1 m \<le> 2 ^ 32"
    and t: "x \<Longrightarrow> tidy_release v (snd (versions m vs))"
  obtains m' where "matras_destroy_read_view m v = Some m'" "good x m' (remove1 v vs) Out" "geom m' = geom m"
    "versions m' (remove1 v vs) = (fst (versions m vs), filter (\<lambda>x. fst x \<noteq> v) (snd (versions m vs)))"
proof -
  obtain Own R where I: "matras_inv m vs Own R Out" and oe: "own_end m vs" and ex: "x \<Longrightarrow> exact m vs Own" by (rule goodE [OF G]) (rule that)
  obtain as bs where vs: "vs = as @ v # bs" "v \<notin> set as" using split_list_first [OF v(1)] by blast
  have nb: "v \<notin> set bs" using matras_invD(3) [OF I] vs by simp
  have rm: "remove1 v vs = as @ bs" using vs by (simp add: remove1_append)
  obtain m' Own' where d: "matras_destroy_read_view m v = Some m'" "matras_inv m' (as @ bs) Own' R Out" "geom m' = geom m" "\<And>w. keeps_view m m' w" "\<And>w. lay m' w = lay m w"
    "exact m (as @ v # bs) Own \<and> fits_older m v bs \<longrightarrow> exact m' (as @ bs) Own'"
    by (rule destroy_view_spec [OF I [unfolded vs(1)] v(2)]) blast
  have s: "mt_self m' = mt_self m" by (rule geomD(1) [OF d(3)])
  have arr: "array_of m' w = array_of m w" if "w \<in> set (mt_self m # as @ bs)" for w by (rule array_keeps [OF I d(2,3) _ that d(4)]) (use that vs(1) in auto)
  have n: "mv_block_count (mt_views m' w) = mv_block_count (mt_views m w)" for w using d(4) [of w] by (simp add: keeps_view_def)
  have "filter (\<lambda>x. fst x \<noteq> v) (snd (versions m vs)) = map (\<lambda>v. (v, array_of m v)) (as @ bs)"
  proof -
    have "filter (\<lambda>x. x \<noteq> v) as = as" "filter (\<lambda>x. x \<noteq> v) bs = bs" using vs(2) nb by (auto intro!: filter_True)
    then show ?thesis by (simp add: versions_def vs(1) filter_map o_def)
  qed
  moreover have "versions m' (as @ bs) = (array_of m (mt_self m), map (\<lambda>v. (v, array_of m v)) (as @ bs))" using arr s by (simp add: versions_def)
  ultimately have ver: "versions m' (as @ bs) = (fst (versions m vs), filter (\<lambda>x. fst x \<noteq> v) (snd (versions m vs)))" by (simp add: versions_def)
  have "own_end m' (as @ bs)" by (rule own_endI [OF oe d(3)]) (use n s d(5) vs(1) in auto)
  moreover have "exact m' (as @ bs) Own'" if x
    using d(6) ex [OF that] tidy_release_fits [of v m as bs] t [OF that] vs by (simp add: versions_def)
  ultimately have "good x m' (as @ bs) Out" by (rule goodI [OF d(2)])
  then show thesis using that [of m'] d(1,3) ver unfolding rm by simp
qed

lemma array_simulates:
  assumes G: "good x m vs Out" and af: "alloc_ok af (mt_extent_size m)" and v: "array_valid c m (versions m vs)" and t: "x \<Longrightarrow> tidy c (versions m vs)"
  shows "\<exists>ok m'. array_exec af c m = Some (ok, m') \<and> good x m' (views_after c vs) Out \<and> geom m' = geom m \<and> spec_step c ok (versions m vs) (versions m' (views_after c vs))"
proof -
  obtain h V where st: "versions m vs = (h, V)" by (cases "versions m vs")
  note L = versions_parts [of m vs, unfolded st fst_conv snd_conv]
  obtain Own R where I: "matras_inv m vs Own R Out" using G by (auto simp: good_def)
  note step1 = geom_step1 [OF matras_invD(1) [OF I]]
  show ?thesis
  proof (cases c)
    case (Append bs)
    then have "length bs = mt_block_size m" using v by (simp add: array_valid_def)
    from append_sim [OF G af this] show ?thesis using st Append by cases (auto simp: array_exec_def)
  next
    case (Append_Range n)
    then have n: "0 < n" "n dvd mv_block_count (mt_head m)" "n dvd mt_extent_size m div mt_block_size m" using v st L by (auto simp: array_valid_def)
    from append_range_sim [OF G af n] show ?thesis using st Append_Range by cases (auto simp: array_exec_def)
  next
    case (Write i bs)
    then have i: "i < mv_block_count (mt_head m)" "length bs = mt_block_size m" using v st L by (auto simp: array_valid_def)
    from write_sim [OF G af i] show ?thesis using st Write by cases (auto simp: array_exec_def)
  next
    case (Snapshot w)
    then have w: "w \<noteq> NULL" "w \<noteq> mt_self m" "w \<notin> set vs" using v st L by (auto simp: array_valid_def)
    show ?thesis using snapshot_sim [OF G w] st Snapshot by (auto simp: array_exec_def)
  next
    case (Release w)
    then obtain bs where bs: "(w, bs) \<in> set V" "length bs + 2 ^ shift1 m \<le> 2 ^ 32" using v st by (auto simp: array_valid_def)
    then have w: "w \<in> set vs" "bs = array_of m w" using st by (auto simp: versions_def)
    then have n: "mv_block_count (mt_views m w) + step1 m \<le> 2 ^ 32" using bs(2) by (simp add: step1_def)
    have tw: "tidy_release w (snd (versions m vs))" if x using t [OF that] Release by (simp add: tidy_def)
    obtain m' where "matras_destroy_read_view m w = Some m'" "good x m' (remove1 w vs) Out" "geom m' = geom m"
      "versions m' (remove1 w vs) = (fst (versions m vs), filter (\<lambda>x. fst x \<noteq> w) (snd (versions m vs)))" by (rule release_sim [OF G w(1) n tw]) (assumption, rule that)
    then show ?thesis using st Release by (auto simp: array_exec_def)
  next
    case Pop
    then have n: "mv_block_count (mt_head m) \<noteq> 0" using v st L by (simp add: array_valid_def)
    show ?thesis
    proof (rule reserve_sim [OF G af])
      fix r m1 Own R assume r: "matras_touch_reserve af m 1 = Some (r, m1)" "matras_inv m1 vs Own R Out" "own_end m1 vs" "geom m1 = geom m" "versions m1 vs = versions m vs" "r = 0 \<longrightarrow> reserved_for 1 m1 vs R"
        and ex: "x \<Longrightarrow> exact m1 vs Own"
      have af1: "alloc_ok af (mt_extent_size m1)" using af geomD(3) [OF r(4)] by simp
      have n1: "mv_block_count (mt_head m1) \<noteq> 0" using n versions_parts(1) [of m1 vs] r(5) L(1) st by simp
      show ?thesis
      proof (cases "r = 0")
        case True
        from pop_sim [OF r(2) ex af1 n1] True r(6) obtain m' where "matras_dealloc af m1 = Some m'" "good x m' vs Out" "geom m' = geom m1" "versions m' vs = (butlast h, V)" using r(5) st by auto
        then show ?thesis using Pop True r(1,4) st by (auto simp: array_exec_def)
      qed (use Pop r st goodI [OF r(2,3) ex] in \<open>auto simp: array_exec_def\<close>)
    qed
  next
    case (Pop_Range k)
    then have n: "mv_block_count (mt_head m) \<noteq> 0" and k: "0 < k" "k dvd mv_block_count (mt_head m)" "k dvd mt_extent_size m div mt_block_size m" using v st L by (auto simp: array_valid_def)
    show ?thesis
    proof (rule reserve_sim [OF G af])
      fix r m1 Own R assume r: "matras_touch_reserve af m 1 = Some (r, m1)" "matras_inv m1 vs Own R Out" "own_end m1 vs" "geom m1 = geom m" "versions m1 vs = versions m vs" "r = 0 \<longrightarrow> reserved_for 1 m1 vs R"
        and ex: "x \<Longrightarrow> exact m1 vs Own"
      have g: "mt_extent_size m1 = mt_extent_size m" "mt_block_size m1 = mt_block_size m" using geomD [OF r(4)] by simp_all
      have n1: "mv_block_count (mt_head m1) = mv_block_count (mt_head m)" using versions_parts(1) [of m1 vs] r(5) L(1) st by simp
      show ?thesis
      proof (cases "r = 0")
        case True
        have "\<exists>m'. matras_dealloc_range af m1 k = Some m' \<and> good x m' vs Out \<and> geom m' = geom m1 \<and> versions m' vs = (take (length h - k) h, V)"
          by (rule pop_range_sim [OF r(2) ex, where af = af and c = k]) (use af k n n1 g r(5,6) True st L(1) in auto)
        then show ?thesis using Pop_Range True r(1,4) st by (auto simp: array_exec_def)
      qed (use Pop_Range r st goodI [OF r(2,3) ex] in \<open>auto simp: array_exec_def\<close>)
    qed
  qed
qed

lemma array_step:
  assumes "good x m vs Out \<and> alloc_ok af (mt_extent_size m)" and "array_valid c m (versions m vs)" and "x \<Longrightarrow> tidy c (versions m vs)"
  shows "\<exists>ok m'. array_exec af c m = Some (ok, m') \<and> (good x m' (views_after c vs) Out \<and> alloc_ok af (mt_extent_size m')) \<and> spec_step c ok (versions m vs) (versions m' (views_after c vs))"
proof -
  have G: "good x m vs Out" "alloc_ok af (mt_extent_size m)" using assms(1) by simp_all
  obtain ok m' where r: "array_exec af c m = Some (ok, m')" "good x m' (views_after c vs) Out" "geom m' = geom m" "spec_step c ok (versions m vs) (versions m' (views_after c vs))"
    using array_simulates [OF G assms(2,3)] by blast
  have "mt_extent_size m' = mt_extent_size m" by (rule geomD(3) [OF r(3)])
  then show ?thesis using r G(2) by auto
qed

interpretation matras_array: versioned_array "\<lambda>m vs. good False m vs Out \<and> alloc_ok af (mt_extent_size m)" versions "array_exec af" array_valid
  for af Out
  by unfold_locales (rule array_step, simp_all)

text \<open>The same with commands that lose no extents.\<close>

interpretation tidy_array: versioned_array "\<lambda>m vs. good True m vs Out \<and> alloc_ok af (mt_extent_size m)" versions "array_exec af" tidy_valid
  for af Out
  by unfold_locales (rule array_step, simp_all add: tidy_valid_def)

section \<open>Properties\<close>

text \<open>A place for an array, and extents of other users that do not overlap.\<close>

definition place_ok :: "matras \<Rightarrow> nat \<Rightarrow> bool" where
  "place_ok m n \<longleftrightarrow> mt_self m \<noteq> NULL \<and> xh_size (mt_heap m) = n \<and> NULL \<notin> xh_live (mt_heap m) \<and>
     (\<forall>e \<in> xh_live (mt_heap m). \<forall>e' \<in> xh_live (mt_heap m). e \<noteq> e' \<longrightarrow> span e n \<inter> span e' n = {})"

lemma place_create:
  assumes "place_ok m (2 ^ a)" and "3 < a" "a < 32" "b \<le> a" "2 * a - b - 3 < 32"
  obtains m' where "matras_create m (2 ^ b) (matras_allocator_create (2 ^ a)) st = Some m'" "matras_inv m' [] {} [] (xh_live (mt_heap m))" "exact m' [] {}" "mv_block_count (mt_head m') = 0"
    "mt_block_size m' = 2 ^ b" "mt_extent_size m' = 2 ^ a" "mt_self m' = mt_self m" "mt_capacity m' = 2 ^ min 32 (3 * a - b - 6)" "mt_heap m' = mt_heap m"
proof -
  have h: "heap_ok (m\<lparr>mt_allocator := matras_allocator_create (2 ^ a), mt_extent_size := 2 ^ a, mt_extent_count := 0\<rparr>) {} [] (xh_live (mt_heap m))"
    using assms(1) by (simp add: heap_ok_def place_ok_def matras_allocator_create_def)
  have p: "ma_extent_size (matras_allocator_create (2 ^ a)) = 2 ^ a" "(2::nat) ^ b = 2 ^ b" by (simp_all add: matras_allocator_create_def)
  have q: "mt_self m \<noteq> NULL" "xh_size (mt_heap m) = 2 ^ a" using assms(1) by (simp_all add: place_ok_def)
  show thesis
  proof (rule create_spec [OF p assms(2-5) q h, of st])
    fix m' assume m': "matras_create m (2 ^ b) (matras_allocator_create (2 ^ a)) st = Some m'" "matras_inv m' [] {} [] (xh_live (mt_heap m))" "exact m' [] {}" "mv_block_count (mt_head m') = 0"
      "mt_block_size m' = 2 ^ b" "mt_extent_size m' = ma_extent_size (matras_allocator_create (2 ^ a))" "mt_self m' = mt_self m" "mt_capacity m' = 2 ^ min 32 (3 * a - b - 6)" "mt_heap m' = mt_heap m"
    show thesis by (rule that [OF m'(1-5) m'(6) [unfolded p(1)] m'(7-9)])
  qed
qed

text \<open>C25: \<open>matras_create\<close> with an extent size and a block size that are powers of two passes its assertions and yields an
  empty array that owns no extent, with the capacity of three levels of extents, but at most
  \<open>2 ^ 32\<close> blocks.\<close>

theorem matras_create_correct:
  assumes "place_ok m (2 ^ a)" and "3 < a" and "a < 32" and "b \<le> a" and "2 * a - b - 3 < 32"
  shows "\<exists>m'. matras_create m (2 ^ b) (matras_allocator_create (2 ^ a)) st = Some m' \<and> matras_inv m' [] {} [] (xh_live (mt_heap m)) \<and>
    versions m' [] = ([], []) \<and> mt_capacity m' = 2 ^ min 32 (3 * a - b - 6)"
proof (rule place_create [OF assms, of st])
  fix m' assume m': "matras_create m (2 ^ b) (matras_allocator_create (2 ^ a)) st = Some m'" "matras_inv m' [] {} [] (xh_live (mt_heap m))" "mv_block_count (mt_head m') = 0"
    "mt_capacity m' = 2 ^ min 32 (3 * a - b - 6)"
  then have "versions m' [] = ([], [])" by (simp add: versions_def array_of_def)
  then show ?thesis using m' by blast
qed

lemma demo_place: "place_ok demo0 16"
  by (simp add: place_ok_def demo0_def demo_def)

theorem matras_create_correct_witness:
  "\<exists>m'. matras_create demo0 16 (matras_allocator_create 16) matras_stats_create = Some m' \<and> versions m' [] = ([], []) \<and> mt_capacity m' = 4"
  using matras_create_correct [of demo0 4 4 matras_stats_create] demo_place by auto

text \<open>C12: A created array is a versioned sequence of blocks: from every state that clients can reach, every command
  that the contract allows runs without an abort, and changes the sequence of the array and
  those of the read views as the contract says, a failure to allocate included. In particular no
  command changes what a read view shows.\<close>

theorem matras_refines_versions:
  assumes "place_ok m (2 ^ a)" and "3 < a" and "a < 32" and "b \<le> a" and "2 * a - b - 3 < 32"
    and "matras_create m (2 ^ b) (matras_allocator_create (2 ^ a)) st = Some m0" and "alloc_ok af (2 ^ a)"
    and "reach (array_exec af) array_valid versions m0 m1 vs" and "array_valid c m1 (versions m1 vs)"
  shows "\<exists>ok m2. array_exec af c m1 = Some (ok, m2) \<and> reach (array_exec af) array_valid versions m0 m2 (views_after c vs) \<and>
    spec_step c ok (versions m1 vs) (versions m2 (views_after c vs))"
proof -
  obtain m' where m': "matras_create m (2 ^ b) (matras_allocator_create (2 ^ a)) st = Some m'" "matras_inv m' [] {} [] (xh_live (mt_heap m))" "mt_extent_size m' = 2 ^ a"
    by (rule place_create [OF assms(1-5)]) blast
  have "good False m0 [] (xh_live (mt_heap m)) \<and> alloc_ok af (mt_extent_size m0)" using m' assms(6,7) by (auto simp: good_def own_end_def)
  then show ?thesis using assms(8,9) by (rule matras_array.reach_step)
qed

theorem matras_refines_versions_witness:
  "\<exists>ok m2. array_exec (bump 16) (Append (replicate 16 7)) demo0 = Some (ok, m2) \<and> spec_step (Append (replicate 16 7)) ok ([], []) (versions m2 [])"
proof -
  have v: "array_valid (Append (replicate 16 7)) demo0 (versions demo0 [])" by (simp add: array_valid_def demo0_def demo_fields)
  have c: "matras_create demo0 (2 ^ 4) (matras_allocator_create (2 ^ 4)) matras_stats_create = Some demo0" using demo_create by simp
  have p: "place_ok demo0 (2 ^ 4)" "alloc_ok (bump 16) (2 ^ 4)" using demo_place bump_ok [of 16] by simp_all
  have e: "versions demo0 [] = ([], [])" using demo0_inv(3) by (simp add: versions_def array_of_def)
  show ?thesis using matras_refines_versions [OF p(1) _ _ _ _ c p(2) reach.start v] unfolding e by auto
qed

text \<open>C13: Once \<open>matras_touch_reserve\<close> returned 0 for a number of blocks, touching that many blocks succeeds, whatever the
  external allocator answers from then on, and changes nothing of what the array and its views show.\<close>

theorem matras_touch_reserve_enough:
  assumes "matras_inv m vs Own R Out" and "alloc_ok af (mt_extent_size m)" and "alloc_ok af' (mt_extent_size m)" and "int n * 2 + 1 < 2 ^ 31"
    and "matras_touch_reserve af m (int n) = Some (0, m')" and "length is \<le> n" and "\<forall>i \<in> set is. i < mv_block_count (mt_head m)"
  shows "\<exists>as m''. touch_all af' is m' = Some (as, m'') \<and> length as = length is \<and> NULL \<notin> set as \<and> versions m'' vs = versions m vs"
proof -
  obtain R' where r: "matras_inv m' vs Own R' Out" "geom m' = geom m" "mt_views m' = mt_views m" "\<And>w. w \<in> set (mt_self m # vs) \<Longrightarrow> keeps_view m m' w" "reserved_for n m' vs R'"
    using touch_reserve_spec [OF assms(1,2,4)] assms(5) by auto
  note g = geomD [OF r(2)]
  have "\<exists>as m'' Own' R''. touch_all af' is m' = Some (as, m'') \<and> NULL \<notin> set as \<and> length as = length is \<and> matras_inv m'' vs Own' R'' Out \<and> touch_rel m' m'' vs Own Own' Out"
    by (rule touch_all_spec [OF r(1) _ _ assms(6) r(5)]) (use assms(3,7) g r(3) in auto)
  then obtain as m'' Own' R'' where t: "touch_all af' is m' = Some (as, m'')" "NULL \<notin> set as" "length as = length is" "matras_inv m'' vs Own' R'' Out" "touch_rel m' m'' vs Own Own' Out" by blast
  note T = touch_relD [OF t(5)]
  have gm: "geom m'' = geom m" using T(1) r(2) by simp
  have "array_of m'' w = array_of m w" if w: "w \<in> set (mt_self m # vs)" for w
    by (rule array_keeps [OF assms(1) t(4) gm w w]) (rule keeps_view_trans [OF r(4) [OF w] T(5)], use w g(1) in simp)
  then have "versions m'' vs = versions m vs" using geomD(1) [OF gm] by (simp add: versions_def)
  then show ?thesis using t by blast
qed

theorem matras_touch_reserve_enough_witness:
  "matras_touch_reserve (bump 16) demo2 1 = Some (0, demo2_reserved) \<and> (\<exists>as m''. touch_all (\<lambda>_ _. NULL) [0] demo2_reserved = Some (as, m'') \<and> length as = 1 \<and> NULL \<notin> set as)"
proof -
  obtain Own R where I: "matras_inv demo2 [2] Own R {}" using demo2_inv by blast
  have af: "alloc_ok (bump 16) (mt_extent_size demo2)" "alloc_ok (\<lambda>_ _. NULL) (mt_extent_size demo2)" using bump_ok [of 16] by (simp_all add: demo_counts alloc_ok_def)
  have r: "matras_touch_reserve (bump 16) demo2 (int 1) = Some (0, demo2_reserved)" using run_reserve by simp
  show ?thesis using matras_touch_reserve_enough [OF I af _ r, of "[0]"] run_reserve demo_counts by auto
qed

text \<open>C14: No extent is lost by clients that release a view only when it has at most as many blocks as the next older one.
  After any such commands on a created array, a failure to allocate included, and with the remaining
  views in such an order too, \<open>matras_destroy\<close> passes its assertion on the count of extents, and it and the
  destruction of the allocator give back every extent: in use are exactly the extents that
  were in use before the array was created, with their bytes. The block counts stay one table away from the end of
  their 32 bits.\<close>

theorem matras_destroy_frees_all:
  assumes "place_ok m (2 ^ a)" and "3 < a" and "a < 32" and "b \<le> a" and "2 * a - b - 3 < 32"
    and "matras_create m (2 ^ b) (matras_allocator_create (2 ^ a)) st = Some m0" and "alloc_ok af (2 ^ a)"
    and "reach (array_exec af) tidy_valid versions m0 m1 vs" and "sorted (map (\<lambda>(v, bs). length bs) (snd (versions m1 vs)))"
    and "\<forall>bs \<in> insert (fst (versions m1 vs)) (snd ` set (snd (versions m1 vs))). length bs + 2 ^ shift1 m1 \<le> 2 ^ 32"
  shows "\<exists>m' al h. matras_destroy m1 = Some m' \<and> mt_extent_count m' = 0 \<and>
    matras_allocator_destroy (mt_allocator m') (mt_heap m') = Some (al, h) \<and> num_reserved_extents al = 0 \<and> xh_live h = xh_live (mt_heap m) \<and>
    (\<forall>x \<in> xh_live (mt_heap m). ext_bytes m' x = ext_bytes m1 x)"
proof -
  let ?Out = "xh_live (mt_heap m)"
  obtain m' where m': "matras_create m (2 ^ b) (matras_allocator_create (2 ^ a)) st = Some m'" "matras_inv m' [] {} [] ?Out" "exact m' [] {}" "mt_extent_size m' = 2 ^ a"
    by (rule place_create [OF assms(1-5)]) blast
  have "good True m0 [] ?Out \<and> alloc_ok af (mt_extent_size m0)" using m' assms(6,7) by (auto simp: good_def own_end_def)
  then have "good True m1 vs ?Out" using tidy_array.reach_inv [OF assms(8)] by blast
  then obtain Own R where I: "matras_inv m1 vs Own R ?Out" "exact m1 vs Own" by (rule goodE) blast
  have c: "sorted (counts_of m1 vs)" using assms(9) by (simp add: versions_def counts_of_def o_def)
  have n: "mv_block_count (mt_views m1 w) + step1 m1 \<le> 2 ^ 32" if "w \<in> set (mt_self m1 # vs)" for w
    using assms(10) that by (auto simp: versions_def step1_def)
  obtain m2 where d: "matras_destroy m1 = Some m2" "geom m2 = geom m1" "heap_ok m2 {} R ?Out" "\<And>x. ext_bytes m2 x = ext_bytes m1 x"
    by (rule destroy_all_spec [OF I c n]) blast+
  have "geom_ok m2" using matras_invD(1) [OF I(1)] geomD(10) [OF d(2)] by simp
  then obtain al h where "matras_allocator_destroy (mt_allocator m2) (mt_heap m2) = Some (al, h)" "num_reserved_extents al = 0" "xh_live h = ?Out"
    using allocator_destroy_spec [OF _ d(3)] by auto
  then show ?thesis using d heap_okD(11) [OF d(3)] by simp
qed

theorem matras_destroy_frees_all_witness:
  "\<exists>m m' al h. reach (array_exec (bump 16)) tidy_valid versions demo0 m [2] \<and> matras_destroy m = Some m' \<and>
     matras_allocator_destroy (mt_allocator m') (mt_heap m') = Some (al, h) \<and> xh_live h = {}"
proof -
  let ?bs = "replicate 16 7" and ?r = "reach (array_exec (bump 16)) tidy_valid versions demo0"
  let ?m1 = "poke 48 ?bs demo1"
  let ?m2 = "matras_create_read_view ?m1 2"
  have "tidy_valid (Append ?bs) demo0 (versions demo0 [])" by (simp add: tidy_valid_def tidy_def array_valid_def demo0_def demo_fields)
  moreover have "array_exec (bump 16) (Append ?bs) demo0 = Some (True, ?m1)" by (simp add: array_exec_def run1)
  ultimately have "?r ?m1 (views_after (Append ?bs) [])" by (rule reach.step [OF reach.start])
  then have r1: "?r ?m1 []" by simp
  have "tidy_valid (Snapshot 2) ?m1 (versions ?m1 [])" by (simp add: tidy_valid_def tidy_def array_valid_def versions_def demo1_def demo_fields)
  moreover have "array_exec (bump 16) (Snapshot 2) ?m1 = Some (True, ?m2)" by (simp add: array_exec_def)
  ultimately have "?r ?m2 (views_after (Snapshot 2) [])" by (rule reach.step [OF r1])
  then have r2: "?r ?m2 [2]" by simp
  have c: "matras_create demo0 (2 ^ 4) (matras_allocator_create (2 ^ 4)) matras_stats_create = Some demo0" using demo_create by simp
  have p: "place_ok demo0 (2 ^ 4)" "alloc_ok (bump 16) (2 ^ 4)" using demo_place bump_ok [of 16] by simp_all
  have v: "mt_self ?m2 = 1" "mv_block_count (mt_views ?m2 1) = 1" "mv_block_count (mt_views ?m2 2) = 1" "shift1 ?m2 = 1"
    by (simp_all add: matras_create_read_view_def upd_view_def poke_def demo1_def demo_fields view_fields Let_def)
  have "\<forall>bs \<in> insert (fst (versions ?m2 [2])) (snd ` set (snd (versions ?m2 [2]))). length bs + 2 ^ shift1 ?m2 \<le> 2 ^ 32"
    "sorted (map (\<lambda>(v, bs). length bs) (snd (versions ?m2 [2])))" using v by (simp_all add: versions_def)
  then have "\<exists>m' al h. matras_destroy ?m2 = Some m' \<and> mt_extent_count m' = 0 \<and>
    matras_allocator_destroy (mt_allocator m') (mt_heap m') = Some (al, h) \<and> num_reserved_extents al = 0 \<and> xh_live h = xh_live (mt_heap demo0) \<and>
    (\<forall>x \<in> xh_live (mt_heap demo0). ext_bytes m' x = ext_bytes ?m2 x)"
    by (intro matras_destroy_frees_all [OF p(1) _ _ _ _ c p(2) r2]) simp_all
  moreover have "xh_live (mt_heap demo0) = {}" by (simp add: demo0_def demo_def)
  ultimately show ?thesis using r2 by metis
qed

text \<open>C26: The condition on the views cannot be dropped. Let view \<open>v\<close> have the same root as the next older view \<open>b\<close> and an extent \<open>x\<close> that
  \<open>b\<close> does not have, as \<open>b\<close> has fewer blocks, and that the next newer version does not have, as it copied it.
  Then \<open>matras_destroy_read_view\<close> of \<open>v\<close> frees nothing, although no view that is left has \<open>x\<close>: the extent is lost. A
  \<open>matras_destroy\<close> of the array afterwards gets through the views, the tables and the root, but its count of extents is
  not 0 and its assertion fails. The array has less than \<open>2 ^ 32\<close> extents, so that the count is exact.\<close>

theorem matras_destroy_read_view_leaks:
  assumes "matras_inv m (as @ v # b # bs) Own R Out" and "\<forall>w \<in> set (mt_self m # as @ v # b # bs). mv_block_count (mt_views m w) + step1 m \<le> 2 ^ 32"
    and "0 < mv_block_count (mt_head m)" and "card Own < 2 ^ 32" and "mv_root (mt_views m v) = mv_root (mt_views m b)" and "0 < mv_block_count (mt_views m b)"
    and "lay m v p = Some x" and "lay m b p = None" and "lay m (last (mt_self m # as)) p \<noteq> Some x"
  shows "\<exists>m'. matras_destroy_read_view m v = Some m' \<and> matras_inv m' (as @ b # bs) Own R Out \<and> mt_heap m' = mt_heap m \<and>
    x \<in> xh_live (mt_heap m') \<and> (\<forall>w \<in> set (mt_self m' # as @ b # bs). x \<notin> ran (lay m' w)) \<and>
    (\<exists>m1 m2 m3. destroy_views m' = Some m1 \<and> 0 < mv_block_count (mt_head m1) \<and> destroy_outer 0 0 m1 = Some m2 \<and>
       matras_free_extent m2 (mv_root (mt_head m2)) = Some m3 \<and> mt_extent_count m3 \<noteq> 0) \<and> matras_destroy m' = None"
proof -
  let ?n = "last (mt_self m # as)"
  let ?u = "unlink_view v ?n b m"
  have nb: "b \<noteq> NULL" using matras_invD(4) [OF assms(1)] by simp
  have v: "has_pos m v p" "ext_of m v p = x" using assms(7) by (auto simp: lay_ext_of has_pos_def split: if_splits)
  have "has_pos m v Top" using v(1) by (auto simp: has_pos_def)
  from same_at_ext [OF this, of b] have "same_at (lay m v) (lay m b) Top" using assms(5,6) by (simp only: ext_of_def has_pos_def ext_at.simps pos_start.simps)
  then have top: "shared_pos m v ?n b Top" using nb by (auto simp: shared_pos_def neighbours_def)
  have un: "\<not> shared_pos m v ?n (older (b # bs)) p"
    using assms(7-9) nb by (auto simp: shared_pos_def neighbours_def same_at_def split: if_splits)
  have run: "matras_destroy_read_view m v = Some ?u" using destroy_run [OF assms(1)] assms(2) top by simp
  have "heap_ok ?u (Own - ext_of m v ` {}) R Out" using matras_invD(2) [OF assms(1)] by simp
  then have f: "matras_inv ?u (as @ b # bs) (Own - ext_of m v ` {}) R Out" "\<And>w. lay ?u w = lay m w" "\<And>w. mv_block_count (mt_views ?u w) = mv_block_count (mt_views m w)" "geom ?u = geom m"
    using freed_inv [OF assms(1) refl, of b "{}" ?u] by simp_all
  have s: "mt_self ?u = mt_self m" "step1 ?u = step1 m" using geomD(1,5) [OF f(4)] by simp_all
  have lost: "x \<notin> ran (lay ?u w)" if "w \<in> set (mt_self ?u # as @ b # bs)" for w
    using unshared_private [OF assms(1) v(1) un, of w] that v(2) f(2) s(1) by simp
  have xO: "x \<in> Own" using matras_invD(9) [OF assms(1), of v] assms(7) by (auto intro: ranI)
  have I: "matras_inv ?u (as @ b # bs) Own R Out" using f(1) by simp
  obtain m1 m2 m3 where "destroy_views ?u = Some m1" "destroy_outer 0 0 m1 = Some m2" "matras_free_extent m2 (mv_root (mt_head m2)) = Some m3"
    "0 < mt_extent_count m3" "0 < mv_block_count (mt_head m1)" "matras_destroy ?u = None"
    by (rule destroy_lost_spec [OF I xO lost]) (use assms(2-4) f(3) s in auto)
  moreover have "x \<in> xh_live (mt_heap ?u)" using heap_okD(1) [OF matras_invD(2) [OF I]] xO by blast
  ultimately show ?thesis using run I lost by (intro exI [of _ ?u]) auto
qed

theorem matras_destroy_read_view_leaks_witness:
  "matras_destroy_read_view demo4 3 = Some demo5 \<and> 64 \<in> xh_live (mt_heap demo5) \<and> 64 \<notin> ran (lay demo5 1) \<and> 64 \<notin> ran (lay demo5 2) \<and>
   (\<exists>m1 m2 m3. destroy_views demo5 = Some m1 \<and> destroy_outer 0 0 m1 = Some m2 \<and> matras_free_extent m2 (mv_root (mt_head m2)) = Some m3 \<and> mt_extent_count m3 \<noteq> 0) \<and>
   matras_destroy demo5 = None"
proof -
  obtain Own R where I: "matras_inv demo4 ([] @ 3 # 2 # []) Own R {}" using demo4_inv by auto
  have "Own \<subseteq> {112, 96, 80, 64, 48, 32, 16}" using heap_okD(1) [OF matras_invD(2) [OF I]] demo4_counts(7) by auto
  then have "card Own \<le> card {112, 96, 80, 64, 48, 32, 16 :: addr}" by (intro card_mono) simp_all
  then have c: "card Own < 2 ^ 32" by simp
  have s: "mt_self demo5 = 1" by (simp add: demo5_def demo_fields)
  have "last (mt_self demo4 # []) = 1" by (simp add: demo4_counts)
  then show ?thesis using matras_destroy_read_view_leaks [OF I _ _ c, of "Low 1" 64] run5 demo4_lay demo4_counts s by auto
qed

definition lookup_ref :: "matras \<Rightarrow> addr \<Rightarrow> nat \<Rightarrow> addr" where
  "lookup_ref m root i = (let S = mt_extent_size m div mt_block_size m; K = mt_extent_size m div 8
     in xh_ptr (mt_heap m) (xh_ptr (mt_heap m) root (i div (K * S))) (i div S mod K) + i mod S * mt_block_size m)"

text \<open>C15: The three-level lookup by shifts and masks is the lookup by division: with \<open>S\<close> blocks in an extent and \<open>K\<close> slots in a
  table, the block with number \<open>i\<close> of a view is block \<open>i mod S\<close> of the extent in slot \<open>i div S mod K\<close> of the table in slot \<open>i div (K * S)\<close> of the
  root. It never leaves the extents of the array.\<close>

theorem matras_view_get_equiv:
  assumes "matras_inv m vs Own R Out" and "w \<in> set (mt_self m # vs)" and "i < mv_block_count (mt_views m w)"
  shows "matras_view_get m w i = Some (lookup_ref m (mv_root (mt_views m w)) i) \<and>
    (\<exists>e \<in> Own. span (lookup_ref m (mv_root (mt_views m w)) i) (mt_block_size m) \<subseteq> span e (mt_extent_size m))"
proof (rule view_get_spec [OF assms])
  fix e assume e: "lay m w (Low (i div step2 m)) = Some e" "matras_view_get m w i = Some (e + i mod step2 m * mt_block_size m)"
  have g: "geom_ok m" by (rule matras_invD(1) [OF assms(1)])
  have K: "mt_extent_size m div 8 = slots m" by (simp add: slots_def)
  have "e = xh_ptr (mt_heap m) (xh_ptr (mt_heap m) (mv_root (mt_views m w)) (i div step2 m div slots m)) (i div step2 m mod slots m)"
    using e(1) by (auto simp: layout_of_def split: if_splits)
  then have r: "lookup_ref m (mv_root (mt_views m w)) i = e + i mod step2 m * mt_block_size m"
    unfolding lookup_ref_def blocks_in_extent [OF g] K Let_def by (simp only: div_mult2_eq mult.commute [of "slots m"])
  have "e \<in> Own" using inv_live [OF assms(1,2) e(1)] by simp
  moreover have "span (e + i mod step2 m * mt_block_size m) (mt_block_size m) \<subseteq> span e (mt_extent_size m)" using block_fits [OF g, of i] by auto
  ultimately show ?thesis unfolding r using e(2) by blast
qed

theorem matras_view_get_equiv_witness: "matras_view_get demo2 2 0 = Some (lookup_ref demo2 16 0) \<and> lookup_ref demo2 16 0 = 48"
proof -
  obtain Own R where I: "matras_inv demo2 [2] Own R {}" using demo2_inv by blast
  have "mv_root (mt_views demo2 2) = 16" by (simp add: demo2_def demo_fields view_fields)
  then have "matras_view_get demo2 2 0 = Some (lookup_ref demo2 16 0)" using matras_view_get_equiv [OF I, of 2 0] demo_counts by simp
  moreover have "lookup_ref demo2 16 0 = 48" by (simp add: lookup_ref_def demo2_def demo_def Let_def)
  ultimately show ?thesis by blast
qed

end
