(* ===== verification/Static_Buffer.thy ===== *)
theory Static_Buffer
  imports Slab_Client
begin

text \<open>
  \<open>small/static.c\<close> and \<open>include/small/static.h\<close>: a buffer of fixed size for temporary data that starts again
  from its beginning when the rest of it is too small. The address \<open>static_storage_buffer\<close> is a
  parameter; the position is the state.
\<close>

definition SMALL_STATIC_SIZE :: nat where
  "SMALL_STATIC_SIZE = 4096 * 3"

record static_storage =
  static_storage_buffer :: addr
  static_storage_pos :: nat

definition static_reset :: "static_storage \<Rightarrow> static_storage" where
  "static_reset st = st\<lparr>static_storage_pos := 0\<rparr>"

definition static_reserve :: "static_storage \<Rightarrow> nat \<Rightarrow> addr \<times> static_storage" where
  "static_reserve st sz =
     (if (static_storage_pos st + sz) mod 2 ^ 64 > SMALL_STATIC_SIZE then
        (if sz > SMALL_STATIC_SIZE then (NULL, st)
         else (static_storage_buffer st + 0, st\<lparr>static_storage_pos := 0\<rparr>))
      else (static_storage_buffer st + static_storage_pos st, st))"

definition static_alloc :: "static_storage \<Rightarrow> nat \<Rightarrow> addr \<times> static_storage" where
  "static_alloc st sz =
     (let (res, st) = static_reserve st sz
      in (res, if res \<noteq> NULL then st\<lparr>static_storage_pos := (static_storage_pos st + sz) mod 2 ^ 64\<rparr> else st))"

definition static_aligned_reserve :: "static_storage \<Rightarrow> nat \<Rightarrow> nat \<Rightarrow> (addr \<times> static_storage) option" where
  "static_aligned_reserve st sz alignment = do {
     let (unaligned, st) = static_reserve st (nat ((int sz + int alignment - 1) mod 2 ^ 64));
     if unaligned = NULL then Some (NULL, st)
     else do {
       p \<leftarrow> small_align (of_nat unaligned) (of_nat alignment);
       Some (unat p, st) } }"

definition static_aligned_alloc :: "static_storage \<Rightarrow> nat \<Rightarrow> nat \<Rightarrow> (addr \<times> static_storage) option" where
  "static_aligned_alloc st sz alignment = do {
     (res, st) \<leftarrow> static_aligned_reserve st sz alignment;
     if res \<noteq> NULL then do {
       let st = st\<lparr>static_storage_pos := nat ((int res - int (static_storage_buffer st)) mod 2 ^ 64)\<rparr>;
       Some (res, st\<lparr>static_storage_pos := (static_storage_pos st + sz) mod 2 ^ 64\<rparr>) }
     else Some (NULL, st) }"

section \<open>What they do\<close>

definition static_ok :: "static_storage \<Rightarrow> bool" where
  "static_ok st \<longleftrightarrow> static_storage_buffer st \<noteq> NULL \<and> static_storage_buffer st + SMALL_STATIC_SIZE \<le> 2 ^ 63 \<and> static_storage_pos st \<le> SMALL_STATIC_SIZE"

text \<open>The start of the next chunk of \<open>n\<close> bytes.\<close>

definition static_next :: "static_storage \<Rightarrow> nat \<Rightarrow> nat" where
  "static_next st n = (if static_storage_pos st + n \<le> SMALL_STATIC_SIZE then static_storage_pos st else 0)"

lemma static_reserve_spec:
  assumes ok: "static_ok st" and n: "n < 2 ^ 63"
  shows "static_reserve st n = (if n > SMALL_STATIC_SIZE then (NULL, st)
    else (static_storage_buffer st + static_next st n, st\<lparr>static_storage_pos := static_next st n\<rparr>))"
proof -
  have "(static_storage_pos st + n) mod 2 ^ 64 = static_storage_pos st + n" using ok n by (simp add: static_ok_def SMALL_STATIC_SIZE_def)
  moreover have "st\<lparr>static_storage_pos := static_storage_pos st\<rparr> = st" by simp
  ultimately show ?thesis using ok by (simp add: static_reserve_def static_next_def static_ok_def)
qed

lemma static_next_bound: "n \<le> SMALL_STATIC_SIZE \<Longrightarrow> static_next st n + n \<le> SMALL_STATIC_SIZE"
  by (simp add: static_next_def)

text \<open>\<open>static_alloc\<close> fails exactly for sizes above the size of the buffer. Otherwise the chunk is in the buffer, right
  behind the one before when there is room and at the beginning of the buffer when not, and the
  position stays in the buffer.\<close>

theorem static_alloc_correct:
  assumes "static_ok st" and "n < 2 ^ 63"
  shows "if n > SMALL_STATIC_SIZE then static_alloc st n = (NULL, st)
    else \<exists>p. static_alloc st n = (static_storage_buffer st + p, st\<lparr>static_storage_pos := p + n\<rparr>) \<and> p + n \<le> SMALL_STATIC_SIZE \<and>
      (p = static_storage_pos st \<or> p = 0 \<and> static_storage_pos st + n > SMALL_STATIC_SIZE) \<and> static_ok (st\<lparr>static_storage_pos := p + n\<rparr>)"
proof (cases "n > SMALL_STATIC_SIZE")
  case True
  then show ?thesis using static_reserve_spec [OF assms] by (simp add: static_alloc_def)
next
  case False
  then have b: "static_next st n + n \<le> SMALL_STATIC_SIZE" by (intro static_next_bound) simp
  then have "(static_next st n + n) mod 2 ^ 64 = static_next st n + n" by (simp add: SMALL_STATIC_SIZE_def)
  then have "static_alloc st n = (static_storage_buffer st + static_next st n, st\<lparr>static_storage_pos := static_next st n + n\<rparr>)"
    using static_reserve_spec [OF assms] False assms(1) by (simp add: static_alloc_def static_ok_def)
  moreover have "static_ok (st\<lparr>static_storage_pos := static_next st n + n\<rparr>)" using assms(1) b by (simp add: static_ok_def)
  ultimately show ?thesis using False b by (auto simp: static_next_def)
qed

definition example_static :: static_storage where
  "example_static = \<lparr>static_storage_buffer = 65536, static_storage_pos = 100\<rparr>"

lemma example_static_ok: "static_ok example_static"
  by (simp add: static_ok_def example_static_def SMALL_STATIC_SIZE_def)

theorem static_alloc_correct_witness:
  "\<exists>p. static_alloc example_static 50 = (65536 + p, example_static\<lparr>static_storage_pos := p + 50\<rparr>)"
  using static_alloc_correct [OF example_static_ok, of 50] by (auto simp: SMALL_STATIC_SIZE_def example_static_def)

text \<open>\<open>static_aligned_alloc\<close> passes the assertions of the alignment. It returns NULL, or an address of the alignment
  asked for with the whole chunk inside the buffer and the position right behind it.\<close>

theorem static_aligned_alloc_correct:
  assumes "static_ok st" and "k < 32" and "n < 2 ^ 62"
  shows "\<exists>p st'. static_aligned_alloc st n (2 ^ k) = Some (p, st') \<and> static_ok st' \<and>
    (if p = NULL then n + 2 ^ k - 1 > SMALL_STATIC_SIZE \<and> st' = st
     else 2 ^ k dvd p \<and> static_storage_buffer st \<le> p \<and> p + n \<le> static_storage_buffer st + SMALL_STATIC_SIZE \<and>
       st' = st\<lparr>static_storage_pos := p + n - static_storage_buffer st\<rparr>)"
proof -
  let ?n = "n + 2 ^ k - 1" and ?b = "static_storage_buffer st"
  have kb1: "(2::nat) ^ k < 2 ^ 32" using assms(2) by (intro power_strict_increasing) simp_all
  have kb2: "(1::nat) \<le> 2 ^ k" by simp
  note kb = kb1 kb2
  then have lt: "?n < 2 ^ 63" using assms(3) by simp
  have "int n + int (2 ^ k) - 1 = int ?n" using kb(2) by linarith
  then have e: "nat ((int n + int (2 ^ k) - 1) mod 2 ^ 64) = ?n" using lt by (intro nat_mod_power) simp_all
  note R = static_reserve_spec [OF assms(1) lt]
  have b: "?b \<noteq> NULL" "?b + SMALL_STATIC_SIZE \<le> 2 ^ 63" using assms(1) by (simp_all add: static_ok_def)
  show ?thesis
  proof (cases "?n > SMALL_STATIC_SIZE")
    case True
    then show ?thesis using R assms(1) unfolding static_aligned_alloc_def static_aligned_reserve_def e by simp
  next
    case False
    let ?u = "?b + static_next st ?n"
    have s: "static_next st ?n + ?n \<le> SMALL_STATIC_SIZE" using False by (intro static_next_bound) simp
    then have "?u \<le> 2 ^ 63" using b(2) by linarith
    then have "?u + 2 ^ k < 2 ^ 64" using kb(1) by simp
    then obtain r where r: "small_align (of_nat ?u) (of_nat (2 ^ k)) = Some r" "unat r = align_up ?u (2 ^ k)" by (rule small_align_addr [OF assms(2)])
    let ?p = "align_up ?u (2 ^ k)"
    have p: "?u \<le> ?p" "?p < ?u + 2 ^ k" using align_up_bounds [of "2 ^ k" ?u] by simp_all
    have fit: "?p + n \<le> ?b + SMALL_STATIC_SIZE" using p(2) s by linarith
    have m: "nat ((int ?p - int ?b) mod 2 ^ 64) = ?p - ?b" "(?p - ?b + n) mod 2 ^ 64 = ?p + n - ?b"
    proof -
      obtain q where q: "q = ?p" by simp
      have bq: "?b \<le> q" "q + n \<le> 2 ^ 63" using p(1) fit b(2) unfolding q by linarith+
      then have "q - ?b < 2 ^ 64" "int q - int ?b = int (q - ?b)" "q - ?b + n = q + n - ?b" "q + n - ?b < 2 ^ 64" by simp_all
      then show "nat ((int ?p - int ?b) mod 2 ^ 64) = ?p - ?b" "(?p - ?b + n) mod 2 ^ 64 = ?p + n - ?b" unfolding q [symmetric]
        by (simp_all only: nat_mod_power [of _ "q - ?b"] mod_less)
    qed
    have "?p \<noteq> NULL" using p(1) b(1) by simp
    then have "static_aligned_alloc st n (2 ^ k) = Some (?p, st\<lparr>static_storage_pos := ?p + n - ?b\<rparr>)"
      using R False r b(1) m unfolding static_aligned_alloc_def static_aligned_reserve_def e by (simp add: Let_def del: of_nat_add of_nat_power)
    moreover have "static_ok (st\<lparr>static_storage_pos := ?p + n - ?b\<rparr>)" using b fit by (simp add: static_ok_def)
    ultimately show ?thesis using \<open>?p \<noteq> NULL\<close> p(1) fit by auto
  qed
qed

theorem static_aligned_alloc_correct_witness:
  "\<exists>p st'. static_aligned_alloc example_static 50 64 = Some (p, st') \<and> static_ok st'"
  using static_aligned_alloc_correct [OF example_static_ok, of 6 50] by auto

text \<open>C27: The sum in \<open>static_reserve\<close> is not guarded against wrapping: for a size close to \<open>2 ^ 64\<close> the function returns the
  current position, although the buffer is far too small.\<close>

theorem static_reserve_wraps:
  assumes "0 < static_storage_pos st" and "static_storage_pos st \<le> SMALL_STATIC_SIZE"
  shows "static_reserve st (2 ^ 64 - 1) = (static_storage_buffer st + static_storage_pos st, st)"
proof -
  have "static_storage_pos st + (2 ^ 64 - 1) = (static_storage_pos st - 1) + 2 ^ 64" using assms(1) by simp
  then have "(static_storage_pos st + (2 ^ 64 - 1)) mod 2 ^ 64 = (static_storage_pos st - 1) mod 2 ^ 64" by (simp only: mod_add_self2)
  also have "\<dots> = static_storage_pos st - 1" using assms(2) by (simp add: SMALL_STATIC_SIZE_def)
  finally have e: "(static_storage_pos st + (2 ^ 64 - 1)) mod 2 ^ 64 = static_storage_pos st - 1" .
  have "\<not> static_storage_pos st - 1 > SMALL_STATIC_SIZE" using assms(2) by linarith
  then show ?thesis unfolding static_reserve_def e by (simp only: if_False)
qed

theorem static_reserve_wraps_witness: "static_reserve example_static (2 ^ 64 - 1) = (65636, example_static)"
  using static_reserve_wraps [of example_static] by (simp add: example_static_def SMALL_STATIC_SIZE_def)

end
