(* ===== verification/Spec2Isabelle.thy ===== *)
theory Spec2Isabelle
  imports Util Quota Quota_Lessor Lifo Rlist Slab_Cache_Props Region Obuf Mempool_Ops Small_Props Lsregion_Props Matras_Props Static_Buffer
begin

text \<open>
  \<^bold>\<open>A verification of the library small\<close>

  \<^bold>\<open>The program.\<close> Small is the family of memory allocators of Tarantool. At the bottom a \<^emph>\<open>slab arena\<close>
  takes aligned slabs of one size from the operating system, within a \<^emph>\<open>quota\<close> that threads share and
  that a \<^emph>\<open>quota lessor\<close> hands out in larger leases; unused slabs wait in a lock-free stack. A
  \<^emph>\<open>slab cache\<close> of one thread splits the slabs of the arena into buddies. Its slabs feed the \<^emph>\<open>pools\<close> of
  objects of one size (\<open>mempool\<close>), the \<^emph>\<open>regions\<close> that free everything at once, and the input and output
  buffers \<open>ibuf\<close> and \<open>obuf\<close>. The allocator of \<^emph>\<open>small\<close> objects is an array of pools, one for a size
  class, in groups that share the active pools; what is larger goes to the slab cache directly.
  The \<^emph>\<open>log-structured region\<close> takes slabs from the arena and frees them by the id of their newest
  allocation; \<^emph>\<open>matras\<close> is an array of blocks in a tree of three levels of extents, with read views that keep
  their contents by copy-on-write; the \<^emph>\<open>static\<close> buffer is a ring of bytes. Intrusive lists (\<open>rlist\<close>, \<open>lifo\<close>, \<open>lf_lifo\<close>) and the
  rounding functions of \<open>util.h\<close> serve them all.

  \<^bold>\<open>How the code is modelled.\<close> A struct is a record, an address a natural number with 0 as NULL, and
  memory a function from addresses to bytes where contents matter. Headers that live in the
  memory they describe (struct slab, mslab, rslab, lslab, the links of lists) are stores from
  addresses to records. A function of the library takes the state it reads and returns the
  state it leaves; a failed \<open>assert\<close>, an access to memory the model does not have (outside an array, to a
  freed extent) and a loop that does not end are the value \<open>None\<close> of the option monad, so that every claim of
  the form \<open>f x = Some y\<close> also says that none of these happens. Where a claim is that something goes wrong, it
  is stated what: the loop of \<open>ibuf_reserve_slow\<close> is reached and its condition holds after any number of
  iterations, the steps of \<open>matras_destroy\<close> up to its assertion succeed and the asserted count is not 0. Machine integers wrap: they are words, or
  natural numbers with the reduction modulo \<open>2 ^ 32\<close> or \<open>2 ^ 64\<close> written out where it can take effect.
  Loops are structural recursion over the list they walk, or recursion with a measure. Loops that may
  not end are partial functions into option, and their specifications prove that they return: doubling
  a capacity (\<open>ibuf_grow\<close>, \<open>obuf_grow\<close>), walking a circular list (\<open>rlist_walk\<close>), and in \<open>Matras\<close> the loops over the reserved extents
  (\<open>matras_reserve_loop\<close>, \<open>matras_allocator_destroy\<close>), over the views (\<open>destroy_views\<close>) and over the slots of the
  tables (\<open>view_free_inner\<close>, \<open>view_free_outer\<close>, \<open>destroy_inner\<close>, \<open>destroy_outer\<close>), whose counters have 32 bits. No
  function takes fuel.

  \<^bold>\<open>Theories.\<close>
  \<^item> \<open>Prelude\<close>: the monad of assertions, ranges of bytes, aligned ranges, bit positions.
  \<^item> \<open>Util\<close> (\<open>include/small/util.h\<close>): \<open>small_align\<close>, \<open>small_round\<close>, \<open>small_lb\<close> and the page size; the results
    are the least multiple, the least power of two and the logarithm.
  \<^item> \<open>Quota\<close> (\<open>quota.h\<close>), \<open>Quota_Lessor\<close> (\<open>quota_lessor.h\<close>): the packed 64-bit word, each operation as one
    thread runs it and as a compare-and-exchange loop of any number of interleaved threads;
    accounting and linearizability are invariants of the step relation. The lessor takes and
    returns what it counts.
  \<^item> \<open>Lifo\<close> (\<open>lifo.h\<close>, \<open>lf_lifo.h\<close>): both stacks interpret the locale \<open>stack_impl\<close>.
  \<^item> \<open>Rlist\<close> (\<open>rlist.h\<close>): every operation on the circular lists, over the abstraction to lists of items.
  \<^item> \<open>Os_Memory\<close>, \<open>Slab_Arena\<close> (\<open>slab_arena.c\<close>, \<open>slab_arena.h\<close>): the operating system is a parameter; the arena
    returns aligned slabs within the quota.
  \<^item> \<open>Buddy\<close>, \<open>Slab_Cache\<close>, \<open>Slab_Cache_Inv\<close>, \<open>_Ops\<close>, \<open>_Main\<close>, \<open>_Check\<close>, \<open>_Props\<close> (\<open>slab_cache.c\<close>,
    \<open>slab_cache.h\<close>, \<open>slab_list.h\<close>): the buddy tiling as an abstract specification, the code, its invariant,
    and the properties: slabs in use never overlap, free buddies are merged, the counters are
    sums, any script of requests runs to its end, everything is merged again once it is given back,
    and the self check passes. The locale
    \<open>slab_source\<close> is the contract with the clients of the cache.
  \<^item> \<open>Slab_Client\<close>, \<open>Region\<close> (\<open>region.c\<close>, \<open>region.h\<close>): the contents of a region as a list of addresses to which
    allocation appends, which truncation cuts and which joining copies together.
  \<^item> \<open>Byte_Queue\<close>, \<open>Ibuf\<close> (\<open>ibuf.c\<close>, \<open>ibuf.h\<close>), \<open>Obuf\<close> (\<open>obuf.c\<close>, \<open>obuf.h\<close>): locales for logs and queues of bytes, and
    the two buffers as their implementations.
  \<^item> \<open>Object_Heap\<close>, \<open>Mempool\<close>, \<open>Mempool_Ops\<close> (\<open>mempool.c\<close>, \<open>mempool.h\<close>): the locale \<open>object_heap\<close> of allocators of
    objects, and the pool with its hot, cold and spare slabs and intrusive free lists.
  \<^item> \<open>Small_Class\<close> (\<open>small_class.c\<close>, \<open>small_class.h\<close>), \<open>Small_Alloc\<close>, \<open>Small_Groups\<close>, \<open>Small_Inv\<close>, \<open>Small_Ops\<close>,
    \<open>Small_Heap\<close>, \<open>Small_Create\<close>, \<open>Small_Props\<close> (\<open>small.c\<close>, \<open>small.h\<close>): size classes, the choice of the pool,
    the waste that activates a pool, sweeping, large objects, creation and destruction; the
    allocator interprets \<open>object_heap\<close>, and the waste is bounded in every state that calls reach.
  \<^item> \<open>Lsregion\<close>, \<open>Lsregion_Props\<close> (\<open>lsregion.c\<close>, \<open>lsregion.h\<close>): the region as a log of addresses; garbage
    collection drops a prefix, flushing hands out bytes once and in order, and all of them when there are
    enough vectors and no slab is unused.
  \<^item> \<open>Matras\<close> (\<open>matras.c\<close>, \<open>matras.h\<close>): the code. \<open>Matras_Inv\<close>: the geometry, the layout of a view as a map from
    positions in the tree to extents, and the invariant on who owns which extent. \<open>Matras_Touch\<close>,
    \<open>Matras_Blocks\<close>, \<open>Matras_Views\<close>, \<open>Matras_Destroy\<close>, \<open>Matras_Teardown\<close>, \<open>Matras_Reserve\<close>: the operations keep
    it. \<open>Matras_Versions\<close>, \<open>Matras_Props\<close>: the array as a versioned sequence of blocks. The locale
    \<open>versioned_array\<close> is the contract, interpreted for all clients and for those that lose no extents;
    \<open>Matras_Demo\<close> has the states of the examples.
  \<^item> \<open>Static_Buffer\<close> (\<open>static.c\<close>, \<open>static.h\<close>): results lie inside the buffer.

  \<^bold>\<open>Parameters.\<close> \<open>mmap\<close> and \<open>malloc\<close> are functions of the time of the call and the ranges in use, and \<open>os_ok\<close>
  states their contract: a result is NULL or a range that overlaps none in use. The allocation function
  of an array of \<open>matras\<close> is a function of the time and the extents in use, with the same contract as
  \<open>alloc_ok\<close>; its counterpart takes back an extent in use. The number of
  effective bits and the real growth factor of the size classes, which libm computes, are the
  parameters of \<open>small_class_create\<close>, with the hypotheses its assertions need.

  \<^bold>\<open>Not modelled.\<close> The red-black tree generated by \<open>rb.h\<close> is what \<open>mempool\<close> uses as an ordered set; the
  model has a sorted list of addresses. The variants for the address sanitizer replace the
  allocators by \<open>malloc\<close>. \<open>small_features\<close> answers with constants, \<open>pmatomic\<close> wraps compiler intrinsics
  whose operations the model states itself, \<open>slab_arena_mprotect\<close> only changes page permissions, and
  the thread checks of the slab cache compare thread ids. Tests, benchmarks and third-party
  headers are left aside.
\<close>

end
